(* ===== verification/Cyber_Prelude.thy ===== *)
theory Cyber_Prelude
  imports Main "HOL-Library.Word"
begin

text \<open>
  Shared material of the development: names for the machine integers of the C++ sources,
  the fact collections the component theories extend, and the lemmas on words, ring
  indices, lists and maps that more than one component uses.
\<close>

section \<open>Machine integers\<close>

type_synonym u8 = "8 word"
type_synonym u16 = "16 word"
type_synonym u32 = "32 word"
type_synonym u64 = "64 word"

text \<open>
  \<open>u64_simps\<close> moves a statement about \<^verbatim>\<open>uint64_t\<close> counters to natural numbers;
  \<open>ring_simps\<close> collects the facts about positions of a ring buffer.
\<close>

named_theorems u64_simps
named_theorems ring_simps

lemma unat_Suc_u64 [u64_simps]: "unat (a :: u64) + 1 < 2 ^ 64 \<Longrightarrow> unat (a + 1) = unat a + 1"
  by (simp add: unat_word_ariths)

lemma unat_add_u64 [u64_simps]:
  "unat (a :: u64) + unat b < 2 ^ 64 \<Longrightarrow> unat (a + b) = unat a + unat b"
  by (simp add: unat_word_ariths)

lemma unat_sub_u64 [u64_simps]: "unat (b :: u64) \<le> unat a \<Longrightarrow> unat (a - b) = unat a - unat b"
  by (simp add: unat_sub word_le_nat_alt)

lemma unat_pred_u64 [u64_simps]: "0 < unat (a :: u64) \<Longrightarrow> unat (a - 1) = unat a - 1"
  by (rule unat_minus_one) (simp add: unat_gt_0)

lemma unat_mod_u64 [u64_simps]: "unat ((a :: u64) mod b) = unat a mod unat b"
  by (rule unat_mod)

lemma unat_div_u64 [u64_simps]: "unat ((a :: u64) div b) = unat a div unat b"
  by (rule unat_div)

lemma u64_eq_iff: "(a :: u64) = b \<longleftrightarrow> unat a = unat b"
  by (simp add: word_unat_eq_iff)

lemma unat_u64_bound: "unat (a :: u64) < 2 ^ 64"
  using unsigned_less [of a, where 'a = nat] by simp

lemma unat_succ_u64: "(a :: u64) \<noteq> - 1 \<Longrightarrow> unat (a + 1) = unat a + 1"
  by (metis add_eq_0_iff2 unatSuc Suc_eq_plus1 add.commute)

lemma unat_of_nat_u64 [u64_simps]: "n < 2 ^ 64 \<Longrightarrow> unat (of_nat n :: u64) = n"
  by (simp add: unat_of_nat)

text \<open>The quotient trick of the sources, \<open>n - (n / d) * d\<close>, is the remainder, without overflow.\<close>

lemma u64_minus_div_mult: "(n :: u64) - (n div d) * d = n mod d"
  by (simp add: minus_div_mult_eq_mod)

text \<open>Masking with a power of two minus one is the remainder.\<close>

unbundle bit_operations_syntax

lemma u64_mask_mod: "k \<le> 64 \<Longrightarrow> unat ((n :: u64) AND mask k) = unat n mod 2 ^ k"
  by (simp add: unsigned_take_bit_eq flip: take_bit_eq_mask) (simp add: take_bit_eq_mod)

section \<open>Numbers in names\<close>

text \<open>\<^verbatim>\<open>std::to_string\<close> of an unsigned number.\<close>

fun nat_to_string :: "nat \<Rightarrow> string" where
  "nat_to_string n = (if n < 10 then [char_of (48 + n)] else nat_to_string (n div 10) @ [char_of (48 + n mod 10)])"

declare nat_to_string.simps [simp del]

definition int_to_string :: "int \<Rightarrow> string" where
  "int_to_string i = (if i < 0 then CHR ''-'' # nat_to_string (nat (- i)) else nat_to_string (nat i))"

section \<open>Positions of a ring\<close>

lemma mod_eq_window:
  fixes i j n :: nat
  assumes "i mod n = j mod n" "i < j + n" "j < i + n"
  shows "i = j"
proof (rule ccontr)
  assume "i \<noteq> j"
  then consider "i < j" | "j < i" by linarith
  then show False
  proof cases
    case 1
    then have "n dvd (j - i)" using assms(1) by (metis mod_eq_dvd_iff_nat less_imp_le)
    with 1 assms(3) show False by (auto dest: dvd_imp_le)
  next
    case 2
    then have "n dvd (i - j)" using assms(1) by (metis mod_eq_dvd_iff_nat less_imp_le)
    with 2 assms(2) show False by (auto dest: dvd_imp_le)
  qed
qed

lemma mod_neq_window [ring_simps]:
  fixes i j n :: nat
  assumes "i \<noteq> j" "i < j + n" "j < i + n"
  shows "i mod n \<noteq> j mod n"
  using assms mod_eq_window by blast

lemma mod_add_self_window [ring_simps]: "(i + n) mod n = i mod (n :: nat)"
  by simp

section \<open>Lists\<close>

lemma upt_Suc_snoc: "a \<le> b \<Longrightarrow> [a..<Suc b] = [a..<b] @ [b]"
  by simp

lemma map_upt_cong: "(\<And>i. a \<le> i \<Longrightarrow> i < b \<Longrightarrow> f i = g i) \<Longrightarrow> map f [a..<b] = map g [a..<b]"
  by (rule map_cong) auto

lemma upt_conv_Cons_le: "a < b \<Longrightarrow> [a..<b] = a # [Suc a..<b]"
  by (rule upt_conv_Cons)

section \<open>Tables with an order\<close>

text \<open>\<^verbatim>\<open>m[k] = v\<close> for a map that is walked: a list with one entry for a key.\<close>

definition set_entry :: "'k \<Rightarrow> 'v \<Rightarrow> ('k \<times> 'v) list \<Rightarrow> ('k \<times> 'v) list" where
  "set_entry k v xs = (if k \<in> fst ` set xs then map (\<lambda>e. if fst e = k then (k, v) else e) xs else xs @ [(k, v)])"

lemma set_set_entry: "set (set_entry k v xs) = {e \<in> set xs. fst e \<noteq> k} \<union> {(k, v)}"
  by (auto simp: set_entry_def split: if_splits)

lemma distinct_set_entry: "distinct (map fst xs) \<Longrightarrow> distinct (map fst (set_entry k v xs))"
proof -
  have "map fst (map (\<lambda>e. if fst e = k then (k, v) else e) xs) = map fst xs" by simp
  then show "distinct (map fst xs) \<Longrightarrow> ?thesis" unfolding set_entry_def by (auto simp del: map_map)
qed

lemma map_of_set_entry: "map_of (set_entry k v xs) j = (if j = k then Some v else map_of xs j)"
proof -
  have "map_of (map (\<lambda>e. if fst e = k then (k, v) else e) xs) j = (if j = k then (if map_of xs k = None then None else Some v) else map_of xs j)"
    by (induction xs) auto
  moreover have "map_of xs k = None \<longleftrightarrow> k \<notin> fst ` set xs" by (simp add: map_of_eq_None_iff)
  ultimately show ?thesis by (cases "k \<in> fst ` set xs") (auto simp: set_entry_def map_add_def split: option.split)
qed

text \<open>How often a reader tries to lock a block of shared memory.\<close>

definition kMaxTryLockTimes :: nat where "kMaxTryLockTimes = 5"

lemma kMaxTryLockTimes_pos [simp]: "0 < kMaxTryLockTimes" by (simp add: kMaxTryLockTimes_def)

end
