(* ===== verification/Cache_Buffer.thy ===== *)
theory Cache_Buffer
  imports Cyber_Prelude
begin

text \<open>
  \<^verbatim>\<open>cyber/data/cache_buffer.h\<close> and \<^verbatim>\<open>cyber/data/channel_buffer.h\<close>: the ring of recent
  messages every reader of a channel owns, and the cursor based reads on it.  The counters
  are \<^verbatim>\<open>uint64_t\<close> and stay words.  The callback a buffer may carry is a
  \<^verbatim>\<open>std::function\<close> in the source; the only closure the sources ever install is the one of
  \<^verbatim>\<open>AllLatest\<close>, so it is represented by the buffers that closure captures.
\<close>

section \<open>CacheBuffer\<close>

type_synonym addr = nat

record fusion_callback =
  fc_inputs :: "addr list"
  fc_fusion :: addr

record 'a cache_buffer =
  cb_head :: u64
  cb_tail :: u64
  cb_capacity :: u64
  cb_buffer :: "'a list"
  cb_fusion_callback :: "fusion_callback option"

definition CacheBuffer :: "'a \<Rightarrow> u64 \<Rightarrow> 'a cache_buffer" where
  "CacheBuffer dflt sz =
     \<lparr>cb_head = 0, cb_tail = 0, cb_capacity = sz + 1,
      cb_buffer = replicate (unat (sz + 1)) dflt, cb_fusion_callback = None\<rparr>"

definition CacheBuffer_copy :: "'a cache_buffer \<Rightarrow> 'a cache_buffer" where
  "CacheBuffer_copy rhs =
     \<lparr>cb_head = cb_head rhs, cb_tail = cb_tail rhs, cb_capacity = cb_capacity rhs,
      cb_buffer = cb_buffer rhs, cb_fusion_callback = cb_fusion_callback rhs\<rparr>"

definition GetIndex :: "'a cache_buffer \<Rightarrow> u64 \<Rightarrow> u64" where
  "GetIndex b pos = pos mod cb_capacity b"

definition at :: "'a cache_buffer \<Rightarrow> u64 \<Rightarrow> 'a" where
  "at b pos = cb_buffer b ! unat (GetIndex b pos)"

definition Head :: "'a cache_buffer \<Rightarrow> u64" where
  "Head b = cb_head b + 1"

definition Tail :: "'a cache_buffer \<Rightarrow> u64" where
  "Tail b = cb_tail b"

definition Size :: "'a cache_buffer \<Rightarrow> u64" where
  "Size b = cb_tail b - cb_head b"

definition Front :: "'a cache_buffer \<Rightarrow> 'a" where
  "Front b = cb_buffer b ! unat (GetIndex b (cb_head b + 1))"

definition Back :: "'a cache_buffer \<Rightarrow> 'a" where
  "Back b = cb_buffer b ! unat (GetIndex b (cb_tail b))"

definition Empty :: "'a cache_buffer \<Rightarrow> bool" where
  "Empty b \<longleftrightarrow> cb_tail b = 0"

definition Full :: "'a cache_buffer \<Rightarrow> bool" where
  "Full b \<longleftrightarrow> cb_capacity b - 1 = cb_tail b - cb_head b"

definition Capacity :: "'a cache_buffer \<Rightarrow> u64" where
  "Capacity b = cb_capacity b"

definition SetFusionCallback :: "fusion_callback \<Rightarrow> 'a cache_buffer \<Rightarrow> 'a cache_buffer" where
  "SetFusionCallback cb b = b\<lparr>cb_fusion_callback := Some cb\<rparr>"

text \<open>\<^verbatim>\<open>Fill\<close> without a callback (its \<open>else\<close> branch); the callback branch is in \<open>Data_Fusion\<close>.\<close>

definition Fill_ring :: "'a \<Rightarrow> 'a cache_buffer \<Rightarrow> 'a cache_buffer" where
  "Fill_ring v b =
     (if Full b
      then b\<lparr>cb_buffer := (cb_buffer b)[unat (GetIndex b (cb_head b)) := v],
             cb_head := cb_head b + 1, cb_tail := cb_tail b + 1\<rparr>
      else b\<lparr>cb_buffer := (cb_buffer b)[unat (GetIndex b (cb_tail b + 1)) := v],
             cb_tail := cb_tail b + 1\<rparr>)"

lemmas cache_buffer_defs = GetIndex_def at_def Head_def Tail_def Size_def Front_def Back_def
  Empty_def Full_def Capacity_def

subsection \<open>What a buffer remembers of the messages filled so far\<close>

text \<open>
  \<open>holds b hist\<close>: \<open>b\<close> is the state after exactly the messages \<open>hist\<close> were filled in, oldest
  first.  Message number \<open>i\<close> (from 1) is \<open>hist ! (i - 1)\<close>; it sits in its slot as long as
  fewer than \<open>cb_capacity\<close> messages came after it.
\<close>

definition holds :: "'a cache_buffer \<Rightarrow> 'a list \<Rightarrow> bool" where
  "holds b hist \<longleftrightarrow>
     length (cb_buffer b) = unat (cb_capacity b) \<and> 0 < unat (cb_capacity b) \<and>
     unat (cb_tail b) = length hist \<and>
     unat (cb_head b) = length hist - (unat (cb_capacity b) - 1) \<and>
     length hist < 2 ^ 64 - 1 \<and>
     (\<forall>i. 1 \<le> i \<and> i \<le> length hist \<and> length hist < i + unat (cb_capacity b) \<longrightarrow>
          cb_buffer b ! (i mod unat (cb_capacity b)) = hist ! (i - 1))"

lemma holds_bounds:
  assumes "holds b hist"
  shows "length (cb_buffer b) = unat (cb_capacity b)" "0 < unat (cb_capacity b)"
    "unat (cb_tail b) = length hist" "unat (cb_head b) = length hist - (unat (cb_capacity b) - 1)"
    "length hist < 2 ^ 64 - 1"
  using assms unfolding holds_def by blast+

lemma holds_slot:
  "holds b hist \<Longrightarrow> 1 \<le> i \<Longrightarrow> i \<le> length hist \<Longrightarrow> length hist < i + unat (cb_capacity b) \<Longrightarrow>
   cb_buffer b ! (i mod unat (cb_capacity b)) = hist ! (i - 1)"
  unfolding holds_def by blast

lemma holds_CacheBuffer: "sz \<noteq> - 1 \<Longrightarrow> holds (CacheBuffer dflt sz) []"
  by (simp add: holds_def CacheBuffer_def unat_gt_0 add_eq_0_iff2)

lemma holds_Full:
  assumes "holds b hist"
  shows "Full b \<longleftrightarrow> unat (cb_capacity b) - 1 \<le> length hist"
proof -
  note h = holds_bounds [OF assms]
  have c: "unat (cb_capacity b - 1) = unat (cb_capacity b) - 1"
    using h(2) by (rule unat_pred_u64)
  have t: "unat (cb_tail b - cb_head b) = length hist - (length hist - (unat (cb_capacity b) - 1))"
    using h(3,4) by (subst unat_sub_u64) simp_all
  have "Full b \<longleftrightarrow> unat (cb_capacity b - 1) = unat (cb_tail b - cb_head b)"
    unfolding Full_def by (rule u64_eq_iff)
  then show ?thesis unfolding c t by linarith
qed

lemma holds_tail_Suc: "holds b hist \<Longrightarrow> unat (cb_tail b + 1) = length hist + 1"
  using holds_bounds [of b hist] by (subst unat_Suc_u64) auto

lemma holds_head_Suc: "holds b hist \<Longrightarrow> unat (cb_head b + 1) = unat (cb_head b) + 1"
  using holds_bounds [of b hist] by (intro unat_Suc_u64) auto

text \<open>Both branches of \<^verbatim>\<open>Fill\<close> write the slot of message number \<open>tail + 1\<close>.\<close>

lemma Fill_ring_slot:
  assumes "holds b hist"
  shows "cb_buffer (Fill_ring v b) = (cb_buffer b)[(length hist + 1) mod unat (cb_capacity b) := v]"
proof (cases "Full b")
  case True
  then have full: "unat (cb_capacity b) - 1 \<le> length hist"
    using holds_Full [OF assms] by simp
  have "length hist + 1 = unat (cb_head b) + unat (cb_capacity b)"
    using holds_bounds [OF assms] full by auto
  then have "unat (cb_head b) mod unat (cb_capacity b) = (length hist + 1) mod unat (cb_capacity b)"
    by simp
  then show ?thesis
    using True by (simp add: Fill_ring_def GetIndex_def unat_mod_u64)
next
  case False
  then show ?thesis
    by (simp add: Fill_ring_def GetIndex_def unat_mod_u64 holds_tail_Suc [OF assms])
qed

lemma holds_Fill_ring:
  assumes h: "holds b hist" and room: "length hist + 1 < 2 ^ 64 - 1"
  shows "holds (Fill_ring v b) (hist @ [v])"
proof -
  let ?n = "length hist" and ?c = "unat (cb_capacity b)"
  note b = holds_bounds [OF h]
  have cap: "cb_capacity (Fill_ring v b) = cb_capacity b"
    and tail: "unat (cb_tail (Fill_ring v b)) = ?n + 1"
    using holds_tail_Suc [OF h] by (simp_all add: Fill_ring_def)
  have head: "unat (cb_head (Fill_ring v b)) = ?n + 1 - (?c - 1)"
    using holds_Full [OF h] holds_head_Suc [OF h] b(4) by (auto simp: Fill_ring_def)
  have "cb_buffer (Fill_ring v b) ! (i mod ?c) = (hist @ [v]) ! (i - 1)"
    if "1 \<le> i" "i \<le> ?n + 1" "?n + 1 < i + ?c" for i
  proof (cases "i = ?n + 1")
    case True
    then show ?thesis using b by (simp add: Fill_ring_slot [OF h])
  next
    case False
    then have "i mod ?c \<noteq> (?n + 1) mod ?c"
      using that by (intro mod_neq_window) auto
    then show ?thesis
      using False that holds_slot [OF h, of i] by (auto simp: Fill_ring_slot [OF h] nth_append)
  qed
  with b(1,2) cap tail head room show ?thesis
    by (simp add: holds_def Fill_ring_slot [OF h])
qed

text \<open>Filling a whole list of messages.\<close>

lemma holds_fold_Fill_ring:
  "holds b hist \<Longrightarrow> length hist + length vs < 2 ^ 64 - 1 \<Longrightarrow>
   holds (fold Fill_ring vs b) (hist @ vs)"
proof (induction vs arbitrary: b hist)
  case (Cons v vs)
  have "holds (Fill_ring v b) (hist @ [v])"
    using Cons.prems by (intro holds_Fill_ring) auto
  from Cons.IH [OF this] Cons.prems(2) show ?case by simp
qed simp

lemma holds_at:
  assumes "holds b hist" "1 \<le> unat p" "unat p \<le> length hist" "length hist < unat p + unat (cb_capacity b)"
  shows "at b p = hist ! (unat p - 1)"
  using holds_slot [OF assms] by (simp add: at_def GetIndex_def unat_mod_u64)

lemma holds_Back: "holds b hist \<Longrightarrow> hist \<noteq> [] \<Longrightarrow> Back b = last hist"
  using holds_slot [of b hist "length hist"] holds_bounds [of b hist]
  by (simp add: Back_def GetIndex_def unat_mod_u64 last_conv_nth Suc_le_eq)

lemma holds_Empty: "holds b hist \<Longrightarrow> Empty b \<longleftrightarrow> hist = []"
  using holds_bounds [of b hist] by (simp add: Empty_def u64_eq_iff)

lemma holds_Size:
  assumes "holds b hist"
  shows "unat (Size b) = min (length hist) (unat (cb_capacity b) - 1)"
proof -
  have "unat (Size b) = unat (cb_tail b) - unat (cb_head b)"
    unfolding Size_def using holds_bounds [OF assms] by (intro unat_sub_u64) simp
  then show ?thesis using holds_bounds [OF assms] by auto
qed

lemma holds_Head: "holds b hist \<Longrightarrow> unat (Head b) = length hist - (unat (cb_capacity b) - 1) + 1"
  using holds_head_Suc [of b hist] holds_bounds [of b hist] by (simp add: Head_def)

section \<open>ChannelBuffer\<close>

text \<open>
  \<^verbatim>\<open>Fetch\<close> takes the cursor \<^verbatim>\<open>*index\<close> and returns \<open>None\<close> where the source returns false
  (every such path leaves \<^verbatim>\<open>*index\<close> as it was), and the new cursor with the message
  otherwise.  The lock held during each call makes the calls atomic.
\<close>

definition Fetch :: "'a cache_buffer \<Rightarrow> u64 \<Rightarrow> (u64 \<times> 'a) option" where
  "Fetch b index =
     (if Empty b then None
      else if index = 0 then Some (Tail b, at b (Tail b))
      else if index = Tail b + 1 then None
      else if index < Head b then Some (Tail b, at b (Tail b))
      else Some (index, at b index))"

definition Latest :: "'a cache_buffer \<Rightarrow> 'a option" where
  "Latest b = (if Empty b then None else Some (Back b))"

definition FetchMulti :: "'a cache_buffer \<Rightarrow> u64 \<Rightarrow> 'a list option" where
  "FetchMulti b fetch_size =
     (if Empty b then None
      else let num = min (Size b) fetch_size
           in Some (map (\<lambda>i. at b (of_nat i)) [unat (Tail b - num + 1)..<unat (Tail b) + 1]))"

lemma holds_Latest: "holds b hist \<Longrightarrow> Latest b = (if hist = [] then None else Some (last hist))"
  by (simp add: Latest_def holds_Empty holds_Back)

text \<open>
  A cursor is legal when it is 0 (nothing read yet) or at most one past the newest message;
  \<^verbatim>\<open>DataVisitor\<close> keeps it so.  A legal \<^verbatim>\<open>Fetch\<close> fails only when there is nothing new, jumps to the
  newest message when it is the first one or was overrun, and else returns the message asked for.
\<close>

lemma holds_Fetch:
  assumes h: "holds b hist" and legal: "unat index \<le> length hist + 1"
  shows "Fetch b index =
    (if hist = [] \<or> (index \<noteq> 0 \<and> unat index = length hist + 1) then None
     else if index = 0 \<or> unat index \<le> length hist - (unat (cb_capacity b) - 1)
       then Some (of_nat (length hist), last hist)
     else Some (index, hist ! (unat index - 1)))"
proof (cases "hist = []")
  case True
  then show ?thesis using h by (simp add: Fetch_def holds_Empty)
next
  case False
  have tail: "Tail b = of_nat (length hist)" "unat (Tail b) = length hist"
    using holds_bounds [OF h] by (auto simp: Tail_def u64_eq_iff unat_of_nat_u64)
  have newest: "at b (Tail b) = last hist"
    using holds_Back [OF h False] by (simp add: Back_def at_def Tail_def)
  have next_: "index = Tail b + 1 \<longleftrightarrow> unat index = length hist + 1"
    using holds_tail_Suc [OF h] by (simp add: u64_eq_iff Tail_def)
  have old: "index < Head b \<longleftrightarrow> unat index \<le> length hist - (unat (cb_capacity b) - 1)"
    using holds_Head [OF h] by (auto simp: word_less_nat_alt)
  have "at b index = hist ! (unat index - 1)"
    if "index \<noteq> 0" "unat index \<noteq> length hist + 1" "\<not> index < Head b"
  proof (rule holds_at [OF h])
    show "1 \<le> unat index" using that(1) by (simp add: Suc_le_eq unat_gt_0)
    show "unat index \<le> length hist" using that(2) legal by simp
    show "length hist < unat index + unat (cb_capacity b)"
      using that(3) holds_bounds [OF h] unfolding old by auto
  qed
  then show ?thesis
    using False next_ old newest tail(1) by (auto simp: Fetch_def holds_Empty [OF h])
qed

lemma holds_FetchMulti:
  assumes h: "holds b hist" and ne: "hist \<noteq> []"
  shows "FetchMulti b n =
    Some (drop (length hist - min (min (length hist) (unat (cb_capacity b) - 1)) (unat n)) hist)"
proof -
  define k where "k = min (min (length hist) (unat (cb_capacity b) - 1)) (unat n)"
  let ?num = "min (Size b) n" and ?i = "length hist - k + 1"
  have num: "unat ?num = k"
    using holds_Size [OF h] by (simp add: min_def word_le_nat_alt k_def)
  have kle: "k \<le> length hist" "k < unat (cb_capacity b)"
    using holds_bounds(2) [OF h] by (auto simp: k_def)
  have len: "unat (Tail b) = length hist" and small: "length hist < 2 ^ 64 - 1"
    using holds_bounds [OF h] by (auto simp: Tail_def)
  have "unat (Tail b - ?num) = length hist - k"
    using num len kle by (subst unat_sub_u64) auto
  then have start: "unat (Tail b - ?num + 1) = ?i"
    using small by (subst unat_Suc_u64) auto
  have "map (\<lambda>i. at b (of_nat i)) [?i..<length hist + 1] = drop (length hist - k) hist"
  proof (rule nth_equalityI)
    fix j assume "j < length (map (\<lambda>i. at b (of_nat i)) [?i..<length hist + 1])"
    then have j: "j < k" using kle by (simp del: upt_Suc)
    then have "unat (of_nat (?i + j) :: u64) = ?i + j"
      using small kle by (intro unat_of_nat_u64) linarith
    then have "at b (of_nat (?i + j)) = hist ! (?i + j - 1)"
      using j kle holds_at [OF h, of "of_nat (?i + j)"] by (simp del: of_nat_add)
    then show "map (\<lambda>i. at b (of_nat i)) [?i..<length hist + 1] ! j = drop (length hist - k) hist ! j"
      using j kle by (simp del: upt_Suc of_nat_add)
  qed (use kle in \<open>simp del: upt_Suc\<close>)
  then show ?thesis
    using start len ne by (simp add: FetchMulti_def Let_def holds_Empty [OF h] k_def del: upt_Suc)
qed

section \<open>Properties\<close>

lemma holds_new:
  "sz \<noteq> - 1 \<Longrightarrow> length vs < 2 ^ 64 - 1 \<Longrightarrow> holds (fold Fill_ring vs (CacheBuffer dflt sz)) vs"
  using holds_fold_Fill_ring [OF holds_CacheBuffer, of sz vs dflt] by simp

lemma capacity_new [simp]: "cb_capacity (fold Fill_ring vs (CacheBuffer dflt sz)) = sz + 1"
proof -
  have "cb_capacity (fold Fill_ring vs b) = cb_capacity b" for b :: "'a cache_buffer"
    by (induction vs arbitrary: b) (auto simp: Fill_ring_def)
  then show ?thesis by (simp add: CacheBuffer_def)
qed

text \<open>
  A channel buffer created for \<open>sz\<close> messages keeps exactly the last \<open>sz\<close> of the messages
  filled into it: a bulk fetch of \<open>n\<close> returns the newest \<open>min n sz\<close> of them, oldest first, and fails
  only when nothing was ever filled.
\<close>

lemma ring_keeps_last:
  assumes "sz \<noteq> - 1" and "length vs < 2 ^ 64 - 1"
  shows "FetchMulti (fold Fill_ring vs (CacheBuffer dflt sz)) n =
    (if vs = [] then None
     else Some (drop (length vs - min (min (length vs) (unat sz)) (unat n)) vs))"
proof (cases "vs = []")
  case True
  then show ?thesis by (simp add: FetchMulti_def Empty_def CacheBuffer_def)
next
  case False
  then show ?thesis
    using holds_FetchMulti [OF holds_new [OF assms] False] unat_succ_u64 [OF assms(1)] by simp
qed

lemma ring_keeps_last_witness:
  "FetchMulti (fold Fill_ring [1, 2, 3, 4, 5] (CacheBuffer (0 :: nat) 2)) 10 = Some [4, 5]"
proof -
  have "(2 :: u64) \<noteq> - 1" and "length [1, 2, 3, 4, 5 :: nat] < 2 ^ 64 - 1" by simp_all
  from ring_keeps_last [OF this, where dflt = 0 and n = 10] show ?thesis by simp
qed

text \<open>Reading on with the cursor \<^verbatim>\<open>Fetch\<close> leaves behind, as \<^verbatim>\<open>DataVisitor::TryFetch\<close> does.\<close>

fun drain :: "nat \<Rightarrow> 'a cache_buffer \<Rightarrow> u64 \<Rightarrow> 'a list" where
  "drain 0 b i = []"
| "drain (Suc n) b i = (case Fetch b i of None \<Rightarrow> [] | Some (p, m) \<Rightarrow> m # drain n b (p + 1))"

lemma drain_holds:
  assumes h: "holds b hist"
  shows "1 \<le> unat i \<Longrightarrow> unat i \<le> length hist + 1 \<Longrightarrow>
    length hist - (unat (cb_capacity b) - 1) < unat i \<Longrightarrow> drain n b i = take n (drop (unat i - 1) hist)"
proof (induction n arbitrary: i)
  case (Suc n)
  show ?case
  proof (cases "unat i = length hist + 1")
    case True
    then have "i \<noteq> 0" by auto
    then show ?thesis using holds_Fetch [OF h, of i] Suc.prems True by simp
  next
    case False
    then have le: "unat i \<le> length hist" using Suc.prems by simp
    have "i \<noteq> 0" using Suc.prems(1) by auto
    then have f: "Fetch b i = Some (i, hist ! (unat i - 1))"
      using holds_Fetch [OF h, of i] Suc.prems False le by auto
    have "unat (i + 1) = unat i + 1"
      using le holds_bounds [OF h] by (intro unat_Suc_u64) auto
    then have "drain n b (i + 1) = take n (drop (unat i) hist)"
      using Suc.IH [of "i + 1"] Suc.prems le by simp
    moreover have "drop (unat i - 1) hist = hist ! (unat i - 1) # drop (unat i) hist"
      using le Suc.prems(1) Cons_nth_drop_Suc [of "unat i - 1" hist] by simp
    ultimately show ?thesis using f by simp
  qed
qed simp

text \<open>
  Claim C10. A reader that lags behind the writer by no more messages than the buffer was created for
  loses nothing: reading on from cursor \<open>i\<close> it gets every message from number \<open>i\<close>, in the order they
  were filled, each once, and then \<^verbatim>\<open>Fetch\<close> reports that there is nothing new.
\<close>

theorem reader_within_lag_gets_all:
  assumes "sz \<noteq> - 1" "length vs < 2 ^ 64 - 1"
    and "1 \<le> unat i" "unat i \<le> length vs + 1" "length vs < unat i + unat sz"
  shows "drain n (fold Fill_ring vs (CacheBuffer dflt sz)) i = take n (drop (unat i - 1) vs)"
  using drain_holds [OF holds_new [OF assms(1,2)], of i] assms unat_succ_u64 [OF assms(1)]
  by simp

theorem reader_within_lag_gets_all_witness:
  "drain 9 (fold Fill_ring [11, 12, 13, 14] (CacheBuffer (0 :: nat) 3)) 2 = [12, 13, 14]"
proof -
  have "drain 9 (fold Fill_ring [11, 12, 13, 14] (CacheBuffer (0 :: nat) 3)) 2 =
      take 9 (drop (unat (2 :: u64) - 1) [11, 12, 13, 14 :: nat])"
    by (rule reader_within_lag_gets_all) simp_all
  then show ?thesis by simp
qed

end
