(* ===== verification/Cyber_Interfaces.thy ===== *)
theory Cyber_Interfaces
  imports Cyber_Prelude
begin

text \<open>
  The contracts between components, as locales: what a client may call (\<open>fixes\<close>), what the
  provider promises (\<open>assumes\<close>), and the lemmas the clients share, proved once from the
  promises.  Each is interpreted on the model of every provider, in that provider's theory.
\<close>

section \<open>Maps from channel ids\<close>

locale key_store =
  fixes inv :: "'m \<Rightarrow> bool"
    and lookup :: "'m \<Rightarrow> u64 \<Rightarrow> 'v option"
    and assign :: "u64 \<Rightarrow> 'v \<Rightarrow> 'm \<Rightarrow> 'm"
    and mutate :: "u64 \<Rightarrow> ('v \<Rightarrow> 'v) \<Rightarrow> 'm \<Rightarrow> 'm"
  assumes assign_inv: "inv m \<Longrightarrow> inv (assign k v m)"
    and mutate_inv: "inv m \<Longrightarrow> inv (mutate k f m)"
    and lookup_assign: "inv m \<Longrightarrow> lookup (assign k v m) = (lookup m)(k \<mapsto> v)"
    and lookup_mutate: "inv m \<Longrightarrow> lookup (mutate k f m) = (lookup m)(k := map_option f (lookup m k))"

text \<open>
  The registries (\<^verbatim>\<open>DataNotifier\<close>, \<^verbatim>\<open>DataDispatcher\<close>) keep a vector per key and append to it:
  in place when the key is there, else by setting a one-element vector.
\<close>

locale key_registry = key_store inv lookup assign mutate
  for inv :: "'m \<Rightarrow> bool"
    and lookup :: "'m \<Rightarrow> u64 \<Rightarrow> 'x list option"
    and assign :: "u64 \<Rightarrow> 'x list \<Rightarrow> 'm \<Rightarrow> 'm"
    and mutate :: "u64 \<Rightarrow> ('x list \<Rightarrow> 'x list) \<Rightarrow> 'm \<Rightarrow> 'm" +
  fixes add :: "u64 \<Rightarrow> 'x \<Rightarrow> 'm \<Rightarrow> 'm"
  assumes add_eq: "add k x m =
    (case lookup m k of Some _ \<Rightarrow> mutate k (\<lambda>xs. xs @ [x]) m | None \<Rightarrow> assign k [x] m)"
begin

definition registered :: "'m \<Rightarrow> u64 \<Rightarrow> 'x list" where
  "registered m k = (case lookup m k of Some xs \<Rightarrow> xs | None \<Rightarrow> [])"

lemma add_inv: "inv m \<Longrightarrow> inv (add k x m)"
  by (simp add: add_eq assign_inv mutate_inv split: option.split)

lemma lookup_add: "inv m \<Longrightarrow> lookup (add k x m) = (lookup m)(k \<mapsto> registered m k @ [x])"
  by (simp add: add_eq registered_def lookup_assign lookup_mutate split: option.split)

text \<open>After a series of additions a key holds its own items, in the order they were added.\<close>

lemma registered_adds:
  "inv m \<Longrightarrow> registered (fold (\<lambda>(k, x). add k x) kxs m) j =
     registered m j @ map snd (filter (\<lambda>kx. fst kx = j) kxs)"
proof (induction kxs arbitrary: m)
  case (Cons kx kxs)
  obtain k x where kx: "kx = (k, x)" by (cases kx)
  have "registered (add k x m) j = registered m j @ (if k = j then [x] else [])"
    using Cons.prems by (simp add: registered_def lookup_add)
  then show ?case
    using Cons.IH [of "add k x m"] Cons.prems kx by (simp add: add_inv)
qed simp

lemma adds_inv: "inv m \<Longrightarrow> inv (fold (\<lambda>(k, x). add k x) kxs m)"
  by (induction kxs arbitrary: m) (auto simp: add_inv)

end

section \<open>First-in first-out queues\<close>

datatype 'a fifo_op = Enq 'a | Deq

text \<open>
  A series of calls on a queue: the elements the queue accepted, the elements it gave back, and
  the final queue.
\<close>

fun fifo_run ::
  "('a \<Rightarrow> 'q \<Rightarrow> bool \<times> 'q) \<Rightarrow> ('q \<Rightarrow> 'a option \<times> 'q) \<Rightarrow> 'a fifo_op list \<Rightarrow> 'q \<Rightarrow> 'a list \<times> 'a list \<times> 'q" where
  "fifo_run enq deq [] q = ([], [], q)"
| "fifo_run enq deq (Enq x # ops) q =
     (case enq x q of (ok, q') \<Rightarrow>
        case fifo_run enq deq ops q' of (acc, out, q'') \<Rightarrow> (if ok then x # acc else acc, out, q''))"
| "fifo_run enq deq (Deq # ops) q =
     (case deq q of (r, q') \<Rightarrow>
        case fifo_run enq deq ops q' of (acc, out, q'') \<Rightarrow>
          (acc, (case r of None \<Rightarrow> out | Some x \<Rightarrow> x # out), q''))"

text \<open>
  \<open>ready n q\<close> says that \<open>n\<close> more insertions stay within the range of the queue's counters.
\<close>

locale fifo =
  fixes inv :: "'q \<Rightarrow> bool"
    and ready :: "nat \<Rightarrow> 'q \<Rightarrow> bool"
    and contents :: "'q \<Rightarrow> 'a list"
    and enq :: "'a \<Rightarrow> 'q \<Rightarrow> bool \<times> 'q"
    and deq :: "'q \<Rightarrow> 'a option \<times> 'q"
  assumes enq_accept: "inv q \<Longrightarrow> ready (Suc n) q \<Longrightarrow> enq x q = (True, q') \<Longrightarrow>
      inv q' \<and> ready n q' \<and> contents q' = contents q @ [x]"
    and enq_reject: "enq x q = (False, q') \<Longrightarrow> q' = q"
    and deq_take: "inv q \<Longrightarrow> contents q = x # xs \<Longrightarrow>
      \<exists>q'. deq q = (Some x, q') \<and> inv q' \<and> contents q' = xs \<and> (\<forall>n. ready n q \<longrightarrow> ready n q')"
    and deq_none: "inv q \<Longrightarrow> contents q = [] \<Longrightarrow> deq q = (None, q)"
    and ready_mono: "ready (Suc n) q \<Longrightarrow> ready n q"
begin

text \<open>Nothing is lost, duplicated or reordered: what came out, then what is left, is what was there, then what went in.\<close>

lemma run_conserves:
  "inv q \<Longrightarrow> ready (length ops) q \<Longrightarrow> fifo_run enq deq ops q = (acc, out, q') \<Longrightarrow>
   inv q' \<and> out @ contents q' = contents q @ acc"
proof (induction ops arbitrary: q acc out)
  case (Cons e ops)
  show ?case
  proof (cases e)
    case (Enq x)
    obtain ok q1 where e1: "enq x q = (ok, q1)" by (cases "enq x q")
    obtain acc1 out1 where r: "fifo_run enq deq ops q1 = (acc1, out1, q')"
      and a: "acc = (if ok then x # acc1 else acc1)" "out = out1"
      using Cons.prems(3) Enq e1 by (auto split: prod.splits)
    show ?thesis
    proof (cases ok)
      case True
      then show ?thesis
        using enq_accept [of q "length ops" x q1] Cons.prems Cons.IH [OF _ _ r] e1 a by simp
    next
      case False
      then show ?thesis
        using enq_reject [of x q q1] Cons.prems Cons.IH [OF _ _ r] e1 a ready_mono by simp
    qed
  next
    case Deq
    obtain o1 q1 where d: "deq q = (o1, q1)" by (cases "deq q")
    obtain acc1 out1 where r: "fifo_run enq deq ops q1 = (acc1, out1, q')"
      and a: "acc = acc1" "out = (case o1 of None \<Rightarrow> out1 | Some x \<Rightarrow> x # out1)"
      using Cons.prems(3) Deq d by (auto split: prod.splits)
    show ?thesis
    proof (cases "contents q")
      case Nil
      then show ?thesis
        using deq_none [of q] Cons.prems Cons.IH [OF _ _ r] d a ready_mono by simp
    next
      case (Cons x xs)
      then show ?thesis
        using deq_take [of q x xs] Cons.prems Cons.IH [OF _ _ r] d a ready_mono by auto
    qed
  qed
qed simp

end

end
