(* ===== verification/Atomic_Hash_Map.thy ===== *)
theory Atomic_Hash_Map
  imports Cyber_Interfaces
begin

text \<open>
  \<^verbatim>\<open>cyber/base/atomic_hash_map.h\<close>: the lock-free map behind the data dispatchers and
  notifiers.  A bucket is the chain of entries behind its dummy head, in chain order; entries
  are only ever added, so an \<^verbatim>\<open>Entry*\<close> is named by its key (\<open>None\<close> is the dummy head, or the
  null pointer for a target).  A value pointer is an allocation number with the value behind
  it: compare-and-swap compares the number.

  One round of the \<^verbatim>\<open>while (true)\<close> of \<^verbatim>\<open>Insert\<close> looks at the chain up to three times (the
  walk of \<^verbatim>\<open>Find\<close>, the load of the old value pointer, the compare-and-swap).  Other threads
  may have changed the chain in between, so the round takes three chains.
\<close>

section \<open>Bucket\<close>

type_synonym 'v bucket = "(u64 \<times> nat \<times> 'v) list"

fun bucket_Has :: "u64 \<Rightarrow> 'v bucket \<Rightarrow> bool" where
  "bucket_Has key [] = False"
| "bucket_Has key ((k, _) # es) = (if k < key then bucket_Has key es else k = key)"

fun Find_from :: "u64 \<Rightarrow> u64 option \<Rightarrow> 'v bucket \<Rightarrow> bool \<times> u64 option \<times> u64 option" where
  "Find_from key prev [] = (False, prev, None)"
| "Find_from key prev ((k, _) # es) =
     (if k = key then (True, prev, Some k)
      else if k > key then (False, prev, Some k)
      else Find_from key (Some k) es)"

definition bucket_Find :: "u64 \<Rightarrow> 'v bucket \<Rightarrow> bool \<times> u64 option \<times> u64 option" where
  "bucket_Find key es = Find_from key None es"

definition bucket_Get :: "u64 \<Rightarrow> 'v bucket \<Rightarrow> (nat \<times> 'v) option" where
  "bucket_Get key es =
     (case bucket_Find key es of
        (True, _, Some t) \<Rightarrow> map_of es t
      | _ \<Rightarrow> None)"

fun next_of :: "'v bucket \<Rightarrow> u64 option \<Rightarrow> u64 option" where
  "next_of es None = (case es of [] \<Rightarrow> None | (k, _) # _ \<Rightarrow> Some k)"
| "next_of [] (Some p) = None"
| "next_of ((k, _) # es) (Some p) = (if k = p then next_of es None else next_of es (Some p))"

fun link_after :: "u64 option \<Rightarrow> u64 \<times> nat \<times> 'v \<Rightarrow> 'v bucket \<Rightarrow> 'v bucket" where
  "link_after None e es = e # es"
| "link_after (Some p) e [] = []"
| "link_after (Some p) e (x # es) = (if fst x = p then x # e # es else x # link_after (Some p) e es)"

fun store_value :: "u64 \<Rightarrow> nat \<times> 'v \<Rightarrow> 'v bucket \<Rightarrow> 'v bucket" where
  "store_value t pv [] = []"
| "store_value t pv ((k, x) # es) = (if k = t then (k, pv) # es else (k, x) # store_value t pv es)"

definition Insert_round ::
  "u64 \<Rightarrow> nat \<times> 'v \<Rightarrow> 'v bucket \<Rightarrow> 'v bucket \<Rightarrow> 'v bucket \<Rightarrow> 'v bucket option" where
  "Insert_round key pv es_find es_load es_cas =
     (case bucket_Find key es_find of
        (True, _, Some t) \<Rightarrow>
          (if map_option fst (map_of es_load t) = map_option fst (map_of es_cas t)
           then Some (store_value t pv es_cas) else None)
      | (_, prev, target) \<Rightarrow>
          (if next_of es_cas prev = target
           then Some (link_after prev (key, pv) es_cas) else None))"

text \<open>Without interference the three chains are the same one.\<close>

definition bucket_Insert :: "u64 \<Rightarrow> nat \<times> 'v \<Rightarrow> 'v bucket \<Rightarrow> 'v bucket option" where
  "bucket_Insert key pv es = Insert_round key pv es es es"

subsection \<open>Sorted chains\<close>

definition chain :: "'v bucket \<Rightarrow> bool" where
  "chain es \<longleftrightarrow> sorted_wrt (<) (map fst es)"

definition keys :: "'v bucket \<Rightarrow> u64 set" where
  "keys es = fst ` set es"

lemma chain_simps [simp]:
  "chain []" "chain (e # es) \<longleftrightarrow> (\<forall>k \<in> keys es. fst e < k) \<and> chain es"
  by (auto simp: chain_def keys_def)

lemma keys_simps [simp]: "keys [] = {}" "keys (e # es) = insert (fst e) (keys es)"
  by (auto simp: keys_def)

lemma map_of_None_keys: "map_of es k = None \<longleftrightarrow> k \<notin> keys es"
  by (simp add: keys_def map_of_eq_None_iff)

lemma bucket_Has_iff: "chain es \<Longrightarrow> bucket_Has key es \<longleftrightarrow> key \<in> keys es"
proof (induction key es rule: bucket_Has.induct)
  case (2 key k x es)
  show ?case
  proof (cases "k < key")
    case False
    then have "key \<notin> keys es" using "2.prems" by auto
    with False show ?thesis by auto
  qed (use 2 in auto)
qed simp

text \<open>What \<^verbatim>\<open>Find\<close> returns on a sorted chain, from any point of the walk.\<close>

lemma Find_from_found:
  "chain es \<Longrightarrow> fst (Find_from key prev es) \<longleftrightarrow> key \<in> keys es"
proof (induction key prev es rule: Find_from.induct)
  case (2 key prev k x es)
  show ?case
  proof (cases "k < key")
    case True
    then show ?thesis using 2 by auto
  next
    case False
    then have "k \<noteq> key \<Longrightarrow> key \<notin> keys es" using "2.prems" by auto
    with False show ?thesis by auto
  qed
qed simp

lemma Find_from_target:
  "Find_from key prev es = (True, p, t) \<Longrightarrow> t = Some key"
  by (induction key prev es rule: Find_from.induct) (auto split: if_splits)

lemma Find_from_gap:
  assumes "Find_from key prev es = (False, p, t)"
    and "\<forall>q. prev = Some q \<longrightarrow> q < key"
  shows "(\<forall>q. p = Some q \<longrightarrow> q < key) \<and> (\<forall>q. t = Some q \<longrightarrow> key < q)
    \<and> (p = prev \<or> (\<exists>q \<in> keys es. p = Some q))"
  using assms by (induction key prev es rule: Find_from.induct) (auto split: if_splits)

lemma next_of_mono:
  assumes "chain es" "next_of es (Some p) = Some t" "p \<in> keys es"
  shows "t \<in> keys es \<and> (\<forall>k \<in> keys es. k \<le> p \<or> t \<le> k)"
  using assms
proof (induction es)
  case (Cons e es)
  then show ?case by (cases e) (auto split: if_splits list.splits dest: less_imp_le)
qed simp

lemma next_of_last:
  assumes "chain es" "next_of es (Some p) = None" "p \<in> keys es"
  shows "\<forall>k \<in> keys es. k \<le> p"
  using assms
proof (induction es)
  case (Cons e es)
  then show ?case by (cases e) (auto split: if_splits list.splits dest: less_imp_le)
qed simp

text \<open>The gap between a predecessor that is still there and its successor.\<close>

definition gap :: "u64 \<Rightarrow> u64 option \<Rightarrow> 'v bucket \<Rightarrow> bool" where
  "gap key prev es \<longleftrightarrow>
     (case prev of None \<Rightarrow> \<forall>k \<in> keys es. key < k
      | Some p \<Rightarrow> p \<in> keys es \<and> p < key \<and> (\<forall>k \<in> keys es. k \<le> p \<or> key < k))"

lemma gap_of_next:
  assumes c: "chain es" and n: "next_of es prev = target"
    and p: "\<forall>q. prev = Some q \<longrightarrow> q < key \<and> q \<in> keys es"
    and t: "\<forall>q. target = Some q \<longrightarrow> key < q"
  shows "gap key prev es"
proof (cases prev)
  case None
  then show ?thesis using c n t by (cases es) (auto simp: gap_def dest: less_trans)
next
  case (Some q)
  show ?thesis
  proof (cases target)
    case None
    then show ?thesis using next_of_last [OF c] n p Some by (auto simp: gap_def)
  next
    case (Some r)
    have "\<forall>k \<in> keys es. k \<le> q \<or> r \<le> k"
      using next_of_mono [OF c] n p Some \<open>prev = Some q\<close> by auto
    then show ?thesis using p t Some \<open>prev = Some q\<close> by (auto simp: gap_def dest: less_le_trans)
  qed
qed

lemma gap_new: "gap key prev es \<Longrightarrow> key \<notin> keys es"
  by (auto simp: gap_def split: option.splits)

lemma gap_Cons:
  "gap key (Some p) (x # es) \<Longrightarrow> chain (x # es) \<Longrightarrow> fst x \<noteq> p \<Longrightarrow> gap key (Some p) es"
  by (auto simp: gap_def)

lemma link_after_keys: "gap key prev es \<Longrightarrow> chain es \<Longrightarrow> keys (link_after prev (key, pv) es) = insert key (keys es)"
proof (induction prev "(key, pv)" es rule: link_after.induct)
  case (3 p x es)
  then show ?case using gap_Cons [of key p x es] by auto
qed (auto simp: gap_def)

lemma link_after_chain: "gap key prev es \<Longrightarrow> chain es \<Longrightarrow> chain (link_after prev (key, pv) es)"
proof (induction prev "(key, pv)" es rule: link_after.induct)
  case (3 p x es)
  show ?case
  proof (cases "fst x = p")
    case True
    have "\<forall>k \<in> keys es. fst x < k" using 3 by simp
    then have "\<forall>k \<in> keys es. key < k" using 3 True by (fastforce simp: gap_def)
    then show ?thesis using 3 True by (auto simp: gap_def)
  next
    case False
    have g: "gap key (Some p) es" using 3 False gap_Cons by blast
    have "p \<in> keys es" using g by (simp add: gap_def)
    then have "fst x < key" using 3 g by (auto simp: gap_def dest: less_trans)
    then show ?thesis using 3 False g by (auto simp: link_after_keys)
  qed
qed (auto simp: gap_def)

lemma link_after_map_of:
  "gap key prev es \<Longrightarrow> chain es \<Longrightarrow> map_of (link_after prev (key, pv) es) = (map_of es)(key \<mapsto> pv)"
proof (induction prev "(key, pv)" es rule: link_after.induct)
  case (3 p x es)
  have new: "key \<notin> keys (x # es)" using 3 gap_new by blast
  show ?case
  proof (cases "fst x = p")
    case True
    then show ?thesis using new by (cases x) auto
  next
    case False
    then show ?thesis using 3 new gap_Cons [of key p x es] by (cases x) auto
  qed
qed (auto simp: gap_def)

lemma store_value_keys [simp]: "keys (store_value t pv es) = keys es"
  by (induction t pv es rule: store_value.induct) auto

lemma store_value_chain: "chain es \<Longrightarrow> chain (store_value t pv es)"
  by (induction t pv es rule: store_value.induct) auto

lemma store_value_map_of:
  "t \<in> keys es \<Longrightarrow> map_of (store_value t pv es) = (map_of es)(t \<mapsto> pv)"
  by (induction t pv es rule: store_value.induct) auto

section \<open>Insertion under interference\<close>

text \<open>
  The walk may have seen an older chain; it is enough that every key of that chain is still in
  the current one (entries are never unlinked).  A round that wins its compare-and-swap then
  acts on the current chain as one atomic map update.
\<close>

lemma Insert_round_update:
  assumes f: "chain es_find" and c: "chain es" and sub: "keys es_find \<subseteq> keys es"
    and r: "Insert_round key pv es_find es_load es = Some es'"
  shows "chain es' \<and> map_of es' = (map_of es)(key \<mapsto> pv) \<and> keys es' = insert key (keys es)"
proof -
  obtain found prev target where fi: "Find_from key None es_find = (found, prev, target)"
    by (cases "Find_from key None es_find")
  show ?thesis
  proof (cases found)
    case True
    then have t: "target = Some key" using fi Find_from_target [of key None es_find] by simp
    have mem: "key \<in> keys es" using Find_from_found [OF f, of key None] fi True sub by auto
    have "es' = store_value key pv es"
      using r t fi True by (simp add: Insert_round_def bucket_Find_def split: if_splits)
    then show ?thesis
      using c mem by (simp add: store_value_chain store_value_map_of insert_absorb)
  next
    case False
    have g: "(\<forall>q. prev = Some q \<longrightarrow> q < key) \<and> (\<forall>q. target = Some q \<longrightarrow> key < q) \<and> (prev = None \<or> (\<exists>q \<in> keys es_find. prev = Some q))"
      using Find_from_gap [of key None es_find prev target] fi False by simp
    have n: "next_of es prev = target" and e: "es' = link_after prev (key, pv) es"
      using r fi False by (auto simp: Insert_round_def bucket_Find_def split: if_splits)
    have "gap key prev es"
      using g sub by (intro gap_of_next [OF c n]) auto
    then show ?thesis
      using c e by (simp add: link_after_keys link_after_chain link_after_map_of)
  qed
qed

text \<open>Every history of a bucket that any number of inserting threads can produce, newest first.\<close>

inductive bucket_history :: "'v bucket list \<Rightarrow> bool" where
  fresh: "bucket_history [[]]"
| insert_round: "bucket_history (es # h) \<Longrightarrow> es_find \<in> set (es # h) \<Longrightarrow> es_load \<in> set (es # h) \<Longrightarrow>
    Insert_round key pv es_find es_load es = Some es' \<Longrightarrow> bucket_history (es' # es # h)"

lemma bucket_history_inv:
  "bucket_history h \<Longrightarrow> h \<noteq> [] \<and> (\<forall>es \<in> set h. chain es \<and> keys es \<subseteq> keys (hd h))"
proof (induction rule: bucket_history.induct)
  case (insert_round es h es_find es_load key pv es')
  then have "chain es_find" "chain es" "keys es_find \<subseteq> keys es" by auto
  from Insert_round_update [OF this insert_round.hyps(4)] insert_round.IH
  show ?case by auto
qed simp

lemma Insert_round_quiet:
  assumes "chain es"
  shows "\<exists>es'. Insert_round key pv es es es = Some es'"
proof -
  obtain found prev target where fi: "Find_from key None es = (found, prev, target)"
    by (cases "Find_from key None es")
  have "next_of es prev = target" if "\<not> found"
  proof -
    have "Find_from key prev0 es = (False, prev, target) \<Longrightarrow>
        (prev = prev0 \<and> target = next_of es None) \<or>
        (\<exists>q \<in> keys es. prev = Some q \<and> next_of es prev = target)" for prev0
      using assms by (induction key prev0 es rule: Find_from.induct) (auto split: if_splits)
    from this [of None] fi that show ?thesis by auto
  qed
  then show ?thesis
    using fi Find_from_target [of key None es prev target]
    by (cases found) (auto simp: Insert_round_def bucket_Find_def)
qed

lemma bucket_Insert_total:
  "chain es \<Longrightarrow> \<exists>es'. bucket_Insert key pv es = Some es' \<and> chain es' \<and> map_of es' = (map_of es)(key \<mapsto> pv)"
  using Insert_round_quiet [of es key pv] Insert_round_update [of es es key pv es]
  by (auto simp: bucket_Insert_def)

lemma bucket_Get_map_of: "chain es \<Longrightarrow> bucket_Get key es = map_of es key"
proof -
  assume c: "chain es"
  obtain found prev target where fi: "Find_from key None es = (found, prev, target)"
    by (cases "Find_from key None es")
  show ?thesis
  proof (cases found)
    case True
    then show ?thesis using fi Find_from_target [of key None es] by (auto simp: bucket_Get_def bucket_Find_def)
  next
    case False
    then have "key \<notin> keys es" using Find_from_found [OF c, of key None] fi by simp
    then have "map_of es key = None" by (simp add: map_of_None_keys)
    then show ?thesis using False fi by (simp add: bucket_Get_def bucket_Find_def)
  qed
qed

section \<open>The map\<close>

text \<open>
  \<^verbatim>\<open>TableSize\<close> is a power of two (the template demands it), here \<open>2 ^ n\<close>; the sources use the
  default \<open>n = 7\<close>.  \<open>ahm_next\<close> numbers the allocations of \<^verbatim>\<open>new V\<close>.  The \<^verbatim>\<open>V**\<close> variant of
  \<^verbatim>\<open>Get\<close> lets the caller change the value in place: \<open>ahm_mutate\<close> is that change.
\<close>

record 'v atomic_hash_map =
  ahm_table :: "'v bucket list"
  ahm_mode_num :: u64
  ahm_next :: nat

definition AtomicHashMap :: "nat \<Rightarrow> 'v atomic_hash_map" where
  "AtomicHashMap n = \<lparr>ahm_table = replicate (2 ^ n) [], ahm_mode_num = 2 ^ n - 1, ahm_next = 0\<rparr>"

definition ahm_index :: "'v atomic_hash_map \<Rightarrow> u64 \<Rightarrow> nat" where
  "ahm_index m key = unat (key AND ahm_mode_num m)"

definition ahm_Has :: "'v atomic_hash_map \<Rightarrow> u64 \<Rightarrow> bool" where
  "ahm_Has m key = bucket_Has key (ahm_table m ! ahm_index m key)"

definition ahm_Get :: "'v atomic_hash_map \<Rightarrow> u64 \<Rightarrow> 'v option" where
  "ahm_Get m key = map_option snd (bucket_Get key (ahm_table m ! ahm_index m key))"

definition ahm_put_bucket :: "nat \<Rightarrow> 'v bucket \<Rightarrow> 'v atomic_hash_map \<Rightarrow> 'v atomic_hash_map" where
  "ahm_put_bucket i es m = m\<lparr>ahm_table := (ahm_table m)[i := es]\<rparr>"

definition ahm_Set :: "u64 \<Rightarrow> 'v \<Rightarrow> 'v atomic_hash_map \<Rightarrow> 'v atomic_hash_map" where
  "ahm_Set key v m =
     (case bucket_Insert key (ahm_next m, v) (ahm_table m ! ahm_index m key) of
        Some es \<Rightarrow> (ahm_put_bucket (ahm_index m key) es m)\<lparr>ahm_next := Suc (ahm_next m)\<rparr>
      | None \<Rightarrow> m)"

definition ahm_mutate :: "u64 \<Rightarrow> ('v \<Rightarrow> 'v) \<Rightarrow> 'v atomic_hash_map \<Rightarrow> 'v atomic_hash_map" where
  "ahm_mutate key f m =
     (case bucket_Get key (ahm_table m ! ahm_index m key) of
        Some (p, v) \<Rightarrow> ahm_put_bucket (ahm_index m key)
          (store_value key (p, f v) (ahm_table m ! ahm_index m key)) m
      | None \<Rightarrow> m)"

definition ahm_inv :: "'v atomic_hash_map \<Rightarrow> bool" where
  "ahm_inv m \<longleftrightarrow> (\<exists>n \<le> 63. length (ahm_table m) = 2 ^ n \<and> ahm_mode_num m = mask n)
     \<and> (\<forall>es \<in> set (ahm_table m). chain es)"

lemma ahm_inv_AtomicHashMap: "n \<le> 63 \<Longrightarrow> ahm_inv (AtomicHashMap n)"
  by (auto simp: ahm_inv_def AtomicHashMap_def mask_eq_exp_minus_1)

lemma ahm_index_less: "ahm_inv m \<Longrightarrow> ahm_index m key < length (ahm_table m)"
  by (auto simp: ahm_inv_def ahm_index_def u64_mask_mod)

lemma ahm_bucket_chain: "ahm_inv m \<Longrightarrow> chain (ahm_table m ! ahm_index m key)"
  using ahm_index_less [of m key] by (simp add: ahm_inv_def)

lemma ahm_put_bucket_inv: "ahm_inv m \<Longrightarrow> chain es \<Longrightarrow> ahm_inv (ahm_put_bucket i es m)"
  by (auto simp: ahm_inv_def ahm_put_bucket_def dest: set_update_subset_insert [THEN subsetD])

lemma ahm_Get_map_of:
  "ahm_inv m \<Longrightarrow> ahm_Get m key = map_option snd (map_of (ahm_table m ! ahm_index m key) key)"
  by (simp add: ahm_Get_def bucket_Get_map_of ahm_bucket_chain)

text \<open>Replacing the bucket of \<open>key\<close> by one that differs only at \<open>key\<close>.\<close>

lemma ahm_Get_put_bucket:
  assumes m: "ahm_inv m" and c: "chain es"
    and u: "map_of es = (map_of (ahm_table m ! ahm_index m key))(key := r)"
  shows "ahm_Get (ahm_put_bucket (ahm_index m key) es m) = (ahm_Get m)(key := map_option snd r)"
proof
  fix j
  have ix: "ahm_index (ahm_put_bucket (ahm_index m key) es m) j = ahm_index m j"
    by (simp add: ahm_index_def ahm_put_bucket_def)
  have "ahm_table (ahm_put_bucket (ahm_index m key) es m) ! ahm_index m j =
      (if ahm_index m j = ahm_index m key then es else ahm_table m ! ahm_index m j)"
    using ahm_index_less [OF m, of key] by (auto simp: ahm_put_bucket_def)
  then show "ahm_Get (ahm_put_bucket (ahm_index m key) es m) j = ((ahm_Get m)(key := map_option snd r)) j"
    using u by (auto simp: ahm_Get_map_of m c ahm_put_bucket_inv ix)
qed

lemma ahm_next_irrelevant [simp]:
  "ahm_Get (m\<lparr>ahm_next := i\<rparr>) = ahm_Get m" "ahm_inv (m\<lparr>ahm_next := i\<rparr>) = ahm_inv m"
  by (auto simp: ahm_Get_def ahm_index_def ahm_inv_def)

lemma ahm_Set_Some:
  assumes "ahm_inv m"
  obtains es where "chain es"
    "map_of es = (map_of (ahm_table m ! ahm_index m key))(key \<mapsto> (ahm_next m, v))"
    "ahm_Set key v m = (ahm_put_bucket (ahm_index m key) es m)\<lparr>ahm_next := Suc (ahm_next m)\<rparr>"
  using bucket_Insert_total [OF ahm_bucket_chain [OF assms, of key], of key "(ahm_next m, v)"]
  by (auto simp: ahm_Set_def)

interpretation ahm: key_store ahm_inv ahm_Get ahm_Set ahm_mutate
proof
  fix m :: "'v atomic_hash_map" and k v
  assume m: "ahm_inv m"
  obtain es where es: "chain es"
    "map_of es = (map_of (ahm_table m ! ahm_index m k))(k \<mapsto> (ahm_next m, v))"
    "ahm_Set k v m = (ahm_put_bucket (ahm_index m k) es m)\<lparr>ahm_next := Suc (ahm_next m)\<rparr>"
    by (rule ahm_Set_Some [OF m])
  show "ahm_inv (ahm_Set k v m)" using es m by (simp add: ahm_put_bucket_inv)
  show "ahm_Get (ahm_Set k v m) = (ahm_Get m)(k \<mapsto> v)"
    using es(3) ahm_Get_put_bucket [OF m es(1,2)] by simp
next
  fix m :: "'v atomic_hash_map" and k f
  assume m: "ahm_inv m"
  let ?es = "ahm_table m ! ahm_index m k"
  note c = ahm_bucket_chain [OF m, of k]
  show "ahm_inv (ahm_mutate k f m)"
    using m c by (auto simp: ahm_mutate_def ahm_put_bucket_inv store_value_chain split: option.split)
  show "ahm_Get (ahm_mutate k f m) = (ahm_Get m)(k := map_option f (ahm_Get m k))"
  proof (cases "map_of ?es k")
    case None
    then show ?thesis
      by (simp add: ahm_mutate_def bucket_Get_map_of [OF c] ahm_Get_map_of [OF m] fun_upd_idem)
  next
    case (Some pv)
    then have "k \<in> keys ?es" using map_of_None_keys [of ?es k] by auto
    then have "map_of (store_value k (fst pv, f (snd pv)) ?es) = (map_of ?es)(k \<mapsto> (fst pv, f (snd pv)))"
      by (rule store_value_map_of)
    from ahm_Get_put_bucket [OF m store_value_chain [OF c] this]
    show ?thesis using Some
      by (cases pv) (simp add: ahm_mutate_def bucket_Get_map_of [OF c] ahm_Get_map_of [OF m])
  qed
qed

lemma ahm_Has_iff_Get: "ahm_inv m \<Longrightarrow> ahm_Has m key \<longleftrightarrow> ahm_Get m key \<noteq> None"
  by (simp add: ahm_Has_def ahm_Get_map_of bucket_Has_iff ahm_bucket_chain map_of_None_keys)

lemma ahm_Get_empty:
  assumes "n \<le> 63"
  shows "ahm_Get (AtomicHashMap n :: 'v atomic_hash_map) key = None"
proof -
  let ?m = "AtomicHashMap n :: 'v atomic_hash_map"
  have "ahm_index ?m key < 2 ^ n"
    using ahm_index_less [OF ahm_inv_AtomicHashMap [OF assms], where 'a = 'v, of key]
    by (simp add: AtomicHashMap_def)
  then have "ahm_table ?m ! ahm_index ?m key = []"
    by (simp add: AtomicHashMap_def)
  then show ?thesis
    by (simp add: ahm_Get_map_of ahm_inv_AtomicHashMap assms)
qed

section \<open>Properties\<close>

text \<open>
  Claim C30. Lock-free insertion is atomic: in every history that any number of concurrently inserting
  threads can produce, a round that wins its compare-and-swap (with its walk and its load possibly
  done on outdated chains) turns the current chain into one that is still sorted, holds the new
  value for its key, and agrees with the old chain on every other key.
\<close>

theorem insert_is_atomic:
  assumes "bucket_history (es # h)" and "es_find \<in> set (es # h)" and "es_load \<in> set (es # h)"
    and "Insert_round key pv es_find es_load es = Some es'"
  shows "chain es' \<and> bucket_Get k es' = (if k = key then Some pv else bucket_Get k es)
    \<and> (bucket_Has k es' \<longleftrightarrow> k = key \<or> bucket_Has k es)"
proof -
  have c: "chain es_find" "chain es" "keys es_find \<subseteq> keys es"
    using bucket_history_inv [OF assms(1)] assms(2) by auto
  from Insert_round_update [OF this assms(4)]
  show ?thesis using c by (auto simp: bucket_Get_map_of bucket_Has_iff)
qed

theorem insert_is_atomic_witness:
  "bucket_history [[(3, 0, ''a'')], []] \<and>
   bucket_Get 3 [(3, 0, ''a''), (5, 1, ''b'')] = Some (0, ''a'')"
proof -
  have h1: "bucket_history [[(3, 0, ''a'')], []]"
    by (rule insert_round [OF fresh, of "[]" "[]" 3 "(0, ''a'')"]) (simp_all add: Insert_round_def bucket_Find_def)
  have "chain [(3, 0, ''a''), (5, 1, ''b'')]
    \<and> bucket_Get 3 [(3, 0, ''a''), (5, 1, ''b'')] = (if (3 :: u64) = 5 then Some (1, ''b'') else bucket_Get 3 [(3, 0, ''a'')])
    \<and> (bucket_Has 3 [(3, 0, ''a''), (5, 1, ''b'')] \<longleftrightarrow> (3 :: u64) = 5 \<or> bucket_Has 3 [(3, 0, ''a'')])"
    by (rule insert_is_atomic [OF h1, of "[(3, 0, ''a'')]" "[]"]) (simp_all add: Insert_round_def bucket_Find_def)
  then show ?thesis using h1 by (simp add: bucket_Get_def bucket_Find_def)
qed

text \<open>
  A round fails only through interference: with no other thread changing the chain between
  its steps, one round of \<^verbatim>\<open>Insert\<close> on any reachable chain succeeds, so the retry loop ends.
\<close>

lemma insert_quiet_succeeds:
  assumes "bucket_history (es # h)"
  shows "\<exists>es'. bucket_Insert key pv es = Some es' \<and> bucket_Get key es' = Some pv"
proof -
  have "chain es" using bucket_history_inv [OF assms] by simp
  from bucket_Insert_total [OF this, of key pv] show ?thesis by (auto simp: bucket_Get_map_of)
qed

lemma insert_quiet_succeeds_witness:
  "\<exists>es'. bucket_Insert 9 (4, True) [] = Some es' \<and> bucket_Get 9 es' = Some (4, True)"
  using insert_quiet_succeeds [OF fresh] by blast

end
