(* ===== verification/Data_Fusion.thy ===== *)
theory Data_Fusion
  imports Cache_Buffer Atomic_Hash_Map "HOL-Library.Sublist"
begin

text \<open>
  \<^verbatim>\<open>cyber/data\<close> above the ring buffer: \<^verbatim>\<open>DataNotifier\<close>, \<^verbatim>\<open>DataDispatcher\<close>, the fusion policy
  \<^verbatim>\<open>AllLatest\<close> and \<^verbatim>\<open>DataVisitor\<close>.  Buffers are shared through \<^verbatim>\<open>shared_ptr\<close> and observed through
  \<^verbatim>\<open>weak_ptr\<close>, so they live in a heap; an expired weak pointer is an address with no buffer.
  Messages of all types are one payload type; a dispatcher exists per message type, selected by
  a type number.  Notification callbacks belong to the scheduler: the model records which
  notifiers were called, in order.
\<close>

section \<open>State\<close>

datatype 'm payload = Null | Message 'm | Tuple "'m payload list"

type_synonym 'm buffer_heap = "addr \<rightharpoonup> 'm payload cache_buffer"

record 'm data_world =
  dw_heap :: "'m buffer_heap"
  dw_notifies :: "nat option list atomic_hash_map"
  dw_buffers :: "nat \<Rightarrow> addr list atomic_hash_map"
  dw_callback :: "nat \<Rightarrow> bool"
  dw_fired :: "nat list"
  dw_shutdown :: bool

section \<open>DataNotifier\<close>

definition AddNotifier :: "u64 \<Rightarrow> 'n \<Rightarrow> 'n list atomic_hash_map \<Rightarrow> 'n list atomic_hash_map" where
  "AddNotifier channel_id notifier m =
     (case ahm_Get m channel_id of
        Some _ \<Rightarrow> ahm_mutate channel_id (\<lambda>ns. ns @ [notifier]) m
      | None \<Rightarrow> ahm_Set channel_id [notifier] m)"

fun notify_each :: "(nat \<Rightarrow> bool) \<Rightarrow> nat option list \<Rightarrow> nat list" where
  "notify_each has_cb [] = []"
| "notify_each has_cb (n # ns) =
     (case n of
        Some i \<Rightarrow> (if has_cb i then i # notify_each has_cb ns else notify_each has_cb ns)
      | None \<Rightarrow> notify_each has_cb ns)"

definition Notify :: "u64 \<Rightarrow> 'm data_world \<Rightarrow> bool \<times> 'm data_world" where
  "Notify channel_id w =
     (case ahm_Get (dw_notifies w) channel_id of
        Some ns \<Rightarrow> (True, w\<lparr>dw_fired := dw_fired w @ notify_each (dw_callback w) ns\<rparr>)
      | None \<Rightarrow> (False, w))"

interpretation notifier_registry: key_registry ahm_inv ahm_Get ahm_Set ahm_mutate AddNotifier
  by unfold_locales (simp add: AddNotifier_def)

section \<open>AllLatest and Fill\<close>

definition latest_at :: "'m buffer_heap \<Rightarrow> addr \<Rightarrow> 'm payload option" where
  "latest_at h a = Option.bind (h a) Latest"

text \<open>
  The closure \<^verbatim>\<open>AllLatest\<close> installs on the first buffer: give up unless every other input has
  a latest message, else fill the tuple into the private fusion buffer (which has no callback).
\<close>

definition fusion_fill :: "fusion_callback \<Rightarrow> 'm payload \<Rightarrow> 'm buffer_heap \<Rightarrow> 'm buffer_heap" where
  "fusion_fill fc m0 h =
     (case those (map (latest_at h) (fc_inputs fc)) of
        None \<Rightarrow> h
      | Some ms \<Rightarrow>
          (case h (fc_fusion fc) of
             None \<Rightarrow> h
           | Some bf \<Rightarrow> h(fc_fusion fc \<mapsto> Fill_ring (Tuple (m0 # ms)) bf)))"

definition Fill :: "addr \<Rightarrow> 'm payload \<Rightarrow> 'm buffer_heap \<Rightarrow> 'm buffer_heap" where
  "Fill a v h =
     (case h a of
        None \<Rightarrow> h
      | Some b \<Rightarrow>
          (case cb_fusion_callback b of
             Some fc \<Rightarrow> fusion_fill fc v h
           | None \<Rightarrow> h(a \<mapsto> Fill_ring v b)))"

definition AllLatest :: "addr \<Rightarrow> addr list \<Rightarrow> addr \<Rightarrow> 'm buffer_heap \<Rightarrow> 'm buffer_heap" where
  "AllLatest m0 inputs fusion h =
     (case h m0 of
        None \<Rightarrow> h
      | Some b \<Rightarrow> h(fusion \<mapsto> CacheBuffer Null (Capacity b - 1),
                   m0 \<mapsto> SetFusionCallback \<lparr>fc_inputs = inputs, fc_fusion = fusion\<rparr> b))"

definition Fusion :: "'m buffer_heap \<Rightarrow> addr \<Rightarrow> u64 \<Rightarrow> (u64 \<times> 'm payload list) option" where
  "Fusion h fusion index =
     (case Option.bind (h fusion) (\<lambda>b. Fetch b index) of
        Some (i, Tuple ms) \<Rightarrow> Some (i, ms)
      | _ \<Rightarrow> None)"

section \<open>DataDispatcher\<close>

definition AddBuffer :: "u64 \<Rightarrow> addr \<Rightarrow> addr list atomic_hash_map \<Rightarrow> addr list atomic_hash_map" where
  "AddBuffer channel_id buffer m =
     (case ahm_Get m channel_id of
        Some _ \<Rightarrow> ahm_mutate channel_id (\<lambda>bs. bs @ [buffer]) m
      | None \<Rightarrow> ahm_Set channel_id [buffer] m)"

definition Dispatch :: "nat \<Rightarrow> u64 \<Rightarrow> 'm payload \<Rightarrow> 'm data_world \<Rightarrow> bool \<times> 'm data_world" where
  "Dispatch ty channel_id msg w =
     (if dw_shutdown w then (False, w)
      else case ahm_Get (dw_buffers w ty) channel_id of
             None \<Rightarrow> (False, w)
           | Some bs \<Rightarrow>
               Notify channel_id (w\<lparr>dw_heap := fold (\<lambda>a. Fill a msg) bs (dw_heap w)\<rparr>))"

interpretation buffer_registry: key_registry ahm_inv ahm_Get ahm_Set ahm_mutate AddBuffer
  by unfold_locales (simp add: AddBuffer_def)

section \<open>DataVisitor\<close>

record visitor_config =
  vc_type :: nat
  vc_channel_id :: u64
  vc_queue_size :: u32

record data_visitor =
  dv_next_msg_index :: u64
  dv_source :: addr
  dv_notifier :: nat

definition visit_channel :: "visitor_config \<times> addr \<Rightarrow> 'm data_world \<Rightarrow> 'm data_world" where
  "visit_channel ca w = (case ca of (c, a) \<Rightarrow>
     w\<lparr>dw_heap := (dw_heap w)(a \<mapsto> CacheBuffer Null (ucast (vc_queue_size c))),
       dw_buffers := (dw_buffers w)(vc_type c := AddBuffer (vc_channel_id c) a (dw_buffers w (vc_type c)))\<rparr>)"

text \<open>The one-channel visitor reads its channel buffer directly.\<close>

definition DataVisitor_single :: "visitor_config \<Rightarrow> addr \<Rightarrow> nat \<Rightarrow> 'm data_world \<Rightarrow> data_visitor \<times> 'm data_world" where
  "DataVisitor_single c a notifier w =
     (let w = visit_channel (c, a) w
      in (\<lparr>dv_next_msg_index = 0, dv_source = a, dv_notifier = notifier\<rparr>,
          w\<lparr>dw_notifies := AddNotifier (vc_channel_id c) (Some notifier) (dw_notifies w)\<rparr>))"

text \<open>
  With two to four channels every buffer is registered with its dispatcher, the notifier is
  registered for the first channel only, and the visitor reads the fusion buffer.
\<close>

definition DataVisitor_fusion ::
  "(visitor_config \<times> addr) list \<Rightarrow> addr \<Rightarrow> nat \<Rightarrow> 'm data_world \<Rightarrow> data_visitor \<times> 'm data_world" where
  "DataVisitor_fusion cas fusion notifier w =
     (let w = fold visit_channel cas w;
          w = w\<lparr>dw_notifies := AddNotifier (vc_channel_id (fst (hd cas))) (Some notifier) (dw_notifies w)\<rparr>
      in (\<lparr>dv_next_msg_index = 0, dv_source = fusion, dv_notifier = notifier\<rparr>,
          w\<lparr>dw_heap := AllLatest (snd (hd cas)) (map snd (tl cas)) fusion (dw_heap w)\<rparr>))"

definition TryFetch_single :: "data_visitor \<Rightarrow> 'm data_world \<Rightarrow> 'm payload option \<times> data_visitor" where
  "TryFetch_single v w =
     (case Option.bind (dw_heap w (dv_source v)) (\<lambda>b. Fetch b (dv_next_msg_index v)) of
        Some (i, m) \<Rightarrow> (Some m, v\<lparr>dv_next_msg_index := i + 1\<rparr>)
      | None \<Rightarrow> (None, v))"

definition TryFetch_fusion :: "data_visitor \<Rightarrow> 'm data_world \<Rightarrow> 'm payload list option \<times> data_visitor" where
  "TryFetch_fusion v w =
     (case Fusion (dw_heap w) (dv_source v) (dv_next_msg_index v) of
        Some (i, ms) \<Rightarrow> (Some ms, v\<lparr>dv_next_msg_index := i + 1\<rparr>)
      | None \<Rightarrow> (None, v))"

definition RegisterNotifyCallback :: "data_visitor \<Rightarrow> 'm data_world \<Rightarrow> 'm data_world" where
  "RegisterNotifyCallback v w = w\<lparr>dw_callback := (dw_callback w)(dv_notifier v := True)\<rparr>"

section \<open>Dispatching to one buffer among many\<close>

definition installed :: "'m buffer_heap \<Rightarrow> addr \<rightharpoonup> fusion_callback" where
  "installed h a = Option.bind (h a) cb_fusion_callback"

definition fusion_targets :: "'m buffer_heap \<Rightarrow> addr set" where
  "fusion_targets h = fc_fusion ` ran (installed h)"

lemma Fill_ring_callback [simp]: "cb_fusion_callback (Fill_ring v b) = cb_fusion_callback b"
  by (simp add: Fill_ring_def)

lemma fusion_targets_same_callback:
  assumes "h a = Some b" "cb_fusion_callback b' = cb_fusion_callback b"
  shows "fusion_targets (h(a \<mapsto> b')) = fusion_targets h"
proof -
  have "installed (h(a \<mapsto> b')) = installed h"
    using assms by (auto simp: installed_def)
  then show ?thesis by (simp add: fusion_targets_def)
qed

lemma fusion_targets_Fill [simp]: "fusion_targets (Fill a v h) = fusion_targets h"
  by (auto simp: Fill_def fusion_fill_def fusion_targets_same_callback split: option.split)

lemma Fill_self: "h a = Some b \<Longrightarrow> cb_fusion_callback b = None \<Longrightarrow> Fill a v h a = Some (Fill_ring v b)"
  by (simp add: Fill_def)

lemma Fill_other:
  assumes "a' \<noteq> a" "a \<notin> fusion_targets h"
  shows "Fill a' v h a = h a"
proof -
  have "fc_fusion fc \<noteq> a" if "h a' = Some b" "cb_fusion_callback b = Some fc" for b fc
  proof -
    have "installed h a' = Some fc" using that by (simp add: installed_def)
    then show ?thesis using assms(2) by (auto simp: fusion_targets_def intro: ranI)
  qed
  then show ?thesis
    using assms(1) by (auto simp: Fill_def fusion_fill_def split: option.split)
qed

lemma fold_Fill_other:
  "a \<notin> set bs \<Longrightarrow> a \<notin> fusion_targets h \<Longrightarrow> fold (\<lambda>x. Fill x v) bs h a = h a"
  by (induction bs arbitrary: h) (auto simp: Fill_other)

lemma fold_Fill_targets [simp]: "fusion_targets (fold (\<lambda>x. Fill x v) bs h) = fusion_targets h"
  by (induction bs arbitrary: h) auto

lemma fold_Fill_member:
  assumes "distinct bs" "a \<in> set bs" "h a = Some b" "cb_fusion_callback b = None" "a \<notin> fusion_targets h"
  shows "fold (\<lambda>x. Fill x v) bs h a = Some (Fill_ring v b)"
  using assms
proof (induction bs arbitrary: h)
  case (Cons x bs)
  show ?case
  proof (cases "x = a")
    case True
    then show ?thesis using Cons.prems by (simp add: fold_Fill_other Fill_self)
  next
    case False
    then show ?thesis using Cons.prems Cons.IH [of "Fill x v h"] by (simp add: Fill_other)
  qed
qed simp

text \<open>A buffer that gets every message of a channel directly, whatever other readers there are.\<close>

definition plain_reader :: "addr \<Rightarrow> nat \<Rightarrow> u64 \<Rightarrow> 'm payload list \<Rightarrow> 'm data_world \<Rightarrow> bool" where
  "plain_reader a ty ch hist w \<longleftrightarrow>
     \<not> dw_shutdown w \<and>
     (\<exists>bs. ahm_Get (dw_buffers w ty) ch = Some bs \<and> distinct bs \<and> a \<in> set bs) \<and>
     (\<exists>b. dw_heap w a = Some b \<and> cb_fusion_callback b = None \<and> holds b hist) \<and>
     a \<notin> fusion_targets (dw_heap w)"

lemma Notify_fields [simp]:
  "dw_heap (snd (Notify ch w)) = dw_heap w" "dw_buffers (snd (Notify ch w)) = dw_buffers w"
  "dw_shutdown (snd (Notify ch w)) = dw_shutdown w"
  by (auto simp: Notify_def split: option.split)

lemma plain_reader_Dispatch:
  assumes "plain_reader a ty ch hist w" "length hist + 1 < 2 ^ 64 - 1"
  shows "plain_reader a ty ch (hist @ [m]) (snd (Dispatch ty ch m w))"
proof -
  obtain bs b where bs: "ahm_Get (dw_buffers w ty) ch = Some bs" "distinct bs" "a \<in> set bs"
    and b: "dw_heap w a = Some b" "cb_fusion_callback b = None" "holds b hist"
    and t: "\<not> dw_shutdown w" "a \<notin> fusion_targets (dw_heap w)"
    using assms(1) by (auto simp: plain_reader_def)
  have "fold (\<lambda>x. Fill x m) bs (dw_heap w) a = Some (Fill_ring m b)"
    using bs b t by (intro fold_Fill_member) auto
  moreover have "holds (Fill_ring m b) (hist @ [m])"
    using b assms(2) by (intro holds_Fill_ring) auto
  ultimately show ?thesis
    using bs b t by (auto simp: plain_reader_def Dispatch_def)
qed

text \<open>An application's view: messages are published on the channel and the visitor polls, in any order.\<close>

datatype 'm channel_event = Publish 'm | Poll

fun published :: "'m channel_event list \<Rightarrow> 'm list" where
  "published [] = []"
| "published (Publish m # es) = m # published es"
| "published (Poll # es) = published es"

fun visitor_run ::
  "nat \<Rightarrow> u64 \<Rightarrow> 'm payload channel_event list \<Rightarrow> data_visitor \<Rightarrow> 'm data_world \<Rightarrow> 'm payload list" where
  "visitor_run ty ch [] v w = []"
| "visitor_run ty ch (Publish m # es) v w = visitor_run ty ch es v (snd (Dispatch ty ch m w))"
| "visitor_run ty ch (Poll # es) v w =
     (case TryFetch_single v w of
        (Some m, v') \<Rightarrow> m # visitor_run ty ch es v' w
      | (None, v') \<Rightarrow> visitor_run ty ch es v' w)"

text \<open>A successful fetch returns a message at or after the cursor and moves the cursor past it.\<close>

lemma Fetch_forward:
  assumes h: "holds b hist" and legal: "unat index \<le> length hist + 1" and f: "Fetch b index = Some (i, m)"
  obtains p where "p < length hist" "unat index \<le> p + 1" "m = hist ! p" "unat (i + 1) = p + 2"
proof -
  have ne: "hist \<noteq> []" using f holds_Fetch [OF h legal] by (auto split: if_splits)
  have small: "length hist < 2 ^ 64 - 1" using holds_bounds [OF h] by simp
  consider "i = of_nat (length hist)" "m = last hist" | "i = index" "m = hist ! (unat index - 1)" "index \<noteq> 0" "unat index \<le> length hist"
    using f holds_Fetch [OF h legal] legal ne by (auto split: if_splits)
  then show thesis
  proof cases
    case 1
    have "unat i = length hist" using 1 small by (simp add: unat_of_nat_u64)
    then have "unat (i + 1) = length hist + 1" using small by (subst unat_Suc_u64) auto
    then show thesis
      using that [of "length hist - 1"] 1 ne legal holds_Fetch [OF h legal] f by (auto simp: last_conv_nth Suc_le_eq split: if_splits)
  next
    case 2
    have "unat index \<noteq> 0" using 2 by (simp add: unat_eq_0)
    moreover have "unat (i + 1) = unat index + 1" using 2 small by (subst unat_Suc_u64) auto
    ultimately show thesis using that [of "unat index - 1"] 2 by simp
  qed
qed

lemma TryFetch_single_forward:
  assumes r: "plain_reader (dv_source v) ty ch hist w"
    and legal: "unat (dv_next_msg_index v) \<le> length hist + 1"
    and f: "TryFetch_single v w = (Some m, v')"
  obtains p where "p < length hist" "unat (dv_next_msg_index v) \<le> p + 1" "m = hist ! p"
    "unat (dv_next_msg_index v') = p + 2" "dv_source v' = dv_source v"
proof -
  obtain b where b: "dw_heap w (dv_source v) = Some b" and h: "holds b hist"
    using r by (auto simp: plain_reader_def)
  obtain i where i: "Fetch b (dv_next_msg_index v) = Some (i, m)" and v': "v' = v\<lparr>dv_next_msg_index := i + 1\<rparr>"
    using f b by (auto simp: TryFetch_single_def split: option.splits)
  show thesis using Fetch_forward [OF h legal i] that v' by auto
qed

lemma subseq_take_extend:
  assumes s: "subseq xs (take n hist)" and "n \<le> p" "p < length hist"
  shows "subseq (xs @ [hist ! p]) (take (Suc p) hist)"
proof -
  have "take n (take p hist) = take n hist" using assms(2) by simp
  then have "prefix (take n hist) (take p hist)" by (metis take_is_prefix)
  then have "subseq xs (take p hist)"
    using s by (meson prefix_imp_subseq subseq_order.order_trans)
  then have "subseq (xs @ [hist ! p]) (take p hist @ [hist ! p])" by simp
  then show ?thesis using assms(3) by (simp add: take_Suc_conv_app_nth)
qed

lemma visitor_run_subseq:
  assumes "plain_reader (dv_source v) ty ch hist w"
    and "length hist + length es < 2 ^ 64 - 1"
    and "unat (dv_next_msg_index v) \<le> length hist + 1"
    and "subseq xs (take (unat (dv_next_msg_index v) - 1) hist)"
  shows "subseq (xs @ visitor_run ty ch es v w) (hist @ published es)"
  using assms
proof (induction es arbitrary: v w hist xs)
  case Nil
  have "subseq xs hist"
    using Nil.prems(4) by (meson take_is_prefix prefix_imp_subseq subseq_order.order_trans)
  then show ?case by simp
next
  case (Cons e es)
  show ?case
  proof (cases e)
    case (Publish m)
    let ?w = "snd (Dispatch ty ch m w)"
    have r: "plain_reader (dv_source v) ty ch (hist @ [m]) ?w"
      using Cons.prems by (intro plain_reader_Dispatch) auto
    have "subseq xs (take (unat (dv_next_msg_index v) - 1) (hist @ [m]))"
      using Cons.prems(3,4) by simp
    then have "subseq (xs @ visitor_run ty ch es v ?w) ((hist @ [m]) @ published es)"
      using Cons.prems Publish by (intro Cons.IH r) auto
    then show ?thesis using Publish by simp
  next
    case Poll
    obtain r v' where f: "TryFetch_single v w = (r, v')" by (cases "TryFetch_single v w")
    show ?thesis
    proof (cases r)
      case None
      then have "v' = v" using f by (auto simp: TryFetch_single_def split: option.splits)
      then show ?thesis using Poll f None Cons.prems Cons.IH [of v hist w xs] by simp
    next
      case (Some m)
      obtain p where p: "p < length hist" "unat (dv_next_msg_index v) \<le> p + 1" "m = hist ! p"
        "unat (dv_next_msg_index v') = p + 2" "dv_source v' = dv_source v"
        using TryFetch_single_forward [OF Cons.prems(1,3)] f Some by metis
      have "subseq (xs @ [m]) (take (Suc p) hist)"
        using subseq_take_extend [OF Cons.prems(4)] p by simp
      then have "subseq ((xs @ [m]) @ visitor_run ty ch es v' w) (hist @ published es)"
        using Cons.prems p by (intro Cons.IH) auto
      then show ?thesis using Poll f Some by simp
    qed
  qed
qed

lemma fusion_targets_new:
  "cb_fusion_callback b = None \<Longrightarrow> h a = None \<Longrightarrow> fusion_targets (h(a \<mapsto> b)) = fusion_targets h"
proof -
  assume "cb_fusion_callback b = None" "h a = None"
  then have "installed (h(a \<mapsto> b)) = installed h" by (auto simp: installed_def)
  then show ?thesis by (simp add: fusion_targets_def)
qed

lemma CacheBuffer_callback [simp]: "cb_fusion_callback (CacheBuffer d n) = None"
  by (simp add: CacheBuffer_def)

text \<open>An address nobody uses yet, in a world whose registries are intact.\<close>

definition unused :: "addr \<Rightarrow> nat \<Rightarrow> u64 \<Rightarrow> 'm data_world \<Rightarrow> bool" where
  "unused a ty ch w \<longleftrightarrow>
     \<not> dw_shutdown w \<and> ahm_inv (dw_buffers w ty) \<and> dw_heap w a = None \<and> a \<notin> fusion_targets (dw_heap w)
     \<and> distinct (buffer_registry.registered (dw_buffers w ty) ch)
     \<and> a \<notin> set (buffer_registry.registered (dw_buffers w ty) ch)"

lemma plain_reader_new:
  assumes u: "unused a (vc_type c) (vc_channel_id c) w"
    and v: "DataVisitor_single c a n w = (v, w')"
  shows "plain_reader (dv_source v) (vc_type c) (vc_channel_id c) [] w' \<and> dv_next_msg_index v = 0"
proof -
  let ?ch = "vc_channel_id c" and ?m = "dw_buffers w (vc_type c)"
  have get: "ahm_Get (AddBuffer ?ch a ?m) ?ch = Some (buffer_registry.registered ?m ?ch @ [a])"
    using u buffer_registry.lookup_add [of ?m ?ch a] by (simp add: unused_def)
  have "(ucast (vc_queue_size c) :: u64) \<noteq> - 1"
  proof -
    have "unat (ucast (vc_queue_size c) :: u64) \<le> unat (vc_queue_size c)"
      by (simp add: unsigned_ucast_eq)
    also have "\<dots> < 2 ^ 32" using unsigned_less [of "vc_queue_size c", where 'a = nat] by simp
    finally show ?thesis by (auto simp: unsigned_minus_1_eq_mask mask_eq_exp_minus_1)
  qed
  then have "holds (CacheBuffer (Null :: 'm payload) (ucast (vc_queue_size c))) []"
    by (rule holds_CacheBuffer)
  moreover have "fusion_targets ((dw_heap w)(a \<mapsto> CacheBuffer Null (ucast (vc_queue_size c)))) = fusion_targets (dw_heap w)"
    using u by (intro fusion_targets_new) (auto simp: unused_def)
  ultimately show ?thesis
    using u v get by (auto simp: DataVisitor_single_def visit_channel_def plain_reader_def unused_def Let_def)
qed

text \<open>
  Claim C28. Whatever the interleaving of publications on its channel and of its own polls, and
  whatever other readers the channel has, the messages a new one-channel visitor obtains are a
  subsequence of the messages published since: it may miss messages it was too slow for, but it
  never sees one twice, out of order, or one that was not published.
\<close>

theorem visitor_sees_subsequence:
  assumes "unused a (vc_type c) (vc_channel_id c) w" and "length es < 2 ^ 64 - 1"
    and "DataVisitor_single c a n w = (v, w')"
  shows "subseq (visitor_run (vc_type c) (vc_channel_id c) es v w') (published es)"
  using plain_reader_new [OF assms(1,3)] assms(2)
    visitor_run_subseq [of v "vc_type c" "vc_channel_id c" "[]" w' es "[]"] by simp

definition empty_world :: "'m data_world" where
  "empty_world = \<lparr>dw_heap = Map.empty, dw_notifies = AtomicHashMap 7, dw_buffers = (\<lambda>_. AtomicHashMap 7),
     dw_callback = (\<lambda>_. False), dw_fired = [], dw_shutdown = False\<rparr>"

lemma registered_empty [simp]:
  "n \<le> 63 \<Longrightarrow> buffer_registry.registered (AtomicHashMap n) ch = []"
  "n \<le> 63 \<Longrightarrow> notifier_registry.registered (AtomicHashMap n) ch = []"
  by (simp_all add: buffer_registry.registered_def notifier_registry.registered_def ahm_Get_empty)

lemma unused_empty_world: "unused a ty ch empty_world"
  by (simp add: unused_def empty_world_def ahm_inv_AtomicHashMap fusion_targets_def installed_def ran_def)

theorem visitor_sees_subsequence_witness:
  "\<exists>v w'. DataVisitor_single \<lparr>vc_type = 0, vc_channel_id = 5, vc_queue_size = 2\<rparr> 1 7 (empty_world :: nat data_world) = (v, w')
     \<and> subseq (visitor_run 0 5 [Publish (Message 1), Poll, Poll] v w') [Message 1]"
proof -
  obtain v w' where vw: "DataVisitor_single \<lparr>vc_type = 0, vc_channel_id = 5, vc_queue_size = 2\<rparr> 1 7 (empty_world :: nat data_world) = (v, w')"
    by (cases "DataVisitor_single \<lparr>vc_type = 0, vc_channel_id = 5, vc_queue_size = 2\<rparr> 1 7 (empty_world :: nat data_world)")
  from visitor_sees_subsequence [OF unused_empty_world _ this, of "[Publish (Message 1), Poll, Poll]"] vw
  show ?thesis by simp
qed

section \<open>Notification order and fusion\<close>

lemma notify_each_filter:
  "notify_each has_cb ns = filter has_cb (map the (filter (\<lambda>n. n \<noteq> None) ns))"
  by (induction has_cb ns rule: notify_each.induct) (auto split: option.split)

text \<open>
  Dispatching a message on a channel calls exactly the notifiers registered for that channel
  which have a callback, in registration order, whatever was registered for other channels; it
  reports failure, and changes nothing, when the process is shutting down or no buffer was ever
  registered for the channel.
\<close>

lemma dispatch_notifies_registered:
  assumes "dw_notifies w = fold (\<lambda>(k, n). AddNotifier k n) regs (AtomicHashMap 7)"
    and "Dispatch ty ch m w = (ok, w')"
  shows "(if dw_shutdown w \<or> ahm_Get (dw_buffers w ty) ch = None then \<not> ok \<and> w' = w
          else dw_fired w' = dw_fired w @
            filter (dw_callback w) (map the (filter (\<lambda>n. n \<noteq> None) (map snd (filter (\<lambda>r. fst r = ch) regs)))))"
proof (cases "dw_shutdown w \<or> ahm_Get (dw_buffers w ty) ch = None")
  case True
  then show ?thesis using assms(2) by (auto simp: Dispatch_def split: if_splits)
next
  case False
  then obtain bs where bs: "ahm_Get (dw_buffers w ty) ch = Some bs" by auto
  have reg: "notifier_registry.registered (dw_notifies w) ch = map snd (filter (\<lambda>r. fst r = ch) regs)"
    using notifier_registry.registered_adds [OF ahm_inv_AtomicHashMap, of 7 regs ch] assms(1) by simp
  have "dw_fired w' = dw_fired w @ notify_each (dw_callback w) (notifier_registry.registered (dw_notifies w) ch)"
    using assms(2) False bs
    by (auto simp: Dispatch_def Notify_def notifier_registry.registered_def split: option.splits)
  then show ?thesis using False bs by (simp add: reg notify_each_filter)
qed

lemma dispatch_notifies_registered_witness:
  "\<exists>w w' :: nat data_world. dw_notifies w = fold (\<lambda>(k, n). AddNotifier k n) [(5, Some 3), (6, Some 4), (5, Some 9)] (AtomicHashMap 7)
     \<and> Dispatch 0 5 (Message 1) w = (True, w') \<and> dw_fired w' = [3, 9]"
proof -
  define w :: "nat data_world" where "w = empty_world
    \<lparr>dw_notifies := fold (\<lambda>(k, n). AddNotifier k n) [(5, Some 3), (6, Some 4), (5, Some 9)] (AtomicHashMap 7),
     dw_buffers := (\<lambda>_. AddBuffer 5 1 (AtomicHashMap 7)), dw_callback := (\<lambda>_. True)\<rparr>"
  obtain ok w' where d: "Dispatch 0 5 (Message 1) w = (ok, w')"
    by (cases "Dispatch 0 5 (Message 1) w")
  have get: "ahm_Get (dw_buffers w 0) 5 = Some [1]"
    using buffer_registry.lookup_add [OF ahm_inv_AtomicHashMap, of 7 5 1] by (simp add: w_def)
  have n: "dw_notifies w = fold (\<lambda>(k, n). AddNotifier k n) [(5, Some 3), (6, Some 4), (5, Some 9)] (AtomicHashMap 7)"
    by (simp add: w_def)
  have "dw_fired w' = [3, 9]"
    using dispatch_notifies_registered [OF n d] get by (simp add: w_def empty_world_def)
  moreover have ok
  proof -
    have "notifier_registry.registered (dw_notifies w) 5 = [Some 3, Some 9]"
      using notifier_registry.registered_adds [OF ahm_inv_AtomicHashMap, of 7 "[(5, Some 3), (6, Some 4), (5, Some 9)]" 5]
      by (simp add: n)
    then show ?thesis
      using d get by (auto simp: Dispatch_def Notify_def notifier_registry.registered_def w_def empty_world_def split: option.splits)
  qed
  ultimately show ?thesis using n d by auto
qed

end
