(* ===== verification/Fusion_Visitors.thy ===== *)
theory Fusion_Visitors
  imports Data_Fusion
begin

text \<open>
  Visitors of two to four channels (\<^verbatim>\<open>DataVisitor<M0, M1, ...>\<close>, \<^verbatim>\<open>cyber/data/data_visitor.h\<close>) from their construction on:
  messages are published on any channels through \<^verbatim>\<open>DataDispatcher\<close>, and the visitor polls its fusion buffer, in any
  order and beside any other visitors.
\<close>

section \<open>What the visitor should see\<close>

definition visitor_key :: "visitor_config \<Rightarrow> nat \<times> u64" where
  "visitor_key c = (vc_type c, vc_channel_id c)"

datatype 'm fusion_event = PublishOn "nat \<times> u64" "'m payload" | PollFusion

text \<open>
  The tuples, from the sequence of publications alone: one for every message of the first channel, with the newest
  message of each other channel at that time, if there is one on every channel.
\<close>

fun latest_tuples :: "(nat \<times> u64) list \<Rightarrow> (nat \<times> u64 \<rightharpoonup> 'm payload) \<Rightarrow> 'm fusion_event list \<Rightarrow> 'm payload list list" where
  "latest_tuples ks lat [] = []"
| "latest_tuples ks lat (PublishOn k m # es) =
     (if k = hd ks
      then (case those (map lat (tl ks)) of None \<Rightarrow> [] | Some ms \<Rightarrow> [m # ms]) @ latest_tuples ks lat es
      else latest_tuples ks (lat(k \<mapsto> m)) es)"
| "latest_tuples ks lat (PollFusion # es) = latest_tuples ks lat es"

text \<open>What the dispatcher and the visitor do.\<close>

fun fusion_run :: "'m fusion_event list \<Rightarrow> data_visitor \<Rightarrow> 'm data_world \<Rightarrow> 'm payload list list \<times> data_visitor \<times> 'm data_world" where
  "fusion_run [] v w = ([], v, w)"
| "fusion_run (PublishOn k m # es) v w = fusion_run es v (snd (Dispatch (fst k) (snd k) m w))"
| "fusion_run (PollFusion # es) v w =
     (case TryFetch_fusion v w of
        (Some ms, v') \<Rightarrow> (case fusion_run es v' w of (got, r) \<Rightarrow> (ms # got, r))
      | (None, v') \<Rightarrow> fusion_run es v' w)"

section \<open>The buffers of a visitor\<close>

abbreviation own :: "(visitor_config \<times> addr) list \<Rightarrow> addr \<Rightarrow> addr set" where
  "own cas f \<equiv> insert f (snd ` set cas)"

text \<open>\<open>k\<close> bounds the messages of a channel, \<open>lat\<close> are the newest ones, \<open>fused\<close> the tuples.\<close>

definition channel_ok :: "nat \<Rightarrow> (nat \<times> u64 \<rightharpoonup> 'm payload) \<Rightarrow> 'm buffer_heap \<Rightarrow> visitor_config \<Rightarrow> addr \<Rightarrow> bool" where
  "channel_ok k lat h c a \<longleftrightarrow> (\<exists>b hist. h a = Some b \<and> cb_fusion_callback b = None \<and> holds b hist \<and> length hist \<le> k \<and>
     lat (visitor_key c) = (if hist = [] then None else Some (last hist)))"

definition buffers_ok ::
  "(visitor_config \<times> addr) list \<Rightarrow> addr \<Rightarrow> nat \<Rightarrow> (nat \<times> u64 \<rightharpoonup> 'm payload) \<Rightarrow> 'm payload list \<Rightarrow> 'm buffer_heap \<Rightarrow> bool" where
  "buffers_ok cas f k lat fused h \<longleftrightarrow>
     installed h (snd (hd cas)) = Some \<lparr>fc_inputs = map snd (tl cas), fc_fusion = f\<rparr> \<and>
     (\<forall>c a. (c, a) \<in> set (tl cas) \<longrightarrow> channel_ok k lat h c a) \<and>
     (\<exists>b. h f = Some b \<and> cb_fusion_callback b = None \<and> holds b fused) \<and>
     (\<forall>x fc. installed h x = Some fc \<longrightarrow> x \<noteq> snd (hd cas) \<longrightarrow> fc_fusion fc \<notin> own cas f)"

lemma buffers_okD:
  assumes "buffers_ok cas f k lat fused h"
  shows "installed h (snd (hd cas)) = Some \<lparr>fc_inputs = map snd (tl cas), fc_fusion = f\<rparr>"
    "(c, a) \<in> set (tl cas) \<Longrightarrow> channel_ok k lat h c a"
    "\<exists>b. h f = Some b \<and> cb_fusion_callback b = None \<and> holds b fused"
    "installed h x = Some fc \<Longrightarrow> x \<noteq> snd (hd cas) \<Longrightarrow> fc_fusion fc \<notin> own cas f"
  using assms unfolding buffers_ok_def by blast+

lemma buffers_okI:
  assumes "installed h (snd (hd cas)) = Some \<lparr>fc_inputs = map snd (tl cas), fc_fusion = f\<rparr>"
    "\<And>c a. (c, a) \<in> set (tl cas) \<Longrightarrow> channel_ok k lat h c a"
    "h f = Some b" "cb_fusion_callback b = None" "holds b fused"
    "\<And>x fc. installed h x = Some fc \<Longrightarrow> x \<noteq> snd (hd cas) \<Longrightarrow> fc_fusion fc \<notin> own cas f"
  shows "buffers_ok cas f k lat fused h"
  using assms unfolding buffers_ok_def by blast

lemma channel_ok_cong:
  assumes "channel_ok k lat h c a" "h' a = h a" "lat' (visitor_key c) = lat (visitor_key c)" "k \<le> k'"
  shows "channel_ok k' lat' h' c a"
proof -
  obtain b hist where "h a = Some b" "cb_fusion_callback b = None" "holds b hist" "length hist \<le> k"
    "lat (visitor_key c) = (if hist = [] then None else Some (last hist))" using assms(1) by (auto simp: channel_ok_def)
  then show ?thesis using assms(2-4) unfolding channel_ok_def by (intro exI [of _ b] exI [of _ hist]) simp
qed

text \<open>No two channels of a visitor are the same, and each has a buffer of its own.\<close>

definition channels_ok :: "(visitor_config \<times> addr) list \<Rightarrow> addr \<Rightarrow> bool" where
  "channels_ok cas f \<longleftrightarrow> cas \<noteq> [] \<and> distinct (f # map snd cas) \<and> distinct (map (visitor_key \<circ> fst) cas)"

lemma installed_Fill [simp]: "installed (Fill a v h) = installed h"
  by (auto simp: Fill_def fusion_fill_def installed_def fun_eq_iff split: option.split)

lemma buffers_ok_cong:
  assumes "buffers_ok cas f k lat fused h" "\<And>a. a \<in> own cas f \<Longrightarrow> h' a = h a" "installed h' = installed h"
    and "\<And>c a. (c, a) \<in> set (tl cas) \<Longrightarrow> lat' (visitor_key c) = lat (visitor_key c)" "k \<le> k'"
  shows "buffers_ok cas f k' lat' fused h'"
proof -
  note D = buffers_okD [OF assms(1)]
  obtain b where b: "h f = Some b" "cb_fusion_callback b = None" "holds b fused" using D(3) by blast
  have t: "a \<in> own cas f" if "(c, a) \<in> set (tl cas)" for c a using that by (cases cas) force+
  have "channel_ok k' lat' h' c a" if "(c, a) \<in> set (tl cas)" for c a
    using D(2) [OF that] by (rule channel_ok_cong) (use assms(2) [OF t [OF that]] assms(4) [OF that] assms(5) in simp_all)
  then show ?thesis by (intro buffers_okI [where b = b]) (use D(1,4) b assms(2,3) in simp_all)
qed

lemma Fill_foreign:
  assumes "buffers_ok cas f k lat fused h" "x \<notin> own cas f" "cas \<noteq> []"
  shows "buffers_ok cas f k lat fused (Fill x v h)"
proof (rule buffers_ok_cong [OF assms(1) _ installed_Fill refl order_refl])
  fix a assume a: "a \<in> own cas f"
  have "x \<noteq> snd (hd cas)" using assms(2,3) by auto
  then have "fc_fusion fc \<noteq> a" if "h x = Some b" "cb_fusion_callback b = Some fc" for b fc
    using buffers_okD(4) [OF assms(1), of x fc] that a by (auto simp: installed_def)
  moreover have "x \<noteq> a" using a assms(2) by blast
  ultimately show "Fill x v h a = h a" by (auto simp: Fill_def fusion_fill_def split: option.split)
qed

lemma fold_Fill_foreign:
  "buffers_ok cas f k lat fused h \<Longrightarrow> set xs \<inter> own cas f = {} \<Longrightarrow> cas \<noteq> [] \<Longrightarrow> buffers_ok cas f k lat fused (fold (\<lambda>x. Fill x v) xs h)"
proof (induction xs arbitrary: h)
  case (Cons x xs)
  have "buffers_ok cas f k lat fused (Fill x v h)" using Cons.prems by (intro Fill_foreign) auto
  then show ?case using Cons by simp
qed simp

text \<open>A message of another channel becomes its newest one.\<close>

lemma Fill_secondary:
  assumes "buffers_ok cas f k lat fused h" "channels_ok cas f" "(c, a) \<in> set (tl cas)" "Suc k < 2 ^ 64 - 1"
  shows "buffers_ok cas f (Suc k) (lat(visitor_key c \<mapsto> v)) fused (Fill a v h)"
proof -
  note D = buffers_okD [OF assms(1)]
  obtain b hist where b: "h a = Some b" "cb_fusion_callback b = None" "holds b hist" "length hist \<le> k"
    using D(2) [OF assms(3)] by (auto simp: channel_ok_def)
  obtain bf where bf: "h f = Some bf" "cb_fusion_callback bf = None" "holds bf fused" using D(3) by blast
  obtain x cs where cas: "cas = x # cs" using assms(2) by (cases cas) (auto simp: channels_ok_def)
  have d: "distinct (map snd cs)" "distinct (map (visitor_key \<circ> fst) cs)" "f \<notin> snd ` set cs" using assms(2) cas by (auto simp: channels_ok_def)
  have ne: "a \<noteq> f" using assms(3) d(3) cas by force
  have inj: "visitor_key c' \<noteq> visitor_key c \<and> a' \<noteq> a" if "(c', a') \<in> set cs" "(c', a') \<noteq> (c, a)" for c' a'
  proof -
    have i: "inj_on snd (set cs)" "inj_on (visitor_key \<circ> fst) (set cs)" using d(1,2) by (simp_all add: distinct_map)
    have "(c, a) \<in> set cs" using assms(3) cas by simp
    then show ?thesis using inj_onD [OF i(1) _ that(1), of "(c, a)"] inj_onD [OF i(2) _ that(1), of "(c, a)"] that(2) by auto
  qed
  let ?h = "h(a \<mapsto> Fill_ring v b)"
  have h': "Fill a v h = ?h" using b by (simp add: Fill_def)
  then have i: "installed ?h = installed h" using installed_Fill [of a v h] by simp
  have n: "holds (Fill_ring v b) (hist @ [v])" using b(3,4) assms(4) by (intro holds_Fill_ring) auto
  have "channel_ok (Suc k) (lat(visitor_key c \<mapsto> v)) ?h c' a'" if c': "(c', a') \<in> set cs" for c' a'
  proof (cases "(c', a') = (c, a)")
    case True
    then show ?thesis using n b unfolding channel_ok_def by (intro exI [of _ "Fill_ring v b"] exI [of _ "hist @ [v]"]) auto
  next
    case False
    have "channel_ok k lat h c' a'" using D(2) c' cas by simp
    then show ?thesis by (rule channel_ok_cong) (use inj [OF c' False] in simp_all)
  qed
  then show ?thesis unfolding h' by (intro buffers_okI [where b = bf]) (use D(1,4) bf ne i cas in simp_all)
qed

text \<open>A message of the first channel is paired with the newest of the others.\<close>

lemma those_latest:
  assumes "\<And>c a. (c, a) \<in> set cs \<Longrightarrow> channel_ok k lat h c a"
  shows "those (map (latest_at h) (map snd cs)) = those (map lat (map (visitor_key \<circ> fst) cs))"
  using assms
proof (induction cs)
  case (Cons x cs)
  obtain c a where x: "x = (c, a)" by (cases x)
  then have "channel_ok k lat h c a" using Cons.prems by simp
  then have "latest_at h a = lat (visitor_key c)" by (auto simp: channel_ok_def latest_at_def holds_Latest)
  then show ?case using Cons x by (simp split: option.split)
qed simp

lemma Fill_primary:
  assumes "buffers_ok cas f k lat fused h" "channels_ok cas f" "length fused + 1 < 2 ^ 64 - 1"
  shows "buffers_ok cas f k lat
    (fused @ (case those (map lat (tl (map (visitor_key \<circ> fst) cas))) of None \<Rightarrow> [] | Some ms \<Rightarrow> [Tuple (v # ms)]))
    (Fill (snd (hd cas)) v h)"
proof -
  note D = buffers_okD [OF assms(1)]
  let ?cs = "tl cas"
  obtain b where b: "h (snd (hd cas)) = Some b" "cb_fusion_callback b = Some \<lparr>fc_inputs = map snd ?cs, fc_fusion = f\<rparr>"
    using D(1) by (auto simp: installed_def bind_eq_Some_conv)
  obtain bf where bf: "h f = Some bf" "cb_fusion_callback bf = None" "holds bf fused" using D(3) by blast
  have "those (map (latest_at h) (map snd ?cs)) = those (map lat (map (visitor_key \<circ> fst) ?cs))"
    by (rule those_latest [OF D(2)])
  then have l: "those (map (latest_at h) (map snd ?cs)) = those (map lat (tl (map (visitor_key \<circ> fst) cas)))" by (simp add: map_tl)
  show ?thesis
  proof (cases "those (map (latest_at h) (map snd ?cs))")
    case None
    then have "Fill (snd (hd cas)) v h = h" using b by (simp add: Fill_def fusion_fill_def)
    then show ?thesis using None assms(1) unfolding l [symmetric] by simp
  next
    case (Some ms)
    let ?h = "h(f \<mapsto> Fill_ring (Tuple (v # ms)) bf)"
    have h': "Fill (snd (hd cas)) v h = ?h" using b bf Some by (simp add: Fill_def fusion_fill_def)
    then have i: "installed ?h = installed h" using installed_Fill [of "snd (hd cas)" v h] by simp
    have n: "holds (Fill_ring (Tuple (v # ms)) bf) (fused @ [Tuple (v # ms)])" using bf(3) assms(3) by (intro holds_Fill_ring)
    have f: "f \<noteq> a" if "(c, a) \<in> set ?cs" for c a using assms(2) that by (cases cas) (force simp: channels_ok_def)+
    have "channel_ok k lat ?h c a" if "(c, a) \<in> set ?cs" for c a
      using D(2) [OF that] by (rule channel_ok_cong) (use f [OF that] in simp_all)
    then have "buffers_ok cas f k lat (fused @ [Tuple (v # ms)]) ?h"
      by (intro buffers_okI [where b = "Fill_ring (Tuple (v # ms)) bf"]) (use D(1,4) n bf(2) i in simp_all)
    then show ?thesis using Some unfolding l [symmetric] h' by simp
  qed
qed

section \<open>Dispatching and polling\<close>

definition routes_ok :: "(visitor_config \<times> addr) list \<Rightarrow> addr \<Rightarrow> 'm data_world \<Rightarrow> bool" where
  "routes_ok cas f w \<longleftrightarrow>
     (\<forall>ty ch bs. ahm_Get (dw_buffers w ty) ch = Some bs \<longrightarrow>
        distinct bs \<and> f \<notin> set bs \<and> (\<forall>c a. (c, a) \<in> set cas \<longrightarrow> a \<in> set bs \<longrightarrow> visitor_key c = (ty, ch))) \<and>
     (\<forall>c a. (c, a) \<in> set cas \<longrightarrow> (\<exists>bs. ahm_Get (dw_buffers w (vc_type c)) (vc_channel_id c) = Some bs \<and> a \<in> set bs))"

definition fusing ::
  "(visitor_config \<times> addr) list \<Rightarrow> addr \<Rightarrow> nat \<Rightarrow> (nat \<times> u64 \<rightharpoonup> 'm payload) \<Rightarrow> 'm payload list \<Rightarrow> 'm data_world \<Rightarrow> bool" where
  "fusing cas f k lat fused w \<longleftrightarrow> \<not> dw_shutdown w \<and> routes_ok cas f w \<and> buffers_ok cas f k lat fused (dw_heap w)"

definition paired :: "(nat \<times> u64) list \<Rightarrow> (nat \<times> u64 \<rightharpoonup> 'm payload) \<Rightarrow> 'm payload \<Rightarrow> 'm payload list list" where
  "paired ks lat m = (case those (map lat (tl ks)) of None \<Rightarrow> [] | Some ms \<Rightarrow> [m # ms])"

abbreviation keys_of :: "(visitor_config \<times> addr) list \<Rightarrow> (nat \<times> u64) list" where
  "keys_of cas \<equiv> map (visitor_key \<circ> fst) cas"

text \<open>The buffers of a channel hold at most one of the visitor's, namely its own for that channel.\<close>

lemma Dispatch_split:
  assumes "channels_ok cas f" "routes_ok cas f w" "(c, a) \<in> set cas" "ahm_Get (dw_buffers w (vc_type c)) (vc_channel_id c) = Some bs"
  obtains xs ys where "bs = xs @ a # ys" "set xs \<inter> own cas f = {}" "set ys \<inter> own cas f = {}"
proof -
  have d: "distinct bs" "f \<notin> set bs" and k: "\<And>c' a'. (c', a') \<in> set cas \<Longrightarrow> a' \<in> set bs \<Longrightarrow> visitor_key c' = visitor_key c"
    using assms(2,4) by (auto simp: routes_ok_def visitor_key_def)
  have "a \<in> set bs" using assms(2,3,4) by (fastforce simp: routes_ok_def)
  then obtain xs ys where b: "bs = xs @ a # ys" by (meson split_list)
  have i: "inj_on (visitor_key \<circ> fst) (set cas)" using assms(1) by (simp add: channels_ok_def distinct_map)
  have "x \<notin> own cas f" if x: "x \<in> set bs" "x \<noteq> a" for x
  proof
    assume "x \<in> own cas f"
    then obtain c' where c': "(c', x) \<in> set cas" using x(1) d(2) by auto
    then have "(c', x) = (c, a)" using inj_onD [OF i _ c' assms(3)] k [OF c' x(1)] by simp
    then show False using x(2) by simp
  qed
  then show thesis using that [of xs ys] b d(1) by auto
qed

lemma fusing_Dispatch:
  assumes "channels_ok cas f" "fusing cas f k lat fused w" "Suc k < 2 ^ 64 - 1" "length fused + 1 < 2 ^ 64 - 1"
  shows "fusing cas f (Suc k) (if key = hd (keys_of cas) then lat else lat(key \<mapsto> m))
    (fused @ (if key = hd (keys_of cas) then map Tuple (paired (keys_of cas) lat m) else [])) (snd (Dispatch (fst key) (snd key) m w))"
proof -
  have W: "\<not> dw_shutdown w" "routes_ok cas f w" "buffers_ok cas f k lat fused (dw_heap w)" using assms(2) by (simp_all add: fusing_def)
  have ne: "cas \<noteq> []" using assms(1) by (simp add: channels_ok_def)
  let ?w = "snd (Dispatch (fst key) (snd key) m w)" and ?lat = "if key = hd (keys_of cas) then lat else lat(key \<mapsto> m)"
  let ?F = "\<lambda>x. Fill x m"
  have r: "routes_ok cas f ?w" "\<not> dw_shutdown ?w" using W(1,2) by (auto simp: Dispatch_def routes_ok_def split: option.split)
  have hp: "dw_heap ?w = (case ahm_Get (dw_buffers w (fst key)) (snd key) of None \<Rightarrow> dw_heap w | Some bs \<Rightarrow> fold ?F bs (dw_heap w))"
    using W(1) by (simp add: Dispatch_def split: option.split)
  show ?thesis
  proof (cases "\<exists>c a. (c, a) \<in> set cas \<and> visitor_key c = key")
    case True
    then obtain c a where ca: "(c, a) \<in> set cas" "key = (vc_type c, vc_channel_id c)" by (auto simp: visitor_key_def)
    obtain bs where bs: "ahm_Get (dw_buffers w (vc_type c)) (vc_channel_id c) = Some bs" using W(2) ca(1) unfolding routes_ok_def by blast
    obtain xs ys where s: "bs = xs @ a # ys" "set xs \<inter> own cas f = {}" "set ys \<inter> own cas f = {}"
      using Dispatch_split [OF assms(1) W(2) ca(1) bs] .
    have h: "dw_heap ?w = fold ?F ys (Fill a m (fold ?F xs (dw_heap w)))" using hp ca(2) bs s(1) by simp
    have x: "buffers_ok cas f k lat fused (fold ?F xs (dw_heap w))" by (rule fold_Fill_foreign [OF W(3) s(2) ne])
    have d: "distinct (keys_of cas)" using assms(1) by (simp add: channels_ok_def)
    obtain c0 a0 cs where cas: "cas = (c0, a0) # cs" using ne by (cases cas) auto
    show ?thesis
    proof (cases "(c, a) = (c0, a0)")
      case True
      then have k: "key = hd (keys_of cas)" "a = snd (hd cas)" using ca(2) cas by (simp_all add: visitor_key_def)
      have "map Tuple (paired (keys_of cas) lat m) =
          (case those (map lat (tl (keys_of cas))) of None \<Rightarrow> [] | Some ms \<Rightarrow> [Tuple (m # ms)])" by (simp add: paired_def split: option.split)
      then have "buffers_ok cas f k lat (fused @ map Tuple (paired (keys_of cas) lat m)) (Fill a m (fold ?F xs (dw_heap w)))"
        using Fill_primary [OF x assms(1,4), of m] k(2) by simp
      then have "buffers_ok cas f k lat (fused @ map Tuple (paired (keys_of cas) lat m)) (dw_heap ?w)"
        unfolding h by (rule fold_Fill_foreign [OF _ s(3) ne])
      then have "buffers_ok cas f (Suc k) lat (fused @ map Tuple (paired (keys_of cas) lat m)) (dw_heap ?w)"
        by (rule buffers_ok_cong) simp_all
      then show ?thesis using k(1) r by (simp add: fusing_def)
    next
      case False
      then have t: "(c, a) \<in> set (tl cas)" using ca(1) cas by auto
      have "key \<noteq> hd (keys_of cas)" using t d ca(2) cas by (force simp: visitor_key_def)
      moreover have "buffers_ok cas f (Suc k) (lat(key \<mapsto> m)) fused (Fill a m (fold ?F xs (dw_heap w)))"
        using Fill_secondary [OF x assms(1) t assms(3), of m] ca(2) by (simp add: visitor_key_def)
      then have "buffers_ok cas f (Suc k) (lat(key \<mapsto> m)) fused (dw_heap ?w)" unfolding h by (rule fold_Fill_foreign [OF _ s(3) ne])
      ultimately show ?thesis using r by (simp add: fusing_def)
    qed
  next
    case False
    have foreign: "set bs \<inter> own cas f = {}" if "ahm_Get (dw_buffers w (fst key)) (snd key) = Some bs" for bs
      using W(2) that False unfolding routes_ok_def by fastforce
    have "buffers_ok cas f k lat fused (dw_heap ?w)"
      using hp W(3) fold_Fill_foreign [OF W(3) foreign ne] by (simp split: option.split)
    then have "buffers_ok cas f (Suc k) (lat(key \<mapsto> m)) fused (dw_heap ?w)"
      by (rule buffers_ok_cong) (use False ne in \<open>auto dest: list.set_sel(2)\<close>)
    moreover have "key \<noteq> hd (keys_of cas)" using False ne by (cases cas) auto
    ultimately show ?thesis using r by (simp add: fusing_def)
  qed
qed

lemma TryFetch_fusion_forward:
  assumes "fusing cas f k lat (map Tuple fused) w" "dv_source v = f" "unat (dv_next_msg_index v) \<le> length fused + 1"
    and "TryFetch_fusion v w = (Some ms, v')"
  obtains p where "p < length fused" "unat (dv_next_msg_index v) \<le> p + 1" "ms = fused ! p"
    "unat (dv_next_msg_index v') = p + 2" "dv_source v' = f"
proof -
  obtain b where b: "dw_heap w f = Some b" "holds b (map Tuple fused)" using assms(1) by (auto simp: fusing_def buffers_ok_def)
  obtain i where i: "Fetch b (dv_next_msg_index v) = Some (i, Tuple ms)" "v' = v\<lparr>dv_next_msg_index := i + 1\<rparr>"
    using assms(2,4) b(1) by (auto simp: TryFetch_fusion_def Fusion_def split: option.splits prod.splits payload.splits)
  have l: "unat (dv_next_msg_index v) \<le> length (map Tuple fused) + 1" using assms(3) by simp
  show thesis using Fetch_forward [OF b(2) l i(1)] that assms(2) i(2) by auto
qed

lemma fusion_run_ok:
  assumes "channels_ok cas f" "fusing cas f k lat (map Tuple fused) w" "k + length es < 2 ^ 64 - 1" "length fused + length es < 2 ^ 64 - 1"
    and "dv_source v = f" "unat (dv_next_msg_index v) \<le> length fused + 1" "subseq xs (take (unat (dv_next_msg_index v) - 1) fused)"
    and "fusion_run es v w = (got, v', w')"
  shows "subseq (xs @ got) (fused @ latest_tuples (keys_of cas) lat es)
    \<and> (\<exists>b. dw_heap w' f = Some b \<and> holds b (map Tuple (fused @ latest_tuples (keys_of cas) lat es)))"
  using assms(2-)
proof (induction es arbitrary: k lat fused w v xs got)
  case Nil
  have "subseq xs fused" using Nil.prems(6) by (meson take_is_prefix prefix_imp_subseq subseq_order.order_trans)
  then show ?case using Nil.prems by (auto simp: fusing_def buffers_ok_def)
next
  case (Cons e es)
  show ?case
  proof (cases e)
    case (PublishOn key m)
    let ?w = "snd (Dispatch (fst key) (snd key) m w)" and ?lat = "if key = hd (keys_of cas) then lat else lat(key \<mapsto> m)"
    let ?new = "if key = hd (keys_of cas) then paired (keys_of cas) lat m else []"
    have n: "length ?new \<le> 1" by (auto simp: paired_def split: option.split)
    have "Suc k < 2 ^ 64 - 1" "length (map Tuple fused) + 1 < 2 ^ 64 - 1" using Cons.prems(2,3) by simp_all
    from fusing_Dispatch [OF assms(1) Cons.prems(1) this, of key m]
    have w: "fusing cas f (Suc k) ?lat (map Tuple (fused @ ?new)) ?w" by (cases "key = hd (keys_of cas)") simp_all
    have t: "latest_tuples (keys_of cas) lat (e # es) = ?new @ latest_tuples (keys_of cas) ?lat es"
      using PublishOn by (simp add: paired_def)
    have "fusion_run es v ?w = (got, v', w')" using Cons.prems(7) PublishOn by simp
    then have "subseq (xs @ got) ((fused @ ?new) @ latest_tuples (keys_of cas) ?lat es)
        \<and> (\<exists>b. dw_heap w' f = Some b \<and> holds b (map Tuple ((fused @ ?new) @ latest_tuples (keys_of cas) ?lat es)))"
      using Cons.prems n by (intro Cons.IH [OF w]) auto
    then show ?thesis unfolding t append_assoc .
  next
    case PollFusion
    obtain r v1 where f: "TryFetch_fusion v w = (r, v1)" by fastforce
    have t: "latest_tuples (keys_of cas) lat (e # es) = latest_tuples (keys_of cas) lat es" using PollFusion by simp
    show ?thesis
    proof (cases r)
      case None
      then have "v1 = v" using f by (auto simp: TryFetch_fusion_def split: option.splits)
      then have "fusion_run es v w = (got, v', w')" using Cons.prems(7) PollFusion f None by simp
      then show ?thesis unfolding t using Cons.prems by (intro Cons.IH [OF Cons.prems(1)]) simp_all
    next
      case (Some ms)
      obtain got' where g: "fusion_run es v1 w = (got', v', w')" "got = ms # got'"
        using Cons.prems(7) PollFusion f Some by (auto split: prod.splits)
      obtain p where p: "p < length fused" "unat (dv_next_msg_index v) \<le> p + 1" "ms = fused ! p"
          "unat (dv_next_msg_index v1) = p + 2" "dv_source v1 = f"
        using TryFetch_fusion_forward [OF Cons.prems(1,4,5)] f Some by metis
      have "subseq (xs @ [ms]) (take (Suc p) fused)" using subseq_take_extend [OF Cons.prems(6)] p by simp
      then have "subseq ((xs @ [ms]) @ got') (fused @ latest_tuples (keys_of cas) lat es)
          \<and> (\<exists>b. dw_heap w' f = Some b \<and> holds b (map Tuple (fused @ latest_tuples (keys_of cas) lat es)))"
        using Cons.prems p g(1) by (intro Cons.IH [OF Cons.prems(1)]) simp_all
      then show ?thesis unfolding t g(2) by simp
    qed
  qed
qed

section \<open>Construction\<close>

text \<open>
  The world while a visitor is being constructed: \<open>rest\<close> are the channels to come, \<open>cas\<close> those that have been
  registered.  Addresses that the constructor allocates are new.
\<close>

definition constructing :: "(visitor_config \<times> addr) list \<Rightarrow> (visitor_config \<times> addr) list \<Rightarrow> addr \<Rightarrow> 'm data_world \<Rightarrow> bool" where
  "constructing rest cas f w \<longleftrightarrow>
     \<not> dw_shutdown w \<and> (\<forall>ty. ahm_inv (dw_buffers w ty)) \<and>
     (\<forall>ty ch. distinct (buffer_registry.registered (dw_buffers w ty) ch) \<and>
        set (buffer_registry.registered (dw_buffers w ty) ch) \<inter> own rest f = {} \<and>
        (\<forall>c a. (c, a) \<in> set cas \<longrightarrow> a \<in> set (buffer_registry.registered (dw_buffers w ty) ch) \<longrightarrow> visitor_key c = (ty, ch))) \<and>
     (\<forall>c a. (c, a) \<in> set cas \<longrightarrow> dw_heap w a = Some (CacheBuffer Null (ucast (vc_queue_size c))) \<and>
        a \<in> set (buffer_registry.registered (dw_buffers w (vc_type c)) (vc_channel_id c))) \<and>
     (\<forall>a \<in> own rest f. dw_heap w a = None) \<and>
     (\<forall>x fc. installed (dw_heap w) x = Some fc \<longrightarrow> fc_fusion fc \<notin> own (rest @ cas) f)"

lemma constructing_visit:
  assumes "constructing ((c, a) # rest) cas f w" "distinct (f # map snd ((c, a) # rest @ cas))"
  shows "constructing rest (cas @ [(c, a)]) f (visit_channel (c, a) w)"
proof -
  let ?w = "visit_channel (c, a) w" and ?reg = "\<lambda>w ty ch. buffer_registry.registered (dw_buffers w ty) ch"
  have inv: "ahm_inv (dw_buffers w ty)" for ty using assms(1) by (simp add: constructing_def)
  have reg: "?reg ?w ty ch = ?reg w ty ch @ (if (ty, ch) = visitor_key c then [a] else [])" for ty ch
    using buffer_registry.lookup_add [OF inv [of "vc_type c"], of "vc_channel_id c" a]
    by (auto simp: visit_channel_def visitor_key_def buffer_registry.registered_def)
  have h: "dw_heap ?w = (dw_heap w)(a \<mapsto> CacheBuffer Null (ucast (vc_queue_size c)))" by (simp add: visit_channel_def)
  have na: "dw_heap w a = None" "a \<notin> set (?reg w ty ch)" for ty ch using assms(1) by (auto simp: constructing_def)
  have i: "installed (dw_heap ?w) = installed (dw_heap w)" using na(1) by (auto simp: h installed_def fun_eq_iff)
  have d: "a \<noteq> f" "a \<notin> snd ` set rest" "a \<notin> snd ` set cas" using assms(2) by auto
  have 1: "distinct (?reg ?w ty ch) \<and> set (?reg ?w ty ch) \<inter> own rest f = {} \<and>
      (\<forall>c' a'. (c', a') \<in> set (cas @ [(c, a)]) \<longrightarrow> a' \<in> set (?reg ?w ty ch) \<longrightarrow> visitor_key c' = (ty, ch))" for ty ch
  proof -
    have "distinct (?reg w ty ch)" "set (?reg w ty ch) \<inter> own rest f = {}"
        "\<And>c' a'. (c', a') \<in> set cas \<Longrightarrow> a' \<in> set (?reg w ty ch) \<Longrightarrow> visitor_key c' = (ty, ch)"
      using assms(1) by (auto simp: constructing_def)
    moreover have "a' \<noteq> a" if "(c', a') \<in> set cas" for c' a' using d(3) that by force
    ultimately show ?thesis using na(2) d(1,2) unfolding reg by (auto split: if_splits)
  qed
  have 2: "dw_heap ?w a' = Some (CacheBuffer Null (ucast (vc_queue_size c'))) \<and> a' \<in> set (?reg ?w (vc_type c') (vc_channel_id c'))"
    if "(c', a') \<in> set (cas @ [(c, a)])" for c' a'
  proof (cases "(c', a') = (c, a)")
    case True
    then show ?thesis by (simp add: h reg visitor_key_def)
  next
    case False
    then have "(c', a') \<in> set cas" using that by auto
    moreover from this have "a' \<noteq> a" using d(3) by force
    ultimately show ?thesis using assms(1) by (auto simp: h reg constructing_def)
  qed
  have 3: "dw_heap ?w x = None" if "x \<in> own rest f" for x using assms(1) that d(1,2) by (auto simp: h constructing_def)
  have 4: "fc_fusion fc \<notin> own (rest @ cas @ [(c, a)]) f" if "installed (dw_heap ?w) x = Some fc" for x fc
  proof -
    have "fc_fusion fc \<notin> own (((c, a) # rest) @ cas) f" using assms(1) that [unfolded i] unfolding constructing_def by blast
    then show ?thesis by simp
  qed
  have 5: "ahm_inv (dw_buffers ?w ty)" for ty using inv buffer_registry.add_inv by (simp add: visit_channel_def)
  have "\<not> dw_shutdown ?w" using assms(1) by (simp add: constructing_def visit_channel_def)
  then show ?thesis unfolding constructing_def using 1 2 3 4 5 by simp
qed

lemma constructing_visits:
  "constructing rest cas f w \<Longrightarrow> distinct (f # map snd (rest @ cas)) \<Longrightarrow> constructing [] (cas @ rest) f (fold visit_channel rest w)"
proof (induction rest arbitrary: cas w)
  case (Cons x rest)
  obtain c a where x: "x = (c, a)" by (cases x)
  have "constructing rest (cas @ [x]) f (visit_channel x w)" using constructing_visit Cons.prems x by simp
  moreover have "distinct (f # map snd (rest @ cas @ [x]))" using Cons.prems(2) by auto
  ultimately have "constructing [] ((cas @ [x]) @ rest) f (fold visit_channel rest (visit_channel x w))" by (rule Cons.IH)
  then show ?case by simp
qed simp

lemma queue_size_small: "(ucast (q :: u32) :: u64) \<noteq> - 1"
proof -
  have "unat (ucast q :: u64) \<le> unat q" by (simp add: unsigned_ucast_eq)
  also have "\<dots> < 2 ^ 32" using unsigned_less [of q, where 'a = nat] by simp
  finally show ?thesis by (auto simp: unsigned_minus_1_eq_mask mask_eq_exp_minus_1)
qed

text \<open>Where a new visitor can be constructed: the addresses of its buffers are new.\<close>

definition fresh_for :: "(visitor_config \<times> addr) list \<Rightarrow> addr \<Rightarrow> 'm data_world \<Rightarrow> bool" where
  "fresh_for cas f w \<longleftrightarrow>
     \<not> dw_shutdown w \<and> (\<forall>ty. ahm_inv (dw_buffers w ty)) \<and>
     (\<forall>ty ch. distinct (buffer_registry.registered (dw_buffers w ty) ch) \<and>
        set (buffer_registry.registered (dw_buffers w ty) ch) \<inter> own cas f = {}) \<and>
     (\<forall>a \<in> own cas f. dw_heap w a = None) \<and> fusion_targets (dw_heap w) \<inter> own cas f = {}"

lemma fusing_new:
  assumes "channels_ok cas f" "fresh_for cas f w" "DataVisitor_fusion cas f n w = (v, w')"
  shows "fusing cas f 0 Map.empty [] w' \<and> dv_source v = f \<and> dv_next_msg_index v = 0"
proof -
  let ?w = "fold visit_channel cas w" and ?reg = "\<lambda>w ty ch. buffer_registry.registered (dw_buffers w ty) ch"
  obtain c0 a0 cs where cas: "cas = (c0, a0) # cs" using assms(1) by (cases cas) (auto simp: channels_ok_def)
  have d: "distinct (f # map snd cas)" using assms(1) by (simp add: channels_ok_def)
  have "fc_fusion fc \<notin> own cas f" if "installed (dw_heap w) x = Some fc" for x fc
    using assms(2) ranI [of "installed (dw_heap w)", OF that] unfolding fresh_for_def fusion_targets_def by blast
  then have "constructing cas [] f w" using assms(2) unfolding constructing_def fresh_for_def by simp
  then have C: "constructing [] cas f ?w" using constructing_visits [of cas "[]" f w] d by simp
  let ?b0 = "CacheBuffer Null (ucast (vc_queue_size c0)) :: 'a payload cache_buffer"
  let ?fc = "\<lparr>fc_inputs = map snd cs, fc_fusion = f\<rparr>"
  let ?bf = "CacheBuffer Null (Capacity ?b0 - 1) :: 'a payload cache_buffer"
  have b0: "dw_heap ?w a0 = Some ?b0" using C cas by (auto simp: constructing_def)
  have h: "dw_heap w' = (dw_heap ?w)(f \<mapsto> ?bf, a0 \<mapsto> SetFusionCallback ?fc ?b0)"
    and w': "dw_buffers w' = dw_buffers ?w" "dw_shutdown w' = dw_shutdown ?w"
    and v: "dv_source v = f" "dv_next_msg_index v = 0"
    using assms(3) b0 by (auto simp: DataVisitor_fusion_def AllLatest_def cas Let_def)
  have "Capacity ?b0 - 1 = ucast (vc_queue_size c0)" by (simp add: Capacity_def CacheBuffer_def)
  then have bf: "holds ?bf []" using holds_CacheBuffer [OF queue_size_small] by simp
  have ne: "a0 \<noteq> f" "a0 \<notin> snd ` set cs" "f \<notin> snd ` set cs" using d cas by auto
  have fn: "dw_heap ?w f = None" using C by (simp add: constructing_def)
  have i: "installed (dw_heap w') = (installed (dw_heap ?w))(a0 \<mapsto> ?fc)"
    using fn ne(1) by (auto simp: h installed_def SetFusionCallback_def fun_eq_iff)
  have ch: "channel_ok 0 Map.empty (dw_heap w') c a" if "(c, a) \<in> set cs" for c a
  proof -
    have "a \<noteq> a0" "a \<noteq> f" using ne(2,3) that by force+
    moreover have "(c, a) \<in> set cas" using that cas by simp
    then have "dw_heap ?w a = Some (CacheBuffer Null (ucast (vc_queue_size c)))" using C unfolding constructing_def by blast
    moreover have "holds (CacheBuffer (Null :: 'a payload) (ucast (vc_queue_size c))) []" by (rule holds_CacheBuffer [OF queue_size_small])
    ultimately show ?thesis unfolding channel_ok_def h by (intro exI [of _ "CacheBuffer Null (ucast (vc_queue_size c))"] exI [of _ "[]"]) simp
  qed
  have o: "fc_fusion fc \<notin> own cas f" if "installed (dw_heap ?w) x = Some fc" for x fc
    using C that unfolding constructing_def append_Nil by blast
  have hd: "snd (hd cas) = a0" "tl cas = cs" by (simp_all add: cas)
  have "buffers_ok cas f 0 Map.empty [] (dw_heap w')"
  proof (rule buffers_okI [where b = ?bf])
    show "installed (dw_heap w') (snd (hd cas)) = Some \<lparr>fc_inputs = map snd (tl cas), fc_fusion = f\<rparr>" unfolding hd i by simp
    show "channel_ok 0 Map.empty (dw_heap w') c a" if "(c, a) \<in> set (tl cas)" for c a using ch that unfolding hd by blast
    show "dw_heap w' f = Some ?bf" unfolding h using ne(1) by simp
    show "fc_fusion fc \<notin> own cas f" if "installed (dw_heap w') x = Some fc" "x \<noteq> snd (hd cas)" for x fc
      using o [of x fc] that unfolding hd i by simp
  qed (use bf in simp_all)
  moreover have "routes_ok cas f w'"
  proof -
    have g: "?reg ?w ty chn = bs" if "ahm_Get (dw_buffers ?w ty) chn = Some bs" for ty chn bs
      using that by (simp add: buffer_registry.registered_def)
    have g': "\<exists>bs. ahm_Get (dw_buffers ?w ty) chn = Some bs \<and> a \<in> set bs" if "a \<in> set (?reg ?w ty chn)" for ty chn a
      using that by (cases "ahm_Get (dw_buffers ?w ty) chn") (simp_all add: buffer_registry.registered_def)
    have r: "distinct (?reg ?w ty chn)" "f \<notin> set (?reg ?w ty chn)"
      "(c, a) \<in> set cas \<Longrightarrow> a \<in> set (?reg ?w ty chn) \<Longrightarrow> visitor_key c = (ty, chn)" for ty chn c a
      using C unfolding constructing_def by auto
    have "a \<in> set (?reg ?w (vc_type c) (vc_channel_id c))" if "(c, a) \<in> set cas" for c a using C that unfolding constructing_def by blast
    then show ?thesis unfolding routes_ok_def w' using r g' by (auto dest: g)
  qed
  moreover have "\<not> dw_shutdown w'" using C by (simp add: w' constructing_def)
  ultimately show ?thesis using v by (simp add: fusing_def)
qed

text \<open>
  Claim C31. A new visitor of several distinct channels, beside any other visitors, whatever is then published on any
  channels and whenever it polls (fewer than \<open>2 ^ 64 - 1\<close> publications and polls): its fusion buffer holds exactly
  one tuple for every message of its first channel that came when every other channel had one, namely that message
  with the newest message of each other channel at that time, in order; and what its polls give is a
  subsequence of these tuples, so that no tuple comes twice, out of order, or with a message that was not the newest.
\<close>

theorem fusion_pairs_with_latest:
  assumes "channels_ok cas f" "fresh_for cas f w" "DataVisitor_fusion cas f n w = (v, w1)"
    and "length es < 2 ^ 64 - 1" "fusion_run es v w1 = (got, v', w')"
  shows "subseq got (latest_tuples (keys_of cas) Map.empty es)
    \<and> (\<exists>b. dw_heap w' f = Some b \<and> holds b (map Tuple (latest_tuples (keys_of cas) Map.empty es)))"
proof -
  have F: "fusing cas f 0 Map.empty (map Tuple []) w1" "dv_source v = f" "unat (dv_next_msg_index v) \<le> length ([] :: 'a payload list list) + 1"
      "subseq [] (take (unat (dv_next_msg_index v) - 1) ([] :: 'a payload list list))"
    using fusing_new [OF assms(1-3)] by simp_all
  show ?thesis using fusion_run_ok [OF assms(1) F(1) _ _ F(2-4) assms(5)] assms(4) by simp
qed

definition two_channels :: "(visitor_config \<times> addr) list" where
  "two_channels = [(\<lparr>vc_type = 0, vc_channel_id = 5, vc_queue_size = 2\<rparr>, 1), (\<lparr>vc_type = 1, vc_channel_id = 6, vc_queue_size = 2\<rparr>, 2)]"

theorem fusion_pairs_with_latest_witness:
  "\<exists>v w1 got v' w' b. DataVisitor_fusion two_channels 3 9 (empty_world :: nat data_world) = (v, w1)
     \<and> fusion_run [PublishOn (0, 5) (Message 1), PublishOn (1, 6) (Message 2), PublishOn (1, 6) (Message 3), PublishOn (0, 5) (Message 4), PollFusion] v w1
        = (got, v', w')
     \<and> subseq got [[Message 4, Message 3]] \<and> dw_heap w' 3 = Some b \<and> holds b [Tuple [Message 4, Message 3]]"
proof -
  let ?w = "empty_world :: nat data_world"
  let ?es = "[PublishOn (0, 5) (Message 1), PublishOn (1, 6) (Message 2), PublishOn (1, 6) (Message 3), PublishOn (0, 5) (Message 4), PollFusion] :: nat fusion_event list"
  obtain v w1 where v: "DataVisitor_fusion two_channels 3 9 ?w = (v, w1)" by fastforce
  obtain got v' w' where g: "fusion_run ?es v w1 = (got, v', w')" by (metis prod_cases3)
  have c: "channels_ok two_channels 3" by (simp add: channels_ok_def two_channels_def visitor_key_def)
  have f: "fresh_for two_channels 3 ?w"
    by (simp add: fresh_for_def empty_world_def ahm_inv_AtomicHashMap fusion_targets_def installed_def ran_def)
  have l: "latest_tuples (keys_of two_channels) Map.empty ?es = [[Message 4, Message 3]]"
    by (simp add: two_channels_def visitor_key_def)
  show ?thesis using fusion_pairs_with_latest [OF c f v _ g] v g unfolding l by auto
qed

end
