(* ===== verification/Bounded_Queue.thy ===== *)
theory Bounded_Queue
  imports Cyber_Interfaces
begin

text \<open>
  \<^verbatim>\<open>cyber/base/bounded_queue.h\<close>: the multi-producer multi-consumer ring behind \<^verbatim>\<open>ThreadPool\<close> and
  \<^verbatim>\<open>TaskManager\<close>.  The operations are first modelled as a whole (what a call does when no other
  thread runs in between), then as a step relation in which every atomic access of every thread
  is a step of its own.
\<close>

section \<open>State\<close>

record 'a bounded_queue =
  bq_head :: u64
  bq_tail :: u64
  bq_commit :: u64
  bq_pool_size :: u64
  bq_pool :: "'a list"
  bq_break_all_wait :: bool

text \<open>\<^verbatim>\<open>Init(size, strategy)\<close>; the allocation may fail (\<open>alloc_ok\<close>).\<close>

definition bq_Init :: "bool \<Rightarrow> 'a \<Rightarrow> u64 \<Rightarrow> 'a bounded_queue option" where
  "bq_Init alloc_ok dflt sz =
     (if alloc_ok
      then Some \<lparr>bq_head = 0, bq_tail = 1, bq_commit = 1, bq_pool_size = sz + 2,
                 bq_pool = replicate (unat (sz + 2)) dflt, bq_break_all_wait = False\<rparr>
      else None)"

definition bq_GetIndex :: "'a bounded_queue \<Rightarrow> u64 \<Rightarrow> u64" where
  "bq_GetIndex q num = num - (num div bq_pool_size q) * bq_pool_size q"

definition bq_Enqueue :: "'a \<Rightarrow> 'a bounded_queue \<Rightarrow> bool \<times> 'a bounded_queue" where
  "bq_Enqueue element q =
     (let old_tail = bq_tail q; new_tail = old_tail + 1
      in if bq_GetIndex q new_tail = bq_GetIndex q (bq_head q) then (False, q)
         else (True, q\<lparr>bq_tail := new_tail,
                       bq_pool := (bq_pool q)[unat (bq_GetIndex q old_tail) := element],
                       bq_commit := new_tail\<rparr>))"

definition bq_Dequeue :: "'a bounded_queue \<Rightarrow> 'a option \<times> 'a bounded_queue" where
  "bq_Dequeue q =
     (let new_head = bq_head q + 1
      in if new_head = bq_commit q then (None, q)
         else (Some (bq_pool q ! unat (bq_GetIndex q new_head)), q\<lparr>bq_head := new_head\<rparr>))"

definition bq_Size :: "'a bounded_queue \<Rightarrow> u64" where
  "bq_Size q = bq_tail q - bq_head q - 1"

definition bq_Empty :: "'a bounded_queue \<Rightarrow> bool" where
  "bq_Empty q \<longleftrightarrow> bq_Size q = 0"

definition bq_BreakAllWait :: "'a bounded_queue \<Rightarrow> 'a bounded_queue" where
  "bq_BreakAllWait q = q\<lparr>bq_break_all_wait := True\<rparr>"

text \<open>
  The waiting variants loop until the operation succeeds, the queue is told to stop waiting, or
  the wait strategy gives up.  Each element of \<open>waits\<close> is one return of \<^verbatim>\<open>EmptyWait\<close> together
  with the queue as the other threads left it by then; when the list ends the thread is still
  waiting (\<open>None\<close>).
\<close>

fun bq_WaitDequeue ::
  "'a bounded_queue \<Rightarrow> (bool \<times> 'a bounded_queue) list \<Rightarrow> ('a option \<times> 'a bounded_queue) option" where
  "bq_WaitDequeue q waits =
     (if bq_break_all_wait q then Some (None, q)
      else case bq_Dequeue q of
             (Some x, q') \<Rightarrow> Some (Some x, q')
           | (None, _) \<Rightarrow>
               (case waits of
                  [] \<Rightarrow> None
                | (again, q') # ws \<Rightarrow> if again then bq_WaitDequeue q' ws else Some (None, q')))"

fun bq_WaitEnqueue ::
  "'a \<Rightarrow> 'a bounded_queue \<Rightarrow> (bool \<times> 'a bounded_queue) list \<Rightarrow> (bool \<times> 'a bounded_queue) option" where
  "bq_WaitEnqueue x q waits =
     (if bq_break_all_wait q then Some (False, q)
      else case bq_Enqueue x q of
             (True, q') \<Rightarrow> Some (True, q')
           | (False, _) \<Rightarrow>
               (case waits of
                  [] \<Rightarrow> None
                | (again, q') # ws \<Rightarrow> if again then bq_WaitEnqueue x q' ws else Some (False, q')))"

declare bq_WaitDequeue.simps [simp del] bq_WaitEnqueue.simps [simp del]

section \<open>One thread at a time: a bounded FIFO\<close>

definition bq_list :: "'a bounded_queue \<Rightarrow> 'a list" where
  "bq_list q = map (\<lambda>i. bq_pool q ! (i mod unat (bq_pool_size q))) [unat (bq_head q) + 1..<unat (bq_tail q)]"

definition bq_inv :: "'a bounded_queue \<Rightarrow> bool" where
  "bq_inv q \<longleftrightarrow>
     bq_commit q = bq_tail q \<and> 2 \<le> unat (bq_pool_size q) \<and> length (bq_pool q) = unat (bq_pool_size q) \<and>
     unat (bq_head q) < unat (bq_tail q) \<and> unat (bq_tail q) < unat (bq_head q) + unat (bq_pool_size q)"

text \<open>The 64-bit tail counter is about to wrap around.\<close>

definition bq_exhausted :: "'a bounded_queue \<Rightarrow> bool" where
  "bq_exhausted q \<longleftrightarrow> bq_tail q = - 1"

lemma bq_GetIndex_mod: "unat (bq_GetIndex q i) = unat i mod unat (bq_pool_size q)"
  by (simp add: bq_GetIndex_def u64_minus_div_mult unat_mod_u64)

lemma bq_tail_Suc: "\<not> bq_exhausted q \<Longrightarrow> unat (bq_tail q + 1) = unat (bq_tail q) + 1"
  unfolding bq_exhausted_def by (rule unat_succ_u64)

lemma bq_head_Suc: "bq_inv q \<Longrightarrow> unat (bq_head q + 1) = unat (bq_head q) + 1"
  using unat_u64_bound [of "bq_tail q"] by (intro unat_Suc_u64) (auto simp: bq_inv_def)

lemma bq_full_iff:
  assumes "bq_inv q" "\<not> bq_exhausted q"
  shows "bq_GetIndex q (bq_tail q + 1) = bq_GetIndex q (bq_head q)
    \<longleftrightarrow> unat (bq_tail q) + 1 = unat (bq_head q) + unat (bq_pool_size q)"
proof -
  let ?n = "unat (bq_pool_size q)" and ?h = "unat (bq_head q)" and ?t = "unat (bq_tail q)"
  have "bq_GetIndex q (bq_tail q + 1) = bq_GetIndex q (bq_head q) \<longleftrightarrow> (?t + 1) mod ?n = ?h mod ?n"
    unfolding u64_eq_iff bq_GetIndex_mod bq_tail_Suc [OF assms(2)] ..
  also have "\<dots> \<longleftrightarrow> ?t + 1 = ?h + ?n"
  proof
    assume "(?t + 1) mod ?n = ?h mod ?n"
    then have "(?t + 1) mod ?n = (?h + ?n) mod ?n" by simp
    then show "?t + 1 = ?h + ?n"
      by (rule mod_eq_window) (use assms in \<open>auto simp: bq_inv_def\<close>)
  next
    assume "?t + 1 = ?h + ?n"
    then show "(?t + 1) mod ?n = ?h mod ?n" by simp
  qed
  finally show ?thesis .
qed

lemma bq_list_Enqueue:
  assumes inv: "bq_inv q" and nx: "\<not> bq_exhausted q" and e: "bq_Enqueue x q = (True, q')"
  shows "bq_inv q' \<and> bq_list q' = bq_list q @ [x]"
proof -
  let ?n = "unat (bq_pool_size q)" and ?h = "unat (bq_head q)" and ?t = "unat (bq_tail q)"
  have room: "?t + 1 \<noteq> ?h + ?n" and q': "q' = q\<lparr>bq_tail := bq_tail q + 1,
      bq_pool := (bq_pool q)[?t mod ?n := x], bq_commit := bq_tail q + 1\<rparr>"
    using e bq_full_iff [OF inv nx] by (auto simp: bq_Enqueue_def Let_def bq_GetIndex_mod split: if_splits)
  have win: "?h < ?t" "?t < ?h + ?n" "length (bq_pool q) = ?n" "2 \<le> ?n"
    using inv by (auto simp: bq_inv_def)
  have "map (\<lambda>i. (bq_pool q)[?t mod ?n := x] ! (i mod ?n)) [?h + 1..<?t] = map (\<lambda>i. bq_pool q ! (i mod ?n)) [?h + 1..<?t]"
  proof (rule map_upt_cong)
    fix i assume "?h + 1 \<le> i" "i < ?t"
    then have "i mod ?n \<noteq> ?t mod ?n" using win by (intro mod_neq_window) auto
    then show "(bq_pool q)[?t mod ?n := x] ! (i mod ?n) = bq_pool q ! (i mod ?n)" by simp
  qed
  then have "bq_list q' = bq_list q @ [x]"
    using win by (simp add: bq_list_def q' bq_tail_Suc [OF nx])
  moreover have "bq_inv q'"
    using inv room by (auto simp: bq_inv_def q' bq_tail_Suc [OF nx])
  ultimately show ?thesis by simp
qed

lemma bq_Dequeue_cases:
  assumes inv: "bq_inv q"
  shows "(case bq_list q of
            [] \<Rightarrow> bq_Dequeue q = (None, q)
          | x # xs \<Rightarrow> bq_Dequeue q = (Some x, q\<lparr>bq_head := bq_head q + 1\<rparr>)
              \<and> bq_inv (q\<lparr>bq_head := bq_head q + 1\<rparr>) \<and> bq_list (q\<lparr>bq_head := bq_head q + 1\<rparr>) = xs)"
proof -
  let ?n = "unat (bq_pool_size q)" and ?h = "unat (bq_head q)" and ?t = "unat (bq_tail q)"
  note hS = bq_head_Suc [OF inv]
  have empty: "bq_head q + 1 = bq_commit q \<longleftrightarrow> ?h + 1 = ?t"
    using inv hS unfolding u64_eq_iff by (simp add: bq_inv_def)
  show ?thesis
  proof (cases "?h + 1 = ?t")
    case True
    then show ?thesis using empty by (simp add: bq_list_def bq_Dequeue_def Let_def)
  next
    case False
    then have lt: "?h + 1 < ?t" using inv by (simp add: bq_inv_def)
    then have l: "bq_list q = bq_pool q ! ((?h + 1) mod ?n) # bq_list (q\<lparr>bq_head := bq_head q + 1\<rparr>)"
      by (simp add: bq_list_def hS upt_conv_Cons)
    have "bq_inv (q\<lparr>bq_head := bq_head q + 1\<rparr>)"
      using inv hS lt by (auto simp: bq_inv_def)
    then show ?thesis using False empty l hS by (simp add: bq_Dequeue_def Let_def bq_GetIndex_mod)
  qed
qed

definition bq_ready :: "nat \<Rightarrow> 'a bounded_queue \<Rightarrow> bool" where
  "bq_ready n q \<longleftrightarrow> unat (bq_tail q) + n < 2 ^ 64"

lemma bq_ready_Suc: "bq_ready (Suc n) q \<Longrightarrow> \<not> bq_exhausted q"
  by (auto simp: bq_ready_def bq_exhausted_def unsigned_minus_1_eq_mask mask_eq_exp_minus_1)

interpretation bounded_queue: fifo bq_inv bq_ready bq_list bq_Enqueue bq_Dequeue
proof
  fix q q' :: "'a bounded_queue" and n x
  assume inv: "bq_inv q" and r: "bq_ready (Suc n) q" and e: "bq_Enqueue x q = (True, q')"
  have "bq_tail q' = bq_tail q + 1"
    using e by (auto simp: bq_Enqueue_def Let_def split: if_splits)
  then have "bq_ready n q'"
    using r bq_tail_Suc [OF bq_ready_Suc [OF r]] by (simp add: bq_ready_def)
  then show "bq_inv q' \<and> bq_ready n q' \<and> bq_list q' = bq_list q @ [x]"
    using bq_list_Enqueue [OF inv bq_ready_Suc [OF r] e] by simp
next
  fix q q' :: "'a bounded_queue" and x
  assume "bq_Enqueue x q = (False, q')"
  then show "q' = q" by (auto simp: bq_Enqueue_def Let_def split: if_splits)
next
  fix q :: "'a bounded_queue" and x xs
  assume "bq_inv q" "bq_list q = x # xs"
  then show "\<exists>q'. bq_Dequeue q = (Some x, q') \<and> bq_inv q' \<and> bq_list q' = xs \<and> (\<forall>n. bq_ready n q \<longrightarrow> bq_ready n q')"
    using bq_Dequeue_cases [of q] by (auto simp: bq_ready_def)
next
  fix q :: "'a bounded_queue"
  assume "bq_inv q" "bq_list q = []"
  then show "bq_Dequeue q = (None, q)" using bq_Dequeue_cases [of q] by simp
next
  fix n and q :: "'a bounded_queue"
  assume "bq_ready (Suc n) q"
  then show "bq_ready n q" by (simp add: bq_ready_def)
qed

lemma bq_Init_inv:
  assumes "bq_Init True dflt sz = Some q" and "unat sz + 2 < 2 ^ 64"
  shows "bq_inv q \<and> bq_list q = [] \<and> unat (bq_pool_size q) = unat sz + 2 \<and> unat (bq_tail q) = 1"
proof -
  have "unat (sz + 2) = unat sz + 2" using assms(2) by (subst unat_add_u64) auto
  then show ?thesis using assms(1) by (auto simp: bq_Init_def bq_inv_def bq_list_def)
qed

lemma bq_Enqueue_fails_iff:
  assumes "bq_inv q" "\<not> bq_exhausted q"
  shows "fst (bq_Enqueue x q) \<longleftrightarrow> length (bq_list q) < unat (bq_pool_size q) - 2"
  using bq_full_iff [OF assms] assms(1)
  by (auto simp: bq_Enqueue_def Let_def bq_list_def bq_inv_def)

end
