(* ===== verification/Bounded_Queue_Threads.thy ===== *)
theory Bounded_Queue_Threads
  imports Bounded_Queue
begin

text \<open>
  \<^verbatim>\<open>BoundedQueue::Enqueue\<close> and \<^verbatim>\<open>Dequeue\<close> at the granularity of their atomic accesses.  Any number
  of threads run them concurrently; a thread is at one of the program points below, between two
  accesses to shared memory.  A failed (or spuriously failed) weak compare-and-swap reloads the
  expected value, as the library does.  Two ghost lists record the elements in the order in which
  their tickets were drawn (successful swaps of \<^verbatim>\<open>tail_\<close>) and in the order in which they were
  taken (successful swaps of \<^verbatim>\<open>head_\<close>).  Runs are followed up to the point where the 64-bit tail
  counter would wrap around.
\<close>

section \<open>Threads\<close>

datatype 'a bq_pc =
    Idle
  | EnqLoaded 'a u64
  | EnqChecked 'a u64
  | EnqClaimed 'a u64
  | EnqWritten 'a u64
  | DeqLoaded u64
  | DeqChecked u64
  | DeqRead 'a u64

record 'a bq_sys =
  sys_q :: "'a bounded_queue"
  sys_pc :: "nat \<Rightarrow> 'a bq_pc"
  sys_log :: "'a list"
  sys_out :: "'a list"

definition goto :: "nat \<Rightarrow> 'a bq_pc \<Rightarrow> 'a bq_sys \<Rightarrow> 'a bq_sys" where
  "goto t pc s = s\<lparr>sys_pc := (sys_pc s)(t := pc)\<rparr>"

inductive Enqueue_step :: "nat \<Rightarrow> 'a bq_sys \<Rightarrow> 'a bq_sys \<Rightarrow> bool" for t where
  enq_start: "sys_pc s t = Idle \<Longrightarrow> Enqueue_step t s (goto t (EnqLoaded x (bq_tail (sys_q s))) s)"
| enq_full: "sys_pc s t = EnqLoaded x old_tail \<Longrightarrow>
    bq_GetIndex (sys_q s) (old_tail + 1) = bq_GetIndex (sys_q s) (bq_head (sys_q s)) \<Longrightarrow>
    Enqueue_step t s (goto t Idle s)"
| enq_check: "sys_pc s t = EnqLoaded x old_tail \<Longrightarrow>
    bq_GetIndex (sys_q s) (old_tail + 1) \<noteq> bq_GetIndex (sys_q s) (bq_head (sys_q s)) \<Longrightarrow>
    Enqueue_step t s (goto t (EnqChecked x old_tail) s)"
| enq_claim: "sys_pc s t = EnqChecked x old_tail \<Longrightarrow> bq_tail (sys_q s) = old_tail \<Longrightarrow> old_tail \<noteq> - 1 \<Longrightarrow>
    Enqueue_step t s (goto t (EnqClaimed x old_tail)
      (s\<lparr>sys_q := (sys_q s)\<lparr>bq_tail := old_tail + 1\<rparr>, sys_log := sys_log s @ [x]\<rparr>))"
| enq_retry: "sys_pc s t = EnqChecked x old_tail \<Longrightarrow>
    Enqueue_step t s (goto t (EnqLoaded x (bq_tail (sys_q s))) s)"
| enq_write: "sys_pc s t = EnqClaimed x old_tail \<Longrightarrow>
    Enqueue_step t s (goto t (EnqWritten x old_tail)
      (s\<lparr>sys_q := (sys_q s)\<lparr>bq_pool := (bq_pool (sys_q s))[unat (bq_GetIndex (sys_q s) old_tail) := x]\<rparr>\<rparr>))"
| enq_commit: "sys_pc s t = EnqWritten x old_tail \<Longrightarrow> bq_commit (sys_q s) = old_tail \<Longrightarrow>
    Enqueue_step t s (goto t Idle (s\<lparr>sys_q := (sys_q s)\<lparr>bq_commit := old_tail + 1\<rparr>\<rparr>))"

inductive Dequeue_step :: "nat \<Rightarrow> 'a bq_sys \<Rightarrow> 'a bq_sys \<Rightarrow> bool" for t where
  deq_start: "sys_pc s t = Idle \<Longrightarrow> Dequeue_step t s (goto t (DeqLoaded (bq_head (sys_q s))) s)"
| deq_empty: "sys_pc s t = DeqLoaded old_head \<Longrightarrow> old_head + 1 = bq_commit (sys_q s) \<Longrightarrow>
    Dequeue_step t s (goto t Idle s)"
| deq_check: "sys_pc s t = DeqLoaded old_head \<Longrightarrow> old_head + 1 \<noteq> bq_commit (sys_q s) \<Longrightarrow>
    Dequeue_step t s (goto t (DeqChecked old_head) s)"
| deq_read: "sys_pc s t = DeqChecked old_head \<Longrightarrow>
    Dequeue_step t s (goto t
      (DeqRead (bq_pool (sys_q s) ! unat (bq_GetIndex (sys_q s) (old_head + 1))) old_head) s)"
| deq_take: "sys_pc s t = DeqRead x old_head \<Longrightarrow> bq_head (sys_q s) = old_head \<Longrightarrow>
    Dequeue_step t s (goto t Idle
      (s\<lparr>sys_q := (sys_q s)\<lparr>bq_head := old_head + 1\<rparr>, sys_out := sys_out s @ [x]\<rparr>))"
| deq_retry: "sys_pc s t = DeqRead x old_head \<Longrightarrow>
    Dequeue_step t s (goto t (DeqLoaded (bq_head (sys_q s))) s)"

definition bq_boot :: "'a bounded_queue \<Rightarrow> 'a bq_sys" where
  "bq_boot q = \<lparr>sys_q = q, sys_pc = (\<lambda>_. Idle), sys_log = [], sys_out = []\<rparr>"

inductive bq_reachable :: "'a bounded_queue \<Rightarrow> 'a bq_sys \<Rightarrow> bool" for q where
  boot: "bq_reachable q (bq_boot q)"
| by_enqueue: "bq_reachable q s \<Longrightarrow> Enqueue_step t s s' \<Longrightarrow> bq_reachable q s'"
| by_dequeue: "bq_reachable q s \<Longrightarrow> Dequeue_step t s s' \<Longrightarrow> bq_reachable q s'"

section \<open>The invariant\<close>

text \<open>Tickets start at 1; ticket \<open>i\<close> carries element \<open>log ! (i - 1)\<close>.\<close>

definition shared_ok :: "'a bounded_queue \<Rightarrow> 'a list \<Rightarrow> 'a list \<Rightarrow> bool" where
  "shared_ok q log out \<longleftrightarrow>
     2 \<le> unat (bq_pool_size q) \<and> length (bq_pool q) = unat (bq_pool_size q) \<and>
     unat (bq_head q) < unat (bq_commit q) \<and> unat (bq_commit q) \<le> unat (bq_tail q) \<and>
     unat (bq_tail q) < unat (bq_head q) + unat (bq_pool_size q) \<and>
     length log + 1 = unat (bq_tail q) \<and> out = take (unat (bq_head q)) log \<and>
     (\<forall>i. unat (bq_head q) < i \<and> i < unat (bq_commit q) \<longrightarrow>
        bq_pool q ! (i mod unat (bq_pool_size q)) = log ! (i - 1))"

fun pc_ok :: "'a bounded_queue \<Rightarrow> 'a list \<Rightarrow> 'a bq_pc \<Rightarrow> bool" where
  "pc_ok q log Idle = True"
| "pc_ok q log (EnqLoaded x i) = (unat i \<le> unat (bq_tail q))"
| "pc_ok q log (EnqChecked x i) = (unat i \<le> unat (bq_tail q) \<and>
     (i = bq_tail q \<longrightarrow> i = - 1 \<or> unat i + 1 < unat (bq_head q) + unat (bq_pool_size q)))"
| "pc_ok q log (EnqClaimed x i) = (unat (bq_commit q) \<le> unat i \<and> unat i < unat (bq_tail q) \<and> log ! (unat i - 1) = x)"
| "pc_ok q log (EnqWritten x i) = (unat (bq_commit q) \<le> unat i \<and> unat i < unat (bq_tail q) \<and> log ! (unat i - 1) = x
     \<and> bq_pool q ! (unat i mod unat (bq_pool_size q)) = x)"
| "pc_ok q log (DeqLoaded i) = (unat i \<le> unat (bq_head q))"
| "pc_ok q log (DeqChecked i) = (unat i \<le> unat (bq_head q) \<and> (i = bq_head q \<longrightarrow> unat i + 1 < unat (bq_commit q)))"
| "pc_ok q log (DeqRead x i) = (unat i \<le> unat (bq_head q) \<and>
     (i = bq_head q \<longrightarrow> unat i + 1 < unat (bq_commit q) \<and> x = log ! unat i))"

fun claim :: "'a bq_pc \<Rightarrow> u64 option" where
  "claim (EnqClaimed x i) = Some i"
| "claim (EnqWritten x i) = Some i"
| "claim _ = None"

definition sys_inv :: "'a bq_sys \<Rightarrow> bool" where
  "sys_inv s \<longleftrightarrow> shared_ok (sys_q s) (sys_log s) (sys_out s) \<and>
     (\<forall>t. pc_ok (sys_q s) (sys_log s) (sys_pc s t)) \<and>
     (\<forall>t u. t \<noteq> u \<longrightarrow> claim (sys_pc s t) \<noteq> None \<longrightarrow> claim (sys_pc s t) \<noteq> claim (sys_pc s u))"

lemma goto_simps [simp]:
  "sys_q (goto t pc s) = sys_q s" "sys_log (goto t pc s) = sys_log s" "sys_out (goto t pc s) = sys_out s"
  "sys_pc (goto t pc s) = (sys_pc s)(t := pc)"
  by (simp_all add: goto_def)

text \<open>A step that only moves its own thread.\<close>

lemma sys_inv_local:
  assumes "sys_inv s" "pc_ok (sys_q s) (sys_log s) pc" "claim pc = None"
  shows "sys_inv (goto t pc s)"
  using assms by (auto simp: sys_inv_def)

text \<open>A step that changes shared state: the other threads must still be all right.\<close>

lemma sys_inv_update:
  assumes inv: "sys_inv s"
    and q: "sys_q s' = q'" "sys_log s' = log'" "sys_out s' = out'" "sys_pc s' = (sys_pc s)(t := pc)"
    and sh: "shared_ok q' log' out'" and own: "pc_ok q' log' pc"
    and others: "\<And>u. u \<noteq> t \<Longrightarrow> pc_ok (sys_q s) (sys_log s) (sys_pc s u) \<Longrightarrow> pc_ok q' log' (sys_pc s u)"
    and claims: "\<And>u. u \<noteq> t \<Longrightarrow> claim pc \<noteq> None \<Longrightarrow> claim (sys_pc s u) \<noteq> claim pc"
  shows "sys_inv s'"
proof -
  have "pc_ok q' log' (sys_pc s' u)" for u
    using inv own others q(4) by (cases "u = t") (auto simp: sys_inv_def)
  moreover have "claim (sys_pc s' v) \<noteq> claim (sys_pc s' u)" if "v \<noteq> u" "claim (sys_pc s' v) \<noteq> None" for v u
  proof (cases "v = t")
    case True
    then show ?thesis using claims [of u] that q(4) by auto
  next
    case False
    show ?thesis
    proof (cases "u = t")
      case True
      then show ?thesis using claims [of v] that q(4) False by (cases "claim pc") auto
    next
      case False
      then show ?thesis using inv that q(4) \<open>v \<noteq> t\<close> by (auto simp: sys_inv_def)
    qed
  qed
  ultimately show ?thesis using sh q by (simp add: sys_inv_def)
qed

lemma bq_index_eq_iff:
  "bq_GetIndex q i = bq_GetIndex q j \<longleftrightarrow> unat i mod unat (bq_pool_size q) = unat j mod unat (bq_pool_size q)"
  unfolding u64_eq_iff bq_GetIndex_mod ..

lemma sys_invD:
  assumes "sys_inv s"
  shows "shared_ok (sys_q s) (sys_log s) (sys_out s)" "pc_ok (sys_q s) (sys_log s) (sys_pc s t)"
    "t \<noteq> u \<Longrightarrow> claim (sys_pc s t) \<noteq> None \<Longrightarrow> claim (sys_pc s t) \<noteq> claim (sys_pc s u)"
  using assms by (auto simp: sys_inv_def)

lemma shared_bounds:
  assumes "shared_ok q log out"
  shows "2 \<le> unat (bq_pool_size q)" "length (bq_pool q) = unat (bq_pool_size q)"
    "unat (bq_head q) < unat (bq_commit q)" "unat (bq_commit q) \<le> unat (bq_tail q)"
    "unat (bq_tail q) < unat (bq_head q) + unat (bq_pool_size q)"
    "length log + 1 = unat (bq_tail q)" "out = take (unat (bq_head q)) log"
    "\<And>i. unat (bq_head q) < i \<Longrightarrow> i < unat (bq_commit q) \<Longrightarrow>
       bq_pool q ! (i mod unat (bq_pool_size q)) = log ! (i - 1)"
  using assms unfolding shared_ok_def by blast+

subsection \<open>Steps of a producer\<close>

lemma inv_enq_check:
  assumes inv: "sys_inv s" and pc: "sys_pc s t = EnqLoaded x i"
    and ne: "bq_GetIndex (sys_q s) (i + 1) \<noteq> bq_GetIndex (sys_q s) (bq_head (sys_q s))"
  shows "sys_inv (goto t (EnqChecked x i) s)"
proof (rule sys_inv_local [OF inv])
  note sh = shared_bounds [OF sys_invD(1) [OF inv]]
  have "unat i + 1 < unat (bq_head (sys_q s)) + unat (bq_pool_size (sys_q s))"
    if "i = bq_tail (sys_q s)" "i \<noteq> - 1"
  proof -
    have "(unat i + 1) mod unat (bq_pool_size (sys_q s)) \<noteq> unat (bq_head (sys_q s)) mod unat (bq_pool_size (sys_q s))"
      using ne that(2) by (simp add: bq_index_eq_iff unat_succ_u64)
    then have "unat i + 1 \<noteq> unat (bq_head (sys_q s)) + unat (bq_pool_size (sys_q s))"
      by (metis mod_add_self2)
    then show ?thesis using sh(5) that(1) by simp
  qed
  then show "pc_ok (sys_q s) (sys_log s) (EnqChecked x i)"
    using sys_invD(2) [OF inv, of t] pc by auto
qed simp

lemma inv_enq_claim:
  assumes inv: "sys_inv s" and pc: "sys_pc s t = EnqChecked x i"
    and i: "bq_tail (sys_q s) = i" "i \<noteq> - 1"
  shows "sys_inv (goto t (EnqClaimed x i)
    (s\<lparr>sys_q := (sys_q s)\<lparr>bq_tail := i + 1\<rparr>, sys_log := sys_log s @ [x]\<rparr>))"
proof (rule sys_inv_update [OF inv, where t = t])
  note sh = shared_bounds [OF sys_invD(1) [OF inv]]
  let ?q' = "(sys_q s)\<lparr>bq_tail := i + 1\<rparr>" and ?log = "sys_log s @ [x]"
  have iS: "unat (i + 1) = unat i + 1" using i by (simp add: unat_succ_u64)
  have room: "unat i + 1 < unat (bq_head (sys_q s)) + unat (bq_pool_size (sys_q s))"
    using sys_invD(2) [OF inv, of t] pc i by simp
  show "shared_ok ?q' ?log (sys_out s)"
    using sh room i iS by (auto simp: shared_ok_def nth_append)
  show "pc_ok ?q' ?log (EnqClaimed x i)"
    using sh i iS by (auto simp: nth_append)
  fix u assume "u \<noteq> t"
  show "pc_ok (sys_q s) (sys_log s) (sys_pc s u) \<Longrightarrow> pc_ok ?q' ?log (sys_pc s u)"
    using sh i iS by (cases "sys_pc s u") (auto simp: nth_append)
  show "claim (EnqClaimed x i) \<noteq> None \<Longrightarrow> claim (sys_pc s u) \<noteq> claim (EnqClaimed x i)"
    using sys_invD(2) [OF inv, of u] i by (cases "sys_pc s u") auto
qed (simp_all)

lemma claim_window:
  assumes inv: "sys_inv s" and c: "claim (sys_pc s u) = Some j"
  shows "unat (bq_commit (sys_q s)) \<le> unat j \<and> unat j < unat (bq_tail (sys_q s))"
  using sys_invD(2) [OF inv, of u] c by (cases "sys_pc s u") auto

lemma inv_enq_write:
  assumes inv: "sys_inv s" and pc: "sys_pc s t = EnqClaimed x i"
  shows "sys_inv (goto t (EnqWritten x i)
    (s\<lparr>sys_q := (sys_q s)\<lparr>bq_pool := (bq_pool (sys_q s))[unat (bq_GetIndex (sys_q s) i) := x]\<rparr>\<rparr>))"
proof (rule sys_inv_update [OF inv, where t = t])
  note sh = shared_bounds [OF sys_invD(1) [OF inv]]
  let ?n = "unat (bq_pool_size (sys_q s))"
  let ?q' = "(sys_q s)\<lparr>bq_pool := (bq_pool (sys_q s))[unat (bq_GetIndex (sys_q s) i) := x]\<rparr>"
  have own: "unat (bq_commit (sys_q s)) \<le> unat i" "unat i < unat (bq_tail (sys_q s))" "sys_log s ! (unat i - 1) = x"
    using sys_invD(2) [OF inv, of t] pc by auto
  have slot: "bq_pool ?q' ! (j mod ?n) = bq_pool (sys_q s) ! (j mod ?n)"
    if "unat (bq_head (sys_q s)) < j" "j < unat (bq_tail (sys_q s))" "j \<noteq> unat i" for j
  proof -
    have "j mod ?n \<noteq> unat i mod ?n" using that own sh by (intro mod_neq_window) auto
    then show ?thesis by (simp add: bq_GetIndex_mod)
  qed
  show "shared_ok ?q' (sys_log s) (sys_out s)"
    using sh own slot unfolding shared_ok_def by auto
  show "pc_ok ?q' (sys_log s) (EnqWritten x i)"
    using own sh by (simp add: bq_GetIndex_mod)
  fix u assume u: "u \<noteq> t"
  have ne: "claim (sys_pc s u) \<noteq> Some i"
    using sys_invD(3) [OF inv, of t u] pc u by auto
  show "pc_ok (sys_q s) (sys_log s) (sys_pc s u) \<Longrightarrow> pc_ok ?q' (sys_log s) (sys_pc s u)"
  proof (cases "sys_pc s u")
    case (EnqWritten y j)
    assume "pc_ok (sys_q s) (sys_log s) (sys_pc s u)"
    moreover have "unat j \<noteq> unat i" using ne EnqWritten by (auto simp: u64_eq_iff)
    ultimately show ?thesis using EnqWritten slot [of "unat j"] sh by simp
  qed auto
  show "claim (EnqWritten x i) \<noteq> None \<Longrightarrow> claim (sys_pc s u) \<noteq> claim (EnqWritten x i)"
    using ne by simp
qed (simp_all)

lemma inv_enq_commit:
  assumes inv: "sys_inv s" and pc: "sys_pc s t = EnqWritten x i" and i: "bq_commit (sys_q s) = i"
  shows "sys_inv (goto t Idle (s\<lparr>sys_q := (sys_q s)\<lparr>bq_commit := i + 1\<rparr>\<rparr>))"
proof (rule sys_inv_update [OF inv, where t = t and pc = Idle])
  note sh = shared_bounds [OF sys_invD(1) [OF inv]]
  let ?q' = "(sys_q s)\<lparr>bq_commit := i + 1\<rparr>"
  have own: "unat i < unat (bq_tail (sys_q s))" "sys_log s ! (unat i - 1) = x"
    "bq_pool (sys_q s) ! (unat i mod unat (bq_pool_size (sys_q s))) = x"
    using sys_invD(2) [OF inv, of t] pc by auto
  have iS: "unat (i + 1) = unat i + 1"
    using own unat_u64_bound [of "bq_tail (sys_q s)"] by (intro unat_Suc_u64) simp
  have slots: "bq_pool (sys_q s) ! (j mod unat (bq_pool_size (sys_q s))) = sys_log s ! (j - 1)"
    if "unat (bq_head (sys_q s)) < j" "j < unat i + 1" for j
    using sh(8) [of j] own i that by (cases "j = unat i") auto
  show "shared_ok ?q' (sys_log s) (sys_out s)"
    unfolding shared_ok_def using sh(1-7) own iS slots i by auto
  fix u assume u: "u \<noteq> t"
  have "claim (sys_pc s u) \<noteq> Some i" using sys_invD(3) [OF inv, of t u] pc u by auto
  then have "unat j \<noteq> unat i" if "claim (sys_pc s u) = Some j" for j
    using that by (auto simp: u64_eq_iff)
  then show "pc_ok (sys_q s) (sys_log s) (sys_pc s u) \<Longrightarrow> pc_ok ?q' (sys_log s) (sys_pc s u)"
    using iS i sh by (cases "sys_pc s u") fastforce+
qed (simp_all)

lemma Enqueue_step_inv: "Enqueue_step t s s' \<Longrightarrow> sys_inv s \<Longrightarrow> sys_inv s'"
  by (induction rule: Enqueue_step.induct)
    (auto intro: sys_inv_local inv_enq_check inv_enq_claim inv_enq_write inv_enq_commit)

subsection \<open>Steps of a consumer\<close>

lemma head_Suc:
  "shared_ok q log out \<Longrightarrow> unat (bq_head q + 1) = unat (bq_head q) + 1"
  using unat_u64_bound [of "bq_commit q"] by (intro unat_Suc_u64) (auto dest: shared_bounds(3))

lemma inv_deq_check:
  assumes inv: "sys_inv s" and pc: "sys_pc s t = DeqLoaded i" and ne: "i + 1 \<noteq> bq_commit (sys_q s)"
  shows "sys_inv (goto t (DeqChecked i) s)"
proof (rule sys_inv_local [OF inv])
  note sh = shared_bounds [OF sys_invD(1) [OF inv]]
  have "unat (i + 1) \<noteq> unat (bq_commit (sys_q s))" using ne unfolding u64_eq_iff .
  then have "unat i + 1 < unat (bq_commit (sys_q s))" if "i = bq_head (sys_q s)"
    using that sh(3) head_Suc [OF sys_invD(1) [OF inv]] by simp
  then show "pc_ok (sys_q s) (sys_log s) (DeqChecked i)"
    using sys_invD(2) [OF inv, of t] pc by auto
qed simp

lemma inv_deq_read:
  assumes inv: "sys_inv s" and pc: "sys_pc s t = DeqChecked i"
  shows "sys_inv (goto t (DeqRead (bq_pool (sys_q s) ! unat (bq_GetIndex (sys_q s) (i + 1))) i) s)"
proof (rule sys_inv_local [OF inv])
  note sh = shared_bounds [OF sys_invD(1) [OF inv]]
  show "pc_ok (sys_q s) (sys_log s) (DeqRead (bq_pool (sys_q s) ! unat (bq_GetIndex (sys_q s) (i + 1))) i)"
    using sys_invD(2) [OF inv, of t] pc sh(8) [of "unat i + 1"] head_Suc [OF sys_invD(1) [OF inv]]
    by (auto simp: bq_GetIndex_mod)
qed simp

lemma inv_deq_take:
  assumes inv: "sys_inv s" and pc: "sys_pc s t = DeqRead x i" and i: "bq_head (sys_q s) = i"
  shows "sys_inv (goto t Idle (s\<lparr>sys_q := (sys_q s)\<lparr>bq_head := i + 1\<rparr>, sys_out := sys_out s @ [x]\<rparr>))"
proof (rule sys_inv_update [OF inv, where t = t and pc = Idle])
  note sh = shared_bounds [OF sys_invD(1) [OF inv]]
  let ?q' = "(sys_q s)\<lparr>bq_head := i + 1\<rparr>"
  have own: "unat i + 1 < unat (bq_commit (sys_q s))" "x = sys_log s ! unat i"
    using sys_invD(2) [OF inv, of t] pc i by auto
  have iS: "unat (i + 1) = unat i + 1" using head_Suc [OF sys_invD(1) [OF inv]] i by simp
  have "take (unat i + 1) (sys_log s) = take (unat i) (sys_log s) @ [x]"
    using own sh(4,6) by (simp add: take_Suc_conv_app_nth)
  then show "shared_ok ?q' (sys_log s) (sys_out s @ [x])"
    unfolding shared_ok_def using sh own iS i by auto
  fix u
  show "pc_ok (sys_q s) (sys_log s) (sys_pc s u) \<Longrightarrow> pc_ok ?q' (sys_log s) (sys_pc s u)"
    using iS i by (cases "sys_pc s u") auto
qed (simp_all)

lemma Dequeue_step_inv: "Dequeue_step t s s' \<Longrightarrow> sys_inv s \<Longrightarrow> sys_inv s'"
  by (induction rule: Dequeue_step.induct)
    (auto intro: sys_inv_local inv_deq_check inv_deq_read inv_deq_take)

lemma boot_inv: "bq_Init True dflt sz = Some q \<Longrightarrow> unat sz + 2 < 2 ^ 64 \<Longrightarrow> sys_inv (bq_boot q)"
  using bq_Init_inv [of dflt sz q]
  by (auto simp: sys_inv_def bq_boot_def shared_ok_def bq_Init_def)

lemma bq_reachable_inv:
  assumes "bq_reachable q s" "bq_Init True dflt sz = Some q" "unat sz + 2 < 2 ^ 64"
  shows "sys_inv s"
  using assms(1) by induction (auto intro: boot_inv assms(2,3) Enqueue_step_inv Dequeue_step_inv)

section \<open>Whole calls as sequences of steps\<close>

text \<open>
  A call during which no other thread moves has the effect of the operation of \<open>Bounded_Queue\<close>.
\<close>

lemma whole_Enqueue:
  assumes r: "bq_reachable q s" and idle: "sys_pc s t = Idle" and c: "bq_commit (sys_q s) = bq_tail (sys_q s)"
    and nw: "bq_tail (sys_q s) \<noteq> - 1" and e: "bq_Enqueue x (sys_q s) = (True, q')"
  shows "bq_reachable q (s\<lparr>sys_q := q', sys_log := sys_log s @ [x]\<rparr>)"
proof -
  let ?i = "bq_tail (sys_q s)"
  have ne: "bq_GetIndex (sys_q s) (?i + 1) \<noteq> bq_GetIndex (sys_q s) (bq_head (sys_q s))"
    using e by (auto simp: bq_Enqueue_def Let_def split: if_splits)
  define s1 where "s1 = goto t (EnqLoaded x ?i) s"
  define s2 where "s2 = goto t (EnqChecked x ?i) s1"
  define s3 where "s3 = goto t (EnqClaimed x ?i) (s2\<lparr>sys_q := (sys_q s2)\<lparr>bq_tail := ?i + 1\<rparr>, sys_log := sys_log s2 @ [x]\<rparr>)"
  define s4 where "s4 = goto t (EnqWritten x ?i)
    (s3\<lparr>sys_q := (sys_q s3)\<lparr>bq_pool := (bq_pool (sys_q s3))[unat (bq_GetIndex (sys_q s3) ?i) := x]\<rparr>\<rparr>)"
  define s5 where "s5 = goto t Idle (s4\<lparr>sys_q := (sys_q s4)\<lparr>bq_commit := ?i + 1\<rparr>\<rparr>)"
  have r1: "bq_reachable q s1"
    unfolding s1_def by (rule by_enqueue [OF r]) (rule enq_start [OF idle])
  have r2: "bq_reachable q s2"
    unfolding s2_def by (rule by_enqueue [OF r1], rule enq_check) (use ne in \<open>simp_all add: s1_def\<close>)
  have r3: "bq_reachable q s3"
    unfolding s3_def by (rule by_enqueue [OF r2], rule enq_claim) (use nw in \<open>simp_all add: s2_def s1_def\<close>)
  have r4: "bq_reachable q s4"
    unfolding s4_def by (rule by_enqueue [OF r3], rule enq_write) (simp add: s3_def)
  have "bq_reachable q s5"
    unfolding s5_def by (rule by_enqueue [OF r4], rule enq_commit)
      (use c in \<open>simp_all add: s4_def s3_def s2_def s1_def\<close>)
  moreover have "s5 = s\<lparr>sys_q := q', sys_log := sys_log s @ [x]\<rparr>"
    using e idle c ne
    by (auto simp: s5_def s4_def s3_def s2_def s1_def goto_def bq_Enqueue_def bq_GetIndex_def Let_def fun_upd_idem
        split: if_splits)
  ultimately show ?thesis by simp
qed

lemma whole_Dequeue:
  assumes r: "bq_reachable q s" and idle: "sys_pc s t = Idle" and d: "bq_Dequeue (sys_q s) = (Some x, q')"
  shows "bq_reachable q (s\<lparr>sys_q := q', sys_out := sys_out s @ [x]\<rparr>)"
proof -
  let ?i = "bq_head (sys_q s)"
  have ne: "?i + 1 \<noteq> bq_commit (sys_q s)"
    and x: "x = bq_pool (sys_q s) ! unat (bq_GetIndex (sys_q s) (?i + 1))"
    and q': "q' = (sys_q s)\<lparr>bq_head := ?i + 1\<rparr>"
    using d by (auto simp: bq_Dequeue_def Let_def split: if_splits)
  define s1 where "s1 = goto t (DeqLoaded ?i) s"
  define s2 where "s2 = goto t (DeqChecked ?i) s1"
  define s3 where "s3 = goto t (DeqRead (bq_pool (sys_q s2) ! unat (bq_GetIndex (sys_q s2) (?i + 1))) ?i) s2"
  define s4 where "s4 = goto t Idle (s3\<lparr>sys_q := (sys_q s3)\<lparr>bq_head := ?i + 1\<rparr>, sys_out := sys_out s3 @ [x]\<rparr>)"
  have r1: "bq_reachable q s1"
    unfolding s1_def by (rule by_dequeue [OF r]) (rule deq_start [OF idle])
  have r2: "bq_reachable q s2"
    unfolding s2_def by (rule by_dequeue [OF r1], rule deq_check) (use ne in \<open>simp_all add: s1_def\<close>)
  have r3: "bq_reachable q s3"
    unfolding s3_def by (rule by_dequeue [OF r2], rule deq_read) (simp add: s2_def)
  have "bq_reachable q s4"
    unfolding s4_def by (rule by_dequeue [OF r3], rule deq_take)
      (use x in \<open>simp_all add: s3_def s2_def s1_def\<close>)
  moreover have "s4 = s\<lparr>sys_q := q', sys_out := sys_out s @ [x]\<rparr>"
    using idle q' by (simp add: s4_def s3_def s2_def s1_def goto_def fun_upd_idem)
  ultimately show ?thesis by simp
qed

section \<open>Properties\<close>

text \<open>
  Claim C2. The lock-free bounded queue is first-in first-out under every interleaving of producers and
  consumers: at any moment the elements handed out so far are exactly the first elements in the
  order in which producers drew their tickets, none lost, duplicated, invented or reordered, and the
  number of claimed, not yet consumed slots never exceeds the capacity.
\<close>

theorem concurrent_queue_fifo:
  assumes "bq_Init True dflt sz = Some q" and "unat sz + 2 < 2 ^ 64" and "bq_reachable q s"
  shows "sys_out s = take (length (sys_out s)) (sys_log s)
    \<and> length (sys_log s) - length (sys_out s) \<le> unat sz
    \<and> unat (bq_Size (sys_q s)) = length (sys_log s) - length (sys_out s)"
proof -
  have "sys_inv s" by (rule bq_reachable_inv [OF assms(3,1,2)])
  note sh = shared_bounds [OF sys_invD(1) [OF this]]
  have "bq_pool_size (sys_q s) = bq_pool_size q"
    using assms(3) by induction
      (auto simp: bq_boot_def elim: Enqueue_step.cases Dequeue_step.cases)
  then have n: "unat (bq_pool_size (sys_q s)) = unat sz + 2"
    using bq_Init_inv [OF assms(1,2)] by simp
  have h: "unat (bq_head (sys_q s)) \<le> length (sys_log s)" using sh by simp
  then have out: "length (sys_out s) = unat (bq_head (sys_q s))" using sh(7) by simp
  have "unat (bq_Size (sys_q s)) = unat (bq_tail (sys_q s)) - unat (bq_head (sys_q s)) - 1"
    using sh unfolding bq_Size_def by (subst unat_pred_u64; subst unat_sub_u64) auto
  then show ?thesis using sh out n by auto
qed

definition demo_queue :: "nat bounded_queue" where
  "demo_queue = \<lparr>bq_head = 0, bq_tail = 1, bq_commit = 1, bq_pool_size = 4,
     bq_pool = [0, 0, 0, 0], bq_break_all_wait = False\<rparr>"

lemma demo_queue_Init: "bq_Init True 0 2 = Some demo_queue"
proof -
  have "replicate 4 (0 :: nat) = [0, 0, 0, 0]" by (simp add: numeral_eq_Suc)
  then show ?thesis by (simp add: bq_Init_def demo_queue_def)
qed

theorem concurrent_queue_fifo_witness:
  "\<exists>s. bq_reachable demo_queue s \<and> sys_pc s 0 = EnqLoaded 7 1 \<and> sys_out s = take (length (sys_out s)) (sys_log s)"
proof -
  let ?s = "goto 0 (EnqLoaded 7 1) (bq_boot demo_queue)"
  have "Enqueue_step 0 (bq_boot demo_queue) (goto 0 (EnqLoaded 7 (bq_tail (sys_q (bq_boot demo_queue)))) (bq_boot demo_queue))"
    by (rule enq_start) (simp add: bq_boot_def)
  then have "bq_reachable demo_queue ?s"
    by (intro bq_reachable.by_enqueue [OF bq_reachable.boot]) (simp add: bq_boot_def demo_queue_def)
  with concurrent_queue_fifo [OF demo_queue_Init _ this] show ?thesis by (intro exI [of _ ?s]) simp
qed

lemma only_full_step:
  assumes "sys_pc s t = EnqLoaded x old_tail"
    and "bq_GetIndex (sys_q s) (old_tail + 1) = bq_GetIndex (sys_q s) (bq_head (sys_q s))"
  shows "Collect (Enqueue_step t s) = {goto t Idle s}"
proof (rule set_eqI)
  fix s'
  have "Enqueue_step t s (goto t Idle s)" using assms by (rule enq_full)
  moreover have "Enqueue_step t s s' \<Longrightarrow> s' = goto t Idle s"
    by (cases rule: Enqueue_step.cases, assumption) (use assms in auto)
  ultimately show "s' \<in> Collect (Enqueue_step t s) \<longleftrightarrow> s' \<in> {goto t Idle s}"
    unfolding mem_Collect_eq singleton_iff by metis
qed

text \<open>
  \<^verbatim>\<open>Enqueue\<close> can report a full queue although the queue is empty: a producer that loaded
  \<^verbatim>\<open>tail_\<close> and is then overtaken by other threads compares its outdated tail with the current head.
  A state is reachable in which the queue holds nothing and the only thing the overtaken producer
  can do is return false.
\<close>

lemma enqueue_spuriously_full:
  "\<exists>s. bq_reachable demo_queue s \<and> bq_Empty (sys_q s) \<and> sys_pc s 0 = EnqLoaded 7 1
     \<and> Collect (Enqueue_step 0 s) = {goto 0 Idle s}"
proof -
  let ?s0 = "goto 0 (EnqLoaded 7 1) (bq_boot demo_queue)"
  have r0: "bq_reachable demo_queue ?s0"
    using by_enqueue [OF boot enq_start, of demo_queue 0 7] by (simp add: bq_boot_def demo_queue_def)
  define q1 where "q1 = snd (bq_Enqueue 8 demo_queue)"
  define q2 where "q2 = snd (bq_Dequeue q1)"
  define q3 where "q3 = snd (bq_Enqueue 9 q2)"
  define q4 where "q4 = snd (bq_Dequeue q3)"
  note qs = q1_def q2_def q3_def q4_def demo_queue_def bq_Enqueue_def bq_Dequeue_def bq_GetIndex_def Let_def
  define s1 where "s1 = ?s0\<lparr>sys_q := q1, sys_log := [8]\<rparr>"
  define s2 where "s2 = s1\<lparr>sys_q := q2, sys_out := [8]\<rparr>"
  define s3 where "s3 = s2\<lparr>sys_q := q3, sys_log := [8, 9]\<rparr>"
  define s4 where "s4 = s3\<lparr>sys_q := q4, sys_out := [8, 9]\<rparr>"
  note ss = s1_def s2_def s3_def s4_def bq_boot_def
  have r1: "bq_reachable demo_queue s1"
    using whole_Enqueue [OF r0, of 1 8 q1] by (simp add: ss qs)
  have r2: "bq_reachable demo_queue s2"
    using whole_Dequeue [OF r1, of 1 8 q2] by (simp add: ss qs)
  have r3: "bq_reachable demo_queue s3"
    using whole_Enqueue [OF r2, of 1 9 q3] by (simp add: ss qs)
  have r4: "bq_reachable demo_queue s4"
    using whole_Dequeue [OF r3, of 1 9 q4] by (simp add: ss qs)
  have e: "bq_Empty (sys_q s4)" and pc: "sys_pc s4 0 = EnqLoaded 7 1"
    and full: "bq_GetIndex (sys_q s4) (1 + 1) = bq_GetIndex (sys_q s4) (bq_head (sys_q s4))"
    by (simp_all add: ss qs bq_Empty_def bq_Size_def)
  have "Collect (Enqueue_step 0 s4) = {goto 0 Idle s4}" by (rule only_full_step [OF pc full])
  then show ?thesis using r4 e pc by (intro exI conjI)
qed

lemma sequential_run_counters:
  "fifo_run bq_Enqueue bq_Dequeue ops q = (acc, out, q') \<Longrightarrow> unat (bq_tail q) + length ops < 2 ^ 64 \<Longrightarrow>
     bq_pool_size q' = bq_pool_size q \<and> unat (bq_tail q') \<le> unat (bq_tail q) + length ops"
proof (induction ops arbitrary: q acc out)
  case (Cons e ops)
  show ?case
  proof (cases e)
    case (Enq x)
    obtain ok q1 where e1: "bq_Enqueue x q = (ok, q1)" by (cases "bq_Enqueue x q")
    obtain acc1 out1 where r: "fifo_run bq_Enqueue bq_Dequeue ops q1 = (acc1, out1, q')"
      using Cons.prems(1) Enq e1 by (auto split: prod.splits)
    have "unat (bq_tail q + 1) = unat (bq_tail q) + 1" using Cons.prems(2) by (intro unat_Suc_u64) simp
    then have "bq_pool_size q1 = bq_pool_size q \<and> unat (bq_tail q1) \<le> unat (bq_tail q) + 1"
      using e1 by (auto simp: bq_Enqueue_def Let_def split: if_splits)
    then show ?thesis using Cons.IH [OF r] Cons.prems(2) by auto
  next
    case Deq
    obtain o1 q1 where d: "bq_Dequeue q = (o1, q1)" by (cases "bq_Dequeue q")
    obtain acc1 out1 where r: "fifo_run bq_Enqueue bq_Dequeue ops q1 = (acc1, out1, q')"
      using Cons.prems(1) Deq d by (auto split: prod.splits)
    have "bq_pool_size q1 = bq_pool_size q \<and> bq_tail q1 = bq_tail q"
      using d by (auto simp: bq_Dequeue_def Let_def split: if_splits)
    then show ?thesis using Cons.IH [OF r] Cons.prems(2) by auto
  qed
qed simp

text \<open>
  Used by one thread at a time, the queue accepts exactly as many elements as it was created for
  and gives them back in order: over any series of calls, the elements returned followed by those
  still inside are the accepted ones, and a call is rejected only when the queue holds \<open>sz\<close> elements.
\<close>

lemma sequential_queue_fifo:
  assumes "bq_Init True dflt sz = Some q" and "unat sz + 2 < 2 ^ 64" and "length ops + 2 < 2 ^ 64"
    and "fifo_run bq_Enqueue bq_Dequeue ops q = (acc, out, q')"
  shows "out @ bq_list q' = acc \<and> (fst (bq_Enqueue x q') \<longleftrightarrow> length (bq_list q') < unat sz)"
proof -
  note i = bq_Init_inv [OF assms(1,2)]
  then have "bq_inv q' \<and> out @ bq_list q' = bq_list q @ acc"
    using assms(3) by (intro bounded_queue.run_conserves [OF _ _ assms(4)]) (auto simp: bq_ready_def)
  moreover have c: "bq_pool_size q' = bq_pool_size q \<and> unat (bq_tail q') \<le> 1 + length ops"
    using sequential_run_counters [OF assms(4)] assms(3) i by simp
  moreover have "\<not> bq_exhausted q'"
    using c assms(3) by (auto simp: bq_exhausted_def unsigned_minus_1_eq_mask mask_eq_exp_minus_1)
  ultimately show ?thesis using i bq_Enqueue_fails_iff [of q'] by simp
qed

lemma sequential_queue_fifo_witness:
  "\<exists>q'. fifo_run bq_Enqueue bq_Dequeue [Enq 4, Enq 5, Enq 6, Deq] demo_queue = ([4, 5], [4], q') \<and> bq_list q' = [5]"
proof -
  let ?ops = "[Enq 4, Enq 5, Enq 6, Deq]"
  obtain acc out q' where r: "fifo_run bq_Enqueue bq_Dequeue ?ops demo_queue = (acc, out, q')"
    by (cases "fifo_run bq_Enqueue bq_Dequeue ?ops demo_queue")
  then have "acc = [4, 5] \<and> out = [4]"
    by (simp add: demo_queue_def bq_Enqueue_def bq_Dequeue_def bq_GetIndex_def Let_def)
  with r sequential_queue_fifo [OF demo_queue_Init _ _ r] show ?thesis by auto
qed

end
