(* ===== verification/Timing_Wheel.thy ===== *)
theory Timing_Wheel
  imports Cyber_Prelude
begin

text \<open>
  \<^verbatim>\<open>cyber/timer\<close>: the two-level timing wheel, its tick thread and the timers that use it.  Tasks
  live in a heap; a bucket holds weak pointers, here addresses that may no longer be mapped.  The
  wheel arrays are functions of the index.  A fired task is not run by the tick thread: its callback
  is handed to \<^verbatim>\<open>cyber::Async\<close>, here the list of pending callbacks.
\<close>

section \<open>State\<close>

type_synonym task_addr = nat

text \<open>The two closures \<^verbatim>\<open>InitTimerTask\<close> installs; the user's function is known by the timer's id.\<close>

datatype timer_callback = OneShot | Periodic

record timer_task =
  task_timer_id :: u64
  task_callback :: timer_callback
  interval_ms :: u64
  remainder_interval_ms :: u64
  next_fire_duration_ms :: u64
  accumulated_error_ns :: u64
  last_execute_time_ns :: u64

record timing_wheel =
  tw_running :: bool
  tw_tick_count :: u64
  work_wheel :: "u64 \<Rightarrow> task_addr list"
  assistant_wheel :: "u64 \<Rightarrow> task_addr list"
  current_work_wheel_index :: u64
  current_assistant_wheel_index :: u64
  tw_tasks :: "task_addr \<rightharpoonup> timer_task"
  tw_pending :: "task_addr list"

definition WORK_WHEEL_SIZE :: u64 where "WORK_WHEEL_SIZE = 512"
definition ASSISTANT_WHEEL_SIZE :: u64 where "ASSISTANT_WHEEL_SIZE = 64"
definition TIMER_RESOLUTION_MS :: u64 where "TIMER_RESOLUTION_MS = 2"
definition TIMER_MAX_INTERVAL_MS :: u64 where
  "TIMER_MAX_INTERVAL_MS = WORK_WHEEL_SIZE * ASSISTANT_WHEEL_SIZE * TIMER_RESOLUTION_MS"

definition GetWorkWheelIndex :: "u64 \<Rightarrow> u64" where
  "GetWorkWheelIndex index = index AND (WORK_WHEEL_SIZE - 1)"

definition GetAssistantWheelIndex :: "u64 \<Rightarrow> u64" where
  "GetAssistantWheelIndex index = index AND (ASSISTANT_WHEEL_SIZE - 1)"

definition TimingWheel :: timing_wheel where
  "TimingWheel = \<lparr>tw_running = False, tw_tick_count = 0, work_wheel = (\<lambda>_. []), assistant_wheel = (\<lambda>_. []),
     current_work_wheel_index = 0, current_assistant_wheel_index = 0, tw_tasks = Map.empty, tw_pending = []\<rparr>"

section \<open>Operations\<close>

definition TimingWheel_Start :: "timing_wheel \<Rightarrow> timing_wheel" where
  "TimingWheel_Start w = (if \<not> tw_running w then w\<lparr>tw_running := True\<rparr> else w)"

definition TimingWheel_Shutdown :: "timing_wheel \<Rightarrow> timing_wheel" where
  "TimingWheel_Shutdown w = (if tw_running w then w\<lparr>tw_running := False\<rparr> else w)"

text \<open>\<^verbatim>\<open>TimerBucket::AddTask\<close> on a bucket of either wheel.\<close>

definition TimerBucket_AddTask :: "u64 \<Rightarrow> task_addr \<Rightarrow> (u64 \<Rightarrow> task_addr list) \<Rightarrow> (u64 \<Rightarrow> task_addr list)" where
  "TimerBucket_AddTask i t buckets = buckets(i := buckets i @ [t])"

text \<open>The number of ticks of a duration, \<^verbatim>\<open>ceil(ms / 2.0)\<close>: exact in double precision below 2^53 ms.\<close>

definition fire_ticks :: "u64 \<Rightarrow> u64" where
  "fire_ticks ms = of_nat ((unat ms + unat TIMER_RESOLUTION_MS - 1) div unat TIMER_RESOLUTION_MS)"

definition AddTask_at :: "task_addr \<Rightarrow> u64 \<Rightarrow> timing_wheel \<Rightarrow> timing_wheel" where
  "AddTask_at t current_index w0 =
     (case tw_tasks w0 t of
        None \<Rightarrow> w0
      | Some task \<Rightarrow>
          let w = TimingWheel_Start w0;
              work_wheel_index = current_index + fire_ticks (next_fire_duration_ms task)
          in if WORK_WHEEL_SIZE \<le> work_wheel_index then
               let real_work_wheel_index = GetWorkWheelIndex work_wheel_index;
                   w = w\<lparr>tw_tasks := (tw_tasks w)(t \<mapsto> task\<lparr>remainder_interval_ms := real_work_wheel_index\<rparr>)\<rparr>;
                   assistant_ticks = work_wheel_index div WORK_WHEEL_SIZE
               in if assistant_ticks = 1 \<and> real_work_wheel_index < current_work_wheel_index w
                  then w\<lparr>work_wheel := TimerBucket_AddTask real_work_wheel_index t (work_wheel w)\<rparr>
                  else w\<lparr>assistant_wheel := TimerBucket_AddTask
                           (GetAssistantWheelIndex (current_assistant_wheel_index w + assistant_ticks)) t (assistant_wheel w)\<rparr>
             else w\<lparr>work_wheel := TimerBucket_AddTask work_wheel_index t (work_wheel w)\<rparr>)"

definition AddTask :: "task_addr \<Rightarrow> timing_wheel \<Rightarrow> timing_wheel" where
  "AddTask t w = AddTask_at t (current_work_wheel_index w) w"

definition Tick :: "timing_wheel \<Rightarrow> task_addr list \<times> timing_wheel" where
  "Tick w = (let i = current_work_wheel_index w;
                 fired = filter (\<lambda>t. tw_tasks w t \<noteq> None) (work_wheel w i)
             in (fired, w\<lparr>work_wheel := (work_wheel w)(i := []), tw_pending := tw_pending w @ fired\<rparr>))"

fun cascade_tasks :: "(task_addr \<rightharpoonup> timer_task) \<Rightarrow> task_addr list \<Rightarrow> (u64 \<Rightarrow> task_addr list) \<Rightarrow> (u64 \<Rightarrow> task_addr list)" where
  "cascade_tasks tasks [] work = work"
| "cascade_tasks tasks (t # ts) work =
     cascade_tasks tasks ts
       (case tasks t of
          Some task \<Rightarrow> TimerBucket_AddTask (remainder_interval_ms task) t work
        | None \<Rightarrow> work)"

definition Cascade :: "u64 \<Rightarrow> timing_wheel \<Rightarrow> timing_wheel" where
  "Cascade i w = w\<lparr>work_wheel := cascade_tasks (tw_tasks w) (assistant_wheel w i) (work_wheel w),
                   assistant_wheel := (assistant_wheel w)(i := [])\<rparr>"

text \<open>
  What other threads do to the wheel while the tick thread runs: a timer adds a task; the last owner
  of a task drops it (its weak pointers expire).
\<close>

datatype wheel_op = Add task_addr | Expire task_addr

definition expire :: "task_addr \<Rightarrow> timing_wheel \<Rightarrow> timing_wheel" where
  "expire t w = w\<lparr>tw_tasks := (tw_tasks w)(t := None)\<rparr>"

fun wheel_ops :: "wheel_op list \<Rightarrow> timing_wheel \<Rightarrow> timing_wheel" where
  "wheel_ops [] w = w"
| "wheel_ops (Add t # ops) w = wheel_ops ops (AddTask t w)"
| "wheel_ops (Expire t # ops) w = wheel_ops ops (expire t w)"

text \<open>
  The body of the loop of \<^verbatim>\<open>TickFunc\<close>: tick, count, sleep, advance.  Advancing is done in separately
  locked stages: the work index, the assistant index, the cascade.  \<open>TickFunc_turn\<close> is one turn of
  the loop counted from the end of one sleep to the beginning of the next, with the operations of
  other threads that fall after the work index has moved (\<open>ops1\<close>), after the assistant index has moved
  (\<open>ops2\<close>) and after the cascade (\<open>ops3\<close>); the operations that fall into the sleep come between
  two turns.  \<open>TickFunc_round\<close> is the turn that nothing comes between.
\<close>

definition advance_work_wheel :: "timing_wheel \<Rightarrow> timing_wheel" where
  "advance_work_wheel w = w\<lparr>current_work_wheel_index := GetWorkWheelIndex (current_work_wheel_index w + 1)\<rparr>"

definition advance_assistant_wheel :: "timing_wheel \<Rightarrow> timing_wheel" where
  "advance_assistant_wheel w =
     w\<lparr>current_assistant_wheel_index := GetAssistantWheelIndex (current_assistant_wheel_index w + 1)\<rparr>"

definition cascade_current :: "timing_wheel \<Rightarrow> timing_wheel" where
  "cascade_current w = Cascade (current_assistant_wheel_index w) w"

definition TickFunc_advance :: "timing_wheel \<Rightarrow> timing_wheel" where
  "TickFunc_advance w =
     (let w1 = advance_work_wheel w
      in if current_work_wheel_index w1 = 0 then cascade_current (advance_assistant_wheel w1) else w1)"

definition TickFunc_tick :: "timing_wheel \<Rightarrow> task_addr list \<times> timing_wheel" where
  "TickFunc_tick w = (case Tick w of (fired, w') \<Rightarrow> (fired, w'\<lparr>tw_tick_count := tw_tick_count w' + 1\<rparr>))"

definition TickFunc_turn :: "wheel_op list \<Rightarrow> wheel_op list \<Rightarrow> wheel_op list \<Rightarrow> timing_wheel \<Rightarrow> task_addr list \<times> timing_wheel" where
  "TickFunc_turn ops1 ops2 ops3 w =
     (let w1 = wheel_ops ops1 (advance_work_wheel w);
          w2 = (if current_work_wheel_index w1 = 0
                then wheel_ops ops3 (cascade_current (wheel_ops ops2 (advance_assistant_wheel w1)))
                else w1)
      in TickFunc_tick w2)"

definition TickFunc_round :: "timing_wheel \<Rightarrow> task_addr list \<times> timing_wheel" where
  "TickFunc_round w = TickFunc_tick (TickFunc_advance w)"

lemma TickFunc_turn_undisturbed: "TickFunc_turn [] [] [] w = TickFunc_round w"
  by (simp add: TickFunc_turn_def TickFunc_round_def TickFunc_advance_def Let_def)

section \<open>When a task is due\<close>

text \<open>
  \<open>due w t k\<close>: how often the task is scheduled for the \<open>k\<close>-th index advance from now: in the work
  wheel \<open>k\<close> slots ahead, or in the assistant wheel, in the bucket that is cascaded on the turn of the
  work wheel that contains that advance.
\<close>

definition due_work :: "timing_wheel \<Rightarrow> task_addr \<Rightarrow> nat \<Rightarrow> nat" where
  "due_work w t k = (if k < 512
     then count_list (work_wheel w (of_nat ((unat (current_work_wheel_index w) + k) mod 512))) t else 0)"

definition due_assistant :: "timing_wheel \<Rightarrow> task_addr \<Rightarrow> nat \<Rightarrow> nat" where
  "due_assistant w t k = (let j = unat (current_work_wheel_index w) + k in
     if 512 \<le> j \<and> j < 65 * 512 \<and> map_option remainder_interval_ms (tw_tasks w t) = Some (of_nat (j mod 512))
     then count_list (assistant_wheel w (of_nat ((unat (current_assistant_wheel_index w) + j div 512) mod 64))) t
     else 0)"

definition due :: "timing_wheel \<Rightarrow> task_addr \<Rightarrow> nat \<Rightarrow> nat" where
  "due w t k = due_work w t k + due_assistant w t k"

definition wheel_ok :: "timing_wheel \<Rightarrow> bool" where
  "wheel_ok w \<longleftrightarrow> unat (current_work_wheel_index w) < 512 \<and> unat (current_assistant_wheel_index w) < 64"

definition absent :: "task_addr \<Rightarrow> timing_wheel \<Rightarrow> bool" where
  "absent t w \<longleftrightarrow> (\<forall>i. t \<notin> set (work_wheel w i)) \<and> (\<forall>i. t \<notin> set (assistant_wheel w i))"

lemma absent_due: "absent t w \<Longrightarrow> due w t k = 0"
  by (simp add: absent_def due_def due_work_def due_assistant_def Let_def count_notin)

lemma unat_GetWorkWheelIndex: "unat (GetWorkWheelIndex i) = unat i mod 512"
proof -
  have "(512 :: u64) - 1 = mask 9" by (simp add: mask_eq_exp_minus_1)
  then show ?thesis using u64_mask_mod [of 9 i] by (simp add: GetWorkWheelIndex_def WORK_WHEEL_SIZE_def)
qed

lemma unat_GetAssistantWheelIndex: "unat (GetAssistantWheelIndex i) = unat i mod 64"
proof -
  have "(64 :: u64) - 1 = mask 6" by (simp add: mask_eq_exp_minus_1)
  then show ?thesis using u64_mask_mod [of 6 i] by (simp add: GetAssistantWheelIndex_def ASSISTANT_WHEEL_SIZE_def)
qed

lemma u64_of_unat: "unat x = n \<Longrightarrow> x = of_nat n" for x :: u64
  by auto

lemma of_nat_u64_eq_iff: "m < 2 ^ 64 \<Longrightarrow> n < 2 ^ 64 \<Longrightarrow> (of_nat m :: u64) = of_nat n \<longleftrightarrow> m = n"
  by (metis unat_of_nat_u64)

lemma cascade_tasks_count:
  "count_list (cascade_tasks tasks ts work i) t = count_list (work i) t +
     (if map_option remainder_interval_ms (tasks t) = Some i then count_list ts t else 0)"
  by (induction ts arbitrary: work)
    (auto simp: TimerBucket_AddTask_def split: option.split)

lemma of_nat_GetWorkWheelIndex:
  "unat i < 2 ^ 64 - 1 \<Longrightarrow> unat (GetWorkWheelIndex (i + 1)) = (unat i + 1) mod 512"
  by (simp add: unat_GetWorkWheelIndex unat_Suc_u64)

lemma wheel_indices_Suc:
  assumes "wheel_ok w"
  shows "unat (current_work_wheel_index (advance_work_wheel w)) = (unat (current_work_wheel_index w) + 1) mod 512"
    and "unat (current_assistant_wheel_index (advance_assistant_wheel w)) = (unat (current_assistant_wheel_index w) + 1) mod 64"
  using assms
  by (simp_all add: advance_work_wheel_def advance_assistant_wheel_def wheel_ok_def
      unat_GetWorkWheelIndex unat_GetAssistantWheelIndex unat_Suc_u64)

lemma due_advance_inside:
  assumes ok: "wheel_ok w" and cw: "unat (current_work_wheel_index w) < 511"
    and clear: "t \<notin> set (work_wheel w (current_work_wheel_index w))"
  shows "due (TickFunc_advance w) t k = due w t (Suc k)"
proof -
  let ?cw = "unat (current_work_wheel_index w)"
  have cur: "unat (current_work_wheel_index (advance_work_wheel w)) = ?cw + 1"
    using wheel_indices_Suc(1) [OF ok] cw by simp
  then have "current_work_wheel_index (advance_work_wheel w) \<noteq> 0" by auto
  then have adv: "TickFunc_advance w = advance_work_wheel w" by (simp add: TickFunc_advance_def Let_def)
  have same: "work_wheel (advance_work_wheel w) = work_wheel w"
    "assistant_wheel (advance_work_wheel w) = assistant_wheel w" "tw_tasks (advance_work_wheel w) = tw_tasks w"
    "current_assistant_wheel_index (advance_work_wheel w) = current_assistant_wheel_index w"
    by (simp_all add: advance_work_wheel_def)
  have "(?cw + 1 + 511) mod 512 = ?cw" using cw by (simp add: mod_if)
  then have "due_work (advance_work_wheel w) t k = due_work w t (Suc k)"
    using clear by (cases "k = 511") (auto simp: due_work_def cur same count_notin)
  moreover have "due_assistant (advance_work_wheel w) t k = due_assistant w t (Suc k)"
    by (auto simp: due_assistant_def cur same)
  ultimately show ?thesis by (simp add: due_def adv)
qed

lemma due_advance_wrap:
  assumes ok: "wheel_ok w" and cw: "unat (current_work_wheel_index w) = 511"
    and clear: "t \<notin> set (work_wheel w (current_work_wheel_index w))"
  shows "due (TickFunc_advance w) t k = due w t (Suc k)"
proof -
  define w2 where "w2 = advance_assistant_wheel (advance_work_wheel w)"
  let ?ca = "unat (current_assistant_wheel_index w)" and ?a = "current_assistant_wheel_index w2"
  have "unat (current_work_wheel_index (advance_work_wheel w)) = 0"
    using wheel_indices_Suc(1) [OF ok] cw by simp
  then have zero: "current_work_wheel_index (advance_work_wheel w) = 0" by (simp add: unat_eq_0)
  have adv: "TickFunc_advance w = cascade_current w2" by (simp add: TickFunc_advance_def zero w2_def Let_def)
  have a: "unat ?a = (?ca + 1) mod 64"
    using ok by (simp add: w2_def advance_work_wheel_def advance_assistant_wheel_def wheel_ok_def
        unat_GetAssistantWheelIndex unat_Suc_u64)
  have same: "work_wheel w2 = work_wheel w" "assistant_wheel w2 = assistant_wheel w" "tw_tasks w2 = tw_tasks w"
    "current_work_wheel_index w2 = 0"
    using zero by (simp_all add: w2_def advance_work_wheel_def advance_assistant_wheel_def)
  let ?r = "map_option remainder_interval_ms (tw_tasks w t)"
  let ?cas = "if k < 512 \<and> ?r = Some (of_nat k) then count_list (assistant_wheel w ?a) t else 0"
  have "of_nat 511 = current_work_wheel_index w" using cw by (metis u64_of_unat)
  then have clear511: "count_list (work_wheel w (of_nat 511)) t = 0" using clear by (simp add: count_notin)
  have "due_work (cascade_current w2) t k = due_work w t (Suc k) + ?cas"
    using clear511 by (cases "k = 511")
      (auto simp: due_work_def cascade_current_def Cascade_def same cw cascade_tasks_count)
  moreover have "due_assistant (cascade_current w2) t k + ?cas = due_assistant w t (Suc k)"
  proof (cases "k < 512")
    case True
    have "of_nat ((?ca + 1) mod 64) = ?a" using a by (metis u64_of_unat)
    moreover have "(512 + k) div 512 = Suc 0" using True by simp
    ultimately show ?thesis using True
      by (auto simp: due_assistant_def cascade_current_def Cascade_def same cw Let_def)
  next
    case False
    let ?slot = "of_nat (((?ca + 1) mod 64 + k div 512) mod 64) :: u64"
    have "(512 + k) div 512 = Suc (k div 512)" using div_add_self1 [of 512 k] by simp
    then have slot: "((?ca + 1) mod 64 + k div 512) mod 64 = (?ca + (512 + k) div 512) mod 64"
      by (simp add: mod_simps)
    have "?slot = ?a \<longleftrightarrow> ((?ca + 1) mod 64 + k div 512) mod 64 = (?ca + 1) mod 64"
      unfolding u64_eq_iff a by (subst unat_of_nat_u64) (simp_all add: less_trans [OF mod_less_divisor])
    moreover have "((?ca + 1) mod 64 + k div 512) mod 64 = (?ca + 1) mod 64 \<longleftrightarrow> 64 dvd k div 512"
      using mod_eq_dvd_iff_nat [of "?ca + 1" "?ca + 1 + k div 512" 64] by (simp add: mod_simps)
    moreover have "64 dvd k div 512 \<Longrightarrow> k < 65 * 512 \<Longrightarrow> 64 \<le> k div 512"
      using False by (intro dvd_imp_le) auto
    moreover have "64 \<le> k div 512 \<longleftrightarrow> 64 * 512 \<le> k" by (simp add: less_eq_div_iff_mult_less_eq)
    moreover have "64 * 512 \<le> k \<Longrightarrow> k < 65 * 512 \<Longrightarrow> 64 dvd k div 512"
    proof -
      assume "64 * 512 \<le> k" "k < 65 * 512"
      then have "k div 512 = 64" by (intro div_nat_eqI) auto
      then show ?thesis by simp
    qed
    ultimately have "k < 65 * 512 \<Longrightarrow> ?slot = ?a \<longleftrightarrow> 64 * 512 \<le> k" by metis
    then show ?thesis using False slot
      by (auto simp: due_assistant_def cascade_current_def Cascade_def same cw a Let_def)
  qed
  ultimately show ?thesis by (simp add: due_def adv)
qed

lemma unat_fire_ticks: "unat (fire_ticks ms) = (unat ms + 1) div 2"
proof -
  have "(unat ms + 1) div 2 < 2 ^ 64" using unat_u64_bound [of ms] by simp
  then show ?thesis by (simp add: fire_ticks_def TIMER_RESOLUTION_MS_def unat_of_nat_u64 del: of_nat_add)
qed

lemma work_slot_unique:
  "c < 512 \<Longrightarrow> k < 512 \<Longrightarrow> d < 512 \<Longrightarrow> (c + k) mod 512 = (c + d) mod 512 \<longleftrightarrow> k = (d :: nat)"
  using mod_eq_window [of "c + k" 512 "c + d"] by auto

lemma assistant_slot_unique:
  fixes j j' ca :: nat
  assumes "512 \<le> j" "j < 65 * 512" "512 \<le> j'" "j' < 65 * 512"
  shows "j' mod 512 = j mod 512 \<and> (ca + j' div 512) mod 64 = (ca + j div 512) mod 64 \<longleftrightarrow> j' = j"
proof
  assume eq: "j' mod 512 = j mod 512 \<and> (ca + j' div 512) mod 64 = (ca + j div 512) mod 64"
  have "1 \<le> j div 512" "j div 512 \<le> 64" "1 \<le> j' div 512" "j' div 512 \<le> 64" using assms by auto
  then have "j' div 512 = j div 512"
    using eq mod_eq_window [of "ca + j' div 512" 64 "ca + j div 512"] by auto
  then show "j' = j" using eq by (metis div_mult_mod_eq)
qed simp

lemma count_list_TimerBucket_AddTask:
  "t \<notin> set (b j) \<Longrightarrow> count_list (TimerBucket_AddTask i t b j) t = (if i = j then 1 else 0)"
  by (auto simp: TimerBucket_AddTask_def count_notin)

lemma AddTask_other:
  assumes "u \<noteq> t"
  shows "count_list (work_wheel (AddTask u w) i) t = count_list (work_wheel w i) t"
    and "count_list (assistant_wheel (AddTask u w) i) t = count_list (assistant_wheel w i) t"
    and "tw_tasks (AddTask u w) t = tw_tasks w t"
  using assms
  by (simp_all add: AddTask_def AddTask_at_def TimerBucket_AddTask_def TimingWheel_Start_def Let_def split: option.split)

lemma absent_slots: "absent t w \<Longrightarrow> t \<notin> set (work_wheel w i) \<and> t \<notin> set (assistant_wheel w i)"
  by (simp add: absent_def)

text \<open>\<^verbatim>\<open>AddTask\<close> with the slot as a number \<open>j\<close>: the current index plus the ticks of the duration.\<close>

definition fire_slot :: "timing_wheel \<Rightarrow> timer_task \<Rightarrow> nat" where
  "fire_slot w task = unat (current_work_wheel_index w) + (unat (next_fire_duration_ms task) + 1) div 2"

definition goes_to_work_wheel :: "timing_wheel \<Rightarrow> nat \<Rightarrow> bool" where
  "goes_to_work_wheel w j \<longleftrightarrow> j < 512 \<or> j div 512 = 1 \<and> j mod 512 < unat (current_work_wheel_index w)"

lemma AddTask_indices [simp]:
  "current_work_wheel_index (AddTask t w) = current_work_wheel_index w"
  "current_assistant_wheel_index (AddTask t w) = current_assistant_wheel_index w"
  by (auto simp: AddTask_def AddTask_at_def TimingWheel_Start_def Let_def split: option.split)

lemma due_AddTask_other:
  assumes "u \<noteq> t"
  shows "due (AddTask u w) t k = due w t k"
  unfolding due_def due_work_def due_assistant_def Let_def AddTask_other [OF assms] AddTask_indices ..

lemma AddTask_at_slot:
  assumes live: "tw_tasks w t = Some task" and ok: "wheel_ok w" and j: "fire_slot w task = j" "j < 65 * 512"
  shows "work_wheel (AddTask t w) = (if goes_to_work_wheel w j
           then TimerBucket_AddTask (of_nat (j mod 512)) t (work_wheel w) else work_wheel w)"
    and "assistant_wheel (AddTask t w) = (if goes_to_work_wheel w j then assistant_wheel w
           else TimerBucket_AddTask (of_nat ((unat (current_assistant_wheel_index w) + j div 512) mod 64)) t (assistant_wheel w))"
    and "512 \<le> j \<Longrightarrow> map_option remainder_interval_ms (tw_tasks (AddTask t w) t) = Some (of_nat (j mod 512))"
proof -
  let ?i = "current_work_wheel_index w + fire_ticks (next_fire_duration_ms task)"
  have i: "unat ?i = j"
    using j unfolding fire_slot_def by (subst unat_add_u64) (auto simp: unat_fire_ticks)
  have ij: "?i = of_nat j" by (rule u64_of_unat [OF i])
  have big: "512 \<le> ?i \<longleftrightarrow> 512 \<le> j" using i by (simp add: word_le_nat_alt)
  have g: "GetWorkWheelIndex ?i = of_nat (j mod 512)"
    by (rule u64_of_unat) (simp add: unat_GetWorkWheelIndex i)
  have one: "?i div 512 = 1 \<longleftrightarrow> j div 512 = 1" unfolding u64_eq_iff unat_div_u64 i by simp
  have lt: "(of_nat (j mod 512) :: u64) < current_work_wheel_index w \<longleftrightarrow> j mod 512 < unat (current_work_wheel_index w)"
    unfolding word_less_nat_alt by (subst unat_of_nat_u64) (auto intro: less_trans [OF mod_less_divisor])
  have as: "GetAssistantWheelIndex (current_assistant_wheel_index w + ?i div 512)
      = of_nat ((unat (current_assistant_wheel_index w) + j div 512) mod 64)"
  proof (rule u64_of_unat)
    have "unat (?i div 512) = j div 512" by (simp add: unat_div_u64 i)
    then show "unat (GetAssistantWheelIndex (current_assistant_wheel_index w + ?i div 512))
        = (unat (current_assistant_wheel_index w) + j div 512) mod 64"
      using ok j(2) unfolding unat_GetAssistantWheelIndex wheel_ok_def by (subst unat_add_u64) auto
  qed
  have m: "j < 512 \<Longrightarrow> j mod 512 = j" "\<not> 512 \<le> j \<Longrightarrow> j div 512 \<noteq> 1" by auto
  note word_facts = big [unfolded ij] g [unfolded ij] one [unfolded ij] lt as [unfolded ij]
  note defs = AddTask_def AddTask_at_def live TimingWheel_Start_def Let_def WORK_WHEEL_SIZE_def ij word_facts
    goes_to_work_wheel_def
  show "work_wheel (AddTask t w) = (if goes_to_work_wheel w j
           then TimerBucket_AddTask (of_nat (j mod 512)) t (work_wheel w) else work_wheel w)"
    using m by (auto simp: defs)
  show "assistant_wheel (AddTask t w) = (if goes_to_work_wheel w j then assistant_wheel w
           else TimerBucket_AddTask (of_nat ((unat (current_assistant_wheel_index w) + j div 512) mod 64)) t (assistant_wheel w))"
    using m by (auto simp: defs)
  show "512 \<le> j \<Longrightarrow> map_option remainder_interval_ms (tw_tasks (AddTask t w) t) = Some (of_nat (j mod 512))"
    by (auto simp: defs)
qed

lemma due_AddTask_self:
  assumes live: "tw_tasks w t = Some task" and ok: "wheel_ok w" and new: "absent t w"
    and d: "(unat (next_fire_duration_ms task) + 1) div 2 = d" "1 \<le> d" "d \<le> 32768"
  shows "due (AddTask t w) t k = (if k = d then 1 else 0)"
proof -
  let ?c = "unat (current_work_wheel_index w)" and ?ca = "unat (current_assistant_wheel_index w)"
  have c: "?c < 512" using ok by (simp add: wheel_ok_def)
  define j where "j = ?c + d"
  have slot: "fire_slot w task = j" "j < 65 * 512" using d c by (auto simp: fire_slot_def j_def)
  note add = AddTask_at_slot [OF live ok slot]
  note cnt = count_list_TimerBucket_AddTask [of t "work_wheel w", OF conjunct1 [OF absent_slots [OF new]]]
    count_list_TimerBucket_AddTask [of t "assistant_wheel w", OF conjunct2 [OF absent_slots [OF new]]]
    count_notin [OF conjunct1 [OF absent_slots [OF new]]] count_notin [OF conjunct2 [OF absent_slots [OF new]]]
  have small: "i mod 512 < 2 ^ 64" "i mod 64 < 2 ^ 64" for i :: nat
    by (auto intro: less_trans [OF mod_less_divisor])
  show ?thesis
  proof (cases "goes_to_work_wheel w j")
    case True
    moreover have "512 * (j div 512) + j mod 512 = j" by simp
    ultimately have "j < 512 + ?c" unfolding goes_to_work_wheel_def by linarith
    then have "d < 512" using c by (auto simp: j_def)
    then have "k < 512 \<Longrightarrow> (of_nat (j mod 512) :: u64) = of_nat ((?c + k) mod 512) \<longleftrightarrow> k = d"
      unfolding of_nat_u64_eq_iff [OF small(1) small(1)] j_def using work_slot_unique [of ?c d k, OF c] by blast
    then have "due_work (AddTask t w) t k = (if k = d then 1 else 0)"
      using True \<open>d < 512\<close> by (cases "k < 512"; cases "k = d") (auto simp: due_work_def add(1) cnt)
    then show ?thesis using True by (simp add: due_def due_assistant_def add cnt Let_def)
  next
    case False
    then have ge: "512 \<le> j" by (simp add: goes_to_work_wheel_def)
    let ?J = "?c + k" and ?slot = "\<lambda>i. of_nat ((?ca + i div 512) mod 64) :: u64"
    have "due_assistant (AddTask t w) t k =
        (if 512 \<le> ?J \<and> ?J < 65 * 512 \<and> (of_nat (j mod 512) :: u64) = of_nat (?J mod 512)
         then if ?slot j = ?slot ?J then 1 else 0 else 0)"
      by (simp only: due_assistant_def Let_def add(2) add(3) [OF ge] option.inject False if_False cnt AddTask_indices)
    moreover have "512 \<le> ?J \<Longrightarrow> ?J < 65 * 512 \<Longrightarrow>
        (of_nat (j mod 512) :: u64) = of_nat (?J mod 512) \<and> ?slot j = ?slot ?J \<longleftrightarrow> j = ?J"
      unfolding of_nat_u64_eq_iff [OF small(1) small(1)] of_nat_u64_eq_iff [OF small(2) small(2)]
      using assistant_slot_unique [of ?J j ?ca] ge slot(2) by blast
    ultimately have "due_assistant (AddTask t w) t k = (if ?J = j then 1 else 0)"
      using ge slot(2) by auto
    then show ?thesis using False by (simp add: due_def due_work_def add cnt j_def)
  qed
qed

section \<open>Runs\<close>

text \<open>
  A history of the wheel: operations that come while the tick thread sleeps, and the turns of its
  loop with the operations that fall between their stages.
\<close>

datatype wheel_event = Op wheel_op | Turn "wheel_op list" "wheel_op list" "wheel_op list"

abbreviation Round :: wheel_event where
  "Round \<equiv> Turn [] [] []"

fun wheel_run :: "wheel_event list \<Rightarrow> timing_wheel \<Rightarrow> task_addr list list \<times> timing_wheel" where
  "wheel_run [] w = ([], w)"
| "wheel_run (Op p # es) w = wheel_run es (wheel_ops [p] w)"
| "wheel_run (Turn ops1 ops2 ops3 # es) w =
     (case TickFunc_turn ops1 ops2 ops3 w of (fired, w1) \<Rightarrow> case wheel_run es w1 of (fs, w2) \<Rightarrow> (fired # fs, w2))"

text \<open>The operations of a history, and those that do not concern the task \<open>t\<close>.\<close>

fun ops_of :: "wheel_event list \<Rightarrow> wheel_op list" where
  "ops_of [] = []"
| "ops_of (Op p # es) = p # ops_of es"
| "ops_of (Turn ops1 ops2 ops3 # es) = ops1 @ ops2 @ ops3 @ ops_of es"

definition spares :: "task_addr \<Rightarrow> wheel_op list \<Rightarrow> bool" where
  "spares t ops \<longleftrightarrow> Add t \<notin> set ops \<and> Expire t \<notin> set ops"

lemma spares_simps [simp]:
  "spares t []" "spares t (Add u # ops) \<longleftrightarrow> u \<noteq> t \<and> spares t ops" "spares t (Expire u # ops) \<longleftrightarrow> u \<noteq> t \<and> spares t ops"
  "spares t (ops @ ops') \<longleftrightarrow> spares t ops \<and> spares t ops'"
  by (auto simp: spares_def)

text \<open>
  Two wheels that agree on one task: the same indices, the same task record, and the task as often in
  every bucket.  Operations on other tasks change nothing of this, and every stage of a turn keeps it.
\<close>

definition agree_on :: "task_addr \<Rightarrow> timing_wheel \<Rightarrow> timing_wheel \<Rightarrow> bool" where
  "agree_on t w w' \<longleftrightarrow> current_work_wheel_index w' = current_work_wheel_index w
     \<and> current_assistant_wheel_index w' = current_assistant_wheel_index w \<and> tw_tasks w' t = tw_tasks w t
     \<and> (\<forall>i. count_list (work_wheel w' i) t = count_list (work_wheel w i) t)
     \<and> (\<forall>i. count_list (assistant_wheel w' i) t = count_list (assistant_wheel w i) t)"

lemma agree_on_refl [simp]: "agree_on t w w"
  by (simp add: agree_on_def)

lemma agree_on_trans: "agree_on t w w' \<Longrightarrow> agree_on t w' w'' \<Longrightarrow> agree_on t w w''"
  by (simp add: agree_on_def)

lemma agree_on_ops: "spares t ops \<Longrightarrow> agree_on t w (wheel_ops ops w)"
proof (induction ops w rule: wheel_ops.induct)
  case (2 u ops w)
  then have "agree_on t w (AddTask u w)" by (simp add: agree_on_def AddTask_other)
  then show ?case using 2 by (auto intro: agree_on_trans)
next
  case (3 u ops w)
  then have "agree_on t w (expire u w)" by (simp add: agree_on_def expire_def)
  then show ?case using 3 by (auto intro: agree_on_trans)
qed simp

lemma agree_on_stages:
  assumes "agree_on t w w'"
  shows "agree_on t (advance_work_wheel w) (advance_work_wheel w')"
    and "agree_on t (advance_assistant_wheel w) (advance_assistant_wheel w')"
    and "agree_on t (cascade_current w) (cascade_current w')"
  using assms
  by (auto simp: agree_on_def advance_work_wheel_def advance_assistant_wheel_def cascade_current_def Cascade_def
      cascade_tasks_count)

lemma agree_on_due:
  assumes "agree_on t w w'"
  shows "due w' t k = due w t k"
proof -
  have "current_work_wheel_index w' = current_work_wheel_index w"
    "current_assistant_wheel_index w' = current_assistant_wheel_index w" "tw_tasks w' t = tw_tasks w t"
    "count_list (work_wheel w' i) t = count_list (work_wheel w i) t"
    "count_list (assistant_wheel w' i) t = count_list (assistant_wheel w i) t" for i
    using assms by (simp_all add: agree_on_def)
  then show ?thesis unfolding due_def due_work_def due_assistant_def Let_def by (simp only:)
qed

text \<open>Between two rounds, as seen by one task: indices in range, the task alive, its current slot already served.\<close>

definition tracks :: "task_addr \<Rightarrow> timing_wheel \<Rightarrow> bool" where
  "tracks t w \<longleftrightarrow> wheel_ok w \<and> tw_tasks w t \<noteq> None \<and> t \<notin> set (work_wheel w (current_work_wheel_index w))"

lemma TickFunc_advance_facts:
  assumes "wheel_ok w"
  shows "wheel_ok (TickFunc_advance w) \<and> tw_tasks (TickFunc_advance w) = tw_tasks w"
proof -
  have "tw_tasks (TickFunc_advance w) = tw_tasks w"
    by (simp add: TickFunc_advance_def advance_work_wheel_def advance_assistant_wheel_def cascade_current_def
        Cascade_def Let_def)
  moreover have "wheel_ok (TickFunc_advance w)"
    using assms by (simp add: TickFunc_advance_def advance_work_wheel_def advance_assistant_wheel_def cascade_current_def
        Cascade_def Let_def wheel_ok_def unat_GetWorkWheelIndex unat_GetAssistantWheelIndex)
  ultimately show ?thesis by simp
qed

lemma due_advance: "tracks t w \<Longrightarrow> due (TickFunc_advance w) t k = due w t (Suc k)"
  using due_advance_inside [of w t k] due_advance_wrap [of w t k]
  unfolding tracks_def wheel_ok_def by linarith

lemma due_0: "wheel_ok w \<Longrightarrow> due w t 0 = count_list (work_wheel w (current_work_wheel_index w)) t"
  by (simp add: due_def due_work_def due_assistant_def wheel_ok_def)

lemma due_assistant_cong:
  "current_work_wheel_index w' = current_work_wheel_index w \<Longrightarrow>
   current_assistant_wheel_index w' = current_assistant_wheel_index w \<Longrightarrow>
   assistant_wheel w' = assistant_wheel w \<Longrightarrow> tw_tasks w' t = tw_tasks w t \<Longrightarrow>
   due_assistant w' t k = due_assistant w t k"
  unfolding due_assistant_def Let_def by (simp only:)

lemma tick_due:
  assumes ok: "wheel_ok w" and live: "tw_tasks w t \<noteq> None" and tick: "TickFunc_tick w = (fired, w')"
  shows "count_list fired t = due w t 0" and "tracks t w'" and "0 < k \<Longrightarrow> due w' t k = due w t k"
proof -
  let ?c = "current_work_wheel_index w"
  have f: "fired = filter (\<lambda>t. tw_tasks w t \<noteq> None) (work_wheel w ?c)"
    and w': "w' = w\<lparr>work_wheel := (work_wheel w)(?c := []), tw_pending := tw_pending w @ fired,
                   tw_tick_count := tw_tick_count w + 1\<rparr>"
    using tick by (auto simp: TickFunc_tick_def Tick_def Let_def)
  have "count_list (filter P xs) t = (if P t then count_list xs t else 0)" for P xs
    by (induction xs) auto
  then show "count_list fired t = due w t 0" using live by (simp add: f due_0 [OF ok])
  show "tracks t w'" using ok live by (simp add: tracks_def wheel_ok_def w')
  show "due w' t k = due w t k" if "0 < k"
  proof -
    have "k < 512 \<Longrightarrow> (of_nat ((unat ?c + k) mod 512) :: u64) \<noteq> ?c"
      using that ok mod_neq_window [of "unat ?c + k" "unat ?c" 512]
      by (auto simp: u64_eq_iff wheel_ok_def unat_of_nat_u64 less_trans [OF mod_less_divisor])
    then have "due_work w' t k = due_work w t k" by (simp add: due_work_def w')
    moreover have "due_assistant w' t k = due_assistant w t k" by (rule due_assistant_cong) (simp_all add: w')
    ultimately show ?thesis by (simp add: due_def)
  qed
qed

lemma agree_on_tracks: "agree_on t w w' \<Longrightarrow> tracks t w \<Longrightarrow> tracks t w'"
  by (simp add: agree_on_def tracks_def wheel_ok_def count_list_0_iff [symmetric])

text \<open>As seen by a task, a turn that operations on other tasks come between is an undisturbed advance and a tick.\<close>

lemma TickFunc_turn_ticks:
  assumes "spares t ops1" "spares t ops2" "spares t ops3"
  obtains w' where "TickFunc_turn ops1 ops2 ops3 w = TickFunc_tick w'" "agree_on t (TickFunc_advance w) w'"
proof -
  let ?w1 = "wheel_ops ops1 (advance_work_wheel w)"
  have w1: "agree_on t (advance_work_wheel w) ?w1" using assms(1) by (rule agree_on_ops)
  then have idx: "current_work_wheel_index ?w1 = current_work_wheel_index (advance_work_wheel w)"
    by (simp add: agree_on_def)
  have w2: "agree_on t (advance_assistant_wheel (advance_work_wheel w)) (wheel_ops ops2 (advance_assistant_wheel ?w1))"
    using agree_on_stages(2) [OF w1] agree_on_ops [OF assms(2)] by (rule agree_on_trans)
  have w3: "agree_on t (cascade_current (advance_assistant_wheel (advance_work_wheel w)))
      (wheel_ops ops3 (cascade_current (wheel_ops ops2 (advance_assistant_wheel ?w1))))"
    using agree_on_stages(3) [OF w2] agree_on_ops [OF assms(3)] by (rule agree_on_trans)
  show thesis
    by (rule that, simp add: TickFunc_turn_def Let_def) (use w1 w3 idx in \<open>simp add: TickFunc_advance_def Let_def\<close>)
qed

lemma run_fires_due:
  "tracks t w \<Longrightarrow> spares t (ops_of es) \<Longrightarrow> wheel_run es w = (fs, w') \<Longrightarrow> n < length fs \<Longrightarrow>
     count_list (fs ! n) t = due w t (Suc n)"
proof (induction es w arbitrary: fs n rule: wheel_run.induct)
  case (2 p es w)
  then have "agree_on t w (wheel_ops [p] w)" by (intro agree_on_ops) (cases p; simp)
  then show ?case using 2 agree_on_tracks agree_on_due by (cases p) simp_all
next
  case (3 ops1 ops2 ops3 es w)
  obtain fired w1 where r: "TickFunc_turn ops1 ops2 ops3 w = (fired, w1)" by (cases "TickFunc_turn ops1 ops2 ops3 w")
  obtain fs1 where fs: "wheel_run es w1 = (fs1, w')" "fs = fired # fs1"
    using 3(4) r by (auto split: prod.splits)
  obtain wt where wt: "TickFunc_turn ops1 ops2 ops3 w = TickFunc_tick wt" "agree_on t (TickFunc_advance w) wt"
    using TickFunc_turn_ticks [of t ops1 ops2 ops3 w] 3(3) by auto
  have adv: "wheel_ok wt" "tw_tasks wt t \<noteq> None"
    using TickFunc_advance_facts [of w] 3(2) wt(2) by (auto simp: tracks_def agree_on_def wheel_ok_def)
  note tick = tick_due [OF adv r [unfolded wt(1)]]
  have due: "due wt t k = due w t (Suc k)" for k
    using agree_on_due [OF wt(2)] due_advance [OF 3(2)] by simp
  show ?case
  proof (cases n)
    case 0
    then show ?thesis using tick(1) due [of 0] fs by simp
  next
    case (Suc m)
    have "count_list (fs1 ! m) t = due w1 t (Suc m)"
      using 3(1) [OF r [symmetric] tick(2) _ fs(1)] 3(3,5) Suc fs(2) by simp
    then show ?thesis using Suc fs(2) tick(3) [of "Suc m"] due [of "Suc m"] by simp
  qed
qed auto

text \<open>A newly added task: it is tracked, and due exactly once.\<close>

lemma tracks_AddTask:
  assumes live: "tw_tasks w t = Some task" and ok: "wheel_ok w" and new: "absent t w"
    and d: "(unat (next_fire_duration_ms task) + 1) div 2 = d" "1 \<le> d" "d \<le> 32768"
  shows "tracks t (AddTask t w)"
proof -
  have ok': "wheel_ok (AddTask t w)" using ok by (simp add: wheel_ok_def)
  have "due (AddTask t w) t 0 = 0" using due_AddTask_self [OF assms, of 0] d(2) by simp
  then have "t \<notin> set (work_wheel (AddTask t w) (current_work_wheel_index (AddTask t w)))"
    using due_0 [OF ok', of t] by (simp add: count_list_0_iff)
  moreover have "tw_tasks (AddTask t w) t \<noteq> None"
    using live by (simp add: AddTask_def AddTask_at_def TimingWheel_Start_def Let_def)
  ultimately show ?thesis using ok' by (simp add: tracks_def)
qed

lemma new_task_fires_once:
  assumes "tw_tasks w t = Some task" "wheel_ok w" "absent t w"
    and "(unat (next_fire_duration_ms task) + 1) div 2 = d" "1 \<le> d" "d \<le> 32768"
    and "spares t (ops_of es)" "wheel_run es (AddTask t w) = (fs, w')" "n < length fs"
  shows "count_list (fs ! n) t = (if Suc n = d then 1 else 0)"
  using run_fires_due [OF tracks_AddTask [OF assms(1-6)] assms(7-9)] due_AddTask_self [OF assms(1-6), of "Suc n"]
  by simp

lemma expired_stays_expired: "tw_tasks w t = None \<Longrightarrow> tw_tasks (wheel_ops ops w) t = None"
proof (induction ops w rule: wheel_ops.induct)
  case (2 u ops w)
  have "tw_tasks (AddTask u w) t = None"
    using 2(2) AddTask_other(3) [of u t w] by (cases "u = t") (auto simp: AddTask_def AddTask_at_def)
  then show ?case using 2(1) by simp
qed (simp_all add: expire_def)

lemma expired_never_fires:
  "tw_tasks w t = None \<Longrightarrow> wheel_run es w = (fs, w') \<Longrightarrow> n < length fs \<Longrightarrow> t \<notin> set (fs ! n)"
proof (induction es w arbitrary: fs n rule: wheel_run.induct)
  case (2 p es w)
  then show ?case using expired_stays_expired [of w t "[p]"] by simp
next
  case (3 ops1 ops2 ops3 es w)
  obtain fired w1 where r: "TickFunc_turn ops1 ops2 ops3 w = (fired, w1)" by (cases "TickFunc_turn ops1 ops2 ops3 w")
  obtain fs1 where fs: "wheel_run es w1 = (fs1, w')" "fs = fired # fs1"
    using 3(3) r by (auto split: prod.splits)
  have stages: "tw_tasks (advance_work_wheel v) = tw_tasks v" "tw_tasks (advance_assistant_wheel v) = tw_tasks v"
    "tw_tasks (cascade_current v) = tw_tasks v" for v
    by (simp_all add: advance_work_wheel_def advance_assistant_wheel_def cascade_current_def Cascade_def)
  have "t \<notin> set fired \<and> tw_tasks w1 t = None"
    using r 3(2) by (auto simp: TickFunc_turn_def TickFunc_tick_def Tick_def Let_def stages expired_stays_expired
        split: if_splits)
  then show ?case using 3(1) [OF r [symmetric] _ fs(1)] 3(4) fs(2) by (cases n) auto
qed auto

end
