(* ===== verification/Timers.thy ===== *)
theory Timers
  imports Timing_Wheel
begin

text \<open>
  \<^verbatim>\<open>cyber/timer/timer.cc\<close>: the timers that put tasks into the timing wheel, their callbacks, and what
  the two components guarantee together.
\<close>

section \<open>State and operations\<close>

record timer_option =
  opt_period :: u32
  opt_oneshot :: bool

record timer =
  timer_id :: u64
  timer_opt :: timer_option
  timer_task_ptr :: "task_addr option"
  timer_started :: bool

text \<open>\<^verbatim>\<open>GenerateTimerId\<close> takes the next id; \<open>next_id\<close> is \<^verbatim>\<open>global_timer_id\<close>.\<close>

definition GenerateTimerId :: "u64 \<Rightarrow> u64 \<times> u64" where
  "GenerateTimerId next_id = (next_id, next_id + 1)"

definition Timer :: "timer_option \<Rightarrow> u64 \<Rightarrow> timer \<times> u64" where
  "Timer opt next_id = (case GenerateTimerId next_id of (i, n) \<Rightarrow>
     (\<lparr>timer_id = i, timer_opt = opt, timer_task_ptr = None, timer_started = False\<rparr>, n))"

definition SetTimerOption :: "timer_option \<Rightarrow> timer \<Rightarrow> timer" where
  "SetTimerOption opt tm = tm\<lparr>timer_opt := opt\<rparr>"

text \<open>\<open>a\<close> is the address the allocator returns for the new task; a task the timer held before is dropped.\<close>

definition InitTimerTask :: "task_addr \<Rightarrow> timer \<Rightarrow> timing_wheel \<Rightarrow> bool \<times> timer \<times> timing_wheel" where
  "InitTimerTask a tm w =
     (let p = (ucast (opt_period (timer_opt tm)) :: u64)
      in if p = 0 then (False, tm, w)
         else if TIMER_MAX_INTERVAL_MS \<le> p then (False, tm, w)
         else let w = (case timer_task_ptr tm of Some old \<Rightarrow> expire old w | None \<Rightarrow> w);
                  task = \<lparr>task_timer_id = timer_id tm,
                          task_callback = (if opt_oneshot (timer_opt tm) then OneShot else Periodic),
                          interval_ms = p, remainder_interval_ms = 0, next_fire_duration_ms = p,
                          accumulated_error_ns = 0, last_execute_time_ns = 0\<rparr>
              in (True, tm\<lparr>timer_task_ptr := Some a\<rparr>, w\<lparr>tw_tasks := (tw_tasks w)(a \<mapsto> task)\<rparr>))"

definition Timer_Start :: "bool \<Rightarrow> task_addr \<Rightarrow> timer \<Rightarrow> timing_wheel \<Rightarrow> timer \<times> timing_wheel" where
  "Timer_Start reality_mode a tm w =
     (if \<not> reality_mode then (tm, w)
      else if timer_started tm then (tm, w)
      else case InitTimerTask a (tm\<lparr>timer_started := True\<rparr>) w of
             (True, tm', w') \<Rightarrow> (tm', AddTask a w')
           | (False, tm', w') \<Rightarrow> (tm', w'))"

definition Timer_Stop :: "timer \<Rightarrow> timing_wheel \<Rightarrow> timer \<times> timing_wheel" where
  "Timer_Stop tm w =
     (if timer_started tm
      then case timer_task_ptr tm of
             Some a \<Rightarrow> (tm\<lparr>timer_started := False, timer_task_ptr := None\<rparr>, expire a w)
           | None \<Rightarrow> (tm\<lparr>timer_started := False\<rparr>, w)
      else (tm, w))"

text \<open>
  \<^verbatim>\<open>llround(x / 1e6)\<close>: to the nearest integer, halves away from zero (the quotient is exact enough
  in double precision for any time span below a year).
\<close>

definition llround_ms :: "int \<Rightarrow> int" where
  "llround_ms x = (if 0 \<le> x then (x + 500000) div 1000000 else - ((500000 - x) div 1000000))"

text \<open>What the periodic callback does to its task around the user's function, which ran from \<open>start\<close> to \<open>finish\<close>.\<close>

definition reschedule :: "u64 \<Rightarrow> u64 \<Rightarrow> timer_task \<Rightarrow> timer_task" where
  "reschedule start finish task =
     (let execute_time_ms = (of_int (llround_ms (uint (finish - start))) :: u64);
          acc = (if last_execute_time_ns task = 0 then accumulated_error_ns task
                 else accumulated_error_ns task + (start - last_execute_time_ns task - interval_ms task * 1000000));
          accumulated_error_ms = llround_ms (sint acc);
          next = (if interval_ms task \<le> execute_time_ms then TIMER_RESOLUTION_MS
                  else if accumulated_error_ms \<le> sint (interval_ms task - execute_time_ms - TIMER_RESOLUTION_MS)
                  then interval_ms task - execute_time_ms - of_int accumulated_error_ms
                  else TIMER_RESOLUTION_MS)
      in task\<lparr>accumulated_error_ns := acc, last_execute_time_ns := start, next_fire_duration_ms := next\<rparr>)"

text \<open>
  An asynchronous task that \<^verbatim>\<open>Tick\<close> posted: it calls through a raw pointer into the timer task, which
  must still be there.  The result says whether the user's function ran.
\<close>

datatype callback_error = DanglingCallback

definition run_callback :: "u64 \<Rightarrow> u64 \<Rightarrow> timing_wheel \<Rightarrow> callback_error + bool \<times> timing_wheel" where
  "run_callback start finish w =
     (case tw_pending w of
        [] \<Rightarrow> Inr (False, w)
      | t # ts \<Rightarrow>
          let w = w\<lparr>tw_pending := ts\<rparr>
          in if \<not> tw_running w then Inr (False, w)
             else case tw_tasks w t of
                    None \<Rightarrow> Inl DanglingCallback
                  | Some task \<Rightarrow>
                      (case task_callback task of
                         OneShot \<Rightarrow> Inr (True, w)
                       | Periodic \<Rightarrow>
                           Inr (True, AddTask t (w\<lparr>tw_tasks := (tw_tasks w)(t \<mapsto> reschedule start finish task)\<rparr>))))"

section \<open>Durations\<close>

lemma period_u64: "unat (ucast (p :: u32) :: u64) = unat p"
  using unsigned_less [of p, where 'a = nat] by (simp add: unsigned_ucast_eq take_bit_nat_eq_self)

lemma max_interval: "unat TIMER_MAX_INTERVAL_MS = 65536"
  by (simp add: TIMER_MAX_INTERVAL_MS_def WORK_WHEEL_SIZE_def ASSISTANT_WHEEL_SIZE_def TIMER_RESOLUTION_MS_def)

lemma llround_ms_error: "\<bar>1000000 * llround_ms x - x\<bar> \<le> 500000"
  by (simp add: llround_ms_def) linarith

lemma llround_ms_bound: "\<bar>x\<bar> \<le> 18446744073709551616 \<Longrightarrow> \<bar>llround_ms x\<bar> < 35184372088832"
  using llround_ms_error [of x] by linarith

lemma llround_ms_nonneg: "0 \<le> x \<Longrightarrow> 0 \<le> llround_ms x"
  by (simp add: llround_ms_def)

lemma uint_small: "0 \<le> v \<Longrightarrow> v < 18446744073709551616 \<Longrightarrow> uint (of_int v :: u64) = v"
  by (simp add: uint_word_of_int)

lemma sint_small: "- 9223372036854775808 \<le> v \<Longrightarrow> v < 9223372036854775808 \<Longrightarrow> sint (of_int v :: u64) = v"
  by (simp add: sint_sbintrunc' signed_take_bit_int_eq_self)

text \<open>The new duration of a rescheduled task, over the integers.\<close>

definition next_duration :: "int \<Rightarrow> int \<Rightarrow> int \<Rightarrow> int" where
  "next_duration interval execute_ms error_ms =
     (if interval \<le> execute_ms then 2
      else if error_ms \<le> interval - execute_ms - 2 then interval - execute_ms - error_ms else 2)"

lemma reschedule_next_duration:
  fixes task start finish
  defines "e \<equiv> llround_ms (uint (finish - start))"
    and "err \<equiv> llround_ms (sint (accumulated_error_ns (reschedule start finish task)))"
  assumes i: "uint (interval_ms task) < 65536"
  shows "uint (next_fire_duration_ms (reschedule start finish task)) = next_duration (uint (interval_ms task)) e err"
proof -
  let ?i = "interval_ms task"
  have e: "0 \<le> e" "e < 35184372088832"
    using llround_ms_nonneg [of "uint (finish - start)"] llround_ms_bound [of "uint (finish - start)"]
      unsigned_less [of "finish - start", where 'a = int] unsigned_greater_eq [of "finish - start", where 'a = int]
    by (auto simp: e_def)
  have "\<bar>sint x\<bar> \<le> 18446744073709551616" for x :: u64
    using sint_greater_eq [of x] sint_less [of x] by auto
  then have err: "\<bar>err\<bar> < 35184372088832" unfolding err_def by (rule llround_ms_bound)
  have i0: "0 \<le> uint ?i" by simp
  have le: "?i \<le> of_int e \<longleftrightarrow> uint ?i \<le> e"
    using e by (simp add: word_le_def uint_small)
  have s: "sint (?i - of_int e - 2) = uint ?i - e - 2"
  proof -
    have "?i - of_int e - 2 = of_int (uint ?i - e - 2)" by simp
    then show ?thesis using e i i0 by (simp only: sint_small)
  qed
  have u: "err \<le> uint ?i - e - 2 \<Longrightarrow> uint (?i - of_int e - of_int err) = uint ?i - e - err"
  proof -
    assume "err \<le> uint ?i - e - 2"
    moreover have "?i - of_int e - of_int err = of_int (uint ?i - e - err)" by simp
    ultimately show ?thesis using e i i0 err by (simp only: uint_small)
  qed
  have "next_fire_duration_ms (reschedule start finish task) =
      (if ?i \<le> of_int e then 2 else if err \<le> sint (?i - of_int e - 2) then ?i - of_int e - of_int err else 2)"
    by (simp add: reschedule_def Let_def e_def err_def TIMER_RESOLUTION_MS_def)
  then show ?thesis unfolding next_duration_def le s using u by auto
qed

lemma next_duration_ge_2: "2 \<le> next_duration i e err"
  by (simp add: next_duration_def)

section \<open>Properties\<close>

lemma Timer_Start_task:
  assumes "timer_started tm = False" "timer_task_ptr tm = None" "0 < unat (opt_period (timer_opt tm))"
    and "unat (opt_period (timer_opt tm)) < 65536" and "absent a w" "wheel_ok w"
  defines "w0 \<equiv> snd (snd (InitTimerTask a (tm\<lparr>timer_started := True\<rparr>) w))"
  shows "snd (Timer_Start True a tm w) = AddTask a w0" and "wheel_ok w0" and "absent a w0"
    and "\<exists>task. tw_tasks w0 a = Some task \<and> unat (next_fire_duration_ms task) = unat (opt_period (timer_opt tm))"
proof -
  let ?p = "ucast (opt_period (timer_opt tm)) :: u64"
  have p: "?p \<noteq> 0" "\<not> TIMER_MAX_INTERVAL_MS \<le> ?p"
    using assms(3,4) period_u64 [of "opt_period (timer_opt tm)"]
    by (auto simp: word_le_nat_alt max_interval unat_eq_0 simp flip: unat_gt_0)
  obtain task where t: "InitTimerTask a (tm\<lparr>timer_started := True\<rparr>) w =
      (True, tm\<lparr>timer_started := True, timer_task_ptr := Some a\<rparr>, w\<lparr>tw_tasks := (tw_tasks w)(a \<mapsto> task)\<rparr>)"
    and d: "next_fire_duration_ms task = ?p"
    using assms(2) p by (simp add: InitTimerTask_def Let_def)
  have w0: "w0 = w\<lparr>tw_tasks := (tw_tasks w)(a \<mapsto> task)\<rparr>" by (simp add: w0_def t)
  show "snd (Timer_Start True a tm w) = AddTask a w0" using assms(1) by (simp add: Timer_Start_def t w0)
  show "wheel_ok w0" "absent a w0" using assms(5,6) by (simp_all add: w0 wheel_ok_def absent_def)
  show "\<exists>task. tw_tasks w0 a = Some task \<and> unat (next_fire_duration_ms task) = unat (opt_period (timer_opt tm))"
    using d period_u64 by (simp add: w0)
qed


definition demo_timer :: timer where
  "demo_timer = \<lparr>timer_id = 0, timer_opt = \<lparr>opt_period = 3, opt_oneshot = True\<rparr>,
     timer_task_ptr = None, timer_started = False\<rparr>"


text \<open>
  A periodic timer whose callback runs is put back into the wheel: however long the callback
  took, the next interval is at least one tick (never zero, which would skip a whole turn of the
  wheel), it is the period reduced by the run time and by the accumulated error when that leaves at
  least one tick, and the task is due exactly once, that many ticks later.
\<close>

lemma periodic_timer_rescheduled:
  fixes start finish task
  defines "next \<equiv> next_duration (uint (interval_ms task)) (llround_ms (uint (finish - start)))
             (llround_ms (sint (accumulated_error_ns (reschedule start finish task))))"
  assumes "tw_pending w = t # ts" and "tw_running w" and "tw_tasks w t = Some task" and "task_callback task = Periodic"
    and "uint (interval_ms task) < 65536" and "absent t w" and "wheel_ok w" and "next \<le> 65536"
  shows "\<exists>w'. run_callback start finish w = Inr (True, w') \<and> 2 \<le> next
    \<and> (\<forall>k. due w' t k = (if int k = (next + 1) div 2 then 1 else 0))"
proof -
  define w1 where "w1 = w\<lparr>tw_pending := ts, tw_tasks := (tw_tasks w)(t \<mapsto> reschedule start finish task)\<rparr>"
  have run: "run_callback start finish w = Inr (True, AddTask t w1)"
    using assms(2-5) by (simp add: run_callback_def w1_def)
  have n: "uint (next_fire_duration_ms (reschedule start finish task)) = next"
    unfolding next_def by (rule reschedule_next_duration [OF assms(6)])
  then have un: "int (unat (next_fire_duration_ms (reschedule start finish task))) = next"
    by (simp only: flip: uint_nat)
  have ge: "2 \<le> next" unfolding next_def by (rule next_duration_ge_2)
  define d where "d = (unat (next_fire_duration_ms (reschedule start finish task)) + 1) div 2"
  have d: "int d = (next + 1) div 2" using un by (simp add: d_def zdiv_int)
  have "due (AddTask t w1) t k = (if k = d then 1 else 0)" for k
  proof (rule due_AddTask_self)
    show "tw_tasks w1 t = Some (reschedule start finish task)" by (simp add: w1_def)
    show "wheel_ok w1" "absent t w1" using assms(7,8) by (simp_all add: w1_def wheel_ok_def absent_def)
    show "(unat (next_fire_duration_ms (reschedule start finish task)) + 1) div 2 = d" by (simp add: d_def)
    show "1 \<le> d" "d \<le> 32768" using d ge assms(9) by auto
  qed
  then show ?thesis using run ge d by (intro exI [of _ "AddTask t w1"]) auto
qed

definition demo_task :: timer_task where
  "demo_task = \<lparr>task_timer_id = 0, task_callback = Periodic, interval_ms = 100, remainder_interval_ms = 0,
     next_fire_duration_ms = 100, accumulated_error_ns = 0, last_execute_time_ns = 0\<rparr>"

definition demo_fired :: timing_wheel where
  "demo_fired = TimingWheel\<lparr>tw_running := True, tw_tasks := [5 \<mapsto> demo_task], tw_pending := [5]\<rparr>"

lemma periodic_timer_rescheduled_witness:
  "\<exists>w'. run_callback 1000000 31000000 demo_fired = Inr (True, w') \<and> due w' 5 35 = 1"
proof -
  have e: "llround_ms (uint ((31000000 :: u64) - 1000000)) = 30" by (simp add: llround_ms_def)
  have err: "llround_ms (sint (accumulated_error_ns (reschedule 1000000 31000000 demo_task))) = 0"
    by (simp add: reschedule_def demo_task_def llround_ms_def Let_def)
  have n: "next_duration (uint (interval_ms demo_task)) 30 0 = 70" by (simp add: next_duration_def demo_task_def)
  have "tw_pending demo_fired = 5 # []" "tw_running demo_fired" "tw_tasks demo_fired 5 = Some demo_task"
    "task_callback demo_task = Periodic" "uint (interval_ms demo_task) < 65536" "absent 5 demo_fired" "wheel_ok demo_fired"
    by (simp_all add: demo_fired_def demo_task_def TimingWheel_def absent_def wheel_ok_def)
  from periodic_timer_rescheduled [OF this, where start = 1000000 and finish = 31000000, unfolded e err n]
  show ?thesis by auto
qed

section \<open>Two races\<close>

text \<open>On a wheel without tasks a round only moves the indices.\<close>

lemma empty_round:
  assumes "work_wheel w = (\<lambda>_. [])" "assistant_wheel w = (\<lambda>_. [])" "unat (current_work_wheel_index w) < 511"
  shows "TickFunc_round w = ([], w\<lparr>current_work_wheel_index := current_work_wheel_index w + 1, tw_tick_count := tw_tick_count w + 1\<rparr>)"
proof -
  have "unat (GetWorkWheelIndex (current_work_wheel_index w + 1)) = unat (current_work_wheel_index w + 1)"
    using assms(3) by (simp add: unat_GetWorkWheelIndex unat_Suc_u64)
  then have g: "GetWorkWheelIndex (current_work_wheel_index w + 1) = current_work_wheel_index w + 1"
    by (simp add: u64_eq_iff)
  have "unat (current_work_wheel_index w + 1) \<noteq> 0" using assms(3) by (simp add: unat_Suc_u64)
  then have nz: "current_work_wheel_index w + 1 \<noteq> 0" by (simp add: unat_eq_0)
  have "(\<lambda>_. [])(i := []) = (\<lambda>_. [])" for i :: u64 by auto
  then show ?thesis using assms(1,2) nz g
    by (cases w) (simp add: TickFunc_round_def TickFunc_advance_def TickFunc_tick_def Tick_def advance_work_wheel_def Let_def)
qed

lemma empty_rounds:
  "n \<le> 511 \<Longrightarrow> wheel_run (replicate n Round) TimingWheel =
     (replicate n [], TimingWheel\<lparr>current_work_wheel_index := of_nat n, tw_tick_count := of_nat n\<rparr>)"
proof -
  have run: "i + n \<le> 511 \<Longrightarrow> wheel_run (replicate n Round) (TimingWheel\<lparr>current_work_wheel_index := of_nat i, tw_tick_count := of_nat i\<rparr>) =
     (replicate n [], TimingWheel\<lparr>current_work_wheel_index := of_nat (i + n), tw_tick_count := of_nat (i + n)\<rparr>)" for i
  proof (induction n arbitrary: i)
    case (Suc n)
    have "TickFunc_round (TimingWheel\<lparr>current_work_wheel_index := of_nat i, tw_tick_count := of_nat i\<rparr>) =
        ([], TimingWheel\<lparr>current_work_wheel_index := of_nat (Suc i), tw_tick_count := of_nat (Suc i)\<rparr>)"
      using Suc.prems by (subst empty_round) (auto simp: TimingWheel_def unat_of_nat_u64 add.commute)
    then show ?case using Suc.IH [of "Suc i"] Suc.prems by (simp add: TickFunc_turn_undisturbed)
  qed simp
  show "n \<le> 511 \<Longrightarrow> ?thesis" using run [of 0] by (simp add: TimingWheel_def)
qed

text \<open>
  A long timer can fire a whole turn of the work wheel (512 ticks, 1.024 s) too early:
  \<^verbatim>\<open>TickFunc\<close> advances the two indices under different locks, and a task of 1024 ms that is added
  after the work index has wrapped to 0 but before the assistant index has moved is put into the very
  bucket that the thread cascades next, and is fired by the tick that follows at once.
\<close>

lemma add_during_wrap_fires_early:
  "let w = snd (wheel_run (replicate 511 Round) TimingWheel);
       task = demo_task\<lparr>interval_ms := 1024, next_fire_duration_ms := 1024\<rparr>;
       w1 = advance_work_wheel (w\<lparr>tw_tasks := [5 \<mapsto> task]\<rparr>);
       w2 = AddTask 5 w1;
       w3 = cascade_current (advance_assistant_wheel w2)
   in current_work_wheel_index w1 = 0 \<and> fst (TickFunc_tick w3) = [5]"
proof -
  have f: "fire_ticks 1024 = 512" by (simp add: fire_ticks_def TIMER_RESOLUTION_MS_def)
  have g: "GetWorkWheelIndex 512 = 0" "GetAssistantWheelIndex 1 = 1"
    by (simp_all add: GetWorkWheelIndex_def WORK_WHEEL_SIZE_def GetAssistantWheelIndex_def ASSISTANT_WHEEL_SIZE_def)
  have boot: "snd (wheel_run (replicate 511 Round) TimingWheel) =
      TimingWheel\<lparr>current_work_wheel_index := of_nat 511, tw_tick_count := of_nat 511\<rparr>"
    by (simp only: empty_rounds [of 511, OF order_refl] snd_conv)
  show ?thesis unfolding boot Let_def
    by (simp add: advance_work_wheel_def TimingWheel_def g f AddTask_def AddTask_at_def TimingWheel_Start_def
        demo_task_def WORK_WHEEL_SIZE_def TimerBucket_AddTask_def advance_assistant_wheel_def cascade_current_def
        Cascade_def TickFunc_tick_def Tick_def Let_def)
qed

text \<open>
  Stopping a timer does not wait for a callback that the wheel has already handed over: a
  timer that has fired and is stopped before the asynchronous task runs leaves that task with a
  pointer into the released timer task.
\<close>

lemma stopped_timer_callback_dangles:
  "let (tm, w) = Timer_Start True 5 demo_timer TimingWheel;
       (fired, w) = wheel_run [Round, Round] w;
       (tm, w) = Timer_Stop tm w
   in fired = [[], [5]] \<and> \<not> timer_started tm \<and> run_callback 0 0 w = Inl DanglingCallback"
proof -
  have f: "fire_ticks 3 = 2" by (simp add: fire_ticks_def TIMER_RESOLUTION_MS_def)
  have g: "GetWorkWheelIndex 1 = 1" "GetWorkWheelIndex 2 = 2"
    by (simp_all add: GetWorkWheelIndex_def WORK_WHEEL_SIZE_def)
  show ?thesis
    by (simp add: Let_def Timer_Start_def demo_timer_def InitTimerTask_def TimingWheel_def AddTask_def AddTask_at_def
        TimingWheel_Start_def f g WORK_WHEEL_SIZE_def TimerBucket_AddTask_def TickFunc_turn_undisturbed TickFunc_round_def TickFunc_advance_def
        advance_work_wheel_def TickFunc_tick_def Tick_def Timer_Stop_def run_callback_def expire_def
        TIMER_MAX_INTERVAL_MS_def ASSISTANT_WHEEL_SIZE_def TIMER_RESOLUTION_MS_def)
qed

end
