(* ===== verification/Name_Registry.thy ===== *)
theory Name_Registry
  imports Atomic_Hash_Map
begin

text \<open>
  \<^verbatim>\<open>cyber/common/global_data.cc\<close>: the registry that gives nodes, channels, services and tasks their
  64-bit ids: the hash of the name, or the next id that is free.  \<^verbatim>\<open>std::hash\<close> is the parameter
  \<open>hash\<close>, of which nothing is assumed.
\<close>

section \<open>Registration\<close>

record global_data =
  node_id_map :: "string atomic_hash_map"
  channel_id_map :: "string atomic_hash_map"
  service_id_map :: "string atomic_hash_map"
  task_id_map :: "string atomic_hash_map"

definition GlobalData :: global_data where
  "GlobalData = \<lparr>node_id_map = AtomicHashMap 9, channel_id_map = AtomicHashMap 8,
     service_id_map = AtomicHashMap 8, task_id_map = AtomicHashMap 8\<rparr>"

text \<open>The \<^verbatim>\<open>while\<close> loop of the four functions; it would not end (\<open>None\<close>) only if every id was taken.\<close>

partial_function (option) probe :: "string \<Rightarrow> u64 \<Rightarrow> string atomic_hash_map \<Rightarrow> u64 option" where
  "probe name i m =
     (if \<not> ahm_Has m i then Some i
      else if ahm_Get m i = Some name then Some i
      else probe name (i + 1) m)"

definition register_in :: "(string \<Rightarrow> u64) \<Rightarrow> string \<Rightarrow> string atomic_hash_map \<Rightarrow> (u64 \<times> string atomic_hash_map) option" where
  "register_in hash name m = (case probe name (hash name) m of None \<Rightarrow> None | Some i \<Rightarrow> Some (i, ahm_Set i name m))"

definition name_by_id :: "u64 \<Rightarrow> string atomic_hash_map \<Rightarrow> string" where
  "name_by_id i m = (case ahm_Get m i of Some name \<Rightarrow> name | None \<Rightarrow> [])"

definition RegisterNode :: "(string \<Rightarrow> u64) \<Rightarrow> string \<Rightarrow> global_data \<Rightarrow> (u64 \<times> global_data) option" where
  "RegisterNode hash name g = map_option (\<lambda>(i, m). (i, g\<lparr>node_id_map := m\<rparr>)) (register_in hash name (node_id_map g))"

definition GetNodeById :: "u64 \<Rightarrow> global_data \<Rightarrow> string" where
  "GetNodeById i g = name_by_id i (node_id_map g)"

definition RegisterChannel :: "(string \<Rightarrow> u64) \<Rightarrow> string \<Rightarrow> global_data \<Rightarrow> (u64 \<times> global_data) option" where
  "RegisterChannel hash name g = map_option (\<lambda>(i, m). (i, g\<lparr>channel_id_map := m\<rparr>)) (register_in hash name (channel_id_map g))"

definition GetChannelById :: "u64 \<Rightarrow> global_data \<Rightarrow> string" where
  "GetChannelById i g = name_by_id i (channel_id_map g)"

definition RegisterService :: "(string \<Rightarrow> u64) \<Rightarrow> string \<Rightarrow> global_data \<Rightarrow> (u64 \<times> global_data) option" where
  "RegisterService hash name g = map_option (\<lambda>(i, m). (i, g\<lparr>service_id_map := m\<rparr>)) (register_in hash name (service_id_map g))"

definition GetServiceById :: "u64 \<Rightarrow> global_data \<Rightarrow> string" where
  "GetServiceById i g = name_by_id i (service_id_map g)"

definition RegisterTaskName :: "(string \<Rightarrow> u64) \<Rightarrow> string \<Rightarrow> global_data \<Rightarrow> (u64 \<times> global_data) option" where
  "RegisterTaskName hash name g = map_option (\<lambda>(i, m). (i, g\<lparr>task_id_map := m\<rparr>)) (register_in hash name (task_id_map g))"

definition GetTaskNameById :: "u64 \<Rightarrow> global_data \<Rightarrow> string" where
  "GetTaskNameById i g = name_by_id i (task_id_map g)"

section \<open>Probing\<close>

definition stops :: "string \<Rightarrow> string atomic_hash_map \<Rightarrow> u64 \<Rightarrow> bool" where
  "stops name m i \<longleftrightarrow> ahm_Get m i = None \<or> ahm_Get m i = Some name"

lemma probe_reaches:
  "ahm_inv m \<Longrightarrow> (\<And>l. l < k \<Longrightarrow> \<not> stops name m (i + of_nat l)) \<Longrightarrow> stops name m (i + of_nat k) \<Longrightarrow>
   probe name i m = Some (i + of_nat k)"
proof (induction k arbitrary: i)
  case 0
  then show ?case by (subst probe.simps) (auto simp: stops_def ahm_Has_iff_Get)
next
  case (Suc k)
  have "\<not> stops name m i" using Suc.prems(2) [of 0] by simp
  then have "probe name i m = probe name (i + 1) m"
    using Suc.prems(1) by (subst probe.simps) (auto simp: stops_def ahm_Has_iff_Get)
  also have "\<dots> = Some (i + 1 + of_nat k)"
  proof (rule Suc.IH [OF Suc.prems(1)])
    show "\<not> stops name m (i + 1 + of_nat l)" if "l < k" for l
      using Suc.prems(2) [of "Suc l"] that by (simp add: add.assoc)
    show "stops name m (i + 1 + of_nat k)" using Suc.prems(3) by (simp add: add.assoc)
  qed
  finally show ?case by (simp add: add.assoc)
qed

lemma probe_ends:
  assumes "ahm_inv m" and "ahm_Get m j = None"
  shows "\<exists>k. probe name i m = Some (i + of_nat k) \<and> stops name m (i + of_nat k) \<and> (\<forall>l<k. \<not> stops name m (i + of_nat l))"
proof -
  define k where "k = (LEAST k. stops name m (i + of_nat k))"
  have "stops name m (i + of_nat (unat (j - i)))" using assms(2) by (simp add: stops_def)
  then have "stops name m (i + of_nat k)" unfolding k_def by (rule LeastI)
  moreover have "\<forall>l<k. \<not> stops name m (i + of_nat l)" unfolding k_def using not_less_Least by blast
  ultimately show ?thesis using probe_reaches [OF assms(1)] by blast
qed

text \<open>Every registered name is found where it is stored.\<close>

definition names_ok :: "(string \<Rightarrow> u64) \<Rightarrow> string atomic_hash_map \<Rightarrow> bool" where
  "names_ok hash m \<longleftrightarrow> ahm_inv m \<and> (\<forall>i name. ahm_Get m i = Some name \<longrightarrow> probe name (hash name) m = Some i)"

lemma names_ok_inject: "names_ok hash m \<Longrightarrow> ahm_Get m i = Some n \<Longrightarrow> ahm_Get m j = Some n \<Longrightarrow> i = j"
  unfolding names_ok_def by (metis option.inject)

lemma register_in_spec:
  assumes ok: "names_ok hash m" and free: "ahm_Get m j = None"
  obtains i m' where "register_in hash name m = Some (i, m')" "names_ok hash m'"
    "ahm_Get m' = (ahm_Get m)(i \<mapsto> name)" "ahm_Get m i = None \<or> ahm_Get m i = Some name"
proof -
  have inv: "ahm_inv m" using ok by (simp add: names_ok_def)
  obtain k where p: "probe name (hash name) m = Some (hash name + of_nat k)" and s: "stops name m (hash name + of_nat k)"
    and before: "\<forall>l<k. \<not> stops name m (hash name + of_nat l)"
    using probe_ends [OF inv free] by blast
  let ?i = "hash name + of_nat k"
  let ?m = "ahm_Set ?i name m"
  note get = ahm.lookup_assign [OF inv, of ?i name] and inv' = ahm.assign_inv [OF inv, of ?i name]
  have "probe n (hash n) ?m = Some x" if x: "ahm_Get ?m x = Some n" for x n
  proof (cases "x = ?i")
    case True
    then have n: "n = name" using x get by simp
    have "\<not> stops name ?m (hash name + of_nat l)" if "l < k" for l
      using before that s by (auto simp: stops_def get)
    moreover have "stops name ?m ?i" by (simp add: stops_def get)
    ultimately show ?thesis using probe_reaches [OF inv'] True n by blast
  next
    case False
    then have "probe n (hash n) m = Some x" using x get ok by (auto simp: names_ok_def)
    moreover obtain q where q: "probe n (hash n) m = Some (hash n + of_nat q)"
      "\<forall>l<q. \<not> stops n m (hash n + of_nat l)" using probe_ends [OF inv free] by blast
    ultimately have xq: "x = hash n + of_nat q" by simp
    have "\<not> stops n ?m (hash n + of_nat l)" if "l < q" for l
      using q(2) that s False x get names_ok_inject [OF ok] by (auto simp: stops_def get split: if_splits)
    moreover have "stops n ?m (hash n + of_nat q)" using x xq by (simp add: stops_def)
    ultimately show ?thesis using probe_reaches [OF inv'] xq by blast
  qed
  then have "names_ok hash ?m" using inv' by (simp add: names_ok_def)
  then show thesis using that [of ?i ?m] p s get by (simp add: register_in_def stops_def)
qed

section \<open>Properties\<close>

text \<open>A series of calls of \<^verbatim>\<open>RegisterChannel\<close>: the ids it returned, and the registry afterwards.\<close>

fun register_channels :: "(string \<Rightarrow> u64) \<Rightarrow> string list \<Rightarrow> global_data \<Rightarrow> (u64 list \<times> global_data) option" where
  "register_channels hash [] g = Some ([], g)"
| "register_channels hash (n # ns) g =
     (case RegisterChannel hash n g of
        None \<Rightarrow> None
      | Some (i, g') \<Rightarrow> (case register_channels hash ns g' of None \<Rightarrow> None | Some (is, g'') \<Rightarrow> Some (i # is, g'')))"

lemma free_id:
  assumes "finite (dom f)" "card (dom f) < 2 ^ 64"
  shows "\<exists>j :: u64. f j = None"
proof (rule ccontr)
  assume "\<not> ?thesis"
  then have "dom f = UNIV" by auto
  then show False using assms(2) by (simp add: card_word)
qed

lemma register_channels_spec:
  assumes "names_ok hash (channel_id_map g)" "finite (dom (ahm_Get (channel_id_map g)))"
    and "card (dom (ahm_Get (channel_id_map g))) + length ns < 2 ^ 64"
  shows "\<exists>is g'. register_channels hash ns g = Some (is, g') \<and> length is = length ns \<and> names_ok hash (channel_id_map g')
    \<and> (\<forall>i n. ahm_Get (channel_id_map g) i = Some n \<longrightarrow> ahm_Get (channel_id_map g') i = Some n)
    \<and> (\<forall>x<length ns. ahm_Get (channel_id_map g') (is ! x) = Some (ns ! x))"
  using assms
proof (induction ns arbitrary: g)
  case (Cons n ns)
  let ?m = "channel_id_map g"
  obtain j where j: "ahm_Get ?m j = None" using free_id [of "ahm_Get ?m"] Cons.prems by auto
  obtain i m' where r: "register_in hash n ?m = Some (i, m')" "names_ok hash m'"
    "ahm_Get m' = (ahm_Get ?m)(i \<mapsto> n)" "ahm_Get ?m i = None \<or> ahm_Get ?m i = Some n"
    by (rule register_in_spec [OF Cons.prems(1) j])
  let ?g = "g\<lparr>channel_id_map := m'\<rparr>"
  have d: "finite (dom (ahm_Get m'))" "card (dom (ahm_Get m')) \<le> Suc (card (dom (ahm_Get ?m)))"
    using r(3) Cons.prems(2) by (auto intro: card_insert_le_m1 simp: card_insert_if)
  have "\<exists>is g'. register_channels hash ns ?g = Some (is, g') \<and> length is = length ns \<and> names_ok hash (channel_id_map g')
    \<and> (\<forall>i n. ahm_Get (channel_id_map ?g) i = Some n \<longrightarrow> ahm_Get (channel_id_map g') i = Some n)
    \<and> (\<forall>x<length ns. ahm_Get (channel_id_map g') (is ! x) = Some (ns ! x))"
    by (rule Cons.IH) (use r(2) d Cons.prems(3) in auto)
  then obtain "is" g' where IH: "register_channels hash ns ?g = Some (is, g')" "length is = length ns"
    "names_ok hash (channel_id_map g')" "\<And>i n. ahm_Get m' i = Some n \<Longrightarrow> ahm_Get (channel_id_map g') i = Some n"
    "\<And>x. x < length ns \<Longrightarrow> ahm_Get (channel_id_map g') (is ! x) = Some (ns ! x)" by auto
  have run: "register_channels hash (n # ns) g = Some (i # is, g')"
    using r(1) IH(1) by (simp add: RegisterChannel_def)
  have kept: "ahm_Get (channel_id_map g') k = Some x" if "ahm_Get ?m k = Some x" for k x
    using that IH(4) [of k x] r(3,4) by (cases "k = i") auto
  have here: "ahm_Get (channel_id_map g') ((i # is) ! x) = Some ((n # ns) ! x)" if "x < length (n # ns)" for x
    using that IH(4) [of i n] IH(5) r(3) by (cases x) auto
  show ?case using run IH(2,3) kept here by auto
qed auto

lemma GlobalData_names_ok: "names_ok hash (channel_id_map GlobalData) \<and> ahm_Get (channel_id_map GlobalData) = Map.empty"
proof -
  have "ahm_Get (channel_id_map GlobalData) = Map.empty" by (auto simp: GlobalData_def ahm_Get_empty)
  then show ?thesis by (simp add: names_ok_def) (simp add: GlobalData_def ahm_inv_AtomicHashMap)
qed

text \<open>
  Claim C32. Registering fewer than 2^64 channel names in a process always succeeds, whatever the hash
  function and however many collisions it has: every id is translated back to the name it was given
  for, the same name always gets the same id, and different names get different ids.
\<close>

theorem channel_ids_round_trip:
  assumes "length ns < 2 ^ 64"
  shows "\<exists>is g. register_channels hash ns GlobalData = Some (is, g) \<and> length is = length ns
    \<and> map (\<lambda>i. GetChannelById i g) is = ns
    \<and> (\<forall>x y. x < length ns \<longrightarrow> y < length ns \<longrightarrow> (is ! x = is ! y \<longleftrightarrow> ns ! x = ns ! y))"
proof -
  obtain "is" g where r: "register_channels hash ns GlobalData = Some (is, g)" "length is = length ns"
    and ok: "names_ok hash (channel_id_map g)"
    and get: "\<And>x. x < length ns \<Longrightarrow> ahm_Get (channel_id_map g) (is ! x) = Some (ns ! x)"
    using register_channels_spec [of hash GlobalData ns] GlobalData_names_ok [of hash] assms by auto
  have "map (\<lambda>i. GetChannelById i g) is = ns"
    using r(2) get by (intro nth_equalityI) (auto simp: GetChannelById_def name_by_id_def)
  moreover have "is ! x = is ! y \<longleftrightarrow> ns ! x = ns ! y" if "x < length ns" "y < length ns" for x y
    using get [OF that(1)] get [OF that(2)] names_ok_inject [OF ok] by auto
  ultimately show ?thesis using r by blast
qed

theorem channel_ids_round_trip_witness:
  "\<exists>is g. register_channels (\<lambda>_. 7) [''a'', ''b'', ''a''] GlobalData = Some (is, g) \<and> is ! 0 = is ! 2 \<and> is ! 0 \<noteq> is ! 1"
proof -
  obtain "is" g where r: "register_channels (\<lambda>_. 7) [''a'', ''b'', ''a''] GlobalData = Some (is, g)"
    and iff: "\<forall>x y. x < 3 \<longrightarrow> y < 3 \<longrightarrow> (is ! x = is ! y \<longleftrightarrow> [''a'', ''b'', ''a''] ! x = [''a'', ''b'', ''a''] ! y)"
    using channel_ids_round_trip [of "[''a'', ''b'', ''a'']" "\<lambda>_. 7"] by auto
  from iff [rule_format, of 0 2] iff [rule_format, of 0 1] r show ?thesis by auto
qed

text \<open>
  The ids are not a property of the names: when two channel names have the same hash, two
  processes that register them in a different order give the same channel different ids, although
  ids are what processes exchange to name a channel.
\<close>

lemma colliding_ids_depend_on_order:
  "\<exists>i j g g'. register_channels (\<lambda>_. 7) [''a'', ''b''] GlobalData = Some ([i, j], g)
     \<and> register_channels (\<lambda>_. 7) [''b'', ''a''] GlobalData = Some ([i, j], g') \<and> i \<noteq> j"
proof -
  have step: "\<exists>g'. RegisterChannel (\<lambda>_. 7) n g = Some (7 + of_nat k, g') \<and> ahm_inv (channel_id_map g')
      \<and> ahm_Get (channel_id_map g') = (ahm_Get (channel_id_map g))(7 + of_nat k \<mapsto> n)"
    if "ahm_inv (channel_id_map g)" "\<And>l. l < k \<Longrightarrow> \<not> stops n (channel_id_map g) (7 + of_nat l)"
      "stops n (channel_id_map g) (7 + of_nat k)" for n k g
    using probe_reaches [OF that(1), of k n 7] that(2,3) ahm.lookup_assign [OF that(1)] ahm.assign_inv [OF that(1)]
    by (simp add: RegisterChannel_def register_in_def)
  have two: "\<exists>g. register_channels (\<lambda>_. 7) [a, b] GlobalData = Some ([7, 8], g)" if neq: "a \<noteq> b" for a b
  proof -
    have e: "ahm_Get (channel_id_map GlobalData) = Map.empty" and i0: "ahm_inv (channel_id_map GlobalData)"
      using GlobalData_names_ok [of "\<lambda>_. 7"] by (auto simp: names_ok_def)
    obtain g1 where g1: "RegisterChannel (\<lambda>_. 7) a GlobalData = Some (7, g1)" "ahm_inv (channel_id_map g1)"
      "ahm_Get (channel_id_map g1) = [7 \<mapsto> a]"
      using step [OF i0, of 0 a] e by (auto simp: stops_def)
    obtain g2 where "RegisterChannel (\<lambda>_. 7) b g1 = Some (8, g2)"
      using step [OF g1(2), of 1 b] neq by (auto simp: stops_def g1(3))
    then show ?thesis using g1 by simp
  qed
  from two [of "''a''" "''b''"] two [of "''b''" "''a''"] show ?thesis
    by (intro exI [of _ 7] exI [of _ 8]) auto
qed

end
