(* ===== verification/Qos_Profiles.thy ===== *)
theory Qos_Profiles
  imports Cyber_Prelude
begin

text \<open>
  \<^verbatim>\<open>cyber/transport/qos/qos_profile_conf.cc\<close>: the quality of service that an endpoint asks for.
\<close>

datatype qos_history = HISTORY_SYSTEM_DEFAULT | HISTORY_KEEP_LAST | HISTORY_KEEP_ALL
datatype qos_reliability = RELIABILITY_SYSTEM_DEFAULT | RELIABILITY_RELIABLE | RELIABILITY_BEST_EFFORT
datatype qos_durability = DURABILITY_SYSTEM_DEFAULT | DURABILITY_TRANSIENT_LOCAL | DURABILITY_VOLATILE

record qos_profile =
  qos_history :: qos_history
  qos_depth :: u32
  qos_mps :: u32
  qos_reliability :: qos_reliability
  qos_durability :: qos_durability

definition CreateQosProfile :: "qos_history \<Rightarrow> u32 \<Rightarrow> u32 \<Rightarrow> qos_reliability \<Rightarrow> qos_durability \<Rightarrow> qos_profile" where
  "CreateQosProfile h d m r du = \<lparr>qos_history = h, qos_depth = d, qos_mps = m, qos_reliability = r, qos_durability = du\<rparr>"

definition QOS_HISTORY_DEPTH_SYSTEM_DEFAULT :: u32 where "QOS_HISTORY_DEPTH_SYSTEM_DEFAULT = 0"
definition QOS_MPS_SYSTEM_DEFAULT :: u32 where "QOS_MPS_SYSTEM_DEFAULT = 0"

definition QOS_PROFILE_DEFAULT :: qos_profile where
  "QOS_PROFILE_DEFAULT = CreateQosProfile HISTORY_KEEP_LAST 1 QOS_MPS_SYSTEM_DEFAULT RELIABILITY_RELIABLE DURABILITY_VOLATILE"
definition QOS_PROFILE_SENSOR_DATA :: qos_profile where
  "QOS_PROFILE_SENSOR_DATA = CreateQosProfile HISTORY_KEEP_LAST 5 QOS_MPS_SYSTEM_DEFAULT RELIABILITY_BEST_EFFORT DURABILITY_VOLATILE"
definition QOS_PROFILE_PARAMETERS :: qos_profile where
  "QOS_PROFILE_PARAMETERS = CreateQosProfile HISTORY_KEEP_LAST 1000 QOS_MPS_SYSTEM_DEFAULT RELIABILITY_RELIABLE DURABILITY_VOLATILE"
definition QOS_PROFILE_SERVICES_DEFAULT :: qos_profile where
  "QOS_PROFILE_SERVICES_DEFAULT = CreateQosProfile HISTORY_KEEP_LAST 10 QOS_MPS_SYSTEM_DEFAULT RELIABILITY_RELIABLE DURABILITY_TRANSIENT_LOCAL"
definition QOS_PROFILE_PARAM_EVENT :: qos_profile where
  "QOS_PROFILE_PARAM_EVENT = CreateQosProfile HISTORY_KEEP_LAST 1000 QOS_MPS_SYSTEM_DEFAULT RELIABILITY_RELIABLE DURABILITY_VOLATILE"
definition QOS_PROFILE_SYSTEM_DEFAULT :: qos_profile where
  "QOS_PROFILE_SYSTEM_DEFAULT = CreateQosProfile HISTORY_SYSTEM_DEFAULT QOS_HISTORY_DEPTH_SYSTEM_DEFAULT QOS_MPS_SYSTEM_DEFAULT
     RELIABILITY_RELIABLE DURABILITY_TRANSIENT_LOCAL"
definition QOS_PROFILE_TF_STATIC :: qos_profile where
  "QOS_PROFILE_TF_STATIC = CreateQosProfile HISTORY_KEEP_ALL 10 QOS_MPS_SYSTEM_DEFAULT RELIABILITY_RELIABLE DURABILITY_TRANSIENT_LOCAL"
definition QOS_PROFILE_TOPO_CHANGE :: qos_profile where
  "QOS_PROFILE_TOPO_CHANGE = CreateQosProfile HISTORY_KEEP_ALL 10 QOS_MPS_SYSTEM_DEFAULT RELIABILITY_RELIABLE DURABILITY_TRANSIENT_LOCAL"

end
