(* ===== verification/Role_Warehouse.thy ===== *)
theory Role_Warehouse
  imports Qos_Profiles "HOL-Library.AList"
begin

text \<open>
  \<^verbatim>\<open>cyber/service_discovery/role\<close> and \<^verbatim>\<open>container\<close>: the roles (nodes, writers, readers, servers, clients)
  that service discovery keeps, and the two warehouses that store them by a 64-bit key, at most one
  role per key or any number.  The contract both fulfil is the locale \<open>warehouse\<close>.
\<close>

section \<open>Roles\<close>

text \<open>
  The fields of the protobuf message \<^verbatim>\<open>RoleAttributes\<close> that service discovery reads; an optional field
  that is not set is \<open>None\<close> and reads as the default of its type.
\<close>

record role_attributes =
  attr_host_name :: "string option"
  attr_host_ip :: "string option"
  attr_process_id :: "int option"
  attr_node_name :: "string option"
  attr_node_id :: "u64 option"
  attr_channel_name :: "string option"
  attr_channel_id :: "u64 option"
  attr_message_type :: "string option"
  attr_proto_desc :: "string option"
  attr_id :: "u64 option"
  attr_qos_profile :: "qos_profile option"
  attr_service_name :: "string option"
  attr_service_id :: "u64 option"

definition no_attributes :: role_attributes where
  "no_attributes = \<lparr>attr_host_name = None, attr_host_ip = None, attr_process_id = None, attr_node_name = None, attr_node_id = None,
     attr_channel_name = None, attr_channel_id = None, attr_message_type = None, attr_proto_desc = None,
     attr_id = None, attr_qos_profile = None, attr_service_name = None, attr_service_id = None\<rparr>"

definition field :: "'a \<Rightarrow> 'a option \<Rightarrow> 'a" where
  "field dflt x = (case x of Some v \<Rightarrow> v | None \<Rightarrow> dflt)"

text \<open>The class of the role object decides which \<^verbatim>\<open>Match\<close> is called.\<close>

datatype role_class = RoleNode | RoleWriter | RoleServer

record role =
  role_class :: role_class
  role_attr :: role_attributes
  role_timestamp_ns :: u64

definition make_role :: "role_class \<Rightarrow> role_attributes \<Rightarrow> u64 \<Rightarrow> role" where
  "make_role c a ts = \<lparr>role_class = c, role_attr = a, role_timestamp_ns = ts\<rparr>"

definition RoleBase_Match :: "role_attributes \<Rightarrow> role_attributes \<Rightarrow> bool" where
  "RoleBase_Match attrs target =
     (if attr_node_id target \<noteq> None \<and> field 0 (attr_node_id target) \<noteq> field 0 (attr_node_id attrs) then False
      else if attr_process_id target \<noteq> None \<and> field 0 (attr_process_id target) \<noteq> field 0 (attr_process_id attrs) then False
      else if attr_host_name target \<noteq> None \<and> field [] (attr_host_name target) \<noteq> field [] (attr_host_name attrs) then False
      else True)"

definition RoleWriter_Match :: "role_attributes \<Rightarrow> role_attributes \<Rightarrow> bool" where
  "RoleWriter_Match attrs target =
     (if attr_channel_id target \<noteq> None \<and> field 0 (attr_channel_id target) \<noteq> field 0 (attr_channel_id attrs) then False
      else if attr_id target \<noteq> None \<and> field 0 (attr_id target) \<noteq> field 0 (attr_id attrs) then False
      else RoleBase_Match attrs target)"

definition RoleServer_Match :: "role_attributes \<Rightarrow> role_attributes \<Rightarrow> bool" where
  "RoleServer_Match attrs target =
     (if attr_service_id target \<noteq> None \<and> field 0 (attr_service_id target) \<noteq> field 0 (attr_service_id attrs) then False
      else RoleBase_Match attrs target)"

definition role_Match :: "role \<Rightarrow> role_attributes \<Rightarrow> bool" where
  "role_Match r target =
     (case role_class r of
        RoleNode \<Rightarrow> RoleBase_Match (role_attr r) target
      | RoleWriter \<Rightarrow> RoleWriter_Match (role_attr r) target
      | RoleServer \<Rightarrow> RoleServer_Match (role_attr r) target)"

definition IsEarlierThan :: "role \<Rightarrow> role \<Rightarrow> bool" where
  "IsEarlierThan r other \<longleftrightarrow> role_timestamp_ns r < role_timestamp_ns other"

section \<open>The warehouses\<close>

text \<open>
  Both warehouses iterate over a hash map, here a list of entries.  A search appends what it finds to
  the caller's vector \<open>out\<close> and says whether it found anything.
\<close>

type_synonym role_map = "(u64 \<times> role) list"

definition sv_Add :: "u64 \<Rightarrow> role \<Rightarrow> bool \<Rightarrow> role_map \<Rightarrow> bool \<times> role_map" where
  "sv_Add key r ignore_if_exist w =
     (if \<not> ignore_if_exist \<and> map_of w key \<noteq> None then (False, w) else (True, AList.update key r w))"

definition sv_Clear :: "role_map \<Rightarrow> role_map" where "sv_Clear w = []"

definition sv_Size :: "role_map \<Rightarrow> nat" where "sv_Size w = length w"

definition sv_Remove_key :: "u64 \<Rightarrow> role_map \<Rightarrow> role_map" where
  "sv_Remove_key key w = AList.delete key w"

definition sv_Remove_role :: "u64 \<Rightarrow> role \<Rightarrow> role_map \<Rightarrow> role_map" where
  "sv_Remove_role key r w =
     (case map_of w key of
        None \<Rightarrow> w
      | Some found \<Rightarrow> if \<not> role_Match found (role_attr r) then w else AList.delete key w)"

definition sv_Remove_attr :: "role_attributes \<Rightarrow> role_map \<Rightarrow> role_map" where
  "sv_Remove_attr target w = filter (\<lambda>(k, r). \<not> role_Match r target) w"

definition sv_Search :: "u64 \<Rightarrow> role_map \<Rightarrow> role option" where
  "sv_Search key w = map_of w key"

definition sv_Search_attr :: "u64 \<Rightarrow> role_map \<Rightarrow> role_attributes option" where
  "sv_Search_attr key w = map_option role_attr (sv_Search key w)"

definition sv_Search_roles :: "u64 \<Rightarrow> role list \<Rightarrow> role_map \<Rightarrow> bool \<times> role list" where
  "sv_Search_roles key out w = (case sv_Search key w of None \<Rightarrow> (False, out) | Some r \<Rightarrow> (True, out @ [r]))"

definition sv_Search_attrs :: "u64 \<Rightarrow> role_attributes list \<Rightarrow> role_map \<Rightarrow> bool \<times> role_attributes list" where
  "sv_Search_attrs key out w = (case sv_Search key w of None \<Rightarrow> (False, out) | Some r \<Rightarrow> (True, out @ [role_attr r]))"

fun first_match :: "role_attributes \<Rightarrow> role_map \<Rightarrow> role option" where
  "first_match target [] = None"
| "first_match target ((k, r) # w) = (if role_Match r target then Some r else first_match target w)"

fun matches_onto :: "(role \<Rightarrow> 'o) \<Rightarrow> (u64 \<times> role \<Rightarrow> bool) \<Rightarrow> bool \<Rightarrow> 'o list \<Rightarrow> role_map \<Rightarrow> bool \<times> 'o list" where
  "matches_onto f P found out [] = (found, out)"
| "matches_onto f P found out (e # w) =
     (if P e then matches_onto f P True (out @ [f (snd e)]) w else matches_onto f P found out w)"

definition sv_Find :: "role_attributes \<Rightarrow> role_map \<Rightarrow> role option" where
  "sv_Find target w = first_match target w"

definition sv_Find_attr :: "role_attributes \<Rightarrow> role_map \<Rightarrow> role_attributes option" where
  "sv_Find_attr target w = map_option role_attr (sv_Find target w)"

definition sv_Find_roles :: "role_attributes \<Rightarrow> role list \<Rightarrow> role_map \<Rightarrow> bool \<times> role list" where
  "sv_Find_roles target out w = matches_onto id (\<lambda>(k, r). role_Match r target) False out w"

definition sv_Find_attrs :: "role_attributes \<Rightarrow> role_attributes list \<Rightarrow> role_map \<Rightarrow> bool \<times> role_attributes list" where
  "sv_Find_attrs target out w = matches_onto role_attr (\<lambda>(k, r). role_Match r target) False out w"

definition sv_GetAllRoles :: "role list \<Rightarrow> role_map \<Rightarrow> role list" where
  "sv_GetAllRoles out w = out @ map snd w"

definition sv_GetAllAttrs :: "role_attributes list \<Rightarrow> role_map \<Rightarrow> role_attributes list" where
  "sv_GetAllAttrs out w = out @ map (role_attr \<circ> snd) w"

definition mv_Add :: "u64 \<Rightarrow> role \<Rightarrow> bool \<Rightarrow> role_map \<Rightarrow> bool \<times> role_map" where
  "mv_Add key r ignore_if_exist w =
     (if \<not> ignore_if_exist \<and> map_of w key \<noteq> None then (False, w) else (True, w @ [(key, r)]))"

definition mv_Clear :: "role_map \<Rightarrow> role_map" where "mv_Clear w = []"

definition mv_Size :: "role_map \<Rightarrow> nat" where "mv_Size w = length w"

definition mv_Remove_key :: "u64 \<Rightarrow> role_map \<Rightarrow> role_map" where
  "mv_Remove_key key w = filter (\<lambda>(k, r). k \<noteq> key) w"

definition mv_Remove_role :: "u64 \<Rightarrow> role \<Rightarrow> role_map \<Rightarrow> role_map" where
  "mv_Remove_role key r w = filter (\<lambda>(k, r'). \<not> (k = key \<and> role_Match r' (role_attr r))) w"

definition mv_Remove_attr :: "role_attributes \<Rightarrow> role_map \<Rightarrow> role_map" where
  "mv_Remove_attr target w = filter (\<lambda>(k, r). \<not> role_Match r target) w"

definition mv_Search :: "u64 \<Rightarrow> role_map \<Rightarrow> role option" where
  "mv_Search key w = map_of w key"

definition mv_Search_attr :: "u64 \<Rightarrow> role_map \<Rightarrow> role_attributes option" where
  "mv_Search_attr key w = map_option role_attr (mv_Search key w)"

definition mv_Search_roles :: "u64 \<Rightarrow> role list \<Rightarrow> role_map \<Rightarrow> bool \<times> role list" where
  "mv_Search_roles key out w = matches_onto id (\<lambda>(k, r). k = key) False out w"

definition mv_Search_attrs :: "u64 \<Rightarrow> role_attributes list \<Rightarrow> role_map \<Rightarrow> bool \<times> role_attributes list" where
  "mv_Search_attrs key out w = matches_onto role_attr (\<lambda>(k, r). k = key) False out w"

definition mv_Find :: "role_attributes \<Rightarrow> role_map \<Rightarrow> role option" where
  "mv_Find target w = first_match target w"

definition mv_Find_attr :: "role_attributes \<Rightarrow> role_map \<Rightarrow> role_attributes option" where
  "mv_Find_attr target w = map_option role_attr (mv_Find target w)"

definition mv_Find_roles :: "role_attributes \<Rightarrow> role list \<Rightarrow> role_map \<Rightarrow> bool \<times> role list" where
  "mv_Find_roles target out w = matches_onto id (\<lambda>(k, r). role_Match r target) False out w"

definition mv_Find_attrs :: "role_attributes \<Rightarrow> role_attributes list \<Rightarrow> role_map \<Rightarrow> bool \<times> role_attributes list" where
  "mv_Find_attrs target out w = matches_onto role_attr (\<lambda>(k, r). role_Match r target) False out w"

definition mv_GetAllRoles :: "role list \<Rightarrow> role_map \<Rightarrow> role list" where
  "mv_GetAllRoles out w = out @ map snd w"

definition mv_GetAllAttrs :: "role_attributes list \<Rightarrow> role_map \<Rightarrow> role_attributes list" where
  "mv_GetAllAttrs out w = out @ map (role_attr \<circ> snd) w"

section \<open>Matching\<close>

lemma role_Match_self [simp]: "role_Match r (role_attr r)"
  by (simp add: role_Match_def RoleBase_Match_def RoleWriter_Match_def RoleServer_Match_def split: role_class.split)

lemma role_Match_base: "role_Match r target \<Longrightarrow> RoleBase_Match (role_attr r) target"
  by (auto simp: role_Match_def RoleWriter_Match_def RoleServer_Match_def split: role_class.splits if_splits)

text \<open>The attributes that \<^verbatim>\<open>OnTopoModuleLeave\<close> searches for, and the roles they describe.\<close>

definition process_attr :: "string \<Rightarrow> int \<Rightarrow> role_attributes" where
  "process_attr h p = no_attributes\<lparr>attr_host_name := Some h, attr_process_id := Some p\<rparr>"

definition of_process :: "string \<Rightarrow> int \<Rightarrow> role \<Rightarrow> bool" where
  "of_process h p r \<longleftrightarrow> attr_host_name (role_attr r) = Some h \<and> attr_process_id (role_attr r) = Some p"

definition located :: "role_attributes \<Rightarrow> bool" where
  "located a \<longleftrightarrow> attr_host_name a \<noteq> None \<and> attr_process_id a \<noteq> None"

lemma role_Match_process: "located (role_attr r) \<Longrightarrow> role_Match r (process_attr h p) \<longleftrightarrow> of_process h p r"
  by (auto simp: role_Match_def RoleBase_Match_def RoleWriter_Match_def RoleServer_Match_def process_attr_def
      no_attributes_def of_process_def located_def field_def split: role_class.split)

lemma role_Match_same_process:
  assumes "role_Match r' (role_attr r)" "of_process h p r" "located (role_attr r')"
  shows "of_process h p r'"
  using role_Match_base [OF assms(1)] assms(2,3)
  by (auto simp: RoleBase_Match_def of_process_def located_def field_def split: if_splits)

lemma matches_onto_filter:
  "matches_onto f P found out w = (found \<or> (\<exists>e\<in>set w. P e), out @ map (f \<circ> snd) (filter P w))"
  by (induction w arbitrary: found out) auto

section \<open>The contract\<close>

locale warehouse =
  fixes entries :: "'w \<Rightarrow> (u64 \<times> role) set"
    and inv :: "'w \<Rightarrow> bool"
    and add :: "u64 \<Rightarrow> role \<Rightarrow> bool \<Rightarrow> 'w \<Rightarrow> bool \<times> 'w"
    and remove_key :: "u64 \<Rightarrow> 'w \<Rightarrow> 'w"
    and remove_role :: "u64 \<Rightarrow> role \<Rightarrow> 'w \<Rightarrow> 'w"
    and remove_attr :: "role_attributes \<Rightarrow> 'w \<Rightarrow> 'w"
    and search :: "u64 \<Rightarrow> 'w \<Rightarrow> role option"
    and search_roles :: "u64 \<Rightarrow> role list \<Rightarrow> 'w \<Rightarrow> bool \<times> role list"
    and find_roles :: "role_attributes \<Rightarrow> role list \<Rightarrow> 'w \<Rightarrow> bool \<times> role list"
  assumes add_new: "inv w \<Longrightarrow> (\<forall>r'. (k, r') \<notin> entries w) \<Longrightarrow>
      \<exists>w'. add k r ignore w = (True, w') \<and> inv w' \<and> entries w' = insert (k, r) (entries w)"
    and add_refused: "inv w \<Longrightarrow> (k, r') \<in> entries w \<Longrightarrow> add k r False w = (False, w)"
    and add_ignoring: "inv w \<Longrightarrow> \<exists>w'. add k r True w = (True, w') \<and> inv w' \<and> (k, r) \<in> entries w' \<and>
      (\<forall>k' r'. k' \<noteq> k \<longrightarrow> (k', r') \<in> entries w' \<longleftrightarrow> (k', r') \<in> entries w)"
    and remove_key: "inv w \<Longrightarrow> inv (remove_key k w) \<and> entries (remove_key k w) = {(k', r) \<in> entries w. k' \<noteq> k}"
    and remove_role: "inv w \<Longrightarrow> inv (remove_role k r w) \<and>
      entries (remove_role k r w) = {(k', r') \<in> entries w. \<not> (k' = k \<and> role_Match r' (role_attr r))}"
    and remove_attr: "inv w \<Longrightarrow> inv (remove_attr a w) \<and> entries (remove_attr a w) = {(k, r) \<in> entries w. \<not> role_Match r a}"
    and search_some: "inv w \<Longrightarrow> search k w = Some r \<Longrightarrow> (k, r) \<in> entries w"
    and search_none: "inv w \<Longrightarrow> search k w = None \<Longrightarrow> (k, r) \<notin> entries w"
    and search_roles: "inv w \<Longrightarrow> \<exists>rs. search_roles k out w = (rs \<noteq> [], out @ rs) \<and> set rs = {r. (k, r) \<in> entries w}"
    and find_roles: "inv w \<Longrightarrow> \<exists>rs. find_roles a out w = (rs \<noteq> [], out @ rs) \<and> set rs = {r. role_Match r a \<and> (\<exists>k. (k, r) \<in> entries w)}"
begin

text \<open>
  Removing, one by one, every role that a search by process found (what the managers do when a
  process leaves) removes exactly the roles of that process.
\<close>

lemma remove_found:
  assumes "inv w" and "\<And>k r. (k, r) \<in> entries w \<Longrightarrow> k = key r \<and> located (role_attr r)"
    and "\<And>r. r \<in> set rs \<Longrightarrow> of_process h p r"
  shows "inv (fold (\<lambda>r. remove_role (key r) r) rs w) \<and>
    entries (fold (\<lambda>r. remove_role (key r) r) rs w) \<subseteq> entries w \<and>
    {(k, r) \<in> entries w. \<not> of_process h p r} \<subseteq> entries (fold (\<lambda>r. remove_role (key r) r) rs w) \<and>
    (\<forall>r\<in>set rs. \<forall>k. (k, r) \<notin> entries (fold (\<lambda>r. remove_role (key r) r) rs w))"
  using assms
proof (induction rs arbitrary: w)
  case (Cons r rs)
  let ?w = "remove_role (key r) r w"
  have e: "entries ?w = {(k', r') \<in> entries w. \<not> (k' = key r \<and> role_Match r' (role_attr r))}" and i: "inv ?w"
    using remove_role [OF Cons.prems(1)] by auto
  have keep: "{(k, r') \<in> entries w. \<not> of_process h p r'} \<subseteq> entries ?w"
    using role_Match_same_process [OF _ Cons.prems(3) [of r]] Cons.prems(2) e by fastforce
  have gone: "(k, r) \<notin> entries ?w" for k using Cons.prems(2) [of k r] e by auto
  have IH: "inv (fold (\<lambda>r. remove_role (key r) r) rs ?w) \<and>
    entries (fold (\<lambda>r. remove_role (key r) r) rs ?w) \<subseteq> entries ?w \<and>
    {(k, r) \<in> entries ?w. \<not> of_process h p r} \<subseteq> entries (fold (\<lambda>r. remove_role (key r) r) rs ?w) \<and>
    (\<forall>r\<in>set rs. \<forall>k. (k, r) \<notin> entries (fold (\<lambda>r. remove_role (key r) r) rs ?w))"
    using i Cons.prems e by (intro Cons.IH) auto
  moreover have "entries ?w \<subseteq> entries w" using e by auto
  ultimately show ?case using keep gone by simp blast
qed auto

lemma forget_process:
  assumes "inv w" and "\<And>k r. (k, r) \<in> entries w \<Longrightarrow> k = key r \<and> located (role_attr r)"
  shows "inv (fold (\<lambda>r. remove_role (key r) r) (snd (find_roles (process_attr h p) [] w)) w) \<and>
    entries (fold (\<lambda>r. remove_role (key r) r) (snd (find_roles (process_attr h p) [] w)) w) = {(k, r) \<in> entries w. \<not> of_process h p r}"
proof -
  obtain rs where rs: "find_roles (process_attr h p) [] w = (rs \<noteq> [], rs)"
    "set rs = {r. role_Match r (process_attr h p) \<and> (\<exists>k. (k, r) \<in> entries w)}"
    using find_roles [OF assms(1), of "process_attr h p" "[]"] by auto
  have "of_process h p r" if "r \<in> set rs" for r
    using that assms(2) role_Match_process [of r h p] rs(2) by auto
  note rem = remove_found [OF assms this]
  moreover have "r \<in> set rs" if "(k, r) \<in> entries w" "of_process h p r" for k r
    using that assms(2) role_Match_process [of r h p] rs(2) by auto
  ultimately show ?thesis using rs(1) by fastforce
qed

text \<open>Where a key has at most one role, removing by key does the same.\<close>

lemma remove_keys:
  "inv w \<Longrightarrow> inv (fold (\<lambda>r. remove_key (key r)) rs w) \<and>
    entries (fold (\<lambda>r. remove_key (key r)) rs w) = {(k, r) \<in> entries w. k \<notin> key ` set rs}"
proof (induction rs arbitrary: w)
  case (Cons x rs)
  have "inv (remove_key (key x) w)" "entries (remove_key (key x) w) = {(k', r) \<in> entries w. k' \<noteq> key x}"
    using remove_key [OF Cons.prems] by auto
  then show ?case using Cons.IH [of "remove_key (key x) w"] by auto
qed auto

lemma forget_process_by_key:
  assumes "inv w" and ok: "\<And>k r. (k, r) \<in> entries w \<Longrightarrow> k = key r \<and> located (role_attr r)"
    and "\<And>k r r'. (k, r) \<in> entries w \<Longrightarrow> (k, r') \<in> entries w \<Longrightarrow> r = r'"
  shows "inv (fold (\<lambda>r. remove_key (key r)) (snd (find_roles (process_attr h p) [] w)) w) \<and>
    entries (fold (\<lambda>r. remove_key (key r)) (snd (find_roles (process_attr h p) [] w)) w) = {(k, r) \<in> entries w. \<not> of_process h p r}"
proof -
  obtain rs where rs: "find_roles (process_attr h p) [] w = (rs \<noteq> [], rs)"
    "set rs = {r. role_Match r (process_attr h p) \<and> (\<exists>k. (k, r) \<in> entries w)}"
    using find_roles [OF assms(1), of "process_attr h p" "[]"] by auto
  have rs': "r \<in> set rs \<longleftrightarrow> of_process h p r \<and> (key r, r) \<in> entries w" for r
  proof -
    have "(\<exists>k. (k, r) \<in> entries w) \<longleftrightarrow> (key r, r) \<in> entries w" using ok by blast
    moreover have "(key r, r) \<in> entries w \<Longrightarrow> role_Match r (process_attr h p) \<longleftrightarrow> of_process h p r"
      using ok role_Match_process by blast
    ultimately show ?thesis unfolding rs(2) by blast
  qed
  have "k \<notin> key ` set rs \<longleftrightarrow> \<not> of_process h p r" if "(k, r) \<in> entries w" for k r
  proof -
    have k: "k = key r" using ok [OF that] by blast
    have "r' = r" if "r' \<in> set rs" "key r' = key r" for r'
      using assms(3) [of k r' r] \<open>(k, r) \<in> entries w\<close> that rs' [of r'] k by simp
    then show ?thesis using rs' [of r] that k unfolding image_iff by metis
  qed
  then have "{(k, r) \<in> entries w. k \<notin> key ` set rs} = {(k, r) \<in> entries w. \<not> of_process h p r}" by auto
  then show ?thesis using remove_keys [OF assms(1), of key rs] rs(1) by simp
qed

lemma search_iff: "inv w \<Longrightarrow> search k w \<noteq> None \<longleftrightarrow> (\<exists>r. (k, r) \<in> entries w)"
  using search_some search_none by (metis option.exhaust option.distinct(1))

end

interpretation multi_value: warehouse set "\<lambda>_. True" mv_Add mv_Remove_key mv_Remove_role mv_Remove_attr
  mv_Search mv_Search_roles mv_Find_roles
proof
  fix w :: role_map and k r
  show "mv_Search k w = Some r \<Longrightarrow> (k, r) \<in> set w" by (simp add: mv_Search_def map_of_SomeD)
  show "mv_Search k w = None \<Longrightarrow> (k, r) \<notin> set w" by (auto simp: mv_Search_def map_of_eq_None_iff image_iff)
  show "\<exists>rs. mv_Search_roles k out w = (rs \<noteq> [], out @ rs) \<and> set rs = {r. (k, r) \<in> set w}" for out
    unfolding mv_Search_roles_def matches_onto_filter
    by (rule exI [of _ "map snd (filter (\<lambda>(k', r). k' = k) w)"]) (force simp: filter_empty_conv)
  show "\<exists>rs. mv_Find_roles a out w = (rs \<noteq> [], out @ rs) \<and> set rs = {r. role_Match r a \<and> (\<exists>k. (k, r) \<in> set w)}" for a out
    unfolding mv_Find_roles_def matches_onto_filter
    by (rule exI [of _ "map snd (filter (\<lambda>(k, r). role_Match r a) w)"]) (force simp: filter_empty_conv)
qed (auto simp: mv_Add_def mv_Remove_key_def mv_Remove_role_def mv_Remove_attr_def map_of_eq_None_iff image_iff Bex_def)

text \<open>A single-value warehouse has distinct keys.\<close>

abbreviation sv_inv :: "role_map \<Rightarrow> bool" where
  "sv_inv w \<equiv> distinct (map fst w)"

lemma distinct_keys_filter: "sv_inv w \<Longrightarrow> sv_inv (filter P w)"
  by (induction w) auto

lemma sv_entries_update:
  assumes "sv_inv w"
  shows "(k', r') \<in> set (AList.update k r w) \<longleftrightarrow> (if k' = k then r' = r else (k', r') \<in> set w)"
  unfolding map_of_eq_Some_iff [OF distinct_update [OF assms], symmetric] map_of_eq_Some_iff [OF assms, symmetric] update_conv'
  by auto

interpretation single_value: warehouse set sv_inv sv_Add sv_Remove_key sv_Remove_role sv_Remove_attr
  sv_Search sv_Search_roles sv_Find_roles
proof
  fix w :: role_map and k r
  assume i: "sv_inv w"
  have u: "sv_inv (AList.update k r w)" by (rule distinct_update [OF i])
  have none: "map_of w k \<noteq> None \<longleftrightarrow> (\<exists>r. (k, r) \<in> set w)" by (force simp: map_of_eq_None_iff)
  show "\<forall>r'. (k, r') \<notin> set w \<Longrightarrow> \<exists>w'. sv_Add k r ignore w = (True, w') \<and> sv_inv w' \<and> set w' = insert (k, r) (set w)" for ignore
    using u none sv_entries_update [OF i, of _ _ k r] by (auto simp: sv_Add_def split: if_splits)
  show "(k, r') \<in> set w \<Longrightarrow> sv_Add k r False w = (False, w)" for r'
    using none by (auto simp: sv_Add_def)
  show "\<exists>w'. sv_Add k r True w = (True, w') \<and> sv_inv w' \<and> (k, r) \<in> set w' \<and>
      (\<forall>k' r'. k' \<noteq> k \<longrightarrow> (k', r') \<in> set w' \<longleftrightarrow> (k', r') \<in> set w)"
    using u sv_entries_update [OF i, of _ _ k r] by (simp add: sv_Add_def)
  show "sv_inv (sv_Remove_key k w) \<and> set (sv_Remove_key k w) = {(k', r) \<in> set w. k' \<noteq> k}"
    using i by (auto simp: sv_Remove_key_def distinct_keys_filter AList.delete_eq)
  show "sv_inv (sv_Remove_attr a w) \<and> set (sv_Remove_attr a w) = {(k, r) \<in> set w. \<not> role_Match r a}" for a
    using distinct_keys_filter [OF i] by (auto simp: sv_Remove_attr_def)
  show "sv_Search k w = Some r \<Longrightarrow> (k, r) \<in> set w" by (simp add: sv_Search_def map_of_SomeD)
  show "sv_Search k w = None \<Longrightarrow> (k, r) \<notin> set w" by (auto simp: sv_Search_def map_of_eq_None_iff image_iff)
  show "\<exists>rs. sv_Search_roles k out w = (rs \<noteq> [], out @ rs) \<and> set rs = {r. (k, r) \<in> set w}" for out
  proof (cases "map_of w k")
    case None
    then show ?thesis using none by (simp add: sv_Search_roles_def sv_Search_def)
  next
    case (Some x)
    have "{r. (k, r) \<in> set w} = {x}" unfolding map_of_eq_Some_iff [OF i, symmetric] Some by auto
    then show ?thesis using Some by (intro exI [of _ "[x]"]) (simp add: sv_Search_roles_def sv_Search_def)
  qed
  show "\<exists>rs. sv_Find_roles a out w = (rs \<noteq> [], out @ rs) \<and> set rs = {r. role_Match r a \<and> (\<exists>k. (k, r) \<in> set w)}" for a out
    unfolding sv_Find_roles_def matches_onto_filter
    by (rule exI [of _ "map snd (filter (\<lambda>(k, r). role_Match r a) w)"]) (force simp: filter_empty_conv)
  show "sv_inv (sv_Remove_role k r w) \<and>
      set (sv_Remove_role k r w) = {(k', r') \<in> set w. \<not> (k' = k \<and> role_Match r' (role_attr r))}"
  proof (cases "map_of w k")
    case None
    then have "\<forall>r'. (k, r') \<notin> set w" using none by simp
    then show ?thesis using i None by (auto simp: sv_Remove_role_def)
  next
    case (Some x)
    have "(k, r') \<in> set w \<longleftrightarrow> r' = x" for r' unfolding map_of_eq_Some_iff [OF i, symmetric] Some by auto
    then show ?thesis using i Some by (auto simp: sv_Remove_role_def distinct_keys_filter AList.delete_eq)
  qed
qed

end
