(* ===== verification/Topology_Graph.thy ===== *)
theory Topology_Graph
  imports Cyber_Prelude "HOL-Library.AList"
begin

text \<open>
  \<^verbatim>\<open>cyber/service_discovery/container/graph.cc\<close>: the graph of nodes that the node and channel managers
  keep.  A channel (the value of an edge) has writing and reading nodes; the adjacency lists hold one
  entry for every writer-reader pair of a channel.  The hash maps of the code are association lists:
  their order, which the code does not rely on, is the order of iteration.
\<close>

section \<open>State\<close>

type_synonym vertice = string
type_synonym vertice_set = "(string \<times> vertice) list"

record edge =
  edge_src :: vertice
  edge_dst :: vertice
  edge_value :: string

record related_vertices =
  rv_src :: vertice_set
  rv_dst :: vertice_set

record graph =
  graph_edges :: "(string \<times> related_vertices) list"
  graph_list :: "(string \<times> vertice_set) list"

datatype flow_direction = UNREACHABLE | UPSTREAM | DOWNSTREAM

definition Graph :: graph where
  "Graph = \<lparr>graph_edges = [], graph_list = []\<rparr>"

definition IsDummy :: "vertice \<Rightarrow> bool" where
  "IsDummy v \<longleftrightarrow> v = []"

definition edge_IsValid :: "edge \<Rightarrow> bool" where
  "edge_IsValid e = (if edge_value e = [] then False
     else if IsDummy (edge_src e) \<and> IsDummy (edge_dst e) then False else True)"

definition edge_GetKey :: "edge \<Rightarrow> string" where
  "edge_GetKey e = edge_value e @ ''_'' @ edge_dst e"

text \<open>\<^verbatim>\<open>operator[]\<close> on the two maps: a missing key reads as a default-constructed value.\<close>

definition related :: "graph \<Rightarrow> string \<Rightarrow> related_vertices" where
  "related g v = (case map_of (graph_edges g) v of Some r \<Rightarrow> r | None \<Rightarrow> \<lparr>rv_src = [], rv_dst = []\<rparr>)"

definition adjacent :: "graph \<Rightarrow> string \<Rightarrow> vertice_set" where
  "adjacent g k = (case map_of (graph_list g) k of Some vs \<Rightarrow> vs | None \<Rightarrow> [])"

section \<open>Insertion and deletion\<close>

definition ensure_vertice :: "string \<Rightarrow> graph \<Rightarrow> graph" where
  "ensure_vertice k g = (if map_of (graph_list g) k = None then g\<lparr>graph_list := AList.update k [] (graph_list g)\<rparr> else g)"

definition InsertCompleteEdge :: "edge \<Rightarrow> graph \<Rightarrow> graph" where
  "InsertCompleteEdge e g0 =
     (let g = ensure_vertice (edge_dst e) (ensure_vertice (edge_src e) g0)
      in g\<lparr>graph_list := AList.update (edge_src e)
             (AList.update (edge_GetKey e) (edge_dst e) (adjacent g (edge_src e))) (graph_list g)\<rparr>)"

definition DeleteCompleteEdge :: "edge \<Rightarrow> graph \<Rightarrow> graph" where
  "DeleteCompleteEdge e g =
     g\<lparr>graph_list := AList.update (edge_src e) (AList.delete (edge_GetKey e) (adjacent g (edge_src e))) (graph_list g)\<rparr>"

definition InsertOutgoingEdge :: "edge \<Rightarrow> graph \<Rightarrow> graph" where
  "InsertOutgoingEdge e g =
     (let v = edge_value e; r = related g v
      in if map_of (rv_src r) (edge_src e) \<noteq> None then g
         else fold (\<lambda>(_, d). InsertCompleteEdge \<lparr>edge_src = edge_src e, edge_dst = d, edge_value = v\<rparr>) (rv_dst r)
                (g\<lparr>graph_edges := AList.update v (r\<lparr>rv_src := AList.update (edge_src e) (edge_src e) (rv_src r)\<rparr>) (graph_edges g)\<rparr>))"

definition InsertIncomingEdge :: "edge \<Rightarrow> graph \<Rightarrow> graph" where
  "InsertIncomingEdge e g =
     (let v = edge_value e; r = related g v
      in if map_of (rv_dst r) (edge_dst e) \<noteq> None then g
         else fold (\<lambda>(_, s). InsertCompleteEdge \<lparr>edge_src = s, edge_dst = edge_dst e, edge_value = v\<rparr>) (rv_src r)
                (g\<lparr>graph_edges := AList.update v (r\<lparr>rv_dst := AList.update (edge_dst e) (edge_dst e) (rv_dst r)\<rparr>) (graph_edges g)\<rparr>))"

definition DeleteOutgoingEdge :: "edge \<Rightarrow> graph \<Rightarrow> graph" where
  "DeleteOutgoingEdge e g =
     (let v = edge_value e; r = related g v
      in if map_of (rv_src r) (edge_src e) = None then g
         else fold (\<lambda>(_, d). DeleteCompleteEdge \<lparr>edge_src = edge_src e, edge_dst = d, edge_value = v\<rparr>) (rv_dst r)
                (g\<lparr>graph_edges := AList.update v (r\<lparr>rv_src := AList.delete (edge_src e) (rv_src r)\<rparr>) (graph_edges g)\<rparr>))"

definition DeleteIncomingEdge :: "edge \<Rightarrow> graph \<Rightarrow> graph" where
  "DeleteIncomingEdge e g =
     (let v = edge_value e; r = related g v
      in if map_of (rv_dst r) (edge_dst e) = None then g
         else fold (\<lambda>(_, s). DeleteCompleteEdge \<lparr>edge_src = s, edge_dst = edge_dst e, edge_value = v\<rparr>) (rv_src r)
                (g\<lparr>graph_edges := AList.update v (r\<lparr>rv_dst := AList.delete (edge_dst e) (rv_dst r)\<rparr>) (graph_edges g)\<rparr>))"

definition graph_Insert :: "edge \<Rightarrow> graph \<Rightarrow> graph" where
  "graph_Insert e g0 =
     (if \<not> edge_IsValid e then g0
      else let g1 = (if map_of (graph_edges g0) (edge_value e) = None
                     then g0\<lparr>graph_edges := AList.update (edge_value e) \<lparr>rv_src = [], rv_dst = []\<rparr> (graph_edges g0)\<rparr> else g0);
               g2 = (if \<not> IsDummy (edge_src e) then InsertOutgoingEdge e g1 else g1)
           in if \<not> IsDummy (edge_dst e) then InsertIncomingEdge e g2 else g2)"

definition graph_Delete :: "edge \<Rightarrow> graph \<Rightarrow> graph" where
  "graph_Delete e g =
     (if \<not> edge_IsValid e then g
      else if map_of (graph_edges g) (edge_value e) = None then g
      else let g1 = (if \<not> IsDummy (edge_src e) then DeleteOutgoingEdge e g else g)
           in if \<not> IsDummy (edge_dst e) then DeleteIncomingEdge e g1 else g1)"

definition GetNumOfEdge :: "graph \<Rightarrow> u32" where
  "GetNumOfEdge g = fold (\<lambda>(_, vs) num. num + of_nat (length vs)) (graph_list g) 0"

section \<open>Traversal\<close>

text \<open>The breadth-first search; \<open>visited\<close> lists the keys marked true, \<open>unvisited\<close> is the queue.\<close>

function traverse :: "graph \<Rightarrow> vertice \<Rightarrow> string list \<Rightarrow> vertice list \<Rightarrow> bool" where
  "traverse g goal visited unvisited =
     (case unvisited of
        [] \<Rightarrow> goal \<in> set visited
      | current # rest \<Rightarrow>
          if current \<in> set visited then traverse g goal visited rest
          else if current = goal then True
          else traverse g goal (current # visited) (rest @ map snd (adjacent g current)))"
  by pat_completeness auto
termination
proof (relation "measures [\<lambda>(g, _, visited, _). card (set (map fst (graph_list g)) - set visited), \<lambda>(_, _, _, q). length q]",
    goal_cases)
  case 1
  show ?case by simp
next
  case (2 g goal visited q current rest)
  then show ?case by simp
next
  case (3 g goal visited q current rest)
  let ?K = "set (map fst (graph_list g))"
  show ?case
  proof (cases "current \<in> ?K")
    case True
    then have "?K - set (current # visited) \<subset> ?K - set visited" using 3(2) by auto
    then have "card (?K - set (current # visited)) < card (?K - set visited)" by (intro psubset_card_mono) auto
    then show ?thesis by simp
  next
    case False
    then have "adjacent g current = []" "?K - set (current # visited) = ?K - set visited"
      by (auto simp: adjacent_def map_of_eq_None_iff split: option.split)
        (metis map_of_eq_None_iff option.distinct(1) set_map)
    then show ?thesis using 3(1) by simp
  qed
qed

declare traverse.simps [simp del]

definition LevelTraverse :: "graph \<Rightarrow> vertice \<Rightarrow> vertice \<Rightarrow> bool" where
  "LevelTraverse g start goal = traverse g goal [] [start]"

definition GetDirectionOf :: "graph \<Rightarrow> vertice \<Rightarrow> vertice \<Rightarrow> flow_direction" where
  "GetDirectionOf g lhs rhs =
     (if IsDummy lhs \<or> IsDummy rhs then UNREACHABLE
      else if map_of (graph_list g) lhs = None \<or> map_of (graph_list g) rhs = None then UNREACHABLE
      else if LevelTraverse g lhs rhs then UPSTREAM
      else if LevelTraverse g rhs lhs then DOWNSTREAM
      else UNREACHABLE)"

section \<open>The search decides reachability\<close>

definition flows :: "graph \<Rightarrow> (vertice \<times> vertice) set" where
  "flows g = {(s, d). d \<in> snd ` set (adjacent g s)}"

lemma path_leaves:
  assumes "(x, y) \<in> r\<^sup>*" "x \<in> V" "y \<notin> V"
  shows "\<exists>u v. u \<in> V \<and> (u, v) \<in> r \<and> v \<notin> V \<and> (v, y) \<in> r\<^sup>*"
  using assms by (induction rule: converse_rtrancl_induct) blast+

lemma traverse_reaches:
  "goal \<notin> set V \<Longrightarrow> (\<And>v. v \<in> set V \<Longrightarrow> snd ` set (adjacent g v) \<subseteq> set V \<union> set Q) \<Longrightarrow>
   traverse g goal V Q \<longleftrightarrow> (\<exists>q\<in>set Q. (q, goal) \<in> (flows g)\<^sup>*)"
proof (induction g goal V Q rule: traverse.induct)
  case (1 g goal V Q)
  show ?case
  proof (cases Q)
    case Nil
    then show ?thesis using 1(3) by (subst traverse.simps) simp
  next
    case (Cons c R)
    consider (seen) "c \<in> set V" | (found) "c \<notin> set V" "c = goal" | (new) "c \<notin> set V" "c \<noteq> goal" by blast
    then show ?thesis
    proof cases
      case seen
      have cl: "snd ` set (adjacent g v) \<subseteq> set V \<union> set R" if "v \<in> set V" for v
        using 1(4) [OF that] Cons seen by auto
      have "\<exists>q\<in>set R. (q, goal) \<in> (flows g)\<^sup>*" if "(c, goal) \<in> (flows g)\<^sup>*"
        using path_leaves [OF that seen 1(3)] cl by (fastforce simp: flows_def)
      moreover have "traverse g goal V Q \<longleftrightarrow> traverse g goal V R"
        using Cons seen by (subst traverse.simps) simp
      ultimately show ?thesis using 1(1) [OF Cons seen 1(3) cl] Cons by auto
    next
      case found
      then show ?thesis using Cons by (subst traverse.simps) simp
    next
      case new
      let ?V = "c # V" and ?Q = "R @ map snd (adjacent g c)"
      have cl: "snd ` set (adjacent g v) \<subseteq> set ?V \<union> set ?Q" if "v \<in> set ?V" for v
        using that 1(4) [of v] Cons by auto
      have "traverse g goal V Q \<longleftrightarrow> traverse g goal ?V ?Q"
        using Cons new by (subst traverse.simps) simp
      moreover have "traverse g goal ?V ?Q \<longleftrightarrow> (\<exists>q\<in>set ?Q. (q, goal) \<in> (flows g)\<^sup>*)"
        using 1(2) [OF Cons new] 1(3) new(2) cl by simp
      moreover have "(c, goal) \<in> (flows g)\<^sup>* \<longleftrightarrow> (\<exists>d\<in>snd ` set (adjacent g c). (d, goal) \<in> (flows g)\<^sup>*)"
        using new(2) by (auto simp: flows_def elim: converse_rtranclE intro: converse_rtrancl_into_rtrancl)
      ultimately show ?thesis using Cons by auto
    qed
  qed
qed

lemma LevelTraverse_iff: "LevelTraverse g a b \<longleftrightarrow> (a, b) \<in> (flows g)\<^sup>*"
  using traverse_reaches [of b "[]" g "[a]"] by (simp add: LevelTraverse_def)

section \<open>The adjacency lists hold the writer-reader pairs\<close>

text \<open>
  \<open>lists g P\<close>: the adjacency lists are a dictionary of the triples (writer, channel, reader) in \<open>P\<close>,
  keyed by channel and reader as the code does it.  The key determines channel and reader only when
  the name of the reader has no underscore.
\<close>

definition plain :: "string \<Rightarrow> bool" where
  "plain d \<longleftrightarrow> CHR ''_'' \<notin> set d"

definition lists :: "graph \<Rightarrow> (vertice \<times> string \<times> vertice) set \<Rightarrow> bool" where
  "lists g P \<longleftrightarrow>
     (\<forall>s. distinct (map fst (adjacent g s))) \<and>
     (\<forall>s k d. map_of (adjacent g s) k = Some d \<longleftrightarrow> (\<exists>v. k = v @ ''_'' @ d \<and> (s, v, d) \<in> P)) \<and>
     (\<forall>s v d. (s, v, d) \<in> P \<longrightarrow> plain d \<and> map_of (graph_list g) s \<noteq> None \<and> map_of (graph_list g) d \<noteq> None)"

lemma key_inject:
  assumes "plain d" "plain d'" "v @ ''_'' @ d = v' @ ''_'' @ d'"
  shows "v = v' \<and> d = d'"
proof -
  have "takeWhile (\<lambda>c. c \<noteq> CHR ''_'') (rev (w @ ''_'' @ e)) = rev e" if "plain e" for w e
    using that by (auto simp: plain_def takeWhile_append)
  from this [OF assms(1), of v] this [OF assms(2), of v'] have "rev d = rev d'" unfolding assms(3) by simp
  then show ?thesis using assms(3) by simp
qed

lemma adjacent_InsertCompleteEdge:
  "adjacent (InsertCompleteEdge e g) s =
     (if s = edge_src e then AList.update (edge_GetKey e) (edge_dst e) (adjacent g s) else adjacent g s)"
  by (auto simp: InsertCompleteEdge_def ensure_vertice_def adjacent_def Let_def update_conv' split: option.split)

lemma known_InsertCompleteEdge:
  "map_of (graph_list (InsertCompleteEdge e g)) k \<noteq> None \<longleftrightarrow>
     k = edge_src e \<or> k = edge_dst e \<or> map_of (graph_list g) k \<noteq> None"
  by (auto simp: InsertCompleteEdge_def ensure_vertice_def Let_def update_conv')

lemma adjacent_DeleteCompleteEdge:
  "adjacent (DeleteCompleteEdge e g) s =
     (if s = edge_src e then AList.delete (edge_GetKey e) (adjacent g s) else adjacent g s)"
  by (simp add: DeleteCompleteEdge_def adjacent_def update_conv')

lemma known_DeleteCompleteEdge:
  "map_of (graph_list (DeleteCompleteEdge e g)) k \<noteq> None \<longleftrightarrow> k = edge_src e \<or> map_of (graph_list g) k \<noteq> None"
  by (auto simp: DeleteCompleteEdge_def update_conv')

lemma edges_CompleteEdge [simp]:
  "graph_edges (InsertCompleteEdge e g) = graph_edges g"
  "graph_edges (DeleteCompleteEdge e g) = graph_edges g"
  by (simp_all add: InsertCompleteEdge_def DeleteCompleteEdge_def ensure_vertice_def Let_def)

lemma listsD:
  assumes "lists g P"
  shows "distinct (map fst (adjacent g s))"
    and "map_of (adjacent g s) k = Some d \<longleftrightarrow> (\<exists>v. k = v @ ''_'' @ d \<and> (s, v, d) \<in> P)"
    and "(s, v, d) \<in> P \<Longrightarrow> plain d"
    and "(s, v, d) \<in> P \<Longrightarrow> map_of (graph_list g) s \<noteq> None \<and> map_of (graph_list g) d \<noteq> None"
  using assms unfolding lists_def by blast+

lemma listsI:
  "(\<And>s. distinct (map fst (adjacent g s))) \<Longrightarrow>
   (\<And>s k d. map_of (adjacent g s) k = Some d \<longleftrightarrow> (\<exists>v. k = v @ ''_'' @ d \<and> (s, v, d) \<in> P)) \<Longrightarrow>
   (\<And>s v d. (s, v, d) \<in> P \<Longrightarrow> plain d \<and> map_of (graph_list g) s \<noteq> None \<and> map_of (graph_list g) d \<noteq> None) \<Longrightarrow>
   lists g P"
  unfolding lists_def by blast

lemma lists_InsertCompleteEdge:
  assumes l: "lists g P" and d: "plain (edge_dst e)"
  shows "lists (InsertCompleteEdge e g) (insert (edge_src e, edge_value e, edge_dst e) P)"
proof -
  have "map_of (adjacent (InsertCompleteEdge e g) s) k = Some x \<longleftrightarrow>
      (\<exists>v. k = v @ ''_'' @ x \<and> (s, v, x) \<in> insert (edge_src e, edge_value e, edge_dst e) P)" for s k x
  proof (cases "s = edge_src e \<and> k = edge_GetKey e")
    case True
    then have "map_of (adjacent (InsertCompleteEdge e g) s) k = Some x \<longleftrightarrow> x = edge_dst e"
      by (auto simp: adjacent_InsertCompleteEdge update_conv')
    moreover have "k = v @ ''_'' @ x \<Longrightarrow> (s, v, x) \<in> P \<Longrightarrow> x = edge_dst e" for v
      using True key_inject [of x "edge_dst e" v "edge_value e"] listsD(3) [OF l] d unfolding edge_GetKey_def by metis
    ultimately show ?thesis
      using True unfolding insert_iff prod.inject edge_GetKey_def by metis
  next
    case False
    then have "map_of (adjacent (InsertCompleteEdge e g) s) k = map_of (adjacent g s) k"
      by (auto simp: adjacent_InsertCompleteEdge update_conv')
    moreover have "(s, v, x) = (edge_src e, edge_value e, edge_dst e) \<Longrightarrow> k \<noteq> v @ ''_'' @ x" for v
      using False by (auto simp: edge_GetKey_def)
    ultimately show ?thesis using listsD(2) [OF l, of s k x] by auto
  qed
  moreover have "distinct (map fst (adjacent (InsertCompleteEdge e g) s))" for s
    using l by (simp add: lists_def adjacent_InsertCompleteEdge distinct_update)
  moreover have "(s, v, x) \<in> insert (edge_src e, edge_value e, edge_dst e) P \<Longrightarrow> plain x \<and>
      map_of (graph_list (InsertCompleteEdge e g)) s \<noteq> None \<and> map_of (graph_list (InsertCompleteEdge e g)) x \<noteq> None" for s v x
    using listsD(3,4) [OF l, of s v x] d unfolding known_InsertCompleteEdge by auto
  ultimately show ?thesis unfolding lists_def by blast
qed

lemma lists_DeleteCompleteEdge:
  assumes l: "lists g P" and d: "plain (edge_dst e)"
  shows "lists (DeleteCompleteEdge e g) (P - {(edge_src e, edge_value e, edge_dst e)})"
proof -
  have "map_of (adjacent (DeleteCompleteEdge e g) s) k = Some x \<longleftrightarrow>
      (\<exists>v. k = v @ ''_'' @ x \<and> (s, v, x) \<in> P - {(edge_src e, edge_value e, edge_dst e)})" for s k x
  proof (cases "s = edge_src e \<and> k = edge_GetKey e")
    case True
    then have "map_of (adjacent (DeleteCompleteEdge e g) s) k = None"
      by (simp add: adjacent_DeleteCompleteEdge delete_conv')
    moreover have "k = v @ ''_'' @ x \<Longrightarrow> (s, v, x) \<in> P \<Longrightarrow> v = edge_value e \<and> x = edge_dst e" for v
      using True key_inject [of x "edge_dst e" v "edge_value e"] listsD(3) [OF l] d unfolding edge_GetKey_def by metis
    then have "\<not> (\<exists>v. k = v @ ''_'' @ x \<and> (s, v, x) \<in> P - {(edge_src e, edge_value e, edge_dst e)})"
      using True by blast
    ultimately show ?thesis by simp
  next
    case False
    then have "map_of (adjacent (DeleteCompleteEdge e g) s) k = map_of (adjacent g s) k"
      by (auto simp: adjacent_DeleteCompleteEdge delete_conv')
    moreover have "(s, v, x) = (edge_src e, edge_value e, edge_dst e) \<Longrightarrow> k \<noteq> v @ ''_'' @ x" for v
      using False by (auto simp: edge_GetKey_def)
    ultimately show ?thesis using listsD(2) [OF l, of s k x] by auto
  qed
  note entries = this
  have "distinct (map fst (adjacent (DeleteCompleteEdge e g) s))" for s
    using listsD(1) [OF l] by (simp add: adjacent_DeleteCompleteEdge distinct_delete)
  moreover note entries
  moreover have "plain x \<and>
      map_of (graph_list (DeleteCompleteEdge e g)) s \<noteq> None \<and> map_of (graph_list (DeleteCompleteEdge e g)) x \<noteq> None"
    if "(s, v, x) \<in> P - {(edge_src e, edge_value e, edge_dst e)}" for s v x
  proof -
    have "(s, v, x) \<in> P" using that by (rule DiffD1)
    then show ?thesis using listsD(3,4) [OF l] unfolding known_DeleteCompleteEdge by simp
  qed
  ultimately show ?thesis by (rule listsI)
qed

lemma lists_fold_Insert:
  assumes "lists g P" "\<And>x. x \<in> set xs \<Longrightarrow> plain (edge_dst (f x))"
  shows "lists (fold (\<lambda>x. InsertCompleteEdge (f x)) xs g)
    (P \<union> (\<lambda>x. (edge_src (f x), edge_value (f x), edge_dst (f x))) ` set xs)"
  using assms
proof (induction xs arbitrary: g P)
  case (Cons x xs)
  have "lists (InsertCompleteEdge (f x) g) (insert (edge_src (f x), edge_value (f x), edge_dst (f x)) P)"
    using Cons.prems by (intro lists_InsertCompleteEdge) auto
  from Cons.IH [OF this] Cons.prems show ?case by simp
qed simp

lemma lists_fold_Delete:
  assumes "lists g P" "\<And>x. x \<in> set xs \<Longrightarrow> plain (edge_dst (f x))"
    and "h = (\<lambda>x. (edge_src (f x), edge_value (f x), edge_dst (f x)))"
  shows "lists (fold (\<lambda>x. DeleteCompleteEdge (f x)) xs g) (P - h ` set xs)"
  using assms(1,2)
proof (induction xs arbitrary: g P)
  case (Cons x xs)
  have "lists (DeleteCompleteEdge (f x) g) (P - {h x})"
    unfolding assms(3) by (rule lists_DeleteCompleteEdge) (use Cons.prems in auto)
  then have "lists (fold (\<lambda>x. DeleteCompleteEdge (f x)) xs (DeleteCompleteEdge (f x) g)) (P - {h x} - h ` set xs)"
    by (rule Cons.IH) (use Cons.prems in auto)
  moreover have "P - h ` set (x # xs) = P - {h x} - h ` set xs" by auto
  ultimately show ?case by (simp only: fold_simps)
qed simp

lemma edges_fold [simp]:
  "graph_edges (fold (\<lambda>x. InsertCompleteEdge (f x)) xs g) = graph_edges g"
  "graph_edges (fold (\<lambda>x. DeleteCompleteEdge (f x)) xs g) = graph_edges g"
  by (induction xs arbitrary: g) auto

text \<open>
  The abstract state: who writes and who reads each channel.  \<open>graph_inv\<close> says that the maps of the
  graph represent it, and that the adjacency lists are the derived writer-reader pairs.
\<close>

type_synonym topology = "(string \<Rightarrow> vertice set) \<times> (string \<Rightarrow> vertice set)"

definition pairs :: "topology \<Rightarrow> (vertice \<times> string \<times> vertice) set" where
  "pairs T = {(s, v, d). s \<in> fst T v \<and> d \<in> snd T v}"

definition represents :: "vertice_set \<Rightarrow> vertice set \<Rightarrow> bool" where
  "represents vs A \<longleftrightarrow> set vs = (\<lambda>x. (x, x)) ` A \<and> distinct (map fst vs)"

definition graph_inv :: "graph \<Rightarrow> topology \<Rightarrow> bool" where
  "graph_inv g T \<longleftrightarrow> lists g (pairs T) \<and> (\<forall>v. \<forall>d\<in>snd T v. plain d) \<and>
     (\<forall>v. represents (rv_src (related g v)) (fst T v) \<and> represents (rv_dst (related g v)) (snd T v))"

lemma map_of_represents: "represents vs A \<Longrightarrow> map_of vs x = (if x \<in> A then Some x else None)"
  by (auto simp: represents_def map_of_eq_None_iff)

lemma represents_update: "represents vs A \<Longrightarrow> x \<notin> A \<Longrightarrow> represents (AList.update x x vs) (insert x A)"
proof -
  assume r: "represents vs A" and x: "x \<notin> A"
  have "distinct (map fst (AList.update x x vs))" using r by (simp add: represents_def distinct_update)
  moreover have "(k, y) \<in> set (AList.update x x vs) \<longleftrightarrow> k = y \<and> y \<in> insert x A" for k y
    using map_of_represents [OF r] by (auto simp: update_conv' simp flip: map_of_eq_Some_iff [OF calculation])
  ultimately show ?thesis by (auto simp: represents_def)
qed

lemma represents_delete: "represents vs A \<Longrightarrow> represents (AList.delete x vs) (A - {x})"
proof -
  assume r: "represents vs A"
  have "distinct (map fst (AList.delete x vs))" using r by (simp add: represents_def distinct_delete)
  moreover have "(k, y) \<in> set (AList.delete x vs) \<longleftrightarrow> k = y \<and> y \<in> A - {x}" for k y
    using map_of_represents [OF r] by (auto simp: delete_conv' simp flip: map_of_eq_Some_iff [OF calculation])
  ultimately show ?thesis by (auto simp: represents_def)
qed

lemma related_update:
  "related (g\<lparr>graph_edges := AList.update v r (graph_edges g)\<rparr>) u = (if u = v then r else related g u)"
  by (simp add: related_def update_conv')

lemma lists_edges [simp]: "lists (g\<lparr>graph_edges := E\<rparr>) P \<longleftrightarrow> lists g P"
  by (simp add: lists_def adjacent_def)

text \<open>The abstract operations.\<close>

definition writes :: "edge \<Rightarrow> topology \<Rightarrow> topology" where
  "writes e T = ((fst T)(edge_value e := insert (edge_src e) (fst T (edge_value e))), snd T)"

definition reads :: "edge \<Rightarrow> topology \<Rightarrow> topology" where
  "reads e T = (fst T, (snd T)(edge_value e := insert (edge_dst e) (snd T (edge_value e))))"

definition stops_writing :: "edge \<Rightarrow> topology \<Rightarrow> topology" where
  "stops_writing e T = ((fst T)(edge_value e := fst T (edge_value e) - {edge_src e}), snd T)"

definition stops_reading :: "edge \<Rightarrow> topology \<Rightarrow> topology" where
  "stops_reading e T = (fst T, (snd T)(edge_value e := snd T (edge_value e) - {edge_dst e}))"

lemma graph_invD:
  assumes "graph_inv g T"
  shows "lists g (pairs T)" and "d \<in> snd T v \<Longrightarrow> plain d"
    and "represents (rv_src (related g v)) (fst T v)" and "represents (rv_dst (related g v)) (snd T v)"
  using assms by (auto simp: graph_inv_def)

lemma represents_set: "represents vs A \<Longrightarrow> set vs = (\<lambda>x. (x, x)) ` A"
  by (simp add: represents_def)

lemma fold_pair_conv: "fold (\<lambda>(_, x). F x) xs = fold (\<lambda>p. F (snd p)) xs"
  by (simp add: case_prod_beta')

lemma InsertOutgoingEdge_inv:
  assumes i: "graph_inv g T"
  shows "graph_inv (InsertOutgoingEdge e g) (writes e T)"
proof (cases "edge_src e \<in> fst T (edge_value e)")
  case True
  then have "writes e T = T" by (simp add: writes_def insert_absorb)
  then show ?thesis using i True map_of_represents [OF graph_invD(3) [OF i]] by (simp add: InsertOutgoingEdge_def Let_def)
next
  case False
  let ?v = "edge_value e" and ?s = "edge_src e"
  let ?r = "related g ?v"
  let ?f = "\<lambda>p. \<lparr>edge_src = ?s, edge_dst = snd p, edge_value = ?v\<rparr>"
  define g1 where "g1 = g\<lparr>graph_edges := AList.update ?v (?r\<lparr>rv_src := AList.update ?s ?s (rv_src ?r)\<rparr>) (graph_edges g)\<rparr>"
  have g': "InsertOutgoingEdge e g = fold (\<lambda>p. InsertCompleteEdge (?f p)) (rv_dst ?r) g1"
    using False map_of_represents [OF graph_invD(3) [OF i]]
    by (simp add: InsertOutgoingEdge_def Let_def g1_def fold_pair_conv)
  have "lists g1 (pairs T)" using graph_invD(1) [OF i] by (simp add: g1_def)
  moreover have "plain (edge_dst (?f p))" if "p \<in> set (rv_dst ?r)" for p
    using that represents_set [OF graph_invD(4) [OF i]] graph_invD(2) [OF i] by auto
  ultimately have "lists (InsertOutgoingEdge e g)
      (pairs T \<union> (\<lambda>p. (edge_src (?f p), edge_value (?f p), edge_dst (?f p))) ` set (rv_dst ?r))"
    unfolding g' by (rule lists_fold_Insert)
  also have "pairs T \<union> (\<lambda>p. (edge_src (?f p), edge_value (?f p), edge_dst (?f p))) ` set (rv_dst ?r) = pairs (writes e T)"
    using represents_set [OF graph_invD(4) [OF i]] by (auto simp: pairs_def writes_def image_iff split: if_splits)
  finally have l: "lists (InsertOutgoingEdge e g) (pairs (writes e T))" .
  have "graph_edges (InsertOutgoingEdge e g) = graph_edges g1" unfolding g' by simp
  then have rel: "related (InsertOutgoingEdge e g) u = related g1 u" for u by (simp add: related_def)
  show ?thesis
    unfolding graph_inv_def rel using l graph_invD(2-4) [OF i] represents_update [OF graph_invD(3) [OF i] False]
    by (auto simp: g1_def related_update writes_def)
qed

lemma InsertIncomingEdge_inv:
  assumes i: "graph_inv g T" and d: "plain (edge_dst e)"
  shows "graph_inv (InsertIncomingEdge e g) (reads e T)"
proof (cases "edge_dst e \<in> snd T (edge_value e)")
  case True
  then have "reads e T = T" by (simp add: reads_def insert_absorb)
  then show ?thesis using i True map_of_represents [OF graph_invD(4) [OF i]] by (simp add: InsertIncomingEdge_def Let_def)
next
  case False
  let ?v = "edge_value e" and ?d = "edge_dst e"
  let ?r = "related g ?v"
  let ?f = "\<lambda>p. \<lparr>edge_src = snd p, edge_dst = ?d, edge_value = ?v\<rparr>"
  define g1 where "g1 = g\<lparr>graph_edges := AList.update ?v (?r\<lparr>rv_dst := AList.update ?d ?d (rv_dst ?r)\<rparr>) (graph_edges g)\<rparr>"
  have g': "InsertIncomingEdge e g = fold (\<lambda>p. InsertCompleteEdge (?f p)) (rv_src ?r) g1"
    using False map_of_represents [OF graph_invD(4) [OF i]]
    by (simp add: InsertIncomingEdge_def Let_def g1_def fold_pair_conv)
  have "lists g1 (pairs T)" using graph_invD(1) [OF i] by (simp add: g1_def)
  then have "lists (InsertIncomingEdge e g)
      (pairs T \<union> (\<lambda>p. (edge_src (?f p), edge_value (?f p), edge_dst (?f p))) ` set (rv_src ?r))"
    unfolding g' by (rule lists_fold_Insert) (simp add: d)
  also have "pairs T \<union> (\<lambda>p. (edge_src (?f p), edge_value (?f p), edge_dst (?f p))) ` set (rv_src ?r) = pairs (reads e T)"
    using represents_set [OF graph_invD(3) [OF i]] by (auto simp: pairs_def reads_def image_iff split: if_splits)
  finally have l: "lists (InsertIncomingEdge e g) (pairs (reads e T))" .
  have "graph_edges (InsertIncomingEdge e g) = graph_edges g1" unfolding g' by simp
  then have rel: "related (InsertIncomingEdge e g) u = related g1 u" for u by (simp add: related_def)
  show ?thesis
    unfolding graph_inv_def rel using l d graph_invD(2-4) [OF i] represents_update [OF graph_invD(4) [OF i] False]
    by (auto simp: g1_def related_update reads_def)
qed

lemma DeleteOutgoingEdge_inv:
  assumes i: "graph_inv g T"
  shows "graph_inv (DeleteOutgoingEdge e g) (stops_writing e T)"
proof (cases "edge_src e \<in> fst T (edge_value e)")
  case False
  then have "stops_writing e T = T" by (simp add: stops_writing_def)
  then show ?thesis using i False map_of_represents [OF graph_invD(3) [OF i]] by (simp add: DeleteOutgoingEdge_def Let_def)
next
  case True
  let ?v = "edge_value e" and ?s = "edge_src e"
  let ?r = "related g ?v"
  let ?f = "\<lambda>p. \<lparr>edge_src = ?s, edge_dst = snd p, edge_value = ?v\<rparr>"
  define g1 where "g1 = g\<lparr>graph_edges := AList.update ?v (?r\<lparr>rv_src := AList.delete ?s (rv_src ?r)\<rparr>) (graph_edges g)\<rparr>"
  have g': "DeleteOutgoingEdge e g = fold (\<lambda>p. DeleteCompleteEdge (?f p)) (rv_dst ?r) g1"
    using True map_of_represents [OF graph_invD(3) [OF i]]
    by (simp add: DeleteOutgoingEdge_def Let_def g1_def fold_pair_conv)
  have "lists g1 (pairs T)" using graph_invD(1) [OF i] by (simp add: g1_def)
  moreover have "plain (edge_dst (?f p))" if "p \<in> set (rv_dst ?r)" for p
    using that represents_set [OF graph_invD(4) [OF i]] graph_invD(2) [OF i] by auto
  ultimately have "lists (DeleteOutgoingEdge e g) (pairs T - (\<lambda>p. (?s, ?v, snd p)) ` set (rv_dst ?r))"
    unfolding g' by (rule lists_fold_Delete) simp_all
  also have "pairs T - (\<lambda>p. (?s, ?v, snd p)) ` set (rv_dst ?r) = pairs (stops_writing e T)"
    using represents_set [OF graph_invD(4) [OF i]] by (auto simp: pairs_def stops_writing_def image_iff split: if_splits)
  finally have l: "lists (DeleteOutgoingEdge e g) (pairs (stops_writing e T))" .
  have "graph_edges (DeleteOutgoingEdge e g) = graph_edges g1" unfolding g' by simp
  then have rel: "related (DeleteOutgoingEdge e g) u = related g1 u" for u by (simp add: related_def)
  show ?thesis
    unfolding graph_inv_def rel using l graph_invD(2-4) [OF i] represents_delete [OF graph_invD(3) [OF i]]
    by (auto simp: g1_def related_update stops_writing_def)
qed

lemma DeleteIncomingEdge_inv:
  assumes i: "graph_inv g T"
  shows "graph_inv (DeleteIncomingEdge e g) (stops_reading e T)"
proof (cases "edge_dst e \<in> snd T (edge_value e)")
  case False
  then have "stops_reading e T = T" by (simp add: stops_reading_def)
  then show ?thesis using i False map_of_represents [OF graph_invD(4) [OF i]] by (simp add: DeleteIncomingEdge_def Let_def)
next
  case True
  let ?v = "edge_value e" and ?d = "edge_dst e"
  let ?r = "related g ?v"
  let ?f = "\<lambda>p. \<lparr>edge_src = snd p, edge_dst = ?d, edge_value = ?v\<rparr>"
  define g1 where "g1 = g\<lparr>graph_edges := AList.update ?v (?r\<lparr>rv_dst := AList.delete ?d (rv_dst ?r)\<rparr>) (graph_edges g)\<rparr>"
  have g': "DeleteIncomingEdge e g = fold (\<lambda>p. DeleteCompleteEdge (?f p)) (rv_src ?r) g1"
    using True map_of_represents [OF graph_invD(4) [OF i]]
    by (simp add: DeleteIncomingEdge_def Let_def g1_def fold_pair_conv)
  have "lists g1 (pairs T)" using graph_invD(1) [OF i] by (simp add: g1_def)
  then have "lists (DeleteIncomingEdge e g) (pairs T - (\<lambda>p. (snd p, ?v, ?d)) ` set (rv_src ?r))"
    unfolding g' by (rule lists_fold_Delete) (use graph_invD(2) [OF i True] in simp_all)
  also have "pairs T - (\<lambda>p. (snd p, ?v, ?d)) ` set (rv_src ?r) = pairs (stops_reading e T)"
    using represents_set [OF graph_invD(3) [OF i]] by (auto simp: pairs_def stops_reading_def image_iff split: if_splits)
  finally have l: "lists (DeleteIncomingEdge e g) (pairs (stops_reading e T))" .
  have "graph_edges (DeleteIncomingEdge e g) = graph_edges g1" unfolding g' by simp
  then have rel: "related (DeleteIncomingEdge e g) u = related g1 u" for u by (simp add: related_def)
  show ?thesis
    unfolding graph_inv_def rel using l graph_invD(2-4) [OF i] represents_delete [OF graph_invD(4) [OF i]]
    by (auto simp: g1_def related_update stops_reading_def)
qed

section \<open>Histories\<close>

datatype graph_op = InsertEdge edge | DeleteEdge edge

fun graph_run :: "graph_op list \<Rightarrow> graph \<Rightarrow> graph" where
  "graph_run [] g = g"
| "graph_run (InsertEdge e # ops) g = graph_run ops (graph_Insert e g)"
| "graph_run (DeleteEdge e # ops) g = graph_run ops (graph_Delete e g)"

text \<open>The same history on the abstract topology: a named end of a valid edge joins or leaves its channel.\<close>

fun topology_run :: "graph_op list \<Rightarrow> topology \<Rightarrow> topology" where
  "topology_run [] T = T"
| "topology_run (InsertEdge e # ops) T = topology_run ops
     (if edge_value e = [] then T else
      let T1 = (if edge_src e \<noteq> [] then writes e T else T) in if edge_dst e \<noteq> [] then reads e T1 else T1)"
| "topology_run (DeleteEdge e # ops) T = topology_run ops
     (if edge_value e = [] then T else
      let T1 = (if edge_src e \<noteq> [] then stops_writing e T else T) in if edge_dst e \<noteq> [] then stops_reading e T1 else T1)"

definition plain_op :: "graph_op \<Rightarrow> bool" where
  "plain_op x \<longleftrightarrow> (case x of InsertEdge e \<Rightarrow> plain (edge_dst e) | DeleteEdge e \<Rightarrow> True)"

lemma graph_Insert_inv:
  assumes i: "graph_inv g T" and d: "plain (edge_dst e)"
  shows "graph_inv (graph_Insert e g) (topology_run [InsertEdge e] T)"
proof -
  define g1 where "g1 = (if map_of (graph_edges g) (edge_value e) = None
     then g\<lparr>graph_edges := AList.update (edge_value e) \<lparr>rv_src = [], rv_dst = []\<rparr> (graph_edges g)\<rparr> else g)"
  have "related g1 v = related g v" for v by (simp add: g1_def related_def update_conv')
  moreover have "lists g1 P \<longleftrightarrow> lists g P" for P by (simp add: g1_def)
  ultimately have i1: "graph_inv g1 T" using i by (simp add: graph_inv_def)
  show ?thesis
    using i InsertOutgoingEdge_inv [OF i1, of e] InsertIncomingEdge_inv [OF i1 d]
      InsertIncomingEdge_inv [OF InsertOutgoingEdge_inv [OF i1, of e] d]
    by (simp add: graph_Insert_def edge_IsValid_def IsDummy_def Let_def flip: g1_def)
qed

lemma absent_channel:
  assumes i: "graph_inv g T" and n: "map_of (graph_edges g) v = None"
  shows "fst T v = {} \<and> snd T v = {}"
  using represents_set [OF graph_invD(3) [OF i, of v]] represents_set [OF graph_invD(4) [OF i, of v]] n
  by (simp add: related_def)

lemma graph_Delete_inv:
  assumes i: "graph_inv g T"
  shows "graph_inv (graph_Delete e g) (topology_run [DeleteEdge e] T)"
proof (cases "map_of (graph_edges g) (edge_value e) = None")
  case True
  then have "stops_writing e T = T" "stops_reading e T = T"
    using absent_channel [OF i True] by (auto simp: stops_writing_def stops_reading_def fun_upd_idem)
  then show ?thesis using i True by (simp add: graph_Delete_def Let_def)
next
  case False
  then show ?thesis
    using i DeleteOutgoingEdge_inv [OF i, of e] DeleteIncomingEdge_inv [OF i, of e]
      DeleteIncomingEdge_inv [OF DeleteOutgoingEdge_inv [OF i, of e], of e]
    by (auto simp: graph_Delete_def edge_IsValid_def IsDummy_def Let_def)
qed

lemma graph_run_inv:
  "graph_inv g T \<Longrightarrow> list_all plain_op ops \<Longrightarrow> graph_inv (graph_run ops g) (topology_run ops T)"
proof (induction ops arbitrary: g T)
  case (Cons x ops)
  show ?case
  proof (cases x)
    case (InsertEdge e)
    then show ?thesis using Cons.IH [OF graph_Insert_inv [OF Cons.prems(1), of e]] Cons.prems(2) by (simp add: plain_op_def)
  next
    case (DeleteEdge e)
    then show ?thesis using Cons.IH [OF graph_Delete_inv [OF Cons.prems(1), of e]] Cons.prems(2) by simp
  qed
qed simp

lemma Graph_inv: "graph_inv Graph ((\<lambda>_. {}), (\<lambda>_. {}))"
  by (simp add: graph_inv_def lists_def pairs_def Graph_def adjacent_def related_def represents_def)

definition flow_of :: "topology \<Rightarrow> (vertice \<times> vertice) set" where
  "flow_of T = {(s, d). \<exists>v. s \<in> fst T v \<and> d \<in> snd T v}"

lemma flows_flow_of:
  assumes "graph_inv g T"
  shows "flows g = flow_of T"
proof -
  note l = graph_invD(1) [OF assms]
  have "d \<in> snd ` set (adjacent g s) \<longleftrightarrow> (\<exists>k. map_of (adjacent g s) k = Some d)" for s d
    using map_of_eq_Some_iff [OF listsD(1) [OF l, of s]] by force
  then show ?thesis using listsD(2) [OF l] by (auto simp: flows_def flow_of_def pairs_def)
qed


definition demo_edge :: "string \<Rightarrow> string \<Rightarrow> string \<Rightarrow> edge" where
  "demo_edge s d v = \<lparr>edge_src = s, edge_dst = d, edge_value = v\<rparr>"

lemmas graph_eval = graph_Insert_def graph_Delete_def edge_IsValid_def IsDummy_def Let_def InsertOutgoingEdge_def
  InsertIncomingEdge_def DeleteOutgoingEdge_def DeleteIncomingEdge_def InsertCompleteEdge_def DeleteCompleteEdge_def
  ensure_vertice_def related_def adjacent_def edge_GetKey_def Graph_def demo_edge_def


text \<open>
  Underscores in node names break the graph: the adjacency key \<^verbatim>\<open>channel + "_" + reader\<close> is
  the same for channel \<^verbatim>\<open>a\<close> with reader \<^verbatim>\<open>b_c\<close> and for channel \<^verbatim>\<open>a_b\<close> with reader \<^verbatim>\<open>c\<close>.  A node that
  writes both channels keeps only the later of the two connections: the flow to \<^verbatim>\<open>b_c\<close> exists, yet
  the graph reports it as unreachable.
\<close>

lemma edge_key_collision:
  "let ops = [InsertEdge (demo_edge ''w'' ''b_c'' ''a''), InsertEdge (demo_edge ''w'' ''c'' ''a_b'')]
   in (''w'', ''b_c'') \<in> flow_of (topology_run ops ((\<lambda>_. {}), (\<lambda>_. {})))
     \<and> GetDirectionOf (graph_run ops Graph) ''w'' ''b_c'' = UNREACHABLE"
proof -
  let ?ops = "[InsertEdge (demo_edge ''w'' ''b_c'' ''a''), InsertEdge (demo_edge ''w'' ''c'' ''a_b'')]"
  have "(''w'', ''b_c'') \<in> flow_of (topology_run ?ops ((\<lambda>_. {}), (\<lambda>_. {})))"
    unfolding flow_of_def mem_Collect_eq case_prod_conv
    by (rule exI [of _ "''a''"]) (simp add: writes_def reads_def demo_edge_def)
  moreover have "graph_list (graph_run ?ops Graph) = [(''w'', [(''a_b_c'', ''c'')]), (''b_c'', []), (''c'', [])]"
    by (simp add: graph_eval)
  then have "GetDirectionOf (graph_run ?ops Graph) ''w'' ''b_c'' = UNREACHABLE"
    by (simp add: GetDirectionOf_def LevelTraverse_def IsDummy_def traverse.simps adjacent_def)
  ultimately show ?thesis by (simp only: Let_def)
qed

end
