(* ===== verification/Discovery_Managers.thy ===== *)
theory Discovery_Managers
  imports Role_Warehouse Topology_Graph
begin

text \<open>
  \<^verbatim>\<open>cyber/service_discovery/specific_manager\<close>: the base class \<^verbatim>\<open>Manager\<close> and the node, channel and
  service managers.  The derived classes are record extensions of the base class; its virtual
  operations \<^verbatim>\<open>Check\<close> and \<^verbatim>\<open>Dispose\<close> are arguments of the base operations.  What leaves the process
  through the RTPS publisher is recorded in \<open>mgr_published\<close>, what the listeners are told in
  \<open>mgr_notified\<close>; \<open>write\<close> says whether serialising and writing a message succeeds and \<open>now\<close> is the
  clock.
\<close>

section \<open>Messages\<close>

datatype change_type = CHANGE_NODE | CHANGE_CHANNEL | CHANGE_SERVICE | CHANGE_PARTICIPANT
datatype operate_type = OPT_JOIN | OPT_LEAVE
datatype role_type = ROLE_NODE | ROLE_WRITER | ROLE_READER | ROLE_SERVER | ROLE_CLIENT | ROLE_PARTICIPANT

fun role_number :: "role_type \<Rightarrow> nat" where
  "role_number ROLE_NODE = 1"
| "role_number ROLE_WRITER = 2"
| "role_number ROLE_READER = 3"
| "role_number ROLE_SERVER = 4"
| "role_number ROLE_CLIENT = 5"
| "role_number ROLE_PARTICIPANT = 6"

record change_msg =
  msg_timestamp :: u64
  msg_change_type :: change_type
  msg_operate_type :: operate_type
  msg_role_type :: role_type
  msg_role_attr :: role_attributes

section \<open>The base class\<close>

record manager =
  is_shutdown :: bool
  is_discovery_started :: bool
  allowed_role :: u32
  mgr_change_type :: change_type
  mgr_host_name :: string
  mgr_process_id :: int
  mgr_notified :: "change_msg list"
  mgr_published :: "change_msg list"

text \<open>\<open>created\<close>: whether the RTPS publisher and subscriber could be created.\<close>

definition StopDiscovery :: "'a manager_scheme \<Rightarrow> 'a manager_scheme" where
  "StopDiscovery m = m\<lparr>is_discovery_started := False\<rparr>"

definition StartDiscovery :: "bool \<Rightarrow> bool \<Rightarrow> 'a manager_scheme \<Rightarrow> bool \<times> 'a manager_scheme" where
  "StartDiscovery has_participant created m =
     (if \<not> has_participant then (False, m)
      else if is_discovery_started m then (True, m)
      else let m = m\<lparr>is_discovery_started := True\<rparr>
           in if \<not> created then (False, StopDiscovery m) else (True, m))"

definition Manager_Shutdown :: "'a manager_scheme \<Rightarrow> 'a manager_scheme" where
  "Manager_Shutdown m = (if is_shutdown m then m else StopDiscovery (m\<lparr>is_shutdown := True\<rparr>))"

definition Manager_Convert :: "u64 \<Rightarrow> role_attributes \<Rightarrow> role_type \<Rightarrow> operate_type \<Rightarrow> 'a manager_scheme \<Rightarrow> change_msg" where
  "Manager_Convert now attr role opt m =
     (let a1 = (if attr_host_name attr = None then attr\<lparr>attr_host_name := Some (mgr_host_name m)\<rparr> else attr);
          a2 = (if attr_process_id a1 = None then a1\<lparr>attr_process_id := Some (mgr_process_id m)\<rparr> else a1)
      in \<lparr>msg_timestamp = now, msg_change_type = mgr_change_type m, msg_operate_type = opt,
          msg_role_type = role, msg_role_attr = a2\<rparr>)"

definition Manager_Notify :: "change_msg \<Rightarrow> 'a manager_scheme \<Rightarrow> 'a manager_scheme" where
  "Manager_Notify msg m = m\<lparr>mgr_notified := mgr_notified m @ [msg]\<rparr>"

definition Manager_Publish :: "(change_msg \<Rightarrow> bool) \<Rightarrow> change_msg \<Rightarrow> 'a manager_scheme \<Rightarrow> bool \<times> 'a manager_scheme" where
  "Manager_Publish write msg m =
     (if \<not> is_discovery_started m then (False, m)
      else if write msg then (True, m\<lparr>mgr_published := mgr_published m @ [msg]\<rparr>) else (False, m))"

definition NeedPublish :: "change_msg \<Rightarrow> bool" where "NeedPublish msg = True"

definition role_allowed :: "role_type \<Rightarrow> 'a manager_scheme \<Rightarrow> bool" where
  "role_allowed role m \<longleftrightarrow> push_bit (role_number role) 1 AND allowed_role m \<noteq> 0"

definition Manager_Join ::
  "(role_attributes \<Rightarrow> bool) \<Rightarrow> (change_msg \<Rightarrow> 'a manager_scheme \<Rightarrow> 'a manager_scheme) \<Rightarrow> (change_msg \<Rightarrow> bool) \<Rightarrow> u64 \<Rightarrow>
   role_attributes \<Rightarrow> role_type \<Rightarrow> bool \<Rightarrow> 'a manager_scheme \<Rightarrow> bool \<times> 'a manager_scheme" where
  "Manager_Join check dispose write now attr role need_publish m =
     (if is_shutdown m then (False, m)
      else if \<not> role_allowed role m then (False, m)
      else if \<not> check attr then (False, m)
      else let msg = Manager_Convert now attr role OPT_JOIN m;
               m = dispose msg m
           in if need_publish then Manager_Publish write msg m else (True, m))"

definition Manager_Leave ::
  "(role_attributes \<Rightarrow> bool) \<Rightarrow> (change_msg \<Rightarrow> 'a manager_scheme \<Rightarrow> 'a manager_scheme) \<Rightarrow> (change_msg \<Rightarrow> bool) \<Rightarrow> u64 \<Rightarrow>
   role_attributes \<Rightarrow> role_type \<Rightarrow> 'a manager_scheme \<Rightarrow> bool \<times> 'a manager_scheme" where
  "Manager_Leave check dispose write now attr role m =
     (if is_shutdown m then (False, m)
      else if \<not> role_allowed role m then (False, m)
      else if \<not> check attr then (False, m)
      else let msg = Manager_Convert now attr role OPT_LEAVE m;
               m = dispose msg m
           in if NeedPublish msg then Manager_Publish write msg m else (True, m))"

definition IsFromSameProcess :: "change_msg \<Rightarrow> 'a manager_scheme \<Rightarrow> bool" where
  "IsFromSameProcess msg m =
     (if field 0 (attr_process_id (msg_role_attr msg)) \<noteq> mgr_process_id m
        \<or> field [] (attr_host_name (msg_role_attr msg)) \<noteq> mgr_host_name m then False else True)"

text \<open>\<open>parse\<close> is protobuf's parser, applied to the bytes of a remote change.\<close>

definition OnRemoteChange ::
  "(string \<Rightarrow> change_msg option) \<Rightarrow> (role_attributes \<Rightarrow> bool) \<Rightarrow> (change_msg \<Rightarrow> 'a manager_scheme \<Rightarrow> 'a manager_scheme) \<Rightarrow>
   string \<Rightarrow> 'a manager_scheme \<Rightarrow> 'a manager_scheme" where
  "OnRemoteChange parse check dispose msg_str m =
     (if is_shutdown m then m
      else case parse msg_str of
             None \<Rightarrow> m
           | Some msg \<Rightarrow>
               if IsFromSameProcess msg m then m
               else if \<not> check (msg_role_attr msg) then m
               else dispose msg m)"

section \<open>Nodes\<close>

record node_manager = manager +
  nm_nodes :: role_map
  nm_async_shutdown :: bool

definition NodeManager :: "string \<Rightarrow> int \<Rightarrow> node_manager" where
  "NodeManager h p = \<lparr>is_shutdown = False, is_discovery_started = False,
     allowed_role = 0 OR push_bit (role_number ROLE_NODE) 1, mgr_change_type = CHANGE_NODE,
     mgr_host_name = h, mgr_process_id = p, mgr_notified = [], mgr_published = [],
     nm_nodes = [], nm_async_shutdown = False\<rparr>"

definition HasNode :: "(string \<Rightarrow> u64) \<Rightarrow> string \<Rightarrow> node_manager \<Rightarrow> bool" where
  "HasNode node_id name m \<longleftrightarrow> sv_Search (node_id name) (nm_nodes m) \<noteq> None"

definition GetNodes :: "role_attributes list \<Rightarrow> node_manager \<Rightarrow> role_attributes list" where
  "GetNodes out m = sv_GetAllAttrs out (nm_nodes m)"

definition node_Check :: "role_attributes \<Rightarrow> bool" where
  "node_Check attr = (if attr_node_name attr = None then False else if attr_node_id attr = None then False else True)"

definition node_DisposeJoin :: "change_msg \<Rightarrow> node_manager \<Rightarrow> node_manager" where
  "node_DisposeJoin msg m =
     (let node = make_role RoleNode (msg_role_attr msg) (msg_timestamp msg);
          key = field 0 (attr_node_id (role_attr node))
      in case sv_Add key node False (nm_nodes m) of
           (True, nodes) \<Rightarrow> m\<lparr>nm_nodes := nodes\<rparr>
         | (False, _) \<Rightarrow>
             (case sv_Search key (nm_nodes m) of
                None \<Rightarrow> m\<lparr>nm_nodes := snd (sv_Add key node True (nm_nodes m))\<rparr>
              | Some existing \<Rightarrow>
                  let (newer, m) = (if IsEarlierThan node existing
                                    then (existing, m\<lparr>nm_nodes := snd (sv_Add key node True (nm_nodes m))\<rparr>)
                                    else (node, m))
                  in if field 0 (attr_process_id (role_attr newer)) = mgr_process_id m
                        \<and> field [] (attr_host_name (role_attr newer)) = mgr_host_name m
                     then m\<lparr>nm_async_shutdown := True\<rparr> else m))"

definition node_DisposeLeave :: "change_msg \<Rightarrow> node_manager \<Rightarrow> node_manager" where
  "node_DisposeLeave msg m = m\<lparr>nm_nodes := sv_Remove_key (field 0 (attr_node_id (msg_role_attr msg))) (nm_nodes m)\<rparr>"

definition node_Dispose :: "change_msg \<Rightarrow> node_manager \<Rightarrow> node_manager" where
  "node_Dispose msg m = Manager_Notify msg
     (if msg_operate_type msg = OPT_JOIN then node_DisposeJoin msg m else node_DisposeLeave msg m)"

definition node_OnTopoModuleLeave :: "u64 \<Rightarrow> string \<Rightarrow> int \<Rightarrow> node_manager \<Rightarrow> node_manager" where
  "node_OnTopoModuleLeave now h p m =
     (if \<not> is_discovery_started m then m
      else let to_remove = snd (sv_Find_roles (process_attr h p) [] (nm_nodes m));
               m = m\<lparr>nm_nodes := fold (\<lambda>node. sv_Remove_key (field 0 (attr_node_id (role_attr node)))) to_remove (nm_nodes m)\<rparr>
           in fold (\<lambda>node m. Manager_Notify (Manager_Convert now (role_attr node) ROLE_NODE OPT_LEAVE m) m) to_remove m)"

section \<open>Services\<close>

record service_manager = manager +
  sm_servers :: role_map
  sm_clients :: role_map

definition ServiceManager :: "string \<Rightarrow> int \<Rightarrow> service_manager" where
  "ServiceManager h p = \<lparr>is_shutdown = False, is_discovery_started = False,
     allowed_role = 0 OR push_bit (role_number ROLE_SERVER) 1 OR push_bit (role_number ROLE_CLIENT) 1,
     mgr_change_type = CHANGE_SERVICE, mgr_host_name = h, mgr_process_id = p, mgr_notified = [], mgr_published = [],
     sm_servers = [], sm_clients = []\<rparr>"

text \<open>\<open>hash\<close> is \<^verbatim>\<open>common::Hash\<close>.\<close>

definition HasService :: "(string \<Rightarrow> u64) \<Rightarrow> string \<Rightarrow> service_manager \<Rightarrow> bool" where
  "HasService hash name m \<longleftrightarrow> sv_Search (hash name) (sm_servers m) \<noteq> None"

definition GetServers :: "role_attributes list \<Rightarrow> service_manager \<Rightarrow> role_attributes list" where
  "GetServers out m = sv_GetAllAttrs out (sm_servers m)"

definition GetClients :: "(string \<Rightarrow> u64) \<Rightarrow> string \<Rightarrow> role_attributes list \<Rightarrow> service_manager \<Rightarrow> role_attributes list" where
  "GetClients hash name out m = snd (mv_Search_attrs (hash name) out (sm_clients m))"

definition service_Check :: "role_attributes \<Rightarrow> bool" where
  "service_Check attr = (if attr_service_name attr = None then False else if attr_service_id attr = None then False else True)"

definition service_key :: "role \<Rightarrow> u64" where
  "service_key r = field 0 (attr_service_id (role_attr r))"

definition service_DisposeJoin :: "change_msg \<Rightarrow> service_manager \<Rightarrow> service_manager" where
  "service_DisposeJoin msg m =
     (let r = make_role RoleServer (msg_role_attr msg) 0
      in if msg_role_type msg = ROLE_SERVER then m\<lparr>sm_servers := snd (sv_Add (service_key r) r True (sm_servers m))\<rparr>
         else m\<lparr>sm_clients := snd (mv_Add (service_key r) r True (sm_clients m))\<rparr>)"

definition service_DisposeLeave :: "change_msg \<Rightarrow> service_manager \<Rightarrow> service_manager" where
  "service_DisposeLeave msg m =
     (let r = make_role RoleServer (msg_role_attr msg) 0
      in if msg_role_type msg = ROLE_SERVER then m\<lparr>sm_servers := sv_Remove_key (service_key r) (sm_servers m)\<rparr>
         else m\<lparr>sm_clients := mv_Remove_role (service_key r) r (sm_clients m)\<rparr>)"

definition service_Dispose :: "change_msg \<Rightarrow> service_manager \<Rightarrow> service_manager" where
  "service_Dispose msg m = Manager_Notify msg
     (if msg_operate_type msg = OPT_JOIN then service_DisposeJoin msg m else service_DisposeLeave msg m)"

definition service_OnTopoModuleLeave :: "u64 \<Rightarrow> string \<Rightarrow> int \<Rightarrow> service_manager \<Rightarrow> service_manager" where
  "service_OnTopoModuleLeave now h p m =
     (if \<not> is_discovery_started m then m
      else let servers = snd (sv_Find_roles (process_attr h p) [] (sm_servers m));
               m = m\<lparr>sm_servers := fold (\<lambda>s. sv_Remove_key (service_key s)) servers (sm_servers m)\<rparr>;
               clients = snd (mv_Find_roles (process_attr h p) [] (sm_clients m));
               m = m\<lparr>sm_clients := fold (\<lambda>c. mv_Remove_role (service_key c) c) clients (sm_clients m)\<rparr>;
               m = fold (\<lambda>s m. Manager_Notify (Manager_Convert now (role_attr s) ROLE_SERVER OPT_LEAVE m) m) servers m
           in fold (\<lambda>c m. Manager_Notify (Manager_Convert now (role_attr c) ROLE_CLIENT OPT_LEAVE m) m) clients m)"

end
