(* ===== verification/Channel_Manager.thy ===== *)
theory Channel_Manager
  imports Discovery_Managers
begin

text \<open>
  \<^verbatim>\<open>cyber/service_discovery/specific_manager/channel_manager.cc\<close>: writers and readers, each kept twice,
  by node and by channel, and the graph of the flows between nodes.  \<open>channel_id\<close> and \<open>node_id\<close> stand
  for \<^verbatim>\<open>GlobalData::RegisterChannel\<close> and \<^verbatim>\<open>RegisterNode\<close> (theory \<open>Name_Registry\<close>).
\<close>

section \<open>State and operations\<close>

record channel_manager = manager +
  node_writers :: role_map
  node_readers :: role_map
  channel_writers :: role_map
  channel_readers :: role_map
  node_graph :: graph
  exempted_msg_types :: "string list"
  registered_descs :: "string list"

definition ChannelManager :: "string \<Rightarrow> string \<Rightarrow> string \<Rightarrow> int \<Rightarrow> channel_manager" where
  "ChannelManager raw_type py_type h p = \<lparr>is_shutdown = False, is_discovery_started = False,
     allowed_role = 0 OR push_bit (role_number ROLE_WRITER) 1 OR push_bit (role_number ROLE_READER) 1,
     mgr_change_type = CHANGE_CHANNEL, mgr_host_name = h, mgr_process_id = p, mgr_notified = [], mgr_published = [],
     node_writers = [], node_readers = [], channel_writers = [], channel_readers = [], node_graph = Graph,
     exempted_msg_types = [raw_type, py_type], registered_descs = []\<rparr>"

definition GetChannelNames :: "string list \<Rightarrow> channel_manager \<Rightarrow> string list" where
  "GetChannelNames out m =
     (let roles = mv_GetAllRoles (mv_GetAllRoles [] (channel_writers m)) (channel_readers m)
      in out @ remdups (map (\<lambda>r. field [] (attr_channel_name (role_attr r))) roles))"

definition GetProtoDesc :: "(string \<Rightarrow> u64) \<Rightarrow> string \<Rightarrow> string \<Rightarrow> channel_manager \<Rightarrow> string" where
  "GetProtoDesc channel_id name out m =
     (case mv_Search (channel_id name) (channel_writers m) of
        None \<Rightarrow> out
      | Some w \<Rightarrow> (case attr_proto_desc (role_attr w) of Some d \<Rightarrow> d | None \<Rightarrow> out))"

definition GetMsgType :: "(string \<Rightarrow> u64) \<Rightarrow> string \<Rightarrow> string \<Rightarrow> channel_manager \<Rightarrow> string" where
  "GetMsgType channel_id name out m =
     (case mv_Search (channel_id name) (channel_writers m) of
        None \<Rightarrow> out
      | Some w \<Rightarrow> (case attr_message_type (role_attr w) of Some d \<Rightarrow> d | None \<Rightarrow> out))"

definition HasWriter :: "(string \<Rightarrow> u64) \<Rightarrow> string \<Rightarrow> channel_manager \<Rightarrow> bool" where
  "HasWriter channel_id name m \<longleftrightarrow> mv_Search (channel_id name) (channel_writers m) \<noteq> None"

definition GetWriters :: "role_attributes list \<Rightarrow> channel_manager \<Rightarrow> role_attributes list" where
  "GetWriters out m = mv_GetAllAttrs out (channel_writers m)"

definition GetWritersOfNode :: "(string \<Rightarrow> u64) \<Rightarrow> string \<Rightarrow> role_attributes list \<Rightarrow> channel_manager \<Rightarrow> role_attributes list" where
  "GetWritersOfNode node_id name out m = snd (mv_Search_attrs (node_id name) out (node_writers m))"

definition GetWritersOfChannel :: "(string \<Rightarrow> u64) \<Rightarrow> string \<Rightarrow> role_attributes list \<Rightarrow> channel_manager \<Rightarrow> role_attributes list" where
  "GetWritersOfChannel channel_id name out m = snd (mv_Search_attrs (channel_id name) out (channel_writers m))"

definition HasReader :: "(string \<Rightarrow> u64) \<Rightarrow> string \<Rightarrow> channel_manager \<Rightarrow> bool" where
  "HasReader channel_id name m \<longleftrightarrow> mv_Search (channel_id name) (channel_readers m) \<noteq> None"

definition GetReaders :: "role_attributes list \<Rightarrow> channel_manager \<Rightarrow> role_attributes list" where
  "GetReaders out m = mv_GetAllAttrs out (channel_readers m)"

definition GetReadersOfNode :: "(string \<Rightarrow> u64) \<Rightarrow> string \<Rightarrow> role_attributes list \<Rightarrow> channel_manager \<Rightarrow> role_attributes list" where
  "GetReadersOfNode node_id name out m = snd (mv_Search_attrs (node_id name) out (node_readers m))"

definition GetReadersOfChannel :: "(string \<Rightarrow> u64) \<Rightarrow> string \<Rightarrow> role_attributes list \<Rightarrow> channel_manager \<Rightarrow> role_attributes list" where
  "GetReadersOfChannel channel_id name out m = snd (mv_Search_attrs (channel_id name) out (channel_readers m))"

text \<open>The nodes of a list of endpoints, one entry per node name, the last one seen.\<close>

definition node_attr :: "role_attributes \<Rightarrow> role_attributes" where
  "node_attr w = no_attributes\<lparr>attr_host_name := Some (field [] (attr_host_name w)),
     attr_process_id := Some (field 0 (attr_process_id w)), attr_node_name := Some (field [] (attr_node_name w)),
     attr_node_id := Some (field 0 (attr_node_id w))\<rparr>"

definition nodes_of :: "role_attributes list \<Rightarrow> role_attributes list" where
  "nodes_of ws = map snd (fold (\<lambda>w. AList.update (field [] (attr_node_name w)) (node_attr w)) ws [])"

definition GetUpstreamOfNode ::
  "(string \<Rightarrow> u64) \<Rightarrow> (string \<Rightarrow> u64) \<Rightarrow> string \<Rightarrow> role_attributes list \<Rightarrow> channel_manager \<Rightarrow> role_attributes list" where
  "GetUpstreamOfNode node_id channel_id name out m =
     (let readers = GetReadersOfNode node_id name [] m
      in if readers = [] then out
         else let channels = remdups (map (\<lambda>r. field [] (attr_channel_name r)) readers);
                  writers = fold (\<lambda>c ws. GetWritersOfChannel channel_id c ws m) channels []
              in out @ nodes_of writers)"

definition GetDownstreamOfNode ::
  "(string \<Rightarrow> u64) \<Rightarrow> (string \<Rightarrow> u64) \<Rightarrow> string \<Rightarrow> role_attributes list \<Rightarrow> channel_manager \<Rightarrow> role_attributes list" where
  "GetDownstreamOfNode node_id channel_id name out m =
     (let writers = GetWritersOfNode node_id name [] m
      in if writers = [] then out
         else let channels = remdups (map (\<lambda>r. field [] (attr_channel_name r)) writers);
                  readers = fold (\<lambda>c rs. GetReadersOfChannel channel_id c rs m) channels []
              in out @ nodes_of readers)"

definition GetFlowDirection :: "string \<Rightarrow> string \<Rightarrow> channel_manager \<Rightarrow> flow_direction" where
  "GetFlowDirection lhs rhs m = GetDirectionOf (node_graph m) lhs rhs"

definition IsMessageTypeMatching :: "string \<Rightarrow> string \<Rightarrow> channel_manager \<Rightarrow> bool" where
  "IsMessageTypeMatching lhs rhs m =
     (if lhs = rhs then True else if lhs \<in> set (exempted_msg_types m) then True
      else if rhs \<in> set (exempted_msg_types m) then True else False)"

text \<open>\<^verbatim>\<open>ScanMessageType\<close> only logs: the result is the endpoints it complains about.\<close>

definition ScanMessageType :: "change_msg \<Rightarrow> channel_manager \<Rightarrow> role_attributes list" where
  "ScanMessageType msg m =
     (let key = field 0 (attr_channel_id (msg_role_attr msg));
          t = field [] (attr_message_type (msg_role_attr msg));
          bad = filter (\<lambda>a. \<not> IsMessageTypeMatching t (field [] (attr_message_type a)) m)
      in bad (snd (mv_Search_attrs key [] (channel_writers m))) @ bad (snd (mv_Search_attrs key [] (channel_readers m))))"

definition channel_Check :: "role_attributes \<Rightarrow> bool" where
  "channel_Check attr = (if attr_channel_name attr = None then False else if attr_channel_id attr = None then False
     else if attr_id attr = None then False else True)"

definition node_key :: "role \<Rightarrow> u64" where
  "node_key r = field 0 (attr_node_id (role_attr r))"

definition channel_key :: "role \<Rightarrow> u64" where
  "channel_key r = field 0 (attr_channel_id (role_attr r))"

definition writer_edge :: "role_attributes \<Rightarrow> edge" where
  "writer_edge a = \<lparr>edge_src = field [] (attr_node_name a), edge_dst = [], edge_value = field [] (attr_channel_name a)\<rparr>"

definition reader_edge :: "role_attributes \<Rightarrow> edge" where
  "reader_edge a = \<lparr>edge_src = [], edge_dst = field [] (attr_node_name a), edge_value = field [] (attr_channel_name a)\<rparr>"

definition channel_DisposeJoin :: "change_msg \<Rightarrow> channel_manager \<Rightarrow> channel_manager" where
  "channel_DisposeJoin msg m =
     (let a = msg_role_attr msg; r = make_role RoleWriter a (msg_timestamp msg)
      in if msg_role_type msg = ROLE_WRITER then
           m\<lparr>registered_descs := (case attr_proto_desc a of Some d \<Rightarrow> if d \<noteq> [] then registered_descs m @ [d] else registered_descs m
                                  | None \<Rightarrow> registered_descs m),
             node_writers := snd (mv_Add (node_key r) r True (node_writers m)),
             channel_writers := snd (mv_Add (channel_key r) r True (channel_writers m)),
             node_graph := graph_Insert (writer_edge a) (node_graph m)\<rparr>
         else
           m\<lparr>node_readers := snd (mv_Add (node_key r) r True (node_readers m)),
             channel_readers := snd (mv_Add (channel_key r) r True (channel_readers m)),
             node_graph := graph_Insert (reader_edge a) (node_graph m)\<rparr>)"

definition channel_DisposeLeave :: "change_msg \<Rightarrow> channel_manager \<Rightarrow> channel_manager" where
  "channel_DisposeLeave msg m =
     (let a = msg_role_attr msg; r = make_role RoleWriter a 0
      in if msg_role_type msg = ROLE_WRITER then
           m\<lparr>node_writers := mv_Remove_role (node_key r) r (node_writers m),
             channel_writers := mv_Remove_role (channel_key r) r (channel_writers m),
             node_graph := graph_Delete (writer_edge a) (node_graph m)\<rparr>
         else
           m\<lparr>node_readers := mv_Remove_role (node_key r) r (node_readers m),
             channel_readers := mv_Remove_role (channel_key r) r (channel_readers m),
             node_graph := graph_Delete (reader_edge a) (node_graph m)\<rparr>)"

definition channel_Dispose :: "change_msg \<Rightarrow> channel_manager \<Rightarrow> channel_manager" where
  "channel_Dispose msg m = Manager_Notify msg
     (if msg_operate_type msg = OPT_JOIN then channel_DisposeJoin msg m else channel_DisposeLeave msg m)"

text \<open>The leave messages that the loss of a process produces, one after the other.\<close>

definition leave_each :: "u64 \<Rightarrow> role_type \<Rightarrow> role list \<Rightarrow> channel_manager \<Rightarrow> channel_manager" where
  "leave_each now t rs m = fold (\<lambda>r m. let msg = Manager_Convert now (role_attr r) t OPT_LEAVE m
     in Manager_Notify msg (channel_DisposeLeave msg m)) rs m"

definition channel_OnTopoModuleLeave :: "u64 \<Rightarrow> string \<Rightarrow> int \<Rightarrow> channel_manager \<Rightarrow> channel_manager" where
  "channel_OnTopoModuleLeave now h p m =
     (if \<not> is_discovery_started m then m
      else let writers = snd (mv_Find_roles (process_attr h p) [] (channel_writers m));
               readers = snd (mv_Find_roles (process_attr h p) [] (channel_readers m))
           in leave_each now ROLE_READER readers (leave_each now ROLE_WRITER writers m))"

section \<open>The four warehouses hold the writers and the readers\<close>

text \<open>An endpoint whose identifying attributes are all set, as \<^verbatim>\<open>Reader\<close> and \<^verbatim>\<open>Writer\<close> fill them in.\<close>

definition complete :: "role_attributes \<Rightarrow> bool" where
  "complete a \<longleftrightarrow> attr_channel_name a \<noteq> None \<and> attr_channel_id a \<noteq> None \<and> attr_id a \<noteq> None
     \<and> attr_node_id a \<noteq> None \<and> located a"

definition endpoint :: "role \<Rightarrow> bool" where
  "endpoint r \<longleftrightarrow> role_class r = RoleWriter \<and> complete (role_attr r)"

definition stores :: "(role \<Rightarrow> u64) \<Rightarrow> role_map \<Rightarrow> role set \<Rightarrow> bool" where
  "stores key w W \<longleftrightarrow> set w = (\<lambda>r. (key r, r)) ` W"

definition holds_roles :: "channel_manager \<Rightarrow> role set \<Rightarrow> role set \<Rightarrow> bool" where
  "holds_roles m W R \<longleftrightarrow>
     stores node_key (node_writers m) W \<and> stores channel_key (channel_writers m) W \<and>
     stores node_key (node_readers m) R \<and> stores channel_key (channel_readers m) R \<and> (\<forall>r\<in>W \<union> R. endpoint r)"

text \<open>Two descriptions of the same endpoint agree in the five identifying attributes.\<close>

definition same_endpoint :: "role_attributes \<Rightarrow> role_attributes \<Rightarrow> bool" where
  "same_endpoint a b \<longleftrightarrow> attr_channel_id a = attr_channel_id b \<and> attr_id a = attr_id b \<and> attr_node_id a = attr_node_id b
     \<and> attr_process_id a = attr_process_id b \<and> attr_host_name a = attr_host_name b"

lemma role_Match_complete:
  assumes "endpoint r" "complete a"
  shows "role_Match r a \<longleftrightarrow> same_endpoint (role_attr r) a"
  using assms
  by (auto simp: endpoint_def complete_def located_def role_Match_def RoleWriter_Match_def RoleBase_Match_def
      same_endpoint_def field_def)

lemma stores_Add: "stores key w W \<Longrightarrow> stores key (snd (mv_Add (key r) r True w)) (insert r W)"
  by (auto simp: stores_def mv_Add_def)

lemma stores_Remove:
  assumes "stores key w W" "\<forall>r\<in>W. endpoint r" "complete (role_attr x)"
    and "\<And>r. r \<in> W \<Longrightarrow> same_endpoint (role_attr r) (role_attr x) \<Longrightarrow> key r = key x"
  shows "stores key (mv_Remove_role (key x) x w) {r \<in> W. \<not> same_endpoint (role_attr r) (role_attr x)}"
proof -
  have "(k, r) \<in> set (mv_Remove_role (key x) x w) \<longleftrightarrow> k = key r \<and> r \<in> W \<and> \<not> same_endpoint (role_attr r) (role_attr x)" for k r
  proof (cases "r \<in> W \<and> k = key r")
    case True
    then have "role_Match r (role_attr x) \<longleftrightarrow> same_endpoint (role_attr r) (role_attr x)"
      using assms(2,3) role_Match_complete by blast
    then show ?thesis using True assms(1,4) by (auto simp: mv_Remove_role_def stores_def)
  next
    case False
    then show ?thesis using assms(1) by (auto simp: mv_Remove_role_def stores_def)
  qed
  then show ?thesis unfolding stores_def by (intro set_eqI) (auto simp: image_iff)
qed

lemma same_keys:
  "same_endpoint (role_attr r) (role_attr x) \<Longrightarrow> node_key r = node_key x \<and> channel_key r = channel_key x"
  by (simp add: same_endpoint_def node_key_def channel_key_def)

lemma holds_Join:
  assumes h: "holds_roles m W R" and c: "complete (msg_role_attr msg)"
  defines "r \<equiv> make_role RoleWriter (msg_role_attr msg) (msg_timestamp msg)"
  shows "holds_roles (channel_DisposeJoin msg m)
    (if msg_role_type msg = ROLE_WRITER then insert r W else W)
    (if msg_role_type msg = ROLE_WRITER then R else insert r R)"
proof -
  have "endpoint r" using c by (simp add: r_def endpoint_def make_role_def)
  then show ?thesis
    using h stores_Add [of node_key _ _ r] stores_Add [of channel_key _ _ r]
    by (auto simp: holds_roles_def channel_DisposeJoin_def Let_def r_def)
qed

lemma holds_Leave:
  assumes h: "holds_roles m W R" and c: "complete (msg_role_attr msg)"
  shows "holds_roles (channel_DisposeLeave msg m)
    (if msg_role_type msg = ROLE_WRITER then {r \<in> W. \<not> same_endpoint (role_attr r) (msg_role_attr msg)} else W)
    (if msg_role_type msg = ROLE_WRITER then R else {r \<in> R. \<not> same_endpoint (role_attr r) (msg_role_attr msg)})"
proof -
  define x where "x = make_role RoleWriter (msg_role_attr msg) 0"
  have x: "role_attr x = msg_role_attr msg" "complete (role_attr x)" using c by (simp_all add: x_def make_role_def)
  have rem: "stores key w A \<Longrightarrow> \<forall>r\<in>A. endpoint r \<Longrightarrow> key = node_key \<or> key = channel_key \<Longrightarrow>
      stores key (mv_Remove_role (key x) x w) {r \<in> A. \<not> same_endpoint (role_attr r) (msg_role_attr msg)}" for key w A
    using stores_Remove [of key w A x] x same_keys by auto
  show ?thesis
    using h rem [of node_key] rem [of channel_key]
    by (auto simp: holds_roles_def channel_DisposeLeave_def Let_def x_def)
qed

lemma holds_Notify [simp]: "holds_roles (Manager_Notify msg m) W R \<longleftrightarrow> holds_roles m W R"
  by (simp add: holds_roles_def Manager_Notify_def)

lemma Convert_located: "located a \<Longrightarrow> msg_role_attr (Manager_Convert now a t opt m) = a"
  by (auto simp: Manager_Convert_def located_def Let_def)

lemma Convert_role_type [simp]: "msg_role_type (Manager_Convert now a t opt m) = t"
  by (simp add: Manager_Convert_def Let_def)

lemma holds_leave_each:
  "holds_roles m W R \<Longrightarrow> \<forall>r\<in>set rs. endpoint r \<Longrightarrow> t = ROLE_WRITER \<or> t = ROLE_READER \<Longrightarrow>
   holds_roles (leave_each now t rs m)
     (if t = ROLE_WRITER then {r \<in> W. \<forall>x\<in>set rs. \<not> same_endpoint (role_attr r) (role_attr x)} else W)
     (if t = ROLE_WRITER then R else {r \<in> R. \<forall>x\<in>set rs. \<not> same_endpoint (role_attr r) (role_attr x)})"
proof (induction rs arbitrary: m W R)
  case (Cons x rs)
  let ?msg = "Manager_Convert now (role_attr x) t OPT_LEAVE m"
  have c: "complete (role_attr x)" using Cons.prems(2) by (simp add: endpoint_def)
  then have a: "msg_role_attr ?msg = role_attr x" by (simp add: Convert_located complete_def)
  have "holds_roles (Manager_Notify ?msg (channel_DisposeLeave ?msg m))
      (if t = ROLE_WRITER then {r \<in> W. \<not> same_endpoint (role_attr r) (role_attr x)} else W)
      (if t = ROLE_WRITER then R else {r \<in> R. \<not> same_endpoint (role_attr r) (role_attr x)})"
    unfolding holds_Notify by (rule holds_Leave [OF Cons.prems(1), of ?msg, unfolded a Convert_role_type, OF c])
  from Cons.IH [OF this] Cons.prems(2,3) show ?case by (auto simp: leave_each_def Let_def conj_commute)
qed (auto simp: leave_each_def)

lemma found_of_process:
  assumes "stores key w W" "\<forall>r\<in>W. endpoint r"
  shows "set (snd (mv_Find_roles (process_attr h p) [] w)) = {r \<in> W. of_process h p r}"
proof -
  have "{r. role_Match r (process_attr h p) \<and> (\<exists>k. (k, r) \<in> set w)} = {r \<in> W. of_process h p r}"
    using assms role_Match_process [of _ h p] by (auto simp: stores_def endpoint_def complete_def)
  then show ?thesis using multi_value.find_roles [of "process_attr h p" "[]" w] by auto
qed

lemma same_endpoint_process:
  "same_endpoint (role_attr r) (role_attr x) \<Longrightarrow> of_process h p x \<Longrightarrow> of_process h p r"
  by (simp add: same_endpoint_def of_process_def)

lemma survivors_of_process:
  "{r \<in> W. \<forall>x. x \<in> W \<and> of_process h p x \<longrightarrow> \<not> same_endpoint (role_attr r) (role_attr x)} = {r \<in> W. \<not> of_process h p r}"
  using same_endpoint_process by (auto simp: same_endpoint_def)

lemma holds_process_leave:
  assumes h: "holds_roles m W R" and d: "is_discovery_started m"
  shows "holds_roles (channel_OnTopoModuleLeave now host pid m) {r \<in> W. \<not> of_process host pid r} {r \<in> R. \<not> of_process host pid r}"
proof -
  let ?ws = "snd (mv_Find_roles (process_attr host pid) [] (channel_writers m))"
  let ?rs = "snd (mv_Find_roles (process_attr host pid) [] (channel_readers m))"
  have st: "stores channel_key (channel_writers m) W" "stores channel_key (channel_readers m) R"
    "\<forall>r\<in>W. endpoint r" "\<forall>r\<in>R. endpoint r" using h by (auto simp: holds_roles_def)
  note ws = found_of_process [OF st(1,3), of host pid] and rs = found_of_process [OF st(2,4), of host pid]
  have "holds_roles (leave_each now ROLE_WRITER ?ws m) {r \<in> W. \<not> of_process host pid r} R"
    using holds_leave_each [OF h, of ?ws ROLE_WRITER now] ws st(3) by (simp add: survivors_of_process)
  from holds_leave_each [OF this, of ?rs ROLE_READER now]
  have "holds_roles (leave_each now ROLE_READER ?rs (leave_each now ROLE_WRITER ?ws m))
      {r \<in> W. \<not> of_process host pid r} {r \<in> R. \<not> of_process host pid r}"
    using rs st(4) by (simp add: survivors_of_process)
  then show ?thesis using d by (simp add: channel_OnTopoModuleLeave_def Let_def)
qed

lemma discovery_started_kept [simp]:
  "is_discovery_started (Manager_Notify msg m) = is_discovery_started m"
  "is_discovery_started (channel_DisposeLeave msg m) = is_discovery_started m"
  "is_discovery_started (channel_DisposeJoin msg m) = is_discovery_started m"
  by (simp_all add: Manager_Notify_def channel_DisposeLeave_def channel_DisposeJoin_def Let_def)

lemma discovery_started_process_leave [simp]:
  "is_discovery_started (channel_OnTopoModuleLeave now h p m) = is_discovery_started m"
proof -
  have "is_discovery_started (leave_each now t rs m) = is_discovery_started m" for t rs m
    by (induction rs arbitrary: m) (simp_all add: leave_each_def Let_def)
  then show ?thesis by (simp add: channel_OnTopoModuleLeave_def Let_def)
qed

section \<open>Properties\<close>

datatype discovery_event = Change change_msg | ProcessLeft string int

fun channel_run :: "u64 \<Rightarrow> discovery_event list \<Rightarrow> channel_manager \<Rightarrow> channel_manager" where
  "channel_run now [] m = m"
| "channel_run now (Change msg # es) m = channel_run now es (channel_Dispose msg m)"
| "channel_run now (ProcessLeft h p # es) m = channel_run now es (channel_OnTopoModuleLeave now h p m)"

text \<open>The same events on the plain sets of writers and readers.\<close>

fun endpoints :: "discovery_event list \<Rightarrow> role set \<times> role set \<Rightarrow> role set \<times> role set" where
  "endpoints [] WR = WR"
| "endpoints (Change msg # es) (W, R) = endpoints es
     (let r = make_role RoleWriter (msg_role_attr msg) (msg_timestamp msg);
          gone = (\<lambda>A. {r \<in> A. \<not> same_endpoint (role_attr r) (msg_role_attr msg)})
      in if msg_operate_type msg = OPT_JOIN
         then if msg_role_type msg = ROLE_WRITER then (insert r W, R) else (W, insert r R)
         else if msg_role_type msg = ROLE_WRITER then (gone W, R) else (W, gone R))"
| "endpoints (ProcessLeft h p # es) (W, R) = endpoints es ({r \<in> W. \<not> of_process h p r}, {r \<in> R. \<not> of_process h p r})"

definition complete_event :: "discovery_event \<Rightarrow> bool" where
  "complete_event e \<longleftrightarrow> (case e of Change msg \<Rightarrow> complete (msg_role_attr msg) | ProcessLeft h p \<Rightarrow> True)"

lemma channel_run_holds:
  "holds_roles m W R \<Longrightarrow> is_discovery_started m \<Longrightarrow> list_all complete_event es \<Longrightarrow> endpoints es (W, R) = (W', R') \<Longrightarrow>
   holds_roles (channel_run now es m) W' R'"
proof (induction es arbitrary: m W R)
  case (Cons e es)
  show ?case
  proof (cases e)
    case (Change msg)
    then have c: "complete (msg_role_attr msg)" using Cons.prems(3) by (simp add: complete_event_def)
    note step = Cons.IH [of "channel_Dispose msg m"]
    show ?thesis
    proof (cases "msg_operate_type msg = OPT_JOIN")
      case True
      then show ?thesis using step holds_Join [OF Cons.prems(1) c] Cons.prems(2-4) Change
        by (auto simp: channel_Dispose_def Let_def split: if_splits)
    next
      case False
      then show ?thesis using step holds_Leave [OF Cons.prems(1) c] Cons.prems(2-4) Change
        by (auto simp: channel_Dispose_def Let_def split: if_splits)
    qed
  next
    case (ProcessLeft h p)
    then show ?thesis
      using Cons.IH [OF holds_process_leave [OF Cons.prems(1,2), of now h p]] Cons.prems(2-4) by simp
  qed
qed auto

lemma stores_query:
  assumes "stores key w W"
  shows "set (snd (mv_Search_attrs k [] w)) = role_attr ` {r \<in> W. key r = k}"
    and "mv_Search k w \<noteq> None \<longleftrightarrow> (\<exists>r\<in>W. key r = k)"
proof -
  show "set (snd (mv_Search_attrs k [] w)) = role_attr ` {r \<in> W. key r = k}"
    using assms by (force simp: mv_Search_attrs_def matches_onto_filter stores_def)
  show "mv_Search k w \<noteq> None \<longleftrightarrow> (\<exists>r\<in>W. key r = k)"
    using multi_value.search_iff [of k w] assms by (auto simp: stores_def)
qed

definition started_manager :: "string \<Rightarrow> int \<Rightarrow> channel_manager" where
  "started_manager h p = snd (StartDiscovery True True (ChannelManager ''raw'' ''py'' h p))"

lemma started_manager_holds: "holds_roles (started_manager h p) {} {}" "is_discovery_started (started_manager h p)"
  by (simp_all add: started_manager_def StartDiscovery_def ChannelManager_def holds_roles_def stores_def Let_def)

text \<open>
  Claim C8. After any series of joins, leaves and process losses whose endpoints carry their
  identifying attributes, the channel manager answers every query from the writers and readers that
  joined and have not left since, individually or with their process: the lists by channel and by
  node contain exactly those endpoints, and a channel has a writer or reader exactly when one is left.
\<close>

theorem channel_queries_track_endpoints:
  fixes es now h p
  assumes "list_all complete_event es" and "endpoints es ({}, {}) = (W, R)"
  defines "m \<equiv> channel_run now es (started_manager h p)"
  shows "set (GetWritersOfChannel channel_id c [] m) = role_attr ` {r \<in> W. channel_key r = channel_id c}
    \<and> set (GetWritersOfNode node_id n [] m) = role_attr ` {r \<in> W. node_key r = node_id n}
    \<and> set (GetReadersOfChannel channel_id c [] m) = role_attr ` {r \<in> R. channel_key r = channel_id c}
    \<and> set (GetReadersOfNode node_id n [] m) = role_attr ` {r \<in> R. node_key r = node_id n}
    \<and> (HasWriter channel_id c m \<longleftrightarrow> (\<exists>r\<in>W. channel_key r = channel_id c))
    \<and> (HasReader channel_id c m \<longleftrightarrow> (\<exists>r\<in>R. channel_key r = channel_id c))"
proof -
  have "holds_roles m W R"
    unfolding m_def by (rule channel_run_holds [OF started_manager_holds assms(1,2)])
  then have st: "stores node_key (node_writers m) W" "stores channel_key (channel_writers m) W"
    "stores node_key (node_readers m) R" "stores channel_key (channel_readers m) R" by (auto simp: holds_roles_def)
  note q = stores_query [OF st(1)] stores_query [OF st(2)] stores_query [OF st(3)] stores_query [OF st(4)]
  show ?thesis
    by (simp only: q GetWritersOfChannel_def GetWritersOfNode_def GetReadersOfChannel_def GetReadersOfNode_def
        HasWriter_def HasReader_def)
qed

definition demo_endpoint :: "string \<Rightarrow> u64 \<Rightarrow> string \<Rightarrow> u64 \<Rightarrow> role_attributes" where
  "demo_endpoint node i host pid = no_attributes\<lparr>attr_channel_name := Some ''chan'', attr_channel_id := Some 9,
     attr_id := Some i, attr_node_id := Some 4, attr_node_name := Some node, attr_host_name := Some host,
     attr_process_id := Some (uint pid)\<rparr>"

definition demo_change :: "operate_type \<Rightarrow> role_type \<Rightarrow> role_attributes \<Rightarrow> discovery_event" where
  "demo_change opt t a = Change \<lparr>msg_timestamp = 1, msg_change_type = CHANGE_CHANNEL, msg_operate_type = opt,
     msg_role_type = t, msg_role_attr = a\<rparr>"

theorem channel_queries_track_endpoints_witness:
  "let es = [demo_change OPT_JOIN ROLE_WRITER (demo_endpoint ''n'' 1 ''A'' 7),
             demo_change OPT_JOIN ROLE_WRITER (demo_endpoint ''n'' 2 ''B'' 8), ProcessLeft ''A'' 7]
   in set (GetWritersOfChannel (\<lambda>_. 9) ''chan'' [] (channel_run 5 es (started_manager ''A'' 1)))
      = {demo_endpoint ''n'' 2 ''B'' 8}"
proof -
  let ?es = "[demo_change OPT_JOIN ROLE_WRITER (demo_endpoint ''n'' 1 ''A'' 7),
             demo_change OPT_JOIN ROLE_WRITER (demo_endpoint ''n'' 2 ''B'' 8), ProcessLeft ''A'' 7]"
  let ?r = "make_role RoleWriter (demo_endpoint ''n'' 2 ''B'' 8) 1"
  have c: "list_all complete_event ?es"
    by (simp add: complete_event_def demo_change_def demo_endpoint_def complete_def located_def)
  have e: "endpoints ?es ({}, {}) = ({?r}, {})"
    by (auto simp: demo_change_def demo_endpoint_def of_process_def make_role_def)
  have "{r \<in> {?r}. channel_key r = 9} = {?r}" by (auto simp: channel_key_def make_role_def demo_endpoint_def field_def)
  then have "role_attr ` {r \<in> {?r}. channel_key r = 9} = {demo_endpoint ''n'' 2 ''B'' 8}" by (simp add: make_role_def)
  then show ?thesis
    using channel_queries_track_endpoints [OF c e, where channel_id = "\<lambda>_. 9" and c = "''chan''" and now = 5 and h = "''A''" and p = 1]
    by (simp add: Let_def)
qed

lemma node_graph_Dispose:
  "node_graph (channel_Dispose msg m) =
     (if msg_operate_type msg = OPT_JOIN then graph_Insert else graph_Delete)
       (if msg_role_type msg = ROLE_WRITER then writer_edge (msg_role_attr msg) else reader_edge (msg_role_attr msg)) (node_graph m)"
  by (simp add: channel_Dispose_def Manager_Notify_def channel_DisposeJoin_def channel_DisposeLeave_def Let_def)

text \<open>
  The flow graph does not follow the endpoints: it keeps one mark per node and channel, which
  the first leaving endpoint takes away.  With a node that has two readers of a channel, one of which
  leaves, the manager still lists the other reader but reports the writing node as not connected.
\<close>

lemma flow_lost_with_first_reader:
  "let es = [demo_change OPT_JOIN ROLE_WRITER (demo_endpoint ''w'' 1 ''A'' 7),
             demo_change OPT_JOIN ROLE_READER (demo_endpoint ''r'' 2 ''A'' 7),
             demo_change OPT_JOIN ROLE_READER (demo_endpoint ''r'' 3 ''A'' 7)];
       m = channel_run 5 es (started_manager ''A'' 1);
       m' = channel_run 5 [demo_change OPT_LEAVE ROLE_READER (demo_endpoint ''r'' 3 ''A'' 7)] m
   in GetFlowDirection ''w'' ''r'' m = UPSTREAM \<and> HasReader (\<lambda>_. 9) ''chan'' m' \<and> GetFlowDirection ''w'' ''r'' m' = UNREACHABLE"
proof -
  let ?es = "[demo_change OPT_JOIN ROLE_WRITER (demo_endpoint ''w'' 1 ''A'' 7),
             demo_change OPT_JOIN ROLE_READER (demo_endpoint ''r'' 2 ''A'' 7),
             demo_change OPT_JOIN ROLE_READER (demo_endpoint ''r'' 3 ''A'' 7)]"
  let ?leave = "demo_change OPT_LEAVE ROLE_READER (demo_endpoint ''r'' 3 ''A'' 7)"
  let ?m = "channel_run 5 ?es (started_manager ''A'' 1)"
  let ?m' = "channel_run 5 [?leave] ?m"
  have ends: "writer_edge (demo_endpoint n i h q) = demo_edge n [] ''chan''" "reader_edge (demo_endpoint n i h q) = demo_edge [] n ''chan''" for n i h q
    by (simp_all add: writer_edge_def reader_edge_def demo_endpoint_def field_def demo_edge_def)
  have "node_graph (started_manager ''A'' 1) = Graph"
    by (simp add: started_manager_def StartDiscovery_def ChannelManager_def Let_def)
  then have run: "node_graph ?m = graph_run [InsertEdge (demo_edge ''w'' [] ''chan''), InsertEdge (demo_edge [] ''r'' ''chan''), InsertEdge (demo_edge [] ''r'' ''chan'')] Graph"
    "node_graph ?m' = graph_Delete (demo_edge [] ''r'' ''chan'') (node_graph ?m)"
    by (simp_all add: demo_change_def node_graph_Dispose ends)
  have gm: "node_graph ?m = \<lparr>graph_edges = [(''chan'', \<lparr>rv_src = [(''w'', ''w'')], rv_dst = [(''r'', ''r'')]\<rparr>)],
      graph_list = [(''w'', [(''chan_r'', ''r'')]), (''r'', [])]\<rparr>"
    unfolding run(1) by (simp add: graph_eval)
  then have g: "graph_list (node_graph ?m) = [(''w'', [(''chan_r'', ''r'')]), (''r'', [])]" by simp
  have g': "graph_list (node_graph ?m') = [(''w'', []), (''r'', [])]"
    unfolding run(2) gm by (simp add: graph_eval)
  have "GetFlowDirection ''w'' ''r'' ?m = UPSTREAM"
    using g by (simp add: GetFlowDirection_def GetDirectionOf_def IsDummy_def LevelTraverse_def traverse.simps adjacent_def)
  moreover have "GetFlowDirection ''w'' ''r'' ?m' = UNREACHABLE"
    using g' by (simp add: GetFlowDirection_def GetDirectionOf_def IsDummy_def LevelTraverse_def traverse.simps adjacent_def)
  moreover have "HasReader (\<lambda>_. 9) ''chan'' ?m'"
  proof -
    let ?r = "make_role RoleWriter (demo_endpoint ''r'' 2 ''A'' 7) 1"
    have c: "list_all complete_event (?es @ [?leave])"
      by (simp add: complete_event_def demo_change_def demo_endpoint_def complete_def located_def)
    obtain W R where e: "endpoints (?es @ [?leave]) ({}, {}) = (W, R)" by (cases "endpoints (?es @ [?leave]) ({}, {})")
    then have "?r \<in> R" by (auto simp: demo_change_def demo_endpoint_def make_role_def same_endpoint_def)
    moreover have "channel_key ?r = 9" by (simp add: channel_key_def make_role_def demo_endpoint_def field_def)
    moreover have "channel_run 5 (?es @ [?leave]) (started_manager ''A'' 1) = ?m'" by (simp add: demo_change_def)
    moreover have "holds_roles (channel_run 5 (?es @ [?leave]) (started_manager ''A'' 1)) W R"
      by (rule channel_run_holds [OF started_manager_holds c e])
    ultimately show ?thesis
      using stores_query(2) [of channel_key _ R 9] unfolding HasReader_def holds_roles_def by metis
  qed
  ultimately show ?thesis by (simp only: Let_def)
qed

end
