(* ===== verification/Topology_Manager.thy ===== *)
theory Topology_Manager
  imports Channel_Manager
begin

text \<open>
  \<^verbatim>\<open>cyber/service_discovery/topology_manager.cc\<close>: the manager of the managers, which turns the arrival and
  loss of RTPS participants into changes of the topology; and what the node and service managers keep.
\<close>

section \<open>Participant names\<close>

text \<open>\<^verbatim>\<open>std::to_string\<close> and \<^verbatim>\<open>std::stoi\<close> for the signed numbers in participant names.\<close>

definition is_digit :: "char \<Rightarrow> bool" where
  "is_digit c \<longleftrightarrow> 48 \<le> (of_char c :: nat) \<and> (of_char c :: nat) \<le> 57"

definition is_space :: "char \<Rightarrow> bool" where
  "is_space c \<longleftrightarrow> (of_char c :: nat) = 32 \<or> (9 \<le> (of_char c :: nat) \<and> (of_char c :: nat) \<le> 13)"

definition digits_value :: "string \<Rightarrow> nat" where
  "digits_value ds = foldl (\<lambda>n c. 10 * n + (of_char c - 48)) 0 ds"

definition stoi :: "string \<Rightarrow> int option" where
  "stoi s =
     (let t = dropWhile is_space s;
          (neg, u) = (case t of c # r \<Rightarrow> if c = CHR ''-'' then (True, r) else if c = CHR ''+'' then (False, r) else (False, t)
                      | [] \<Rightarrow> (False, t));
          ds = takeWhile is_digit u;
          v = (if neg then - int (digits_value ds) else int (digits_value ds))
      in if ds = [] then None else if v < - (2 ^ 31) \<or> 2 ^ 31 \<le> v then None else Some v)"

definition participant_name :: "string \<Rightarrow> int \<Rightarrow> string" where
  "participant_name h p = h @ ''+'' @ int_to_string p"

definition ParseParticipantName :: "string \<Rightarrow> (string \<times> int) option" where
  "ParseParticipantName name =
     (if CHR ''+'' \<notin> set name then None
      else let h = takeWhile (\<lambda>c. c \<noteq> CHR ''+'') name;
               pid_str = drop (length h + 1) name
           in case stoi pid_str of None \<Rightarrow> None | Some p \<Rightarrow> Some (h, p))"

section \<open>State and operations\<close>

datatype discovery_status = DISCOVERED_RTPSPARTICIPANT | REMOVED_RTPSPARTICIPANT | DROPPED_RTPSPARTICIPANT | OTHER_STATUS

record part_info =
  info_guid :: nat
  info_status :: discovery_status
  info_name :: string

record topology_manager =
  tm_init :: bool
  tm_node :: node_manager
  tm_channel :: channel_manager
  tm_service :: service_manager
  tm_participant_names :: "nat \<rightharpoonup> string"
  tm_changes :: "change_msg list"

definition topology_Convert :: "u64 \<Rightarrow> part_info \<Rightarrow> topology_manager \<Rightarrow> change_msg option \<times> topology_manager" where
  "topology_Convert now info tm =
     (let (name, opt, tm) =
        (case info_status info of
           DISCOVERED_RTPSPARTICIPANT \<Rightarrow>
             (info_name info, OPT_JOIN, tm\<lparr>tm_participant_names := (tm_participant_names tm)(info_guid info \<mapsto> info_name info)\<rparr>)
         | OTHER_STATUS \<Rightarrow> ([], OPT_JOIN, tm)
         | _ \<Rightarrow> (case tm_participant_names tm (info_guid info) of
                   Some n \<Rightarrow> (n, OPT_LEAVE, tm\<lparr>tm_participant_names := (tm_participant_names tm)(info_guid info := None)\<rparr>)
                 | None \<Rightarrow> ([], OPT_LEAVE, tm)))
      in (case ParseParticipantName name of
            None \<Rightarrow> None
          | Some (h, p) \<Rightarrow> Some \<lparr>msg_timestamp = now, msg_change_type = CHANGE_PARTICIPANT, msg_operate_type = opt,
              msg_role_type = ROLE_PARTICIPANT,
              msg_role_attr = no_attributes\<lparr>attr_host_name := Some h, attr_process_id := Some p\<rparr>\<rparr>, tm))"

definition OnParticipantChange :: "u64 \<Rightarrow> part_info \<Rightarrow> topology_manager \<Rightarrow> topology_manager" where
  "OnParticipantChange now info tm0 =
     (case topology_Convert now info tm0 of
        (None, tm) \<Rightarrow> tm
      | (Some msg, tm) \<Rightarrow>
          if \<not> tm_init tm then tm
          else let h = field [] (attr_host_name (msg_role_attr msg));
                   p = field 0 (attr_process_id (msg_role_attr msg));
                   tm = (if msg_operate_type msg = OPT_LEAVE
                         then tm\<lparr>tm_node := node_OnTopoModuleLeave now h p (tm_node tm),
                                 tm_channel := channel_OnTopoModuleLeave now h p (tm_channel tm),
                                 tm_service := service_OnTopoModuleLeave now h p (tm_service tm)\<rparr>
                         else tm)
               in tm\<lparr>tm_changes := tm_changes tm @ [msg]\<rparr>)"

text \<open>\<open>started\<close>: whether each of the three managers could start its discovery.\<close>

definition TopologyManager_Init :: "bool \<times> bool \<times> bool \<Rightarrow> string \<Rightarrow> int \<Rightarrow> topology_manager \<Rightarrow> bool \<times> topology_manager" where
  "TopologyManager_Init started h p tm =
     (if tm_init tm then (True, tm)
      else let (n_ok, n) = StartDiscovery True (fst started) (NodeManager h p);
               (c_ok, c) = (if n_ok then StartDiscovery True (fst (snd started)) (ChannelManager ''raw'' ''py'' h p)
                            else (False, ChannelManager ''raw'' ''py'' h p));
               (s_ok, s) = (if c_ok then StartDiscovery True (snd (snd started)) (ServiceManager h p)
                            else (False, ServiceManager h p))
           in if \<not> s_ok then (False, tm)
              else (True, tm\<lparr>tm_init := True, tm_node := n, tm_channel := c, tm_service := s\<rparr>))"

definition TopologyManager_Shutdown :: "topology_manager \<Rightarrow> topology_manager" where
  "TopologyManager_Shutdown tm =
     (if \<not> tm_init tm then tm
      else tm\<lparr>tm_init := False, tm_node := Manager_Shutdown (tm_node tm), tm_channel := Manager_Shutdown (tm_channel tm),
              tm_service := Manager_Shutdown (tm_service tm)\<rparr>)"

section \<open>Numbers in names\<close>

lemma digit_char: "n < 10 \<Longrightarrow> is_digit (char_of (48 + n)) \<and> of_char (char_of (48 + n) :: char) - (48 :: nat) = n"
  by (simp add: is_digit_def of_char_of)

lemma nat_to_string_props:
  "nat_to_string n \<noteq> [] \<and> (\<forall>c\<in>set (nat_to_string n). is_digit c) \<and> digits_value (nat_to_string n) = n"
proof (induction n rule: nat_to_string.induct)
  case (1 n)
  show ?case
  proof (cases "n < 10")
    case True
    then show ?thesis using digit_char [OF True] by (subst (1 2 3) nat_to_string.simps) (simp add: digits_value_def)
  next
    case False
    have "is_digit (char_of (48 + n mod 10)) \<and> of_char (char_of (48 + n mod 10) :: char) - (48 :: nat) = n mod 10"
      by (rule digit_char) simp
    moreover have "nat_to_string n = nat_to_string (n div 10) @ [char_of (48 + n mod 10)]"
      using False by (subst nat_to_string.simps) simp
    ultimately show ?thesis using 1 [OF False] by (simp add: digits_value_def)
  qed
qed

lemma digit_neither: "is_digit c \<Longrightarrow> \<not> is_space c \<and> c \<noteq> CHR ''-'' \<and> c \<noteq> CHR ''+''"
  by (auto simp: is_digit_def is_space_def)

lemma stoi_int_to_string: "- (2 ^ 31) \<le> i \<Longrightarrow> i < 2 ^ 31 \<Longrightarrow> stoi (int_to_string i) = Some i"
proof -
  assume r: "- (2 ^ 31) \<le> i" "i < 2 ^ 31"
  note p = nat_to_string_props
  have tw: "takeWhile is_digit (nat_to_string n) = nat_to_string n" for n using p [of n] by (simp add: takeWhile_eq_all_conv)
  obtain c cs where c: "nat_to_string (nat i) = c # cs" "is_digit c" using p [of "nat i"] by (cases "nat_to_string (nat i)") auto
  show ?thesis
  proof (cases "i < 0")
    case True
    then have "dropWhile is_space (int_to_string i) = CHR ''-'' # nat_to_string (nat (- i))"
      by (simp add: int_to_string_def is_space_def)
    then show ?thesis using True r p [of "nat (- i)"] by (simp add: stoi_def tw Let_def)
  next
    case False
    then have "dropWhile is_space (int_to_string i) = nat_to_string (nat i)"
      using c digit_neither [of c] by (simp add: int_to_string_def)
    moreover have tcs: "takeWhile is_digit cs = cs" using p [of "nat i"] c by (simp add: takeWhile_eq_all_conv)
    ultimately show ?thesis using False r p [of "nat i"] c digit_neither [of c] by (simp add: stoi_def Let_def tcs)
  qed
qed

lemma ParseParticipantName_roundtrip:
  assumes "CHR ''+'' \<notin> set h" "- (2 ^ 31) \<le> p" "p < 2 ^ 31"
  shows "ParseParticipantName (participant_name h p) = Some (h, p)"
proof -
  have "takeWhile (\<lambda>c. c \<noteq> CHR ''+'') (participant_name h p) = h"
    using assms(1) by (auto simp: participant_name_def takeWhile_append)
  then show ?thesis
    using stoi_int_to_string [OF assms(2,3)] by (simp add: ParseParticipantName_def participant_name_def)
qed

section \<open>A process that is lost is forgotten\<close>

text \<open>What the three managers hold: every role is stored under its own key and knows its process.\<close>

definition keyed :: "(role \<Rightarrow> u64) \<Rightarrow> role_map \<Rightarrow> bool" where
  "keyed key w \<longleftrightarrow> (\<forall>(k, r)\<in>set w. k = key r \<and> located (role_attr r))"

definition without_process :: "string \<Rightarrow> int \<Rightarrow> role_map \<Rightarrow> (u64 \<times> role) set" where
  "without_process h p w = {(k, r) \<in> set w. \<not> of_process h p r}"

lemma keyedD: "keyed key w \<Longrightarrow> (k, r) \<in> set w \<Longrightarrow> k = key r \<and> located (role_attr r)"
  by (auto simp: keyed_def)

lemma sv_unique: "sv_inv w \<Longrightarrow> (k, r) \<in> set w \<Longrightarrow> (k, r') \<in> set w \<Longrightarrow> r = r'"
  by (rule eq_key_imp_eq_value)

lemma fold_Notify_nodes [simp]: "nm_nodes (fold (\<lambda>n m. Manager_Notify (f n m) m) ns m) = nm_nodes m"
  by (induction ns arbitrary: m) (simp_all add: Manager_Notify_def)

lemma fold_Notify_services [simp]:
  "sm_servers (fold (\<lambda>n m. Manager_Notify (f n m) m) ns m) = sm_servers m"
  "sm_clients (fold (\<lambda>n m. Manager_Notify (f n m) m) ns m) = sm_clients m"
  by (induction ns arbitrary: m) (simp_all add: Manager_Notify_def)

lemma nodes_forget:
  assumes "is_discovery_started m" "sv_inv (nm_nodes m)" "keyed node_key (nm_nodes m)"
  shows "set (nm_nodes (node_OnTopoModuleLeave now h p m)) = without_process h p (nm_nodes m)"
  using single_value.forget_process_by_key [OF assms(2) keyedD [OF assms(3)] sv_unique [OF assms(2)], where h = h and p = p] assms(1)
  by (simp add: node_OnTopoModuleLeave_def Let_def without_process_def flip: node_key_def)

lemma services_forget:
  assumes "is_discovery_started m" "sv_inv (sm_servers m)" "keyed service_key (sm_servers m)" "keyed service_key (sm_clients m)"
  shows "set (sm_servers (service_OnTopoModuleLeave now h p m)) = without_process h p (sm_servers m)"
    and "set (sm_clients (service_OnTopoModuleLeave now h p m)) = without_process h p (sm_clients m)"
  using single_value.forget_process_by_key [OF assms(2) keyedD [OF assms(3)] sv_unique [OF assms(2)], where h = h and p = p]
    multi_value.forget_process [OF TrueI keyedD [OF assms(4)], where h = h and p = p] assms(1)
  by (simp_all add: service_OnTopoModuleLeave_def Let_def without_process_def)

text \<open>
  When the RTPS layer reports the loss of a participant, every role of its process is
  forgotten (node, writers, readers, servers, clients) and no role of any other process is touched;
  the listeners of the topology are told.  The process is identified by parsing the participant's
  name, which gives back the host name and process id it was built from.
\<close>

lemma lost_participant_is_forgotten:
  fixes tm host pid info now W R
  defines "tm' \<equiv> OnParticipantChange now info tm"
  assumes "tm_init tm" and "info_status info = DROPPED_RTPSPARTICIPANT"
    and "tm_participant_names tm (info_guid info) = Some (participant_name host pid)"
    and "CHR ''+'' \<notin> set host" and "- (2 ^ 31) \<le> pid" and "pid < 2 ^ 31"
    and "is_discovery_started (tm_node tm)" and "is_discovery_started (tm_channel tm)" and "is_discovery_started (tm_service tm)"
    and "sv_inv (nm_nodes (tm_node tm))" and "keyed node_key (nm_nodes (tm_node tm))"
    and "sv_inv (sm_servers (tm_service tm))" and "keyed service_key (sm_servers (tm_service tm))"
    and "keyed service_key (sm_clients (tm_service tm))" and "holds_roles (tm_channel tm) W R"
  shows "set (nm_nodes (tm_node tm')) = without_process host pid (nm_nodes (tm_node tm))
    \<and> set (sm_servers (tm_service tm')) = without_process host pid (sm_servers (tm_service tm))
    \<and> set (sm_clients (tm_service tm')) = without_process host pid (sm_clients (tm_service tm))
    \<and> holds_roles (tm_channel tm') {r \<in> W. \<not> of_process host pid r} {r \<in> R. \<not> of_process host pid r}
    \<and> tm_participant_names tm' (info_guid info) = None \<and> length (tm_changes tm') = length (tm_changes tm) + 1"
proof -
  note parse = ParseParticipantName_roundtrip [OF assms(5-7)]
  define msg where "msg = \<lparr>msg_timestamp = now, msg_change_type = CHANGE_PARTICIPANT, msg_operate_type = OPT_LEAVE,
      msg_role_type = ROLE_PARTICIPANT, msg_role_attr = no_attributes\<lparr>attr_host_name := Some host, attr_process_id := Some pid\<rparr>\<rparr>"
  have tm': "tm' = tm\<lparr>tm_participant_names := (tm_participant_names tm)(info_guid info := None),
      tm_node := node_OnTopoModuleLeave now host pid (tm_node tm),
      tm_channel := channel_OnTopoModuleLeave now host pid (tm_channel tm),
      tm_service := service_OnTopoModuleLeave now host pid (tm_service tm), tm_changes := tm_changes tm @ [msg]\<rparr>"
    using assms(2-4) parse
    by (simp add: tm'_def msg_def OnParticipantChange_def topology_Convert_def field_def Let_def)
  show ?thesis
    using nodes_forget [OF assms(8,11,12)] services_forget [OF assms(10,13-15)] holds_process_leave [OF assms(16,9)]
    by (simp add: tm')
qed

definition demo_node :: role where
  "demo_node = make_role RoleNode (no_attributes\<lparr>attr_node_name := Some ''n'', attr_node_id := Some 4,
     attr_host_name := Some ''A'', attr_process_id := Some 7\<rparr>) 1"

definition demo_topology :: topology_manager where
  "demo_topology = \<lparr>tm_init = True, tm_node = (NodeManager ''A'' 1)\<lparr>is_discovery_started := True, nm_nodes := [(4, demo_node)]\<rparr>,
     tm_channel = started_manager ''A'' 1, tm_service = (ServiceManager ''A'' 1)\<lparr>is_discovery_started := True\<rparr>,
     tm_participant_names = [3 \<mapsto> participant_name ''A'' 7], tm_changes = []\<rparr>"

lemma lost_participant_is_forgotten_witness:
  "set (nm_nodes (tm_node (OnParticipantChange 9 \<lparr>info_guid = 3, info_status = DROPPED_RTPSPARTICIPANT, info_name = []\<rparr> demo_topology))) = {}"
proof -
  let ?i = "\<lparr>info_guid = 3, info_status = DROPPED_RTPSPARTICIPANT, info_name = []\<rparr>"
  have "tm_init demo_topology" "info_status ?i = DROPPED_RTPSPARTICIPANT"
    "tm_participant_names demo_topology (info_guid ?i) = Some (participant_name ''A'' 7)"
    "CHR ''+'' \<notin> set ''A''" "- (2 ^ 31) \<le> (7 :: int)" "(7 :: int) < 2 ^ 31"
    "is_discovery_started (tm_node demo_topology)" "is_discovery_started (tm_channel demo_topology)"
    "is_discovery_started (tm_service demo_topology)"
    "sv_inv (nm_nodes (tm_node demo_topology))" "keyed node_key (nm_nodes (tm_node demo_topology))"
    "sv_inv (sm_servers (tm_service demo_topology))" "keyed service_key (sm_servers (tm_service demo_topology))"
    "keyed service_key (sm_clients (tm_service demo_topology))" "holds_roles (tm_channel demo_topology) {} {}"
    by (simp_all add: demo_topology_def started_manager_holds keyed_def demo_node_def make_role_def node_key_def field_def
        located_def NodeManager_def ServiceManager_def)
  from lost_participant_is_forgotten [OF this, of 9]
  show ?thesis by (simp add: demo_topology_def without_process_def demo_node_def make_role_def of_process_def)
qed

section \<open>Duplicated nodes\<close>

definition node_event :: "operate_type \<Rightarrow> u64 \<Rightarrow> role_attributes \<Rightarrow> change_msg" where
  "node_event opt ts a = \<lparr>msg_timestamp = ts, msg_change_type = CHANGE_NODE, msg_operate_type = opt,
     msg_role_type = ROLE_NODE, msg_role_attr = a\<rparr>"

lemma nm_nodes_Join:
  "nm_nodes (node_Dispose (node_event OPT_JOIN ts a) m) =
     (let r = make_role RoleNode a ts; k = field 0 (attr_node_id a)
      in case map_of (nm_nodes m) k of
           None \<Rightarrow> AList.update k r (nm_nodes m)
         | Some x \<Rightarrow> if ts < role_timestamp_ns x then AList.update k r (nm_nodes m) else nm_nodes m)"
  by (auto simp: node_Dispose_def node_event_def Manager_Notify_def node_DisposeJoin_def Let_def sv_Add_def sv_Search_def
      IsEarlierThan_def make_role_def split: option.split)

text \<open>
  Of the nodes that join under one node id the earliest is kept: after any series of joins the
  manager holds, for every id that joined, a node with the smallest timestamp among the joins of that
  id, whatever the order in which the messages arrived.
\<close>

lemma earliest_node_is_kept:
  fixes m0 :: node_manager
  assumes "nm_nodes m0 = []" and "(ts, a) \<in> set joins"
  shows "\<exists>r. map_of (nm_nodes (fold (\<lambda>(ts, a). node_Dispose (node_event OPT_JOIN ts a)) joins m0)) (field 0 (attr_node_id a)) = Some r
    \<and> (role_timestamp_ns r, role_attr r) \<in> set joins \<and> field 0 (attr_node_id (role_attr r)) = field 0 (attr_node_id a)
    \<and> role_timestamp_ns r \<le> ts"
proof -
  let ?run = "\<lambda>js. nm_nodes (fold (\<lambda>(ts, a). node_Dispose (node_event OPT_JOIN ts a)) js m0)"
  have "(ts, a) \<in> set js \<longrightarrow> (\<exists>r. map_of (?run js) (field 0 (attr_node_id a)) = Some r \<and> role_timestamp_ns r \<le> ts)" for js ts a
  proof (induction js arbitrary: ts a rule: rev_induct)
    case (snoc j js)
    show ?case using snoc.IH [of ts a]
      by (cases j) (auto simp: nm_nodes_Join Let_def update_conv' make_role_def split: option.splits)
  qed simp
  moreover have "map_of (?run js) k = Some r \<longrightarrow> (role_timestamp_ns r, role_attr r) \<in> set js \<and> field 0 (attr_node_id (role_attr r)) = k" for js k r
  proof (induction js arbitrary: k r rule: rev_induct)
    case (snoc j js)
    show ?case using snoc.IH [of k r]
      by (cases j) (auto simp: nm_nodes_Join Let_def update_conv' make_role_def split: option.splits if_splits)
  qed (simp add: assms(1))
  ultimately show ?thesis using assms(2) by meson
qed

lemma earliest_node_is_kept_witness:
  "\<exists>r. map_of (nm_nodes (fold (\<lambda>(ts, a). node_Dispose (node_event OPT_JOIN ts a)) [(5, role_attr demo_node), (3, role_attr demo_node)] (NodeManager ''A'' 1))) 4 = Some r
     \<and> role_timestamp_ns r \<le> 3"
  using earliest_node_is_kept [of "NodeManager ''A'' 1" 3 "role_attr demo_node" "[(5, role_attr demo_node), (3, role_attr demo_node)]"]
  by (auto simp: NodeManager_def demo_node_def make_role_def field_def)

text \<open>
  The surviving node does not survive its duplicate: a process that starts a second node of
  the same name is told to shut down, and the leave message of that duplicate removes the entry of the
  earlier node, which is still running, because \<^verbatim>\<open>DisposeLeave\<close> compares nothing but the node id.
\<close>

lemma duplicate_leave_removes_survivor:
  "let a = role_attr demo_node; b = a\<lparr>attr_host_name := Some ''B''\<rparr>;
       m = fold node_Dispose [node_event OPT_JOIN 1 a, node_event OPT_JOIN 2 b] (NodeManager ''A'' 7);
       m' = node_Dispose (node_event OPT_LEAVE 3 b) m
   in HasNode (\<lambda>_. 4) ''n'' m \<and> GetNodes [] m = [a] \<and> \<not> nm_async_shutdown m \<and> \<not> HasNode (\<lambda>_. 4) ''n'' m'"
  by (simp add: Let_def demo_node_def make_role_def no_attributes_def node_event_def node_Dispose_def Manager_Notify_def
      node_DisposeJoin_def node_DisposeLeave_def NodeManager_def sv_Add_def sv_Search_def sv_Remove_key_def field_def
      IsEarlierThan_def HasNode_def GetNodes_def sv_GetAllAttrs_def)

end
