(* ===== verification/Byte_Codec.thy ===== *)
theory Byte_Codec
  imports Cyber_Prelude
begin

text \<open>
  Fixed-size binary records: integers are copied byte by byte in the order of the machine (little
  endian), identities are eight bytes.  The locale \<open>codec\<close> is the contract of such a record type;
  \<^verbatim>\<open>ReadableInfo\<close> (\<^verbatim>\<open>cyber/transport/shm/readable_info.cc\<close>) and \<^verbatim>\<open>MessageInfo\<close>
  (\<^verbatim>\<open>cyber/transport/message/message_info.cc\<close>) fulfil it.
\<close>

section \<open>Integers as bytes\<close>

fun le_bytes :: "nat \<Rightarrow> nat \<Rightarrow> u8 list" where
  "le_bytes 0 x = []"
| "le_bytes (Suc n) x = of_nat (x mod 256) # le_bytes n (x div 256)"

fun le_value :: "u8 list \<Rightarrow> nat" where
  "le_value [] = 0"
| "le_value (b # bs) = unat b + 256 * le_value bs"

lemma length_le_bytes [simp]: "length (le_bytes n x) = n"
  by (induction n arbitrary: x) auto

lemma le_value_le_bytes: "le_value (le_bytes n x) = x mod 256 ^ n"
proof (induction n arbitrary: x)
  case (Suc n)
  have "unat (of_nat (x mod 256) :: u8) = x mod 256" by (simp add: unat_of_nat)
  then show ?case using Suc by (simp add: mod_mult2_eq)
qed simp

definition u64_bytes :: "u64 \<Rightarrow> u8 list" where "u64_bytes x = le_bytes 8 (unat x)"
definition u64_of_bytes :: "u8 list \<Rightarrow> u64" where "u64_of_bytes bs = of_nat (le_value bs)"
definition u32_bytes :: "u32 \<Rightarrow> u8 list" where "u32_bytes x = le_bytes 4 (unat x)"
definition u32_of_bytes :: "u8 list \<Rightarrow> u32" where "u32_of_bytes bs = of_nat (le_value bs)"

lemma u64_bytes_roundtrip [simp]: "u64_of_bytes (u64_bytes x) = x"
  using unsigned_less [of x, where 'a = nat] by (simp add: u64_of_bytes_def u64_bytes_def le_value_le_bytes)

lemma u32_bytes_roundtrip [simp]: "u32_of_bytes (u32_bytes x) = x"
  using unsigned_less [of x, where 'a = nat] by (simp add: u32_of_bytes_def u32_bytes_def le_value_le_bytes)

lemma length_int_bytes [simp]: "length (u64_bytes x) = 8" "length (u32_bytes y) = 4"
  by (simp_all add: u64_bytes_def u32_bytes_def)

section \<open>The contract\<close>

text \<open>A record is only meant to be encoded when it is well formed (\<open>wf\<close>), e.g. its identities have eight bytes.\<close>

locale codec =
  fixes wf :: "'a \<Rightarrow> bool"
    and bytes :: nat
    and enc :: "'a \<Rightarrow> u8 list"
    and dec :: "u8 list \<Rightarrow> 'a option"
  assumes length_enc: "wf x \<Longrightarrow> length (enc x) = bytes"
    and dec_enc: "wf x \<Longrightarrow> dec (enc x) = Some x"
    and dec_length: "length bs \<noteq> bytes \<Longrightarrow> dec bs = None"
begin

lemma enc_inject: "wf x \<Longrightarrow> wf y \<Longrightarrow> enc x = enc y \<Longrightarrow> x = y"
  using dec_enc by (metis option.inject)

text \<open>A record stored inside a larger buffer is read back from its position.\<close>

lemma dec_slice: "wf x \<Longrightarrow> n = length pre \<Longrightarrow> dec (take bytes (drop n (pre @ enc x @ post))) = Some x"
  by (simp add: length_enc dec_enc)

end

section \<open>ReadableInfo\<close>

record readable_info =
  ri_host_id :: u64
  ri_block_index :: u32
  ri_channel_id :: u64

definition ReadableInfo_kSize :: nat where "ReadableInfo_kSize = 8 * 2 + 4"

definition ReadableInfo_SerializeTo :: "readable_info \<Rightarrow> u8 list" where
  "ReadableInfo_SerializeTo r = u64_bytes (ri_host_id r) @ u32_bytes (ri_block_index r) @ u64_bytes (ri_channel_id r)"

definition ReadableInfo_DeserializeFrom :: "u8 list \<Rightarrow> readable_info option" where
  "ReadableInfo_DeserializeFrom src =
     (if length src \<noteq> ReadableInfo_kSize then None
      else Some \<lparr>ri_host_id = u64_of_bytes (take 8 src), ri_block_index = u32_of_bytes (take 4 (drop 8 src)),
                 ri_channel_id = u64_of_bytes (take 8 (drop 12 src))\<rparr>)"

interpretation readable_info: codec "\<lambda>_. True" ReadableInfo_kSize ReadableInfo_SerializeTo ReadableInfo_DeserializeFrom
  by unfold_locales (simp_all add: ReadableInfo_kSize_def ReadableInfo_SerializeTo_def ReadableInfo_DeserializeFrom_def)

section \<open>MessageInfo\<close>

text \<open>An \<^verbatim>\<open>Identity\<close> is its eight bytes; its hash value is derived from them.\<close>

definition ID_SIZE :: nat where "ID_SIZE = 8"

record message_info =
  mi_sender_id :: "u8 list"
  mi_seq_num :: u64
  mi_spare_id :: "u8 list"

definition MessageInfo_kSize :: nat where "MessageInfo_kSize = 2 * ID_SIZE + 8"

definition MessageInfo_SerializeTo :: "message_info \<Rightarrow> u8 list" where
  "MessageInfo_SerializeTo m = take ID_SIZE (mi_sender_id m) @ u64_bytes (mi_seq_num m) @ take ID_SIZE (mi_spare_id m)"

definition MessageInfo_DeserializeFrom :: "u8 list \<Rightarrow> message_info option" where
  "MessageInfo_DeserializeFrom src =
     (if length src \<noteq> MessageInfo_kSize then None
      else Some \<lparr>mi_sender_id = take ID_SIZE src, mi_seq_num = u64_of_bytes (take 8 (drop ID_SIZE src)),
                 mi_spare_id = take ID_SIZE (drop (ID_SIZE + 8) src)\<rparr>)"

definition message_info_wf :: "message_info \<Rightarrow> bool" where
  "message_info_wf m \<longleftrightarrow> length (mi_sender_id m) = ID_SIZE \<and> length (mi_spare_id m) = ID_SIZE"

interpretation message_info: codec message_info_wf MessageInfo_kSize MessageInfo_SerializeTo MessageInfo_DeserializeFrom
  by unfold_locales
    (simp_all add: MessageInfo_kSize_def MessageInfo_SerializeTo_def MessageInfo_DeserializeFrom_def message_info_wf_def ID_SIZE_def)

end
