(* ===== verification/Shm_Segment.thy ===== *)
theory Shm_Segment
  imports Byte_Codec
begin

text \<open>
  \<^verbatim>\<open>cyber/transport/shm\<close>: the shared memory of a channel.  Shared memory objects outlive their names
  (a process keeps what it has mapped after \<^verbatim>\<open>shm_unlink\<close>), so the model has a heap of objects beside
  the name space; a name whose object could not be given its size stands for an empty object, which
  cannot be mapped.  A \<^verbatim>\<open>Segment\<close> is a process's handle on the object of one channel.  \<open>sys\<close> says which of the
  system calls of an opening fails for lack of resources, if any, and which weak exchanges fail; for \<^verbatim>\<open>XsiSegment\<close>, whose objects get their
  size when they are created, \<open>Truncate_fails\<close> is \<^verbatim>\<open>shmget\<close> refusing the size (\<^verbatim>\<open>EINVAL\<close>).
\<close>

section \<open>Configuration\<close>

record shm_conf =
  ceiling_msg_size :: u64
  block_buf_size :: u64
  block_num :: u32
  managed_shm_size :: u64

definition EXTRA_SIZE :: u64 where "EXTRA_SIZE = 1024 * 4"
definition STATE_SIZE :: u64 where "STATE_SIZE = 1024"
definition BLOCK_SIZE :: u64 where "BLOCK_SIZE = 1024"
definition MESSAGE_INFO_SIZE :: u64 where "MESSAGE_INFO_SIZE = 1024"
definition MESSAGE_SIZE_16K :: u64 where "MESSAGE_SIZE_16K = 1024 * 16"
definition MESSAGE_SIZE_128K :: u64 where "MESSAGE_SIZE_128K = 1024 * 128"
definition MESSAGE_SIZE_1M :: u64 where "MESSAGE_SIZE_1M = 1024 * 1024"
definition MESSAGE_SIZE_8M :: u64 where "MESSAGE_SIZE_8M = 1024 * 1024 * 8"
definition MESSAGE_SIZE_16M :: u64 where "MESSAGE_SIZE_16M = 1024 * 1024 * 16"
definition MESSAGE_SIZE_MORE :: u64 where "MESSAGE_SIZE_MORE = 1024 * 1024 * 32"

lemmas shm_sizes = EXTRA_SIZE_def STATE_SIZE_def BLOCK_SIZE_def MESSAGE_INFO_SIZE_def MESSAGE_SIZE_16K_def
  MESSAGE_SIZE_128K_def MESSAGE_SIZE_1M_def MESSAGE_SIZE_8M_def MESSAGE_SIZE_16M_def MESSAGE_SIZE_MORE_def

definition GetCeilingMessageSize :: "u64 \<Rightarrow> u64" where
  "GetCeilingMessageSize real_msg_size =
     (if real_msg_size \<le> MESSAGE_SIZE_16K then MESSAGE_SIZE_16K
      else if real_msg_size \<le> MESSAGE_SIZE_128K then MESSAGE_SIZE_128K
      else if real_msg_size \<le> MESSAGE_SIZE_1M then MESSAGE_SIZE_1M
      else if real_msg_size \<le> MESSAGE_SIZE_8M then MESSAGE_SIZE_8M
      else if real_msg_size \<le> MESSAGE_SIZE_16M then MESSAGE_SIZE_16M
      else MESSAGE_SIZE_MORE)"

definition GetBlockBufSize :: "u64 \<Rightarrow> u64" where
  "GetBlockBufSize ceiling = ceiling + MESSAGE_INFO_SIZE"

definition GetBlockNum :: "u64 \<Rightarrow> u32" where
  "GetBlockNum ceiling =
     (if ceiling = MESSAGE_SIZE_16K then 512 else if ceiling = MESSAGE_SIZE_128K then 128
      else if ceiling = MESSAGE_SIZE_1M then 64 else if ceiling = MESSAGE_SIZE_8M then 32
      else if ceiling = MESSAGE_SIZE_16M then 16 else if ceiling = MESSAGE_SIZE_MORE then 8 else 0)"

definition ShmConf_Update :: "u64 \<Rightarrow> shm_conf" where
  "ShmConf_Update real_msg_size =
     (let c = GetCeilingMessageSize real_msg_size; b = GetBlockBufSize c; n = GetBlockNum c
      in \<lparr>ceiling_msg_size = c, block_buf_size = b, block_num = n,
          managed_shm_size = EXTRA_SIZE + STATE_SIZE + (BLOCK_SIZE + b) * ucast n\<rparr>)"

section \<open>Shared memory\<close>

record shm_block =
  lock_num :: int
  blk_msg_size :: u64
  blk_msg_info_size :: u64

definition Block :: shm_block where
  "Block = \<lparr>lock_num = 0, blk_msg_size = 0, blk_msg_info_size = 0\<rparr>"

record shm_object =
  need_remap :: bool
  shm_seq :: u32
  reference_count :: u32
  state_ceiling :: u64
  shm_blocks :: "shm_block list"
  shm_bufs :: "u8 list list"

record shm_world =
  shm_names :: "u64 \<rightharpoonup> nat"
  shm_objects :: "nat \<rightharpoonup> shm_object"
  shm_next :: nat

datatype segment_kind = PosixSegment | XsiSegment

record segment =
  seg_kind :: segment_kind
  seg_init :: bool
  seg_conf :: shm_conf
  seg_channel_id :: u64
  seg_shm :: "nat option"

datatype shm_calls = Works | Open_fails | Truncate_fails | Map_fails

text \<open>
  What the system does: the calls of an opening, and which attempts of a search for a block to write and of a reader
  to lock its block fail although the block is free, as \<^verbatim>\<open>compare_exchange_weak\<close> may.  \<open>strong c\<close> has no such attempts.
\<close>

record shm_sys =
  sys_calls :: shm_calls
  weak_write :: "nat \<Rightarrow> bool"
  weak_read :: "nat \<Rightarrow> bool"

definition strong :: "shm_calls \<Rightarrow> shm_sys" where
  "strong c = \<lparr>sys_calls = c, weak_write = (\<lambda>_. False), weak_read = (\<lambda>_. False)\<rparr>"

lemma strong_simps [simp]: "sys_calls (strong c) = c" "weak_write (strong c) = (\<lambda>_. False)" "weak_read (strong c) = (\<lambda>_. False)"
  by (simp_all add: strong_def)

datatype shm_error = NullState | BlockOutOfRange | BufferOverflow

definition Segment :: "segment_kind \<Rightarrow> u64 \<Rightarrow> segment" where
  "Segment kind ch = \<lparr>seg_kind = kind, seg_init = False, seg_conf = ShmConf_Update MESSAGE_SIZE_16K, seg_channel_id = ch, seg_shm = None\<rparr>"

text \<open>The name of the object: \<^verbatim>\<open>shm_name_\<close> is the channel id in decimal, \<^verbatim>\<open>key_\<close> its low 32 bits.\<close>

definition seg_key :: "segment \<Rightarrow> u64" where
  "seg_key seg = (case seg_kind seg of PosixSegment \<Rightarrow> seg_channel_id seg | XsiSegment \<Rightarrow> ucast (ucast (seg_channel_id seg) :: u32))"

lemma seg_key_update [simp]:
  "seg_key (seg\<lparr>seg_init := b\<rparr>) = seg_key seg" "seg_key (seg\<lparr>seg_conf := c\<rparr>) = seg_key seg" "seg_key (seg\<lparr>seg_shm := p\<rparr>) = seg_key seg"
  by (simp_all add: seg_key_def split: segment_kind.split)

definition on_object :: "nat \<Rightarrow> (shm_object \<Rightarrow> shm_object) \<Rightarrow> shm_world \<Rightarrow> shm_world" where
  "on_object p f w = w\<lparr>shm_objects := (shm_objects w)(p := map_option f (shm_objects w p))\<rparr>"

definition IncreaseReferenceCounts :: "shm_object \<Rightarrow> shm_object" where
  "IncreaseReferenceCounts s = s\<lparr>reference_count := reference_count s + 1\<rparr>"

definition DecreaseReferenceCounts :: "shm_object \<Rightarrow> shm_object" where
  "DecreaseReferenceCounts s = (if reference_count s = 0 then s else s\<lparr>reference_count := reference_count s - 1\<rparr>)"

definition State :: "shm_conf \<Rightarrow> shm_object" where
  "State c = \<lparr>need_remap = False, shm_seq = 0, reference_count = 0, state_ceiling = ceiling_msg_size c,
     shm_blocks = replicate (unat (block_num c)) Block,
     shm_bufs = replicate (unat (block_num c)) (replicate (unat (block_buf_size c)) 0)\<rparr>"

section \<open>Segments\<close>

definition Segment_Reset :: "segment \<Rightarrow> segment" where
  "Segment_Reset seg = seg\<lparr>seg_shm := None\<rparr>"

definition OpenOnly :: "shm_sys \<Rightarrow> segment \<Rightarrow> shm_world \<Rightarrow> bool \<times> segment \<times> shm_world" where
  "OpenOnly sys seg w =
     (if seg_init seg then (True, seg, w)
      else case shm_names w (seg_key seg) of
             None \<Rightarrow> (False, seg, w)
           | Some p \<Rightarrow>
               (case shm_objects w p of
                  None \<Rightarrow> (False, seg, w)
                | Some obj \<Rightarrow>
                    if sys_calls sys \<noteq> Works then (False, seg, w)
                    else (True, seg\<lparr>seg_init := True, seg_conf := ShmConf_Update (state_ceiling obj), seg_shm := Some p\<rparr>,
                          on_object p IncreaseReferenceCounts w)))"

definition OpenOrCreate :: "shm_sys \<Rightarrow> segment \<Rightarrow> shm_world \<Rightarrow> bool \<times> segment \<times> shm_world" where
  "OpenOrCreate sys seg w =
     (if seg_init seg then (True, seg, w)
      else case shm_names w (seg_key seg) of
             Some _ \<Rightarrow> OpenOnly sys seg w
           | None \<Rightarrow>
               let p = shm_next w;
                   conf = ShmConf_Update (ceiling_msg_size (seg_conf seg));
                   named = w\<lparr>shm_names := (shm_names w)(seg_key seg \<mapsto> p), shm_next := Suc p\<rparr>
               in case sys_calls sys of
                    Open_fails \<Rightarrow> (False, seg, w)
                  | Truncate_fails \<Rightarrow> (case seg_kind seg of PosixSegment \<Rightarrow> (False, seg, named) | XsiSegment \<Rightarrow> (False, Segment_Reset seg, w))
                  | Map_fails \<Rightarrow> (False, seg, w)
                  | Works \<Rightarrow> (True, seg\<lparr>seg_init := True, seg_conf := conf, seg_shm := Some p\<rparr>,
                      named\<lparr>shm_objects := (shm_objects w)(p \<mapsto> IncreaseReferenceCounts (State conf))\<rparr>))"

definition Segment_Remove :: "segment \<Rightarrow> shm_world \<Rightarrow> bool \<times> shm_world" where
  "Segment_Remove seg w =
     (case shm_names w (seg_key seg) of
        None \<Rightarrow> (False, w)
      | Some _ \<Rightarrow> (True, w\<lparr>shm_names := (shm_names w)(seg_key seg := None)\<rparr>))"

definition Destroy :: "segment \<Rightarrow> shm_world \<Rightarrow> bool \<times> segment \<times> shm_world" where
  "Destroy seg w =
     (if \<not> seg_init seg then (True, seg, w)
      else let seg = seg\<lparr>seg_init := False\<rparr>
           in case seg_shm seg of
                None \<Rightarrow> (False, seg, w)
              | Some p \<Rightarrow>
                  let w = on_object p DecreaseReferenceCounts w
                  in case shm_objects w p of
                       Some obj \<Rightarrow> if reference_count obj = 0
                                   then (case Segment_Remove seg w of (ok, w') \<Rightarrow> (ok, seg, w')) else (True, seg, w)
                     | None \<Rightarrow> (False, seg, w))"

definition Remap :: "shm_sys \<Rightarrow> segment \<Rightarrow> shm_world \<Rightarrow> bool \<times> segment \<times> shm_world" where
  "Remap sys seg w = OpenOnly sys (Segment_Reset (seg\<lparr>seg_init := False\<rparr>)) w"

text \<open>\<^verbatim>\<open>Recreate\<close> writes to \<^verbatim>\<open>state_\<close> first, which must not be null.\<close>

definition Recreate :: "shm_sys \<Rightarrow> u64 \<Rightarrow> segment \<Rightarrow> shm_world \<Rightarrow> shm_error + bool \<times> segment \<times> shm_world" where
  "Recreate sys msg_size seg w =
     (case seg_shm seg of
        None \<Rightarrow> Inl NullState
      | Some p \<Rightarrow>
          let w1 = on_object p (\<lambda>s. s\<lparr>need_remap := True\<rparr>) w;
              seg1 = Segment_Reset (seg\<lparr>seg_init := False\<rparr>);
              w2 = snd (Segment_Remove seg1 w1);
              seg2 = seg1\<lparr>seg_conf := ShmConf_Update msg_size\<rparr>
          in Inr (OpenOrCreate sys seg2 w2))"

text \<open>\<open>weak\<close> tells that the exchange of the attempt fails although the value is the expected one.\<close>

definition TryLockForWrite :: "bool \<Rightarrow> shm_block \<Rightarrow> bool \<times> shm_block" where
  "TryLockForWrite weak b = (if lock_num b = 0 \<and> \<not> weak then (True, b\<lparr>lock_num := -1\<rparr>) else (False, b))"

text \<open>
  The search for a block that is free for writing; \<open>n\<close> is \<^verbatim>\<open>conf_.block_num()\<close>, \<open>l\<close> counts the attempts.  The loop does
  not end (\<open>None\<close>) as long as every block is locked or its exchange fails.
\<close>

partial_function (option) next_writable :: "(nat \<Rightarrow> bool) \<Rightarrow> nat \<Rightarrow> u32 \<Rightarrow> shm_object \<Rightarrow> (u32 \<times> shm_object) option" where
  "next_writable weak l n obj =
     (let try_idx = shm_seq obj mod n;
          obj = obj\<lparr>shm_seq := shm_seq obj + 1\<rparr>;
          (locked, b) = TryLockForWrite (weak l) (shm_blocks obj ! unat try_idx)
      in if locked
         then Some (try_idx, obj\<lparr>shm_blocks := (shm_blocks obj)[unat try_idx := b]\<rparr>)
         else next_writable weak (Suc l) n obj)"

text \<open>
  \<open>TryLockForRead weak k t b\<close>: the attempts from number \<open>t\<close> on, of which \<open>k\<close> are left.  While a reader tries, nobody else
  changes the block here; all threads together are in \<open>Rw_Locks\<close>.
\<close>

fun TryLockForRead :: "(nat \<Rightarrow> bool) \<Rightarrow> nat \<Rightarrow> nat \<Rightarrow> shm_block \<Rightarrow> bool \<times> shm_block" where
  "TryLockForRead weak 0 t b = (False, b)"
| "TryLockForRead weak (Suc k) t b =
     (if lock_num b < 0 then (False, b)
      else if weak t then TryLockForRead weak k (Suc t) b
      else (True, b\<lparr>lock_num := lock_num b + 1\<rparr>))"

lemma TryLockForRead_succeeds:
  assumes "\<not> weak s" "t \<le> s" "s < t + k" "0 \<le> lock_num b"
  shows "TryLockForRead weak k t b = (True, b\<lparr>lock_num := lock_num b + 1\<rparr>)"
  using assms
proof (induction k arbitrary: t)
  case (Suc k)
  show ?case
  proof (cases "weak t")
    case True
    then have "t \<noteq> s" using Suc.prems(1) by auto
    then show ?thesis using Suc True by simp
  qed (use Suc.prems(4) in simp)
qed simp

text \<open>
  Acquiring a block to write: \<open>None\<close> when the search does not end, else an error of the program or
  whether it succeeded, with the index, the handle and the memory.
\<close>

definition AcquireBlockToWrite ::
  "shm_sys \<Rightarrow> u64 \<Rightarrow> segment \<Rightarrow> shm_world \<Rightarrow> (shm_error + (u32 option \<times> segment \<times> shm_world)) option" where
  "AcquireBlockToWrite sys msg_size seg0 w0 =
     (case (if seg_init seg0 then (True, seg0, w0) else OpenOrCreate sys seg0 w0) of
        (False, seg, w) \<Rightarrow> Some (Inr (None, seg, w))
      | (True, seg, w) \<Rightarrow>
          (let remap = (case seg_shm seg of Some p \<Rightarrow> (case shm_objects w p of Some obj \<Rightarrow> need_remap obj | None \<Rightarrow> False) | None \<Rightarrow> False);
               (result, seg, w) = (if remap then Remap sys seg w else (True, seg, w));
               r = (if ceiling_msg_size (seg_conf seg) < msg_size then Recreate sys msg_size seg w else Inr (result, seg, w))
           in case r of
                Inl e \<Rightarrow> Some (Inl e)
              | Inr (False, seg, w) \<Rightarrow> Some (Inr (None, seg, w))
              | Inr (True, seg, w) \<Rightarrow>
                  (case seg_shm seg of
                     None \<Rightarrow> Some (Inl NullState)
                   | Some p \<Rightarrow>
                       (case shm_objects w p of
                          None \<Rightarrow> Some (Inl NullState)
                        | Some obj \<Rightarrow>
                            (case next_writable (weak_write sys) 0 (block_num (seg_conf seg)) obj of
                               None \<Rightarrow> None
                             | Some (i, obj') \<Rightarrow> Some (Inr (Some i, seg, w\<lparr>shm_objects := (shm_objects w)(p \<mapsto> obj')\<rparr>)))))))"

definition change_block :: "segment \<Rightarrow> u32 \<Rightarrow> (shm_block \<Rightarrow> shm_block) \<Rightarrow> shm_world \<Rightarrow> shm_world" where
  "change_block seg i f w =
     (case seg_shm seg of
        None \<Rightarrow> w
      | Some p \<Rightarrow> on_object p (\<lambda>s. s\<lparr>shm_blocks := (shm_blocks s)[unat i := f (shm_blocks s ! unat i)]\<rparr>) w)"

definition ReleaseWrittenBlock :: "u32 \<Rightarrow> segment \<Rightarrow> shm_world \<Rightarrow> shm_world" where
  "ReleaseWrittenBlock i seg w =
     (if block_num (seg_conf seg) \<le> i then w else change_block seg i (\<lambda>b. b\<lparr>lock_num := lock_num b + 1\<rparr>) w)"

definition AcquireBlockToRead ::
  "shm_sys \<Rightarrow> u32 \<Rightarrow> segment \<Rightarrow> shm_world \<Rightarrow> shm_error + (bool \<times> segment \<times> shm_world)" where
  "AcquireBlockToRead sys i seg0 w0 =
     (case (if seg_init seg0 then (True, seg0, w0) else OpenOnly sys seg0 w0) of
        (False, seg, w) \<Rightarrow> Inr (False, seg, w)
      | (True, seg, w) \<Rightarrow>
          if block_num (seg_conf seg) \<le> i then Inr (False, seg, w)
          else let remap = (case seg_shm seg of Some p \<Rightarrow> (case shm_objects w p of Some obj \<Rightarrow> need_remap obj | None \<Rightarrow> False) | None \<Rightarrow> False);
                   (result, seg, w) = (if remap then Remap sys seg w else (True, seg, w))
               in if \<not> result then Inr (False, seg, w)
                  else case seg_shm seg of
                         None \<Rightarrow> Inl NullState
                       | Some p \<Rightarrow>
                           (case shm_objects w p of
                              None \<Rightarrow> Inl NullState
                            | Some obj \<Rightarrow>
                                if length (shm_blocks obj) \<le> unat i then Inl BlockOutOfRange
                                else case TryLockForRead (weak_read sys) kMaxTryLockTimes 0 (shm_blocks obj ! unat i) of
                                       (False, _) \<Rightarrow> Inr (False, seg, w)
                                     | (True, b) \<Rightarrow> Inr (True, seg, change_block seg i (\<lambda>_. b) w)))"

definition ReleaseReadBlock :: "u32 \<Rightarrow> segment \<Rightarrow> shm_world \<Rightarrow> shm_world" where
  "ReleaseReadBlock i seg w =
     (if block_num (seg_conf seg) \<le> i then w else change_block seg i (\<lambda>b. b\<lparr>lock_num := lock_num b - 1\<rparr>) w)"

section \<open>Sizes\<close>

text \<open>The ceilings the configuration can have, with their block counts.\<close>

definition shm_ceilings :: "(u64 \<times> u32) list" where
  "shm_ceilings = [(MESSAGE_SIZE_16K, 512), (MESSAGE_SIZE_128K, 128), (MESSAGE_SIZE_1M, 64), (MESSAGE_SIZE_8M, 32),
     (MESSAGE_SIZE_16M, 16), (MESSAGE_SIZE_MORE, 8)]"

lemma ceiling_listed: "(GetCeilingMessageSize n, GetBlockNum (GetCeilingMessageSize n)) \<in> set shm_ceilings"
  by (simp add: GetCeilingMessageSize_def GetBlockNum_def shm_ceilings_def shm_sizes)

lemma ceiling_idem: "GetCeilingMessageSize (GetCeilingMessageSize n) = GetCeilingMessageSize n"
  by (simp add: GetCeilingMessageSize_def shm_sizes)

lemma ceiling_enough: "n \<le> MESSAGE_SIZE_MORE \<Longrightarrow> n \<le> GetCeilingMessageSize n"
  by (simp add: GetCeilingMessageSize_def)

lemma ShmConf_Update_ceiling: "ShmConf_Update (GetCeilingMessageSize n) = ShmConf_Update n"
  by (simp add: ShmConf_Update_def ceiling_idem Let_def)

lemma conf_numbers:
  fixes n
  defines "c \<equiv> ShmConf_Update n"
  shows "(ceiling_msg_size c, block_num c) \<in> set shm_ceilings"
    and "unat (block_buf_size c) = unat (ceiling_msg_size c) + 1024"
    and "unat (managed_shm_size c) = 5120 + (1024 + unat (block_buf_size c)) * unat (block_num c)"
    and "0 < unat (block_num c)" and "unat (block_num c) dvd 2 ^ 32"
proof -
  show l: "(ceiling_msg_size c, block_num c) \<in> set shm_ceilings"
    using ceiling_listed [of n] by (simp add: c_def ShmConf_Update_def Let_def)
  have b: "block_buf_size c = ceiling_msg_size c + 1024"
    "managed_shm_size c = 5120 + (1024 + (ceiling_msg_size c + 1024)) * ucast (block_num c)"
    by (simp_all add: c_def ShmConf_Update_def GetBlockBufSize_def Let_def shm_sizes)
  show "unat (block_buf_size c) = unat (ceiling_msg_size c) + 1024"
    using l by (auto simp: b shm_ceilings_def shm_sizes)
  show "unat (managed_shm_size c) = 5120 + (1024 + unat (block_buf_size c)) * unat (block_num c)"
    using l by (auto simp: b shm_ceilings_def shm_sizes)
  show "0 < unat (block_num c)" "unat (block_num c) dvd 2 ^ 32"
    using l by (auto simp: shm_ceilings_def)
qed

section \<open>Finding a block\<close>

lemma unat_seq_mod:
  fixes s n :: u32
  assumes "unat n dvd 2 ^ 32"
  shows "unat ((s + of_nat l) mod n) = (unat s + l) mod unat n"
proof -
  have "unat (s + of_nat l) = (unat s + l) mod 2 ^ 32" by (simp add: unat_word_ariths unat_of_nat mod_simps)
  then show ?thesis unfolding unat_mod by (simp only: mod_mod_cancel [OF assms])
qed

definition taken :: "shm_object \<Rightarrow> u32 \<Rightarrow> nat \<Rightarrow> shm_object" where
  "taken obj i k = obj\<lparr>shm_seq := shm_seq obj + of_nat (Suc k),
     shm_blocks := (shm_blocks obj)[unat i := (shm_blocks obj ! unat i)\<lparr>lock_num := -1\<rparr>]\<rparr>"

text \<open>Whether attempt \<open>l\<close> of a search takes its block.\<close>

definition takes :: "(nat \<Rightarrow> bool) \<Rightarrow> u32 \<Rightarrow> shm_object \<Rightarrow> nat \<Rightarrow> bool" where
  "takes weak n obj l \<longleftrightarrow> lock_num (shm_blocks obj ! ((unat (shm_seq obj) + l) mod unat n)) = 0 \<and> \<not> weak l"

lemma next_writable_reaches:
  assumes "unat n dvd 2 ^ 32"
  shows "(\<And>l. l < k \<Longrightarrow> \<not> takes (\<lambda>l. weak (m + l)) n obj l) \<Longrightarrow> takes (\<lambda>l. weak (m + l)) n obj k \<Longrightarrow>
    next_writable weak m n obj = Some ((shm_seq obj + of_nat k) mod n, taken obj ((shm_seq obj + of_nat k) mod n) k)"
proof (induction k arbitrary: obj m)
  case 0
  then show ?case by (subst next_writable.simps) (simp add: takes_def unat_mod taken_def TryLockForWrite_def Let_def)
next
  case (Suc k)
  let ?obj = "obj\<lparr>shm_seq := shm_seq obj + 1\<rparr>"
  have shift: "(unat (shm_seq ?obj) + l) mod unat n = (unat (shm_seq obj) + Suc l) mod unat n" for l
  proof -
    have "unat ((shm_seq obj + 1 + of_nat l) mod n) = unat ((shm_seq obj + of_nat (Suc l)) mod n)" by (simp add: add.assoc)
    then show ?thesis using unat_seq_mod [OF assms, of "shm_seq obj + 1" l] unat_seq_mod [OF assms, of "shm_seq obj" "Suc l"] by simp
  qed
  then have t: "takes (\<lambda>l. weak (Suc m + l)) n ?obj l = takes (\<lambda>l. weak (m + l)) n obj (Suc l)" for l by (simp add: takes_def)
  have "\<not> takes (\<lambda>l. weak (m + l)) n obj 0" using Suc.prems(1) [of 0] by simp
  then have "next_writable weak m n obj = next_writable weak (Suc m) n ?obj"
    by (subst next_writable.simps) (auto simp: takes_def unat_mod TryLockForWrite_def Let_def)
  also have "\<dots> = Some ((shm_seq ?obj + of_nat k) mod n, taken ?obj ((shm_seq ?obj + of_nat k) mod n) k)"
    by (rule Suc.IH) (use Suc.prems in \<open>simp_all add: t del: add_Suc\<close>)
  finally show ?case by (simp add: taken_def add.assoc)
qed

lemma next_writable_ends:
  assumes n: "unat n dvd 2 ^ 32" "0 < unat n" and t: "takes weak n obj t"
  shows "\<exists>i k. next_writable weak 0 n obj = Some (i, taken obj i k) \<and> unat i < unat n \<and> k \<le> t \<and> takes weak n obj k
    \<and> unat i = (unat (shm_seq obj) + k) mod unat n \<and> (\<forall>l<k. \<not> takes weak n obj l)"
proof -
  define k where "k = (LEAST k. takes weak n obj k)"
  have k: "takes weak n obj k" "\<forall>l<k. \<not> takes weak n obj l" "k \<le> t"
    using t unfolding k_def by (rule LeastI, use not_less_Least in blast, use t in \<open>rule Least_le\<close>)
  let ?i = "(shm_seq obj + of_nat k) mod n"
  have i: "unat ?i = (unat (shm_seq obj) + k) mod unat n" by (rule unat_seq_mod [OF n(1)])
  have "next_writable weak 0 n obj = Some (?i, taken obj ?i k)"
    by (rule next_writable_reaches [OF n(1)]) (use k in \<open>simp_all\<close>)
  moreover have "unat ?i < unat n" using i n(2) by simp
  ultimately show ?thesis using i k by blast
qed

text \<open>A free block is tried within one turn.\<close>

lemma takes_within_turn:
  assumes "0 < unat n" "j < unat n" "lock_num (shm_blocks obj ! j) = 0"
  obtains d where "d < unat n" "\<not> weak d \<Longrightarrow> takes weak n obj d"
proof -
  define d where "d = (j + unat n - unat (shm_seq obj) mod unat n) mod unat n"
  have "(unat (shm_seq obj) + d) mod unat n = (unat (shm_seq obj) mod unat n + (j + unat n - unat (shm_seq obj) mod unat n)) mod unat n"
    unfolding d_def by (simp add: mod_simps)
  also have "unat (shm_seq obj) mod unat n + (j + unat n - unat (shm_seq obj) mod unat n) = j + unat n"
    using mod_less_divisor [OF assms(1), of "unat (shm_seq obj)"] by linarith
  also have "(j + unat n) mod unat n = j" using assms(2) by simp
  finally have "(unat (shm_seq obj) + d) mod unat n = j" .
  moreover have "d < unat n" using assms(1) by (simp add: d_def)
  ultimately show thesis using that assms(3) by (simp add: takes_def)
qed

end
