(* ===== verification/Shm_Transport.thy ===== *)
theory Shm_Transport
  imports Shm_Segment
begin

text \<open>
  \<^verbatim>\<open>cyber/transport/transmitter/shm_transmitter.h\<close> and \<^verbatim>\<open>cyber/transport/dispatcher/shm_dispatcher.cc\<close>: how a
  message goes through a block of a shared memory segment.  A message is the list of bytes its
  serialisation gives; \<open>ser\<close> says whether serialising succeeds.
\<close>

section \<open>Sending and receiving\<close>

text \<open>
  \<open>write_message\<close> is \<^verbatim>\<open>ShmTransmitter::Transmit\<close> up to the notification, and gives what is to be notified; it is
  completed in \<open>Shm_Dispatch\<close>.
\<close>

definition write_at :: "nat \<Rightarrow> u8 list \<Rightarrow> u8 list \<Rightarrow> u8 list" where
  "write_at off bs buf = take off buf @ bs @ drop (off + length bs) buf"

definition store_message :: "u32 \<Rightarrow> u8 list \<Rightarrow> message_info \<Rightarrow> shm_object \<Rightarrow> shm_object" where
  "store_message i msg info s =
     (let b = shm_blocks s ! unat i; buf = shm_bufs s ! unat i
      in s\<lparr>shm_bufs := (shm_bufs s)[unat i := write_at (length msg) (MessageInfo_SerializeTo info) (write_at 0 msg buf)],
           shm_blocks := (shm_blocks s)[unat i := b\<lparr>blk_msg_size := of_nat (length msg), blk_msg_info_size := of_nat MessageInfo_kSize\<rparr>]\<rparr>)"

definition write_message ::
  "shm_sys \<Rightarrow> bool \<Rightarrow> u64 \<Rightarrow> u8 list \<Rightarrow> message_info \<Rightarrow> segment \<Rightarrow> shm_world \<Rightarrow>
   (shm_error + (readable_info option \<times> segment \<times> shm_world)) option" where
  "write_message sys ser host_id msg info seg0 w0 =
     (case AcquireBlockToWrite sys (of_nat (length msg)) seg0 w0 of
        None \<Rightarrow> None
      | Some (Inl e) \<Rightarrow> Some (Inl e)
      | Some (Inr (None, seg, w)) \<Rightarrow> Some (Inr (None, seg, w))
      | Some (Inr (Some i, seg, w)) \<Rightarrow>
          if \<not> ser then Some (Inr (None, seg, ReleaseWrittenBlock i seg w))
          else case seg_shm seg of
                 None \<Rightarrow> Some (Inl NullState)
               | Some p \<Rightarrow>
                   (case shm_objects w p of
                      None \<Rightarrow> Some (Inl NullState)
                    | Some obj \<Rightarrow>
                        if length (shm_bufs obj ! unat i) < length msg + MessageInfo_kSize then Some (Inl BufferOverflow)
                        else let w = ReleaseWrittenBlock i seg (on_object p (store_message i msg info) w)
                             in Some (Inr (Some \<lparr>ri_host_id = host_id, ri_block_index = i, ri_channel_id = seg_channel_id seg\<rparr>, seg, w))))"

definition ReadMessage ::
  "shm_sys \<Rightarrow> u32 \<Rightarrow> segment \<Rightarrow> shm_world \<Rightarrow> shm_error + ((u8 list \<times> message_info) option \<times> segment \<times> shm_world)" where
  "ReadMessage sys i seg0 w0 =
     (case AcquireBlockToRead sys i seg0 w0 of
        Inl e \<Rightarrow> Inl e
      | Inr (False, seg, w) \<Rightarrow> Inr (None, seg, w)
      | Inr (True, seg, w) \<Rightarrow>
          (case seg_shm seg of
             None \<Rightarrow> Inl NullState
           | Some p \<Rightarrow>
               (case shm_objects w p of
                  None \<Rightarrow> Inl NullState
                | Some obj \<Rightarrow>
                    let b = shm_blocks obj ! unat i; buf = shm_bufs obj ! unat i;
                        size = unat (blk_msg_size b); info_size = unat (blk_msg_info_size b)
                    in if length buf < size + info_size then Inl BufferOverflow
                       else Inr (map_option (\<lambda>info. (take size buf, info)) (MessageInfo_DeserializeFrom (take info_size (drop size buf))),
                                 seg, ReleaseReadBlock i seg w))))"

section \<open>Well-formed memory\<close>

definition object_ok :: "shm_object \<Rightarrow> bool" where
  "object_ok s \<longleftrightarrow> GetCeilingMessageSize (state_ceiling s) = state_ceiling s
     \<and> length (shm_blocks s) = unat (GetBlockNum (state_ceiling s))
     \<and> length (shm_bufs s) = unat (GetBlockNum (state_ceiling s))
     \<and> (\<forall>buf\<in>set (shm_bufs s). length buf = unat (state_ceiling s) + 1024)"

text \<open>The handle is attached to a well-formed object that is in use, and has its configuration.\<close>

definition attached :: "segment \<Rightarrow> nat \<Rightarrow> shm_object \<Rightarrow> shm_world \<Rightarrow> bool" where
  "attached seg p obj w \<longleftrightarrow> seg_init seg \<and> seg_shm seg = Some p \<and> shm_objects w p = Some obj \<and> object_ok obj
     \<and> seg_conf seg = ShmConf_Update (state_ceiling obj)"

lemma State_ok: "object_ok (State (ShmConf_Update n))"
proof -
  note c = conf_numbers [of n]
  have "ceiling_msg_size (ShmConf_Update n) = GetCeilingMessageSize n" "block_num (ShmConf_Update n) = GetBlockNum (GetCeilingMessageSize n)"
    by (simp_all add: ShmConf_Update_def Let_def)
  then show ?thesis using c(2) by (auto simp: object_ok_def State_def ceiling_idem)
qed

lemma object_conf:
  assumes "object_ok s"
  shows "block_num (ShmConf_Update (state_ceiling s)) = GetBlockNum (state_ceiling s)"
    and "ceiling_msg_size (ShmConf_Update (state_ceiling s)) = state_ceiling s"
  using assms by (simp_all add: object_ok_def ShmConf_Update_def Let_def)

text \<open>A write on an attached handle whose object is large enough and has a free block.\<close>

lemma AcquireBlockToWrite_attached:
  assumes at: "attached seg p obj w" and r: "\<not> need_remap obj" and size: "n \<le> state_ceiling obj"
    and free: "takes (weak_write sys) (block_num (seg_conf seg)) obj t"
  obtains i k where "AcquireBlockToWrite sys n seg w = Some (Inr (Some i, seg, w\<lparr>shm_objects := (shm_objects w)(p \<mapsto> taken obj i k)\<rparr>))"
    "unat i < length (shm_blocks obj)" "lock_num (shm_blocks obj ! unat i) = 0"
proof -
  have a: "seg_init seg" "seg_shm seg = Some p" "shm_objects w p = Some obj" "object_ok obj"
    "seg_conf seg = ShmConf_Update (state_ceiling obj)" using at by (auto simp: attached_def)
  note c = object_conf [OF a(4)]
  have len: "unat (block_num (seg_conf seg)) = length (shm_blocks obj)" using a(4,5) c by (simp add: object_ok_def)
  have dvd: "unat (block_num (seg_conf seg)) dvd 2 ^ 32" "0 < unat (block_num (seg_conf seg))"
    using conf_numbers(4,5) [of "state_ceiling obj"] a(5) by simp_all
  obtain i k where nw: "next_writable (weak_write sys) 0 (block_num (seg_conf seg)) obj = Some (i, taken obj i k)"
    "unat i < unat (block_num (seg_conf seg))" "lock_num (shm_blocks obj ! unat i) = 0"
    using next_writable_ends [OF dvd free] by (auto simp: takes_def)
  have "\<not> ceiling_msg_size (seg_conf seg) < n" using size a(5) c(2) by simp
  then have "AcquireBlockToWrite sys n seg w = Some (Inr (Some i, seg, w\<lparr>shm_objects := (shm_objects w)(p \<mapsto> taken obj i k)\<rparr>))"
    using a r nw(1) by (simp add: AcquireBlockToWrite_def Let_def)
  then show thesis using that nw len by simp
qed

lemma write_at_0: "length msg \<le> length buf \<Longrightarrow> write_at 0 msg buf = msg @ drop (length msg) buf"
  by (simp add: write_at_def)

lemma stored_buffer:
  assumes "length msg + length bs \<le> length buf"
  shows "write_at (length msg) bs (write_at 0 msg buf) = msg @ bs @ drop (length msg + length bs) buf"
  using assms by (simp add: write_at_def drop_drop add.commute)

text \<open>The object after a message was sent through block \<open>i\<close>.\<close>

definition sent :: "shm_object \<Rightarrow> u32 \<Rightarrow> nat \<Rightarrow> u8 list \<Rightarrow> message_info \<Rightarrow> shm_object" where
  "sent obj i k msg info = obj\<lparr>shm_seq := shm_seq obj + of_nat (Suc k),
     shm_bufs := (shm_bufs obj)[unat i := msg @ MessageInfo_SerializeTo info @ drop (length msg + 24) (shm_bufs obj ! unat i)],
     shm_blocks := (shm_blocks obj)[unat i := \<lparr>lock_num = 0, blk_msg_size = of_nat (length msg), blk_msg_info_size = 24\<rparr>]\<rparr>"

lemma block_full_update [simp]:
  "b\<lparr>lock_num := l, blk_msg_size := m, blk_msg_info_size := n\<rparr> = \<lparr>lock_num = l, blk_msg_size = m, blk_msg_info_size = n\<rparr>"
  by (cases b) simp

lemma object_world_upd: "shm_objects w p = Some x \<Longrightarrow> on_object p f w = w\<lparr>shm_objects := (shm_objects w)(p \<mapsto> f x)\<rparr>"
  by (simp add: on_object_def)

lemma buffer_length:
  assumes "object_ok obj" "unat i < length (shm_blocks obj)"
  shows "unat i < length (shm_bufs obj)" and "length (shm_bufs obj ! unat i) = unat (state_ceiling obj) + 1024"
  using assms by (auto simp: object_ok_def)

lemma write_message_attached:
  assumes at: "attached seg p obj w" and r: "\<not> need_remap obj" and size: "length msg \<le> unat (state_ceiling obj)"
    and free: "takes (weak_write sys) (block_num (seg_conf seg)) obj t" and info: "message_info_wf info"
  obtains i k where "write_message sys True h msg info seg w = Some (Inr (Some \<lparr>ri_host_id = h, ri_block_index = i,
      ri_channel_id = seg_channel_id seg\<rparr>, seg, w\<lparr>shm_objects := (shm_objects w)(p \<mapsto> sent obj i k msg info)\<rparr>))"
    "unat i < length (shm_blocks obj)" "lock_num (shm_blocks obj ! unat i) = 0"
proof -
  have a: "seg_init seg" "seg_shm seg = Some p" "shm_objects w p = Some obj" "object_ok obj"
    "seg_conf seg = ShmConf_Update (state_ceiling obj)" using at by (auto simp: attached_def)
  have "unat (of_nat (length msg) :: u64) = length msg"
    using size unat_u64_bound [of "state_ceiling obj"] by (intro unat_of_nat_u64) simp
  then have "of_nat (length msg) \<le> state_ceiling obj" using size by (simp add: word_le_nat_alt)
  from AcquireBlockToWrite_attached [OF at r this free]
  obtain i k where acq: "AcquireBlockToWrite sys (of_nat (length msg)) seg w =
      Some (Inr (Some i, seg, w\<lparr>shm_objects := (shm_objects w)(p \<mapsto> taken obj i k)\<rparr>))"
    and i: "unat i < length (shm_blocks obj)" "lock_num (shm_blocks obj ! unat i) = 0" by metis
  note bl = buffer_length [OF a(4) i(1)]
  have k24: "MessageInfo_kSize = 24" by (simp add: MessageInfo_kSize_def ID_SIZE_def)
  have len: "length (MessageInfo_SerializeTo info) = 24" using message_info.length_enc [OF info] k24 by simp
  have num: "\<not> block_num (seg_conf seg) \<le> i"
    using i(1) a(4,5) object_conf [OF a(4)] by (simp add: object_ok_def word_le_nat_alt)
  have "store_message i msg info (taken obj i k) = obj\<lparr>shm_seq := shm_seq obj + of_nat (Suc k),
     shm_blocks := (shm_blocks obj)[unat i := \<lparr>lock_num = -1, blk_msg_size = of_nat (length msg), blk_msg_info_size = 24\<rparr>],
     shm_bufs := (shm_bufs obj)[unat i := msg @ MessageInfo_SerializeTo info @ drop (length msg + 24) (shm_bufs obj ! unat i)]\<rparr>"
    using i bl size len by (simp add: store_message_def taken_def Let_def stored_buffer k24)
  then have "write_message sys True h msg info seg w = Some (Inr (Some \<lparr>ri_host_id = h, ri_block_index = i,
      ri_channel_id = seg_channel_id seg\<rparr>, seg, w\<lparr>shm_objects := (shm_objects w)(p \<mapsto> sent obj i k msg info)\<rparr>))"
    using acq a(2,3) i bl size num
    by (simp add: write_message_def ReleaseWrittenBlock_def change_block_def on_object_def sent_def k24 Let_def) (simp add: taken_def)
  then show thesis using that i by blast
qed

lemma ReadMessage_attached:
  assumes at: "attached seg p obj w" and r: "\<not> need_remap obj" and i: "unat i < length (shm_blocks obj)"
    and b: "shm_blocks obj ! unat i = \<lparr>lock_num = 0, blk_msg_size = of_nat (length msg), blk_msg_info_size = 24\<rparr>"
    and buf: "shm_bufs obj ! unat i = msg @ MessageInfo_SerializeTo info @ rest"
    and size: "length msg < 2 ^ 64" and info: "message_info_wf info" and weak: "\<not> weak_read sys c" "c < kMaxTryLockTimes"
  shows "ReadMessage sys i seg w = Inr (Some (msg, info), seg, w)"
proof -
  have a: "seg_init seg" "seg_shm seg = Some p" "shm_objects w p = Some obj" "object_ok obj"
    "seg_conf seg = ShmConf_Update (state_ceiling obj)" using at by (auto simp: attached_def)
  have num: "\<not> block_num (seg_conf seg) \<le> i"
    using i a(4,5) object_conf [OF a(4)] by (simp add: object_ok_def word_le_nat_alt)
  let ?b = "\<lparr>lock_num = 1, blk_msg_size = of_nat (length msg), blk_msg_info_size = 24\<rparr>"
  let ?obj = "obj\<lparr>shm_blocks := (shm_blocks obj)[unat i := ?b]\<rparr>"
  have acq: "AcquireBlockToRead sys i seg w = Inr (True, seg, w\<lparr>shm_objects := (shm_objects w)(p \<mapsto> ?obj)\<rparr>)"
    using a(1-3) r num i b TryLockForRead_succeeds [of "weak_read sys" c 0 kMaxTryLockTimes "shm_blocks obj ! unat i", OF weak(1)] weak(2)
    by (simp add: AcquireBlockToRead_def change_block_def on_object_def Let_def)
  have len: "length (MessageInfo_SerializeTo info) = 24"
    using message_info.length_enc [OF info] by (simp add: MessageInfo_kSize_def ID_SIZE_def)
  have sz: "unat (of_nat (length msg) :: u64) = length msg" using size by (rule unat_of_nat_u64)
  have "(shm_blocks obj)[unat i := \<lparr>lock_num = 0, blk_msg_size = of_nat (length msg), blk_msg_info_size = 24\<rparr>] = shm_blocks obj"
    unfolding b [symmetric] by (rule list_update_id)
  then have restored: "w\<lparr>shm_objects := (shm_objects w)(p \<mapsto> obj\<lparr>shm_blocks := (shm_blocks obj)[unat i := \<lparr>lock_num = 0,
      blk_msg_size = of_nat (length msg), blk_msg_info_size = 24\<rparr>]\<rparr>)\<rparr> = w"
    using a(3) by (simp add: fun_upd_idem)
  show ?thesis
    using acq a(2) i num len sz buf message_info.dec_enc [OF info] restored
    by (simp add: ReadMessage_def ReleaseReadBlock_def change_block_def on_object_def Let_def)
qed

text \<open>Block \<open>i\<close> of the object is free and holds the message with its info.\<close>

definition holds_message :: "shm_object \<Rightarrow> u32 \<Rightarrow> u8 list \<Rightarrow> message_info \<Rightarrow> bool" where
  "holds_message obj i msg info \<longleftrightarrow> object_ok obj \<and> \<not> need_remap obj \<and> unat i < length (shm_blocks obj) \<and> length msg < 2 ^ 64
     \<and> shm_blocks obj ! unat i = \<lparr>lock_num = 0, blk_msg_size = of_nat (length msg), blk_msg_info_size = 24\<rparr>
     \<and> shm_bufs obj ! unat i = msg @ MessageInfo_SerializeTo info @ drop (length msg + 24) (shm_bufs obj ! unat i)"

lemma holds_sent:
  assumes ok: "object_ok obj" "\<not> need_remap obj" and i: "unat i < length (shm_blocks obj)"
    and size: "length msg \<le> unat (state_ceiling obj)" and info: "message_info_wf info"
  shows "holds_message (sent obj i k msg info) i msg info" and "state_ceiling (sent obj i k msg info) = state_ceiling obj"
proof -
  note bl = buffer_length [OF ok(1) i]
  have len: "length (MessageInfo_SerializeTo info) = 24"
    using message_info.length_enc [OF info] by (simp add: MessageInfo_kSize_def ID_SIZE_def)
  have "object_ok (sent obj i k msg info)"
    using ok(1) bl size len set_update_subset_insert [of "shm_bufs obj" "unat i"] by (fastforce simp: object_ok_def sent_def)
  moreover have "length msg < 2 ^ 64" using size unat_u64_bound [of "state_ceiling obj"] by simp
  ultimately show "holds_message (sent obj i k msg info) i msg info"
    using ok(2) i bl len by (simp add: holds_message_def) (simp add: sent_def)
qed (simp add: sent_def)

lemma holds_IncreaseReferenceCounts [simp]:
  "holds_message (IncreaseReferenceCounts obj) i msg info = holds_message obj i msg info"
  by (simp add: holds_message_def object_ok_def IncreaseReferenceCounts_def)

lemma ReadMessage_holds:
  assumes "seg_init seg" "seg_shm seg = Some p" "shm_objects w p = Some obj" "seg_conf seg = ShmConf_Update (state_ceiling obj)"
    and h: "holds_message obj i msg info" and "message_info_wf info" and "\<not> weak_read sys c" and "c < kMaxTryLockTimes"
  shows "ReadMessage sys i seg w = Inr (Some (msg, info), seg, w)"
  using h ReadMessage_attached [of seg p obj w i msg info "drop (length msg + 24) (shm_bufs obj ! unat i)" sys c] assms
  by (simp add: holds_message_def attached_def)

section \<open>Properties\<close>

text \<open>
  A message goes through shared memory unchanged.  On a segment with room for it and a free
  block, transmitting always succeeds and the block it announces gives exactly the bytes and the
  message info that were sent to a reader, both to one that has the segment mapped and to one that
  opens it for this message; and no block stays locked that was not locked before.
\<close>

lemma message_through_block:
  assumes "attached seg p obj w" and "\<not> need_remap obj" and "length msg \<le> unat (state_ceiling obj)"
    and "takes (weak_write sys) (block_num (seg_conf seg)) obj t" and "message_info_wf info"
    and "sys_calls sys = Works" and "\<not> weak_read sys c" and "c < kMaxTryLockTimes"
    and "seg_init rd \<and> seg_shm rd = Some p \<and> seg_conf rd = seg_conf seg \<or> \<not> seg_init rd \<and> shm_names w (seg_key rd) = Some p"
  shows "\<exists>ri w' rd' w'' obj'. write_message sys True h msg info seg w = Some (Inr (Some ri, seg, w'))
    \<and> ri_host_id ri = h \<and> ri_channel_id ri = seg_channel_id seg
    \<and> ReadMessage sys (ri_block_index ri) rd w' = Inr (Some (msg, info), rd', w'')
    \<and> shm_objects w'' p = Some obj' \<and> map lock_num (shm_blocks obj') = map lock_num (shm_blocks obj)"
proof -
  have a: "seg_init seg" "seg_shm seg = Some p" "shm_objects w p = Some obj" "object_ok obj"
    "seg_conf seg = ShmConf_Update (state_ceiling obj)" using assms(1) by (auto simp: attached_def)
  obtain i k where tx: "write_message sys True h msg info seg w = Some (Inr (Some \<lparr>ri_host_id = h, ri_block_index = i,
      ri_channel_id = seg_channel_id seg\<rparr>, seg, w\<lparr>shm_objects := (shm_objects w)(p \<mapsto> sent obj i k msg info)\<rparr>))"
    and i: "unat i < length (shm_blocks obj)" "lock_num (shm_blocks obj ! unat i) = 0"
    by (rule write_message_attached [OF assms(1-5)])
  let ?o = "sent obj i k msg info"
  let ?w = "w\<lparr>shm_objects := (shm_objects w)(p \<mapsto> ?o)\<rparr>"
  note h = holds_sent [OF a(4) assms(2) i(1) assms(3,5), of k]
  have locks: "map lock_num (shm_blocks ?o) = map lock_num (shm_blocks obj)"
    using i by (simp add: sent_def map_update) (metis length_map list_update_id nth_map)
  show ?thesis
  proof (cases "seg_init rd")
    case True
    then have "ReadMessage sys i rd ?w = Inr (Some (msg, info), rd, ?w)"
      using assms(9) h a(5) by (intro ReadMessage_holds [OF _ _ _ _ h(1) assms(5,7,8)]) auto
    then show ?thesis using tx locks by simp
  next
    case False
    then have nm: "shm_names w (seg_key rd) = Some p" using assms(9) by simp
    let ?rd = "rd\<lparr>seg_init := True, seg_conf := ShmConf_Update (state_ceiling ?o), seg_shm := Some p\<rparr>"
    let ?w' = "w\<lparr>shm_objects := (shm_objects w)(p \<mapsto> IncreaseReferenceCounts ?o)\<rparr>"
    have "OpenOnly sys rd ?w = (True, ?rd, ?w')" using False nm assms(6) by (simp add: OpenOnly_def on_object_def)
    then have "AcquireBlockToRead sys i rd ?w = AcquireBlockToRead sys i ?rd ?w'"
      using False by (simp add: AcquireBlockToRead_def)
    moreover have "ReadMessage sys i ?rd ?w' = Inr (Some (msg, info), ?rd, ?w')"
      by (rule ReadMessage_holds [where p = p and obj = "IncreaseReferenceCounts ?o", OF _ _ _ _ _ assms(5,7,8)])
        (simp_all add: h, simp add: IncreaseReferenceCounts_def h)
    ultimately have "ReadMessage sys i rd ?w = Inr (Some (msg, info), ?rd, ?w')" by (simp add: ReadMessage_def)
    moreover have "map lock_num (shm_blocks (IncreaseReferenceCounts ?o)) = map lock_num (shm_blocks obj)"
      using locks by (simp add: IncreaseReferenceCounts_def)
    ultimately show ?thesis using tx by (intro exI conjI) (assumption | simp)+
  qed
qed

definition no_shm :: shm_world where
  "no_shm = \<lparr>shm_names = Map.empty, shm_objects = Map.empty, shm_next = 0\<rparr>"

definition opened :: "segment \<Rightarrow> shm_world \<Rightarrow> segment" where
  "opened seg w = fst (snd (OpenOrCreate (strong Works) seg w))"

definition opened_world :: "segment \<Rightarrow> shm_world \<Rightarrow> shm_world" where
  "opened_world seg w = snd (snd (OpenOrCreate (strong Works) seg w))"

text \<open>A segment that is created is attached to a fresh object with all blocks free.\<close>

lemma OpenOrCreate_new:
  assumes "shm_names w (seg_key seg) = None" "\<not> seg_init seg" "seg_conf seg = ShmConf_Update n"
  shows "OpenOrCreate (strong Works) seg w = (True, opened seg w, opened_world seg w)"
    and "attached (opened seg w) (shm_next w) (IncreaseReferenceCounts (State (ShmConf_Update n))) (opened_world seg w)"
    and "shm_names (opened_world seg w) = (shm_names w)(seg_key seg \<mapsto> shm_next w)"
    and "seg_channel_id (opened seg w) = seg_channel_id seg"
    and "shm_objects (opened_world seg w) = (shm_objects w)(shm_next w \<mapsto> IncreaseReferenceCounts (State (ShmConf_Update n)))"
    and "shm_next (opened_world seg w) = Suc (shm_next w)"
proof -
  have c: "ceiling_msg_size (ShmConf_Update n) = GetCeilingMessageSize n" by (simp add: ShmConf_Update_def Let_def)
  note defs = OpenOrCreate_def opened_def opened_world_def assms c ShmConf_Update_ceiling
  show "OpenOrCreate (strong Works) seg w = (True, opened seg w, opened_world seg w)" by (simp add: defs Let_def)
  have "object_ok (IncreaseReferenceCounts (State (ShmConf_Update n)))"
    using State_ok [of n] by (simp add: object_ok_def IncreaseReferenceCounts_def)
  then show "attached (opened seg w) (shm_next w) (IncreaseReferenceCounts (State (ShmConf_Update n))) (opened_world seg w)"
    by (simp add: attached_def defs Let_def IncreaseReferenceCounts_def State_def)
qed (simp_all add: OpenOrCreate_def opened_def opened_world_def assms Let_def ShmConf_Update_def ceiling_idem)

lemma seg_key_opened [simp]: "seg_key (opened seg w) = seg_key seg"
  by (simp add: opened_def OpenOrCreate_def OpenOnly_def Let_def split: option.split)

lemma fresh_object:
  "shm_blocks (IncreaseReferenceCounts (State c)) = replicate (unat (block_num c)) Block"
  "shm_bufs (IncreaseReferenceCounts (State c)) = replicate (unat (block_num c)) (replicate (unat (block_buf_size c)) 0)"
  "\<not> need_remap (IncreaseReferenceCounts (State c))" "state_ceiling (IncreaseReferenceCounts (State c)) = ceiling_msg_size c"
  "shm_seq (IncreaseReferenceCounts (State c)) = 0"
  by (simp_all add: IncreaseReferenceCounts_def State_def)

lemma conf_16K: "ceiling_msg_size (ShmConf_Update MESSAGE_SIZE_16K) = 16384" "block_num (ShmConf_Update MESSAGE_SIZE_16K) = 512"
  by (simp_all add: ShmConf_Update_def GetCeilingMessageSize_def GetBlockNum_def Let_def shm_sizes)

lemma Segment_fresh: "seg_channel_id (Segment k ch) = ch" "\<not> seg_init (Segment k ch)"
  "seg_conf (Segment k ch) = ShmConf_Update MESSAGE_SIZE_16K" "seg_key (Segment PosixSegment ch) = ch"
  "seg_kind (Segment k ch) = k" by (simp_all add: Segment_def seg_key_def)

definition demo_info :: message_info where
  "demo_info = \<lparr>mi_sender_id = replicate 8 1, mi_seq_num = 5, mi_spare_id = replicate 8 2\<rparr>"

abbreviation "demo_seg \<equiv> opened (Segment PosixSegment 7) no_shm"
abbreviation "demo_world \<equiv> opened_world (Segment PosixSegment 7) no_shm"
abbreviation "demo_object \<equiv> IncreaseReferenceCounts (State (ShmConf_Update MESSAGE_SIZE_16K))"

lemma demo:
  "attached demo_seg 0 demo_object demo_world" "shm_names demo_world 7 = Some 0" "seg_key demo_seg = 7"
  "shm_next demo_world = 1" "\<not> need_remap demo_object" "unat (state_ceiling demo_object) = 16384"
  "length (shm_blocks demo_object) = 512" "lock_num (shm_blocks demo_object ! 0) = 0" "message_info_wf demo_info"
proof -
  have "0 = shm_next no_shm" by (simp add: no_shm_def)
  then show "attached demo_seg 0 demo_object demo_world" "shm_names demo_world 7 = Some 0"
    using OpenOrCreate_new(2,3) [of no_shm "Segment PosixSegment 7" MESSAGE_SIZE_16K] by (simp_all add: Segment_fresh no_shm_def)
  show "seg_key demo_seg = 7" by (simp add: seg_key_opened Segment_fresh)
  show "shm_next demo_world = 1"
    using OpenOrCreate_new(6) [of no_shm "Segment PosixSegment 7" MESSAGE_SIZE_16K] by (simp add: Segment_fresh no_shm_def)
qed (simp_all add: fresh_object conf_16K Block_def message_info_wf_def demo_info_def ID_SIZE_def)

text \<open>The position of the buffer of block \<open>i\<close> in the mapped memory, for the sizes of the two C++ classes.\<close>

definition block_buf_offset :: "nat \<Rightarrow> nat \<Rightarrow> shm_conf \<Rightarrow> nat \<Rightarrow> nat" where
  "block_buf_offset sizeof_State sizeof_Block c i =
     sizeof_State + unat (block_num c) * sizeof_Block + i * unat (block_buf_size c)"

text \<open>
  The layout of a segment is sound: for every message size up to 32 MB the configuration
  chosen has buffers that hold the message together with its info record, and with the state and
  block headers within the sizes the configuration reserves for them, every buffer lies inside the
  mapped memory, behind the headers, and before the next buffer.
\<close>

lemma buffers_fit_in_segment:
  fixes n
  defines "c \<equiv> ShmConf_Update n"
  assumes "sizeof_State \<le> 5120" and "sizeof_Block \<le> 1024" and "i < unat (block_num c)"
  shows "block_buf_offset sizeof_State sizeof_Block c i + unat (block_buf_size c) \<le> unat (managed_shm_size c)
    \<and> sizeof_State + unat (block_num c) * sizeof_Block \<le> block_buf_offset sizeof_State sizeof_Block c i
    \<and> block_buf_offset sizeof_State sizeof_Block c i + unat (block_buf_size c) = block_buf_offset sizeof_State sizeof_Block c (Suc i)
    \<and> (n \<le> MESSAGE_SIZE_MORE \<longrightarrow> unat n + MessageInfo_kSize \<le> unat (block_buf_size c))"
proof -
  note k = conf_numbers [of n, folded c_def]
  let ?N = "unat (block_num c)" and ?B = "unat (block_buf_size c)"
  have "Suc i * ?B \<le> ?N * ?B" using assms(4) by (intro mult_le_mono1) simp
  then have "i * ?B + ?B \<le> ?N * ?B" unfolding mult_Suc by (simp only: add.commute)
  moreover have "?N * sizeof_Block \<le> ?N * 1024" using assms(3) by (rule mult_le_mono2)
  ultimately have "block_buf_offset sizeof_State sizeof_Block c i + ?B \<le> 5120 + ?N * 1024 + ?N * ?B"
    unfolding block_buf_offset_def using assms(2) by linarith
  then have "block_buf_offset sizeof_State sizeof_Block c i + ?B \<le> unat (managed_shm_size c)"
    using k(3) by (simp add: algebra_simps)
  moreover have "unat n + MessageInfo_kSize \<le> ?B" if "n \<le> MESSAGE_SIZE_MORE"
  proof -
    have "unat n \<le> unat (GetCeilingMessageSize n)" using ceiling_enough [OF that] by (simp add: word_le_nat_alt)
    moreover have "ceiling_msg_size c = GetCeilingMessageSize n" by (simp add: c_def ShmConf_Update_def Let_def)
    ultimately show ?thesis using k(2) by (simp add: MessageInfo_kSize_def ID_SIZE_def)
  qed
  ultimately show ?thesis by (simp add: block_buf_offset_def)
qed

lemma buffers_fit_in_segment_witness:
  "block_buf_offset 24 24 (ShmConf_Update 100000) 127 + unat (block_buf_size (ShmConf_Update 100000)) \<le> unat (managed_shm_size (ShmConf_Update 100000))"
proof -
  have "block_num (ShmConf_Update 100000) = 128"
    by (simp add: ShmConf_Update_def GetCeilingMessageSize_def GetBlockNum_def Let_def shm_sizes)
  then have "(127 :: nat) < unat (block_num (ShmConf_Update 100000))" by simp
  from buffers_fit_in_segment [OF _ _ this, of 24 24] show ?thesis by simp
qed


section \<open>Growing a segment\<close>

text \<open>What \<^verbatim>\<open>Recreate\<close> hands to \<^verbatim>\<open>OpenOrCreate\<close>: a detached handle for the new size, and memory without the old name.\<close>

definition detached :: "u64 \<Rightarrow> segment \<Rightarrow> segment" where
  "detached n seg = seg\<lparr>seg_init := False, seg_shm := None, seg_conf := ShmConf_Update n\<rparr>"

definition abandoned :: "nat \<Rightarrow> u64 \<Rightarrow> shm_world \<Rightarrow> shm_world" where
  "abandoned p ch w = w\<lparr>shm_objects := (shm_objects w)(p := map_option (\<lambda>s. s\<lparr>need_remap := True\<rparr>) (shm_objects w p)),
     shm_names := (shm_names w)(ch := None)\<rparr>"

definition regrown :: "u64 \<Rightarrow> segment \<Rightarrow> nat \<Rightarrow> shm_world \<Rightarrow> segment" where
  "regrown n seg p w = opened (detached n seg) (abandoned p (seg_key seg) w)"

definition regrown_world :: "u64 \<Rightarrow> segment \<Rightarrow> nat \<Rightarrow> shm_world \<Rightarrow> shm_world" where
  "regrown_world n seg p w = opened_world (detached n seg) (abandoned p (seg_key seg) w)"

abbreviation "new_object n \<equiv> IncreaseReferenceCounts (State (ShmConf_Update n))"

lemma Recreate_attached:
  assumes "seg_shm seg = Some p" "shm_names w (seg_key seg) = Some p"
  shows "Recreate (strong Works) n seg w = Inr (True, regrown n seg p w, regrown_world n seg p w)"
    and "attached (regrown n seg p w) (shm_next w) (new_object n) (regrown_world n seg p w)"
    and "shm_names (regrown_world n seg p w) = (shm_names w)(seg_key seg \<mapsto> shm_next w)"
    and "seg_channel_id (regrown n seg p w) = seg_channel_id seg"
    and "shm_objects (regrown_world n seg p w) =
      (shm_objects w)(p := map_option (\<lambda>s. s\<lparr>need_remap := True\<rparr>) (shm_objects w p), shm_next w \<mapsto> new_object n)"
proof -
  let ?w = "abandoned p (seg_key seg) w"
  have new: "shm_names ?w (seg_key (detached n seg)) = None" "\<not> seg_init (detached n seg)"
    "seg_conf (detached n seg) = ShmConf_Update n" by (simp_all add: abandoned_def detached_def)
  note o = OpenOrCreate_new [OF new]
  have "Recreate (strong Works) n seg w = Inr (OpenOrCreate (strong Works) (detached n seg) ?w)"
    using assms by (simp add: Recreate_def Segment_Remove_def Segment_Reset_def on_object_def Let_def detached_def abandoned_def)
  then show "Recreate (strong Works) n seg w = Inr (True, regrown n seg p w, regrown_world n seg p w)"
    using o(1) by (simp add: regrown_def regrown_world_def)
  show "attached (regrown n seg p w) (shm_next w) (new_object n) (regrown_world n seg p w)"
    using o(2) by (simp add: regrown_def regrown_world_def abandoned_def)
qed (use assms in \<open>simp_all add: OpenOrCreate_new abandoned_def detached_def regrown_def regrown_world_def\<close>)

lemma AcquireBlockToWrite_grows:
  assumes at: "attached seg p obj w" and r: "\<not> need_remap obj" and size: "state_ceiling obj < n"
    and nm: "shm_names w (seg_key seg) = Some p"
  shows "AcquireBlockToWrite (strong Works) n seg w =
    (case next_writable (\<lambda>_. False) 0 (GetBlockNum (GetCeilingMessageSize n)) (new_object n) of
       None \<Rightarrow> None
     | Some (i, obj') \<Rightarrow> Some (Inr (Some i, regrown n seg p w,
         (regrown_world n seg p w)\<lparr>shm_objects := (shm_objects (regrown_world n seg p w))(shm_next w \<mapsto> obj')\<rparr>)))"
proof -
  have a: "seg_init seg" "seg_shm seg = Some p" "shm_objects w p = Some obj" "object_ok obj"
    "seg_conf seg = ShmConf_Update (state_ceiling obj)" using at by (auto simp: attached_def)
  note rc = Recreate_attached [OF a(2) nm, of n]
  have g: "seg_shm (regrown n seg p w) = Some (shm_next w)" "shm_objects (regrown_world n seg p w) (shm_next w) = Some (new_object n)"
    "block_num (seg_conf (regrown n seg p w)) = GetBlockNum (GetCeilingMessageSize n)"
    using rc(2) by (auto simp: attached_def fresh_object(4) ShmConf_Update_def ceiling_idem Let_def)
  show ?thesis
    using a(1-3,5) r size object_conf [OF a(4)] rc(1) g by (simp add: AcquireBlockToWrite_def Let_def split: option.split prod.split)
qed

lemma next_writable_fresh:
  "next_writable (\<lambda>_. False) 0 (GetBlockNum (GetCeilingMessageSize n)) (new_object n) = Some (0, taken (new_object n) 0 0)"
proof -
  have b: "block_num (ShmConf_Update n) = GetBlockNum (GetCeilingMessageSize n)" by (simp add: ShmConf_Update_def Let_def)
  have "0 < unat (block_num (ShmConf_Update n))" "unat (block_num (ShmConf_Update n)) dvd 2 ^ 32" using conf_numbers(4,5) by blast+
  then show ?thesis using next_writable_reaches [of "block_num (ShmConf_Update n)" 0 "\<lambda>_. False" 0 "new_object n"]
    by (simp add: takes_def fresh_object Block_def b [symmetric])
qed

lemma GetBlockNum_antimono:
  assumes "c \<in> fst ` set shm_ceilings" "c' \<in> fst ` set shm_ceilings" "c \<le> c'"
  shows "GetBlockNum c' \<le> GetBlockNum c"
  using assms by (auto simp: shm_ceilings_def GetBlockNum_def shm_sizes)

text \<open>A write that does not fit ends like one on the segment made for its size.\<close>

lemma write_message_grows:
  assumes at: "attached seg p obj w" and r: "\<not> need_remap obj" and size: "state_ceiling obj < n"
    and nm: "shm_names w (seg_key seg) = Some p" and more: "n \<le> MESSAGE_SIZE_MORE" and len: "n = of_nat (length msg)"
  shows "write_message (strong Works) ser h msg info seg w = write_message (strong Works) ser h msg info (regrown n seg p w) (regrown_world n seg p w)"
proof -
  have "seg_shm seg = Some p" using at by (simp add: attached_def)
  note rc = Recreate_attached [OF this nm, of n]
  have g: "seg_init (regrown n seg p w)" "seg_shm (regrown n seg p w) = Some (shm_next w)"
    "shm_objects (regrown_world n seg p w) (shm_next w) = Some (new_object n)"
    "ceiling_msg_size (seg_conf (regrown n seg p w)) = GetCeilingMessageSize n"
    "block_num (seg_conf (regrown n seg p w)) = GetBlockNum (GetCeilingMessageSize n)"
    using rc(2) by (auto simp: attached_def fresh_object(4) ShmConf_Update_def ceiling_idem Let_def)
  have "\<not> GetCeilingMessageSize n < n" using ceiling_enough [OF more] by simp
  then have "AcquireBlockToWrite (strong Works) n seg w = AcquireBlockToWrite (strong Works) n (regrown n seg p w) (regrown_world n seg p w)"
    unfolding AcquireBlockToWrite_grows [OF at r size nm]
    using g next_writable_fresh [of n] fresh_object(3) by (simp add: AcquireBlockToWrite_def Let_def)
  then show ?thesis by (simp add: write_message_def len)
qed

lemma write_message_large:
  assumes at: "attached seg p obj w" and r: "\<not> need_remap obj" and size: "unat (state_ceiling obj) < length msg"
    and nm: "shm_names w (seg_key seg) = Some p" and more: "length msg \<le> unat MESSAGE_SIZE_MORE" and info: "message_info_wf info"
  defines "n \<equiv> of_nat (length msg)"
  obtains i k where "write_message (strong Works) True h msg info seg w = Some (Inr (Some \<lparr>ri_host_id = h, ri_block_index = i, ri_channel_id = seg_channel_id seg\<rparr>,
      regrown n seg p w, (regrown_world n seg p w)\<lparr>shm_objects := (shm_objects (regrown_world n seg p w))
        (shm_next w \<mapsto> sent (new_object n) i k msg info)\<rparr>))"
    "unat i < unat (GetBlockNum (GetCeilingMessageSize n))"
proof -
  have un: "unat n = length msg" unfolding n_def using more by (intro unat_of_nat_u64) (simp add: MESSAGE_SIZE_MORE_def)
  have lt: "state_ceiling obj < n" and le: "n \<le> MESSAGE_SIZE_MORE" using size more un by (simp_all add: word_less_nat_alt word_le_nat_alt)
  have sm: "seg_shm seg = Some p" using at by (simp add: attached_def)
  note rc = Recreate_attached [OF sm nm, of n]
  have c: "state_ceiling (new_object n) = GetCeilingMessageSize n" by (simp add: fresh_object ShmConf_Update_def Let_def)
  then have fits: "length msg \<le> unat (state_ceiling (new_object n))"
    using ceiling_enough [OF le] un by (simp add: word_le_nat_alt)
  have blocks: "takes (weak_write (strong Works)) (block_num (seg_conf (regrown n seg p w))) (new_object n) 0"
  proof -
    have "seg_conf (regrown n seg p w) = ShmConf_Update n"
      using rc(2) c by (simp add: attached_def ShmConf_Update_ceiling)
    then show ?thesis using conf_numbers(4) [of n] by (simp add: takes_def fresh_object Block_def)
  qed
  have num: "length (shm_blocks (new_object n)) = unat (GetBlockNum (GetCeilingMessageSize n))"
    by (simp add: fresh_object ShmConf_Update_def Let_def)
  show thesis
    by (rule write_message_attached [OF rc(2) fresh_object(3) fits blocks info, of h])
      (rule that, simp_all add: write_message_grows [OF at r lt nm le n_def [THEN meta_eq_to_obj_eq]] rc(4) num)
qed

text \<open>A reader that still has the old object remaps and then reads like one attached to the new object.\<close>

lemma ReadMessage_remaps:
  assumes rd: "seg_init rd" "seg_shm rd = Some q" "shm_objects w q = Some old" "need_remap old"
    and nm: "shm_names w (seg_key rd) = Some p" and new: "shm_objects w p = Some obj" "\<not> need_remap obj"
    and i: "i < block_num (seg_conf rd)" "i < block_num (ShmConf_Update (state_ceiling obj))"
  shows "ReadMessage (strong Works) i rd w = ReadMessage (strong Works) i (rd\<lparr>seg_conf := ShmConf_Update (state_ceiling obj), seg_shm := Some p\<rparr>)
    (on_object p IncreaseReferenceCounts w)"
proof -
  have seg: "rd\<lparr>seg_init := False, seg_shm := None, seg_init := True, seg_conf := c, seg_shm := Some p\<rparr> = rd\<lparr>seg_conf := c, seg_shm := Some p\<rparr>" for c
    using rd(1) by (cases rd) simp
  have op: "Remap (strong Works) rd w = (True, rd\<lparr>seg_conf := ShmConf_Update (state_ceiling obj), seg_shm := Some p\<rparr>, on_object p IncreaseReferenceCounts w)"
    using nm new rd(1) seg by (simp add: Remap_def Segment_Reset_def OpenOnly_def)
  have o: "shm_objects (on_object p IncreaseReferenceCounts w) p = Some (IncreaseReferenceCounts obj)"
    using new by (simp add: on_object_def)
  have "AcquireBlockToRead (strong Works) i rd w =
      AcquireBlockToRead (strong Works) i (rd\<lparr>seg_conf := ShmConf_Update (state_ceiling obj), seg_shm := Some p\<rparr>) (on_object p IncreaseReferenceCounts w)"
    using rd i [unfolded not_le [symmetric]] new(2) by (simp add: AcquireBlockToRead_def op o IncreaseReferenceCounts_def Let_def)
  then show ?thesis by (simp add: ReadMessage_def)
qed

text \<open>
  A message that does not fit the segment is delivered all the same.  For every message
  longer than the ceiling of the segment and up to 32 MB, the writer replaces the segment by a larger
  one and sends through that, and a reader that still has the old segment mapped notices it, maps the
  new segment and gets exactly the bytes and the info that were sent.
\<close>

lemma large_message_through_new_segment:
  assumes "attached seg p obj w" and "\<not> need_remap obj" and "unat (state_ceiling obj) < length msg"
    and "length msg \<le> unat MESSAGE_SIZE_MORE" and "message_info_wf info"
    and "shm_names w (seg_key seg) = Some p" and "p < shm_next w"
    and "attached rd p obj w" and "seg_key rd = seg_key seg"
  shows "\<exists>ri seg' w' rd' w''. write_message (strong Works) True h msg info seg w = Some (Inr (Some ri, seg', w'))
    \<and> shm_names w' (seg_key seg) = Some (shm_next w) \<and> seg_shm seg' = Some (shm_next w)
    \<and> ReadMessage (strong Works) (ri_block_index ri) rd w' = Inr (Some (msg, info), rd', w'')
    \<and> seg_shm rd' = Some (shm_next w)"
proof -
  let ?n = "of_nat (length msg) :: u64"
  obtain i k where tx: "write_message (strong Works) True h msg info seg w = Some (Inr (Some \<lparr>ri_host_id = h, ri_block_index = i, ri_channel_id = seg_channel_id seg\<rparr>,
      regrown ?n seg p w, (regrown_world ?n seg p w)\<lparr>shm_objects := (shm_objects (regrown_world ?n seg p w))(shm_next w \<mapsto> sent (new_object ?n) i k msg info)\<rparr>))"
    and i: "unat i < unat (GetBlockNum (GetCeilingMessageSize ?n))"
    by (rule write_message_large [OF assms(1-3,6,4,5)])
  let ?w = "(regrown_world ?n seg p w)\<lparr>shm_objects := (shm_objects (regrown_world ?n seg p w))(shm_next w \<mapsto> sent (new_object ?n) i k msg info)\<rparr>"
  have a: "seg_shm seg = Some p" "shm_objects w p = Some obj" "object_ok obj" using assms(1) by (auto simp: attached_def)
  have b: "seg_init rd" "seg_shm rd = Some p" "seg_conf rd = ShmConf_Update (state_ceiling obj)" using assms(8) by (auto simp: attached_def)
  note rc = Recreate_attached [OF a(1) assms(6), of ?n]
  have c: "state_ceiling (new_object ?n) = GetCeilingMessageSize ?n" by (simp add: fresh_object ShmConf_Update_def Let_def)
  have un: "unat ?n = length msg" using assms(4) by (intro unat_of_nat_u64) (simp add: MESSAGE_SIZE_MORE_def)
  have le: "?n \<le> GetCeilingMessageSize ?n" using assms(4) un by (intro ceiling_enough) (simp add: word_le_nat_alt)
  have new_ok: "object_ok (new_object ?n)" using rc(2) by (simp add: attached_def)
  have num: "block_num (ShmConf_Update (GetCeilingMessageSize ?n)) = GetBlockNum (GetCeilingMessageSize ?n)"
    by (simp add: ShmConf_Update_def ceiling_idem Let_def)
  have len: "unat i < length (shm_blocks (new_object ?n))" using i new_ok c by (simp add: object_ok_def)
  have "length msg \<le> unat (state_ceiling (new_object ?n))" using le un c by (simp add: word_le_nat_alt)
  note h = holds_sent [OF new_ok fresh_object(3) len this assms(5), of k]
  let ?rd = "rd\<lparr>seg_conf := ShmConf_Update (GetCeilingMessageSize ?n), seg_shm := Some (shm_next w)\<rparr>"
  have "ReadMessage (strong Works) i rd ?w = ReadMessage (strong Works) i ?rd (on_object (shm_next w) IncreaseReferenceCounts ?w)"
  proof (rule ReadMessage_remaps [where p = "shm_next w" and q = p and obj = "sent (new_object ?n) i k msg info" and old = "obj\<lparr>need_remap := True\<rparr>",
        unfolded h(2) c])
    have "GetBlockNum (GetCeilingMessageSize ?n) \<le> GetBlockNum (state_ceiling obj)"
    proof (rule GetBlockNum_antimono)
      show "state_ceiling obj \<in> fst ` set shm_ceilings"
        using ceiling_listed [of "state_ceiling obj"] a(3) by (force simp: object_ok_def)
      show "GetCeilingMessageSize ?n \<in> fst ` set shm_ceilings" using ceiling_listed [of ?n] by force
      show "state_ceiling obj \<le> GetCeilingMessageSize ?n" using assms(3) un le by (simp add: word_le_nat_alt)
    qed
    then show "i < block_num (seg_conf rd)" using i b(3) object_conf [OF a(3)] by (simp add: word_less_nat_alt word_le_nat_alt)
  qed (use a b h(1) i num assms(7,9) rc in \<open>simp_all add: holds_message_def word_less_nat_alt\<close>)
  also have "\<dots> = Inr (Some (msg, info), ?rd, on_object (shm_next w) IncreaseReferenceCounts ?w)"
    by (rule ReadMessage_holds [where p = "shm_next w" and obj = "IncreaseReferenceCounts (sent (new_object ?n) i k msg info)" and c = 0])
      (use b h c assms(5) in \<open>simp_all add: on_object_def\<close>, simp add: IncreaseReferenceCounts_def)
  finally have "ReadMessage (strong Works) i rd ?w = Inr (Some (msg, info), ?rd, on_object (shm_next w) IncreaseReferenceCounts ?w)" .
  moreover have "seg_shm (regrown ?n seg p w) = Some (shm_next w)" using rc(2) by (simp add: attached_def)
  ultimately show ?thesis using tx rc(3) by (intro exI conjI) (assumption | simp)+
qed

lemma large_message_through_new_segment_witness:
  "\<exists>ri seg' w' rd' w''. write_message (strong Works) True 3 (replicate 20000 9) demo_info demo_seg demo_world = Some (Inr (Some ri, seg', w'))
    \<and> ReadMessage (strong Works) (ri_block_index ri) demo_seg w' = Inr (Some (replicate 20000 9, demo_info), rd', w'') \<and> seg_shm rd' = Some 1"
proof -
  have "unat (state_ceiling demo_object) < length (replicate 20000 (9 :: u8))" "length (replicate 20000 (9 :: u8)) \<le> unat MESSAGE_SIZE_MORE"
    using demo(6) by (simp_all add: MESSAGE_SIZE_MORE_def)
  moreover have "shm_names demo_world (seg_key demo_seg) = Some 0" "0 < shm_next demo_world" using demo by simp_all
  ultimately show ?thesis
    using large_message_through_new_segment [OF demo(1,5) _ _ demo(9) _ _ demo(1) refl, of "replicate 20000 9" 3] demo(4) by auto
qed

section \<open>Errors\<close>

text \<open>
  No configuration is made for messages above 32 MB: sending a message that exceeds 32 MB by
  1000 bytes or more through a mapped segment always writes behind the end of the block's buffer.
\<close>

lemma oversized_message_overflows:
  assumes "attached seg p obj w" and "\<not> need_remap obj" and "unat MESSAGE_SIZE_MORE + 1000 < length msg" and "length msg < 2 ^ 64"
    and "shm_names w (seg_key seg) = Some p"
  shows "write_message (strong Works) True h msg info seg w = Some (Inl BufferOverflow)"
proof -
  let ?n = "of_nat (length msg) :: u64"
  have un: "unat ?n = length msg" using assms(4) by (rule unat_of_nat_u64)
  have a: "seg_shm seg = Some p" "object_ok obj" using assms(1) by (auto simp: attached_def)
  have "unat MESSAGE_SIZE_MORE < unat ?n" using assms(3) un by simp
  then have big: "MESSAGE_SIZE_MORE < ?n" by (simp only: word_less_nat_alt)
  have top: "GetCeilingMessageSize m \<le> MESSAGE_SIZE_MORE" for m by (simp add: GetCeilingMessageSize_def shm_sizes)
  then have "state_ceiling obj < ?n" using a(2) big unfolding object_ok_def by (metis le_less_trans)
  from AcquireBlockToWrite_grows [OF assms(1,2) this assms(5)] next_writable_fresh [of ?n]
  have acq: "AcquireBlockToWrite (strong Works) ?n seg w = Some (Inr (Some 0, regrown ?n seg p w, (regrown_world ?n seg p w)
      \<lparr>shm_objects := (shm_objects (regrown_world ?n seg p w))(shm_next w \<mapsto> taken (new_object ?n) 0 0)\<rparr>))" by simp
  note rc = Recreate_attached [OF a(1) assms(5), of ?n]
  have sm: "seg_shm (regrown ?n seg p w) = Some (shm_next w)" using rc(2) by (simp add: attached_def)
  have "length (shm_bufs (taken (new_object ?n) 0 0) ! 0) = unat (block_buf_size (ShmConf_Update ?n))"
    using conf_numbers(4) [of ?n] by (simp add: taken_def fresh_object)
  also have "\<dots> \<le> unat MESSAGE_SIZE_MORE + 1024"
    using conf_numbers(2) [of ?n] top [of ?n] by (simp add: ShmConf_Update_def Let_def word_le_nat_alt)
  finally show ?thesis using acq sm assms(3) by (simp add: write_message_def MessageInfo_kSize_def ID_SIZE_def)
qed

lemma oversized_message_overflows_witness:
  "write_message (strong Works) True 3 (replicate 40000000 9) demo_info demo_seg demo_world = Some (Inl BufferOverflow)"
proof (rule oversized_message_overflows [OF demo(1,5)])
  show "unat MESSAGE_SIZE_MORE + 1000 < length (replicate 40000000 (9 :: u8))" by (simp add: MESSAGE_SIZE_MORE_def)
  show "shm_names demo_world (seg_key demo_seg) = Some 0" using demo(2,3) by simp
qed simp

text \<open>
  A reader checks the block index of a notification against the segment it has mapped and then
  remaps, so that a notification of the old segment with an index the new one does not have makes it
  access a block that does not exist.
\<close>

lemma stale_index_after_remap:
  assumes "seg_init rd" and "seg_shm rd = Some q" and "shm_objects w q = Some old" and "need_remap old"
    and "shm_names w (seg_key rd) = Some p" and "shm_objects w p = Some obj"
    and "length (shm_blocks obj) \<le> unat i" and "i < block_num (seg_conf rd)"
  shows "ReadMessage (strong Works) i rd w = Inl BlockOutOfRange"
proof -
  have "\<not> block_num (seg_conf rd) \<le> i" using assms(8) by simp
  then have "AcquireBlockToRead (strong Works) i rd w = Inl BlockOutOfRange"
    using assms(1-7) by (simp add: AcquireBlockToRead_def Remap_def Segment_Reset_def OpenOnly_def
      on_object_def IncreaseReferenceCounts_def Let_def)
  then show ?thesis by (simp add: ReadMessage_def)
qed

lemma stale_index_after_remap_witness:
  "ReadMessage (strong Works) 300 demo_seg (regrown_world 20000 demo_seg 0 demo_world) = Inl BlockOutOfRange"
proof -
  have a: "seg_init demo_seg" "seg_shm demo_seg = Some 0" "shm_objects demo_world 0 = Some demo_object"
    "seg_conf demo_seg = ShmConf_Update 16384"
    using demo(1) by (simp_all add: attached_def fresh_object conf_16K)
  have nm: "shm_names demo_world (seg_key demo_seg) = Some 0" using demo by simp
  note rc = Recreate_attached [OF a(2) nm, of 20000]
  show ?thesis
  proof (rule stale_index_after_remap [OF a(1,2)])
    show "shm_objects (regrown_world 20000 demo_seg 0 demo_world) 0 = Some (demo_object\<lparr>need_remap := True\<rparr>)"
      using rc(5) a(3) demo(4) by simp
    show "shm_names (regrown_world 20000 demo_seg 0 demo_world) (seg_key demo_seg) = Some 1" using rc(3) demo(4) by simp
    show "shm_objects (regrown_world 20000 demo_seg 0 demo_world) 1 = Some (new_object 20000)" using rc(5) demo(4) by simp
  qed (simp_all add: a(4) fresh_object ShmConf_Update_def GetCeilingMessageSize_def GetBlockNum_def Let_def shm_sizes)
qed

text \<open>
  A writer whose segment was replaced and that cannot map the new one goes on without a
  segment when the message is larger than its ceiling: it marks the segment it no longer has.
\<close>

lemma failed_remap_uses_null_state:
  assumes "attached seg p obj w" and "need_remap obj" and "unat (state_ceiling obj) < length msg" and "length msg < 2 ^ 64"
  shows "write_message (strong Map_fails) ser h msg info seg w = Some (Inl NullState)"
proof -
  have a: "seg_init seg" "seg_shm seg = Some p" "shm_objects w p = Some obj" "object_ok obj"
    "seg_conf seg = ShmConf_Update (state_ceiling obj)" using assms(1) by (auto simp: attached_def)
  have "unat (of_nat (length msg) :: u64) = length msg" using assms(4) by (rule unat_of_nat_u64)
  then have "state_ceiling obj < of_nat (length msg)" using assms(3) by (simp add: word_less_nat_alt)
  moreover have "Remap (strong Map_fails) seg w = (False, seg\<lparr>seg_init := False, seg_shm := None\<rparr>, w)"
    by (cases seg) (simp add: Remap_def Segment_Reset_def OpenOnly_def split: option.split)
  ultimately have "AcquireBlockToWrite (strong Map_fails) (of_nat (length msg)) seg w = Some (Inl NullState)"
    using a assms(2) object_conf [OF a(4)] by (simp add: AcquireBlockToWrite_def Recreate_def Let_def)
  then show ?thesis by (simp add: write_message_def)
qed

lemma failed_remap_uses_null_state_witness:
  "write_message (strong Map_fails) True 3 (replicate 20000 9) demo_info demo_seg
     (demo_world\<lparr>shm_objects := (shm_objects demo_world)(0 \<mapsto> demo_object\<lparr>need_remap := True\<rparr>)\<rparr>) = Some (Inl NullState)"
proof (rule failed_remap_uses_null_state)
  show "attached demo_seg 0 (demo_object\<lparr>need_remap := True\<rparr>)
      (demo_world\<lparr>shm_objects := (shm_objects demo_world)(0 \<mapsto> demo_object\<lparr>need_remap := True\<rparr>)\<rparr>)"
    using demo(1) by (simp add: attached_def object_ok_def)
qed (use demo(6) in simp_all)



text \<open>
  A failing \<^verbatim>\<open>ftruncate\<close> leaves the name of the channel behind with an empty object: from then on no
  process can open or create the segment, whatever the system calls do.
\<close>

lemma failed_truncate_blocks_channel:
  assumes "\<not> seg_init seg" and "shm_names w (seg_key seg) = None" and "shm_objects w (shm_next w) = None"
    and "OpenOrCreate (strong Truncate_fails) seg w = (ok, seg', w')" and "\<not> seg_init seg2" and "seg_key seg2 = seg_key seg" and "seg_kind seg = PosixSegment"
  shows "\<not> ok \<and> OpenOrCreate sys seg2 w' = (False, seg2, w')"
  using assms by (auto simp: OpenOrCreate_def OpenOnly_def Let_def)

lemma failed_truncate_blocks_channel_witness:
  "OpenOrCreate (strong Works) (Segment PosixSegment 7) (snd (snd (OpenOrCreate (strong Truncate_fails) (Segment PosixSegment 7) no_shm)))
   = (False, Segment PosixSegment 7, snd (snd (OpenOrCreate (strong Truncate_fails) (Segment PosixSegment 7) no_shm)))"
proof -
  obtain ok s w where r: "OpenOrCreate (strong Truncate_fails) (Segment PosixSegment 7) no_shm = (ok, s, w)" by (cases "OpenOrCreate (strong Truncate_fails) (Segment PosixSegment 7) no_shm") auto
  have "\<not> seg_init (Segment PosixSegment 7)" "shm_names no_shm (seg_key (Segment PosixSegment 7)) = None" "shm_objects no_shm (shm_next no_shm) = None"
    by (simp_all add: Segment_fresh no_shm_def)
  from failed_truncate_blocks_channel [OF this r this(1) refl Segment_fresh(5), of "strong Works"] show ?thesis by (simp add: r)
qed

end
