(* ===== verification/Condition_Notifier.thy ===== *)
theory Condition_Notifier
  imports Byte_Codec
begin

text \<open>
  \<^verbatim>\<open>cyber/transport/shm/condition_notifier.cc\<close>: the ring in shared memory through which a transmitter
  announces the block it wrote.  \<^verbatim>\<open>Notify\<close> and \<^verbatim>\<open>Listen\<close> are given first as a single process runs them,
  then as the steps of processes that interleave (\<open>nt_step\<close>).
\<close>

section \<open>The ring\<close>

definition kBufLength :: nat where "kBufLength = 4096"

record indicator =
  ind_next_seq :: u64
  ind_infos :: "readable_info list"
  ind_seqs :: "u64 list"

definition ReadableInfo_default :: readable_info where
  "ReadableInfo_default = \<lparr>ri_host_id = 0, ri_block_index = 0, ri_channel_id = 0\<rparr>"

definition Indicator :: indicator where
  "Indicator = \<lparr>ind_next_seq = 0, ind_infos = replicate kBufLength ReadableInfo_default, ind_seqs = replicate kBufLength 0\<rparr>"

record notifier =
  nt_next_seq :: u64
  nt_is_shutdown :: bool

text \<open>The constructor; \<open>r\<close> is what \<^verbatim>\<open>Init\<close> attached, if it succeeded.\<close>

definition ConditionNotifier :: "indicator option \<Rightarrow> notifier" where
  "ConditionNotifier r =
     (case r of
        None \<Rightarrow> \<lparr>nt_next_seq = 0, nt_is_shutdown = True\<rparr>
      | Some ind \<Rightarrow> \<lparr>nt_next_seq = ind_next_seq ind, nt_is_shutdown = False\<rparr>)"

definition nt_Shutdown :: "notifier \<Rightarrow> notifier" where
  "nt_Shutdown h = h\<lparr>nt_is_shutdown := True\<rparr>"

definition slot_of :: "u64 \<Rightarrow> nat" where
  "slot_of seq = unat seq mod kBufLength"

text \<open>The three accesses of \<^verbatim>\<open>Notify\<close> to the shared ring.\<close>

definition fetch_seq :: "indicator \<Rightarrow> u64 \<times> indicator" where
  "fetch_seq ind = (ind_next_seq ind, ind\<lparr>ind_next_seq := ind_next_seq ind + 1\<rparr>)"

definition store_info :: "u64 \<Rightarrow> readable_info \<Rightarrow> indicator \<Rightarrow> indicator" where
  "store_info seq info ind = ind\<lparr>ind_infos := (ind_infos ind)[slot_of seq := info]\<rparr>"

definition store_seq :: "u64 \<Rightarrow> indicator \<Rightarrow> indicator" where
  "store_seq seq ind = ind\<lparr>ind_seqs := (ind_seqs ind)[slot_of seq := seq]\<rparr>"

definition nt_Notify :: "readable_info \<Rightarrow> notifier \<Rightarrow> indicator \<Rightarrow> bool \<times> indicator" where
  "nt_Notify info h ind =
     (if nt_is_shutdown h then (False, ind)
      else case fetch_seq ind of (seq, ind) \<Rightarrow> (True, store_seq seq (store_info seq info ind)))"

text \<open>
  One round of the loop of \<^verbatim>\<open>Listen\<close>, and the loop: it polls every 50 microseconds until the time is up;
  \<open>env k\<close> is the ring and the shutdown flag in round \<open>k\<close>.
\<close>

definition Listen_round :: "notifier \<Rightarrow> indicator \<Rightarrow> (readable_info \<times> notifier) option" where
  "Listen_round h ind =
     (if ind_next_seq ind \<noteq> nt_next_seq h then
        let idx = slot_of (nt_next_seq h); actual_seq = ind_seqs ind ! idx
        in if nt_next_seq h \<le> actual_seq then Some (ind_infos ind ! idx, h\<lparr>nt_next_seq := actual_seq + 1\<rparr>) else None
      else None)"

function Listen_loop :: "(nat \<Rightarrow> indicator \<times> bool) \<Rightarrow> nat \<Rightarrow> int \<Rightarrow> notifier \<Rightarrow> readable_info option \<times> notifier" where
  "Listen_loop env k timeout_us h =
     (case env k of (ind, shut) \<Rightarrow>
        if shut then (None, h)
        else case Listen_round h ind of
               Some (info, h') \<Rightarrow> (Some info, h')
             | None \<Rightarrow> if 0 < timeout_us then Listen_loop env (Suc k) (timeout_us - 50) h else (None, h))"
  by pat_completeness auto
termination by (relation "measure (\<lambda>(env, k, t, h). nat t)") auto

declare Listen_loop.simps [simp del]

definition nt_Listen :: "(nat \<Rightarrow> indicator \<times> bool) \<Rightarrow> int \<Rightarrow> notifier \<Rightarrow> readable_info option \<times> notifier" where
  "nt_Listen env timeout_ms h = (if nt_is_shutdown h then (None, h) else Listen_loop env 0 (timeout_ms * 1000) h)"

section \<open>A process on its own\<close>

lemma kBufLength_pos [simp]: "0 < kBufLength" by (simp add: kBufLength_def)

lemma slot_of_less [simp]: "slot_of seq < kBufLength" by (simp add: slot_of_def)

definition ring_ok :: "indicator \<Rightarrow> bool" where
  "ring_ok ind \<longleftrightarrow> length (ind_infos ind) = kBufLength \<and> length (ind_seqs ind) = kBufLength"

fun notify_all :: "readable_info list \<Rightarrow> notifier \<Rightarrow> indicator \<Rightarrow> indicator" where
  "notify_all [] h ind = ind"
| "notify_all (x # xs) h ind = notify_all xs h (snd (nt_Notify x h ind))"

text \<open>Calls of \<^verbatim>\<open>Listen\<close> on a ring nobody else changes, until one times out; \<open>n\<close> bounds their number.\<close>

fun listen_all :: "nat \<Rightarrow> int \<Rightarrow> indicator \<Rightarrow> notifier \<Rightarrow> readable_info list \<times> notifier" where
  "listen_all 0 t ind h = ([], h)"
| "listen_all (Suc n) t ind h =
     (case nt_Listen (\<lambda>_. (ind, False)) t h of
        (None, h') \<Rightarrow> ([], h')
      | (Some x, h') \<Rightarrow> (case listen_all n t ind h' of (xs, h'') \<Rightarrow> (x # xs, h'')))"

lemma notify_all_snoc: "notify_all (xs @ [x]) h ind = snd (nt_Notify x h (notify_all xs h ind))"
  by (induction xs arbitrary: ind) auto

text \<open>What the ring holds after a series of notifications that fits into it.\<close>

lemma notify_all_ring:
  assumes "ring_ok ind" "\<not> nt_is_shutdown h" "length xs \<le> kBufLength" "unat (ind_next_seq ind) + length xs < 2 ^ 64"
  shows "ring_ok (notify_all xs h ind) \<and> unat (ind_next_seq (notify_all xs h ind)) = unat (ind_next_seq ind) + length xs
    \<and> (\<forall>j<length xs. let s = unat (ind_next_seq ind) + j in
         unat (ind_seqs (notify_all xs h ind) ! (s mod kBufLength)) = s \<and> ind_infos (notify_all xs h ind) ! (s mod kBufLength) = xs ! j)"
  using assms(3,4)
proof (induction xs rule: rev_induct)
  case Nil
  then show ?case using assms(1) by simp
next
  case (snoc x xs)
  let ?r = "notify_all xs h ind" and ?n = "unat (ind_next_seq ind)"
  have IH: "ring_ok ?r" "unat (ind_next_seq ?r) = ?n + length xs"
    "\<And>j. j < length xs \<Longrightarrow> unat (ind_seqs ?r ! ((?n + j) mod kBufLength)) = ?n + j \<and> ind_infos ?r ! ((?n + j) mod kBufLength) = xs ! j"
    using snoc by (auto simp: Let_def)
  have r: "notify_all (xs @ [x]) h ind = store_seq (ind_next_seq ?r) (store_info (ind_next_seq ?r) x (?r\<lparr>ind_next_seq := ind_next_seq ?r + 1\<rparr>))"
    using assms(2) by (simp add: notify_all_snoc nt_Notify_def fetch_seq_def)
  have other: "(?n + length xs) mod kBufLength \<noteq> (?n + j) mod kBufLength" if "j < length xs" for j
    using that snoc.prems(1) by (intro mod_neq_window) auto
  have "unat (ind_next_seq ?r + 1) = ?n + length (xs @ [x])"
    using unat_Suc_u64 [of "ind_next_seq ?r"] IH(2) snoc.prems(2) by simp
  then show ?case
    using IH other unfolding r
    by (auto simp: store_seq_def store_info_def ring_ok_def slot_of_def Let_def nth_append less_Suc_eq)
qed

lemma nt_Listen_now:
  assumes "\<not> nt_is_shutdown h" "Listen_round h ind = Some (info, h')"
  shows "nt_Listen (\<lambda>_. (ind, False)) t h = (Some info, h')"
  using assms by (simp add: nt_Listen_def Listen_loop.simps [of _ 0])

lemma Listen_loop_times_out: "Listen_round h ind = None \<Longrightarrow> Listen_loop (\<lambda>_. (ind, False)) k t h = (None, h)"
proof (induction "nat t" arbitrary: t k rule: less_induct)
  case less
  then show ?case by (subst Listen_loop.simps) simp
qed

lemma listen_all_ring:
  assumes "\<not> nt_is_shutdown h" "unat (nt_next_seq h) + length xs = unat (ind_next_seq ind)"
    "\<forall>j<length xs. unat (ind_seqs ind ! ((unat (nt_next_seq h) + j) mod kBufLength)) = unat (nt_next_seq h) + j
       \<and> ind_infos ind ! ((unat (nt_next_seq h) + j) mod kBufLength) = xs ! j"
  shows "listen_all (Suc (length xs)) t ind h = (xs, h\<lparr>nt_next_seq := ind_next_seq ind\<rparr>)"
  using assms
proof (induction xs arbitrary: h)
  case Nil
  then have "ind_next_seq ind = nt_next_seq h" unfolding u64_eq_iff by simp
  moreover from this have "Listen_round h ind = None" by (simp add: Listen_round_def)
  ultimately show ?case using Nil.prems(1) by (simp add: nt_Listen_def Listen_loop_times_out)
next
  case (Cons x xs)
  let ?n = "nt_next_seq h"
  have lt: "unat ?n < unat (ind_next_seq ind)" using Cons.prems(2) by simp
  then have ne: "ind_next_seq ind \<noteq> ?n" by auto
  have "unat (ind_seqs ind ! (unat ?n mod kBufLength)) = unat ?n" and i: "ind_infos ind ! (unat ?n mod kBufLength) = x"
    using Cons.prems(3) by (auto dest: spec [of _ 0])
  then have s: "ind_seqs ind ! slot_of ?n = ?n" unfolding u64_eq_iff slot_of_def by simp
  let ?h = "h\<lparr>nt_next_seq := ?n + 1\<rparr>"
  have l: "nt_Listen (\<lambda>_. (ind, False)) t h = (Some x, ?h)"
    using ne s i Cons.prems(1) by (intro nt_Listen_now) (auto simp: Listen_round_def slot_of_def Let_def)
  have n: "unat (nt_next_seq ?h) = Suc (unat ?n)"
    using unat_Suc_u64 [of ?n] lt unat_u64_bound [of "ind_next_seq ind"] by simp
  have "listen_all (Suc (length xs)) t ind ?h = (xs, ?h\<lparr>nt_next_seq := ind_next_seq ind\<rparr>)"
  proof (rule Cons.IH)
    show "unat (nt_next_seq ?h) + length xs = unat (ind_next_seq ind)" using n Cons.prems(2) by simp
    show "\<forall>j<length xs. unat (ind_seqs ind ! ((unat (nt_next_seq ?h) + j) mod kBufLength)) = unat (nt_next_seq ?h) + j
       \<and> ind_infos ind ! ((unat (nt_next_seq ?h) + j) mod kBufLength) = xs ! j"
      unfolding n using Cons.prems(3) by (auto dest: spec [of _ "Suc _"])
  qed (use Cons.prems(1) in simp)
  then show ?case by (simp only: list.size listen_all.simps(2) [of "Suc _"] add_0_right add_Suc_right) (simp add: l)
qed

text \<open>
  Claim C34. A listener that has fallen behind by at most 4096 notifications receives every one of
  them, in the order they were made, and then nothing; for any time limit.
\<close>

theorem listener_receives_all_in_order:
  assumes "ring_ok ind" and "\<not> nt_is_shutdown h" and "\<not> nt_is_shutdown l" and "nt_next_seq l = ind_next_seq ind"
    and "length xs \<le> kBufLength" and "unat (ind_next_seq ind) + length xs < 2 ^ 64"
  shows "listen_all (Suc (length xs)) t (notify_all xs h ind) l = (xs, l\<lparr>nt_next_seq := ind_next_seq (notify_all xs h ind)\<rparr>)"
  using notify_all_ring [OF assms(1,2,5,6)] assms(3,4) by (intro listen_all_ring) (simp_all add: Let_def)

theorem listener_receives_all_in_order_witness:
  "listen_all 3 10 (notify_all [\<lparr>ri_host_id = 1, ri_block_index = 4, ri_channel_id = 9\<rparr>, \<lparr>ri_host_id = 1, ri_block_index = 5, ri_channel_id = 9\<rparr>]
       (ConditionNotifier (Some Indicator)) Indicator) (ConditionNotifier (Some Indicator)) =
     ([\<lparr>ri_host_id = 1, ri_block_index = 4, ri_channel_id = 9\<rparr>, \<lparr>ri_host_id = 1, ri_block_index = 5, ri_channel_id = 9\<rparr>],
      \<lparr>nt_next_seq = 2, nt_is_shutdown = False\<rparr>)"
  using listener_receives_all_in_order [of Indicator "ConditionNotifier (Some Indicator)" "ConditionNotifier (Some Indicator)"
    "[\<lparr>ri_host_id = 1, ri_block_index = 4, ri_channel_id = 9\<rparr>, \<lparr>ri_host_id = 1, ri_block_index = 5, ri_channel_id = 9\<rparr>]" 10]
  by (simp add: ring_ok_def Indicator_def ConditionNotifier_def kBufLength_def nt_Notify_def fetch_seq_def store_info_def store_seq_def numeral_3_eq_3
    del: listen_all.simps)

section \<open>Processes that interleave\<close>

text \<open>
  Any number of notifying processes and a listening one.  \<open>nt_log\<close> is a ghost: what the calls of \<^verbatim>\<open>Notify\<close>
  were given, in the order they drew their sequence numbers.
\<close>

datatype writer = WIdle | WFetched u64 readable_info | WStored u64 readable_info

datatype listener = LPoll | LLoad | LCopy nat

record nt_system =
  nt_ring :: indicator
  nt_writers :: "nat \<Rightarrow> writer"
  l_pc :: listener
  l_next :: u64
  l_received :: "(u64 \<times> readable_info) list"
  nt_log :: "readable_info list"

definition nt_init :: nt_system where
  "nt_init = \<lparr>nt_ring = Indicator, nt_writers = (\<lambda>_. WIdle), l_pc = LPoll, l_next = 0, l_received = [], nt_log = []\<rparr>"

inductive nt_step :: "nt_system \<Rightarrow> nt_system \<Rightarrow> bool" where
  fetch: "nt_writers s p = WIdle \<Longrightarrow> fetch_seq (nt_ring s) = (q, r) \<Longrightarrow>
    nt_step s (s\<lparr>nt_ring := r, nt_writers := (nt_writers s)(p := WFetched q x), nt_log := nt_log s @ [x]\<rparr>)"
| store: "nt_writers s p = WFetched q x \<Longrightarrow>
    nt_step s (s\<lparr>nt_ring := store_info q x (nt_ring s), nt_writers := (nt_writers s)(p := WStored q x)\<rparr>)"
| publish: "nt_writers s p = WStored q x \<Longrightarrow>
    nt_step s (s\<lparr>nt_ring := store_seq q (nt_ring s), nt_writers := (nt_writers s)(p := WIdle)\<rparr>)"
| attach: "l_pc s = LPoll \<Longrightarrow> nt_step s (s\<lparr>l_next := ind_next_seq (nt_ring s)\<rparr>)"
| poll: "l_pc s = LPoll \<Longrightarrow> ind_next_seq (nt_ring s) \<noteq> l_next s \<Longrightarrow> nt_step s (s\<lparr>l_pc := LLoad\<rparr>)"
| wait: "l_pc s = LLoad \<Longrightarrow> ind_seqs (nt_ring s) ! slot_of (l_next s) < l_next s \<Longrightarrow> nt_step s (s\<lparr>l_pc := LPoll\<rparr>)"
| load: "l_pc s = LLoad \<Longrightarrow> l_next s \<le> ind_seqs (nt_ring s) ! slot_of (l_next s) \<Longrightarrow>
    nt_step s (s\<lparr>l_pc := LCopy (slot_of (l_next s)), l_next := ind_seqs (nt_ring s) ! slot_of (l_next s)\<rparr>)"
| copy: "l_pc s = LCopy i \<Longrightarrow>
    nt_step s (s\<lparr>l_pc := LPoll, l_received := l_received s @ [(l_next s, ind_infos (nt_ring s) ! i)], l_next := l_next s + 1\<rparr>)"

fun busy :: "writer \<Rightarrow> (u64 \<times> readable_info) option" where
  "busy WIdle = None"
| "busy (WFetched q x) = Some (q, x)"
| "busy (WStored q x) = Some (q, x)"

text \<open>No call of \<^verbatim>\<open>Notify\<close> is overtaken by a whole round of the ring, and the counter stays in its range.\<close>

definition timely :: "nt_system \<Rightarrow> bool" where
  "timely s \<longleftrightarrow> length (nt_log s) < 2 ^ 64 \<and> (\<forall>p q x. busy (nt_writers s p) = Some (q, x) \<longrightarrow> length (nt_log s) \<le> unat q + kBufLength)"

inductive nt_reach :: "nt_system \<Rightarrow> bool" where
  start: "nt_reach nt_init"
| step: "nt_reach s \<Longrightarrow> nt_step s s' \<Longrightarrow> timely s' \<Longrightarrow> nt_reach s'"

definition writers_ok :: "nt_system \<Rightarrow> bool" where
  "writers_ok s \<longleftrightarrow> ring_ok (nt_ring s) \<and> timely s \<and> unat (ind_next_seq (nt_ring s)) = length (nt_log s)
     \<and> (\<forall>p q x. busy (nt_writers s p) = Some (q, x) \<longrightarrow> unat q < length (nt_log s) \<and> nt_log s ! unat q = x)
     \<and> (\<forall>p p' q x x'. busy (nt_writers s p) = Some (q, x) \<longrightarrow> busy (nt_writers s p') = Some (q, x') \<longrightarrow> p = p')
     \<and> (\<forall>p q x. nt_writers s p = WStored q x \<longrightarrow> ind_infos (nt_ring s) ! slot_of q = x)"

text \<open>A published slot holds the notification of its number, unless a later one is just being stored there.\<close>

definition slot_ok :: "nt_system \<Rightarrow> nat \<Rightarrow> bool" where
  "slot_ok s i \<longleftrightarrow> (let q = ind_seqs (nt_ring s) ! i in q \<noteq> 0 \<longrightarrow> slot_of q = i \<and> unat q < length (nt_log s)
     \<and> (ind_infos (nt_ring s) ! i = nt_log s ! unat q \<or> (\<exists>p q' x. nt_writers s p = WStored q' x \<and> slot_of q' = i)))"

definition slots_ok :: "nt_system \<Rightarrow> bool" where
  "slots_ok s \<longleftrightarrow> (\<forall>i<kBufLength. slot_ok s i)"

definition listener_ok :: "nt_system \<Rightarrow> bool" where
  "listener_ok s \<longleftrightarrow> unat (l_next s) \<le> length (nt_log s)
     \<and> sorted_wrt (\<lambda>a b. fst a < fst b) (l_received s) \<and> (\<forall>r\<in>set (l_received s). fst r < l_next s)
     \<and> (l_pc s \<noteq> LPoll \<longrightarrow> unat (l_next s) < length (nt_log s))
     \<and> (\<forall>i. l_pc s = LCopy i \<longrightarrow> i = slot_of (l_next s)
          \<and> (l_next s \<noteq> 0 \<longrightarrow> length (nt_log s) \<le> unat (l_next s) + kBufLength \<longrightarrow> ind_seqs (nt_ring s) ! i = l_next s))"

lemma busy_stored: "w = WStored q x \<Longrightarrow> busy w = Some (q, x)"
  by simp

text \<open>Two sequence numbers of the current round with the same slot are equal.\<close>

lemma same_slot:
  assumes "slot_of q = slot_of q'" "unat q < n" "unat q' < n" "n \<le> unat q + kBufLength" "n \<le> unat q' + kBufLength"
  shows "q = q'"
  using assms mod_eq_window [of "unat q" kBufLength "unat q'"] unfolding slot_of_def u64_eq_iff by simp

lemma writers_okD:
  assumes "writers_ok s" "busy (nt_writers s p) = Some (q, x)"
  shows "unat q < length (nt_log s)" "nt_log s ! unat q = x" "length (nt_log s) \<le> unat q + kBufLength"
    "busy (nt_writers s p') = Some (q, x') \<Longrightarrow> p' = p"
  using assms unfolding writers_ok_def timely_def by blast+

lemma writers_ok_slot:
  assumes "writers_ok s" "busy (nt_writers s p) = Some (q, x)" "busy (nt_writers s p') = Some (q', x')" "slot_of q = slot_of q'"
  shows "p' = p \<and> q' = q"
  using same_slot [OF assms(4)] writers_okD [OF assms(1,2)] writers_okD(1,3) [OF assms(1,3)] assms(3) by metis

lemma writers_ok_fewer:
  assumes "writers_ok s" "timely s'" "ring_ok (nt_ring s')" "nt_log s' = nt_log s"
    "ind_next_seq (nt_ring s') = ind_next_seq (nt_ring s)" "ind_infos (nt_ring s') = ind_infos (nt_ring s)"
    "\<And>p. nt_writers s' p \<noteq> WIdle \<Longrightarrow> nt_writers s' p = nt_writers s p"
  shows "writers_ok s'"
proof -
  have b: "busy (nt_writers s p) = Some r" if "busy (nt_writers s' p) = Some r" for p r
    using that assms(7) [of p] by (metis busy.simps(1) option.distinct(1))
  have w: "nt_writers s p = WStored q x" if "nt_writers s' p = WStored q x" for p q x
    using that assms(7) [of p] by simp
  note ok = assms(1) [unfolded writers_ok_def]
  show ?thesis unfolding writers_ok_def assms(4-6)
    by (intro conjI assms(2,3)) (use ok in blast, use ok b in blast, use ok b in blast, use ok w in blast)
qed

lemma writers_ok_step:
  assumes "nt_step s s'" "writers_ok s" "timely s'"
  shows "writers_ok s'"
  using assms
proof (induction rule: nt_step.induct)
  case (fetch s p q r x)
  have q: "unat q = length (nt_log s)" "r = (nt_ring s)\<lparr>ind_next_seq := ind_next_seq (nt_ring s) + 1\<rparr>"
    using fetch.prems(1) fetch.hyps(2) by (auto simp: fetch_seq_def writers_ok_def)
  have n: "unat (ind_next_seq r) = Suc (length (nt_log s))"
    using q fetch.prems fetch.hyps(2) unat_Suc_u64 [of q] by (auto simp: timely_def fetch_seq_def)
  have fresh: "busy (nt_writers s p') \<noteq> Some (q, x')" for p' x'
    using q(1) writers_okD(1) [OF fetch.prems(1), of p' q x'] by auto
  show ?case
    unfolding writers_ok_def
  proof (intro conjI)
    show "\<forall>p' q' x'. busy (nt_writers (s\<lparr>nt_ring := r, nt_writers := (nt_writers s)(p := WFetched q x), nt_log := nt_log s @ [x]\<rparr>) p') = Some (q', x') \<longrightarrow>
       unat q' < length (nt_log (s\<lparr>nt_ring := r, nt_writers := (nt_writers s)(p := WFetched q x), nt_log := nt_log s @ [x]\<rparr>)) \<and>
       nt_log (s\<lparr>nt_ring := r, nt_writers := (nt_writers s)(p := WFetched q x), nt_log := nt_log s @ [x]\<rparr>) ! unat q' = x'"
      using q(1) writers_okD(1,2) [OF fetch.prems(1)] by (auto simp: nth_append less_Suc_eq)
    show "\<forall>p1 p2 q' x1 x2. busy (nt_writers (s\<lparr>nt_ring := r, nt_writers := (nt_writers s)(p := WFetched q x), nt_log := nt_log s @ [x]\<rparr>) p1) = Some (q', x1) \<longrightarrow>
       busy (nt_writers (s\<lparr>nt_ring := r, nt_writers := (nt_writers s)(p := WFetched q x), nt_log := nt_log s @ [x]\<rparr>) p2) = Some (q', x2) \<longrightarrow> p1 = p2"
      using fresh writers_okD(4) [OF fetch.prems(1)] by (auto split: if_splits)
  qed (use fetch q n in \<open>auto simp: writers_ok_def ring_ok_def split: if_splits\<close>)
next
  case (store s p q x)
  note W = writers_okD [OF store.prems(1)] and S = writers_ok_slot [OF store.prems(1)]
  have b: "busy (nt_writers s p) = Some (q, x)" using store.hyps by simp
  have keep: "busy (if p' = p then WStored q x else nt_writers s p') = busy (nt_writers s p')" for p' using b by simp
  have "ind_infos (store_info q x (nt_ring s)) ! slot_of q' = x'" if "((nt_writers s)(p := WStored q x)) p' = WStored q' x'" for p' q' x'
  proof (cases "p' = p")
    case True
    then show ?thesis using that store.prems(1) by (simp add: store_info_def writers_ok_def ring_ok_def)
  next
    case False
    then have w: "nt_writers s p' = WStored q' x'" using that by simp
    then have "slot_of q \<noteq> slot_of q'" using S [OF b, of p' q' x'] False by auto
    then show ?thesis using w store.prems(1) by (simp add: store_info_def writers_ok_def)
  qed
  then show ?case using store.prems keep by (auto simp: writers_ok_def ring_ok_def store_info_def fun_upd_def)
next
  case (publish s p q x)
  have "ring_ok (store_seq q (nt_ring s))" using publish.prems(1) by (simp add: writers_ok_def ring_ok_def store_seq_def)
  then show ?case using publish.prems(1) by (intro writers_ok_fewer [OF publish.prems]) (simp_all add: store_seq_def split: if_splits)
qed (simp_all add: writers_ok_def)

lemma slot_okI:
  assumes "slot_ok s i" "ind_seqs (nt_ring s') ! i = ind_seqs (nt_ring s) ! i" "ind_infos (nt_ring s') ! i = ind_infos (nt_ring s) ! i"
    "nt_log s' = nt_log s @ xs" "\<And>p q x. nt_writers s p = WStored q x \<Longrightarrow> slot_of q = i \<Longrightarrow> nt_writers s' p = WStored q x"
  shows "slot_ok s' i"
  using assms(1,5) unfolding slot_ok_def Let_def assms(2-4) by (fastforce simp: nth_append)

lemma slot_ok_step:
  assumes "nt_step s s'" "writers_ok s" "slot_ok s i"
  shows "slot_ok s' i"
  using assms
proof (induction rule: nt_step.induct)
  case (fetch s p q r x)
  then show ?case by (intro slot_okI [OF fetch.prems(2), where xs = "[x]"]) (auto simp: fetch_seq_def)
next
  case (store s p q x)
  show ?case
  proof (cases "slot_of q = i")
    case True
    let ?s = "s\<lparr>nt_ring := store_info q x (nt_ring s), nt_writers := (nt_writers s)(p := WStored q x)\<rparr>"
    have "nt_writers ?s p = WStored q x \<and> slot_of q = i" using True by simp
    then have "\<exists>p q' x. nt_writers ?s p = WStored q' x \<and> slot_of q' = i" by blast
    then show ?thesis using store.prems(2) unfolding slot_ok_def Let_def by (simp add: store_info_def)
  next
    case False
    then show ?thesis using store.hyps by (intro slot_okI [OF store.prems(2), where xs = "[]"]) (auto simp: store_info_def)
  qed
next
  case (publish s p q x)
  have b: "busy (nt_writers s p) = Some (q, x)" using publish.hyps by simp
  show ?case
  proof (cases "slot_of q = i")
    case True
    have "length (ind_seqs (nt_ring s)) = kBufLength" "ind_infos (nt_ring s) ! i = nt_log s ! unat q" "unat q < length (nt_log s)"
      using writers_okD(1,2) [OF publish.prems(1) b] publish True by (auto simp: writers_ok_def ring_ok_def)
    then show ?thesis using True slot_of_less [of q] by (simp add: slot_ok_def store_seq_def Let_def)
  next
    case False
    then show ?thesis using publish.hyps by (intro slot_okI [OF publish.prems(2), where xs = "[]"]) (auto simp: store_seq_def)
  qed
qed (simp_all add: slot_ok_def)

lemma slots_ok_step: "nt_step s s' \<Longrightarrow> writers_ok s \<Longrightarrow> slots_ok s \<Longrightarrow> slots_ok s'"
  using slot_ok_step unfolding slots_ok_def by blast

lemma listener_ok_step:
  assumes "nt_step s s'" "writers_ok s" "slots_ok s" "listener_ok s"
  shows "listener_ok s'"
  using assms
proof (induction rule: nt_step.induct)
  case (fetch s p q r x)
  then show ?case by (auto simp: listener_ok_def fetch_seq_def)
next
  case (publish s p q x)
  have b: "busy (nt_writers s p) = Some (q, x)" using publish.hyps by simp
  note W = writers_okD(1,3) [OF publish.prems(1) b]
  have "(ind_seqs (nt_ring s))[slot_of q := q] ! i = l_next s"
    if c: "l_pc s = LCopy i" "l_next s \<noteq> 0" "length (nt_log s) \<le> unat (l_next s) + kBufLength" for i
  proof -
    have l: "i = slot_of (l_next s)" "ind_seqs (nt_ring s) ! i = l_next s" "unat (l_next s) < length (nt_log s)"
      using publish.prems(3) c by (auto simp: listener_ok_def)
    show ?thesis
    proof (cases "slot_of q = i")
      case True
      then have "q = l_next s" using same_slot [of q "l_next s"] W l c(3) by metis
      then show ?thesis using True publish.prems(1) slot_of_less [of q] by (simp add: writers_ok_def ring_ok_def)
    qed (use l in simp)
  qed
  then show ?case using publish.prems(3) by (simp add: listener_ok_def store_seq_def)
next
  case (attach s)
  then have "unat (ind_next_seq (nt_ring s)) = length (nt_log s)" by (simp add: writers_ok_def)
  moreover from this attach have "l_next s \<le> ind_next_seq (nt_ring s)" by (simp add: listener_ok_def word_le_nat_alt)
  ultimately show ?case using attach by (auto simp: listener_ok_def)
next
  case (poll s)
  then have "unat (l_next s) \<noteq> length (nt_log s)" unfolding writers_ok_def by (metis u64_eq_iff)
  then show ?case using poll by (auto simp: listener_ok_def)
next
  case (load s)
  let ?q = "ind_seqs (nt_ring s) ! slot_of (l_next s)"
  have z: "l_next s = 0" if "?q = 0" using load.hyps(2) that by (metis word_le_0_iff)
  have "slot_of ?q = slot_of (l_next s) \<and> unat ?q < length (nt_log s)"
  proof (cases "?q = 0")
    case True
    then show ?thesis using z [OF True] load by (auto simp: listener_ok_def)
  next
    case False
    then show ?thesis using load.prems(2) slot_of_less [of "l_next s"] unfolding slots_ok_def slot_ok_def Let_def by blast
  qed
  moreover have "\<forall>r\<in>set (l_received s). fst r < ?q" using load by (auto simp: listener_ok_def intro: less_le_trans)
  ultimately show ?case using load by (auto simp: listener_ok_def)
next
  case (copy s i)
  then have lt: "unat (l_next s) < length (nt_log s)" "length (nt_log s) < 2 ^ 64" by (auto simp: listener_ok_def writers_ok_def timely_def)
  then have n: "unat (l_next s + 1) = Suc (unat (l_next s))" using unat_Suc_u64 [of "l_next s"] by simp
  then have "l_next s < l_next s + 1" by (simp add: word_less_nat_alt)
  then have "\<forall>r\<in>set (l_received s @ [(l_next s, x)]). fst r < l_next s + 1" for x
    using copy by (auto simp: listener_ok_def intro: less_trans)
  then show ?case using copy lt n by (auto simp: listener_ok_def sorted_wrt_append)
qed (auto simp: listener_ok_def store_info_def)

lemma nt_reach_ok: "nt_reach s \<Longrightarrow> writers_ok s \<and> slots_ok s \<and> listener_ok s"
proof (induction rule: nt_reach.induct)
  case start
  show ?case
    by (simp add: writers_ok_def slots_ok_def slot_ok_def listener_ok_def nt_init_def Indicator_def ring_ok_def timely_def)
next
  case (step s s')
  then show ?case using writers_ok_step slots_ok_step listener_ok_step by blast
qed

lemma current_slot:
  assumes "nt_reach s" "l_pc s = LCopy i" "l_next s \<noteq> 0" "length (nt_log s) \<le> unat (l_next s) + kBufLength"
  shows "ind_infos (nt_ring s) ! i = nt_log s ! unat (l_next s)"
proof -
  note ok = nt_reach_ok [OF assms(1), THEN conjunct1] nt_reach_ok [OF assms(1), THEN conjunct2]
  have l: "i = slot_of (l_next s)" "ind_seqs (nt_ring s) ! i = l_next s" "unat (l_next s) < length (nt_log s)"
    using ok(2) assms by (auto simp: listener_ok_def)
  show ?thesis
  proof (cases "\<exists>p q x. nt_writers s p = WStored q x \<and> slot_of q = i")
    case True
    then obtain p q x where w: "nt_writers s p = WStored q x" "slot_of q = i" by blast
    note W = writers_okD [OF ok(1) busy_stored [OF w(1)]]
    have "q = l_next s" using same_slot [of q "l_next s"] W(1,3) w(2) l assms(4) by metis
    moreover have "ind_infos (nt_ring s) ! slot_of q = x" using ok(1) w(1) by (auto simp: writers_ok_def)
    ultimately show ?thesis using W(2) w(2) by simp
  next
    case False
    moreover have "slot_ok s i" using ok(2) l(1) by (simp add: slots_ok_def)
    ultimately show ?thesis using l(2) assms(3) by (auto simp: slot_ok_def Let_def)
  qed
qed

text \<open>
  Whatever the interleaving of notifying processes and a listener, as long as no notification is
  overtaken by a whole round of the ring: what the listener receives is a notification that was made,
  under a sequence number above all it received before, and with the contents that notification was
  given, provided the listener is not overrun and the number is not 0.
\<close>

lemma listener_receives_what_was_notified:
  assumes "nt_reach s" and "nt_step s s'" and "l_received s' \<noteq> l_received s"
    and "l_next s \<noteq> 0" and "length (nt_log s) \<le> unat (l_next s) + kBufLength"
  shows "\<exists>q. l_received s' = l_received s @ [(q, nt_log s ! unat q)] \<and> unat q < length (nt_log s) \<and> (\<forall>r\<in>set (l_received s). fst r < q)"
  using assms(2,3)
proof cases
  case (copy i)
  have "listener_ok s" using nt_reach_ok [OF assms(1)] by simp
  then have "unat (l_next s) < length (nt_log s)" "\<forall>r\<in>set (l_received s). fst r < l_next s" using copy by (auto simp: listener_ok_def)
  then show ?thesis using current_slot [OF assms(1) copy(2) assms(4,5)] copy by simp
qed (use assms(3) in simp_all)

text \<open>A run in which one process notifies twice and a listener attaches between the two.\<close>

abbreviation "demo_1 \<equiv> \<lparr>ri_host_id = 1, ri_block_index = 4, ri_channel_id = 9\<rparr>"
abbreviation "demo_2 \<equiv> \<lparr>ri_host_id = 1, ri_block_index = 5, ri_channel_id = 9\<rparr>"

definition demo_ring :: "u64 \<Rightarrow> readable_info \<Rightarrow> readable_info \<Rightarrow> u64 \<Rightarrow> indicator" where
  "demo_ring n x y q = \<lparr>ind_next_seq = n, ind_infos = (replicate kBufLength ReadableInfo_default)[0 := x, 1 := y],
     ind_seqs = (replicate kBufLength 0)[1 := q]\<rparr>"

definition demo_nt :: "u64 \<Rightarrow> readable_info \<Rightarrow> readable_info \<Rightarrow> u64 \<Rightarrow> writer \<Rightarrow> listener \<Rightarrow> u64 \<Rightarrow> (u64 \<times> readable_info) list \<Rightarrow> readable_info list \<Rightarrow> nt_system" where
  "demo_nt n x y q w pc l rs log = \<lparr>nt_ring = demo_ring n x y q, nt_writers = (\<lambda>_. WIdle)(0 := w), l_pc = pc, l_next = l, l_received = rs, nt_log = log\<rparr>"

abbreviation "none \<equiv> ReadableInfo_default"

lemma demo_timely: "length log < 2 ^ 64 \<Longrightarrow> length log \<le> kBufLength \<Longrightarrow> timely (demo_nt n x y q w pc l rs log)"
  by (auto simp: timely_def demo_nt_def)

lemma demo_slots: "slot_of 0 = 0" "slot_of 1 = 1" by (simp_all add: slot_of_def kBufLength_def)

lemma demo_fields: "nt_writers (demo_nt n x y q w pc l rs log) 0 = w" "l_pc (demo_nt n x y q w pc l rs log) = pc"
  "l_next (demo_nt n x y q w pc l rs log) = l" "nt_ring (demo_nt n x y q w pc l rs log) = demo_ring n x y q"
  "nt_log (demo_nt n x y q w pc l rs log) = log" "l_received (demo_nt n x y q w pc l rs log) = rs"
  "ind_next_seq (demo_ring n x y q) = n" "ind_seqs (demo_ring n x y q) ! 0 = 0" "ind_seqs (demo_ring n x y q) ! 1 = q"
  "ind_infos (demo_ring n x y q) ! 1 = y" "ind_infos (demo_ring n x y q) ! 0 = x"
  "ind_seqs (demo_ring n x y q) ! Suc 0 = q" "ind_infos (demo_ring n x y q) ! Suc 0 = y"
  by (simp_all add: demo_nt_def demo_ring_def kBufLength_def)

lemma replicate_same [simp]: "(replicate n a)[i := a] = replicate n a"
  by (metis list_update_id list_update_beyond length_replicate not_le nth_replicate)

lemma demo_steps:
  "nt_step (demo_nt n x y q WIdle pc l rs log) (demo_nt (n + 1) x y q (WFetched n z) pc l rs (log @ [z]))"
  "nt_step (demo_nt n x y q (WFetched 0 z) pc l rs log) (demo_nt n z y q (WStored 0 z) pc l rs log)"
  "nt_step (demo_nt n x y q (WFetched 1 z) pc l rs log) (demo_nt n x z q (WStored 1 z) pc l rs log)"
  "nt_step (demo_nt n x y q (WStored 0 z) pc l rs log) (demo_nt n x y q WIdle pc l rs log)"
  "nt_step (demo_nt n x y q (WStored 1 z) pc l rs log) (demo_nt n x y 1 WIdle pc l rs log)"
  "nt_step (demo_nt n x y q w LPoll l rs log) (demo_nt n x y q w LPoll n rs log)"
  "n \<noteq> l \<Longrightarrow> nt_step (demo_nt n x y q w LPoll l rs log) (demo_nt n x y q w LLoad l rs log)"
  "nt_step (demo_nt n x y q w LLoad 0 rs log) (demo_nt n x y q w (LCopy 0) 0 rs log)"
  "nt_step (demo_nt n x y 1 w LLoad 1 rs log) (demo_nt n x y 1 w (LCopy 1) 1 rs log)"
  "nt_step (demo_nt n x y q w (LCopy 0) 0 rs log) (demo_nt n x y q w LPoll 1 (rs @ [(0, x)]) log)"
  "nt_step (demo_nt n x y q w (LCopy 1) 1 rs log) (demo_nt n x y q w LPoll 2 (rs @ [(1, y)]) log)"
proof -
  let ?s = "\<lambda>w pc l. demo_nt n x y q w pc l rs log"
  show "nt_step (?s WIdle pc l) (demo_nt (n + 1) x y q (WFetched n z) pc l rs (log @ [z]))"
    using nt_step.fetch [of "?s WIdle pc l" 0 n "demo_ring (n + 1) x y q" z]
    by (simp add: demo_fields fetch_seq_def) (simp add: demo_ring_def demo_nt_def)
  show "nt_step (?s (WFetched 0 z) pc l) (demo_nt n z y q (WStored 0 z) pc l rs log)"
    using nt_step.store [of "?s (WFetched 0 z) pc l" 0] by (simp add: demo_fields store_info_def demo_slots) (simp add: demo_ring_def demo_nt_def list_update_swap)
  show "nt_step (?s (WFetched 1 z) pc l) (demo_nt n x z q (WStored 1 z) pc l rs log)"
    using nt_step.store [of "?s (WFetched 1 z) pc l" 0] by (simp add: demo_fields store_info_def demo_slots) (simp add: demo_ring_def demo_nt_def)
  show "nt_step (?s (WStored 0 z) pc l) (?s WIdle pc l)"
    using nt_step.publish [of "?s (WStored 0 z) pc l" 0]
    by (simp add: demo_fields store_seq_def demo_slots) (simp add: demo_ring_def demo_nt_def list_update_swap [of "Suc 0" 0])
  show "nt_step (?s (WStored 1 z) pc l) (demo_nt n x y 1 WIdle pc l rs log)"
    using nt_step.publish [of "?s (WStored 1 z) pc l" 0] by (simp add: demo_fields store_seq_def demo_slots) (simp add: demo_ring_def demo_nt_def)
  show "nt_step (?s w LPoll l) (?s w LPoll n)"
    using nt_step.attach [of "?s w LPoll l"] by (simp add: demo_fields) (simp add: demo_nt_def)
  show "nt_step (?s w LPoll l) (?s w LLoad l)" if "n \<noteq> l"
    using nt_step.poll [of "?s w LPoll l"] that by (simp add: demo_fields) (simp add: demo_nt_def)
  show "nt_step (?s w LLoad 0) (?s w (LCopy 0) 0)"
    using nt_step.load [of "?s w LLoad 0"] by (simp add: demo_fields demo_slots) (simp add: demo_nt_def)
  show "nt_step (demo_nt n x y 1 w LLoad 1 rs log) (demo_nt n x y 1 w (LCopy 1) 1 rs log)"
    using nt_step.load [of "demo_nt n x y 1 w LLoad 1 rs log"] by (simp add: demo_fields demo_slots) (simp add: demo_nt_def)
  show "nt_step (?s w (LCopy 0) 0) (demo_nt n x y q w LPoll 1 (rs @ [(0, x)]) log)"
    using nt_step.copy [of "?s w (LCopy 0) 0" 0] by (simp add: demo_fields) (simp add: demo_nt_def)
  show "nt_step (?s w (LCopy 1) 1) (demo_nt n x y q w LPoll 2 (rs @ [(1, y)]) log)"
    using nt_step.copy [of "?s w (LCopy 1) 1" 1] by (simp add: demo_fields) (simp add: demo_nt_def)
qed

lemma demo_reach:
  assumes "nt_reach (demo_nt n x y q w pc l rs log)" "nt_step (demo_nt n x y q w pc l rs log) (demo_nt n' x' y' q' w' pc' l' rs' log')"
    "length log' \<le> kBufLength"
  shows "nt_reach (demo_nt n' x' y' q' w' pc' l' rs' log')"
  using nt_reach.step [OF assms(1,2)] assms(3) by (simp add: demo_timely kBufLength_def)

lemma demo_start: "nt_reach (demo_nt 0 none none 0 WIdle LPoll 0 [] [])"
proof -
  have "demo_nt 0 none none 0 WIdle LPoll 0 [] [] = nt_init"
    by (simp add: demo_nt_def demo_ring_def nt_init_def Indicator_def fun_upd_idem)
  then show ?thesis using nt_reach.start by simp
qed

lemma demo_first: "nt_reach (demo_nt 1 none none 0 (WFetched 0 demo_1) LPoll 0 [] [demo_1])"
  using demo_reach [OF demo_start demo_steps(1)] by (simp add: kBufLength_def)

lemma listener_receives_what_was_notified_witness:
  "\<exists>s s'. nt_reach s \<and> nt_step s s' \<and> nt_log s = [demo_1, demo_2] \<and> l_received s' = [(1, demo_2)]"
proof -
  have len: "length [] \<le> kBufLength" "length [a] \<le> kBufLength" "length [a, b] \<le> kBufLength" for a b :: readable_info
    by (simp_all add: kBufLength_def)
  have "nt_reach (demo_nt 1 none none 0 (WFetched 0 demo_1) LPoll 0 [] [demo_1])"
    by (rule demo_first)
  then have "nt_reach (demo_nt 1 demo_1 none 0 (WStored 0 demo_1) LPoll 0 [] [demo_1])" using demo_steps(2) len(2) by (rule demo_reach)
  then have "nt_reach (demo_nt 1 demo_1 none 0 WIdle LPoll 0 [] [demo_1])" using demo_steps(4) len(2) by (rule demo_reach)
  then have "nt_reach (demo_nt 1 demo_1 none 0 WIdle LPoll 1 [] [demo_1])" using demo_steps(6) len(2) by (rule demo_reach)
  then have "nt_reach (demo_nt 2 demo_1 none 0 (WFetched 1 demo_2) LPoll 1 [] [demo_1, demo_2])"
    using demo_reach [OF _ demo_steps(1)] by (fastforce simp: kBufLength_def)
  then have "nt_reach (demo_nt 2 demo_1 demo_2 0 (WStored 1 demo_2) LPoll 1 [] [demo_1, demo_2])" using demo_steps(3) len(3) by (rule demo_reach)
  then have "nt_reach (demo_nt 2 demo_1 demo_2 1 WIdle LPoll 1 [] [demo_1, demo_2])" using demo_steps(5) len(3) by (rule demo_reach)
  then have "nt_reach (demo_nt 2 demo_1 demo_2 1 WIdle LLoad 1 [] [demo_1, demo_2])"
    by (rule demo_reach) (rule demo_steps, simp, rule len)
  then have r: "nt_reach (demo_nt 2 demo_1 demo_2 1 WIdle (LCopy 1) 1 [] [demo_1, demo_2])" using demo_steps(9) len(3) by (rule demo_reach)
  have st: "nt_step (demo_nt 2 demo_1 demo_2 1 WIdle (LCopy 1) 1 [] [demo_1, demo_2])
      (demo_nt 2 demo_1 demo_2 1 WIdle LPoll 2 ([] @ [(1, demo_2)]) [demo_1, demo_2])" by (rule demo_steps)
  from listener_receives_what_was_notified [OF r st] have
    "\<exists>q. l_received (demo_nt 2 demo_1 demo_2 1 WIdle LPoll 2 ([] @ [(1, demo_2)]) [demo_1, demo_2]) = [(q, [demo_1, demo_2] ! unat q)]"
    by (simp add: demo_fields kBufLength_def)
  then show ?thesis using r st by (intro exI conjI) (assumption | simp add: demo_fields)+
qed

text \<open>
  The sequence number of a fresh ring's slot is already 0, so that a listener takes the first
  notification before it is written: with one process that has drawn number 0 and written nothing yet, the
  listener can receive an empty record instead, and it has then passed that notification.
\<close>

lemma first_notification_read_before_written:
  "\<exists>s. nt_reach s \<and> nt_log s = [demo_1] \<and> nt_writers s 0 = WFetched 0 demo_1 \<and> l_received s = [(0, ReadableInfo_default)] \<and> l_next s = 1"
proof -
  have len: "length [a] \<le> kBufLength" for a :: readable_info by (simp add: kBufLength_def)
  have "nt_reach (demo_nt 1 none none 0 (WFetched 0 demo_1) LPoll 0 [] [demo_1])"
    by (rule demo_first)
  then have "nt_reach (demo_nt 1 none none 0 (WFetched 0 demo_1) LLoad 0 [] [demo_1])"
    by (rule demo_reach) (rule demo_steps, simp, rule len)
  then have "nt_reach (demo_nt 1 none none 0 (WFetched 0 demo_1) (LCopy 0) 0 [] [demo_1])" using demo_steps(8) len by (rule demo_reach)
  then have "nt_reach (demo_nt 1 none none 0 (WFetched 0 demo_1) LPoll 1 ([] @ [(0, none)]) [demo_1])" using demo_steps(10) len by (rule demo_reach)
  then show ?thesis by (intro exI conjI) (assumption | simp add: demo_fields)+
qed

end
