(* ===== verification/Signals.thy ===== *)
theory Signals
  imports Cyber_Prelude
begin

text \<open>
  \<^verbatim>\<open>cyber/base/signal.h\<close> and \<^verbatim>\<open>cyber/transport/message/listener_handler.h\<close>: signals, their connections, and the
  listeners a channel has in a process.  Slots are shared between a signal and the connections to it, so
  they live in a heap; a connection has the slot and the signal (by name) it belongs to.
\<close>

section \<open>Signals\<close>

record 'c slot =
  cb :: "'c option"
  connected :: bool

text \<open>\<open>'k\<close> names the signals of a heap.\<close>

record ('k, 'c) signals =
  slot_heap :: "nat \<Rightarrow> 'c slot"
  slot_next :: nat
  slot_list :: "'k \<Rightarrow> nat list"

record 'k connection =
  conn_slot :: nat
  conn_signal :: 'k

definition no_signals :: "('k, 'c) signals" where
  "no_signals = \<lparr>slot_heap = (\<lambda>_. \<lparr>cb = None, connected = False\<rparr>), slot_next = 0, slot_list = (\<lambda>_. [])\<rparr>"

definition slot_connected :: "('k, 'c) signals \<Rightarrow> nat \<Rightarrow> bool" where
  "slot_connected h i = connected (slot_heap h i)"

definition Slot_Disconnect :: "nat \<Rightarrow> ('k, 'c) signals \<Rightarrow> ('k, 'c) signals" where
  "Slot_Disconnect i h = h\<lparr>slot_heap := (slot_heap h)(i := (slot_heap h i)\<lparr>connected := False\<rparr>)\<rparr>"

definition ClearDisconnectedSlots :: "'k \<Rightarrow> ('k, 'c) signals \<Rightarrow> ('k, 'c) signals" where
  "ClearDisconnectedSlots k h = h\<lparr>slot_list := (slot_list h)(k := filter (slot_connected h) (slot_list h k))\<rparr>"

definition Signal_Connect :: "'k \<Rightarrow> 'c option \<Rightarrow> ('k, 'c) signals \<Rightarrow> 'k connection \<times> ('k, 'c) signals" where
  "Signal_Connect k c h =
     (let i = slot_next h
      in (\<lparr>conn_slot = i, conn_signal = k\<rparr>,
          h\<lparr>slot_heap := (slot_heap h)(i := \<lparr>cb = c, connected = True\<rparr>), slot_next := Suc i,
            slot_list := (slot_list h)(k := slot_list h k @ [i])\<rparr>))"

definition IsConnected :: "'k connection \<Rightarrow> ('k, 'c) signals \<Rightarrow> bool" where
  "IsConnected c h = slot_connected h (conn_slot c)"

definition Signal_Disconnect :: "'k \<Rightarrow> 'k connection \<Rightarrow> ('k, 'c) signals \<Rightarrow> bool \<times> ('k, 'c) signals" where
  "Signal_Disconnect k c h =
     (let found = filter (\<lambda>i. conn_slot c = i) (slot_list h k);
          h' = fold Slot_Disconnect found h
      in if found = [] then (False, h') else (True, ClearDisconnectedSlots k h'))"

definition Connection_Disconnect :: "'k connection \<Rightarrow> ('k, 'c) signals \<Rightarrow> bool \<times> ('k, 'c) signals" where
  "Connection_Disconnect c h = Signal_Disconnect (conn_signal c) c h"

definition DisconnectAllSlots :: "'k \<Rightarrow> ('k, 'c) signals \<Rightarrow> ('k, 'c) signals" where
  "DisconnectAllSlots k h =
     (let h' = fold Slot_Disconnect (slot_list h k) h in h'\<lparr>slot_list := (slot_list h')(k := [])\<rparr>)"

text \<open>
  Emission goes over a copy of the list.  \<open>act c\<close> is what callback \<open>c\<close> does to the signals, e.g. disconnect a
  slot whose turn is still to come; the result has the callbacks that were called.
\<close>

fun call_slots :: "('c \<Rightarrow> ('k, 'c) signals \<Rightarrow> ('k, 'c) signals) \<Rightarrow> nat list \<Rightarrow> ('k, 'c) signals \<Rightarrow> 'c list \<times> ('k, 'c) signals" where
  "call_slots act [] h = ([], h)"
| "call_slots act (i # is) h =
     (case cb (slot_heap h i) of
        Some c \<Rightarrow> if slot_connected h i
                   then (case call_slots act is (act c h) of (cs, h') \<Rightarrow> (c # cs, h'))
                   else call_slots act is h
      | None \<Rightarrow> call_slots act is h)"

definition emit :: "('c \<Rightarrow> ('k, 'c) signals \<Rightarrow> ('k, 'c) signals) \<Rightarrow> 'k \<Rightarrow> ('k, 'c) signals \<Rightarrow> 'c list \<times> ('k, 'c) signals" where
  "emit act k h = (case call_slots act (slot_list h k) h of (cs, h') \<Rightarrow> (cs, ClearDisconnectedSlots k h'))"

section \<open>Listener handlers\<close>

text \<open>The signals of a handler: \<^verbatim>\<open>signal_\<close>, and one for each opposite id in \<^verbatim>\<open>signals_\<close>.\<close>

datatype signal_name = Self | Opposite u64

record 'c listener_handler =
  lh_signals :: "(signal_name, 'c) signals"
  signal_conns :: "u64 \<rightharpoonup> signal_name connection"
  lh_known :: "u64 set"
  signals_conns :: "u64 \<rightharpoonup> u64 \<rightharpoonup> signal_name connection"

definition ListenerHandler :: "'c listener_handler" where
  "ListenerHandler = \<lparr>lh_signals = no_signals, signal_conns = Map.empty, lh_known = {}, signals_conns = Map.empty\<rparr>"

definition lh_Connect :: "u64 \<Rightarrow> 'c \<Rightarrow> 'c listener_handler \<Rightarrow> 'c listener_handler" where
  "lh_Connect self_id listener lh =
     (case Signal_Connect Self (Some listener) (lh_signals lh) of (c, h) \<Rightarrow>
        if \<not> IsConnected c h then lh\<lparr>lh_signals := h\<rparr>
        else lh\<lparr>lh_signals := h, signal_conns := (signal_conns lh)(self_id \<mapsto> c)\<rparr>)"

definition lh_Connect_to :: "u64 \<Rightarrow> u64 \<Rightarrow> 'c \<Rightarrow> 'c listener_handler \<Rightarrow> 'c listener_handler" where
  "lh_Connect_to self_id oppo_id listener lh =
     (let lh = lh\<lparr>lh_known := insert oppo_id (lh_known lh)\<rparr>
      in case Signal_Connect (Opposite oppo_id) (Some listener) (lh_signals lh) of (c, h) \<Rightarrow>
           if \<not> IsConnected c h then lh\<lparr>lh_signals := h\<rparr>
           else let conns = (case signals_conns lh oppo_id of None \<Rightarrow> Map.empty | Some m \<Rightarrow> m)
                in lh\<lparr>lh_signals := h, signals_conns := (signals_conns lh)(oppo_id \<mapsto> conns(self_id \<mapsto> c))\<rparr>)"

definition lh_Disconnect :: "u64 \<Rightarrow> 'c listener_handler \<Rightarrow> 'c listener_handler" where
  "lh_Disconnect self_id lh =
     (case signal_conns lh self_id of
        None \<Rightarrow> lh
      | Some c \<Rightarrow> lh\<lparr>lh_signals := snd (Connection_Disconnect c (lh_signals lh)),
                     signal_conns := (signal_conns lh)(self_id := None)\<rparr>)"

definition lh_Disconnect_from :: "u64 \<Rightarrow> u64 \<Rightarrow> 'c listener_handler \<Rightarrow> 'c listener_handler" where
  "lh_Disconnect_from self_id oppo_id lh =
     (case signals_conns lh oppo_id of
        None \<Rightarrow> lh
      | Some m \<Rightarrow>
          (case m self_id of
             None \<Rightarrow> lh
           | Some c \<Rightarrow> lh\<lparr>lh_signals := snd (Connection_Disconnect c (lh_signals lh)),
                          signals_conns := (signals_conns lh)(oppo_id \<mapsto> m(self_id := None))\<rparr>))"

text \<open>\<open>oppo_id\<close> is the hash value of the sender's identity.\<close>

definition lh_Run ::
  "('c \<Rightarrow> (signal_name, 'c) signals \<Rightarrow> (signal_name, 'c) signals) \<Rightarrow> u64 \<Rightarrow> 'c listener_handler \<Rightarrow> 'c list \<times> 'c listener_handler" where
  "lh_Run act oppo_id lh =
     (case emit act Self (lh_signals lh) of (cs, h) \<Rightarrow>
        if oppo_id \<notin> lh_known lh then (cs, lh\<lparr>lh_signals := h\<rparr>)
        else case emit act (Opposite oppo_id) h of (cs', h') \<Rightarrow> (cs @ cs', lh\<lparr>lh_signals := h'\<rparr>))"

section \<open>What a signal calls\<close>

text \<open>What a slot calls, and the callbacks of the connected slots of a signal in the order they were connected.\<close>

definition slot_call :: "('k, 'c) signals \<Rightarrow> nat \<Rightarrow> 'c option" where
  "slot_call h i = (if slot_connected h i then cb (slot_heap h i) else None)"

primrec collect :: "(nat \<Rightarrow> 'c option) \<Rightarrow> nat list \<Rightarrow> 'c list" where
  "collect f [] = []"
| "collect f (i # is) = (case f i of None \<Rightarrow> collect f is | Some c \<Rightarrow> c # collect f is)"

definition listeners :: "('k, 'c) signals \<Rightarrow> 'k \<Rightarrow> 'c list" where
  "listeners h k = collect (slot_call h) (slot_list h k)"

lemma collect_append [simp]: "collect f (xs @ ys) = collect f xs @ collect f ys"
  by (induction xs) (auto split: option.split)

lemma collect_cong: "(\<And>i. i \<in> set xs \<Longrightarrow> f i = g i) \<Longrightarrow> collect f xs = collect g xs"
  by (induction xs) (auto split: option.split)

lemma collect_filter: "(\<And>i. i \<in> set xs \<Longrightarrow> f i \<noteq> None \<Longrightarrow> P i) \<Longrightarrow> collect f (filter P xs) = collect f xs"
proof (induction xs)
  case (Cons i "is")
  then show ?case by (cases "f i") auto
qed simp

text \<open>Slots are in one list, once, and were allocated.\<close>

definition signals_ok :: "('k, 'c) signals \<Rightarrow> bool" where
  "signals_ok h \<longleftrightarrow> (\<forall>k. distinct (slot_list h k) \<and> (\<forall>i\<in>set (slot_list h k). i < slot_next h))
     \<and> (\<forall>k k' i. i \<in> set (slot_list h k) \<longrightarrow> i \<in> set (slot_list h k') \<longrightarrow> k = k')"

lemma no_signals_ok: "signals_ok no_signals"
  by (simp add: signals_ok_def no_signals_def)

lemma listeners_Connect:
  assumes "signals_ok h" and "Signal_Connect k c h = (conn, h')"
  shows "signals_ok h'" and "listeners h' k' = listeners h k' @ (if k' = k then collect (\<lambda>_. c) [0] else [])"
    and "conn = \<lparr>conn_slot = slot_next h, conn_signal = k\<rparr>" and "slot_connected h' (slot_next h)"
    and "slot_next h \<in> set (slot_list h' k)"
proof -
  have h': "h' = h\<lparr>slot_heap := (slot_heap h)(slot_next h := \<lparr>cb = c, connected = True\<rparr>), slot_next := Suc (slot_next h),
      slot_list := (slot_list h)(k := slot_list h k @ [slot_next h])\<rparr>"
    and conn: "conn = \<lparr>conn_slot = slot_next h, conn_signal = k\<rparr>"
    using assms(2) by (auto simp: Signal_Connect_def Let_def)
  have old: "i \<noteq> slot_next h" if "i \<in> set (slot_list h j)" for i j using assms(1) that by (auto simp: signals_ok_def)
  show "signals_ok h'" using assms(1) old by (auto simp: signals_ok_def h' less_Suc_eq)
  have "collect (slot_call h') (slot_list h j) = listeners h j" for j
    unfolding listeners_def by (rule collect_cong) (use old in \<open>auto simp: h' slot_call_def slot_connected_def\<close>)
  moreover have "slot_call h' (slot_next h) = c" by (simp add: h' slot_call_def slot_connected_def)
  moreover have "slot_list h' = (slot_list h)(k := slot_list h k @ [slot_next h])" by (simp add: h')
  ultimately show "listeners h' k' = listeners h k' @ (if k' = k then collect (\<lambda>_. c) [0] else [])"
    by (simp add: listeners_def [of h'] split: option.split)
  show "slot_connected h' (slot_next h)" "slot_next h \<in> set (slot_list h' k)" by (simp_all add: h' slot_connected_def)
qed (use assms(2) in \<open>auto simp: Signal_Connect_def Let_def\<close>)

lemma fold_Slot_Disconnect:
  "slot_list (fold Slot_Disconnect is h) = slot_list h" "slot_next (fold Slot_Disconnect is h) = slot_next h"
  "slot_heap (fold Slot_Disconnect is h) i = (slot_heap h i)\<lparr>connected := connected (slot_heap h i) \<and> i \<notin> set is\<rparr>"
  by (induction "is" arbitrary: h) (auto simp: Slot_Disconnect_def)

lemma ClearDisconnectedSlots_keeps:
  "slot_heap (ClearDisconnectedSlots k h) = slot_heap h" "slot_next (ClearDisconnectedSlots k h) = slot_next h"
  "listeners (ClearDisconnectedSlots k h) k' = listeners h k'"
  "signals_ok h \<Longrightarrow> signals_ok (ClearDisconnectedSlots k h)"
proof -
  have "collect (slot_call h) (filter (slot_connected h) xs) = collect (slot_call h) xs" for xs
    by (rule collect_filter) (simp add: slot_call_def split: if_splits)
  moreover have "slot_call (ClearDisconnectedSlots k h) = slot_call h"
    by (rule ext) (simp add: slot_call_def slot_connected_def ClearDisconnectedSlots_def)
  ultimately show "listeners (ClearDisconnectedSlots k h) k' = listeners h k'"
    by (simp add: listeners_def) (simp add: ClearDisconnectedSlots_def)
  show "signals_ok h \<Longrightarrow> signals_ok (ClearDisconnectedSlots k h)" unfolding signals_ok_def ClearDisconnectedSlots_def by auto
qed (simp_all add: ClearDisconnectedSlots_def)

lemma listeners_Disconnect:
  assumes "signals_ok h" and "conn_slot c \<in> set (slot_list h k)"
  shows "signals_ok (snd (Signal_Disconnect k c h))" and "fst (Signal_Disconnect k c h)"
    and "listeners (snd (Signal_Disconnect k c h)) k' =
      collect (\<lambda>i. if i = conn_slot c then None else slot_call h i) (slot_list h k')"
proof -
  let ?h = "fold Slot_Disconnect (filter (\<lambda>i. conn_slot c = i) (slot_list h k)) h"
  have f: "set (filter (\<lambda>i. conn_slot c = i) (slot_list h k)) = {conn_slot c}" "filter (\<lambda>i. conn_slot c = i) (slot_list h k) \<noteq> []"
    using assms(2) by (auto simp: filter_empty_conv)
  then have d: "Signal_Disconnect k c h = (True, ClearDisconnectedSlots k ?h)" by (simp add: Signal_Disconnect_def Let_def)
  have call: "slot_call ?h = (\<lambda>i. if i = conn_slot c then None else slot_call h i)"
    by (rule ext) (use f in \<open>simp add: slot_call_def slot_connected_def fold_Slot_Disconnect\<close>)
  have ok: "signals_ok ?h" using assms(1) by (simp add: signals_ok_def fold_Slot_Disconnect)
  show "signals_ok (snd (Signal_Disconnect k c h))" "fst (Signal_Disconnect k c h)"
    using ClearDisconnectedSlots_keeps(4) [OF ok] by (simp_all add: d)
  show "listeners (snd (Signal_Disconnect k c h)) k' =
      collect (\<lambda>i. if i = conn_slot c then None else slot_call h i) (slot_list h k')"
    by (simp add: d ClearDisconnectedSlots_keeps(3)) (simp add: listeners_def call fold_Slot_Disconnect(1))
qed

text \<open>Callbacks that do not touch the signals: each connected one is called, in order.\<close>

lemma call_slots_all: "call_slots (\<lambda>_ h. h) is h = (collect (slot_call h) is, h)"
  by (induction "is") (auto simp: slot_call_def split: option.split)

lemma emit_all: "emit (\<lambda>_ h. h) k h = (listeners h k, ClearDisconnectedSlots k h)"
  by (simp add: emit_def call_slots_all listeners_def)

section \<open>Handlers keep a table of listeners\<close>

text \<open>
  The abstract view: per signal, the ids that listen and their listeners in the order they came.  The
  operations of a handler by the signal they go to, as \<open>handler_op\<close>.
\<close>

type_synonym 'c table = "signal_name \<Rightarrow> (u64 \<times> 'c) list"

datatype 'c handler_op = Sub signal_name u64 'c | Unsub signal_name u64

fun handler_do :: "'c handler_op \<Rightarrow> 'c listener_handler \<Rightarrow> 'c listener_handler" where
  "handler_do (Sub Self i c) lh = lh_Connect i c lh"
| "handler_do (Sub (Opposite oid) i c) lh = lh_Connect_to i oid c lh"
| "handler_do (Unsub Self i) lh = lh_Disconnect i lh"
| "handler_do (Unsub (Opposite oid) i) lh = lh_Disconnect_from i oid lh"

fun table_do :: "'c handler_op \<Rightarrow> 'c table \<Rightarrow> 'c table" where
  "table_do (Sub k i c) t = t(k := t k @ [(i, c)])"
| "table_do (Unsub k i) t = t(k := filter (\<lambda>p. fst p \<noteq> i) (t k))"

text \<open>No id subscribes to a signal twice without leaving it first.\<close>

fun subs_ok :: "'c handler_op list \<Rightarrow> 'c table \<Rightarrow> bool" where
  "subs_ok [] t = True"
| "subs_ok (Sub k i c # ops) t = (i \<notin> fst ` set (t k) \<and> subs_ok ops (table_do (Sub k i c) t))"
| "subs_ok (Unsub k i # ops) t = subs_ok ops (table_do (Unsub k i) t)"

fun conn_of :: "'c listener_handler \<Rightarrow> signal_name \<Rightarrow> u64 \<Rightarrow> signal_name connection option" where
  "conn_of lh Self i = signal_conns lh i"
| "conn_of lh (Opposite oid) i = (case signals_conns lh oid of None \<Rightarrow> None | Some m \<Rightarrow> m i)"

definition entry_ok :: "'c listener_handler \<Rightarrow> signal_name \<Rightarrow> nat \<Rightarrow> u64 \<times> 'c \<Rightarrow> bool" where
  "entry_ok lh k n p \<longleftrightarrow> slot_call (lh_signals lh) n = Some (snd p) \<and> conn_of lh k (fst p) = Some \<lparr>conn_slot = n, conn_signal = k\<rparr>"

definition represents :: "'c listener_handler \<Rightarrow> 'c table \<Rightarrow> bool" where
  "represents lh t \<longleftrightarrow> signals_ok (lh_signals lh)
     \<and> (\<forall>k. list_all2 (entry_ok lh k) (slot_list (lh_signals lh) k) (t k) \<and> distinct (map fst (t k))
          \<and> (\<forall>i. conn_of lh k i \<noteq> None \<longrightarrow> i \<in> fst ` set (t k)))
     \<and> (\<forall>oid. oid \<notin> lh_known lh \<longrightarrow> t (Opposite oid) = [])"

lemma collect_table: "list_all2 (\<lambda>n p. f n = Some (snd p)) ns ps \<Longrightarrow> collect f ns = map snd ps"
  by (induction rule: list_all2_induct) auto

lemma represents_Run:
  assumes "represents lh t"
  shows "fst (lh_Run (\<lambda>_ h. h) oid lh) = map snd (t Self @ t (Opposite oid))"
proof -
  have l: "listeners (lh_signals lh) k = map snd (t k)" for k
  proof -
    have "list_all2 (entry_ok lh k) (slot_list (lh_signals lh) k) (t k)" using assms by (simp add: represents_def)
    then have "list_all2 (\<lambda>n p. slot_call (lh_signals lh) n = Some (snd p)) (slot_list (lh_signals lh) k) (t k)"
      by (rule list_all2_mono) (simp add: entry_ok_def)
    then show ?thesis unfolding listeners_def by (rule collect_table)
  qed
  have "t (Opposite oid) = []" if "oid \<notin> lh_known lh" using assms that by (auto simp: represents_def)
  then show ?thesis by (simp add: lh_Run_def emit_all ClearDisconnectedSlots_keeps l)
qed

text \<open>Both kinds of subscription do the same to the signals and the connections.\<close>

lemma handler_Sub:
  assumes "Signal_Connect k (Some c) (lh_signals lh) = (cn, h')" and "signals_ok (lh_signals lh)"
  shows "lh_signals (handler_do (Sub k i c) lh) = h'"
    and "conn_of (handler_do (Sub k i c) lh) k' j = (if k' = k \<and> j = i then Some cn else conn_of lh k' j)"
    and "k = Opposite oid \<or> oid \<in> lh_known lh \<Longrightarrow> oid \<in> lh_known (handler_do (Sub k i c) lh)"
proof -
  have "IsConnected cn h'" using listeners_Connect(3,4) [OF assms(2,1)] by (simp add: IsConnected_def)
  then show "lh_signals (handler_do (Sub k i c) lh) = h'"
    "conn_of (handler_do (Sub k i c) lh) k' j = (if k' = k \<and> j = i then Some cn else conn_of lh k' j)"
    "k = Opposite oid \<or> oid \<in> lh_known lh \<Longrightarrow> oid \<in> lh_known (handler_do (Sub k i c) lh)"
    using assms(1) by (cases k; cases k'; auto simp: lh_Connect_def lh_Connect_to_def Let_def split: option.split)+
qed

lemma represents_Sub:
  assumes r: "represents lh t" and i: "i \<notin> fst ` set (t k)"
  shows "represents (handler_do (Sub k i c) lh) (table_do (Sub k i c) t)"
proof -
  let ?h = "lh_signals lh" and ?lh = "handler_do (Sub k i c) lh"
  obtain cn h' where sc: "Signal_Connect k (Some c) ?h = (cn, h')" by fastforce
  have ok: "signals_ok ?h" using r by (simp add: represents_def)
  note C = listeners_Connect [OF ok sc] and S = handler_Sub [OF sc ok, of i]
  have h': "slot_list h' = (slot_list ?h)(k := slot_list ?h k @ [slot_next ?h])" "slot_call h' (slot_next ?h) = Some c"
    and keep: "n \<noteq> slot_next ?h \<Longrightarrow> slot_call h' n = slot_call ?h n" for n
    using sc by (auto simp: Signal_Connect_def slot_call_def slot_connected_def Let_def)
  have old: "entry_ok ?lh j n p" if "entry_ok lh j n p" "n \<in> set (slot_list ?h j)" "p \<in> set (t j)" for j n p
  proof -
    have "n \<noteq> slot_next ?h" using ok that(2) by (auto simp: signals_ok_def)
    moreover have "\<not> (j = k \<and> fst p = i)" using i that(3) by auto
    ultimately show ?thesis using that(1) keep by (auto simp: entry_ok_def S)
  qed
  have all: "list_all2 (entry_ok ?lh j) (slot_list ?h j) (t j)" for j
  proof -
    have "list_all2 (entry_ok lh j) (slot_list ?h j) (t j)" using r by (simp add: represents_def)
    then show ?thesis using old by (rule list.rel_mono_strong)
  qed
  have new: "entry_ok ?lh k (slot_next ?h) (i, c)" by (simp add: entry_ok_def S h' C(3))
  have "list_all2 (entry_ok ?lh j) (slot_list h' j) (table_do (Sub k i c) t j)" for j
    using all [of j] all [of k] new by (auto simp: h'(1) intro: list_all2_appendI)
  moreover have "distinct (map fst (table_do (Sub k i c) t j))" for j using r i by (auto simp: represents_def)
  moreover have "j \<in> fst ` set (table_do (Sub k i c) t k')" if "conn_of ?lh k' j \<noteq> None" for k' j
  proof (cases "k' = k \<and> j = i")
    case False
    then have "conn_of lh k' j \<noteq> None" using that by (simp only: S split: if_splits)
    then have "j \<in> fst ` set (t k')" using r unfolding represents_def by blast
    then show ?thesis by auto
  qed simp
  moreover have "table_do (Sub k i c) t (Opposite oid) = []" if "oid \<notin> lh_known ?lh" for oid
    using that handler_Sub(3) [OF sc ok, where oid = oid and i = i] r by (auto simp: represents_def)
  ultimately show ?thesis using C(1) unfolding represents_def S(1) by blast
qed

lemma list_all2_filter:
  assumes "list_all2 P xs ys" "\<And>x y. (x, y) \<in> set (zip xs ys) \<Longrightarrow> P x y \<Longrightarrow> p x \<longleftrightarrow> q y"
  shows "list_all2 P (filter p xs) (filter q ys)"
  using assms by (induction rule: list_all2_induct) auto

text \<open>An id that is subscribed has its slot in the list of the signal.\<close>

lemma represents_conn:
  assumes r: "represents lh t" and c: "conn_of lh k i = Some cn"
  shows "cn = \<lparr>conn_slot = conn_slot cn, conn_signal = k\<rparr>" and "conn_slot cn \<in> set (slot_list (lh_signals lh) k)"
proof -
  have "i \<in> fst ` set (t k)" using r c unfolding represents_def by blast
  then obtain p where p: "p \<in> set (t k)" "fst p = i" by auto
  moreover have "list_all2 (entry_ok lh k) (slot_list (lh_signals lh) k) (t k)" using r by (simp add: represents_def)
  ultimately obtain n where "n \<in> set (slot_list (lh_signals lh) k)" "entry_ok lh k n p"
    by (metis list_all2_conv_all_nth in_set_conv_nth)
  then show "cn = \<lparr>conn_slot = conn_slot cn, conn_signal = k\<rparr>" "conn_slot cn \<in> set (slot_list (lh_signals lh) k)"
    using c p by (auto simp: entry_ok_def)
qed

lemma represents_slot:
  assumes r: "represents lh t" and c: "conn_of lh k i = Some cn" and z: "(conn_slot cn, p) \<in> set (zip (slot_list (lh_signals lh) k) (t k))"
  shows "fst p = i"
proof -
  let ?s = "slot_list (lh_signals lh) k"
  have all: "list_all2 (entry_ok lh k) ?s (t k)" and ds: "distinct ?s" and "i \<in> fst ` set (t k)"
    using r c unfolding represents_def signals_ok_def by blast+
  then obtain b where b: "b < length (t k)" "fst (t k ! b) = i" by (auto simp: in_set_conv_nth)
  obtain a where a: "a < length ?s" "?s ! a = conn_slot cn" "t k ! a = p" using z by (auto simp: in_set_zip)
  have "entry_ok lh k (?s ! b) (t k ! b)" "length ?s = length (t k)" using all b(1) by (auto simp: list_all2_conv_all_nth)
  then have "?s ! b = ?s ! a" "b < length ?s" using a(2) b c by (auto simp: entry_ok_def)
  then have "b = a" using ds a(1) by (simp add: nth_eq_iff_index_eq)
  then show ?thesis using b a by simp
qed

lemma handler_Unsub:
  assumes "conn_of lh k i = Some cn"
  shows "lh_signals (handler_do (Unsub k i) lh) = snd (Connection_Disconnect cn (lh_signals lh))"
    and "conn_of (handler_do (Unsub k i) lh) k' j = (if k' = k \<and> j = i then None else conn_of lh k' j)"
    and "lh_known (handler_do (Unsub k i) lh) = lh_known lh"
  using assms by (cases k; cases k'; auto simp: lh_Disconnect_def lh_Disconnect_from_def split: option.splits)+

lemma handler_Unsub_none: "conn_of lh k i = None \<Longrightarrow> handler_do (Unsub k i) lh = lh"
  by (cases k) (auto simp: lh_Disconnect_def lh_Disconnect_from_def split: option.splits)

lemma represents_Unsub:
  assumes r: "represents lh t"
  shows "represents (handler_do (Unsub k i) lh) (table_do (Unsub k i) t)"
proof (cases "conn_of lh k i")
  case None
  have all: "list_all2 (entry_ok lh k) (slot_list (lh_signals lh) k) (t k)" using r by (simp add: represents_def)
  have "fst p \<noteq> i" if "p \<in> set (t k)" for p
    using all that None by (auto simp: entry_ok_def list_all2_conv_all_nth in_set_conv_nth)
  then have "table_do (Unsub k i) t = t" by (auto simp: filter_id_conv fun_upd_idem_iff)
  then show ?thesis using r None by (simp only: handler_Unsub_none)
next
  case (Some cn)
  let ?h = "lh_signals lh" and ?lh = "handler_do (Unsub k i) lh"
  let ?f = "filter (\<lambda>n. conn_slot cn = n) (slot_list ?h k)"
  note U = handler_Unsub [OF Some] and cn = represents_conn [OF r Some]
  have ok: "signals_ok ?h" using r by (simp add: represents_def)
  let ?h' = "snd (Connection_Disconnect cn ?h)"
  have cd: "Connection_Disconnect cn ?h = Signal_Disconnect k cn ?h" using cn(1) by (metis Connection_Disconnect_def connection.select_convs(2))
  have f: "set ?f = {conn_slot cn}" "?f \<noteq> []" using cn(2) by (auto simp: filter_empty_conv)
  have h': "?h' = ClearDisconnectedSlots k (fold Slot_Disconnect ?f ?h)" using f(2) unfolding cd by (simp add: Signal_Disconnect_def Let_def)
  have call: "slot_call ?h' n = (if n = conn_slot cn then None else slot_call ?h n)" for n
    using f by (simp add: h' slot_call_def slot_connected_def ClearDisconnectedSlots_def fold_Slot_Disconnect)
  have on: "slot_connected ?h n" if "n \<in> set (slot_list ?h j)" for n j
  proof -
    have "list_all2 (entry_ok lh j) (slot_list ?h j) (t j)" using r by (simp add: represents_def)
    then show ?thesis using that by (fastforce simp: list_all2_conv_all_nth in_set_conv_nth entry_ok_def slot_call_def split: if_splits)
  qed
  have "slot_connected (fold Slot_Disconnect ?f ?h) n \<longleftrightarrow> n \<noteq> conn_slot cn" if "n \<in> set (slot_list ?h k)" for n
    using on [OF that] f by (simp add: slot_connected_def fold_Slot_Disconnect)
  then have sl: "slot_list ?h' = (slot_list ?h)(k := filter (\<lambda>n. n \<noteq> conn_slot cn) (slot_list ?h k))"
    by (simp add: h' ClearDisconnectedSlots_def fold_Slot_Disconnect cong: filter_cong)
  have entry: "list_all2 (entry_ok ?lh j) ns ps"
    if "list_all2 (entry_ok lh j) ns ps" "\<And>n. n \<in> set ns \<Longrightarrow> n \<noteq> conn_slot cn" "\<And>p. p \<in> set ps \<Longrightarrow> j = k \<Longrightarrow> fst p \<noteq> i" for j ns ps
    using that(1) by (rule list.rel_mono_strong) (use that(2,3) in \<open>auto simp: entry_ok_def U call\<close>)
  have "list_all2 (entry_ok ?lh j) (slot_list ?h' j) (table_do (Unsub k i) t j)" for j
  proof -
    have all: "list_all2 (entry_ok lh j) (slot_list ?h j) (t j)" using r by (simp add: represents_def)
    show ?thesis
    proof (cases "j = k")
      case True
      have "list_all2 (entry_ok lh j) (filter (\<lambda>n. n \<noteq> conn_slot cn) (slot_list ?h j)) (filter (\<lambda>p. fst p \<noteq> i) (t j))"
      proof (rule list_all2_filter [OF all])
        show "n \<noteq> conn_slot cn \<longleftrightarrow> fst p \<noteq> i" if "(n, p) \<in> set (zip (slot_list ?h j) (t j))" "entry_ok lh j n p" for n p
          using represents_slot [OF r Some, of p] that True Some by (auto simp: entry_ok_def)
      qed
      then show ?thesis using True by (auto simp: sl intro!: entry)
    next
      case False
      have "n \<noteq> conn_slot cn" if "n \<in> set (slot_list ?h j)" for n using ok cn(2) that False by (auto simp: signals_ok_def)
      then show ?thesis using all False by (auto simp: sl intro!: entry)
    qed
  qed
  moreover have "distinct (map fst (table_do (Unsub k i) t j))" for j using r by (auto simp: represents_def distinct_map_filter)
  moreover have "j \<in> fst ` set (table_do (Unsub k i) t k')" if "conn_of ?lh k' j \<noteq> None" for k' j
  proof -
    have "conn_of lh k' j \<noteq> None \<and> \<not> (k' = k \<and> j = i)" using that by (auto simp: U split: if_splits)
    then show ?thesis using r by (auto simp: represents_def)
  qed
  moreover have "table_do (Unsub k i) t (Opposite oid) = []" if "oid \<notin> lh_known ?lh" for oid
    using that r by (auto simp: represents_def U)
  moreover have "signals_ok ?h'" using listeners_Disconnect(1) [OF ok cn(2)] by (simp add: cd)
  ultimately show ?thesis unfolding represents_def U(1) by blast
qed

lemma represents_do: "represents lh t \<Longrightarrow> subs_ok (op # ops) t \<Longrightarrow> represents (handler_do op lh) (table_do op t) \<and> subs_ok ops (table_do op t)"
  using represents_Sub represents_Unsub by (cases op) auto

lemma represents_new: "represents (ListenerHandler :: 'c listener_handler) (\<lambda>_. [])"
proof -
  have "conn_of (ListenerHandler :: 'c listener_handler) k i = None" for k i by (cases k) (simp_all add: ListenerHandler_def)
  moreover have "signals_ok (lh_signals (ListenerHandler :: 'c listener_handler))" by (simp add: ListenerHandler_def no_signals_ok)
  moreover have "slot_list (lh_signals (ListenerHandler :: 'c listener_handler)) k = []" for k by (simp add: ListenerHandler_def no_signals_def)
  ultimately show ?thesis by (simp add: represents_def)
qed

lemma represents_fold: "represents lh t \<Longrightarrow> subs_ok ops t \<Longrightarrow> represents (fold handler_do ops lh) (fold table_do ops t)"
proof (induction ops arbitrary: lh t)
  case (Cons op ops)
  from represents_do [OF Cons.prems] show ?case using Cons.IH by simp
qed simp

text \<open>
  A listener handler is a table: after any sequence of subscriptions and removals in which no id
  subscribes to a signal again before it has left it, a message from a sender is given exactly to the listeners of
  the table's entries for the channel and for that sender, each once, in the order they subscribed.
\<close>

lemma handler_calls_table:
  assumes "subs_ok ops (\<lambda>_. [])"
  shows "fst (lh_Run (\<lambda>_ h. h) sender (fold handler_do ops ListenerHandler)) =
    map snd (fold table_do ops (\<lambda>_. []) Self @ fold table_do ops (\<lambda>_. []) (Opposite sender))"
  by (rule represents_Run [OF represents_fold [OF represents_new assms]])

lemma handler_calls_table_witness:
  "fst (lh_Run (\<lambda>_ h. h) 9 (fold handler_do [Sub Self 1 ''a'', Sub (Opposite 9) 1 ''b'', Sub Self 2 ''c'', Sub (Opposite 8) 1 ''d'', Unsub Self 1]
     ListenerHandler)) = [''c'', ''b'']"
  using handler_calls_table [of "[Sub Self 1 ''a'', Sub (Opposite 9) 1 ''b'', Sub Self 2 ''c'', Sub (Opposite 8) 1 ''d'', Unsub Self 1]" 9] by simp

text \<open>
  A second subscription of an id replaces the connection but leaves the first listener: it is called even after
  the id has unsubscribed.
\<close>

lemma resubscribed_listener_stays:
  "fst (lh_Run (\<lambda>_ h. h) 9 (fold handler_do [Sub Self 1 ''old'', Sub Self 1 ''new'', Unsub Self 1, Unsub Self 1] ListenerHandler)) = [''old'']"
  by code_simp

end
