(* ===== verification/Shm_Dispatch.thy ===== *)
theory Shm_Dispatch
  imports Shm_Transport Condition_Notifier Signals
begin

text \<open>
  Sending and receiving on a channel through shared memory: \<^verbatim>\<open>ShmTransmitter\<close>, the listener table of
  \<^verbatim>\<open>Dispatcher\<close>, and \<^verbatim>\<open>ShmDispatcher\<close>, put together from the segment, the notifier and the listener handlers.
  Serialising and parsing belong to the message type: \<open>ser m\<close> are the bytes of a message, \<open>ser_ok m\<close> says whether
  \<^verbatim>\<open>SerializeToArray\<close> succeeds, \<open>parse\<close> is \<^verbatim>\<open>ParseFromArray\<close>.  \<open>hash_id\<close> is the hash of an identity.
  \<^verbatim>\<open>msg_listeners_\<close> is an \<^verbatim>\<open>AtomicHashMap\<close>, here its abstraction to a map.
\<close>

section \<open>Dispatcher\<close>

record 'c dispatcher =
  d_is_shutdown :: bool
  msg_listeners :: "u64 \<rightharpoonup> 'c listener_handler"

definition Dispatcher :: "'c dispatcher" where
  "Dispatcher = \<lparr>d_is_shutdown = False, msg_listeners = Map.empty\<rparr>"

definition Dispatcher_Shutdown :: "'c dispatcher \<Rightarrow> 'c dispatcher" where
  "Dispatcher_Shutdown d = d\<lparr>d_is_shutdown := True\<rparr>"

definition HasChannel :: "u64 \<Rightarrow> 'c dispatcher \<Rightarrow> bool" where
  "HasChannel ch d \<longleftrightarrow> msg_listeners d ch \<noteq> None"

text \<open>
  The listeners of one dispatcher here all take \<^verbatim>\<open>ReadableBlock\<close>, so that the handler found always has the type of the
  new listener.
\<close>

definition with_handler :: "u64 \<Rightarrow> ('c listener_handler \<Rightarrow> 'c listener_handler) \<Rightarrow> 'c dispatcher \<Rightarrow> 'c dispatcher" where
  "with_handler ch f d =
     (if d_is_shutdown d then d
      else d\<lparr>msg_listeners := (msg_listeners d)(ch \<mapsto> f (case msg_listeners d ch of Some lh \<Rightarrow> lh | None \<Rightarrow> ListenerHandler))\<rparr>)"

definition Dispatcher_AddListener :: "u64 \<Rightarrow> u64 \<Rightarrow> 'c \<Rightarrow> 'c dispatcher \<Rightarrow> 'c dispatcher" where
  "Dispatcher_AddListener ch self_id c d = with_handler ch (lh_Connect self_id c) d"

definition Dispatcher_AddListener_to :: "u64 \<Rightarrow> u64 \<Rightarrow> u64 \<Rightarrow> 'c \<Rightarrow> 'c dispatcher \<Rightarrow> 'c dispatcher" where
  "Dispatcher_AddListener_to ch self_id oppo_id c d = with_handler ch (lh_Connect_to self_id oppo_id c) d"

definition RemoveListener :: "u64 \<Rightarrow> u64 \<Rightarrow> 'c dispatcher \<Rightarrow> 'c dispatcher" where
  "RemoveListener ch self_id d =
     (if d_is_shutdown d then d
      else d\<lparr>msg_listeners := (msg_listeners d)(ch := map_option (lh_Disconnect self_id) (msg_listeners d ch))\<rparr>)"

definition RemoveListener_from :: "u64 \<Rightarrow> u64 \<Rightarrow> u64 \<Rightarrow> 'c dispatcher \<Rightarrow> 'c dispatcher" where
  "RemoveListener_from ch self_id oppo_id d =
     (if d_is_shutdown d then d
      else d\<lparr>msg_listeners := (msg_listeners d)(ch := map_option (lh_Disconnect_from self_id oppo_id) (msg_listeners d ch))\<rparr>)"

section \<open>ShmDispatcher\<close>

record 'c shm_dispatcher =
  sd_base :: "'c dispatcher"
  sd_host_id :: u64
  sd_segments :: "u64 \<rightharpoonup> segment"
  previous_indexes :: "u64 \<rightharpoonup> u32"
  sd_notifier :: notifier

definition ShmDispatcher :: "u64 \<Rightarrow> notifier \<Rightarrow> 'c shm_dispatcher" where
  "ShmDispatcher host_id n = \<lparr>sd_base = Dispatcher, sd_host_id = host_id, sd_segments = Map.empty,
     previous_indexes = Map.empty, sd_notifier = n\<rparr>"

definition UINT32_MAX :: u32 where "UINT32_MAX = -1"

definition AddSegment :: "segment_kind \<Rightarrow> u64 \<Rightarrow> 'c shm_dispatcher \<Rightarrow> 'c shm_dispatcher" where
  "AddSegment kind ch d =
     (if sd_segments d ch \<noteq> None then d
      else d\<lparr>sd_segments := (sd_segments d)(ch \<mapsto> Segment kind ch), previous_indexes := (previous_indexes d)(ch \<mapsto> UINT32_MAX)\<rparr>)"

definition sd_AddListener :: "segment_kind \<Rightarrow> u64 \<Rightarrow> u64 \<Rightarrow> 'c \<Rightarrow> 'c shm_dispatcher \<Rightarrow> 'c shm_dispatcher" where
  "sd_AddListener kind ch self_id c d = AddSegment kind ch (d\<lparr>sd_base := Dispatcher_AddListener ch self_id c (sd_base d)\<rparr>)"

definition sd_AddListener_to :: "segment_kind \<Rightarrow> u64 \<Rightarrow> u64 \<Rightarrow> u64 \<Rightarrow> 'c \<Rightarrow> 'c shm_dispatcher \<Rightarrow> 'c shm_dispatcher" where
  "sd_AddListener_to kind ch self_id oppo_id c d =
     AddSegment kind ch (d\<lparr>sd_base := Dispatcher_AddListener_to ch self_id oppo_id c (sd_base d)\<rparr>)"

definition sd_Shutdown :: "'c shm_dispatcher \<Rightarrow> 'c shm_dispatcher" where
  "sd_Shutdown d = (if d_is_shutdown (sd_base d) then d else d\<lparr>sd_base := Dispatcher_Shutdown (sd_base d), sd_segments := Map.empty\<rparr>)"

text \<open>
  A listener is called with the parsed message; \<open>'c\<close> names it.  The result of a delivery are the calls, which leave
  the signals alone.
\<close>

definition OnMessage ::
  "(u8 list \<Rightarrow> 'm option) \<Rightarrow> (u8 list \<Rightarrow> u64) \<Rightarrow> u64 \<Rightarrow> u8 list \<Rightarrow> message_info \<Rightarrow> 'c shm_dispatcher \<Rightarrow>
   ('c \<times> 'm \<times> message_info) list \<times> 'c shm_dispatcher" where
  "OnMessage parse hash_id ch bytes info d =
     (if d_is_shutdown (sd_base d) then ([], d)
      else case msg_listeners (sd_base d) ch of
             None \<Rightarrow> ([], d)
           | Some lh \<Rightarrow>
               (case lh_Run (\<lambda>_ h. h) (hash_id (mi_sender_id info)) lh of (cs, lh') \<Rightarrow>
                  ((case parse bytes of None \<Rightarrow> [] | Some m \<Rightarrow> map (\<lambda>c. (c, m, info)) cs),
                   d\<lparr>sd_base := (sd_base d)\<lparr>msg_listeners := (msg_listeners (sd_base d))(ch \<mapsto> lh')\<rparr>\<rparr>)))"

definition sd_ReadMessage ::
  "(u8 list \<Rightarrow> 'm option) \<Rightarrow> (u8 list \<Rightarrow> u64) \<Rightarrow> shm_sys \<Rightarrow> u64 \<Rightarrow> u32 \<Rightarrow> 'c shm_dispatcher \<Rightarrow> shm_world \<Rightarrow>
   shm_error + (('c \<times> 'm \<times> message_info) list \<times> 'c shm_dispatcher \<times> shm_world)" where
  "sd_ReadMessage parse hash_id sys ch i d w =
     (case sd_segments d ch of
        None \<Rightarrow> Inl NullState
      | Some seg \<Rightarrow>
          (case ReadMessage sys i seg w of
             Inl e \<Rightarrow> Inl e
           | Inr (r, seg', w') \<Rightarrow>
               let d = d\<lparr>sd_segments := (sd_segments d)(ch \<mapsto> seg')\<rparr>
               in case r of
                    None \<Rightarrow> Inr ([], d, w')
                  | Some (bytes, info) \<Rightarrow> (case OnMessage parse hash_id ch bytes info d of (calls, d') \<Rightarrow> Inr (calls, d', w'))))"

text \<open>One round of \<^verbatim>\<open>ThreadFunc\<close>, when the dispatcher is not shut down; \<open>env\<close> is the ring as \<^verbatim>\<open>Listen\<close> polls it.\<close>

definition ThreadFunc_round ::
  "(u8 list \<Rightarrow> 'm option) \<Rightarrow> (u8 list \<Rightarrow> u64) \<Rightarrow> shm_sys \<Rightarrow> (nat \<Rightarrow> indicator \<times> bool) \<Rightarrow> 'c shm_dispatcher \<Rightarrow> shm_world \<Rightarrow>
   shm_error + (('c \<times> 'm \<times> message_info) list \<times> 'c shm_dispatcher \<times> shm_world)" where
  "ThreadFunc_round parse hash_id sys env d w =
     (case nt_Listen env 100 (sd_notifier d) of
        (r, n) \<Rightarrow>
          let d = d\<lparr>sd_notifier := n\<rparr>
          in case r of
               None \<Rightarrow> Inr ([], d, w)
             | Some ri \<Rightarrow>
                 if ri_host_id ri \<noteq> sd_host_id d then Inr ([], d, w)
                 else if sd_segments d (ri_channel_id ri) = None then Inr ([], d, w)
                 else sd_ReadMessage parse hash_id sys (ri_channel_id ri) (ri_block_index ri)
                        (d\<lparr>previous_indexes := (previous_indexes d)(ri_channel_id ri \<mapsto> ri_block_index ri)\<rparr>) w)"

section \<open>ShmTransmitter\<close>

record shm_transmitter =
  tx_enabled :: bool
  tx_segment :: "segment option"
  tx_channel_id :: u64
  tx_host_id :: u64
  tx_notifier :: "notifier option"
  tx_seq_num :: u64
  tx_msg_info :: message_info

definition ShmTransmitter :: "u64 \<Rightarrow> u64 \<Rightarrow> u8 list \<Rightarrow> shm_transmitter" where
  "ShmTransmitter ch host_id sender = \<lparr>tx_enabled = False, tx_segment = None, tx_channel_id = ch, tx_host_id = host_id, tx_notifier = None,
     tx_seq_num = 0, tx_msg_info = \<lparr>mi_sender_id = sender, mi_seq_num = 0, mi_spare_id = replicate ID_SIZE 0\<rparr>\<rparr>"

definition tx_Enable :: "segment_kind \<Rightarrow> notifier \<Rightarrow> shm_transmitter \<Rightarrow> shm_transmitter" where
  "tx_Enable kind n tx =
     (if tx_enabled tx then tx
      else tx\<lparr>tx_segment := Some (Segment kind (tx_channel_id tx)), tx_notifier := Some n, tx_enabled := True\<rparr>)"

text \<open>Giving up the segment runs its destructor.\<close>

definition tx_Disable :: "shm_transmitter \<Rightarrow> shm_world \<Rightarrow> shm_transmitter \<times> shm_world" where
  "tx_Disable tx w =
     (if tx_enabled tx
      then (tx\<lparr>tx_segment := None, tx_notifier := None, tx_enabled := False\<rparr>,
            case tx_segment tx of None \<Rightarrow> w | Some seg \<Rightarrow> snd (snd (Destroy seg w)))
      else (tx, w))"

definition tx_Transmit ::
  "('m \<Rightarrow> u8 list) \<Rightarrow> ('m \<Rightarrow> bool) \<Rightarrow> shm_sys \<Rightarrow> 'm \<Rightarrow> message_info \<Rightarrow> shm_transmitter \<Rightarrow> shm_world \<Rightarrow> indicator \<Rightarrow>
   (shm_error + (bool \<times> shm_transmitter \<times> shm_world \<times> indicator)) option" where
  "tx_Transmit ser ser_ok sys m info tx w ind =
     (if \<not> tx_enabled tx then Some (Inr (False, tx, w, ind))
      else case (tx_segment tx, tx_notifier tx) of
             (Some seg, Some n) \<Rightarrow>
               (case write_message sys (ser_ok m) (tx_host_id tx) (ser m) info seg w of
                  None \<Rightarrow> None
                | Some (Inl e) \<Rightarrow> Some (Inl e)
                | Some (Inr (None, seg', w')) \<Rightarrow> Some (Inr (False, tx\<lparr>tx_segment := Some seg'\<rparr>, w', ind))
                | Some (Inr (Some ri, seg', w')) \<Rightarrow>
                    (case nt_Notify ri n ind of
                       (ok, ind') \<Rightarrow> Some (Inr (ok, tx\<lparr>tx_segment := Some seg'\<rparr>, w', ind'))))
           | _ \<Rightarrow> Some (Inl NullState))"

text \<open>\<^verbatim>\<open>Transmitter::Transmit\<close> of a message numbers it.\<close>

definition NextSeqNum :: "shm_transmitter \<Rightarrow> shm_transmitter" where
  "NextSeqNum tx = tx\<lparr>tx_seq_num := tx_seq_num tx + 1\<rparr>"

definition tx_Transmit_next ::
  "('m \<Rightarrow> u8 list) \<Rightarrow> ('m \<Rightarrow> bool) \<Rightarrow> shm_sys \<Rightarrow> 'm \<Rightarrow> shm_transmitter \<Rightarrow> shm_world \<Rightarrow> indicator \<Rightarrow>
   (shm_error + (bool \<times> shm_transmitter \<times> shm_world \<times> indicator)) option" where
  "tx_Transmit_next ser ser_ok sys m tx w ind =
     (let tx = NextSeqNum tx; tx = tx\<lparr>tx_msg_info := (tx_msg_info tx)\<lparr>mi_seq_num := tx_seq_num tx\<rparr>\<rparr>
      in tx_Transmit ser ser_ok sys m (tx_msg_info tx) tx w ind)"

section \<open>From the transmitter to the listeners\<close>

lemma Notify_Listen:
  assumes "ring_ok ind" "\<not> nt_is_shutdown n" "\<not> nt_is_shutdown l" "nt_next_seq l = ind_next_seq ind" "unat (ind_next_seq ind) + 1 < 2 ^ 64"
  shows "\<exists>ind'. nt_Notify ri n ind = (True, ind') \<and> nt_Listen (\<lambda>_. (ind', False)) t l = (Some ri, l\<lparr>nt_next_seq := ind_next_seq ind + 1\<rparr>)"
proof -
  let ?q = "ind_next_seq ind"
  let ?ind = "store_seq ?q (store_info ?q ri (ind\<lparr>ind_next_seq := ?q + 1\<rparr>))"
  have "?q + 1 \<noteq> ?q" by simp
  then have "Listen_round l ?ind = Some (ri, l\<lparr>nt_next_seq := ?q + 1\<rparr>)"
    using assms(1,4) by (simp add: Listen_round_def store_seq_def store_info_def ring_ok_def Let_def)
  then show ?thesis using assms(2,3) nt_Listen_now by (intro exI [of _ ?ind]) (simp add: nt_Notify_def fetch_seq_def)
qed

text \<open>
  Claim C1. A message sent on a channel through shared memory reaches the listeners of the channel.  Let the transmitter
  be enabled, its segment mapped, not replaced by another, with a ceiling that the message fits and a free block
  that an attempt to lock takes; and let the dispatcher of a process on the same host have read every earlier
  notification, so that it waits for exactly the next one, and get its read lock within five attempts.  Then
  \<^verbatim>\<open>Transmit\<close> succeeds, and the next round of the dispatcher calls every listener subscribed to the channel or to this
  sender, once and in the order of subscription, with the message itself and its info with the next sequence
  number; also when this is the first message for which the process maps the segment.
\<close>

theorem shm_message_reaches_listeners:
  assumes "tx_enabled tx" and "tx_segment tx = Some seg" and "tx_notifier tx = Some n" and "\<not> nt_is_shutdown n"
    and "attached seg p obj w" and "\<not> need_remap obj" and "length (ser m) \<le> unat (state_ceiling obj)"
    and "sys_calls sys = Works" and "lock_num (shm_blocks obj ! ((unat (shm_seq obj) + l) mod unat (block_num (seg_conf seg)))) = 0"
    and "\<not> weak_write sys l" and "\<not> weak_read sys c" and "c < kMaxTryLockTimes"
    and "ser_ok m" and "parse (ser m) = Some m" and "message_info_wf (tx_msg_info tx)"
    and "\<not> d_is_shutdown (sd_base d)" and "sd_host_id d = tx_host_id tx" and "sd_segments d (seg_channel_id seg) = Some rd"
    and "seg_init rd \<and> seg_shm rd = Some p \<and> seg_conf rd = seg_conf seg \<or> \<not> seg_init rd \<and> shm_names w (seg_key rd) = Some p"
    and "msg_listeners (sd_base d) (seg_channel_id seg) = Some lh" and "represents lh t"
    and "ring_ok ind" and "\<not> nt_is_shutdown (sd_notifier d)" and "nt_next_seq (sd_notifier d) = ind_next_seq ind"
    and "unat (ind_next_seq ind) + 1 < 2 ^ 64"
  defines "info \<equiv> (tx_msg_info tx)\<lparr>mi_seq_num := tx_seq_num tx + 1\<rparr>"
  shows "\<exists>tx' w' ind' d' w''. tx_Transmit_next ser ser_ok sys m tx w ind = Some (Inr (True, tx', w', ind'))
    \<and> ThreadFunc_round parse hash_id sys (\<lambda>_. (ind', False)) d w' =
        Inr (map (\<lambda>c. (c, m, info)) (map snd (t Self @ t (Opposite (hash_id (mi_sender_id info))))), d', w'')"
proof -
  have wf: "message_info_wf info" using assms(15) by (simp add: info_def message_info_wf_def)
  have tk: "takes (weak_write sys) (block_num (seg_conf seg)) obj l" using assms(9,10) by (simp add: takes_def)
  obtain ri w' rd' w'' where wm: "write_message sys True (tx_host_id tx) (ser m) info seg w = Some (Inr (Some ri, seg, w'))"
    and ri: "ri_host_id ri = tx_host_id tx" "ri_channel_id ri = seg_channel_id seg"
    and rm: "ReadMessage sys (ri_block_index ri) rd w' = Inr (Some (ser m, info), rd', w'')"
    using message_through_block [OF assms(5-7) tk wf assms(8) assms(11,12) assms(19), of "tx_host_id tx"] by blast
  obtain ind' where nt: "nt_Notify ri n ind = (True, ind')"
    "nt_Listen (\<lambda>_. (ind', False)) 100 (sd_notifier d) = (Some ri, (sd_notifier d)\<lparr>nt_next_seq := ind_next_seq ind + 1\<rparr>)"
    using Notify_Listen [OF assms(22,4,23,24,25)] by blast
  let ?tx = "tx\<lparr>tx_seq_num := tx_seq_num tx + 1, tx_msg_info := info\<rparr>"
  have "tx_Transmit_next ser ser_ok sys m tx w ind = tx_Transmit ser ser_ok sys m info ?tx w ind"
    by (simp add: tx_Transmit_next_def NextSeqNum_def info_def Let_def)
  also have "\<dots> = Some (Inr (True, ?tx\<lparr>tx_segment := Some seg\<rparr>, w', ind'))"
    using assms(1-3,13) wm nt(1) by (simp add: tx_Transmit_def)
  finally have tx: "tx_Transmit_next ser ser_ok sys m tx w ind = Some (Inr (True, ?tx\<lparr>tx_segment := Some seg\<rparr>, w', ind'))" .
  have run: "fst (lh_Run (\<lambda>_ h. h) (hash_id (mi_sender_id info)) lh) = map snd (t Self @ t (Opposite (hash_id (mi_sender_id info))))"
    using assms(21) by (rule represents_Run)
  have "\<exists>d'. ThreadFunc_round parse hash_id sys (\<lambda>_. (ind', False)) d w' =
      Inr (map (\<lambda>c. (c, m, info)) (fst (lh_Run (\<lambda>_ h. h) (hash_id (mi_sender_id info)) lh)), d', w'')"
    using nt(2) ri rm assms(14,16,17,18,20)
    by (cases "lh_Run (\<lambda>_ h. h) (hash_id (mi_sender_id info)) lh")
      (simp add: ThreadFunc_round_def sd_ReadMessage_def OnMessage_def Let_def)
  then show ?thesis using tx run by auto
qed

definition demo_tx :: shm_transmitter where
  "demo_tx = (tx_Enable PosixSegment (ConditionNotifier (Some Indicator)) (ShmTransmitter 7 3 (replicate 8 1)))\<lparr>tx_segment := Some demo_seg\<rparr>"

definition demo_sd :: "string shm_dispatcher" where
  "demo_sd = sd_AddListener PosixSegment 7 42 ''reader'' (ShmDispatcher 3 (ConditionNotifier (Some Indicator)))"

theorem shm_message_reaches_listeners_witness:
  "\<exists>tx' w' ind' d' w''. tx_Transmit_next (\<lambda>m. m) (\<lambda>_. True) (strong Works) [10, 20, 30] demo_tx demo_world Indicator = Some (Inr (True, tx', w', ind'))
    \<and> ThreadFunc_round Some (\<lambda>_. 99) (strong Works) (\<lambda>_. (ind', False)) demo_sd w' =
        Inr ([(''reader'', [10, 20, 30], \<lparr>mi_sender_id = replicate 8 1, mi_seq_num = 1, mi_spare_id = replicate 8 0\<rparr>)], d', w'')"
proof -
  let ?n = "ConditionNotifier (Some Indicator)"
  let ?lh = "lh_Connect 42 ''reader'' ListenerHandler"
  let ?t = "table_do (Sub Self 42 ''reader'') (\<lambda>_. [])"
  have rep: "represents ?lh ?t" using represents_Sub [OF represents_new, of 42 Self "''reader''"] by simp
  have tx: "tx_enabled demo_tx" "tx_segment demo_tx = Some demo_seg" "tx_notifier demo_tx = Some ?n" "tx_host_id demo_tx = 3"
    "tx_seq_num demo_tx = 0" "tx_msg_info demo_tx = \<lparr>mi_sender_id = replicate 8 1, mi_seq_num = 0, mi_spare_id = replicate 8 0\<rparr>"
    by (simp_all add: demo_tx_def tx_Enable_def ShmTransmitter_def ID_SIZE_def)
  have ch: "seg_channel_id demo_seg = 7" using OpenOrCreate_new(4) [of no_shm "Segment PosixSegment 7"] by (simp add: Segment_fresh no_shm_def)
  have d: "sd_base demo_sd = \<lparr>d_is_shutdown = False, msg_listeners = [7 \<mapsto> ?lh]\<rparr>" "sd_host_id demo_sd = 3"
    "sd_segments demo_sd (seg_channel_id demo_seg) = Some (Segment PosixSegment 7)" "sd_notifier demo_sd = ?n"
    by (simp_all add: demo_sd_def sd_AddListener_def Dispatcher_AddListener_def with_handler_def AddSegment_def ShmDispatcher_def Dispatcher_def ch)
  have nt: "\<not> nt_is_shutdown ?n" "nt_next_seq ?n = ind_next_seq Indicator" "ring_ok Indicator" "unat (ind_next_seq Indicator) = 0"
    by (simp_all add: ConditionNotifier_def Indicator_def ring_ok_def)
  have rd: "seg_init (Segment PosixSegment 7) \<and> seg_shm (Segment PosixSegment 7) = Some 0 \<and> seg_conf (Segment PosixSegment 7) = seg_conf demo_seg \<or>
      \<not> seg_init (Segment PosixSegment 7) \<and> shm_names demo_world (seg_key (Segment PosixSegment 7)) = Some 0"
    using demo(2) by (simp add: Segment_fresh)
  have "seg_conf demo_seg = ShmConf_Update MESSAGE_SIZE_16K" "shm_seq demo_object = 0"
    using demo(1) by (simp_all add: attached_def fresh_object conf_16K ShmConf_Update_def GetCeilingMessageSize_def GetBlockNum_def Let_def shm_sizes)
  then have free: "lock_num (shm_blocks demo_object ! ((unat (shm_seq demo_object) + 0) mod unat (block_num (seg_conf demo_seg)))) = 0"
    using demo(8) by simp
  have lst: "msg_listeners (sd_base demo_sd) (seg_channel_id demo_seg) = Some ?lh" by (simp add: d ch)
  have "\<exists>tx' w' ind' d' w''. tx_Transmit_next (\<lambda>m. m) (\<lambda>_. True) (strong Works) [10, 20, 30] demo_tx demo_world Indicator = Some (Inr (True, tx', w', ind'))
    \<and> ThreadFunc_round Some (\<lambda>_. 99) (strong Works) (\<lambda>_. (ind', False)) demo_sd w' =
        Inr (map (\<lambda>c. (c, [10, 20, 30], (tx_msg_info demo_tx)\<lparr>mi_seq_num := tx_seq_num demo_tx + 1\<rparr>)) (map snd (?t Self @ ?t (Opposite 99))), d', w'')"
    by (rule shm_message_reaches_listeners [where l = 0 and c = 0, OF tx(1-3) nt(1) demo(1,5) _ _ free _ _ _ _ _ _ _ _ d(3) rd lst rep nt(3)])
      (use demo d nt tx in \<open>simp_all add: message_info_wf_def ID_SIZE_def\<close>)
  then show ?thesis by (simp add: tx)
qed

end
