(* ===== verification/Rw_Locks.thy ===== *)
theory Rw_Locks
  imports Cyber_Prelude "HOL-Library.Multiset"
begin

text \<open>
  The reader-writer locks: \<^verbatim>\<open>AtomicRWLock\<close>, \<^verbatim>\<open>ReentrantRWLock\<close> (\<^verbatim>\<open>cyber/base\<close>) and the lock of a shared memory
  \<^verbatim>\<open>Block\<close> (\<^verbatim>\<open>cyber/transport/shm/block.cc\<close>).  Each is a step relation over the lock's memory and the program
  counters of the threads, one step per access to shared memory; \<^verbatim>\<open>compare_exchange_weak\<close> may fail although
  the value matches.  \<open>reading\<close> and \<open>writing\<close> are ghosts: the threads that hold the lock, once for each guard.
  \<^verbatim>\<open>lock_num_\<close> is an \<^verbatim>\<open>int32_t\<close>: its additions wrap around (\<open>wrap32\<close>), and the results on \<^verbatim>\<open>AtomicRWLock\<close> and \<^verbatim>\<open>Block\<close>
  are about runs in which fewer than \<open>2 ^ 31\<close> readers hold a lock at a time.  For \<^verbatim>\<open>ReentrantRWLock\<close> the counter is
  taken to stay in its range.
\<close>

definition wrap32 :: "int \<Rightarrow> int" where "wrap32 n = (n + 2 ^ 31) mod 2 ^ 32 - 2 ^ 31"

lemma wrap32_id: "- (2 ^ 31) \<le> n \<Longrightarrow> n < 2 ^ 31 \<Longrightarrow> wrap32 n = n"
  by (simp add: wrap32_def)

text \<open>The steps that leave fewer than \<open>2 ^ 31\<close> readers.\<close>

definition few_readers :: "('s \<Rightarrow> 'p multiset) \<Rightarrow> ('s \<Rightarrow> 's \<Rightarrow> bool) \<Rightarrow> 's \<Rightarrow> 's \<Rightarrow> bool" where
  "few_readers reads step s s' \<longleftrightarrow> step s s' \<and> size (reads s') < 2 ^ 31"

section \<open>The contract\<close>

text \<open>
  The effects a step may have on the counter, the readers and the writers.  \<open>Sink\<close>, a decrement during
  writing that corresponds to no lock, is possible unless the flag is set.
\<close>

inductive rw_move :: "bool \<Rightarrow> int \<Rightarrow> 'p multiset \<Rightarrow> 'p multiset \<Rightarrow> int \<Rightarrow> 'p multiset \<Rightarrow> 'p multiset \<Rightarrow> bool" where
  Stay: "rw_move x n R W n R W"
| Read: "0 \<le> n \<Longrightarrow> rw_move x n R W (n + 1) (add_mset p R) W"
| Unread: "p \<in># R \<Longrightarrow> rw_move x n R W (n - 1) (R - {#p#}) W"
| Write: "n = 0 \<Longrightarrow> rw_move x n R W (-1) R (add_mset p W)"
| Nest: "p \<in># W \<Longrightarrow> rw_move x n R W (n - 1) R (add_mset p W)"
| Unwrite: "p \<in># W \<Longrightarrow> rw_move x n R W (n + 1) R (W - {#p#})"
| Sink: "\<not> x \<Longrightarrow> W \<noteq> {#} \<Longrightarrow> rw_move x n R W (n - 1) R W"

text \<open>The counter says who holds the lock: readers only, or one writer; it is exact without \<open>Sink\<close>.\<close>

definition rw_excl :: "bool \<Rightarrow> int \<Rightarrow> 'p multiset \<Rightarrow> 'p multiset \<Rightarrow> bool" where
  "rw_excl x n R W \<longleftrightarrow>
     W = {#} \<and> (n = int (size R) \<or> \<not> x \<and> n < 0 \<and> R = {#}) \<or>
     R = {#} \<and> (\<exists>p. set_mset W = {p}) \<and> n \<le> - int (size W) \<and> (x \<longrightarrow> n = - int (size W))"

lemma rw_excl_free: "rw_excl x n R W \<Longrightarrow> 0 \<le> n \<Longrightarrow> W = {#} \<and> n = int (size R)"
  using nonempty_has_size [of W] by (auto simp: rw_excl_def)

lemma rw_excl_move:
  assumes "rw_move x n R W n' R' W'" "rw_excl x n R W"
  shows "rw_excl x n' R' W'"
  using assms
proof (induction rule: rw_move.induct)
  case (Read n x R W p)
  then have "W = {#}" "n = int (size R)" using rw_excl_free by blast+
  then show ?case by (simp add: rw_excl_def)
next
  case (Unread p R x n W)
  then have "W = {#}" "n = int (size R)" by (auto simp: rw_excl_def)
  moreover have "0 < size R" using Unread by (auto simp: nonempty_has_size [symmetric])
  ultimately show ?case using Unread.hyps by (simp add: rw_excl_def size_Diff_singleton)
next
  case (Write n x R W p)
  then have "W = {#}" "R = {#}" using rw_excl_free [of x n R W] by auto
  then show ?case by (simp add: rw_excl_def)
next
  case (Unwrite p W x n R)
  then have w: "R = {#}" "set_mset W = {p}" "n \<le> - int (size W)" "x \<longrightarrow> n = - int (size W)" by (auto simp: rw_excl_def)
  have s: "size (W - {#p#}) = size W - 1" "0 < size W"
    using Unwrite.hyps by (auto simp: size_Diff_singleton nonempty_has_size [symmetric])
  show ?case
  proof (cases "W - {#p#} = {#}")
    case True
    then have "size W = 1" using s by simp
    then show ?thesis using True w by (auto simp: rw_excl_def)
  next
    case False
    then have "set_mset (W - {#p#}) = {p}" using w(2) by (metis in_diffD set_mset_eq_empty_iff singletonD subset_singletonD subsetI)
    then show ?thesis using w s by (auto simp: rw_excl_def)
  qed
qed (auto simp: rw_excl_def)

text \<open>With few readers, the counter of a lock without nesting does not wrap.\<close>

lemma wrap32_moves:
  assumes "rw_excl True n R W" "- 1 \<le> n"
  shows "0 \<le> n \<Longrightarrow> size (add_mset p R) < 2 ^ 31 \<Longrightarrow> wrap32 (n + 1) = n + 1"
    and "p \<in># R \<Longrightarrow> size (R - {#p#}) < 2 ^ 31 \<Longrightarrow> wrap32 (n - 1) = n - 1 \<and> 0 \<le> n - 1"
    and "p \<in># W \<Longrightarrow> wrap32 (n + 1) = n + 1 \<and> n = - 1"
proof -
  show "wrap32 (n + 1) = n + 1" if "0 \<le> n" "size (add_mset p R) < 2 ^ 31"
    using rw_excl_free [OF assms(1) that(1)] that(2) by (intro wrap32_id) auto
  show "wrap32 (n - 1) = n - 1 \<and> 0 \<le> n - 1" if "p \<in># R" "size (R - {#p#}) < 2 ^ 31"
  proof -
    have n: "n = int (size R)" "0 < size R" using assms(1) that(1) by (auto simp: rw_excl_def nonempty_has_size [symmetric])
    then have "n - 1 = int (size (R - {#p#}))" using that(1) by (simp add: size_Diff_singleton)
    then show ?thesis using that(2) by (intro conjI wrap32_id) auto
  qed
  show "wrap32 (n + 1) = n + 1 \<and> n = - 1" if "p \<in># W"
  proof -
    have "0 < size W" using that by (auto simp: nonempty_has_size [symmetric])
    then have "n = - 1" using assms that by (auto simp: rw_excl_def)
    then show ?thesis by (simp add: wrap32_id)
  qed
qed

locale rw_lock =
  fixes exact :: bool
    and init :: 's
    and step :: "'s \<Rightarrow> 's \<Rightarrow> bool"
    and inv :: "'s \<Rightarrow> bool"
    and num :: "'s \<Rightarrow> int"
    and reads :: "'s \<Rightarrow> 'p multiset"
    and writes :: "'s \<Rightarrow> 'p multiset"
  assumes start: "inv init" "num init = 0" "reads init = {#}" "writes init = {#}"
    and inv_step: "inv s \<Longrightarrow> step s s' \<Longrightarrow> inv s'"
    and move: "inv s \<Longrightarrow> step s s' \<Longrightarrow> rw_move exact (num s) (reads s) (writes s) (num s') (reads s') (writes s')"
begin

lemma reachable_inv: "rtranclp step init s \<Longrightarrow> inv s"
  by (induction rule: rtranclp_induct) (auto simp: start intro: inv_step)

lemma reachable_excl: "rtranclp step init s \<Longrightarrow> rw_excl exact (num s) (reads s) (writes s)"
proof (induction rule: rtranclp_induct)
  case base
  show ?case by (simp add: start rw_excl_def)
next
  case (step s s')
  then show ?case using rw_excl_move [OF move] reachable_inv by blast
qed

text \<open>A thread that writes is the only one that holds the lock.\<close>

lemma mutual_exclusion: "rtranclp step init s \<Longrightarrow> p \<in># writes s \<Longrightarrow> reads s = {#} \<and> (\<forall>q. q \<in># writes s \<longrightarrow> q = p)"
  using reachable_excl [of s] by (auto simp: rw_excl_def)

end

locale exact_rw_lock = rw_lock True init step inv num reads writes
  for init :: 's and step inv num and reads writes :: "'s \<Rightarrow> 'p multiset"
begin

text \<open>The lock is free exactly when nobody holds it.\<close>

lemma num_exact: "rtranclp step init s \<Longrightarrow> num s = int (size (reads s)) - int (size (writes s))"
  using reachable_excl [of s] by (auto simp: rw_excl_def)

end

section \<open>AtomicRWLock\<close>

datatype atomic_pc = AIdle | ACheck int | ATry int | AWait | AGot

record atomic_lock =
  a_lock_num :: int
  a_write_lock_wait_num :: u32
  a_write_first :: bool
  a_pc :: "nat \<Rightarrow> atomic_pc"
  a_reading :: "nat multiset"
  a_writing :: "nat multiset"

definition AtomicRWLock :: "bool \<Rightarrow> atomic_lock" where
  "AtomicRWLock write_first = \<lparr>a_lock_num = 0, a_write_lock_wait_num = 0, a_write_first = write_first,
     a_pc = (\<lambda>_. AIdle), a_reading = {#}, a_writing = {#}\<rparr>"

definition a_goto :: "nat \<Rightarrow> atomic_pc \<Rightarrow> atomic_lock \<Rightarrow> atomic_lock" where
  "a_goto p c s = s\<lparr>a_pc := (a_pc s)(p := c)\<rparr>"

definition a_read_must_wait :: "int \<Rightarrow> atomic_lock \<Rightarrow> bool" where
  "a_read_must_wait n s \<longleftrightarrow> n < 0 \<or> a_write_first s \<and> 0 < a_write_lock_wait_num s"

inductive atomic_step :: "atomic_lock \<Rightarrow> atomic_lock \<Rightarrow> bool" where
  ReadLock: "a_pc s p = AIdle \<Longrightarrow> atomic_step s (a_goto p (ACheck (a_lock_num s)) s)"
| ReadLock_again: "a_pc s p = ACheck n \<Longrightarrow> a_read_must_wait n s \<Longrightarrow> atomic_step s (a_goto p (ACheck (a_lock_num s)) s)"
| ReadLock_pass: "a_pc s p = ACheck n \<Longrightarrow> \<not> a_read_must_wait n s \<Longrightarrow> atomic_step s (a_goto p (ATry n) s)"
| ReadLock_swap: "a_pc s p = ATry n \<Longrightarrow> a_lock_num s = n \<Longrightarrow>
    atomic_step s (a_goto p AIdle (s\<lparr>a_lock_num := wrap32 (n + 1), a_reading := add_mset p (a_reading s)\<rparr>))"
| ReadLock_fail: "a_pc s p = ATry n \<Longrightarrow> atomic_step s (a_goto p (ACheck (a_lock_num s)) s)"
| ReadUnlock: "a_pc s p = AIdle \<Longrightarrow> p \<in># a_reading s \<Longrightarrow>
    atomic_step s (s\<lparr>a_lock_num := wrap32 (a_lock_num s - 1), a_reading := a_reading s - {#p#}\<rparr>)"
| WriteLock: "a_pc s p = AIdle \<Longrightarrow> atomic_step s (a_goto p AWait (s\<lparr>a_write_lock_wait_num := a_write_lock_wait_num s + 1\<rparr>))"
| WriteLock_swap: "a_pc s p = AWait \<Longrightarrow> a_lock_num s = 0 \<Longrightarrow>
    atomic_step s (a_goto p AGot (s\<lparr>a_lock_num := -1, a_writing := add_mset p (a_writing s)\<rparr>))"
| WriteLock_fail: "a_pc s p = AWait \<Longrightarrow> atomic_step s s"
| WriteLock_done: "a_pc s p = AGot \<Longrightarrow> atomic_step s (a_goto p AIdle (s\<lparr>a_write_lock_wait_num := a_write_lock_wait_num s - 1\<rparr>))"
| WriteUnlock: "a_pc s p = AIdle \<Longrightarrow> p \<in># a_writing s \<Longrightarrow>
    atomic_step s (s\<lparr>a_lock_num := wrap32 (a_lock_num s + 1), a_writing := a_writing s - {#p#}\<rparr>)"

text \<open>A thread only tries to swap with a count that is not negative.\<close>

definition atomic_inv :: "atomic_lock \<Rightarrow> bool" where
  "atomic_inv s \<longleftrightarrow> (\<forall>p n. a_pc s p = ATry n \<longrightarrow> 0 \<le> n) \<and> - 1 \<le> a_lock_num s \<and> rw_excl True (a_lock_num s) (a_reading s) (a_writing s)"

lemma atomic_move:
  assumes "atomic_inv s" "atomic_step s s'" "size (a_reading s') < 2 ^ 31"
  shows "rw_move True (a_lock_num s) (a_reading s) (a_writing s) (a_lock_num s') (a_reading s') (a_writing s')
    \<and> (\<forall>p n. a_pc s' p = ATry n \<longrightarrow> 0 \<le> n) \<and> - 1 \<le> a_lock_num s'"
proof -
  have I: "rw_excl True (a_lock_num s) (a_reading s) (a_writing s)" "- 1 \<le> a_lock_num s" "\<forall>p n. a_pc s p = ATry n \<longrightarrow> 0 \<le> n"
    using assms(1) by (simp_all add: atomic_inv_def)
  note w = wrap32_moves [OF I(1,2)]
  show ?thesis using assms(2,3)
  proof cases
    case (ReadLock_swap p n)
    then show ?thesis using w(1) [of p] I(3) assms(3) rw_move.Read [of n True "a_reading s" "a_writing s" p] by (auto simp: a_goto_def)
  next
    case (ReadUnlock p)
    then show ?thesis using w(2) [of p] I(3) assms(3) rw_move.Unread [of p "a_reading s" True "a_lock_num s" "a_writing s"] by auto
  next
    case (WriteUnlock p)
    then show ?thesis using w(3) [of p] I(3) rw_move.Unwrite [of p "a_writing s" True "a_lock_num s" "a_reading s"] by auto
  qed (use I(2,3) in \<open>auto simp: a_goto_def a_read_must_wait_def intro: rw_move.intros\<close>)
qed

interpretation atomic_rw: exact_rw_lock "AtomicRWLock wrf" "few_readers a_reading atomic_step" atomic_inv a_lock_num a_reading a_writing for wrf
proof unfold_locales
  show "rw_move True (a_lock_num s) (a_reading s) (a_writing s) (a_lock_num s') (a_reading s') (a_writing s')"
    if "atomic_inv s" "few_readers a_reading atomic_step s s'" for s s'
    using atomic_move that by (simp add: few_readers_def)
  then show "atomic_inv s'" if "atomic_inv s" "few_readers a_reading atomic_step s s'" for s s'
    using that atomic_move [of s s'] rw_excl_move unfolding atomic_inv_def few_readers_def by blast
qed (simp_all add: AtomicRWLock_def atomic_inv_def rw_excl_def)

section \<open>The lock of a Block\<close>

datatype block_pc = BIdle | BTry int nat | BLoad nat

record block_lock =
  b_lock_num :: int
  b_pc :: "nat \<Rightarrow> block_pc"
  b_reading :: "nat multiset"
  b_writing :: "nat multiset"

definition Block_lock :: block_lock where
  "Block_lock = \<lparr>b_lock_num = 0, b_pc = (\<lambda>_. BIdle), b_reading = {#}, b_writing = {#}\<rparr>"

definition b_goto :: "nat \<Rightarrow> block_pc \<Rightarrow> block_lock \<Rightarrow> block_lock" where
  "b_goto p c s = s\<lparr>b_pc := (b_pc s)(p := c)\<rparr>"

text \<open>\<^verbatim>\<open>TryLockForRead\<close> gives up when the block is being written, or after five attempts; then it returns false and holds nothing.\<close>

inductive block_step :: "block_lock \<Rightarrow> block_lock \<Rightarrow> bool" where
  TryLockForWrite: "b_pc s p = BIdle \<Longrightarrow> b_lock_num s = 0 \<Longrightarrow>
    block_step s (s\<lparr>b_lock_num := -1, b_writing := add_mset p (b_writing s)\<rparr>)"
| TryLockForWrite_fail: "b_pc s p = BIdle \<Longrightarrow> block_step s s"
| TryLockForRead: "b_pc s p = BIdle \<Longrightarrow> 0 \<le> b_lock_num s \<Longrightarrow> block_step s (b_goto p (BTry (b_lock_num s) 0) s)"
| TryLockForRead_written: "b_pc s p = BIdle \<Longrightarrow> b_lock_num s < 0 \<Longrightarrow> block_step s s"
| TryLockForRead_swap: "b_pc s p = BTry n k \<Longrightarrow> b_lock_num s = n \<Longrightarrow>
    block_step s (b_goto p BIdle (s\<lparr>b_lock_num := wrap32 (n + 1), b_reading := add_mset p (b_reading s)\<rparr>))"
| TryLockForRead_fail: "b_pc s p = BTry n k \<Longrightarrow> block_step s (b_goto p (if Suc k = kMaxTryLockTimes then BIdle else BLoad (Suc k)) s)"
| TryLockForRead_again: "b_pc s p = BLoad k \<Longrightarrow>
    block_step s (b_goto p (if b_lock_num s < 0 then BIdle else BTry (b_lock_num s) k) s)"
| ReleaseWriteLock: "b_pc s p = BIdle \<Longrightarrow> p \<in># b_writing s \<Longrightarrow>
    block_step s (s\<lparr>b_lock_num := wrap32 (b_lock_num s + 1), b_writing := b_writing s - {#p#}\<rparr>)"
| ReleaseReadLock: "b_pc s p = BIdle \<Longrightarrow> p \<in># b_reading s \<Longrightarrow>
    block_step s (s\<lparr>b_lock_num := wrap32 (b_lock_num s - 1), b_reading := b_reading s - {#p#}\<rparr>)"

definition block_inv :: "block_lock \<Rightarrow> bool" where
  "block_inv s \<longleftrightarrow> (\<forall>p n k. b_pc s p = BTry n k \<longrightarrow> 0 \<le> n \<and> k < kMaxTryLockTimes) \<and> (\<forall>p k. b_pc s p = BLoad k \<longrightarrow> k < kMaxTryLockTimes) \<and>
     - 1 \<le> b_lock_num s \<and> rw_excl True (b_lock_num s) (b_reading s) (b_writing s)"

lemma block_move:
  assumes "block_inv s" "block_step s s'" "size (b_reading s') < 2 ^ 31"
  shows "rw_move True (b_lock_num s) (b_reading s) (b_writing s) (b_lock_num s') (b_reading s') (b_writing s') \<and> - 1 \<le> b_lock_num s'"
    and "b_pc s' p = BTry n k \<Longrightarrow> 0 \<le> n \<and> k < kMaxTryLockTimes" and "b_pc s' p = BLoad k \<Longrightarrow> k < kMaxTryLockTimes"
proof -
  have I: "rw_excl True (b_lock_num s) (b_reading s) (b_writing s)" "- 1 \<le> b_lock_num s"
    "\<And>p n k. b_pc s p = BTry n k \<Longrightarrow> 0 \<le> n \<and> k < kMaxTryLockTimes" "\<And>p k. b_pc s p = BLoad k \<Longrightarrow> k < kMaxTryLockTimes"
    using assms(1) by (simp_all add: block_inv_def)
  note w = wrap32_moves [OF I(1,2)]
  show "rw_move True (b_lock_num s) (b_reading s) (b_writing s) (b_lock_num s') (b_reading s') (b_writing s') \<and> - 1 \<le> b_lock_num s'"
    using assms(2,3)
  proof cases
    case (TryLockForRead_swap p n k)
    then show ?thesis using w(1) [of p] I(3) assms(3) rw_move.Read [of n True "b_reading s" "b_writing s" p] by (auto simp: b_goto_def)
  next
    case (ReleaseReadLock p)
    then show ?thesis using w(2) [of p] assms(3) rw_move.Unread [of p "b_reading s" True "b_lock_num s" "b_writing s"] by auto
  next
    case (ReleaseWriteLock p)
    then show ?thesis using w(3) [of p] rw_move.Unwrite [of p "b_writing s" True "b_lock_num s" "b_reading s"] by auto
  qed (use I(2) in \<open>auto simp: b_goto_def intro: rw_move.intros\<close>)
  show "b_pc s' p = BTry n k \<Longrightarrow> 0 \<le> n \<and> k < kMaxTryLockTimes" "b_pc s' p = BLoad k \<Longrightarrow> k < kMaxTryLockTimes"
    using assms(2) I(3,4) by (cases; fastforce simp: b_goto_def split: if_splits intro: Suc_lessI)+
qed

interpretation block_rw: exact_rw_lock Block_lock "few_readers b_reading block_step" block_inv b_lock_num b_reading b_writing
proof unfold_locales
  show "rw_move True (b_lock_num s) (b_reading s) (b_writing s) (b_lock_num s') (b_reading s') (b_writing s')"
    if "block_inv s" "few_readers b_reading block_step s s'" for s s'
    using block_move(1) that by (simp add: few_readers_def)
  then show "block_inv s'" if "block_inv s" "few_readers b_reading block_step s s'" for s s'
    using that block_move [of s s'] rw_excl_move unfolding block_inv_def few_readers_def by blast
qed (simp_all add: Block_lock_def block_inv_def rw_excl_def)

section \<open>ReentrantRWLock\<close>

text \<open>
  \<open>e_free\<close> are the read guards that were given without counting because the thread was writing.  Guards are
  scoped, so a thread gives those back before its write lock.
\<close>

datatype reentrant_pc = EIdle | ECheck int | ETry int | EWait | EGot | EOwner | EReset

record reentrant_lock =
  e_lock_num :: int
  e_write_lock_wait_num :: u32
  e_write_thread_id :: "nat option"
  e_write_first :: bool
  e_pc :: "nat \<Rightarrow> reentrant_pc"
  e_reading :: "nat multiset"
  e_writing :: "nat multiset"
  e_free :: "nat multiset"

definition ReentrantRWLock :: "bool \<Rightarrow> reentrant_lock" where
  "ReentrantRWLock write_first = \<lparr>e_lock_num = 0, e_write_lock_wait_num = 0, e_write_thread_id = None, e_write_first = write_first,
     e_pc = (\<lambda>_. EIdle), e_reading = {#}, e_writing = {#}, e_free = {#}\<rparr>"

definition e_goto :: "nat \<Rightarrow> reentrant_pc \<Rightarrow> reentrant_lock \<Rightarrow> reentrant_lock" where
  "e_goto p c s = s\<lparr>e_pc := (e_pc s)(p := c)\<rparr>"

definition e_read_must_wait :: "int \<Rightarrow> reentrant_lock \<Rightarrow> bool" where
  "e_read_must_wait n s \<longleftrightarrow> n < 0 \<or> e_write_first s \<and> 0 < e_write_lock_wait_num s"

inductive reentrant_step :: "reentrant_lock \<Rightarrow> reentrant_lock \<Rightarrow> bool" where
  ReadLock_owner: "e_pc s p = EIdle \<Longrightarrow> e_write_thread_id s = Some p \<Longrightarrow> reentrant_step s (s\<lparr>e_free := add_mset p (e_free s)\<rparr>)"
| ReadLock: "e_pc s p = EIdle \<Longrightarrow> e_write_thread_id s \<noteq> Some p \<Longrightarrow> reentrant_step s (e_goto p (ECheck (e_lock_num s)) s)"
| ReadLock_again: "e_pc s p = ECheck n \<Longrightarrow> e_read_must_wait n s \<Longrightarrow> reentrant_step s (e_goto p (ECheck (e_lock_num s)) s)"
| ReadLock_pass: "e_pc s p = ECheck n \<Longrightarrow> \<not> e_read_must_wait n s \<Longrightarrow> reentrant_step s (e_goto p (ETry n) s)"
| ReadLock_swap: "e_pc s p = ETry n \<Longrightarrow> e_lock_num s = n \<Longrightarrow>
    reentrant_step s (e_goto p EIdle (s\<lparr>e_lock_num := n + 1, e_reading := add_mset p (e_reading s)\<rparr>))"
| ReadLock_fail: "e_pc s p = ETry n \<Longrightarrow> reentrant_step s (e_goto p (ECheck (e_lock_num s)) s)"
| ReadUnlock_owner: "e_pc s p = EIdle \<Longrightarrow> e_write_thread_id s = Some p \<Longrightarrow> p \<in># e_free s \<Longrightarrow>
    reentrant_step s (s\<lparr>e_free := e_free s - {#p#}\<rparr>)"
| ReadUnlock: "e_pc s p = EIdle \<Longrightarrow> e_write_thread_id s \<noteq> Some p \<Longrightarrow> p \<in># e_reading s \<Longrightarrow>
    reentrant_step s (s\<lparr>e_lock_num := e_lock_num s - 1, e_reading := e_reading s - {#p#}\<rparr>)"
| ReadUnlock_free: "e_pc s p = EIdle \<Longrightarrow> e_write_thread_id s \<noteq> Some p \<Longrightarrow> p \<in># e_free s \<Longrightarrow>
    reentrant_step s (s\<lparr>e_lock_num := e_lock_num s - 1, e_free := e_free s - {#p#}\<rparr>)"
| WriteLock_owner: "e_pc s p = EIdle \<Longrightarrow> e_write_thread_id s = Some p \<Longrightarrow>
    reentrant_step s (s\<lparr>e_lock_num := e_lock_num s - 1, e_writing := add_mset p (e_writing s)\<rparr>)"
| WriteLock: "e_pc s p = EIdle \<Longrightarrow> e_write_thread_id s \<noteq> Some p \<Longrightarrow>
    reentrant_step s (e_goto p EWait (s\<lparr>e_write_lock_wait_num := e_write_lock_wait_num s + 1\<rparr>))"
| WriteLock_swap: "e_pc s p = EWait \<Longrightarrow> e_lock_num s = 0 \<Longrightarrow>
    reentrant_step s (e_goto p EGot (s\<lparr>e_lock_num := -1, e_writing := add_mset p (e_writing s)\<rparr>))"
| WriteLock_fail: "e_pc s p = EWait \<Longrightarrow> reentrant_step s s"
| WriteLock_own: "e_pc s p = EGot \<Longrightarrow> reentrant_step s (e_goto p EOwner (s\<lparr>e_write_thread_id := Some p\<rparr>))"
| WriteLock_done: "e_pc s p = EOwner \<Longrightarrow>
    reentrant_step s (e_goto p EIdle (s\<lparr>e_write_lock_wait_num := e_write_lock_wait_num s - 1\<rparr>))"
| WriteUnlock: "e_pc s p = EIdle \<Longrightarrow> p \<in># e_writing s \<Longrightarrow> p \<notin># e_free s \<Longrightarrow>
    reentrant_step s (e_goto p (if e_lock_num s = -1 then EReset else EIdle)
      (s\<lparr>e_lock_num := e_lock_num s + 1, e_writing := e_writing s - {#p#}\<rparr>))"
| WriteUnlock_reset: "e_pc s p = EReset \<Longrightarrow> reentrant_step s (e_goto p EIdle (s\<lparr>e_write_thread_id := None\<rparr>))"

text \<open>
  The thread recorded as the writer has the lock, and the count is exact then; it is still recorded for a
  moment after it gave the lock back.
\<close>

definition owner_ok :: "reentrant_lock \<Rightarrow> bool" where
  "owner_ok s \<longleftrightarrow> (\<forall>p n. e_pc s p = ETry n \<longrightarrow> 0 \<le> n)
     \<and> (\<forall>p. e_write_thread_id s = Some p \<longrightarrow> e_pc s p = EReset \<or> p \<in># e_writing s \<and> e_lock_num s = - int (size (e_writing s)))
     \<and> (\<forall>p. e_pc s p = EGot \<or> e_pc s p = EOwner \<longrightarrow> e_writing s = {#p#} \<and> e_lock_num s = -1)
     \<and> (\<forall>p. p \<in># e_free s \<longrightarrow> p \<in># e_writing s)"

definition reentrant_inv :: "reentrant_lock \<Rightarrow> bool" where
  "reentrant_inv s \<longleftrightarrow> owner_ok s \<and> rw_excl False (e_lock_num s) (e_reading s) (e_writing s)"

lemma reentrant_move:
  assumes "reentrant_step s s'" "owner_ok s"
  shows "rw_move False (e_lock_num s) (e_reading s) (e_writing s) (e_lock_num s') (e_reading s') (e_writing s')"
  using assms
proof (induction rule: reentrant_step.induct)
  case (ReadUnlock_free s p)
  then have "e_writing s \<noteq> {#}" by (auto simp: owner_ok_def)
  then show ?case using rw_move.Sink by simp
qed (auto simp: e_goto_def owner_ok_def intro: rw_move.intros)

text \<open>What the invariant gives for a thread that holds the lock for writing.\<close>

lemma reentrant_writer:
  assumes "reentrant_inv s" "p \<in># e_writing s"
  shows "q \<in># e_writing s \<longleftrightarrow> q = p" "e_lock_num s < 0" "e_reading s = {#}"
proof -
  have "0 < size (e_writing s)" using assms(2) by (auto simp: nonempty_has_size [symmetric])
  then show "q \<in># e_writing s \<longleftrightarrow> q = p" "e_lock_num s < 0" "e_reading s = {#}"
    using assms by (auto simp: reentrant_inv_def rw_excl_def)
qed

lemma reentrant_no_writer:
  assumes "reentrant_inv s" "0 \<le> e_lock_num s"
  shows "e_writing s = {#}" "e_free s = {#}"
  using assms rw_excl_free [of False "e_lock_num s" "e_reading s" "e_writing s"]
  by (auto simp: reentrant_inv_def owner_ok_def)

lemma owner_okD:
  assumes "reentrant_inv s"
  shows "owner_ok s" and "e_pc s p = ETry n \<Longrightarrow> 0 \<le> n"
    and "e_write_thread_id s = Some p \<Longrightarrow> e_pc s p \<noteq> EReset \<Longrightarrow> p \<in># e_writing s \<and> e_lock_num s = - int (size (e_writing s))"
    and "e_pc s p = EGot \<or> e_pc s p = EOwner \<Longrightarrow> e_writing s = {#p#} \<and> e_lock_num s = -1"
    and "p \<in># e_free s \<Longrightarrow> p \<in># e_writing s"
  using assms unfolding reentrant_inv_def owner_ok_def by blast+

lemma owner_ok_same:
  assumes "owner_ok s" "e_lock_num s' = e_lock_num s" "e_writing s' = e_writing s" "e_write_thread_id s' = e_write_thread_id s"
    "\<And>q. q \<in># e_free s' \<Longrightarrow> q \<in># e_free s \<or> q \<in># e_writing s"
    "\<And>q n. e_pc s' q = ETry n \<Longrightarrow> 0 \<le> n" "\<And>q. e_pc s q = EReset \<Longrightarrow> e_pc s' q = EReset"
    "\<And>q. e_pc s' q = EGot \<or> e_pc s' q = EOwner \<Longrightarrow> e_pc s q = EGot \<or> e_pc s q = EOwner"
  shows "owner_ok s'"
proof -
  note ok = assms(1) [unfolded owner_ok_def]
  have "\<forall>p. e_write_thread_id s = Some p \<longrightarrow> e_pc s' p = EReset \<or> p \<in># e_writing s \<and> e_lock_num s = - int (size (e_writing s))"
    using ok assms(7) by blast
  moreover have "\<forall>p. e_pc s' p = EGot \<or> e_pc s' p = EOwner \<longrightarrow> e_writing s = {#p#} \<and> e_lock_num s = -1" using ok assms(8) by blast
  moreover have "\<forall>p. p \<in># e_free s' \<longrightarrow> p \<in># e_writing s" using ok assms(5) by blast
  ultimately show ?thesis using assms(6) by (simp add: owner_ok_def assms(2-4))
qed

text \<open>A step that only moves the thread's program counter, outside writing.\<close>

lemma owner_ok_goto:
  assumes "reentrant_inv s" "e_pc s p \<noteq> EReset" "c \<noteq> EGot" "c \<noteq> EOwner" "\<And>n. c = ETry n \<Longrightarrow> 0 \<le> n"
  shows "owner_ok (e_goto p c (s\<lparr>e_write_lock_wait_num := w\<rparr>))" and "owner_ok (e_goto p c s)"
  using assms owner_okD(1,2) [OF assms(1)]
  by (auto intro!: owner_ok_same [of s] simp: e_goto_def split: if_splits)

text \<open>A step that changes the count or the holders, while nobody is about to become the recorded writer.\<close>

lemma owner_okI:
  assumes "\<And>q n. e_pc s q = ETry n \<Longrightarrow> 0 \<le> n" "\<And>q. e_pc s q \<noteq> EGot \<and> e_pc s q \<noteq> EOwner"
    "\<And>q. e_write_thread_id s = Some q \<Longrightarrow> e_pc s q = EReset \<or> q \<in># e_writing s \<and> e_lock_num s = - int (size (e_writing s))"
    "\<And>q. q \<in># e_free s \<Longrightarrow> q \<in># e_writing s"
  shows "owner_ok s"
  using assms unfolding owner_ok_def by blast

lemma owner_ok_step:
  assumes "reentrant_step s s'" "reentrant_inv s"
  shows "owner_ok s'"
  using assms
proof (induction rule: reentrant_step.induct)
  case (ReadLock_owner s p)
  note I = owner_okD [OF ReadLock_owner.prems]
  have "p \<in># e_writing s" using I(3) [of p] ReadLock_owner.hyps by simp
  then show ?case using I(1,2) by (auto intro!: owner_ok_same [of s])
next
  case (ReadLock s p)
  then show ?case by (auto intro!: owner_ok_goto)
next
  case (ReadLock_again s p n)
  then show ?case by (auto intro!: owner_ok_goto)
next
  case (ReadLock_pass s p n)
  then show ?case by (auto intro!: owner_ok_goto simp: e_read_must_wait_def)
next
  case (ReadLock_swap s p n)
  note I = owner_okD [OF ReadLock_swap.prems]
  have "0 \<le> e_lock_num s" using I(2) ReadLock_swap.hyps by blast
  note no = reentrant_no_writer [OF ReadLock_swap.prems this]
  have "e_pc s q \<noteq> EGot \<and> e_pc s q \<noteq> EOwner" for q using I(4) [of q] no by auto
  moreover have "e_pc s q = EReset" if "e_write_thread_id s = Some q" for q using I(3) [OF that] no by auto
  ultimately show ?case using I(2) no ReadLock_swap.hyps by (auto intro!: owner_okI simp: e_goto_def split: if_splits)
next
  case (ReadLock_fail s p n)
  then show ?case by (auto intro!: owner_ok_goto)
next
  case (ReadUnlock_owner s p)
  note I = owner_okD [OF ReadUnlock_owner.prems]
  show ?case using I(1,2) by (auto intro!: owner_ok_same [of s] dest: in_diffD)
next
  case (ReadUnlock s p)
  note I = owner_okD [OF ReadUnlock.prems]
  have "e_reading s \<noteq> {#}" using ReadUnlock.hyps by auto
  then have no: "q \<notin># e_writing s" for q using reentrant_writer(3) [OF ReadUnlock.prems] by blast
  have "e_pc s q \<noteq> EGot \<and> e_pc s q \<noteq> EOwner" for q using I(4) [of q] no [of q] by auto
  moreover have "e_pc s q = EReset" if "e_write_thread_id s = Some q" for q using I(3) [OF that] no by auto
  ultimately show ?case using I(2,5) no by (auto intro!: owner_okI)
next
  case (ReadUnlock_free s p)
  note I = owner_okD [OF ReadUnlock_free.prems]
  note w = reentrant_writer(1) [OF ReadUnlock_free.prems I(5) [OF ReadUnlock_free.hyps(3)]]
  have "e_pc s q \<noteq> EGot \<and> e_pc s q \<noteq> EOwner" for q using I(4) [of q] w [of q] ReadUnlock_free.hyps(1) by auto
  moreover have "e_pc s q = EReset" if "e_write_thread_id s = Some q" for q
    using I(3) [OF that] w [of q] that ReadUnlock_free.hyps(2) by auto
  moreover have "q \<in># e_writing s" if "q \<in># e_free s - {#p#}" for q using I(5) [OF in_diffD [OF that]] .
  ultimately show ?case using I(2) by (auto intro!: owner_okI)
next
  case (WriteLock_owner s p)
  note I = owner_okD [OF WriteLock_owner.prems]
  have p: "p \<in># e_writing s" "e_lock_num s = - int (size (e_writing s))" using I(3) [of p] WriteLock_owner.hyps by auto
  have "e_pc s q \<noteq> EGot \<and> e_pc s q \<noteq> EOwner" for q
    using I(4) [of q] reentrant_writer(1) [OF WriteLock_owner.prems p(1), of q] WriteLock_owner.hyps(1) by auto
  then show ?case using I(2,5) WriteLock_owner.hyps p by (auto intro!: owner_okI)
next
  case (WriteLock s p)
  then show ?case by (intro owner_ok_goto(1)) auto
next
  case (WriteLock_swap s p)
  note I = owner_okD [OF WriteLock_swap.prems]
  have no: "e_writing s = {#}" "e_free s = {#}" using reentrant_no_writer [OF WriteLock_swap.prems] WriteLock_swap.hyps(2) by auto
  have "e_pc s q \<noteq> EGot \<and> e_pc s q \<noteq> EOwner" for q using I(4) [of q] no by auto
  moreover have "e_pc s q = EReset" if "e_write_thread_id s = Some q" for q using I(3) [OF that] no by auto
  ultimately show ?case using I(2) no WriteLock_swap.hyps by (auto simp: owner_ok_def e_goto_def)
next
  case (WriteLock_own s p)
  note I = owner_okD [OF WriteLock_own.prems]
  have w: "e_writing s = {#p#}" "e_lock_num s = -1" using I(4) [of p] WriteLock_own.hyps by auto
  show ?case unfolding owner_ok_def using I(2,4,5) w by (auto simp: e_goto_def split: if_splits)
next
  case (WriteLock_done s p)
  then show ?case by (intro owner_ok_goto(1)) auto
next
  case (WriteUnlock s p)
  note I = owner_okD [OF WriteUnlock.prems]
  note w = reentrant_writer(1,2) [OF WriteUnlock.prems WriteUnlock.hyps(2)]
  have free: "q \<notin># e_free s" for q using I(5) [of q] w(1) [of q] WriteUnlock.hyps(3) by auto
  have pc: "e_pc s q \<noteq> EGot \<and> e_pc s q \<noteq> EOwner" for q using I(4) [of q] w(1) [of q] WriteUnlock.hyps(1) by auto
  have left: "p \<in># e_writing s - {#p#} \<and> e_lock_num s + 1 = - int (size (e_writing s - {#p#}))"
    if "e_lock_num s = - int (size (e_writing s))" "e_lock_num s \<noteq> -1"
  proof -
    have "2 \<le> size (e_writing s)" using that w(2) by simp
    then have "e_writing s - {#p#} \<noteq> {#}" "size (e_writing s - {#p#}) = size (e_writing s) - 1"
      using WriteUnlock.hyps(2) by (auto simp: size_Diff_singleton size_eq_0_iff_empty [symmetric])
    then show ?thesis using that(1) w(1) \<open>2 \<le> size (e_writing s)\<close> by (metis in_diffD multiset_nonemptyE
      add.commute int_ops(2) minus_diff_eq of_nat_diff one_le_numeral order_trans uminus_add_conv_diff)
  qed
  have own: "e_pc s q = EReset \<or> q = p \<and> e_lock_num s = - int (size (e_writing s))" if "e_write_thread_id s = Some q" for q
    using I(3) [OF that] w(1) [of q] by auto
  show ?case using I(2) free pc own left WriteUnlock.hyps by (auto intro!: owner_okI simp: e_goto_def split: if_splits)
next
  case (WriteUnlock_reset s p)
  note I = owner_okD [OF WriteUnlock_reset.prems]
  show ?case using I(2,4,5) by (auto simp: owner_ok_def e_goto_def split: if_splits)
qed (simp add: owner_okD(1))

interpretation reentrant_rw: rw_lock False "ReentrantRWLock wrf" reentrant_step reentrant_inv e_lock_num e_reading e_writing for wrf
proof unfold_locales
  show m: "rw_move False (e_lock_num s) (e_reading s) (e_writing s) (e_lock_num s') (e_reading s') (e_writing s')"
    if "reentrant_inv s" "reentrant_step s s'" for s s'
    using reentrant_move that by (simp add: reentrant_inv_def)
  show "reentrant_inv s'" if "reentrant_inv s" "reentrant_step s s'" for s s'
    using owner_ok_step [OF that(2,1)] rw_excl_move [OF m [OF that]] that(1) by (simp add: reentrant_inv_def)
qed (simp_all add: ReentrantRWLock_def reentrant_inv_def owner_ok_def rw_excl_def)

section \<open>Properties\<close>

text \<open>
  Claim C29. \<^verbatim>\<open>AtomicRWLock\<close>, with or without precedence of writers, and the lock of a shared memory block exclude:
  under every interleaving of any number of threads in which never \<open>2 ^ 31\<close> read guards or more exist at a
  time, while one thread has the lock for writing no other thread has it at all, and the counter is the
  number of readers minus the number of writers, so that the lock is free again when all have given it back.
\<close>

theorem rw_locks_exclude:
  assumes "rtranclp (few_readers a_reading atomic_step) (AtomicRWLock wrf) s" and "rtranclp (few_readers b_reading block_step) Block_lock b"
  shows "(p \<in># a_writing s \<longrightarrow> a_reading s = {#} \<and> (\<forall>q. q \<in># a_writing s \<longrightarrow> q = p))
    \<and> a_lock_num s = int (size (a_reading s)) - int (size (a_writing s))
    \<and> (p \<in># b_writing b \<longrightarrow> b_reading b = {#} \<and> (\<forall>q. q \<in># b_writing b \<longrightarrow> q = p))
    \<and> b_lock_num b = int (size (b_reading b)) - int (size (b_writing b))"
  using atomic_rw.mutual_exclusion [OF assms(1)] atomic_rw.num_exact [OF assms(1)]
    block_rw.mutual_exclusion [OF assms(2)] block_rw.num_exact [OF assms(2)] by blast

theorem rw_locks_exclude_witness:
  "\<exists>s b. rtranclp (few_readers a_reading atomic_step) (AtomicRWLock True) s \<and> rtranclp (few_readers b_reading block_step) Block_lock b \<and>
     3 \<in># a_writing s \<and> a_reading s = {#} \<and> a_lock_num s = -1 \<and> 4 \<in># b_writing b \<and> b_reading b = {#}"
proof -
  let ?s1 = "a_goto 3 AWait ((AtomicRWLock True)\<lparr>a_write_lock_wait_num := 1\<rparr>)"
  let ?s2 = "a_goto 3 AGot (?s1\<lparr>a_lock_num := -1, a_writing := add_mset 3 (a_writing ?s1)\<rparr>)"
  let ?b = "Block_lock\<lparr>b_lock_num := -1, b_writing := add_mset 4 (b_writing Block_lock)\<rparr>"
  have "few_readers a_reading atomic_step (AtomicRWLock True) ?s1"
    using atomic_step.WriteLock [of "AtomicRWLock True" 3] by (simp add: few_readers_def AtomicRWLock_def a_goto_def)
  moreover have "few_readers a_reading atomic_step ?s1 ?s2"
    unfolding few_readers_def by (rule conjI, rule atomic_step.WriteLock_swap) (simp_all add: a_goto_def AtomicRWLock_def)
  ultimately have r: "rtranclp (few_readers a_reading atomic_step) (AtomicRWLock True) ?s2" by simp
  have b: "rtranclp (few_readers b_reading block_step) Block_lock ?b"
    unfolding few_readers_def by (intro r_into_rtranclp conjI TryLockForWrite) (simp_all add: Block_lock_def)
  have w: "3 \<in># a_writing ?s2" "4 \<in># b_writing ?b" by (simp_all add: a_goto_def)
  have "a_reading ?s2 = {#}" "b_reading ?b = {#}" "a_lock_num ?s2 = -1"
    using rw_locks_exclude [OF r b, of 3] rw_locks_exclude [OF r b, of 4] w by (blast, blast, simp add: a_goto_def)
  then show ?thesis using w r b by blast
qed

text \<open>
  \<^verbatim>\<open>ReentrantRWLock\<close> excludes: under every interleaving of threads that scope their guards, while a
  thread has the lock for writing, however often nested, no other thread has it for reading or writing,
  and the counter is below zero.
\<close>

lemma reentrant_lock_excludes:
  assumes "rtranclp reentrant_step (ReentrantRWLock wrf) s" and "p \<in># e_writing s"
  shows "e_reading s = {#} \<and> (\<forall>q. q \<in># e_writing s \<longrightarrow> q = p) \<and> e_lock_num s < 0"
  using reentrant_rw.mutual_exclusion [OF assms] reentrant_writer(2) [OF reentrant_rw.reachable_inv [OF assms(1)] assms(2)] by blast

text \<open>Two threads: the first gives the lock back while the second takes it.\<close>

definition e_demo :: "int \<Rightarrow> u32 \<Rightarrow> nat option \<Rightarrow> reentrant_pc \<Rightarrow> reentrant_pc \<Rightarrow> nat multiset \<Rightarrow> reentrant_lock" where
  "e_demo n w i c1 c2 W = \<lparr>e_lock_num = n, e_write_lock_wait_num = w, e_write_thread_id = i, e_write_first = True,
     e_pc = (\<lambda>_. EIdle)(1 := c1, 2 := c2), e_reading = {#}, e_writing = W, e_free = {#}\<rparr>"

lemma e_demo_steps:
  "reentrant_step (e_demo 0 0 None EIdle EIdle {#}) (e_demo 0 1 None EWait EIdle {#})"
  "reentrant_step (e_demo 0 1 None EWait EIdle {#}) (e_demo (-1) 1 None EGot EIdle {#1#})"
  "reentrant_step (e_demo (-1) 1 None EGot EIdle {#1#}) (e_demo (-1) 1 (Some 1) EOwner EIdle {#1#})"
  "reentrant_step (e_demo (-1) 1 (Some 1) EOwner EIdle {#1#}) (e_demo (-1) 0 (Some 1) EIdle EIdle {#1#})"
  "reentrant_step (e_demo (-1) 0 (Some 1) EIdle EIdle {#1#}) (e_demo 0 0 (Some 1) EReset EIdle {#})"
  "reentrant_step (e_demo 0 0 (Some 1) EReset EIdle {#}) (e_demo 0 1 (Some 1) EReset EWait {#})"
  "reentrant_step (e_demo 0 1 (Some 1) EReset EWait {#}) (e_demo (-1) 1 (Some 1) EReset EGot {#2#})"
  "reentrant_step (e_demo (-1) 1 (Some 1) EReset EGot {#2#}) (e_demo (-1) 1 (Some 2) EReset EOwner {#2#})"
  "reentrant_step (e_demo (-1) 1 (Some 2) EReset EOwner {#2#}) (e_demo (-1) 0 (Some 2) EReset EIdle {#2#})"
  "reentrant_step (e_demo (-1) 0 (Some 2) EReset EIdle {#2#}) (e_demo (-1) 0 None EIdle EIdle {#2#})"
  "reentrant_step (e_demo (-1) 0 None EIdle EIdle {#2#}) (e_demo (-1) 0 None EIdle (ECheck (-1)) {#2#})"
proof -
  note d = e_goto_def e_demo_def fun_upd_twist [of "2 :: nat" "Suc 0"]
  show "reentrant_step (e_demo 0 0 None EIdle EIdle {#}) (e_demo 0 1 None EWait EIdle {#})"
    using reentrant_step.WriteLock [of "e_demo 0 0 None EIdle EIdle {#}" 1] by (simp add: d)
  show "reentrant_step (e_demo 0 1 None EWait EIdle {#}) (e_demo (-1) 1 None EGot EIdle {#1#})"
    using reentrant_step.WriteLock_swap [of "e_demo 0 1 None EWait EIdle {#}" 1] by (simp add: d)
  show "reentrant_step (e_demo (-1) 1 None EGot EIdle {#1#}) (e_demo (-1) 1 (Some 1) EOwner EIdle {#1#})"
    using WriteLock_own [of "e_demo (-1) 1 None EGot EIdle {#1#}" 1] by (simp add: d)
  show "reentrant_step (e_demo (-1) 1 (Some 1) EOwner EIdle {#1#}) (e_demo (-1) 0 (Some 1) EIdle EIdle {#1#})"
    using reentrant_step.WriteLock_done [of "e_demo (-1) 1 (Some 1) EOwner EIdle {#1#}" 1] by (simp add: d)
  show "reentrant_step (e_demo (-1) 0 (Some 1) EIdle EIdle {#1#}) (e_demo 0 0 (Some 1) EReset EIdle {#})"
    using reentrant_step.WriteUnlock [of "e_demo (-1) 0 (Some 1) EIdle EIdle {#1#}" 1] by (simp add: d)
  show "reentrant_step (e_demo 0 0 (Some 1) EReset EIdle {#}) (e_demo 0 1 (Some 1) EReset EWait {#})"
    using reentrant_step.WriteLock [of "e_demo 0 0 (Some 1) EReset EIdle {#}" 2] by (simp add: d)
  show "reentrant_step (e_demo 0 1 (Some 1) EReset EWait {#}) (e_demo (-1) 1 (Some 1) EReset EGot {#2#})"
    using reentrant_step.WriteLock_swap [of "e_demo 0 1 (Some 1) EReset EWait {#}" 2] by (simp add: d)
  show "reentrant_step (e_demo (-1) 1 (Some 1) EReset EGot {#2#}) (e_demo (-1) 1 (Some 2) EReset EOwner {#2#})"
    using WriteLock_own [of "e_demo (-1) 1 (Some 1) EReset EGot {#2#}" 2] by (simp add: d)
  show "reentrant_step (e_demo (-1) 1 (Some 2) EReset EOwner {#2#}) (e_demo (-1) 0 (Some 2) EReset EIdle {#2#})"
    using reentrant_step.WriteLock_done [of "e_demo (-1) 1 (Some 2) EReset EOwner {#2#}" 2] by (simp add: d)
  show "reentrant_step (e_demo (-1) 0 (Some 2) EReset EIdle {#2#}) (e_demo (-1) 0 None EIdle EIdle {#2#})"
    using WriteUnlock_reset [of "e_demo (-1) 0 (Some 2) EReset EIdle {#2#}" 1] by (simp add: d)
  show "reentrant_step (e_demo (-1) 0 None EIdle EIdle {#2#}) (e_demo (-1) 0 None EIdle (ECheck (-1)) {#2#})"
    using reentrant_step.ReadLock [of "e_demo (-1) 0 None EIdle EIdle {#2#}" 2] by (simp add: d)
qed

lemma e_demo_reach:
  "rtranclp reentrant_step (ReentrantRWLock True) (e_demo (-1) 0 (Some 1) EIdle EIdle {#1#})"
  "rtranclp reentrant_step (ReentrantRWLock True) (e_demo (-1) 0 None EIdle (ECheck (-1)) {#2#})"
proof -
  have "ReentrantRWLock True = e_demo 0 0 None EIdle EIdle {#}"
    by (simp add: ReentrantRWLock_def e_demo_def fun_upd_idem)
  then have "rtranclp reentrant_step (ReentrantRWLock True) (e_demo 0 1 None EWait EIdle {#})" using e_demo_steps(1) by simp
  then show r: "rtranclp reentrant_step (ReentrantRWLock True) (e_demo (-1) 0 (Some 1) EIdle EIdle {#1#})"
    using e_demo_steps(2-4) by (meson rtranclp.rtrancl_into_rtrancl)
  then show "rtranclp reentrant_step (ReentrantRWLock True) (e_demo (-1) 0 None EIdle (ECheck (-1)) {#2#})"
    using e_demo_steps(5-11) by (meson rtranclp.rtrancl_into_rtrancl)
qed

lemma reentrant_lock_excludes_witness:
  "\<exists>s. rtranclp reentrant_step (ReentrantRWLock True) s \<and> 1 \<in># e_writing s \<and> e_reading s = {#} \<and> e_lock_num s < 0"
proof -
  have "1 \<in># e_writing (e_demo (-1) 0 (Some 1) EIdle EIdle {#1#})" by (simp add: e_demo_def)
  then show ?thesis using reentrant_lock_excludes [OF e_demo_reach(1), of 1] e_demo_reach(1) by blast
qed

text \<open>A writer that waits to read its own lock waits for ever.\<close>

definition self_blocked :: "nat \<Rightarrow> reentrant_lock \<Rightarrow> bool" where
  "self_blocked p s \<longleftrightarrow> p \<in># e_writing s \<and> (\<exists>n<0. e_pc s p = ECheck n)"

lemma self_blocked_step:
  assumes "reentrant_step s s'" "reentrant_inv s" "self_blocked p s"
  shows "self_blocked p s'"
proof -
  obtain n where p: "p \<in># e_writing s" "n < 0" "e_pc s p = ECheck n" using assms(3) by (auto simp: self_blocked_def)
  note w = reentrant_writer [OF assms(2) p(1)]
  show ?thesis using assms(1)
  proof cases
    case (ReadLock_pass q m)
    then show ?thesis using p by (auto simp: self_blocked_def e_goto_def e_read_must_wait_def)
  next
    case (WriteUnlock q)
    then show ?thesis using p w(1) [of q] by simp
  qed (use p w(2) in \<open>auto simp: self_blocked_def e_goto_def\<close>)
qed

text \<open>
  The lock loses its reentrancy in a race: \<^verbatim>\<open>WriteUnlock\<close> clears the recorded owner after it has released
  the lock, and so may clear the record of the next writer.  A state is reachable in which a thread
  that has the lock for writing and calls \<^verbatim>\<open>ReadLock\<close> waits for itself, and it does so in every later state.
\<close>

lemma reentrant_lock_waits_for_itself:
  "\<exists>s. rtranclp reentrant_step (ReentrantRWLock True) s \<and> self_blocked 2 s \<and> Collect (rtranclp reentrant_step s) \<subseteq> Collect (self_blocked 2)"
proof (intro exI conjI subsetI CollectI)
  let ?s = "e_demo (-1) 0 None EIdle (ECheck (-1)) {#2#}"
  show reach: "rtranclp reentrant_step (ReentrantRWLock True) ?s" by (rule e_demo_reach)
  show self: "self_blocked 2 ?s" by (simp add: self_blocked_def e_demo_def)
  fix t assume "t \<in> Collect (rtranclp reentrant_step ?s)"
  then have "rtranclp reentrant_step ?s t" by simp
  then show "self_blocked 2 t"
  proof (induction rule: rtranclp_induct)
    case (step t u)
    then show ?case using self_blocked_step reentrant_rw.reachable_inv rtranclp_trans [OF reach] by blast
  qed (rule self)
qed

end
