(* ===== verification/Croutines.thy ===== *)
theory Croutines
  imports Cyber_Prelude
begin

text \<open>
  Coroutines (\<^verbatim>\<open>cyber/croutine/croutine.h\<close>) and the two run queues a processor takes them from:
  \<^verbatim>\<open>ClassicContext\<close> and \<^verbatim>\<open>ChoreographyContext\<close> (\<^verbatim>\<open>cyber/scheduler/policy\<close>).  Coroutines are shared between run
  queues, processors and the scheduler, so they live in a heap and are referred to by address.  Times are
  integers, \<open>now\<close> is the reading of the steady clock.
\<close>

section \<open>Coroutines\<close>

datatype routine_state = READY | FINISHED | SLEEP | IO_WAIT | DATA_WAIT

text \<open>\<open>cr_lock\<close> and \<open>cr_updated\<close> are the atomic flags; \<open>cr_updated\<close> is cleared to announce an event.\<close>

record croutine =
  cr_id :: u64
  cr_name :: string
  cr_group_name :: string
  cr_processor_id :: int
  cr_priority :: u32
  cr_state :: routine_state
  cr_wake_time :: int
  cr_lock :: bool
  cr_updated :: bool
  cr_force_stop :: bool

definition CRoutine :: "int \<Rightarrow> u64 \<Rightarrow> string \<Rightarrow> croutine" where
  "CRoutine now i n = \<lparr>cr_id = i, cr_name = n, cr_group_name = [], cr_processor_id = -1, cr_priority = 0, cr_state = READY,
     cr_wake_time = now, cr_lock = False, cr_updated = True, cr_force_stop = False\<rparr>"

definition Acquire :: "croutine \<Rightarrow> bool \<times> croutine" where
  "Acquire cr = (\<not> cr_lock cr, cr\<lparr>cr_lock := True\<rparr>)"

definition Release :: "croutine \<Rightarrow> croutine" where
  "Release cr = cr\<lparr>cr_lock := False\<rparr>"

definition SetUpdateFlag :: "croutine \<Rightarrow> croutine" where
  "SetUpdateFlag cr = cr\<lparr>cr_updated := False\<rparr>"

definition UpdateState :: "int \<Rightarrow> croutine \<Rightarrow> routine_state \<times> croutine" where
  "UpdateState now cr =
     (if cr_state cr = SLEEP \<and> cr_wake_time cr < now then (READY, cr\<lparr>cr_state := READY\<rparr>)
      else let cr' = cr\<lparr>cr_updated := True\<rparr>;
               cr'' = (if \<not> cr_updated cr \<and> (cr_state cr = DATA_WAIT \<or> cr_state cr = IO_WAIT) then cr'\<lparr>cr_state := READY\<rparr> else cr')
           in (cr_state cr'', cr''))"

definition Wake :: "croutine \<Rightarrow> croutine" where "Wake cr = cr\<lparr>cr_state := READY\<rparr>"
definition Stop :: "croutine \<Rightarrow> croutine" where "Stop cr = cr\<lparr>cr_force_stop := True\<rparr>"

text \<open>\<open>Yield_as s\<close> is how a coroutine leaves the processor in \<^verbatim>\<open>Yield\<close>, \<^verbatim>\<open>HangUp\<close> and \<^verbatim>\<open>Sleep\<close>.\<close>

definition Yield_as :: "routine_state \<Rightarrow> croutine \<Rightarrow> croutine" where "Yield_as s cr = cr\<lparr>cr_state := s\<rparr>"
definition HangUp :: "croutine \<Rightarrow> croutine" where "HangUp cr = Yield_as DATA_WAIT cr"
definition Sleep :: "int \<Rightarrow> int \<Rightarrow> croutine \<Rightarrow> croutine" where
  "Sleep now d cr = Yield_as SLEEP (cr\<lparr>cr_wake_time := now + d\<rparr>)"

text \<open>\<open>body\<close> is what the coroutine does until it yields.\<close>

definition Resume :: "(croutine \<Rightarrow> croutine) \<Rightarrow> croutine \<Rightarrow> routine_state \<times> croutine" where
  "Resume body cr =
     (if cr_force_stop cr then (FINISHED, cr\<lparr>cr_state := FINISHED\<rparr>)
      else if cr_state cr \<noteq> READY then (cr_state cr, cr)
      else (cr_state (body cr), body cr))"

section \<open>Taking the next coroutine\<close>

type_synonym cr_heap = "nat \<Rightarrow> croutine"

text \<open>What never changes of a coroutine once it was dispatched.\<close>

definition cr_static :: "croutine \<Rightarrow> u64 \<times> string \<times> u32 \<times> string \<times> int" where
  "cr_static cr = (cr_id cr, cr_name cr, cr_priority cr, cr_group_name cr, cr_processor_id cr)"

text \<open>The loop both contexts have: the first coroutine that can be acquired and is ready stays acquired.\<close>

fun take_ready :: "int \<Rightarrow> nat list \<Rightarrow> cr_heap \<Rightarrow> nat option \<times> cr_heap" where
  "take_ready now [] h = (None, h)"
| "take_ready now (p # ps) h =
     (case Acquire (h p) of
        (False, cr) \<Rightarrow> take_ready now ps (h(p := cr))
      | (True, cr) \<Rightarrow>
          (case UpdateState now cr of
             (s, cr') \<Rightarrow> if s = READY then (Some p, h(p := cr')) else take_ready now ps (h(p := Release cr'))))"

definition runnable :: "int \<Rightarrow> croutine \<Rightarrow> bool" where
  "runnable now cr \<longleftrightarrow> \<not> cr_lock cr \<and> fst (UpdateState now cr) = READY"

lemma UpdateState_lock [simp]:
  "fst (UpdateState now (cr\<lparr>cr_lock := b\<rparr>)) = fst (UpdateState now cr)"
  "snd (UpdateState now (cr\<lparr>cr_lock := b\<rparr>)) = (snd (UpdateState now cr))\<lparr>cr_lock := b\<rparr>"
  by (simp_all add: UpdateState_def Let_def)

lemma UpdateState_fst: "fst (UpdateState now cr) = cr_state (snd (UpdateState now cr))"
  by (simp add: UpdateState_def Let_def)

text \<open>A coroutine after it was looked at and left, and after it was taken.\<close>

definition polled :: "int \<Rightarrow> croutine \<Rightarrow> croutine" where
  "polled now cr = (if cr_lock cr then cr else snd (UpdateState now cr))"

definition held :: "int \<Rightarrow> croutine \<Rightarrow> croutine" where
  "held now cr = (snd (UpdateState now cr))\<lparr>cr_lock := True\<rparr>"

lemma UpdateState_keeps: "cr_lock (snd (UpdateState now cr)) = cr_lock cr" "cr_priority (snd (UpdateState now cr)) = cr_priority cr"
  "cr_static (snd (UpdateState now cr)) = cr_static cr"
  by (simp_all add: UpdateState_def Let_def cr_static_def)

lemma take_ready_Cons:
  "take_ready now (p # ps) h =
     (if runnable now (h p) then (Some p, h(p := held now (h p))) else take_ready now ps (h(p := polled now (h p))))"
proof -
  have same: "cr\<lparr>cr_lock := b\<rparr> = cr" if "cr_lock cr = b" for cr b using that by (cases cr) simp
  have "(snd (UpdateState now (h p)))\<lparr>cr_lock := False\<rparr> = snd (UpdateState now (h p))" if "\<not> cr_lock (h p)"
    using same [of "snd (UpdateState now (h p))" False] that by (simp add: UpdateState_keeps)
  then have rel: "Release (held now (h p)) = polled now (h p)" if "\<not> cr_lock (h p)"
    using that by (simp add: Release_def held_def polled_def)
  have u: "UpdateState now ((h p)\<lparr>cr_lock := True\<rparr>) = (fst (UpdateState now (h p)), held now (h p))"
    by (rule prod_eqI) (simp_all add: held_def)
  show ?thesis
  proof (cases "cr_lock (h p)")
    case True
    have "Acquire (h p) = (False, h p)" unfolding Acquire_def same [of "h p" True, OF True [THEN eqTrueI]] using True by simp
    then show ?thesis using True by (simp add: runnable_def polled_def)
  next
    case False
    then show ?thesis using rel by (simp add: Acquire_def u runnable_def)
  qed
qed

text \<open>What the loop does: it takes the first coroutine that is runnable, and only polls those before it.\<close>

lemma take_ready_eq:
  "distinct ps \<Longrightarrow> take_ready now ps h =
     (find (\<lambda>p. runnable now (h p)) ps,
      \<lambda>q. if find (\<lambda>p. runnable now (h p)) ps = Some q then held now (h q)
          else if q \<in> set (takeWhile (\<lambda>p. \<not> runnable now (h p)) ps) then polled now (h q) else h q)"
proof (induction ps arbitrary: h)
  case (Cons p ps)
  let ?h = "h(p := polled now (h p))"
  have p: "p \<notin> set ps" "distinct ps" using Cons.prems by simp_all
  then have f: "find (\<lambda>q. runnable now (?h q)) ps = find (\<lambda>q. runnable now (h q)) ps"
    "takeWhile (\<lambda>q. \<not> runnable now (?h q)) ps = takeWhile (\<lambda>q. \<not> runnable now (h q)) ps"
    by (auto intro!: find_cong takeWhile_cong)
  have n: "find (\<lambda>q. runnable now (h q)) ps \<noteq> Some p" "p \<notin> set (takeWhile (\<lambda>q. \<not> runnable now (h q)) ps)"
    using p(1) by (auto simp: find_Some_iff dest: set_takeWhileD)
  show ?case
  proof (cases "runnable now (h p)")
    case False
    then have "take_ready now (p # ps) h = take_ready now ps ?h" by (simp only: take_ready_Cons if_False)
    then show ?thesis using Cons.IH [OF p(2), of ?h] f n False by (auto simp: fun_eq_iff)
  qed (auto simp: take_ready_Cons simp del: take_ready.simps)
qed simp

section \<open>The contract of a run queue\<close>

text \<open>
  \<open>order q\<close> are the coroutines of a queue in the order it serves them; \<open>next\<close> takes the next one.  A queue
  serves higher priorities first.
\<close>

locale run_queue =
  fixes order :: "'q \<Rightarrow> nat list"
    and prio :: "'q \<Rightarrow> nat \<Rightarrow> u32"
    and inv :: "'q \<Rightarrow> bool"
    and stopped :: "'q \<Rightarrow> bool"
    and take_next :: "int \<Rightarrow> 'q \<Rightarrow> cr_heap \<Rightarrow> nat option \<times> cr_heap"
  assumes order_distinct: "inv q \<Longrightarrow> distinct (order q)"
    and order_sorted: "inv q \<Longrightarrow> sorted_wrt (\<lambda>a b. prio q b \<le> prio q a) (order q)"
    and take_next: "inv q \<Longrightarrow> take_next now q h = (if stopped q then (None, h) else take_ready now (order q) h)"
begin

text \<open>
  What is taken was runnable, nothing of higher priority was, and it is held and ready afterwards; nothing
  is taken only if nothing was runnable.
\<close>

lemma next_is_best:
  assumes "inv q" "\<not> stopped q" "take_next now q h = (Some p, h')"
  shows "p \<in> set (order q)" "runnable now (h p)" "cr_lock (h' p)" "cr_state (h' p) = READY"
    and "p' \<in> set (order q) \<Longrightarrow> runnable now (h p') \<Longrightarrow> prio q p' \<le> prio q p"
proof -
  let ?f = "find (\<lambda>p. runnable now (h p)) (order q)"
  have r: "?f = Some p" and h': "h' p = held now (h p)"
    using assms(3) unfolding take_next [OF assms(1)] take_ready_eq [OF order_distinct [OF assms(1)]] by (auto simp: assms(2))
  then obtain i where i: "i < length (order q)" "runnable now (h (order q ! i))" "p = order q ! i" "\<forall>j<i. \<not> runnable now (h (order q ! j))"
    by (auto simp: find_Some_iff)
  then show "p \<in> set (order q)" "runnable now (h p)" by auto
  then show "cr_lock (h' p)" "cr_state (h' p) = READY" by (simp_all add: h' held_def runnable_def UpdateState_fst)
  assume "p' \<in> set (order q)" "runnable now (h p')"
  then obtain j where j: "j < length (order q)" "p' = order q ! j" "i \<le> j" using i(4) by (metis in_set_conv_nth not_le)
  then show "prio q p' \<le> prio q p" using i(3) sorted_wrt_nth_less [OF order_sorted [OF assms(1)], of i j] by (cases "i = j") auto
qed

lemma next_none:
  assumes "inv q" "\<not> stopped q" "take_next now q h = (None, h')" "p \<in> set (order q)"
  shows "\<not> runnable now (h p)"
  using assms(3,4) unfolding take_next [OF assms(1)] take_ready_eq [OF order_distinct [OF assms(1)]] by (auto simp: assms(2) find_None_iff)

text \<open>Whoever is held elsewhere stays as it is, and nobody loses a lock.\<close>

lemma next_keeps:
  assumes "inv q" "take_next now q h = (r, h')"
  shows "cr_lock (h p) \<Longrightarrow> r \<noteq> Some p \<and> h' p = h p" and "cr_lock (h' p) \<longleftrightarrow> cr_lock (h p) \<or> r = Some p"
proof -
  have f: "find (\<lambda>p. runnable now (h p)) (order q) = Some p \<Longrightarrow> \<not> cr_lock (h p)" for p by (auto simp: find_Some_iff runnable_def)
  have e: "(r, h') = (if stopped q then (None, h) else take_ready now (order q) h)" using assms take_next by metis
  note t = take_ready_eq [OF order_distinct [OF assms(1)], of now h]
  show "cr_lock (h p) \<Longrightarrow> r \<noteq> Some p \<and> h' p = h p" using e f by (auto simp: t polled_def split: if_splits)
  show "cr_lock (h' p) \<longleftrightarrow> cr_lock (h p) \<or> r = Some p"
    using e by (auto simp: t polled_def held_def UpdateState_keeps split: if_splits)
qed

lemma next_static:
  assumes "inv q" "take_next now q h = (r, h')"
  shows "cr_static (h' p) = cr_static (h p)"
proof -
  have "cr_static (held now cr) = cr_static cr" "cr_static (polled now cr) = cr_static cr" for cr
    using UpdateState_keeps(3) [of now cr] by (simp_all add: held_def polled_def cr_static_def)
  moreover have "(r, h') = (if stopped q then (None, h) else take_ready now (order q) h)" using assms take_next by metis
  ultimately show ?thesis by (auto simp: take_ready_eq [OF order_distinct [OF assms(1)]] split: if_splits)
qed

end

end
