(* ===== verification/Schedulers.thy ===== *)
theory Schedulers
  imports Croutines Name_Registry
begin

text \<open>
  The run queues of \<^verbatim>\<open>ClassicContext\<close> and \<^verbatim>\<open>ChoreographyContext\<close>, the two schedulers, and the processors
  (\<^verbatim>\<open>cyber/scheduler\<close>).  All run queues are one map from their place: \<open>Pool g i\<close> is \<^verbatim>\<open>cr_group_[g].at(i)\<close>, \<open>Proc n\<close> the
  \<^verbatim>\<open>cr_queue_\<close> of the choreography context of processor \<open>n\<close>.  The locks of queues and of the id map are the atomicity
  of the operations.
\<close>

definition MAX_PRIO :: nat where "MAX_PRIO = 20"

definition DEFAULT_GROUP_NAME :: string where "DEFAULT_GROUP_NAME = ''default_grp''"

datatype run_loc = Pool string nat | Proc nat

record sched =
  sc_heap :: cr_heap
  sc_next :: nat
  sc_rq :: "run_loc \<Rightarrow> nat list"
  sc_notify_grp :: "string \<Rightarrow> int"
  sc_notify_proc :: "nat \<Rightarrow> int"
  id_cr :: "u64 \<rightharpoonup> nat"
  sc_stop :: bool
  sc_ctx_stop :: "nat \<Rightarrow> bool"
  sc_proc_num :: u32

section \<open>Contexts\<close>

fun next_prio :: "int \<Rightarrow> (nat \<Rightarrow> nat list) \<Rightarrow> nat \<Rightarrow> cr_heap \<Rightarrow> nat option \<times> cr_heap" where
  "next_prio now q 0 h = (None, h)"
| "next_prio now q (Suc i) h =
     (case take_ready now (q i) h of
        (Some p, h') \<Rightarrow> (Some p, h')
      | (None, h') \<Rightarrow> next_prio now q i h')"

definition ClassicContext_NextRoutine :: "int \<Rightarrow> bool \<Rightarrow> (nat \<Rightarrow> nat list) \<Rightarrow> cr_heap \<Rightarrow> nat option \<times> cr_heap" where
  "ClassicContext_NextRoutine now stop q h = (if stop then (None, h) else next_prio now q MAX_PRIO h)"

definition ChoreographyContext_NextRoutine :: "int \<Rightarrow> bool \<Rightarrow> nat list \<Rightarrow> cr_heap \<Rightarrow> nat option \<times> cr_heap" where
  "ChoreographyContext_NextRoutine now stop q h = (if stop then (None, h) else take_ready now q h)"

text \<open>\<^verbatim>\<open>emplace\<close> of a multimap ordered by \<^verbatim>\<open>std::greater\<close>: behind the entries whose key is not smaller.\<close>

definition ChoreographyContext_Enqueue :: "cr_heap \<Rightarrow> nat \<Rightarrow> nat list \<Rightarrow> nat list" where
  "ChoreographyContext_Enqueue h p q =
     (let before = (\<lambda>x. cr_priority (h p) \<le> cr_priority (h x)) in takeWhile before q @ p # dropWhile before q)"

definition InitGroup :: "string \<Rightarrow> sched \<Rightarrow> sched" where
  "InitGroup g s = s\<lparr>sc_notify_grp := (sc_notify_grp s)(g := 0)\<rparr>"

definition ClassicContext_Notify :: "string \<Rightarrow> sched \<Rightarrow> sched" where
  "ClassicContext_Notify g s = s\<lparr>sc_notify_grp := (sc_notify_grp s)(g := sc_notify_grp s g + 1)\<rparr>"

definition ChoreographyContext_Notify :: "nat \<Rightarrow> sched \<Rightarrow> sched" where
  "ChoreographyContext_Notify n s = s\<lparr>sc_notify_proc := (sc_notify_proc s)(n := sc_notify_proc s n + 1)\<rparr>"

text \<open>What \<^verbatim>\<open>Wait\<close> does when it returns, be it notified or after a second.\<close>

definition ClassicContext_Wait :: "string \<Rightarrow> sched \<Rightarrow> sched" where
  "ClassicContext_Wait g s =
     (if 0 < sc_notify_grp s g then s\<lparr>sc_notify_grp := (sc_notify_grp s)(g := sc_notify_grp s g - 1)\<rparr> else s)"

definition ChoreographyContext_Wait :: "nat \<Rightarrow> sched \<Rightarrow> sched" where
  "ChoreographyContext_Wait n s =
     (if 0 < sc_notify_proc s n then s\<lparr>sc_notify_proc := (sc_notify_proc s)(n := sc_notify_proc s n - 1)\<rparr> else s)"

text \<open>
  \<^verbatim>\<open>RemoveCRoutine\<close> of a context: the coroutine is stopped, and it is removed once no processor holds it;
  \<open>None\<close> while one does.
\<close>

definition remove_from :: "run_loc \<Rightarrow> u64 \<Rightarrow> sched \<Rightarrow> (bool \<times> sched) option" where
  "remove_from loc crid s =
     (case find (\<lambda>p. cr_id (sc_heap s p) = crid) (sc_rq s loc) of
        None \<Rightarrow> Some (False, s)
      | Some p \<Rightarrow>
          let cr = Stop (sc_heap s p)
          in case Acquire cr of
               (False, _) \<Rightarrow> None
             | (True, cr') \<Rightarrow> Some (True, s\<lparr>sc_heap := (sc_heap s)(p := Release cr'), sc_rq := (sc_rq s)(loc := remove1 p (sc_rq s loc))\<rparr>))"

definition ClassicContext_RemoveCRoutine :: "nat \<Rightarrow> sched \<Rightarrow> (bool \<times> sched) option" where
  "ClassicContext_RemoveCRoutine p s =
     (let cr = sc_heap s p in remove_from (Pool (cr_group_name cr) (unat (cr_priority cr))) (cr_id cr) s)"

definition ChoreographyContext_RemoveCRoutine :: "nat \<Rightarrow> u64 \<Rightarrow> sched \<Rightarrow> (bool \<times> sched) option" where
  "ChoreographyContext_RemoveCRoutine n crid s = remove_from (Proc n) crid s"

section \<open>The contexts are run queues\<close>

lemma take_ready_append:
  "take_ready now (ps @ qs) h =
     (case take_ready now ps h of (Some p, h') \<Rightarrow> (Some p, h') | (None, h') \<Rightarrow> take_ready now qs h')"
  by (induction ps arbitrary: h) (auto simp: take_ready_Cons simp del: take_ready.simps(2))

definition pool_order :: "(nat \<Rightarrow> nat list) \<Rightarrow> nat \<Rightarrow> nat list" where
  "pool_order q k = concat (map q (rev [0..<k]))"

lemma pool_order_simps [simp]: "pool_order q 0 = []" "pool_order q (Suc k) = q k @ pool_order q k"
  by (simp_all add: pool_order_def)

lemma set_pool_order: "p \<in> set (pool_order q k) \<longleftrightarrow> (\<exists>i<k. p \<in> set (q i))"
  by (induction k) (auto simp: less_Suc_eq)

lemma next_prio_eq: "next_prio now q k h = take_ready now (pool_order q k) h"
  by (induction k arbitrary: h) (simp_all add: take_ready_append split: prod.split option.split)

text \<open>Every coroutine of the list of priority \<open>i\<close> has that priority, and is there once.\<close>

definition pool_ok :: "(nat \<Rightarrow> nat list) \<Rightarrow> (nat \<Rightarrow> u32) \<Rightarrow> bool" where
  "pool_ok q pr \<longleftrightarrow> (\<forall>i<MAX_PRIO. distinct (q i) \<and> (\<forall>p\<in>set (q i). unat (pr p) = i))"

lemma pool_order_sorted:
  assumes "pool_ok q pr" "k \<le> MAX_PRIO"
  shows "distinct (pool_order q k) \<and> sorted_wrt (\<lambda>a b. pr b \<le> pr a) (pool_order q k)"
  using assms(2)
proof (induction k)
  case (Suc k)
  have k: "distinct (q k)" "\<forall>p\<in>set (q k). unat (pr p) = k" using assms(1) Suc.prems by (simp_all add: pool_ok_def)
  have below: "unat (pr p) < k" if p: "p \<in> set (pool_order q k)" for p
  proof -
    obtain i where "i < k" "p \<in> set (q i)" using p by (auto simp: set_pool_order)
    moreover from this have "unat (pr p) = i" using assms(1) Suc.prems by (simp add: pool_ok_def)
    ultimately show ?thesis by simp
  qed
  have "sorted_wrt (\<lambda>a b. pr b \<le> pr a) (q k)"
    using k(2) by (auto simp: sorted_wrt_iff_nth_less word_le_nat_alt)
  moreover have "pr b \<le> pr a" if "a \<in> set (q k)" "b \<in> set (pool_order q k)" for a b
    using k(2) below [OF that(2)] that(1) by (auto simp: word_le_nat_alt)
  moreover have "set (q k) \<inter> set (pool_order q k) = {}" using k(2) below by fastforce
  ultimately show ?case using Suc k(1) by (simp add: sorted_wrt_append)
qed simp

definition queue_ok :: "nat list \<Rightarrow> (nat \<Rightarrow> u32) \<Rightarrow> bool" where
  "queue_ok q pr \<longleftrightarrow> distinct q \<and> sorted_wrt (\<lambda>a b. pr b \<le> pr a) q"

interpretation classic_rq: run_queue "\<lambda>(stop, q, pr). pool_order q MAX_PRIO" "\<lambda>(stop, q, pr). pr" "\<lambda>(stop, q, pr). pool_ok q pr"
  "\<lambda>(stop, q, pr). stop" "\<lambda>now (stop, q, pr) h. ClassicContext_NextRoutine now stop q h"
  by unfold_locales (auto simp: pool_order_sorted ClassicContext_NextRoutine_def next_prio_eq)

interpretation choreography_rq: run_queue "\<lambda>(stop, q, pr). q" "\<lambda>(stop, q, pr). pr" "\<lambda>(stop, q, pr). queue_ok q pr"
  "\<lambda>(stop, q, pr). stop" "\<lambda>now (stop, q, pr) h. ChoreographyContext_NextRoutine now stop q h"
  by unfold_locales (auto simp: queue_ok_def ChoreographyContext_NextRoutine_def)

lemma sorted_wrt_takeWhile_dropWhile:
  assumes "sorted_wrt R (xs @ ys)" "\<forall>x\<in>set xs. R x p" "\<forall>y\<in>set ys. R p y"
  shows "sorted_wrt R (xs @ p # ys)"
  using assms by (auto simp: sorted_wrt_append)

text \<open>\<^verbatim>\<open>Enqueue\<close> keeps the order, and puts a coroutine behind those of its own priority.\<close>

lemma Enqueue_ok:
  assumes "queue_ok q (\<lambda>p. cr_priority (h p))" "p \<notin> set q"
  shows "queue_ok (ChoreographyContext_Enqueue h p q) (\<lambda>p. cr_priority (h p))"
    and "set (ChoreographyContext_Enqueue h p q) = insert p (set q)"
proof -
  let ?P = "\<lambda>x. cr_priority (h p) \<le> cr_priority (h x)"
  let ?t = "takeWhile ?P q" let ?d = "dropWhile ?P q"
  have td: "?t @ ?d = q" by simp
  then have st: "set ?t \<union> set ?d = set q" by (metis set_append)
  have e: "ChoreographyContext_Enqueue h p q = ?t @ p # ?d" by (simp add: ChoreographyContext_Enqueue_def Let_def)
  have q: "distinct (?t @ ?d)" "sorted_wrt (\<lambda>a b. cr_priority (h b) \<le> cr_priority (h a)) (?t @ ?d)"
    using assms(1) unfolding queue_ok_def td by simp_all
  have "\<forall>y\<in>set ?d. cr_priority (h y) \<le> cr_priority (h p)"
  proof (cases ?d)
    case (Cons x d')
    then have "\<not> ?P x" by (metis dropWhile_eq_Cons_conv)
    moreover have "\<forall>y\<in>set d'. cr_priority (h y) \<le> cr_priority (h x)" using q(2) Cons by (simp add: sorted_wrt_append)
    ultimately show ?thesis using Cons by (auto intro: order_trans simp: not_le less_imp_le)
  next
    case Nil
    then show ?thesis by (metis empty_iff empty_set)
  qed
  moreover have "\<forall>y\<in>set ?t. cr_priority (h p) \<le> cr_priority (h y)" by (auto dest: set_takeWhileD)
  ultimately have "sorted_wrt (\<lambda>a b. cr_priority (h b) \<le> cr_priority (h a)) (?t @ p # ?d)"
    using q(2) by (intro sorted_wrt_takeWhile_dropWhile) auto
  moreover have s: "set (?t @ p # ?d) = insert p (set q)" using st by auto
  moreover have "p \<notin> set ?t" "p \<notin> set ?d" using assms(2) st by auto
  then have "distinct (?t @ p # ?d)" using q(1) [unfolded distinct_append] by auto
  ultimately show "queue_ok (ChoreographyContext_Enqueue h p q) (\<lambda>p. cr_priority (h p))"
    "set (ChoreographyContext_Enqueue h p q) = insert p (set q)" by (simp_all add: e queue_ok_def)
qed

section \<open>Schedulers\<close>

record classic_conf =
  cl_tasks :: "string \<rightharpoonup> u32 \<times> string"
  cl_first_group :: string

type_synonym choreography_conf = "string \<rightharpoonup> u32 \<times> int option"

definition clamp_prio :: "croutine \<Rightarrow> croutine" where
  "clamp_prio cr = (if MAX_PRIO \<le> unat (cr_priority cr) then cr\<lparr>cr_priority := of_nat (MAX_PRIO - 1)\<rparr> else cr)"

definition enqueue_pool :: "nat \<Rightarrow> sched \<Rightarrow> sched" where
  "enqueue_pool p s =
     (let cr = sc_heap s p; loc = Pool (cr_group_name cr) (unat (cr_priority cr))
      in s\<lparr>sc_rq := (sc_rq s)(loc := sc_rq s loc @ [p])\<rparr>)"

text \<open>The configured priority and group of a task; one that is not configured goes to the first group.\<close>

definition classic_attrs :: "classic_conf \<Rightarrow> croutine \<Rightarrow> croutine" where
  "classic_attrs conf cr =
     (case cl_tasks conf (cr_name cr) of
        Some (prio, g) \<Rightarrow> cr\<lparr>cr_priority := prio, cr_group_name := g\<rparr>
      | None \<Rightarrow> cr\<lparr>cr_group_name := cl_first_group conf\<rparr>)"

definition DispatchTask_classic :: "classic_conf \<Rightarrow> nat \<Rightarrow> sched \<Rightarrow> bool \<times> sched" where
  "DispatchTask_classic conf p s =
     (let cr = sc_heap s p
      in if id_cr s (cr_id cr) \<noteq> None then (False, s)
         else let cr' = clamp_prio (classic_attrs conf cr)
              in (True, ClassicContext_Notify (cr_group_name cr')
                    (enqueue_pool p (s\<lparr>id_cr := (id_cr s)(cr_id cr \<mapsto> p), sc_heap := (sc_heap s)(p := cr')\<rparr>))))"

text \<open>\<^verbatim>\<open>processor_id\<close> is converted to an unsigned number, so that -1 means no processor.\<close>

definition pid_of :: "croutine \<Rightarrow> u32" where
  "pid_of cr = word_of_int (cr_processor_id cr)"

definition choreography_attrs :: "choreography_conf \<Rightarrow> croutine \<Rightarrow> croutine" where
  "choreography_attrs conf cr =
     (case conf (cr_name cr) of
        None \<Rightarrow> cr
      | Some (prio, None) \<Rightarrow> cr\<lparr>cr_priority := prio\<rparr>
      | Some (prio, Some n) \<Rightarrow> cr\<lparr>cr_priority := prio, cr_processor_id := n\<rparr>)"

definition DispatchTask_choreography :: "choreography_conf \<Rightarrow> nat \<Rightarrow> sched \<Rightarrow> bool \<times> sched" where
  "DispatchTask_choreography conf p s =
     (let cr = choreography_attrs conf (sc_heap s p);
          s = s\<lparr>sc_heap := (sc_heap s)(p := cr)\<rparr>
      in if id_cr s (cr_id cr) \<noteq> None then (False, s)
         else let s = s\<lparr>id_cr := (id_cr s)(cr_id cr \<mapsto> p)\<rparr>; n = pid_of cr
              in if n < sc_proc_num s
                 then (True, s\<lparr>sc_rq := (sc_rq s)(Proc (unat n) := ChoreographyContext_Enqueue (sc_heap s) p (sc_rq s (Proc (unat n))))\<rparr>)
                 else (True, enqueue_pool p (s\<lparr>sc_heap := (sc_heap s)(p := (clamp_prio cr)\<lparr>cr_group_name := DEFAULT_GROUP_NAME\<rparr>)\<rparr>)))"

definition waits_for_event :: "croutine \<Rightarrow> bool" where
  "waits_for_event cr \<longleftrightarrow> cr_state cr = DATA_WAIT \<or> cr_state cr = IO_WAIT"

definition NotifyProcessor_classic :: "u64 \<Rightarrow> sched \<Rightarrow> bool \<times> sched" where
  "NotifyProcessor_classic crid s =
     (if sc_stop s then (True, s)
      else case id_cr s crid of
             None \<Rightarrow> (False, s)
           | Some p \<Rightarrow>
               let cr = sc_heap s p
               in (True, ClassicContext_Notify (cr_group_name cr)
                     (if waits_for_event cr then s\<lparr>sc_heap := (sc_heap s)(p := SetUpdateFlag cr)\<rparr> else s)))"

definition NotifyProcessor_choreography :: "u64 \<Rightarrow> sched \<Rightarrow> bool \<times> sched" where
  "NotifyProcessor_choreography crid s =
     (if sc_stop s then (True, s)
      else case id_cr s crid of
             None \<Rightarrow> (False, s)
           | Some p \<Rightarrow>
               let cr = sc_heap s p;
                   s = (if waits_for_event cr then s\<lparr>sc_heap := (sc_heap s)(p := SetUpdateFlag cr)\<rparr> else s)
               in (True, if pid_of cr < sc_proc_num s then ChoreographyContext_Notify (unat (pid_of cr)) s
                         else ClassicContext_Notify (cr_group_name cr) s))"

text \<open>
  \<^verbatim>\<open>RemoveCRoutine\<close> stops the coroutine and erases its id, and then has it removed from its queue, which may have
  to wait.
\<close>

definition erase_id :: "u64 \<Rightarrow> nat \<Rightarrow> sched \<Rightarrow> sched" where
  "erase_id crid p s = s\<lparr>sc_heap := (sc_heap s)(p := Stop (sc_heap s p)), id_cr := (id_cr s)(crid := None)\<rparr>"

definition RemoveCRoutine_classic :: "u64 \<Rightarrow> sched \<Rightarrow> (bool \<times> sched) option" where
  "RemoveCRoutine_classic crid s =
     (case id_cr s crid of
        None \<Rightarrow> Some (False, s)
      | Some p \<Rightarrow> ClassicContext_RemoveCRoutine p (erase_id crid p s))"

definition unqueue_choreography :: "u64 \<Rightarrow> nat \<Rightarrow> sched \<Rightarrow> (bool \<times> sched) option" where
  "unqueue_choreography crid p s =
     (let n = pid_of (sc_heap s p)
      in if n < sc_proc_num s then ChoreographyContext_RemoveCRoutine (unat n) crid s
         else ClassicContext_RemoveCRoutine p s)"

definition RemoveCRoutine_choreography :: "u64 \<Rightarrow> sched \<Rightarrow> (bool \<times> sched) option" where
  "RemoveCRoutine_choreography crid s =
     (case id_cr s crid of
        None \<Rightarrow> Some (False, s)
      | Some p \<Rightarrow> unqueue_choreography crid p (erase_id crid p s))"

text \<open>What the two schedulers share; \<open>policy\<close> selects the virtual operations.\<close>

datatype policy = Classic classic_conf | Choreography choreography_conf

fun DispatchTask :: "policy \<Rightarrow> nat \<Rightarrow> sched \<Rightarrow> bool \<times> sched" where
  "DispatchTask (Classic conf) p s = DispatchTask_classic conf p s"
| "DispatchTask (Choreography conf) p s = DispatchTask_choreography conf p s"

text \<open>
  The two critical sections of \<^verbatim>\<open>DispatchTask\<close>, both under the mutex of the id: the coroutine is entered into
  \<^verbatim>\<open>id_cr_\<close>, and it is put into its run queue.  In between others see it in \<^verbatim>\<open>id_cr_\<close> only.
\<close>

fun dispatch_begin :: "policy \<Rightarrow> nat \<Rightarrow> sched \<Rightarrow> bool \<times> sched" where
  "dispatch_begin (Classic conf) p s =
     (if id_cr s (cr_id (sc_heap s p)) \<noteq> None then (False, s) else (True, s\<lparr>id_cr := (id_cr s)(cr_id (sc_heap s p) \<mapsto> p)\<rparr>))"
| "dispatch_begin (Choreography conf) p s =
     (let cr = choreography_attrs conf (sc_heap s p);
          s = s\<lparr>sc_heap := (sc_heap s)(p := cr)\<rparr>
      in if id_cr s (cr_id cr) \<noteq> None then (False, s) else (True, s\<lparr>id_cr := (id_cr s)(cr_id cr \<mapsto> p)\<rparr>))"

fun dispatch_end :: "policy \<Rightarrow> nat \<Rightarrow> sched \<Rightarrow> sched" where
  "dispatch_end (Classic conf) p s =
     (let cr = clamp_prio (classic_attrs conf (sc_heap s p))
      in ClassicContext_Notify (cr_group_name cr) (enqueue_pool p (s\<lparr>sc_heap := (sc_heap s)(p := cr)\<rparr>)))"
| "dispatch_end (Choreography conf) p s =
     (let cr = sc_heap s p; n = pid_of cr
      in if n < sc_proc_num s
         then s\<lparr>sc_rq := (sc_rq s)(Proc (unat n) := ChoreographyContext_Enqueue (sc_heap s) p (sc_rq s (Proc (unat n))))\<rparr>
         else enqueue_pool p (s\<lparr>sc_heap := (sc_heap s)(p := (clamp_prio cr)\<lparr>cr_group_name := DEFAULT_GROUP_NAME\<rparr>)\<rparr>))"

lemma DispatchTask_split:
  "DispatchTask pol p s = (case dispatch_begin pol p s of (False, s') \<Rightarrow> (False, s') | (True, s') \<Rightarrow> (True, dispatch_end pol p s'))"
  by (cases pol) (simp_all add: DispatchTask_classic_def DispatchTask_choreography_def Let_def)

fun NotifyProcessor :: "policy \<Rightarrow> u64 \<Rightarrow> sched \<Rightarrow> bool \<times> sched" where
  "NotifyProcessor (Classic conf) crid s = NotifyProcessor_classic crid s"
| "NotifyProcessor (Choreography conf) crid s = NotifyProcessor_choreography crid s"

fun RemoveCRoutine :: "policy \<Rightarrow> u64 \<Rightarrow> sched \<Rightarrow> (bool \<times> sched) option" where
  "RemoveCRoutine (Classic conf) crid s = RemoveCRoutine_classic crid s"
| "RemoveCRoutine (Choreography conf) crid s = RemoveCRoutine_choreography crid s"

text \<open>The second part of \<^verbatim>\<open>RemoveCRoutine\<close> for the coroutine \<open>p\<close> of the id.\<close>

fun unqueue :: "policy \<Rightarrow> u64 \<Rightarrow> nat \<Rightarrow> sched \<Rightarrow> (bool \<times> sched) option" where
  "unqueue (Classic conf) crid p s = ClassicContext_RemoveCRoutine p s"
| "unqueue (Choreography conf) crid p s = unqueue_choreography crid p s"

lemma RemoveCRoutine_eq:
  "RemoveCRoutine pol crid s =
     (case id_cr s crid of None \<Rightarrow> Some (False, s) | Some p \<Rightarrow> unqueue pol crid p (erase_id crid p s))"
  by (cases pol) (simp_all add: RemoveCRoutine_classic_def RemoveCRoutine_choreography_def split: option.split)

definition RemoveTask :: "(string \<Rightarrow> u64) \<Rightarrow> policy \<Rightarrow> string \<Rightarrow> sched \<Rightarrow> (bool \<times> sched) option" where
  "RemoveTask hash pol name s = (if sc_stop s then Some (True, s) else RemoveCRoutine pol (hash name) s)"

definition NotifyTask :: "policy \<Rightarrow> u64 \<Rightarrow> sched \<Rightarrow> bool \<times> sched" where
  "NotifyTask pol crid s = (if sc_stop s then (True, s) else NotifyProcessor pol crid s)"

text \<open>
  \<^verbatim>\<open>CreateTask\<close>: also gives the id whose notification is registered with the data visitor, if there is one.
\<close>

definition CreateTask ::
  "(string \<Rightarrow> u64) \<Rightarrow> policy \<Rightarrow> int \<Rightarrow> string \<Rightarrow> bool \<Rightarrow> sched \<Rightarrow> global_data \<Rightarrow> (bool \<times> u64 option \<times> sched \<times> global_data) option" where
  "CreateTask hash pol now name visitor s g =
     (if sc_stop s then Some (False, None, s, g)
      else case RegisterTaskName hash name g of
             None \<Rightarrow> None
           | Some (task_id, g') \<Rightarrow>
               let p = sc_next s;
                   s = s\<lparr>sc_heap := (sc_heap s)(p := CRoutine now task_id name), sc_next := Suc p\<rparr>
               in case DispatchTask pol p s of
                    (False, s') \<Rightarrow> Some (False, None, s', g')
                  | (True, s') \<Rightarrow> Some (True, if visitor then Some task_id else None, s', g'))"

section \<open>Processors\<close>

text \<open>
  A processor serves a pool group or its own queue; \<open>n\<close> is the number of the processor and its context.
\<close>

datatype proc_context = InGroup string | OwnQueue

fun NextRoutine :: "int \<Rightarrow> nat \<Rightarrow> proc_context \<Rightarrow> sched \<Rightarrow> nat option \<times> sched" where
  "NextRoutine now n (InGroup g) s =
     (case ClassicContext_NextRoutine now (sc_ctx_stop s n) (\<lambda>i. sc_rq s (Pool g i)) (sc_heap s) of (r, h) \<Rightarrow> (r, s\<lparr>sc_heap := h\<rparr>))"
| "NextRoutine now n OwnQueue s =
     (case ChoreographyContext_NextRoutine now (sc_ctx_stop s n) (sc_rq s (Proc n)) (sc_heap s) of (r, h) \<Rightarrow> (r, s\<lparr>sc_heap := h\<rparr>))"

text \<open>The coroutines \<^verbatim>\<open>NextRoutine\<close> of a processor looks at.\<close>

fun served_by :: "nat \<Rightarrow> proc_context \<Rightarrow> sched \<Rightarrow> nat \<Rightarrow> bool" where
  "served_by n (InGroup g) s p \<longleftrightarrow> (\<exists>i<MAX_PRIO. p \<in> set (sc_rq s (Pool g i)))"
| "served_by n OwnQueue s p \<longleftrightarrow> p \<in> set (sc_rq s (Proc n))"

fun Wait :: "nat \<Rightarrow> proc_context \<Rightarrow> sched \<Rightarrow> sched" where
  "Wait n (InGroup g) s = ClassicContext_Wait g s"
| "Wait n OwnQueue s = ChoreographyContext_Wait n s"

text \<open>\<^verbatim>\<open>Shutdown\<close> of a context; the counter is set to the greatest \<^verbatim>\<open>unsigned char\<close>.\<close>

fun ctx_Shutdown :: "nat \<Rightarrow> proc_context \<Rightarrow> sched \<Rightarrow> sched" where
  "ctx_Shutdown n (InGroup g) s = s\<lparr>sc_ctx_stop := (sc_ctx_stop s)(n := True), sc_notify_grp := (sc_notify_grp s)(g := 255)\<rparr>"
| "ctx_Shutdown n OwnQueue s = s\<lparr>sc_ctx_stop := (sc_ctx_stop s)(n := True), sc_notify_proc := (sc_notify_proc s)(n := 255)\<rparr>"

text \<open>One round of \<^verbatim>\<open>Processor::Run\<close> from \<^verbatim>\<open>Resume\<close> on; \<open>body\<close> is what the coroutine does until it yields.\<close>

definition resume_and_release :: "(croutine \<Rightarrow> croutine) \<Rightarrow> nat \<Rightarrow> sched \<Rightarrow> sched" where
  "resume_and_release body p s = s\<lparr>sc_heap := (sc_heap s)(p := Release (snd (Resume body (sc_heap s p))))\<rparr>"

section \<open>Shutdown\<close>

text \<open>The removals at \<^verbatim>\<open>Shutdown\<close>, for the ids in the order the id map gives them.\<close>

fun remove_all :: "policy \<Rightarrow> u64 list \<Rightarrow> sched \<Rightarrow> sched option" where
  "remove_all pol [] s = Some s"
| "remove_all pol (i # is) s = (case RemoveCRoutine pol i s of None \<Rightarrow> None | Some (_, s') \<Rightarrow> remove_all pol is s')"

definition Scheduler_Shutdown :: "policy \<Rightarrow> proc_context list \<Rightarrow> u64 list \<Rightarrow> sched \<Rightarrow> sched option" where
  "Scheduler_Shutdown pol ctxs ids s =
     (if sc_stop s then Some s
      else remove_all pol ids (fold (\<lambda>(n, c). ctx_Shutdown n c) (enumerate 0 ctxs) (s\<lparr>sc_stop := True\<rparr>)))"

end
