(* ===== verification/Scheduler_Steps.thy ===== *)
theory Scheduler_Steps
  imports Schedulers
begin

text \<open>
  Processors, task creation, notification and removal running against each other.  A step is what the code does
  under one lock or in one access to an atomic flag.  A creation is two steps, because it registers the id and
  enters the queue under different locks; a removal is two, because between erasing the id and taking the
  coroutine out of its queue it waits for the processor that holds the coroutine; and \<^verbatim>\<open>NextRoutine\<close> acquires and
  looks at one coroutine at a time, so that others may do something between any two of these.  \<open>running n\<close> is the
  coroutine processor \<open>n\<close> has acquired and not released, \<open>polling n\<close> tells that it has not yet looked at its state,
  \<open>creating i\<close> and \<open>removing i\<close> are the coroutines whose creation or removal holds the mutex of the id \<open>i\<close>.
\<close>

section \<open>The step relation\<close>

record sched_sys =
  sy :: sched
  sy_global :: global_data
  running :: "nat \<rightharpoonup> nat"
  polling :: "nat \<Rightarrow> bool"
  creating :: "u64 \<rightharpoonup> nat"
  removing :: "u64 \<rightharpoonup> nat"

definition sys_init :: "u32 \<Rightarrow> global_data \<Rightarrow> sched_sys" where
  "sys_init procs g =
     \<lparr>sy = \<lparr>sc_heap = (\<lambda>_. CRoutine 0 0 []), sc_next = 0, sc_rq = (\<lambda>_. []), sc_notify_grp = (\<lambda>_. 0),
        sc_notify_proc = (\<lambda>_. 0), id_cr = Map.empty, sc_stop = False, sc_ctx_stop = (\<lambda>_. False), sc_proc_num = procs\<rparr>,
      sy_global = g, running = Map.empty, polling = (\<lambda>_. False), creating = Map.empty, removing = Map.empty\<rparr>"

text \<open>A running coroutine changes its own state and wake-up time, and nothing else of itself.\<close>

definition set_routine :: "routine_state \<Rightarrow> int \<Rightarrow> croutine \<Rightarrow> croutine" where
  "set_routine st w cr = cr\<lparr>cr_state := st, cr_wake_time := w\<rparr>"

definition with_cr :: "nat \<Rightarrow> croutine \<Rightarrow> sched \<Rightarrow> sched" where
  "with_cr p cr s = s\<lparr>sc_heap := (sc_heap s)(p := cr), sc_next := Suc p\<rparr>"

definition set_cr :: "nat \<Rightarrow> croutine \<Rightarrow> sched \<Rightarrow> sched" where
  "set_cr p cr s = s\<lparr>sc_heap := (sc_heap s)(p := cr)\<rparr>"

text \<open>
  A poll may come after the processor was stopped, since \<^verbatim>\<open>NextRoutine\<close> reads \<^verbatim>\<open>stop_\<close> once, at its beginning.
\<close>

inductive sched_step :: "(string \<Rightarrow> u64) \<Rightarrow> policy \<Rightarrow> (nat \<Rightarrow> proc_context) \<Rightarrow> sched_sys \<Rightarrow> sched_sys \<Rightarrow> bool"
  for hash pol ctx where
  create_begin: "\<not> sc_stop (sy S) \<Longrightarrow> RegisterTaskName hash name (sy_global S) = Some (i, g') \<Longrightarrow>
      creating S i = None \<Longrightarrow> removing S i = None \<Longrightarrow> p = sc_next (sy S) \<Longrightarrow>
      dispatch_begin pol p (with_cr p (CRoutine now i name) (sy S)) = (r, s') \<Longrightarrow>
      sched_step hash pol ctx S (S\<lparr>sy := s', sy_global := g', creating := if r then (creating S)(i \<mapsto> p) else creating S\<rparr>)"
| create_end: "creating S i = Some p \<Longrightarrow>
      sched_step hash pol ctx S (S\<lparr>sy := dispatch_end pol p (sy S), creating := (creating S)(i := None)\<rparr>)"
| notify: "NotifyTask pol crid (sy S) = (r, s') \<Longrightarrow> sched_step hash pol ctx S (S\<lparr>sy := s'\<rparr>)"
| remove_begin: "id_cr (sy S) crid = Some p \<Longrightarrow> creating S crid = None \<Longrightarrow> removing S crid = None \<Longrightarrow>
      sched_step hash pol ctx S (S\<lparr>sy := erase_id crid p (sy S), removing := (removing S)(crid \<mapsto> p)\<rparr>)"
| remove_end: "removing S crid = Some p \<Longrightarrow> unqueue pol crid p (sy S) = Some (r, s') \<Longrightarrow>
      sched_step hash pol ctx S (S\<lparr>sy := s', removing := (removing S)(crid := None)\<rparr>)"
| poll: "running S n = None \<Longrightarrow> served_by n (ctx n) (sy S) p \<Longrightarrow> Acquire (sc_heap (sy S) p) = (True, cr) \<Longrightarrow>
      sched_step hash pol ctx S (S\<lparr>sy := set_cr p cr (sy S), running := (running S)(n \<mapsto> p), polling := (polling S)(n := True)\<rparr>)"
| poll_ready: "running S n = Some p \<Longrightarrow> polling S n \<Longrightarrow> UpdateState now (sc_heap (sy S) p) = (READY, cr) \<Longrightarrow>
      sched_step hash pol ctx S (S\<lparr>sy := set_cr p cr (sy S), polling := (polling S)(n := False)\<rparr>)"
| poll_release: "running S n = Some p \<Longrightarrow> polling S n \<Longrightarrow> UpdateState now (sc_heap (sy S) p) = (st, cr) \<Longrightarrow> st \<noteq> READY \<Longrightarrow>
      sched_step hash pol ctx S (S\<lparr>sy := set_cr p (Release cr) (sy S), running := (running S)(n := None), polling := (polling S)(n := False)\<rparr>)"
| idle: "running S n = None \<Longrightarrow> sched_step hash pol ctx S (S\<lparr>sy := Wait n (ctx n) (sy S)\<rparr>)"
| work: "running S n = Some p \<Longrightarrow> \<not> polling S n \<Longrightarrow>
      sched_step hash pol ctx S (S\<lparr>sy := set_cr p (set_routine st w (sc_heap (sy S) p)) (sy S)\<rparr>)"
| yield: "running S n = Some p \<Longrightarrow> \<not> polling S n \<Longrightarrow>
      sched_step hash pol ctx S (S\<lparr>sy := resume_and_release (set_routine st w) p (sy S), running := (running S)(n := None)\<rparr>)"
| shut: "sched_step hash pol ctx S (S\<lparr>sy := ctx_Shutdown n (ctx n) ((sy S)\<lparr>sc_stop := True\<rparr>)\<rparr>)"

definition sched_reachable :: "(string \<Rightarrow> u64) \<Rightarrow> policy \<Rightarrow> (nat \<Rightarrow> proc_context) \<Rightarrow> u32 \<Rightarrow> global_data \<Rightarrow> sched_sys \<Rightarrow> bool" where
  "sched_reachable hash pol ctx procs g S = (sched_step hash pol ctx)\<^sup>*\<^sup>* (sys_init procs g) S"

section \<open>Queues and ids\<close>

text \<open>The queue the attributes of a coroutine select.\<close>

fun home :: "policy \<Rightarrow> u32 \<Rightarrow> croutine \<Rightarrow> run_loc" where
  "home (Classic conf) m cr = Pool (cr_group_name cr) (unat (cr_priority cr))"
| "home (Choreography conf) m cr =
     (if pid_of cr < m then Proc (unat (pid_of cr)) else Pool (cr_group_name cr) (unat (cr_priority cr)))"

text \<open>
  The queue and the priority the configuration gives to a task of a name, with \<open>m\<close> processors: the specification
  of \<^verbatim>\<open>DispatchTask\<close>, read off the configuration alone.
\<close>

definition clamped :: "u32 \<Rightarrow> nat" where "clamped prio = min (unat prio) (MAX_PRIO - 1)"

fun configured :: "policy \<Rightarrow> u32 \<Rightarrow> string \<Rightarrow> run_loc \<times> nat" where
  "configured (Classic conf) m name =
     (case cl_tasks conf name of
        Some (prio, g) \<Rightarrow> (Pool g (clamped prio), clamped prio)
      | None \<Rightarrow> (Pool (cl_first_group conf) 0, 0))"
| "configured (Choreography conf) m name =
     (case conf name of
        Some (prio, Some n) \<Rightarrow>
          if uint (word_of_int n :: u32) < uint m then (Proc (nat (n mod 2 ^ 32)), unat prio)
          else (Pool DEFAULT_GROUP_NAME (clamped prio), clamped prio)
      | Some (prio, None) \<Rightarrow> (Pool DEFAULT_GROUP_NAME (clamped prio), clamped prio)
      | None \<Rightarrow> (Pool DEFAULT_GROUP_NAME 0, 0))"

definition loc_ok :: "(nat \<Rightarrow> u32) \<Rightarrow> run_loc \<Rightarrow> nat list \<Rightarrow> bool" where
  "loc_ok pr loc q \<longleftrightarrow> distinct q \<and>
     (case loc of Pool g k \<Rightarrow> q \<noteq> [] \<longrightarrow> k < MAX_PRIO | Proc n \<Rightarrow> sorted_wrt (\<lambda>a b. pr b \<le> pr a) q)"

text \<open>
  \<open>ident\<close>, \<open>pr\<close> and \<open>hm\<close> are the id, the priority and the queue of every coroutine: queued are exactly the
  coroutines that are registered or being removed, each in its own queue, and the queues are in order.
\<close>

definition queues_ok_on ::
  "(nat \<Rightarrow> u64) \<Rightarrow> (nat \<Rightarrow> u32) \<Rightarrow> (nat \<Rightarrow> run_loc) \<Rightarrow> (run_loc \<Rightarrow> nat list) \<Rightarrow> (u64 \<rightharpoonup> nat) \<Rightarrow> (u64 \<rightharpoonup> nat) \<Rightarrow> nat \<Rightarrow> bool" where
  "queues_ok_on ident pr hm rq idcr rem nxt \<longleftrightarrow>
     (\<forall>loc p. p \<in> set (rq loc) \<longrightarrow> p < nxt \<and> loc = hm p \<and> (idcr (ident p) = Some p \<or> rem (ident p) = Some p)) \<and>
     (\<forall>i p. idcr i = Some p \<or> rem i = Some p \<longrightarrow> ident p = i \<and> p \<in> set (rq (hm p))) \<and>
     (\<forall>i. idcr i = None \<or> rem i = None) \<and>
     (\<forall>loc. loc_ok pr loc (rq loc))"

text \<open>The registered coroutines whose creation is complete.\<close>

definition placed :: "(u64 \<rightharpoonup> nat) \<Rightarrow> (u64 \<rightharpoonup> nat) \<Rightarrow> u64 \<rightharpoonup> nat" where
  "placed cre idcr i = (if cre i = None then idcr i else None)"

definition queues_ok :: "policy \<Rightarrow> (u64 \<rightharpoonup> nat) \<Rightarrow> (u64 \<rightharpoonup> nat) \<Rightarrow> sched \<Rightarrow> bool" where
  "queues_ok pol cre rem s =
     queues_ok_on (\<lambda>p. cr_id (sc_heap s p)) (\<lambda>p. cr_priority (sc_heap s p)) (\<lambda>p. home pol (sc_proc_num s) (sc_heap s p))
       (sc_rq s) (placed cre (id_cr s)) rem (sc_next s)"

text \<open>What is set of a coroutine before it is entered into \<^verbatim>\<open>id_cr_\<close>, and what afterwards.\<close>

fun begin_attrs :: "policy \<Rightarrow> croutine \<Rightarrow> croutine" where
  "begin_attrs (Classic conf) cr = cr"
| "begin_attrs (Choreography conf) cr = choreography_attrs conf cr"

fun end_attrs :: "policy \<Rightarrow> u32 \<Rightarrow> croutine \<Rightarrow> croutine" where
  "end_attrs (Classic conf) m cr = clamp_prio (classic_attrs conf cr)"
| "end_attrs (Choreography conf) m cr =
     (if pid_of cr < m then cr else (clamp_prio cr)\<lparr>cr_group_name := DEFAULT_GROUP_NAME\<rparr>)"

text \<open>
  A coroutine that is being created is registered, not queued and as its constructor made it; one that is queued has
  the attributes its configuration gives it.
\<close>

definition creating_ok :: "policy \<Rightarrow> (u64 \<rightharpoonup> nat) \<Rightarrow> (u64 \<rightharpoonup> nat) \<Rightarrow> sched \<Rightarrow> bool" where
  "creating_ok pol cre rem s \<longleftrightarrow> (\<forall>i p. cre i = Some p \<longrightarrow>
     id_cr s i = Some p \<and> rem i = None \<and> p < sc_next s \<and> cr_id (sc_heap s p) = i \<and> (\<forall>loc. p \<notin> set (sc_rq s loc)) \<and>
     cr_static (sc_heap s p) = cr_static (begin_attrs pol (CRoutine 0 i (cr_name (sc_heap s p)))))"

definition configured_ok :: "policy \<Rightarrow> sched \<Rightarrow> bool" where
  "configured_ok pol s \<longleftrightarrow> (\<forall>loc p. p \<in> set (sc_rq s loc) \<longrightarrow>
     (home pol (sc_proc_num s) (sc_heap s p), unat (cr_priority (sc_heap s p))) =
       configured pol (sc_proc_num s) (cr_name (sc_heap s p)))"

definition tables_ok :: "policy \<Rightarrow> (u64 \<rightharpoonup> nat) \<Rightarrow> (u64 \<rightharpoonup> nat) \<Rightarrow> sched \<Rightarrow> bool" where
  "tables_ok pol cre rem s \<longleftrightarrow> queues_ok pol cre rem s \<and> creating_ok pol cre rem s \<and> configured_ok pol s"

lemma queues_ok_onD:
  assumes "queues_ok_on ident pr hm rq idcr rem nxt"
  shows "p \<in> set (rq loc) \<Longrightarrow> p < nxt" "p \<in> set (rq loc) \<Longrightarrow> loc = hm p"
    "p \<in> set (rq loc) \<Longrightarrow> idcr (ident p) = Some p \<or> rem (ident p) = Some p"
    "idcr i = Some p \<Longrightarrow> ident p = i" "rem i = Some p \<Longrightarrow> ident p = i"
    "idcr i = Some p \<Longrightarrow> p \<in> set (rq (hm p))" "rem i = Some p \<Longrightarrow> p \<in> set (rq (hm p))"
    "idcr i = None \<or> rem i = None" "loc_ok pr loc (rq loc)"
proof -
  note a = assms [unfolded queues_ok_on_def]
  note q = a [THEN conjunct1] and a' = a [THEN conjunct2]
  note r = a' [THEN conjunct1] and a'' = a' [THEN conjunct2]
  note e = a'' [THEN conjunct1] and o = a'' [THEN conjunct2]
  show "p \<in> set (rq loc) \<Longrightarrow> p < nxt" "p \<in> set (rq loc) \<Longrightarrow> loc = hm p"
    "p \<in> set (rq loc) \<Longrightarrow> idcr (ident p) = Some p \<or> rem (ident p) = Some p" using q by simp_all
  show "idcr i = Some p \<Longrightarrow> ident p = i" "rem i = Some p \<Longrightarrow> ident p = i"
    "idcr i = Some p \<Longrightarrow> p \<in> set (rq (hm p))" "rem i = Some p \<Longrightarrow> p \<in> set (rq (hm p))" using r by simp_all
  show "idcr i = None \<or> rem i = None" using e by simp
  show "loc_ok pr loc (rq loc)" using o by simp
qed

lemma queues_ok_onI:
  assumes "\<And>loc p. p \<in> set (rq loc) \<Longrightarrow> p < nxt \<and> loc = hm p \<and> (idcr (ident p) = Some p \<or> rem (ident p) = Some p)"
    and "\<And>i p. idcr i = Some p \<or> rem i = Some p \<Longrightarrow> ident p = i \<and> p \<in> set (rq (hm p))"
    and "\<And>i. idcr i = None \<or> rem i = None" and "\<And>loc. loc_ok pr loc (rq loc)"
  shows "queues_ok_on ident pr hm rq idcr rem nxt"
  unfolding queues_ok_on_def by (intro conjI allI impI assms)

lemma loc_ok_cong:
  assumes "\<And>p. p \<in> set q \<Longrightarrow> pr p = pr' p"
  shows "loc_ok pr loc q = loc_ok pr' loc q"
proof -
  have "sorted_wrt (\<lambda>a b. pr b \<le> pr a) q = sorted_wrt (\<lambda>a b. pr' b \<le> pr' a) q"
    using assms by (auto simp: sorted_wrt_iff_nth_less)
  then show ?thesis by (cases loc) (simp_all add: loc_ok_def)
qed

text \<open>The ways the queues change: a coroutine that is not queued changes, one is added, one is taken out.\<close>

lemma queues_ok_free:
  assumes "queues_ok_on ident pr hm rq idcr rem nxt" "\<And>l. p \<notin> set (rq l)" "nxt \<le> nxt'"
  shows "queues_ok_on (ident(p := i)) (pr(p := k)) (hm(p := loc)) rq idcr rem nxt'"
proof -
  note D = queues_ok_onD [OF assms(1)]
  have n: "q \<noteq> p" if "q \<in> set (rq l)" for q l using assms(2) that by blast
  have r: "q \<noteq> p" if "idcr j = Some q \<or> rem j = Some q" for q j using that D(6,7) n by blast
  have l: "loc_ok (pr(p := k)) l (rq l)" for l using D(9) [of l] n loc_ok_cong [of "rq l" pr "pr(p := k)" l] by auto
  have 1: "q < nxt' \<and> l = (hm(p := loc)) q \<and> (idcr ((ident(p := i)) q) = Some q \<or> rem ((ident(p := i)) q) = Some q)"
    if "q \<in> set (rq l)" for q l
    using n [OF that] D(1-3) [OF that] assms(3) by simp
  have 2: "(ident(p := i)) q = j \<and> q \<in> set (rq ((hm(p := loc)) q))" if "idcr j = Some q \<or> rem j = Some q" for q j
    using r [OF that] D(4,5,6,7) that by auto
  show ?thesis using 1 2 D(8) l by (rule queues_ok_onI)
qed

lemma queues_ok_add:
  assumes "queues_ok_on ident pr hm rq idcr rem nxt" "p < nxt" "idcr (ident p) = None" "rem (ident p) = None"
    and "\<And>loc. p \<notin> set (rq loc)" "set q = insert p (set (rq (hm p)))" "loc_ok pr (hm p) q"
  shows "queues_ok_on ident pr hm (rq(hm p := q)) (idcr(ident p \<mapsto> p)) rem nxt"
proof -
  note D = queues_ok_onD [OF assms(1)]
  let ?rq = "rq(hm p := q)" and ?id = "idcr(ident p \<mapsto> p)"
  have s: "x \<in> set (?rq l) \<longleftrightarrow> x \<in> set (rq l) \<or> x = p \<and> l = hm p" for x l using assms(6) by auto
  have k: "idcr (ident x) = Some x \<or> rem (ident x) = Some x \<Longrightarrow> ident x \<noteq> ident p" for x using assms(3,4) by auto
  have 1: "x < nxt \<and> l = hm x \<and> (?id (ident x) = Some x \<or> rem (ident x) = Some x)" if "x \<in> set (?rq l)" for x l
    using that [unfolded s] D(1-3) [of x l] k [of x] assms(2) by auto
  have 2: "ident x = j \<and> x \<in> set (?rq (hm x))" if "?id j = Some x \<or> rem j = Some x" for j x
  proof (cases "?id j = Some x \<and> j = ident p")
    case True
    then show ?thesis using s by auto
  next
    case False
    then have "idcr j = Some x \<or> rem j = Some x" using that by (auto split: if_splits)
    then show ?thesis using D(4-7) s by blast
  qed
  have 3: "?id j = None \<or> rem j = None" for j using D(8) assms(4) by auto
  have 4: "loc_ok pr l (?rq l)" for l using D(9) assms(7) by auto
  show ?thesis using 1 2 3 4 by (rule queues_ok_onI)
qed

lemma loc_ok_remove1: "loc_ok pr loc q \<Longrightarrow> loc_ok pr loc (remove1 p q)"
  by (cases loc) (auto simp: loc_ok_def distinct_remove1_removeAll removeAll_filter_not_eq sorted_wrt_filter)

lemma queues_ok_remove:
  assumes "queues_ok_on ident pr hm rq idcr rem nxt" "rem i = Some p"
  shows "queues_ok_on ident pr hm (rq(hm p := remove1 p (rq (hm p)))) idcr (rem(i := None)) nxt"
proof -
  note D = queues_ok_onD [OF assms(1)]
  let ?rq = "rq(hm p := remove1 p (rq (hm p)))" and ?rem = "rem(i := None)"
  have i: "ident p = i" "idcr i = None" using D(5) [OF assms(2)] D(8) [of i] assms(2) by auto
  have "distinct (rq (hm p))" using D(9) by (simp add: loc_ok_def)
  then have s: "x \<in> set (?rq l) \<longleftrightarrow> x \<in> set (rq l) \<and> x \<noteq> p" for x l using D(2) [of p l] by auto
  have 1: "x < nxt \<and> l = hm x \<and> (idcr (ident x) = Some x \<or> ?rem (ident x) = Some x)" if "x \<in> set (?rq l)" for x l
    using that [unfolded s] D(1-3) [of x l] assms(2) i by auto
  have 2: "ident x = j \<and> x \<in> set (?rq (hm x))" if "idcr j = Some x \<or> ?rem j = Some x" for j x
  proof -
    have "idcr j = Some x \<or> rem j = Some x" "j \<noteq> i" using that i by (auto split: if_splits)
    then show ?thesis using D(4-7) s i(1) by blast
  qed
  have 3: "idcr j = None \<or> ?rem j = None" for j using D(8) by auto
  have 4: "loc_ok pr l (?rq l)" for l using D(9) loc_ok_remove1 by auto
  show ?thesis using 1 2 3 4 by (rule queues_ok_onI)
qed

lemma queues_ok_begin:
  assumes "queues_ok_on ident pr hm rq idcr rem nxt" "idcr i = Some p" "rem i = None"
  shows "queues_ok_on ident pr hm rq (idcr(i := None)) (rem(i \<mapsto> p)) nxt"
proof -
  note D = queues_ok_onD [OF assms(1)]
  let ?id = "idcr(i := None)" and ?rem = "rem(i \<mapsto> p)"
  have 1: "x < nxt \<and> l = hm x \<and> (?id (ident x) = Some x \<or> ?rem (ident x) = Some x)" if "x \<in> set (rq l)" for x l
    using D(1-3) [OF that] assms(2,3) by auto
  have 2: "ident x = j \<and> x \<in> set (rq (hm x))" if "?id j = Some x \<or> ?rem j = Some x" for j x
    using that assms(2) D(4-7) [of j x] by (auto split: if_splits)
  have 3: "?id j = None \<or> ?rem j = None" for j using D(8) by auto
  show ?thesis using 1 2 3 D(9) by (rule queues_ok_onI)
qed

section \<open>Operations that leave the queues alone\<close>

definition same_queues :: "sched \<Rightarrow> sched \<Rightarrow> bool" where
  "same_queues s s' \<longleftrightarrow> (\<forall>p. cr_static (sc_heap s' p) = cr_static (sc_heap s p)) \<and>
     sc_rq s' = sc_rq s \<and> id_cr s' = id_cr s \<and> sc_next s' = sc_next s \<and> sc_proc_num s' = sc_proc_num s"

definition same_locks :: "sched \<Rightarrow> sched \<Rightarrow> bool" where
  "same_locks s s' \<longleftrightarrow> (\<forall>p. cr_lock (sc_heap s' p) = cr_lock (sc_heap s p))"

lemma home_static:
  assumes "cr_static a = cr_static b"
  shows "home pol m a = home pol m b" "cr_id a = cr_id b" "cr_priority a = cr_priority b" "cr_name a = cr_name b"
  using assms by (cases pol; simp add: cr_static_def pid_of_def)+

lemma same_queues_ok: "same_queues s s' \<Longrightarrow> tables_ok pol cre rem s' = tables_ok pol cre rem s"
proof -
  assume s: "same_queues s s'"
  then have st: "cr_static (sc_heap s' p) = cr_static (sc_heap s p)" for p by (simp add: same_queues_def)
  show ?thesis
    using s unfolding tables_ok_def queues_ok_def creating_ok_def configured_ok_def same_queues_def home_static [OF st] by simp
qed

lemma tables_okD:
  assumes "tables_ok pol cre rem s"
  shows "queues_ok pol cre rem s" "creating_ok pol cre rem s" "configured_ok pol s"
  using assms by (simp_all add: tables_ok_def)

lemma creating_okD:
  assumes "creating_ok pol cre rem s" "cre i = Some p"
  shows "id_cr s i = Some p" "rem i = None" "p < sc_next s" "cr_id (sc_heap s p) = i" "p \<notin> set (sc_rq s loc)"
    "cr_static (sc_heap s p) = cr_static (begin_attrs pol (CRoutine 0 i (cr_name (sc_heap s p))))"
  using assms unfolding creating_ok_def by blast+

lemma same_queues_refl [simp]: "same_queues s s" by (simp add: same_queues_def)

lemma same_queues_trans: "same_queues s s' \<Longrightarrow> same_queues s' s'' \<Longrightarrow> same_queues s s''" by (simp add: same_queues_def)

lemma same_notify: "same_queues s (ClassicContext_Notify g s)" "same_locks s (ClassicContext_Notify g s)"
  "same_queues s (ChoreographyContext_Notify n s)" "same_locks s (ChoreographyContext_Notify n s)"
  by (simp_all add: same_queues_def same_locks_def ClassicContext_Notify_def ChoreographyContext_Notify_def)

lemma same_flag:
  "same_queues s (s\<lparr>sc_heap := (sc_heap s)(p := SetUpdateFlag (sc_heap s p))\<rparr>)"
  "same_locks s (s\<lparr>sc_heap := (sc_heap s)(p := SetUpdateFlag (sc_heap s p))\<rparr>)"
  by (simp_all add: same_queues_def same_locks_def SetUpdateFlag_def cr_static_def)

lemma same_locks_trans: "same_locks s s' \<Longrightarrow> same_locks s' s'' \<Longrightarrow> same_locks s s''" by (simp add: same_locks_def)

lemma same_locks_refl [simp]: "same_locks s s" by (simp add: same_locks_def)

lemmas same_intros = same_notify same_flag same_queues_trans [OF same_flag(1) same_notify(1)] same_queues_trans [OF same_flag(1) same_notify(3)]
  same_locks_trans [OF same_flag(2) same_notify(2)] same_locks_trans [OF same_flag(2) same_notify(4)]

lemma NotifyTask_same:
  assumes "NotifyTask pol crid s = (r, s')"
  shows "same_queues s s' \<and> same_locks s s'"
proof -
  have "same_queues s (snd (NotifyProcessor_classic crid s)) \<and> same_locks s (snd (NotifyProcessor_classic crid s))"
    by (auto simp: NotifyProcessor_classic_def Let_def same_intros split: option.split)
  moreover have "same_queues s (snd (NotifyProcessor_choreography crid s)) \<and> same_locks s (snd (NotifyProcessor_choreography crid s))"
    by (auto simp: NotifyProcessor_choreography_def Let_def same_intros split: option.split)
  moreover have "s' = s \<or> s' = snd (NotifyProcessor_classic crid s) \<or> s' = snd (NotifyProcessor_choreography crid s)"
    using assms by (cases pol) (auto simp: NotifyTask_def split: if_splits)
  ultimately show ?thesis by auto
qed

lemma Wait_same: "same_queues s (Wait n c s)" "same_locks s (Wait n c s)"
  by (cases c; simp add: same_queues_def same_locks_def ClassicContext_Wait_def ChoreographyContext_Wait_def)+

lemma shut_same: "same_queues s (ctx_Shutdown n c (s\<lparr>sc_stop := True\<rparr>))" "same_locks s (ctx_Shutdown n c (s\<lparr>sc_stop := True\<rparr>))"
  by (cases c; simp add: same_queues_def same_locks_def)+

lemma set_cr_same:
  "cr_static cr = cr_static (sc_heap s p) \<Longrightarrow> same_queues s (set_cr p cr s)"
  "cr_lock cr = cr_lock (sc_heap s p) \<Longrightarrow> same_locks s (set_cr p cr s)"
  by (simp_all add: same_queues_def same_locks_def set_cr_def)

section \<open>Taking a coroutine\<close>

lemma queues_ok_queues:
  assumes "queues_ok pol cre rem s"
  shows "pool_ok (\<lambda>i. sc_rq s (Pool g i)) (\<lambda>p. cr_priority (sc_heap s p))"
    and "queue_ok (sc_rq s (Proc n)) (\<lambda>p. cr_priority (sc_heap s p))"
proof -
  note D = queues_ok_onD [OF assms [unfolded queues_ok_def]]
  have "unat (cr_priority (sc_heap s p)) = i" if "p \<in> set (sc_rq s (Pool g i))" for p i
    using D(2) [OF that] by (cases pol) (auto split: if_splits)
  then show "pool_ok (\<lambda>i. sc_rq s (Pool g i)) (\<lambda>p. cr_priority (sc_heap s p))"
    using D(9) by (auto simp: pool_ok_def loc_ok_def)
  show "queue_ok (sc_rq s (Proc n)) (\<lambda>p. cr_priority (sc_heap s p))" using D(9) [of "Proc n"] by (simp add: queue_ok_def loc_ok_def)
qed

definition queued :: "sched \<Rightarrow> nat \<Rightarrow> bool" where "queued s p \<longleftrightarrow> (\<exists>loc. p \<in> set (sc_rq s loc))"

lemma served_queued: "served_by n c s p \<Longrightarrow> queued s p"
  by (cases c) (auto simp: queued_def)

section \<open>Creating a task\<close>

lemma clamp_prio_keeps [simp]: "cr_id (clamp_prio cr) = cr_id cr" "cr_lock (clamp_prio cr) = cr_lock cr"
  "cr_group_name (clamp_prio cr) = cr_group_name cr" "pid_of (clamp_prio cr) = pid_of cr" "cr_name (clamp_prio cr) = cr_name cr"
  by (simp_all add: clamp_prio_def pid_of_def)

lemma clamp_prio_eq: "unat (cr_priority (clamp_prio cr)) = clamped (cr_priority cr)"
  by (simp add: clamp_prio_def clamped_def MAX_PRIO_def)

lemma clamped_less [simp]: "clamped k < MAX_PRIO" by (simp add: clamped_def MAX_PRIO_def)

lemma attrs_keep [simp]: "cr_id (begin_attrs pol cr) = cr_id cr" "cr_lock (begin_attrs pol cr) = cr_lock cr" "cr_name (begin_attrs pol cr) = cr_name cr"
  "cr_id (end_attrs pol m cr) = cr_id cr" "cr_lock (end_attrs pol m cr) = cr_lock cr" "cr_name (end_attrs pol m cr) = cr_name cr"
  by (cases pol; auto simp: classic_attrs_def choreography_attrs_def split: option.split)+

text \<open>The attributes of a dispatched coroutine are those of its configuration.\<close>

lemma configured_attrs:
  assumes "cr_static cr = cr_static (begin_attrs pol (CRoutine 0 i name))"
  shows "(home pol m (end_attrs pol m cr), unat (cr_priority (end_attrs pol m cr))) = configured pol m name"
proof (cases pol)
  case (Classic conf)
  then have c: "cr_name cr = name" "cr_priority cr = 0" using assms by (simp_all add: cr_static_def CRoutine_def)
  show ?thesis
    by (cases "cl_tasks conf name") (auto simp: Classic classic_attrs_def clamp_prio_eq c clamped_def)
next
  case (Choreography conf)
  have m: "\<not> (- 1 :: u32) < m" using word_order.extremum_strict [of m] by simp
  have g: "pid_of (x\<lparr>cr_group_name := grp\<rparr>) = pid_of x" for x grp by (simp add: pid_of_def)
  have z: "clamped 0 = 0" by (simp add: clamped_def)
  note c = assms [unfolded Choreography begin_attrs.simps cr_static_def, simplified]
  consider (none) "conf name = None" | (pool) prio where "conf name = Some (prio, None)"
    | (own) prio n where "conf name = Some (prio, Some n)" by (metis option.exhaust prod.exhaust)
  then show ?thesis
  proof cases
    case none
    then have "cr_priority cr = 0" "pid_of cr = -1" using c by (simp_all add: choreography_attrs_def CRoutine_def pid_of_def)
    then show ?thesis using none m z by (simp add: Choreography clamp_prio_eq g)
  next
    case (pool prio)
    then have "cr_priority cr = prio" "pid_of cr = -1" using c by (simp_all add: choreography_attrs_def CRoutine_def pid_of_def)
    then show ?thesis using pool m by (simp add: Choreography clamp_prio_eq g)
  next
    case (own prio n)
    then have k: "cr_priority cr = prio" "cr_processor_id cr = n" using c by (simp_all add: choreography_attrs_def CRoutine_def)
    have "unat (word_of_int n :: u32) = nat (n mod 2 ^ 32)" by (simp add: unat_eq_nat_uint uint_word_of_int)
    moreover have p: "pid_of cr = word_of_int n" using k by (simp add: pid_of_def)
    ultimately show ?thesis
      using own k by (auto simp: Choreography clamp_prio_eq g p word_less_def uint_word_of_int)
  qed
qed

text \<open>The first critical section.\<close>

lemma dispatch_begin_eq:
  "dispatch_begin pol p (with_cr p cr s) =
     (if id_cr s (cr_id cr) \<noteq> None then (False, with_cr p (begin_attrs pol cr) s)
      else (True, (with_cr p (begin_attrs pol cr) s)\<lparr>id_cr := (id_cr s)(cr_id cr \<mapsto> p)\<rparr>))"
  by (cases pol) (auto simp: with_cr_def choreography_attrs_def Let_def split: option.split)

lemma with_cr_ok:
  assumes "tables_ok pol cre rem s" "p = sc_next s"
  shows "tables_ok pol cre rem (with_cr p cr s)"
proof -
  note D = tables_okD [OF assms(1)]
  have n: "p \<notin> set (sc_rq s l)" for l using queues_ok_onD(1) [OF D(1) [unfolded queues_ok_def], of p l] assms(2) by auto
  have 1: "queues_ok pol cre rem (with_cr p cr s)"
    using queues_ok_free [OF D(1) [unfolded queues_ok_def] n, of "Suc p" "cr_id cr" "cr_priority cr" "home pol (sc_proc_num s) cr"] assms(2)
    by (simp add: queues_ok_def with_cr_def fun_upd_def if_distrib [of cr_id] if_distrib [of cr_priority] if_distrib [of "home pol _"] cong: if_cong)
  have 2: "creating_ok pol cre rem (with_cr p cr s)"
    unfolding creating_ok_def
  proof (intro allI impI)
    fix i q assume q: "cre i = Some q"
    then have "q \<noteq> p" using creating_okD(3) [OF D(2) q] assms(2) by simp
    then show "id_cr (with_cr p cr s) i = Some q \<and> rem i = None \<and> q < sc_next (with_cr p cr s) \<and> cr_id (sc_heap (with_cr p cr s) q) = i \<and>
        (\<forall>loc. q \<notin> set (sc_rq (with_cr p cr s) loc)) \<and>
        cr_static (sc_heap (with_cr p cr s) q) = cr_static (begin_attrs pol (CRoutine 0 i (cr_name (sc_heap (with_cr p cr s) q))))"
      using creating_okD [OF D(2) q] assms(2) by (simp add: with_cr_def)
  qed
  have "sc_heap (with_cr p cr s) q = sc_heap s q" if "q \<in> set (sc_rq s l)" for q l using n that by (auto simp: with_cr_def)
  then have "configured_ok pol (with_cr p cr s)" using D(3) by (auto simp: configured_ok_def with_cr_def)
  then show ?thesis using 1 2 by (simp add: tables_ok_def)
qed

definition grown :: "nat \<Rightarrow> sched \<Rightarrow> sched \<Rightarrow> bool" where
  "grown p s s' \<longleftrightarrow> (\<forall>x. x \<noteq> p \<longrightarrow> cr_lock (sc_heap s' x) = cr_lock (sc_heap s x)) \<and> \<not> cr_lock (sc_heap s' p) \<and>
     (\<forall>loc. set (sc_rq s loc) \<subseteq> set (sc_rq s' loc) \<and> set (sc_rq s' loc) \<subseteq> insert p (set (sc_rq s loc))) \<and> sc_next s \<le> sc_next s'"

lemma dispatch_begin_ok:
  assumes "tables_ok pol cre rem s" "p = sc_next s" "cre i = None" "rem i = None"
    and "dispatch_begin pol p (with_cr p (CRoutine now i name) s) = (r, s')"
  shows "tables_ok pol (if r then cre(i \<mapsto> p) else cre) rem s'" "grown p s s'" "sc_rq s' = sc_rq s"
proof -
  define cr where "cr = begin_attrs pol (CRoutine now i name)"
  let ?w = "with_cr p cr s"
  have c: "cr_id cr = i" "\<not> cr_lock cr" "cr_name cr = name" by (simp_all add: cr_def CRoutine_def)
  note b = dispatch_begin_eq [of pol p "CRoutine now i name" s, folded cr_def, unfolded assms(5)]
  have w: "tables_ok pol cre rem ?w" by (rule with_cr_ok [OF assms(1,2)])
  consider (dup) "\<not> r" "s' = ?w" | (new) "r" "id_cr s i = None" "s' = ?w\<lparr>id_cr := (id_cr s)(i \<mapsto> p)\<rparr>"
    using b by (auto simp: CRoutine_def split: if_splits)
  then show "tables_ok pol (if r then cre(i \<mapsto> p) else cre) rem s'"
  proof cases
    case new
    have i: "placed (cre(i \<mapsto> p)) ((id_cr s)(i \<mapsto> p)) = placed cre (id_cr ?w)"
      using new(2) assms(3) by (auto simp: placed_def with_cr_def fun_eq_iff)
    have 1: "queues_ok pol (cre(i \<mapsto> p)) rem s'" using tables_okD(1) [OF w] by (simp add: new(3) queues_ok_def i)
    have n: "p \<notin> set (sc_rq s l)" for l
      using queues_ok_onD(1) [OF tables_okD(1) [OF assms(1), unfolded queues_ok_def], of p l] assms(2) by auto
    have st: "cr_static cr = cr_static (begin_attrs pol (CRoutine 0 i name))"
      by (cases pol) (auto simp: cr_def cr_static_def CRoutine_def choreography_attrs_def split: option.split)
    have 2: "creating_ok pol (cre(i \<mapsto> p)) rem s'"
      unfolding creating_ok_def
    proof (intro allI impI)
      fix j q assume "(cre(i \<mapsto> p)) j = Some q"
      then consider "j = i" "q = p" | "j \<noteq> i" "cre j = Some q" by (auto split: if_splits)
      then show "id_cr s' j = Some q \<and> rem j = None \<and> q < sc_next s' \<and> cr_id (sc_heap s' q) = j \<and> (\<forall>loc. q \<notin> set (sc_rq s' loc)) \<and>
          cr_static (sc_heap s' q) = cr_static (begin_attrs pol (CRoutine 0 j (cr_name (sc_heap s' q))))"
      proof cases
        case 1
        then show ?thesis using c st n assms(4) by (simp add: new(3) with_cr_def)
      next
        case 2
        then show ?thesis using creating_okD [OF tables_okD(2) [OF w] 2(2)] by (simp add: new(3) with_cr_def)
      qed
    qed
    have "configured_ok pol s'" using tables_okD(3) [OF w] by (simp add: new(3) configured_ok_def)
    then show ?thesis using new(1) 1 2 by (simp add: tables_ok_def)
  qed (use w in simp)
  have "s' = ?w \<or> s' = ?w\<lparr>id_cr := (id_cr s)(i \<mapsto> p)\<rparr>" using b by (auto simp: CRoutine_def split: if_splits)
  then show "grown p s s'" "sc_rq s' = sc_rq s" using c assms(2) by (auto simp: grown_def with_cr_def)
qed

text \<open>The second: the coroutine gets its attributes and goes into the queue they select.\<close>

lemma proc_loc_ok:
  assumes "loc_ok (\<lambda>x. cr_priority (h x)) (Proc n) q" "p \<notin> set q"
  shows "loc_ok (\<lambda>x. cr_priority (h x)) (Proc n) (ChoreographyContext_Enqueue h p q)"
    "set (ChoreographyContext_Enqueue h p q) = insert p (set q)"
proof -
  have q: "queue_ok q (\<lambda>x. cr_priority (h x))" using assms(1) by (simp add: loc_ok_def queue_ok_def)
  show "loc_ok (\<lambda>x. cr_priority (h x)) (Proc n) (ChoreographyContext_Enqueue h p q)"
    "set (ChoreographyContext_Enqueue h p q) = insert p (set q)"
    using Enqueue_ok [OF q assms(2)] by (simp_all add: loc_ok_def queue_ok_def)
qed

lemma dispatch_end_eq:
  assumes "\<And>loc. p \<notin> set (sc_rq s loc)" "\<And>loc. loc_ok (\<lambda>x. cr_priority (sc_heap s x)) loc (sc_rq s loc)"
    and "cr = end_attrs pol (sc_proc_num s) (sc_heap s p)" "loc = home pol (sc_proc_num s) cr"
  obtains q s1 where "s1 = (set_cr p cr s)\<lparr>sc_rq := (sc_rq s)(loc := q)\<rparr>" "set q = insert p (set (sc_rq s loc))"
    "loc_ok (\<lambda>x. cr_priority (sc_heap s1 x)) loc q" "same_queues s1 (dispatch_end pol p s)" "same_locks s1 (dispatch_end pol p s)"
proof -
  have pool: "loc_ok pr (Pool g k) (sc_rq s (Pool g k) @ [p])" if "k < MAX_PRIO" for pr g k
    using assms(1,2) [of "Pool g k"] that by (simp add: loc_ok_def)
  consider (classic) conf where "pol = Classic conf" | (own) conf where "pol = Choreography conf" "pid_of (sc_heap s p) < sc_proc_num s"
    | (rest) conf where "pol = Choreography conf" "\<not> pid_of (sc_heap s p) < sc_proc_num s" by (cases pol) auto
  then show ?thesis
  proof cases
    case classic
    let ?s = "(set_cr p cr s)\<lparr>sc_rq := (sc_rq s)(loc := sc_rq s loc @ [p])\<rparr>"
    have l: "loc = Pool (cr_group_name cr) (clamped (cr_priority (classic_attrs conf (sc_heap s p))))"
      using classic by (simp add: assms(3,4) clamp_prio_eq)
    have k: "unat (cr_priority cr) = clamped (cr_priority (classic_attrs conf (sc_heap s p)))"
      using classic by (simp add: assms(3) clamp_prio_eq)
    have e: "dispatch_end pol p s = ClassicContext_Notify (cr_group_name cr) ?s"
      using classic assms(3,4) by (simp add: enqueue_pool_def Let_def set_cr_def)
    show ?thesis by (rule that [OF refl, of "sc_rq s loc @ [p]"]) (use pool in \<open>auto simp: e same_notify l\<close>)
  next
    case own
    then have c: "cr = sc_heap s p" "loc = Proc (unat (pid_of cr))" by (simp_all add: assms(3,4))
    then have h: "sc_heap (set_cr p cr s) = sc_heap s" "set_cr p cr s = s" by (simp_all add: set_cr_def)
    note q = proc_loc_ok [OF assms(2) [of loc, unfolded c(2)] assms(1)]
    show ?thesis
      by (rule that [OF refl, of "ChoreographyContext_Enqueue (sc_heap s) p (sc_rq s loc)"]) (use own c q h in \<open>simp_all add: Let_def\<close>)
  next
    case rest
    let ?s = "(set_cr p cr s)\<lparr>sc_rq := (sc_rq s)(loc := sc_rq s loc @ [p])\<rparr>"
    have c: "cr = (clamp_prio (sc_heap s p))\<lparr>cr_group_name := DEFAULT_GROUP_NAME\<rparr>" using rest by (simp add: assms(3))
    then have "pid_of cr = pid_of (sc_heap s p)" by (simp add: pid_of_def clamp_prio_def)
    then have l: "loc = Pool DEFAULT_GROUP_NAME (clamped (cr_priority (sc_heap s p)))" using rest c by (simp add: assms(4) clamp_prio_eq)
    have e: "dispatch_end pol p s = ?s" using rest c l by (simp add: enqueue_pool_def Let_def set_cr_def clamp_prio_eq)
    show ?thesis by (rule that [OF refl, of "sc_rq s loc @ [p]"]) (use pool l in \<open>simp_all add: e\<close>)
  qed
qed

lemma dispatch_end_ok:
  assumes "tables_ok pol cre rem s" "cre i = Some p" "\<not> cr_lock (sc_heap s p)"
  shows "tables_ok pol (cre(i := None)) rem (dispatch_end pol p s)" "grown p s (dispatch_end pol p s)"
proof -
  note T = tables_okD [OF assms(1)]
  note C = creating_okD [OF T(2) assms(2)] and D = queues_ok_onD [OF T(1) [unfolded queues_ok_def]]
  define cr where "cr = end_attrs pol (sc_proc_num s) (sc_heap s p)"
  define loc where "loc = home pol (sc_proc_num s) cr"
  obtain q s1 where s1: "s1 = (set_cr p cr s)\<lparr>sc_rq := (sc_rq s)(loc := q)\<rparr>" and q: "set q = insert p (set (sc_rq s loc))"
    and l: "loc_ok (\<lambda>x. cr_priority (sc_heap s1 x)) loc q"
    and same: "same_queues s1 (dispatch_end pol p s)" "same_locks s1 (dispatch_end pol p s)"
    by (rule dispatch_end_eq [OF C(5) D(9) cr_def loc_def])
  let ?w = "set_cr p cr s"
  have c: "cr_id cr = i" "cr_name cr = cr_name (sc_heap s p)" "cr_lock cr = cr_lock (sc_heap s p)" using C(4) by (simp_all add: cr_def)
  have w: "sc_heap s1 = (sc_heap s)(p := cr)" "id_cr s1 = id_cr s" "sc_next s1 = sc_next s" "sc_proc_num s1 = sc_proc_num s"
    "sc_rq s1 = (sc_rq s)(loc := q)" by (simp_all add: s1 set_cr_def)
  have "queues_ok pol cre rem ?w"
    using queues_ok_free [OF T(1) [unfolded queues_ok_def] C(5) order_refl, of "cr_id cr" "cr_priority cr" "home pol (sc_proc_num s) cr"]
    by (simp add: queues_ok_def set_cr_def fun_upd_def if_distrib [of cr_id] if_distrib [of cr_priority] if_distrib [of "home pol _"] cong: if_cong)
  then have "queues_ok_on (\<lambda>x. cr_id (sc_heap ?w x)) (\<lambda>x. cr_priority (sc_heap ?w x)) (\<lambda>x. home pol (sc_proc_num ?w) (sc_heap ?w x))
      (sc_rq ?w) (placed cre (id_cr ?w)) rem (sc_next ?w)" by (simp add: queues_ok_def)
  from queues_ok_add [OF this, of p q]
  have "queues_ok_on (\<lambda>x. cr_id (sc_heap s1 x)) (\<lambda>x. cr_priority (sc_heap s1 x)) (\<lambda>x. home pol (sc_proc_num s1) (sc_heap s1 x))
      (sc_rq s1) ((placed cre (id_cr s1))(i \<mapsto> p)) rem (sc_next s1)"
    using C q l c by (simp add: w set_cr_def loc_def placed_def assms(2))
  moreover have "(placed cre (id_cr s1))(i \<mapsto> p) = placed (cre(i := None)) (id_cr s1)" using C(1) by (auto simp: placed_def w fun_eq_iff)
  ultimately have 1: "queues_ok pol (cre(i := None)) rem s1" by (simp add: queues_ok_def)
  have 2: "creating_ok pol (cre(i := None)) rem s1"
    unfolding creating_ok_def
  proof (intro allI impI)
    fix j x assume "(cre(i := None)) j = Some x"
    then have j: "cre j = Some x" "j \<noteq> i" by (auto split: if_splits)
    note J = creating_okD [OF T(2) j(1)]
    have "x \<noteq> p" using J(4) C(4) j(2) by auto
    then show "id_cr s1 j = Some x \<and> rem j = None \<and> x < sc_next s1 \<and> cr_id (sc_heap s1 x) = j \<and> (\<forall>loc. x \<notin> set (sc_rq s1 loc)) \<and>
        cr_static (sc_heap s1 x) = cr_static (begin_attrs pol (CRoutine 0 j (cr_name (sc_heap s1 x))))"
      using J q by (simp add: w)
  qed
  have "(home pol (sc_proc_num s1) (sc_heap s1 x), unat (cr_priority (sc_heap s1 x))) = configured pol (sc_proc_num s1) (cr_name (sc_heap s1 x))"
    if x: "x \<in> set (sc_rq s1 l')" for x l'
  proof (cases "x = p")
    case True
    then show ?thesis using configured_attrs [OF C(6)] c by (simp add: w cr_def)
  next
    case False
    then have "x \<in> set (sc_rq s l')" using x q by (auto simp: w split: if_splits)
    then show ?thesis using T(3) False by (simp add: configured_ok_def w)
  qed
  then have "configured_ok pol s1" by (simp add: configured_ok_def)
  then show "tables_ok pol (cre(i := None)) rem (dispatch_end pol p s)" using 1 2 same_queues_ok [OF same(1)] by (simp add: tables_ok_def)
  show "grown p s (dispatch_end pol p s)"
    using same q assms(3) c(3) by (auto simp: grown_def same_queues_def same_locks_def w)
qed

section \<open>Removing a task\<close>

lemma creating_ok_mono:
  assumes "creating_ok pol cre rem s" "\<And>p. cr_static (sc_heap s' p) = cr_static (sc_heap s p)" "sc_next s' = sc_next s"
    and "\<And>loc. set (sc_rq s' loc) \<subseteq> set (sc_rq s loc)" "\<And>j. cre j \<noteq> None \<Longrightarrow> id_cr s' j = id_cr s j \<and> rem' j = rem j"
  shows "creating_ok pol cre rem' s'"
  unfolding creating_ok_def
proof (intro allI impI)
  fix j x assume x: "cre j = Some x"
  note C = creating_okD [OF assms(1) x]
  show "id_cr s' j = Some x \<and> rem' j = None \<and> x < sc_next s' \<and> cr_id (sc_heap s' x) = j \<and> (\<forall>loc. x \<notin> set (sc_rq s' loc)) \<and>
      cr_static (sc_heap s' x) = cr_static (begin_attrs pol (CRoutine 0 j (cr_name (sc_heap s' x))))"
    unfolding home_static [OF assms(2)] using C assms(2) [of x] assms(3,4) assms(5) [of j] x by auto
qed

lemma configured_ok_mono:
  assumes "configured_ok pol s" "\<And>p. cr_static (sc_heap s' p) = cr_static (sc_heap s p)" "sc_proc_num s' = sc_proc_num s"
    and "\<And>loc. set (sc_rq s' loc) \<subseteq> set (sc_rq s loc)"
  shows "configured_ok pol s'"
  using assms(1,3,4) unfolding configured_ok_def home_static [OF assms(2)] by auto

lemma erase_id_ok:
  assumes "tables_ok pol cre rem s" "id_cr s i = Some p" "cre i = None" "rem i = None"
  shows "tables_ok pol cre (rem(i \<mapsto> p)) (erase_id i p s)"
proof -
  note T = tables_okD [OF assms(1)]
  let ?s = "s\<lparr>id_cr := (id_cr s)(i := None)\<rparr>"
  have "placed cre (id_cr s) i = Some p" "(placed cre (id_cr s))(i := None) = placed cre ((id_cr s)(i := None))"
    using assms(2,3) by (auto simp: placed_def)
  then have "queues_ok pol cre (rem(i \<mapsto> p)) ?s"
    using queues_ok_begin [OF T(1) [unfolded queues_ok_def] _ assms(4), of p] by (simp add: queues_ok_def)
  moreover have "creating_ok pol cre (rem(i \<mapsto> p)) ?s" by (rule creating_ok_mono [OF T(2)]) (use assms(3) in auto)
  moreover have "configured_ok pol ?s" by (rule configured_ok_mono [OF T(3)]) simp_all
  moreover have "same_queues ?s (erase_id i p s)" by (simp add: same_queues_def erase_id_def Stop_def cr_static_def)
  ultimately show ?thesis using same_queues_ok unfolding tables_ok_def by blast
qed

text \<open>A removal finds its coroutine in its queue; it waits while a processor holds it and takes it out afterwards.\<close>

lemma unqueue_eq:
  assumes "queues_ok pol cre rem s" "rem i = Some p"
  shows "unqueue pol i p s =
    (let loc = home pol (sc_proc_num s) (sc_heap s p)
     in if cr_lock (sc_heap s p) then None
        else Some (True, s\<lparr>sc_heap := (sc_heap s)(p := Stop (sc_heap s p)), sc_rq := (sc_rq s)(loc := remove1 p (sc_rq s loc))\<rparr>))"
proof -
  note D = queues_ok_onD [OF assms(1) [unfolded queues_ok_def]]
  define loc where "loc = home pol (sc_proc_num s) (sc_heap s p)"
  have p: "p \<in> set (sc_rq s loc)" "cr_id (sc_heap s p) = i" "placed cre (id_cr s) i = None"
    using D(5,7) [OF assms(2)] D(8) [of i] assms(2) by (auto simp: loc_def)
  have only: "x = p" if "x \<in> set (sc_rq s loc)" "cr_id (sc_heap s x) = i" for x using D(3) [OF that(1)] that(2) p(3) assms(2) by auto
  have f: "find (\<lambda>x. cr_id (sc_heap s x) = i) (sc_rq s loc) = Some p"
  proof (cases "find (\<lambda>x. cr_id (sc_heap s x) = i) (sc_rq s loc)")
    case None
    then show ?thesis using p(1,2) by (simp add: find_None_iff)
  next
    case (Some x)
    then have "x \<in> set (sc_rq s loc)" "cr_id (sc_heap s x) = i" unfolding find_Some_iff by auto
    then show ?thesis using Some only by simp
  qed
  have u: "unqueue pol i p s = remove_from loc i s"
    using p(2) by (cases pol) (auto simp: ClassicContext_RemoveCRoutine_def unqueue_choreography_def ChoreographyContext_RemoveCRoutine_def Let_def loc_def)
  have "Release ((Stop (sc_heap s p))\<lparr>cr_lock := True\<rparr>) = Stop (sc_heap s p)" if "\<not> cr_lock (sc_heap s p)"
    using that by (simp add: Release_def Stop_def)
  then show ?thesis unfolding u loc_def [symmetric] by (simp add: remove_from_def f Acquire_def Let_def Stop_def)
qed

section \<open>The invariant of the system\<close>

definition sys_ok :: "policy \<Rightarrow> sched_sys \<Rightarrow> bool" where
  "sys_ok pol S \<longleftrightarrow> tables_ok pol (creating S) (removing S) (sy S) \<and>
     (\<forall>p. cr_lock (sc_heap (sy S) p) \<longleftrightarrow> (\<exists>n. running S n = Some p)) \<and>
     (\<forall>n m p. running S n = Some p \<longrightarrow> running S m = Some p \<longrightarrow> n = m) \<and>
     (\<forall>n p. running S n = Some p \<longrightarrow> queued (sy S) p)"

lemma sys_okD:
  assumes "sys_ok pol S"
  shows "tables_ok pol (creating S) (removing S) (sy S)" "cr_lock (sc_heap (sy S) p) \<longleftrightarrow> (\<exists>n. running S n = Some p)"
    "running S n = Some p \<Longrightarrow> running S m = Some p \<Longrightarrow> n = m" "running S n = Some p \<Longrightarrow> queued (sy S) p"
  using assms unfolding sys_ok_def by blast+

lemma sys_okI:
  assumes "tables_ok pol (creating S) (removing S) (sy S)" "\<And>p. cr_lock (sc_heap (sy S) p) \<longleftrightarrow> (\<exists>n. running S n = Some p)"
    "\<And>n m p. running S n = Some p \<Longrightarrow> running S m = Some p \<Longrightarrow> n = m" "\<And>n p. running S n = Some p \<Longrightarrow> queued (sy S) p"
  shows "sys_ok pol S"
  unfolding sys_ok_def by (intro conjI allI impI assms)

text \<open>Whatever touches neither queues nor locks keeps the invariant.\<close>

lemma sys_ok_same:
  assumes "sys_ok pol S" "same_queues (sy S) s'" "same_locks (sy S) s'"
  shows "sys_ok pol (S\<lparr>sy := s'\<rparr>)"
proof (rule sys_okI)
  show "tables_ok pol (creating (S\<lparr>sy := s'\<rparr>)) (removing (S\<lparr>sy := s'\<rparr>)) (sy (S\<lparr>sy := s'\<rparr>))" using sys_okD(1) [OF assms(1)] same_queues_ok [OF assms(2)] by simp
  show "cr_lock (sc_heap (sy (S\<lparr>sy := s'\<rparr>)) p) \<longleftrightarrow> (\<exists>n. running (S\<lparr>sy := s'\<rparr>) n = Some p)" for p
    using sys_okD(2) [OF assms(1)] assms(3) by (simp add: same_locks_def)
  show "n = m" if "running (S\<lparr>sy := s'\<rparr>) n = Some p" "running (S\<lparr>sy := s'\<rparr>) m = Some p" for n m p
    using sys_okD(3) [OF assms(1)] that by simp
  show "queued (sy (S\<lparr>sy := s'\<rparr>)) p" if "running (S\<lparr>sy := s'\<rparr>) n = Some p" for n p
    using sys_okD(4) [OF assms(1)] that assms(2) by (simp add: queued_def same_queues_def)
qed

lemma some_fun_upd:
  "f n = None \<Longrightarrow> (\<exists>m. (f(n \<mapsto> p)) m = Some x) \<longleftrightarrow> (\<exists>m. f m = Some x) \<or> x = p"
  "f n = Some p \<Longrightarrow> (\<And>m. f m = Some p \<Longrightarrow> m = n) \<Longrightarrow> (\<exists>m. (f(n := None)) m = Some x) \<longleftrightarrow> (\<exists>m. f m = Some x) \<and> x \<noteq> p"
  by (metis fun_upd_apply option.distinct(1) option.inject) (metis fun_upd_apply option.distinct(1) option.inject)

lemma sys_ok_polling: "sys_ok pol (S\<lparr>polling := b\<rparr>) = sys_ok pol S" by (simp add: sys_ok_def)

lemma sys_ok_poll:
  assumes "sys_ok pol S" "running S n = None" "served_by n c (sy S) p" "Acquire (sc_heap (sy S) p) = (True, cr)"
  shows "sys_ok pol (S\<lparr>sy := set_cr p cr (sy S), running := (running S)(n \<mapsto> p)\<rparr>)"
proof -
  note D = sys_okD [OF assms(1)]
  have cr: "\<not> cr_lock (sc_heap (sy S) p)" "cr_lock cr" "cr_static cr = cr_static (sc_heap (sy S) p)"
    using assms(4) by (auto simp: Acquire_def cr_static_def)
  have free: "running S m \<noteq> Some p" for m using cr(1) D(2) by blast
  have q: "queued (set_cr p cr (sy S)) x = queued (sy S) x" for x by (simp add: queued_def set_cr_def)
  show ?thesis
  proof (rule sys_okI, goal_cases)
    case 1 then show ?case using D(1) same_queues_ok [OF set_cr_same(1) [OF cr(3)]] by simp
  next
    case (2 x) then show ?case using cr(2) D(2) [of x] some_fun_upd(1) [where f = "running S", OF assms(2)] by (auto simp: set_cr_def)
  next
    case (3 k m x) then show ?case using free D(3) by (auto split: if_splits)
  next
    case (4 k x) then show ?case using D(4) served_queued [OF assms(3)] q by (auto split: if_splits)
  qed
qed

text \<open>A processor lets go of its coroutine.\<close>

lemma sys_ok_release:
  assumes "sys_ok pol S" "running S n = Some p" "cr_static cr = cr_static (sc_heap (sy S) p)" "\<not> cr_lock cr"
  shows "sys_ok pol (S\<lparr>sy := set_cr p cr (sy S), running := (running S)(n := None)\<rparr>)"
proof -
  note D = sys_okD [OF assms(1)]
  let ?s = "set_cr p cr (sy S)"
  have q: "same_queues (sy S) ?s" by (rule set_cr_same(1) [OF assms(3)])
  have l: "cr_lock (sc_heap ?s x) \<longleftrightarrow> cr_lock (sc_heap (sy S) x) \<and> x \<noteq> p" for x using assms(4) by (simp add: set_cr_def)
  show ?thesis
  proof (rule sys_okI, goal_cases)
    case 1 then show ?case using D(1) same_queues_ok [OF q] by simp
  next
    case (2 x) then show ?case using l [of x] D(2) [of x] some_fun_upd(2) [where f = "running S", OF assms(2) D(3) [OF _ assms(2)]] by simp
  next
    case (3 k m x) then show ?case using D(3) by (auto split: if_splits)
  next
    case (4 k x) then show ?case using D(4) q by (auto simp: queued_def same_queues_def split: if_splits)
  qed
qed

lemma sys_ok_poll_release:
  assumes "sys_ok pol S" "running S n = Some p" "UpdateState now (sc_heap (sy S) p) = (st, cr)"
  shows "sys_ok pol (S\<lparr>sy := set_cr p (Release cr) (sy S), running := (running S)(n := None)\<rparr>)"
  by (rule sys_ok_release [OF assms(1,2)]) (use UpdateState_keeps(3) [of now "sc_heap (sy S) p"] assms(3) in \<open>simp_all add: Release_def cr_static_def\<close>)

lemma sys_ok_yield:
  assumes "sys_ok pol S" "running S n = Some p"
  shows "sys_ok pol (S\<lparr>sy := resume_and_release (set_routine st w) p (sy S), running := (running S)(n := None)\<rparr>)"
  unfolding resume_and_release_def set_cr_def [symmetric]
  by (rule sys_ok_release [OF assms]) (simp_all add: Release_def Resume_def set_routine_def cr_static_def)

text \<open>The two steps of a creation; \<open>p\<close> is a coroutine no processor has.\<close>

lemma sys_ok_grown:
  assumes "sys_ok pol S" "tables_ok pol cre (removing S) s'" "grown p (sy S) s'" "\<And>n. running S n \<noteq> Some p"
  shows "sys_ok pol (S\<lparr>sy := s', sy_global := g, creating := cre\<rparr>)"
proof -
  note D = sys_okD [OF assms(1)]
  have l: "cr_lock (sc_heap s' x) = cr_lock (sc_heap (sy S) x)" for x
    using assms(3,4) D(2) by (cases "x = p") (auto simp: grown_def)
  have k: "queued (sy S) x \<Longrightarrow> queued s' x" for x using assms(3) by (auto simp: grown_def queued_def)
  show ?thesis
  proof (rule sys_okI, goal_cases)
    case 1 then show ?case using assms(2) by simp
  next
    case (2 x) then show ?case using l D(2) by simp
  next
    case (3 k m x) then show ?case using D(3) by auto
  next
    case (4 k x) then show ?case using D(4) k by auto
  qed
qed

lemma unqueued_free:
  assumes "sys_ok pol S"
  shows "running S n \<noteq> Some (sc_next (sy S))" "creating S i = Some p \<Longrightarrow> running S n \<noteq> Some p"
proof -
  note T = tables_okD [OF sys_okD(1) [OF assms]]
  show "running S n \<noteq> Some (sc_next (sy S))"
    using sys_okD(4) [OF assms] queues_ok_onD(1) [OF T(1) [unfolded queues_ok_def]] by (fastforce simp: queued_def)
  show "running S n \<noteq> Some p" if "creating S i = Some p"
    using sys_okD(4) [OF assms, of n p] creating_okD(5) [OF T(2) that] by (auto simp: queued_def)
qed

lemma sys_ok_create_begin:
  assumes "sys_ok pol S" "creating S i = None" "removing S i = None" "p = sc_next (sy S)"
    and "dispatch_begin pol p (with_cr p (CRoutine now i name) (sy S)) = (r, s')"
  shows "sys_ok pol (S\<lparr>sy := s', sy_global := g', creating := if r then (creating S)(i \<mapsto> p) else creating S\<rparr>)"
  using sys_ok_grown [OF assms(1) dispatch_begin_ok(1,2) [OF sys_okD(1) [OF assms(1)] assms(4,2,3,5)]] unqueued_free(1) [OF assms(1)]
  by (simp add: assms(4))

lemma sys_ok_create_end:
  assumes "sys_ok pol S" "creating S i = Some p"
  shows "sys_ok pol (S\<lparr>sy := dispatch_end pol p (sy S), creating := (creating S)(i := None)\<rparr>)"
proof -
  have "\<not> cr_lock (sc_heap (sy S) p)" using sys_okD(2) [OF assms(1)] unqueued_free(2) [OF assms] by auto
  note E = dispatch_end_ok [OF sys_okD(1) [OF assms(1)] assms(2) this]
  have "S\<lparr>sy := s, creating := c\<rparr> = S\<lparr>sy := s, sy_global := sy_global S, creating := c\<rparr>" for s c by (cases S) simp
  then show ?thesis using sys_ok_grown [OF assms(1) E] unqueued_free(2) [OF assms] by metis
qed

lemma sys_ok_begin:
  assumes "sys_ok pol S" "id_cr (sy S) i = Some p" "creating S i = None" "removing S i = None"
  shows "sys_ok pol (S\<lparr>sy := erase_id i p (sy S), removing := (removing S)(i \<mapsto> p)\<rparr>)"
proof -
  note D = sys_okD [OF assms(1)]
  have l: "cr_lock (sc_heap (erase_id i p (sy S)) x) = cr_lock (sc_heap (sy S) x)" "sc_rq (erase_id i p (sy S)) = sc_rq (sy S)" for x
    by (simp_all add: erase_id_def Stop_def)
  show ?thesis
  proof (rule sys_okI, goal_cases)
    case 1 then show ?case using erase_id_ok [OF D(1) assms(2-4)] by simp
  next
    case (2 x) then show ?case using l D(2) by simp
  next
    case (3 k m x) then show ?case using D(3) by auto
  next
    case (4 k x) then show ?case using D(4) l by (simp add: queued_def)
  qed
qed

lemma unqueueD:
  assumes "sys_ok pol S" "removing S i = Some p" "unqueue pol i p (sy S) = Some (r, s')"
  shows "sys_ok pol (S\<lparr>sy := s', removing := (removing S)(i := None)\<rparr>)" "r" "\<not> queued s' p" "p < sc_next s'"
    "running S n \<noteq> Some p" "queued s' x \<longleftrightarrow> queued (sy S) x \<and> x \<noteq> p" "sc_next s' = sc_next (sy S)"
proof -
  note D = sys_okD [OF assms(1)]
  note T = tables_okD [OF D(1)]
  note Q = queues_ok_onD [OF T(1) [unfolded queues_ok_def]]
  define loc where "loc = home pol (sc_proc_num (sy S)) (sc_heap (sy S) p)"
  let ?s = "(sy S)\<lparr>sc_rq := (sc_rq (sy S))(loc := remove1 p (sc_rq (sy S) loc))\<rparr>"
  have nl: "\<not> cr_lock (sc_heap (sy S) p)" and r and
    s': "s' = ?s\<lparr>sc_heap := (sc_heap (sy S))(p := Stop (sc_heap (sy S) p))\<rparr>"
    using assms(3) unfolding unqueue_eq [OF T(1) assms(2)] loc_def [symmetric] by (auto simp: Let_def split: if_splits)
  then show r by simp
  have run: "running S n \<noteq> Some p" for n using nl D(2) by auto
  then show "running S n \<noteq> Some p" .
  have sq: "same_queues ?s s'" and lk: "cr_lock (sc_heap s' x) = cr_lock (sc_heap (sy S) x)" for x
    by (simp_all add: s' same_queues_def cr_static_def Stop_def)
  have sub: "set (sc_rq ?s l) \<subseteq> set (sc_rq (sy S) l)" for l using set_remove1_subset [of p "sc_rq (sy S) loc"] by auto
  have "queues_ok pol (creating S) ((removing S)(i := None)) ?s"
    using queues_ok_remove [OF T(1) [unfolded queues_ok_def] assms(2)] by (simp add: queues_ok_def loc_def)
  moreover have "creating_ok pol (creating S) ((removing S)(i := None)) ?s"
    by (rule creating_ok_mono [OF T(2) _ _ sub]) (use creating_okD(2) [OF T(2)] assms(2) in auto)
  moreover have "configured_ok pol ?s" by (rule configured_ok_mono [OF T(3) _ _ sub]) simp_all
  ultimately have ok: "tables_ok pol (creating S) ((removing S)(i := None)) s'" using same_queues_ok [OF sq] by (simp add: tables_ok_def)
  have "distinct (sc_rq (sy S) loc)" using Q(9) by (simp add: loc_ok_def)
  then have q: "x \<in> set (sc_rq s' l) \<longleftrightarrow> x \<in> set (sc_rq (sy S) l) \<and> x \<noteq> p" for x l using Q(2) [of p l] by (auto simp: s' loc_def)
  then have qd: "queued s' x \<longleftrightarrow> queued (sy S) x \<and> x \<noteq> p" for x by (auto simp: queued_def)
  then show "\<not> queued s' p" "queued s' x \<longleftrightarrow> queued (sy S) x \<and> x \<noteq> p" by simp_all
  show "sc_next s' = sc_next (sy S)" "p < sc_next s'" using Q(1) Q(7) [OF assms(2)] by (auto simp: s')
  show "sys_ok pol (S\<lparr>sy := s', removing := (removing S)(i := None)\<rparr>)"
  proof (rule sys_okI, goal_cases)
    case 1 then show ?case using ok by simp
  next
    case (2 x) then show ?case using lk D(2) by simp
  next
    case (3 k m x) then show ?case using D(3) by auto
  next
    case (4 k x) then show ?case using D(4) qd run by auto
  qed
qed

lemma work_same: "same_queues s (set_cr p (set_routine st w (sc_heap s p)) s)" "same_locks s (set_cr p (set_routine st w (sc_heap s p)) s)"
  by (intro set_cr_same; simp add: set_routine_def cr_static_def)+

lemma ready_same:
  assumes "UpdateState now (sc_heap s p) = (st, cr)"
  shows "same_queues s (set_cr p cr s)" "same_locks s (set_cr p cr s)"
  using UpdateState_keeps(1,3) [of now "sc_heap s p"] assms by (intro set_cr_same; simp)+

lemma sys_ok_step: "sched_step hash pol ctx S S' \<Longrightarrow> sys_ok pol S \<Longrightarrow> sys_ok pol S'"
proof (induction rule: sched_step.induct)
  case (create_begin S name i g' p now r s') then show ?case using sys_ok_create_begin by blast
next
  case (create_end S i p) then show ?case using sys_ok_create_end by blast
next
  case (notify crid S r s') then show ?case using NotifyTask_same sys_ok_same by blast
next
  case (remove_begin S crid p) then show ?case using sys_ok_begin by blast
next
  case (remove_end S crid p r s') then show ?case using unqueueD(1) by blast
next
  case (poll S n p cr) then show ?case using sys_ok_poll [of pol S n "ctx n" p cr] sys_ok_polling by blast
next
  case (poll_ready S n p now cr)
  then have "sys_ok pol (S\<lparr>sy := set_cr p cr (sy S)\<rparr>)" using ready_same sys_ok_same by blast
  then show ?case using sys_ok_polling by blast
next
  case (poll_release S n p now st cr) then show ?case using sys_ok_poll_release sys_ok_polling by blast
next
  case (idle S n) then show ?case using Wait_same sys_ok_same by blast
next
  case (work S n p st w) then show ?case using work_same sys_ok_same by blast
next
  case (yield S n p st w) then show ?case using sys_ok_yield by blast
next
  case (shut S n) then show ?case using shut_same sys_ok_same by blast
qed

lemma sys_ok_init: "sys_ok pol (sys_init procs g)"
  by (auto simp: sys_ok_def sys_init_def tables_ok_def creating_ok_def configured_ok_def placed_def queues_ok_def queues_ok_on_def loc_ok_def CRoutine_def split: run_loc.split)

lemma sys_ok_steps: "(sched_step hash pol ctx)\<^sup>*\<^sup>* S S' \<Longrightarrow> sys_ok pol S \<Longrightarrow> sys_ok pol S'"
  by (induction rule: rtranclp_induct) (auto intro: sys_ok_step)

lemma reachable_ok: "sched_reachable hash pol ctx procs g S \<Longrightarrow> sys_ok pol S"
  unfolding sched_reachable_def using sys_ok_steps sys_ok_init by blast

section \<open>Exclusion, removal, priorities\<close>

text \<open>A coroutine that is in no queue any more never comes back.\<close>

definition gone :: "nat \<Rightarrow> sched_sys \<Rightarrow> bool" where
  "gone p S \<longleftrightarrow> p < sc_next (sy S) \<and> \<not> queued (sy S) p \<and> (\<forall>i. creating S i \<noteq> Some p)"

lemma gone_same: "same_queues (sy S) s' \<Longrightarrow> gone p S \<Longrightarrow> gone p (S\<lparr>sy := s'\<rparr>)"
  by (simp add: gone_def same_queues_def queued_def)

lemma gone_grown:
  assumes "grown q (sy S) s'" "gone p S" "p \<noteq> q" "\<And>i. cre i \<noteq> Some p"
  shows "gone p (S\<lparr>sy := s', sy_global := g', creating := cre\<rparr>)"
proof -
  have "p \<notin> set (sc_rq s' loc)" for loc using assms(1-3) unfolding grown_def gone_def queued_def by (metis insertE subsetD)
  then show ?thesis using assms(1,2,4) by (simp add: grown_def gone_def queued_def)
qed

lemma gone_fields [simp]: "gone p (S\<lparr>running := r\<rparr>) = gone p S" "gone p (S\<lparr>polling := b\<rparr>) = gone p S" "gone p (S\<lparr>removing := m\<rparr>) = gone p S"
  by (simp_all add: gone_def)

lemma gone_set_cr: "gone p S \<Longrightarrow> gone p (S\<lparr>sy := set_cr q cr (sy S)\<rparr>)"
  by (simp add: gone_def set_cr_def queued_def)

lemma count_list_distinct: "distinct xs \<Longrightarrow> count_list xs x = (if x \<in> set xs then 1 else 0)"
  by (induction xs) auto

lemma gone_create_begin:
  assumes "sys_ok pol S" "gone x S" "creating S i = None" "removing S i = None" "p = sc_next (sy S)"
    and "dispatch_begin pol p (with_cr p (CRoutine now i name) (sy S)) = (r, s')"
  shows "gone x (S\<lparr>sy := s', sy_global := g', creating := if r then (creating S)(i \<mapsto> p) else creating S\<rparr>)"
  by (rule gone_grown [OF dispatch_begin_ok(2) [OF sys_okD(1) [OF assms(1)] assms(5,3,4,6)] assms(2)])
    (use assms(2,5) in \<open>auto simp: gone_def split: if_splits\<close>)

lemma gone_create_end:
  assumes "sys_ok pol S" "gone x S" "creating S i = Some p"
  shows "gone x (S\<lparr>sy := dispatch_end pol p (sy S), creating := (creating S)(i := None)\<rparr>)"
proof -
  have "\<not> cr_lock (sc_heap (sy S) p)" using sys_okD(2) [OF assms(1)] unqueued_free(2) [OF assms(1,3)] by auto
  note E = dispatch_end_ok(2) [OF sys_okD(1) [OF assms(1)] assms(3) this]
  have n: "creating S j \<noteq> Some x" for j using assms(2) by (simp add: gone_def)
  then have "x \<noteq> p" using assms(3) by blast
  then have "gone x (S\<lparr>sy := dispatch_end pol p (sy S), sy_global := sy_global S, creating := (creating S)(i := None)\<rparr>)"
    by (rule gone_grown [OF E assms(2)]) (simp add: n)
  then show ?thesis by (simp add: gone_def)
qed

lemma gone_step: "sched_step hash pol ctx S S' \<Longrightarrow> sys_ok pol S \<Longrightarrow> gone p S \<Longrightarrow> gone p S'"
proof (induction rule: sched_step.induct)
  case (create_begin S name i g' q now r s') then show ?case using gone_create_begin by blast
next
  case (create_end S i q) then show ?case using gone_create_end by blast
next
  case (notify crid S r s') then show ?case using NotifyTask_same gone_same by blast
next
  case (remove_begin S crid p') then show ?case by (simp add: gone_def erase_id_def queued_def)
next
  case (remove_end S crid p' r s')
  then show ?case using unqueueD(6) [OF remove_end(3,1,2), of p] unqueueD(7) [OF remove_end(3,1,2)] by (simp add: gone_def)
next
  case (poll S n q cr) then show ?case using gone_set_cr gone_fields(1,2) by blast
next
  case (poll_ready S n q now cr) then show ?case using gone_set_cr gone_fields(1,2) by blast
next
  case (poll_release S n q now st cr) then show ?case using gone_set_cr gone_fields(1,2) by blast
next
  case (idle S n) then show ?case using Wait_same(1) gone_same by blast
next
  case (work S n q st w) then show ?case using gone_set_cr by blast
next
  case (yield S n p' st w) then show ?case by (simp add: gone_def resume_and_release_def queued_def)
next
  case (shut S n) then show ?case using shut_same(1) gone_same by blast
qed

lemma first_name_registered: "\<exists>i g'. RegisterTaskName (\<lambda>_. 7) ''t'' GlobalData = Some (i, g')"
proof -
  let ?h = "\<lambda>_. 7 :: u64"
  have e: "ahm_Get (task_id_map GlobalData) = Map.empty" by (auto simp: GlobalData_def ahm_Get_empty)
  then have "names_ok ?h (task_id_map GlobalData)" by (simp add: names_ok_def) (simp add: GlobalData_def ahm_inv_AtomicHashMap)
  then obtain i m where "register_in ?h ''t'' (task_id_map GlobalData) = Some (i, m)" using register_in_spec [of ?h _ 0] e by metis
  then show ?thesis by (simp add: RegisterTaskName_def)
qed

lemma gone_steps: "(sched_step hash pol ctx)\<^sup>*\<^sup>* S S' \<Longrightarrow> sys_ok pol S \<Longrightarrow> gone p S \<Longrightarrow> gone p S'"
  by (induction rule: rtranclp_induct) (auto intro: gone_step dest: sys_ok_steps)

text \<open>
  Undisturbed, the steps are the functions of the code: two of them are \<^verbatim>\<open>CreateTask\<close>, and the polls of a processor
  followed through are \<^verbatim>\<open>NextRoutine\<close>.
\<close>

lemma CreateTask_steps:
  assumes "CreateTask hash pol now name visitor (sy S) (sy_global S) = Some (r, cb, s', g')" "\<not> sc_stop (sy S)"
    and "\<And>i g''. RegisterTaskName hash name (sy_global S) = Some (i, g'') \<Longrightarrow> creating S i = None \<and> removing S i = None"
  shows "(sched_step hash pol ctx)\<^sup>*\<^sup>* S (S\<lparr>sy := s', sy_global := g'\<rparr>)"
proof -
  obtain i g'' where i: "RegisterTaskName hash name (sy_global S) = Some (i, g'')"
    using assms(1,2) by (auto simp: CreateTask_def split: option.splits)
  define p where "p = sc_next (sy S)"
  obtain b s1 where b: "dispatch_begin pol p (with_cr p (CRoutine now i name) (sy S)) = (b, s1)" by fastforce
  let ?S = "S\<lparr>sy := s1, sy_global := g'', creating := if b then (creating S)(i \<mapsto> p) else creating S\<rparr>"
  have 1: "sched_step hash pol ctx S ?S" using sched_step.create_begin [OF assms(2) i _ _ p_def b] assms(3) [OF i] by blast
  have g: "g'' = g'" and s: "s' = (if b then dispatch_end pol p s1 else s1)"
    using assms(1,2) i b by (auto simp: CreateTask_def DispatchTask_split with_cr_def p_def Let_def split: bool.splits)
  show ?thesis
  proof (cases b)
    case True
    then have 2: "sched_step hash pol ctx ?S (?S\<lparr>sy := dispatch_end pol p (sy ?S), creating := (creating ?S)(i := None)\<rparr>)"
      by (intro sched_step.create_end) simp
    have "?S\<lparr>sy := dispatch_end pol p (sy ?S), creating := (creating ?S)(i := None)\<rparr> = S\<lparr>sy := s', sy_global := g'\<rparr>"
      using True s g assms(3) [OF i] by (cases S) (simp add: fun_upd_idem)
    then show ?thesis using 1 2 by (metis rtranclp.rtrancl_refl rtranclp.rtrancl_into_rtrancl)
  next
    case False
    then have "?S = S\<lparr>sy := s', sy_global := g'\<rparr>" using s g by (cases S) simp
    then show ?thesis using 1 by (metis r_into_rtranclp)
  qed
qed

lemma take_ready_steps:
  assumes "running S n = None" "polling S n = False" "\<And>p. p \<in> set ps \<Longrightarrow> served_by n (ctx n) (sy S) p" "take_ready now ps (sc_heap (sy S)) = (r, h)"
  shows "(sched_step hash pol ctx)\<^sup>*\<^sup>* S
    (S\<lparr>sy := (sy S)\<lparr>sc_heap := h\<rparr>, running := (running S)(n := r)\<rparr>)"
  using assms
proof (induction ps arbitrary: S)
  case Nil
  then have "S\<lparr>sy := (sy S)\<lparr>sc_heap := h\<rparr>, running := (running S)(n := r)\<rparr> = S" by (cases S) (simp add: fun_upd_idem)
  then show ?case by (simp only: rtranclp.rtrancl_refl)
next
  case (Cons p ps)
  let ?cr = "sc_heap (sy S) p"
  let ?a = "?cr\<lparr>cr_lock := True\<rparr>"
  show ?case
  proof (cases "cr_lock ?cr")
    case True
    then have "Acquire ?cr = (False, ?cr)" by (cases ?cr) (simp add: Acquire_def)
    then have "take_ready now ps (sc_heap (sy S)) = (r, h)" using Cons.prems(4) by simp
    then show ?thesis using Cons.IH [OF Cons.prems(1,2)] Cons.prems(3) by simp
  next
    case False
    then have a: "Acquire ?cr = (True, ?a)" by (simp add: Acquire_def)
    let ?S = "S\<lparr>sy := set_cr p ?a (sy S), running := (running S)(n \<mapsto> p), polling := (polling S)(n := True)\<rparr>"
    have 1: "sched_step hash pol ctx S ?S" by (rule sched_step.poll [OF Cons.prems(1) _ a]) (simp add: Cons.prems(3))
    obtain st cr where u: "UpdateState now ?a = (st, cr)" by fastforce
    then have u': "UpdateState now (sc_heap (sy ?S) p) = (st, cr)" by (simp add: set_cr_def)
    show ?thesis
    proof (cases "st = READY")
      case True
      let ?T = "?S\<lparr>sy := set_cr p cr (sy ?S), polling := (polling ?S)(n := False)\<rparr>"
      have "sched_step hash pol ctx ?S ?T" by (rule sched_step.poll_ready) (use u' True in simp_all)
      moreover have "?T = S\<lparr>sy := (sy S)\<lparr>sc_heap := h\<rparr>, running := (running S)(n := r)\<rparr>"
        using Cons.prems(2,4) a u True by (cases S) (auto simp: set_cr_def fun_upd_idem)
      ultimately show ?thesis using 1 by (metis rtranclp.rtrancl_refl rtranclp.rtrancl_into_rtrancl)
    next
      case False
      let ?T = "?S\<lparr>sy := set_cr p (Release cr) (sy ?S), running := (running ?S)(n := None), polling := (polling ?S)(n := False)\<rparr>"
      have 2: "sched_step hash pol ctx ?S ?T" by (rule sched_step.poll_release [OF _ _ u' False]) simp_all
      have t: "?T = S\<lparr>sy := set_cr p (Release cr) (sy S)\<rparr>"
        using Cons.prems(1,2) by (cases S) (auto simp: set_cr_def fun_upd_idem)
      let ?T = "S\<lparr>sy := set_cr p (Release cr) (sy S)\<rparr>"
      have tk: "take_ready now ps (sc_heap (sy ?T)) = (r, h)" using Cons.prems(4) a u False by (simp add: set_cr_def)
      have sv: "served_by n (ctx n) (sy ?T) x" if "x \<in> set ps" for x
        using Cons.prems(3) [of x] that by (cases "ctx n") (auto simp: set_cr_def)
      have "(sched_step hash pol ctx)\<^sup>*\<^sup>* ?T (?T\<lparr>sy := (sy ?T)\<lparr>sc_heap := h\<rparr>, running := (running ?T)(n := r)\<rparr>)"
        by (rule Cons.IH [OF _ _ sv tk]) (use Cons.prems(1,2) in simp_all)
      then have "(sched_step hash pol ctx)\<^sup>*\<^sup>* ?T (S\<lparr>sy := (sy S)\<lparr>sc_heap := h\<rparr>, running := (running S)(n := r)\<rparr>)"
        by (simp add: set_cr_def)
      then show ?thesis using 1 2 [unfolded t] by (meson converse_rtranclp_into_rtranclp)
    qed
  qed
qed

lemma NextRoutine_steps:
  assumes "running S n = None" "\<not> polling S n" "NextRoutine now n (ctx n) (sy S) = (r, s')"
  shows "(sched_step hash pol ctx)\<^sup>*\<^sup>* S (S\<lparr>sy := s', running := (running S)(n := r)\<rparr>)"
proof (cases "sc_ctx_stop (sy S) n")
  case True
  then have "s' = sy S" "r = None"
    using assms(3) by (cases "ctx n"; simp add: ClassicContext_NextRoutine_def ChoreographyContext_NextRoutine_def)+
  then have "S\<lparr>sy := s', running := (running S)(n := r)\<rparr> = S" using assms(1) by (cases S) (simp add: fun_upd_idem)
  then show ?thesis by simp
next
  case False
  define ps where "ps = (case ctx n of InGroup g \<Rightarrow> pool_order (\<lambda>i. sc_rq (sy S) (Pool g i)) MAX_PRIO | OwnQueue \<Rightarrow> sc_rq (sy S) (Proc n))"
  obtain h where "take_ready now ps (sc_heap (sy S)) = (r, h)" "s' = (sy S)\<lparr>sc_heap := h\<rparr>"
    using assms(3) False
    by (cases "ctx n") (auto simp: ps_def ClassicContext_NextRoutine_def ChoreographyContext_NextRoutine_def next_prio_eq split: prod.splits)
  moreover have "served_by n (ctx n) (sy S) p" if "p \<in> set ps" for p
    using that by (cases "ctx n") (auto simp: ps_def set_pool_order)
  ultimately show ?thesis using take_ready_steps [OF assms(1), of ps ctx now r h] assms(2) by simp
qed

text \<open>A first run: one task is created, and processor 0 of the pool takes it.\<close>

lemma one_task_created:
  "\<exists>S i. sched_reachable (\<lambda>_. 7) (Choreography Map.empty) (\<lambda>_. InGroup DEFAULT_GROUP_NAME) 0 GlobalData S
     \<and> sy S = (sy (sys_init 0 GlobalData))\<lparr>sc_heap := (\<lambda>_. CRoutine 0 0 [])(0 := (CRoutine 0 i ''t'')\<lparr>cr_group_name := DEFAULT_GROUP_NAME\<rparr>), sc_next := 1,
         id_cr := [i \<mapsto> 0], sc_rq := (\<lambda>_. [])(Pool DEFAULT_GROUP_NAME 0 := [0])\<rparr>
     \<and> running S = Map.empty \<and> polling S = (\<lambda>_. False) \<and> creating S = Map.empty \<and> removing S = Map.empty"
proof -
  let ?h = "\<lambda>_. 7 :: u64" and ?I = "sys_init 0 GlobalData"
  obtain i g' where r: "RegisterTaskName ?h ''t'' GlobalData = Some (i, g')" using first_name_registered by blast
  let ?s = "(sy ?I)\<lparr>sc_heap := (\<lambda>_. CRoutine 0 0 [])(0 := (CRoutine 0 i ''t'')\<lparr>cr_group_name := DEFAULT_GROUP_NAME\<rparr>), sc_next := 1,
         id_cr := [i \<mapsto> 0], sc_rq := (\<lambda>_. [])(Pool DEFAULT_GROUP_NAME 0 := [0])\<rparr>"
  have c: "CreateTask ?h (Choreography Map.empty) 0 ''t'' False (sy ?I) (sy_global ?I) = Some (True, None, ?s, g')"
    by (simp add: CreateTask_def sys_init_def r DispatchTask_choreography_def choreography_attrs_def CRoutine_def pid_of_def
        enqueue_pool_def clamp_prio_def MAX_PRIO_def Let_def)
  let ?S = "?I\<lparr>sy := ?s, sy_global := g'\<rparr>"
  have "sched_reachable ?h (Choreography Map.empty) (\<lambda>_. InGroup DEFAULT_GROUP_NAME) 0 GlobalData ?S"
    unfolding sched_reachable_def by (rule CreateTask_steps [OF c]) (simp_all add: sys_init_def)
  moreover have "sy ?S = ?s" "running ?S = Map.empty" "polling ?S = (\<lambda>_. False)" "creating ?S = Map.empty" "removing ?S = Map.empty"
    by (simp_all add: sys_init_def)
  ultimately show ?thesis by blast
qed

lemma one_task_taken:
  fixes i :: u64
  defines "s \<equiv> (sy (sys_init 0 GlobalData))\<lparr>sc_heap := (\<lambda>_. CRoutine 0 0 [])(0 := (CRoutine 0 i ''t'')\<lparr>cr_group_name := DEFAULT_GROUP_NAME\<rparr>),
      sc_next := 1, id_cr := [i \<mapsto> 0], sc_rq := (\<lambda>_. [])(Pool DEFAULT_GROUP_NAME 0 := [0])\<rparr>"
  shows "\<exists>h. NextRoutine 0 0 (InGroup DEFAULT_GROUP_NAME) s = (Some 0, s\<lparr>sc_heap := h\<rparr>)"
proof -
  have q: "sc_rq s = (\<lambda>_. [])(Pool DEFAULT_GROUP_NAME 0 := [0])" "\<not> sc_ctx_stop s 0" by (simp_all add: s_def sys_init_def)
  have "pool_order (\<lambda>i. sc_rq s (Pool DEFAULT_GROUP_NAME i)) MAX_PRIO = [0]"
    unfolding q(1) by (simp add: pool_order_def MAX_PRIO_def upt_rec)
  moreover have "runnable 0 (sc_heap s 0)" by (simp add: s_def runnable_def CRoutine_def UpdateState_def)
  ultimately have "NextRoutine 0 0 (InGroup DEFAULT_GROUP_NAME) s = (Some 0, s\<lparr>sc_heap := (sc_heap s)(0 := held 0 (sc_heap s 0))\<rparr>)"
    using q(2) by (simp add: ClassicContext_NextRoutine_def next_prio_eq take_ready_Cons del: take_ready.simps(2))
  then show ?thesis by blast
qed

lemma one_task_running:
  "\<exists>S i. sched_reachable (\<lambda>_. 7) (Choreography Map.empty) (\<lambda>_. InGroup DEFAULT_GROUP_NAME) 0 GlobalData S
     \<and> id_cr (sy S) i = Some 0 \<and> running S 0 = Some 0 \<and> creating S = Map.empty \<and> removing S = Map.empty"
proof -
  obtain S i where S: "sched_reachable (\<lambda>_. 7) (Choreography Map.empty) (\<lambda>_. InGroup DEFAULT_GROUP_NAME) 0 GlobalData S"
    "sy S = (sy (sys_init 0 GlobalData))\<lparr>sc_heap := (\<lambda>_. CRoutine 0 0 [])(0 := (CRoutine 0 i ''t'')\<lparr>cr_group_name := DEFAULT_GROUP_NAME\<rparr>), sc_next := 1,
         id_cr := [i \<mapsto> 0], sc_rq := (\<lambda>_. [])(Pool DEFAULT_GROUP_NAME 0 := [0])\<rparr>"
    "running S = Map.empty" "polling S = (\<lambda>_. False)" "creating S = Map.empty" "removing S = Map.empty" using one_task_created by blast
  obtain h where n: "NextRoutine 0 0 (InGroup DEFAULT_GROUP_NAME) (sy S) = (Some 0, (sy S)\<lparr>sc_heap := h\<rparr>)"
    using one_task_taken unfolding S(2) by blast
  let ?T = "S\<lparr>sy := (sy S)\<lparr>sc_heap := h\<rparr>, running := (running S)(0 \<mapsto> 0)\<rparr>"
  have "(sched_step (\<lambda>_. 7) (Choreography Map.empty) (\<lambda>_. InGroup DEFAULT_GROUP_NAME))\<^sup>*\<^sup>* S ?T"
    by (rule NextRoutine_steps [OF _ _ n]) (simp_all add: S(3,4))
  then have "sched_reachable (\<lambda>_. 7) (Choreography Map.empty) (\<lambda>_. InGroup DEFAULT_GROUP_NAME) 0 GlobalData ?T"
    using S(1) unfolding sched_reachable_def by (rule rtranclp_trans [rotated])
  moreover have "id_cr (sy ?T) i = Some 0" "running ?T 0 = Some 0" "creating ?T = Map.empty" "removing ?T = Map.empty"
    using S(2,5,6) by (simp_all add: sys_init_def)
  ultimately show ?thesis by blast
qed

text \<open>Another, with a configuration: a task of the first processor, and it runs there.\<close>

definition one_proc_conf :: policy where "one_proc_conf = Choreography [''t'' \<mapsto> (25, Some 0)]"

lemma configured_task_running:
  "\<exists>S i. sched_reachable (\<lambda>_. 7) one_proc_conf (\<lambda>_. OwnQueue) 1 GlobalData S \<and> id_cr (sy S) i = Some 0 \<and> running S 0 = Some 0
     \<and> creating S = Map.empty \<and> sc_proc_num (sy S) = 1 \<and> cr_name (sc_heap (sy S) 0) = ''t''"
proof -
  let ?h = "\<lambda>_. 7 :: u64" and ?I = "sys_init 1 GlobalData"
  obtain i g' where r: "RegisterTaskName ?h ''t'' GlobalData = Some (i, g')" using first_name_registered by blast
  define s where "s = (sy ?I)\<lparr>sc_heap := (\<lambda>_. CRoutine 0 0 [])(0 := (CRoutine 0 i ''t'')\<lparr>cr_priority := 25, cr_processor_id := 0\<rparr>), sc_next := 1,
         id_cr := [i \<mapsto> 0], sc_rq := (\<lambda>_. [])(Proc 0 := [0])\<rparr>"
  have c: "CreateTask ?h one_proc_conf 0 ''t'' False (sy ?I) (sy_global ?I) = Some (True, None, s, g')"
    by (simp add: s_def one_proc_conf_def CreateTask_def sys_init_def r DispatchTask_choreography_def choreography_attrs_def CRoutine_def pid_of_def
        ChoreographyContext_Enqueue_def Let_def)
  let ?S = "?I\<lparr>sy := s, sy_global := g'\<rparr>"
  have 1: "sched_reachable ?h one_proc_conf (\<lambda>_. OwnQueue) 1 GlobalData ?S"
    unfolding sched_reachable_def by (rule CreateTask_steps [OF c]) (simp_all add: sys_init_def)
  have "runnable 0 (sc_heap s 0)" by (simp add: s_def runnable_def CRoutine_def UpdateState_def)
  moreover have "sc_rq s (Proc 0) = [0]" "\<not> sc_ctx_stop s 0" by (simp_all add: s_def sys_init_def)
  ultimately have n: "NextRoutine 0 0 OwnQueue (sy ?S) = (Some 0, s\<lparr>sc_heap := (sc_heap s)(0 := held 0 (sc_heap s 0))\<rparr>)"
    by (simp add: ChoreographyContext_NextRoutine_def take_ready_Cons del: take_ready.simps(2))
  let ?T = "?S\<lparr>sy := s\<lparr>sc_heap := (sc_heap s)(0 := held 0 (sc_heap s 0))\<rparr>, running := (running ?S)(0 \<mapsto> 0)\<rparr>"
  have "(sched_step ?h one_proc_conf (\<lambda>_. OwnQueue))\<^sup>*\<^sup>* ?S ?T"
    by (rule NextRoutine_steps [OF _ _ n]) (simp_all add: sys_init_def)
  then have "sched_reachable ?h one_proc_conf (\<lambda>_. OwnQueue) 1 GlobalData ?T" using 1 unfolding sched_reachable_def by (rule rtranclp_trans [rotated])
  moreover have "id_cr (sy ?T) i = Some 0" "running ?T 0 = Some 0" "creating ?T = Map.empty" "sc_proc_num (sy ?T) = 1"
    "cr_name (sc_heap (sy ?T) 0) = ''t''"
    by (simp_all add: s_def sys_init_def held_def UpdateState_def CRoutine_def Let_def)
  ultimately show ?thesis by blast
qed

text \<open>
  Claim C3. However task creation, notification, removal, shutdown and the processors interleave, down to the
  single acquisitions of \<^verbatim>\<open>NextRoutine\<close> and the two critical sections of \<^verbatim>\<open>DispatchTask\<close>: no two processors ever hold the
  same coroutine, a coroutine is locked exactly while a processor holds it to look at it or to run it, and every
  registered task has the priority its configuration gives to its name and is in exactly one run queue, once,
  namely the one its configuration gives it, or in none yet while \<^verbatim>\<open>DispatchTask\<close> has not entered it.
\<close>

theorem coroutines_run_exclusively:
  assumes "sched_reachable hash pol ctx procs g S"
  shows "(running S n = Some p \<longrightarrow> running S m = Some p \<longrightarrow> n = m)
    \<and> (cr_lock (sc_heap (sy S) p) \<longleftrightarrow> (\<exists>n. running S n = Some p))
    \<and> (id_cr (sy S) i = Some p \<longrightarrow> cr_id (sc_heap (sy S) p) = i \<and>
        (if creating S i = None
         then \<exists>queue prio. configured pol (sc_proc_num (sy S)) (cr_name (sc_heap (sy S) p)) = (queue, prio)
           \<and> unat (cr_priority (sc_heap (sy S) p)) = prio
           \<and> (\<forall>loc. count_list (sc_rq (sy S) loc) p = (if loc = queue then 1 else 0))
         else \<forall>loc. count_list (sc_rq (sy S) loc) p = 0))"
proof -
  note D = sys_okD [OF reachable_ok [OF assms]]
  note T = tables_okD [OF D(1)]
  note Q = queues_ok_onD [OF T(1) [unfolded queues_ok_def]]
  let ?home = "home pol (sc_proc_num (sy S)) (sc_heap (sy S) p)"
  have d: "distinct (sc_rq (sy S) loc)" for loc using Q(9) by (simp add: loc_ok_def)
  have new: "cr_id (sc_heap (sy S) p) = i \<and> (\<forall>loc. count_list (sc_rq (sy S) loc) p = 0)"
    if i: "id_cr (sy S) i = Some p" and c: "creating S i \<noteq> None"
  proof -
    obtain q where q: "creating S i = Some q" using c by blast
    note C = creating_okD [OF T(2) q]
    show ?thesis using C i by simp
  qed
  have old: "cr_id (sc_heap (sy S) p) = i \<and> configured pol (sc_proc_num (sy S)) (cr_name (sc_heap (sy S) p)) = (?home, unat (cr_priority (sc_heap (sy S) p)))
      \<and> (\<forall>loc. count_list (sc_rq (sy S) loc) p = (if loc = ?home then 1 else 0))"
    if i: "id_cr (sy S) i = Some p" and c: "creating S i = None"
  proof -
    have pl: "placed (creating S) (id_cr (sy S)) i = Some p" using i c by (simp add: placed_def)
    have "count_list (sc_rq (sy S) loc) p = (if loc = ?home then 1 else 0)" for loc
      unfolding count_list_distinct [OF d] using Q(2) [of p loc] Q(6) [OF pl]
      by (intro if_cong refl iffI) (assumption, erule ssubst)
    moreover have "(?home, unat (cr_priority (sc_heap (sy S) p))) = configured pol (sc_proc_num (sy S)) (cr_name (sc_heap (sy S) p))"
      using T(3) Q(6) [OF pl] unfolding configured_ok_def by blast
    ultimately show ?thesis using Q(4) [OF pl] by simp
  qed
  have "(if creating S i = None
         then \<exists>queue prio. configured pol (sc_proc_num (sy S)) (cr_name (sc_heap (sy S) p)) = (queue, prio)
           \<and> unat (cr_priority (sc_heap (sy S) p)) = prio
           \<and> (\<forall>loc. count_list (sc_rq (sy S) loc) p = (if loc = queue then 1 else 0))
         else \<forall>loc. count_list (sc_rq (sy S) loc) p = 0)" if i: "id_cr (sy S) i = Some p"
    using new [OF i] old [OF i] by simp
  moreover have "cr_id (sc_heap (sy S) p) = i" if i: "id_cr (sy S) i = Some p" using new [OF i] old [OF i] by blast
  ultimately show ?thesis using D(3) D(2) [of p] by blast
qed

theorem coroutines_run_exclusively_witness:
  "\<exists>S i. sched_reachable (\<lambda>_. 7) one_proc_conf (\<lambda>_. OwnQueue) 1 GlobalData S \<and> id_cr (sy S) i = Some 0 \<and>
     running S 0 = Some 0 \<and> running S 1 \<noteq> Some 0 \<and> cr_lock (sc_heap (sy S) 0) \<and> unat (cr_priority (sc_heap (sy S) 0)) = 25 \<and>
     (\<forall>loc. count_list (sc_rq (sy S) loc) 0 = (if loc = Proc 0 then 1 else 0))"
proof -
  obtain S i where S: "sched_reachable (\<lambda>_. 7) one_proc_conf (\<lambda>_. OwnQueue) 1 GlobalData S"
    "id_cr (sy S) i = Some 0" "running S 0 = Some 0" "creating S = Map.empty" "sc_proc_num (sy S) = 1" "cr_name (sc_heap (sy S) 0) = ''t''"
    using configured_task_running by blast
  note R = coroutines_run_exclusively [OF S(1), of 0 0 1 i]
  have "configured one_proc_conf 1 ''t'' = (Proc 0, 25)" by (simp add: one_proc_conf_def)
  then show ?thesis using R S by (intro exI [of _ S] exI [of _ i]) auto
qed

text \<open>
  Claim C12. Once \<^verbatim>\<open>RemoveCRoutine\<close> has returned, the coroutine is not held by any processor and none will
  ever hold or run it again, so what it uses can be destroyed; the removal succeeds as soon as no processor
  holds the coroutine.
\<close>

theorem removed_task_never_runs:
  assumes "sched_reachable hash pol ctx procs g S" "removing S i = Some p"
  shows "((\<exists>n. running S n = Some p) \<longleftrightarrow> unqueue pol i p (sy S) = None)
    \<and> (unqueue pol i p (sy S) = Some (r, s') \<longrightarrow>
        (sched_step hash pol ctx)\<^sup>*\<^sup>* (S\<lparr>sy := s', removing := (removing S)(i := None)\<rparr>) T \<longrightarrow> r \<and> running T n \<noteq> Some p)"
proof -
  note ok = reachable_ok [OF assms(1)]
  have "r \<and> running T n \<noteq> Some p" if u: "unqueue pol i p (sy S) = Some (r, s')"
    and t: "(sched_step hash pol ctx)\<^sup>*\<^sup>* (S\<lparr>sy := s', removing := (removing S)(i := None)\<rparr>) T"
  proof -
    note U = unqueueD [OF ok assms(2) u]
    have "creating S j \<noteq> Some p" for j
      using creating_okD(5) [OF tables_okD(2) [OF sys_okD(1) [OF ok]], of j p] 
        queues_ok_onD(7) [OF tables_okD(1) [OF sys_okD(1) [OF ok], unfolded queues_ok_def] assms(2)] by blast
    then have "gone p (S\<lparr>sy := s', removing := (removing S)(i := None)\<rparr>)" using U(3,4) by (simp add: gone_def)
    then have "gone p T" using gone_steps [OF t U(1)] by simp
    then show ?thesis using U(2) sys_okD(4) [OF sys_ok_steps [OF t U(1)]] by (auto simp: gone_def)
  qed
  moreover have "(\<exists>n. running S n = Some p) \<longleftrightarrow> unqueue pol i p (sy S) = None"
    using unqueue_eq [OF tables_okD(1) [OF sys_okD(1) [OF ok]] assms(2)] sys_okD(2) [OF ok, of p] by (simp add: Let_def)
  ultimately show ?thesis by blast
qed

theorem removed_task_never_runs_witness:
  "\<exists>(S :: sched_sys) i. removing S i = Some 0 \<and> running S 0 = Some 0 \<and> unqueue (Choreography Map.empty) i 0 (sy S) = None"
proof -
  obtain S i where S: "sched_reachable (\<lambda>_. 7) (Choreography Map.empty) (\<lambda>_. InGroup DEFAULT_GROUP_NAME) 0 GlobalData S"
    "id_cr (sy S) i = Some 0" "running S 0 = Some 0" "creating S = Map.empty" "removing S = Map.empty" using one_task_running by blast
  let ?T = "S\<lparr>sy := erase_id i 0 (sy S), removing := (removing S)(i \<mapsto> 0)\<rparr>"
  have "sched_step (\<lambda>_. 7) (Choreography Map.empty) (\<lambda>_. InGroup DEFAULT_GROUP_NAME) S ?T"
    by (rule sched_step.remove_begin) (simp_all add: S(2,4,5))
  then have T: "sched_reachable (\<lambda>_. 7) (Choreography Map.empty) (\<lambda>_. InGroup DEFAULT_GROUP_NAME) 0 GlobalData ?T"
    using S(1) unfolding sched_reachable_def by (rule rtranclp.rtrancl_into_rtrancl [rotated])
  have "removing ?T i = Some 0" "running ?T 0 = Some 0" using S(3) by simp_all
  then show ?thesis using removed_task_never_runs [OF T, of i 0] by blast
qed

text \<open>
  Claim C13. In every reachable state \<^verbatim>\<open>NextRoutine\<close> gives a processor a coroutine of its own group or queue that is
  ready and held by nobody, and no such coroutine has a higher priority; it gives nothing only when
  there is none.  The coroutine is then held and ready.
\<close>

theorem next_routine_by_priority:
  assumes "sched_reachable hash pol ctx procs g S" "\<not> sc_ctx_stop (sy S) n" "NextRoutine now n c (sy S) = (r, s')"
  shows "case r of
      None \<Rightarrow> \<forall>q. served_by n c (sy S) q \<longrightarrow> \<not> runnable now (sc_heap (sy S) q)
    | Some p \<Rightarrow> served_by n c (sy S) p \<and> runnable now (sc_heap (sy S) p)
        \<and> (\<forall>q. served_by n c (sy S) q \<longrightarrow> runnable now (sc_heap (sy S) q) \<longrightarrow>
              cr_priority (sc_heap (sy S) q) \<le> cr_priority (sc_heap (sy S) p))
        \<and> cr_lock (sc_heap s' p) \<and> cr_state (sc_heap s' p) = READY"
proof -
  let ?s = "sy S" let ?pr = "\<lambda>p. cr_priority (sc_heap ?s p)"
  note Q = queues_ok_queues [OF tables_okD(1) [OF sys_okD(1) [OF reachable_ok [OF assms(1)]]]]
  show ?thesis
  proof (cases c)
    case (InGroup g)
    let ?q = "(sc_ctx_stop ?s n, (\<lambda>i. sc_rq ?s (Pool g i)), ?pr)"
    obtain h where h: "(\<lambda>now (stop, q, pr) h. ClassicContext_NextRoutine now stop q h) now ?q (sc_heap ?s) = (r, h)"
      and s': "s' = ?s\<lparr>sc_heap := h\<rparr>" using assms(3) InGroup by (auto split: prod.splits)
    have v: "(\<lambda>(stop, q, pr). pool_ok q pr) ?q" "\<not> (\<lambda>(stop, q, pr). stop) ?q" using Q(1) assms(2) by simp_all
    show ?thesis
    proof (cases r)
      case None
      then show ?thesis using classic_rq.next_none [OF v h [unfolded None]] InGroup by (auto simp: set_pool_order)
    next
      case (Some p)
      then show ?thesis using classic_rq.next_is_best [OF v h [unfolded Some]] InGroup by (auto simp: set_pool_order s')
    qed
  next
    case OwnQueue
    let ?q = "(sc_ctx_stop ?s n, sc_rq ?s (Proc n), ?pr)"
    obtain h where h: "(\<lambda>now (stop, q, pr) h. ChoreographyContext_NextRoutine now stop q h) now ?q (sc_heap ?s) = (r, h)"
      and s': "s' = ?s\<lparr>sc_heap := h\<rparr>" using assms(3) OwnQueue by (auto split: prod.splits)
    have v: "(\<lambda>(stop, q, pr). queue_ok q pr) ?q" "\<not> (\<lambda>(stop, q, pr). stop) ?q" using Q(2) assms(2) by simp_all
    show ?thesis
    proof (cases r)
      case None
      then show ?thesis using choreography_rq.next_none [OF v h [unfolded None]] OwnQueue by auto
    next
      case (Some p)
      then show ?thesis using choreography_rq.next_is_best [OF v h [unfolded Some]] OwnQueue by (auto simp: s')
    qed
  qed
qed

theorem next_routine_by_priority_witness:
  "\<exists>(S :: sched_sys) s'. NextRoutine 0 0 (InGroup DEFAULT_GROUP_NAME) (sy S) = (Some 0, s') \<and> cr_lock (sc_heap s' 0) \<and> cr_state (sc_heap s' 0) = READY"
proof -
  obtain S i where S: "sched_reachable (\<lambda>_. 7) (Choreography Map.empty) (\<lambda>_. InGroup DEFAULT_GROUP_NAME) 0 GlobalData S"
    "sy S = (sy (sys_init 0 GlobalData))\<lparr>sc_heap := (\<lambda>_. CRoutine 0 0 [])(0 := (CRoutine 0 i ''t'')\<lparr>cr_group_name := DEFAULT_GROUP_NAME\<rparr>), sc_next := 1,
         id_cr := [i \<mapsto> 0], sc_rq := (\<lambda>_. [])(Pool DEFAULT_GROUP_NAME 0 := [0])\<rparr>" using one_task_created by blast
  obtain h where n: "NextRoutine 0 0 (InGroup DEFAULT_GROUP_NAME) (sy S) = (Some 0, (sy S)\<lparr>sc_heap := h\<rparr>)"
    using one_task_taken unfolding S(2) by blast
  have "\<not> sc_ctx_stop (sy S) 0" using S(2) by (simp add: sys_init_def)
  then have "cr_lock (sc_heap ((sy S)\<lparr>sc_heap := h\<rparr>) 0) \<and> cr_state (sc_heap ((sy S)\<lparr>sc_heap := h\<rparr>) 0) = READY"
    using next_routine_by_priority [OF S(1) _ n] by simp
  then show ?thesis using n by blast
qed

end
