(* ===== verification/Routine_Wakeup.thy ===== *)
theory Routine_Wakeup
  imports Croutines Cache_Buffer
begin

text \<open>
  How a coroutine that waits for data is woken: the loop of \<^verbatim>\<open>CreateRoutineFactory\<close>
  (\<^verbatim>\<open>cyber/croutine/routine_factory.h\<close>), \<^verbatim>\<open>UpdateState\<close> of the processor that polls it, and
  \<^verbatim>\<open>DataDispatcher::Dispatch\<close> followed by \<^verbatim>\<open>NotifyProcessor\<close> of any number of publishers.  A step is one access
  to the shared state: the buffer (under its mutex), the state of the coroutine, or its flag.  \<open>wk_hist\<close> and \<open>wk_handled\<close>
  record what was filled in and what the callback was given.
\<close>

section \<open>Model\<close>

datatype routine_pc = Parked | Tested bool | Looping | Waiting | Handling

datatype publisher_pc = Idle | Filled | Checked

record 'a wakeup =
  wk_cr :: croutine
  wk_buf :: "'a cache_buffer"
  wk_index :: u64
  wk_pc :: routine_pc
  wk_pub :: "nat \<Rightarrow> publisher_pc"
  wk_hist :: "'a list"
  wk_handled :: "'a list"

definition wakeup_init :: "int \<Rightarrow> u64 \<Rightarrow> 'a \<Rightarrow> u64 \<Rightarrow> string \<Rightarrow> 'a wakeup" where
  "wakeup_init now qsize dflt i n =
     \<lparr>wk_cr = CRoutine now i n, wk_buf = CacheBuffer dflt qsize, wk_index = 0, wk_pc = Parked, wk_pub = (\<lambda>_. Idle),
      wk_hist = [], wk_handled = []\<rparr>"

text \<open>\<^verbatim>\<open>UpdateState\<close> in its two accesses, for a coroutine that does not sleep.\<close>

definition test_flag :: "croutine \<Rightarrow> bool \<times> croutine" where
  "test_flag cr = (\<not> cr_updated cr, cr\<lparr>cr_updated := True\<rparr>)"

definition set_ready :: "bool \<Rightarrow> croutine \<Rightarrow> croutine" where
  "set_ready was cr = (if was \<and> (cr_state cr = DATA_WAIT \<or> cr_state cr = IO_WAIT) then cr\<lparr>cr_state := READY\<rparr> else cr)"

lemma UpdateState_split:
  "cr_state cr \<noteq> SLEEP \<Longrightarrow>
   UpdateState now cr = (case test_flag cr of (was, cr') \<Rightarrow> (cr_state (set_ready was cr'), set_ready was cr'))"
  by (simp add: UpdateState_def test_flag_def set_ready_def Let_def)

text \<open>
  The processor and the coroutine it runs: a parked coroutine is polled; when it is ready the loop goes
  on, and \<^verbatim>\<open>Yield\<close> parks it again.
\<close>

fun routine_step :: "'a wakeup \<Rightarrow> 'a wakeup" where
  "routine_step S =
     (case wk_pc S of
        Parked \<Rightarrow> (case test_flag (wk_cr S) of (was, cr) \<Rightarrow> S\<lparr>wk_cr := cr, wk_pc := Tested was\<rparr>)
      | Tested was \<Rightarrow>
          let cr = set_ready was (wk_cr S)
          in S\<lparr>wk_cr := cr, wk_pc := (if cr_state cr = READY then Looping else Parked)\<rparr>
      | Looping \<Rightarrow> S\<lparr>wk_cr := (wk_cr S)\<lparr>cr_state := DATA_WAIT\<rparr>, wk_pc := Waiting\<rparr>
      | Waiting \<Rightarrow>
          (case Fetch (wk_buf S) (wk_index S) of
             None \<Rightarrow> S\<lparr>wk_pc := Parked\<rparr>
           | Some (i, m) \<Rightarrow> S\<lparr>wk_index := i + 1, wk_handled := wk_handled S @ [m], wk_pc := Handling\<rparr>)
      | Handling \<Rightarrow> S\<lparr>wk_cr := Yield_as READY (wk_cr S), wk_pc := Parked\<rparr>)"

declare routine_step.simps [simp del]

fun publisher_step :: "nat \<Rightarrow> 'a \<Rightarrow> 'a wakeup \<Rightarrow> 'a wakeup" where
  "publisher_step k m S =
     (case wk_pub S k of
        Idle \<Rightarrow> S\<lparr>wk_buf := Fill_ring m (wk_buf S), wk_hist := wk_hist S @ [m], wk_pub := (wk_pub S)(k := Filled)\<rparr>
      | Filled \<Rightarrow>
          if cr_state (wk_cr S) = DATA_WAIT \<or> cr_state (wk_cr S) = IO_WAIT
          then S\<lparr>wk_pub := (wk_pub S)(k := Checked)\<rparr> else S\<lparr>wk_pub := (wk_pub S)(k := Idle)\<rparr>
      | Checked \<Rightarrow> S\<lparr>wk_cr := SetUpdateFlag (wk_cr S), wk_pub := (wk_pub S)(k := Idle)\<rparr>)"

declare publisher_step.simps [simp del]

text \<open>Message numbers are 64-bit, so that fewer than \<open>2 ^ 64 - 2\<close> messages are published.\<close>

inductive wakeup_step :: "'a wakeup \<Rightarrow> 'a wakeup \<Rightarrow> bool" where
  routine: "wakeup_step S (routine_step S)"
| publish: "length (wk_hist S) + 1 < 2 ^ 64 - 1 \<Longrightarrow> wakeup_step S (publisher_step k m S)"

definition wakeup_reachable :: "int \<Rightarrow> u64 \<Rightarrow> 'a \<Rightarrow> u64 \<Rightarrow> string \<Rightarrow> 'a wakeup \<Rightarrow> bool" where
  "wakeup_reachable now qsize dflt i n S = wakeup_step\<^sup>*\<^sup>* (wakeup_init now qsize dflt i n) S"

section \<open>No lost wake-up\<close>

text \<open>The state of the coroutine at each point of its loop.\<close>

fun pc_state :: "routine_pc \<Rightarrow> routine_state set" where
  "pc_state Parked = {READY, DATA_WAIT}"
| "pc_state (Tested b) = {READY, DATA_WAIT}"
| "pc_state Looping = {READY}"
| "pc_state Waiting = {DATA_WAIT}"
| "pc_state Handling = {DATA_WAIT}"

text \<open>Somebody will still look at the buffer.\<close>

definition will_look :: "'a wakeup \<Rightarrow> bool" where
  "will_look S \<longleftrightarrow> (\<exists>k. wk_pub S k \<noteq> Idle) \<or> \<not> cr_updated (wk_cr S) \<or> cr_state (wk_cr S) = READY \<or> wk_pc S \<in> {Tested True, Waiting, Handling}"

text \<open>The cursor is where the last message that was handled stands.\<close>

definition cursor_ok :: "'a wakeup \<Rightarrow> bool" where
  "cursor_ok S \<longleftrightarrow> holds (wk_buf S) (wk_hist S) \<and>
     (if wk_handled S = [] then wk_index S = 0
      else 2 \<le> unat (wk_index S) \<and> unat (wk_index S) \<le> length (wk_hist S) + 1 \<and> last (wk_handled S) = wk_hist S ! (unat (wk_index S) - 2))"

definition wakeup_ok :: "'a wakeup \<Rightarrow> bool" where
  "wakeup_ok S \<longleftrightarrow> cr_state (wk_cr S) \<in> pc_state (wk_pc S) \<and> cursor_ok S \<and>
     (Fetch (wk_buf S) (wk_index S) \<noteq> None \<longrightarrow> will_look S)"

lemma cursor_Fetch:
  assumes "cursor_ok S"
  shows "Fetch (wk_buf S) (wk_index S) = None \<longleftrightarrow>
      wk_hist S = [] \<or> wk_handled S \<noteq> [] \<and> unat (wk_index S) = length (wk_hist S) + 1"
    and "Fetch (wk_buf S) (wk_index S) = Some (i, m) \<Longrightarrow>
      unat (wk_index S) \<le> unat i \<and> 1 \<le> unat i \<and> unat i \<le> length (wk_hist S) \<and> m = wk_hist S ! (unat i - 1)"
proof -
  have h: "holds (wk_buf S) (wk_hist S)" and l: "unat (wk_index S) \<le> length (wk_hist S) + 1"
    and z: "wk_index S = 0 \<longleftrightarrow> wk_handled S = []"
    using assms by (auto simp: cursor_ok_def split: if_splits)
  note F = holds_Fetch [OF h l]
  show "Fetch (wk_buf S) (wk_index S) = None \<longleftrightarrow>
      wk_hist S = [] \<or> wk_handled S \<noteq> [] \<and> unat (wk_index S) = length (wk_hist S) + 1"
    using z by (simp add: F)
  have n: "unat (of_nat (length (wk_hist S)) :: u64) = length (wk_hist S)"
    using holds_bounds(5) [OF h] by (simp add: unat_of_nat_u64)
  assume f: "Fetch (wk_buf S) (wk_index S) = Some (i, m)"
  show "unat (wk_index S) \<le> unat i \<and> 1 \<le> unat i \<and> unat i \<le> length (wk_hist S) \<and> m = wk_hist S ! (unat i - 1)"
  proof (cases "wk_index S = 0 \<or> unat (wk_index S) \<le> length (wk_hist S) - (unat (cb_capacity (wk_buf S)) - 1)")
    case True
    then have "i = of_nat (length (wk_hist S))" "m = last (wk_hist S)" "wk_hist S \<noteq> []" using f by (auto simp: F split: if_splits)
    then show ?thesis using n True l by (auto simp: last_conv_nth Suc_le_eq)
  next
    case False
    then have "i = wk_index S" "m = wk_hist S ! (unat i - 1)" "unat (wk_index S) \<noteq> length (wk_hist S) + 1" using f by (auto simp: F split: if_splits)
    then show ?thesis using False l by (auto simp: Suc_le_eq unat_gt_0)
  qed
qed

lemma cursor_ok_fetch:
  assumes "cursor_ok S" "Fetch (wk_buf S) (wk_index S) = Some (i, m)"
  shows "cursor_ok (S\<lparr>wk_index := i + 1, wk_handled := wk_handled S @ [m], wk_pc := pc\<rparr>)" "unat (i + 1) = unat i + 1"
proof -
  note f = cursor_Fetch(2) [OF assms]
  have h: "holds (wk_buf S) (wk_hist S)" using assms(1) by (simp add: cursor_ok_def)
  show "unat (i + 1) = unat i + 1" using f holds_bounds(5) [OF h] by (intro unat_Suc_u64) simp
  then show "cursor_ok (S\<lparr>wk_index := i + 1, wk_handled := wk_handled S @ [m], wk_pc := pc\<rparr>)"
    using f h by (simp add: cursor_ok_def)
qed

lemma cursor_ok_publish:
  assumes "cursor_ok S" "length (wk_hist S) + 1 < 2 ^ 64 - 1"
  shows "cursor_ok (S\<lparr>wk_buf := Fill_ring m (wk_buf S), wk_hist := wk_hist S @ [m], wk_pub := pub\<rparr>)"
  using assms holds_Fill_ring [of "wk_buf S" "wk_hist S" m] by (auto simp: cursor_ok_def nth_append split: if_splits)

lemma cursor_ok_upd [simp]:
  "cursor_ok (S\<lparr>wk_cr := cr\<rparr>) = cursor_ok S" "cursor_ok (S\<lparr>wk_pc := pc\<rparr>) = cursor_ok S" "cursor_ok (S\<lparr>wk_pub := pub\<rparr>) = cursor_ok S"
  by (simp_all add: cursor_ok_def)

lemma routine_step_ok:
  assumes "wakeup_ok S"
  shows "wakeup_ok (routine_step S)"
proof (cases "wk_pc S")
  case Waiting
  show ?thesis
  proof (cases "Fetch (wk_buf S) (wk_index S)")
    case None
    then show ?thesis using assms Waiting by (auto simp: routine_step.simps wakeup_ok_def)
  next
    case (Some im)
    then obtain i m where "Fetch (wk_buf S) (wk_index S) = Some (i, m)" by (cases im) simp
    then show ?thesis using assms Waiting cursor_ok_fetch(1) [of S i m Handling]
      by (auto simp: routine_step.simps wakeup_ok_def will_look_def)
  qed
qed (use assms in \<open>auto simp: routine_step.simps wakeup_ok_def will_look_def test_flag_def set_ready_def Yield_as_def Let_def
      split: if_splits\<close>)

lemma publisher_step_ok:
  assumes "wakeup_ok S" "length (wk_hist S) + 1 < 2 ^ 64 - 1"
  shows "wakeup_ok (publisher_step k m S)"
proof (cases "wk_pub S k")
  case Idle
  have "will_look (publisher_step k m S)" using Idle by (auto simp: publisher_step.simps will_look_def)
  then show ?thesis using assms cursor_ok_publish [of S, where m = m and pub = "(wk_pub S)(k := Filled)"] Idle by (simp add: publisher_step.simps wakeup_ok_def)
next
  case Filled
  show ?thesis
  proof (cases "cr_state (wk_cr S) = DATA_WAIT \<or> cr_state (wk_cr S) = IO_WAIT")
    case True
    have "will_look (publisher_step k m S)" using Filled True by (auto simp: publisher_step.simps will_look_def)
    then show ?thesis using assms(1) Filled True by (simp add: publisher_step.simps wakeup_ok_def)
  next
    case False
    then have "cr_state (wk_cr S) = READY" using assms(1) by (cases "wk_pc S") (auto simp: wakeup_ok_def)
    then show ?thesis using assms(1) Filled by (simp add: publisher_step.simps wakeup_ok_def will_look_def)
  qed
next
  case Checked
  then show ?thesis using assms(1) by (simp add: publisher_step.simps wakeup_ok_def will_look_def SetUpdateFlag_def)
qed

lemma wakeup_reachable_ok:
  assumes "qsize \<noteq> -1" "wakeup_reachable now qsize dflt i n S"
  shows "wakeup_ok S"
  using assms(2) unfolding wakeup_reachable_def
proof (induction rule: rtranclp_induct)
  case base
  show ?case using holds_CacheBuffer [OF assms(1)]
    by (simp add: wakeup_ok_def wakeup_init_def cursor_ok_def CRoutine_def Fetch_def Empty_def CacheBuffer_def)
next
  case (step S S')
  then show ?case by (auto elim: wakeup_step.cases intro: routine_step_ok publisher_step_ok)
qed

section \<open>Everything published is handled\<close>

text \<open>While no publisher is under way: with something to fetch, five accesses of the processor fetch it.\<close>

definition quiet :: "'a wakeup \<Rightarrow> bool" where "quiet S \<longleftrightarrow> (\<forall>k. wk_pub S k = Idle)"

text \<open>How far the loop is from its next look at the buffer.\<close>

definition distance :: "'a wakeup \<Rightarrow> nat" where
  "distance S =
     (case wk_pc S of
        Waiting \<Rightarrow> 0
      | Looping \<Rightarrow> 1
      | Tested b \<Rightarrow> if b \<or> cr_state (wk_cr S) = READY then 2 else 4
      | Parked \<Rightarrow> 3
      | Handling \<Rightarrow> 4)"

lemma routine_step_keeps: "wk_pub (routine_step S) = wk_pub S" "wk_hist (routine_step S) = wk_hist S" "wk_buf (routine_step S) = wk_buf S"
  by (auto simp: routine_step.simps test_flag_def Let_def split: routine_pc.split option.split)

lemma routine_step_nearer:
  assumes "wakeup_ok S" "quiet S" "Fetch (wk_buf S) (wk_index S) \<noteq> None" "distance S = Suc d"
  shows "distance (routine_step S) = d \<and> wk_index (routine_step S) = wk_index S \<and> wk_handled (routine_step S) = wk_handled S"
proof -
  have "will_look S" using assms(1,3) by (simp add: wakeup_ok_def)
  then show ?thesis using assms(1,2,4)
    by (cases "wk_pc S") (auto simp: routine_step.simps distance_def test_flag_def set_ready_def Yield_as_def wakeup_ok_def will_look_def quiet_def Let_def
        split: if_splits)
qed

lemma routine_fetches:
  "wakeup_ok S \<Longrightarrow> quiet S \<Longrightarrow> Fetch (wk_buf S) (wk_index S) = Some (i, m) \<Longrightarrow> distance S = d \<Longrightarrow>
   wk_index ((routine_step ^^ Suc d) S) = i + 1 \<and> wk_handled ((routine_step ^^ Suc d) S) = wk_handled S @ [m]"
proof (induction d arbitrary: S)
  case 0
  then have "wk_pc S = Waiting" by (auto simp: distance_def split: routine_pc.splits if_splits)
  then show ?case using 0 by (simp add: routine_step.simps)
next
  case (Suc d)
  have ne: "Fetch (wk_buf S) (wk_index S) \<noteq> None" using Suc.prems by simp
  note n = routine_step_nearer [OF Suc.prems(1,2) ne Suc.prems(4)]
  have q: "quiet (routine_step S)" using Suc.prems(2) by (simp add: quiet_def routine_step_keeps)
  have "wk_index ((routine_step ^^ Suc d) (routine_step S)) = i + 1 \<and>
      wk_handled ((routine_step ^^ Suc d) (routine_step S)) = wk_handled (routine_step S) @ [m]"
    by (rule Suc.IH [OF routine_step_ok [OF Suc.prems(1)] q]) (use n Suc.prems(3) in \<open>simp_all add: routine_step_keeps\<close>)
  then show ?case using n by (simp add: funpow_swap1)
qed

lemma routine_steps_ok:
  "wakeup_ok S \<Longrightarrow> quiet S \<Longrightarrow> wakeup_ok ((routine_step ^^ j) S) \<and> quiet ((routine_step ^^ j) S) \<and> wk_hist ((routine_step ^^ j) S) = wk_hist S"
  by (induction j) (auto simp: routine_step_ok quiet_def routine_step_keeps)

text \<open>The messages from the cursor on: those published after the last one that was handled.\<close>

definition unhandled :: "'a wakeup \<Rightarrow> 'a list" where
  "unhandled S = drop (unat (wk_index S) - 1) (wk_hist S)"

lemma routine_drains:
  "wakeup_ok S \<Longrightarrow> quiet S \<Longrightarrow> wk_hist S \<noteq> [] \<Longrightarrow> length (unhandled S) \<le> c \<Longrightarrow>
   \<exists>j\<le>5 * c. unat (wk_index ((routine_step ^^ j) S)) = length (wk_hist S) + 1"
proof (induction c arbitrary: S)
  case 0
  have "unat (wk_index S) \<le> length (wk_hist S) + 1" using 0(1) by (auto simp: wakeup_ok_def cursor_ok_def split: if_splits)
  moreover have "length (wk_hist S) \<le> unat (wk_index S) - 1" "0 < length (wk_hist S)" using 0(3,4) by (simp_all add: unhandled_def)
  ultimately have "unat (wk_index S) = length (wk_hist S) + 1" by linarith
  then show ?case by (intro exI [of _ 0]) simp
next
  case (Suc c)
  have ok: "cursor_ok S" using Suc.prems(1) by (simp add: wakeup_ok_def)
  show ?case
  proof (cases "Fetch (wk_buf S) (wk_index S)")
    case None
    then show ?thesis using cursor_Fetch(1) [OF ok] Suc.prems(3) by (intro exI [of _ 0]) simp
  next
    case (Some im)
    then obtain i m where f: "Fetch (wk_buf S) (wk_index S) = Some (i, m)" by (cases im) simp
    define d where "d = Suc (distance S)"
    let ?S = "(routine_step ^^ d) S"
    have d: "d \<le> 5" by (auto simp: d_def distance_def split: routine_pc.split)
    have idx: "unat (wk_index ?S) = unat i + 1"
      using routine_fetches [OF Suc.prems(1,2) f refl] cursor_ok_fetch(2) [OF ok f] by (simp add: d_def)
    note k = routine_steps_ok [OF Suc.prems(1,2), of d]
    have "length (wk_hist S) - unat i \<le> c" using cursor_Fetch(2) [OF ok f] Suc.prems(4) unfolding unhandled_def length_drop by linarith
    then have "length (unhandled ?S) \<le> c" using idx k by (simp add: unhandled_def)
    then obtain j where j: "j \<le> 5 * c" "unat (wk_index ((routine_step ^^ j) ?S)) = length (wk_hist ?S) + 1"
      using Suc.IH [of ?S] k Suc.prems(3) by auto
    have "(routine_step ^^ j) ?S = (routine_step ^^ (j + d)) S" by (simp add: funpow_add)
    then show ?thesis using j k d by (intro exI [of _ "j + d"]) simp
  qed
qed

lemma routine_steps: "wakeup_step\<^sup>*\<^sup>* S ((routine_step ^^ j) S)"
  by (induction j) (auto intro: rtranclp.rtrancl_into_rtrancl wakeup_step.routine)

lemma publisher_step_hist: "length (wk_hist (publisher_step k m S)) \<le> length (wk_hist S) + 1"
  by (auto simp: publisher_step.simps split: publisher_pc.split)

lemma publisher_steps_hist: "length (wk_hist ((publisher_step k m ^^ j) S)) \<le> length (wk_hist S) + j"
proof (induction j)
  case (Suc j)
  then show ?case using publisher_step_hist [where k = k and m = m and S = "(publisher_step k m ^^ j) S"] by simp
qed simp

lemma publisher_steps: "length (wk_hist S) + j < 2 ^ 64 - 1 \<Longrightarrow> wakeup_step\<^sup>*\<^sup>* S ((publisher_step k m ^^ j) S)"
proof (induction j)
  case (Suc j)
  have "length (wk_hist ((publisher_step k m ^^ j) S)) + 1 < 2 ^ 64 - 1"
    using publisher_steps_hist [where k = k and m = m and j = j and S = S] Suc.prems by linarith
  then have "wakeup_step ((publisher_step k m ^^ j) S) (publisher_step k m ((publisher_step k m ^^ j) S))" by (rule wakeup_step.publish)
  moreover have "wakeup_step\<^sup>*\<^sup>* S ((publisher_step k m ^^ j) S)" using Suc by simp
  ultimately show ?case by (simp only: funpow.simps o_apply rtranclp.rtrancl_into_rtrancl)
qed simp



end
