(* ===== verification/Record_File.thy ===== *)
theory Record_File
  imports Byte_Codec "HOL-Library.Multiset"
begin

text \<open>
  Record files (\<^verbatim>\<open>cyber/record/file\<close>): a header section of fixed size, then channel and chunk sections in the
  order they were written, then an index.  Every section is a \<^verbatim>\<open>Section\<close> (type and size) and a serialised protobuf
  message.  Protobuf is a parameter: \<open>ser\<close> gives the bytes of a message, \<open>parse\<close> what parsing with a limit makes of the
  rest of a file: the message, whether it was consumed entirely and how many bytes were read, or (\<open>Inl\<close>) a
  failure and whether the input was at its end.
\<close>

section \<open>Messages\<close>

datatype section_type = SECTION_HEADER | SECTION_CHUNK_HEADER | SECTION_CHUNK_BODY | SECTION_INDEX | SECTION_CHANNEL

datatype compress_type = COMPRESS_NONE | COMPRESS_BZ2 | COMPRESS_LZ4

record rec_header =
  hd_major_version :: u32
  hd_minor_version :: u32
  hd_compress :: compress_type
  hd_chunk_interval :: u64
  hd_segment_interval :: u64
  hd_index_position :: u64
  hd_chunk_number :: u64
  hd_channel_number :: u64
  hd_begin_time :: u64
  hd_end_time :: u64
  hd_message_number :: u64
  hd_size :: u64
  hd_is_complete :: bool
  hd_chunk_raw_size :: u64
  hd_segment_raw_size :: u64

record single_message =
  sm_channel_name :: string
  sm_time :: u64
  sm_content :: "u8 list"

record channel_desc =
  ch_name :: string
  ch_message_type :: string
  ch_proto_desc :: "u8 list"

record chunk_header =
  ck_begin_time :: u64
  ck_end_time :: u64
  ck_message_number :: u64
  ck_raw_size :: u64

datatype index_cache = ChannelCache u64 string string "u8 list" | ChunkHeaderCache u64 u64 u64 u64 | ChunkBodyCache u64

record single_index =
  si_type :: section_type
  si_position :: u64
  si_cache :: index_cache

datatype section_msg = SHeader rec_header | SChunkHeader chunk_header | SChunkBody "single_message list"
  | SIndex "single_index list" | SChannel channel_desc

fun section_of :: "section_msg \<Rightarrow> section_type" where
  "section_of (SHeader _) = SECTION_HEADER"
| "section_of (SChunkHeader _) = SECTION_CHUNK_HEADER"
| "section_of (SChunkBody _) = SECTION_CHUNK_BODY"
| "section_of (SIndex _) = SECTION_INDEX"
| "section_of (SChannel _) = SECTION_CHANNEL"

fun section_code :: "section_type \<Rightarrow> u32" where
  "section_code SECTION_HEADER = 0"
| "section_code SECTION_CHUNK_HEADER = 1"
| "section_code SECTION_CHUNK_BODY = 2"
| "section_code SECTION_INDEX = 3"
| "section_code SECTION_CHANNEL = 4"

definition HEADER_LENGTH :: nat where "HEADER_LENGTH = 2048"

type_synonym serializer = "section_msg \<Rightarrow> u8 list"
type_synonym parser = "section_type \<Rightarrow> int \<Rightarrow> u8 list \<Rightarrow> (bool + section_msg \<times> bool) \<times> nat"

definition build_header :: "u64 \<Rightarrow> u64 \<Rightarrow> u64 \<Rightarrow> u64 \<Rightarrow> rec_header" where
  "build_header chunk_interval chunk_raw_size segment_interval segment_raw_size =
     \<lparr>hd_major_version = 1, hd_minor_version = 0, hd_compress = COMPRESS_NONE, hd_chunk_interval = chunk_interval,
      hd_segment_interval = segment_interval, hd_index_position = 0, hd_chunk_number = 0, hd_channel_number = 0,
      hd_begin_time = 0, hd_end_time = 0, hd_message_number = 0, hd_size = 0, hd_is_complete = False,
      hd_chunk_raw_size = chunk_raw_size, hd_segment_raw_size = segment_raw_size\<rparr>"

definition GetHeaderWithSegmentParams :: "u64 \<Rightarrow> u64 \<Rightarrow> rec_header" where
  "GetHeaderWithSegmentParams segment_interval segment_raw_size =
     build_header (20 * 1000 * 1000 * 1000) (200 * 1024 * 1024) segment_interval segment_raw_size"

definition GetHeaderWithChunkParams :: "u64 \<Rightarrow> u64 \<Rightarrow> rec_header" where
  "GetHeaderWithChunkParams chunk_interval chunk_raw_size =
     build_header chunk_interval chunk_raw_size (60 * 1000 * 1000 * 1000) (2048 * 1024 * 1024)"

definition GetHeader :: rec_header where
  "GetHeader = build_header (20 * 1000 * 1000 * 1000) (200 * 1024 * 1024) (60 * 1000 * 1000 * 1000) (2048 * 1024 * 1024)"

section \<open>Files\<close>

text \<open>An open file; \<open>f_room\<close> is the size at which the disk is full, if there is one.\<close>

record open_file =
  f_bytes :: "u8 list"
  f_pos :: nat
  f_room :: "nat option"

definition writable :: "nat \<Rightarrow> open_file \<Rightarrow> nat" where
  "writable n f = (case f_room f of None \<Rightarrow> n | Some k \<Rightarrow> min n (k - f_pos f))"

definition fd_write :: "u8 list \<Rightarrow> open_file \<Rightarrow> nat \<times> open_file" where
  "fd_write bs f =
     (let n = writable (length bs) f; old = f_bytes f @ replicate (f_pos f - length (f_bytes f)) 0
      in (n, f\<lparr>f_bytes := take (f_pos f) old @ take n bs @ drop (f_pos f + n) old, f_pos := f_pos f + n\<rparr>))"

definition fd_read :: "nat \<Rightarrow> open_file \<Rightarrow> u8 list \<times> open_file" where
  "fd_read n f = (let bs = take n (drop (f_pos f) (f_bytes f)) in (bs, f\<lparr>f_pos := f_pos f + length bs\<rparr>))"

definition SetPosition :: "int \<Rightarrow> open_file \<Rightarrow> bool \<times> open_file" where
  "SetPosition p f = (if p < 0 then (False, f) else (True, f\<lparr>f_pos := nat p\<rparr>))"

definition CurrentPosition :: "open_file \<Rightarrow> u64" where "CurrentPosition f = of_nat (f_pos f)"

definition section_bytes :: "section_type \<Rightarrow> nat \<Rightarrow> u8 list" where
  "section_bytes t n = u32_bytes (section_code t) @ replicate 4 0 @ u64_bytes (of_nat n)"

section \<open>Writing\<close>

record chunk =
  c_header :: chunk_header
  c_body :: "single_message list"

definition Chunk :: chunk where
  "Chunk = \<lparr>c_header = \<lparr>ck_begin_time = 0, ck_end_time = 0, ck_message_number = 0, ck_raw_size = 0\<rparr>, c_body = []\<rparr>"

definition Chunk_add :: "single_message \<Rightarrow> chunk \<Rightarrow> chunk" where
  "Chunk_add m c =
     (let h = c_header c;
          b0 = (if ck_begin_time h = 0 then sm_time m else ck_begin_time h);
          b = (if b0 > sm_time m then sm_time m else b0);
          e = (if ck_end_time h < sm_time m then sm_time m else ck_end_time h)
      in \<lparr>c_header = \<lparr>ck_begin_time = b, ck_end_time = e, ck_message_number = ck_message_number h + 1,
                      ck_raw_size = ck_raw_size h + of_nat (length (sm_content m))\<rparr>,
          c_body = c_body c @ [m]\<rparr>)"

definition Chunk_empty :: "chunk \<Rightarrow> bool" where "Chunk_empty c \<longleftrightarrow> ck_message_number (c_header c) = 0"

record file_writer =
  fw_file :: open_file
  fw_header :: rec_header
  fw_index :: "single_index list"
  fw_active :: chunk
  fw_flush :: chunk
  fw_numbers :: "string \<rightharpoonup> u64"
  fw_is_writing :: bool

text \<open>The file is created if it does not exist; the bytes of an older file are not removed.\<close>

definition fw_Open :: "nat option \<Rightarrow> u8 list \<Rightarrow> rec_header \<Rightarrow> file_writer" where
  "fw_Open room old h =
     \<lparr>fw_file = \<lparr>f_bytes = old, f_pos = 0, f_room = room\<rparr>, fw_header = h, fw_index = [], fw_active = Chunk, fw_flush = Chunk,
      fw_numbers = Map.empty, fw_is_writing = True\<rparr>"

definition blank :: "u8 list" where "blank = 48 # replicate (HEADER_LENGTH - 1) 0"

text \<open>The result of serialising into the file is not looked at.\<close>

definition write_padding :: "nat \<Rightarrow> open_file \<Rightarrow> bool \<times> open_file" where
  "write_padding n f =
     (if HEADER_LENGTH < n then (False, f)
      else case fd_write (take (HEADER_LENGTH - n) blank) f of (k, f') \<Rightarrow> (k = HEADER_LENGTH - n, f'))"

definition WriteSection :: "serializer \<Rightarrow> section_msg \<Rightarrow> file_writer \<Rightarrow> bool \<times> file_writer" where
  "WriteSection ser m w =
     (let t = section_of m; bs = ser m;
          f = (if t = SECTION_HEADER then snd (SetPosition 0 (fw_file w)) else fw_file w)
      in case fd_write (section_bytes t (length bs)) f of
           (k, f) \<Rightarrow>
             if k \<noteq> 16 then (False, w\<lparr>fw_file := f\<rparr>)
             else let f = snd (fd_write bs f)
                  in case (if t = SECTION_HEADER then write_padding (length bs) f else (True, f)) of
                       (False, f) \<Rightarrow> (False, w\<lparr>fw_file := f\<rparr>)
                     | (True, f) \<Rightarrow> (True, w\<lparr>fw_file := f, fw_header := (fw_header w)\<lparr>hd_size := CurrentPosition f\<rparr>\<rparr>))"

definition WriteHeader :: "serializer \<Rightarrow> rec_header \<Rightarrow> file_writer \<Rightarrow> bool \<times> file_writer" where
  "WriteHeader ser h w = WriteSection ser (SHeader h) (w\<lparr>fw_header := h\<rparr>)"

definition add_index :: "section_type \<Rightarrow> u64 \<Rightarrow> index_cache \<Rightarrow> file_writer \<Rightarrow> file_writer" where
  "add_index t pos c w = w\<lparr>fw_index := fw_index w @ [\<lparr>si_type = t, si_position = pos, si_cache = c\<rparr>]\<rparr>"

fun count_channel :: "(string \<rightharpoonup> u64) \<Rightarrow> single_index \<Rightarrow> single_index" where
  "count_channel numbers i =
     (if si_type i = SECTION_CHANNEL
      then case si_cache i of
             ChannelCache n name ty desc \<Rightarrow>
               (case numbers name of None \<Rightarrow> i | Some k \<Rightarrow> i\<lparr>si_cache := ChannelCache k name ty desc\<rparr>)
           | _ \<Rightarrow> i
      else i)"

definition WriteIndex :: "serializer \<Rightarrow> file_writer \<Rightarrow> bool \<times> file_writer" where
  "WriteIndex ser w =
     (let idx = map (count_channel (fw_numbers w)) (fw_index w)
      in WriteSection ser (SIndex idx)
           (w\<lparr>fw_index := idx, fw_header := (fw_header w)\<lparr>hd_index_position := CurrentPosition (fw_file w)\<rparr>\<rparr>))"

definition fw_WriteChannel :: "serializer \<Rightarrow> channel_desc \<Rightarrow> file_writer \<Rightarrow> bool \<times> file_writer" where
  "fw_WriteChannel ser c w =
     (let pos = CurrentPosition (fw_file w)
      in case WriteSection ser (SChannel c) w of
           (False, w) \<Rightarrow> (False, w)
         | (True, w) \<Rightarrow>
             (True, add_index SECTION_CHANNEL pos (ChannelCache 0 (ch_name c) (ch_message_type c) (ch_proto_desc c))
                (w\<lparr>fw_header := (fw_header w)\<lparr>hd_channel_number := hd_channel_number (fw_header w) + 1\<rparr>\<rparr>)))"

definition count_chunk :: "chunk_header \<Rightarrow> rec_header \<Rightarrow> rec_header" where
  "count_chunk ck h =
     h\<lparr>hd_chunk_number := hd_chunk_number h + 1,
       hd_begin_time := (if hd_begin_time h = 0 then ck_begin_time ck else hd_begin_time h),
       hd_end_time := ck_end_time ck,
       hd_message_number := hd_message_number h + ck_message_number ck\<rparr>"

definition WriteChunk :: "serializer \<Rightarrow> chunk \<Rightarrow> file_writer \<Rightarrow> bool \<times> file_writer" where
  "WriteChunk ser c w =
     (let pos = CurrentPosition (fw_file w); ck = c_header c
      in case WriteSection ser (SChunkHeader ck) w of
           (False, w) \<Rightarrow> (False, w)
         | (True, w) \<Rightarrow>
             let w = add_index SECTION_CHUNK_HEADER pos
                       (ChunkHeaderCache (ck_message_number ck) (ck_begin_time ck) (ck_end_time ck) (ck_raw_size ck)) w;
                 pos = CurrentPosition (fw_file w)
             in case WriteSection ser (SChunkBody (c_body c)) w of
                  (False, w) \<Rightarrow> (False, w)
                | (True, w) \<Rightarrow>
                    (True, add_index SECTION_CHUNK_BODY pos (ChunkBodyCache (of_nat (length (c_body c))))
                       (w\<lparr>fw_header := count_chunk ck (fw_header w)\<rparr>)))"

definition needs_flush :: "rec_header \<Rightarrow> single_message \<Rightarrow> chunk \<Rightarrow> bool" where
  "needs_flush h m c \<longleftrightarrow>
     hd_chunk_interval h > 0 \<and> sm_time m - ck_begin_time (c_header c) > hd_chunk_interval h \<or>
     hd_chunk_raw_size h > 0 \<and> ck_raw_size (c_header c) > hd_chunk_raw_size h"

definition swap_chunks :: "file_writer \<Rightarrow> file_writer" where
  "swap_chunks w = w\<lparr>fw_active := fw_flush w, fw_flush := fw_active w\<rparr>"

definition fw_WriteMessage :: "single_message \<Rightarrow> file_writer \<Rightarrow> file_writer" where
  "fw_WriteMessage m w =
     (let w = w\<lparr>fw_active := Chunk_add m (fw_active w),
                fw_numbers := (fw_numbers w)(sm_channel_name m \<mapsto>
                  (case fw_numbers w (sm_channel_name m) of Some k \<Rightarrow> k + 1 | None \<Rightarrow> 1))\<rparr>
      in if needs_flush (fw_header w) m (fw_active w) then swap_chunks w else w)"

definition fw_GetMessageNumber :: "string \<Rightarrow> file_writer \<Rightarrow> u64" where
  "fw_GetMessageNumber c w = (case fw_numbers w c of Some k \<Rightarrow> k | None \<Rightarrow> 0)"

text \<open>One turn of the flush thread; a chunk that could not be written is dropped too.\<close>

definition flush_turn :: "serializer \<Rightarrow> file_writer \<Rightarrow> file_writer" where
  "flush_turn ser w =
     (if \<not> fw_is_writing w \<or> Chunk_empty (fw_flush w) then w
      else (snd (WriteChunk ser (fw_flush w) w))\<lparr>fw_flush := Chunk\<rparr>)"

text \<open>\<^verbatim>\<open>Close\<close> waits for the flush thread before and after the last swap.\<close>

definition fw_Close :: "serializer \<Rightarrow> file_writer \<Rightarrow> file_writer" where
  "fw_Close ser w =
     (if \<not> fw_is_writing w then w
      else let w = flush_turn ser (swap_chunks (flush_turn ser w));
               w = snd (WriteIndex ser (w\<lparr>fw_is_writing := False\<rparr>))
           in snd (WriteHeader ser ((fw_header w)\<lparr>hd_is_complete := True\<rparr>) w))"

section \<open>Reading\<close>

record file_reader =
  fr_file :: open_file
  fr_header :: rec_header
  fr_index :: "single_index list"
  fr_end_of_file :: bool

text \<open>The type field is whatever the file holds, the size is signed.\<close>

definition ReadSection :: "file_reader \<Rightarrow> (u32 \<times> int) option \<times> file_reader" where
  "ReadSection r =
     (case fd_read 16 (fr_file r) of
        (bs, f) \<Rightarrow>
          let r = r\<lparr>fr_file := f\<rparr>
          in if bs = [] then (None, r\<lparr>fr_end_of_file := True\<rparr>)
             else if length bs \<noteq> 16 then (None, r)
             else (Some (u32_of_bytes (take 4 bs), sint (u64_of_bytes (drop 8 bs))), r))"

definition ReadSection_msg :: "serializer \<Rightarrow> parser \<Rightarrow> section_type \<Rightarrow> int \<Rightarrow> file_reader \<Rightarrow> section_msg option \<times> file_reader" where
  "ReadSection_msg ser parse t sz r =
     (if sz < - (2 ^ 31) \<or> sz > 2 ^ 31 - 1 then (None, r)
      else let f = fr_file r
           in case parse t sz (drop (f_pos f) (f_bytes f)) of
                (res, n) \<Rightarrow>
                  let r = r\<lparr>fr_file := f\<lparr>f_pos := f_pos f + n\<rparr>\<rparr>
                  in case res of
                       Inl at_end \<Rightarrow> (None, r\<lparr>fr_end_of_file := at_end\<rparr>)
                     | Inr (m, entire) \<Rightarrow> if \<not> entire then (None, r) else if int (length (ser m)) \<noteq> sz then (None, r) else (Some m, r))"

definition fr_SetPosition :: "int \<Rightarrow> file_reader \<Rightarrow> bool \<times> file_reader" where
  "fr_SetPosition p r = (case SetPosition p (fr_file r) of (ok, f) \<Rightarrow> (ok, r\<lparr>fr_file := f\<rparr>))"

definition SkipSection :: "int \<Rightarrow> file_reader \<Rightarrow> bool \<times> file_reader" where
  "SkipSection sz r =
     (let pos = int (f_pos (fr_file r)) in if sz > 2 ^ 63 - 1 - pos then (False, r) else fr_SetPosition (pos + sz) r)"

definition fr_Reset :: "file_reader \<Rightarrow> bool \<times> file_reader" where
  "fr_Reset r =
     (case fr_SetPosition (int (16 + HEADER_LENGTH)) r of (False, r) \<Rightarrow> (False, r) | (True, r) \<Rightarrow> (True, r\<lparr>fr_end_of_file := False\<rparr>))"

definition ReadHeader :: "serializer \<Rightarrow> parser \<Rightarrow> file_reader \<Rightarrow> bool \<times> file_reader" where
  "ReadHeader ser parse r =
     (case ReadSection r of
        (None, r) \<Rightarrow> (False, r)
      | (Some (t, sz), r) \<Rightarrow>
          if t \<noteq> section_code SECTION_HEADER then (False, r)
          else case ReadSection_msg ser parse SECTION_HEADER sz r of
                 (Some (SHeader h), r) \<Rightarrow> fr_SetPosition (int (16 + HEADER_LENGTH)) (r\<lparr>fr_header := h\<rparr>)
               | (_, r) \<Rightarrow> (False, r))"

definition ReadIndex :: "serializer \<Rightarrow> parser \<Rightarrow> file_reader \<Rightarrow> bool \<times> file_reader" where
  "ReadIndex ser parse r =
     (if \<not> hd_is_complete (fr_header r) then (False, r)
      else case fr_SetPosition (sint (hd_index_position (fr_header r))) r of
        (False, r) \<Rightarrow> (False, r)
      | (True, r) \<Rightarrow>
          (case ReadSection r of
             (None, r) \<Rightarrow> (False, r)
           | (Some (t, sz), r) \<Rightarrow>
               if t \<noteq> section_code SECTION_INDEX then (False, r)
               else case ReadSection_msg ser parse SECTION_INDEX sz r of
                      (Some (SIndex idx), r) \<Rightarrow> (True, snd (fr_Reset (r\<lparr>fr_index := idx\<rparr>)))
                    | (_, r) \<Rightarrow> (False, r)))"

text \<open>\<^verbatim>\<open>Open\<close> of a file with the given contents; \<open>None\<close> means that there is no such file.\<close>

definition fr_Open :: "serializer \<Rightarrow> parser \<Rightarrow> u8 list option \<Rightarrow> rec_header \<Rightarrow> bool \<times> file_reader" where
  "fr_Open ser parse content h0 =
     (let r = \<lparr>fr_file = \<lparr>f_bytes = case content of None \<Rightarrow> [] | Some bs \<Rightarrow> bs, f_pos = 0, f_room = None\<rparr>,
               fr_header = h0, fr_index = [], fr_end_of_file = False\<rparr>
      in if content = None then (False, r) else ReadHeader ser parse r)"

section \<open>What is in a file\<close>

definition sec_bytes :: "serializer \<Rightarrow> section_msg \<Rightarrow> u8 list" where
  "sec_bytes ser m = section_bytes (section_of m) (length (ser m)) @ ser m"

definition body_bytes :: "serializer \<Rightarrow> section_msg list \<Rightarrow> u8 list" where
  "body_bytes ser secs = concat (map (sec_bytes ser) secs)"

lemma body_bytes_simps [simp]: "body_bytes ser [] = []" "body_bytes ser (m # ms) = sec_bytes ser m @ body_bytes ser ms"
  "body_bytes ser (ms @ ms') = body_bytes ser ms @ body_bytes ser ms'"
  by (simp_all add: body_bytes_def)

lemma length_section_bytes [simp]: "length (section_bytes t n) = 16" by (simp add: section_bytes_def)

definition header_block :: "serializer \<Rightarrow> rec_header \<Rightarrow> u8 list" where
  "header_block ser h = sec_bytes ser (SHeader h) @ take (HEADER_LENGTH - length (ser (SHeader h))) blank"

lemma length_blank [simp]: "length blank = HEADER_LENGTH" by (simp add: blank_def HEADER_LENGTH_def)

lemma length_header_block: "length (ser (SHeader h)) \<le> HEADER_LENGTH \<Longrightarrow> length (header_block ser h) = 16 + HEADER_LENGTH"
  by (simp add: header_block_def sec_bytes_def)

text \<open>
  \<open>file_has ser f secs\<close>: behind a header of fixed size the file holds the sections \<open>secs\<close>, the position is
  behind them, and whatever an older file left comes after.
\<close>

definition file_has :: "serializer \<Rightarrow> open_file \<Rightarrow> section_msg list \<Rightarrow> bool" where
  "file_has ser f secs \<longleftrightarrow> f_room f = None \<and> f_pos f = 16 + HEADER_LENGTH + length (body_bytes ser secs) \<and>
     (\<exists>hdr rest. f_bytes f = hdr @ body_bytes ser secs @ rest \<and> length hdr = 16 + HEADER_LENGTH)"

lemma fd_write_inside:
  assumes "f_room f = None" "f_bytes f = pre @ rest" "f_pos f = length pre"
  shows "fd_write bs f = (length bs, f\<lparr>f_bytes := pre @ bs @ drop (length bs) rest, f_pos := length (pre @ bs)\<rparr>)"
  using assms by (simp add: fd_write_def writable_def Let_def)

lemma WriteSection_appends:
  assumes "file_has ser (fw_file w) secs" "section_of m \<noteq> SECTION_HEADER"
  obtains f where "file_has ser f (secs @ [m])"
    "WriteSection ser m w = (True, w\<lparr>fw_file := f, fw_header := (fw_header w)\<lparr>hd_size := CurrentPosition f\<rparr>\<rparr>)"
proof -
  obtain hdr rest where f: "f_room (fw_file w) = None" "f_bytes (fw_file w) = (hdr @ body_bytes ser secs) @ rest"
    "f_pos (fw_file w) = length (hdr @ body_bytes ser secs)" "length hdr = 16 + HEADER_LENGTH"
    using assms(1) by (auto simp: file_has_def)
  let ?s = "section_bytes (section_of m) (length (ser m))" and ?r = "drop 16 rest"
  let ?f1 = "(fw_file w)\<lparr>f_bytes := (hdr @ body_bytes ser secs) @ ?s @ ?r, f_pos := length ((hdr @ body_bytes ser secs) @ ?s)\<rparr>"
  let ?f2 = "?f1\<lparr>f_bytes := ((hdr @ body_bytes ser secs) @ ?s) @ ser m @ drop (length (ser m)) ?r, f_pos := length (((hdr @ body_bytes ser secs) @ ?s) @ ser m)\<rparr>"
  have 1: "fd_write ?s (fw_file w) = (16, ?f1)" using fd_write_inside [OF f(1-3), of ?s] by simp
  have 2: "fd_write (ser m) ?f1 = (length (ser m), ?f2)"
    by (rule fd_write_inside) (simp_all add: f(1))
  have "file_has ser ?f2 (secs @ [m])"
    unfolding file_has_def by (intro conjI exI [of _ hdr] exI [of _ "drop (length (ser m)) ?r"]) (simp_all add: f(1,4) sec_bytes_def)
  moreover have "WriteSection ser m w = (True, w\<lparr>fw_file := ?f2, fw_header := (fw_header w)\<lparr>hd_size := CurrentPosition ?f2\<rparr>\<rparr>)"
    using assms(2) 1 2 unfolding WriteSection_def Let_def by (simp only: if_False prod.case) simp
  ultimately show thesis using that by blast
qed

lemma header_write:
  assumes "f_room (fw_file w) = None" "length (ser (SHeader h)) \<le> HEADER_LENGTH"
    "f_bytes (fw_file w) = old @ rest" "length old = 16 + HEADER_LENGTH \<or> rest = []"
  obtains f where "f_room f = None" "f_pos f = 16 + HEADER_LENGTH"
    "f_bytes f = header_block ser h @ (if length old = 16 + HEADER_LENGTH then rest else drop (16 + HEADER_LENGTH) old)"
    "WriteHeader ser h w = (True, w\<lparr>fw_file := f, fw_header := h\<lparr>hd_size := CurrentPosition f\<rparr>\<rparr>)"
proof -
  let ?m = "SHeader h" let ?s = "section_bytes SECTION_HEADER (length (ser ?m))" and ?p = "take (HEADER_LENGTH - length (ser ?m)) blank"
  let ?b = "f_bytes (fw_file w)"
  let ?f0 = "(fw_file w)\<lparr>f_pos := 0\<rparr>"
  let ?f1 = "?f0\<lparr>f_bytes := ?s @ drop 16 ?b, f_pos := 16\<rparr>"
  let ?f2 = "?f1\<lparr>f_bytes := (?s @ ser ?m) @ drop (16 + length (ser ?m)) ?b, f_pos := length (?s @ ser ?m)\<rparr>"
  let ?f3 = "?f2\<lparr>f_bytes := (?s @ ser ?m) @ ?p @ drop (16 + HEADER_LENGTH) ?b, f_pos := length ((?s @ ser ?m) @ ?p)\<rparr>"
  have 1: "fd_write ?s ?f0 = (16, ?f1)" using fd_write_inside [of ?f0 "[]" ?b ?s] assms(1) by simp
  have 2: "fd_write (ser ?m) ?f1 = (length (ser ?m), ?f2)"
    using fd_write_inside [of ?f1 ?s "drop 16 ?b" "ser ?m"] assms(1) by (simp add: add.commute)
  have 3: "write_padding (length (ser ?m)) ?f2 = (True, ?f3)"
    using fd_write_inside [of ?f2 "?s @ ser ?m" "drop (16 + length (ser ?m)) ?b" ?p] assms(1,2) by (simp add: write_padding_def add.commute)
  have "WriteHeader ser h w = (True, w\<lparr>fw_file := ?f3, fw_header := h\<lparr>hd_size := CurrentPosition ?f3\<rparr>\<rparr>)"
    unfolding WriteHeader_def WriteSection_def Let_def using 1 2 3 by (simp add: SetPosition_def)
  moreover have "f_bytes ?f3 = header_block ser h @ (if length old = 16 + HEADER_LENGTH then rest else drop (16 + HEADER_LENGTH) old)"
    using assms(3,4) by (auto simp: header_block_def sec_bytes_def)
  moreover have "f_pos ?f3 = 16 + HEADER_LENGTH" using assms(2) by simp
  ultimately show thesis using that [of ?f3] assms(1) by simp
qed

end
