(* ===== verification/Record_Contents.thy ===== *)
theory Record_Contents
  imports Record_File
begin

text \<open>
  What \<^verbatim>\<open>RecordFileWriter\<close> has in its file and in its two chunks at any moment, for every order in which messages,
  channels and the turns of the flush thread come: no message is lost or duplicated, and the index and the
  header describe the file.
\<close>

section \<open>Items\<close>

datatype item = Chan channel_desc | Chnk chunk_header "single_message list"

fun item_secs :: "item \<Rightarrow> section_msg list" where
  "item_secs (Chan c) = [SChannel c]"
| "item_secs (Chnk ck ms) = [SChunkHeader ck, SChunkBody ms]"

fun item_msgs :: "item \<Rightarrow> single_message list" where
  "item_msgs (Chan c) = []"
| "item_msgs (Chnk ck ms) = ms"

definition secs :: "item list \<Rightarrow> section_msg list" where "secs its = concat (map item_secs its)"

definition msgs :: "item list \<Rightarrow> single_message list" where "msgs its = concat (map item_msgs its)"

fun channels :: "item list \<Rightarrow> channel_desc list" where
  "channels [] = []"
| "channels (Chan c # its) = c # channels its"
| "channels (Chnk _ _ # its) = channels its"

lemma items_append [simp]: "secs (a @ b) = secs a @ secs b" "msgs (a @ b) = msgs a @ msgs b" "channels (a @ b) = channels a @ channels b"
  "secs [x] = item_secs x" "msgs [x] = item_msgs x" "secs [] = []" "msgs [] = []"
  by (simp_all add: secs_def msgs_def) (induction a rule: channels.induct; simp)

text \<open>The index entries of an item that starts at a position, with the channel counts still 0.\<close>

fun item_index :: "serializer \<Rightarrow> nat \<Rightarrow> item \<Rightarrow> single_index list" where
  "item_index ser p (Chan c) =
     [\<lparr>si_type = SECTION_CHANNEL, si_position = of_nat p, si_cache = ChannelCache 0 (ch_name c) (ch_message_type c) (ch_proto_desc c)\<rparr>]"
| "item_index ser p (Chnk ck ms) =
     [\<lparr>si_type = SECTION_CHUNK_HEADER, si_position = of_nat p,
       si_cache = ChunkHeaderCache (ck_message_number ck) (ck_begin_time ck) (ck_end_time ck) (ck_raw_size ck)\<rparr>,
      \<lparr>si_type = SECTION_CHUNK_BODY, si_position = of_nat (p + length (sec_bytes ser (SChunkHeader ck))),
       si_cache = ChunkBodyCache (of_nat (length ms))\<rparr>]"

fun index_from :: "serializer \<Rightarrow> nat \<Rightarrow> item list \<Rightarrow> single_index list" where
  "index_from ser p [] = []"
| "index_from ser p (x # xs) = item_index ser p x @ index_from ser (p + length (body_bytes ser (item_secs x))) xs"

lemma index_from_append: "index_from ser p (xs @ ys) = index_from ser p xs @ index_from ser (p + length (body_bytes ser (secs xs))) ys"
  by (induction xs arbitrary: p) (simp_all add: secs_def add.assoc)

section \<open>The invariant\<close>

definition chunk_ok :: "chunk \<Rightarrow> bool" where
  "chunk_ok c \<longleftrightarrow> ck_message_number (c_header c) = of_nat (length (c_body c))"

definition channel_count :: "string \<Rightarrow> single_message list \<Rightarrow> nat" where
  "channel_count c ps = length (filter (\<lambda>m. sm_channel_name m = c) ps)"

text \<open>\<open>ps\<close> are the messages given to the writer so far, \<open>its\<close> the items in the file.\<close>

definition writer_ok :: "serializer \<Rightarrow> item list \<Rightarrow> single_message list \<Rightarrow> file_writer \<Rightarrow> bool" where
  "writer_ok ser its ps w \<longleftrightarrow> file_has ser (fw_file w) (secs its) \<and> fw_is_writing w \<and>
     fw_index w = index_from ser (16 + HEADER_LENGTH) its \<and>
     hd_message_number (fw_header w) = of_nat (length (msgs its)) \<and> chunk_ok (fw_flush w) \<and> chunk_ok (fw_active w) \<and>
     mset (msgs its) + mset (c_body (fw_flush w)) + mset (c_body (fw_active w)) = mset ps \<and>
     fw_numbers w = (\<lambda>c. if channel_count c ps = 0 then None else Some (of_nat (channel_count c ps)))"

lemma writer_okD:
  assumes "writer_ok ser its ps w"
  shows "file_has ser (fw_file w) (secs its)" "fw_is_writing w" "fw_index w = index_from ser (16 + HEADER_LENGTH) its"
    "hd_message_number (fw_header w) = of_nat (length (msgs its))" "chunk_ok (fw_flush w)" "chunk_ok (fw_active w)"
    "mset (msgs its) + mset (c_body (fw_flush w)) + mset (c_body (fw_active w)) = mset ps"
    "fw_numbers w = (\<lambda>c. if channel_count c ps = 0 then None else Some (of_nat (channel_count c ps)))"
  using assms unfolding writer_ok_def by blast+

lemma chunk_ok_new [simp]: "chunk_ok Chunk" "c_body Chunk = []" by (simp_all add: chunk_ok_def Chunk_def)

lemma chunk_ok_add [simp]: "chunk_ok c \<Longrightarrow> chunk_ok (Chunk_add m c)" "c_body (Chunk_add m c) = c_body c @ [m]"
  by (simp_all add: chunk_ok_def Chunk_add_def Let_def)

lemma chunk_ok_empty: "chunk_ok c \<Longrightarrow> length (c_body c) < 2 ^ 64 \<Longrightarrow> Chunk_empty c \<longleftrightarrow> c_body c = []"
  using unat_of_nat_u64 [of "length (c_body c)"] by (auto simp: chunk_ok_def Chunk_empty_def)

lemma swap_ok: "writer_ok ser its ps w \<Longrightarrow> writer_ok ser its ps (swap_chunks w)"
  by (simp add: writer_ok_def swap_chunks_def add.commute add.left_commute)

text \<open>Messages are in the order they came as long as the flush thread keeps up.\<close>

definition in_order :: "item list \<Rightarrow> single_message list \<Rightarrow> file_writer \<Rightarrow> bool" where
  "in_order its ps w \<longleftrightarrow> msgs its @ c_body (fw_flush w) @ c_body (fw_active w) = ps"

lemma put_in_order: "in_order its ps w \<Longrightarrow> c_body (fw_flush w) = [] \<Longrightarrow> in_order its (ps @ [m]) (fw_WriteMessage m w)"
  by (auto simp: in_order_def fw_WriteMessage_def swap_chunks_def Let_def)

lemma channel_in_order:
  assumes "writer_ok ser its ps w" "in_order its ps w"
  shows "in_order (its @ [Chan c]) ps (snd (fw_WriteChannel ser c w))"
proof -
  obtain f where "WriteSection ser (SChannel c) w = (True, w\<lparr>fw_file := f, fw_header := (fw_header w)\<lparr>hd_size := CurrentPosition f\<rparr>\<rparr>)"
    using WriteSection_appends [OF writer_okD(1) [OF assms(1)], of "SChannel c"] by auto
  then show ?thesis using assms(2) by (simp add: in_order_def fw_WriteChannel_def add_index_def Let_def)
qed

text \<open>
  Messages that come in the order of their times, none of which is 0: the header of a chunk covers the times of its messages, and the header of the file
  those of all.  (A time of 0 counts as none, and the end time of the file is that of its last chunk.)
\<close>

definition timed :: "single_message list \<Rightarrow> bool" where
  "timed ps \<longleftrightarrow> sorted (map sm_time ps) \<and> (\<forall>m\<in>set ps. sm_time m \<noteq> 0)"

definition chunk_covers :: "chunk_header \<Rightarrow> single_message list \<Rightarrow> bool" where
  "chunk_covers ck ms \<longleftrightarrow> (\<forall>m\<in>set ms. ck_begin_time ck \<le> sm_time m \<and> sm_time m \<le> ck_end_time ck) \<and> (ms = [] \<longleftrightarrow> ck_begin_time ck = 0) \<and>
     ck_end_time ck \<in> insert 0 (sm_time ` set ms)"

definition header_covers :: "rec_header \<Rightarrow> single_message list \<Rightarrow> bool" where
  "header_covers h ms \<longleftrightarrow> (\<forall>m\<in>set ms. hd_begin_time h \<le> sm_time m \<and> sm_time m \<le> hd_end_time h) \<and> (ms = [] \<longleftrightarrow> hd_begin_time h = 0) \<and>
     hd_end_time h \<in> insert 0 (sm_time ` set ms)"

definition items_covered :: "item list \<Rightarrow> bool" where
  "items_covered its \<longleftrightarrow> (\<forall>it\<in>set its. case it of Chan c \<Rightarrow> True | Chnk ck ms \<Rightarrow> ms \<noteq> [] \<and> chunk_covers ck ms)"

definition times_ok :: "item list \<Rightarrow> file_writer \<Rightarrow> bool" where
  "times_ok its w \<longleftrightarrow> items_covered its \<and> chunk_covers (c_header (fw_flush w)) (c_body (fw_flush w)) \<and>
     chunk_covers (c_header (fw_active w)) (c_body (fw_active w)) \<and> header_covers (fw_header w) (msgs its)"

lemma chunk_covers_new [simp]: "chunk_covers (c_header Chunk) []" by (simp add: chunk_covers_def Chunk_def)

lemma chunk_covers_add:
  assumes "chunk_covers (c_header c) (c_body c)" "sm_time m \<noteq> 0"
  shows "chunk_covers (c_header (Chunk_add m c)) (c_body c @ [m])"
proof (cases "c_body c = []")
  case True
  then show ?thesis using assms by (auto simp: chunk_covers_def Chunk_add_def Let_def word_gt_0)
next
  case False
  let ?b = "ck_begin_time (c_header c)" and ?e = "ck_end_time (c_header c)" and ?h = "c_header (Chunk_add m c)"
  have c: "?b \<noteq> 0" "?e \<in> insert 0 (sm_time ` set (c_body c))" "\<And>x. x \<in> set (c_body c) \<Longrightarrow> ?b \<le> sm_time x \<and> sm_time x \<le> ?e"
    using assms(1) False by (auto simp: chunk_covers_def)
  have h: "ck_begin_time ?h = min ?b (sm_time m)" "ck_end_time ?h = max ?e (sm_time m)"
    using c(1) by (auto simp: Chunk_add_def Let_def min_def max_def)
  have "ck_begin_time ?h \<noteq> 0" using c(1) assms(2) by (simp add: h min_def)
  moreover have "ck_end_time ?h \<in> insert 0 (sm_time ` set (c_body c @ [m]))" using c(2) by (auto simp: h max_def)
  moreover have "ck_begin_time ?h \<le> sm_time x \<and> sm_time x \<le> ck_end_time ?h" if "x \<in> set (c_body c @ [m])" for x
    using c(3) [of x] that by (auto simp: h min_le_iff_disj le_max_iff_disj)
  ultimately show ?thesis by (simp add: chunk_covers_def)
qed

lemma put_times: "times_ok its w \<Longrightarrow> sm_time m \<noteq> 0 \<Longrightarrow> times_ok its (fw_WriteMessage m w)"
  by (simp add: times_ok_def fw_WriteMessage_def swap_chunks_def Let_def chunk_covers_add)

lemma swap_times: "times_ok its w \<Longrightarrow> times_ok its (swap_chunks w)"
  by (simp add: times_ok_def swap_chunks_def)

lemma channel_times:
  assumes "writer_ok ser its ps w" "times_ok its w"
  shows "times_ok (its @ [Chan c]) (snd (fw_WriteChannel ser c w))"
proof -
  obtain f where "WriteSection ser (SChannel c) w = (True, w\<lparr>fw_file := f, fw_header := (fw_header w)\<lparr>hd_size := CurrentPosition f\<rparr>\<rparr>)"
    using WriteSection_appends [OF writer_okD(1) [OF assms(1)], of "SChannel c"] by auto
  then show ?thesis using assms(2) by (simp add: times_ok_def items_covered_def header_covers_def fw_WriteChannel_def add_index_def Let_def)
qed

lemma header_covers_chunk:
  assumes "header_covers h ms" "chunk_covers ck ms'" "ms' \<noteq> []" "sorted (map sm_time (ms @ ms'))"
  shows "header_covers ((count_chunk ck h)\<lparr>hd_size := n\<rparr>) (ms @ ms')"
proof -
  obtain x where x: "x \<in> set ms'" using assms(3) by (cases ms') auto
  have before: "sm_time a \<le> sm_time b" if "a \<in> set ms" "b \<in> set ms'" for a b using assms(4) that by (auto simp: sorted_append)
  have e: "sm_time a \<le> ck_end_time ck" if "a \<in> set ms" for a
    using before [OF that x] assms(2) x by (auto simp: chunk_covers_def dest: order_trans)
  have b: "hd_begin_time h \<le> sm_time y" if "ms \<noteq> []" "y \<in> set ms'" for y
  proof -
    obtain a where a: "a \<in> set ms" using \<open>ms \<noteq> []\<close> by (cases ms) auto
    then show ?thesis using before [OF a that(2)] assms(1) by (auto simp: header_covers_def dest: order_trans)
  qed
  show ?thesis using assms(1-3) e b by (auto simp: header_covers_def chunk_covers_def count_chunk_def)
qed

text \<open>A message goes into the active chunk and into the count of its channel.\<close>

lemma put_ok:
  assumes "writer_ok ser its ps w"
  shows "writer_ok ser its (ps @ [m]) (fw_WriteMessage m w)"
proof -
  note D = writer_okD [OF assms]
  let ?w = "w\<lparr>fw_active := Chunk_add m (fw_active w),
      fw_numbers := (fw_numbers w)(sm_channel_name m \<mapsto> (case fw_numbers w (sm_channel_name m) of Some k \<Rightarrow> k + 1 | None \<Rightarrow> 1))\<rparr>"
  have cc: "channel_count c (ps @ [m]) = channel_count c ps + (if c = sm_channel_name m then 1 else 0)" for c
    by (simp add: channel_count_def)
  have "fw_numbers ?w = (\<lambda>c. if channel_count c (ps @ [m]) = 0 then None else Some (of_nat (channel_count c (ps @ [m]))))"
    by (rule ext) (simp add: D(8) cc)
  moreover have "mset (msgs its) + mset (c_body (fw_flush ?w)) + mset (c_body (fw_active ?w)) = mset (ps @ [m])"
    using D(7) by simp
  ultimately have "writer_ok ser its (ps @ [m]) ?w" using D(1-6) by (simp add: writer_ok_def)
  then show ?thesis using swap_ok by (simp add: fw_WriteMessage_def Let_def)
qed

lemma position_ok: "file_has ser f ss \<Longrightarrow> CurrentPosition f = of_nat (16 + HEADER_LENGTH + length (body_bytes ser ss))"
  by (simp add: file_has_def CurrentPosition_def)

lemma channel_ok:
  assumes "writer_ok ser its ps w"
  shows "fst (fw_WriteChannel ser c w)" "writer_ok ser (its @ [Chan c]) ps (snd (fw_WriteChannel ser c w))"
proof -
  note D = writer_okD [OF assms]
  obtain f where f: "file_has ser f (secs its @ [SChannel c])"
    "WriteSection ser (SChannel c) w = (True, w\<lparr>fw_file := f, fw_header := (fw_header w)\<lparr>hd_size := CurrentPosition f\<rparr>\<rparr>)"
    using WriteSection_appends [OF D(1), of "SChannel c"] by auto
  show "fst (fw_WriteChannel ser c w)" by (simp add: fw_WriteChannel_def f(2) Let_def)
  show "writer_ok ser (its @ [Chan c]) ps (snd (fw_WriteChannel ser c w))"
    using f(1) D by (simp add: writer_ok_def fw_WriteChannel_def f(2) Let_def add_index_def index_from_append position_ok [OF D(1)])
qed

lemma WriteChunk_appends:
  assumes "file_has ser (fw_file w) (secs its)" "fw_index w = index_from ser (16 + HEADER_LENGTH) its"
  obtains f where "file_has ser f (secs (its @ [Chnk (c_header c) (c_body c)]))"
    "WriteChunk ser c w = (True, w\<lparr>fw_file := f, fw_header := (count_chunk (c_header c) (fw_header w))\<lparr>hd_size := CurrentPosition f\<rparr>,
       fw_index := index_from ser (16 + HEADER_LENGTH) (its @ [Chnk (c_header c) (c_body c)])\<rparr>)"
proof -
  let ?ck = "c_header c" and ?ms = "c_body c"
  obtain f1 where f1: "file_has ser f1 (secs its @ [SChunkHeader ?ck])"
    "WriteSection ser (SChunkHeader ?ck) w = (True, w\<lparr>fw_file := f1, fw_header := (fw_header w)\<lparr>hd_size := CurrentPosition f1\<rparr>\<rparr>)"
    using WriteSection_appends [OF assms(1), of "SChunkHeader ?ck"] by auto
  let ?w = "add_index SECTION_CHUNK_HEADER (CurrentPosition (fw_file w))
      (ChunkHeaderCache (ck_message_number ?ck) (ck_begin_time ?ck) (ck_end_time ?ck) (ck_raw_size ?ck))
      (w\<lparr>fw_file := f1, fw_header := (fw_header w)\<lparr>hd_size := CurrentPosition f1\<rparr>\<rparr>)"
  obtain f2 where f2: "file_has ser f2 (secs its @ [SChunkHeader ?ck, SChunkBody ?ms])"
    "WriteSection ser (SChunkBody ?ms) ?w = (True, ?w\<lparr>fw_file := f2, fw_header := (fw_header ?w)\<lparr>hd_size := CurrentPosition f2\<rparr>\<rparr>)"
    using WriteSection_appends [of ser ?w "secs its @ [SChunkHeader ?ck]" "SChunkBody ?ms"] f1(1) by (auto simp: add_index_def)
  have pos: "CurrentPosition (fw_file w) = of_nat (16 + HEADER_LENGTH + length (body_bytes ser (secs its)))"
    "CurrentPosition f1 = of_nat (16 + HEADER_LENGTH + length (body_bytes ser (secs its)) + length (sec_bytes ser (SChunkHeader ?ck)))"
    using position_ok [OF assms(1)] position_ok [OF f1(1)] by simp_all
  have "WriteChunk ser c w = (True, w\<lparr>fw_file := f2, fw_header := (count_chunk ?ck (fw_header w))\<lparr>hd_size := CurrentPosition f2\<rparr>,
       fw_index := index_from ser (16 + HEADER_LENGTH) (its @ [Chnk ?ck ?ms])\<rparr>)"
    unfolding WriteChunk_def Let_def f1(2) prod.case bool.case f2(2)
    by (simp add: add_index_def assms(2) index_from_append pos count_chunk_def)
  then show thesis using that f2(1) by simp
qed

lemma flush_ok:
  assumes "writer_ok ser its ps w" "length ps < 2 ^ 64"
  obtains its' where "writer_ok ser its' ps (flush_turn ser w)" "channels its' = channels its"
    "c_body (fw_flush (flush_turn ser w)) = []" "fw_active (flush_turn ser w) = fw_active w"
    "in_order its ps w \<Longrightarrow> in_order its' ps (flush_turn ser w)"
    "in_order its ps w \<Longrightarrow> timed ps \<Longrightarrow> times_ok its w \<Longrightarrow> times_ok its' (flush_turn ser w)"
proof (cases "Chunk_empty (fw_flush w)")
  case True
  note D = writer_okD [OF assms(1)]
  have "length (c_body (fw_flush w)) \<le> length ps" using arg_cong [OF D(7), of size] by simp
  then have "c_body (fw_flush w) = []" using chunk_ok_empty [OF D(5)] True assms(2) by simp
  then show thesis using that [of its] assms(1) True by (simp add: flush_turn_def)
next
  case False
  note D = writer_okD [OF assms(1)]
  let ?c = "fw_flush w"
  obtain f where f: "file_has ser f (secs (its @ [Chnk (c_header ?c) (c_body ?c)]))"
    "WriteChunk ser ?c w = (True, w\<lparr>fw_file := f, fw_header := (count_chunk (c_header ?c) (fw_header w))\<lparr>hd_size := CurrentPosition f\<rparr>,
       fw_index := index_from ser (16 + HEADER_LENGTH) (its @ [Chnk (c_header ?c) (c_body ?c)])\<rparr>)"
    using WriteChunk_appends [OF D(1,3)] by metis
  let ?w = "flush_turn ser w"
  have w: "?w = w\<lparr>fw_file := f, fw_header := (count_chunk (c_header ?c) (fw_header w))\<lparr>hd_size := CurrentPosition f\<rparr>,
       fw_index := index_from ser (16 + HEADER_LENGTH) (its @ [Chnk (c_header ?c) (c_body ?c)]), fw_flush := Chunk\<rparr>"
    using False D(2) by (simp add: flush_turn_def f(2))
  have "writer_ok ser (its @ [Chnk (c_header ?c) (c_body ?c)]) ps ?w"
    unfolding w using f(1) D by (simp add: writer_ok_def count_chunk_def chunk_ok_def Chunk_def)
  moreover have "times_ok (its @ [Chnk (c_header ?c) (c_body ?c)]) ?w" if a: "in_order its ps w" "timed ps" "times_ok its w"
  proof -
    have "length (c_body ?c) \<le> length ps" using arg_cong [OF D(7), of size] by simp
    then have ne: "c_body ?c \<noteq> []" using chunk_ok_empty [OF D(5)] False assms(2) by simp
    have "sorted (map sm_time ((msgs its @ c_body ?c) @ c_body (fw_active w)))" using a(1,2) by (simp add: in_order_def timed_def)
    then have "sorted (map sm_time (msgs its @ c_body ?c))" unfolding map_append by (metis sorted_append)
    then have "header_covers (fw_header ?w) (msgs its @ c_body ?c)" using header_covers_chunk a(3) ne by (simp add: w times_ok_def)
    then show ?thesis using a(3) ne by (simp add: w times_ok_def items_covered_def)
  qed
  ultimately show thesis using that [of "its @ [Chnk (c_header ?c) (c_body ?c)]"] by (simp add: w in_order_def)
qed

section \<open>Runs of the writer\<close>

datatype write_op = PutMessage single_message | PutChannel channel_desc | FlushTurn

fun fw_op :: "serializer \<Rightarrow> write_op \<Rightarrow> file_writer \<Rightarrow> file_writer" where
  "fw_op ser (PutMessage m) w = fw_WriteMessage m w"
| "fw_op ser (PutChannel c) w = snd (fw_WriteChannel ser c w)"
| "fw_op ser FlushTurn w = flush_turn ser w"

fun put_messages :: "write_op list \<Rightarrow> single_message list" where
  "put_messages [] = []"
| "put_messages (PutMessage m # ops) = m # put_messages ops"
| "put_messages (_ # ops) = put_messages ops"

lemma put_messages_append [simp]: "put_messages (a @ b) = put_messages a @ put_messages b"
  by (induction a rule: put_messages.induct) simp_all

lemma put_messages_map [simp]: "put_messages (map PutChannel cs) = []" "put_messages (map PutMessage ms) = ms"
proof -
  show "put_messages (map PutChannel cs) = []" by (induction cs) simp_all
  show "put_messages (map PutMessage ms) = ms" by (induction ms) simp_all
qed

fun put_channels :: "write_op list \<Rightarrow> channel_desc list" where
  "put_channels [] = []"
| "put_channels (PutChannel c # ops) = c # put_channels ops"
| "put_channels (_ # ops) = put_channels ops"

text \<open>Open a file over an old one, write the header, do the operations, and close it.\<close>

definition written_file :: "serializer \<Rightarrow> u8 list \<Rightarrow> rec_header \<Rightarrow> write_op list \<Rightarrow> file_writer" where
  "written_file ser old h ops = fw_Close ser (fold (fw_op ser) ops (snd (WriteHeader ser h (fw_Open None old h))))"

text \<open>The flush thread keeps up: its chunk is empty whenever a message comes.\<close>

fun keeps_up :: "serializer \<Rightarrow> write_op list \<Rightarrow> file_writer \<Rightarrow> bool" where
  "keeps_up ser [] w = True"
| "keeps_up ser (op # ops) w \<longleftrightarrow>
     (case op of PutMessage m \<Rightarrow> Chunk_empty (fw_flush w) | _ \<Rightarrow> True) \<and> keeps_up ser ops (fw_op ser op w)"

lemma run_ok:
  "writer_ok ser its ps w \<Longrightarrow> length ps + length (put_messages ops) < 2 ^ 64 \<Longrightarrow>
   \<exists>its'. writer_ok ser its' (ps @ put_messages ops) (fold (fw_op ser) ops w) \<and> channels its' = channels its @ put_channels ops \<and>
     (in_order its ps w \<longrightarrow> keeps_up ser ops w \<longrightarrow> in_order its' (ps @ put_messages ops) (fold (fw_op ser) ops w) \<and>
        (timed (ps @ put_messages ops) \<longrightarrow> times_ok its w \<longrightarrow> times_ok its' (fold (fw_op ser) ops w)))"
proof (induction ops arbitrary: its ps w)
  case Nil
  then show ?case by auto
next
  case (Cons op ops)
  show ?case
  proof (cases op)
    case (PutMessage m)
    note D = writer_okD [OF Cons.prems(1)]
    have "length (c_body (fw_flush w)) \<le> length ps" using arg_cong [OF D(7), of size] by simp
    then have "Chunk_empty (fw_flush w) \<Longrightarrow> c_body (fw_flush w) = []" using chunk_ok_empty [OF D(5)] Cons.prems(2) by simp
    then show ?thesis
      using Cons.IH [OF put_ok [OF Cons.prems(1), of m]] Cons.prems(2) put_in_order [of its ps w m] put_times [of its w m] PutMessage
      by (auto simp: timed_def)
  next
    case (PutChannel c)
    then show ?thesis
      using Cons.IH [OF channel_ok(2) [OF Cons.prems(1), of c]] Cons.prems(2) channel_in_order [OF Cons.prems(1), of c] channel_times [OF Cons.prems(1), of c] by auto
  next
    case FlushTurn
    obtain its' where f: "writer_ok ser its' ps (flush_turn ser w)" "channels its' = channels its"
      "in_order its ps w \<Longrightarrow> in_order its' ps (flush_turn ser w)"
      "in_order its ps w \<Longrightarrow> timed ps \<Longrightarrow> times_ok its w \<Longrightarrow> times_ok its' (flush_turn ser w)"
      using flush_ok [OF Cons.prems(1)] Cons.prems(2) by auto
    moreover have "timed (ps @ put_messages ops) \<Longrightarrow> timed ps" by (simp add: timed_def sorted_append)
    ultimately show ?thesis using Cons.IH [of its' ps "flush_turn ser w"] Cons.prems(2) FlushTurn by auto
  qed
qed

lemma open_ok:
  assumes "length (ser (SHeader h)) \<le> HEADER_LENGTH" "hd_message_number h = 0"
  shows "writer_ok ser [] [] (snd (WriteHeader ser h (fw_Open None old h)))"
proof -
  obtain f where f: "f_room f = None" "f_pos f = 16 + HEADER_LENGTH"
    "f_bytes f = header_block ser h @ (if length old = 16 + HEADER_LENGTH then [] else drop (16 + HEADER_LENGTH) old)"
    "WriteHeader ser h (fw_Open None old h) = (True, (fw_Open None old h)\<lparr>fw_file := f, fw_header := h\<lparr>hd_size := CurrentPosition f\<rparr>\<rparr>)"
    using header_write [of "fw_Open None old h" ser h old "[]"] assms(1) by (auto simp: fw_Open_def)
  have "file_has ser f []" unfolding file_has_def using f(1-3) length_header_block [of ser h] assms(1) by auto
  then show ?thesis using assms(2) unfolding f(4) by (simp add: writer_ok_def fw_Open_def channel_count_def)
qed

lemma open_times:
  assumes "length (ser (SHeader h)) \<le> HEADER_LENGTH" "hd_begin_time h = 0" "hd_end_time h = 0"
  shows "times_ok [] (snd (WriteHeader ser h (fw_Open None old h)))"
proof -
  obtain f where "WriteHeader ser h (fw_Open None old h) = (True, (fw_Open None old h)\<lparr>fw_file := f, fw_header := h\<lparr>hd_size := CurrentPosition f\<rparr>\<rparr>)"
    using header_write [of "fw_Open None old h" ser h old "[]"] assms(1) by (auto simp: fw_Open_def)
  then show ?thesis using assms(2,3) by (simp add: times_ok_def items_covered_def header_covers_def fw_Open_def)
qed

text \<open>The finished file.\<close>

lemma written_file_contents:
  assumes "\<And>h. length (ser (SHeader h)) \<le> HEADER_LENGTH" "hd_message_number h = 0" "length (put_messages ops) < 2 ^ 64"
  obtains its h' rest where "channels its = put_channels ops" "mset (msgs its) = mset (put_messages ops)"
    "keeps_up ser ops (snd (WriteHeader ser h (fw_Open None old h))) \<Longrightarrow> msgs its = put_messages ops"
    "f_bytes (fw_file (written_file ser old h ops)) =
       header_block ser h' @ body_bytes ser (secs its @ [SIndex (map (count_channel (fw_numbers (written_file ser old h ops))) (index_from ser (16 + HEADER_LENGTH) its))]) @ rest"
    "hd_is_complete h'" "hd_message_number h' = of_nat (length (put_messages ops))"
    "hd_index_position h' = of_nat (16 + HEADER_LENGTH + length (body_bytes ser (secs its)))"
    "fw_numbers (written_file ser old h ops) =
       (\<lambda>c. if channel_count c (put_messages ops) = 0 then None else Some (of_nat (channel_count c (put_messages ops))))"
    "keeps_up ser ops (snd (WriteHeader ser h (fw_Open None old h))) \<Longrightarrow> timed (put_messages ops) \<Longrightarrow> hd_begin_time h = 0 \<Longrightarrow> hd_end_time h = 0 \<Longrightarrow>
       items_covered its \<and> header_covers h' (msgs its)"
proof -
  let ?ps = "put_messages ops"
  let ?s = "snd (WriteHeader ser h (fw_Open None old h))"
  have o: "writer_ok ser [] [] ?s" using assms(1,2) by (intro open_ok)
  have "in_order [] [] ?s" using writer_okD(7) [OF o] by (simp add: in_order_def)
  then obtain its0 where r: "writer_ok ser its0 ?ps (fold (fw_op ser) ops ?s)" "channels its0 = put_channels ops"
    "keeps_up ser ops ?s \<Longrightarrow> in_order its0 ?ps (fold (fw_op ser) ops ?s)"
    "keeps_up ser ops ?s \<Longrightarrow> timed ?ps \<Longrightarrow> times_ok [] ?s \<Longrightarrow> times_ok its0 (fold (fw_op ser) ops ?s)"
    using run_ok [OF o, of ops] assms(3) by auto
  let ?w0 = "fold (fw_op ser) ops (snd (WriteHeader ser h (fw_Open None old h)))"
  obtain its1 where 1: "writer_ok ser its1 ?ps (flush_turn ser ?w0)" "channels its1 = channels its0" "c_body (fw_flush (flush_turn ser ?w0)) = []"
    "in_order its0 ?ps ?w0 \<Longrightarrow> in_order its1 ?ps (flush_turn ser ?w0)"
    "in_order its0 ?ps ?w0 \<Longrightarrow> timed ?ps \<Longrightarrow> times_ok its0 ?w0 \<Longrightarrow> times_ok its1 (flush_turn ser ?w0)"
    using flush_ok [OF r(1) assms(3)] by metis
  let ?w1 = "swap_chunks (flush_turn ser ?w0)"
  obtain its where 2: "writer_ok ser its ?ps (flush_turn ser ?w1)" "channels its = channels its1" "c_body (fw_flush (flush_turn ser ?w1)) = []"
    "fw_active (flush_turn ser ?w1) = fw_active ?w1" "in_order its1 ?ps ?w1 \<Longrightarrow> in_order its ?ps (flush_turn ser ?w1)"
    "in_order its1 ?ps ?w1 \<Longrightarrow> timed ?ps \<Longrightarrow> times_ok its1 ?w1 \<Longrightarrow> times_ok its (flush_turn ser ?w1)"
    using flush_ok [OF swap_ok [OF 1(1)] assms(3)] by metis
  let ?w2 = "(flush_turn ser ?w1)\<lparr>fw_is_writing := False\<rparr>"
  note D = writer_okD [OF 2(1)]
  have ac: "c_body (fw_active (flush_turn ser ?w1)) = []" using 1(3) 2(4) by (simp add: swap_chunks_def)
  have all: "mset (msgs its) = mset ?ps" using D(7) 2(3) ac by simp
  let ?idx = "map (count_channel (fw_numbers ?w2)) (fw_index ?w2)"
  let ?w3 = "?w2\<lparr>fw_index := ?idx, fw_header := (fw_header ?w2)\<lparr>hd_index_position := CurrentPosition (fw_file ?w2)\<rparr>\<rparr>"
  obtain f where f: "file_has ser f (secs its @ [SIndex ?idx])"
    "WriteSection ser (SIndex ?idx) ?w3 = (True, ?w3\<lparr>fw_file := f, fw_header := (fw_header ?w3)\<lparr>hd_size := CurrentPosition f\<rparr>\<rparr>)"
    using WriteSection_appends [of ser ?w3 "secs its" "SIndex ?idx"] D(1) by auto
  let ?w4 = "?w3\<lparr>fw_file := f, fw_header := (fw_header ?w3)\<lparr>hd_size := CurrentPosition f\<rparr>\<rparr>"
  define h' where "h' = (fw_header ?w4)\<lparr>hd_is_complete := True\<rparr>"
  obtain hdr rest where b: "f_bytes f = hdr @ body_bytes ser (secs its @ [SIndex ?idx]) @ rest" "length hdr = 16 + HEADER_LENGTH" "f_room f = None"
    using f(1) by (auto simp: file_has_def)
  obtain f' where f': "f_bytes f' = header_block ser h' @ body_bytes ser (secs its @ [SIndex ?idx]) @ rest"
    "WriteHeader ser h' ?w4 = (True, ?w4\<lparr>fw_file := f', fw_header := h'\<lparr>hd_size := CurrentPosition f'\<rparr>\<rparr>)"
    using header_write [of ?w4 ser h' hdr "body_bytes ser (secs its @ [SIndex ?idx]) @ rest"] b assms(1) by auto
  have c: "written_file ser old h ops = ?w4\<lparr>fw_file := f', fw_header := h'\<lparr>hd_size := CurrentPosition f'\<rparr>\<rparr>"
    using writer_okD(2) [OF r(1)] f'(2) f(2)
    unfolding written_file_def fw_Close_def WriteIndex_def Let_def h'_def by simp
  have n: "fw_numbers (written_file ser old h ops) = fw_numbers ?w2" "fw_index ?w2 = index_from ser (16 + HEADER_LENGTH) its"
    using c D(3) by simp_all
  show thesis
  proof (rule that [of its h' rest])
    show "channels its = put_channels ops" using r(2) 1(2) 2(2) by simp
    show "mset (msgs its) = mset ?ps" by (rule all)
    assume "keeps_up ser ops ?s"
    then have "in_order its1 ?ps ?w1" using r(3) 1(3,4) by (simp add: in_order_def swap_chunks_def)
    then show "msgs its = ?ps" using 2(3,5) ac by (simp add: in_order_def)
  next
    show "f_bytes (fw_file (written_file ser old h ops)) =
       header_block ser h' @ body_bytes ser (secs its @ [SIndex (map (count_channel (fw_numbers (written_file ser old h ops))) (index_from ser (16 + HEADER_LENGTH) its))]) @ rest"
      unfolding n(1) n(2) [symmetric] using c f'(1) by simp
    show "hd_is_complete h'" by (simp add: h'_def)
    have "length (msgs its) = length ?ps" using all by (metis size_mset)
    then show "hd_message_number h' = of_nat (length ?ps)" using D(4) by (simp add: h'_def)
    show "hd_index_position h' = of_nat (16 + HEADER_LENGTH + length (body_bytes ser (secs its)))"
      using position_ok [OF D(1)] by (simp add: h'_def)
    show "fw_numbers (written_file ser old h ops) =
       (\<lambda>c. if channel_count c ?ps = 0 then None else Some (of_nat (channel_count c ?ps)))"
      unfolding n(1) using D(8) by simp
    assume a: "keeps_up ser ops ?s" "timed ?ps" "hd_begin_time h = 0" "hd_end_time h = 0"
    have ord: "in_order its1 ?ps ?w1" using r(3) [OF a(1)] 1(3,4) by (simp add: in_order_def swap_chunks_def)
    have "times_ok its (flush_turn ser ?w1)"
      using 2(6) [OF ord a(2)] swap_times 1(5) [OF r(3) [OF a(1)] a(2)] r(4) [OF a(1,2)] open_times [where ser = ser and h = h and old = old, OF assms(1) a(3,4)] by blast
    then show "items_covered its \<and> header_covers h' (msgs its)" by (simp add: times_ok_def header_covers_def h'_def)
  qed
qed

end
