(* ===== verification/Record_Reader.thy ===== *)
theory Record_Reader
  imports Record_File
begin

text \<open>
  \<^verbatim>\<open>RecordReader\<close> (\<^verbatim>\<open>cyber/record/record_reader.cc\<close>) on top of \<open>Record_File\<close>, and what it gives back of a file that
  \<^verbatim>\<open>RecordFileWriter\<close> wrote.  Reading may not end on a damaged file (a negative section size moves it backwards), so
  \<^verbatim>\<open>ReadNextChunk\<close> and \<^verbatim>\<open>ReadMessage\<close> are partial functions: \<open>None\<close> means that they do not return.
\<close>

section \<open>The reader\<close>

record record_reader =
  rr_is_valid :: bool
  rr_reach_end :: bool
  rr_chunk :: "single_message list"
  rr_index :: "single_index list"
  rr_message_index :: nat
  rr_channel_info :: "string \<rightharpoonup> index_cache"
  rr_file_reader :: file_reader
  rr_header :: rec_header

fun add_channel_info :: "single_index \<Rightarrow> (string \<rightharpoonup> index_cache) \<Rightarrow> (string \<rightharpoonup> index_cache)" where
  "add_channel_info i info =
     (if si_type i \<noteq> SECTION_CHANNEL then info
      else case si_cache i of
             ChannelCache n name ty desc \<Rightarrow> if info name = None then info(name \<mapsto> si_cache i) else info
           | _ \<Rightarrow> info)"

definition RecordReader :: "serializer \<Rightarrow> parser \<Rightarrow> u8 list option \<Rightarrow> rec_header \<Rightarrow> record_reader" where
  "RecordReader ser parse content h0 =
     (case fr_Open ser parse content h0 of
        (False, fr) \<Rightarrow> \<lparr>rr_is_valid = False, rr_reach_end = False, rr_chunk = [], rr_index = [], rr_message_index = 0,
                        rr_channel_info = Map.empty, rr_file_reader = fr, rr_header = h0\<rparr>
      | (True, fr) \<Rightarrow>
          (case ReadIndex ser parse fr of
             (ok, fr') \<Rightarrow>
               let idx = (if ok then fr_index fr' else [])
               in \<lparr>rr_is_valid = True, rr_reach_end = False, rr_chunk = [], rr_index = idx, rr_message_index = 0,
                   rr_channel_info = fold add_channel_info idx Map.empty, rr_file_reader = snd (fr_Reset fr'), rr_header = fr_header fr\<rparr>))"

definition rr_Reset :: "record_reader \<Rightarrow> record_reader" where
  "rr_Reset r = r\<lparr>rr_file_reader := snd (fr_Reset (rr_file_reader r)), rr_reach_end := False, rr_message_index := 0, rr_chunk := []\<rparr>"

definition GetChannelList :: "record_reader \<Rightarrow> string set" where "GetChannelList r = dom (rr_channel_info r)"

definition GetMessageNumber :: "string \<Rightarrow> record_reader \<Rightarrow> u64" where
  "GetMessageNumber c r = (case rr_channel_info r c of Some (ChannelCache n _ _ _) \<Rightarrow> n | _ \<Rightarrow> 0)"

definition GetMessageType :: "string \<Rightarrow> record_reader \<Rightarrow> string" where
  "GetMessageType c r = (case rr_channel_info r c of Some (ChannelCache _ _ ty _) \<Rightarrow> ty | _ \<Rightarrow> [])"

definition GetProtoDesc :: "string \<Rightarrow> record_reader \<Rightarrow> u8 list" where
  "GetProtoDesc c r = (case rr_channel_info r c of Some (ChannelCache _ _ _ desc) \<Rightarrow> desc | _ \<Rightarrow> [])"

text \<open>One turn of the loop of \<^verbatim>\<open>ReadNextChunk\<close>: go on with the skip flag, or return.\<close>

definition next_section ::
  "serializer \<Rightarrow> parser \<Rightarrow> u64 \<Rightarrow> u64 \<Rightarrow> bool \<Rightarrow> record_reader \<Rightarrow> (bool + bool) \<times> record_reader" where
  "next_section ser parse bt et skip r =
     (case ReadSection (rr_file_reader r) of
        (None, fr) \<Rightarrow> (Inr False, r\<lparr>rr_file_reader := fr\<rparr>)
      | (Some (t, sz), fr) \<Rightarrow>
          if t = section_code SECTION_INDEX
          then (Inl skip, r\<lparr>rr_file_reader := snd (SkipSection sz fr), rr_reach_end := True\<rparr>)
          else if t = section_code SECTION_CHANNEL
          then case ReadSection_msg ser parse SECTION_CHANNEL sz fr of
                 (None, fr) \<Rightarrow> (Inr False, r\<lparr>rr_file_reader := fr\<rparr>)
               | (Some _, fr) \<Rightarrow> (Inl skip, r\<lparr>rr_file_reader := fr\<rparr>)
          else if t = section_code SECTION_CHUNK_HEADER
          then case ReadSection_msg ser parse SECTION_CHUNK_HEADER sz fr of
                 (Some (SChunkHeader ck), fr) \<Rightarrow>
                   if ck_begin_time ck > et then (Inr False, r\<lparr>rr_file_reader := fr\<rparr>)
                   else (Inl (skip \<or> ck_end_time ck < bt), r\<lparr>rr_file_reader := fr\<rparr>)
               | (_, fr) \<Rightarrow> (Inr False, r\<lparr>rr_file_reader := fr\<rparr>)
          else if t = section_code SECTION_CHUNK_BODY
          then if skip then (Inl False, r\<lparr>rr_file_reader := snd (SkipSection sz fr)\<rparr>)
               else case ReadSection_msg ser parse SECTION_CHUNK_BODY sz fr of
                      (Some (SChunkBody ms), fr) \<Rightarrow> (Inr True, r\<lparr>rr_file_reader := fr, rr_chunk := ms\<rparr>)
                    | (_, fr) \<Rightarrow> (Inr False, r\<lparr>rr_file_reader := fr, rr_chunk := []\<rparr>)
          else (Inr False, r\<lparr>rr_file_reader := fr\<rparr>))"

partial_function (option) ReadNextChunk ::
  "serializer \<Rightarrow> parser \<Rightarrow> u64 \<Rightarrow> u64 \<Rightarrow> bool \<Rightarrow> record_reader \<Rightarrow> (bool \<times> record_reader) option" where
  "ReadNextChunk ser parse bt et skip r =
     (if rr_reach_end r then Some (False, r)
      else case next_section ser parse bt et skip r of
             (Inl skip', r') \<Rightarrow> ReadNextChunk ser parse bt et skip' r'
           | (Inr found, r') \<Rightarrow> Some (found, r'))"

text \<open>The loop over the messages of the chunk: the next index and the message, if one is given back.\<close>

function scan_chunk :: "u64 \<Rightarrow> u64 \<Rightarrow> single_message list \<Rightarrow> nat \<Rightarrow> nat \<times> (single_message option) option" where
  "scan_chunk bt et ms i =
     (if i < length ms
      then if sm_time (ms ! i) > et then (i, Some None)
           else if sm_time (ms ! i) < bt then scan_chunk bt et ms (i + 1)
           else (i + 1, Some (Some (ms ! i)))
      else (i, None))"
  by pat_completeness auto
termination by (relation "measure (\<lambda>(bt, et, ms, i). length ms - i)") auto

declare scan_chunk.simps [simp del]

partial_function (option) ReadMessage ::
  "serializer \<Rightarrow> parser \<Rightarrow> u64 \<Rightarrow> u64 \<Rightarrow> record_reader \<Rightarrow> (single_message option \<times> record_reader) option" where
  "ReadMessage ser parse bt et r =
     (if \<not> rr_is_valid r then Some (None, r)
      else if bt > hd_end_time (rr_header r) \<or> et < hd_begin_time (rr_header r) then Some (None, r)
      else case scan_chunk bt et (rr_chunk r) (rr_message_index r) of
             (i, Some res) \<Rightarrow> Some (res, r\<lparr>rr_message_index := i\<rparr>)
           | (i, None) \<Rightarrow>
               (case ReadNextChunk ser parse bt et False (r\<lparr>rr_message_index := i\<rparr>) of
                  None \<Rightarrow> None
                | Some (found, r') \<Rightarrow>
                    if found then ReadMessage ser parse bt et (r'\<lparr>rr_message_index := 0\<rparr>) else Some (None, r')))"

end
