(* ===== verification/Plain_Codec.thy ===== *)
theory Plain_Codec
  imports Record_File
begin

text \<open>
  A plain serialisation of the messages of record files, to show that what \<open>Record_Roundtrip\<close> relies on of protobuf can be
  fulfilled: fields one after the other, numbers with fixed width, and a marker byte before each list element.
\<close>

type_synonym 'a enc = "'a \<Rightarrow> u8 list"
type_synonym 'a dec = "u8 list \<Rightarrow> ('a \<times> u8 list) option"

definition prefix_codec :: "'a enc \<Rightarrow> 'a dec \<Rightarrow> bool" where
  "prefix_codec e d \<longleftrightarrow> (\<forall>x rest. d (e x @ rest) = Some (x, rest))"

named_theorems codecs

definition dec_u64 :: "u64 dec" where "dec_u64 bs = (if length bs < 8 then None else Some (u64_of_bytes (take 8 bs), drop 8 bs))"
definition dec_u32 :: "u32 dec" where "dec_u32 bs = (if length bs < 4 then None else Some (u32_of_bytes (take 4 bs), drop 4 bs))"
definition dec_byte :: "u8 dec" where "dec_byte bs = (case bs of [] \<Rightarrow> None | b # r \<Rightarrow> Some (b, r))"

definition enc_via :: "('a \<Rightarrow> 'b) \<Rightarrow> 'b enc \<Rightarrow> 'a enc" where "enc_via f e x = e (f x)"
definition dec_via :: "('b \<Rightarrow> 'a) \<Rightarrow> 'b dec \<Rightarrow> 'a dec" where "dec_via g d bs = map_option (\<lambda>(x, r). (g x, r)) (d bs)"

definition enc_pair :: "'a enc \<Rightarrow> 'b enc \<Rightarrow> ('a \<times> 'b) enc" where "enc_pair e1 e2 p = e1 (fst p) @ e2 (snd p)"
definition dec_pair :: "'a dec \<Rightarrow> 'b dec \<Rightarrow> ('a \<times> 'b) dec" where
  "dec_pair d1 d2 bs = (case d1 bs of None \<Rightarrow> None | Some (a, r) \<Rightarrow> (case d2 r of None \<Rightarrow> None | Some (b, r') \<Rightarrow> Some ((a, b), r')))"

fun enc_list :: "'a enc \<Rightarrow> 'a list enc" where
  "enc_list e [] = [0]"
| "enc_list e (x # xs) = 1 # e x @ enc_list e xs"

fun dec_many :: "'a dec \<Rightarrow> nat \<Rightarrow> 'a list dec" where
  "dec_many d 0 bs = None"
| "dec_many d (Suc n) bs =
     (case bs of
        [] \<Rightarrow> None
      | b # r \<Rightarrow> if b = 0 then Some ([], r)
                else case d r of None \<Rightarrow> None | Some (x, r') \<Rightarrow> map_option (\<lambda>(xs, r''). (x # xs, r'')) (dec_many d n r'))"

definition dec_list :: "'a dec \<Rightarrow> 'a list dec" where "dec_list d bs = dec_many d (length bs) bs"

lemma codec_u64 [codecs]: "prefix_codec u64_bytes dec_u64" by (simp add: prefix_codec_def dec_u64_def)
lemma codec_u32 [codecs]: "prefix_codec u32_bytes dec_u32" by (simp add: prefix_codec_def dec_u32_def)
lemma codec_byte [codecs]: "prefix_codec (\<lambda>b. [b]) dec_byte" by (simp add: prefix_codec_def dec_byte_def)

lemma codec_via: "prefix_codec e d \<Longrightarrow> (\<And>x. g (f x) = x) \<Longrightarrow> prefix_codec (enc_via f e) (dec_via g d)"
  by (simp add: prefix_codec_def enc_via_def dec_via_def)

lemma codec_pair [codecs]: "prefix_codec e1 d1 \<Longrightarrow> prefix_codec e2 d2 \<Longrightarrow> prefix_codec (enc_pair e1 e2) (dec_pair d1 d2)"
  by (simp add: prefix_codec_def enc_pair_def dec_pair_def)

lemma dec_many_list: "prefix_codec e d \<Longrightarrow> length xs < n \<Longrightarrow> dec_many d n (enc_list e xs @ rest) = Some (xs, rest)"
proof (induction xs arbitrary: n)
  case Nil
  then show ?case by (cases n) auto
next
  case (Cons x xs)
  then show ?case by (cases n) (auto simp: prefix_codec_def)
qed

lemma length_enc_list: "length xs < length (enc_list e xs)"
  by (induction xs) auto

lemma codec_list [codecs]: "prefix_codec e d \<Longrightarrow> prefix_codec (enc_list e) (dec_list d)"
proof -
  assume c: "prefix_codec e d"
  have "length xs < length (enc_list e xs @ rest)" for xs rest using length_enc_list [of xs e] by simp
  then show ?thesis using dec_many_list [OF c] by (simp add: prefix_codec_def dec_list_def)
qed

section \<open>The messages\<close>

definition enc_string :: "string enc" where "enc_string = enc_list (enc_via (\<lambda>c. of_nat (of_char c)) (\<lambda>b. [b]))"
definition dec_string :: "string dec" where "dec_string = dec_list (dec_via (\<lambda>b. char_of (unat b)) dec_byte)"

lemma codec_string [codecs]: "prefix_codec enc_string dec_string"
proof -
  have "char_of (unat (of_nat (of_char c) :: u8)) = c" for c :: char
  proof -
    have "(of_char c :: nat) < 256" by (metis mod_less_divisor of_char_mod_256 zero_less_numeral)
    then have "unat (of_nat (of_char c) :: u8) = of_char c" by (simp add: unat_of_nat)
    then show ?thesis by simp
  qed
  then show ?thesis unfolding enc_string_def dec_string_def by (intro codec_list codec_via codec_byte)
qed

abbreviation enc_bytes :: "u8 list enc" where "enc_bytes \<equiv> enc_list (\<lambda>b. [b])"
abbreviation dec_bytes :: "u8 list dec" where "dec_bytes \<equiv> dec_list dec_byte"

definition enc_message :: "single_message enc" where
  "enc_message = enc_via (\<lambda>m. (sm_channel_name m, sm_time m, sm_content m)) (enc_pair enc_string (enc_pair u64_bytes enc_bytes))"
definition dec_message :: "single_message dec" where
  "dec_message = dec_via (\<lambda>(n, t, c). \<lparr>sm_channel_name = n, sm_time = t, sm_content = c\<rparr>) (dec_pair dec_string (dec_pair dec_u64 dec_bytes))"

definition enc_channel :: "channel_desc enc" where
  "enc_channel = enc_via (\<lambda>c. (ch_name c, ch_message_type c, ch_proto_desc c)) (enc_pair enc_string (enc_pair enc_string enc_bytes))"
definition dec_channel :: "channel_desc dec" where
  "dec_channel = dec_via (\<lambda>(n, t, d). \<lparr>ch_name = n, ch_message_type = t, ch_proto_desc = d\<rparr>) (dec_pair dec_string (dec_pair dec_string dec_bytes))"

abbreviation enc_u64s :: "(u64 \<times> u64 \<times> u64 \<times> u64) enc" where
  "enc_u64s \<equiv> enc_pair u64_bytes (enc_pair u64_bytes (enc_pair u64_bytes u64_bytes))"
abbreviation dec_u64s :: "(u64 \<times> u64 \<times> u64 \<times> u64) dec" where
  "dec_u64s \<equiv> dec_pair dec_u64 (dec_pair dec_u64 (dec_pair dec_u64 dec_u64))"

definition enc_chunk_header :: "chunk_header enc" where
  "enc_chunk_header = enc_via (\<lambda>c. (ck_begin_time c, ck_end_time c, ck_message_number c, ck_raw_size c)) enc_u64s"
definition dec_chunk_header :: "chunk_header dec" where
  "dec_chunk_header = dec_via (\<lambda>(b, e, n, s). \<lparr>ck_begin_time = b, ck_end_time = e, ck_message_number = n, ck_raw_size = s\<rparr>) dec_u64s"

lemma codec_messages [codecs]: "prefix_codec enc_message dec_message" "prefix_codec enc_channel dec_channel" "prefix_codec enc_chunk_header dec_chunk_header"
  unfolding enc_message_def dec_message_def enc_channel_def dec_channel_def enc_chunk_header_def dec_chunk_header_def
  by (intro codec_via codecs; simp)+

fun type_byte :: "section_type \<Rightarrow> u8" where
  "type_byte SECTION_HEADER = 0" | "type_byte SECTION_CHUNK_HEADER = 1" | "type_byte SECTION_CHUNK_BODY = 2"
| "type_byte SECTION_INDEX = 3" | "type_byte SECTION_CHANNEL = 4"

definition byte_type :: "u8 \<Rightarrow> section_type" where
  "byte_type b = (if b = 0 then SECTION_HEADER else if b = 1 then SECTION_CHUNK_HEADER else if b = 2 then SECTION_CHUNK_BODY
     else if b = 3 then SECTION_INDEX else SECTION_CHANNEL)"

fun compress_byte :: "compress_type \<Rightarrow> u8" where
  "compress_byte COMPRESS_NONE = 0" | "compress_byte COMPRESS_BZ2 = 1" | "compress_byte COMPRESS_LZ4 = 2"

definition byte_compress :: "u8 \<Rightarrow> compress_type" where
  "byte_compress b = (if b = 0 then COMPRESS_NONE else if b = 1 then COMPRESS_BZ2 else COMPRESS_LZ4)"

fun enc_cache :: "index_cache enc" where
  "enc_cache (ChannelCache n a b c) = 0 # enc_pair u64_bytes (enc_pair enc_string (enc_pair enc_string enc_bytes)) (n, a, b, c)"
| "enc_cache (ChunkHeaderCache a b c d) = 1 # enc_u64s (a, b, c, d)"
| "enc_cache (ChunkBodyCache n) = 2 # u64_bytes n"

definition dec_cache :: "index_cache dec" where
  "dec_cache bs =
     (case bs of
        [] \<Rightarrow> None
      | t # r \<Rightarrow>
          if t = 0 then dec_via (\<lambda>(n, a, b, c). ChannelCache n a b c) (dec_pair dec_u64 (dec_pair dec_string (dec_pair dec_string dec_bytes))) r
          else if t = 1 then dec_via (\<lambda>(a, b, c, d). ChunkHeaderCache a b c d) dec_u64s r
          else dec_via ChunkBodyCache dec_u64 r)"

lemma prefix_codecD: "prefix_codec e d \<Longrightarrow> d (e x @ rest) = Some (x, rest)" by (simp add: prefix_codec_def)

lemma codec_cache [codecs]: "prefix_codec enc_cache dec_cache"
proof -
  have c: "prefix_codec (enc_pair u64_bytes (enc_pair enc_string (enc_pair enc_string enc_bytes)))
      (dec_pair dec_u64 (dec_pair dec_string (dec_pair dec_string dec_bytes)))" "prefix_codec enc_u64s dec_u64s" by (intro codecs)+
  have "dec_cache (enc_cache x @ rest) = Some (x, rest)" for x rest
    by (cases x) (simp_all add: dec_cache_def dec_via_def prefix_codecD [OF c(1)] prefix_codecD [OF c(2)] prefix_codecD [OF codec_u64])
  then show ?thesis by (simp add: prefix_codec_def)
qed

definition enc_index :: "single_index enc" where
  "enc_index = enc_via (\<lambda>i. (type_byte (si_type i), si_position i, si_cache i)) (enc_pair (\<lambda>b. [b]) (enc_pair u64_bytes enc_cache))"
definition dec_index :: "single_index dec" where
  "dec_index = dec_via (\<lambda>(t, p, c). \<lparr>si_type = byte_type t, si_position = p, si_cache = c\<rparr>) (dec_pair dec_byte (dec_pair dec_u64 dec_cache))"

lemma codec_index [codecs]: "prefix_codec enc_index dec_index"
proof -
  have "byte_type (type_byte t) = t" for t by (cases t) (simp_all add: byte_type_def)
  then show ?thesis unfolding enc_index_def dec_index_def by (intro codec_via codecs) simp
qed

definition enc_header :: "rec_header enc" where
  "enc_header = enc_via (\<lambda>h. ((hd_major_version h, hd_minor_version h, compress_byte (hd_compress h), if hd_is_complete h then 1 else 0),
       (hd_chunk_interval h, hd_segment_interval h, hd_index_position h, hd_chunk_number h),
       (hd_channel_number h, hd_begin_time h, hd_end_time h, hd_message_number h), hd_size h, hd_chunk_raw_size h, hd_segment_raw_size h))
     (enc_pair (enc_pair u32_bytes (enc_pair u32_bytes (enc_pair (\<lambda>b. [b]) (\<lambda>b. [b])))) (enc_pair enc_u64s (enc_pair enc_u64s (enc_pair u64_bytes (enc_pair u64_bytes u64_bytes)))))"

definition dec_header :: "rec_header dec" where
  "dec_header = dec_via (\<lambda>((ma, mi, c, f), (ci, si, ip, cn), (chn, bt, et, mn), sz, cr, sr).
       \<lparr>hd_major_version = ma, hd_minor_version = mi, hd_compress = byte_compress c, hd_chunk_interval = ci, hd_segment_interval = si,
        hd_index_position = ip, hd_chunk_number = cn, hd_channel_number = chn, hd_begin_time = bt, hd_end_time = et, hd_message_number = mn,
        hd_size = sz, hd_is_complete = (f = 1), hd_chunk_raw_size = cr, hd_segment_raw_size = sr\<rparr>)
     (dec_pair (dec_pair dec_u32 (dec_pair dec_u32 (dec_pair dec_byte dec_byte))) (dec_pair dec_u64s (dec_pair dec_u64s (dec_pair dec_u64 (dec_pair dec_u64 dec_u64)))))"

lemma codec_header [codecs]: "prefix_codec enc_header dec_header"
proof -
  have "byte_compress (compress_byte t) = t" for t by (cases t) (simp_all add: byte_compress_def)
  then show ?thesis unfolding enc_header_def dec_header_def by (intro codec_via codecs) simp
qed

lemma length_enc_header: "length (enc_header h) = 98"
  by (simp add: enc_header_def enc_via_def enc_pair_def)

fun plain_ser :: serializer where
  "plain_ser (SHeader h) = enc_header h"
| "plain_ser (SChunkHeader c) = enc_chunk_header c"
| "plain_ser (SChunkBody ms) = enc_list enc_message ms"
| "plain_ser (SIndex idx) = enc_list enc_index idx"
| "plain_ser (SChannel c) = enc_channel c"

fun plain_dec :: "section_type \<Rightarrow> section_msg dec" where
  "plain_dec SECTION_HEADER = dec_via SHeader dec_header"
| "plain_dec SECTION_CHUNK_HEADER = dec_via SChunkHeader dec_chunk_header"
| "plain_dec SECTION_CHUNK_BODY = dec_via SChunkBody (dec_list dec_message)"
| "plain_dec SECTION_INDEX = dec_via SIndex (dec_list dec_index)"
| "plain_dec SECTION_CHANNEL = dec_via SChannel dec_channel"

definition plain_parse :: parser where
  "plain_parse t n bs =
     (let xs = take (nat n) bs
      in (case plain_dec t xs of None \<Rightarrow> Inl (length bs < nat n) | Some (m, r) \<Rightarrow> Inr (m, r = []), length xs))"

lemma plain_dec_ser: "plain_dec (section_of m) (plain_ser m) = Some (m, [])"
proof -
  note c = prefix_codecD [where rest = "[]", simplified]
  show ?thesis
    by (cases m) (simp_all add: dec_via_def c [OF codec_header] c [OF codec_messages(3)] c [OF codec_messages(2)]
        c [OF codec_list [OF codec_messages(1)]] c [OF codec_list [OF codec_index]])
qed

lemma plain_parse_ser: "plain_parse (section_of m) (int (length (plain_ser m))) (plain_ser m @ rest) = (Inr (m, True), length (plain_ser m))"
  by (simp add: plain_parse_def plain_dec_ser)

end
