(* ===== verification/Record_Roundtrip.thy ===== *)
theory Record_Roundtrip
  imports Record_Contents Record_Reader Plain_Codec
begin

text \<open>
  Reading back what was written: \<open>Record_Reader\<close> on a file whose contents \<open>Record_Contents\<close> describes.  \<open>protobuf_ok\<close>
  is what is relied on of protobuf: parsing the bytes of a message with its size as the limit gives the
  message back and reads just these bytes.
\<close>

definition protobuf_ok :: "serializer \<Rightarrow> parser \<Rightarrow> bool" where
  "protobuf_ok ser parse \<longleftrightarrow>
     (\<forall>m rest. parse (section_of m) (int (length (ser m))) (ser m @ rest) = (Inr (m, True), length (ser m))) \<and>
     (\<forall>h. length (ser (SHeader h)) \<le> HEADER_LENGTH)"

section \<open>Reading one section\<close>

definition fr_at :: "file_reader \<Rightarrow> u8 list \<Rightarrow> u8 list \<Rightarrow> bool" where
  "fr_at r pre post \<longleftrightarrow> f_bytes (fr_file r) = pre @ post \<and> f_pos (fr_file r) = length pre"

lemma sint_of_nat_small: "n < 2 ^ 31 \<Longrightarrow> sint (of_nat n :: u64) = int n"
proof -
  assume n: "n < 2 ^ 31"
  have "sint (of_nat n :: u64) = signed_take_bit 63 (int n)" by (simp add: signed_of_nat)
  also have "\<dots> = int n" using n by (intro signed_take_bit_int_eq_self) auto
  finally show ?thesis .
qed

lemma ReadSection_at:
  assumes "fr_at r pre (sec_bytes ser m @ post)" "length (ser m) < 2 ^ 31"
  obtains r' where "ReadSection r = (Some (section_code (section_of m), int (length (ser m))), r')"
    "fr_at r' (pre @ section_bytes (section_of m) (length (ser m))) (ser m @ post)"
    "fr_header r' = fr_header r" "fr_index r' = fr_index r"
proof -
  let ?s = "section_bytes (section_of m) (length (ser m))"
  let ?f = "(fr_file r)\<lparr>f_pos := f_pos (fr_file r) + 16\<rparr>"
  have rd: "fd_read 16 (fr_file r) = (?s, ?f)" using assms(1) by (simp add: fd_read_def fr_at_def sec_bytes_def)
  have "take 4 ?s = u32_bytes (section_code (section_of m))" "drop 8 ?s = u64_bytes (of_nat (length (ser m)))"
    by (simp_all add: section_bytes_def)
  moreover have "?s \<noteq> []" by (simp add: section_bytes_def)
  ultimately have "ReadSection r = (Some (section_code (section_of m), int (length (ser m))), r\<lparr>fr_file := ?f\<rparr>)"
    by (simp add: ReadSection_def rd sint_of_nat_small [OF assms(2)])
  moreover have "fr_at (r\<lparr>fr_file := ?f\<rparr>) (pre @ ?s) (ser m @ post)" using assms(1) by (simp add: fr_at_def sec_bytes_def)
  ultimately show thesis using that by simp
qed

lemma ReadSection_msg_at:
  assumes "protobuf_ok ser parse" "fr_at r pre (ser m @ post)" "length (ser m) < 2 ^ 31"
  obtains r' where "ReadSection_msg ser parse (section_of m) (int (length (ser m))) r = (Some m, r')" "fr_at r' (pre @ ser m) post"
    "fr_header r' = fr_header r" "fr_index r' = fr_index r"
proof -
  let ?f = "(fr_file r)\<lparr>f_pos := f_pos (fr_file r) + length (ser m)\<rparr>"
  have "parse (section_of m) (int (length (ser m))) (drop (f_pos (fr_file r)) (f_bytes (fr_file r))) = (Inr (m, True), length (ser m))"
    using assms(1,2) by (simp add: protobuf_ok_def fr_at_def)
  then have "ReadSection_msg ser parse (section_of m) (int (length (ser m))) r = (Some m, r\<lparr>fr_file := ?f\<rparr>)"
    using assms(3) by (simp add: ReadSection_msg_def Let_def)
  moreover have "fr_at (r\<lparr>fr_file := ?f\<rparr>) (pre @ ser m) post" using assms(2) by (simp add: fr_at_def)
  ultimately show thesis using that by simp
qed

lemma SkipSection_at:
  assumes "fr_at r pre (xs @ post)" "length (pre @ xs) < 2 ^ 31"
  obtains r' where "SkipSection (int (length xs)) r = (True, r')" "fr_at r' (pre @ xs) post"
  using that [of "r\<lparr>fr_file := (fr_file r)\<lparr>f_pos := length (pre @ xs)\<rparr>\<rparr>"] assms
  by (simp add: SkipSection_def fr_SetPosition_def SetPosition_def fr_at_def Let_def nat_int_add)

section \<open>Reading on\<close>

text \<open>The reader stands before the items \<open>its\<close> and the index, and all sizes are in range.\<close>

definition rr_at :: "serializer \<Rightarrow> record_reader \<Rightarrow> item list \<Rightarrow> single_index list \<Rightarrow> bool" where
  "rr_at ser r its idx \<longleftrightarrow> rr_is_valid r \<and> \<not> rr_reach_end r \<and>
     (\<exists>pre rest. fr_at (rr_file_reader r) pre (body_bytes ser (secs its @ [SIndex idx]) @ rest) \<and>
        length pre + length (body_bytes ser (secs its @ [SIndex idx])) < 2 ^ 31)"

definition whole :: u64 where "whole = -1"

lemma whole_bounds [simp]: "\<not> whole < x" "\<not> x < (0 :: u64)" by (simp_all add: whole_def not_less)

lemma next_section_channel:
  assumes "protobuf_ok ser parse" "rr_at ser r (Chan c # its) idx"
  obtains r' where "next_section ser parse 0 whole skip r = (Inl skip, r')" "rr_at ser r' its idx"
    "rr_chunk r' = rr_chunk r" "rr_message_index r' = rr_message_index r"
proof -
  let ?B = "body_bytes ser (secs its @ [SIndex idx])"
  obtain pre rest where a: "fr_at (rr_file_reader r) pre (sec_bytes ser (SChannel c) @ ?B @ rest)"
    "length pre + length (sec_bytes ser (SChannel c)) + length ?B < 2 ^ 31"
    using assms(2) by (auto simp: rr_at_def secs_def)
  then have n: "length (ser (SChannel c)) < 2 ^ 31" by (simp add: sec_bytes_def)
  obtain f1 where f1: "ReadSection (rr_file_reader r) = (Some (section_code SECTION_CHANNEL, int (length (ser (SChannel c)))), f1)"
    "fr_at f1 (pre @ section_bytes SECTION_CHANNEL (length (ser (SChannel c)))) (ser (SChannel c) @ ?B @ rest)"
    using ReadSection_at [OF a(1) n] by auto
  obtain f2 where f2: "ReadSection_msg ser parse SECTION_CHANNEL (int (length (ser (SChannel c)))) f1 = (Some (SChannel c), f2)"
    "fr_at f2 ((pre @ section_bytes SECTION_CHANNEL (length (ser (SChannel c)))) @ ser (SChannel c)) (?B @ rest)"
    using ReadSection_msg_at [OF assms(1) f1(2) n] by auto
  have "next_section ser parse 0 whole skip r = (Inl skip, r\<lparr>rr_file_reader := f2\<rparr>)"
    by (simp add: next_section_def f1(1) f2(1))
  moreover have "length ((pre @ section_bytes SECTION_CHANNEL (length (ser (SChannel c)))) @ ser (SChannel c)) + length ?B < 2 ^ 31"
    using a(2) by (simp add: sec_bytes_def)
  then have "rr_at ser (r\<lparr>rr_file_reader := f2\<rparr>) its idx" using f2(2) assms(2) unfolding rr_at_def by auto
  ultimately show thesis using that by simp
qed

lemma next_section_chunk:
  assumes "protobuf_ok ser parse" "rr_at ser r (Chnk ck ms # its) idx"
  obtains r1 r2 where "next_section ser parse 0 whole False r = (Inl False, r1)" "\<not> rr_reach_end r1"
    "next_section ser parse 0 whole False r1 = (Inr True, r2)" "rr_at ser r2 its idx" "rr_chunk r2 = ms"
proof -
  let ?B = "body_bytes ser (secs its @ [SIndex idx])" let ?h = "SChunkHeader ck" let ?b = "SChunkBody ms"
  obtain pre rest where a: "fr_at (rr_file_reader r) pre (sec_bytes ser ?h @ sec_bytes ser ?b @ ?B @ rest)"
    "length pre + length (sec_bytes ser ?h) + length (sec_bytes ser ?b) + length ?B < 2 ^ 31"
    using assms(2) by (auto simp: rr_at_def secs_def add.assoc)
  then have n: "length (ser ?h) < 2 ^ 31" "length (ser ?b) < 2 ^ 31" by (simp_all add: sec_bytes_def)
  let ?p1 = "(pre @ section_bytes SECTION_CHUNK_HEADER (length (ser ?h))) @ ser ?h"
  let ?p2 = "(?p1 @ section_bytes SECTION_CHUNK_BODY (length (ser ?b))) @ ser ?b"
  obtain f1 where f1: "ReadSection (rr_file_reader r) = (Some (section_code SECTION_CHUNK_HEADER, int (length (ser ?h))), f1)"
    "fr_at f1 (pre @ section_bytes SECTION_CHUNK_HEADER (length (ser ?h))) (ser ?h @ sec_bytes ser ?b @ ?B @ rest)"
    using ReadSection_at [OF a(1) n(1)] by auto
  obtain f2 where f2: "ReadSection_msg ser parse SECTION_CHUNK_HEADER (int (length (ser ?h))) f1 = (Some ?h, f2)"
    "fr_at f2 ?p1 (sec_bytes ser ?b @ ?B @ rest)"
    using ReadSection_msg_at [OF assms(1) f1(2) n(1)] by auto
  obtain f3 where f3: "ReadSection f2 = (Some (section_code SECTION_CHUNK_BODY, int (length (ser ?b))), f3)"
    "fr_at f3 (?p1 @ section_bytes SECTION_CHUNK_BODY (length (ser ?b))) (ser ?b @ ?B @ rest)"
    using ReadSection_at [OF f2(2) n(2)] by auto
  obtain f4 where f4: "ReadSection_msg ser parse SECTION_CHUNK_BODY (int (length (ser ?b))) f3 = (Some ?b, f4)"
    "fr_at f4 ?p2 (?B @ rest)"
    using ReadSection_msg_at [OF assms(1) f3(2) n(2)] by auto
  let ?r1 = "r\<lparr>rr_file_reader := f2\<rparr>" let ?r2 = "?r1\<lparr>rr_file_reader := f4, rr_chunk := ms\<rparr>"
  have "next_section ser parse 0 whole False r = (Inl False, ?r1)" by (simp add: next_section_def f1(1) f2(1))
  moreover have "next_section ser parse 0 whole False ?r1 = (Inr True, ?r2)" by (simp add: next_section_def f3(1) f4(1))
  moreover have "length ?p2 + length ?B < 2 ^ 31" using a(2) by (simp add: sec_bytes_def)
  then have "rr_at ser ?r2 its idx" using f4(2) assms(2) unfolding rr_at_def by auto
  ultimately show thesis using that [of ?r1 ?r2] assms(2) by (simp add: rr_at_def)
qed

lemma next_section_index:
  assumes "rr_at ser r [] idx"
  obtains r' where "next_section ser parse 0 whole skip r = (Inl skip, r')" "rr_reach_end r'"
proof -
  obtain pre rest where a: "fr_at (rr_file_reader r) pre (sec_bytes ser (SIndex idx) @ rest)" "length (sec_bytes ser (SIndex idx)) < 2 ^ 31"
    using assms by (auto simp: rr_at_def secs_def)
  then have n: "length (ser (SIndex idx)) < 2 ^ 31" by (simp add: sec_bytes_def)
  obtain f where "ReadSection (rr_file_reader r) = (Some (section_code SECTION_INDEX, int (length (ser (SIndex idx)))), f)"
    using ReadSection_at [OF a(1) n] by auto
  then have "next_section ser parse 0 whole skip r = (Inl skip, r\<lparr>rr_file_reader := snd (SkipSection (int (length (ser (SIndex idx)))) f), rr_reach_end := True\<rparr>)"
    by (simp add: next_section_def)
  then show thesis using that by simp
qed

lemma ReadNextChunk_step:
  "rr_reach_end r \<Longrightarrow> ReadNextChunk ser parse bt et skip r = Some (False, r)"
  "\<not> rr_reach_end r \<Longrightarrow> next_section ser parse bt et skip r = (Inl skip', r') \<Longrightarrow>
   ReadNextChunk ser parse bt et skip r = ReadNextChunk ser parse bt et skip' r'"
  "\<not> rr_reach_end r \<Longrightarrow> next_section ser parse bt et skip r = (Inr found, r') \<Longrightarrow>
   ReadNextChunk ser parse bt et skip r = Some (found, r')"
  by (subst ReadNextChunk.simps, simp)+

text \<open>Either the next chunk is found, or there is none and the end is reached.\<close>

lemma ReadNextChunk_at:
  assumes "protobuf_ok ser parse" "rr_at ser r its idx"
  shows "(\<exists>r' ms its'. ReadNextChunk ser parse 0 whole False r = Some (True, r') \<and> rr_at ser r' its' idx \<and> rr_chunk r' = ms \<and>
      msgs its = ms @ msgs its' \<and> length its' < length its) \<or>
    (\<exists>r'. ReadNextChunk ser parse 0 whole False r = Some (False, r') \<and> msgs its = [])"
  using assms(2)
proof (induction its arbitrary: r)
  case Nil
  obtain r' where "next_section ser parse 0 whole False r = (Inl False, r')" "rr_reach_end r'" using next_section_index [OF Nil] by blast
  moreover have "\<not> rr_reach_end r" using Nil by (simp add: rr_at_def)
  ultimately have "ReadNextChunk ser parse 0 whole False r = Some (False, r')" using ReadNextChunk_step(1,2) by metis
  then show ?case by simp
next
  case (Cons it its)
  have ne: "\<not> rr_reach_end r" using Cons.prems by (simp add: rr_at_def)
  show ?case
  proof (cases it)
    case (Chan c)
    obtain r' where r': "next_section ser parse 0 whole False r = (Inl False, r')" "rr_at ser r' its idx"
      using next_section_channel [OF assms(1) Cons.prems [unfolded Chan]] by metis
    have "ReadNextChunk ser parse 0 whole False r = ReadNextChunk ser parse 0 whole False r'"
      using ne r'(1) by (rule ReadNextChunk_step(2))
    moreover have "msgs (it # its) = msgs its" using Chan by (simp add: msgs_def)
    ultimately show ?thesis using Cons.IH [OF r'(2)] by (metis less_SucI length_Cons)
  next
    case (Chnk ck ms)
    obtain r1 r2 where r: "next_section ser parse 0 whole False r = (Inl False, r1)" "\<not> rr_reach_end r1"
      "next_section ser parse 0 whole False r1 = (Inr True, r2)" "rr_at ser r2 its idx" "rr_chunk r2 = ms"
      using next_section_chunk [OF assms(1) Cons.prems [unfolded Chnk]] by metis
    have "ReadNextChunk ser parse 0 whole False r = Some (True, r2)"
      using ReadNextChunk_step(2) [OF ne r(1)] ReadNextChunk_step(3) [OF r(2,3)] by simp
    moreover have "msgs (it # its) = ms @ msgs its" using Chnk by (simp add: msgs_def)
    ultimately show ?thesis using r(4,5) by (metis lessI length_Cons)
  qed
qed

lemma rr_at_message_index [simp]: "rr_at ser (r\<lparr>rr_message_index := i\<rparr>) its idx = rr_at ser r its idx"
  by (simp add: rr_at_def)

lemma scan_whole: "scan_chunk 0 whole ms i = (if i < length ms then (i + 1, Some (Some (ms ! i))) else (i, None))"
  by (simp add: scan_chunk.simps)

text \<open>What is left to read: the rest of the chunk and the items behind it.\<close>

definition left :: "serializer \<Rightarrow> record_reader \<Rightarrow> single_message list \<Rightarrow> bool" where
  "left ser r ms \<longleftrightarrow> (\<exists>its idx. rr_at ser r its idx \<and> ms = drop (rr_message_index r) (rr_chunk r) @ msgs its)"

lemma ReadMessage_at:
  assumes "protobuf_ok ser parse" "rr_at ser r its idx"
  shows "case drop (rr_message_index r) (rr_chunk r) @ msgs its of
      [] \<Rightarrow> \<exists>r'. ReadMessage ser parse 0 whole r = Some (None, r')
    | m # ms \<Rightarrow> \<exists>r'. ReadMessage ser parse 0 whole r = Some (Some m, r') \<and> left ser r' ms"
  using assms(2)
proof (induction its arbitrary: r rule: length_induct)
  case (1 its)
  have v: "rr_is_valid r" using 1(2) by (simp add: rr_at_def)
  let ?r = "r\<lparr>rr_message_index := rr_message_index r\<rparr>"
  show ?case
  proof (cases "rr_message_index r < length (rr_chunk r)")
    case True
    let ?r' = "r\<lparr>rr_message_index := rr_message_index r + 1\<rparr>"
    have "ReadMessage ser parse 0 whole r = Some (Some (rr_chunk r ! rr_message_index r), ?r')"
      using True v by (simp add: ReadMessage.simps [of _ _ _ _ r] scan_whole)
    moreover have "left ser ?r' (drop (rr_message_index r + 1) (rr_chunk r) @ msgs its)"
      unfolding left_def using 1(2) by (intro exI [of _ its] exI [of _ idx]) simp
    ultimately show ?thesis using True by (simp add: Cons_nth_drop_Suc [symmetric])
  next
    case False
    then have d: "drop (rr_message_index r) (rr_chunk r) = []" by simp
    have step: "ReadMessage ser parse 0 whole r =
        (case ReadNextChunk ser parse 0 whole False r of
           None \<Rightarrow> None
         | Some (found, r') \<Rightarrow> if found then ReadMessage ser parse 0 whole (r'\<lparr>rr_message_index := 0\<rparr>) else Some (None, r'))"
      using False v by (simp add: ReadMessage.simps [of _ _ _ _ r] scan_whole)
    from ReadNextChunk_at [OF assms(1) 1(2)] show ?thesis
    proof (elim disjE exE conjE)
      fix r' ms its'
      assume a: "ReadNextChunk ser parse 0 whole False r = Some (True, r')" "rr_at ser r' its' idx" "rr_chunk r' = ms"
        "msgs its = ms @ msgs its'" "length its' < length its"
      have "drop (rr_message_index (r'\<lparr>rr_message_index := 0\<rparr>)) (rr_chunk (r'\<lparr>rr_message_index := 0\<rparr>)) @ msgs its' = msgs its" using a(3,4) by simp
      then show ?thesis using 1(1) [rule_format, OF a(5), of "r'\<lparr>rr_message_index := 0\<rparr>"] a(1,2) d step by (cases "msgs its") simp_all
    next
      fix r'
      assume "ReadNextChunk ser parse 0 whole False r = Some (False, r')" "msgs its = []"
      then show ?thesis using d step by simp
    qed
  qed
qed

text \<open>Reading until \<^verbatim>\<open>ReadMessage\<close> returns false; at most \<open>n - 1\<close> messages.\<close>

fun read_all :: "serializer \<Rightarrow> parser \<Rightarrow> nat \<Rightarrow> record_reader \<Rightarrow> single_message list option" where
  "read_all ser parse 0 r = None"
| "read_all ser parse (Suc n) r =
     (case ReadMessage ser parse 0 whole r of
        None \<Rightarrow> None
      | Some (None, r') \<Rightarrow> Some []
      | Some (Some m, r') \<Rightarrow> map_option ((#) m) (read_all ser parse n r'))"

lemma read_all_left:
  assumes "protobuf_ok ser parse"
  shows "left ser r ms \<Longrightarrow> read_all ser parse (Suc (length ms)) r = Some ms"
proof (induction ms arbitrary: r)
  case Nil
  then obtain its idx where "rr_at ser r its idx" "drop (rr_message_index r) (rr_chunk r) @ msgs its = []" by (auto simp: left_def)
  then show ?case using ReadMessage_at [OF assms, of r its idx] by auto
next
  case (Cons m ms)
  then obtain its idx where a: "rr_at ser r its idx" "drop (rr_message_index r) (rr_chunk r) @ msgs its = m # ms" by (auto simp: left_def)
  obtain r' where r': "ReadMessage ser parse 0 whole r = Some (Some m, r')" "left ser r' ms"
    using ReadMessage_at [OF assms a(1)] unfolding a(2) by auto
  then show ?case using Cons.IH [OF r'(2)] by simp
qed

section \<open>Opening\<close>

lemma ReadHeader_at:
  assumes "protobuf_ok ser parse" "f_bytes (fr_file r) = header_block ser h @ rest" "f_pos (fr_file r) = 0"
  obtains r' where "ReadHeader ser parse r = (True, r')" "fr_header r' = h" "fr_at r' (header_block ser h) rest"
proof -
  have small: "length (ser (SHeader h)) \<le> HEADER_LENGTH" using assms(1) by (simp add: protobuf_ok_def)
  then have n: "length (ser (SHeader h)) < 2 ^ 31" by (simp add: HEADER_LENGTH_def)
  let ?pad = "take (HEADER_LENGTH - length (ser (SHeader h))) blank"
  have a: "fr_at r [] (sec_bytes ser (SHeader h) @ ?pad @ rest)" using assms(2,3) by (simp add: fr_at_def header_block_def)
  obtain r1 where r1: "ReadSection r = (Some (section_code SECTION_HEADER, int (length (ser (SHeader h)))), r1)"
    "fr_at r1 (section_bytes SECTION_HEADER (length (ser (SHeader h)))) (ser (SHeader h) @ ?pad @ rest)"
    using ReadSection_at [OF a n] by auto
  obtain r2 where r2: "ReadSection_msg ser parse SECTION_HEADER (int (length (ser (SHeader h)))) r1 = (Some (SHeader h), r2)"
    "fr_at r2 (section_bytes SECTION_HEADER (length (ser (SHeader h))) @ ser (SHeader h)) (?pad @ rest)"
    using ReadSection_msg_at [OF assms(1) r1(2) n] by auto
  let ?r = "r2\<lparr>fr_header := h, fr_file := (fr_file r2)\<lparr>f_pos := 16 + HEADER_LENGTH\<rparr>\<rparr>"
  have "ReadHeader ser parse r = (True, ?r)"
    by (simp add: ReadHeader_def r1(1) r2(1) fr_SetPosition_def SetPosition_def nat_int_add)
  moreover have "fr_at ?r (header_block ser h) rest"
    using r2(2) length_header_block [of ser h] small by (simp add: fr_at_def header_block_def sec_bytes_def)
  ultimately show thesis using that by simp
qed

lemma fr_Reset_at:
  assumes "f_bytes (fr_file r) = hdr @ rest" "length hdr = 16 + HEADER_LENGTH"
  obtains r' where "fr_Reset r = (True, r')" "fr_at r' hdr rest" "fr_header r' = fr_header r" "fr_index r' = fr_index r"
  using that [of "r\<lparr>fr_file := (fr_file r)\<lparr>f_pos := 16 + HEADER_LENGTH\<rparr>, fr_end_of_file := False\<rparr>"] assms
  by (simp add: fr_Reset_def fr_SetPosition_def SetPosition_def fr_at_def nat_int_add)

lemma ReadIndex_at:
  assumes "protobuf_ok ser parse" "f_bytes (fr_file r) = hdr @ body @ sec_bytes ser (SIndex idx) @ rest" "length hdr = 16 + HEADER_LENGTH"
    "hd_is_complete (fr_header r)" "hd_index_position (fr_header r) = of_nat (length (hdr @ body))"
    "length (hdr @ body @ sec_bytes ser (SIndex idx)) < 2 ^ 31"
  obtains r' where "ReadIndex ser parse r = (True, r')" "fr_index r' = idx" "f_bytes (fr_file r') = f_bytes (fr_file r)"
proof -
  let ?p = "hdr @ body" and ?m = "SIndex idx"
  have n: "length (ser ?m) < 2 ^ 31" "length ?p < 2 ^ 31" using assms(6) by (simp_all add: sec_bytes_def)
  let ?r0 = "r\<lparr>fr_file := (fr_file r)\<lparr>f_pos := length ?p\<rparr>\<rparr>"
  have p: "fr_SetPosition (sint (hd_index_position (fr_header r))) r = (True, ?r0)"
    unfolding assms(5) sint_of_nat_small [OF n(2)] by (simp add: fr_SetPosition_def SetPosition_def)
  have a: "fr_at ?r0 ?p (sec_bytes ser ?m @ rest)" using assms(2) by (simp add: fr_at_def)
  obtain r1 where r1: "ReadSection ?r0 = (Some (section_code SECTION_INDEX, int (length (ser ?m))), r1)"
    "fr_at r1 (?p @ section_bytes SECTION_INDEX (length (ser ?m))) (ser ?m @ rest)"
    using ReadSection_at [OF a n(1)] by auto
  obtain r2 where r2: "ReadSection_msg ser parse SECTION_INDEX (int (length (ser ?m))) r1 = (Some ?m, r2)"
    "fr_at r2 ((?p @ section_bytes SECTION_INDEX (length (ser ?m))) @ ser ?m) rest"
    using ReadSection_msg_at [OF assms(1) r1(2) n(1)] by auto
  have b: "f_bytes (fr_file (r2\<lparr>fr_index := idx\<rparr>)) = f_bytes (fr_file r)" using r2(2) assms(2) by (simp add: fr_at_def sec_bytes_def)
  obtain r3 where r3: "fr_Reset (r2\<lparr>fr_index := idx\<rparr>) = (True, r3)" "fr_at r3 hdr (body @ sec_bytes ser ?m @ rest)" "fr_index r3 = idx"
    using fr_Reset_at [of "r2\<lparr>fr_index := idx\<rparr>" hdr "body @ sec_bytes ser ?m @ rest"] b assms(2,3) by auto
  have "ReadIndex ser parse r = (True, r3)" using assms(4) unfolding ReadIndex_def p by (simp add: r1(1) [simplified] r2(1) r3(1))
  then show thesis using that r3(2,3) assms(2) by (simp add: fr_at_def)
qed

lemma RecordReader_at:
  assumes "content = header_block ser h @ body_bytes ser (secs its @ [SIndex idx]) @ rest"
    "protobuf_ok ser parse" "hd_is_complete h" "length content < 2 ^ 31"
    "hd_index_position h = of_nat (16 + HEADER_LENGTH + length (body_bytes ser (secs its)))"
  shows "rr_at ser (RecordReader ser parse (Some content) h0) its idx" "rr_header (RecordReader ser parse (Some content) h0) = h"
    "rr_channel_info (RecordReader ser parse (Some content) h0) = fold add_channel_info idx Map.empty"
    "rr_chunk (RecordReader ser parse (Some content) h0) = []" "rr_message_index (RecordReader ser parse (Some content) h0) = 0"
    "fr_at (rr_file_reader (RecordReader ser parse (Some content) h0)) (header_block ser h) (body_bytes ser (secs its @ [SIndex idx]) @ rest)"
proof -
  have lh: "length (header_block ser h) = 16 + HEADER_LENGTH" using assms(2) length_header_block [of ser h] by (simp add: protobuf_ok_def)
  let ?r0 = "\<lparr>fr_file = \<lparr>f_bytes = content, f_pos = 0, f_room = None\<rparr>, fr_header = h0, fr_index = [], fr_end_of_file = False\<rparr>"
  obtain r1 where r1: "ReadHeader ser parse ?r0 = (True, r1)" "fr_header r1 = h" "fr_at r1 (header_block ser h) (body_bytes ser (secs its @ [SIndex idx]) @ rest)"
    using ReadHeader_at [OF assms(2), of ?r0 h "body_bytes ser (secs its @ [SIndex idx]) @ rest"] by (auto simp: assms(1))
  then have o: "fr_Open ser parse (Some content) h0 = (True, r1)" by (simp add: fr_Open_def)
  have b1: "f_bytes (fr_file r1) = content" using r1(3) by (simp add: fr_at_def assms(1))
  obtain r2 where r2: "ReadIndex ser parse r1 = (True, r2)" "fr_index r2 = idx" "f_bytes (fr_file r2) = content"
    using ReadIndex_at [OF assms(2), of r1 "header_block ser h" "body_bytes ser (secs its)" idx rest] b1 r1(2) assms(3-5) lh
    by (auto simp: assms(1))
  obtain r3 where r3: "fr_Reset r2 = (True, r3)" "fr_at r3 (header_block ser h) (body_bytes ser (secs its @ [SIndex idx]) @ rest)"
    using fr_Reset_at [of r2 "header_block ser h" "body_bytes ser (secs its @ [SIndex idx]) @ rest"] r2(3) lh by (auto simp: assms(1))
  have R: "RecordReader ser parse (Some content) h0 =
      \<lparr>rr_is_valid = True, rr_reach_end = False, rr_chunk = [], rr_index = idx, rr_message_index = 0,
       rr_channel_info = fold add_channel_info idx Map.empty, rr_file_reader = r3, rr_header = h\<rparr>"
    using r1(2) r2(2) by (simp add: RecordReader_def o r2(1) r3(1) Let_def)
  have "length (header_block ser h) + length (body_bytes ser (secs its @ [SIndex idx])) < 2 ^ 31" using assms(4) by (simp add: assms(1))
  then show "rr_at ser (RecordReader ser parse (Some content) h0) its idx" unfolding R rr_at_def using r3(2) by auto
  show "rr_header (RecordReader ser parse (Some content) h0) = h"
    "rr_channel_info (RecordReader ser parse (Some content) h0) = fold add_channel_info idx Map.empty"
    "rr_chunk (RecordReader ser parse (Some content) h0) = []" "rr_message_index (RecordReader ser parse (Some content) h0) = 0"
    "fr_at (rr_file_reader (RecordReader ser parse (Some content) h0)) (header_block ser h) (body_bytes ser (secs its @ [SIndex idx]) @ rest)"
    using r3(2) by (simp_all add: R)
qed

section \<open>The index\<close>

text \<open>The index tells for every channel how many messages it has.\<close>

definition number_of :: "(string \<rightharpoonup> u64) \<Rightarrow> string \<Rightarrow> u64" where
  "number_of numbers c = (case numbers c of None \<Rightarrow> 0 | Some k \<Rightarrow> k)"

definition info_ok :: "(string \<rightharpoonup> u64) \<Rightarrow> string set \<Rightarrow> (string \<rightharpoonup> index_cache) \<Rightarrow> bool" where
  "info_ok numbers names info \<longleftrightarrow> dom info = names \<and>
     (\<forall>c e. info c = Some e \<longrightarrow> (\<exists>ty desc. e = ChannelCache (number_of numbers c) c ty desc))"

lemma info_ok_index:
  "info_ok numbers names info \<Longrightarrow>
   info_ok numbers (names \<union> ch_name ` set (channels its)) (fold add_channel_info (map (count_channel numbers) (index_from ser p its)) info)"
proof (induction its arbitrary: p names info)
  case (Cons it its)
  show ?case
  proof (cases it)
    case (Chan c)
    let ?i = "count_channel numbers \<lparr>si_type = SECTION_CHANNEL, si_position = of_nat p, si_cache = ChannelCache 0 (ch_name c) (ch_message_type c) (ch_proto_desc c)\<rparr>"
    have i: "si_type ?i = SECTION_CHANNEL" "si_cache ?i = ChannelCache (number_of numbers (ch_name c)) (ch_name c) (ch_message_type c) (ch_proto_desc c)"
      by (auto simp: number_of_def split: option.split)
    have "info_ok numbers (insert (ch_name c) names) (add_channel_info ?i info)"
      using Cons.prems unfolding info_ok_def add_channel_info.simps [of ?i] i by (auto split: if_splits)
    then show ?thesis using Cons.IH [of "insert (ch_name c) names" "add_channel_info ?i info"] Chan by (simp del: add_channel_info.simps count_channel.simps)
  next
    case (Chnk ck ms)
    then show ?thesis using Cons.IH [OF Cons.prems] by simp
  qed
qed simp

lemma channel_numbers:
  assumes "c \<in> set (channels its)" "info = fold add_channel_info (map (count_channel numbers) (index_from ser p its)) Map.empty"
  shows "\<exists>ty desc. info (ch_name c) = Some (ChannelCache (number_of numbers (ch_name c)) (ch_name c) ty desc)"
proof -
  have "info_ok numbers {} Map.empty" by (simp add: info_ok_def)
  then have "info_ok numbers (ch_name ` set (channels its)) info" using info_ok_index [of numbers "{}"] assms(2) by simp
  then show ?thesis using assms(1) unfolding info_ok_def by (metis domD image_eqI)
qed

section \<open>Sizes, and a small example\<close>

lemma fd_write_dims:
  assumes "f_room f = None" "f_pos f \<le> length (f_bytes f)"
  shows "\<exists>f'. fd_write bs f = (length bs, f') \<and> f_room f' = None \<and> f_pos f' = f_pos f + length bs \<and> length (f_bytes f') = max (length (f_bytes f)) (f_pos f')"
  using assms by (auto simp: fd_write_def writable_def Let_def max_def)

text \<open>How a section changes the size of the file.\<close>

lemma WriteSection_dims:
  assumes "f_room (fw_file w) = None" "f_pos (fw_file w) \<le> length (f_bytes (fw_file w))"
    "section_of m = SECTION_HEADER \<longrightarrow> length (ser m) \<le> HEADER_LENGTH"
  obtains f where "WriteSection ser m w = (True, w\<lparr>fw_file := f, fw_header := (fw_header w)\<lparr>hd_size := CurrentPosition f\<rparr>\<rparr>)"
    "f_room f = None" "f_pos f = (if section_of m = SECTION_HEADER then 16 + HEADER_LENGTH else f_pos (fw_file w) + 16 + length (ser m))"
    "length (f_bytes f) = max (length (f_bytes (fw_file w))) (f_pos f)"
proof -
  define f0 where "f0 = (if section_of m = SECTION_HEADER then snd (SetPosition 0 (fw_file w)) else fw_file w)"
  have f0: "f_room f0 = None" "f_bytes f0 = f_bytes (fw_file w)" "f_pos f0 = (if section_of m = SECTION_HEADER then 0 else f_pos (fw_file w))"
    using assms(1) by (simp_all add: f0_def SetPosition_def)
  then have "f_pos f0 \<le> length (f_bytes f0)" using assms(2) by simp
  from fd_write_dims [OF f0(1) this, of "section_bytes (section_of m) (length (ser m))"] obtain f1 where
    f1: "fd_write (section_bytes (section_of m) (length (ser m))) f0 = (16, f1)" "f_room f1 = None" "f_pos f1 = f_pos f0 + 16"
      "length (f_bytes f1) = max (length (f_bytes f0)) (f_pos f1)" by auto
  from fd_write_dims [OF f1(2), of "ser m"] f1(4) obtain f2 where
    f2: "fd_write (ser m) f1 = (length (ser m), f2)" "f_room f2 = None" "f_pos f2 = f_pos f1 + length (ser m)"
      "length (f_bytes f2) = max (length (f_bytes f1)) (f_pos f2)" by auto
  show thesis
  proof (cases "section_of m = SECTION_HEADER")
    case False
    have "WriteSection ser m w = (True, w\<lparr>fw_file := f2, fw_header := (fw_header w)\<lparr>hd_size := CurrentPosition f2\<rparr>\<rparr>)"
      unfolding WriteSection_def Let_def f0_def [symmetric] f1(1) using False f2(1) by simp
    then show thesis using that [of f2] f0 f1 f2 False by (simp add: max_def)
  next
    case True
    let ?p = "take (HEADER_LENGTH - length (ser m)) blank"
    from fd_write_dims [OF f2(2), of ?p] f2(4) obtain f3 where
      f3: "fd_write ?p f2 = (HEADER_LENGTH - length (ser m), f3)" "f_room f3 = None" "f_pos f3 = f_pos f2 + (HEADER_LENGTH - length (ser m))"
        "length (f_bytes f3) = max (length (f_bytes f2)) (f_pos f3)" by auto
    have "WriteSection ser m w = (True, w\<lparr>fw_file := f3, fw_header := (fw_header w)\<lparr>hd_size := CurrentPosition f3\<rparr>\<rparr>)"
      unfolding WriteSection_def Let_def f0_def [symmetric] f1(1) using True f2(1) f3(1) assms(3) by (simp add: write_padding_def)
    then show thesis using that [of f3] f0 f1 f2 f3 True assms(3) by (simp add: max_def)
  qed
qed

lemma WriteSection_grows:
  assumes "f_room (fw_file w) = None" "f_pos (fw_file w) = length (f_bytes (fw_file w))" "section_of m \<noteq> SECTION_HEADER"
    "length (f_bytes (fw_file w)) + 16 + length (ser m) \<le> n"
  obtains f where "WriteSection ser m w = (True, w\<lparr>fw_file := f, fw_header := (fw_header w)\<lparr>hd_size := CurrentPosition f\<rparr>\<rparr>)"
    "f_room f = None" "f_pos f = length (f_bytes f)" "length (f_bytes f) \<le> n"
proof -
  obtain f where f: "WriteSection ser m w = (True, w\<lparr>fw_file := f, fw_header := (fw_header w)\<lparr>hd_size := CurrentPosition f\<rparr>\<rparr>)"
    "f_room f = None" "f_pos f = f_pos (fw_file w) + 16 + length (ser m)" "length (f_bytes f) = max (length (f_bytes (fw_file w))) (f_pos f)"
    using WriteSection_dims [of w m ser] assms(1-3) by auto
  then show thesis using that [of f] assms(2,4) by simp
qed

definition one_message :: single_message where "one_message = \<lparr>sm_channel_name = ''a'', sm_time = 5, sm_content = [7]\<rparr>"

text \<open>The file of one small message stays small, whatever the limits of a segment are.\<close>

lemma small_message_file:
  fixes bs interval size
  defines "m \<equiv> \<lparr>sm_channel_name = ''a'', sm_time = 5, sm_content = bs\<rparr>"
    and "h \<equiv> GetHeaderWithSegmentParams interval size"
  assumes bs: "length bs \<le> 2"
  shows "length (f_bytes (fw_file (written_file plain_ser [] h [PutMessage m]))) < 2 ^ 31"
proof -
  let ?h = h and ?w0 = "(fw_Open None [] h)\<lparr>fw_header := h\<rparr>"
  have hl: "length (plain_ser (SHeader h)) \<le> HEADER_LENGTH" for h by (simp add: length_enc_header HEADER_LENGTH_def)
  obtain f1 where f1: "WriteHeader plain_ser ?h (fw_Open None [] ?h) = (True, ?w0\<lparr>fw_file := f1, fw_header := ?h\<lparr>hd_size := CurrentPosition f1\<rparr>\<rparr>)"
    "f_room f1 = None" "f_pos f1 = 16 + HEADER_LENGTH" "length (f_bytes f1) = 16 + HEADER_LENGTH"
    unfolding WriteHeader_def using WriteSection_dims [of ?w0 "SHeader ?h" plain_ser] hl by (auto simp: fw_Open_def)
  let ?c = "Chunk_add m Chunk"
  let ?w1 = "?w0\<lparr>fw_file := f1, fw_header := ?h\<lparr>hd_size := CurrentPosition f1\<rparr>\<rparr>"
  let ?w2 = "?w1\<lparr>fw_active := ?c, fw_numbers := [''a'' \<mapsto> 1]\<rparr>"
  have sz: "\<not> (209715200 :: u64) < of_nat (length bs)"
    using bs by (simp add: word_less_nat_alt unat_of_nat_u64)
  have p: "fw_WriteMessage m ?w1 = ?w2"
    using sz by (simp add: fw_WriteMessage_def needs_flush_def m_def Chunk_add_def Chunk_def h_def GetHeaderWithSegmentParams_def build_header_def fw_Open_def)
  let ?w3 = "?w2\<lparr>fw_active := Chunk, fw_flush := ?c\<rparr>"
  have s: "flush_turn plain_ser ?w2 = ?w2" "swap_chunks ?w2 = ?w3" "fw_is_writing ?w2" "\<not> Chunk_empty ?c"
    by (simp_all add: flush_turn_def swap_chunks_def fw_Open_def Chunk_empty_def Chunk_def Chunk_add_def m_def)
  have l3: "f_room (fw_file ?w3) = None" "f_pos (fw_file ?w3) = length (f_bytes (fw_file ?w3))" using f1 by simp_all
  have e: "length (f_bytes (fw_file ?w3)) + 16 + length (plain_ser (SChunkHeader (c_header ?c))) \<le> 2200"
    using f1 by (simp add: enc_chunk_header_def enc_via_def enc_pair_def HEADER_LENGTH_def)
  obtain f2 where f2: "WriteSection plain_ser (SChunkHeader (c_header ?c)) ?w3 = (True, ?w3\<lparr>fw_file := f2, fw_header := (fw_header ?w3)\<lparr>hd_size := CurrentPosition f2\<rparr>\<rparr>)"
    "f_room f2 = None" "f_pos f2 = length (f_bytes f2)" "length (f_bytes f2) \<le> 2200"
    by (rule WriteSection_grows [where w = ?w3 and m = "SChunkHeader (c_header ?c)" and ser = plain_ser and n = 2200, OF l3 _ e]) (simp, rule that)
  define w4 where "w4 = add_index SECTION_CHUNK_HEADER (CurrentPosition (fw_file ?w3)) (ChunkHeaderCache (ck_message_number (c_header ?c)) (ck_begin_time (c_header ?c))
      (ck_end_time (c_header ?c)) (ck_raw_size (c_header ?c))) (?w3\<lparr>fw_file := f2, fw_header := (fw_header ?w3)\<lparr>hd_size := CurrentPosition f2\<rparr>\<rparr>)"
  have f4: "fw_file w4 = f2" by (simp add: w4_def add_index_def)
  have "length (enc_bytes bs) = 2 * length bs + 1" by (induction bs) simp_all
  then have "length (plain_ser (SChunkBody (c_body ?c))) \<le> 100"
    using bs by (simp add: enc_message_def enc_via_def enc_pair_def enc_string_def m_def Chunk_add_def Chunk_def)
  then have e4: "length (f_bytes (fw_file w4)) + 16 + length (plain_ser (SChunkBody (c_body ?c))) \<le> 2400" using f2(4) f4 by simp
  obtain f3 where f3: "WriteSection plain_ser (SChunkBody (c_body ?c)) w4 = (True, w4\<lparr>fw_file := f3, fw_header := (fw_header w4)\<lparr>hd_size := CurrentPosition f3\<rparr>\<rparr>)"
    "f_room f3 = None" "f_pos f3 = length (f_bytes f3)" "length (f_bytes f3) \<le> 2400"
    by (rule WriteSection_grows [where w = w4 and m = "SChunkBody (c_body ?c)" and ser = plain_ser and n = 2400, OF _ _ _ e4]) (simp add: f2 f4, simp add: f2 f4, simp, rule that)
  define w5 where "w5 = flush_turn plain_ser ?w3"
  have c5: "WriteChunk plain_ser ?c ?w3 = (True, add_index SECTION_CHUNK_BODY (CurrentPosition (fw_file w4)) (ChunkBodyCache (of_nat (length (c_body ?c))))
      (w4\<lparr>fw_file := f3, fw_header := count_chunk (c_header ?c) ((fw_header w4)\<lparr>hd_size := CurrentPosition f3\<rparr>)\<rparr>))"
    unfolding WriteChunk_def Let_def f2(1) prod.case bool.case w4_def [symmetric] f3(1) by simp
  have i5: "fw_index w4 = [\<lparr>si_type = SECTION_CHUNK_HEADER, si_position = CurrentPosition (fw_file ?w3), si_cache = ChunkHeaderCache (ck_message_number (c_header ?c))
      (ck_begin_time (c_header ?c)) (ck_end_time (c_header ?c)) (ck_raw_size (c_header ?c))\<rparr>]" "fw_is_writing w4"
    by (simp_all add: w4_def add_index_def fw_Open_def)
  have "w5 = (snd (WriteChunk plain_ser ?c ?w3))\<lparr>fw_flush := Chunk\<rparr>" using s(3,4) by (simp add: w5_def flush_turn_def)
  then have w5: "fw_file w5 = f3" "length (fw_index w5) = 2" "fw_is_writing w5" "\<forall>i\<in>set (fw_index w5). si_type i \<noteq> SECTION_CHANNEL \<and> length (enc_index i) < 50"
    unfolding c5 by (simp_all add: add_index_def i5 enc_index_def enc_via_def enc_pair_def)
  have idx: "map (count_channel (fw_numbers w5)) (fw_index w5) = fw_index w5" using w5(4) by (intro map_idI) simp
  obtain i j where ij: "fw_index w5 = [i, j]" using w5(2) by (auto simp: length_Suc_conv eval_nat_numeral)
  let ?w6 = "w5\<lparr>fw_is_writing := False, fw_index := fw_index w5, fw_header := (fw_header w5)\<lparr>hd_index_position := CurrentPosition f3\<rparr>\<rparr>"
  obtain f4 where f4: "WriteSection plain_ser (SIndex (fw_index w5)) ?w6 = (True, ?w6\<lparr>fw_file := f4, fw_header := (fw_header ?w6)\<lparr>hd_size := CurrentPosition f4\<rparr>\<rparr>)"
    "f_room f4 = None" "f_pos f4 = length (f_bytes f4)" "length (f_bytes f4) \<le> 3000"
    by (rule WriteSection_grows [where w = ?w6 and m = "SIndex (fw_index w5)" and ser = plain_ser and n = 3000])
      (simp add: f3 w5, simp add: f3 w5, simp, use f3(4) w5(1,4) in \<open>simp add: ij\<close>, rule that)
  let ?w7 = "?w6\<lparr>fw_file := f4, fw_header := (fw_header ?w6)\<lparr>hd_size := CurrentPosition f4\<rparr>\<rparr>"
  let ?h' = "(fw_header ?w7)\<lparr>hd_is_complete := True\<rparr>"
  define w8 where "w8 = ?w7\<lparr>fw_header := ?h'\<rparr>"
  have l8: "f_room (fw_file w8) = None" "f_pos (fw_file w8) = length (f_bytes (fw_file w8))" "length (f_bytes (fw_file w8)) \<le> 3000"
    using f4(2-4) by (simp_all add: w8_def)
  obtain f5 where "WriteSection plain_ser (SHeader ?h') w8 = (True, w8\<lparr>fw_file := f5, fw_header := (fw_header w8)\<lparr>hd_size := CurrentPosition f5\<rparr>\<rparr>)"
    "f_pos f5 = 16 + HEADER_LENGTH" "length (f_bytes f5) = max (length (f_bytes (fw_file w8))) (f_pos f5)"
    using WriteSection_dims [where w = w8 and m = "SHeader ?h'" and ser = plain_ser] l8(1,2) hl by (metis order_refl section_of.simps(1))
  then have f5: "length (f_bytes (fw_file (snd (WriteHeader plain_ser ?h' ?w7)))) \<le> 3000"
    unfolding WriteHeader_def w8_def [symmetric] using l8(3) by (simp add: HEADER_LENGTH_def)
  have i7: "snd (WriteIndex plain_ser (w5\<lparr>fw_is_writing := False\<rparr>)) = ?w7"
    unfolding WriteIndex_def Let_def using f4(1) w5(1) idx by simp
  have w2: "fold (fw_op plain_ser) [PutMessage m] (snd (WriteHeader plain_ser ?h (fw_Open None [] ?h))) = ?w2"
    unfolding f1(1) by (simp only: fold.simps fw_op.simps snd_conv id_apply o_apply p)
  have "written_file plain_ser [] h [PutMessage m] = snd (WriteHeader plain_ser ?h' ?w7)"
    unfolding written_file_def w2 fw_Close_def Let_def s(1) s(2) w5_def [symmetric] i7 by (simp only: s(3) not_True_eq_False if_False)
  then show ?thesis using f5 by simp
qed

lemma one_message_file: "length (f_bytes (fw_file (written_file plain_ser [] GetHeader [PutMessage one_message]))) < 2 ^ 31"
  using small_message_file [of "[7]"] unfolding one_message_def GetHeader_def GetHeaderWithSegmentParams_def by simp

section \<open>Round trip\<close>

text \<open>The file of a run of the writer is read back as the items of the run.\<close>

lemma written_file_reads_back:
  fixes ser parse old h ops h0
  defines "r \<equiv> RecordReader ser parse (Some (f_bytes (fw_file (written_file ser old h ops)))) h0"
  assumes "protobuf_ok ser parse" "hd_message_number h = 0" "length (put_messages ops) < 2 ^ 64"
    "length (f_bytes (fw_file (written_file ser old h ops))) < 2 ^ 31"
  obtains its where "channels its = put_channels ops" "mset (msgs its) = mset (put_messages ops)"
    "keeps_up ser ops (snd (WriteHeader ser h (fw_Open None old h))) \<Longrightarrow> msgs its = put_messages ops"
    "read_all ser parse (Suc (length (put_messages ops))) r = Some (msgs its)"
    "rr_is_valid r" "hd_is_complete (rr_header r)" "hd_message_number (rr_header r) = of_nat (length (put_messages ops))"
    "rr_channel_info r = fold add_channel_info (map (count_channel (\<lambda>c. if channel_count c (put_messages ops) = 0 then None else Some (of_nat (channel_count c (put_messages ops)))))
       (index_from ser (16 + HEADER_LENGTH) its)) Map.empty"
proof -
  let ?w = "written_file ser old h ops"
  have hl: "length (ser (SHeader x)) \<le> HEADER_LENGTH" for x using assms(2) by (simp add: protobuf_ok_def)
  obtain its h' rest where c: "channels its = put_channels ops" and m: "mset (msgs its) = mset (put_messages ops)"
    and k: "keeps_up ser ops (snd (WriteHeader ser h (fw_Open None old h))) \<Longrightarrow> msgs its = put_messages ops"
    and b: "f_bytes (fw_file ?w) = header_block ser h' @
        body_bytes ser (secs its @ [SIndex (map (count_channel (fw_numbers ?w)) (index_from ser (16 + HEADER_LENGTH) its))]) @ rest"
    and h': "hd_is_complete h'" "hd_message_number h' = of_nat (length (put_messages ops))"
      "hd_index_position h' = of_nat (16 + HEADER_LENGTH + length (body_bytes ser (secs its)))"
    and n: "fw_numbers ?w = (\<lambda>c. if channel_count c (put_messages ops) = 0 then None else Some (of_nat (channel_count c (put_messages ops))))"
    and covers: "keeps_up ser ops (snd (WriteHeader ser h (fw_Open None old h))) \<Longrightarrow> timed (put_messages ops) \<Longrightarrow> hd_begin_time h = 0 \<Longrightarrow> hd_end_time h = 0 \<Longrightarrow>
       items_covered its \<and> header_covers h' (msgs its)"
    by (rule written_file_contents [where ser = ser and h = h and ops = ops and old = old, OF hl assms(3,4)]) (rule that)
  note R = RecordReader_at [OF b assms(2) h'(1) assms(5) h'(3), of h0, folded r_def]
  have "left ser r (msgs its)" unfolding left_def using R(1,4,5) by (intro exI) auto
  then have "read_all ser parse (Suc (length (msgs its))) r = Some (msgs its)" by (rule read_all_left [OF assms(2)])
  moreover have "length (msgs its) = length (put_messages ops)" using m by (metis size_mset)
  moreover have "rr_is_valid r" using R(1) by (simp add: rr_at_def)
  ultimately show thesis using that [OF c m k] h'(1,2) R(2,3) n by simp
qed

text \<open>
  Claim C9. What was recorded is read back: for every sequence of messages, channels and turns of the
  flush thread, even over an older file, the closed file (below 2 GB) is opened as a complete record whose
  header and index give the right numbers of messages, and reading it gives every message exactly
  once, and in the order they were written if the flush thread kept up.
\<close>

theorem record_file_round_trip:
  assumes "protobuf_ok ser parse" "hd_message_number h = 0" "length (put_messages ops) < 2 ^ 64"
    "length (f_bytes (fw_file (written_file ser old h ops))) < 2 ^ 31"
  shows "let r = RecordReader ser parse (Some (f_bytes (fw_file (written_file ser old h ops)))) h0
    in \<exists>ms. read_all ser parse (Suc (length (put_messages ops))) r = Some ms \<and> mset ms = mset (put_messages ops)
      \<and> (keeps_up ser ops (snd (WriteHeader ser h (fw_Open None old h))) \<longrightarrow> ms = put_messages ops)
      \<and> rr_is_valid r \<and> hd_is_complete (rr_header r) \<and> hd_message_number (rr_header r) = of_nat (length (put_messages ops))
      \<and> (\<forall>c\<in>set (put_channels ops). GetMessageNumber (ch_name c) r = of_nat (channel_count (ch_name c) (put_messages ops)))"
proof -
  define r where "r = RecordReader ser parse (Some (f_bytes (fw_file (written_file ser old h ops)))) h0"
  obtain its where its: "channels its = put_channels ops" "mset (msgs its) = mset (put_messages ops)"
    "keeps_up ser ops (snd (WriteHeader ser h (fw_Open None old h))) \<Longrightarrow> msgs its = put_messages ops"
    "read_all ser parse (Suc (length (put_messages ops))) r = Some (msgs its)"
    "rr_is_valid r" "hd_is_complete (rr_header r)" "hd_message_number (rr_header r) = of_nat (length (put_messages ops))"
    and info: "rr_channel_info r = fold add_channel_info (map (count_channel (\<lambda>c. if channel_count c (put_messages ops) = 0 then None
         else Some (of_nat (channel_count c (put_messages ops))))) (index_from ser (16 + HEADER_LENGTH) its)) Map.empty"
    by (rule written_file_reads_back [OF assms, of h0, folded r_def]) (rule that)
  have "GetMessageNumber (ch_name d) r = of_nat (channel_count (ch_name d) (put_messages ops))" if "d \<in> set (put_channels ops)" for d
    using channel_numbers [of d its, OF _ info] that its(1) by (auto simp: GetMessageNumber_def number_of_def)
  then show ?thesis using its(2-7) unfolding r_def [symmetric] Let_def by (intro exI [of _ "msgs its"]) simp
qed

theorem record_file_round_trip_witness:
  "read_all plain_ser plain_parse 2
     (RecordReader plain_ser plain_parse (Some (f_bytes (fw_file (written_file plain_ser [] GetHeader [PutMessage one_message])))) GetHeader)
     = Some [one_message]"
proof -
  have "protobuf_ok plain_ser plain_parse"
    unfolding protobuf_ok_def using plain_parse_ser length_enc_header by (simp add: HEADER_LENGTH_def)
  moreover have "hd_message_number GetHeader = 0" "length (put_messages [PutMessage one_message]) < 2 ^ 64"
    by (simp_all add: GetHeader_def build_header_def)
  ultimately obtain ms where "read_all plain_ser plain_parse (Suc (length (put_messages [PutMessage one_message])))
      (RecordReader plain_ser plain_parse (Some (f_bytes (fw_file (written_file plain_ser [] GetHeader [PutMessage one_message])))) GetHeader) = Some ms"
    "mset ms = mset (put_messages [PutMessage one_message])"
    using record_file_round_trip [OF _ _ _ one_message_file, of plain_parse GetHeader] unfolding Let_def by blast
  moreover from this(2) have "ms = [one_message]" by simp
  moreover have "Suc (length (put_messages [PutMessage one_message])) = 2" by simp
  ultimately show ?thesis by (simp only:)
qed

end
