(* ===== verification/Record_Writer.thy ===== *)
theory Record_Writer
  imports Record_Roundtrip
begin

text \<open>
  \<^verbatim>\<open>RecordWriter\<close> (\<^verbatim>\<open>cyber/record/record_writer.cc\<close>): a record that is split into numbered files by size or time.  \<open>rw_disk\<close>
  are the contents of the files; those of the open one are in its \<^verbatim>\<open>RecordFileWriter\<close> and reach the disk when it is
  closed.  \<open>can_open\<close> tells which paths can be opened for writing, \<open>order\<close> is the order in which the unordered map of
  channels is walked.
\<close>

section \<open>Model\<close>

record record_writer =
  rw_header :: rec_header
  rw_file :: string
  rw_path :: string
  rw_is_opened :: bool
  rw_file_index :: nat
  rw_segment_raw_size :: u64
  rw_segment_begin_time :: u64
  rw_numbers :: "string \<rightharpoonup> u64"
  rw_types :: "string \<rightharpoonup> string"
  rw_descs :: "string \<rightharpoonup> u8 list"
  rw_writer :: "file_writer option"
  rw_disk :: "string \<rightharpoonup> u8 list"

definition RecordWriter :: "rec_header \<Rightarrow> (string \<rightharpoonup> u8 list) \<Rightarrow> record_writer" where
  "RecordWriter h disk =
     \<lparr>rw_header = h, rw_file = [], rw_path = [], rw_is_opened = False, rw_file_index = 0, rw_segment_raw_size = 0, rw_segment_begin_time = 0,
      rw_numbers = Map.empty, rw_types = Map.empty, rw_descs = Map.empty, rw_writer = None, rw_disk = disk\<rparr>"

fun digits :: "nat \<Rightarrow> nat \<Rightarrow> string" where
  "digits 0 n = []"
| "digits (Suc k) n = digits k (n div 10) @ [char_of (48 + n mod 10)]"

text \<open>\<^verbatim>\<open>setw(5)\<close>, \<^verbatim>\<open>setfill('0')\<close>; the index never exceeds 99999.\<close>

definition segment_name :: "string \<Rightarrow> nat \<Rightarrow> string" where
  "segment_name f i = f @ ''.'' @ digits 5 i"

definition contents :: "(string \<rightharpoonup> u8 list) \<Rightarrow> string \<Rightarrow> u8 list" where
  "contents disk p = (case disk p of None \<Rightarrow> [] | Some bs \<Rightarrow> bs)"

definition segmented :: "rec_header \<Rightarrow> bool" where
  "segmented h \<longleftrightarrow> hd_segment_interval h > 0 \<or> hd_segment_raw_size h > 0"

text \<open>A new file writer, opened, and its header; \<open>rw_writer\<close> is \<open>None\<close> for a writer whose file could not be opened.\<close>

definition open_segment :: "serializer \<Rightarrow> (string \<Rightarrow> bool) \<Rightarrow> record_writer \<Rightarrow> bool \<times> record_writer" where
  "open_segment ser can_open w =
     (if \<not> can_open (rw_path w) then (False, w\<lparr>rw_writer := None\<rparr>)
      else case WriteHeader ser (rw_header w) (fw_Open None (contents (rw_disk w) (rw_path w)) (rw_header w)) of
             (ok, fw) \<Rightarrow> (ok, w\<lparr>rw_writer := Some fw\<rparr>))"

text \<open>Closing the file writer puts its file on the disk.\<close>

definition close_segment :: "serializer \<Rightarrow> record_writer \<Rightarrow> record_writer" where
  "close_segment ser w =
     (case rw_writer w of
        None \<Rightarrow> w
      | Some fw \<Rightarrow> let fw = fw_Close ser fw
                  in w\<lparr>rw_writer := Some fw, rw_disk := (rw_disk w)(rw_path w \<mapsto> f_bytes (fw_file fw))\<rparr>)"

text \<open>Replacing the file writer destroys the one of an earlier file, which closes it.\<close>

definition rw_Open :: "serializer \<Rightarrow> (string \<Rightarrow> bool) \<Rightarrow> string \<Rightarrow> record_writer \<Rightarrow> bool \<times> record_writer" where
  "rw_Open ser can_open file w =
     (let w = (close_segment ser w)\<lparr>rw_file := file, rw_file_index := 1,
                rw_path := (if segmented (rw_header w) then segment_name file 0 else file)\<rparr>
      in case open_segment ser can_open w of
           (True, w) \<Rightarrow> (True, w\<lparr>rw_is_opened := True\<rparr>)
         | (False, w) \<Rightarrow> (False, close_segment ser w))"

definition rw_Close :: "serializer \<Rightarrow> record_writer \<Rightarrow> record_writer" where
  "rw_Close ser w = (if rw_is_opened w then (close_segment ser w)\<lparr>rw_is_opened := False\<rparr> else w)"

definition channel_of :: "record_writer \<Rightarrow> string \<Rightarrow> channel_desc" where
  "channel_of w c = \<lparr>ch_name = c, ch_message_type = (case rw_types w c of None \<Rightarrow> [] | Some t \<Rightarrow> t),
     ch_proto_desc = (case rw_descs w c of None \<Rightarrow> [] | Some d \<Rightarrow> d)\<rparr>"

fun write_channels :: "serializer \<Rightarrow> channel_desc list \<Rightarrow> file_writer \<Rightarrow> bool \<times> file_writer" where
  "write_channels ser [] fw = (True, fw)"
| "write_channels ser (c # cs) fw =
     (case fw_WriteChannel ser c fw of (False, fw) \<Rightarrow> (False, fw) | (True, fw) \<Rightarrow> write_channels ser cs fw)"

definition SplitOutfile :: "serializer \<Rightarrow> (string \<Rightarrow> bool) \<Rightarrow> string list \<Rightarrow> record_writer \<Rightarrow> bool \<times> record_writer" where
  "SplitOutfile ser can_open order w =
     (let i = (if rw_file_index w > 99999 then 0 else rw_file_index w);
          w = w\<lparr>rw_path := segment_name (rw_file w) i, rw_file_index := i + 1, rw_segment_raw_size := 0, rw_segment_begin_time := 0\<rparr>
      in case open_segment ser can_open w of
           (True, w) \<Rightarrow>
             (case rw_writer w of
                None \<Rightarrow> (True, w)
              | Some fw \<Rightarrow>
                  (case write_channels ser (map (channel_of w) order) fw of (ok, fw) \<Rightarrow> (ok, w\<lparr>rw_writer := Some fw\<rparr>)))
         | (False, w) \<Rightarrow> (False, w))"

definition IsNewChannel :: "string \<Rightarrow> record_writer \<Rightarrow> bool" where "IsNewChannel c w \<longleftrightarrow> rw_numbers w c = None"

definition OnNewChannel :: "string \<Rightarrow> string \<Rightarrow> u8 list \<Rightarrow> record_writer \<Rightarrow> record_writer" where
  "OnNewChannel c ty desc w =
     w\<lparr>rw_numbers := (rw_numbers w)(c \<mapsto> 0), rw_types := (rw_types w)(c \<mapsto> ty), rw_descs := (rw_descs w)(c \<mapsto> desc)\<rparr>"

definition OnNewMessage :: "string \<Rightarrow> record_writer \<Rightarrow> record_writer" where
  "OnNewMessage c w = (case rw_numbers w c of None \<Rightarrow> w | Some k \<Rightarrow> w\<lparr>rw_numbers := (rw_numbers w)(c \<mapsto> k + 1)\<rparr>)"

definition rw_WriteChannel :: "serializer \<Rightarrow> string \<Rightarrow> string \<Rightarrow> u8 list \<Rightarrow> record_writer \<Rightarrow> bool \<times> record_writer" where
  "rw_WriteChannel ser c ty desc w =
     (if \<not> IsNewChannel c w then (True, w)
      else let w = OnNewChannel c ty desc w
           in case rw_writer w of
                None \<Rightarrow> (False, w)
              | Some fw \<Rightarrow>
                  (case fw_WriteChannel ser \<lparr>ch_name = c, ch_message_type = ty, ch_proto_desc = desc\<rparr> fw of
                     (ok, fw) \<Rightarrow> (ok, w\<lparr>rw_writer := Some fw\<rparr>)))"

definition segment_full :: "single_message \<Rightarrow> record_writer \<Rightarrow> bool" where
  "segment_full m w \<longleftrightarrow>
     hd_segment_interval (rw_header w) > 0 \<and> sm_time m - rw_segment_begin_time w > hd_segment_interval (rw_header w) \<or>
     hd_segment_raw_size (rw_header w) > 0 \<and> rw_segment_raw_size w > hd_segment_raw_size (rw_header w)"

definition count_segment :: "single_message \<Rightarrow> record_writer \<Rightarrow> record_writer" where
  "count_segment m w =
     (let b0 = (if rw_segment_begin_time w = 0 then sm_time m else rw_segment_begin_time w)
      in w\<lparr>rw_segment_raw_size := rw_segment_raw_size w + of_nat (length (sm_content m)),
           rw_segment_begin_time := (if b0 > sm_time m then sm_time m else b0)\<rparr>)"

text \<open>
  \<open>None\<close>: a writer whose file could not be opened has no chunk to add the message to, which is a null pointer.
\<close>

definition rw_WriteMessage ::
  "serializer \<Rightarrow> (string \<Rightarrow> bool) \<Rightarrow> string list \<Rightarrow> single_message \<Rightarrow> record_writer \<Rightarrow> (bool \<times> record_writer) option" where
  "rw_WriteMessage ser can_open order m w =
     (case rw_writer w of
        None \<Rightarrow> None
      | Some fw \<Rightarrow>
          let w = OnNewMessage (sm_channel_name m) w;
              w = count_segment m (w\<lparr>rw_writer := Some (fw_WriteMessage m fw)\<rparr>)
          in Some (if segment_full m w then SplitOutfile ser can_open order (close_segment ser w) else (True, w)))"

text \<open>
  The typed \<^verbatim>\<open>WriteMessage\<close>: \<open>ty\<close> is the name of the message type, \<open>content\<close> its serialisation, which may fail.
\<close>

definition rw_GetMessageType :: "string \<Rightarrow> record_writer \<Rightarrow> string" where
  "rw_GetMessageType c w = (case rw_types w c of None \<Rightarrow> [] | Some t \<Rightarrow> t)"

definition rw_GetMessageNumber :: "string \<Rightarrow> record_writer \<Rightarrow> u64" where
  "rw_GetMessageNumber c w = (case rw_numbers w c of None \<Rightarrow> 0 | Some k \<Rightarrow> k)"

definition rw_GetProtoDesc :: "string \<Rightarrow> record_writer \<Rightarrow> u8 list" where
  "rw_GetProtoDesc c w = (case rw_descs w c of None \<Rightarrow> [] | Some d \<Rightarrow> d)"

definition rw_GetChannelList :: "record_writer \<Rightarrow> string set" where "rw_GetChannelList w = dom (rw_numbers w)"

definition rw_WriteMessage_typed ::
  "serializer \<Rightarrow> (string \<Rightarrow> bool) \<Rightarrow> string list \<Rightarrow> string \<Rightarrow> string \<Rightarrow> u8 list \<Rightarrow> u8 list option \<Rightarrow> u64 \<Rightarrow> record_writer \<Rightarrow> (bool \<times> record_writer) option" where
  "rw_WriteMessage_typed ser can_open order c ty desc content time w =
     (case (if rw_GetMessageType c w = [] then rw_WriteChannel ser c ty desc w else (ty = rw_GetMessageType c w, w)) of
        (False, w) \<Rightarrow> Some (False, w)
      | (True, w) \<Rightarrow>
          (case content of
             None \<Rightarrow> Some (False, w)
           | Some bs \<Rightarrow> rw_WriteMessage ser can_open order \<lparr>sm_channel_name = c, sm_time = time, sm_content = bs\<rparr> w))"

definition SetSizeOfFileSegmentation :: "u64 \<Rightarrow> record_writer \<Rightarrow> bool \<times> record_writer" where
  "SetSizeOfFileSegmentation kb w =
     (if rw_is_opened w then (False, w) else (True, w\<lparr>rw_header := (rw_header w)\<lparr>hd_segment_raw_size := kb * 1024\<rparr>\<rparr>))"

definition SetIntervalOfFileSegmentation :: "u64 \<Rightarrow> record_writer \<Rightarrow> bool \<times> record_writer" where
  "SetIntervalOfFileSegmentation sec w =
     (if rw_is_opened w then (False, w) else (True, w\<lparr>rw_header := (rw_header w)\<lparr>hd_segment_interval := sec * 1000000000\<rparr>\<rparr>))"

section \<open>Segments\<close>

lemma digits_inject: "i < 10 ^ k \<Longrightarrow> j < 10 ^ k \<Longrightarrow> digits k i = digits k j \<Longrightarrow> i = j"
proof (induction k arbitrary: i j)
  case (Suc k)
  have "char_of (48 + i mod 10) = (char_of (48 + j mod 10) :: char)" "digits k (i div 10) = digits k (j div 10)" using Suc.prems(3) by simp_all
  then have "of_char (char_of (48 + i mod 10) :: char) = (of_char (char_of (48 + j mod 10) :: char) :: nat)" "i div 10 = j div 10"
    using Suc.IH [of "i div 10" "j div 10"] Suc.prems(1,2) by (simp_all add: less_mult_imp_div_less mult.commute)
  moreover have "i mod 10 < 10" "j mod 10 < 10" by simp_all
  ultimately have "i mod 10 = j mod 10" by (simp add: of_char_of)
  then show ?case using \<open>i div 10 = j div 10\<close> by (metis div_mult_mod_eq)
qed simp

lemma segment_name_inject: "i < 100000 \<Longrightarrow> j < 100000 \<Longrightarrow> segment_name f i = segment_name f j \<Longrightarrow> i = j"
  using digits_inject [of i 5 j] by (simp add: segment_name_def)

definition started :: "serializer \<Rightarrow> rec_header \<Rightarrow> u8 list \<Rightarrow> file_writer" where
  "started ser h old = snd (WriteHeader ser h (fw_Open None old h))"

lemma started_ok:
  assumes "\<And>h. length (ser (SHeader h)) \<le> HEADER_LENGTH" "hd_message_number h = 0"
  shows "writer_ok ser [] [] (started ser h old)" "fst (WriteHeader ser h (fw_Open None old h))"
proof -
  show "writer_ok ser [] [] (started ser h old)" unfolding started_def using assms by (intro open_ok)
  obtain f where "WriteHeader ser h (fw_Open None old h) = (True, (fw_Open None old h)\<lparr>fw_file := f, fw_header := h\<lparr>hd_size := CurrentPosition f\<rparr>\<rparr>)"
    using header_write [of "fw_Open None old h" ser h old "[]"] assms(1) by (auto simp: fw_Open_def)
  then show "fst (WriteHeader ser h (fw_Open None old h))" by simp
qed

lemma open_segment_eq:
  assumes "\<And>h. length (ser (SHeader h)) \<le> HEADER_LENGTH" "hd_message_number (rw_header w) = 0"
  shows "open_segment ser (\<lambda>_. True) w = (True, w\<lparr>rw_writer := Some (started ser (rw_header w) (contents (rw_disk w) (rw_path w)))\<rparr>)"
  using started_ok(2) [of ser "rw_header w" "contents (rw_disk w) (rw_path w)", OF assms]
  by (auto simp: open_segment_def started_def split: prod.split bool.split)

lemma write_channels_eq: "writer_ok ser its ps fw \<Longrightarrow> write_channels ser cs fw = (True, fold (fw_op ser) (map PutChannel cs) fw)"
proof (induction cs arbitrary: its fw)
  case (Cons c cs)
  obtain fw' where fw': "fw_WriteChannel ser c fw = (True, fw')" using channel_ok(1) [OF Cons.prems, of c] by (cases "fw_WriteChannel ser c fw") auto
  have "writer_ok ser (its @ [Chan c]) ps fw'" using channel_ok(2) [OF Cons.prems, of c] fw' by simp
  then show ?case using Cons.IH fw' by simp
qed simp

text \<open>
  Where a record is split, as a function of its messages alone: after the message with which the segment
  holds more than \<^verbatim>\<open>segment_raw_size\<close> bytes of contents or spans more than \<^verbatim>\<open>segment_interval\<close>.  \<open>cut_at h [] ms\<close>
  are the messages of the segments; the last segment is the open one.
\<close>

definition seg_size :: "single_message list \<Rightarrow> u64" where
  "seg_size ms = sum_list (map (\<lambda>m. of_nat (length (sm_content m))) ms)"

definition seg_begin :: "single_message list \<Rightarrow> u64" where
  "seg_begin ms = fold (\<lambda>m b. let b0 = (if b = 0 then sm_time m else b) in min b0 (sm_time m)) ms 0"

definition seg_full :: "rec_header \<Rightarrow> single_message list \<Rightarrow> bool" where
  "seg_full h ms \<longleftrightarrow>
     hd_segment_interval h > 0 \<and> sm_time (last ms) - seg_begin ms > hd_segment_interval h \<or>
     hd_segment_raw_size h > 0 \<and> seg_size ms > hd_segment_raw_size h"

fun cut_at :: "rec_header \<Rightarrow> single_message list \<Rightarrow> single_message list \<Rightarrow> single_message list list" where
  "cut_at h cur [] = [cur]"
| "cut_at h cur (m # ms) = (if seg_full h (cur @ [m]) then (cur @ [m]) # cut_at h [] ms else cut_at h (cur @ [m]) ms)"

lemma cut_not_Nil: "cut_at h cur ms \<noteq> []"
  by (induction h cur ms rule: cut_at.induct) simp_all

lemma concat_cut: "concat (cut_at h cur ms) = cur @ ms"
  by (induction h cur ms rule: cut_at.induct) simp_all

text \<open>The begin of a segment is the earliest time of its messages, if these have times.\<close>

lemma seg_begin_Min:
  assumes "\<forall>m\<in>set ms. sm_time m \<noteq> 0" "ms \<noteq> []"
  shows "seg_begin ms = Min (sm_time ` set ms)"
  using assms
proof (induction ms rule: rev_induct)
  case (snoc m ms)
  then show ?case
  proof (cases "ms = []")
    case False
    then have ne: "seg_begin ms = Min (sm_time ` set ms)" using snoc by simp
    have "Min (sm_time ` set ms) \<in> sm_time ` set ms" using False by (intro Min_in) auto
    then have "Min (sm_time ` set ms) \<noteq> 0" using snoc.prems(1) by auto
    then have "seg_begin (ms @ [m]) = min (Min (sm_time ` set ms)) (sm_time m)" using ne by (simp add: seg_begin_def)
    then show ?thesis using False by (simp add: min.commute)
  qed (simp add: seg_begin_def)
qed simp

text \<open>The counters of the writer, as \<^verbatim>\<open>count_segment\<close> keeps them.\<close>

lemma seg_snoc:
  "seg_size (ms @ [m]) = seg_size ms + of_nat (length (sm_content m))"
  "seg_begin (ms @ [m]) = (let b0 = (if seg_begin ms = 0 then sm_time m else seg_begin ms) in if b0 > sm_time m then sm_time m else b0)"
  by (auto simp: seg_size_def seg_begin_def Let_def min_def)

text \<open>
  \<open>segs\<close> are the operations on the finished segments, \<open>cur\<close> those on the open one,
  \<open>d0\<close> what was on the disk before.
\<close>

definition segments_ok ::
  "serializer \<Rightarrow> (string \<rightharpoonup> u8 list) \<Rightarrow> rec_header \<Rightarrow> string \<Rightarrow> write_op list list \<Rightarrow> write_op list \<Rightarrow> record_writer \<Rightarrow> bool" where
  "segments_ok ser d0 h file segs cur w \<longleftrightarrow>
     rw_header w = h \<and> rw_file w = file \<and> rw_is_opened w \<and> rw_file_index w = Suc (length segs) \<and> rw_path w = segment_name file (length segs) \<and>
     rw_writer w = Some (fold (fw_op ser) cur (started ser h (contents d0 (rw_path w)))) \<and>
     (\<forall>i<length segs. rw_disk w (segment_name file i) =
        Some (f_bytes (fw_file (written_file ser (contents d0 (segment_name file i)) h (segs ! i))))) \<and>
     (\<forall>p. (\<forall>i<length segs. p \<noteq> segment_name file i) \<longrightarrow> rw_disk w p = d0 p) \<and>
     rw_segment_raw_size w = seg_size (put_messages cur) \<and> rw_segment_begin_time w = seg_begin (put_messages cur)"

lemma segments_okD:
  assumes "segments_ok ser d0 h file segs cur w"
  shows "rw_header w = h" "rw_file w = file" "rw_is_opened w" "rw_file_index w = Suc (length segs)" "rw_path w = segment_name file (length segs)"
    "rw_writer w = Some (fold (fw_op ser) cur (started ser h (contents d0 (rw_path w))))"
    "i < length segs \<Longrightarrow> rw_disk w (segment_name file i) = Some (f_bytes (fw_file (written_file ser (contents d0 (segment_name file i)) h (segs ! i))))"
    "(\<And>i. i < length segs \<Longrightarrow> p \<noteq> segment_name file i) \<Longrightarrow> rw_disk w p = d0 p"
    "rw_segment_raw_size w = seg_size (put_messages cur)" "rw_segment_begin_time w = seg_begin (put_messages cur)"
  using assms unfolding segments_ok_def by blast+

text \<open>The operations so far are cut where the messages \<open>ps\<close> so far are, whatever comes after.\<close>

definition cuts :: "rec_header \<Rightarrow> write_op list list \<Rightarrow> write_op list \<Rightarrow> single_message list \<Rightarrow> bool" where
  "cuts h segs cur ps \<longleftrightarrow> (\<forall>rest. cut_at h [] (ps @ rest) = map put_messages segs @ cut_at h (put_messages cur) rest)"

lemma cuts_op:
  "cuts h segs cur ps \<Longrightarrow> put_messages [op] = [] \<Longrightarrow> cuts h segs (cur @ [op]) ps"
  "cuts h segs cur ps \<Longrightarrow> \<not> seg_full h (put_messages cur @ [m]) \<Longrightarrow> cuts h segs (cur @ [PutMessage m]) (ps @ [m])"
  "cuts h segs cur ps \<Longrightarrow> seg_full h (put_messages cur @ [m]) \<Longrightarrow> put_messages cur' = [] \<Longrightarrow>
     cuts h (segs @ [cur @ [PutMessage m]]) cur' (ps @ [m])"
  by (simp_all add: cuts_def)

lemma cuts_length: "cuts h segs cur ps \<Longrightarrow> length segs < length (cut_at h [] (ps @ rest))"
  using cut_not_Nil [of h "put_messages cur" rest] by (simp add: cuts_def)

lemma closed_segment:
  "f_bytes (fw_file (fw_Close ser (fold (fw_op ser) cur (started ser h old)))) = f_bytes (fw_file (written_file ser old h cur))"
  by (simp add: written_file_def started_def)

text \<open>Operations on the open segment.\<close>

lemma segments_ok_op:
  assumes "segments_ok ser d0 h file segs cur w" "rw_writer w' = map_option (fw_op ser op) (rw_writer w)"
    and "rw_header w' = rw_header w" "rw_file w' = rw_file w" "rw_is_opened w' = rw_is_opened w" "rw_file_index w' = rw_file_index w"
      "rw_path w' = rw_path w" "rw_disk w' = rw_disk w"
      "rw_segment_raw_size w' = seg_size (put_messages (cur @ [op]))" "rw_segment_begin_time w' = seg_begin (put_messages (cur @ [op]))"
  shows "segments_ok ser d0 h file segs (cur @ [op]) w'"
  using assms unfolding segments_ok_def by auto

text \<open>Going on to the next segment.\<close>

lemma segments_ok_split:
  assumes "segments_ok ser d0 h file segs cur w" "\<And>h. length (ser (SHeader h)) \<le> HEADER_LENGTH" "hd_message_number h = 0"
    and "Suc (length segs) < 100000" "SplitOutfile ser (\<lambda>_. True) order (close_segment ser w) = (r, w')"
  shows "r \<and> (\<exists>cur'. put_messages cur' = [] \<and> segments_ok ser d0 h file (segs @ [cur]) cur' w')"
proof -
  note D = segments_okD [OF assms(1)]
  let ?n = "length segs" let ?p = "segment_name file (Suc ?n)"
  have disk: "rw_disk (close_segment ser w) = (rw_disk w)(segment_name file ?n \<mapsto>
      f_bytes (fw_file (written_file ser (contents d0 (segment_name file ?n)) h cur)))"
    using D(5,6) by (simp add: close_segment_def closed_segment)
  have keep: "rw_header (close_segment ser w) = h" "rw_file (close_segment ser w) = file" "rw_is_opened (close_segment ser w)"
    "rw_file_index (close_segment ser w) = Suc ?n"
    using D(1-4,6) by (simp_all add: close_segment_def Let_def)
  have ne: "?p \<noteq> segment_name file i" if "i \<le> ?n" for i using segment_name_inject [of "Suc ?n" i "file"] that assms(4) by auto
  then have "rw_disk (close_segment ser w) ?p = d0 ?p" using disk D(8) [of ?p] by simp
  then have old: "contents (rw_disk (close_segment ser w)) ?p = contents d0 ?p" by (simp add: contents_def)
  let ?w = "(close_segment ser w)\<lparr>rw_path := ?p, rw_file_index := Suc (Suc ?n), rw_segment_raw_size := 0, rw_segment_begin_time := 0\<rparr>"
  let ?cs = "map (channel_of (?w\<lparr>rw_writer := Some (started ser h (contents d0 ?p))\<rparr>)) order"
  have "open_segment ser (\<lambda>_. True) ?w = (True, ?w\<lparr>rw_writer := Some (started ser h (contents d0 ?p))\<rparr>)"
    using open_segment_eq [of ser ?w, OF assms(2)] assms(3) keep(1) old by simp
  then have "SplitOutfile ser (\<lambda>_. True) order (close_segment ser w) =
      (True, ?w\<lparr>rw_writer := Some (fold (fw_op ser) (map PutChannel ?cs) (started ser h (contents d0 ?p)))\<rparr>)"
    using assms(4) write_channels_eq [OF started_ok(1) [where ser = ser and h = h and old = "contents d0 ?p", OF assms(2,3)], of ?cs]
    by (simp add: SplitOutfile_def keep Let_def)
  then have r: "r" and w': "w' = ?w\<lparr>rw_writer := Some (fold (fw_op ser) (map PutChannel ?cs) (started ser h (contents d0 ?p)))\<rparr>"
    using assms(5) by simp_all
  have "rw_disk w' (segment_name file i) = Some (f_bytes (fw_file (written_file ser (contents d0 (segment_name file i)) h ((segs @ [cur]) ! i))))"
    if "i < Suc ?n" for i
    using that D(7) [of i] disk segment_name_inject [of i ?n "file"] assms(4) by (cases "i = ?n") (auto simp: w' nth_append)
  moreover have "rw_disk w' p = d0 p" if "\<forall>i<Suc ?n. p \<noteq> segment_name file i" for p
    using that D(8) [of p] disk by (auto simp: w')
  ultimately have "segments_ok ser d0 h file (segs @ [cur]) (map PutChannel ?cs) w'"
    using keep unfolding segments_ok_def by (simp add: w' seg_size_def seg_begin_def del: map_map)
  moreover have "put_messages (map PutChannel ?cs) = []" by (simp del: map_map)
  ultimately show ?thesis using r by blast
qed

section \<open>Runs\<close>

datatype rw_op = RwMessage "string list" single_message | RwChannel string string "u8 list" | RwFlush

fun rw_step :: "serializer \<Rightarrow> (string \<Rightarrow> bool) \<Rightarrow> rw_op \<Rightarrow> record_writer \<Rightarrow> record_writer option" where
  "rw_step ser can_open (RwMessage order m) w = map_option snd (rw_WriteMessage ser can_open order m w)"
| "rw_step ser can_open (RwChannel c ty desc) w = Some (snd (rw_WriteChannel ser c ty desc w))"
| "rw_step ser can_open RwFlush w = Some (w\<lparr>rw_writer := map_option (flush_turn ser) (rw_writer w)\<rparr>)"

fun rw_run :: "serializer \<Rightarrow> (string \<Rightarrow> bool) \<Rightarrow> rw_op list \<Rightarrow> record_writer \<Rightarrow> record_writer option" where
  "rw_run ser can_open [] w = Some w"
| "rw_run ser can_open (op # ops) w = (case rw_step ser can_open op w of None \<Rightarrow> None | Some w' \<Rightarrow> rw_run ser can_open ops w')"

fun rw_messages :: "rw_op list \<Rightarrow> single_message list" where
  "rw_messages [] = []"
| "rw_messages (RwMessage order m # ops) = m # rw_messages ops"
| "rw_messages (_ # ops) = rw_messages ops"

lemma OnNewMessage_keeps [simp]: "rw_writer (OnNewMessage c w) = rw_writer w" "rw_header (OnNewMessage c w) = rw_header w"
  "rw_file (OnNewMessage c w) = rw_file w" "rw_is_opened (OnNewMessage c w) = rw_is_opened w" "rw_file_index (OnNewMessage c w) = rw_file_index w"
  "rw_path (OnNewMessage c w) = rw_path w" "rw_disk (OnNewMessage c w) = rw_disk w"
  "rw_segment_raw_size (OnNewMessage c w) = rw_segment_raw_size w" "rw_segment_begin_time (OnNewMessage c w) = rw_segment_begin_time w"
  by (simp_all add: OnNewMessage_def split: option.split)

lemma segment_full_iff:
  assumes "segments_ok ser d0 h file segs (cur @ [PutMessage m]) w"
  shows "segment_full m w \<longleftrightarrow> seg_full h (put_messages cur @ [m])"
  using segments_okD [OF assms] by (simp add: segment_full_def seg_full_def)

text \<open>A message goes into the open segment, which is then closed if it is full.\<close>

lemma rw_message_ok:
  assumes "segments_ok ser d0 h file segs cur w" "\<And>h. length (ser (SHeader h)) \<le> HEADER_LENGTH" "hd_message_number h = 0"
    and "Suc (length segs) < 100000 \<or> \<not> seg_full h (put_messages cur @ [m])"
  shows "\<exists>w' cur'. rw_step ser (\<lambda>_. True) (RwMessage order m) w = Some w' \<and>
    (if seg_full h (put_messages cur @ [m]) then put_messages cur' = [] \<and> segments_ok ser d0 h file (segs @ [cur @ [PutMessage m]]) cur' w'
     else segments_ok ser d0 h file segs (cur @ [PutMessage m]) w')"
proof -
  note D = segments_okD [OF assms(1)]
  let ?fw = "fold (fw_op ser) cur (started ser h (contents d0 (rw_path w)))"
  let ?w = "count_segment m ((OnNewMessage (sm_channel_name m) w)\<lparr>rw_writer := Some (fw_WriteMessage m ?fw)\<rparr>)"
  have ok: "segments_ok ser d0 h file segs (cur @ [PutMessage m]) ?w"
    by (rule segments_ok_op [OF assms(1)]) (use D(6,9,10) in \<open>auto simp: count_segment_def Let_def seg_snoc\<close>)
  have st: "rw_step ser (\<lambda>_. True) (RwMessage order m) w =
      Some (snd (if segment_full m ?w then SplitOutfile ser (\<lambda>_. True) order (close_segment ser ?w) else (True, ?w)))"
    using D(6) by (simp add: rw_WriteMessage_def Let_def)
  note full = segment_full_iff [OF ok]
  show ?thesis
  proof (cases "segment_full m ?w")
    case True
    then have "Suc (length segs) < 100000" using assms(4) full by simp
    then have "\<exists>cur'. put_messages cur' = [] \<and>
        segments_ok ser d0 h file (segs @ [cur @ [PutMessage m]]) cur' (snd (SplitOutfile ser (\<lambda>_. True) order (close_segment ser ?w)))"
      using segments_ok_split [OF ok assms(2,3) _ surjective_pairing] by simp
    then show ?thesis using st True full by auto
  next
    case False
    then show ?thesis using st ok full by auto
  qed
qed

lemma rw_step_ok:
  assumes "segments_ok ser d0 h file segs cur w" "cuts h segs cur ps" "\<And>h. length (ser (SHeader h)) \<le> HEADER_LENGTH" "hd_message_number h = 0"
    and "length (cut_at h [] (ps @ rw_messages [op] @ rest)) \<le> 100000"
  shows "\<exists>w' segs' cur'. rw_step ser (\<lambda>_. True) op w = Some w' \<and> segments_ok ser d0 h file segs' cur' w'
    \<and> cuts h segs' cur' (ps @ rw_messages [op])"
proof (cases op)
  case (RwMessage order m)
  have c: "cuts h (segs @ [cur @ [PutMessage m]]) cur' (ps @ [m])" if "seg_full h (put_messages cur @ [m])" "put_messages cur' = []" for cur'
    using cuts_op(3) [OF assms(2) that] .
  have "Suc (length segs) < 100000 \<or> \<not> seg_full h (put_messages cur @ [m])"
    using cuts_length [OF c [of "[]"], of rest] assms(5) RwMessage by auto
  from rw_message_ok [OF assms(1,3,4) this, of order] show ?thesis
    using RwMessage c cuts_op(2) [OF assms(2), of m] by (cases "seg_full h (put_messages cur @ [m])") auto
next
  case (RwChannel c ty desc)
  note D = segments_okD [OF assms(1)]
  let ?c = "\<lparr>ch_name = c, ch_message_type = ty, ch_proto_desc = desc\<rparr>"
  show ?thesis
  proof (cases "IsNewChannel c w")
    case True
    have "segments_ok ser d0 h file segs (cur @ [PutChannel ?c]) (snd (rw_WriteChannel ser c ty desc w))"
      by (rule segments_ok_op [OF assms(1)]) (use True D(6,9,10) in \<open>simp_all add: rw_WriteChannel_def OnNewChannel_def Let_def split: prod.split\<close>)
    then show ?thesis using RwChannel cuts_op(1) [OF assms(2), of "PutChannel ?c"] by auto
  next
    case False
    then show ?thesis using assms(1,2) RwChannel by (auto simp: rw_WriteChannel_def)
  qed
next
  case RwFlush
  have "fw_op ser FlushTurn = flush_turn ser" by (rule ext) simp
  then have "segments_ok ser d0 h file segs (cur @ [FlushTurn]) (w\<lparr>rw_writer := map_option (flush_turn ser) (rw_writer w)\<rparr>)"
    using segments_okD(9,10) [OF assms(1)] by (intro segments_ok_op [OF assms(1)]) simp_all
  then show ?thesis using RwFlush cuts_op(1) [OF assms(2), of FlushTurn] by auto
qed

lemma rw_messages_Cons: "rw_messages (op # ops) = rw_messages [op] @ rw_messages ops" by (cases op) simp_all

lemma rw_run_ok:
  assumes "\<And>h. length (ser (SHeader h)) \<le> HEADER_LENGTH" "hd_message_number h = 0"
  shows "segments_ok ser d0 h file segs cur w \<Longrightarrow> cuts h segs cur ps \<Longrightarrow> length (cut_at h [] (ps @ rw_messages ops)) \<le> 100000 \<Longrightarrow>
    \<exists>w' segs' cur'. rw_run ser (\<lambda>_. True) ops w = Some w' \<and> segments_ok ser d0 h file segs' cur' w' \<and> cuts h segs' cur' (ps @ rw_messages ops)"
proof (induction ops arbitrary: segs cur ps w)
  case (Cons op ops)
  have n: "length (cut_at h [] (ps @ rw_messages [op] @ rw_messages ops)) \<le> 100000" using Cons.prems(3) rw_messages_Cons [of op ops] by simp
  obtain w1 segs1 cur1 where 1: "rw_step ser (\<lambda>_. True) op w = Some w1" "segments_ok ser d0 h file segs1 cur1 w1" "cuts h segs1 cur1 (ps @ rw_messages [op])"
    using rw_step_ok [OF Cons.prems(1,2) assms n] by auto
  then show ?case using Cons.IH [OF 1(2,3)] n rw_messages_Cons [of op ops] by auto
qed auto

lemma rw_Open_eq:
  assumes "\<And>h. length (ser (SHeader h)) \<le> HEADER_LENGTH" "hd_message_number h = 0" "segmented h"
  shows "snd (rw_Open ser (\<lambda>_. True) base (RecordWriter h d0)) =
    (RecordWriter h d0)\<lparr>rw_file := base, rw_file_index := 1, rw_path := segment_name base 0,
      rw_writer := Some (started ser h (contents d0 (segment_name base 0))), rw_is_opened := True\<rparr>"
proof -
  let ?w = "(RecordWriter h d0)\<lparr>rw_file := base, rw_file_index := 1, rw_path := segment_name base 0\<rparr>"
  have keep: "rw_header (RecordWriter h d0) = h" "rw_disk (RecordWriter h d0) = d0" "close_segment ser (RecordWriter h d0) = RecordWriter h d0"
    by (simp_all add: RecordWriter_def close_segment_def)
  have "open_segment ser (\<lambda>_. True) ?w = (True, ?w\<lparr>rw_writer := Some (started ser h (contents d0 (segment_name base 0)))\<rparr>)"
    using open_segment_eq [of ser ?w, OF assms(1)] assms(2) keep by simp
  then show ?thesis unfolding rw_Open_def Let_def keep using assms(3) by simp
qed

lemma opened_ok:
  assumes "\<And>h. length (ser (SHeader h)) \<le> HEADER_LENGTH" "hd_message_number h = 0" "segmented h"
  shows "segments_ok ser d0 h base [] [] (snd (rw_Open ser (\<lambda>_. True) base (RecordWriter h d0)))"
  unfolding rw_Open_eq [where ser = ser and h = h, OF assms] by (simp add: segments_ok_def RecordWriter_def seg_size_def seg_begin_def)

lemma closed_disk:
  assumes "segments_ok ser d0 h file segs cur w"
  shows "rw_disk (rw_Close ser w) = (rw_disk w)(segment_name file (length segs) \<mapsto>
      f_bytes (fw_file (written_file ser (contents d0 (segment_name file (length segs))) h cur)))"
  using segments_okD(3,5,6) [OF assms] by (simp add: rw_Close_def close_segment_def closed_segment)

text \<open>The files of a closed record, as runs of the file writer.\<close>

lemma record_files:
  assumes "protobuf_ok ser parse" "hd_message_number h = 0" "segmented h" "length (cut_at h [] (rw_messages ops)) \<le> 100000"
  obtains w segs where "rw_run ser (\<lambda>_. True) ops (snd (rw_Open ser (\<lambda>_. True) base (RecordWriter h d0))) = Some w"
    "map put_messages segs = cut_at h [] (rw_messages ops)"
    "\<forall>i<length segs. rw_disk (rw_Close ser w) (segment_name base i)
        = Some (f_bytes (fw_file (written_file ser (contents d0 (segment_name base i)) h (segs ! i))))"
    "\<forall>p. (\<forall>i<length segs. p \<noteq> segment_name base i) \<longrightarrow> rw_disk (rw_Close ser w) p = d0 p"
proof -
  have hl: "length (ser (SHeader x)) \<le> HEADER_LENGTH" for x using assms(1) by (simp add: protobuf_ok_def)
  let ?opened = "snd (rw_Open ser (\<lambda>_. True) base (RecordWriter h d0))"
  have "segments_ok ser d0 h base [] [] ?opened" using hl assms(2,3) by (rule opened_ok)
  moreover have "cuts h [] [] []" by (simp add: cuts_def)
  ultimately obtain w segs cur where r: "rw_run ser (\<lambda>_. True) ops ?opened = Some w" and ok: "segments_ok ser d0 h base segs cur w"
    and cs: "cuts h segs cur (rw_messages ops)"
    using rw_run_ok [where ser = ser and h = h and ps = "[]" and ops = ops, OF hl assms(2)] assms(4) by fastforce
  note D = segments_okD [OF ok]
  note disk = closed_disk [OF ok]
  have n: "length segs < 100000" using cuts_length [OF cs, of "[]"] assms(4) by simp
  have "rw_disk (rw_Close ser w) (segment_name base i) = Some (f_bytes (fw_file (written_file ser (contents d0 (segment_name base i)) h ((segs @ [cur]) ! i))))"
    if "i < length (segs @ [cur])" for i
    using that D(7) [of i] disk segment_name_inject [of i "length segs" "base"] n by (cases "i = length segs") (auto simp: nth_append)
  moreover have "rw_disk (rw_Close ser w) p = d0 p" if "\<forall>i<length (segs @ [cur]). p \<noteq> segment_name base i" for p
    using that D(8) [of p] disk by auto
  moreover have "map put_messages (segs @ [cur]) = cut_at h [] (rw_messages ops)"
    using cs [unfolded cuts_def, rule_format, of "[]"] by simp
  ultimately show thesis using that [OF r] by blast
qed


text \<open>A message of two bytes into a record whose segments take one: it is split at once.\<close>

definition two_bytes :: single_message where
  "two_bytes = \<lparr>sm_channel_name = ''a'', sm_time = 5, sm_content = [7, 7]\<rparr>"

definition tiny_segments :: rec_header where
  "tiny_segments = GetHeaderWithSegmentParams 0 1"

lemma tiny_segments_facts:
  "hd_message_number tiny_segments = 0" "segmented tiny_segments" "cut_at tiny_segments [] [two_bytes] = [[two_bytes], []]"
  by (simp_all add: tiny_segments_def GetHeaderWithSegmentParams_def build_header_def segmented_def seg_full_def seg_size_def two_bytes_def)

lemma plain_protobuf: "protobuf_ok plain_ser plain_parse"
  unfolding protobuf_ok_def using plain_parse_ser length_enc_header by (simp add: HEADER_LENGTH_def)

lemma first_split_file:
  assumes "rw_run plain_ser (\<lambda>_. True) [RwMessage [] two_bytes] (snd (rw_Open plain_ser (\<lambda>_. True) base (RecordWriter tiny_segments Map.empty))) = Some w"
  shows "rw_disk (rw_Close plain_ser w) (segment_name base 0) =
    Some (f_bytes (fw_file (written_file plain_ser [] tiny_segments [PutMessage two_bytes])))"
proof -
  have hl: "length (plain_ser (SHeader x)) \<le> HEADER_LENGTH" for x using plain_protobuf by (simp add: protobuf_ok_def)
  have full: "seg_full tiny_segments (put_messages [] @ [two_bytes])" using tiny_segments_facts(3) by (simp split: if_splits)
  from opened_ok [of plain_ser, OF hl tiny_segments_facts(1,2)] obtain w' cur' where
    w': "rw_step plain_ser (\<lambda>_. True) (RwMessage [] two_bytes) (snd (rw_Open plain_ser (\<lambda>_. True) base (RecordWriter tiny_segments Map.empty))) = Some w'"
      "segments_ok plain_ser Map.empty tiny_segments base [[PutMessage two_bytes]] cur' w'"
    using rw_message_ok [of plain_ser Map.empty tiny_segments base "[]" "[]", OF _ hl tiny_segments_facts(1)] full by fastforce
  have "w' = w" using assms w'(1) by (simp del: rw_step.simps)
  moreover have "segment_name base 0 \<noteq> segment_name base 1" using segment_name_inject [of 0 1 base] by auto
  ultimately show ?thesis using closed_disk [OF w'(2)] segments_okD(7) [OF w'(2), of 0] by (simp add: contents_def)
qed


end
