(* ===== verification/Livox_Protocol.thy ===== *)
theory Livox_Protocol
  imports Fast_Crc "HOL-Library.Monad_Syntax"
begin

text \<open>
  Command packets of the Livox driver (\<^verbatim>\<open>modules/drivers/livox/communication/protocol/livox_protocol.cc\<close>,
  \<^verbatim>\<open>livox_command/command.cc\<close>, \<^verbatim>\<open>lidar_dev_controller::create_package\<close>).  A buffer is the list of bytes at a pointer, \<open>addr\<close>
  is the address of the pointer, which the checksums look at.  \<open>None\<close> stands for an access outside of the
  buffer.  A pointer inside a packet is given as the bytes from it on.
\<close>

section \<open>Model\<close>

definition u16_bytes :: "u16 \<Rightarrow> u8 list" where "u16_bytes x = le_bytes 2 (unat x)"
definition u16_of_bytes :: "u8 list \<Rightarrow> u16" where "u16_of_bytes bs = of_nat (le_value bs)"

definition poke :: "nat \<Rightarrow> u8 list \<Rightarrow> u8 list \<Rightarrow> u8 list option" where
  "poke i bs buf = (if i + length bs \<le> length buf then Some (take i buf @ bs @ drop (i + length bs) buf) else None)"

definition peek :: "nat \<Rightarrow> nat \<Rightarrow> u8 list \<Rightarrow> u8 list option" where
  "peek i n buf = (if i + n \<le> length buf then Some (take n (drop i buf)) else None)"

record comm_packet =
  cp_packet_type :: u8
  cp_protocol :: u8
  cp_protocol_version :: u8
  cp_cmd_set :: u8
  cp_cmd_code :: u32
  cp_sender :: u32
  cp_sub_sender :: u32
  cp_receiver :: u32
  cp_sub_receiver :: u32
  cp_seq_num :: u32
  cp_data :: "u8 list"
  cp_data_len :: u16
  cp_padding :: u32

definition kSdkProtocolSof :: u8 where "kSdkProtocolSof = 0xAA"
definition kSdkPacketCrcSize :: u32 where "kSdkPacketCrcSize = 4"
definition kSdkPacketPreambleCrcSize :: u32 where "kSdkPacketPreambleCrcSize = 2"
definition GetPreambleLen :: u32 where "GetPreambleLen = 9"
definition GetPacketWrapperLen :: u32 where "GetPacketWrapperLen = 12 - 1 + kSdkPacketCrcSize"

text \<open>The seeds of both checksums.\<close>

record livox_protocol =
  lp_crc16 :: u16
  lp_crc32 :: u32

definition GetPacketLen :: "u8 list \<Rightarrow> u32 option" where
  "GetPacketLen buf = map_option (\<lambda>bs. ucast (u16_of_bytes bs)) (peek 2 2 buf)"

definition ParsePacket :: "u8 list \<Rightarrow> u32 \<Rightarrow> comm_packet \<Rightarrow> (int \<times> comm_packet) option" where
  "ParsePacket in_buf in_len out_packet =
     (if in_len < GetPacketWrapperLen then Some (-1, out_packet)
      else do {
        ty \<leftarrow> peek 4 1 in_buf;
        ver \<leftarrow> peek 1 1 in_buf;
        sq \<leftarrow> peek 5 2 in_buf;
        cset \<leftarrow> peek 9 1 in_buf;
        cid \<leftarrow> peek 10 1 in_buf;
        len \<leftarrow> peek 2 2 in_buf;
        Some (0, \<lparr>cp_packet_type = hd ty, cp_protocol = 0, cp_protocol_version = hd ver, cp_cmd_set = hd cset,
                  cp_cmd_code = ucast (hd cid), cp_sender = 0, cp_sub_sender = 0, cp_receiver = 0, cp_sub_receiver = 0,
                  cp_seq_num = ucast (u16_of_bytes sq), cp_data = drop 11 in_buf,
                  cp_data_len = ucast (ucast (u16_of_bytes len) - GetPacketWrapperLen), cp_padding = 0\<rparr>)
      })"

definition crc_bytes :: "u32 \<Rightarrow> u8 list" where
  "crc_bytes crc = [ucast (crc AND 0xff), ucast (drop_bit 8 crc AND 0xff), ucast (drop_bit 16 crc AND 0xff), ucast (drop_bit 24 crc AND 0xff)]"

text \<open>The checksum of the first \<open>len\<close> bytes, where \<open>len\<close> is converted to 16 bits.\<close>

definition crc32_of :: "livox_protocol \<Rightarrow> nat \<Rightarrow> u8 list \<Rightarrow> u32 \<Rightarrow> u32 option" where
  "crc32_of p addr buf len = map_option (crc32_calc (lp_crc32 p) addr) (peek 0 (unat (ucast len :: u16)) buf)"

definition Pack :: "livox_protocol \<Rightarrow> nat \<Rightarrow> u8 list \<Rightarrow> u32 \<Rightarrow> comm_packet \<Rightarrow> (int \<times> u32 option \<times> u8 list) option" where
  "Pack p addr out_buf out_buf_size in_packet =
     (if cp_protocol in_packet \<noteq> 0 then Some (-1, None, out_buf)
      else let len = ucast (ucast (cp_data_len in_packet) + GetPacketWrapperLen) :: u16 in do {
        buf \<leftarrow> poke 0 [kSdkProtocolSof] out_buf;
        buf \<leftarrow> poke 2 (u16_bytes len) buf;
        if out_buf_size < ucast len then Some (-1, None, buf)
        else do {
          buf \<leftarrow> poke 1 [1] buf;
          buf \<leftarrow> poke 4 [cp_packet_type in_packet] buf;
          buf \<leftarrow> poke 5 (u16_bytes (ucast (cp_seq_num in_packet AND 0xffff))) buf;
          pre \<leftarrow> peek 0 (unat (GetPreambleLen - kSdkPacketPreambleCrcSize)) buf;
          buf \<leftarrow> poke 7 (u16_bytes (mcrf4xx_calc (lp_crc16 p) addr pre)) buf;
          buf \<leftarrow> poke 9 [cp_cmd_set in_packet] buf;
          buf \<leftarrow> poke 10 [ucast (cp_cmd_code in_packet)] buf;
          data \<leftarrow> peek 0 (unat (cp_data_len in_packet)) (cp_data in_packet);
          buf \<leftarrow> poke 11 data buf;
          crc \<leftarrow> crc32_of p addr buf (ucast len - kSdkPacketCrcSize);
          (if unat len < 4 then None else Some ());
          buf \<leftarrow> poke (unat len - 4) (crc_bytes crc) buf;
          Some (0, Some (ucast len), buf)
        }
      })"

definition CheckPreamble :: "livox_protocol \<Rightarrow> nat \<Rightarrow> u8 list \<Rightarrow> int option" where
  "CheckPreamble p addr buf = do {
     sof \<leftarrow> peek 0 1 buf;
     pre \<leftarrow> peek 0 (unat GetPreambleLen) buf;
     Some (if hd sof = kSdkProtocolSof \<and> mcrf4xx_calc (lp_crc16 p) addr pre = 0 then 0 else -1)
   }"

definition join_crc :: "u8 list \<Rightarrow> u32" where
  "join_crc bs = ucast (bs ! 0) OR push_bit 8 (ucast (bs ! 1)) OR push_bit 16 (ucast (bs ! 2)) OR push_bit 24 (ucast (bs ! 3))"

definition CheckPacket :: "livox_protocol \<Rightarrow> nat \<Rightarrow> u8 list \<Rightarrow> int option" where
  "CheckPacket p addr buf = do {
     lb \<leftarrow> peek 2 2 buf;
     let len = u16_of_bytes lb;
     (if unat len < 4 then None else Some ());
     bs \<leftarrow> peek (unat len - 4) 4 buf;
     crc \<leftarrow> crc32_of p addr buf (ucast len - kSdkPacketCrcSize);
     Some (if crc = join_crc bs then 0 else -1)
   }"

text \<open>\<open>junk\<close> is the length variable, which is not initialised and not set when \<^verbatim>\<open>Pack\<close> fails.\<close>

definition MAX_MESSAGE_BUF_SIZE :: u32 where "MAX_MESSAGE_BUF_SIZE = 1500"

definition create_package ::
  "livox_protocol \<Rightarrow> nat \<Rightarrow> u8 list \<Rightarrow> u32 \<Rightarrow> u8 \<Rightarrow> u8 \<Rightarrow> u32 \<Rightarrow> u16 \<Rightarrow> u8 list \<Rightarrow> (u32 \<times> u8 list) option" where
  "create_package p addr package junk cmd_type cmd_set cmd_code cmd_len cmd = do {
     (r, o_len, package) \<leftarrow> Pack p addr package MAX_MESSAGE_BUF_SIZE
       \<lparr>cp_packet_type = cmd_type, cp_protocol = 0, cp_protocol_version = 0, cp_cmd_set = cmd_set, cp_cmd_code = cmd_code,
        cp_sender = 0, cp_sub_sender = 0, cp_receiver = 0, cp_sub_receiver = 0, cp_seq_num = 0, cp_data = cmd,
        cp_data_len = cmd_len, cp_padding = 0\<rparr>;
     ret \<leftarrow> CheckPacket p addr package;
     Some (if ret < 0 then 0 else case o_len of None \<Rightarrow> junk | Some n \<Rightarrow> n, package)
   }"

subsection \<open>Commands\<close>

text \<open>
  \<open>data\<close> is the buffer for a command, \<open>None\<close> the null pointer; \<open>len\<close> is the variable for its length, which a null pointer leaves as
  it was.  Floats are given by their four bytes.
\<close>

definition instruction :: "u8 list \<Rightarrow> u8 list option \<Rightarrow> int \<Rightarrow> (u8 list option \<times> int) option" where
  "instruction bs data len =
     (case data of None \<Rightarrow> Some (None, len) | Some mem \<Rightarrow> map_option (\<lambda>mem'. (Some mem', int (length bs))) (poke 0 bs mem))"

definition no_instruction :: "u8 list option \<Rightarrow> int \<Rightarrow> (u8 list option \<times> int) option" where
  "no_instruction data len = Some (data, 0)"

definition create_instruction_handshake ::
  "u8 list option \<Rightarrow> int \<Rightarrow> u32 \<Rightarrow> u16 \<Rightarrow> u16 \<Rightarrow> u16 \<Rightarrow> (u8 list option \<times> int) option" where
  "create_instruction_handshake data len ip d_port c_port s_port =
     instruction (u32_bytes ip @ u16_bytes d_port @ u16_bytes c_port @ u16_bytes s_port) data len"

definition create_instruction_inquiry :: "u8 list option \<Rightarrow> int \<Rightarrow> (u8 list option \<times> int) option" where
  "create_instruction_inquiry data len = no_instruction data len"

definition create_instruction_heartbeat :: "u8 list option \<Rightarrow> int \<Rightarrow> (u8 list option \<times> int) option" where
  "create_instruction_heartbeat data len = no_instruction data len"

definition create_instruction_sample :: "u8 list option \<Rightarrow> int \<Rightarrow> u8 \<Rightarrow> (u8 list option \<times> int) option" where
  "create_instruction_sample data len s_ctrl = instruction [s_ctrl] data len"

definition create_instruction_changecoord :: "u8 list option \<Rightarrow> int \<Rightarrow> u8 \<Rightarrow> (u8 list option \<times> int) option" where
  "create_instruction_changecoord data len co_type = instruction [co_type] data len"

definition create_instruction_disconnect :: "u8 list option \<Rightarrow> int \<Rightarrow> (u8 list option \<times> int) option" where
  "create_instruction_disconnect data len = no_instruction data len"

definition create_instruction_exception :: "u8 list option \<Rightarrow> int \<Rightarrow> u8 \<Rightarrow> (u8 list option \<times> int) option" where
  "create_instruction_exception data len s_code = instruction [s_code] data len"

definition create_instruction_set_ipaddr :: "u8 list option \<Rightarrow> int \<Rightarrow> u8 \<Rightarrow> u32 \<Rightarrow> u32 \<Rightarrow> u32 \<Rightarrow> (u8 list option \<times> int) option" where
  "create_instruction_set_ipaddr data len mode ip_addr net_mask gate =
     instruction ([mode] @ u32_bytes ip_addr @ u32_bytes net_mask @ u32_bytes gate) data len"

definition create_instruction_get_ipaddr :: "u8 list option \<Rightarrow> int \<Rightarrow> (u8 list option \<times> int) option" where
  "create_instruction_get_ipaddr data len = no_instruction data len"

definition create_instruction_reboot :: "u8 list option \<Rightarrow> int \<Rightarrow> u16 \<Rightarrow> (u8 list option \<times> int) option" where
  "create_instruction_reboot data len t_out = instruction (u16_bytes t_out) data len"

text \<open>These two are empty: neither the buffer nor the length is set.\<close>

definition create_instruction_write :: "u8 list option \<Rightarrow> int \<Rightarrow> u8 list \<Rightarrow> (u8 list option \<times> int) option" where
  "create_instruction_write data len ptr = Some (data, len)"

definition create_instruction_read :: "u8 list option \<Rightarrow> int \<Rightarrow> u8 \<Rightarrow> (u8 list option \<times> int) option" where
  "create_instruction_read data len p_num = Some (data, len)"

definition create_instruction_change_mode :: "u8 list option \<Rightarrow> int \<Rightarrow> u8 \<Rightarrow> (u8 list option \<times> int) option" where
  "create_instruction_change_mode data len mod' = instruction [mod'] data len"

definition create_instruction_set_calib ::
  "u8 list option \<Rightarrow> int \<Rightarrow> u32 \<Rightarrow> u32 \<Rightarrow> u32 \<Rightarrow> u32 \<Rightarrow> u32 \<Rightarrow> u32 \<Rightarrow> (u8 list option \<times> int) option" where
  "create_instruction_set_calib data len roll pitch yaw x y z =
     instruction (u32_bytes roll @ u32_bytes pitch @ u32_bytes yaw @ u32_bytes x @ u32_bytes y @ u32_bytes z) data len"

definition create_instruction_get_calib :: "u8 list option \<Rightarrow> int \<Rightarrow> (u8 list option \<times> int) option" where
  "create_instruction_get_calib data len = no_instruction data len"

definition create_instruction_fog :: "u8 list option \<Rightarrow> int \<Rightarrow> u8 \<Rightarrow> (u8 list option \<times> int) option" where
  "create_instruction_fog data len state = instruction [state] data len"

definition create_instruction_fancontrol :: "u8 list option \<Rightarrow> int \<Rightarrow> u8 \<Rightarrow> (u8 list option \<times> int) option" where
  "create_instruction_fancontrol data len state = instruction [state] data len"

definition create_instruction_get_fan :: "u8 list option \<Rightarrow> int \<Rightarrow> (u8 list option \<times> int) option" where
  "create_instruction_get_fan data len = no_instruction data len"

definition create_instruction_set_echo :: "u8 list option \<Rightarrow> int \<Rightarrow> u8 \<Rightarrow> (u8 list option \<times> int) option" where
  "create_instruction_set_echo data len mode = instruction [mode] data len"

definition create_instruction_get_echo :: "u8 list option \<Rightarrow> int \<Rightarrow> (u8 list option \<times> int) option" where
  "create_instruction_get_echo data len = no_instruction data len"

definition create_instruction_set_imu :: "u8 list option \<Rightarrow> int \<Rightarrow> u8 \<Rightarrow> (u8 list option \<times> int) option" where
  "create_instruction_set_imu data len freq = instruction [freq] data len"

definition create_instruction_get_imu :: "u8 list option \<Rightarrow> int \<Rightarrow> (u8 list option \<times> int) option" where
  "create_instruction_get_imu data len = no_instruction data len"

section \<open>Bytes\<close>

lemma length_u16_bytes [simp]: "length (u16_bytes x) = 2" by (simp add: u16_bytes_def)

lemma u16_bytes_roundtrip [simp]: "u16_of_bytes (u16_bytes x) = x"
  using unsigned_less [of x, where 'a = nat] by (simp add: u16_of_bytes_def u16_bytes_def le_value_le_bytes)

lemma u16_bytes_eq: "u16_bytes x = [ucast x, ucast (drop_bit 8 x)]"
proof -
  have low: "of_nat (unat y mod 256) = (ucast y :: u8)" for y :: u16
    by (rule bit_word_eqI) (simp add: bit_simps take_bit_eq_mod [of 8, simplified, symmetric])
  have "unat x div 256 = unat (drop_bit 8 x)" by (simp add: drop_bit_eq_div unat_div)
  then show ?thesis using low [of x] low [of "drop_bit 8 x"] by (simp only: u16_bytes_def numeral_2_eq_2 le_bytes.simps)
qed

lemma join_crc_bytes: "join_crc (crc_bytes crc) = crc"
proof -
  have "crc = take_bit 8 crc OR push_bit 8 (take_bit 8 (drop_bit 8 crc)) OR push_bit 16 (take_bit 8 (drop_bit 16 crc)) OR push_bit 24 (take_bit 8 (drop_bit 24 crc))"
  proof (rule bit_word_eqI)
    fix n assume "n < LENGTH(32)"
    then show "bit crc n = bit (take_bit 8 crc OR push_bit 8 (take_bit 8 (drop_bit 8 crc)) OR push_bit 16 (take_bit 8 (drop_bit 16 crc)) OR
        push_bit 24 (take_bit 8 (drop_bit 24 crc))) n"
      by (cases "n < 16"; cases "n < 24") (auto simp: bit_simps)
  qed
  moreover have "ucast (ucast (x AND 0xff) :: u8) = take_bit 8 x" for x :: u32
    unfolding ff_mask by (rule bit_word_eqI) (auto simp: bit_simps)
  ultimately show ?thesis by (simp add: join_crc_def crc_bytes_def)
qed

text \<open>The checksum of a message followed by its checksum, lowest byte first, is zero.\<close>

lemma mcrf4xx_residue: "mcrf4xx_calc seed addr (bs @ u16_bytes (mcrf4xx_calc seed addr' bs)) = 0"
proof -
  let ?c = "crc_reference 0x8408 seed bs"
  have low: "crc_bits 0x8408 8 (?c XOR ucast (ucast ?c :: u8)) = drop_bit 8 ?c"
  proof -
    have "(?c XOR ucast (ucast ?c :: u8)) AND mask 8 = 0" "drop_bit 8 (?c XOR ucast (ucast ?c :: u8)) = drop_bit 8 ?c"
      by (rule bit_word_eqI, auto simp: bit_simps)+
    then show ?thesis using crc_bits_low [of 8 "0x8408" "?c XOR ucast (ucast ?c :: u8)"] by simp
  qed
  have "drop_bit 8 ?c XOR ucast (ucast (drop_bit 8 ?c) :: u8) = 0" by (rule bit_word_eqI) (auto simp: bit_simps dest: bit_imp_le_length)
  then show ?thesis
    by (simp add: mcrf4xx_calc_reference reference_append u16_bytes_eq reference_Cons low)
qed

section \<open>Packets\<close>

definition preamble :: "comm_packet \<Rightarrow> u8 list" where
  "preamble pkt = [kSdkProtocolSof, 1] @ u16_bytes (cp_data_len pkt + 15) @ [cp_packet_type pkt] @ u16_bytes (ucast (cp_seq_num pkt AND 0xffff))"

definition packet_head :: "livox_protocol \<Rightarrow> nat \<Rightarrow> comm_packet \<Rightarrow> u8 list" where
  "packet_head p addr pkt = preamble pkt @ u16_bytes (mcrf4xx_calc (lp_crc16 p) addr (preamble pkt)) @ [cp_cmd_set pkt, ucast (cp_cmd_code pkt)] @
     take (unat (cp_data_len pkt)) (cp_data pkt)"

definition packet_bytes :: "livox_protocol \<Rightarrow> nat \<Rightarrow> comm_packet \<Rightarrow> u8 list" where
  "packet_bytes p addr pkt = packet_head p addr pkt @ crc_bytes (crc32_calc (lp_crc32 p) addr (packet_head p addr pkt))"

lemma length_crc_bytes [simp]: "length (crc_bytes c) = 4" by (simp add: crc_bytes_def)

lemma packet_lengths:
  assumes "unat (cp_data_len pkt) \<le> length (cp_data pkt)"
  shows "length (preamble pkt) = 7" "length (packet_head p addr pkt) = unat (cp_data_len pkt) + 11" "length (packet_bytes p addr pkt) = unat (cp_data_len pkt) + 15"
  using assms by (simp_all add: preamble_def packet_head_def packet_bytes_def)

lemma length_11: "11 \<le> length xs \<Longrightarrow> \<exists>a b c d e f g h i j k r. xs = a # b # c # d # e # f # g # h # i # j # k # r"
  by (auto simp: numeral_eq_Suc Suc_le_length_iff)

lemma poke_at: "i = length xs \<Longrightarrow> length bs \<le> length ys \<Longrightarrow> poke i bs (xs @ ys) = Some (xs @ bs @ drop (length bs) ys)"
  by (simp add: poke_def)

lemma Pack_eq:
  assumes "cp_protocol pkt = 0" "unat (cp_data_len pkt) + 15 < 65536" "unat (cp_data_len pkt) + 15 \<le> unat cap" "unat cap \<le> length out_buf"
    and "unat (cp_data_len pkt) \<le> length (cp_data pkt)"
  shows "Pack p addr out_buf cap pkt = Some (0, Some (ucast (cp_data_len pkt + 15)), packet_bytes p addr pkt @ drop (unat (cp_data_len pkt) + 15) out_buf)"
proof -
  let ?n = "unat (cp_data_len pkt)" let ?len = "cp_data_len pkt + 15"
  have len: "ucast (ucast (cp_data_len pkt) + GetPacketWrapperLen) = ?len"
    using unsigned_less [of "cp_data_len pkt", where 'a = nat]
    by (simp add: word_unat_eq_iff unsigned_ucast_eq unat_word_ariths take_bit_eq_mod GetPacketWrapperLen_def kSdkPacketCrcSize_def)
  have ulen: "unat ?len = ?n + 15" using assms(2) by (simp add: unat_word_ariths)
  obtain a b c' d e f g h i j k r where buf: "out_buf = a # b # c' # d # e # f # g # h # i # j # k # r"
    using length_11 [of out_buf] assms(3,4) by auto
  have r: "?n + 4 \<le> length r" using assms(3,4) buf by simp
  let ?pre = "preamble pkt" let ?c16 = "u16_bytes (mcrf4xx_calc (lp_crc16 p) addr ?pre)"
  let ?data = "take ?n (cp_data pkt)"
  obtain l0 l1 where l: "u16_bytes ?len = [l0, l1]" by (simp add: u16_bytes_eq)
  obtain s0 s1 where s: "u16_bytes (ucast (cp_seq_num pkt AND 0xffff)) = [s0, s1]" by (simp add: u16_bytes_eq)
  obtain c0 c1 where c: "?c16 = [c0, c1]" by (simp add: u16_bytes_eq)
  have pre: "?pre = [kSdkProtocolSof, 1, l0, l1, cp_packet_type pkt, s0, s1]" by (simp add: preamble_def l s)
  have head: "packet_head p addr pkt = ?pre @ [c0, c1, cp_cmd_set pkt, ucast (cp_cmd_code pkt)] @ ?data" by (simp add: packet_head_def c)
  have "unat (ucast (ucast ?len - kSdkPacketCrcSize :: u32) :: u16) = ?n + 11"
    using ulen assms(2) by (simp add: unsigned_ucast_eq take_bit_eq_mod unat_sub word_le_nat_alt kSdkPacketCrcSize_def)
  then have crc: "crc32_of p addr (packet_head p addr pkt @ drop ?n r) (ucast ?len - kSdkPacketCrcSize) = Some (crc32_calc (lp_crc32 p) addr (packet_head p addr pkt))"
    using packet_lengths(2) [OF assms(5), of p addr] by (simp add: crc32_of_def peek_def)
  have fits: "\<not> cap < ucast ?len" using ulen assms(3) by (simp add: word_less_nat_alt unsigned_ucast_eq take_bit_eq_mod)
  have pokes:
    "poke 0 [kSdkProtocolSof] out_buf = Some (kSdkProtocolSof # b # c' # d # e # f # g # h # i # j # k # r)"
    "poke 2 [l0, l1] (kSdkProtocolSof # b # c' # d # e # f # g # h # i # j # k # r) = Some (kSdkProtocolSof # b # l0 # l1 # e # f # g # h # i # j # k # r)"
    "poke 1 [1] (kSdkProtocolSof # b # l0 # l1 # e # f # g # h # i # j # k # r) = Some (kSdkProtocolSof # 1 # l0 # l1 # e # f # g # h # i # j # k # r)"
    "poke 4 [cp_packet_type pkt] (kSdkProtocolSof # 1 # l0 # l1 # e # f # g # h # i # j # k # r) =
      Some (kSdkProtocolSof # 1 # l0 # l1 # cp_packet_type pkt # f # g # h # i # j # k # r)"
    "poke 5 [s0, s1] (kSdkProtocolSof # 1 # l0 # l1 # cp_packet_type pkt # f # g # h # i # j # k # r) = Some (?pre @ h # i # j # k # r)"
    "peek 0 7 (?pre @ h # i # j # k # r) = Some ?pre"
    "poke 7 [c0, c1] (?pre @ h # i # j # k # r) = Some (?pre @ c0 # c1 # j # k # r)"
    "poke 9 [cp_cmd_set pkt] (?pre @ c0 # c1 # j # k # r) = Some (?pre @ c0 # c1 # cp_cmd_set pkt # k # r)"
    "poke 10 [ucast (cp_cmd_code pkt)] (?pre @ c0 # c1 # cp_cmd_set pkt # k # r) = Some (?pre @ c0 # c1 # cp_cmd_set pkt # ucast (cp_cmd_code pkt) # r)"
    by (simp_all add: poke_def peek_def buf pre)
  have data: "poke 11 ?data (?pre @ c0 # c1 # cp_cmd_set pkt # ucast (cp_cmd_code pkt) # r) = Some (packet_head p addr pkt @ drop ?n r)"
    using poke_at [of 11 "?pre @ [c0, c1, cp_cmd_set pkt, ucast (cp_cmd_code pkt)]" ?data r] r assms(5) by (simp add: head packet_lengths)
  have crc_end: "poke (11 + ?n) (crc_bytes crc) (packet_head p addr pkt @ drop ?n r) = Some (packet_head p addr pkt @ crc_bytes crc @ drop (?n + 4) r)" for crc
    using r packet_lengths(2) [OF assms(5), of p addr] by (simp add: poke_def ulen add.commute)
  have "peek 0 ?n (cp_data pkt) = Some ?data" using assms(5) by (simp add: peek_def)
  moreover have "unat (GetPreambleLen - kSdkPacketPreambleCrcSize) = 7" by (simp add: GetPreambleLen_def kSdkPacketPreambleCrcSize_def)
  moreover have "drop (?n + 15) out_buf = drop (?n + 4) r" using drop_drop [of "?n + 4" 11 out_buf] by (simp add: buf add.commute)
  ultimately show ?thesis
    using assms(1) fits ulen
    by (simp add: Pack_def Let_def len l s c pokes data crc crc_end packet_bytes_def del: One_nat_def)
qed
text \<open>What the receiver makes of these bytes, at any address.\<close>

lemma received:
  assumes "unat (cp_data_len pkt) \<le> length (cp_data pkt)" "unat (cp_data_len pkt) + 15 < 65536"
  shows "GetPacketLen (packet_bytes p addr pkt) = Some (ucast (cp_data_len pkt + 15))"
    and "CheckPreamble p addr' (packet_bytes p addr pkt) = Some 0"
    and "CheckPacket p addr' (packet_bytes p addr pkt) = Some 0"
proof -
  let ?n = "unat (cp_data_len pkt)" let ?len = "cp_data_len pkt + 15" let ?w = "packet_bytes p addr pkt"
  have ulen: "unat ?len = ?n + 15" using assms(2) by (simp add: unat_word_ariths)
  note lengths = packet_lengths [OF assms(1)]
  have two: "peek 2 2 ?w = Some (u16_bytes ?len)" by (simp add: peek_def packet_bytes_def packet_head_def preamble_def u16_bytes_eq)
  then show "GetPacketLen ?w = Some (ucast ?len)" by (simp add: GetPacketLen_def)
  have "peek 0 (unat GetPreambleLen) ?w = Some (preamble pkt @ u16_bytes (mcrf4xx_calc (lp_crc16 p) addr (preamble pkt)))"
    using lengths by (simp add: peek_def packet_bytes_def packet_head_def GetPreambleLen_def)
  moreover have "peek 0 1 ?w = Some [kSdkProtocolSof]" by (simp add: peek_def packet_bytes_def packet_head_def preamble_def)
  ultimately show "CheckPreamble p addr' ?w = Some 0" by (simp add: CheckPreamble_def mcrf4xx_residue)
  have "unat (ucast (ucast ?len - kSdkPacketCrcSize :: u32) :: u16) = ?n + 11"
    using ulen assms(2) by (simp add: unsigned_ucast_eq take_bit_eq_mod unat_sub word_le_nat_alt kSdkPacketCrcSize_def)
  then have "crc32_of p addr' ?w (ucast ?len - kSdkPacketCrcSize) = Some (crc32_calc (lp_crc32 p) addr (packet_head p addr pkt))"
    using lengths by (simp add: crc32_of_def peek_def packet_bytes_def crc32_calc_reference)
  moreover have "peek (unat ?len - 4) 4 ?w = Some (crc_bytes (crc32_calc (lp_crc32 p) addr (packet_head p addr pkt)))"
    using lengths by (simp add: peek_def packet_bytes_def ulen)
  ultimately show "CheckPacket p addr' ?w = Some 0" using ulen by (simp add: CheckPacket_def two join_crc_bytes)
qed

lemma parsed:
  assumes "unat (cp_data_len pkt) \<le> length (cp_data pkt)" "unat (cp_data_len pkt) + 15 < 65536"
  shows "\<exists>q. ParsePacket (packet_bytes p addr pkt) (ucast (cp_data_len pkt + 15)) q0 = Some (0, q) \<and>
    cp_packet_type q = cp_packet_type pkt \<and> cp_protocol_version q = 1 \<and> cp_cmd_set q = cp_cmd_set pkt \<and>
    cp_cmd_code q = cp_cmd_code pkt AND 0xff \<and> cp_seq_num q = cp_seq_num pkt AND 0xffff \<and> cp_data_len q = cp_data_len pkt \<and>
    take (unat (cp_data_len q)) (cp_data q) = take (unat (cp_data_len pkt)) (cp_data pkt)"
proof -
  let ?n = "unat (cp_data_len pkt)" let ?len = "cp_data_len pkt + 15" let ?w = "packet_bytes p addr pkt"
  have ulen: "unat ?len = ?n + 15" using assms(2) by (simp add: unat_word_ariths)
  have long: "\<not> (ucast ?len :: u32) < GetPacketWrapperLen"
    using ulen assms(2) by (simp add: word_less_nat_alt unsigned_ucast_eq take_bit_eq_mod GetPacketWrapperLen_def kSdkPacketCrcSize_def)
  have dl: "ucast (ucast ?len - GetPacketWrapperLen :: u32) = cp_data_len pkt"
    using ulen assms(2)
    by (simp add: word_unat_eq_iff unsigned_ucast_eq take_bit_eq_mod unat_sub word_le_nat_alt GetPacketWrapperLen_def kSdkPacketCrcSize_def)
  have m16: "(0xffff :: u32) = mask 16" by (simp add: mask_eq_exp_minus_1)
  have cut: "ucast (ucast x :: u8) = x AND 0xff" "ucast (ucast (x AND 0xffff) :: u16) = x AND 0xffff" for x :: u32
    unfolding ff_mask m16 by (rule bit_word_eqI, auto simp: bit_simps)+
  obtain s0 s1 where s: "u16_bytes (ucast (cp_seq_num pkt AND 0xffff)) = [s0, s1]" by (simp add: u16_bytes_eq)
  obtain l0 l1 where l: "u16_bytes ?len = [l0, l1]" by (simp add: u16_bytes_eq)
  have "u16_of_bytes [s0, s1] = ucast (cp_seq_num pkt AND 0xffff)" using u16_bytes_roundtrip s by metis
  moreover have "peek 4 1 ?w = Some [cp_packet_type pkt]" "peek 1 1 ?w = Some [1]" "peek 5 2 ?w = Some [s0, s1]" "peek 9 1 ?w = Some [cp_cmd_set pkt]"
    "peek 10 1 ?w = Some [ucast (cp_cmd_code pkt)]" "peek 2 2 ?w = Some (u16_bytes ?len)"
    "take ?n (drop 11 ?w) = take ?n (cp_data pkt)"
    using assms(1) by (simp_all add: peek_def packet_bytes_def packet_head_def preamble_def s l)
  ultimately show ?thesis using long dl cut(1) [of "cp_cmd_code pkt"] cut(2) [of "cp_seq_num pkt"] by (simp add: ParsePacket_def)
qed

lemma peek_append: "peek i n buf = Some bs \<Longrightarrow> peek i n (buf @ rest) = Some bs"
  by (auto simp: peek_def split: if_splits)

lemma CheckPacket_append:
  assumes "CheckPacket p addr buf = Some x"
  shows "CheckPacket p addr (buf @ rest) = Some x"
proof -
  obtain lb bs z where a: "peek 2 2 buf = Some lb" "peek (unat (u16_of_bytes lb) - 4) 4 buf = Some bs"
      "peek 0 (unat (ucast (ucast (u16_of_bytes lb) - kSdkPacketCrcSize :: u32) :: u16)) buf = Some z"
    and x: "\<not> unat (u16_of_bytes lb) < 4" "x = (if crc32_calc (lp_crc32 p) addr z = join_crc bs then 0 else -1)"
    using assms by (auto simp: CheckPacket_def crc32_of_def Let_def bind_eq_Some_conv split: if_splits)
  then show ?thesis by (simp add: CheckPacket_def crc32_of_def Let_def a [THEN peek_append])
qed

text \<open>
  \<^verbatim>\<open>create_package\<close> fills the buffer of 1500 bytes for every command of at most 1485.  A length that does not fit
  into 16 bits wraps before it is compared with the size of the buffer, and the copy leaves the buffer.
\<close>

lemma create_package_ok:
  assumes "unat cmd_len + 15 \<le> 1500" "length package = 1500" "unat cmd_len \<le> length cmd"
  shows "\<exists>wire q. create_package p addr package junk ty cset code cmd_len cmd = Some (ucast (cmd_len + 15), wire @ drop (length wire) package) \<and>
    length wire = unat cmd_len + 15 \<and> CheckPreamble p addr' wire = Some 0 \<and> CheckPacket p addr' wire = Some 0 \<and>
    ParsePacket wire (ucast (cmd_len + 15)) q0 = Some (0, q) \<and> cp_packet_type q = ty \<and> cp_cmd_set q = cset \<and>
    cp_cmd_code q = code AND 0xff \<and> cp_data_len q = cmd_len \<and> take (unat cmd_len) (cp_data q) = take (unat cmd_len) cmd"
proof -
  let ?pkt = "\<lparr>cp_packet_type = ty, cp_protocol = 0, cp_protocol_version = 0, cp_cmd_set = cset, cp_cmd_code = code,
        cp_sender = 0, cp_sub_sender = 0, cp_receiver = 0, cp_sub_receiver = 0, cp_seq_num = 0, cp_data = cmd,
        cp_data_len = cmd_len, cp_padding = 0\<rparr>"
  let ?w = "packet_bytes p addr ?pkt"
  have len: "length ?w = unat cmd_len + 15" using packet_lengths(3) [of ?pkt p addr] assms(3) by simp
  have pack: "Pack p addr package MAX_MESSAGE_BUF_SIZE ?pkt = Some (0, Some (ucast (cmd_len + 15)), ?w @ drop (length ?w) package)"
    using Pack_eq [of ?pkt MAX_MESSAGE_BUF_SIZE package p addr] assms len by (simp add: MAX_MESSAGE_BUF_SIZE_def)
  have r: "CheckPreamble p a ?w = Some 0" "CheckPacket p a ?w = Some 0" for a
    using received(2,3) [where pkt = ?pkt and p = p and addr = addr and addr' = a] assms by simp_all
  then have "create_package p addr package junk ty cset code cmd_len cmd = Some (ucast (cmd_len + 15), ?w @ drop (length ?w) package)"
    using pack CheckPacket_append by (simp add: create_package_def)
  moreover obtain q where "ParsePacket ?w (ucast (cmd_len + 15)) q0 = Some (0, q)" "cp_packet_type q = ty" "cp_cmd_set q = cset"
      "cp_cmd_code q = code AND 0xff" "cp_data_len q = cmd_len" "take (unat cmd_len) (cp_data q) = take (unat cmd_len) cmd"
    using parsed [of ?pkt p addr q0] assms by auto
  ultimately show ?thesis using r [of addr'] len by (intro exI [of _ ?w] exI [of _ q]) simp
qed

lemma long_data_overflow:
  assumes "cp_protocol pkt = 0" "65521 \<le> unat (cp_data_len pkt)" "15 \<le> unat cap" "length out_buf < unat (cp_data_len pkt) + 11"
  shows "Pack p addr out_buf cap pkt = None"
proof -
  let ?len = "ucast (ucast (cp_data_len pkt) + GetPacketWrapperLen) :: u16"
  have "unat (cp_data_len pkt) < 65536" using unsigned_less [of "cp_data_len pkt", where 'a = nat] by simp
  then have "unat ?len = unat (cp_data_len pkt) + 15 - 65536"
    using assms(2) by (simp add: unsigned_ucast_eq unat_word_ariths take_bit_eq_mod GetPacketWrapperLen_def kSdkPacketCrcSize_def mod_if)
  moreover have "unat (ucast x :: u32) = unat x" for x :: u16
    using unsigned_less [of x, where 'a = nat] by (simp add: unsigned_ucast_eq take_bit_eq_mod)
  ultimately have "\<not> cap < ucast ?len"
    using assms(3) \<open>unat (cp_data_len pkt) < 65536\<close> by (simp only: word_less_nat_alt)
  moreover have "poke i bs buf = Some buf' \<Longrightarrow> length buf' = length buf" for i bs buf buf' by (auto simp: poke_def split: if_splits)
  ultimately show ?thesis
    using assms(1,4) by (auto simp: Pack_def Let_def poke_def [of 11] peek_def [of 0 "unat (cp_data_len pkt)"] split: Option.bind_splits if_splits)
qed



end
