(* ===== verification/Livox_Driver.thy ===== *)
theory Livox_Driver
  imports Livox_Protocol "HOL-Library.AList"
begin

text \<open>
  The Livox driver (\<^verbatim>\<open>modules/drivers/livox\<close>): the table of devices (\<^verbatim>\<open>device_manager\<close>), the daemon that answers
  broadcasts (\<^verbatim>\<open>livox_daemon\<close>), and the receiver that assembles frames of 250 packets in two blocks of shared memory in turn
  (\<^verbatim>\<open>communication/device_data_recv\<close>, \<^verbatim>\<open>shared_mem\<close>).  Offsets are counted from the beginning of the shared memory; \<open>None\<close> stands for an
  access outside of it.
\<close>

section \<open>Devices\<close>

record device_info =
  di_broadcast_code :: string
  di_id :: u8
  di_type :: u8
  di_cmd_port :: u16
  di_data_port :: u16
  di_sensor_port :: u16
  di_s_ip :: u32
  di_handshaked :: bool
  di_feature :: u8
  di_firmware_version :: "u8 list"

definition no_device :: device_info where
  "no_device = \<lparr>di_broadcast_code = [], di_id = 0, di_type = 0, di_cmd_port = 0, di_data_port = 0, di_sensor_port = 0, di_s_ip = 0,
     di_handshaked = False, di_feature = 0, di_firmware_version = [0, 0, 0, 0]\<rparr>"

fun dec_digits :: "nat \<Rightarrow> string" where
  "dec_digits n = (if n < 10 then [] else dec_digits (n div 10)) @ [char_of (48 + n mod 10)]"

definition make_device :: "u32 \<Rightarrow> u8 \<Rightarrow> device_info" where
  "make_device ip i =
     \<lparr>di_broadcast_code = ''ZHITO_LIDAR_LIVOX_'' @ dec_digits (unat i), di_id = i, di_type = 7, di_cmd_port = 55001 + ucast i,
      di_data_port = 55002 + ucast i, di_sensor_port = 55003 + ucast i, di_s_ip = ip, di_handshaked = False, di_feature = 1,
      di_firmware_version = [0, 1, 2, 3]\<rparr>"

type_synonym device_map = "(nat \<times> device_info) list"

text \<open>\<open>ip_of\<close> is the address of an interface, 0 if it has none.\<close>

fun init_devices :: "(string \<Rightarrow> u32) \<Rightarrow> u8 \<Rightarrow> string list \<Rightarrow> device_map \<Rightarrow> device_map" where
  "init_devices ip_of i [] m = m"
| "init_devices ip_of i (d # ds) m =
     init_devices ip_of (i + 1) ds (if map_of m (unat i) = None then (unat i, make_device (ip_of d) i) # m else m)"

definition lidar_dev_manager :: "(string \<Rightarrow> u32) \<Rightarrow> device_map" where
  "lidar_dev_manager ip_of = init_devices ip_of 0 [''eno1'', ''enp2s0'', ''enp3s0f0'', ''enp3s0f1'', ''enp3s0f2'', ''enp3s0f3''] []"

text \<open>\<^verbatim>\<open>device_map[i]\<close> creates an entry that is not there.\<close>

definition device_at :: "nat \<Rightarrow> device_map \<Rightarrow> device_info \<times> device_map" where
  "device_at i m = (case map_of m i of Some d \<Rightarrow> (d, m) | None \<Rightarrow> (no_device, (i, no_device) # m))"

definition set_device_status :: "u8 \<Rightarrow> bool \<Rightarrow> device_map \<Rightarrow> device_map" where
  "set_device_status i stat m =
     (case device_at (unat i) m of (d, m) \<Rightarrow> AList.update (unat i) (d\<lparr>di_handshaked := stat\<rparr>) m)"

definition find_device :: "u8 \<Rightarrow> device_info \<Rightarrow> device_map \<Rightarrow> (bool \<times> device_info) \<times> device_map" where
  "find_device i info m =
     (if unat i > length m then ((False, info), m) else case device_at (unat i) m of (d, m) \<Rightarrow> ((True, d), m))"

definition is_device_connected :: "u8 \<Rightarrow> device_map \<Rightarrow> bool \<times> device_map" where
  "is_device_connected i m =
     (if unat i > length m then (False, m) else case device_at (unat i) m of (d, m) \<Rightarrow> (di_handshaked d, m))"

subsection \<open>The daemon\<close>

definition MAX_DEVICES :: nat where "MAX_DEVICES = 5"

record livox_daemon =
  ld_devices :: device_map
  ld_lidar_dev :: device_info
  ld_controllers :: "nat \<rightharpoonup> device_info"
  ld_tasks :: "string list"

text \<open>The loop over the devices from \<open>i\<close> on.\<close>

function check_boardcast_from :: "nat \<Rightarrow> string \<Rightarrow> livox_daemon \<Rightarrow> u8 option \<times> livox_daemon" where
  "check_boardcast_from i b_code s =
     (if i \<ge> MAX_DEVICES then (None, s)
      else case find_device (of_nat i) (ld_lidar_dev s) (ld_devices s) of
             ((ok, d), m) \<Rightarrow>
               let s = s\<lparr>ld_lidar_dev := d, ld_devices := m\<rparr>
               in if take 32 (di_broadcast_code d) = take 32 b_code \<and> \<not> di_handshaked d then (Some (di_id d), s)
                  else check_boardcast_from (i + 1) b_code s)"
  by pat_completeness auto
termination by (relation "measure (\<lambda>(i, b, s). MAX_DEVICES - i)") auto

declare check_boardcast_from.simps [simp del] dec_digits.simps [simp del]

definition check_boardcast_id :: "string \<Rightarrow> livox_daemon \<Rightarrow> u8 option \<times> livox_daemon" where
  "check_boardcast_id b_code s = (if b_code = [] then (None, s) else check_boardcast_from 0 b_code s)"

text \<open>
  One turn of the daemon: a packet of \<open>nbytes\<close> bytes, or a failed call (negative).  A new controller finds the data of its
  device and becomes the task named after its broadcast code.
\<close>

definition daemon_turn :: "u8 list \<Rightarrow> int \<Rightarrow> comm_packet \<Rightarrow> livox_daemon \<Rightarrow> livox_daemon option" where
  "daemon_turn buffer nbytes out_pack s =
     (if nbytes < 0 then Some s
      else case ParsePacket buffer (of_int nbytes) out_pack of
             None \<Rightarrow> None
           | Some (ret, _) \<Rightarrow>
               if ret < 0 then Some s
               else case check_boardcast_id ''ZHITO_LIDAR_LIVOX_0'' s of
                      (None, s) \<Rightarrow> Some s
                    | (Some i, s) \<Rightarrow>
                        let m = set_device_status i True (ld_devices s)
                        in case find_device i no_device m of
                             ((_, d), m) \<Rightarrow>
                               Some (s\<lparr>ld_devices := m, ld_controllers := (ld_controllers s)(unat i \<mapsto> d),
                                       ld_tasks := ld_tasks s @ [di_broadcast_code (ld_lidar_dev s)]\<rparr>))"

section \<open>Time stamps\<close>

record time_delt =
  td_seconds :: u64
  td_nanoseconds :: u64
  td_check_status :: bool

definition create_time_point :: "u64 \<Rightarrow> time_delt" where
  "create_time_point t = \<lparr>td_seconds = t div 1000000000, td_nanoseconds = t mod 1000000000, td_check_status = True\<rparr>"

definition update_time_point :: "time_delt \<Rightarrow> time_delt \<Rightarrow> time_delt" where
  "update_time_point i out = (if td_check_status i then i\<lparr>td_check_status := True\<rparr> else out)"

text \<open>\<open>result\<close> is what the variable held before: it is not initialised and only partly set on failure.\<close>

definition compare_time_point :: "time_delt \<Rightarrow> time_delt \<Rightarrow> time_delt \<Rightarrow> time_delt" where
  "compare_time_point before after result =
     (let nanos = \<lambda>t. td_seconds t * 1000000000 + td_nanoseconds t
      in if td_seconds after = td_seconds before
         then if td_nanoseconds after < td_nanoseconds before then result\<lparr>td_check_status := False\<rparr>
              else \<lparr>td_seconds = 0, td_nanoseconds = td_nanoseconds after - td_nanoseconds before, td_check_status = True\<rparr>
         else if td_seconds after > td_seconds before
         then \<lparr>td_seconds = (nanos after - nanos before) div 1000000000, td_nanoseconds = (nanos after - nanos before) mod 1000000000, td_check_status = True\<rparr>
         else result\<lparr>td_check_status := False\<rparr>)"

section \<open>Frames\<close>

definition TOTAL_BLOCK_NUM :: nat where "TOTAL_BLOCK_NUM = 12"
definition BLOCK_LEN_SMALL :: nat where "BLOCK_LEN_SMALL = 1024 * 1024"
definition BLOCK_DESC_OFFSET :: nat where "BLOCK_DESC_OFFSET = 44"
definition MAX_DATA_SIZE :: nat where "MAX_DATA_SIZE = 1500"

definition shm_size :: nat where "shm_size = TOTAL_BLOCK_NUM * (BLOCK_LEN_SMALL + BLOCK_DESC_OFFSET)"

definition get_block :: "int \<Rightarrow> int option" where
  "get_block i = (if i > int TOTAL_BLOCK_NUM then None else Some (i * int BLOCK_DESC_OFFSET))"

definition get_writeable_area :: "nat \<Rightarrow> nat" where
  "get_writeable_area i = TOTAL_BLOCK_NUM * BLOCK_DESC_OFFSET + i * BLOCK_LEN_SMALL"

record pcl_receiver =
  pr_shm :: "u8 list"
  pr_pcl_ptr :: int
  pr_package_count :: u64
  pr_ab_part :: bool
  pr_a_in_use :: bool
  pr_b_in_use :: bool
  pr_last :: time_delt

definition reset_count_info :: "bool \<Rightarrow> pcl_receiver \<Rightarrow> pcl_receiver" where
  "reset_count_info partitions r =
     r\<lparr>pr_package_count := 1, pr_a_in_use := partitions, pr_b_in_use := \<not> partitions,
       pr_pcl_ptr := int (get_writeable_area (if partitions then 0 else 1))\<rparr>"

definition receiver_start :: "u8 list \<Rightarrow> time_delt \<Rightarrow> pcl_receiver" where
  "receiver_start shm last0 =
     reset_count_info True \<lparr>pr_shm = shm, pr_pcl_ptr = 0, pr_package_count = 0, pr_ab_part = True, pr_a_in_use = False, pr_b_in_use = False,
       pr_last = last0\<rparr>"

text \<open>What \<^verbatim>\<open>recvfrom\<close> does: time out, fail otherwise, or write a packet of at most 1500 bytes.\<close>

datatype reception = Timeout | Failed | Packet "u8 list"

definition poke_int :: "int \<Rightarrow> u8 list \<Rightarrow> u8 list \<Rightarrow> u8 list option" where
  "poke_int i bs shm = (if i < 0 then None else poke (nat i) bs shm)"

definition timestamp_at :: "int \<Rightarrow> u8 list \<Rightarrow> u64 option" where
  "timestamp_at i shm = (if i + 10 < 0 then None else map_option u64_of_bytes (peek (nat (i + 10)) 8 shm))"

text \<open>The answer, which the caller only logs, and the time stamp that is kept.\<close>

definition check_pcl_package :: "u64 \<Rightarrow> time_delt \<Rightarrow> time_delt \<Rightarrow> bool \<times> time_delt" where
  "check_pcl_package t last0 result0 =
     (let now = create_time_point t; result = compare_time_point last0 now result0
      in (td_nanoseconds result div 1000 \<le> 408, update_time_point now last0))"

definition check_pcl_frame :: "u64 \<Rightarrow> u64 \<Rightarrow> time_delt \<Rightarrow> bool" where
  "check_pcl_frame t local_now result0 =
     (td_nanoseconds (compare_time_point (create_time_point t) (create_time_point local_now) result0) div 1000 \<le> 300000)"

definition received_bytes :: "reception \<Rightarrow> pcl_receiver \<Rightarrow> (int \<times> pcl_receiver) option" where
  "received_bytes ev r =
     (case ev of
        Packet bs \<Rightarrow> map_option (\<lambda>shm. (int (length bs), r\<lparr>pr_shm := shm\<rparr>)) (poke_int (pr_pcl_ptr r) bs (pr_shm r))
      | _ \<Rightarrow> Some (-1, r))"

definition receiver_turn :: "reception \<Rightarrow> pcl_receiver \<Rightarrow> pcl_receiver option" where
  "receiver_turn ev r =
     (if ev = Timeout then Some r
      else do {
        (nbytes, r) \<leftarrow> received_bytes ev r;
        t \<leftarrow> timestamp_at (pr_pcl_ptr r) (pr_shm r);
        let r = r\<lparr>pr_last := snd (check_pcl_package t (pr_last r) (pr_last r))\<rparr>;
        Some (if pr_package_count r mod 250 = 0
              then let ab = \<not> pr_ab_part r in reset_count_info ab (r\<lparr>pr_ab_part := ab\<rparr>)
              else r\<lparr>pr_pcl_ptr := pr_pcl_ptr r + nbytes, pr_package_count := pr_package_count r + 1\<rparr>)
      })"

fun receiver_function :: "reception list \<Rightarrow> pcl_receiver \<Rightarrow> pcl_receiver option" where
  "receiver_function [] r = Some r"
| "receiver_function (ev # evs) r = (case receiver_turn ev r of None \<Rightarrow> None | Some r' \<Rightarrow> receiver_function evs r')"

section \<open>Frames do not mix\<close>

definition region :: "nat \<Rightarrow> nat \<Rightarrow> u8 list \<Rightarrow> u8 list" where "region a n shm = take n (drop a shm)"

lemma region_poke:
  assumes "poke i bs shm = Some shm'"
  shows "length shm' = length shm"
    and "a + n \<le> i \<or> i + length bs \<le> a \<Longrightarrow> region a n shm' = region a n shm"
    and "i = a + n \<Longrightarrow> region a (n + length bs) shm' = region a n shm @ bs"
proof -
  have s: "shm' = take i shm @ bs @ drop (i + length bs) shm" and l: "i + length bs \<le> length shm"
    using assms by (auto simp: poke_def split: if_splits)
  show "length shm' = length shm" using s l by simp
  show "region a n shm' = region a n shm" if "a + n \<le> i \<or> i + length bs \<le> a"
    using that l by (intro nth_equalityI) (auto simp: region_def s nth_append)
  show "region a (n + length bs) shm' = region a n shm @ bs" if "i = a + n"
    using that l by (intro nth_equalityI) (auto simp: region_def s nth_append)
qed

fun packets :: "reception list \<Rightarrow> u8 list list" where
  "packets [] = []"
| "packets (Packet bs # evs) = bs # packets evs"
| "packets (_ # evs) = packets evs"

text \<open>The block of frame \<open>f\<close>, and the bytes of frame \<open>f\<close> of the packets.\<close>

definition block_of :: "nat \<Rightarrow> nat" where "block_of f = get_writeable_area (f mod 2)"

definition frame :: "nat \<Rightarrow> u8 list list \<Rightarrow> u8 list" where "frame f ps = concat (take 250 (drop (250 * f) ps))"

definition holds_frame :: "u8 list \<Rightarrow> nat \<Rightarrow> u8 list list \<Rightarrow> bool" where
  "holds_frame shm f ps \<longleftrightarrow> region (block_of f) (length (frame f ps)) shm = frame f ps"

definition receiver_ok :: "u8 list list \<Rightarrow> pcl_receiver \<Rightarrow> bool" where
  "receiver_ok ps r \<longleftrightarrow>
     (let f = length ps div 250 in
      length (pr_shm r) = shm_size \<and> pr_ab_part r = even f \<and> pr_a_in_use r = even f \<and> pr_b_in_use r = odd f \<and>
      pr_package_count r = of_nat (length ps mod 250 + 1) \<and> pr_pcl_ptr r = int (block_of f + length (frame f ps)) \<and>
      holds_frame (pr_shm r) f ps \<and> (f > 0 \<longrightarrow> holds_frame (pr_shm r) (f - 1) ps))"

lemma concat_bound: "(\<And>bs. bs \<in> set ps \<Longrightarrow> length bs \<le> MAX_DATA_SIZE) \<Longrightarrow> length (concat ps) \<le> 1500 * length ps"
  by (induction ps) (force simp: MAX_DATA_SIZE_def)+

lemma frame_bound: "(\<And>bs. bs \<in> set ps \<Longrightarrow> length bs \<le> MAX_DATA_SIZE) \<Longrightarrow> length (frame f ps) \<le> 375000"
proof -
  assume b: "\<And>bs. bs \<in> set ps \<Longrightarrow> length bs \<le> MAX_DATA_SIZE"
  have "length (concat (take 250 (drop (250 * f) ps))) \<le> 1500 * length (take 250 (drop (250 * f) ps))"
    by (rule concat_bound) (use b in \<open>auto dest!: in_set_takeD in_set_dropD\<close>)
  then show ?thesis unfolding frame_def by (rule order_trans) simp
qed

lemma frame_snoc: "f = length ps div 250 \<Longrightarrow> frame f (ps @ [bs]) = frame f ps @ bs"
  "g < length ps div 250 \<Longrightarrow> frame g (ps @ [bs]) = frame g ps"
proof -
  assume f: "f = length ps div 250"
  then have "250 * f \<le> length ps" "length ps - 250 * f < 250" by (auto simp: minus_mult_div_eq_mod [symmetric])
  then show "frame f (ps @ [bs]) = frame f ps @ bs" by (simp add: frame_def)
next
  assume "g < length ps div 250"
  then have "250 * g + 250 \<le> length ps" by (metis Suc_leI div_le_dividend mult_Suc_right mult_le_mono2 times_div_less_eq_dividend le_trans add.commute)
  then show "frame g (ps @ [bs]) = frame g ps" by (simp add: frame_def)
qed

lemma block_of_eq: "block_of f = (if even f then 528 else 1049104)" "shm_size = 12583440"
  by (auto simp: block_of_def get_writeable_area_def shm_size_def TOTAL_BLOCK_NUM_def BLOCK_LEN_SMALL_def BLOCK_DESC_OFFSET_def mod2_eq_if)

lemma receiver_packet:
  assumes ok: "receiver_ok ps r" and b: "\<And>bs. bs \<in> set (ps @ [bs']) \<Longrightarrow> length bs \<le> MAX_DATA_SIZE"
  shows "\<exists>r'. receiver_turn (Packet bs') r = Some r' \<and> receiver_ok (ps @ [bs']) r'"
proof -
  define f where "f = length ps div 250"
  define j where "j = length ps mod 250"
  have j: "j < 250" by (simp add: j_def)
  have o: "length (pr_shm r) = shm_size" "pr_ab_part r = even f" "pr_a_in_use r = even f" "pr_b_in_use r = odd f"
    "pr_package_count r = of_nat (j + 1)" "pr_pcl_ptr r = int (block_of f + length (frame f ps))" "holds_frame (pr_shm r) f ps"
    "f > 0 \<Longrightarrow> holds_frame (pr_shm r) (f - 1) ps"
    using ok by (simp_all add: receiver_ok_def Let_def f_def j_def)
  have len: "length (frame f ps) + length bs' \<le> 375000" using frame_bound [where f = f and ps = "ps @ [bs']", OF b] frame_snoc(1) [OF f_def, of bs'] by simp
  then have "block_of f + length (frame f ps) + length bs' \<le> length (pr_shm r)" using o(1) by (simp add: block_of_eq)
  then obtain shm' where p: "poke (block_of f + length (frame f ps)) bs' (pr_shm r) = Some shm'" by (simp add: poke_def)
  have t: "timestamp_at (pr_pcl_ptr r) shm' \<noteq> None" using len region_poke(1) [OF p] o(1,6) by (simp add: timestamp_at_def peek_def block_of_eq nat_le_iff)
  have here: "holds_frame shm' f (ps @ [bs'])"
    using region_poke(3) [OF p, of "block_of f" "length (frame f ps)"] o(7) by (simp add: holds_frame_def frame_snoc(1) [OF f_def])
  have there: "holds_frame shm' (f - 1) (ps @ [bs'])" if "f > 0"
  proof -
    have "frame (f - 1) (ps @ [bs']) = frame (f - 1) ps" using that by (intro frame_snoc(2)) (simp add: f_def)
    moreover have "length (frame (f - 1) ps) \<le> 375000" using b by (intro frame_bound) auto
    ultimately show ?thesis
      using region_poke(2) [OF p, of "block_of (f - 1)" "length (frame (f - 1) ps)"] o(8) [OF that] len that
      by (auto simp: holds_frame_def block_of_eq)
  qed
  define r1 where "r1 = (\<lambda>t. r\<lparr>pr_shm := shm', pr_last := t\<rparr>)"
  have wr: "received_bytes (Packet bs') r = Some (int (length bs'), r\<lparr>pr_shm := shm'\<rparr>)"
    by (simp add: received_bytes_def poke_int_def o(6) p del: of_nat_add)
  obtain t0 where t0: "timestamp_at (pr_pcl_ptr r) shm' = Some t0" using t by auto
  define t' where "t' = snd (check_pcl_package t0 (pr_last r) (pr_last r))"
  have turn: "receiver_turn (Packet bs') r = Some (if pr_package_count r mod 250 = 0
      then reset_count_info (odd f) ((r1 t')\<lparr>pr_ab_part := odd f\<rparr>)
      else (r1 t')\<lparr>pr_pcl_ptr := pr_pcl_ptr r + int (length bs'), pr_package_count := pr_package_count r + 1\<rparr>)"
    using t0 o(2) by (simp add: receiver_turn_def wr r1_def t'_def Let_def)
  have count: "pr_package_count r mod 250 = of_nat ((j + 1) mod 250)"
    using j o(5) unat_of_nat_u64 [of "j + 1"] unat_of_nat_u64 [of "(j + 1) mod 250"] by (simp only: word_unat_eq_iff unat_mod_u64) simp
  show ?thesis
  proof (cases "j = 249")
    case True
    have "length (ps @ [bs']) div 250 = f + 1" "length (ps @ [bs']) mod 250 = 0" using True by (simp_all add: f_def j_def div_Suc mod_Suc)
    moreover have "frame (f + 1) (ps @ [bs']) = []"
    proof -
      have "length (ps @ [bs']) = 250 * (f + 1)" using True mult_div_mod_eq [of 250 "length ps"] by (simp add: f_def j_def)
      then show ?thesis by (simp add: frame_def)
    qed
    ultimately show ?thesis
      using turn count True here o region_poke(1) [OF p]
      by (simp add: receiver_ok_def Let_def reset_count_info_def r1_def holds_frame_def region_def block_of_eq get_writeable_area_def
        TOTAL_BLOCK_NUM_def BLOCK_DESC_OFFSET_def BLOCK_LEN_SMALL_def)
  next
    case False
    have "length (ps @ [bs']) div 250 = f" "length (ps @ [bs']) mod 250 = j + 1" using False j by (simp_all add: f_def j_def div_Suc mod_Suc)
    moreover have "of_nat ((j + 1) mod 250) \<noteq> (0 :: u64)"
    proof
      assume "of_nat ((j + 1) mod 250) = (0 :: u64)"
      then show False using j False unat_of_nat_u64 [of "(j + 1) mod 250"] by (simp only: unat_0) simp
    qed
    ultimately show ?thesis
      using turn count here there o region_poke(1) [OF p] frame_snoc(1) [OF f_def, of bs']
      by (simp add: receiver_ok_def Let_def r1_def)
  qed
qed
lemma receiver_run_ok:
  "receiver_ok ps r \<Longrightarrow> Failed \<notin> set evs \<Longrightarrow> (\<And>bs. bs \<in> set (ps @ packets evs) \<Longrightarrow> length bs \<le> MAX_DATA_SIZE) \<Longrightarrow>
    \<exists>r'. receiver_function evs r = Some r' \<and> receiver_ok (ps @ packets evs) r'"
proof (induction evs arbitrary: ps r)
  case (Cons ev evs)
  show ?case
  proof (cases ev)
    case Timeout
    then show ?thesis using Cons.IH [of ps r] Cons.prems by (simp add: receiver_turn_def)
  next
    case Failed
    then show ?thesis using Cons.prems(2) by simp
  next
    case (Packet bs)
    have "\<And>x. x \<in> set (ps @ [bs]) \<Longrightarrow> length x \<le> MAX_DATA_SIZE" using Cons.prems(3) Packet by auto
    then obtain r1 where "receiver_turn (Packet bs) r = Some r1" "receiver_ok (ps @ [bs]) r1" using receiver_packet [OF Cons.prems(1)] by blast
    then show ?thesis using Cons.IH [of "ps @ [bs]" r1] Cons.prems(2,3) Packet by simp
  qed
qed auto

lemma receiver_start_ok: "length shm = shm_size \<Longrightarrow> receiver_ok [] (receiver_start shm last0)"
  by (simp add: receiver_ok_def receiver_start_def reset_count_info_def holds_frame_def frame_def region_def block_of_def)



text \<open>
  A reception that fails otherwise than by a timeout moves the pointer back by one byte: as the first event it
  leaves the block.
\<close>

lemma failed_reception_moves_back:
  assumes "receiver_turn Failed (receiver_start shm last0) = Some r"
  shows "pr_pcl_ptr r = int (get_writeable_area 0) - 1"
  using assms by (auto simp: receiver_turn_def received_bytes_def receiver_start_def reset_count_info_def Let_def bind_eq_Some_conv)

text \<open>Only the nanoseconds of a gap are compared: a loss of whole seconds goes unnoticed.\<close>

lemma gap_of_seconds_is_accepted: "fst (check_pcl_package 9000000000 (create_time_point 1000000000) result)"
  by (simp add: check_pcl_package_def compare_time_point_def create_time_point_def)

text \<open>The bound on the number of a device is off by one: the device after the last is found, and created empty.\<close>

lemma device_after_last_is_found:
  "unat i = length m \<Longrightarrow> map_of m (unat i) = None \<Longrightarrow> find_device i info m = ((True, no_device), (unat i, no_device) # m)"
  by (simp add: find_device_def device_at_def)

end
