(* ===== verification/Object_Pools.thy ===== *)
theory Object_Pools
  imports Cyber_Prelude
begin

text \<open>
  The object pools: \<^verbatim>\<open>CCObjectPool\<close> (\<^verbatim>\<open>cyber/base/concurrent_object_pool.h\<close>), a lock-free stack of free nodes whose head carries a
  counter, and \<^verbatim>\<open>ObjectPool\<close> (\<^verbatim>\<open>cyber/base/object_pool.h\<close>) for one thread.  Nodes are the indices of the arena.  Any number of
  threads get and release objects, one step per access to shared memory; \<^verbatim>\<open>compare_exchange_weak\<close> may fail
  although the head matches.  The counter is a word of 64 bits, as \<^verbatim>\<open>uintptr_t\<close> is: a thread that is overtaken by \<open>2 ^ 64\<close>
  exchanges would not notice, so that the result is about runs of fewer steps.
\<close>

section \<open>Model\<close>

type_synonym pool_head = "u64 \<times> nat option"

datatype pool_pc =
    PoolIdle
  | FindLoaded pool_head
  | FindNext pool_head "nat option"
  | ReleaseLoaded nat pool_head
  | ReleaseLinked nat pool_head

text \<open>\<open>cc_held\<close> are the objects that the shared pointers of a thread keep.\<close>

record cc_pool =
  cc_next :: "nat \<Rightarrow> nat option"
  cc_free_head :: pool_head
  cc_capacity :: nat
  cc_pc :: "nat \<Rightarrow> pool_pc"
  cc_held :: "nat \<Rightarrow> nat set"

text \<open>A pool of no objects writes before its arena (\<open>None\<close>).\<close>

definition CCObjectPool :: "nat \<Rightarrow> cc_pool option" where
  "CCObjectPool n =
     (if n = 0 then None
      else Some \<lparr>cc_next = (\<lambda>i. if i + 1 < n then Some (i + 1) else None), cc_free_head = (0, Some 0), cc_capacity = n,
                 cc_pc = (\<lambda>_. PoolIdle), cc_held = (\<lambda>_. {})\<rparr>)"

definition at_pc :: "nat \<Rightarrow> pool_pc \<Rightarrow> cc_pool \<Rightarrow> cc_pool" where
  "at_pc t pc s = s\<lparr>cc_pc := (cc_pc s)(t := pc)\<rparr>"

text \<open>The successful exchanges of \<^verbatim>\<open>FindFreeHead\<close> and of \<^verbatim>\<open>ReleaseObject\<close>.\<close>

definition take_head :: "nat \<Rightarrow> nat \<Rightarrow> nat option \<Rightarrow> cc_pool \<Rightarrow> cc_pool" where
  "take_head t n nx s = at_pc t PoolIdle (s\<lparr>cc_free_head := (fst (cc_free_head s) + 1, nx), cc_held := (cc_held s)(t := insert n (cc_held s t))\<rparr>)"

definition put_head :: "nat \<Rightarrow> nat \<Rightarrow> cc_pool \<Rightarrow> cc_pool" where
  "put_head t n s = at_pc t PoolIdle (s\<lparr>cc_free_head := (fst (cc_free_head s) + 1, Some n), cc_held := (cc_held s)(t := cc_held s t - {n})\<rparr>)"

definition head_matches :: "pool_head \<Rightarrow> cc_pool \<Rightarrow> bool" where "head_matches old s \<longleftrightarrow> cc_free_head s = old"

definition releasing :: "nat \<Rightarrow> pool_pc \<Rightarrow> bool" where
  "releasing n pc \<longleftrightarrow> (case pc of ReleaseLoaded m _ \<Rightarrow> m = n | ReleaseLinked m _ \<Rightarrow> m = n | _ \<Rightarrow> False)"

inductive pool_step :: "cc_pool \<Rightarrow> cc_pool \<Rightarrow> bool" where
  FindLoad: "cc_pc s t = PoolIdle \<Longrightarrow> pool_step s (at_pc t (FindLoaded (cc_free_head s)) s)"
| FindNone: "cc_pc s t = FindLoaded (c, None) \<Longrightarrow> pool_step s (at_pc t PoolIdle s)"
| FindRead: "cc_pc s t = FindLoaded (c, Some n) \<Longrightarrow> pool_step s (at_pc t (FindNext (c, Some n) (cc_next s n)) s)"
| FindSwap: "cc_pc s t = FindNext (c, Some n) nx \<Longrightarrow> head_matches (c, Some n) s \<Longrightarrow> pool_step s (take_head t n nx s)"
| FindRetry: "cc_pc s t = FindNext old nx \<Longrightarrow> pool_step s (at_pc t (FindLoaded (cc_free_head s)) s)"
| ReleaseLoad: "cc_pc s t = PoolIdle \<Longrightarrow> n \<in> cc_held s t \<Longrightarrow> pool_step s (at_pc t (ReleaseLoaded n (cc_free_head s)) s)"
| ReleaseLink: "cc_pc s t = ReleaseLoaded n old \<Longrightarrow>
    pool_step s (at_pc t (ReleaseLinked n old) (s\<lparr>cc_next := (cc_next s)(n := snd old)\<rparr>))"
| ReleaseSwap: "cc_pc s t = ReleaseLinked n old \<Longrightarrow> head_matches old s \<Longrightarrow> pool_step s (put_head t n s)"
| ReleaseRetry: "cc_pc s t = ReleaseLinked n old \<Longrightarrow> pool_step s (at_pc t (ReleaseLoaded n (cc_free_head s)) s)"
| Give: "n \<in> cc_held s t \<Longrightarrow> \<not> releasing n (cc_pc s t) \<Longrightarrow> t \<noteq> u \<Longrightarrow>
    pool_step s (s\<lparr>cc_held := (cc_held s)(t := cc_held s t - {n}, u := insert n (cc_held s u))\<rparr>)"

subsection \<open>The pool for one thread\<close>

record object_pool =
  op_next :: "nat \<Rightarrow> nat option"
  op_free_head :: "nat option"

fun op_construct :: "nat \<Rightarrow> object_pool" where
  "op_construct 0 = \<lparr>op_next = (\<lambda>_. None), op_free_head = None\<rparr>"
| "op_construct (Suc i) = (let p = op_construct i in p\<lparr>op_next := (op_next p)(i := op_free_head p), op_free_head := Some i\<rparr>)"

definition op_ReleaseObject :: "nat option \<Rightarrow> object_pool \<Rightarrow> object_pool" where
  "op_ReleaseObject obj p =
     (case obj of None \<Rightarrow> p | Some n \<Rightarrow> p\<lparr>op_next := (op_next p)(n := op_free_head p), op_free_head := Some n\<rparr>)"

definition op_GetObject :: "object_pool \<Rightarrow> nat option \<times> object_pool" where
  "op_GetObject p = (case op_free_head p of None \<Rightarrow> (None, p) | Some n \<Rightarrow> (Some n, p\<lparr>op_free_head := op_next p n\<rparr>))"

section \<open>Free lists\<close>

fun linked :: "(nat \<Rightarrow> nat option) \<Rightarrow> nat option \<Rightarrow> nat list \<Rightarrow> bool" where
  "linked nx p [] \<longleftrightarrow> p = None"
| "linked nx p (n # ns) \<longleftrightarrow> p = Some n \<and> linked nx (nx n) ns"

lemma linked_update [simp]: "n \<notin> set ns \<Longrightarrow> linked (nx(n := q)) p ns = linked nx p ns"
  by (induction ns arbitrary: p) auto

lemma linked_Some: "linked nx (Some n) ns \<Longrightarrow> \<exists>ns'. ns = n # ns' \<and> linked nx (nx n) ns'"
  by (cases ns) auto

text \<open>Getting and releasing objects of the pool for one thread is popping and pushing.\<close>

lemma op_pool_stack:
  "linked (op_next p) (op_free_head p) (n # ns) \<Longrightarrow> \<exists>p'. op_GetObject p = (Some n, p') \<and> linked (op_next p') (op_free_head p') ns"
  "linked (op_next p) (op_free_head p) [] \<Longrightarrow> op_GetObject p = (None, p)"
  "linked (op_next p) (op_free_head p) ns \<Longrightarrow> m \<notin> set ns \<Longrightarrow> linked (op_next (op_ReleaseObject (Some m) p)) (op_free_head (op_ReleaseObject (Some m) p)) (m # ns)"
  by (simp_all add: op_GetObject_def op_ReleaseObject_def)

lemma op_construct_linked: "linked (op_next (op_construct k)) (op_free_head (op_construct k)) (rev [0..<k])"
proof (induction k)
  case (Suc k)
  then show ?case using linked_update [of k "rev [0..<k]" "op_next (op_construct k)"] by (simp add: Let_def del: fun_upd_apply) simp
qed simp

section \<open>The concurrent pool is well formed\<close>

fun pc_ok :: "pool_pc \<Rightarrow> nat \<Rightarrow> cc_pool \<Rightarrow> bool" where
  "pc_ok PoolIdle t s \<longleftrightarrow> True"
| "pc_ok (FindLoaded old) t s \<longleftrightarrow> fst old \<le> fst (cc_free_head s) \<and> (fst old = fst (cc_free_head s) \<longrightarrow> old = cc_free_head s)"
| "pc_ok (FindNext old nx) t s \<longleftrightarrow> fst old \<le> fst (cc_free_head s) \<and>
     (fst old = fst (cc_free_head s) \<longrightarrow> old = cc_free_head s \<and> (\<exists>n. snd old = Some n \<and> cc_next s n = nx))"
| "pc_ok (ReleaseLoaded n old) t s \<longleftrightarrow> n \<in> cc_held s t"
| "pc_ok (ReleaseLinked n old) t s \<longleftrightarrow> n \<in> cc_held s t \<and> cc_next s n = snd old"

definition pool_ok :: "nat list \<Rightarrow> cc_pool \<Rightarrow> bool" where
  "pool_ok fl s \<longleftrightarrow>
     linked (cc_next s) (snd (cc_free_head s)) fl \<and> distinct fl \<and>
     (\<forall>x t. x \<in> set fl \<longrightarrow> x \<notin> cc_held s t) \<and> (\<forall>x t u. x \<in> cc_held s t \<longrightarrow> x \<in> cc_held s u \<longrightarrow> t = u) \<and>
     (\<forall>x. x < cc_capacity s \<longleftrightarrow> x \<in> set fl \<or> (\<exists>t. x \<in> cc_held s t)) \<and> (\<forall>t. pc_ok (cc_pc s t) t s)"

lemma pool_okD:
  assumes "pool_ok fl s"
  shows "linked (cc_next s) (snd (cc_free_head s)) fl" "distinct fl" "x \<in> set fl \<Longrightarrow> x \<notin> cc_held s t"
    "x \<in> cc_held s t \<Longrightarrow> x \<in> cc_held s u \<Longrightarrow> t = u" "x < cc_capacity s \<longleftrightarrow> x \<in> set fl \<or> (\<exists>t. x \<in> cc_held s t)"
    "pc_ok (cc_pc s t) t s"
  using assms unfolding pool_ok_def by blast+

lemma pool_okI:
  assumes "linked (cc_next s) (snd (cc_free_head s)) fl" "distinct fl" "\<And>x t. x \<in> set fl \<Longrightarrow> x \<notin> cc_held s t"
    "\<And>x t u. x \<in> cc_held s t \<Longrightarrow> x \<in> cc_held s u \<Longrightarrow> t = u" "\<And>x. x < cc_capacity s \<longleftrightarrow> x \<in> set fl \<or> (\<exists>t. x \<in> cc_held s t)"
    "\<And>t. pc_ok (cc_pc s t) t s"
  shows "pool_ok fl s"
  using assms unfolding pool_ok_def by blast

lemma pc_ok_at_pc: "pc_ok pc' u (at_pc t pc s) = pc_ok pc' u s" by (cases pc') (simp_all add: at_pc_def)

text \<open>A step that only moves a thread keeps the lists.\<close>

lemma pool_ok_at_pc:
  assumes "pool_ok fl s" "pc_ok pc t s"
  shows "pool_ok fl (at_pc t pc s)"
proof -
  have "pc_ok pc' u (at_pc t pc s) = pc_ok pc' u s" for pc' u by (rule pc_ok_at_pc)
  then show ?thesis using assms by (simp add: pool_ok_def) (simp add: at_pc_def)
qed

text \<open>An exchange of the head lets every other thread fail its own.\<close>

lemma pc_ok_exchanged:
  assumes "pc_ok pc u s" "fst (cc_free_head s') = fst (cc_free_head s) + 1" "cc_next s' = cc_next s" "cc_held s' u = cc_held s u"
    and "fst (cc_free_head s) \<noteq> -1"
  shows "pc_ok pc u s'"
proof -
  have "fst (cc_free_head s) < fst (cc_free_head s) + 1" using assms(5) inc_less_eq_iff [of "fst (cc_free_head s)" "fst (cc_free_head s) + 1"] by (auto simp: add.commute)
  then show ?thesis using assms(1-4) by (cases pc) auto
qed

lemma take_head_ok:
  assumes "pool_ok fl s" "cc_pc s t = FindNext (c, Some n) nx" "head_matches (c, Some n) s" "fst (cc_free_head s) \<noteq> -1"
  shows "\<exists>fl'. pool_ok fl' (take_head t n nx s)"
proof -
  note D = pool_okD [OF assms(1)]
  have h: "cc_free_head s = (c, Some n)" using assms(3) by (simp add: head_matches_def)
  then obtain fl' where fl: "fl = n # fl'" "linked (cc_next s) (cc_next s n) fl'" using D(1) linked_Some by fastforce
  have nx: "cc_next s n = nx" using D(6) [of t] assms(2) h by auto
  let ?s = "take_head t n nx s"
  have s: "cc_next ?s = cc_next s" "cc_free_head ?s = (c + 1, nx)" "cc_capacity ?s = cc_capacity s" "cc_pc ?s = (cc_pc s)(t := PoolIdle)"
    "cc_held ?s = (cc_held s)(t := insert n (cc_held s t))" by (simp_all add: take_head_def at_pc_def h)
  have pc: "pc_ok (cc_pc ?s u) u ?s" for u using pc_ok_exchanged [OF D(6) [of u], of ?s] assms(4) by (simp add: s h)
  have held: "x \<in> cc_held ?s v \<longleftrightarrow> x \<in> cc_held s v \<or> v = t \<and> x = n" for x v by (auto simp: s)
  have "pool_ok fl' ?s"
  proof (rule pool_okI)
    show "linked (cc_next ?s) (snd (cc_free_head ?s)) fl'" "distinct fl'" using fl nx D(2) by (simp_all add: s)
    show "x \<notin> cc_held ?s u" if "x \<in> set fl'" for x u using that D(2,3) fl(1) held by auto
    show "v = w" if "x \<in> cc_held ?s v" "x \<in> cc_held ?s w" for x v w
      using that D(3) [of n] D(4) [of x v w] fl(1) unfolding held by (metis list.set_intros(1))
    show "x < cc_capacity ?s \<longleftrightarrow> x \<in> set fl' \<or> (\<exists>u. x \<in> cc_held ?s u)" for x unfolding held using D(5) [of x] fl(1) by (auto simp: s)
  qed (rule pc)
  then show ?thesis by blast
qed

lemma put_head_ok:
  assumes "pool_ok fl s" "cc_pc s t = ReleaseLinked n old" "head_matches old s" "fst (cc_free_head s) \<noteq> -1"
  shows "pool_ok (n # fl) (put_head t n s)"
proof -
  note D = pool_okD [OF assms(1)]
  have h: "cc_free_head s = old" using assms(3) by (simp add: head_matches_def)
  have n: "n \<in> cc_held s t" "cc_next s n = snd old" using D(6) [of t] assms(2) by auto
  let ?s = "put_head t n s"
  have s: "cc_next ?s = cc_next s" "cc_free_head ?s = (fst old + 1, Some n)" "cc_capacity ?s = cc_capacity s" "cc_pc ?s = (cc_pc s)(t := PoolIdle)"
    "cc_held ?s = (cc_held s)(t := cc_held s t - {n})" by (simp_all add: put_head_def at_pc_def h)
  have pc: "pc_ok (cc_pc ?s u) u ?s" for u using pc_ok_exchanged [OF D(6) [of u], of ?s] assms(4) by (simp add: s h)
  have fl: "n \<notin> set fl" using n(1) D(3) by blast
  have other: "n \<notin> cc_held s v" if "v \<noteq> t" for v using that D(4) n(1) by blast
  have held: "x \<in> cc_held ?s v \<longleftrightarrow> x \<in> cc_held s v \<and> x \<noteq> n" for x v using other [of v] by (auto simp: s)
  show ?thesis
  proof (rule pool_okI)
    show "linked (cc_next ?s) (snd (cc_free_head ?s)) (n # fl)" "distinct (n # fl)" using fl n D(1,2) by (simp_all add: s h)
    show "x \<notin> cc_held ?s u" if "x \<in> set (n # fl)" for x u using that D(3) held by auto
    show "v = w" if "x \<in> cc_held ?s v" "x \<in> cc_held ?s w" for x v w using that D(4) held by blast
    show "x < cc_capacity ?s \<longleftrightarrow> x \<in> set (n # fl) \<or> (\<exists>u. x \<in> cc_held ?s u)" for x unfolding held using D(5) [of x] D(5) [of n] n(1) by (auto simp: s)
  qed (rule pc)
qed

lemma link_ok:
  assumes "pool_ok fl s" "cc_pc s t = ReleaseLoaded n old"
  shows "pool_ok fl (at_pc t (ReleaseLinked n old) (s\<lparr>cc_next := (cc_next s)(n := snd old)\<rparr>))"
proof -
  note D = pool_okD [OF assms(1)]
  let ?s = "at_pc t (ReleaseLinked n old) (s\<lparr>cc_next := (cc_next s)(n := snd old)\<rparr>)"
  have s: "cc_held ?s = cc_held s" "cc_capacity ?s = cc_capacity s" "cc_free_head ?s = cc_free_head s" "cc_next ?s = (cc_next s)(n := snd old)"
    "cc_pc ?s = (cc_pc s)(t := ReleaseLinked n old)" by (simp_all add: at_pc_def)
  have n: "n \<in> cc_held s t" using D(6) [of t] assms(2) by auto
  then have fl: "n \<notin> set fl" using D(3) by blast
  have "pc_ok (cc_pc s u) u ?s" if "u \<noteq> t" for u
  proof -
    have "m \<noteq> n" if "m \<in> cc_held s u" for m using that n D(4) \<open>u \<noteq> t\<close> by blast
    moreover have "m \<noteq> n" if "snd (cc_free_head s) = Some m" for m using that D(1) fl by (cases fl) auto
    ultimately show ?thesis using D(6) [of u] by (cases "cc_pc s u") (auto simp: s)
  qed
  then have "pc_ok (cc_pc ?s u) u ?s" for u using n by (cases "u = t") (simp_all add: s)
  then show ?thesis using D(1-5) fl by (intro pool_okI) (simp_all add: s)
qed

lemma give_ok:
  assumes "pool_ok fl s" "n \<in> cc_held s t" "\<not> releasing n (cc_pc s t)" "t \<noteq> u"
  shows "pool_ok fl (s\<lparr>cc_held := (cc_held s)(t := cc_held s t - {n}, u := insert n (cc_held s u))\<rparr>)"
proof -
  note D = pool_okD [OF assms(1)]
  let ?s = "s\<lparr>cc_held := (cc_held s)(t := cc_held s t - {n}, u := insert n (cc_held s u))\<rparr>"
  have pc: "pc_ok (cc_pc s v) v ?s" for v using D(6) [of v] assms(3) by (cases "cc_pc s v") (auto simp: releasing_def)
  have s: "cc_held ?s = (cc_held s)(t := cc_held s t - {n}, u := insert n (cc_held s u))" by simp
  have other: "n \<notin> cc_held s v" if "v \<noteq> t" for v using that D(4) assms(2) by blast
  have held: "x \<in> cc_held ?s v \<longleftrightarrow> (if x = n then v = u else x \<in> cc_held s v)" for x v
    unfolding s using other [of v] assms(4) by auto
  show ?thesis
  proof (rule pool_okI)
    show "x \<notin> cc_held ?s v" if "x \<in> set fl" for x v unfolding held using that D(3) assms(2) by auto
    show "v = w" if "x \<in> cc_held ?s v" "x \<in> cc_held ?s w" for x v w
      using that D(4) [of x v w] unfolding held by (metis (full_types))
    show "x < cc_capacity ?s \<longleftrightarrow> x \<in> set fl \<or> (\<exists>t. x \<in> cc_held ?s t)" for x
      unfolding held using D(5) [of x] assms(2) by auto
  qed (use D(1,2) pc in simp_all)
qed

lemma pool_step_ok:
  assumes "pool_step s s'" "pool_ok fl s" "fst (cc_free_head s) \<noteq> -1"
  shows "\<exists>fl'. pool_ok fl' s'"
  using assms
proof (induction rule: pool_step.cases)
  case (FindLoad s t)
  then show ?case using pool_ok_at_pc [of fl s "FindLoaded (cc_free_head s)" t] by auto
next
  case (FindNone s t c)
  then show ?case using pool_ok_at_pc [of fl s PoolIdle t] by auto
next
  case (FindRead s t c n)
  then have "pc_ok (FindLoaded (c, Some n)) t s" using pool_okD(6) by metis
  then have "pc_ok (FindNext (c, Some n) (cc_next s n)) t s" by (cases "cc_free_head s") auto
  then show ?case using FindRead pool_ok_at_pc [of fl s "FindNext (c, Some n) (cc_next s n)" t] by metis
next
  case (FindRetry s t old nx)
  then show ?case using pool_ok_at_pc [of fl s "FindLoaded (cc_free_head s)" t] by auto
next
  case (ReleaseLoad s t n)
  then show ?case using pool_ok_at_pc [of fl s "ReleaseLoaded n (cc_free_head s)" t] by auto
next
  case (ReleaseRetry s t n old)
  then have "pc_ok (ReleaseLinked n old) t s" using pool_okD(6) by metis
  then show ?case using ReleaseRetry pool_ok_at_pc [of fl s "ReleaseLoaded n (cc_free_head s)" t] by auto
next
  case (FindSwap s t c n nx)
  then show ?case using take_head_ok by metis
next
  case (ReleaseLink s t n old)
  then show ?case using link_ok by metis
next
  case (ReleaseSwap s t n old)
  then show ?case using put_head_ok by metis
next
  case (Give n s t u)
  then show ?case using give_ok by metis
qed

lemma pool_start_ok: "CCObjectPool k = Some s \<Longrightarrow> pool_ok [0..<k] s"
proof -
  assume s: "CCObjectPool k = Some s"
  have "linked (\<lambda>i. if i + 1 < k then Some (i + 1) else None) (if i < k then Some i else None) [i..<k]" for i
  proof (induction "k - i" arbitrary: i)
    case (Suc d)
    then have "[i..<k] = i # [i + 1..<k]" by (simp add: upt_conv_Cons)
    moreover have "d = k - (i + 1)" using Suc.hyps(2) by simp
    ultimately show ?case using Suc.hyps(1) [of "i + 1"] Suc.hyps(2) by simp
  qed simp
  from this [of 0] show ?thesis using s by (intro pool_okI) (auto simp: CCObjectPool_def split: if_splits)
qed

text \<open>The counter is at most the number of steps.\<close>

lemma pool_step_count: "pool_step s s' \<Longrightarrow> unat (fst (cc_free_head s')) \<le> unat (fst (cc_free_head s)) + 1"
  by (auto elim!: pool_step.cases simp: at_pc_def take_head_def put_head_def unat_word_ariths intro: le_trans [OF mod_less_eq_dividend])

lemma pool_run_ok:
  "(pool_step ^^ m) s0 s \<Longrightarrow> CCObjectPool k = Some s0 \<Longrightarrow> m < 2 ^ 64 \<Longrightarrow> unat (fst (cc_free_head s)) \<le> m \<and> (\<exists>fl. pool_ok fl s)"
proof (induction m arbitrary: s)
  case 0
  then show ?case using pool_start_ok [of k s0] by (auto simp: CCObjectPool_def split: if_splits)
next
  case (Suc m)
  then obtain r where r: "(pool_step ^^ m) s0 r" "pool_step r s" by auto
  then obtain fl where fl: "unat (fst (cc_free_head r)) \<le> m" "pool_ok fl r" using Suc by auto
  have "fst (cc_free_head r) \<noteq> -1"
  proof
    assume "fst (cc_free_head r) = -1"
    moreover have "(-1 :: u64) = 18446744073709551615" by simp
    ultimately have "unat (fst (cc_free_head r)) = 2 ^ 64 - 1" by (simp only:) simp
    then show False using fl(1) Suc.prems(3) by simp
  qed
  then show ?case using pool_step_ok [OF r(2) fl(2)] pool_step_count [OF r(2)] fl(1) by auto
qed

lemma capacity_kept: "pool_step\<^sup>*\<^sup>* s0 s \<Longrightarrow> cc_capacity s = cc_capacity s0"
proof (induction rule: rtranclp_induct)
  case (step s s')
  then show ?case by (auto elim!: pool_step.cases simp: at_pc_def take_head_def put_head_def)
qed simp

text \<open>A run: thread 7 takes the first of two objects.\<close>

lemma one_object_taken:
  "\<exists>s0 s. CCObjectPool 2 = Some s0 \<and> (pool_step ^^ 3) s0 s \<and> 0 \<in> cc_held s 7 \<and> (\<forall>t. 1 \<notin> cc_held s t)"
proof -
  let ?s0 = "\<lparr>cc_next = (\<lambda>i. if i + 1 < 2 then Some (i + 1) else None), cc_free_head = (0, Some 0), cc_capacity = 2,
    cc_pc = (\<lambda>_. PoolIdle), cc_held = (\<lambda>_. {})\<rparr>"
  let ?s1 = "at_pc 7 (FindLoaded (0, Some 0)) ?s0"
  let ?s2 = "at_pc 7 (FindNext (0, Some 0) (Some 1)) ?s1"
  let ?e = "take_head 7 0 (Some 1) ?s2"
  have "pool_step ?s0 ?s1" using pool_step.FindLoad [of ?s0 7] by simp
  moreover have "pool_step ?s1 ?s2" using pool_step.FindRead [of ?s1 7 0 0] by (simp add: at_pc_def)
  moreover have "pool_step ?s2 ?e"
    by (rule pool_step.FindSwap [of _ _ 0]) (simp_all add: at_pc_def head_matches_def)
  ultimately have r: "(pool_step ^^ 3) ?s0 ?e" unfolding numeral_3_eq_3 by (meson relpowp_0_I relpowp_Suc_I)
  have c: "CCObjectPool 2 = Some ?s0" by (simp add: CCObjectPool_def)
  have h: "0 \<in> cc_held ?e 7" "1 \<notin> cc_held ?e t" for t by (simp_all add: take_head_def at_pc_def)
  show ?thesis using c r h by blast
qed

text \<open>
  Claim C22. However many threads get, pass on and release objects, and however their accesses interleave, in fewer
  than \<open>2 ^ 64\<close> steps (the counter of the head does not wrap around): the concurrent pool stays well formed, its
  free list ends and has no node twice, no object is held by two threads or both held and free, and every
  object of the arena is free or held.
\<close>

theorem object_pool_well_formed:
  assumes "CCObjectPool k = Some s0" "(pool_step ^^ m) s0 s" "m < 2 ^ 64"
  shows "\<exists>fl. linked (cc_next s) (snd (cc_free_head s)) fl \<and> distinct fl \<and> (\<forall>n t. n \<in> set fl \<longrightarrow> n \<notin> cc_held s t) \<and>
    (\<forall>n t u. n \<in> cc_held s t \<and> n \<in> cc_held s u \<longrightarrow> t = u) \<and> (\<forall>n. n < k \<longleftrightarrow> n \<in> set fl \<or> (\<exists>t. n \<in> cc_held s t))"
proof -
  obtain fl where fl: "pool_ok fl s" using pool_run_ok [OF assms(2,1,3)] by blast
  have "cc_capacity s = k"
    using capacity_kept [OF relpowp_imp_rtranclp [OF assms(2)]] assms(1) by (auto simp: CCObjectPool_def split: if_splits)
  then show ?thesis using pool_okD [OF fl] by (intro exI [of _ fl]) auto
qed

theorem object_pool_well_formed_witness:
  "\<exists>s0 s fl. CCObjectPool 2 = Some s0 \<and> (pool_step ^^ 3) s0 s \<and> 0 \<in> cc_held s 7 \<and>
     linked (cc_next s) (snd (cc_free_head s)) fl \<and> distinct fl \<and> 0 \<notin> set fl \<and> 1 \<in> set fl"
proof -
  obtain s0 s where s: "CCObjectPool 2 = Some s0" "(pool_step ^^ 3) s0 s" "0 \<in> cc_held s 7" "\<And>t. 1 \<notin> cc_held s t"
    using one_object_taken by blast
  obtain fl where fl: "linked (cc_next s) (snd (cc_free_head s)) fl" "distinct fl" "\<forall>n t. n \<in> set fl \<longrightarrow> n \<notin> cc_held s t"
      "\<forall>n. n < 2 \<longleftrightarrow> n \<in> set fl \<or> (\<exists>t. n \<in> cc_held s t)"
    using object_pool_well_formed [OF s(1,2)] by auto
  have "1 \<in> set fl" using fl(4) s(4) by (metis one_less_numeral_iff semiring_norm(76))
  then show ?thesis using s(1,2,3) fl(1,2,3) by blast
qed

end
