(* ===== verification/Peer_Discovery.thy ===== *)
theory Peer_Discovery
  imports Channel_Manager
begin

text \<open>
  How the readers and writers of \<^verbatim>\<open>cyber/node\<close> find each other: \<^verbatim>\<open>JoinTheTopology\<close>, \<^verbatim>\<open>LeaveTheTopology\<close> and \<^verbatim>\<open>OnChannelChange\<close>
  of \<^verbatim>\<open>reader.h\<close> and \<^verbatim>\<open>writer.h\<close>, while other threads change the topology.  A change is entered in the channel manager first and
  announced to the listeners later.
\<close>

section \<open>Attributes\<close>

text \<open>The endpoint that has a given id.\<close>

definition known_as :: "(u64 \<Rightarrow> role_attributes) \<Rightarrow> u64 \<Rightarrow> role_attributes" where
  "known_as who i = (who i)\<lparr>attr_id := Some i\<rparr>"

lemma attr_id_known_as [simp]: "attr_id (known_as who i) = Some i"
  by (simp add: known_as_def)

lemma known_as_inj [simp]: "known_as who i = known_as who j \<longleftrightarrow> i = j"
  by (metis attr_id_known_as option.inject)

section \<open>Joining the topology\<close>

text \<open>The steps of \<^verbatim>\<open>JoinTheTopology\<close>: add the listener, ask for the peers, enable one after the other, join.\<close>

datatype phase = Fresh | Listening | Enabling "role_attributes list" | Joined | Left

text \<open>
  \<open>di_pending\<close> are changes that are in the manager and not announced, \<open>di_calls\<close> those announced to the listener, which is still to be
  called; \<open>di_peers\<close> is the receiver or the transmitter.  \<open>di_gone\<close> records the ids that have left.
\<close>

record 'p discovery =
  di_manager :: channel_manager
  di_pending :: "change_msg list"
  di_calls :: "change_msg list"
  di_phase :: phase
  di_peers :: 'p
  di_gone :: "u64 set"

definition discovery_start :: "channel_manager \<Rightarrow> 'p \<Rightarrow> 'p discovery" where
  "discovery_start m p = \<lparr>di_manager = m, di_pending = [], di_calls = [], di_phase = Fresh, di_peers = p, di_gone = {}\<rparr>"

text \<open>A reader listens to writers and a writer to readers.\<close>

definition OnChannelChange ::
  "role_type \<Rightarrow> string \<Rightarrow> (role_attributes \<Rightarrow> 'p \<Rightarrow> 'p) \<Rightarrow> (role_attributes \<Rightarrow> 'p \<Rightarrow> 'p) \<Rightarrow> change_msg \<Rightarrow> 'p \<Rightarrow> 'p" where
  "OnChannelChange role name enable disable msg p =
     (if msg_role_type msg \<noteq> role then p
      else if field [] (attr_channel_name (msg_role_attr msg)) \<noteq> name then p
      else if msg_operate_type msg = OPT_JOIN then enable (msg_role_attr msg) p
      else disable (msg_role_attr msg) p)"

definition peers_of_channel :: "role_type \<Rightarrow> (string \<Rightarrow> u64) \<Rightarrow> string \<Rightarrow> channel_manager \<Rightarrow> role_attributes list" where
  "peers_of_channel role channel_id name m =
     (if role = ROLE_WRITER then GetWritersOfChannel channel_id name [] m else GetReadersOfChannel channel_id name [] m)"

text \<open>
  A change as endpoints make them that have an id of their own: of one endpoint for each id, which does not come back once it has
  left.  Writers are such endpoints; readers are only if no other reader of their process reads the channel, now or later, as these share
  the id of the receiver.
\<close>

definition genuine :: "role_type \<Rightarrow> (u64 \<Rightarrow> role_attributes) \<Rightarrow> u64 set \<Rightarrow> change_msg \<Rightarrow> bool" where
  "genuine role who gone msg \<longleftrightarrow> msg_role_type msg \<in> {ROLE_WRITER, ROLE_READER} \<and> complete (msg_role_attr msg) \<and>
     (msg_role_type msg = role \<longrightarrow> (\<exists>i. msg_role_attr msg = known_as who i \<and> (msg_operate_type msg = OPT_JOIN \<longrightarrow> i \<notin> gone)))"

definition dispose_change :: "change_msg \<Rightarrow> channel_manager \<Rightarrow> channel_manager" where
  "dispose_change msg m = (if msg_operate_type msg = OPT_JOIN then channel_DisposeJoin msg m else channel_DisposeLeave msg m)"

definition left_with :: "role_type \<Rightarrow> change_msg \<Rightarrow> u64 set" where
  "left_with role msg = (if msg_role_type msg = role \<and> msg_operate_type msg \<noteq> OPT_JOIN then {field 0 (attr_id (msg_role_attr msg))} else {})"

inductive discovery_step ::
  "role_type \<Rightarrow> (string \<Rightarrow> u64) \<Rightarrow> string \<Rightarrow> (u64 \<Rightarrow> role_attributes) \<Rightarrow> (role_attributes \<Rightarrow> 'p \<Rightarrow> 'p) \<Rightarrow> (role_attributes \<Rightarrow> 'p \<Rightarrow> 'p) \<Rightarrow>
   'p discovery \<Rightarrow> 'p discovery \<Rightarrow> bool"
  for role channel_id name who enable disable where
  Dispose: "genuine role who (di_gone d) msg \<Longrightarrow>
    discovery_step role channel_id name who enable disable d
      (d\<lparr>di_manager := dispose_change msg (di_manager d), di_pending := di_pending d @ [msg], di_gone := left_with role msg \<union> di_gone d\<rparr>)"
| Announce: "di_pending d = us @ msg # vs \<Longrightarrow>
    discovery_step role channel_id name who enable disable d
      (d\<lparr>di_pending := us @ vs, di_calls := (if di_phase d \<in> {Fresh, Left} then di_calls d else di_calls d @ [msg])\<rparr>)"
| Call: "di_calls d = us @ msg # vs \<Longrightarrow>
    discovery_step role channel_id name who enable disable d
      (d\<lparr>di_calls := us @ vs, di_peers := OnChannelChange role name enable disable msg (di_peers d)\<rparr>)"
| Listen: "di_phase d = Fresh \<Longrightarrow> discovery_step role channel_id name who enable disable d (d\<lparr>di_phase := Listening\<rparr>)"
| Query: "di_phase d = Listening \<Longrightarrow>
    discovery_step role channel_id name who enable disable d (d\<lparr>di_phase := Enabling (peers_of_channel role channel_id name (di_manager d))\<rparr>)"
| Enable: "di_phase d = Enabling (a # as) \<Longrightarrow>
    discovery_step role channel_id name who enable disable d (d\<lparr>di_phase := Enabling as, di_peers := enable a (di_peers d)\<rparr>)"
| Join: "di_phase d = Enabling [] \<Longrightarrow> discovery_step role channel_id name who enable disable d (d\<lparr>di_phase := Joined\<rparr>)"
| Leave: "di_phase d = Joined \<Longrightarrow> discovery_step role channel_id name who enable disable d (d\<lparr>di_phase := Left\<rparr>)"

section \<open>No peer is missed\<close>

text \<open>What joining needs of a receiver or transmitter: it tracks the ids that were enabled and not disabled since.\<close>

locale peer_set =
  fixes enable :: "role_attributes \<Rightarrow> 'p \<Rightarrow> 'p" and disable :: "role_attributes \<Rightarrow> 'p \<Rightarrow> 'p"
    and who :: "u64 \<Rightarrow> role_attributes" and tracks :: "u64 set \<Rightarrow> 'p \<Rightarrow> bool"
  assumes tracks_enable: "tracks E p \<Longrightarrow> tracks (insert i E) (enable (known_as who i) p)"
    and tracks_disable: "tracks E p \<Longrightarrow> tracks (E - {i}) (disable (known_as who i) p)"

definition joining :: "role_type \<Rightarrow> role_attributes \<Rightarrow> change_msg list \<Rightarrow> bool" where
  "joining role a msgs \<longleftrightarrow> (\<exists>msg\<in>set msgs. msg_role_type msg = role \<and> msg_operate_type msg = OPT_JOIN \<and> msg_role_attr msg = a)"

text \<open>A peer is known, or will be.\<close>

fun expected :: "role_type \<Rightarrow> role_attributes \<Rightarrow> bool \<Rightarrow> change_msg list \<Rightarrow> phase \<Rightarrow> bool" where
  "expected role a known msgs (Enabling as) \<longleftrightarrow> known \<or> a \<in> set as \<or> joining role a msgs"
| "expected role a known msgs Joined \<longleftrightarrow> known \<or> joining role a msgs"
| "expected role a known msgs _ \<longleftrightarrow> True"

definition role_set :: "role_type \<Rightarrow> role set \<Rightarrow> role set \<Rightarrow> role set" where
  "role_set role W R = (if role = ROLE_WRITER then W else R)"

definition messages_ok :: "role_type \<Rightarrow> (u64 \<Rightarrow> role_attributes) \<Rightarrow> u64 set \<Rightarrow> change_msg list \<Rightarrow> bool" where
  "messages_ok role who gone msgs \<longleftrightarrow> (\<forall>msg\<in>set msgs. msg_role_type msg = role \<longrightarrow>
     (\<exists>i. msg_role_attr msg = known_as who i \<and> (msg_operate_type msg \<noteq> OPT_JOIN \<longrightarrow> i \<in> gone)))"

definition phase_ok :: "(u64 \<Rightarrow> role_attributes) \<Rightarrow> phase \<Rightarrow> bool" where
  "phase_ok who ph \<longleftrightarrow> (\<forall>as. ph = Enabling as \<longrightarrow> set as \<subseteq> range (known_as who))"

definition covered ::
  "role_type \<Rightarrow> (string \<Rightarrow> u64) \<Rightarrow> string \<Rightarrow> (u64 \<Rightarrow> role_attributes) \<Rightarrow> u64 set \<Rightarrow> u64 set \<Rightarrow> change_msg list \<Rightarrow> phase \<Rightarrow> role set \<Rightarrow> bool" where
  "covered role channel_id name who gone E msgs ph A \<longleftrightarrow> (\<forall>r\<in>A. \<exists>i. role_attr r = known_as who i \<and> i \<notin> gone \<and>
     (channel_key r = channel_id name \<and> attr_channel_name (known_as who i) = Some name \<longrightarrow> expected role (known_as who i) (i \<in> E) msgs ph))"

definition discovery_inv ::
  "role_type \<Rightarrow> (string \<Rightarrow> u64) \<Rightarrow> string \<Rightarrow> (u64 \<Rightarrow> role_attributes) \<Rightarrow> u64 set \<Rightarrow> 'p discovery \<Rightarrow> bool" where
  "discovery_inv role channel_id name who E d \<longleftrightarrow>
     (\<exists>W R. holds_roles (di_manager d) W R \<and>
        covered role channel_id name who (di_gone d) E (di_pending d @ di_calls d) (di_phase d) (role_set role W R)) \<and>
     messages_ok role who (di_gone d) (di_pending d @ di_calls d) \<and> phase_ok who (di_phase d)"

lemma expected_mono:
  "expected role a k msgs ph \<Longrightarrow> (k \<Longrightarrow> k') \<Longrightarrow> set msgs \<subseteq> set msgs' \<Longrightarrow> expected role a k' msgs' ph"
  by (cases ph) (auto simp: joining_def)

lemma messages_ok_mono: "messages_ok role who gone msgs \<Longrightarrow> gone \<subseteq> gone' \<Longrightarrow> set msgs' \<subseteq> set msgs \<Longrightarrow> messages_ok role who gone' msgs'"
  unfolding messages_ok_def by blast

lemma query_holds:
  assumes "holds_roles m W R"
  shows "set (peers_of_channel role channel_id name m) = role_attr ` {r \<in> role_set role W R. channel_key r = channel_id name}"
  using assms stores_query(1) [of channel_key]
  by (auto simp: peers_of_channel_def role_set_def holds_roles_def GetWritersOfChannel_def GetReadersOfChannel_def)

lemma dispose_holds:
  assumes h: "holds_roles m W R" and g: "genuine role who gone msg" and role: "role = ROLE_WRITER \<or> role = ROLE_READER"
  shows "\<exists>W' R'. holds_roles (dispose_change msg m) W' R' \<and>
    role_set role W' R' = (if msg_role_type msg \<noteq> role then role_set role W R
       else if msg_operate_type msg = OPT_JOIN then insert (make_role RoleWriter (msg_role_attr msg) (msg_timestamp msg)) (role_set role W R)
       else {r \<in> role_set role W R. \<not> same_endpoint (role_attr r) (msg_role_attr msg)})"
proof -
  have c: "complete (msg_role_attr msg)" and t: "msg_role_type msg = ROLE_WRITER \<or> msg_role_type msg = ROLE_READER"
    using g by (auto simp: genuine_def)
  show ?thesis
  proof (cases "msg_operate_type msg = OPT_JOIN")
    case True
    then show ?thesis using holds_Join [OF h c] role t by (auto simp: dispose_change_def role_set_def intro!: exI)
  next
    case False
    then show ?thesis using holds_Leave [OF h c] role t by (auto simp: dispose_change_def role_set_def intro!: exI)
  qed
qed

lemma coveredI:
  assumes "covered role channel_id name who gone E msgs ph A"
    and "\<And>i. i \<notin> gone \<Longrightarrow> attr_channel_name (known_as who i) = Some name \<Longrightarrow> expected role (known_as who i) (i \<in> E) msgs ph \<Longrightarrow>
           expected role (known_as who i) (i \<in> E') msgs' ph'"
  shows "covered role channel_id name who gone E' msgs' ph' A"
  using assms unfolding covered_def by blast

lemma inv_Dispose:
  assumes inv: "discovery_inv role channel_id name who E d" and g: "genuine role who (di_gone d) msg" and role: "role = ROLE_WRITER \<or> role = ROLE_READER"
  shows "discovery_inv role channel_id name who E
    (d\<lparr>di_manager := dispose_change msg (di_manager d), di_pending := di_pending d @ [msg], di_gone := left_with role msg \<union> di_gone d\<rparr>)"
proof -
  let ?ms = "di_pending d @ di_calls d" and ?ms' = "(di_pending d @ [msg]) @ di_calls d" and ?ph = "di_phase d"
  obtain W R where h: "holds_roles (di_manager d) W R" and cov: "covered role channel_id name who (di_gone d) E ?ms ?ph (role_set role W R)"
    and ok: "messages_ok role who (di_gone d) ?ms" "phase_ok who ?ph" using inv by (auto simp: discovery_inv_def)
  have more: "covered role channel_id name who (di_gone d) E ?ms' ?ph (role_set role W R)"
    by (rule coveredI [OF cov]) (erule expected_mono, auto)
  obtain W' R' where h': "holds_roles (dispose_change msg (di_manager d)) W' R'"
    and A: "role_set role W' R' = (if msg_role_type msg \<noteq> role then role_set role W R
       else if msg_operate_type msg = OPT_JOIN then insert (make_role RoleWriter (msg_role_attr msg) (msg_timestamp msg)) (role_set role W R)
       else {r \<in> role_set role W R. \<not> same_endpoint (role_attr r) (msg_role_attr msg)})"
    using dispose_holds [OF h g role] by blast
  consider (other) "msg_role_type msg \<noteq> role"
    | (join) i where "msg_role_type msg = role" "msg_operate_type msg = OPT_JOIN" "msg_role_attr msg = known_as who i" "i \<notin> di_gone d"
    | (leave) i where "msg_role_type msg = role" "msg_operate_type msg \<noteq> OPT_JOIN" "msg_role_attr msg = known_as who i"
    using g by (auto simp: genuine_def)
  then have "covered role channel_id name who (left_with role msg \<union> di_gone d) E ?ms' ?ph (role_set role W' R') \<and>
      messages_ok role who (left_with role msg \<union> di_gone d) ?ms'"
  proof cases
    case other
    then show ?thesis using more ok(1) A by (auto simp: left_with_def messages_ok_def)
  next
    case join
    have "expected role (known_as who i) (i \<in> E) ?ms' ?ph" using join by (cases ?ph) (auto simp: joining_def)
    then show ?thesis using more ok(1) A join by (auto simp: left_with_def messages_ok_def covered_def make_role_def)
  next
    case leave
    have "covered role channel_id name who (insert i (di_gone d)) E ?ms' ?ph (role_set role W' R')"
      using more A leave unfolding covered_def by (fastforce simp: same_endpoint_def)
    moreover have "messages_ok role who (insert i (di_gone d)) ?ms'" using ok(1) leave by (fastforce simp: messages_ok_def)
    ultimately show ?thesis using leave by (simp add: left_with_def field_def)
  qed
  then show ?thesis using h' ok(2) unfolding discovery_inv_def by auto
qed

text \<open>A step that leaves the manager alone.\<close>

lemma inv_keeps_manager:
  assumes inv: "discovery_inv role channel_id name who E d"
    and "di_manager d' = di_manager d" "di_gone d' = di_gone d" "set (di_pending d' @ di_calls d') \<subseteq> set (di_pending d @ di_calls d)"
    and "phase_ok who (di_phase d')"
    and e: "\<And>i. i \<notin> di_gone d \<Longrightarrow> attr_channel_name (known_as who i) = Some name \<Longrightarrow>
      expected role (known_as who i) (i \<in> E) (di_pending d @ di_calls d) (di_phase d) \<Longrightarrow>
      expected role (known_as who i) (i \<in> E') (di_pending d' @ di_calls d') (di_phase d')"
  shows "discovery_inv role channel_id name who E' d'"
proof -
  obtain W R where h: "holds_roles (di_manager d') W R"
    and cov: "covered role channel_id name who (di_gone d) E (di_pending d @ di_calls d) (di_phase d) (role_set role W R)"
    and ok: "messages_ok role who (di_gone d) (di_pending d @ di_calls d)" using inv assms(2) by (auto simp: discovery_inv_def)
  have "covered role channel_id name who (di_gone d') E' (di_pending d' @ di_calls d') (di_phase d') (role_set role W R)"
    unfolding assms(3) by (rule coveredI [OF cov e])
  moreover have "messages_ok role who (di_gone d') (di_pending d' @ di_calls d')"
    using messages_ok_mono [OF ok _ assms(4)] assms(3) by simp
  ultimately show ?thesis using h assms(5) unfolding discovery_inv_def by blast
qed

lemma inv_Announce:
  assumes inv: "discovery_inv role channel_id name who E d" and p: "di_pending d = us @ msg # vs"
  shows "discovery_inv role channel_id name who E
    (d\<lparr>di_pending := us @ vs, di_calls := (if di_phase d \<in> {Fresh, Left} then di_calls d else di_calls d @ [msg])\<rparr>)"
proof (rule inv_keeps_manager [OF inv])
  fix i assume "expected role (known_as who i) (i \<in> E) (di_pending d @ di_calls d) (di_phase d)"
  then show "expected role (known_as who i) (i \<in> E) (di_pending (d\<lparr>di_pending := us @ vs, di_calls := (if di_phase d \<in> {Fresh, Left} then di_calls d else di_calls d @ [msg])\<rparr>) @
      di_calls (d\<lparr>di_pending := us @ vs, di_calls := (if di_phase d \<in> {Fresh, Left} then di_calls d else di_calls d @ [msg])\<rparr>))
      (di_phase (d\<lparr>di_pending := us @ vs, di_calls := (if di_phase d \<in> {Fresh, Left} then di_calls d else di_calls d @ [msg])\<rparr>))"
    by (cases "di_phase d") (auto simp: joining_def p)
qed (use inv p in \<open>auto simp: discovery_inv_def\<close>)

lemma inv_Query:
  assumes inv: "discovery_inv role channel_id name who E d"
  shows "discovery_inv role channel_id name who E (d\<lparr>di_phase := Enabling (peers_of_channel role channel_id name (di_manager d))\<rparr>)"
proof -
  obtain W R where h: "holds_roles (di_manager d) W R" and cov: "\<forall>r\<in>role_set role W R. \<exists>i. role_attr r = known_as who i \<and> i \<notin> di_gone d"
    using inv unfolding discovery_inv_def covered_def by blast
  note q = query_holds [OF h, of role channel_id name]
  have "covered role channel_id name who (di_gone d) E (di_pending d @ di_calls d) (Enabling (peers_of_channel role channel_id name (di_manager d))) (role_set role W R)"
    using cov unfolding covered_def by (fastforce simp: q image_iff)
  moreover have "phase_ok who (Enabling (peers_of_channel role channel_id name (di_manager d)))"
    using cov unfolding phase_ok_def by (auto simp: q)
  ultimately show ?thesis using inv h unfolding discovery_inv_def by auto
qed

text \<open>The call of the listener for a change, by the kind of change.\<close>

lemma call_cases:
  assumes "messages_ok role who gone msgs" "msg \<in> set msgs"
  obtains (none) "OnChannelChange role name enable disable msg = (\<lambda>p. p)"
      "\<And>i. attr_channel_name (known_as who i) = Some name \<Longrightarrow> \<not> joining role (known_as who i) [msg]"
  | (join) j where "OnChannelChange role name enable disable msg = enable (known_as who j)" "\<And>i. joining role (known_as who i) [msg] \<Longrightarrow> i = j"
  | (leave) j where "OnChannelChange role name enable disable msg = disable (known_as who j)" "j \<in> gone" "\<And>i. \<not> joining role (known_as who i) [msg]"
proof (cases "msg_role_type msg = role \<and> field [] (attr_channel_name (msg_role_attr msg)) = name")
  case False
  then show ?thesis by (intro none) (auto simp: OnChannelChange_def fun_eq_iff joining_def field_def)
next
  case True
  then obtain j where j: "msg_role_attr msg = known_as who j" "msg_operate_type msg \<noteq> OPT_JOIN \<longrightarrow> j \<in> gone"
    using assms by (auto simp: messages_ok_def)
  show ?thesis
  proof (cases "msg_operate_type msg = OPT_JOIN")
    case op: True
    show ?thesis by (rule join [of j]) (use True j op in \<open>auto simp: OnChannelChange_def fun_eq_iff joining_def\<close>)
  next
    case op: False
    show ?thesis by (rule leave [of j]) (use True j op in \<open>auto simp: OnChannelChange_def fun_eq_iff joining_def\<close>)
  qed
qed

lemma expected_handled:
  assumes "expected role a k (us @ msg # vs) ph" "joining role a [msg] \<Longrightarrow> k'" "k \<Longrightarrow> k'"
  shows "expected role a k' (us @ vs) ph"
  using assms by (cases ph) (auto simp: joining_def)

context peer_set
begin

lemma inv_Call:
  assumes inv: "discovery_inv role channel_id name who E d" and t: "tracks E (di_peers d)" and c: "di_calls d = us @ msg # vs"
  shows "\<exists>E'. discovery_inv role channel_id name who E' (d\<lparr>di_calls := us @ vs, di_peers := OnChannelChange role name enable disable msg (di_peers d)\<rparr>) \<and>
    tracks E' (OnChannelChange role name enable disable msg (di_peers d))"
proof -
  let ?d = "d\<lparr>di_calls := us @ vs, di_peers := OnChannelChange role name enable disable msg (di_peers d)\<rparr>"
  have ok: "messages_ok role who (di_gone d) (di_pending d @ di_calls d)" "phase_ok who (di_phase d)" using inv by (auto simp: discovery_inv_def)
  have step: "discovery_inv role channel_id name who E' ?d"
    if k: "\<And>i. attr_channel_name (known_as who i) = Some name \<Longrightarrow> i \<notin> di_gone d \<Longrightarrow> joining role (known_as who i) [msg] \<or> i \<in> E \<Longrightarrow> i \<in> E'" for E'
  proof (rule inv_keeps_manager [OF inv])
    fix i assume i: "i \<notin> di_gone d" "attr_channel_name (known_as who i) = Some name"
      "expected role (known_as who i) (i \<in> E) (di_pending d @ di_calls d) (di_phase d)"
    then show "expected role (known_as who i) (i \<in> E') (di_pending ?d @ di_calls ?d) (di_phase ?d)"
      using expected_handled [of role "known_as who i" "i \<in> E" "di_pending d @ us" msg vs "di_phase d" "i \<in> E'"] k [of i] c by simp
  qed (use ok c in auto)
  have "msg \<in> set (di_pending d @ di_calls d)" using c by simp
  from ok(1) this show ?thesis
  proof (cases rule: call_cases [where name = name and enable = enable and disable = disable])
    case none
    then show ?thesis using step [of E] t by auto
  next
    case (join j)
    then show ?thesis using step [of "insert j E"] tracks_enable [OF t] by auto
  next
    case (leave j)
    then show ?thesis using step [of "E - {j}"] tracks_disable [OF t] by auto
  qed
qed

lemma inv_step:
  assumes "discovery_step role channel_id name who enable disable d d'" "role = ROLE_WRITER \<or> role = ROLE_READER"
    and "discovery_inv role channel_id name who E d" "tracks E (di_peers d)"
  shows "\<exists>E'. discovery_inv role channel_id name who E' d' \<and> tracks E' (di_peers d')"
  using assms(1)
proof cases
  case (Dispose msg)
  then show ?thesis using inv_Dispose [OF assms(3) Dispose(2) assms(2)] assms(4) by auto
next
  case (Announce us msg vs)
  have "di_peers d' = di_peers d" using Announce(1) by simp
  then show ?thesis using inv_Announce [OF assms(3) Announce(2)] Announce(1) assms(4) by metis
next
  case (Call us msg vs)
  then show ?thesis using inv_Call [OF assms(3,4) Call(2)] by auto
next
  case Listen
  have "discovery_inv role channel_id name who E d'" by (rule inv_keeps_manager [OF assms(3)]) (use Listen in \<open>auto simp: phase_ok_def\<close>)
  then show ?thesis using Listen assms(4) by auto
next
  case Query
  then show ?thesis using inv_Query [OF assms(3)] assms(4) by auto
next
  case (Enable a as)
  have "phase_ok who (di_phase d)" using assms(3) by (simp add: discovery_inv_def)
  then obtain j where j: "a = known_as who j" "set as \<subseteq> range (known_as who)" using Enable by (auto simp: phase_ok_def)
  have "discovery_inv role channel_id name who (insert j E) d'"
    by (rule inv_keeps_manager [OF assms(3)]) (use Enable j in \<open>auto simp: phase_ok_def\<close>)
  then show ?thesis using Enable j tracks_enable [OF assms(4)] by auto
next
  case Join
  have "discovery_inv role channel_id name who E d'" by (rule inv_keeps_manager [OF assms(3)]) (use Join in \<open>auto simp: phase_ok_def\<close>)
  then show ?thesis using Join assms(4) by auto
next
  case Leave
  have "discovery_inv role channel_id name who E d'" by (rule inv_keeps_manager [OF assms(3)]) (use Leave in \<open>auto simp: phase_ok_def\<close>)
  then show ?thesis using Leave assms(4) by auto
qed

lemma inv_reachable:
  assumes "(discovery_step role channel_id name who enable disable)\<^sup>*\<^sup>* (discovery_start (started_manager h p) s) d"
    and "role = ROLE_WRITER \<or> role = ROLE_READER" "tracks {} s"
  shows "\<exists>E. discovery_inv role channel_id name who E d \<and> tracks E (di_peers d)"
  using assms(1)
proof (induction rule: rtranclp_induct)
  case base
  have "discovery_inv role channel_id name who {} (discovery_start (started_manager h p) s)"
    using started_manager_holds(1) [of h p] by (fastforce simp: discovery_inv_def discovery_start_def covered_def role_set_def messages_ok_def phase_ok_def)
  then show ?case using assms(3) by (auto simp: discovery_start_def)
next
  case (step d d')
  then show ?case using inv_step [OF step.hyps(2) assms(2)] by blast
qed

text \<open>Once an endpoint has joined and nothing is on its way, it knows every peer of its channel.\<close>

lemma no_peer_missed:
  assumes "(discovery_step role channel_id name who enable disable)\<^sup>*\<^sup>* (discovery_start (started_manager h p) s) d"
    and "role = ROLE_WRITER \<or> role = ROLE_READER" "tracks {} s"
    and "di_phase d = Joined" "di_pending d = []" "di_calls d = []"
    and a: "a \<in> set (peers_of_channel role channel_id name (di_manager d))" "attr_channel_name a = Some name"
  shows "\<exists>E i. tracks E (di_peers d) \<and> a = known_as who i \<and> i \<in> E"
proof -
  obtain E where inv: "discovery_inv role channel_id name who E d" and t: "tracks E (di_peers d)"
    using inv_reachable [OF assms(1-3)] by blast
  then obtain W R where h: "holds_roles (di_manager d) W R"
    and cov: "covered role channel_id name who (di_gone d) E [] Joined (role_set role W R)"
    using assms(4-6) by (auto simp: discovery_inv_def)
  obtain r where r: "r \<in> role_set role W R" "channel_key r = channel_id name" "role_attr r = a" using a(1) query_holds [OF h] by auto
  then obtain i where "a = known_as who i" "i \<in> E" using cov a(2) unfolding covered_def by (fastforce simp: joining_def)
  then show ?thesis using t by blast
qed

end

text \<open>
  A peer that leaves after it was asked for and before it is enabled stays enabled: its leave is handled first and has no effect.
\<close>

lemma departed_peer_stays:
  assumes d: "di_phase d = Enabling [a]" "di_pending d = []" "di_calls d = []" "holds_roles (di_manager d) W R"
    and a: "a = known_as who i" "complete a" "attr_channel_name a = Some name" and role: "role = ROLE_WRITER \<or> role = ROLE_READER"
  shows "\<exists>d'. (discovery_step role channel_id name who enable disable)\<^sup>*\<^sup>* d d' \<and> di_phase d' = Joined \<and> di_pending d' = [] \<and> di_calls d' = [] \<and>
    di_peers d' = enable a (disable a (di_peers d)) \<and> a \<notin> set (peers_of_channel role channel_id name (di_manager d'))"
proof -
  let ?step = "discovery_step role channel_id name who enable disable"
  let ?msg = "\<lparr>msg_timestamp = 0, msg_change_type = CHANGE_CHANNEL, msg_operate_type = OPT_LEAVE, msg_role_type = role, msg_role_attr = a\<rparr>"
  have g: "genuine role who (di_gone d) ?msg" using a role by (auto simp: genuine_def)
  let ?m = "dispose_change ?msg (di_manager d)" and ?gone = "left_with role ?msg \<union> di_gone d"
  let ?p = "disable a (di_peers d)"
  let ?st = "\<lambda>pend calls ph p. \<lparr>di_manager = ?m, di_pending = pend, di_calls = calls, di_phase = ph, di_peers = p, di_gone = ?gone\<rparr>"
  let ?d1 = "?st [?msg] [] (Enabling [a]) (di_peers d)" and ?d2 = "?st [] [?msg] (Enabling [a]) (di_peers d)"
  let ?d3 = "?st [] [] (Enabling [a]) ?p" and ?d4 = "?st [] [] (Enabling []) (enable a ?p)" and ?d5 = "?st [] [] Joined (enable a ?p)"
  have "d\<lparr>di_manager := ?m, di_pending := di_pending d @ [?msg], di_gone := ?gone\<rparr> = ?d1" using d(1-3) by (cases d) simp
  then have "?step d ?d1" using discovery_step.Dispose [OF g] by metis
  moreover have "?step ?d1 ?d2"
    using discovery_step.Announce [of ?d1 "[]" ?msg "[]" role channel_id name who enable disable] by simp
  moreover have "?step ?d2 ?d3"
    using discovery_step.Call [of ?d2 "[]" ?msg "[]" role channel_id name who enable disable] a(3) by (simp add: OnChannelChange_def field_def)
  moreover have "?step ?d3 ?d4"
    using discovery_step.Enable [of ?d3 a "[]" role channel_id name who enable disable] by simp
  moreover have "?step ?d4 ?d5" using discovery_step.Join [of ?d4 role channel_id name who enable disable] by simp
  ultimately have run: "?step\<^sup>*\<^sup>* d ?d5" by (meson converse_rtranclp_into_rtranclp rtranclp.rtrancl_refl)
  obtain W' R' where h: "holds_roles ?m W' R'" "role_set role W' R' = {r \<in> role_set role W R. \<not> same_endpoint (role_attr r) a}"
    using dispose_holds [OF d(4) g role] by auto
  have "a \<notin> set (peers_of_channel role channel_id name ?m)"
    unfolding query_holds [OF h(1)] h(2) by (auto simp: same_endpoint_def)
  then show ?thesis using run by (intro exI [of _ ?d5]) simp
qed

text \<open>An endpoint that joins after a peer gets to know it.\<close>

lemma join_run:
  assumes a: "a = known_as who i" "complete a" "attr_channel_name a = Some name" "attr_channel_id a = Some (channel_id name)"
    and role: "role = ROLE_WRITER \<or> role = ROLE_READER"
  shows "\<exists>d. (discovery_step role channel_id name who enable disable)\<^sup>*\<^sup>* (discovery_start (started_manager h p) s) d \<and> di_phase d = Joined \<and>
    di_pending d = [] \<and> di_calls d = [] \<and> a \<in> set (peers_of_channel role channel_id name (di_manager d))"
proof -
  let ?step = "discovery_step role channel_id name who enable disable" and ?d0 = "discovery_start (started_manager h p) s"
  let ?msg = "\<lparr>msg_timestamp = 0, msg_change_type = CHANGE_CHANNEL, msg_operate_type = OPT_JOIN, msg_role_type = role, msg_role_attr = a\<rparr>"
  let ?m = "dispose_change ?msg (started_manager h p)"
  let ?st = "\<lambda>pend ph p. \<lparr>di_manager = ?m, di_pending = pend, di_calls = [], di_phase = ph, di_peers = p, di_gone = {}\<rparr>"
  have g: "genuine role who {} ?msg" using a role by (auto simp: genuine_def)
  have "?step ?d0 (?st [?msg] Fresh s)"
    using discovery_step.Dispose [of role who ?d0 ?msg channel_id name enable disable] g by (simp add: discovery_start_def left_with_def)
  moreover have "?step (?st [?msg] Fresh s) (?st [] Fresh s)"
    using discovery_step.Announce [of "?st [?msg] Fresh s" "[]" ?msg "[]" role channel_id name who enable disable] by simp
  moreover have "?step (?st [] Fresh s) (?st [] Listening s)"
    using discovery_step.Listen [of "?st [] Fresh s" role channel_id name who enable disable] by simp
  moreover have "?step (?st [] Listening s) (?st [] (Enabling (peers_of_channel role channel_id name ?m)) s)"
    using discovery_step.Query [of "?st [] Listening s" role channel_id name who enable disable] by simp
  ultimately have "?step\<^sup>*\<^sup>* ?d0 (?st [] (Enabling (peers_of_channel role channel_id name ?m)) s)"
    by (meson converse_rtranclp_into_rtranclp rtranclp.rtrancl_refl)
  moreover have "?step\<^sup>*\<^sup>* (?st [] (Enabling as) s) (?st [] (Enabling []) (fold enable as s))" for as s
  proof (induction as arbitrary: s)
    case (Cons b as)
    have "?step (?st [] (Enabling (b # as)) s) (?st [] (Enabling as) (enable b s))"
      using discovery_step.Enable [of "?st [] (Enabling (b # as)) s" b as role channel_id name who enable disable] by simp
    then show ?case using Cons [of "enable b s"] by (simp add: converse_rtranclp_into_rtranclp)
  qed simp
  moreover have "?step (?st [] (Enabling []) p) (?st [] Joined p)" for p
    using discovery_step.Join [of "?st [] (Enabling []) p" role channel_id name who enable disable] by simp
  ultimately have run: "\<exists>q. ?step\<^sup>*\<^sup>* ?d0 (?st [] Joined q)" by (meson rtranclp.rtrancl_into_rtrancl rtranclp_trans)
  obtain W R where h: "holds_roles ?m W R" "role_set role W R = insert (make_role RoleWriter a 0) (role_set role {} {})"
    using dispose_holds [OF started_manager_holds(1) [of h p] g role] by auto
  have "a \<in> set (peers_of_channel role channel_id name ?m)"
    unfolding query_holds [OF h(1)] h(2) using a(4) by (intro image_eqI [of _ _ "make_role RoleWriter a 0"]) (simp_all add: make_role_def channel_key_def field_def)
  then show ?thesis using run by fastforce
qed

end
