(* ===== verification/Message_Traits.thy ===== *)
theory Message_Traits
  imports Byte_Codec
begin

text \<open>
  \<^verbatim>\<open>cyber/message\<close>: the header in front of a serialised message (\<^verbatim>\<open>message_header.h\<close>), the functions that serialise
  and parse with it for every message type (\<^verbatim>\<open>message_traits.h\<close>), and the two message types the library brings itself,
  raw messages (\<^verbatim>\<open>raw_message.h\<close>) and messages from Python (\<^verbatim>\<open>py_message.h\<close>).
\<close>

section \<open>MessageHeader\<close>

text \<open>\<^verbatim>\<open>htonl\<close> and \<^verbatim>\<open>ntohl\<close> on a little endian machine.\<close>

definition htonl :: "u32 \<Rightarrow> u32" where "htonl x = u32_of_bytes (rev (u32_bytes x))"

definition Convert32ToArray :: "u32 \<Rightarrow> u8 list" where "Convert32ToArray input = u32_bytes (htonl input)"

definition Convert64ToArray :: "u64 \<Rightarrow> u8 list" where
  "Convert64ToArray input =
     (let h_high = ucast (drop_bit 32 (input AND 0xffffffff00000000)); h_low = ucast (input AND 0x00000000ffffffff)
      in Convert32ToArray h_high @ Convert32ToArray h_low)"

definition ConvertArrayTo32 :: "u8 list \<Rightarrow> u32" where "ConvertArrayTo32 input = htonl (u32_of_bytes (take 4 input))"

definition ConvertArrayTo64 :: "u8 list \<Rightarrow> u64" where
  "ConvertArrayTo64 input =
     (let high = ucast (ConvertArrayTo32 input); low = ucast (ConvertArrayTo32 (drop 4 input)) in push_bit 32 high OR low)"

record message_header =
  magic_num :: "u8 list"
  h_seq :: "u8 list"
  h_timestamp_ns :: "u8 list"
  h_src_id :: "u8 list"
  h_dst_id :: "u8 list"
  h_msg_type :: "u8 list"
  h_res :: "u8 list"
  h_content_size :: "u8 list"

definition string_bytes :: "string \<Rightarrow> u8 list" where "string_bytes s = map (\<lambda>c. of_nat (of_char c)) s"

definition MessageHeader :: message_header where
  "MessageHeader = \<lparr>magic_num = string_bytes ''BDACBDAC'', h_seq = replicate 8 0, h_timestamp_ns = replicate 8 0,
     h_src_id = replicate 8 0, h_dst_id = replicate 8 0, h_msg_type = replicate 129 0, h_res = replicate 19 0,
     h_content_size = replicate 4 0\<rparr>"

definition is_magic_num_match :: "u8 list option \<Rightarrow> message_header \<Rightarrow> bool" where
  "is_magic_num_match other h = (case other of None \<Rightarrow> False | Some bs \<Rightarrow> length bs = 8 \<and> magic_num h = bs)"

definition header_seq :: "message_header \<Rightarrow> u64" where "header_seq h = ConvertArrayTo64 (h_seq h)"
definition set_seq :: "u64 \<Rightarrow> message_header \<Rightarrow> message_header" where "set_seq x h = h\<lparr>h_seq := Convert64ToArray x\<rparr>"
definition timestamp_ns :: "message_header \<Rightarrow> u64" where "timestamp_ns h = ConvertArrayTo64 (h_timestamp_ns h)"
definition set_timestamp_ns :: "u64 \<Rightarrow> message_header \<Rightarrow> message_header" where
  "set_timestamp_ns x h = h\<lparr>h_timestamp_ns := Convert64ToArray x\<rparr>"
definition src_id :: "message_header \<Rightarrow> u64" where "src_id h = ConvertArrayTo64 (h_src_id h)"
definition set_src_id :: "u64 \<Rightarrow> message_header \<Rightarrow> message_header" where "set_src_id x h = h\<lparr>h_src_id := Convert64ToArray x\<rparr>"
definition dst_id :: "message_header \<Rightarrow> u64" where "dst_id h = ConvertArrayTo64 (h_dst_id h)"
definition set_dst_id :: "u64 \<Rightarrow> message_header \<Rightarrow> message_header" where "set_dst_id x h = h\<lparr>h_dst_id := Convert64ToArray x\<rparr>"
definition content_size :: "message_header \<Rightarrow> u32" where "content_size h = ConvertArrayTo32 (h_content_size h)"
definition set_content_size :: "u32 \<Rightarrow> message_header \<Rightarrow> message_header" where
  "set_content_size x h = h\<lparr>h_content_size := Convert32ToArray x\<rparr>"

text \<open>A C string ends before its first zero byte.\<close>

definition msg_type :: "message_header \<Rightarrow> u8 list" where "msg_type h = takeWhile (\<lambda>b. b \<noteq> 0) (h_msg_type h)"

definition set_msg_type :: "u8 list \<Rightarrow> message_header \<Rightarrow> message_header" where
  "set_msg_type ty h =
     (if ty = [] then h
      else let real_len = (if 129 \<le> length ty then 129 - 1 else length ty)
           in h\<lparr>h_msg_type := take real_len ty @ replicate (129 - real_len) 0\<rparr>)"

text \<open>The header in memory: its arrays, one after the other.\<close>

definition header_size :: nat where "header_size = 192"

definition header_bytes :: "message_header \<Rightarrow> u8 list" where
  "header_bytes h = magic_num h @ h_seq h @ h_timestamp_ns h @ h_src_id h @ h_dst_id h @ h_msg_type h @ h_res h @ h_content_size h"

definition header_at :: "u8 list \<Rightarrow> message_header" where
  "header_at bs = \<lparr>magic_num = take 8 bs, h_seq = take 8 (drop 8 bs), h_timestamp_ns = take 8 (drop 16 bs),
     h_src_id = take 8 (drop 24 bs), h_dst_id = take 8 (drop 32 bs), h_msg_type = take 129 (drop 40 bs),
     h_res = take 19 (drop 169 bs), h_content_size = take 4 (drop 188 bs)\<rparr>"

section \<open>Message types\<close>

text \<open>
  What the traits find of a message type: its name, its size (-1 when it has none), and how it is written to and read
  from an array.  \<open>mt_SerializeToArray m n\<close> are the bytes written to an array of that size, \<open>None\<close> when it fails.
\<close>

record 'm msg_traits =
  mt_MessageType :: "'m \<Rightarrow> string"
  mt_ByteSize :: "'m \<Rightarrow> int"
  mt_SerializeToArray :: "'m \<Rightarrow> int \<Rightarrow> u8 list option"
  mt_ParseFromArray :: "u8 list \<Rightarrow> 'm option"

definition FullByteSize :: "'m msg_traits \<Rightarrow> 'm \<Rightarrow> int" where
  "FullByteSize tr m =
     (let content_size = mt_ByteSize tr m in if content_size < 0 then content_size else content_size + int header_size)"

text \<open>
  \<^verbatim>\<open>SerializeToHC\<close> on an array \<open>data\<close>: whether it succeeds and the array afterwards.  It copies the header without a look
  at the size; \<open>None\<close> is a write behind the end.
\<close>

definition overwrite :: "nat \<Rightarrow> u8 list \<Rightarrow> u8 list \<Rightarrow> u8 list" where
  "overwrite off bs data = take off data @ bs @ drop (off + length bs) data"

definition SerializeToHC :: "'m msg_traits \<Rightarrow> 'm \<Rightarrow> u8 list \<Rightarrow> (bool \<times> u8 list) option" where
  "SerializeToHC tr m data =
     (let msg_size = mt_ByteSize tr m
      in if msg_size < 0 then Some (False, data)
         else if length data < header_size then None
         else let header = set_content_size (of_int msg_size) (set_msg_type (string_bytes (mt_MessageType tr m)) MessageHeader);
                  data = overwrite 0 (header_bytes header) data
              in case mt_SerializeToArray tr m (int (length data) - int header_size) of
                   None \<Rightarrow> Some (False, data)
                 | Some bs \<Rightarrow> Some (True, overwrite header_size bs data))"

definition ParseFromHC :: "'m msg_traits \<Rightarrow> u8 list \<Rightarrow> 'm option" where
  "ParseFromHC tr data =
     (if length data < header_size then None
      else let header = header_at data
           in if length data - header_size < unat (content_size header) then None
              else mt_ParseFromArray tr (take (unat (content_size header)) (drop header_size data)))"

text \<open>What the dispatchers do to get the bytes of a message: make a string of \<^verbatim>\<open>FullByteSize\<close> and serialise into it.\<close>

definition hc_string :: "'m msg_traits \<Rightarrow> 'm \<Rightarrow> u8 list option" where
  "hc_string tr m =
     (let msg_size = FullByteSize tr m
      in if msg_size < 0 then None
         else case SerializeToHC tr m (replicate (nat msg_size) 0) of Some (True, bs) \<Rightarrow> Some bs | _ \<Rightarrow> None)"

section \<open>Raw messages and messages from Python\<close>

record raw_message =
  rm_message :: "u8 list"
  rm_timestamp :: u64

definition RawMessage :: "u8 list \<Rightarrow> u64 \<Rightarrow> raw_message" where "RawMessage data ts = \<lparr>rm_message = data, rm_timestamp = ts\<rparr>"

definition raw_ByteSize :: "raw_message \<Rightarrow> int" where "raw_ByteSize m = int (length (rm_message m))"

definition raw_SerializeToArray :: "raw_message \<Rightarrow> int \<Rightarrow> u8 list option" where
  "raw_SerializeToArray m n = (if n < raw_ByteSize m then None else Some (rm_message m))"

definition raw_SerializeToString :: "raw_message \<Rightarrow> u8 list" where "raw_SerializeToString m = rm_message m"

definition raw_ParseFromArray :: "u8 list \<Rightarrow> raw_message \<Rightarrow> raw_message option" where
  "raw_ParseFromArray data m = (if length data \<le> 0 then None else Some (m\<lparr>rm_message := data\<rparr>))"

definition raw_ParseFromString :: "u8 list \<Rightarrow> raw_message \<Rightarrow> raw_message" where "raw_ParseFromString str m = m\<lparr>rm_message := str\<rparr>"

definition raw_TypeName :: string where "raw_TypeName = ''apollo.cyber.message.RawMessage''"

definition raw_traits :: "raw_message msg_traits" where
  "raw_traits = \<lparr>mt_MessageType = (\<lambda>_. raw_TypeName), mt_ByteSize = raw_ByteSize, mt_SerializeToArray = raw_SerializeToArray,
     mt_ParseFromArray = (\<lambda>bs. raw_ParseFromArray bs (RawMessage [] 0))\<rparr>"

record py_message =
  py_data :: "u8 list"
  py_type_name :: string

definition PyMessageWrap :: "u8 list \<Rightarrow> string \<Rightarrow> py_message" where "PyMessageWrap msg ty = \<lparr>py_data = msg, py_type_name = ty\<rparr>"
definition PY_MESSAGE_FULLNAME :: string where "PY_MESSAGE_FULLNAME = ''apollo.cyber.message.PyMessage''"
definition py_ByteSize :: "py_message \<Rightarrow> int" where "py_ByteSize m = int (length (py_data m))"
definition py_SerializeToArray :: "py_message \<Rightarrow> int \<Rightarrow> u8 list option" where
  "py_SerializeToArray m n = (if n < py_ByteSize m then None else Some (py_data m))"
definition py_SerializeToString :: "py_message \<Rightarrow> u8 list" where "py_SerializeToString m = py_data m"
definition py_ParseFromArray :: "u8 list \<Rightarrow> py_message \<Rightarrow> py_message option" where
  "py_ParseFromArray data m = (if length data \<le> 0 then None else Some (m\<lparr>py_data := data\<rparr>))"
definition py_ParseFromString :: "u8 list \<Rightarrow> py_message \<Rightarrow> py_message" where "py_ParseFromString str m = m\<lparr>py_data := str\<rparr>"

definition py_traits :: "py_message msg_traits" where
  "py_traits = \<lparr>mt_MessageType = (\<lambda>_. PY_MESSAGE_FULLNAME), mt_ByteSize = py_ByteSize, mt_SerializeToArray = py_SerializeToArray,
     mt_ParseFromArray = (\<lambda>bs. py_ParseFromArray bs (PyMessageWrap [] []))\<rparr>"

section \<open>The header is read back\<close>

lemma le_bytes_le_value: "length bs = n \<Longrightarrow> le_bytes n (le_value bs) = bs"
proof (induction bs arbitrary: n)
  case (Cons b bs)
  have "unat b < 256" using unsigned_less [of b, where 'a = nat] by simp
  then show ?case using Cons by auto
qed simp

lemma u32_bytes_of_bytes: "length bs = 4 \<Longrightarrow> u32_bytes (u32_of_bytes bs) = bs"
proof -
  assume l: "length bs = 4"
  have "le_value bs < 256 ^ length bs" for bs
  proof (induction bs)
    case (Cons b bs)
    have "unat b < 256" using unsigned_less [of b, where 'a = nat] by simp
    then show ?case using Cons by simp
  qed simp
  from this [of bs] have "unat (of_nat (le_value bs) :: u32) = le_value bs" using l by (simp add: unat_of_nat)
  then show ?thesis using le_bytes_le_value [OF l] by (simp add: u32_bytes_def u32_of_bytes_def)
qed

lemma htonl_htonl: "htonl (htonl x) = x"
  by (simp add: htonl_def u32_bytes_of_bytes)

lemma length_Convert [simp]: "length (Convert32ToArray x) = 4" "length (Convert64ToArray y) = 8"
  by (simp_all add: Convert32ToArray_def Convert64ToArray_def Let_def)

lemma Convert32_read: "ConvertArrayTo32 (Convert32ToArray x @ rest) = x"
  by (simp add: ConvertArrayTo32_def) (simp add: Convert32ToArray_def htonl_htonl)

lemma Convert64_read: "ConvertArrayTo64 (Convert64ToArray x) = x"
proof -
  have "drop 4 (Convert64ToArray x) = Convert32ToArray (ucast (x AND 0x00000000ffffffff)) @ []"
    by (simp add: Convert64ToArray_def Let_def)
  then have "ConvertArrayTo64 (Convert64ToArray x) =
      push_bit 32 (ucast (ucast (drop_bit 32 (x AND 0xffffffff00000000)) :: u32)) OR ucast (ucast (x AND 0x00000000ffffffff) :: u32)"
    unfolding ConvertArrayTo64_def Let_def by (simp only: Convert32_read) (simp add: Convert64ToArray_def Let_def Convert32_read)
  also have "\<dots> = x"
  proof (rule bit_word_eqI)
    have m: "(0xffffffff00000000 :: u64) = push_bit 32 (mask 32)" "(0x00000000ffffffff :: u64) = mask 32"
      by (simp_all add: mask_eq_exp_minus_1 push_bit_eq_mult)
    fix n assume "n < LENGTH(64)"
    then show "bit (push_bit 32 (ucast (ucast (drop_bit 32 (x AND 0xffffffff00000000)) :: u32)) OR
        ucast (ucast (x AND 0x00000000ffffffff) :: u32) :: u64) n = bit x n"
      unfolding m by (auto simp: bit_simps)
  qed
  finally show ?thesis .
qed

lemmas header_setters = set_seq_def set_timestamp_ns_def set_src_id_def set_dst_id_def set_content_size_def
lemmas header_getters = header_seq_def timestamp_ns_def src_id_def dst_id_def content_size_def

definition header_wf :: "message_header \<Rightarrow> bool" where
  "header_wf h \<longleftrightarrow> length (magic_num h) = 8 \<and> length (h_seq h) = 8 \<and> length (h_timestamp_ns h) = 8 \<and> length (h_src_id h) = 8 \<and>
     length (h_dst_id h) = 8 \<and> length (h_msg_type h) = 129 \<and> length (h_res h) = 19 \<and> length (h_content_size h) = 4"

lemma header_wf_new: "header_wf MessageHeader"
  by (simp add: header_wf_def MessageHeader_def string_bytes_def)

lemma header_wf_set:
  "header_wf h \<Longrightarrow> header_wf (set_content_size c h)" "header_wf h \<Longrightarrow> header_wf (set_msg_type ty h)"
  "header_wf h \<Longrightarrow> header_wf (set_seq x h)" "header_wf h \<Longrightarrow> header_wf (set_timestamp_ns x h)"
  "header_wf h \<Longrightarrow> header_wf (set_src_id x h)" "header_wf h \<Longrightarrow> header_wf (set_dst_id x h)"
  by (auto simp: header_wf_def header_setters set_msg_type_def Let_def)

interpretation message_header: codec header_wf header_size header_bytes "\<lambda>bs. if length bs = header_size then Some (header_at bs) else None"
  by unfold_locales (simp_all add: header_wf_def header_size_def header_bytes_def header_at_def)

lemma header_at_prefix: "header_wf h \<Longrightarrow> header_at (header_bytes h @ rest) = h"
  by (simp add: header_wf_def header_bytes_def header_at_def)

lemma length_header_bytes: "header_wf h \<Longrightarrow> length (header_bytes h) = header_size"
  by (rule message_header.length_enc)

lemma content_size_set [simp]: "content_size (set_content_size c h) = c"
  using Convert32_read [of c "[]"] by (simp add: content_size_def set_content_size_def)

lemma msg_type_set:
  assumes "0 \<notin> set ty" "ty \<noteq> []"
  shows "msg_type (set_msg_type ty h) = take 128 ty"
proof -
  have t: "takeWhile (\<lambda>b. b \<noteq> 0) (xs @ replicate (Suc k) (0 :: u8)) = xs" if "0 \<notin> set xs" for xs k
    using that by (induction xs) auto
  show ?thesis
  proof (cases "129 \<le> length ty")
    case True
    have "0 \<notin> set (take 128 ty)" using assms(1) by (meson in_set_takeD)
    from t [OF this, of 0] show ?thesis using True assms(2) by (simp add: msg_type_def set_msg_type_def)
  next
    case False
    then have "129 - length ty = Suc (128 - length ty)" by simp
    then show ?thesis using False assms t [of ty "128 - length ty"] by (simp add: msg_type_def set_msg_type_def)
  qed
qed

section \<open>Properties\<close>

text \<open>What is relied on of a message type: serialising into enough room gives bytes of the announced number, which parse back.\<close>

definition traits_ok :: "'m msg_traits \<Rightarrow> 'm \<Rightarrow> u8 list \<Rightarrow> bool" where
  "traits_ok tr m bs \<longleftrightarrow> mt_ByteSize tr m = int (length bs) \<and> (\<forall>n \<ge> int (length bs). mt_SerializeToArray tr m n = Some bs)
     \<and> mt_ParseFromArray tr bs = Some m"

definition hc_header :: "string \<Rightarrow> nat \<Rightarrow> message_header" where
  "hc_header ty n = set_content_size (of_nat n) (set_msg_type (string_bytes ty) MessageHeader)"

lemma hc_header_wf: "header_wf (hc_header ty n)"
  by (simp add: hc_header_def header_wf_set header_wf_new)

lemma hc_string_eq:
  assumes "traits_ok tr m bs"
  shows "hc_string tr m = Some (header_bytes (hc_header (mt_MessageType tr m) (length bs)) @ bs)"
proof -
  let ?h = "header_bytes (hc_header (mt_MessageType tr m) (length bs))"
  have l: "length ?h = header_size" by (rule length_header_bytes [OF hc_header_wf])
  have n: "nat (int (length bs) + int header_size) = header_size + length bs" by simp
  have "hc_header (mt_MessageType tr m) (length bs) =
      set_content_size (of_int (int (length bs))) (set_msg_type (string_bytes (mt_MessageType tr m)) MessageHeader)"
    by (simp add: hc_header_def)
  then have "SerializeToHC tr m (replicate (header_size + length bs) 0) = Some (True, ?h @ bs)"
    using assms l by (simp add: SerializeToHC_def traits_ok_def Let_def overwrite_def)
  then show ?thesis using assms n by (simp add: hc_string_def FullByteSize_def traits_ok_def Let_def)
qed

lemma ParseFromHC_prefix:
  assumes "traits_ok tr m bs" "length bs < 2 ^ 31"
  shows "ParseFromHC tr (header_bytes (hc_header ty (length bs)) @ bs @ rest) = Some m"
proof -
  have l: "length (header_bytes (hc_header ty (length bs))) = header_size" by (rule length_header_bytes [OF hc_header_wf])
  have "unat (of_nat (length bs) :: u32) = length bs" using assms(2) by (simp add: unat_of_nat)
  then have "unat (content_size (header_at (header_bytes (hc_header ty (length bs)) @ bs @ rest))) = length bs"
    by (simp add: header_at_prefix [OF hc_header_wf]) (simp add: hc_header_def)
  then show ?thesis using assms(1) l by (simp add: ParseFromHC_def Let_def traits_ok_def)
qed

lemma raw_traits_ok: "rm_message m \<noteq> [] \<Longrightarrow> rm_timestamp m = 0 \<Longrightarrow> traits_ok raw_traits m (rm_message m)"
  by (simp add: traits_ok_def raw_traits_def raw_ByteSize_def raw_SerializeToArray_def raw_ParseFromArray_def RawMessage_def)

lemma py_traits_ok: "py_data m \<noteq> [] \<Longrightarrow> py_type_name m = [] \<Longrightarrow> traits_ok py_traits m (py_data m)"
  by (simp add: traits_ok_def py_traits_def py_ByteSize_def py_SerializeToArray_def py_ParseFromArray_def PyMessageWrap_def)

text \<open>
  A raw message without content is serialised, but refused when it is parsed, although the empty string is what a
  message with only default values is serialised to; \<^verbatim>\<open>ParseFromString\<close> accepts it.
\<close>

lemma empty_raw_message_refused:
  "\<exists>bs. hc_string raw_traits (RawMessage [] 0) = Some bs \<and> ParseFromHC raw_traits bs = None"
  "raw_ParseFromString [] (RawMessage [] 0) = RawMessage [] 0"
proof -
  let ?bs = "header_bytes (hc_header raw_TypeName 0)"
  have l: "length ?bs = header_size" by (rule length_header_bytes [OF hc_header_wf])
  have "SerializeToHC raw_traits (RawMessage [] 0) (replicate header_size 0) = Some (True, ?bs)"
    using l by (simp add: SerializeToHC_def raw_traits_def raw_ByteSize_def raw_SerializeToArray_def RawMessage_def Let_def overwrite_def hc_header_def)
  then have s: "hc_string raw_traits (RawMessage [] 0) = Some ?bs"
    by (simp add: hc_string_def FullByteSize_def raw_traits_def raw_ByteSize_def RawMessage_def Let_def)
  have "content_size (header_at ?bs) = 0" using header_at_prefix [OF hc_header_wf, of raw_TypeName 0 "[]"] by (simp add: hc_header_def)
  then have "ParseFromHC raw_traits ?bs = None" by (simp add: ParseFromHC_def Let_def raw_traits_def raw_ParseFromArray_def)
  then show "\<exists>bs. hc_string raw_traits (RawMessage [] 0) = Some bs \<and> ParseFromHC raw_traits bs = None" using s by blast
qed (simp add: raw_ParseFromString_def RawMessage_def)

text \<open>
  Claim C24. A message that is serialised with its header parses back to the same message, whatever follows it in memory, and the
  header gives the name of its type, cut to 128 bytes, and the size of the content.
\<close>

theorem hc_round_trip:
  assumes "traits_ok tr m bs" "length bs < 2 ^ 31" "mt_MessageType tr m \<noteq> []" "0 \<notin> set (string_bytes (mt_MessageType tr m))"
  shows "\<exists>str. hc_string tr m = Some str \<and> int (length str) = FullByteSize tr m \<and> ParseFromHC tr (str @ rest) = Some m \<and>
    msg_type (header_at str) = take 128 (string_bytes (mt_MessageType tr m)) \<and> unat (content_size (header_at str)) = length bs"
proof -
  let ?h = "hc_header (mt_MessageType tr m) (length bs)"
  have "header_at (header_bytes ?h @ bs) = ?h" by (rule header_at_prefix [OF hc_header_wf])
  moreover have "msg_type ?h = take 128 (string_bytes (mt_MessageType tr m))"
    using msg_type_set [OF assms(4)] assms(3) by (simp add: hc_header_def msg_type_def set_content_size_def string_bytes_def)
  moreover have "unat (content_size ?h) = length bs" using assms(2) by (simp add: hc_header_def unat_of_nat)
  moreover have "int (length (header_bytes ?h @ bs)) = FullByteSize tr m"
    using assms(1) length_header_bytes [OF hc_header_wf] by (simp add: FullByteSize_def traits_ok_def)
  ultimately show ?thesis
    using hc_string_eq [OF assms(1)] ParseFromHC_prefix [OF assms(1,2), of _ rest] by (intro exI [of _ "header_bytes ?h @ bs"]) auto
qed

theorem hc_round_trip_witness:
  "\<exists>str. hc_string raw_traits (RawMessage [1, 2, 3] 0) = Some str \<and> ParseFromHC raw_traits (str @ [9]) = Some (RawMessage [1, 2, 3] 0)"
proof -
  have ok: "traits_ok raw_traits (RawMessage [1, 2, 3] 0) [1, 2, 3]" using raw_traits_ok [of "RawMessage [1, 2, 3] 0"] by (simp add: RawMessage_def)
  have "mt_MessageType raw_traits (RawMessage [1, 2, 3] 0) \<noteq> []" "0 \<notin> set (string_bytes (mt_MessageType raw_traits (RawMessage [1, 2, 3] 0)))"
    by (simp_all add: raw_traits_def raw_TypeName_def string_bytes_def)
  then show ?thesis using hc_round_trip [OF ok _ , of "[9]"] by auto
qed

end
