(* ===== verification/Intra_Dispatch.thy ===== *)
theory Intra_Dispatch
  imports Signals Message_Traits "HOL-Library.Char_ord" "HOL-Library.List_Lexorder"
begin

text \<open>
  \<^verbatim>\<open>cyber/transport/dispatcher/intra_dispatcher.h\<close>: messages between the nodes of one process.  The dispatcher has a listener
  handler per channel, of the type of the channel's first listener, whose listeners are wrappers; a wrapper
  runs the chain of the channel, which holds the real listeners by message type, for all senders or for one.  A
  message goes to handlers of its own type as it is and to handlers of other types through its bytes.

  A message type is its name; \<open>tr\<close> gives the traits of the type with a name.  Listeners do not touch the dispatcher.
\<close>

section \<open>Ordered maps\<close>

text \<open>\<^verbatim>\<open>std::map\<close> as an association list in the order of the keys.\<close>

fun sm_put :: "'k::linorder \<Rightarrow> 'v \<Rightarrow> ('k \<times> 'v) list \<Rightarrow> ('k \<times> 'v) list" where
  "sm_put k v [] = [(k, v)]"
| "sm_put k v (p # m) = (if fst p = k then (k, v) # m else if k < fst p then (k, v) # p # m else p # sm_put k v m)"

definition sm_erase :: "'k \<Rightarrow> ('k \<times> 'v) list \<Rightarrow> ('k \<times> 'v) list" where
  "sm_erase k m = filter (\<lambda>p. fst p \<noteq> k) m"

lemma map_of_sm_put [simp]: "map_of (sm_put k v m) = (map_of m)(k \<mapsto> v)"
  by (induction m) (auto simp: fun_eq_iff)

lemma map_of_sm_erase [simp]: "map_of (sm_erase k m) = (map_of m)(k := None)"
  by (induction m) (auto simp: sm_erase_def fun_eq_iff)

lemma sm_erase_Nil_iff: "sm_erase k m = [] \<longleftrightarrow> (\<forall>j. j \<noteq> k \<longrightarrow> map_of m j = None)"
  by (induction m) (auto simp: sm_erase_def split: if_splits)

section \<open>ChannelChain\<close>

type_synonym 'c base_handlers = "(u64 \<times> (string \<times> 'c listener_handler) list) list"

record 'c channel_chain =
  ch_handlers :: "'c base_handlers"
  ch_oppo_handlers :: "(u64 \<times> 'c base_handlers) list"

definition ChannelChain :: "'c channel_chain" where "ChannelChain = \<lparr>ch_handlers = [], ch_oppo_handlers = []\<rparr>"

text \<open>
  The handler, whether it is new, and the handlers with it.  A handler is stored under the name of its type, so the
  cast to that type never fails.
\<close>

definition chain_GetHandler :: "u64 \<Rightarrow> string \<Rightarrow> 'c base_handlers \<Rightarrow> 'c listener_handler \<times> bool \<times> 'c base_handlers" where
  "chain_GetHandler ch ty hs =
     (let hs = (if map_of hs ch = None then sm_put ch [] hs else hs);
          types = (case map_of hs ch of None \<Rightarrow> [] | Some ts \<Rightarrow> ts)
      in case map_of types ty of
           None \<Rightarrow> (ListenerHandler, True, sm_put ch (sm_put ty ListenerHandler types) hs)
         | Some lh \<Rightarrow> (lh, False, hs))"

definition chain_store :: "u64 \<Rightarrow> string \<Rightarrow> 'c listener_handler \<Rightarrow> 'c base_handlers \<Rightarrow> 'c base_handlers" where
  "chain_store ch ty lh hs = sm_put ch (sm_put ty lh (case map_of hs ch of None \<Rightarrow> [] | Some ts \<Rightarrow> ts)) hs"

definition chain_RemoveHandler :: "u64 \<Rightarrow> string \<Rightarrow> 'c base_handlers \<Rightarrow> 'c listener_handler option \<times> 'c base_handlers" where
  "chain_RemoveHandler ch ty hs =
     (case map_of hs ch of
        None \<Rightarrow> (None, hs)
      | Some types \<Rightarrow>
          let handler_base = map_of types ty;
              types = (if handler_base \<noteq> None then sm_erase ty types else types);
              hs = sm_put ch types hs
          in (handler_base, if types = [] then sm_erase ch hs else hs))"

definition chain_AddListener :: "u64 \<Rightarrow> u64 \<Rightarrow> string \<Rightarrow> 'c \<Rightarrow> 'c channel_chain \<Rightarrow> bool \<times> 'c channel_chain" where
  "chain_AddListener self_id ch ty listener cc =
     (case chain_GetHandler ch ty (ch_handlers cc) of
        (handler, created, hs) \<Rightarrow> (created, cc\<lparr>ch_handlers := chain_store ch ty (lh_Connect self_id listener handler) hs\<rparr>))"

definition chain_AddListener_to :: "u64 \<Rightarrow> u64 \<Rightarrow> u64 \<Rightarrow> string \<Rightarrow> 'c \<Rightarrow> 'c channel_chain \<Rightarrow> bool \<times> 'c channel_chain" where
  "chain_AddListener_to self_id oppo_id ch ty listener cc =
     (let handlers = (case map_of (ch_oppo_handlers cc) oppo_id of None \<Rightarrow> [] | Some hs \<Rightarrow> hs)
      in case chain_GetHandler ch ty handlers of
           (handler, created, hs) \<Rightarrow>
             (created, cc\<lparr>ch_oppo_handlers :=
                sm_put oppo_id (chain_store ch ty (lh_Connect_to self_id oppo_id listener handler) hs) (ch_oppo_handlers cc)\<rparr>))"

text \<open>The removed handler is disconnected and given up; nothing of it is left.\<close>

definition chain_RemoveListener :: "u64 \<Rightarrow> u64 \<Rightarrow> string \<Rightarrow> 'c channel_chain \<Rightarrow> 'c listener_handler option \<times> 'c channel_chain" where
  "chain_RemoveListener self_id ch ty cc =
     (case chain_RemoveHandler ch ty (ch_handlers cc) of
        (handler, hs) \<Rightarrow> (map_option (lh_Disconnect self_id) handler, cc\<lparr>ch_handlers := hs\<rparr>))"

definition chain_RemoveListener_from ::
  "u64 \<Rightarrow> u64 \<Rightarrow> u64 \<Rightarrow> string \<Rightarrow> 'c channel_chain \<Rightarrow> 'c listener_handler option \<times> 'c channel_chain" where
  "chain_RemoveListener_from self_id oppo_id ch ty cc =
     (case map_of (ch_oppo_handlers cc) oppo_id of
        None \<Rightarrow> (None, cc)
      | Some handlers \<Rightarrow>
          (case chain_RemoveHandler ch ty handlers of
             (handler, hs) \<Rightarrow>
               (map_option (lh_Disconnect_from self_id oppo_id) handler,
                cc\<lparr>ch_oppo_handlers := (let m = sm_put oppo_id hs (ch_oppo_handlers cc) in if hs = [] then sm_erase oppo_id m else m)\<rparr>)))"

text \<open>A delivery: the listener, the type and the message it is called with.\<close>

type_synonym ('c, 'm) call = "'c \<times> string \<times> 'm \<times> message_info"

definition lh_deliver ::
  "u64 \<Rightarrow> string \<Rightarrow> 'm \<Rightarrow> message_info \<Rightarrow> 'c listener_handler \<Rightarrow> ('c, 'm) call list \<times> 'c listener_handler" where
  "lh_deliver sender ty m info lh = (case lh_Run (\<lambda>_ h. h) sender lh of (cs, lh') \<Rightarrow> (map (\<lambda>c. (c, ty, m, info)) cs, lh'))"

definition RunFromString ::
  "(string \<Rightarrow> 'm msg_traits) \<Rightarrow> u64 \<Rightarrow> string \<Rightarrow> u8 list \<Rightarrow> message_info \<Rightarrow> 'c listener_handler \<Rightarrow> ('c, 'm) call list \<times> 'c listener_handler" where
  "RunFromString tr sender ty str info lh =
     (case ParseFromHC (tr ty) str of None \<Rightarrow> ([], lh) | Some m \<Rightarrow> lh_deliver sender ty m info lh)"

text \<open>
  The loop of \<^verbatim>\<open>ChannelChain::Run\<close> over the handlers of a channel.  Serialising gives the same result each
  time, so it does not matter that it is tried again for the next handler when it failed or gave nothing.
\<close>

fun run_types ::
  "(string \<Rightarrow> 'm msg_traits) \<Rightarrow> u64 \<Rightarrow> string \<Rightarrow> 'm \<Rightarrow> message_info \<Rightarrow> (string \<times> 'c listener_handler) list \<Rightarrow>
   ('c, 'm) call list \<times> (string \<times> 'c listener_handler) list" where
  "run_types tr sender ty m info [] = ([], [])"
| "run_types tr sender ty m info ((ty', lh) # rest) =
     (case (if ty = ty' then lh_deliver sender ty m info lh
            else case hc_string (tr ty) m of
                   None \<Rightarrow> ([], lh)
                 | Some msg \<Rightarrow> if msg = [] then ([], lh) else RunFromString tr sender ty' msg info lh) of
        (calls, lh') \<Rightarrow>
          (case run_types tr sender ty m info rest of (calls', rest') \<Rightarrow> (calls @ calls', (ty', lh') # rest')))"

definition chain_Run_on ::
  "(string \<Rightarrow> 'm msg_traits) \<Rightarrow> u64 \<Rightarrow> u64 \<Rightarrow> string \<Rightarrow> 'm \<Rightarrow> message_info \<Rightarrow> 'c base_handlers \<Rightarrow>
   ('c, 'm) call list \<times> 'c base_handlers" where
  "chain_Run_on tr sender ch ty m info hs =
     (case map_of hs ch of
        None \<Rightarrow> ([], hs)
      | Some types \<Rightarrow> (case run_types tr sender ty m info types of (calls, types') \<Rightarrow> (calls, sm_put ch types' hs)))"

text \<open>The wrappers that stand for a chain, for all senders or for one.\<close>

datatype wrapper = Chain_of u64 u64 string | Chain_of_oppo u64 u64 u64 string

fun chain_Run ::
  "(string \<Rightarrow> 'm msg_traits) \<Rightarrow> u64 \<Rightarrow> 'm \<Rightarrow> message_info \<Rightarrow> wrapper \<Rightarrow> 'c channel_chain \<Rightarrow> ('c, 'm) call list \<times> 'c channel_chain" where
  "chain_Run tr sender m info (Chain_of self_id ch ty) cc =
     (case chain_Run_on tr sender ch ty m info (ch_handlers cc) of (calls, hs) \<Rightarrow> (calls, cc\<lparr>ch_handlers := hs\<rparr>))"
| "chain_Run tr sender m info (Chain_of_oppo self_id oppo_id ch ty) cc =
     (case map_of (ch_oppo_handlers cc) oppo_id of
        None \<Rightarrow> ([], cc)
      | Some handlers \<Rightarrow>
          (case chain_Run_on tr sender ch ty m info handlers of
             (calls, hs) \<Rightarrow> (calls, cc\<lparr>ch_oppo_handlers := sm_put oppo_id hs (ch_oppo_handlers cc)\<rparr>)))"

section \<open>IntraDispatcher\<close>

record 'c intra_dispatcher =
  in_is_shutdown :: bool
  in_listeners :: "u64 \<rightharpoonup> string \<times> wrapper listener_handler"
  in_chain :: "'c channel_chain"

definition IntraDispatcher :: "'c intra_dispatcher" where
  "IntraDispatcher = \<lparr>in_is_shutdown = False, in_listeners = Map.empty, in_chain = ChannelChain\<rparr>"

fun run_wrappers ::
  "(string \<Rightarrow> 'm msg_traits) \<Rightarrow> u64 \<Rightarrow> 'm \<Rightarrow> message_info \<Rightarrow> wrapper list \<Rightarrow> 'c channel_chain \<Rightarrow> ('c, 'm) call list \<times> 'c channel_chain" where
  "run_wrappers tr sender m info [] cc = ([], cc)"
| "run_wrappers tr sender m info (w # ws) cc =
     (case chain_Run tr sender m info w cc of
        (calls, cc') \<Rightarrow> (case run_wrappers tr sender m info ws cc' of (calls', cc'') \<Rightarrow> (calls @ calls', cc'')))"

definition in_run ::
  "(string \<Rightarrow> 'm msg_traits) \<Rightarrow> u64 \<Rightarrow> u64 \<Rightarrow> string \<Rightarrow> 'm \<Rightarrow> message_info \<Rightarrow> wrapper listener_handler \<Rightarrow> 'c intra_dispatcher \<Rightarrow>
   ('c, 'm) call list \<times> 'c intra_dispatcher" where
  "in_run tr sender ch ty m info lh d =
     (case lh_Run (\<lambda>_ h. h) sender lh of
        (ws, lh') \<Rightarrow>
          (case run_wrappers tr sender m info ws (in_chain d) of
             (calls, cc) \<Rightarrow> (calls, d\<lparr>in_listeners := (in_listeners d)(ch \<mapsto> (ty, lh')), in_chain := cc\<rparr>)))"

definition in_OnMessage ::
  "(string \<Rightarrow> 'm msg_traits) \<Rightarrow> (u8 list \<Rightarrow> u64) \<Rightarrow> u64 \<Rightarrow> string \<Rightarrow> 'm \<Rightarrow> message_info \<Rightarrow> 'c intra_dispatcher \<Rightarrow>
   ('c, 'm) call list \<times> 'c intra_dispatcher" where
  "in_OnMessage tr hash_id ch ty m info d =
     (if in_is_shutdown d then ([], d)
      else case in_listeners d ch of
             None \<Rightarrow> ([], d)
           | Some (hty, lh) \<Rightarrow>
               if hty = ty then in_run tr (hash_id (mi_sender_id info)) ch hty m info lh d
               else case hc_string (tr ty) m of
                      None \<Rightarrow> ([], d)
                    | Some msg \<Rightarrow>
                        (case ParseFromHC (tr hty) msg of
                           None \<Rightarrow> ([], d)
                         | Some m' \<Rightarrow> in_run tr (hash_id (mi_sender_id info)) ch hty m' info lh d))"

text \<open>The handler of the channel when it has the wanted type, and the dispatcher with it.\<close>

definition in_GetHandler :: "u64 \<Rightarrow> string \<Rightarrow> 'c intra_dispatcher \<Rightarrow> wrapper listener_handler option \<times> 'c intra_dispatcher" where
  "in_GetHandler ch ty d =
     (case in_listeners d ch of
        Some (hty, lh) \<Rightarrow> (if hty = ty then Some lh else None, d)
      | None \<Rightarrow> (Some ListenerHandler, d\<lparr>in_listeners := (in_listeners d)(ch \<mapsto> (ty, ListenerHandler))\<rparr>))"

definition in_connect ::
  "bool \<Rightarrow> u64 \<Rightarrow> string \<Rightarrow> (wrapper listener_handler \<Rightarrow> wrapper listener_handler) \<Rightarrow> 'c intra_dispatcher \<Rightarrow> 'c intra_dispatcher" where
  "in_connect created ch ty connect d =
     (case in_GetHandler ch ty d of
        (None, d') \<Rightarrow> d'
      | (Some lh, d') \<Rightarrow> if created then d'\<lparr>in_listeners := (in_listeners d')(ch \<mapsto> (ty, connect lh))\<rparr> else d')"

definition in_AddListener :: "u64 \<Rightarrow> u64 \<Rightarrow> string \<Rightarrow> 'c \<Rightarrow> 'c intra_dispatcher \<Rightarrow> 'c intra_dispatcher" where
  "in_AddListener ch self_id ty listener d =
     (if in_is_shutdown d then d
      else case chain_AddListener self_id ch ty listener (in_chain d) of
             (created, cc) \<Rightarrow> in_connect created ch ty (lh_Connect self_id (Chain_of self_id ch ty)) (d\<lparr>in_chain := cc\<rparr>))"

definition in_AddListener_to :: "u64 \<Rightarrow> u64 \<Rightarrow> u64 \<Rightarrow> string \<Rightarrow> 'c \<Rightarrow> 'c intra_dispatcher \<Rightarrow> 'c intra_dispatcher" where
  "in_AddListener_to ch self_id oppo_id ty listener d =
     (if in_is_shutdown d then d
      else case chain_AddListener_to self_id oppo_id ch ty listener (in_chain d) of
             (created, cc) \<Rightarrow>
               in_connect created ch ty (lh_Connect_to self_id oppo_id (Chain_of_oppo self_id oppo_id ch ty)) (d\<lparr>in_chain := cc\<rparr>))"

definition in_disconnect :: "u64 \<Rightarrow> (wrapper listener_handler \<Rightarrow> wrapper listener_handler) \<Rightarrow> 'c intra_dispatcher \<Rightarrow> 'c intra_dispatcher" where
  "in_disconnect ch f d = d\<lparr>in_listeners := (in_listeners d)(ch := map_option (map_prod id f) (in_listeners d ch))\<rparr>"

definition in_RemoveListener :: "u64 \<Rightarrow> u64 \<Rightarrow> string \<Rightarrow> 'c intra_dispatcher \<Rightarrow> 'c intra_dispatcher" where
  "in_RemoveListener ch self_id ty d =
     (if in_is_shutdown d then d
      else let d = in_disconnect ch (lh_Disconnect self_id) d
           in d\<lparr>in_chain := snd (chain_RemoveListener self_id ch ty (in_chain d))\<rparr>)"

definition in_RemoveListener_from :: "u64 \<Rightarrow> u64 \<Rightarrow> u64 \<Rightarrow> string \<Rightarrow> 'c intra_dispatcher \<Rightarrow> 'c intra_dispatcher" where
  "in_RemoveListener_from ch self_id oppo_id ty d =
     (if in_is_shutdown d then d
      else let d = in_disconnect ch (lh_Disconnect_from self_id oppo_id) d
           in d\<lparr>in_chain := snd (chain_RemoveListener_from self_id oppo_id ch ty (in_chain d))\<rparr>)"

section \<open>Sequences of operations\<close>

datatype ('c, 'm) intra_op =
    In_Add signal_name u64 u64 string 'c
  | In_Remove signal_name u64 u64 string
  | In_Message u64 string 'm message_info

fun intra_do ::
  "(string \<Rightarrow> 'm msg_traits) \<Rightarrow> (u8 list \<Rightarrow> u64) \<Rightarrow> ('c, 'm) intra_op \<Rightarrow> 'c intra_dispatcher \<Rightarrow> ('c, 'm) call list \<times> 'c intra_dispatcher" where
  "intra_do tr hash_id (In_Add Self ch i ty c) d = ([], in_AddListener ch i ty c d)"
| "intra_do tr hash_id (In_Add (Opposite oid) ch i ty c) d = ([], in_AddListener_to ch i oid ty c d)"
| "intra_do tr hash_id (In_Remove Self ch i ty) d = ([], in_RemoveListener ch i ty d)"
| "intra_do tr hash_id (In_Remove (Opposite oid) ch i ty) d = ([], in_RemoveListener_from ch i oid ty d)"
| "intra_do tr hash_id (In_Message ch ty m info) d = in_OnMessage tr hash_id ch ty m info d"

fun intra_run ::
  "(string \<Rightarrow> 'm msg_traits) \<Rightarrow> (u8 list \<Rightarrow> u64) \<Rightarrow> ('c, 'm) intra_op list \<Rightarrow> 'c intra_dispatcher \<Rightarrow> ('c, 'm) call list" where
  "intra_run tr hash_id [] d = []"
| "intra_run tr hash_id (e # es) d = (case intra_do tr hash_id e d of (calls, d') \<Rightarrow> calls @ intra_run tr hash_id es d')"

text \<open>The specification: a table of listeners for each channel.\<close>

fun spec_do :: "(u8 list \<Rightarrow> u64) \<Rightarrow> ('c, 'm) intra_op \<Rightarrow> (u64 \<Rightarrow> 'c table) \<Rightarrow> ('c, 'm) call list \<times> (u64 \<Rightarrow> 'c table)" where
  "spec_do hash_id (In_Add k ch i ty c) t = ([], t(ch := table_do (Sub k i c) (t ch)))"
| "spec_do hash_id (In_Remove k ch i ty) t = ([], t(ch := table_do (Unsub k i) (t ch)))"
| "spec_do hash_id (In_Message ch ty m info) t =
     (map (\<lambda>p. (snd p, ty, m, info)) (t ch Self @ t ch (Opposite (hash_id (mi_sender_id info)))), t)"

fun spec_run :: "(u8 list \<Rightarrow> u64) \<Rightarrow> ('c, 'm) intra_op list \<Rightarrow> (u64 \<Rightarrow> 'c table) \<Rightarrow> ('c, 'm) call list" where
  "spec_run hash_id [] t = []"
| "spec_run hash_id (e # es) t = (case spec_do hash_id e t of (calls, t') \<Rightarrow> calls @ spec_run hash_id es t')"

text \<open>
  Where the dispatcher keeps to it: each channel has one message type, nobody subscribes twice, and a listener
  leaves only when it is the last one for its channel and sender.
\<close>

fun op_ok :: "(u64 \<Rightarrow> string) \<Rightarrow> ('c, 'm) intra_op \<Rightarrow> (u64 \<Rightarrow> 'c table) \<Rightarrow> bool" where
  "op_ok tys (In_Add k ch i ty c) t \<longleftrightarrow> ty = tys ch \<and> i \<notin> fst ` set (t ch k)"
| "op_ok tys (In_Remove k ch i ty) t \<longleftrightarrow> ty = tys ch \<and> (\<forall>p\<in>set (t ch k). fst p = i)"
| "op_ok tys (In_Message ch ty m info) t \<longleftrightarrow> ty = tys ch"

fun intra_ok :: "(u64 \<Rightarrow> string) \<Rightarrow> (u8 list \<Rightarrow> u64) \<Rightarrow> ('c, 'm) intra_op list \<Rightarrow> (u64 \<Rightarrow> 'c table) \<Rightarrow> bool" where
  "intra_ok tys hash_id [] t \<longleftrightarrow> True"
| "intra_ok tys hash_id (e # es) t \<longleftrightarrow> op_ok tys e t \<and> intra_ok tys hash_id es (snd (spec_do hash_id e t))"

section \<open>The chain keeps one handler per channel and signal\<close>

fun chain_at :: "'c channel_chain \<Rightarrow> signal_name \<Rightarrow> u64 \<Rightarrow> (string \<times> 'c listener_handler) list option" where
  "chain_at cc Self ch = map_of (ch_handlers cc) ch"
| "chain_at cc (Opposite oid) ch = (case map_of (ch_oppo_handlers cc) oid of None \<Rightarrow> None | Some hs \<Rightarrow> map_of hs ch)"

fun chain_add :: "signal_name \<Rightarrow> u64 \<Rightarrow> u64 \<Rightarrow> string \<Rightarrow> 'c \<Rightarrow> 'c channel_chain \<Rightarrow> bool \<times> 'c channel_chain" where
  "chain_add Self i ch ty c cc = chain_AddListener i ch ty c cc"
| "chain_add (Opposite oid) i ch ty c cc = chain_AddListener_to i oid ch ty c cc"

fun chain_remove :: "signal_name \<Rightarrow> u64 \<Rightarrow> u64 \<Rightarrow> string \<Rightarrow> 'c channel_chain \<Rightarrow> 'c channel_chain" where
  "chain_remove Self i ch ty cc = snd (chain_RemoveListener i ch ty cc)"
| "chain_remove (Opposite oid) i ch ty cc = snd (chain_RemoveListener_from i oid ch ty cc)"

fun wrapper_of :: "signal_name \<Rightarrow> u64 \<Rightarrow> u64 \<Rightarrow> string \<Rightarrow> wrapper" where
  "wrapper_of Self i ch ty = Chain_of i ch ty"
| "wrapper_of (Opposite oid) i ch ty = Chain_of_oppo i oid ch ty"

definition set_at :: "'c channel_chain \<Rightarrow> signal_name \<Rightarrow> u64 \<Rightarrow> (string \<times> 'c listener_handler) list option \<Rightarrow> 'c channel_chain \<Rightarrow> bool" where
  "set_at cc k ch v cc' \<longleftrightarrow> (\<forall>k' ch'. chain_at cc' k' ch' = (if k' = k \<and> ch' = ch then v else chain_at cc k' ch'))"

lemma GetHandler_new:
  assumes "map_of hs ch = None"
  shows "\<exists>hs'. chain_GetHandler ch ty hs = (ListenerHandler, True, hs') \<and>
    map_of (chain_store ch ty lh hs') = (map_of hs)(ch \<mapsto> [(ty, lh)])"
  using assms by (simp add: chain_GetHandler_def chain_store_def Let_def)

lemma GetHandler_old:
  assumes "map_of hs ch = Some [(ty, lh)]"
  shows "chain_GetHandler ch ty hs = (lh, False, hs)" "map_of (chain_store ch ty lh' hs) = (map_of hs)(ch \<mapsto> [(ty, lh')])"
  using assms by (simp_all add: chain_GetHandler_def chain_store_def Let_def)

lemma RemoveHandler_one:
  assumes "map_of hs ch = Some [(ty, lh)]"
  shows "map_of (snd (chain_RemoveHandler ch ty hs)) = (map_of hs)(ch := None)"
  using assms by (auto simp: chain_RemoveHandler_def Let_def sm_erase_def [of ty])

lemma chain_add_new:
  assumes "chain_at cc k ch = None"
  shows "\<exists>cc'. chain_add k i ch ty c cc = (True, cc') \<and> set_at cc k ch (Some [(ty, handler_do (Sub k i c) ListenerHandler)]) cc'"
proof (cases k)
  case Self
  then have "map_of (ch_handlers cc) ch = None" using assms by simp
  from GetHandler_new [OF this] obtain hs where "chain_GetHandler ch ty (ch_handlers cc) = (ListenerHandler, True, hs)"
    "map_of (chain_store ch ty (lh_Connect i c ListenerHandler) hs) = (map_of (ch_handlers cc))(ch \<mapsto> [(ty, lh_Connect i c ListenerHandler)])" by blast
  moreover have "chain_at (cc\<lparr>ch_handlers := h\<rparr>) k' ch' = (if k' = Self then map_of h ch' else chain_at cc k' ch')" for h k' ch'
    by (cases k') auto
  ultimately show ?thesis using Self by (simp add: chain_AddListener_def set_at_def)
next
  case (Opposite oid)
  let ?hs = "case map_of (ch_oppo_handlers cc) oid of None \<Rightarrow> [] | Some hs \<Rightarrow> hs"
  have at: "map_of ?hs ch' = chain_at cc k ch'" for ch' using Opposite by (simp split: option.split)
  then have "map_of ?hs ch = None" using assms by simp
  from GetHandler_new [OF this] obtain hs where "chain_GetHandler ch ty ?hs = (ListenerHandler, True, hs)"
    "map_of (chain_store ch ty (lh_Connect_to i oid c ListenerHandler) hs) = (map_of ?hs)(ch \<mapsto> [(ty, lh_Connect_to i oid c ListenerHandler)])" by blast
  moreover have "chain_at (cc\<lparr>ch_oppo_handlers := sm_put oid h (ch_oppo_handlers cc)\<rparr>) k' ch' =
      (if k' = k then map_of h ch' else chain_at cc k' ch')" for h k' ch' using Opposite by (cases k') auto
  ultimately show ?thesis using Opposite at by (simp add: chain_AddListener_to_def set_at_def)
qed

lemma chain_add_old:
  assumes "chain_at cc k ch = Some [(ty, lh)]"
  shows "\<exists>cc'. chain_add k i ch ty c cc = (False, cc') \<and> set_at cc k ch (Some [(ty, handler_do (Sub k i c) lh)]) cc'"
proof (cases k)
  case Self
  have "chain_at (cc\<lparr>ch_handlers := h\<rparr>) k' ch' = (if k' = Self then map_of h ch' else chain_at cc k' ch')" for h k' ch'
    by (cases k') auto
  then show ?thesis using Self assms GetHandler_old [of "ch_handlers cc"] by (simp add: chain_AddListener_def set_at_def)
next
  case (Opposite oid)
  then obtain hs where hs: "map_of (ch_oppo_handlers cc) oid = Some hs" "map_of hs ch = Some [(ty, lh)]"
    using assms by (auto split: option.splits)
  have "chain_at (cc\<lparr>ch_oppo_handlers := sm_put oid h (ch_oppo_handlers cc)\<rparr>) k' ch' =
      (if k' = k then map_of h ch' else chain_at cc k' ch')" for h k' ch' using Opposite by (cases k') auto
  then show ?thesis using Opposite hs GetHandler_old [OF hs(2)] by (simp add: chain_AddListener_to_def set_at_def)
qed

lemma chain_remove_one:
  assumes "chain_at cc k ch = Some [(ty, lh)]"
  shows "set_at cc k ch None (chain_remove k i ch ty cc)"
proof (cases k)
  case Self
  have "chain_at (cc\<lparr>ch_handlers := h\<rparr>) k' ch' = (if k' = Self then map_of h ch' else chain_at cc k' ch')" for h k' ch'
    by (cases k') auto
  moreover obtain r hs where "chain_RemoveHandler ch ty (ch_handlers cc) = (r, hs)" by fastforce
  ultimately show ?thesis using Self assms RemoveHandler_one [of "ch_handlers cc" ch ty]
    by (simp add: chain_RemoveListener_def set_at_def)
next
  case (Opposite oid)
  then obtain hs where hs: "map_of (ch_oppo_handlers cc) oid = Some hs" "map_of hs ch = Some [(ty, lh)]"
    using assms by (auto split: option.splits)
  obtain r hs' where h: "chain_RemoveHandler ch ty hs = (r, hs')" by fastforce
  then have "map_of hs' = (map_of hs)(ch := None)" using RemoveHandler_one [OF hs(2)] by simp
  moreover have "chain_at (cc\<lparr>ch_oppo_handlers := (let m = sm_put oid h (ch_oppo_handlers cc) in if h = [] then sm_erase oid m else m)\<rparr>) k' ch' =
      (if k' = k then map_of h ch' else chain_at cc k' ch')" for h k' ch' using Opposite by (cases k') (auto simp: Let_def)
  ultimately show ?thesis using Opposite hs h by (simp add: chain_RemoveListener_from_def set_at_def)
qed

lemma chain_remove_none:
  assumes "chain_at cc k ch = None"
  shows "set_at cc k ch None (chain_remove k i ch ty cc)"
proof (cases k)
  case Self
  then show ?thesis using assms by (simp add: chain_RemoveListener_def chain_RemoveHandler_def set_at_def)
next
  case (Opposite oid)
  then show ?thesis
  proof (cases "map_of (ch_oppo_handlers cc) oid")
    case (Some hs)
    then have "chain_RemoveHandler ch ty hs = (None, hs)" using assms Opposite by (simp add: chain_RemoveHandler_def)
    moreover have "chain_at (cc\<lparr>ch_oppo_handlers := (let m = sm_put oid hs (ch_oppo_handlers cc) in if hs = [] then sm_erase oid m else m)\<rparr>) k' ch' =
      chain_at cc k' ch'" for k' ch' using Some by (cases k') (auto simp: Let_def)
    ultimately show ?thesis using assms Opposite Some by (simp add: chain_RemoveListener_from_def set_at_def)
  qed (use assms Opposite in \<open>simp add: chain_RemoveListener_from_def set_at_def\<close>)
qed

section \<open>The dispatcher represents the table\<close>

definition only :: "signal_name \<Rightarrow> (u64 \<times> 'c) list \<Rightarrow> 'c table" where "only k xs = (\<lambda>j. if j = k then xs else [])"

definition wrapped :: "u64 \<Rightarrow> string \<Rightarrow> 'c table \<Rightarrow> wrapper table" where
  "wrapped ch ty t = (\<lambda>k. case t k of [] \<Rightarrow> [] | p # _ \<Rightarrow> [(fst p, wrapper_of k (fst p) ch ty)])"

definition chain_entry :: "(u64 \<Rightarrow> string) \<Rightarrow> (u64 \<Rightarrow> 'c table) \<Rightarrow> 'c channel_chain \<Rightarrow> signal_name \<Rightarrow> u64 \<Rightarrow> bool" where
  "chain_entry tys t cc k ch \<longleftrightarrow>
     (if t ch k = [] then chain_at cc k ch = None
      else \<exists>lh. chain_at cc k ch = Some [(tys ch, lh)] \<and> represents lh (only k (t ch k)))"

definition in_entry :: "(u64 \<Rightarrow> string) \<Rightarrow> (u64 \<Rightarrow> 'c table) \<Rightarrow> 'c intra_dispatcher \<Rightarrow> u64 \<Rightarrow> bool" where
  "in_entry tys t d ch \<longleftrightarrow>
     (case in_listeners d ch of
        None \<Rightarrow> \<forall>k. t ch k = []
      | Some (ty, lh) \<Rightarrow> ty = tys ch \<and> represents lh (wrapped ch ty (t ch)))"

definition in_inv :: "(u64 \<Rightarrow> string) \<Rightarrow> (u64 \<Rightarrow> 'c table) \<Rightarrow> 'c intra_dispatcher \<Rightarrow> bool" where
  "in_inv tys t d \<longleftrightarrow> \<not> in_is_shutdown d \<and> (\<forall>ch. in_entry tys t d ch) \<and> (\<forall>k ch. chain_entry tys t (in_chain d) k ch)"

lemma represents_only_new: "represents ListenerHandler (only k [])"
  using represents_new by (simp add: only_def)

lemma in_inv_start: "in_inv tys (\<lambda>_ _. []) IntraDispatcher"
proof -
  have "chain_at ChannelChain k ch = None" for k ch by (cases k) (simp_all add: ChannelChain_def)
  then have "\<forall>k ch. chain_at ChannelChain k ch = None" by blast
  then show ?thesis by (simp add: in_inv_def in_entry_def chain_entry_def IntraDispatcher_def)
qed

lemma handler_do_eta:
  "handler_do (Sub Self i c) = lh_Connect i c" "handler_do (Sub (Opposite oid) i c) = lh_Connect_to i oid c"
  "handler_do (Unsub Self i) = lh_Disconnect i" "handler_do (Unsub (Opposite oid) i) = lh_Disconnect_from i oid"
  by (rule ext, simp)+

lemma intra_do_Add:
  "\<not> in_is_shutdown d \<Longrightarrow> intra_do tr hash_id (In_Add k ch i ty c) d =
     ([], case chain_add k i ch ty c (in_chain d) of
            (created, cc) \<Rightarrow> in_connect created ch ty (handler_do (Sub k i (wrapper_of k i ch ty))) (d\<lparr>in_chain := cc\<rparr>))"
  by (cases k) (simp_all add: in_AddListener_def in_AddListener_to_def handler_do_eta)

lemma intra_do_Remove:
  "\<not> in_is_shutdown d \<Longrightarrow> intra_do tr hash_id (In_Remove k ch i ty) d =
     ([], (in_disconnect ch (handler_do (Unsub k i)) d)\<lparr>in_chain := chain_remove k i ch ty (in_chain d)\<rparr>)"
  by (cases k) (simp_all add: in_RemoveListener_def in_RemoveListener_from_def in_disconnect_def handler_do_eta Let_def)

text \<open>Changing the entry of one channel and signal keeps the others.\<close>

lemma chain_entry_set:
  assumes "\<forall>k ch. chain_entry tys t cc k ch" "set_at cc k ch v cc'" "\<And>ch' k'. ch' \<noteq> ch \<or> k' \<noteq> k \<Longrightarrow> t' ch' k' = t ch' k'"
    and "if t' ch k = [] then v = None else \<exists>lh. v = Some [(tys ch, lh)] \<and> represents lh (only k (t' ch k))"
  shows "chain_entry tys t' cc' k' ch'"
  using assms by (cases "ch' = ch \<and> k' = k") (auto simp: chain_entry_def set_at_def)

lemma wrapped_other: "t' k = t k \<Longrightarrow> wrapped ch ty t' k = wrapped ch ty t k"
  by (simp add: wrapped_def)

lemma wrapped_Nil [simp]: "t k = [] \<Longrightarrow> wrapped ch ty t k = []"
  by (simp add: wrapped_def)

text \<open>Only the first listener of a signal brings a wrapper.\<close>

lemma wrapped_Sub:
  "wrapped ch ty (table_do (Sub k i c) t) = (if t k = [] then table_do (Sub k i (wrapper_of k i ch ty)) (wrapped ch ty t) else wrapped ch ty t)"
  by (rule ext) (auto simp: wrapped_def split: list.split)

lemma wrapped_Unsub:
  assumes "\<forall>p\<in>set (t k). fst p = i"
  shows "wrapped ch ty (table_do (Unsub k i) t) = table_do (Unsub k i) (wrapped ch ty t)"
proof (rule ext)
  have "filter (\<lambda>p. fst p \<noteq> i) (t k) = []" using assms by (simp add: filter_empty_conv)
  then show "wrapped ch ty (table_do (Unsub k i) t) j = table_do (Unsub k i) (wrapped ch ty t) j" for j
    using assms by (auto simp: wrapped_def split: list.split)
qed

lemma represents_only:
  assumes "represents lh (only k xs)" "i \<notin> fst ` set xs"
  shows "represents (handler_do (Sub k i c) lh) (only k (xs @ [(i, c)]))"
proof -
  have "table_do (Sub k i c) (only k xs) = only k (xs @ [(i, c)])" by (auto simp: only_def)
  then show ?thesis using represents_Sub [OF assms(1), of i k c] assms(2) by (simp add: only_def)
qed

lemma in_entry_other:
  "in_entry tys t d ch' \<Longrightarrow> in_listeners d' ch' = in_listeners d ch' \<Longrightarrow> t' ch' = t ch' \<Longrightarrow> in_entry tys t' d' ch'"
  unfolding in_entry_def by (simp only:)

lemma in_inv_Add:
  assumes inv: "in_inv tys t d" and ok: "op_ok tys (In_Add k ch i ty c) t"
  shows "in_inv tys (snd (spec_do hash_id (In_Add k ch i ty c) t)) (snd (intra_do tr hash_id (In_Add k ch i ty c) d))"
proof -
  let ?t = "t(ch := table_do (Sub k i c) (t ch))" and ?w = "Sub k i (wrapper_of k i ch ty)"
  have ty: "ty = tys ch" and new: "i \<notin> fst ` set (t ch k)" and ce: "chain_entry tys t (in_chain d) k ch" and up: "\<not> in_is_shutdown d"
    and ie: "in_entry tys t d ch" and ces: "\<forall>k ch. chain_entry tys t (in_chain d) k ch"
    using inv ok by (simp_all add: in_inv_def)
  have tk: "?t ch k = t ch k @ [(i, c)]" by simp
  obtain cc' where add: "chain_add k i ch ty c (in_chain d) = (t ch k = [], cc')" and ces': "\<forall>k ch. chain_entry tys ?t cc' k ch"
  proof (cases "t ch k = []")
    case True
    then have "chain_at (in_chain d) k ch = None" using ce by (simp add: chain_entry_def)
    from chain_add_new [OF this, of i ty c] obtain cc' where "chain_add k i ch ty c (in_chain d) = (True, cc')"
      and s: "set_at (in_chain d) k ch (Some [(ty, handler_do (Sub k i c) ListenerHandler)]) cc'" by blast
    moreover have "represents (handler_do (Sub k i c) ListenerHandler) (only k [(i, c)])"
      using represents_only [OF represents_only_new] by simp
    then have "\<forall>k ch. chain_entry tys ?t cc' k ch" using chain_entry_set [OF ces s, of ?t] True ty by simp
    ultimately show thesis using that True by simp
  next
    case False
    then obtain lh where "chain_at (in_chain d) k ch = Some [(ty, lh)]" and r: "represents lh (only k (t ch k))"
      using ce ty by (auto simp: chain_entry_def)
    from chain_add_old [OF this(1), of i c] obtain cc' where "chain_add k i ch ty c (in_chain d) = (False, cc')"
      and s: "set_at (in_chain d) k ch (Some [(ty, handler_do (Sub k i c) lh)]) cc'" by blast
    moreover have "represents (handler_do (Sub k i c) lh) (only k (t ch k @ [(i, c)]))"
      using represents_only [OF r new] .
    then have "\<forall>k ch. chain_entry tys ?t cc' k ch" using chain_entry_set [OF ces s, of ?t] ty by simp
    ultimately show thesis using that False by simp
  qed
  let ?d = "in_connect (t ch k = []) ch ty (handler_do ?w) (d\<lparr>in_chain := cc'\<rparr>)"
  obtain lh where l: "in_listeners ?d = (in_listeners d)(ch \<mapsto> (ty, if t ch k = [] then handler_do ?w lh else lh))"
    and r: "represents lh (wrapped ch ty (t ch))"
  proof (cases "in_listeners d ch")
    case None
    then have "wrapped ch ty (t ch) = (\<lambda>_. [])" "t ch k = []" using ie by (auto simp: in_entry_def)
    then show thesis using that [of ListenerHandler] None represents_new by (simp add: in_connect_def in_GetHandler_def)
  next
    case (Some p)
    then obtain lh where "p = (ty, lh)" "represents lh (wrapped ch ty (t ch))" using ie ty by (cases p) (auto simp: in_entry_def)
    then show thesis using that [of lh] Some by (simp add: in_connect_def in_GetHandler_def fun_upd_idem)
  qed
  have "represents (if t ch k = [] then handler_do ?w lh else lh) (wrapped ch ty (?t ch))"
  proof (cases "t ch k = []")
    case True
    then have "represents (handler_do ?w lh) (table_do ?w (wrapped ch ty (t ch)))" by (intro represents_Sub [OF r]) simp
    then show ?thesis using True by (simp only: wrapped_Sub fun_upd_same simp_thms if_True)
  qed (use r in \<open>simp only: wrapped_Sub fun_upd_same simp_thms if_False\<close>)
  then have "in_entry tys ?t ?d ch" by (simp add: in_entry_def l flip: ty)
  moreover have "in_entry tys ?t ?d ch'" if "ch' \<noteq> ch" for ch'
  proof -
    have "in_entry tys t d ch'" using inv by (simp add: in_inv_def)
    then show ?thesis by (rule in_entry_other) (use that in \<open>simp_all add: l\<close>)
  qed
  moreover have "in_chain ?d = cc'" "\<not> in_is_shutdown ?d" using up
    by (auto simp: in_connect_def in_GetHandler_def split: option.split prod.split if_splits)
  ultimately show ?thesis using up add ces' unfolding in_inv_def intra_do_Add [OF up] by (metis (no_types, lifting) case_prod_conv snd_conv spec_do.simps(1))
qed

lemma in_inv_Remove:
  assumes inv: "in_inv tys t d" and ok: "op_ok tys (In_Remove k ch i ty) t"
  shows "in_inv tys (snd (spec_do hash_id (In_Remove k ch i ty) t)) (snd (intra_do tr hash_id (In_Remove k ch i ty) d))"
proof -
  let ?t = "t(ch := table_do (Unsub k i) (t ch))" and ?cc = "chain_remove k i ch ty (in_chain d)"
  have ty: "ty = tys ch" and all: "\<forall>p\<in>set (t ch k). fst p = i" and ce: "chain_entry tys t (in_chain d) k ch" and up: "\<not> in_is_shutdown d"
    and ces: "\<forall>k ch. chain_entry tys t (in_chain d) k ch" and ies: "\<forall>ch. in_entry tys t d ch"
    using inv ok by (simp_all add: in_inv_def)
  have tk: "?t ch k = []" using all by (simp add: filter_empty_conv)
  have s: "set_at (in_chain d) k ch None ?cc"
    using ce ty chain_remove_one [of "in_chain d" k ch ty] chain_remove_none [of "in_chain d" k ch] by (auto simp: chain_entry_def split: if_splits)
  have "chain_entry tys ?t ?cc k' ch'" for k' ch' by (rule chain_entry_set [OF ces s]) (use tk in auto)
  moreover have "in_entry tys ?t (in_disconnect ch (handler_do (Unsub k i)) d) ch'" for ch'
  proof (cases "ch' = ch")
    case True
    have "represents (handler_do (Unsub k i) lh) (wrapped ch ty' (?t ch))" if "represents lh (wrapped ch ty' (t ch))" for lh ty'
      using represents_Unsub [OF that, of k i] wrapped_Unsub [where t = "t ch" and k = k and i = i and ch = ch and ty = ty'] all by simp
    moreover have "?t ch k' = []" if "t ch k' = []" for k' using that by (cases "k' = k") auto
    moreover have "in_entry tys t d ch" using ies ..
    ultimately show ?thesis unfolding True by (cases "in_listeners d ch") (auto simp: in_entry_def in_disconnect_def simp del: table_do.simps)
  next
    case False
    have "in_entry tys t d ch'" using ies ..
    then show ?thesis by (rule in_entry_other) (use False in \<open>simp_all add: in_disconnect_def\<close>)
  qed
  ultimately show ?thesis using up unfolding intra_do_Remove [OF up] by (simp add: in_inv_def in_entry_def) (simp add: in_disconnect_def)
qed

section \<open>Messages are delivered by the table\<close>

text \<open>A run leaves a handler as it is, as long as it represents a table: there is no slot to clear.\<close>

lemma lh_Run_same:
  assumes "represents lh t"
  shows "lh_Run (\<lambda>_ h. h) sender lh = (map snd (t Self @ t (Opposite sender)), lh)"
proof -
  have on: "filter (slot_connected (lh_signals lh)) (slot_list (lh_signals lh) k) = slot_list (lh_signals lh) k" for k
  proof (rule filter_True, rule ballI)
    fix n assume "n \<in> set (slot_list (lh_signals lh) k)"
    moreover have "list_all2 (entry_ok lh k) (slot_list (lh_signals lh) k) (t k)" using assms by (simp add: represents_def)
    ultimately obtain p where "entry_ok lh k n p" by (metis list_all2_conv_all_nth in_set_conv_nth)
    then show "slot_connected (lh_signals lh) n" by (auto simp: entry_ok_def slot_call_def split: if_splits)
  qed
  then have c: "ClearDisconnectedSlots k (lh_signals lh) = lh_signals lh" for k by (simp add: ClearDisconnectedSlots_def fun_upd_idem)
  have "snd (lh_Run (\<lambda>_ h. h) sender lh) = lh" by (simp add: lh_Run_def emit_all c)
  then show ?thesis using represents_Run [OF assms, of sender] by (metis prod.collapse)
qed

lemma chain_Run_entry:
  assumes ces: "\<forall>k ch. chain_entry tys t cc k ch" and k: "k = Self \<or> k = Opposite sender" and ne: "t ch k \<noteq> []"
  shows "\<exists>cc'. chain_Run tr sender m info (wrapper_of k i ch (tys ch)) cc = (map (\<lambda>p. (snd p, tys ch, m, info)) (t ch k), cc')
    \<and> (\<forall>k ch. chain_entry tys t cc' k ch)"
proof -
  obtain lh where at: "chain_at cc k ch = Some [(tys ch, lh)]" and r: "represents lh (only k (t ch k))"
    using ces [rule_format, of k ch] ne by (auto simp: chain_entry_def)
  have "map snd (only k (t ch k) Self @ only k (t ch k) (Opposite sender)) = map snd (t ch k)" using k by (auto simp: only_def)
  then have run: "run_types tr sender (tys ch) m info [(tys ch, lh)] = (map (\<lambda>p. (snd p, tys ch, m, info)) (t ch k), [(tys ch, lh)])"
    using lh_Run_same [OF r, of sender] by (simp add: lh_deliver_def)
  have same: "\<forall>k ch. chain_entry tys t cc' k ch" if "\<And>k ch. chain_at cc' k ch = chain_at cc k ch" for cc'
    using ces that by (simp add: chain_entry_def)
  show ?thesis
  proof (cases k)
    case Self
    have "chain_at (cc\<lparr>ch_handlers := sm_put ch [(tys ch, lh)] (ch_handlers cc)\<rparr>) k' ch' = chain_at cc k' ch'" for k' ch'
      using at Self by (cases k') auto
    from same [OF this] show ?thesis using Self at run by (simp add: chain_Run_on_def)
  next
    case (Opposite oid)
    then obtain hs where hs: "map_of (ch_oppo_handlers cc) oid = Some hs" "map_of hs ch = Some [(tys ch, lh)]"
      using at by (auto split: option.splits)
    have "chain_at (cc\<lparr>ch_oppo_handlers := sm_put oid (sm_put ch [(tys ch, lh)] hs) (ch_oppo_handlers cc)\<rparr>) k' ch' = chain_at cc k' ch'"
      for k' ch' using hs by (cases k') auto
    from same [OF this] show ?thesis using Opposite hs run by (simp add: chain_Run_on_def)
  qed
qed

lemma run_wrappers_entry:
  assumes "\<forall>k ch. chain_entry tys t cc k ch" and "\<forall>k\<in>set ks. k = Self \<or> k = Opposite sender"
  shows "\<exists>cc'. run_wrappers tr sender m info (map snd (concat (map (wrapped ch (tys ch) (t ch)) ks))) cc =
      (map (\<lambda>p. (snd p, tys ch, m, info)) (concat (map (t ch) ks)), cc') \<and> (\<forall>k ch. chain_entry tys t cc' k ch)"
  using assms
proof (induction ks arbitrary: cc)
  case (Cons k ks)
  show ?case
  proof (cases "t ch k")
    case Nil
    then show ?thesis using Cons by simp
  next
    case (Cons p ps)
    then have w: "map snd (wrapped ch (tys ch) (t ch) k) = [wrapper_of k (fst p) ch (tys ch)]" by (simp add: wrapped_def)
    from chain_Run_entry [OF Cons.prems(1), of k sender ch tr m info "fst p"] Cons.prems(2) \<open>t ch k = p # ps\<close>
    obtain cc1 where c1: "chain_Run tr sender m info (wrapper_of k (fst p) ch (tys ch)) cc = (map (\<lambda>p. (snd p, tys ch, m, info)) (t ch k), cc1)"
      "\<forall>k ch. chain_entry tys t cc1 k ch" by auto
    from Cons.IH [OF c1(2)] Cons.prems(2) obtain cc2 where
      "run_wrappers tr sender m info (map snd (concat (map (wrapped ch (tys ch) (t ch)) ks))) cc1 =
        (map (\<lambda>p. (snd p, tys ch, m, info)) (concat (map (t ch) ks)), cc2)" "\<forall>k ch. chain_entry tys t cc2 k ch" by auto
    then show ?thesis using c1(1) w by simp
  qed
qed simp

lemma in_inv_Message:
  assumes inv: "in_inv tys t d"
  shows "\<exists>d'. in_OnMessage tr hash_id ch (tys ch) m info d =
      (map (\<lambda>p. (snd p, tys ch, m, info)) (t ch Self @ t ch (Opposite (hash_id (mi_sender_id info)))), d') \<and> in_inv tys t d'"
proof -
  let ?s = "hash_id (mi_sender_id info)"
  have up: "\<not> in_is_shutdown d" and ie: "in_entry tys t d ch" and ces: "\<forall>k ch. chain_entry tys t (in_chain d) k ch"
    using inv by (simp_all add: in_inv_def)
  show ?thesis
  proof (cases "in_listeners d ch")
    case None
    then show ?thesis using ie up inv by (simp add: in_OnMessage_def in_entry_def)
  next
    case (Some q)
    then obtain lh where lh: "in_listeners d ch = Some (tys ch, lh)" "represents lh (wrapped ch (tys ch) (t ch))"
      using ie by (cases q) (auto simp: in_entry_def)
    from run_wrappers_entry [OF ces, of "[Self, Opposite ?s]" ?s tr m info ch] obtain cc where
      cc: "run_wrappers tr ?s m info (map snd (wrapped ch (tys ch) (t ch) Self @ wrapped ch (tys ch) (t ch) (Opposite ?s))) (in_chain d) =
        (map (\<lambda>p. (snd p, tys ch, m, info)) (t ch Self @ t ch (Opposite ?s)), cc)" "\<forall>k ch. chain_entry tys t cc k ch" by auto
    let ?d = "d\<lparr>in_listeners := (in_listeners d)(ch \<mapsto> (tys ch, lh)), in_chain := cc\<rparr>"
    have "in_OnMessage tr hash_id ch (tys ch) m info d = (map (\<lambda>p. (snd p, tys ch, m, info)) (t ch Self @ t ch (Opposite ?s)), ?d)"
      using lh(1) up lh_Run_same [OF lh(2), of ?s] cc(1) by (simp add: in_OnMessage_def in_run_def del: map_append)
    moreover have "(in_listeners d)(ch \<mapsto> (tys ch, lh)) = in_listeners d" using lh(1) by (simp add: fun_upd_idem)
    then have "in_inv tys t ?d" using inv cc(2) by (simp add: in_inv_def in_entry_def)
    ultimately show ?thesis by blast
  qed
qed

lemma intra_do_refines:
  assumes "in_inv tys t d" "op_ok tys e t"
  shows "fst (intra_do tr hash_id e d) = fst (spec_do hash_id e t)
    \<and> in_inv tys (snd (spec_do hash_id e t)) (snd (intra_do tr hash_id e d))"
proof (cases e)
  case (In_Add k ch i ty c)
  have "\<not> in_is_shutdown d" using assms(1) by (simp add: in_inv_def)
  then have "fst (intra_do tr hash_id e d) = []" using intra_do_Add In_Add by (metis fst_conv)
  then show ?thesis using in_inv_Add assms In_Add by (metis fst_conv spec_do.simps(1))
next
  case (In_Remove k ch i ty)
  have "\<not> in_is_shutdown d" using assms(1) by (simp add: in_inv_def)
  then have "fst (intra_do tr hash_id e d) = []" using intra_do_Remove In_Remove by (metis fst_conv)
  then show ?thesis using in_inv_Remove assms In_Remove by (metis fst_conv spec_do.simps(2))
next
  case (In_Message ch ty m info)
  then show ?thesis using in_inv_Message [OF assms(1), of tr hash_id ch m info] assms(2) by auto
qed

lemma intra_run_refines:
  "in_inv tys t d \<Longrightarrow> intra_ok tys hash_id es t \<Longrightarrow> intra_run tr hash_id es d = spec_run hash_id es t"
proof (induction es arbitrary: t d)
  case (Cons e es)
  then show ?case using intra_do_refines [of tys t d e tr hash_id] Cons.IH by (simp split: prod.split) (metis fst_conv snd_conv)
qed simp



lemma run_wrappers_gone:
  assumes "chain_at cc Self ch = None" "\<forall>w\<in>set ws. \<exists>i ty. w = Chain_of i ch ty"
  shows "fst (run_wrappers tr sender m info ws cc) = []"
proof -
  have "chain_Run tr sender m info w cc = ([], cc)" if "w \<in> set ws" for w
    using assms that by (auto simp: chain_Run_on_def)
  then show ?thesis by (induction ws) auto
qed

text \<open>
  A listener that leaves takes the others with it: when two listeners of a channel have subscribed and either of them leaves,
  the chain gives up the handler of both, and messages on the channel reach nobody, although one of the two is still subscribed.
\<close>

lemma leaving_listener_silences_others:
  assumes "i \<noteq> j" "l = i \<or> l = j"
  shows "fst (in_OnMessage tr hash_id ch ty m info
      (in_RemoveListener ch l ty (in_AddListener ch j ty c' (in_AddListener ch i ty c IntraDispatcher)))) = []"
proof -
  let ?d1 = "in_AddListener ch i ty c IntraDispatcher" and ?d = "in_AddListener ch j ty c' (in_AddListener ch i ty c IntraDispatcher)"
  let ?t1 = "(\<lambda>_ _. [])(ch := table_do (Sub Self i c) (\<lambda>_. []))" and ?tys = "\<lambda>_ :: u64. ty"
  let ?t = "?t1(ch := table_do (Sub Self j c') (?t1 ch))"
  have "in_inv ?tys ?t1 ?d1" using in_inv_Add [OF in_inv_start, of ?tys Self ch i ty c] by simp
  from in_inv_Add [OF this, of Self ch j ty c'] assms(1) have inv: "in_inv ?tys ?t ?d" by simp
  then have up: "\<not> in_is_shutdown ?d" and ce: "chain_entry ?tys ?t (in_chain ?d) Self ch" and ie: "in_entry ?tys ?t ?d ch"
    by (simp_all add: in_inv_def)
  obtain lh where at: "chain_at (in_chain ?d) Self ch = Some [(ty, lh)]" using ce by (auto simp: chain_entry_def)
  let ?cc = "chain_remove Self l ch ty (in_chain ?d)"
  have gone: "chain_at ?cc Self ch = None" using chain_remove_one [OF at, of l] unfolding set_at_def by (simp del: chain_at.simps)
  obtain wh where wh: "in_listeners ?d ch = Some (ty, wh)" "represents wh (wrapped ch ty (?t ch))"
    using ie by (cases "in_listeners ?d ch") (auto simp: in_entry_def dest: spec [of _ Self])
  let ?wh = "handler_do (Unsub Self l) wh" and ?s = "hash_id (mi_sender_id info)"
  have r: "represents ?wh (table_do (Unsub Self l) (wrapped ch ty (?t ch)))" by (rule represents_Unsub [OF wh(2)])
  let ?d' = "in_RemoveListener ch l ty ?d"
  have d': "in_is_shutdown ?d' = False" "in_listeners ?d' ch = Some (ty, ?wh)" "in_chain ?d' = ?cc"
    using up wh(1) by (simp_all add: in_RemoveListener_def in_disconnect_def Let_def)
  have "w \<in> set (map snd (table_do (Unsub Self l) (wrapped ch ty (?t ch)) Self @ table_do (Unsub Self l) (wrapped ch ty (?t ch)) (Opposite ?s)))
      \<Longrightarrow> \<exists>i ty. w = Chain_of i ch ty" for w by (auto simp: wrapped_def split: if_splits)
  then have "fst (run_wrappers tr ?s m info (fst (lh_Run (\<lambda>_ h. h) ?s ?wh)) ?cc) = []"
    unfolding lh_Run_same [OF r] fst_conv by (intro run_wrappers_gone [OF gone]) blast
  then show ?thesis using d' by (simp add: in_OnMessage_def in_run_def case_prod_beta)
qed

lemma leaving_listener_silences_others_witness:
  "fst (in_OnMessage (\<lambda>_. raw_traits) u64_of_bytes 5 raw_TypeName (RawMessage [1] 0) \<lparr>mi_sender_id = [9], mi_seq_num = 1, mi_spare_id = []\<rparr>
     (in_RemoveListener 5 1 raw_TypeName (in_AddListener 5 2 raw_TypeName ''b'' (in_AddListener 5 1 raw_TypeName ''a'' IntraDispatcher)))) = []"
  by (rule leaving_listener_silences_others) simp_all

end
