(* ===== verification/Rtps_Transport.thy ===== *)
theory Rtps_Transport
  imports Shm_Dispatch Qos_Profiles
begin

text \<open>
  \<^verbatim>\<open>cyber/transport/rtps\<close>, \<^verbatim>\<open>rtps_transmitter.h\<close>, and \<^verbatim>\<open>rtps_dispatcher\<close>: messages between hosts.  The
  publishers and subscribers belong to Fast RTPS; here a publisher is what it is given to write, and a
  subscriber what it takes.  \<open>ser\<close> is \<^verbatim>\<open>SerializeToString\<close>, \<open>parse\<close> is \<^verbatim>\<open>ParseFromString\<close>.
\<close>

section \<open>Attributes of publishers and subscribers\<close>

text \<open>
  The attributes that are filled in; those that a system default leaves alone keep the value the attribute object has from
  Fast RTPS.
\<close>

datatype fast_history = KEEP_LAST_HISTORY_QOS | KEEP_ALL_HISTORY_QOS
datatype fast_durability = VOLATILE_DURABILITY_QOS | TRANSIENT_LOCAL_DURABILITY_QOS | OTHER_DURABILITY_QOS
datatype fast_reliability = BEST_EFFORT_RELIABILITY_QOS | RELIABLE_RELIABILITY_QOS

record topic_attr =
  ta_topic_name :: string
  ta_topic_type :: string
  ta_no_key :: bool
  ta_history :: fast_history
  ta_depth :: int
  ta_durability :: fast_durability
  ta_reliability :: fast_reliability
  ta_dynamic_reserve :: bool
  ta_max_samples :: int

record pub_attr = topic_attr +
  pa_heartbeat_seconds :: int
  pa_heartbeat_fraction :: u32
  pa_asynchronous :: bool

definition fill_topic :: "string \<Rightarrow> qos_profile \<Rightarrow> 'a topic_attr_scheme \<Rightarrow> 'a topic_attr_scheme" where
  "fill_topic channel_name qos a =
     (let a = a\<lparr>ta_topic_name := channel_name, ta_topic_type := ''UnderlayMessage'', ta_no_key := True\<rparr>;
          a = (case qos_history qos of
                 HISTORY_KEEP_LAST \<Rightarrow> a\<lparr>ta_history := KEEP_LAST_HISTORY_QOS\<rparr>
               | HISTORY_KEEP_ALL \<Rightarrow> a\<lparr>ta_history := KEEP_ALL_HISTORY_QOS\<rparr>
               | _ \<Rightarrow> a);
          a = (case qos_durability qos of
                 DURABILITY_TRANSIENT_LOCAL \<Rightarrow> a\<lparr>ta_durability := TRANSIENT_LOCAL_DURABILITY_QOS\<rparr>
               | DURABILITY_VOLATILE \<Rightarrow> a\<lparr>ta_durability := VOLATILE_DURABILITY_QOS\<rparr>
               | _ \<Rightarrow> a);
          a = (case qos_reliability qos of
                 RELIABILITY_BEST_EFFORT \<Rightarrow> a\<lparr>ta_reliability := BEST_EFFORT_RELIABILITY_QOS\<rparr>
               | RELIABILITY_RELIABLE \<Rightarrow> a\<lparr>ta_reliability := RELIABLE_RELIABILITY_QOS\<rparr>
               | _ \<Rightarrow> a)
      in if qos_depth qos \<noteq> QOS_HISTORY_DEPTH_SYSTEM_DEFAULT then a\<lparr>ta_depth := sint (qos_depth qos)\<rparr> else a)"

text \<open>The period of heartbeats in seconds and in fractions of \<open>2 ^ 32\<close>, from the messages per second.\<close>

definition heartbeat :: "u32 \<Rightarrow> int \<times> u32" where
  "heartbeat mps =
     (if mps = 0 then (1, 0)
      else let mps = ucast mps :: u64; mps = (if 1024 < mps then 1024 else if mps < 64 then 64 else mps);
               fractions = push_bit 32 256 div mps
           in (sint (ucast (drop_bit 32 fractions) :: u32), ucast (fractions AND 0xffffffff)))"

definition FillInPubAttr :: "string \<Rightarrow> qos_profile \<Rightarrow> pub_attr \<Rightarrow> bool \<times> pub_attr" where
  "FillInPubAttr channel_name qos a =
     (let a = fill_topic channel_name qos a
      in if ta_depth a < 0 then (False, a)
         else (True, a\<lparr>pa_heartbeat_seconds := fst (heartbeat (qos_mps qos)), pa_heartbeat_fraction := snd (heartbeat (qos_mps qos)),
                      pa_asynchronous := True, ta_dynamic_reserve := True, ta_max_samples := 10000\<rparr>))"

definition FillInSubAttr :: "string \<Rightarrow> qos_profile \<Rightarrow> topic_attr \<Rightarrow> bool \<times> topic_attr" where
  "FillInSubAttr channel_name qos a =
     (let a = fill_topic channel_name qos a
      in if ta_depth a < 0 then (False, a) else (True, a\<lparr>ta_dynamic_reserve := True, ta_max_samples := 10000\<rparr>))"

section \<open>RtpsTransmitter\<close>

record rtps_transmitter =
  rt_enabled :: bool
  rt_channel_name :: string
  rt_qos :: qos_profile
  rt_participant :: bool
  rt_publisher :: "pub_attr option"

definition RtpsTransmitter :: "string \<Rightarrow> qos_profile \<Rightarrow> bool \<Rightarrow> rtps_transmitter" where
  "RtpsTransmitter name qos participant =
     \<lparr>rt_enabled = False, rt_channel_name = name, rt_qos = qos, rt_participant = participant, rt_publisher = None\<rparr>"

text \<open>\<open>attr0\<close> are the attributes of a new publisher, \<open>create\<close> says whether Fast RTPS creates it.\<close>

definition rt_Enable :: "pub_attr \<Rightarrow> (pub_attr \<Rightarrow> bool) \<Rightarrow> rtps_transmitter \<Rightarrow> rtps_transmitter" where
  "rt_Enable attr0 create tx =
     (if rt_enabled tx then tx
      else if \<not> rt_participant tx then tx
      else case FillInPubAttr (rt_channel_name tx) (rt_qos tx) attr0 of
             (False, _) \<Rightarrow> tx
           | (True, a) \<Rightarrow> if create a then tx\<lparr>rt_publisher := Some a, rt_enabled := True\<rparr> else tx\<lparr>rt_publisher := None\<rparr>)"

definition rt_Disable :: "rtps_transmitter \<Rightarrow> rtps_transmitter" where
  "rt_Disable tx = (if rt_enabled tx then tx\<lparr>rt_publisher := None, rt_enabled := False\<rparr> else tx)"

text \<open>The identity of a sample: sixteen bytes of the writer and a sequence number in two halves.\<close>

record sample_identity =
  writer_guid :: "u8 list"
  seq_high :: u32
  seq_low :: u32

definition related_sample :: "message_info \<Rightarrow> sample_identity" where
  "related_sample info =
     \<lparr>writer_guid = take ID_SIZE (mi_sender_id info) @ take ID_SIZE (mi_spare_id info),
      seq_high = ucast (drop_bit 32 (mi_seq_num info AND 0xFFFFFFFF00000000)),
      seq_low = ucast (mi_seq_num info AND 0xFFFFFFFF)\<rparr>"

text \<open>
  What is written, if anything, and the result; \<open>accept\<close> is the result of the publisher's \<^verbatim>\<open>write\<close>, \<open>down\<close> whether the
  participant was shut down.
\<close>

definition rt_Transmit ::
  "('m \<Rightarrow> u8 list option) \<Rightarrow> bool \<Rightarrow> bool \<Rightarrow> 'm \<Rightarrow> message_info \<Rightarrow> rtps_transmitter \<Rightarrow> bool \<times> (u8 list \<times> sample_identity) option" where
  "rt_Transmit ser down accept m info tx =
     (if \<not> rt_enabled tx then (False, None)
      else case ser m of
             None \<Rightarrow> (False, None)
           | Some bs \<Rightarrow> if down then (False, None) else (accept, Some (bs, related_sample info)))"

section \<open>SubListener and RtpsDispatcher\<close>

definition sample_info :: "sample_identity \<Rightarrow> message_info" where
  "sample_info s =
     \<lparr>mi_sender_id = take ID_SIZE (writer_guid s), mi_seq_num = push_bit 32 (scast (seq_high s)) OR ucast (seq_low s),
      mi_spare_id = take ID_SIZE (drop ID_SIZE (writer_guid s))\<rparr>"

text \<open>
  \<^verbatim>\<open>onNewDataMessage\<close>: what the callback is called with, when the subscriber took a sample and it is alive.  The channel
  is computed from the name of the topic.
\<close>

definition onNewDataMessage ::
  "(string \<Rightarrow> u64) \<Rightarrow> string \<Rightarrow> (u8 list \<times> sample_identity \<times> bool) option \<Rightarrow> (u64 \<times> u8 list \<times> message_info) option" where
  "onNewDataMessage hash topic sample =
     (case sample of
        None \<Rightarrow> None
      | Some (data, s, alive) \<Rightarrow> if \<not> alive then None else Some (hash topic, data, sample_info s))"

record 'c rtps_dispatcher =
  rd_base :: "'c dispatcher"
  rd_participant :: bool
  rd_subs :: "u64 \<rightharpoonup> topic_attr option"

definition RtpsDispatcher :: "'c rtps_dispatcher" where
  "RtpsDispatcher = \<lparr>rd_base = Dispatcher, rd_participant = False, rd_subs = Map.empty\<rparr>"

definition set_participant :: "bool \<Rightarrow> 'c rtps_dispatcher \<Rightarrow> 'c rtps_dispatcher" where
  "set_participant p d = d\<lparr>rd_participant := p\<rparr>"

definition rd_Shutdown :: "'c rtps_dispatcher \<Rightarrow> 'c rtps_dispatcher" where
  "rd_Shutdown d =
     (if d_is_shutdown (rd_base d) then d
      else d\<lparr>rd_base := Dispatcher_Shutdown (rd_base d), rd_subs := (\<lambda>ch. map_option (\<lambda>_. None) (rd_subs d ch)), rd_participant := False\<rparr>)"

definition AddSubscriber ::
  "topic_attr \<Rightarrow> (topic_attr \<Rightarrow> bool) \<Rightarrow> u64 \<Rightarrow> string \<Rightarrow> qos_profile \<Rightarrow> 'c rtps_dispatcher \<Rightarrow> 'c rtps_dispatcher" where
  "AddSubscriber attr0 create ch name qos d =
     (if \<not> rd_participant d then d
      else if rd_subs d ch \<noteq> None then d
      else case FillInSubAttr name qos attr0 of
             (False, _) \<Rightarrow> d
           | (True, a) \<Rightarrow> if create a then d\<lparr>rd_subs := (rd_subs d)(ch \<mapsto> Some a)\<rparr> else d)"

definition rd_AddListener ::
  "topic_attr \<Rightarrow> (topic_attr \<Rightarrow> bool) \<Rightarrow> u64 \<Rightarrow> string \<Rightarrow> qos_profile \<Rightarrow> u64 \<Rightarrow> 'c \<Rightarrow> 'c rtps_dispatcher \<Rightarrow> 'c rtps_dispatcher" where
  "rd_AddListener attr0 create ch name qos self_id c d =
     AddSubscriber attr0 create ch name qos (d\<lparr>rd_base := Dispatcher_AddListener ch self_id c (rd_base d)\<rparr>)"

definition rd_AddListener_to ::
  "topic_attr \<Rightarrow> (topic_attr \<Rightarrow> bool) \<Rightarrow> u64 \<Rightarrow> string \<Rightarrow> qos_profile \<Rightarrow> u64 \<Rightarrow> u64 \<Rightarrow> 'c \<Rightarrow> 'c rtps_dispatcher \<Rightarrow> 'c rtps_dispatcher" where
  "rd_AddListener_to attr0 create ch name qos self_id oppo_id c d =
     AddSubscriber attr0 create ch name qos (d\<lparr>rd_base := Dispatcher_AddListener_to ch self_id oppo_id c (rd_base d)\<rparr>)"

definition rd_OnMessage ::
  "(u8 list \<Rightarrow> 'm option) \<Rightarrow> (u8 list \<Rightarrow> u64) \<Rightarrow> u64 \<Rightarrow> u8 list \<Rightarrow> message_info \<Rightarrow> 'c rtps_dispatcher \<Rightarrow>
   ('c \<times> 'm \<times> message_info) list \<times> 'c rtps_dispatcher" where
  "rd_OnMessage parse hash_id ch str info d =
     (if d_is_shutdown (rd_base d) then ([], d)
      else case msg_listeners (rd_base d) ch of
             None \<Rightarrow> ([], d)
           | Some lh \<Rightarrow>
               (case lh_Run (\<lambda>_ h. h) (hash_id (mi_sender_id info)) lh of (cs, lh') \<Rightarrow>
                  ((case parse str of None \<Rightarrow> [] | Some m \<Rightarrow> map (\<lambda>c. (c, m, info)) cs),
                   d\<lparr>rd_base := (rd_base d)\<lparr>msg_listeners := (msg_listeners (rd_base d))(ch \<mapsto> lh')\<rparr>\<rparr>)))"

section \<open>Properties\<close>

lemma sample_info_related: "message_info_wf info \<Longrightarrow> sample_info (related_sample info) = info"
proof -
  assume wf: "message_info_wf info"
  have "push_bit 32 (scast (ucast (drop_bit 32 (x AND 0xFFFFFFFF00000000)) :: u32)) OR ucast (ucast (x AND 0xFFFFFFFF) :: u32) = x" for x :: u64
  proof (rule bit_word_eqI)
    have m: "(0xffffffff00000000 :: u64) = push_bit 32 (mask 32)" "(0xffffffff :: u64) = mask 32"
      by (simp_all add: mask_eq_exp_minus_1 push_bit_eq_mult)
    fix n assume n: "n < LENGTH(64)"
    then have "n < 32 \<or> 32 \<le> n \<and> n - 32 < 32 \<and> 32 + (n - 32) = n" by auto
    then show "bit (push_bit 32 (scast (ucast (drop_bit 32 (x AND 0xFFFFFFFF00000000)) :: u32)) OR
        ucast (ucast (x AND 0xFFFFFFFF) :: u32) :: u64) n = bit x n"
      using n unfolding m by (auto simp: bit_simps)
  qed
  then show ?thesis using wf by (simp add: sample_info_def related_sample_def message_info_wf_def)
qed

text \<open>A depth of \<open>2 ^ 31\<close> or more is a negative number for Fast RTPS and refused.\<close>

lemma FillInPubAttr_ok: "fst (FillInPubAttr name qos a) \<longleftrightarrow> qos_depth qos = 0 \<and> 0 \<le> ta_depth a \<or> qos_depth qos \<noteq> 0 \<and> 0 \<le> sint (qos_depth qos)"
proof -
  have "ta_depth (fill_topic name qos a) = (if qos_depth qos = 0 then ta_depth a else sint (qos_depth qos))"
    by (simp add: fill_topic_def Let_def QOS_HISTORY_DEPTH_SYSTEM_DEFAULT_def split: qos_history.split qos_durability.split qos_reliability.split)
  then show ?thesis by (simp add: FillInPubAttr_def Let_def)
qed

text \<open>A dispatcher has the listeners of a table on a channel.\<close>

definition listens :: "u64 \<Rightarrow> 'c table \<Rightarrow> 'c dispatcher \<Rightarrow> bool" where
  "listens ch t d \<longleftrightarrow> \<not> d_is_shutdown d \<and> (case msg_listeners d ch of None \<Rightarrow> t = (\<lambda>_. []) | Some lh \<Rightarrow> represents lh t)"

fun base_do :: "u64 \<Rightarrow> 'c handler_op \<Rightarrow> 'c dispatcher \<Rightarrow> 'c dispatcher" where
  "base_do ch (Sub Self i c) d = Dispatcher_AddListener ch i c d"
| "base_do ch (Sub (Opposite oid) i c) d = Dispatcher_AddListener_to ch i oid c d"
| "base_do ch (Unsub Self i) d = RemoveListener ch i d"
| "base_do ch (Unsub (Opposite oid) i) d = RemoveListener_from ch i oid d"

lemma base_do_Sub: "base_do ch (Sub k i c) d = with_handler ch (handler_do (Sub k i c)) d"
proof (cases k)
  case Self
  have "handler_do (Sub Self i c) = lh_Connect i c" by (rule ext) simp
  then show ?thesis using Self by (simp add: Dispatcher_AddListener_def)
next
  case (Opposite oid)
  have "handler_do (Sub (Opposite oid) i c) = lh_Connect_to i oid c" by (rule ext) simp
  then show ?thesis using Opposite by (simp add: Dispatcher_AddListener_to_def)
qed

lemma base_do_Unsub:
  "base_do ch (Unsub k i) d = (if d_is_shutdown d then d
     else d\<lparr>msg_listeners := (msg_listeners d)(ch := map_option (\<lambda>lh. handler_do (Unsub k i) lh) (msg_listeners d ch))\<rparr>)"
  by (cases k) (simp_all add: RemoveListener_def RemoveListener_from_def)

lemma listens_new: "listens ch (\<lambda>_. []) Dispatcher"
  by (simp add: listens_def Dispatcher_def)

lemma listens_Sub:
  assumes "listens ch t d" "i \<notin> fst ` set (t k)"
  shows "listens ch (table_do (Sub k i c) t) (base_do ch (Sub k i c) d)"
proof -
  have "represents (case msg_listeners d ch of None \<Rightarrow> ListenerHandler | Some lh \<Rightarrow> lh) t"
    using assms(1) represents_new by (auto simp: listens_def split: option.splits)
  from represents_Sub [OF this assms(2), of c] show ?thesis
    using assms(1) unfolding base_do_Sub by (simp add: listens_def with_handler_def del: table_do.simps handler_do.simps)
qed

lemma listens_Unsub:
  assumes "listens ch t d"
  shows "listens ch (table_do (Unsub k i) t) (base_do ch (Unsub k i) d)"
proof (cases "msg_listeners d ch")
  case None
  then have "t = (\<lambda>_. [])" using assms by (simp add: listens_def)
  moreover have "table_do (Unsub k i) (\<lambda>_. []) = (\<lambda>_. [])" by (rule ext) simp
  ultimately show ?thesis using assms None unfolding base_do_Unsub by (simp add: listens_def)
next
  case (Some lh)
  then have "represents lh t" using assms by (simp add: listens_def)
  from represents_Unsub [OF this] show ?thesis
    using assms Some unfolding base_do_Unsub by (simp add: listens_def del: table_do.simps handler_do.simps)
qed

lemma base_do_other: "ch' \<noteq> ch \<Longrightarrow> msg_listeners (base_do ch e d) ch' = msg_listeners d ch'"
proof (cases e)
  case (Sub k i c)
  assume "ch' \<noteq> ch"
  then show ?thesis unfolding Sub base_do_Sub by (simp add: with_handler_def)
next
  case (Unsub k i)
  assume "ch' \<noteq> ch"
  then show ?thesis unfolding Unsub base_do_Unsub by simp
qed

text \<open>The operations of receivers on one channel of the dispatcher.\<close>

fun rd_do ::
  "topic_attr \<Rightarrow> (topic_attr \<Rightarrow> bool) \<Rightarrow> u64 \<Rightarrow> string \<Rightarrow> qos_profile \<Rightarrow> 'c handler_op \<Rightarrow> 'c rtps_dispatcher \<Rightarrow> 'c rtps_dispatcher" where
  "rd_do attr0 create ch name qos (Sub Self i c) d = rd_AddListener attr0 create ch name qos i c d"
| "rd_do attr0 create ch name qos (Sub (Opposite oid) i c) d = rd_AddListener_to attr0 create ch name qos i oid c d"
| "rd_do attr0 create ch name qos (Unsub Self i) d = d\<lparr>rd_base := RemoveListener ch i (rd_base d)\<rparr>"
| "rd_do attr0 create ch name qos (Unsub (Opposite oid) i) d = d\<lparr>rd_base := RemoveListener_from ch i oid (rd_base d)\<rparr>"

lemma rd_base_AddSubscriber [simp]: "rd_base (AddSubscriber attr0 create ch name qos d) = rd_base d"
  by (simp add: AddSubscriber_def split: prod.split bool.split)

lemma rd_base_do: "rd_base (rd_do attr0 create ch name qos e d) = base_do ch e (rd_base d)"
proof (cases e)
  case (Sub k i c)
  then show ?thesis by (cases k) (simp_all add: rd_AddListener_def rd_AddListener_to_def)
next
  case (Unsub k i)
  then show ?thesis by (cases k) simp_all
qed

lemma listens_fold:
  "listens ch t (rd_base d) \<Longrightarrow> subs_ok es t \<Longrightarrow> listens ch (fold table_do es t) (rd_base (fold (rd_do attr0 create ch name qos) es d))"
proof (induction es arbitrary: t d)
  case (Cons e es)
  have "listens ch (table_do e t) (rd_base (rd_do attr0 create ch name qos e d)) \<and> subs_ok es (table_do e t)"
    using Cons.prems listens_Sub listens_Unsub by (cases e) (auto simp: rd_base_do simp del: base_do.simps)
  then show ?case using Cons.IH by simp
qed simp

lemma listens_OnMessage:
  assumes "listens ch t (rd_base d)" "parse str = Some m"
  shows "fst (rd_OnMessage parse hash_id ch str info d) =
    map (\<lambda>c. (c, m, info)) (map snd (t Self @ t (Opposite (hash_id (mi_sender_id info)))))"
proof (cases "msg_listeners (rd_base d) ch")
  case None
  then show ?thesis using assms by (simp add: listens_def rd_OnMessage_def)
next
  case (Some lh)
  then have "represents lh t" "\<not> d_is_shutdown (rd_base d)" using assms by (simp_all add: listens_def)
  then show ?thesis using Some assms(2) represents_Run [of lh t "hash_id (mi_sender_id info)"] by (simp add: rd_OnMessage_def case_prod_beta)
qed

text \<open>
  Claim C23. A message sent between hosts reaches the listeners with its info: what an enabled transmitter writes, taken by a subscriber of
  the channel, is given to the listeners that have subscribed to the channel or to the sender, each once, as the same message with
  the same sender and sequence number; provided the channel has the id that its name hashes to.
\<close>

theorem rtps_message_reaches_listeners:
  assumes "rt_enabled tx" "ser m = Some bs" "parse bs = Some m" "message_info_wf info" "hash topic = ch" "subs_ok es (\<lambda>_. [])"
  shows "\<exists>str s ch' info'. rt_Transmit ser False accept m info tx = (accept, Some (str, s))
    \<and> onNewDataMessage hash topic (Some (str, s, True)) = Some (ch', str, info')
    \<and> fst (rd_OnMessage parse hash_id ch' str info' (fold (rd_do attr0 create ch topic qos) es RtpsDispatcher)) =
        map (\<lambda>c. (c, m, info)) (map snd (fold table_do es (\<lambda>_. []) Self @ fold table_do es (\<lambda>_. []) (Opposite (hash_id (mi_sender_id info)))))"
proof -
  have "listens ch (\<lambda>_. []) (rd_base RtpsDispatcher)" by (simp add: RtpsDispatcher_def listens_new)
  from listens_fold [OF this assms(6)] have l: "listens ch (fold table_do es (\<lambda>_. [])) (rd_base (fold (rd_do attr0 create ch topic qos) es RtpsDispatcher))" .
  have "rt_Transmit ser False accept m info tx = (accept, Some (bs, related_sample info))" using assms(1,2) by (simp add: rt_Transmit_def)
  moreover have "onNewDataMessage hash topic (Some (bs, related_sample info, True)) = Some (ch, bs, info)"
    using assms(4,5) by (simp add: onNewDataMessage_def sample_info_related)
  ultimately show ?thesis using listens_OnMessage [OF l, where parse = parse and str = bs and m = m and hash_id = hash_id and info = info] assms(3) by blast
qed

definition demo_topic :: topic_attr where
  "demo_topic = \<lparr>ta_topic_name = [], ta_topic_type = [], ta_no_key = False, ta_history = KEEP_LAST_HISTORY_QOS, ta_depth = 1,
     ta_durability = VOLATILE_DURABILITY_QOS, ta_reliability = RELIABLE_RELIABILITY_QOS, ta_dynamic_reserve = False, ta_max_samples = 0\<rparr>"

theorem rtps_message_reaches_listeners_witness:
  "\<exists>str s ch' info'. rt_Transmit Some False True [1, 2] \<lparr>mi_sender_id = replicate 8 3, mi_seq_num = 0x8000000180000002, mi_spare_id = replicate 8 0\<rparr>
      ((RtpsTransmitter ''ch'' QOS_PROFILE_DEFAULT True)\<lparr>rt_enabled := True\<rparr>) = (True, Some (str, s))
    \<and> onNewDataMessage (\<lambda>_. 7) ''ch'' (Some (str, s, True)) = Some (ch', str, info')
    \<and> fst (rd_OnMessage Some (\<lambda>_. 9) ch' str info' (fold (rd_do demo_topic (\<lambda>_. True) 7 ''ch'' QOS_PROFILE_DEFAULT) [Sub (Opposite 9) 1 ''a'', Sub Self 2 ''b''] RtpsDispatcher)) =
      [(''b'', [1, 2], \<lparr>mi_sender_id = replicate 8 3, mi_seq_num = 0x8000000180000002, mi_spare_id = replicate 8 0\<rparr>),
       (''a'', [1, 2], \<lparr>mi_sender_id = replicate 8 3, mi_seq_num = 0x8000000180000002, mi_spare_id = replicate 8 0\<rparr>)]"
proof -
  let ?info = "\<lparr>mi_sender_id = replicate 8 3, mi_seq_num = 0x8000000180000002, mi_spare_id = replicate 8 0\<rparr>"
  have "message_info_wf ?info" by (simp add: message_info_wf_def ID_SIZE_def)
  from rtps_message_reaches_listeners [OF _ _ _ this, of "(RtpsTransmitter ''ch'' QOS_PROFILE_DEFAULT True)\<lparr>rt_enabled := True\<rparr>" Some "[1, 2]" "[1, 2]" Some
      "\<lambda>_. 7" "''ch''" 7 "[Sub (Opposite 9) 1 ''a'', Sub Self 2 ''b'']" True "\<lambda>_. 9" demo_topic "\<lambda>_. True" QOS_PROFILE_DEFAULT]
  show ?thesis by simp
qed

end
