(* ===== verification/Hybrid_Transport.thy ===== *)
theory Hybrid_Transport
  imports Intra_Dispatch Rtps_Transport
begin

text \<open>
  \<^verbatim>\<open>cyber/transport/transmitter/hybrid_transmitter.h\<close>, \<^verbatim>\<open>receiver/hybrid_receiver.h\<close> with the receivers and transmitters they are made
  of, and \<^verbatim>\<open>message/history.h\<close>: a writer reaches each reader over the way that fits where the reader is, in the same
  process, on the same host or on another one.  \<^verbatim>\<open>std::unordered_map\<close> from modes is a list in the order of the modes; the
  order in which it is gone through is not specified in C++.
\<close>

section \<open>Modes and relations\<close>

datatype relation = NO_RELATION | DIFF_HOST | DIFF_PROC | SAME_PROC
datatype optional_mode = HYBRID | INTRA | SHM | RTPS

record communication_mode =
  same_proc :: optional_mode
  diff_proc :: optional_mode
  diff_host :: optional_mode

definition CommunicationMode :: communication_mode where
  "CommunicationMode = \<lparr>same_proc = INTRA, diff_proc = SHM, diff_host = RTPS\<rparr>"

text \<open>The attributes of a writer or reader that transport reads.\<close>

record endpoint_attr =
  ea_channel_name :: string
  ea_channel_id :: u64
  ea_message_type :: string
  ea_host_ip :: string
  ea_process_id :: int
  ea_id :: u64
  ea_qos :: qos_profile

text \<open>\<open>conf\<close> is the configured mode, if there is one: \<^verbatim>\<open>InitMode\<close> followed by \<^verbatim>\<open>ObtainConfig\<close>.\<close>

definition ObtainConfig :: "communication_mode option \<Rightarrow> communication_mode" where
  "ObtainConfig conf = (case conf of None \<Rightarrow> CommunicationMode | Some m \<Rightarrow> m)"

fun mapping_table :: "communication_mode \<Rightarrow> relation \<Rightarrow> optional_mode" where
  "mapping_table m SAME_PROC = same_proc m"
| "mapping_table m DIFF_PROC = diff_proc m"
| "mapping_table m DIFF_HOST = diff_host m"
| "mapping_table m NO_RELATION = HYBRID"

definition GetRelation :: "endpoint_attr \<Rightarrow> endpoint_attr \<Rightarrow> relation" where
  "GetRelation attr opposite =
     (if ea_channel_name opposite \<noteq> ea_channel_name attr then NO_RELATION
      else if ea_host_ip opposite \<noteq> ea_host_ip attr then DIFF_HOST
      else if ea_process_id opposite \<noteq> ea_process_id attr then DIFF_PROC
      else SAME_PROC)"

definition modes :: "communication_mode \<Rightarrow> optional_mode list" where
  "modes m = filter (\<lambda>x. x = same_proc m \<or> x = diff_proc m \<or> x = diff_host m) [HYBRID, INTRA, SHM, RTPS]"

section \<open>History\<close>

record 'm history =
  hi_enabled :: bool
  hi_depth :: u32
  hi_max_depth :: u32
  hi_msgs :: "('m \<times> message_info) list"

text \<open>\<open>max_history\<close> is the configured limit, if there is one.\<close>

definition History :: "u32 option \<Rightarrow> qos_history \<Rightarrow> u32 \<Rightarrow> 'm history" where
  "History max_history policy depth =
     (let max_depth = (case max_history of None \<Rightarrow> 1000 | Some n \<Rightarrow> n)
      in \<lparr>hi_enabled = False, hi_depth = (if policy = HISTORY_KEEP_ALL then max_depth else if max_depth < depth then max_depth else depth),
          hi_max_depth = max_depth, hi_msgs = []\<rparr>)"

definition hi_Enable :: "'m history \<Rightarrow> 'm history" where "hi_Enable h = h\<lparr>hi_enabled := True\<rparr>"
definition hi_Disable :: "'m history \<Rightarrow> 'm history" where "hi_Disable h = h\<lparr>hi_enabled := False\<rparr>"
definition hi_Clear :: "'m history \<Rightarrow> 'm history" where "hi_Clear h = h\<lparr>hi_msgs := []\<rparr>"

fun pop_front_while :: "nat \<Rightarrow> 'a list \<Rightarrow> 'a list" where
  "pop_front_while n [] = []"
| "pop_front_while n (x # xs) = (if n < length (x # xs) then pop_front_while n xs else x # xs)"

definition hi_Add :: "'m \<Rightarrow> message_info \<Rightarrow> 'm history \<Rightarrow> 'm history" where
  "hi_Add m info h =
     (if \<not> hi_enabled h then h else h\<lparr>hi_msgs := pop_front_while (unat (hi_depth h)) (hi_msgs h @ [(m, info)])\<rparr>)"

definition GetCachedMessage :: "('m \<times> message_info) list \<Rightarrow> 'm history \<Rightarrow> ('m \<times> message_info) list" where
  "GetCachedMessage msgs h = hi_msgs h @ msgs"

definition hi_GetSize :: "'m history \<Rightarrow> nat" where "hi_GetSize h = length (hi_msgs h)"

definition InitHistory :: "u32 option \<Rightarrow> qos_profile \<Rightarrow> 'm history" where
  "InitHistory max_history qos =
     (let h = History max_history (qos_history qos) (qos_depth qos)
      in if qos_durability qos = DURABILITY_TRANSIENT_LOCAL then hi_Enable h else h)"

section \<open>Transmitters\<close>

record intra_transmitter =
  it_enabled :: bool
  it_channel_id :: u64

definition IntraTransmitter :: "u64 \<Rightarrow> intra_transmitter" where "IntraTransmitter ch = \<lparr>it_enabled = False, it_channel_id = ch\<rparr>"
definition it_Enable :: "intra_transmitter \<Rightarrow> intra_transmitter" where
  "it_Enable tx = (if \<not> it_enabled tx then tx\<lparr>it_enabled := True\<rparr> else tx)"
definition it_Disable :: "intra_transmitter \<Rightarrow> intra_transmitter" where
  "it_Disable tx = (if it_enabled tx then tx\<lparr>it_enabled := False\<rparr> else tx)"

definition it_Transmit ::
  "(string \<Rightarrow> 'm msg_traits) \<Rightarrow> (u8 list \<Rightarrow> u64) \<Rightarrow> string \<Rightarrow> 'm \<Rightarrow> message_info \<Rightarrow> intra_transmitter \<Rightarrow> 'c intra_dispatcher \<Rightarrow>
   bool \<times> ('c, 'm) call list \<times> 'c intra_dispatcher" where
  "it_Transmit tr hash_id ty m info tx d =
     (if \<not> it_enabled tx then (False, [], d) else (True, in_OnMessage tr hash_id (it_channel_id tx) ty m info d))"

text \<open>
  What the three transmitters need beside themselves: how messages are serialised for each way, the kind of segments, the notifier,
  and what Fast RTPS does.  \<open>medium\<close> is what they act on: the dispatcher of the process, the shared memory with the ring of notifications,
  and what was written to publishers; \<open>md_calls\<close> are the calls of listeners in the process.
\<close>

record 'm tx_conf =
  tc_traits :: "string \<Rightarrow> 'm msg_traits"
  tc_hash_id :: "u8 list \<Rightarrow> u64"
  tc_ser :: "'m \<Rightarrow> u8 list"
  tc_ser_ok :: "'m \<Rightarrow> bool"
  tc_to_string :: "'m \<Rightarrow> u8 list option"
  tc_sys :: shm_sys
  tc_kind :: segment_kind
  tc_notifier :: notifier
  tc_host_id :: u64
  tc_pub_attr :: pub_attr
  tc_create :: "pub_attr \<Rightarrow> bool"
  tc_participant :: bool
  tc_down :: bool
  tc_accept :: bool
  tc_max_history :: "u32 option"

record ('c, 'm) medium =
  md_intra :: "'c intra_dispatcher"
  md_world :: shm_world
  md_ind :: indicator
  md_calls :: "('c, 'm) call list"
  md_samples :: "(string \<times> u8 list \<times> sample_identity) list"

datatype sub_transmitter = Tx_Intra intra_transmitter | Tx_Shm shm_transmitter | Tx_Rtps rtps_transmitter

definition make_transmitter :: "'m tx_conf \<Rightarrow> endpoint_attr \<Rightarrow> u8 list \<Rightarrow> optional_mode \<Rightarrow> sub_transmitter" where
  "make_transmitter env attr ident mode =
     (case mode of
        INTRA \<Rightarrow> Tx_Intra (IntraTransmitter (ea_channel_id attr))
      | SHM \<Rightarrow> Tx_Shm (ShmTransmitter (ea_channel_id attr) (tc_host_id env) ident)
      | _ \<Rightarrow> Tx_Rtps (RtpsTransmitter (ea_channel_name attr) (ea_qos attr) (tc_participant env)))"

fun sub_enabled :: "sub_transmitter \<Rightarrow> bool" where
  "sub_enabled (Tx_Intra tx) = it_enabled tx"
| "sub_enabled (Tx_Shm tx) = tx_enabled tx"
| "sub_enabled (Tx_Rtps tx) = rt_enabled tx"

fun sub_Enable :: "'m tx_conf \<Rightarrow> sub_transmitter \<Rightarrow> sub_transmitter" where
  "sub_Enable env (Tx_Intra tx) = Tx_Intra (it_Enable tx)"
| "sub_Enable env (Tx_Shm tx) = Tx_Shm (tx_Enable (tc_kind env) (tc_notifier env) tx)"
| "sub_Enable env (Tx_Rtps tx) = Tx_Rtps (rt_Enable (tc_pub_attr env) (tc_create env) tx)"

fun sub_Disable :: "sub_transmitter \<Rightarrow> ('c, 'm) medium \<Rightarrow> sub_transmitter \<times> ('c, 'm) medium" where
  "sub_Disable (Tx_Intra tx) md = (Tx_Intra (it_Disable tx), md)"
| "sub_Disable (Tx_Shm tx) md = (case tx_Disable tx (md_world md) of (tx', w) \<Rightarrow> (Tx_Shm tx', md\<lparr>md_world := w\<rparr>))"
| "sub_Disable (Tx_Rtps tx) md = (Tx_Rtps (rt_Disable tx), md)"

fun sub_Transmit ::
  "'m tx_conf \<Rightarrow> string \<Rightarrow> 'm \<Rightarrow> message_info \<Rightarrow> sub_transmitter \<Rightarrow> ('c, 'm) medium \<Rightarrow>
   (shm_error + (bool \<times> sub_transmitter \<times> ('c, 'm) medium)) option" where
  "sub_Transmit env ty m info (Tx_Intra tx) md =
     (case it_Transmit (tc_traits env) (tc_hash_id env) ty m info tx (md_intra md) of
        (ok, calls, d) \<Rightarrow> Some (Inr (ok, Tx_Intra tx, md\<lparr>md_intra := d, md_calls := md_calls md @ calls\<rparr>)))"
| "sub_Transmit env ty m info (Tx_Shm tx) md =
     (case tx_Transmit (tc_ser env) (tc_ser_ok env) (tc_sys env) m info tx (md_world md) (md_ind md) of
        None \<Rightarrow> None
      | Some (Inl e) \<Rightarrow> Some (Inl e)
      | Some (Inr (ok, tx', w, ind)) \<Rightarrow> Some (Inr (ok, Tx_Shm tx', md\<lparr>md_world := w, md_ind := ind\<rparr>)))"
| "sub_Transmit env ty m info (Tx_Rtps tx) md =
     (case rt_Transmit (tc_to_string env) (tc_down env) (tc_accept env) m info tx of
        (ok, None) \<Rightarrow> Some (Inr (ok, Tx_Rtps tx, md))
      | (ok, Some (str, s)) \<Rightarrow> Some (Inr (ok, Tx_Rtps tx, md\<lparr>md_samples := md_samples md @ [(rt_channel_name tx, str, s)]\<rparr>)))"

section \<open>HybridTransmitter\<close>

text \<open>\<open>ht_threads\<close> are the transmissions of old messages that were started, each to a reader that came late.\<close>

record 'm hybrid_transmitter =
  ht_attr :: endpoint_attr
  ht_mode :: communication_mode
  ht_history :: "'m history"
  ht_transmitters :: "(optional_mode \<times> sub_transmitter) list"
  ht_receivers :: "optional_mode \<Rightarrow> u64 set"
  ht_threads :: "(endpoint_attr \<times> ('m \<times> message_info) list) list"

definition HybridTransmitter :: "'m tx_conf \<Rightarrow> communication_mode option \<Rightarrow> endpoint_attr \<Rightarrow> u8 list \<Rightarrow> 'm hybrid_transmitter" where
  "HybridTransmitter env conf attr ident =
     \<lparr>ht_attr = attr, ht_mode = ObtainConfig conf, ht_history = InitHistory (tc_max_history env) (ea_qos attr),
      ht_transmitters = map (\<lambda>m. (m, make_transmitter env attr ident m)) (modes (ObtainConfig conf)),
      ht_receivers = (\<lambda>_. {}), ht_threads = []\<rparr>"

definition on_mode :: "optional_mode \<Rightarrow> ('x \<Rightarrow> 'x) \<Rightarrow> (optional_mode \<times> 'x) list \<Rightarrow> (optional_mode \<times> 'x) list" where
  "on_mode mode f xs = map (\<lambda>(m, x). (m, if m = mode then f x else x)) xs"

fun disable_on :: "(optional_mode \<Rightarrow> bool) \<Rightarrow> (optional_mode \<times> sub_transmitter) list \<Rightarrow> ('c, 'm) medium \<Rightarrow>
    (optional_mode \<times> sub_transmitter) list \<times> ('c, 'm) medium" where
  "disable_on P [] md = ([], md)"
| "disable_on P ((m, tx) # rest) md =
     (case (if P m then sub_Disable tx md else (tx, md)) of
        (tx', md') \<Rightarrow> (case disable_on P rest md' of (rest', md'') \<Rightarrow> ((m, tx') # rest', md'')))"

definition ht_Enable_all :: "'m tx_conf \<Rightarrow> 'm hybrid_transmitter \<Rightarrow> 'm hybrid_transmitter" where
  "ht_Enable_all env ht = ht\<lparr>ht_transmitters := map (\<lambda>(m, tx). (m, sub_Enable env tx)) (ht_transmitters ht)\<rparr>"

definition ht_Disable_all :: "'m hybrid_transmitter \<Rightarrow> ('c, 'm) medium \<Rightarrow> 'm hybrid_transmitter \<times> ('c, 'm) medium" where
  "ht_Disable_all ht md =
     (case disable_on (\<lambda>_. True) (ht_transmitters ht) md of (txs, md') \<Rightarrow> (ht\<lparr>ht_transmitters := txs\<rparr>, md'))"

definition TransmitHistoryMsg :: "endpoint_attr \<Rightarrow> 'm hybrid_transmitter \<Rightarrow> 'm hybrid_transmitter" where
  "TransmitHistoryMsg opposite ht =
     (if qos_durability (ea_qos (ht_attr ht)) \<noteq> DURABILITY_TRANSIENT_LOCAL then ht
      else let unsent_msgs = GetCachedMessage [] (ht_history ht)
           in if unsent_msgs = [] then ht else ht\<lparr>ht_threads := ht_threads ht @ [(opposite, unsent_msgs)]\<rparr>)"

definition ht_Enable :: "'m tx_conf \<Rightarrow> endpoint_attr \<Rightarrow> 'm hybrid_transmitter \<Rightarrow> 'm hybrid_transmitter" where
  "ht_Enable env opposite ht =
     (let relation = GetRelation (ht_attr ht) opposite
      in if relation = NO_RELATION then ht
         else let mode = mapping_table (ht_mode ht) relation
              in TransmitHistoryMsg opposite
                   (ht\<lparr>ht_receivers := (ht_receivers ht)(mode := insert (ea_id opposite) (ht_receivers ht mode)),
                       ht_transmitters := on_mode mode (sub_Enable env) (ht_transmitters ht)\<rparr>))"

definition ht_Disable :: "endpoint_attr \<Rightarrow> 'm hybrid_transmitter \<Rightarrow> ('c, 'm) medium \<Rightarrow> 'm hybrid_transmitter \<times> ('c, 'm) medium" where
  "ht_Disable opposite ht md =
     (let relation = GetRelation (ht_attr ht) opposite
      in if relation = NO_RELATION then (ht, md)
         else let mode = mapping_table (ht_mode ht) relation;
                  ht = ht\<lparr>ht_receivers := (ht_receivers ht)(mode := ht_receivers ht mode - {ea_id opposite})\<rparr>
              in if ht_receivers ht mode = {}
                 then case disable_on (\<lambda>m. m = mode) (ht_transmitters ht) md of (txs, md') \<Rightarrow> (ht\<lparr>ht_transmitters := txs\<rparr>, md')
                 else (ht, md))"

fun transmit_all ::
  "'m tx_conf \<Rightarrow> string \<Rightarrow> 'm \<Rightarrow> message_info \<Rightarrow> (optional_mode \<times> sub_transmitter) list \<Rightarrow> ('c, 'm) medium \<Rightarrow>
   (shm_error + ((optional_mode \<times> sub_transmitter) list \<times> ('c, 'm) medium)) option" where
  "transmit_all env ty m info [] md = Some (Inr ([], md))"
| "transmit_all env ty m info ((mode, tx) # rest) md =
     (case sub_Transmit env ty m info tx md of
        None \<Rightarrow> None
      | Some (Inl e) \<Rightarrow> Some (Inl e)
      | Some (Inr (_, tx', md')) \<Rightarrow>
          (case transmit_all env ty m info rest md' of
             None \<Rightarrow> None
           | Some (Inl e) \<Rightarrow> Some (Inl e)
           | Some (Inr (rest', md'')) \<Rightarrow> Some (Inr ((mode, tx') # rest', md''))))"

definition ht_Transmit ::
  "'m tx_conf \<Rightarrow> 'm \<Rightarrow> message_info \<Rightarrow> 'm hybrid_transmitter \<Rightarrow> ('c, 'm) medium \<Rightarrow>
   (shm_error + (bool \<times> 'm hybrid_transmitter \<times> ('c, 'm) medium)) option" where
  "ht_Transmit env m info ht md =
     (let ht = ht\<lparr>ht_history := hi_Add m info (ht_history ht)\<rparr>
      in case transmit_all env (ea_message_type (ht_attr ht)) m info (ht_transmitters ht) md of
           None \<Rightarrow> None
         | Some (Inl e) \<Rightarrow> Some (Inl e)
         | Some (Inr (txs, md')) \<Rightarrow> Some (Inr (True, ht\<lparr>ht_transmitters := txs\<rparr>, md')))"

text \<open>The channel over which a late reader gets the old messages is named after both ids.\<close>

definition history_channel :: "u64 \<Rightarrow> u64 \<Rightarrow> string" where
  "history_channel writer reader = nat_to_string (unat writer) @ nat_to_string (unat reader)"

definition ht_ThreadFunc ::
  "'m tx_conf \<Rightarrow> endpoint_attr \<Rightarrow> endpoint_attr \<Rightarrow> ('m \<times> message_info) list \<Rightarrow> (string \<times> u8 list \<times> sample_identity) list" where
  "ht_ThreadFunc env attr opposite msgs =
     (let name = history_channel (ea_id attr) (ea_id opposite);
          tx = rt_Enable (tc_pub_attr env) (tc_create env) (RtpsTransmitter name (ea_qos attr) (tc_participant env))
      in concat (map (\<lambda>(m, info). case snd (rt_Transmit (tc_to_string env) (tc_down env) (tc_accept env) m info tx) of
                                    None \<Rightarrow> [] | Some (str, s) \<Rightarrow> [(name, str, s)]) msgs))"

section \<open>Receivers\<close>

text \<open>
  How a late reader receives old messages: \<open>arrivals\<close> are the messages that come in each second; it stops after the first second
  without one.
\<close>

fun hr_ThreadFunc :: "'m list list \<Rightarrow> 'm list" where
  "hr_ThreadFunc [] = []"
| "hr_ThreadFunc (ms # arrivals) = (if ms = [] then [] else ms @ hr_ThreadFunc arrivals)"

datatype way = Intra_Way | Shm_Way | Rtps_Way

fun way_of :: "optional_mode \<Rightarrow> way" where
  "way_of INTRA = Intra_Way"
| "way_of SHM = Shm_Way"
| "way_of HYBRID = Rtps_Way"
| "way_of RTPS = Rtps_Way"

record 'c rx_process =
  rp_intra :: "'c intra_dispatcher"
  rp_shm :: "'c shm_dispatcher"
  rp_rtps :: "'c rtps_dispatcher"

record rx_conf =
  rc_kind :: segment_kind
  rc_sub_attr :: topic_attr
  rc_create :: "topic_attr \<Rightarrow> bool"

text \<open>\<^verbatim>\<open>IntraReceiver\<close>, \<^verbatim>\<open>ShmReceiver\<close> and \<^verbatim>\<open>RtpsReceiver\<close>: the dispatcher of the way gets or loses the listener.\<close>

fun add_listener :: "rx_conf \<Rightarrow> way \<Rightarrow> endpoint_attr \<Rightarrow> 'c \<Rightarrow> 'c rx_process \<Rightarrow> 'c rx_process" where
  "add_listener rc Intra_Way attr c p = p\<lparr>rp_intra := in_AddListener (ea_channel_id attr) (ea_id attr) (ea_message_type attr) c (rp_intra p)\<rparr>"
| "add_listener rc Shm_Way attr c p = p\<lparr>rp_shm := sd_AddListener (rc_kind rc) (ea_channel_id attr) (ea_id attr) c (rp_shm p)\<rparr>"
| "add_listener rc Rtps_Way attr c p =
     p\<lparr>rp_rtps := rd_AddListener (rc_sub_attr rc) (rc_create rc) (ea_channel_id attr) (ea_channel_name attr) (ea_qos attr) (ea_id attr) c (rp_rtps p)\<rparr>"

fun remove_listener :: "way \<Rightarrow> endpoint_attr \<Rightarrow> 'c rx_process \<Rightarrow> 'c rx_process" where
  "remove_listener Intra_Way attr p = p\<lparr>rp_intra := in_RemoveListener (ea_channel_id attr) (ea_id attr) (ea_message_type attr) (rp_intra p)\<rparr>"
| "remove_listener Shm_Way attr p = p\<lparr>rp_shm := (rp_shm p)\<lparr>sd_base := RemoveListener (ea_channel_id attr) (ea_id attr) (sd_base (rp_shm p))\<rparr>\<rparr>"
| "remove_listener Rtps_Way attr p = p\<lparr>rp_rtps := (rp_rtps p)\<lparr>rd_base := RemoveListener (ea_channel_id attr) (ea_id attr) (rd_base (rp_rtps p))\<rparr>\<rparr>"

fun add_listener_to :: "rx_conf \<Rightarrow> way \<Rightarrow> endpoint_attr \<Rightarrow> endpoint_attr \<Rightarrow> 'c \<Rightarrow> 'c rx_process \<Rightarrow> 'c rx_process" where
  "add_listener_to rc Intra_Way attr opp c p =
     p\<lparr>rp_intra := in_AddListener_to (ea_channel_id attr) (ea_id attr) (ea_id opp) (ea_message_type attr) c (rp_intra p)\<rparr>"
| "add_listener_to rc Shm_Way attr opp c p =
     p\<lparr>rp_shm := sd_AddListener_to (rc_kind rc) (ea_channel_id attr) (ea_id attr) (ea_id opp) c (rp_shm p)\<rparr>"
| "add_listener_to rc Rtps_Way attr opp c p =
     p\<lparr>rp_rtps := rd_AddListener_to (rc_sub_attr rc) (rc_create rc) (ea_channel_id attr) (ea_channel_name attr) (ea_qos attr)
        (ea_id attr) (ea_id opp) c (rp_rtps p)\<rparr>"

fun remove_listener_from :: "way \<Rightarrow> endpoint_attr \<Rightarrow> endpoint_attr \<Rightarrow> 'c rx_process \<Rightarrow> 'c rx_process" where
  "remove_listener_from Intra_Way attr opp p =
     p\<lparr>rp_intra := in_RemoveListener_from (ea_channel_id attr) (ea_id attr) (ea_id opp) (ea_message_type attr) (rp_intra p)\<rparr>"
| "remove_listener_from Shm_Way attr opp p =
     p\<lparr>rp_shm := (rp_shm p)\<lparr>sd_base := RemoveListener_from (ea_channel_id attr) (ea_id attr) (ea_id opp) (sd_base (rp_shm p))\<rparr>\<rparr>"
| "remove_listener_from Rtps_Way attr opp p =
     p\<lparr>rp_rtps := (rp_rtps p)\<lparr>rd_base := RemoveListener_from (ea_channel_id attr) (ea_id attr) (ea_id opp) (rd_base (rp_rtps p))\<rparr>\<rparr>"

section \<open>HybridReceiver\<close>

text \<open>
  \<open>hr_enabled\<close> are the \<^verbatim>\<open>enabled_\<close> flags of the receivers by mode, \<open>hr_transmitters\<close> the writers listened to by mode, \<open>hr_threads\<close> the
  writers from which old messages are being received.
\<close>

record 'c hybrid_receiver =
  hr_attr :: endpoint_attr
  hr_listener :: 'c
  hr_mode :: communication_mode
  hr_enabled :: "optional_mode \<Rightarrow> bool"
  hr_transmitters :: "optional_mode \<Rightarrow> (u64 \<times> endpoint_attr) list"
  hr_threads :: "endpoint_attr list"

definition HybridReceiver :: "communication_mode option \<Rightarrow> endpoint_attr \<Rightarrow> 'c \<Rightarrow> 'c hybrid_receiver" where
  "HybridReceiver conf attr listener =
     \<lparr>hr_attr = attr, hr_listener = listener, hr_mode = ObtainConfig conf, hr_enabled = (\<lambda>_. False),
      hr_transmitters = (\<lambda>_. []), hr_threads = []\<rparr>"

definition hr_Enable_one :: "rx_conf \<Rightarrow> optional_mode \<Rightarrow> 'c hybrid_receiver \<times> 'c rx_process \<Rightarrow> 'c hybrid_receiver \<times> 'c rx_process" where
  "hr_Enable_one rc mode s =
     (case s of (hr, p) \<Rightarrow>
        if hr_enabled hr mode then (hr, p)
        else (hr\<lparr>hr_enabled := (hr_enabled hr)(mode := True)\<rparr>, add_listener rc (way_of mode) (hr_attr hr) (hr_listener hr) p))"

definition hr_Disable_one :: "optional_mode \<Rightarrow> 'c hybrid_receiver \<times> 'c rx_process \<Rightarrow> 'c hybrid_receiver \<times> 'c rx_process" where
  "hr_Disable_one mode s =
     (case s of (hr, p) \<Rightarrow>
        if \<not> hr_enabled hr mode then (hr, p)
        else (hr\<lparr>hr_enabled := (hr_enabled hr)(mode := False)\<rparr>, remove_listener (way_of mode) (hr_attr hr) p))"

definition hr_Enable_all :: "rx_conf \<Rightarrow> 'c hybrid_receiver \<times> 'c rx_process \<Rightarrow> 'c hybrid_receiver \<times> 'c rx_process" where
  "hr_Enable_all rc s = fold (hr_Enable_one rc) (modes (hr_mode (fst s))) s"

definition hr_Disable_all :: "'c hybrid_receiver \<times> 'c rx_process \<Rightarrow> 'c hybrid_receiver \<times> 'c rx_process" where
  "hr_Disable_all s = fold hr_Disable_one (modes (hr_mode (fst s))) s"

definition ReceiveHistoryMsg :: "endpoint_attr \<Rightarrow> 'c hybrid_receiver \<Rightarrow> 'c hybrid_receiver" where
  "ReceiveHistoryMsg opp hr =
     (if qos_durability (ea_qos opp) \<noteq> DURABILITY_TRANSIENT_LOCAL then hr else hr\<lparr>hr_threads := hr_threads hr @ [opp]\<rparr>)"

definition hr_Enable :: "rx_conf \<Rightarrow> endpoint_attr \<Rightarrow> 'c hybrid_receiver \<times> 'c rx_process \<Rightarrow> 'c hybrid_receiver \<times> 'c rx_process" where
  "hr_Enable rc opp s =
     (case s of (hr, p) \<Rightarrow>
        let relation = GetRelation (hr_attr hr) opp; mode = mapping_table (hr_mode hr) relation
        in if relation = NO_RELATION then (hr, p)
           else if map_of (hr_transmitters hr mode) (ea_id opp) = None
           then (ReceiveHistoryMsg opp (hr\<lparr>hr_transmitters := (hr_transmitters hr)(mode := (ea_id opp, opp) # hr_transmitters hr mode)\<rparr>),
                 add_listener_to rc (way_of mode) (hr_attr hr) opp (hr_listener hr) p)
           else (hr, p))"

definition hr_Disable :: "endpoint_attr \<Rightarrow> 'c hybrid_receiver \<times> 'c rx_process \<Rightarrow> 'c hybrid_receiver \<times> 'c rx_process" where
  "hr_Disable opp s =
     (case s of (hr, p) \<Rightarrow>
        let relation = GetRelation (hr_attr hr) opp; mode = mapping_table (hr_mode hr) relation
        in if relation = NO_RELATION then (hr, p)
           else if map_of (hr_transmitters hr mode) (ea_id opp) \<noteq> None
           then (hr\<lparr>hr_transmitters := (hr_transmitters hr)(mode := filter (\<lambda>e. fst e \<noteq> ea_id opp) (hr_transmitters hr mode))\<rparr>,
                 remove_listener_from (way_of mode) (hr_attr hr) opp p)
           else (hr, p))"

definition ClearTransmitters :: "'c hybrid_receiver \<times> 'c rx_process \<Rightarrow> 'c hybrid_receiver \<times> 'c rx_process" where
  "ClearTransmitters s =
     (case s of (hr, p) \<Rightarrow>
        (hr\<lparr>hr_transmitters := (\<lambda>_. [])\<rparr>,
         fold (\<lambda>mode p. fold (\<lambda>e. remove_listener_from (way_of mode) (hr_attr hr) (snd e)) (hr_transmitters hr mode) p) (modes (hr_mode hr)) p))"

text \<open>The destructor; the receivers disable themselves when they go.\<close>

definition HybridReceiver_destroy :: "'c hybrid_receiver \<times> 'c rx_process \<Rightarrow> 'c hybrid_receiver \<times> 'c rx_process" where
  "HybridReceiver_destroy s = hr_Disable_all (ClearTransmitters s)"

section \<open>History keeps the newest messages\<close>

lemma pop_front_while_eq: "pop_front_while n xs = rev (take n (rev xs))"
  by (induction xs) auto

lemma history_keeps_newest:
  "hi_enabled h \<Longrightarrow> length (hi_msgs h) \<le> unat (hi_depth h) \<Longrightarrow>
     hi_msgs (fold (\<lambda>(m, info). hi_Add m info) ms h) = rev (take (unat (hi_depth h)) (rev (hi_msgs h @ ms)))"
proof (induction ms arbitrary: h)
  case (Cons p ms)
  obtain m info where p: "p = (m, info)" by (cases p)
  let ?d = "unat (hi_depth h)" and ?h = "hi_Add m info h"
  have h: "hi_enabled ?h" "hi_depth ?h = hi_depth h" "hi_msgs ?h = rev (take ?d (rev (hi_msgs h @ [(m, info)])))"
    using Cons.prems by (simp_all add: hi_Add_def pop_front_while_eq)
  then have "hi_msgs (fold (\<lambda>(m, info). hi_Add m info) ms ?h) = rev (take ?d (rev (hi_msgs ?h @ ms)))"
    using Cons.IH [OF h(1)] by simp
  then show ?case by (simp add: p h(3) take_Cons' min_def)
qed simp

section \<open>The transmitter follows its readers\<close>

definition ht_do :: "'m tx_conf \<Rightarrow> bool \<times> endpoint_attr \<Rightarrow> 'm hybrid_transmitter \<times> ('c, 'm) medium \<Rightarrow> 'm hybrid_transmitter \<times> ('c, 'm) medium" where
  "ht_do env e s = (if fst e then (ht_Enable env (snd e) (fst s), snd s) else ht_Disable (snd e) (fst s) (snd s))"

text \<open>
  The receiver ids that have joined and not left, with the mode they are reached by, as \<^verbatim>\<open>receivers_\<close> of the transmitter
  keeps them: a set of ids.  The readers of a channel in one process share a receiver and so an id (\<^verbatim>\<open>reader.h\<close>, line 281), and the
  first of them to leave removes it for all.
\<close>

definition live_do :: "communication_mode \<Rightarrow> endpoint_attr \<Rightarrow> bool \<times> endpoint_attr \<Rightarrow> (u64 \<times> optional_mode) set \<Rightarrow> (u64 \<times> optional_mode) set" where
  "live_do cm attr e L =
     (let rel = GetRelation attr (snd e); r = (ea_id (snd e), mapping_table cm rel)
      in if rel = NO_RELATION then L else if fst e then insert r L else L - {r})"

definition rtps_ready :: "'m tx_conf \<Rightarrow> endpoint_attr \<Rightarrow> bool" where
  "rtps_ready env attr \<longleftrightarrow> tc_participant env \<and> fst (FillInPubAttr (ea_channel_name attr) (ea_qos attr) (tc_pub_attr env)) \<and>
     tc_create env (snd (FillInPubAttr (ea_channel_name attr) (ea_qos attr) (tc_pub_attr env)))"

fun ready :: "'m tx_conf \<Rightarrow> sub_transmitter \<Rightarrow> bool" where
  "ready env (Tx_Intra tx) = True"
| "ready env (Tx_Shm tx) = True"
| "ready env (Tx_Rtps tx) \<longleftrightarrow> rt_participant tx \<and> fst (FillInPubAttr (rt_channel_name tx) (rt_qos tx) (tc_pub_attr env)) \<and>
     tc_create env (snd (FillInPubAttr (rt_channel_name tx) (rt_qos tx) (tc_pub_attr env)))"

lemma ready_make: "rtps_ready env attr \<Longrightarrow> ready env (make_transmitter env attr ident m)"
  by (simp add: make_transmitter_def rtps_ready_def RtpsTransmitter_def split: optional_mode.split)

lemma ready_Enable: "ready env tx \<Longrightarrow> ready env (sub_Enable env tx) \<and> sub_enabled (sub_Enable env tx)"
  by (cases tx) (auto simp: it_Enable_def tx_Enable_def rt_Enable_def split: prod.split bool.split)

lemma ready_Disable: "ready env tx \<Longrightarrow> ready env (fst (sub_Disable tx md)) \<and> \<not> sub_enabled (fst (sub_Disable tx md))"
  by (cases tx) (auto simp: it_Disable_def tx_Disable_def rt_Disable_def split: prod.split)

lemma make_disabled: "\<not> sub_enabled (make_transmitter env attr ident m)"
  by (simp add: make_transmitter_def IntraTransmitter_def ShmTransmitter_def RtpsTransmitter_def split: optional_mode.split)

definition tx_inv :: "'m tx_conf \<Rightarrow> communication_mode \<Rightarrow> endpoint_attr \<Rightarrow> (u64 \<times> optional_mode) set \<Rightarrow> 'm hybrid_transmitter \<Rightarrow> bool" where
  "tx_inv env cm attr L ht \<longleftrightarrow> ht_attr ht = attr \<and> ht_mode ht = cm \<and> map fst (ht_transmitters ht) = modes cm \<and>
     (\<forall>m. ht_receivers ht m = {i. (i, m) \<in> L}) \<and>
     (\<forall>(m, tx)\<in>set (ht_transmitters ht). ready env tx \<and> (sub_enabled tx \<longleftrightarrow> (\<exists>i. (i, m) \<in> L)))"

lemma disable_on_Cons:
  "fst (disable_on P ((k, tx) # txs) md) =
     (k, if P k then fst (sub_Disable tx md) else tx) # fst (disable_on P txs (if P k then snd (sub_Disable tx md) else md))"
  by (simp add: case_prod_beta del: sub_Disable.simps)

lemma disable_on_modes: "map fst (fst (disable_on P txs md)) = map fst txs"
proof (induction txs arbitrary: md)
  case (Cons e txs)
  then show ?case by (cases e) (simp add: disable_on_Cons del: disable_on.simps)
qed simp

lemma disable_on_entry:
  fixes md :: "('c, 'm) medium"
  shows "(m, tx') \<in> set (fst (disable_on P txs md)) \<Longrightarrow>
    \<exists>tx. (m, tx) \<in> set txs \<and> (if P m then \<exists>md :: ('c, 'm) medium. tx' = fst (sub_Disable tx md) else tx' = tx)"
proof (induction txs arbitrary: md)
  case (Cons e txs)
  obtain k tx where e: "e = (k, tx)" by (cases e)
  let ?md = "if P k then snd (sub_Disable tx md) else md"
  consider "m = k" "tx' = (if P k then fst (sub_Disable tx md) else tx)" | "(m, tx') \<in> set (fst (disable_on P txs ?md))"
    using Cons.prems unfolding e disable_on_Cons by auto
  then show ?case
  proof cases
    case 1
    then show ?thesis unfolding e by (intro exI [of _ tx]) auto
  next
    case 2
    from Cons.IH [OF this] show ?thesis by auto
  qed
qed simp

lemma TransmitHistoryMsg_keeps [simp]:
  "ht_attr (TransmitHistoryMsg opp ht) = ht_attr ht" "ht_mode (TransmitHistoryMsg opp ht) = ht_mode ht"
  "ht_transmitters (TransmitHistoryMsg opp ht) = ht_transmitters ht" "ht_receivers (TransmitHistoryMsg opp ht) = ht_receivers ht"
  by (simp_all add: TransmitHistoryMsg_def Let_def)

lemma tx_inv_Enable:
  assumes "tx_inv env cm attr L ht"
  shows "tx_inv env cm attr (live_do cm attr (True, opp) L) (ht_Enable env opp ht)"
proof (cases "GetRelation attr opp = NO_RELATION")
  case True
  then show ?thesis using assms by (simp add: tx_inv_def ht_Enable_def live_do_def Let_def)
next
  case False
  let ?m = "mapping_table cm (GetRelation attr opp)"
  have tx: "ready env tx \<and> (sub_enabled tx \<longleftrightarrow> (\<exists>i. (i, m) \<in> L))" if "(m, tx) \<in> set (ht_transmitters ht)" for m tx
    using assms that by (auto simp: tx_inv_def)
  have "ready env tx \<and> (sub_enabled tx \<longleftrightarrow> (\<exists>i. (i, m) \<in> insert (ea_id opp, ?m) L))"
    if t: "(m, tx) \<in> set (on_mode ?m (sub_Enable env) (ht_transmitters ht))" for m tx
  proof -
    obtain t where "(m, t) \<in> set (ht_transmitters ht)" "tx = (if m = ?m then sub_Enable env t else t)"
      using t by (force simp: on_mode_def)
    then show ?thesis using tx [of m t] ready_Enable [of env t] by (cases "m = ?m") auto
  qed
  moreover have "map fst (on_mode ?m (sub_Enable env) (ht_transmitters ht)) = map fst (ht_transmitters ht)"
    by (simp add: on_mode_def comp_def case_prod_beta)
  ultimately show ?thesis using assms False by (auto simp: tx_inv_def ht_Enable_def live_do_def Let_def)
qed

lemma tx_inv_Disable:
  fixes md :: "('c, 'm) medium"
  assumes "tx_inv env cm attr L ht"
  shows "tx_inv env cm attr (live_do cm attr (False, opp) L) (fst (ht_Disable opp ht md))"
proof (cases "GetRelation attr opp = NO_RELATION")
  case True
  then show ?thesis using assms by (simp add: tx_inv_def ht_Disable_def live_do_def Let_def)
next
  case False
  let ?m = "mapping_table cm (GetRelation attr opp)" and ?r = "ht_receivers ht"
  let ?L = "L - {(ea_id opp, ?m)}"
  have a: "ht_attr ht = attr" "ht_mode ht = cm" "map fst (ht_transmitters ht) = modes cm" "\<And>m. ?r m = {i. (i, m) \<in> L}"
    and tx: "\<And>m tx. (m, tx) \<in> set (ht_transmitters ht) \<Longrightarrow> ready env tx \<and> (sub_enabled tx \<longleftrightarrow> (\<exists>i. (i, m) \<in> L))"
    using assms by (auto simp: tx_inv_def)
  have live: "live_do cm attr (False, opp) L = ?L" using False by (simp add: live_do_def Let_def)
  have rec: "(?r(?m := ?r ?m - {ea_id opp})) m = {i. (i, m) \<in> ?L}" for m using a(4) by auto
  have other: "(\<exists>i. (i, m) \<in> ?L) \<longleftrightarrow> (\<exists>i. (i, m) \<in> L)" if "m \<noteq> ?m" for m using that by auto
  show ?thesis
  proof (cases "?r ?m - {ea_id opp} = {}")
    case True
    obtain txs md' where d: "disable_on (\<lambda>m. m = ?m) (ht_transmitters ht) md = (txs, md')" by fastforce
    have D: "map fst txs = map fst (ht_transmitters ht)" using disable_on_modes d by (metis fst_conv)
    have none: "\<not> (\<exists>i. (i, ?m) \<in> ?L)" using True a(4) by auto
    have "ready env t \<and> (sub_enabled t \<longleftrightarrow> (\<exists>i. (i, m) \<in> ?L))" if t: "(m, t) \<in> set txs" for m t
    proof -
      obtain t0 where t0: "(m, t0) \<in> set (ht_transmitters ht)"
        "if m = ?m then \<exists>md :: ('c, 'm) medium. t = fst (sub_Disable t0 md) else t = t0"
        using disable_on_entry [of m t "\<lambda>m. m = ?m" "ht_transmitters ht" md] d t by auto
      show ?thesis
      proof (cases "m = ?m")
        case True
        then obtain md0 :: "('c, 'm) medium" where "t = fst (sub_Disable t0 md0)" using t0(2) by (auto split: if_splits)
        then show ?thesis using tx [OF t0(1)] ready_Disable [of env t0 md0] none True by simp
      next
        case False
        then show ?thesis using tx [OF t0(1)] t0(2) other [OF False] by simp
      qed
    qed
    moreover have "fst (ht_Disable opp ht md) = ht\<lparr>ht_receivers := ?r(?m := ?r ?m - {ea_id opp}), ht_transmitters := txs\<rparr>"
      using False True a d by (simp add: ht_Disable_def Let_def)
    ultimately show ?thesis using a D rec unfolding live tx_inv_def by auto
  next
    case no: False
    then have "(\<exists>i. (i, ?m) \<in> ?L)" "(\<exists>i. (i, ?m) \<in> L)" using a(4) by auto
    then have same: "(\<exists>i. (i, m) \<in> ?L) \<longleftrightarrow> (\<exists>i. (i, m) \<in> L)" for m using other by (cases "m = ?m") auto
    have "fst (ht_Disable opp ht md) = ht\<lparr>ht_receivers := ?r(?m := ?r ?m - {ea_id opp})\<rparr>"
      using False no a by (simp add: ht_Disable_def Let_def)
    then show ?thesis using a tx rec same unfolding live tx_inv_def by auto
  qed
qed

lemma tx_inv_start: "rtps_ready env attr \<Longrightarrow> tx_inv env (ObtainConfig conf) attr {} (HybridTransmitter env conf attr ident)"
  using make_disabled [of env attr ident] ready_make [of env attr ident] by (auto simp: tx_inv_def HybridTransmitter_def comp_def)

lemma tx_inv_fold:
  "tx_inv env cm attr L (fst s) \<Longrightarrow> tx_inv env cm attr (fold (live_do cm attr) es L) (fst (fold (ht_do env) es s))"
proof (induction es arbitrary: L s)
  case (Cons e es)
  have "tx_inv env cm attr (live_do cm attr e L) (fst (ht_do env e s))"
    using Cons.prems tx_inv_Enable [of env cm attr L "fst s" "snd e"] tx_inv_Disable [of env cm attr L "fst s" "snd e" "snd s"]
    by (cases e) (auto simp: ht_do_def)
  then show ?case using Cons.IH by simp
qed simp

section \<open>The receiver listens to each writer on one way\<close>

text \<open>The tables of the three dispatchers for the channel of a receiver.\<close>

definition proc_ok :: "endpoint_attr \<Rightarrow> (way \<Rightarrow> 'c table) \<Rightarrow> 'c rx_process \<Rightarrow> bool" where
  "proc_ok attr T p \<longleftrightarrow> in_inv (\<lambda>_. ea_message_type attr) ((\<lambda>_ _. [])(ea_channel_id attr := T Intra_Way)) (rp_intra p) \<and>
     listens (ea_channel_id attr) (T Shm_Way) (sd_base (rp_shm p)) \<and> listens (ea_channel_id attr) (T Rtps_Way) (rd_base (rp_rtps p))"

lemma sd_base_AddSegment [simp]: "sd_base (AddSegment kind ch d) = sd_base d"
  by (simp add: AddSegment_def)

lemma proc_add:
  assumes ok: "proc_ok attr T p" and new: "ea_id attr \<notin> fst ` set (T w (Opposite (ea_id opp)))"
  shows "proc_ok attr (T(w := table_do (Sub (Opposite (ea_id opp)) (ea_id attr) c) (T w))) (add_listener_to rc w attr opp c p)"
proof (cases w)
  case Intra_Way
  let ?e = "In_Add (Opposite (ea_id opp)) (ea_channel_id attr) (ea_id attr) (ea_message_type attr) c"
  have "in_inv (\<lambda>_. ea_message_type attr) ((\<lambda>_ _. [])(ea_channel_id attr := T Intra_Way)) (rp_intra p)" using ok by (simp add: proc_ok_def)
  from in_inv_Add [OF this, of "Opposite (ea_id opp)" "ea_channel_id attr" "ea_id attr" "ea_message_type attr" c] new Intra_Way
  show ?thesis using ok by (simp add: proc_ok_def)
next
  case Shm_Way
  then show ?thesis using ok new listens_Sub [of "ea_channel_id attr" "T Shm_Way" "sd_base (rp_shm p)" "ea_id attr" "Opposite (ea_id opp)" c]
    by (simp add: proc_ok_def sd_AddListener_to_def)
next
  case Rtps_Way
  then show ?thesis using ok new listens_Sub [of "ea_channel_id attr" "T Rtps_Way" "rd_base (rp_rtps p)" "ea_id attr" "Opposite (ea_id opp)" c]
    by (simp add: proc_ok_def rd_AddListener_to_def)
qed

lemma proc_remove:
  assumes ok: "proc_ok attr T p" and all: "\<forall>q\<in>set (T w (Opposite (ea_id opp))). fst q = ea_id attr"
  shows "proc_ok attr (T(w := table_do (Unsub (Opposite (ea_id opp)) (ea_id attr)) (T w))) (remove_listener_from w attr opp p)"
proof (cases w)
  case Intra_Way
  have "in_inv (\<lambda>_. ea_message_type attr) ((\<lambda>_ _. [])(ea_channel_id attr := T Intra_Way)) (rp_intra p)" using ok by (simp add: proc_ok_def)
  from in_inv_Remove [OF this, of "Opposite (ea_id opp)" "ea_channel_id attr" "ea_id attr" "ea_message_type attr"] all Intra_Way
  show ?thesis using ok by (simp add: proc_ok_def)
next
  case Shm_Way
  then show ?thesis using ok listens_Unsub [of "ea_channel_id attr" "T Shm_Way" "sd_base (rp_shm p)" "Opposite (ea_id opp)" "ea_id attr"]
    by (simp add: proc_ok_def)
next
  case Rtps_Way
  then show ?thesis using ok listens_Unsub [of "ea_channel_id attr" "T Rtps_Way" "rd_base (rp_rtps p)" "Opposite (ea_id opp)" "ea_id attr"]
    by (simp add: proc_ok_def)
qed

text \<open>The writers are given by their ids; \<open>attr_of\<close> are their attributes.\<close>

definition hr_do :: "rx_conf \<Rightarrow> (u64 \<Rightarrow> endpoint_attr) \<Rightarrow> bool \<times> u64 \<Rightarrow> 'c hybrid_receiver \<times> 'c rx_process \<Rightarrow> 'c hybrid_receiver \<times> 'c rx_process" where
  "hr_do rc attr_of e s = (if fst e then hr_Enable rc (attr_of (snd e)) s else hr_Disable (attr_of (snd e)) s)"

definition heard_do :: "bool \<times> u64 \<Rightarrow> u64 set \<Rightarrow> u64 set" where
  "heard_do e E = (if fst e then insert (snd e) E else E - {snd e})"

definition reach :: "endpoint_attr \<Rightarrow> communication_mode \<Rightarrow> (u64 \<Rightarrow> endpoint_attr) \<Rightarrow> u64 \<Rightarrow> optional_mode" where
  "reach attr cm attr_of i = mapping_table cm (GetRelation attr (attr_of i))"

definition heard_table :: "endpoint_attr \<Rightarrow> 'c \<Rightarrow> communication_mode \<Rightarrow> (u64 \<Rightarrow> endpoint_attr) \<Rightarrow> u64 set \<Rightarrow> way \<Rightarrow> 'c table" where
  "heard_table attr c cm attr_of E w k =
     (case k of
        Self \<Rightarrow> []
      | Opposite i \<Rightarrow> if i \<in> E \<and> GetRelation attr (attr_of i) \<noteq> NO_RELATION \<and> way_of (reach attr cm attr_of i) = w then [(ea_id attr, c)] else [])"

definition hr_inv :: "endpoint_attr \<Rightarrow> 'c \<Rightarrow> communication_mode \<Rightarrow> (u64 \<Rightarrow> endpoint_attr) \<Rightarrow> u64 set \<Rightarrow> 'c hybrid_receiver \<times> 'c rx_process \<Rightarrow> bool" where
  "hr_inv attr c cm attr_of E s \<longleftrightarrow> hr_attr (fst s) = attr \<and> hr_listener (fst s) = c \<and> hr_mode (fst s) = cm \<and>
     (\<forall>m i. map_of (hr_transmitters (fst s) m) i \<noteq> None \<longleftrightarrow> i \<in> E \<and> GetRelation attr (attr_of i) \<noteq> NO_RELATION \<and> reach attr cm attr_of i = m) \<and>
     proc_ok attr (heard_table attr c cm attr_of E) (snd s)"

lemma heard_table_insert:
  assumes "i \<notin> E" "GetRelation attr (attr_of i) \<noteq> NO_RELATION"
  shows "heard_table attr c cm attr_of (insert i E) = (heard_table attr c cm attr_of E)(way_of (reach attr cm attr_of i) :=
    table_do (Sub (Opposite i) (ea_id attr) c) (heard_table attr c cm attr_of E (way_of (reach attr cm attr_of i))))"
  using assms by (intro ext) (auto simp: heard_table_def split: signal_name.split)

lemma heard_table_remove:
  assumes "GetRelation attr (attr_of i) \<noteq> NO_RELATION"
  shows "heard_table attr c cm attr_of (E - {i}) = (heard_table attr c cm attr_of E)(way_of (reach attr cm attr_of i) :=
    table_do (Unsub (Opposite i) (ea_id attr)) (heard_table attr c cm attr_of E (way_of (reach attr cm attr_of i))))"
  using assms by (intro ext) (auto simp: heard_table_def split: signal_name.split)

lemma heard_table_none:
  "GetRelation attr (attr_of i) = NO_RELATION \<Longrightarrow> heard_table attr c cm attr_of (insert i E) = heard_table attr c cm attr_of E"
  "GetRelation attr (attr_of i) = NO_RELATION \<Longrightarrow> heard_table attr c cm attr_of (E - {i}) = heard_table attr c cm attr_of E"
  by (intro ext; auto simp: heard_table_def split: signal_name.split)+

lemma hr_inv_Enable:
  assumes inv: "hr_inv attr c cm attr_of E s" and i: "ea_id (attr_of i) = i"
  shows "hr_inv attr c cm attr_of (insert i E) (hr_Enable rc (attr_of i) s)"
proof -
  obtain hr p where s: "s = (hr, p)" by (cases s)
  let ?T = "heard_table attr c cm attr_of E" and ?m = "reach attr cm attr_of i"
  have a: "hr_attr hr = attr" "hr_listener hr = c" "hr_mode hr = cm"
    and known: "\<And>m j. map_of (hr_transmitters hr m) j \<noteq> None \<longleftrightarrow> j \<in> E \<and> GetRelation attr (attr_of j) \<noteq> NO_RELATION \<and> reach attr cm attr_of j = m"
    and ok: "proc_ok attr ?T p" using inv s by (auto simp: hr_inv_def)
  consider "GetRelation attr (attr_of i) = NO_RELATION" | "GetRelation attr (attr_of i) \<noteq> NO_RELATION" "i \<in> E"
    | "GetRelation attr (attr_of i) \<noteq> NO_RELATION" "i \<notin> E" by blast
  then show ?thesis
  proof cases
    case 1
    then show ?thesis using a ok known s by (auto simp: hr_inv_def hr_Enable_def Let_def heard_table_none(1))
  next
    case 2
    then have "map_of (hr_transmitters hr ?m) i \<noteq> None" using known by blast
    then have "hr_Enable rc (attr_of i) s = s" using a i 2 by (auto simp: s hr_Enable_def Let_def reach_def)
    then show ?thesis using inv 2(2) by (simp add: insert_absorb)
  next
    case 3
    then have none: "map_of (hr_transmitters hr ?m) i = None" using known by blast
    let ?hr = "ReceiveHistoryMsg (attr_of i) (hr\<lparr>hr_transmitters := (hr_transmitters hr)(?m := (i, attr_of i) # hr_transmitters hr ?m)\<rparr>)"
    have e: "hr_Enable rc (attr_of i) s = (?hr, add_listener_to rc (way_of ?m) attr (attr_of i) c p)"
      using a i 3 none by (simp add: s hr_Enable_def Let_def reach_def)
    have "ea_id attr \<notin> fst ` set (?T (way_of ?m) (Opposite (ea_id (attr_of i))))" using 3(2) i by (simp add: heard_table_def)
    from proc_add [OF ok this, of c rc] have "proc_ok attr (heard_table attr c cm attr_of (insert i E)) (add_listener_to rc (way_of ?m) attr (attr_of i) c p)"
      using heard_table_insert [where attr_of = attr_of and i = i and attr = attr and c = c and cm = cm and E = E] 3 i by simp
    moreover have h: "hr_attr ?hr = attr" "hr_listener ?hr = c" "hr_mode ?hr = cm"
        "hr_transmitters ?hr = (hr_transmitters hr)(?m := (i, attr_of i) # hr_transmitters hr ?m)" using a by (simp_all add: ReceiveHistoryMsg_def)
    moreover have "map_of (hr_transmitters ?hr m) j \<noteq> None \<longleftrightarrow>
        j \<in> insert i E \<and> GetRelation attr (attr_of j) \<noteq> NO_RELATION \<and> reach attr cm attr_of j = m" for m j
      using known [of m j] 3(1) unfolding h(4) by (cases "m = ?m"; cases "j = i") auto
    ultimately show ?thesis unfolding e hr_inv_def by (simp only: fst_conv snd_conv) blast
  qed
qed

lemma hr_inv_Disable:
  assumes inv: "hr_inv attr c cm attr_of E s" and i: "ea_id (attr_of i) = i"
  shows "hr_inv attr c cm attr_of (E - {i}) (hr_Disable (attr_of i) s)"
proof -
  obtain hr p where s: "s = (hr, p)" by (cases s)
  let ?T = "heard_table attr c cm attr_of E" and ?m = "reach attr cm attr_of i"
  have a: "hr_attr hr = attr" "hr_listener hr = c" "hr_mode hr = cm"
    and known: "\<And>m j. map_of (hr_transmitters hr m) j \<noteq> None \<longleftrightarrow> j \<in> E \<and> GetRelation attr (attr_of j) \<noteq> NO_RELATION \<and> reach attr cm attr_of j = m"
    and ok: "proc_ok attr ?T p" using inv s by (auto simp: hr_inv_def)
  consider "GetRelation attr (attr_of i) = NO_RELATION" | "GetRelation attr (attr_of i) \<noteq> NO_RELATION" "i \<notin> E"
    | "GetRelation attr (attr_of i) \<noteq> NO_RELATION" "i \<in> E" by blast
  then show ?thesis
  proof cases
    case 1
    then show ?thesis using a ok known s by (auto simp: hr_inv_def hr_Disable_def Let_def heard_table_none(2))
  next
    case 2
    then have "map_of (hr_transmitters hr ?m) i = None" using known by blast
    then have "hr_Disable (attr_of i) s = s" using a i 2 by (simp add: s hr_Disable_def Let_def reach_def)
    then show ?thesis using inv 2(2) by simp
  next
    case 3
    then have some: "map_of (hr_transmitters hr ?m) i \<noteq> None" using known by blast
    let ?f = "filter (\<lambda>e. fst e \<noteq> i) (hr_transmitters hr ?m)"
    let ?hr = "hr\<lparr>hr_transmitters := (hr_transmitters hr)(?m := ?f)\<rparr>"
    have e: "hr_Disable (attr_of i) s = (?hr, remove_listener_from (way_of ?m) attr (attr_of i) p)"
      using a i 3 some by (simp add: s hr_Disable_def Let_def reach_def)
    have "\<forall>q\<in>set (?T (way_of ?m) (Opposite (ea_id (attr_of i)))). fst q = ea_id attr" by (simp add: heard_table_def)
    from proc_remove [OF ok this] have "proc_ok attr (heard_table attr c cm attr_of (E - {i})) (remove_listener_from (way_of ?m) attr (attr_of i) p)"
      using heard_table_remove [where attr_of = attr_of and i = i and attr = attr and c = c and cm = cm and E = E] 3(1) i by simp
    moreover have f: "map_of ?f j = (if j = i then None else map_of (hr_transmitters hr ?m) j)" for j
      using map_of_sm_erase [of i "hr_transmitters hr ?m"] by (simp add: sm_erase_def)
    moreover have "map_of (hr_transmitters ?hr m) j \<noteq> None \<longleftrightarrow>
        j \<in> E - {i} \<and> GetRelation attr (attr_of j) \<noteq> NO_RELATION \<and> reach attr cm attr_of j = m" for m j
      using known [of m j] f [of j] by (cases "m = ?m"; cases "j = i") auto
    moreover have "hr_attr ?hr = attr" "hr_listener ?hr = c" "hr_mode ?hr = cm" using a by simp_all
    ultimately show ?thesis unfolding e hr_inv_def by (simp only: fst_conv snd_conv) blast
  qed
qed

lemma hr_inv_fold:
  "hr_inv attr c cm attr_of E s \<Longrightarrow> \<forall>i. ea_id (attr_of i) = i \<Longrightarrow> hr_inv attr c cm attr_of (fold heard_do es E) (fold (hr_do rc attr_of) es s)"
proof (induction es arbitrary: E s)
  case (Cons e es)
  have "hr_inv attr c cm attr_of (heard_do e E) (hr_do rc attr_of e s)"
    using hr_inv_Enable [OF Cons.prems(1), of "snd e" rc] hr_inv_Disable [OF Cons.prems(1), of "snd e"] Cons.prems(2) by (simp add: hr_do_def heard_do_def)
  then show ?case using Cons by simp
qed simp

text \<open>A process whose dispatchers have no listeners yet.\<close>

definition new_process :: "u64 \<Rightarrow> notifier \<Rightarrow> 'c rx_process" where
  "new_process host n = \<lparr>rp_intra = IntraDispatcher, rp_shm = ShmDispatcher host n, rp_rtps = RtpsDispatcher\<rparr>"

lemma hr_inv_start: "hr_inv attr c (ObtainConfig conf) attr_of {} (HybridReceiver conf attr c, new_process host n)"
proof -
  have t: "heard_table attr c cm attr_of {} w = (\<lambda>_. [])" for cm w by (rule ext) (simp add: heard_table_def split: signal_name.split)
  have "in_inv (\<lambda>_. ea_message_type attr) ((\<lambda>_ _. [])(ea_channel_id attr := \<lambda>_. [])) IntraDispatcher"
    unfolding fun_upd_triv using in_inv_start by (simp add: fun_upd_def)
  then show ?thesis using listens_new [of "ea_channel_id attr"]
    by (simp add: hr_inv_def HybridReceiver_def new_process_def proc_ok_def t ShmDispatcher_def RtpsDispatcher_def)
qed

text \<open>What a listener is called with when a message on the channel of a receiver arrives on one of the ways.\<close>

fun arrive ::
  "(string \<Rightarrow> 'm msg_traits) \<Rightarrow> (u8 list \<Rightarrow> 'm option) \<Rightarrow> (u8 list \<Rightarrow> u64) \<Rightarrow> way \<Rightarrow> endpoint_attr \<Rightarrow> 'm \<Rightarrow> u8 list \<Rightarrow> message_info \<Rightarrow>
   'c rx_process \<Rightarrow> ('c \<times> 'm \<times> message_info) list" where
  "arrive tr parse hash_id Intra_Way attr m bs info p =
     map (\<lambda>(c, ty, m, i). (c, m, i)) (fst (in_OnMessage tr hash_id (ea_channel_id attr) (ea_message_type attr) m info (rp_intra p)))"
| "arrive tr parse hash_id Shm_Way attr m bs info p = fst (OnMessage parse hash_id (ea_channel_id attr) bs info (rp_shm p))"
| "arrive tr parse hash_id Rtps_Way attr m bs info p = fst (rd_OnMessage parse hash_id (ea_channel_id attr) bs info (rp_rtps p))"

lemma listens_OnMessage_shm:
  assumes "listens ch t (sd_base d)" "parse str = Some m"
  shows "fst (OnMessage parse hash_id ch str info d) = map (\<lambda>c. (c, m, info)) (map snd (t Self @ t (Opposite (hash_id (mi_sender_id info)))))"
proof (cases "msg_listeners (sd_base d) ch")
  case None
  then show ?thesis using assms by (simp add: listens_def OnMessage_def)
next
  case (Some lh)
  then have "represents lh t" "\<not> d_is_shutdown (sd_base d)" using assms by (simp_all add: listens_def)
  then show ?thesis using Some assms(2) represents_Run [of lh t "hash_id (mi_sender_id info)"] by (simp add: OnMessage_def case_prod_beta)
qed

lemma arrive_table:
  assumes "proc_ok attr T p" "parse bs = Some m"
  shows "arrive tr parse hash_id w attr m bs info p = map (\<lambda>c. (c, m, info)) (map snd (T w Self @ T w (Opposite (hash_id (mi_sender_id info)))))"
proof (cases w)
  case Intra_Way
  have "in_inv (\<lambda>_. ea_message_type attr) ((\<lambda>_ _. [])(ea_channel_id attr := T Intra_Way)) (rp_intra p)" using assms(1) by (simp add: proc_ok_def)
  from in_inv_Message [OF this, of tr hash_id "ea_channel_id attr" m info] show ?thesis using Intra_Way by (auto simp: comp_def)
next
  case Shm_Way
  then show ?thesis using assms listens_OnMessage_shm [of "ea_channel_id attr" "T Shm_Way" "rp_shm p" parse bs m hash_id info] by (simp add: proc_ok_def)
next
  case Rtps_Way
  then show ?thesis using assms listens_OnMessage [of "ea_channel_id attr" "T Rtps_Way" "rp_rtps p" parse bs m hash_id info] by (simp add: proc_ok_def)
qed

section \<open>From a writer to a reader in the same process\<close>

text \<open>The transmitters keep their kind and channel.\<close>

fun kind_ok :: "endpoint_attr \<Rightarrow> optional_mode \<times> sub_transmitter \<Rightarrow> bool" where
  "kind_ok attr (m, Tx_Intra tx) \<longleftrightarrow> m = INTRA \<and> it_channel_id tx = ea_channel_id attr"
| "kind_ok attr (m, Tx_Shm tx) \<longleftrightarrow> m = SHM"
| "kind_ok attr (m, Tx_Rtps tx) \<longleftrightarrow> m \<noteq> INTRA \<and> m \<noteq> SHM"

lemma kind_ok_make: "kind_ok attr (m, make_transmitter env attr ident m)"
  by (cases m) (simp_all add: make_transmitter_def IntraTransmitter_def)

lemma kind_ok_Enable: "kind_ok attr (m, tx) \<Longrightarrow> kind_ok attr (m, sub_Enable env tx)"
  by (cases tx) (simp_all add: it_Enable_def)

lemma kind_ok_Disable: "kind_ok attr (m, tx) \<Longrightarrow> kind_ok attr (m, fst (sub_Disable tx md))"
  by (cases tx) (simp_all add: it_Disable_def split: prod.split)

lemma kind_ok_disable_on: "\<forall>e\<in>set txs. kind_ok attr e \<Longrightarrow> \<forall>e\<in>set (fst (disable_on P txs md)). kind_ok attr e"
proof (induction txs arbitrary: md)
  case (Cons e txs)
  obtain k tx where e: "e = (k, tx)" by (cases e)
  have "\<forall>e\<in>set txs. kind_ok attr e" using Cons.prems by simp
  note IH = Cons.IH [OF this]
  show ?case using Cons.prems IH kind_ok_Disable [of attr k tx md] unfolding e disable_on_Cons by (simp del: sub_Disable.simps)
qed simp

lemma kind_ok_fold:
  "\<forall>e\<in>set (ht_transmitters (fst s)). kind_ok attr e \<Longrightarrow> \<forall>e\<in>set (ht_transmitters (fst (fold (ht_do env) es s))). kind_ok attr e"
proof (induction es arbitrary: s)
  case (Cons e es)
  have "\<forall>x\<in>set (on_mode m (sub_Enable env) (ht_transmitters (fst s))). kind_ok attr x" for m
    using Cons.prems kind_ok_Enable by (fastforce simp: on_mode_def)
  moreover have "\<forall>x\<in>set (fst (disable_on P (ht_transmitters (fst s)) (snd s))). kind_ok attr x" for P
    using kind_ok_disable_on Cons.prems .
  ultimately have "\<forall>x\<in>set (ht_transmitters (fst (ht_do env e s))). kind_ok attr x"
    using Cons.prems by (auto simp: ht_do_def ht_Enable_def ht_Disable_def Let_def split: prod.splits) (metis fst_conv)
  then show ?case using Cons.IH by simp
qed simp

text \<open>A disabled transmitter does nothing.\<close>

lemma sub_Transmit_disabled: "\<not> sub_enabled tx \<Longrightarrow> \<exists>md'. sub_Transmit env ty m info tx md = Some (Inr (False, tx, md')) \<and> md_calls md' = md_calls md"
  by (cases tx) (simp_all add: it_Transmit_def tx_Transmit_def rt_Transmit_def)

lemma transmit_all_intra:
  assumes "\<forall>e\<in>set txs. kind_ok attr e" "distinct (map fst txs)" "\<forall>(m, tx)\<in>set txs. sub_enabled tx \<longleftrightarrow> m = INTRA"
  shows "\<exists>txs' md'. transmit_all env ty m info txs md = Some (Inr (txs', md')) \<and>
    md_calls md' = md_calls md @ (if INTRA \<in> fst ` set txs then fst (in_OnMessage (tc_traits env) (tc_hash_id env) (ea_channel_id attr) ty m info (md_intra md)) else [])"
  using assms
proof (induction txs arbitrary: md)
  case (Cons e txs)
  obtain k tx where e: "e = (k, tx)" by (cases e)
  have pr: "\<forall>e\<in>set txs. kind_ok attr e" "distinct (map fst txs)" "\<forall>(m, tx)\<in>set txs. sub_enabled tx \<longleftrightarrow> m = INTRA" using Cons.prems by auto
  note IH = Cons.IH [OF pr]
  show ?case
  proof (cases "k = INTRA")
    case True
    then obtain it where it: "tx = Tx_Intra it" "it_channel_id it = ea_channel_id attr" "it_enabled it"
      using Cons.prems e by (cases tx) auto
    let ?r = "in_OnMessage (tc_traits env) (tc_hash_id env) (ea_channel_id attr) ty m info (md_intra md)"
    let ?md = "md\<lparr>md_intra := snd ?r, md_calls := md_calls md @ fst ?r\<rparr>"
    have "sub_Transmit env ty m info tx md = Some (Inr (True, tx, ?md))" using it by (simp add: it_Transmit_def case_prod_beta)
    moreover have "INTRA \<notin> fst ` set txs" using Cons.prems e True by auto
    ultimately show ?thesis using IH [of ?md] e True by auto
  next
    case False
    then have d: "\<not> sub_enabled tx" using Cons.prems e by auto
    from sub_Transmit_disabled [OF this, of env ty m info md]
    obtain md' where "sub_Transmit env ty m info tx md = Some (Inr (False, tx, md'))" "md_calls md' = md_calls md" by blast
    moreover have "md_intra md' = md_intra md" if "sub_Transmit env ty m info tx md = Some (Inr (False, tx, md'))"
      using that d by (cases tx) (auto simp: it_Transmit_def tx_Transmit_def rt_Transmit_def)
    ultimately show ?thesis using IH [of md'] e False by auto
  qed
qed simp

section \<open>Properties\<close>


text \<open>
  Claim C17. A reader gets each message of a writer once, although the writer may send it on several ways: after any sequence of writers
  joining and leaving, a message that arrives on one of the ways is given to the reader's listener exactly once if its sender has joined, has
  not left and belongs to that way by where it is, and not at all otherwise.
\<close>

theorem reader_hears_writer_on_one_way:
  assumes "\<forall>i. ea_id (attr_of i) = i" "parse bs = Some m"
  shows "arrive tr parse hash_id w attr m bs info (snd (fold (hr_do rc attr_of) es (HybridReceiver conf attr c, new_process host n))) =
    (let i = hash_id (mi_sender_id info); rel = GetRelation attr (attr_of i)
     in if i \<in> fold heard_do es {} \<and> rel \<noteq> NO_RELATION \<and> way_of (mapping_table (ObtainConfig conf) rel) = w then [(c, m, info)] else [])"
proof -
  have "hr_inv attr c (ObtainConfig conf) attr_of (fold heard_do es {}) (fold (hr_do rc attr_of) es (HybridReceiver conf attr c, new_process host n))"
    by (rule hr_inv_fold [OF hr_inv_start assms(1)])
  then have ok: "proc_ok attr (heard_table attr c (ObtainConfig conf) attr_of (fold heard_do es {}))
      (snd (fold (hr_do rc attr_of) es (HybridReceiver conf attr c, new_process host n)))" by (simp add: hr_inv_def)
  show ?thesis
    using arrive_table [OF ok, where parse = parse and bs = bs and m = m and tr = tr and hash_id = hash_id and w = w and info = info] assms(2)
    by (simp add: heard_table_def reach_def Let_def)
qed

definition demo_env :: "raw_message tx_conf" where
  "demo_env = \<lparr>tc_traits = (\<lambda>_. raw_traits), tc_hash_id = u64_of_bytes, tc_ser = rm_message, tc_ser_ok = (\<lambda>_. True),
     tc_to_string = (\<lambda>m. Some (raw_SerializeToString m)), tc_sys = strong Works, tc_kind = PosixSegment,
     tc_notifier = ConditionNotifier (Some Indicator), tc_host_id = 3,
     tc_pub_attr = topic_attr.extend demo_topic \<lparr>pa_heartbeat_seconds = 0, pa_heartbeat_fraction = 0, pa_asynchronous = False\<rparr>,
     tc_create = (\<lambda>_. True), tc_participant = True, tc_down = False, tc_accept = True, tc_max_history = None\<rparr>"

definition demo_attr :: "int \<Rightarrow> u64 \<Rightarrow> endpoint_attr" where
  "demo_attr pid i = \<lparr>ea_channel_name = ''ch'', ea_channel_id = 7, ea_message_type = raw_TypeName, ea_host_ip = ''10.0.0.1'', ea_process_id = pid,
     ea_id = i, ea_qos = QOS_PROFILE_DEFAULT\<rparr>"

definition demo_medium :: "(string, raw_message) medium" where
  "demo_medium = \<lparr>md_intra = IntraDispatcher, md_world = no_shm, md_ind = Indicator, md_calls = [], md_samples = []\<rparr>"


theorem reader_hears_writer_on_one_way_witness:
  "arrive (\<lambda>_. raw_traits) (\<lambda>bs. Some (RawMessage bs 0)) (\<lambda>_. 6) Shm_Way (demo_attr 1 4) (RawMessage [1] 0) [1]
     \<lparr>mi_sender_id = [6], mi_seq_num = 1, mi_spare_id = []\<rparr>
     (snd (fold (hr_do \<lparr>rc_kind = PosixSegment, rc_sub_attr = demo_topic, rc_create = (\<lambda>_. True)\<rparr> (demo_attr 2)) [(True, 6), (True, 6), (True, 5), (False, 5)]
       (HybridReceiver None (demo_attr 1 4) ''reader'', new_process 3 (ConditionNotifier (Some Indicator))))) =
   [(''reader'', RawMessage [1] 0, \<lparr>mi_sender_id = [6], mi_seq_num = 1, mi_spare_id = []\<rparr>)]"
  by (subst reader_hears_writer_on_one_way)
    (simp_all add: demo_attr_def heard_do_def GetRelation_def ObtainConfig_def CommunicationMode_def Let_def)

text \<open>
  Claim C5. In one process, from the writer to the reader: when all readers that have joined a hybrid transmitter are reached within the process, and
  the hybrid receiver has heard of the writer, transmitting a message succeeds and calls the receiver's listener with it exactly once.
\<close>

theorem same_process_delivery:
  assumes "rtps_ready env wattr" "INTRA \<in> set (modes (ObtainConfig conf))"
    and "\<exists>i. (i, INTRA) \<in> fold (live_do (ObtainConfig conf) wattr) tes {}" "\<forall>(i, m)\<in>fold (live_do (ObtainConfig conf) wattr) tes {}. m = INTRA"
    and "\<forall>i. ea_id (attr_of i) = i" "attr_of (ea_id wattr) = wattr" "ea_id wattr \<in> fold heard_do res {}"
    and "GetRelation attr wattr \<noteq> NO_RELATION" "way_of (mapping_table (ObtainConfig conf') (GetRelation attr wattr)) = Intra_Way"
    and "ea_message_type wattr = ea_message_type attr" "ea_channel_id wattr = ea_channel_id attr"
    and "tc_hash_id env (mi_sender_id info) = ea_id wattr"
    and "md_intra md = rp_intra (snd (fold (hr_do rc attr_of) res (HybridReceiver conf' attr c, new_process host n)))"
  shows "\<exists>ht' md'. ht_Transmit env m info (fst (fold (ht_do env) tes (HybridTransmitter env conf wattr ident, md0))) md = Some (Inr (True, ht', md')) \<and>
    md_calls md' = md_calls md @ [(c, ea_message_type attr, m, info)]"
proof -
  let ?ht = "fst (fold (ht_do env) tes (HybridTransmitter env conf wattr ident, md0))" and ?L = "fold (live_do (ObtainConfig conf) wattr) tes {}"
  have inv: "tx_inv env (ObtainConfig conf) wattr ?L ?ht" by (rule tx_inv_fold) (use tx_inv_start [OF assms(1)] in simp)
  have "\<forall>e\<in>set (ht_transmitters ?ht). kind_ok wattr e"
    by (rule kind_ok_fold) (simp add: HybridTransmitter_def kind_ok_make)
  moreover have f: "map fst (ht_transmitters ?ht) = modes (ObtainConfig conf)" and wa: "ht_attr ?ht = wattr" using inv by (simp_all add: tx_inv_def)
  moreover have "distinct (modes (ObtainConfig conf))" by (simp add: modes_def)
  moreover have "\<forall>(m, tx)\<in>set (ht_transmitters ?ht). sub_enabled tx \<longleftrightarrow> m = INTRA"
    using inv assms(3,4) by (fastforce simp: tx_inv_def)
  ultimately obtain txs' md' where t: "transmit_all env (ea_message_type wattr) m info (ht_transmitters ?ht) md = Some (Inr (txs', md'))"
    "md_calls md' = md_calls md @ fst (in_OnMessage (tc_traits env) (tc_hash_id env) (ea_channel_id wattr) (ea_message_type wattr) m info (md_intra md))"
    using transmit_all_intra [of "ht_transmitters ?ht" wattr env "ea_message_type wattr" m info md] assms(2) by (auto simp: f [symmetric])
  have "hr_inv attr c (ObtainConfig conf') attr_of (fold heard_do res {}) (fold (hr_do rc attr_of) res (HybridReceiver conf' attr c, new_process host n))"
    by (rule hr_inv_fold [OF hr_inv_start assms(5)])
  then have "in_inv (\<lambda>_. ea_message_type attr) ((\<lambda>_ _. [])(ea_channel_id attr := heard_table attr c (ObtainConfig conf') attr_of (fold heard_do res {}) Intra_Way)) (md_intra md)"
    using assms(13) by (simp add: hr_inv_def proc_ok_def)
  from in_inv_Message [OF this, of "tc_traits env" "tc_hash_id env" "ea_channel_id attr" m info]
  have "fst (in_OnMessage (tc_traits env) (tc_hash_id env) (ea_channel_id attr) (ea_message_type attr) m info (md_intra md)) = [(c, ea_message_type attr, m, info)]"
    using assms(6-9,12) by (auto simp: heard_table_def reach_def)
  then show ?thesis using t assms(10,11) wa by (simp add: ht_Transmit_def Let_def)
qed

theorem same_process_delivery_witness:
  "\<exists>ht' md'. ht_Transmit demo_env (RawMessage [1] 0) \<lparr>mi_sender_id = [4], mi_seq_num = 1, mi_spare_id = []\<rparr>
      (fst (fold (ht_do demo_env) [(True, demo_attr 1 5)] (HybridTransmitter demo_env None (demo_attr 1 4) [4], demo_medium)))
      (demo_medium\<lparr>md_intra := rp_intra (snd (fold (hr_do \<lparr>rc_kind = PosixSegment, rc_sub_attr = demo_topic, rc_create = (\<lambda>_. True)\<rparr> (demo_attr 1)) [(True, 4)]
        (HybridReceiver None (demo_attr 1 5) ''reader'', new_process 3 (ConditionNotifier (Some Indicator)))))\<rparr>) = Some (Inr (True, ht', md')) \<and>
    md_calls md' = [(''reader'', raw_TypeName, RawMessage [1] 0, \<lparr>mi_sender_id = [4], mi_seq_num = 1, mi_spare_id = []\<rparr>)]"
proof -
  let ?rc = "\<lparr>rc_kind = PosixSegment, rc_sub_attr = demo_topic, rc_create = (\<lambda>_. True)\<rparr>"
  let ?md = "demo_medium\<lparr>md_intra := rp_intra (snd (fold (hr_do ?rc (demo_attr 1)) [(True, 4)]
        (HybridReceiver None (demo_attr 1 5) ''reader'', new_process 3 (ConditionNotifier (Some Indicator)))))\<rparr>"
  have r: "rtps_ready demo_env (demo_attr 1 4)"
    by (simp add: rtps_ready_def demo_env_def demo_attr_def FillInPubAttr_ok QOS_PROFILE_DEFAULT_def CreateQosProfile_def)
  have live: "fold (live_do (ObtainConfig None) (demo_attr 1 4)) [(True, demo_attr 1 5)] {} = {(5, INTRA)}"
    by (simp add: live_do_def GetRelation_def demo_attr_def ObtainConfig_def CommunicationMode_def Let_def)
  have rel: "GetRelation (demo_attr 1 5) (demo_attr 1 4) = SAME_PROC" by (simp add: GetRelation_def demo_attr_def)
  have "\<exists>ht' md'. ht_Transmit demo_env (RawMessage [1] 0) \<lparr>mi_sender_id = [4], mi_seq_num = 1, mi_spare_id = []\<rparr>
      (fst (fold (ht_do demo_env) [(True, demo_attr 1 5)] (HybridTransmitter demo_env None (demo_attr 1 4) [4], demo_medium))) ?md = Some (Inr (True, ht', md')) \<and>
    md_calls md' = md_calls ?md @ [(''reader'', ea_message_type (demo_attr 1 5), RawMessage [1] 0, \<lparr>mi_sender_id = [4], mi_seq_num = 1, mi_spare_id = []\<rparr>)]"
    by (rule same_process_delivery [OF r, where conf' = None and attr_of = "demo_attr 1" and res = "[(True, 4)]" and rc = ?rc and host = 3
          and n = "ConditionNotifier (Some Indicator)"]; (simp only: live rel)?)
      (simp_all add: demo_attr_def demo_env_def heard_do_def u64_of_bytes_def modes_def ObtainConfig_def CommunicationMode_def)
  then show ?thesis by (simp add: demo_medium_def demo_attr_def)
qed

text \<open>
  The name of the channel for old messages does not tell where one id ends: different pairs of a writer and a reader can share it.
\<close>

lemma history_channel_ambiguous: "history_channel 1 23 = history_channel 12 3"
  by (simp add: history_channel_def nat_to_string.simps)

end
