(* ===== verification/Blockers.thy ===== *)
theory Blockers
  imports Cyber_Prelude
begin

text \<open>
  \<^verbatim>\<open>cyber/blocker\<close>: a blocker keeps the newest messages of a channel.  Those published go to one queue, newest
  first; \<^verbatim>\<open>Observe\<close> copies it to a second one, which does not change until the next \<^verbatim>\<open>Observe\<close>.  The blocker manager has one
  blocker for a channel, which the readers and writers of simulation mode share.
\<close>

section \<open>Blocker\<close>

text \<open>The order in which the hash map of callbacks is walked is the order of the list.\<close>

record ('m, 'c) blocker =
  bl_type :: string
  bl_capacity :: nat
  bl_observed :: "'m list"
  bl_published :: "'m list"
  bl_callbacks :: "(string \<times> 'c) list"

definition Blocker :: "string \<Rightarrow> nat \<Rightarrow> ('m, 'c) blocker" where
  "Blocker ty cap = \<lparr>bl_type = ty, bl_capacity = cap, bl_observed = [], bl_published = [], bl_callbacks = []\<rparr>"

text \<open>\<^verbatim>\<open>while (queue.size() > capacity) queue.pop_back()\<close>\<close>

function pop_back_while :: "nat \<Rightarrow> 'm list \<Rightarrow> 'm list" where
  "pop_back_while n q = (if n < length q then pop_back_while n (butlast q) else q)"
  by auto
termination by (relation "measure (\<lambda>(n, q). length q)") auto

declare pop_back_while.simps [simp del]

definition bl_Enqueue :: "'m \<Rightarrow> ('m, 'c) blocker \<Rightarrow> ('m, 'c) blocker" where
  "bl_Enqueue m b =
     (if bl_capacity b = 0 then b
      else b\<lparr>bl_published := pop_back_while (bl_capacity b) (m # bl_published b)\<rparr>)"

definition bl_Notify :: "'m \<Rightarrow> ('m, 'c) blocker \<Rightarrow> ('c \<times> 'm) list" where
  "bl_Notify m b = map (\<lambda>e. (snd e, m)) (bl_callbacks b)"

text \<open>The calls of callbacks, with the blocker.\<close>

definition bl_Publish :: "'m \<Rightarrow> ('m, 'c) blocker \<Rightarrow> ('c \<times> 'm) list \<times> ('m, 'c) blocker" where
  "bl_Publish m b = (let b = bl_Enqueue m b in (bl_Notify m b, b))"

definition bl_Reset :: "('m, 'c) blocker \<Rightarrow> ('m, 'c) blocker" where
  "bl_Reset b = b\<lparr>bl_observed := [], bl_published := [], bl_callbacks := []\<rparr>"

definition bl_ClearObserved :: "('m, 'c) blocker \<Rightarrow> ('m, 'c) blocker" where "bl_ClearObserved b = b\<lparr>bl_observed := []\<rparr>"
definition bl_ClearPublished :: "('m, 'c) blocker \<Rightarrow> ('m, 'c) blocker" where "bl_ClearPublished b = b\<lparr>bl_published := []\<rparr>"
definition bl_Observe :: "('m, 'c) blocker \<Rightarrow> ('m, 'c) blocker" where "bl_Observe b = b\<lparr>bl_observed := bl_published b\<rparr>"
definition bl_IsObservedEmpty :: "('m, 'c) blocker \<Rightarrow> bool" where "bl_IsObservedEmpty b \<longleftrightarrow> bl_observed b = []"
definition bl_IsPublishedEmpty :: "('m, 'c) blocker \<Rightarrow> bool" where "bl_IsPublishedEmpty b \<longleftrightarrow> bl_published b = []"

definition bl_Subscribe :: "string \<Rightarrow> 'c \<Rightarrow> ('m, 'c) blocker \<Rightarrow> bool \<times> ('m, 'c) blocker" where
  "bl_Subscribe callback_id c b =
     (if map_of (bl_callbacks b) callback_id \<noteq> None then (False, b)
      else (True, b\<lparr>bl_callbacks := (callback_id, c) # bl_callbacks b\<rparr>))"

definition bl_Unsubscribe :: "string \<Rightarrow> ('m, 'c) blocker \<Rightarrow> bool \<times> ('m, 'c) blocker" where
  "bl_Unsubscribe callback_id b =
     (map_of (bl_callbacks b) callback_id \<noteq> None, b\<lparr>bl_callbacks := filter (\<lambda>e. fst e \<noteq> callback_id) (bl_callbacks b)\<rparr>)"

definition bl_GetLatestObserved :: "'m \<Rightarrow> ('m, 'c) blocker \<Rightarrow> 'm" where
  "bl_GetLatestObserved dummy_msg b = (if bl_observed b = [] then dummy_msg else hd (bl_observed b))"

definition bl_GetLatestObservedPtr :: "('m, 'c) blocker \<Rightarrow> 'm option" where
  "bl_GetLatestObservedPtr b = (if bl_observed b = [] then None else Some (hd (bl_observed b)))"

definition bl_GetOldestObservedPtr :: "('m, 'c) blocker \<Rightarrow> 'm option" where
  "bl_GetOldestObservedPtr b = (if bl_observed b = [] then None else Some (List.last (bl_observed b)))"

definition bl_GetLatestPublishedPtr :: "('m, 'c) blocker \<Rightarrow> 'm option" where
  "bl_GetLatestPublishedPtr b = (if bl_published b = [] then None else Some (hd (bl_published b)))"

text \<open>An iterator is the part of the queue that is still before it.\<close>

definition bl_ObservedBegin :: "('m, 'c) blocker \<Rightarrow> 'm list" where "bl_ObservedBegin b = bl_observed b"
definition bl_ObservedEnd :: "('m, 'c) blocker \<Rightarrow> 'm list" where "bl_ObservedEnd b = []"

definition bl_set_capacity :: "nat \<Rightarrow> ('m, 'c) blocker \<Rightarrow> ('m, 'c) blocker" where
  "bl_set_capacity cap b = b\<lparr>bl_capacity := cap, bl_published := pop_back_while cap (bl_published b)\<rparr>"

section \<open>Blocker manager\<close>

text \<open>\<open>ty\<close> is the type of message a function template is used for; the cast to another type gives no blocker.\<close>

type_synonym ('m, 'c) blocker_manager = "string \<rightharpoonup> ('m, 'c) blocker"

definition GetBlocker :: "string \<Rightarrow> string \<Rightarrow> ('m, 'c) blocker_manager \<Rightarrow> ('m, 'c) blocker option" where
  "GetBlocker ty ch bm = (case bm ch of None \<Rightarrow> None | Some b \<Rightarrow> if bl_type b = ty then Some b else None)"

definition GetOrCreateBlocker :: "string \<Rightarrow> nat \<Rightarrow> string \<Rightarrow> ('m, 'c) blocker_manager \<Rightarrow> ('m, 'c) blocker option \<times> ('m, 'c) blocker_manager" where
  "GetOrCreateBlocker ty cap ch bm =
     (case bm ch of
        Some b \<Rightarrow> (if bl_type b = ty then Some b else None, bm)
      | None \<Rightarrow> (Some (Blocker ty cap), bm(ch \<mapsto> Blocker ty cap)))"

definition bm_Publish :: "string \<Rightarrow> string \<Rightarrow> 'm \<Rightarrow> ('m, 'c) blocker_manager \<Rightarrow> bool \<times> ('c \<times> 'm) list \<times> ('m, 'c) blocker_manager" where
  "bm_Publish ty ch m bm =
     (case GetOrCreateBlocker ty 10 ch bm of
        (None, bm) \<Rightarrow> (False, [], bm)
      | (Some b, bm) \<Rightarrow> (case bl_Publish m b of (calls, b) \<Rightarrow> (True, calls, bm(ch \<mapsto> b))))"

definition bm_Subscribe :: "string \<Rightarrow> string \<Rightarrow> nat \<Rightarrow> string \<Rightarrow> 'c \<Rightarrow> ('m, 'c) blocker_manager \<Rightarrow> bool \<times> ('m, 'c) blocker_manager" where
  "bm_Subscribe ty ch cap callback_id c bm =
     (case GetOrCreateBlocker ty cap ch bm of
        (None, bm) \<Rightarrow> (False, bm)
      | (Some b, bm) \<Rightarrow> (case bl_Subscribe callback_id c b of (ok, b) \<Rightarrow> (ok, bm(ch \<mapsto> b))))"

definition bm_Unsubscribe :: "string \<Rightarrow> string \<Rightarrow> string \<Rightarrow> ('m, 'c) blocker_manager \<Rightarrow> bool \<times> ('m, 'c) blocker_manager" where
  "bm_Unsubscribe ty ch callback_id bm =
     (case GetBlocker ty ch bm of
        None \<Rightarrow> (False, bm)
      | Some b \<Rightarrow> (case bl_Unsubscribe callback_id b of (ok, b) \<Rightarrow> (ok, bm(ch \<mapsto> b))))"

definition bm_Observe :: "('m, 'c) blocker_manager \<Rightarrow> ('m, 'c) blocker_manager" where
  "bm_Observe bm = (\<lambda>ch. map_option bl_Observe (bm ch))"

text \<open>Every blocker is reset before the table is cleared; those who still hold one see it empty.\<close>

definition bm_Reset :: "('m, 'c) blocker_manager \<Rightarrow> ('m, 'c) blocker_manager" where
  "bm_Reset bm = Map.empty"

section \<open>Readers and writers of simulation mode\<close>

record 'c intra_reader =
  ir_init :: bool
  ir_channel :: string
  ir_type :: string
  ir_depth :: u32
  ir_node :: string
  ir_self :: 'c

definition ir_Init :: "'c intra_reader \<Rightarrow> ('m, 'c) blocker_manager \<Rightarrow> bool \<times> 'c intra_reader \<times> ('m, 'c) blocker_manager" where
  "ir_Init r bm =
     (if ir_init r then (True, r, bm)
      else case bm_Subscribe (ir_type r) (ir_channel r) (unat (ir_depth r)) (ir_node r) (ir_self r) bm of
             (ok, bm) \<Rightarrow> (ok, r\<lparr>ir_init := True\<rparr>, bm))"

definition ir_Shutdown :: "'c intra_reader \<Rightarrow> ('m, 'c) blocker_manager \<Rightarrow> 'c intra_reader \<times> ('m, 'c) blocker_manager" where
  "ir_Shutdown r bm =
     (if \<not> ir_init r then (r, bm)
      else (r\<lparr>ir_init := False\<rparr>, snd (bm_Unsubscribe (ir_type r) (ir_channel r) (ir_node r) bm)))"

text \<open>What the reader does with the blocker of its channel, when there is one.\<close>

definition ir_with :: "(('m, 'c) blocker \<Rightarrow> ('m, 'c) blocker) \<Rightarrow> 'c intra_reader \<Rightarrow> ('m, 'c) blocker_manager \<Rightarrow> ('m, 'c) blocker_manager" where
  "ir_with f r bm = (case GetBlocker (ir_type r) (ir_channel r) bm of None \<Rightarrow> bm | Some b \<Rightarrow> bm(ir_channel r \<mapsto> f b))"

definition ir_ClearData :: "'c intra_reader \<Rightarrow> ('m, 'c) blocker_manager \<Rightarrow> ('m, 'c) blocker_manager" where
  "ir_ClearData = ir_with (\<lambda>b. bl_ClearPublished (bl_ClearObserved b))"

definition ir_Observe :: "'c intra_reader \<Rightarrow> ('m, 'c) blocker_manager \<Rightarrow> ('m, 'c) blocker_manager" where
  "ir_Observe = ir_with bl_Observe"

definition ir_SetHistoryDepth :: "u32 \<Rightarrow> 'c intra_reader \<Rightarrow> ('m, 'c) blocker_manager \<Rightarrow> ('m, 'c) blocker_manager" where
  "ir_SetHistoryDepth depth = ir_with (bl_set_capacity (unat depth))"

definition ir_Enqueue :: "'m \<Rightarrow> 'c intra_reader \<Rightarrow> ('m, 'c) blocker_manager \<Rightarrow> ('c \<times> 'm) list \<times> ('m, 'c) blocker_manager" where
  "ir_Enqueue m r bm = snd (bm_Publish (ir_type r) (ir_channel r) m bm)"

definition ir_Empty :: "'c intra_reader \<Rightarrow> ('m, 'c) blocker_manager \<Rightarrow> bool" where
  "ir_Empty r bm = (case GetBlocker (ir_type r) (ir_channel r) bm of Some b \<Rightarrow> bl_IsObservedEmpty b | None \<Rightarrow> True)"

definition ir_HasReceived :: "'c intra_reader \<Rightarrow> ('m, 'c) blocker_manager \<Rightarrow> bool" where
  "ir_HasReceived r bm = (case GetBlocker (ir_type r) (ir_channel r) bm of Some b \<Rightarrow> \<not> bl_IsPublishedEmpty b | None \<Rightarrow> False)"

definition ir_GetHistoryDepth :: "'c intra_reader \<Rightarrow> ('m, 'c) blocker_manager \<Rightarrow> u32" where
  "ir_GetHistoryDepth r bm = (case GetBlocker (ir_type r) (ir_channel r) bm of Some b \<Rightarrow> of_nat (bl_capacity b) | None \<Rightarrow> 0)"

definition ir_GetLatestObserved :: "'c intra_reader \<Rightarrow> ('m, 'c) blocker_manager \<Rightarrow> 'm option" where
  "ir_GetLatestObserved r bm = (case GetBlocker (ir_type r) (ir_channel r) bm of Some b \<Rightarrow> bl_GetLatestObservedPtr b | None \<Rightarrow> None)"

definition ir_GetOldestObserved :: "'c intra_reader \<Rightarrow> ('m, 'c) blocker_manager \<Rightarrow> 'm option" where
  "ir_GetOldestObserved r bm = (case GetBlocker (ir_type r) (ir_channel r) bm of Some b \<Rightarrow> bl_GetOldestObservedPtr b | None \<Rightarrow> None)"

text \<open>\<open>None\<close> is the failed check that there is a blocker.  \<^verbatim>\<open>End\<close> is \<^verbatim>\<open>ObservedBegin\<close>.\<close>

definition ir_Begin :: "'c intra_reader \<Rightarrow> ('m, 'c) blocker_manager \<Rightarrow> 'm list option" where
  "ir_Begin r bm = map_option bl_ObservedBegin (GetBlocker (ir_type r) (ir_channel r) bm)"

definition ir_End :: "'c intra_reader \<Rightarrow> ('m, 'c) blocker_manager \<Rightarrow> 'm list option" where
  "ir_End r bm = map_option bl_ObservedBegin (GetBlocker (ir_type r) (ir_channel r) bm)"

text \<open>The messages that the loop \<^verbatim>\<open>for (it = Begin(); it != End(); ++it)\<close> sees.\<close>

fun iterate :: "'m list \<Rightarrow> 'm list \<Rightarrow> 'm list" where
  "iterate [] stop = []"
| "iterate (m # it) stop = (if length (m # it) = length stop then [] else m # iterate it stop)"

record intra_writer =
  iw_init :: bool
  iw_channel :: string
  iw_type :: string

definition iw_Init :: "intra_writer \<Rightarrow> ('m, 'c) blocker_manager \<Rightarrow> bool \<times> intra_writer \<times> ('m, 'c) blocker_manager" where
  "iw_Init w bm =
     (if iw_init w then (True, w, bm)
      else (True, w\<lparr>iw_init := True\<rparr>, snd (GetOrCreateBlocker (iw_type w) 10 (iw_channel w) bm)))"

definition iw_Shutdown :: "intra_writer \<Rightarrow> intra_writer" where
  "iw_Shutdown w = (if \<not> iw_init w then w else w\<lparr>iw_init := False\<rparr>)"

definition iw_Write :: "'m \<Rightarrow> intra_writer \<Rightarrow> ('m, 'c) blocker_manager \<Rightarrow> bool \<times> ('c \<times> 'm) list \<times> ('m, 'c) blocker_manager" where
  "iw_Write m w bm = (if \<not> iw_init w then (False, [], bm) else bm_Publish (iw_type w) (iw_channel w) m bm)"

section \<open>A blocker holds the newest messages\<close>

lemma pop_back_while_take: "pop_back_while n q = take n q"
proof (induction n q rule: pop_back_while.induct)
  case (1 n q)
  show ?case
  proof (cases "n < length q")
    case True
    then have "pop_back_while n q = take n (butlast q)" using 1 by (subst pop_back_while.simps) simp
    then show ?thesis using True by (simp add: take_butlast)
  next
    case False
    then show ?thesis by (subst pop_back_while.simps) simp
  qed
qed

datatype 'm blocker_op = Publish 'm | Observe | ClearObserved | ClearPublished | SetCapacity nat

fun bl_do :: "'m blocker_op \<Rightarrow> ('m, 'c) blocker \<Rightarrow> ('m, 'c) blocker" where
  "bl_do (Publish m) b = snd (bl_Publish m b)"
| "bl_do Observe b = bl_Observe b"
| "bl_do ClearObserved b = bl_ClearObserved b"
| "bl_do ClearPublished b = bl_ClearPublished b"
| "bl_do (SetCapacity n) b = bl_set_capacity n b"

text \<open>
  What a blocker promises: the whole history since the last clear, how much of it may be seen, and the same as it
  was when last observed.
\<close>

record 'm blocker_spec =
  bs_history :: "'m list"
  bs_visible :: nat
  bs_capacity :: nat
  bs_seen :: "'m list"

definition spec_view :: "'m blocker_spec \<Rightarrow> 'm list" where "spec_view s = take (bs_visible s) (bs_history s)"

fun spec_do :: "'m blocker_op \<Rightarrow> 'm blocker_spec \<Rightarrow> 'm blocker_spec" where
  "spec_do (Publish m) s = s\<lparr>bs_history := m # bs_history s, bs_visible := min (bs_capacity s) (Suc (bs_visible s))\<rparr>"
| "spec_do Observe s = s\<lparr>bs_seen := spec_view s\<rparr>"
| "spec_do ClearObserved s = s\<lparr>bs_seen := []\<rparr>"
| "spec_do ClearPublished s = s\<lparr>bs_history := [], bs_visible := 0\<rparr>"
| "spec_do (SetCapacity n) s = s\<lparr>bs_capacity := n, bs_visible := min n (bs_visible s)\<rparr>"

definition bl_abs :: "('m, 'c) blocker \<Rightarrow> 'm blocker_spec \<Rightarrow> bool" where
  "bl_abs b s \<longleftrightarrow> bl_capacity b = bs_capacity s \<and> bl_published b = spec_view s \<and> bl_observed b = bs_seen s \<and>
     bs_visible s \<le> bs_capacity s \<and> bs_visible s \<le> length (bs_history s)"

lemma bl_abs_do: "bl_abs b s \<Longrightarrow> bl_abs (bl_do c b) (spec_do c s)"
  by (cases c) (auto simp: bl_abs_def spec_view_def bl_Publish_def bl_Enqueue_def bl_Observe_def bl_ClearObserved_def
      bl_ClearPublished_def bl_set_capacity_def pop_back_while_take Let_def min_def take_Cons')

lemma bl_abs_fold: "bl_abs b s \<Longrightarrow> bl_abs (fold bl_do cs b) (fold spec_do cs s)"
  by (induction cs arbitrary: b s) (auto intro: bl_abs_do)

section \<open>Behaviour of the readers of simulation mode\<close>

text \<open>A loop over the messages of a reader of simulation mode sees none: it stops where it starts.\<close>

lemma iterate_same [simp]: "iterate it it = []"
  by (cases it) auto

lemma iterate_all [simp]: "iterate it [] = it"
  by (induction it) auto

lemma intra_iteration_empty: "ir_Begin r bm = Some it \<Longrightarrow> ir_End r bm = Some stop \<Longrightarrow> iterate it stop = []"
  by (auto simp: ir_Begin_def ir_End_def)

lemma blocker_iteration: "iterate (bl_ObservedBegin b) (bl_ObservedEnd b) = bl_observed b"
  by (simp add: bl_ObservedBegin_def bl_ObservedEnd_def)

text \<open>When a writer is there first, the depth that a reader asks for has no effect.\<close>

lemma writer_first_fixes_depth:
  assumes "bm (iw_channel w) = None" "\<not> iw_init w" "\<not> ir_init r" "ir_channel r = iw_channel w" "ir_type r = iw_type w"
  defines "bm1 \<equiv> snd (snd (iw_Init w bm))"
  shows "ir_GetHistoryDepth r (snd (snd (ir_Init r bm1))) = 10"
  using assms by (simp add: iw_Init_def ir_Init_def bm_Subscribe_def GetOrCreateBlocker_def bl_Subscribe_def Blocker_def ir_GetHistoryDepth_def GetBlocker_def)

text \<open>
  A second reader of the same node and channel is refused, and when it is destroyed it takes the subscription of the
  first with it.
\<close>

lemma refused_reader_unsubscribes_other:
  assumes "bm (ir_channel r) = Some b" "bl_type b = ir_type r" "map_of (bl_callbacks b) (ir_node r) = Some other" "\<not> ir_init r"
  shows "\<exists>r' b'. ir_Init r bm = (False, r', bm) \<and> snd (ir_Shutdown r' bm) (ir_channel r) = Some b' \<and> map_of (bl_callbacks b') (ir_node r) = None"
proof -
  have "map_of (filter (\<lambda>e. fst e \<noteq> k) xs) k = None" for k and xs :: "(string \<times> 'c) list"
    by (auto simp: map_of_eq_None_iff)
  then show ?thesis
    using assms by (auto simp: ir_Init_def bm_Subscribe_def GetOrCreateBlocker_def bl_Subscribe_def fun_upd_idem ir_Shutdown_def
        bm_Unsubscribe_def GetBlocker_def bl_Unsubscribe_def)
qed

text \<open>A message goes to every reader of its channel.\<close>

lemma iw_Write_reaches_subscribers:
  assumes "iw_init w" "bm (iw_channel w) = Some b" "bl_type b = iw_type w" "(n, c) \<in> set (bl_callbacks b)"
  shows "\<exists>calls bm'. iw_Write m w bm = (True, calls, bm') \<and> (c, m) \<in> set calls"
  using assms by (force simp: iw_Write_def bm_Publish_def GetOrCreateBlocker_def bl_Publish_def bl_Enqueue_def bl_Notify_def Let_def)

section \<open>Properties\<close>

text \<open>
  Claim C21. A blocker shows the newest messages: after any series of operations the queue of published messages
  is the newest part, newest first, of all that was published since the last clear, as long as the capacity has allowed since, and the
  observed queue is what that was at the last \<^verbatim>\<open>Observe\<close>, whatever was published after it.
\<close>

theorem blocker_shows_newest:
  fixes ty cap and cs :: "'m blocker_op list" and b :: "('m, 'c) blocker"
  defines "b \<equiv> fold bl_do cs (Blocker ty cap)" and "s \<equiv> fold spec_do cs \<lparr>bs_history = [], bs_visible = 0, bs_capacity = cap, bs_seen = []\<rparr>"
  shows "bl_published b = take (bs_visible s) (bs_history s) \<and> bl_observed b = bs_seen s \<and> bs_visible s \<le> bs_capacity s"
proof -
  have "bl_abs (Blocker ty cap :: ('m, 'c) blocker) \<lparr>bs_history = [], bs_visible = 0, bs_capacity = cap, bs_seen = []\<rparr>"
    by (simp add: bl_abs_def Blocker_def spec_view_def)
  from bl_abs_fold [OF this, of cs] show ?thesis by (simp add: bl_abs_def spec_view_def s_def b_def)
qed

end
