(* ===== verification/Node_Endpoints.thy ===== *)
theory Node_Endpoints
  imports Peer_Discovery Hybrid_Transport Blockers
begin

text \<open>
  \<^verbatim>\<open>cyber/node/reader.h\<close>, \<^verbatim>\<open>reader_base.h\<close>, \<^verbatim>\<open>writer.h\<close> and \<^verbatim>\<open>cyber/transport/transport.h\<close>: the readers and writers that a node gives out,
  over the hybrid receivers and transmitters.  That both keep track of their peers is the interpretation of \<open>peer_set\<close> by either, from
  which it follows that an endpoint that has joined hears, or reaches, every peer of its channel.
\<close>

section \<open>Attributes\<close>

text \<open>The view that transport has of the attributes; a missing field reads as its default.\<close>

definition transport_attr :: "role_attributes \<Rightarrow> endpoint_attr" where
  "transport_attr a =
     \<lparr>ea_channel_name = field [] (attr_channel_name a), ea_channel_id = field 0 (attr_channel_id a), ea_message_type = field [] (attr_message_type a),
      ea_host_ip = field [] (attr_host_ip a), ea_process_id = field 0 (attr_process_id a), ea_id = field 0 (attr_id a),
      ea_qos = field QOS_PROFILE_DEFAULT (attr_qos_profile a)\<rparr>"

lemma transport_attr_sel [simp]:
  "ea_channel_name (transport_attr a) = field [] (attr_channel_name a)" "ea_id (transport_attr a) = field 0 (attr_id a)"
  "ea_host_ip (transport_attr a) = field [] (attr_host_ip a)" "ea_process_id (transport_attr a) = field 0 (attr_process_id a)"
  by (simp_all add: transport_attr_def)

lemma ea_id_known_as [simp]: "ea_id (transport_attr (known_as who i)) = i"
  by (simp add: field_def)

section \<open>Receivers and transmitters track their peers\<close>

definition rx_enable :: "rx_conf \<Rightarrow> role_attributes \<Rightarrow> 'c hybrid_receiver \<times> 'c rx_process \<Rightarrow> 'c hybrid_receiver \<times> 'c rx_process" where
  "rx_enable rc a = hr_Enable rc (transport_attr a)"

definition rx_disable :: "role_attributes \<Rightarrow> 'c hybrid_receiver \<times> 'c rx_process \<Rightarrow> 'c hybrid_receiver \<times> 'c rx_process" where
  "rx_disable a = hr_Disable (transport_attr a)"

definition tx_enable :: "'m tx_conf \<Rightarrow> role_attributes \<Rightarrow> 'm hybrid_transmitter \<times> ('c, 'm) medium \<Rightarrow> 'm hybrid_transmitter \<times> ('c, 'm) medium" where
  "tx_enable env a = ht_do env (True, transport_attr a)"

definition tx_disable :: "role_attributes \<Rightarrow> 'm hybrid_transmitter \<times> ('c, 'm) medium \<Rightarrow> 'm hybrid_transmitter \<times> ('c, 'm) medium" where
  "tx_disable a s = ht_Disable (transport_attr a) (fst s) (snd s)"

interpretation rx: peer_set "rx_enable rc" rx_disable who "hr_inv attr c cm (\<lambda>i. transport_attr (known_as who i))"
proof unfold_locales
  let ?of = "\<lambda>i. transport_attr (known_as who i)"
  fix E s i assume inv: "hr_inv attr c cm ?of E s"
  show "hr_inv attr c cm ?of (insert i E) (rx_enable rc (known_as who i) s)"
    using hr_inv_Enable [OF inv, of i rc] by (simp add: rx_enable_def field_def)
  show "hr_inv attr c cm ?of (E - {i}) (rx_disable (known_as who i) s)"
    using hr_inv_Disable [OF inv, of i] by (simp add: rx_disable_def field_def)
qed

text \<open>The readers of a set of ids that a transmitter with attributes \<open>attr\<close> reaches, by way.\<close>

definition live_peers :: "communication_mode \<Rightarrow> endpoint_attr \<Rightarrow> (u64 \<Rightarrow> endpoint_attr) \<Rightarrow> u64 set \<Rightarrow> (u64 \<times> optional_mode) set" where
  "live_peers cm attr attr_of E = {(i, m). i \<in> E \<and> GetRelation attr (attr_of i) \<noteq> NO_RELATION \<and> m = mapping_table cm (GetRelation attr (attr_of i))}"

lemma live_do_peers:
  assumes "ea_id (attr_of i) = i"
  shows "live_do cm attr (True, attr_of i) (live_peers cm attr attr_of E) = live_peers cm attr attr_of (insert i E)"
    and "live_do cm attr (False, attr_of i) (live_peers cm attr attr_of E) = live_peers cm attr attr_of (E - {i})"
  using assms by (auto simp: live_do_def live_peers_def Let_def)

interpretation tx: peer_set "tx_enable env" tx_disable who
  "\<lambda>E s. tx_inv env cm attr (live_peers cm attr (\<lambda>i. transport_attr (known_as who i)) E) (fst s)"
proof unfold_locales
  let ?of = "\<lambda>i. transport_attr (known_as who i)"
  fix E i and s :: "'a hybrid_transmitter \<times> ('b, 'a) medium"
  assume inv: "tx_inv env cm attr (live_peers cm attr ?of E) (fst s)"
  show "tx_inv env cm attr (live_peers cm attr ?of (insert i E)) (fst (tx_enable env (known_as who i) s))"
    using tx_inv_Enable [OF inv, of "?of i"] live_do_peers(1) [where attr_of = ?of and i = i and cm = cm and attr = attr and E = E] by (simp add: tx_enable_def ht_do_def field_def)
  show "tx_inv env cm attr (live_peers cm attr ?of (E - {i})) (fst (tx_disable (known_as who i) s))"
    using tx_inv_Disable [OF inv, of "?of i" "snd s"] live_do_peers(2) [where attr_of = ?of and i = i and cm = cm and attr = attr and E = E] by (simp add: tx_disable_def field_def)
qed

lemma rx_tracks_start: "hr_inv attr c (ObtainConfig conf) attr_of {} (HybridReceiver conf attr c, new_process host n)"
  by (rule hr_inv_start)

lemma tx_tracks_start:
  "rtps_ready env attr \<Longrightarrow> tx_inv env (ObtainConfig conf) attr (live_peers (ObtainConfig conf) attr attr_of {}) (HybridTransmitter env conf attr ident)"
  using tx_inv_start [of env attr conf ident] by (simp add: live_peers_def)

lemma same_channel_related: "attr_channel_name a = Some (ea_channel_name attr) \<Longrightarrow> GetRelation attr (transport_attr a) \<noteq> NO_RELATION"
  by (simp add: GetRelation_def field_def)

section \<open>Properties of discovery\<close>

text \<open>
  Claim C6. A reader that has joined misses no writer: however joins and leaves of other endpoints interleave with the joining of the
  reader, once it has joined and no announcement is on its way, a message of any writer that the channel manager has for the channel
  arrives, on the way that fits the place of the writer, exactly once.
\<close>

theorem reader_misses_no_writer:
  assumes "(discovery_step ROLE_WRITER channel_id (ea_channel_name attr) who (rx_enable rc) rx_disable)\<^sup>*\<^sup>*
      (discovery_start (started_manager h p) (HybridReceiver conf attr c, new_process host n)) d"
    and "di_phase d = Joined" "di_pending d = []" "di_calls d = []"
    and "a \<in> set (GetWritersOfChannel channel_id (ea_channel_name attr) [] (di_manager d))" "attr_channel_name a = Some (ea_channel_name attr)"
    and "attr_id a = Some (hash_id (mi_sender_id info))" "parse bs = Some m"
    and "w = way_of (mapping_table (ObtainConfig conf) (GetRelation attr (transport_attr a)))"
  shows "arrive tr parse hash_id w attr m bs info (snd (di_peers d)) = [(c, m, info)]"
proof -
  let ?of = "\<lambda>i. transport_attr (known_as who i)"
  have q: "a \<in> set (peers_of_channel ROLE_WRITER channel_id (ea_channel_name attr) (di_manager d))" using assms(5) by (simp add: peers_of_channel_def)
  obtain E i where t: "hr_inv attr c (ObtainConfig conf) ?of E (di_peers d)" and i: "a = known_as who i" "i \<in> E"
    using rx.no_peer_missed [OF assms(1) disjI1 [OF refl] rx_tracks_start assms(2-4) q assms(6)] by blast
  have ok: "proc_ok attr (heard_table attr c (ObtainConfig conf) ?of E) (snd (di_peers d))" using t by (simp add: hr_inv_def)
  have "hash_id (mi_sender_id info) = i" using i(1) assms(7) by simp
  then show ?thesis
    using arrive_table [OF ok, of parse bs m tr hash_id w info] assms(8) i same_channel_related [OF assms(6)] assms(9)
    by (simp add: heard_table_def reach_def)
qed


section \<open>Transport\<close>

record transport =
  tp_is_shutdown :: bool
  tp_participant :: bool

text \<open>The attributes with which an endpoint of the transport is made; \<open>ident\<close> hashes to \<open>fresh_id\<close>.\<close>

definition fill_qos :: "role_attributes \<Rightarrow> role_attributes" where
  "fill_qos a = (if attr_qos_profile a = None then a\<lparr>attr_qos_profile := Some QOS_PROFILE_DEFAULT\<rparr> else a)"

definition Endpoint :: "string \<Rightarrow> int \<Rightarrow> u64 \<Rightarrow> role_attributes \<Rightarrow> role_attributes" where
  "Endpoint host pid fresh_id a =
     (let a = (if attr_host_name a = None then a\<lparr>attr_host_name := Some host\<rparr> else a);
          a = (if attr_process_id a = None then a\<lparr>attr_process_id := Some pid\<rparr> else a)
      in if attr_id a = None then a\<lparr>attr_id := Some fresh_id\<rparr> else a)"

text \<open>\<open>None\<close> is the null pointer that is returned after \<^verbatim>\<open>Shutdown\<close>.\<close>

definition CreateTransmitter ::
  "'m tx_conf \<Rightarrow> communication_mode option \<Rightarrow> string \<Rightarrow> int \<Rightarrow> u8 list \<Rightarrow> role_attributes \<Rightarrow> optional_mode \<Rightarrow> transport \<Rightarrow>
   ('m hybrid_transmitter + sub_transmitter) option" where
  "CreateTransmitter env conf host pid ident attr mode tp =
     (if tp_is_shutdown tp then None
      else let attr = transport_attr (Endpoint host pid (tc_hash_id env ident) (fill_qos attr))
           in if mode = HYBRID then Some (Inl (HybridTransmitter env conf attr ident))
              else Some (Inr (sub_Enable env (make_transmitter env attr ident mode))))"

text \<open>The receiver, with the process whose dispatchers have its listener.\<close>

definition CreateReceiver ::
  "rx_conf \<Rightarrow> communication_mode option \<Rightarrow> string \<Rightarrow> int \<Rightarrow> u64 \<Rightarrow> role_attributes \<Rightarrow> 'c \<Rightarrow> optional_mode \<Rightarrow> transport \<Rightarrow> 'c rx_process \<Rightarrow>
   ('c hybrid_receiver option \<times> 'c rx_process) option" where
  "CreateReceiver rc conf host pid fresh_id attr listener mode tp p =
     (if tp_is_shutdown tp then None
      else let attr = transport_attr (Endpoint host pid fresh_id (fill_qos attr))
           in if mode = HYBRID then Some (Some (HybridReceiver conf attr listener), p)
              else Some (None, add_listener rc (way_of mode) attr listener p))"

text \<open>The dispatchers and the notifier of the process go down with it.\<close>

definition Transport_Shutdown :: "transport \<times> 'c rx_process \<times> notifier \<Rightarrow> transport \<times> 'c rx_process \<times> notifier" where
  "Transport_Shutdown s =
     (case s of (tp, p, nt) \<Rightarrow>
        if tp_is_shutdown tp then (tp, p, nt)
        else (tp\<lparr>tp_is_shutdown := True, tp_participant := False\<rparr>,
              p\<lparr>rp_intra := (rp_intra p)\<lparr>in_is_shutdown := True\<rparr>, rp_shm := sd_Shutdown (rp_shm p), rp_rtps := rd_Shutdown (rp_rtps p)\<rparr>,
              nt_Shutdown nt))"

text \<open>After it nothing is created any more; a reader of a channel without a receiver then has none to dereference.\<close>

lemma created_after_Shutdown:
  assumes "Transport_Shutdown (tp, p, nt) = (tp', p', nt')"
  shows "CreateTransmitter env conf host pid ident attr mode tp' = None" "CreateReceiver rc conf host pid fresh_id attr listener mode tp' p' = None"
  using assms by (auto simp: Transport_Shutdown_def CreateTransmitter_def CreateReceiver_def split: if_splits)

section \<open>Receivers are shared\<close>

text \<open>One receiver for each channel; receivers are numbered in the order they are made, \<open>None\<close> is a null pointer, which is kept too.\<close>

type_synonym receiver_map = "string \<rightharpoonup> u64 option"

definition GetReceiver :: "u64 option \<Rightarrow> role_attributes \<Rightarrow> receiver_map \<Rightarrow> u64 option \<times> receiver_map" where
  "GetReceiver created attr rm =
     (let name = field [] (attr_channel_name attr); rm = (if rm name = None then rm(name \<mapsto> created) else rm)
      in (the (rm name), rm))"

section \<open>Reader and writer\<close>

record 'm reader =
  rd_attr :: role_attributes
  rd_init :: bool
  rd_blocker :: "('m, unit) blocker"
  rd_pending_queue_size :: u32
  rd_has_func :: bool
  rd_croutine_name :: string
  rd_latest_recv :: "int option"
  rd_second_recv :: "int option"

definition Reader :: "role_attributes \<Rightarrow> bool \<Rightarrow> u32 \<Rightarrow> 'm reader" where
  "Reader attr func pending =
     \<lparr>rd_attr = attr, rd_init = False,
      rd_blocker = Blocker (field [] (attr_message_type attr)) (unat (qos_depth (field QOS_PROFILE_DEFAULT (attr_qos_profile attr)))),
      rd_pending_queue_size = pending, rd_has_func = func, rd_croutine_name = [], rd_latest_recv = None, rd_second_recv = None\<rparr>"

text \<open>Times are in nanoseconds, \<open>None\<close> for the -1.0 that says there was none.\<close>

definition Reader_Enqueue :: "int \<Rightarrow> 'm \<Rightarrow> 'm reader \<Rightarrow> 'm reader" where
  "Reader_Enqueue now m r =
     r\<lparr>rd_second_recv := rd_latest_recv r, rd_latest_recv := Some now, rd_blocker := snd (bl_Publish m (rd_blocker r))\<rparr>"

text \<open>What the coroutine of the reader does with a message: the reader, with the call of the user's function.\<close>

definition Reader_func :: "int \<Rightarrow> 'm \<Rightarrow> 'm reader \<Rightarrow> 'm list \<times> 'm reader" where
  "Reader_func now m r = (if rd_has_func r then [m] else [], Reader_Enqueue now m r)"

datatype node_error = Null_Receiver

text \<open>
  \<open>task_ok\<close> says whether the scheduler took the task, \<open>created\<close> is the id of the receiver that the transport makes when it is asked to.
  The reader then joins the topology, as in \<open>discovery_step\<close>.  Without a receiver the program fails.
\<close>

definition Reader_Init :: "bool \<Rightarrow> u64 option \<Rightarrow> 'm reader \<Rightarrow> receiver_map \<Rightarrow> node_error + (bool \<times> 'm reader \<times> receiver_map)" where
  "Reader_Init task_ok created r rm =
     (if rd_init r then Inr (True, r, rm)
      else let r = r\<lparr>rd_init := True, rd_croutine_name := field [] (attr_node_name (rd_attr r)) @ ''_'' @ field [] (attr_channel_name (rd_attr r))\<rparr>
           in if \<not> task_ok then Inr (False, r\<lparr>rd_init := False\<rparr>, rm)
              else case GetReceiver created (rd_attr r) rm of
                     (None, rm) \<Rightarrow> Inl Null_Receiver
                   | (Some i, rm) \<Rightarrow> Inr (True, r\<lparr>rd_attr := (rd_attr r)\<lparr>attr_id := Some i\<rparr>\<rparr>, rm))"

text \<open>The name of the task that is removed, if one is.\<close>

definition Reader_Shutdown :: "'m reader \<Rightarrow> string option \<times> 'm reader" where
  "Reader_Shutdown r =
     (if \<not> rd_init r then (None, r)
      else (if rd_croutine_name r = [] then None else Some (rd_croutine_name r), r\<lparr>rd_init := False\<rparr>))"

definition Reader_with :: "(('m, unit) blocker \<Rightarrow> ('m, unit) blocker) \<Rightarrow> 'm reader \<Rightarrow> 'm reader" where
  "Reader_with f r = r\<lparr>rd_blocker := f (rd_blocker r)\<rparr>"

definition Reader_Observe :: "'m reader \<Rightarrow> 'm reader" where "Reader_Observe = Reader_with bl_Observe"
definition Reader_ClearData :: "'m reader \<Rightarrow> 'm reader" where "Reader_ClearData = Reader_with (\<lambda>b. bl_ClearObserved (bl_ClearPublished b))"
definition Reader_SetHistoryDepth :: "u32 \<Rightarrow> 'm reader \<Rightarrow> 'm reader" where "Reader_SetHistoryDepth depth = Reader_with (bl_set_capacity (unat depth))"
definition Reader_GetHistoryDepth :: "'m reader \<Rightarrow> u32" where "Reader_GetHistoryDepth r = of_nat (bl_capacity (rd_blocker r))"
definition Reader_HasReceived :: "'m reader \<Rightarrow> bool" where "Reader_HasReceived r \<longleftrightarrow> \<not> bl_IsPublishedEmpty (rd_blocker r)"
definition Reader_Empty :: "'m reader \<Rightarrow> bool" where "Reader_Empty r = bl_IsObservedEmpty (rd_blocker r)"
definition Reader_GetLatestObserved :: "'m reader \<Rightarrow> 'm option" where "Reader_GetLatestObserved r = bl_GetLatestObservedPtr (rd_blocker r)"
definition Reader_GetOldestObserved :: "'m reader \<Rightarrow> 'm option" where "Reader_GetOldestObserved r = bl_GetOldestObservedPtr (rd_blocker r)"

definition Reader_GetDelay :: "int \<Rightarrow> 'm reader \<Rightarrow> int option" where
  "Reader_GetDelay now r =
     (case rd_latest_recv r of
        None \<Rightarrow> None
      | Some t \<Rightarrow> (case rd_second_recv r of None \<Rightarrow> Some (now - t) | Some u \<Rightarrow> Some (max (now - t) (t - u))))"

definition Reader_HasWriter :: "(string \<Rightarrow> u64) \<Rightarrow> 'm reader \<Rightarrow> channel_manager \<Rightarrow> bool" where
  "Reader_HasWriter channel_id r cm = (if \<not> rd_init r then False else HasWriter channel_id (field [] (attr_channel_name (rd_attr r))) cm)"

definition Reader_GetWriters :: "(string \<Rightarrow> u64) \<Rightarrow> role_attributes list \<Rightarrow> 'm reader \<Rightarrow> channel_manager \<Rightarrow> role_attributes list" where
  "Reader_GetWriters channel_id out r cm =
     (if \<not> rd_init r then out else GetWritersOfChannel channel_id (field [] (attr_channel_name (rd_attr r))) out cm)"

text \<open>\<open>wr_info\<close> is the \<^verbatim>\<open>msg_info_\<close> of the transmitter, which numbers the messages.\<close>

record writer =
  wr_attr :: role_attributes
  wr_init :: bool
  wr_info :: message_info

definition Writer :: "role_attributes \<Rightarrow> writer" where
  "Writer attr = \<lparr>wr_attr = attr, wr_init = False, wr_info = \<lparr>mi_sender_id = [], mi_seq_num = 0, mi_spare_id = []\<rparr>\<rparr>"

text \<open>\<open>created\<close> is the identity of the transmitter that could be made, \<open>hash_id\<close> its hash.  The writer then joins the topology.\<close>

definition Writer_Init :: "(u8 list \<Rightarrow> u64) \<Rightarrow> u8 list option \<Rightarrow> writer \<Rightarrow> bool \<times> writer" where
  "Writer_Init hash_id created w =
     (if wr_init w then (True, w)
      else case created of
             None \<Rightarrow> (False, w)
           | Some ident \<Rightarrow> (True, w\<lparr>wr_init := True, wr_attr := (wr_attr w)\<lparr>attr_id := Some (hash_id ident)\<rparr>,
                                  wr_info := \<lparr>mi_sender_id = ident, mi_seq_num = 0, mi_spare_id = replicate ID_SIZE 0\<rparr>\<rparr>))"

definition Writer_Shutdown :: "writer \<Rightarrow> writer" where
  "Writer_Shutdown w = (if \<not> wr_init w then w else w\<lparr>wr_init := False\<rparr>)"

definition Writer_Write ::
  "'m tx_conf \<Rightarrow> 'm \<Rightarrow> writer \<Rightarrow> 'm hybrid_transmitter \<Rightarrow> ('c, 'm) medium \<Rightarrow>
   (shm_error + (bool \<times> writer \<times> 'm hybrid_transmitter \<times> ('c, 'm) medium)) option" where
  "Writer_Write env m w ht md =
     (if \<not> wr_init w then Some (Inr (False, w, ht, md))
      else let w = w\<lparr>wr_info := (wr_info w)\<lparr>mi_seq_num := mi_seq_num (wr_info w) + 1\<rparr>\<rparr>
           in case ht_Transmit env m (wr_info w) ht md of
                None \<Rightarrow> None
              | Some (Inl e) \<Rightarrow> Some (Inl e)
              | Some (Inr (ok, ht, md)) \<Rightarrow> Some (Inr (ok, w, ht, md)))"

definition Writer_HasReader :: "(string \<Rightarrow> u64) \<Rightarrow> writer \<Rightarrow> channel_manager \<Rightarrow> bool" where
  "Writer_HasReader channel_id w cm = (if \<not> wr_init w then False else HasReader channel_id (field [] (attr_channel_name (wr_attr w))) cm)"

definition Writer_GetReaders :: "(string \<Rightarrow> u64) \<Rightarrow> role_attributes list \<Rightarrow> writer \<Rightarrow> channel_manager \<Rightarrow> role_attributes list" where
  "Writer_GetReaders channel_id out w cm =
     (if \<not> wr_init w then out else GetReadersOfChannel channel_id (field [] (attr_channel_name (wr_attr w))) out cm)"

section \<open>Readers of one channel in one process\<close>

text \<open>Readers of the same channel get the same receiver, and with it the same id.\<close>

lemma readers_share_id:
  assumes "Reader_Init True c1 r1 rm = Inr (True, r1', rm1)" "\<not> rd_init r1"
    and "Reader_Init True c2 r2 rm1 = Inr (True, r2', rm2)" "\<not> rd_init r2"
    and "attr_channel_name (rd_attr r1) = attr_channel_name (rd_attr r2)"
  shows "\<exists>i. attr_id (rd_attr r1') = Some i \<and> attr_id (rd_attr r2') = Some i"
  using assms by (auto simp: Reader_Init_def GetReceiver_def Let_def split: if_splits option.splits)

text \<open>
  A transmitter that two readers with the same id have joined stops when one of them leaves.
\<close>

lemma shared_id_silenced:
  assumes "rtps_ready env attr" "ea_id a = ea_id b" "GetRelation attr a = rel" "GetRelation attr b = rel" "rel \<noteq> NO_RELATION"
    and "(mapping_table (ObtainConfig conf) rel, tx) \<in> set (ht_transmitters (fst (fold (ht_do env) [(True, a), (True, b), (False, a)] (HybridTransmitter env conf attr ident, md))))"
  shows "\<not> sub_enabled tx"
proof -
  let ?cm = "ObtainConfig conf" and ?es = "[(True, a), (True, b), (False, a)]"
  have "tx_inv env ?cm attr {} (fst (HybridTransmitter env conf attr ident, md))" using tx_inv_start [OF assms(1)] by simp
  from tx_inv_fold [OF this, of ?es] have "tx_inv env ?cm attr (fold (live_do ?cm attr) ?es {}) (fst (fold (ht_do env) ?es (HybridTransmitter env conf attr ident, md)))" .
  moreover have "fold (live_do ?cm attr) ?es {} = {}" using assms(2-5) by (simp add: live_do_def Let_def)
  ultimately show ?thesis using assms(6) by (auto simp: tx_inv_def)
qed

section \<open>Error property\<close>

text \<open>
  Claim C35. When two nodes of a process read the same channel and one of the readers shuts down, a writer that both had joined
  stops sending to the process, although the other reader is still there: the readers share the receiver of the channel and
  announce themselves under its id, and the writer forgets the id with the first that leaves.
\<close>

theorem leaving_reader_silences_other:
  assumes "rtps_ready env attr"
    and "Reader_Init True c1 r1 rm = Inr (True, r1', rm1)" "\<not> rd_init r1" "Reader_Init True c2 r2 rm1 = Inr (True, r2', rm2)" "\<not> rd_init r2"
    and "attr_channel_name (rd_attr r1) = Some (ea_channel_name attr)" "attr_channel_name (rd_attr r2) = Some (ea_channel_name attr)"
    and "attr_host_ip (rd_attr r1) = attr_host_ip (rd_attr r2)" "attr_process_id (rd_attr r1) = attr_process_id (rd_attr r2)"
    and "(mapping_table (ObtainConfig conf) (GetRelation attr (transport_attr (rd_attr r2'))), tx)
      \<in> set (ht_transmitters (fst (tx_disable (rd_attr r1') (tx_enable env (rd_attr r2') (tx_enable env (rd_attr r1') (HybridTransmitter env conf attr ident, md))))))"
  shows "\<not> sub_enabled tx \<and> rd_init r2'"
proof -
  have r: "rd_attr r1' = (rd_attr r1)\<lparr>attr_id := attr_id (rd_attr r1')\<rparr>" "rd_attr r2' = (rd_attr r2)\<lparr>attr_id := attr_id (rd_attr r2')\<rparr>" "rd_init r2'"
    using assms(2-5) by (auto simp: Reader_Init_def Let_def split: if_splits option.splits prod.splits)
  obtain i where i: "attr_id (rd_attr r1') = Some i" "attr_id (rd_attr r2') = Some i"
    using readers_share_id [OF assms(2-5)] assms(6,7) by auto
  let ?a = "transport_attr (rd_attr r1')" and ?b = "transport_attr (rd_attr r2')"
  have same: "ea_channel_name ?a = ea_channel_name attr" "ea_channel_name ?b = ea_channel_name attr" "ea_host_ip ?a = ea_host_ip ?b"
      "ea_process_id ?a = ea_process_id ?b" "ea_id ?a = ea_id ?b"
    using r(1,2) i assms(6-9) by (metis attr_id_known_as transport_attr_sel field_def option.case role_attributes.select_convs role_attributes.surjective role_attributes.update_convs)+
  then have rel: "GetRelation attr ?a = GetRelation attr ?b" "GetRelation attr ?b \<noteq> NO_RELATION" by (simp_all add: GetRelation_def)
  have "\<not> sub_enabled tx"
    by (rule shared_id_silenced [OF assms(1) same(5) rel(1) refl rel(2)]) (use assms(10) in \<open>simp add: tx_enable_def tx_disable_def ht_do_def\<close>)
  then show ?thesis using r(3) by simp
qed

section \<open>Witnesses\<close>

definition demo_role :: "int \<Rightarrow> role_attributes" where
  "demo_role pid = no_attributes\<lparr>attr_host_name := Some ''host'', attr_host_ip := Some ''10.0.0.1'', attr_process_id := Some pid, attr_node_name := Some ''node'',
     attr_node_id := Some 1, attr_channel_name := Some ''ch'', attr_channel_id := Some 7, attr_message_type := Some raw_TypeName\<rparr>"

definition demo_rx_conf :: rx_conf where "demo_rx_conf = \<lparr>rc_kind = PosixSegment, rc_sub_attr = demo_topic, rc_create = (\<lambda>_. True)\<rparr>"

lemma demo_role_known:
  "complete (known_as (\<lambda>_. demo_role 2) 6)" "attr_channel_name (known_as (\<lambda>_. demo_role 2) 6) = Some (ea_channel_name (demo_attr 1 4))"
  "attr_channel_id (known_as (\<lambda>_. demo_role 2) 6) = Some 7" "attr_id (known_as (\<lambda>_. demo_role 2) 6) = Some 6"
  "GetRelation (demo_attr 1 4) (transport_attr (known_as (\<lambda>_. demo_role 2) 6)) = DIFF_PROC"
  by (simp_all add: known_as_def demo_role_def no_attributes_def complete_def located_def demo_attr_def GetRelation_def field_def)

lemma mode_present: "tx_inv env cm attr L ht \<Longrightarrow> m \<in> set (modes cm) \<Longrightarrow> \<exists>tx. (m, tx) \<in> set (ht_transmitters ht)"
proof -
  assume "tx_inv env cm attr L ht" "m \<in> set (modes cm)"
  then have "m \<in> set (map fst (ht_transmitters ht))" by (simp add: tx_inv_def)
  then show ?thesis by auto
qed

lemma demo_ready: "rtps_ready demo_env (demo_attr 1 4)"
  by (simp add: rtps_ready_def demo_env_def demo_attr_def FillInPubAttr_def fill_topic_def QOS_PROFILE_DEFAULT_def CreateQosProfile_def QOS_MPS_SYSTEM_DEFAULT_def QOS_HISTORY_DEPTH_SYSTEM_DEFAULT_def Let_def)

theorem reader_misses_no_writer_witness:
  "\<exists>d. (discovery_step ROLE_WRITER (\<lambda>_. 7) (ea_channel_name (demo_attr 1 4)) (\<lambda>_. demo_role 2) (rx_enable demo_rx_conf) rx_disable)\<^sup>*\<^sup>*
      (discovery_start (started_manager ''host'' 1) (HybridReceiver None (demo_attr 1 4) ''reader'', new_process 3 (ConditionNotifier (Some Indicator)))) d \<and>
    arrive (\<lambda>_. raw_traits) (\<lambda>bs. Some (RawMessage bs 0)) (\<lambda>_. 6) Shm_Way (demo_attr 1 4) (RawMessage [1] 0) [1]
      \<lparr>mi_sender_id = [6], mi_seq_num = 1, mi_spare_id = []\<rparr> (snd (di_peers d)) = [(''reader'', RawMessage [1] 0, \<lparr>mi_sender_id = [6], mi_seq_num = 1, mi_spare_id = []\<rparr>)]"
proof -
  let ?a = "known_as (\<lambda>_. demo_role 2) 6" and ?name = "ea_channel_name (demo_attr 1 4)"
  let ?s = "(HybridReceiver None (demo_attr 1 4) ''reader'', new_process 3 (ConditionNotifier (Some Indicator)))"
  obtain d where run: "(discovery_step ROLE_WRITER (\<lambda>_. 7) ?name (\<lambda>_. demo_role 2) (rx_enable demo_rx_conf) rx_disable)\<^sup>*\<^sup>*
      (discovery_start (started_manager ''host'' 1) ?s) d"
    and d: "di_phase d = Joined" "di_pending d = []" "di_calls d = []" and a: "?a \<in> set (peers_of_channel ROLE_WRITER (\<lambda>_. 7) ?name (di_manager d))"
    using join_run [OF refl demo_role_known(1,2), of "\<lambda>_. 7" ROLE_WRITER "rx_enable demo_rx_conf" rx_disable "''host''" 1 ?s] demo_role_known(3) by blast
  have a': "?a \<in> set (GetWritersOfChannel (\<lambda>_. 7) ?name [] (di_manager d))" using a by (simp add: peers_of_channel_def)
  show ?thesis
    by (intro exI [of _ d] conjI run reader_misses_no_writer [OF run d a' demo_role_known(2)])
      (simp_all add: demo_role_known ObtainConfig_def CommunicationMode_def)
qed


theorem leaving_reader_silences_other_witness:
  "\<exists>(r1 :: nat reader) (r2 :: nat reader) rm tx. Reader_Init True (Some 6) (Reader (demo_role 2) False 1) Map.empty = Inr (True, r1, rm) \<and>
     Reader_Init True None (Reader (demo_role 2) True 1) rm = Inr (True, r2, rm) \<and>
     (SHM, tx) \<in> set (ht_transmitters (fst (tx_disable (rd_attr r1) (tx_enable demo_env (rd_attr r2) (tx_enable demo_env (rd_attr r1)
        (HybridTransmitter demo_env None (demo_attr 1 4) [4], demo_medium)))))) \<and> \<not> sub_enabled tx \<and> rd_init r2"
proof -
  define r1 :: "nat reader" where "r1 = (Reader (demo_role 2) False 1)\<lparr>rd_init := True, rd_croutine_name := ''node_ch'', rd_attr := (demo_role 2)\<lparr>attr_id := Some 6\<rparr>\<rparr>"
  define r2 :: "nat reader" where "r2 = (Reader (demo_role 2) True 1)\<lparr>rd_init := True, rd_croutine_name := ''node_ch'', rd_attr := (demo_role 2)\<lparr>attr_id := Some 6\<rparr>\<rparr>"
  define rm where "rm = [''ch'' \<mapsto> Some (6 :: u64)]"
  have i1: "Reader_Init True (Some 6) (Reader (demo_role 2) False 1) Map.empty = Inr (True, r1, rm)"
    by (simp add: Reader_Init_def Reader_def GetReceiver_def demo_role_def field_def r1_def rm_def Let_def)
  have i2: "Reader_Init True None (Reader (demo_role 2) True 1) rm = Inr (True, r2, rm)"
    by (simp add: Reader_Init_def Reader_def GetReceiver_def demo_role_def field_def r2_def rm_def Let_def)
  let ?s = "(HybridTransmitter demo_env None (demo_attr 1 4) [4], demo_medium)"
  let ?s' = "tx_disable (rd_attr r1) (tx_enable demo_env (rd_attr r2) (tx_enable demo_env (rd_attr r1) ?s))"
  have "tx_inv demo_env (ObtainConfig None) (demo_attr 1 4) {} (fst ?s)" using tx_inv_start [OF demo_ready, of None] by simp
  from tx_inv_fold [OF this, of "[(True, transport_attr (rd_attr r1)), (True, transport_attr (rd_attr r2)), (False, transport_attr (rd_attr r1))]"]
  obtain tx where tx: "(SHM, tx) \<in> set (ht_transmitters (fst ?s'))"
    using mode_present [of demo_env "ObtainConfig None" "demo_attr 1 4" _ "fst ?s'" SHM]
    by (auto simp: modes_def ObtainConfig_def CommunicationMode_def tx_enable_def tx_disable_def ht_do_def)
  have rel: "GetRelation (demo_attr 1 4) (transport_attr (rd_attr r2)) = DIFF_PROC"
    by (simp add: r2_def demo_role_def demo_attr_def GetRelation_def field_def)
  have "\<not> sub_enabled tx \<and> rd_init r2"
    by (rule leaving_reader_silences_other [OF demo_ready i1 _ i2, where conf = None and ident = "[4]" and md = demo_medium])
      (use tx rel in \<open>simp_all add: Reader_def demo_role_def demo_attr_def ObtainConfig_def CommunicationMode_def\<close>)
  then show ?thesis using i1 i2 tx by blast
qed

end
