(* ===== verification/Nodes.thy ===== *)
theory Nodes
  imports Node_Endpoints
begin

text \<open>
  \<^verbatim>\<open>cyber/node/node.h\<close>, \<^verbatim>\<open>node.cc\<close> and \<^verbatim>\<open>node_channel_impl.h\<close>: a node gives out the readers and writers of its channels, those of
  the blockers in simulation mode, and keeps its readers by channel.
\<close>

section \<open>Node\<close>

datatype 'm node_reader = Real_Reader "'m reader" | Sim_Reader "string intra_reader"
datatype node_writer = Real_Writer writer | Sim_Writer intra_writer

record 'm node =
  no_attr :: role_attributes
  no_reality :: bool
  no_readers :: "(string \<times> 'm node_reader) list"

text \<open>What a node reaches beside itself: the blockers of simulation mode and the receivers of the process.\<close>

record 'm node_world =
  nw_blockers :: "('m, string) blocker_manager"
  nw_receivers :: receiver_map

definition NodeChannelImpl :: "string \<Rightarrow> string \<Rightarrow> int \<Rightarrow> (string \<Rightarrow> u64) \<Rightarrow> bool \<Rightarrow> string \<Rightarrow> 'm node" where
  "NodeChannelImpl host ip pid node_id reality name =
     \<lparr>no_attr = no_attributes\<lparr>attr_host_name := Some host, attr_host_ip := Some ip, attr_process_id := Some pid, attr_node_name := Some name,
        attr_node_id := Some (node_id name)\<rparr>, no_reality = reality, no_readers = []\<rparr>"

text \<open>\<open>ty\<close> is the type of the messages of the function template, \<open>desc\<close> the description of a message type.\<close>

definition FillInAttr :: "(string \<Rightarrow> u64) \<Rightarrow> string \<Rightarrow> (string \<Rightarrow> string) \<Rightarrow> role_attributes \<Rightarrow> role_attributes \<Rightarrow> role_attributes" where
  "FillInAttr channel_id ty desc na attr =
     (let a = attr\<lparr>attr_host_name := Some (field [] (attr_host_name na)), attr_host_ip := Some (field [] (attr_host_ip na)),
                   attr_process_id := Some (field 0 (attr_process_id na)), attr_node_name := Some (field [] (attr_node_name na)),
                   attr_node_id := Some (field 0 (attr_node_id na)), attr_channel_id := Some (channel_id (field [] (attr_channel_name attr)))\<rparr>;
          a = (if attr_message_type a = None then a\<lparr>attr_message_type := Some ty\<rparr> else a);
          a = (if attr_proto_desc a = None then a\<lparr>attr_proto_desc := Some (desc (field [] (attr_message_type a)))\<rparr> else a)
      in if attr_qos_profile a = None then a\<lparr>attr_qos_profile := Some QOS_PROFILE_DEFAULT\<rparr> else a)"

definition node_IntraReader :: "role_attributes \<Rightarrow> string \<Rightarrow> string intra_reader" where
  "node_IntraReader a ty =
     \<lparr>ir_init = False, ir_channel = field [] (attr_channel_name a), ir_type = ty,
      ir_depth = qos_depth (field QOS_PROFILE_DEFAULT (attr_qos_profile a)), ir_node = field [] (attr_node_name a), ir_self = field [] (attr_node_name a)\<rparr>"

text \<open>A reader that could not be initialised is destroyed, which shuts it down.\<close>

definition CreateReader ::
  "(string \<Rightarrow> u64) \<Rightarrow> string \<Rightarrow> (string \<Rightarrow> string) \<Rightarrow> bool \<Rightarrow> u64 option \<Rightarrow> role_attributes \<Rightarrow> bool \<Rightarrow> u32 \<Rightarrow> 'm node \<Rightarrow> 'm node_world \<Rightarrow>
   node_error + ('m node_reader option \<times> 'm node_world)" where
  "CreateReader channel_id ty desc task_ok created attr func pending nd nw =
     (if field [] (attr_channel_name attr) = [] then Inr (None, nw)
      else let a = FillInAttr channel_id ty desc (no_attr nd) attr
           in if \<not> no_reality nd
              then case ir_Init (node_IntraReader a ty) (nw_blockers nw) of
                     (True, r, bm) \<Rightarrow> Inr (Some (Sim_Reader r), nw\<lparr>nw_blockers := bm\<rparr>)
                   | (False, r, bm) \<Rightarrow> Inr (None, nw\<lparr>nw_blockers := snd (ir_Shutdown r bm)\<rparr>)
              else case Reader_Init task_ok created (Reader a func pending) (nw_receivers nw) of
                     Inl e \<Rightarrow> Inl e
                   | Inr (True, r, rm) \<Rightarrow> Inr (Some (Real_Reader r), nw\<lparr>nw_receivers := rm\<rparr>)
                   | Inr (False, r, rm) \<Rightarrow> Inr (None, nw\<lparr>nw_receivers := rm\<rparr>))"

definition CreateWriter ::
  "(string \<Rightarrow> u64) \<Rightarrow> string \<Rightarrow> (string \<Rightarrow> string) \<Rightarrow> (u8 list \<Rightarrow> u64) \<Rightarrow> u8 list option \<Rightarrow> role_attributes \<Rightarrow> 'm node \<Rightarrow> 'm node_world \<Rightarrow>
   node_writer option \<times> 'm node_world" where
  "CreateWriter channel_id ty desc hash_id created attr nd nw =
     (if field [] (attr_channel_name attr) = [] then (None, nw)
      else let a = FillInAttr channel_id ty desc (no_attr nd) attr
           in if \<not> no_reality nd
              then case iw_Init \<lparr>iw_init = False, iw_channel = field [] (attr_channel_name a), iw_type = ty\<rparr> (nw_blockers nw) of
                     (ok, w, bm) \<Rightarrow> (if ok then Some (Sim_Writer w) else None, nw\<lparr>nw_blockers := bm\<rparr>)
              else case Writer_Init hash_id created (Writer a) of
                     (ok, w) \<Rightarrow> (if ok then Some (Real_Writer w) else None, nw))"

definition ReaderConfig_attr :: "string \<Rightarrow> qos_profile \<Rightarrow> role_attributes" where
  "ReaderConfig_attr channel qos = no_attributes\<lparr>attr_channel_name := Some channel, attr_qos_profile := Some qos\<rparr>"

text \<open>A node has at most one reader of a channel.  The other overloads fill the attributes from a name or a \<^verbatim>\<open>ReaderConfig\<close>.\<close>

definition Node_CreateReader ::
  "(string \<Rightarrow> u64) \<Rightarrow> string \<Rightarrow> (string \<Rightarrow> string) \<Rightarrow> bool \<Rightarrow> u64 option \<Rightarrow> role_attributes \<Rightarrow> bool \<Rightarrow> u32 \<Rightarrow> 'm node \<Rightarrow> 'm node_world \<Rightarrow>
   node_error + ('m node_reader option \<times> 'm node \<times> 'm node_world)" where
  "Node_CreateReader channel_id ty desc task_ok created attr func pending nd nw =
     (let name = field [] (attr_channel_name attr)
      in if map_of (no_readers nd) name \<noteq> None then Inr (None, nd, nw)
         else case CreateReader channel_id ty desc task_ok created attr func pending nd nw of
                Inl e \<Rightarrow> Inl e
              | Inr (None, nw) \<Rightarrow> Inr (None, nd, nw)
              | Inr (Some r, nw) \<Rightarrow> Inr (Some r, nd\<lparr>no_readers := (name, r) # no_readers nd\<rparr>, nw))"

definition reader_type :: "'m node_reader \<Rightarrow> string" where
  "reader_type r = (case r of Real_Reader r \<Rightarrow> bl_type (rd_blocker r) | Sim_Reader r \<Rightarrow> ir_type r)"

definition GetReader :: "string \<Rightarrow> string \<Rightarrow> 'm node \<Rightarrow> 'm node_reader option" where
  "GetReader ty name nd = (case map_of (no_readers nd) name of None \<Rightarrow> None | Some r \<Rightarrow> if reader_type r = ty then Some r else None)"

text \<open>Readers hold their own blockers or share those of simulation mode.\<close>

definition each_reader ::
  "('m reader \<Rightarrow> 'm reader) \<Rightarrow> (string intra_reader \<Rightarrow> ('m, string) blocker_manager \<Rightarrow> ('m, string) blocker_manager) \<Rightarrow>
   'm node \<Rightarrow> 'm node_world \<Rightarrow> 'm node \<times> 'm node_world" where
  "each_reader f g nd nw =
     (nd\<lparr>no_readers := map (\<lambda>(n, r). (n, case r of Real_Reader r \<Rightarrow> Real_Reader (f r) | Sim_Reader r \<Rightarrow> Sim_Reader r)) (no_readers nd)\<rparr>,
      nw\<lparr>nw_blockers := fold (\<lambda>(n, r). case r of Real_Reader r \<Rightarrow> (\<lambda>bm. bm) | Sim_Reader r \<Rightarrow> g r) (no_readers nd) (nw_blockers nw)\<rparr>)"

definition Node_Observe :: "'m node \<Rightarrow> 'm node_world \<Rightarrow> 'm node \<times> 'm node_world" where
  "Node_Observe = each_reader Reader_Observe ir_Observe"

definition Node_ClearData :: "'m node \<Rightarrow> 'm node_world \<Rightarrow> 'm node \<times> 'm node_world" where
  "Node_ClearData = each_reader Reader_ClearData ir_ClearData"

section \<open>What a node gives out\<close>

lemma FillInAttr_complete:
  assumes "attr_channel_name attr = Some name" "attr_id attr = Some i"
  shows "complete (FillInAttr channel_id ty desc na attr) \<and> attr_channel_id (FillInAttr channel_id ty desc na attr) = Some (channel_id name)"
  using assms by (auto simp: FillInAttr_def complete_def located_def field_def Let_def)

text \<open>The attributes under which a reader joins, once it is initialised, are all that discovery asks for.\<close>

lemma real_reader_can_join:
  assumes "CreateReader channel_id ty desc task_ok created attr func pending nd nw = Inr (Some (Real_Reader r), nw')"
  shows "complete (rd_attr r) \<and> channel_Check (rd_attr r) \<and> attr_channel_id (rd_attr r) = Some (channel_id (field [] (attr_channel_name attr))) \<and> rd_init r"
proof -
  let ?a = "FillInAttr channel_id ty desc (no_attr nd) attr"
  have "attr_channel_name attr \<noteq> None" using assms by (cases "attr_channel_name attr") (simp_all add: CreateReader_def field_def)
  then obtain name where n: "attr_channel_name attr = Some name" by blast
  obtain rm where "Reader_Init task_ok created (Reader ?a func pending) (nw_receivers nw) = Inr (True, r, rm)"
    using assms by (auto simp: CreateReader_def Let_def split: if_splits prod.splits bool.splits sum.splits)
  then obtain i where r: "rd_attr r = ?a\<lparr>attr_id := Some i\<rparr>" "rd_init r"
    by (auto simp: Reader_Init_def Reader_def Let_def split: if_splits prod.splits option.splits)
  show ?thesis unfolding r(1) using n r(2) by (auto simp: FillInAttr_def complete_def located_def channel_Check_def field_def Let_def)
qed

lemma one_reader_per_channel:
  assumes "Node_CreateReader channel_id ty desc task_ok created attr func pending nd nw = Inr (r, nd', nw')" "distinct (map fst (no_readers nd))"
  shows "distinct (map fst (no_readers nd'))"
  using assms by (auto simp: Node_CreateReader_def Let_def map_of_eq_None_iff split: if_splits sum.splits option.splits)

lemma CreateReader_type:
  assumes "CreateReader channel_id ty desc task_ok created attr func pending nd nw = Inr (Some r, nw')" "attr_message_type attr = None"
  shows "reader_type r = ty"
proof (cases r)
  case (Real_Reader rr)
  let ?a = "FillInAttr channel_id ty desc (no_attr nd) attr"
  obtain rm where "Reader_Init task_ok created (Reader ?a func pending) (nw_receivers nw) = Inr (True, rr, rm)"
    using assms(1) Real_Reader by (auto simp: CreateReader_def Let_def split: if_splits prod.splits bool.splits sum.splits)
  then have "rd_blocker rr = rd_blocker (Reader ?a func pending :: 'a reader)"
    by (auto simp: Reader_Init_def Let_def split: if_splits prod.splits option.splits)
  moreover have "attr_message_type ?a = Some ty" using assms(2) by (simp add: FillInAttr_def Let_def)
  ultimately show ?thesis using Real_Reader by (simp add: reader_type_def Reader_def Blocker_def field_def)
next
  case (Sim_Reader ir)
  let ?i = "node_IntraReader (FillInAttr channel_id ty desc (no_attr nd) attr) ty"
  obtain bm where "ir_Init ?i (nw_blockers nw) = (True, ir, bm)"
    using assms(1) Sim_Reader by (auto simp: CreateReader_def Let_def split: if_splits prod.splits bool.splits sum.splits)
  then have "ir_type ir = ir_type ?i" by (auto simp: ir_Init_def split: if_splits prod.splits)
  then show ?thesis using Sim_Reader by (simp add: reader_type_def node_IntraReader_def)
qed

lemma created_reader_found:
  assumes "Node_CreateReader channel_id ty desc task_ok created attr func pending nd nw = Inr (Some r, nd', nw')" "attr_message_type attr = None"
  shows "GetReader ty (field [] (attr_channel_name attr)) nd' = Some r"
proof -
  have "map_of (no_readers nd') (field [] (attr_channel_name attr)) = Some r"
    and "CreateReader channel_id ty desc task_ok created attr func pending nd nw = Inr (Some r, nw')"
    using assms(1) by (auto simp: Node_CreateReader_def Let_def split: if_splits sum.splits option.splits)
  then show ?thesis using CreateReader_type assms(2) by (simp add: GetReader_def)
qed

end
