(* ===== verification/Services.thy ===== *)
theory Services
  imports Byte_Codec
begin

text \<open>
  \<^verbatim>\<open>cyber/service\<close>: clients send requests to a service and get its responses.  All clients of a service share its channel of
  responses, so each sees the responses for all; a client finds its own by its identity and the sequence number of the request.
  \<open>cb\<close> is the callback of the service, with what it keeps as its state.
\<close>

section \<open>Client\<close>

text \<open>Futures are numbered in the order they are made; \<open>cl_futures\<close> has their values once they are set.\<close>

record 'resp client =
  cl_is_init :: bool
  cl_writer_id :: "u8 list"
  cl_sequence_number :: u64
  cl_pending :: "u64 \<rightharpoonup> nat"
  cl_futures :: "'resp option list"

text \<open>The identity of a client is made up anew until \<^verbatim>\<open>Init\<close> takes that of the transmitter.\<close>

definition Client :: "u8 list \<Rightarrow> 'resp client" where
  "Client ident = \<lparr>cl_is_init = False, cl_writer_id = ident, cl_sequence_number = 0, cl_pending = Map.empty, cl_futures = []\<rparr>"

text \<open>\<open>tx\<close> is the identity of the transmitter, if it could be created; \<open>rx\<close> says whether the receiver could.\<close>

definition Client_Init :: "u8 list option \<Rightarrow> bool \<Rightarrow> 'resp client \<Rightarrow> bool \<times> 'resp client" where
  "Client_Init tx rx cl = (case tx of
       None \<Rightarrow> (False, cl)
     | Some ident \<Rightarrow> (rx, cl\<lparr>cl_writer_id := ident, cl_is_init := rx\<rparr>))"

text \<open>The future, if there is one, with what is transmitted.\<close>

definition AsyncSendRequest :: "'req \<Rightarrow> 'resp client \<Rightarrow> (nat \<times> 'req \<times> message_info) option \<times> 'resp client" where
  "AsyncSendRequest request cl =
     (if \<not> cl_is_init cl then (None, cl)
      else let seq = cl_sequence_number cl + 1;
               info = \<lparr>mi_sender_id = cl_writer_id cl, mi_seq_num = seq, mi_spare_id = cl_writer_id cl\<rparr>;
               f = length (cl_futures cl)
           in (Some (f, request, info),
               cl\<lparr>cl_sequence_number := seq, cl_futures := cl_futures cl @ [None], cl_pending := (cl_pending cl)(mi_seq_num info \<mapsto> f)\<rparr>))"

text \<open>The future whose callback is called, if any.\<close>

definition HandleResponse :: "'resp \<Rightarrow> message_info \<Rightarrow> 'resp client \<Rightarrow> nat option \<times> 'resp client" where
  "HandleResponse response info cl =
     (if mi_spare_id info \<noteq> cl_writer_id cl then (None, cl)
      else case cl_pending cl (mi_seq_num info) of
             None \<Rightarrow> (None, cl)
           | Some f \<Rightarrow> (Some f, cl\<lparr>cl_pending := (cl_pending cl)(mi_seq_num info := None), cl_futures := (cl_futures cl)[f := Some response]\<rparr>))"

text \<open>What \<^verbatim>\<open>SendRequest\<close> returns when its wait for the future ends.\<close>

definition SendRequest_result :: "nat option \<Rightarrow> 'resp client \<Rightarrow> 'resp option" where
  "SendRequest_result future cl = (case future of None \<Rightarrow> None | Some f \<Rightarrow> cl_futures cl ! f)"

section \<open>Service\<close>

record ('req, 's) service =
  sv_receiver :: bool
  sv_inited :: bool
  sv_id :: "u8 list"
  sv_tasks :: "('req \<times> message_info) list"
  sv_state :: 's

definition Service :: "u8 list \<Rightarrow> 's \<Rightarrow> ('req, 's) service" where
  "Service ident s = \<lparr>sv_receiver = False, sv_inited = False, sv_id = ident, sv_tasks = [], sv_state = s\<rparr>"

text \<open>\<open>None\<close> is the end of the program: the running thread is assigned to a second time.\<close>

definition Service_Init :: "bool \<Rightarrow> bool \<Rightarrow> ('req, 's) service \<Rightarrow> (bool \<times> ('req, 's) service) option" where
  "Service_Init tx rx sv =
     (if sv_receiver sv then Some (True, sv)
      else if \<not> tx then Some (False, sv)
      else if sv_inited sv then None
      else if rx then Some (True, sv\<lparr>sv_receiver := True, sv_inited := True\<rparr>)
      else Some (False, sv\<lparr>sv_inited := True\<rparr>))"

definition Service_Enqueue :: "'req \<times> message_info \<Rightarrow> ('req, 's) service \<Rightarrow> ('req, 's) service" where
  "Service_Enqueue task sv = sv\<lparr>sv_tasks := sv_tasks sv @ [task]\<rparr>"

definition Service_destroy :: "('req, 's) service \<Rightarrow> ('req, 's) service" where
  "Service_destroy sv = sv\<lparr>sv_inited := False, sv_tasks := []\<rparr>"

text \<open>\<^verbatim>\<open>HandleRequest\<close> with \<^verbatim>\<open>SendResponse\<close>: what is transmitted.\<close>

definition HandleRequest ::
  "('s \<Rightarrow> 'req \<Rightarrow> 'resp \<times> 's) \<Rightarrow> 'req \<Rightarrow> message_info \<Rightarrow> ('req, 's) service \<Rightarrow> ('resp \<times> message_info) option \<times> ('req, 's) service" where
  "HandleRequest cb request info sv =
     (if \<not> sv_receiver sv then (None, sv)
      else case cb (sv_state sv) request of
             (response, s) \<Rightarrow> (Some (response, info\<lparr>mi_sender_id := sv_id sv\<rparr>), sv\<lparr>sv_state := s\<rparr>))"

text \<open>A round of \<^verbatim>\<open>Process\<close>; \<open>None\<close> when it waits or has left the loop.\<close>

definition Process_round ::
  "('s \<Rightarrow> 'req \<Rightarrow> 'resp \<times> 's) \<Rightarrow> ('req, 's) service \<Rightarrow> (('resp \<times> message_info) option \<times> ('req, 's) service) option" where
  "Process_round cb sv =
     (if \<not> sv_inited sv then None
      else case sv_tasks sv of
             [] \<Rightarrow> None
           | (request, info) # rest \<Rightarrow> Some (HandleRequest cb request info (sv\<lparr>sv_tasks := rest\<rparr>)))"

text \<open>Once \<^verbatim>\<open>Init\<close> has failed for want of a receiver, trying again ends the program.\<close>

lemma failed_Init_repeated: "Service_Init True False sv = Some (False, sv') \<Longrightarrow> \<not> sv_inited sv \<Longrightarrow> Service_Init True rx sv' = None"
  by (auto simp: Service_Init_def split: if_splits)

text \<open>Requests that wait are answered in the order they came.\<close>

lemma Process_round_first:
  assumes "sv_inited sv" "sv_receiver sv" "sv_tasks sv = (request, info) # rest"
  shows "\<exists>sv'. Process_round cb sv = Some (Some (fst (cb (sv_state sv) request), info\<lparr>mi_sender_id := sv_id sv\<rparr>), sv') \<and>
    sv_tasks sv' = rest \<and> sv_state sv' = snd (cb (sv_state sv) request)"
  using assms by (simp add: Process_round_def HandleRequest_def split: prod.splits)

section \<open>Clients and a service over a network\<close>

text \<open>
  A message that was sent may arrive any number of times, late or never.  \<open>w_asked\<close> are the requests of each client by the number of
  the future, \<open>w_called\<close> the futures whose callbacks were called.
\<close>

record ('req, 'resp, 's) world =
  w_clients :: "nat \<Rightarrow> 'resp client"
  w_service :: "('req, 's) service"
  w_requests :: "('req \<times> message_info) set"
  w_responses :: "('resp \<times> message_info) set"
  w_asked :: "nat \<Rightarrow> 'req list"
  w_called :: "(nat \<times> nat) list"

inductive net_step :: "('s \<Rightarrow> 'req \<Rightarrow> 'resp \<times> 's) \<Rightarrow> ('req, 'resp, 's) world \<Rightarrow> ('req, 'resp, 's) world \<Rightarrow> bool" for cb where
  Send: "AsyncSendRequest request (w_clients w c) = (Some (f, request', info), cl) \<Longrightarrow>
    net_step cb w (w\<lparr>w_clients := (w_clients w)(c := cl), w_requests := insert (request', info) (w_requests w),
      w_asked := (w_asked w)(c := w_asked w c @ [request])\<rparr>)"
| Request: "(request, info) \<in> w_requests w \<Longrightarrow> net_step cb w (w\<lparr>w_service := Service_Enqueue (request, info) (w_service w)\<rparr>)"
| Handle: "Process_round cb (w_service w) = Some (r, sv) \<Longrightarrow>
    net_step cb w (w\<lparr>w_service := sv, w_responses := set_option r \<union> w_responses w\<rparr>)"
| Respond: "(response, info) \<in> w_responses w \<Longrightarrow> HandleResponse response info (w_clients w c) = (f, cl) \<Longrightarrow>
    net_step cb w (w\<lparr>w_clients := (w_clients w)(c := cl), w_called := (case f of None \<Rightarrow> w_called w | Some k \<Rightarrow> (c, k) # w_called w)\<rparr>)"
| Destroy: "net_step cb w (w\<lparr>w_service := Service_destroy (w_service w)\<rparr>)"

definition start :: "(nat \<Rightarrow> u8 list) \<Rightarrow> ('req, 's) service \<Rightarrow> ('req, 'resp, 's) world" where
  "start ident sv = \<lparr>w_clients = (\<lambda>c. snd (Client_Init (Some (ident c)) True (Client []))), w_service = sv, w_requests = {}, w_responses = {},
     w_asked = (\<lambda>_. []), w_called = []\<rparr>"

section \<open>Invariant\<close>

text \<open>A message belongs to the request of future \<open>k\<close> of client \<open>c\<close>.\<close>

definition about :: "(nat \<Rightarrow> u8 list) \<Rightarrow> nat \<Rightarrow> nat \<Rightarrow> message_info \<Rightarrow> bool" where
  "about ident c k info \<longleftrightarrow> mi_spare_id info = ident c \<and> mi_seq_num info = of_nat (Suc k)"

definition request_ok :: "(nat \<Rightarrow> u8 list) \<Rightarrow> (nat \<Rightarrow> 'req list) \<Rightarrow> 'req \<times> message_info \<Rightarrow> bool" where
  "request_ok ident asked m \<longleftrightarrow> (\<exists>c k. k < length (asked c) \<and> fst m = asked c ! k \<and> about ident c k (snd m))"

definition response_ok ::
  "('s \<Rightarrow> 'req \<Rightarrow> 'resp \<times> 's) \<Rightarrow> (nat \<Rightarrow> u8 list) \<Rightarrow> (nat \<Rightarrow> 'req list) \<Rightarrow> 'resp \<times> message_info \<Rightarrow> bool" where
  "response_ok cb ident asked m \<longleftrightarrow> (\<exists>c k s. k < length (asked c) \<and> fst m = fst (cb s (asked c ! k)) \<and> about ident c k (snd m))"

definition client_ok ::
  "('s \<Rightarrow> 'req \<Rightarrow> 'resp \<times> 's) \<Rightarrow> (nat \<Rightarrow> u8 list) \<Rightarrow> 'req list \<Rightarrow> (nat \<times> nat) list \<Rightarrow> nat \<Rightarrow> 'resp client \<Rightarrow> bool" where
  "client_ok cb ident asked called c cl \<longleftrightarrow> cl_writer_id cl = ident c \<and> cl_sequence_number cl = of_nat (length asked) \<and> length (cl_futures cl) = length asked \<and>
     (\<forall>q f. cl_pending cl q = Some f \<longrightarrow> q = of_nat (Suc f) \<and> f < length asked \<and> (c, f) \<notin> set called) \<and>
     (\<forall>k r. k < length asked \<and> cl_futures cl ! k = Some r \<longrightarrow> (\<exists>s. r = fst (cb s (asked ! k))))"

definition net_inv :: "('s \<Rightarrow> 'req \<Rightarrow> 'resp \<times> 's) \<Rightarrow> (nat \<Rightarrow> u8 list) \<Rightarrow> ('req, 'resp, 's) world \<Rightarrow> bool" where
  "net_inv cb ident w \<longleftrightarrow> (\<forall>c. client_ok cb ident (w_asked w c) (w_called w) c (w_clients w c)) \<and>
     (\<forall>m\<in>w_requests w. request_ok ident (w_asked w) m) \<and> (\<forall>m\<in>set (sv_tasks (w_service w)). request_ok ident (w_asked w) m) \<and>
     (\<forall>m\<in>w_responses w. response_ok cb ident (w_asked w) m) \<and> distinct (w_called w) \<and>
     (\<forall>c k. (c, k) \<in> set (w_called w) \<longrightarrow> k < length (w_asked w c))"

lemma net_inv_start: "sv_tasks sv = [] \<Longrightarrow> net_inv cb ident (start ident sv)"
  by (simp add: net_inv_def start_def client_ok_def Client_def Client_Init_def)

lemma nth_more: "k < length (asked c) \<Longrightarrow> k < length ((asked(d := asked d @ [r])) c) \<and> (asked(d := asked d @ [r])) c ! k = asked c ! k"
  by (auto simp: nth_append)

lemma request_ok_more: "request_ok ident asked m \<Longrightarrow> request_ok ident (asked(d := asked d @ [r])) m"
  unfolding request_ok_def using nth_more [of _ asked _ d r] by metis

lemma response_ok_more: "response_ok cb ident asked m \<Longrightarrow> response_ok cb ident (asked(d := asked d @ [r])) m"
  unfolding response_ok_def using nth_more [of _ asked _ d r] by metis

text \<open>Sequence numbers tell requests apart while there are less than \<open>2 ^ 64\<close>.\<close>

lemma seq_inj: "Suc j < 2 ^ 64 \<Longrightarrow> Suc k < 2 ^ 64 \<Longrightarrow> (of_nat (Suc j) :: u64) = of_nat (Suc k) \<Longrightarrow> j = k"
  using unat_of_nat_u64 by (metis Suc_inject)

lemma net_inv_Send:
  assumes inv: "net_inv cb ident w" and s: "AsyncSendRequest request (w_clients w c) = (Some (f, request', info), cl)"
    and b: "length (w_asked w c) + 1 < 2 ^ 64"
  shows "net_inv cb ident (w\<lparr>w_clients := (w_clients w)(c := cl), w_requests := insert (request', info) (w_requests w),
      w_asked := (w_asked w)(c := w_asked w c @ [request])\<rparr>)"
proof -
  let ?cl = "w_clients w c" and ?a = "w_asked w c" and ?A = "(w_asked w)(c := w_asked w c @ [request])"
  have ok: "client_ok cb ident ?a (w_called w) c ?cl" using inv by (simp add: net_inv_def)
  let ?q = "of_nat (Suc (length ?a)) :: u64"
  have seq: "cl_sequence_number ?cl + 1 = ?q" using ok by (simp add: client_ok_def add.commute)
  have f: "f = length ?a" "request' = request" "info = \<lparr>mi_sender_id = ident c, mi_seq_num = ?q, mi_spare_id = ident c\<rparr>"
    "cl = ?cl\<lparr>cl_sequence_number := ?q, cl_futures := cl_futures ?cl @ [None], cl_pending := (cl_pending ?cl)(?q \<mapsto> length ?a)\<rparr>"
    using s ok unfolding AsyncSendRequest_def Let_def seq by (auto simp: client_ok_def split: if_splits)
  have new: "(c, length ?a) \<notin> set (w_called w)" using inv by (fastforce simp: net_inv_def)
  have "client_ok cb ident (?a @ [request]) (w_called w) c cl"
    using ok new unfolding client_ok_def f(4) by (auto simp: nth_append less_Suc_eq split: if_splits)
  moreover have "request_ok ident ?A (request', info)"
    unfolding request_ok_def by (intro exI [of _ c] exI [of _ "length ?a"]) (simp add: f about_def)
  ultimately show ?thesis
    using inv by (auto simp: net_inv_def intro: request_ok_more response_ok_more less_SucI)
qed

lemma client_ok_Respond:
  assumes ok: "client_ok cb ident asked called c cl" and r: "fst (cb s (asked ! k)) = response" "k < length asked" "about ident c k info"
    and h: "HandleResponse response info cl = (Some f, cl')" and b: "length asked < 2 ^ 64"
  shows "f = k \<and> (c, k) \<notin> set called \<and> client_ok cb ident asked ((c, k) # called) c cl'"
proof -
  have p: "cl_pending cl (mi_seq_num info) = Some f"
    and cl': "cl' = cl\<lparr>cl_pending := (cl_pending cl)(mi_seq_num info := None), cl_futures := (cl_futures cl)[f := Some response]\<rparr>"
    using h by (auto simp: HandleResponse_def split: if_splits option.splits)
  have q: "mi_seq_num info = of_nat (Suc f)" "f < length asked" "(c, f) \<notin> set called" using ok p by (auto simp: client_ok_def)
  have fk: "f = k" using seq_inj [of f k] q(1,2) r(2,3) b by (simp add: about_def)
  have "f' \<noteq> k" if "((cl_pending cl)(mi_seq_num info := None)) q' = Some f'" for q' f'
  proof
    assume "f' = k"
    then have "q' = mi_seq_num info" using that ok q(1) fk by (auto simp: client_ok_def split: if_splits)
    then show False using that by simp
  qed
  then have "client_ok cb ident asked ((c, k) # called) c cl'"
    using ok r(1,2) fk unfolding client_ok_def cl' by (auto simp: nth_list_update split: if_splits)
  then show ?thesis using fk q(3) by simp
qed

lemma client_ok_called: "client_ok cb ident asked called c cl \<Longrightarrow> c' \<noteq> c \<Longrightarrow> client_ok cb ident asked ((c', k) # called) c cl"
  by (auto simp: client_ok_def)

lemma net_inv_Respond:
  assumes inv: "net_inv cb ident w" and m: "(response, info) \<in> w_responses w" and h: "HandleResponse response info (w_clients w c) = (f, cl)"
    and b: "length (w_asked w c) < 2 ^ 64" and inj: "inj ident"
  shows "net_inv cb ident (w\<lparr>w_clients := (w_clients w)(c := cl), w_called := (case f of None \<Rightarrow> w_called w | Some k \<Rightarrow> (c, k) # w_called w)\<rparr>)"
proof (cases f)
  case None
  then have "cl = w_clients w c" using h by (auto simp: HandleResponse_def split: if_splits option.splits)
  then show ?thesis using inv None by simp
next
  case (Some f')
  have ok: "client_ok cb ident (w_asked w d) (w_called w) d (w_clients w d)" for d using inv by (simp add: net_inv_def)
  obtain d k s where r: "k < length (w_asked w d)" "response = fst (cb s (w_asked w d ! k))" "about ident d k info"
    using inv m by (fastforce simp: net_inv_def response_ok_def)
  have "mi_spare_id info = ident c" using h Some ok [of c] by (auto simp: HandleResponse_def client_ok_def split: if_splits)
  then have "d = c" using r(3) inj by (auto simp: about_def dest: injD)
  then have "f' = k \<and> (c, k) \<notin> set (w_called w) \<and> client_ok cb ident (w_asked w c) ((c, k) # w_called w) c cl"
    using client_ok_Respond [OF ok [of c], of s k response info f' cl] r h Some b by simp
  then show ?thesis using inv Some r(1) \<open>d = c\<close> client_ok_called [OF ok] by (auto simp: net_inv_def)
qed

lemma net_inv_Handle:
  assumes inv: "net_inv cb ident w" and h: "Process_round cb (w_service w) = Some (r, sv)"
  shows "net_inv cb ident (w\<lparr>w_service := sv, w_responses := set_option r \<union> w_responses w\<rparr>)"
proof -
  obtain q info rest where t: "sv_tasks (w_service w) = (q, info) # rest" "HandleRequest cb q info ((w_service w)\<lparr>sv_tasks := rest\<rparr>) = (r, sv)"
    using h by (auto simp: Process_round_def split: if_splits list.splits)
  have sv: "sv_tasks sv = rest" using t(2) by (auto simp: HandleRequest_def split: if_splits prod.splits)
  obtain c k where q: "k < length (w_asked w c)" "q = w_asked w c ! k" "about ident c k info"
    using inv t(1) by (fastforce simp: net_inv_def request_ok_def)
  have "response_ok cb ident (w_asked w) m" if "m \<in> set_option r" for m
  proof -
    have "m = (fst (cb (sv_state (w_service w)) q), info\<lparr>mi_sender_id := sv_id (w_service w)\<rparr>)"
      using that t(2) by (auto simp: HandleRequest_def split: if_splits prod.splits)
    then show ?thesis unfolding response_ok_def using q by (intro exI [of _ c] exI [of _ k] exI [of _ "sv_state (w_service w)"]) (simp add: about_def)
  qed
  then show ?thesis using inv t(1) sv by (auto simp: net_inv_def)
qed

lemma asked_mono: "net_step cb w w' \<Longrightarrow> length (w_asked w c) \<le> length (w_asked w' c)"
  by (cases rule: net_step.cases) auto

lemma net_inv_step:
  assumes "net_step cb w w'" "net_inv cb ident w" "inj ident" "\<forall>c. length (w_asked w' c) < 2 ^ 64"
  shows "net_inv cb ident w'"
  using assms(1)
proof cases
  case (Send request c f request' info cl)
  have "length (w_asked w' c) < 2 ^ 64" using assms(4) ..
  then show ?thesis using net_inv_Send [OF assms(2) Send(2)] Send(1) by simp
next
  case (Request request info)
  then show ?thesis using assms(2) by (auto simp: net_inv_def Service_Enqueue_def)
next
  case (Handle r sv)
  then show ?thesis using net_inv_Handle [OF assms(2) Handle(2)] by simp
next
  case (Respond response info c f cl)
  have "length (w_asked w' c) < 2 ^ 64" using assms(4) ..
  then show ?thesis using net_inv_Respond [OF assms(2) Respond(2,3) _ assms(3)] Respond(1) by simp
next
  case Destroy
  then show ?thesis using assms(2) by (simp add: net_inv_def Service_destroy_def)
qed

lemma net_inv_reachable:
  assumes "(net_step cb)\<^sup>*\<^sup>* w w'" "net_inv cb ident w" "inj ident" "\<forall>c. length (w_asked w' c) < 2 ^ 64"
  shows "net_inv cb ident w'"
  using assms(1,2,4)
proof (induction rule: rtranclp_induct)
  case (step v v')
  have "\<forall>c. length (w_asked v c) < 2 ^ 64" using asked_mono [OF step.hyps(2)] step.prems(2) by (meson le_less_trans)
  then have "net_inv cb ident v" using step by blast
  then show ?case using net_inv_step [OF step.hyps(2) _ assms(3)] step.prems(2) by blast
qed simp

section \<open>Properties\<close>

text \<open>
  Claim C20. A client gets the answers to its own requests: whatever clients share a service, and however messages are delayed, lost, repeated or
  overtake each other, a future that has a value has the service's response to the request it was made for, and its callback is
  called at most once; as long as no client sends \<open>2 ^ 64\<close> requests.
\<close>

theorem responses_match_requests:
  assumes "inj ident" "sv_tasks sv = []" "(net_step cb)\<^sup>*\<^sup>* (start ident sv) w" "\<forall>c. length (w_asked w c) < 2 ^ 64"
  shows "(\<forall>c k r. k < length (w_asked w c) \<and> cl_futures (w_clients w c) ! k = Some r \<longrightarrow> (\<exists>s. r = fst (cb s (w_asked w c ! k)))) \<and> distinct (w_called w)"
  using net_inv_reachable [OF assms(3) net_inv_start [OF assms(2)] assms(1,4)] unfolding net_inv_def client_ok_def by blast

text \<open>A client asks for the number after 6, and the service answers.\<close>

lemma answered:
  defines "cb \<equiv> \<lambda>s :: unit. \<lambda>q :: nat. (Suc q, s)" and "ident \<equiv> \<lambda>c. replicate c (0 :: u8)"
    and "sv \<equiv> snd (the (Service_Init True True (Service [1] ())))"
  shows "\<exists>w. (net_step cb)\<^sup>*\<^sup>* (start ident sv) w \<and> w_asked w = (\<lambda>_. [])(0 := [6]) \<and> w_called w = [(0, 0)] \<and> cl_futures (w_clients w 0) = [Some 7]"
proof -
  note defs = start_def Client_Init_def Client_def AsyncSendRequest_def sv_def Service_Init_def Service_def ident_def cb_def
    Service_Enqueue_def Process_round_def HandleRequest_def HandleResponse_def
  let ?w = "start ident sv :: (nat, nat, unit) world"
  define info :: message_info where "info = \<lparr>mi_sender_id = [], mi_seq_num = 1, mi_spare_id = []\<rparr>"
  define cl1 :: "nat client" where "cl1 = \<lparr>cl_is_init = True, cl_writer_id = [], cl_sequence_number = 1, cl_pending = [1 \<mapsto> 0], cl_futures = [None]\<rparr>"
  define w1 where "w1 = ?w\<lparr>w_clients := (w_clients ?w)(0 := cl1), w_requests := insert (6, info) (w_requests ?w),
    w_asked := (w_asked ?w)(0 := w_asked ?w 0 @ [6])\<rparr>"
  define w2 where "w2 = w1\<lparr>w_service := Service_Enqueue (6, info) (w_service w1)\<rparr>"
  define w3 where "w3 = w2\<lparr>w_service := sv, w_responses := set_option (Some (7 :: nat, info\<lparr>mi_sender_id := [1]\<rparr>)) \<union> w_responses w2\<rparr>"
  define cl2 :: "nat client" where "cl2 = cl1\<lparr>cl_pending := (cl_pending cl1)(1 := None), cl_futures := [Some 7]\<rparr>"
  define w4 where "w4 = w3\<lparr>w_clients := (w_clients w3)(0 := cl2), w_called := (0, 0) # w_called w3\<rparr>"
  note ws = w1_def w2_def w3_def w4_def info_def cl1_def cl2_def
  have "net_step cb ?w w1" unfolding w1_def by (rule net_step.Send [where f = 0]) (simp add: defs ws)
  moreover have "net_step cb w1 w2" unfolding w2_def by (rule net_step.Request) (simp add: w1_def)
  moreover have "net_step cb w2 w3" unfolding w3_def by (rule net_step.Handle) (simp add: w1_def w2_def info_def defs)
  moreover have "net_step cb w3 w4"
    unfolding w4_def using net_step.Respond [of 7 "info\<lparr>mi_sender_id := [1]\<rparr>" w3 0 "Some 0" cl2 cb] by (simp add: defs ws)
  ultimately have "(net_step cb)\<^sup>*\<^sup>* ?w w4" by (meson converse_rtranclp_into_rtranclp rtranclp.rtrancl_refl)
  moreover have "w_asked w4 = (\<lambda>_. [])(0 := [6])" "w_called w4 = [(0, 0)]" "cl_futures (w_clients w4 0) = [Some 7]"
    by (simp_all add: ws defs)
  ultimately show ?thesis by blast
qed

theorem responses_match_requests_witness:
  "\<exists>w. (net_step (\<lambda>s :: unit. \<lambda>q :: nat. (Suc q, s)))\<^sup>*\<^sup>* (start (\<lambda>c. replicate c 0) (snd (the (Service_Init True True (Service [1] ()))))) w \<and>
     w_asked w 0 = [6] \<and> cl_futures (w_clients w 0) = [Some 7] \<and>
     (\<forall>r. cl_futures (w_clients w 0) ! 0 = Some r \<longrightarrow> r = Suc (w_asked w 0 ! 0)) \<and> distinct (w_called w)"
proof -
  let ?cb = "\<lambda>s :: unit. \<lambda>q :: nat. (Suc q, s)" and ?ident = "\<lambda>c. replicate c (0 :: u8)"
  let ?sv = "snd (the (Service_Init True True (Service [1] ())))"
  obtain w where w: "(net_step ?cb)\<^sup>*\<^sup>* (start ?ident ?sv) w" "w_asked w = (\<lambda>_. [])(0 := [6])" "cl_futures (w_clients w 0) = [Some 7]"
    using answered by blast
  have "inj ?ident" by (rule injI) (metis length_replicate)
  moreover have "sv_tasks ?sv = []" by (simp add: Service_Init_def Service_def)
  moreover have "\<forall>c. length (w_asked w c) < 2 ^ 64" by (simp add: w(2))
  ultimately have "(\<forall>c k r. k < length (w_asked w c) \<and> cl_futures (w_clients w c) ! k = Some r \<longrightarrow> (\<exists>s. r = fst (?cb s (w_asked w c ! k)))) \<and> distinct (w_called w)"
    by (rule responses_match_requests [OF _ _ w(1)])
  then show ?thesis using w by (intro exI [of _ w]) auto
qed

end
