(* ===== verification/Parameters.thy ===== *)
theory Parameters
  imports Services "HOL-Library.AList"
begin

text \<open>
  \<^verbatim>\<open>cyber/parameter\<close>: a parameter is a name with a value of one of five types; a parameter server keeps those of a node and answers
  requests for them by three services, and a parameter client sends such requests.  Doubles are any type with a zero; integers are words, read as signed.
\<close>

section \<open>Parameter\<close>

datatype param_type = NOT_SET | BOOL | PARAM_INT | DOUBLE | STRING | PROTOBUF

datatype 'd oneof_value = No_Value | Bool_Value bool | Int_Value u64 | Double_Value 'd | String_Value string

text \<open>The message \<^verbatim>\<open>Param\<close>; a field that is not set reads as its default.\<close>

record 'd param =
  pa_name :: string
  pa_type :: param_type
  pa_type_name :: string
  pa_value :: "'d oneof_value"
  pa_proto_desc :: string

definition Param :: "'d param" where
  "Param = \<lparr>pa_name = [], pa_type = NOT_SET, pa_type_name = [], pa_value = No_Value, pa_proto_desc = []\<rparr>"

fun bool_value :: "'d oneof_value \<Rightarrow> bool" where "bool_value (Bool_Value b) = b" | "bool_value _ = False"
fun int_value :: "'d oneof_value \<Rightarrow> u64" where "int_value (Int_Value i) = i" | "int_value _ = 0"
fun double_value :: "'d::zero oneof_value \<Rightarrow> 'd" where "double_value (Double_Value x) = x" | "double_value _ = 0"
fun string_value :: "'d oneof_value \<Rightarrow> string" where "string_value (String_Value s) = s" | "string_value _ = []"

definition Parameter :: "string \<Rightarrow> 'd param" where "Parameter name = Param\<lparr>pa_name := name\<rparr>"

definition Parameter_bool :: "string \<Rightarrow> bool \<Rightarrow> 'd param" where
  "Parameter_bool name b = Param\<lparr>pa_name := name, pa_value := Bool_Value b, pa_type := BOOL, pa_type_name := ''BOOL''\<rparr>"

definition Parameter_int :: "string \<Rightarrow> u32 \<Rightarrow> 'd param" where
  "Parameter_int name i = Param\<lparr>pa_name := name, pa_value := Int_Value (scast i), pa_type := PARAM_INT, pa_type_name := ''INT''\<rparr>"

definition Parameter_int64 :: "string \<Rightarrow> u64 \<Rightarrow> 'd param" where
  "Parameter_int64 name i = Param\<lparr>pa_name := name, pa_value := Int_Value i, pa_type := PARAM_INT, pa_type_name := ''INT''\<rparr>"

definition Parameter_double :: "string \<Rightarrow> 'd \<Rightarrow> 'd param" where
  "Parameter_double name x = Param\<lparr>pa_name := name, pa_value := Double_Value x, pa_type := DOUBLE, pa_type_name := ''DOUBLE''\<rparr>"

definition Parameter_string :: "string \<Rightarrow> string \<Rightarrow> 'd param" where
  "Parameter_string name s = Param\<lparr>pa_name := name, pa_value := String_Value s, pa_type := STRING, pa_type_name := ''STRING''\<rparr>"

definition Parameter_proto :: "string \<Rightarrow> string \<Rightarrow> string \<Rightarrow> string \<Rightarrow> 'd param" where
  "Parameter_proto name msg_str full_name proto_desc =
     Param\<lparr>pa_name := name, pa_value := String_Value msg_str, pa_type := PROTOBUF, pa_type_name := full_name, pa_proto_desc := proto_desc\<rparr>"

text \<open>\<open>ser\<close>, \<open>full_name\<close> and \<open>desc\<close> are what protobuf says of a message.\<close>

definition Parameter_message :: "('m \<Rightarrow> string) \<Rightarrow> ('m \<Rightarrow> string) \<Rightarrow> ('m \<Rightarrow> string) \<Rightarrow> string \<Rightarrow> 'm \<Rightarrow> 'd param" where
  "Parameter_message ser full_name desc name msg = Parameter_proto name (ser msg) (full_name msg) (desc msg)"

text \<open>The value that is returned, with whether the type was wrong, which is only logged.\<close>

definition value_bool :: "'d param \<Rightarrow> bool \<times> bool" where
  "value_bool p = (bool_value (pa_value p), pa_type p \<noteq> BOOL)"
definition value_int64 :: "'d param \<Rightarrow> u64 \<times> bool" where
  "value_int64 p = (int_value (pa_value p), pa_type p \<noteq> PARAM_INT)"
definition value_int32 :: "'d param \<Rightarrow> u32 \<times> bool" where
  "value_int32 p = (ucast (int_value (pa_value p)), pa_type p \<noteq> PARAM_INT)"
definition value_double :: "'d::zero param \<Rightarrow> 'd \<times> bool" where
  "value_double p = (double_value (pa_value p), pa_type p \<noteq> DOUBLE)"
definition value_string :: "'d param \<Rightarrow> string \<times> bool" where
  "value_string p = (string_value (pa_value p), pa_type p \<noteq> STRING \<and> pa_type p \<noteq> PROTOBUF)"

text \<open>\<open>parse\<close> gives the message, or the one left after a failed parse.\<close>

definition value_message :: "(string \<Rightarrow> 'm option) \<Rightarrow> 'm \<Rightarrow> 'd param \<Rightarrow> 'm \<times> bool" where
  "value_message parse partial p = (case parse (string_value (pa_value p)) of Some m \<Rightarrow> (m, False) | None \<Rightarrow> (partial, True))"

text \<open>\<open>show_double\<close> is \<^verbatim>\<open>std::to_string\<close> of a double, \<open>show_proto\<close> prints a message of a registered type, if there is one.\<close>

definition DebugString :: "('d::zero \<Rightarrow> string) \<Rightarrow> (string \<Rightarrow> string \<Rightarrow> string \<Rightarrow> string option) \<Rightarrow> 'd param \<Rightarrow> string" where
  "DebugString show_double show_proto p =
     ''{name: '' @ [CHR 34] @ pa_name p @ [CHR 34] @ '', type: '' @ [CHR 34] @ pa_type_name p @ [CHR 34] @ '', value: '' @
     (case pa_type p of
        BOOL \<Rightarrow> if fst (value_bool p) then ''true'' else ''false''
      | PARAM_INT \<Rightarrow> int_to_string (sint (fst (value_int64 p)))
      | DOUBLE \<Rightarrow> show_double (fst (value_double p))
      | STRING \<Rightarrow> [CHR 34] @ fst (value_string p) @ [CHR 34]
      | PROTOBUF \<Rightarrow> (case show_proto (pa_proto_desc p) (pa_type_name p) (fst (value_string p)) of
                       Some s \<Rightarrow> [CHR 34] @ s @ [CHR 34] | None \<Rightarrow> [])
      | NOT_SET \<Rightarrow> ''not set'') @ ''}''"

text \<open>What was put in comes out again, without a complaint.\<close>

lemma narrow_widened: "(ucast (scast i :: u64) :: u32) = i" for i :: u32
  by (rule bit_word_eqI) (auto simp: bit_simps)

lemma parameter_values:
  "value_bool (Parameter_bool n b) = (b, False)" "value_int64 (Parameter_int64 n i) = (i, False)"
  "value_int32 (Parameter_int n j) = (j, False)" "value_double (Parameter_double n x) = (x, False)"
  "value_string (Parameter_string n s) = (s, False)" "value_string (Parameter_proto n s f d) = (s, False)"
  by (simp_all add: value_bool_def Parameter_bool_def value_int64_def Parameter_int64_def value_int32_def Parameter_int_def value_double_def
      Parameter_double_def value_string_def Parameter_string_def Parameter_proto_def Param_def narrow_widened)

section \<open>Server\<close>

text \<open>The hash map of the server; the order of the entries is the order it is walked in.\<close>

type_synonym 'd param_map = "(string \<times> 'd param) list"

definition FixParameterServiceName :: "string \<Rightarrow> string \<Rightarrow> string" where
  "FixParameterServiceName node service = node @ ''/'' @ service"

definition get_parameter_cb :: "'d param_map \<Rightarrow> string \<Rightarrow> 'd param \<times> 'd param_map" where
  "get_parameter_cb pm name = (case map_of pm name of Some p \<Rightarrow> (p, pm) | None \<Rightarrow> (Param, pm))"

definition set_parameter_cb :: "'d param_map \<Rightarrow> 'd param \<Rightarrow> bool \<times> 'd param_map" where
  "set_parameter_cb pm p = (True, AList.update (pa_name p) p pm)"

definition list_parameters_cb :: "'d param_map \<Rightarrow> string \<Rightarrow> 'd param list \<times> 'd param_map" where
  "list_parameters_cb pm node = (map snd pm, pm)"

definition Server_SetParameter :: "'d param \<Rightarrow> 'd param_map \<Rightarrow> 'd param_map" where
  "Server_SetParameter p pm = AList.update (pa_name p) p pm"

definition Server_GetParameter :: "string \<Rightarrow> 'd param \<Rightarrow> 'd param_map \<Rightarrow> bool \<times> 'd param" where
  "Server_GetParameter name p pm = (case map_of pm name of None \<Rightarrow> (False, p) | Some q \<Rightarrow> (True, q))"

definition Server_ListParameters :: "'d param list \<Rightarrow> 'd param_map \<Rightarrow> 'd param list" where
  "Server_ListParameters out pm = out @ map snd pm"

section \<open>Client\<close>

text \<open>What the client makes of the response, \<open>None\<close> when the call failed or timed out.\<close>

definition Client_GetParameter :: "'d param option \<Rightarrow> 'd param \<Rightarrow> bool \<times> 'd param" where
  "Client_GetParameter response p =
     (case response of None \<Rightarrow> (False, p) | Some r \<Rightarrow> if pa_type r = NOT_SET then (False, p) else (True, r))"

definition Client_SetParameter :: "bool option \<Rightarrow> bool" where
  "Client_SetParameter response = (case response of None \<Rightarrow> False | Some v \<Rightarrow> v)"

definition Client_ListParameters :: "'d param list option \<Rightarrow> 'd param list \<Rightarrow> bool \<times> 'd param list" where
  "Client_ListParameters response out = (case response of None \<Rightarrow> (False, out) | Some ps \<Rightarrow> (True, out @ ps))"

section \<open>The table of the server\<close>

datatype 'd param_op = Local_Set "'d param" | Service_Set "'d param" | Service_Get string | Service_List string

fun param_do :: "'d param_op \<Rightarrow> 'd param_map \<Rightarrow> 'd param_map" where
  "param_do (Local_Set p) pm = Server_SetParameter p pm"
| "param_do (Service_Set p) pm = snd (set_parameter_cb pm p)"
| "param_do (Service_Get n) pm = snd (get_parameter_cb pm n)"
| "param_do (Service_List n) pm = snd (list_parameters_cb pm n)"

text \<open>The parameters that were set, newest first.\<close>

fun sets :: "'d param_op list \<Rightarrow> 'd param list \<Rightarrow> 'd param list" where
  "sets [] ps = ps"
| "sets (Local_Set p # ops) ps = sets ops (p # ps)"
| "sets (Service_Set p # ops) ps = sets ops (p # ps)"
| "sets (_ # ops) ps = sets ops ps"

definition newest :: "string \<Rightarrow> 'd param list \<Rightarrow> 'd param option" where
  "newest name ps = List.find (\<lambda>p. pa_name p = name) ps"

lemma newest_simps [simp]: "newest n [] = None" "newest n (p # ps) = (if pa_name p = n then Some p else newest n ps)"
  by (simp_all add: newest_def)

lemma newest_name: "newest n ps = Some p \<Longrightarrow> pa_name p = n \<and> p \<in> set ps"
  by (auto simp: newest_def find_Some_iff)

definition table_ok :: "'d param_map \<Rightarrow> 'd param list \<Rightarrow> bool" where
  "table_ok pm ps \<longleftrightarrow> distinct (map fst pm) \<and> (\<forall>n. map_of pm n = newest n ps)"

lemma table_ok_set: "table_ok pm ps \<Longrightarrow> table_ok (AList.update (pa_name p) p pm) (p # ps)"
  by (simp add: table_ok_def update_conv' distinct_update)

lemma table_ok_run: "table_ok pm ps \<Longrightarrow> table_ok (fold param_do ops pm) (sets ops ps)"
proof (induction ops arbitrary: pm ps)
  case (Cons c ops)
  then show ?case
    by (cases c) (auto simp: Server_SetParameter_def set_parameter_cb_def get_parameter_cb_def list_parameters_cb_def table_ok_set split: option.splits)
qed simp

lemma table_list:
  assumes "table_ok pm ps"
  shows "set (map snd pm) = {p. newest (pa_name p) ps = Some p}" "distinct (map snd pm)"
proof -
  have k: "map_of pm n = newest n ps" for n using assms by (simp add: table_ok_def)
  have d: "distinct (map fst pm)" using assms by (simp add: table_ok_def)
  have n: "fst e = pa_name (snd e)" if "e \<in> set pm" for e
    using that map_of_is_SomeI [OF d, of "fst e" "snd e"] k newest_name by (metis prod.collapse)
  have "p \<in> snd ` set pm \<longleftrightarrow> newest (pa_name p) ps = Some p" for p
  proof
    assume "p \<in> snd ` set pm"
    then obtain e where "e \<in> set pm" "p = snd e" by auto
    then show "newest (pa_name p) ps = Some p" using n k map_of_is_SomeI [OF d, of "fst e" "snd e"] by (metis prod.collapse)
  next
    assume "newest (pa_name p) ps = Some p"
    then have "map_of pm (pa_name p) = Some p" by (simp add: k)
    from map_of_SomeD [OF this] show "p \<in> snd ` set pm" by force
  qed
  then show "set (map snd pm) = {p. newest (pa_name p) ps = Some p}" by auto
  have "map fst pm = map pa_name (map snd pm)" using n by simp
  then show "distinct (map snd pm)" using d by (metis distinct_map)
qed

section \<open>Properties\<close>

text \<open>
  Claim C36. A parameter is what it was last set to: after any series of requests and calls of the server, by the service or directly,
  a client that asks for a parameter gets the one that was last set under the name, unless none was, or one without a type; the
  server gets it whatever its type, and the list has exactly the last setting of every name, once.
\<close>

theorem parameter_is_last_set:
  fixes ops :: "'d param_op list"
  defines "pm \<equiv> fold param_do ops []" and "ps \<equiv> sets ops []"
  shows "Client_GetParameter (Some (fst (get_parameter_cb pm n))) p =
      (case newest n ps of None \<Rightarrow> (False, p) | Some q \<Rightarrow> if pa_type q = NOT_SET then (False, p) else (True, q)) \<and>
    Server_GetParameter n p pm = (case newest n ps of None \<Rightarrow> (False, p) | Some q \<Rightarrow> (True, q)) \<and>
    set (fst (list_parameters_cb pm node)) = {q. newest (pa_name q) ps = Some q} \<and> distinct (fst (list_parameters_cb pm node))"
proof -
  have ok: "table_ok pm ps" unfolding pm_def ps_def by (rule table_ok_run) (simp add: table_ok_def)
  then have "map_of pm n = newest n ps" by (simp add: table_ok_def)
  then show ?thesis
    using table_list [OF ok]
    by (auto simp: Client_GetParameter_def get_parameter_cb_def Server_GetParameter_def list_parameters_cb_def Param_def split: option.splits)
qed

end
