(* ===== verification/Unbounded_Queue.thy ===== *)
theory Unbounded_Queue
  imports Cyber_Interfaces
begin

text \<open>
  \<^verbatim>\<open>cyber/base/unbounded_queue.h\<close>: a linked queue whose nodes count the two owners they have, the node before them and the head.
  Nodes live in a heap; to use a node that is not there is an error.  The contract of a queue is the locale \<open>fifo\<close>.
\<close>

section \<open>Nodes and the heap\<close>

record 'a qnode =
  qn_data :: "'a option"
  qn_ref :: u32
  qn_next :: "nat option"

text \<open>\<open>uq_fresh\<close> numbers the nodes in the order they are allocated.\<close>

record 'a uqueue =
  uq_heap :: "nat \<rightharpoonup> 'a qnode"
  uq_fresh :: nat
  uq_head :: nat
  uq_tail :: nat
  uq_size :: u64

datatype uq_error = Use_After_Free

definition uq_new :: "'a option \<Rightarrow> 'a uqueue \<Rightarrow> nat \<times> 'a uqueue" where
  "uq_new x q = (uq_fresh q, q\<lparr>uq_heap := (uq_heap q)(uq_fresh q \<mapsto> \<lparr>qn_data = x, qn_ref = 2, qn_next = None\<rparr>), uq_fresh := uq_fresh q + 1\<rparr>)"

text \<open>\<^verbatim>\<open>release\<close> in its two steps: the count is taken down, then read again.\<close>

definition release_sub :: "nat \<Rightarrow> 'a uqueue \<Rightarrow> uq_error + 'a uqueue" where
  "release_sub a q = (case uq_heap q a of
       None \<Rightarrow> Inl Use_After_Free
     | Some n \<Rightarrow> Inr (q\<lparr>uq_heap := (uq_heap q)(a \<mapsto> n\<lparr>qn_ref := qn_ref n - 1\<rparr>)\<rparr>))"

definition release_load :: "nat \<Rightarrow> 'a uqueue \<Rightarrow> uq_error + 'a uqueue" where
  "release_load a q = (case uq_heap q a of
       None \<Rightarrow> Inl Use_After_Free
     | Some n \<Rightarrow> Inr (if qn_ref n = 0 then q\<lparr>uq_heap := (uq_heap q)(a := None)\<rparr> else q))"

definition uq_release :: "nat \<Rightarrow> 'a uqueue \<Rightarrow> uq_error + 'a uqueue" where
  "uq_release a q = (case release_sub a q of Inl e \<Rightarrow> Inl e | Inr q \<Rightarrow> release_load a q)"

section \<open>Operations\<close>

definition uq_Reset :: "'a uqueue \<Rightarrow> 'a uqueue" where
  "uq_Reset q = (case uq_new None q of (a, q) \<Rightarrow> q\<lparr>uq_head := a, uq_tail := a, uq_size := 0\<rparr>)"

definition UnboundedQueue :: "'a uqueue" where
  "UnboundedQueue = uq_Reset \<lparr>uq_heap = Map.empty, uq_fresh = 0, uq_head = 0, uq_tail = 0, uq_size = 0\<rparr>"

text \<open>A call that no other thread disturbs, so that the exchanges succeed at once.\<close>

definition uq_Enqueue :: "'a \<Rightarrow> 'a uqueue \<Rightarrow> uq_error + 'a uqueue" where
  "uq_Enqueue x q =
     (case uq_new (Some x) q of (a, q) \<Rightarrow>
        let old_tail = uq_tail q; q = q\<lparr>uq_tail := a\<rparr>
        in case uq_heap q old_tail of
             None \<Rightarrow> Inl Use_After_Free
           | Some n \<Rightarrow>
               (case uq_release old_tail (q\<lparr>uq_heap := (uq_heap q)(old_tail \<mapsto> n\<lparr>qn_next := Some a\<rparr>)\<rparr>) of
                  Inl e \<Rightarrow> Inl e
                | Inr q \<Rightarrow> Inr (q\<lparr>uq_size := uq_size q + 1\<rparr>)))"

definition uq_Dequeue :: "'a uqueue \<Rightarrow> uq_error + ('a option \<times> 'a uqueue)" where
  "uq_Dequeue q =
     (let old_head = uq_head q
      in case uq_heap q old_head of
           None \<Rightarrow> Inl Use_After_Free
         | Some n \<Rightarrow>
             (case qn_next n of
                None \<Rightarrow> Inr (None, q)
              | Some b \<Rightarrow>
                  (case uq_heap q b of
                     None \<Rightarrow> Inl Use_After_Free
                   | Some m \<Rightarrow>
                       (case uq_release old_head (q\<lparr>uq_head := b, uq_size := uq_size q - 1\<rparr>) of
                          Inl e \<Rightarrow> Inl e
                        | Inr q \<Rightarrow> Inr (qn_data m, q)))))"

definition uq_Size :: "'a uqueue \<Rightarrow> u64" where "uq_Size q = uq_size q"
definition uq_Empty :: "'a uqueue \<Rightarrow> bool" where "uq_Empty q \<longleftrightarrow> uq_size q = 0"

text \<open>The loop of \<^verbatim>\<open>Destroy\<close>; every round deletes a node, so that as many rounds as there were nodes are enough.\<close>

fun destroy_from :: "nat \<Rightarrow> nat option \<Rightarrow> 'a uqueue \<Rightarrow> (uq_error + 'a uqueue) option" where
  "destroy_from _ None q = Some (Inr q)"
| "destroy_from 0 (Some a) q = None"
| "destroy_from (Suc fuel) (Some a) q =
     (case uq_heap q a of
        None \<Rightarrow> Some (Inl Use_After_Free)
      | Some n \<Rightarrow> destroy_from fuel (qn_next n) (q\<lparr>uq_heap := (uq_heap q)(a := None)\<rparr>))"

definition uq_Destroy :: "'a uqueue \<Rightarrow> (uq_error + 'a uqueue) option" where
  "uq_Destroy q = destroy_from (uq_fresh q) (Some (uq_head q)) q"

definition uq_Clear :: "'a uqueue \<Rightarrow> (uq_error + 'a uqueue) option" where
  "uq_Clear q = (case uq_Destroy q of None \<Rightarrow> None | Some (Inl e) \<Rightarrow> Some (Inl e) | Some (Inr q) \<Rightarrow> Some (Inr (uq_Reset q)))"

section \<open>Invariant\<close>

text \<open>The nodes from an address on, with their data: all but the last have one owner left.\<close>

fun chain :: "(nat \<rightharpoonup> 'a qnode) \<Rightarrow> nat \<Rightarrow> nat list \<Rightarrow> 'a list \<Rightarrow> bool" where
  "chain h a [] [] \<longleftrightarrow> (\<exists>n. h a = Some n \<and> qn_ref n = 2 \<and> qn_next n = None)"
| "chain h a (b # bs) (x # xs) \<longleftrightarrow> (\<exists>n. h a = Some n \<and> qn_ref n = 1 \<and> qn_next n = Some b) \<and>
     (\<exists>n. h b = Some n \<and> qn_data n = Some x) \<and> chain h b bs xs"
| "chain h a _ _ \<longleftrightarrow> False"

text \<open>The heap holds the nodes of the queue and no others.\<close>

definition uq_rep :: "'a uqueue \<Rightarrow> nat list \<Rightarrow> 'a list \<Rightarrow> bool" where
  "uq_rep q bs xs \<longleftrightarrow> chain (uq_heap q) (uq_head q) bs xs \<and> distinct (uq_head q # bs) \<and> dom (uq_heap q) = set (uq_head q # bs) \<and>
     uq_tail q = List.last (uq_head q # bs) \<and> uq_size q = of_nat (length xs) \<and> (\<forall>a\<in>dom (uq_heap q). a < uq_fresh q)"

lemma chain_length: "chain h a bs xs \<Longrightarrow> length bs = length xs"
  by (induction h a bs xs rule: chain.induct) auto

lemma chain_upd_other: "c \<notin> set (a # bs) \<Longrightarrow> chain (h(c := v)) a bs xs \<longleftrightarrow> chain h a bs xs"
  by (induction h a bs xs rule: chain.induct) auto

lemma chain_snoc:
  assumes "chain h a bs xs" "distinct (a # bs)" "c \<notin> set (a # bs)" "h (List.last (a # bs)) = Some n"
  shows "chain (h(c \<mapsto> \<lparr>qn_data = Some x, qn_ref = 2, qn_next = None\<rparr>, List.last (a # bs) \<mapsto> n\<lparr>qn_next := Some c, qn_ref := 1\<rparr>)) a (bs @ [c]) (xs @ [x])"
  using assms
proof (induction h a bs xs rule: chain.induct)
  case (2 h a b bs x' xs)
  let ?l = "List.last (b # bs)"
  let ?H = "h(c \<mapsto> \<lparr>qn_data = Some x, qn_ref = 2, qn_next = None\<rparr>, ?l \<mapsto> n\<lparr>qn_next := Some c, qn_ref := 1\<rparr>)"
  have IH: "chain ?H b (bs @ [c]) (xs @ [x])" by (rule 2(1)) (use 2(2-5) in auto)
  have "?l \<in> set (b # bs)" by (metis last_in_set list.discI)
  then have "?H a = h a" using 2(3,4) by auto
  moreover have "\<exists>n. ?H b = Some n \<and> qn_data n = Some x'" using 2(2,4,5) by (cases "b = ?l") auto
  moreover have "List.last (a # b # bs) = ?l" by simp
  ultimately show ?case using IH 2(2) by (simp only: append_Cons chain.simps)
qed auto

lemma chain_last: "chain h a bs xs \<Longrightarrow> h (List.last (a # bs)) = Some n \<Longrightarrow> qn_ref n = 2"
  by (induction h a bs xs rule: chain.induct) auto

lemma uq_rep_start: "uq_rep UnboundedQueue [] []"
  by (simp add: uq_rep_def UnboundedQueue_def uq_Reset_def uq_new_def)

lemma uq_rep_Enqueue:
  assumes "uq_rep q bs xs"
  shows "\<exists>q'. uq_Enqueue x q = Inr q' \<and> uq_rep q' (bs @ [uq_fresh q]) (xs @ [x])"
proof -
  let ?a = "uq_head q" and ?c = "uq_fresh q" and ?l = "List.last (uq_head q # bs)" and ?h = "uq_heap q"
  have r: "chain ?h ?a bs xs" "distinct (?a # bs)" "dom ?h = set (?a # bs)" "uq_tail q = ?l" "uq_size q = of_nat (length xs)"
    "\<forall>a\<in>dom ?h. a < ?c" using assms by (auto simp: uq_rep_def)
  have l: "?l \<in> dom ?h" unfolding r(3) by (metis last_in_set list.discI)
  then obtain n where n: "?h ?l = Some n" by blast
  have fresh: "?c \<notin> set (?a # bs)" "?c \<noteq> ?l" using r(3,6) l by auto
  have two: "qn_ref n = 2" by (rule chain_last [OF r(1) n])
  let ?h' = "?h(?c \<mapsto> \<lparr>qn_data = Some x, qn_ref = 2, qn_next = None\<rparr>, ?l \<mapsto> n\<lparr>qn_next := Some ?c, qn_ref := 1\<rparr>)"
  have e: "uq_Enqueue x q = Inr (q\<lparr>uq_heap := ?h', uq_fresh := ?c + 1, uq_tail := ?c, uq_size := uq_size q + 1\<rparr>)"
    using n fresh(2) two r(4) by (simp add: uq_Enqueue_def uq_new_def uq_release_def release_sub_def release_load_def Let_def)
  have "chain ?h' ?a (bs @ [?c]) (xs @ [x])" by (rule chain_snoc [OF r(1,2) fresh(1) n])
  then show ?thesis using r fresh l unfolding e by (auto simp: uq_rep_def)
qed

lemma uq_rep_Dequeue_empty: "uq_rep q bs [] \<Longrightarrow> uq_Dequeue q = Inr (None, q)"
  by (cases bs) (auto simp: uq_rep_def uq_Dequeue_def Let_def)

lemma uq_rep_Dequeue:
  assumes "uq_rep q bs (x # xs)"
  shows "\<exists>q'. uq_Dequeue q = Inr (Some x, q') \<and> uq_rep q' (tl bs) xs \<and> uq_heap q' (uq_head q) = None"
proof -
  let ?a = "uq_head q" and ?h = "uq_heap q"
  obtain b bs' where bs: "bs = b # bs'" using assms by (cases bs) (auto simp: uq_rep_def)
  obtain n m where n: "?h ?a = Some n" "qn_ref n = 1" "qn_next n = Some b" and m: "?h b = Some m" "qn_data m = Some x" and c: "chain ?h b bs' xs"
    using assms bs by (auto simp: uq_rep_def)
  let ?q = "q\<lparr>uq_heap := ?h(?a := None), uq_head := b, uq_size := uq_size q - 1\<rparr>"
  have "uq_Dequeue q = Inr (Some x, ?q)"
    using n m by (simp add: uq_Dequeue_def uq_release_def release_sub_def release_load_def Let_def)
  moreover have "chain (?h(?a := None)) b bs' xs" using c assms bs by (simp add: chain_upd_other uq_rep_def)
  ultimately show ?thesis using assms bs by (auto simp: uq_rep_def)
qed

lemma uq_rep_Destroy:
  assumes "chain (uq_heap q) a bs xs" "distinct (a # bs)" "dom (uq_heap q) = set (a # bs)" "length bs < fuel"
  shows "\<exists>q'. destroy_from fuel (Some a) q = Some (Inr q') \<and> uq_heap q' = Map.empty \<and> uq_fresh q' = uq_fresh q"
  using assms
proof (induction bs arbitrary: a xs fuel q)
  case Nil
  then obtain f where "fuel = Suc f" by (cases fuel) auto
  moreover have "(uq_heap q)(a := None) = Map.empty" using Nil(3) by (auto simp: fun_eq_iff dom_def)
  ultimately show ?case using Nil(1) by (cases xs) auto
next
  case (Cons b bs)
  obtain f where f: "fuel = Suc f" using Cons.prems(4) by (cases fuel) auto
  obtain xs' n where n: "uq_heap q a = Some n" "qn_next n = Some b" "chain (uq_heap q) b bs xs'" using Cons.prems(1) by (cases xs) auto
  let ?q = "q\<lparr>uq_heap := (uq_heap q)(a := None)\<rparr>"
  have c: "chain (uq_heap ?q) b bs xs'" using n(3) Cons.prems(2) by (simp add: chain_upd_other)
  have d: "dom (uq_heap ?q) = set (b # bs)" using Cons.prems(2,3) by auto
  have "\<exists>q'. destroy_from f (Some b) ?q = Some (Inr q') \<and> uq_heap q' = Map.empty \<and> uq_fresh q' = uq_fresh ?q"
    by (rule Cons.IH [OF c _ d]) (use Cons.prems(2,4) f in auto)
  then show ?case using n f by simp
qed

lemma uq_rep_fuel: "uq_rep q bs xs \<Longrightarrow> length bs < uq_fresh q"
proof -
  assume r: "uq_rep q bs xs"
  then have "set (uq_head q # bs) \<subseteq> {..<uq_fresh q}" by (auto simp: uq_rep_def)
  then have "card (set (uq_head q # bs)) \<le> uq_fresh q" using card_mono [of "{..<uq_fresh q}"] by fastforce
  then show ?thesis using r distinct_card [of "uq_head q # bs"] by (simp add: uq_rep_def)
qed

lemma uq_rep_Clear:
  assumes "uq_rep q bs xs"
  shows "\<exists>q'. uq_Clear q = Some (Inr q') \<and> uq_rep q' [] []"
proof -
  obtain q' where "uq_Destroy q = Some (Inr q')" "uq_heap q' = Map.empty"
    using uq_rep_Destroy [of q "uq_head q" bs xs "uq_fresh q"] assms uq_rep_fuel [OF assms] by (auto simp: uq_Destroy_def uq_rep_def)
  then show ?thesis by (simp add: uq_Clear_def uq_rep_def uq_Reset_def uq_new_def)
qed

section \<open>The contract of a queue\<close>

definition uq_inv :: "'a uqueue \<Rightarrow> bool" where "uq_inv q \<longleftrightarrow> (\<exists>bs xs. uq_rep q bs xs)"

fun uq_walk :: "nat \<Rightarrow> (nat \<rightharpoonup> 'a qnode) \<Rightarrow> nat \<Rightarrow> 'a list" where
  "uq_walk 0 h a = []"
| "uq_walk (Suc fuel) h a =
     (case h a of None \<Rightarrow> [] | Some n \<Rightarrow> (case qn_next n of None \<Rightarrow> [] | Some b \<Rightarrow> (case h b of Some m \<Rightarrow> the (qn_data m) # uq_walk fuel h b | None \<Rightarrow> [])))"

definition uq_contents :: "'a uqueue \<Rightarrow> 'a list" where "uq_contents q = uq_walk (uq_fresh q) (uq_heap q) (uq_head q)"

lemma uq_walk_chain: "chain h a bs xs \<Longrightarrow> length bs < fuel \<Longrightarrow> uq_walk fuel h a = xs"
proof (induction fuel arbitrary: a bs xs)
  case (Suc fuel)
  show ?case
  proof (cases bs)
    case Nil
    then show ?thesis using Suc.prems(1) by (cases xs) auto
  next
    case (Cons b bs')
    then obtain x xs' where "xs = x # xs'" using Suc.prems(1) by (cases xs) auto
    then show ?thesis using Suc Cons by auto
  qed
qed simp

lemma uq_contents_rep: "uq_rep q bs xs \<Longrightarrow> uq_contents q = xs"
  using uq_walk_chain [of "uq_heap q" "uq_head q" bs xs "uq_fresh q"] uq_rep_fuel [of q bs xs] by (simp add: uq_contents_def uq_rep_def)

definition uq_enq :: "'a \<Rightarrow> 'a uqueue \<Rightarrow> bool \<times> 'a uqueue" where
  "uq_enq x q = (case uq_Enqueue x q of Inl e \<Rightarrow> (False, q) | Inr q' \<Rightarrow> (True, q'))"

definition uq_deq :: "'a uqueue \<Rightarrow> 'a option \<times> 'a uqueue" where
  "uq_deq q = (case uq_Dequeue q of Inl e \<Rightarrow> (None, q) | Inr r \<Rightarrow> r)"

interpretation uq: fifo uq_inv "\<lambda>_ _. True" uq_contents uq_enq uq_deq
proof unfold_locales
  fix q :: "'a uqueue" and q' :: "'a uqueue" and x xs
  show "uq_inv q' \<and> True \<and> uq_contents q' = uq_contents q @ [x]" if i: "uq_inv q" "uq_enq x q = (True, q')"
  proof -
    obtain bs ys where r: "uq_rep q bs ys" using i(1) by (auto simp: uq_inv_def)
    obtain q'' where "uq_Enqueue x q = Inr q''" "uq_rep q'' (bs @ [uq_fresh q]) (ys @ [x])" using uq_rep_Enqueue [OF r] by blast
    then show ?thesis using i(2) uq_contents_rep [OF r] uq_contents_rep by (auto simp: uq_enq_def uq_inv_def)
  qed
  show "q' = q" if "uq_enq x q = (False, q')" using that by (auto simp: uq_enq_def split: sum.splits)
  show "\<exists>q'. uq_deq q = (Some x, q') \<and> uq_inv q' \<and> uq_contents q' = xs \<and> (\<forall>n. True \<longrightarrow> True)" if i: "uq_inv q" "uq_contents q = x # xs"
  proof -
    obtain bs where r: "uq_rep q bs (x # xs)" using i uq_contents_rep by (fastforce simp: uq_inv_def)
    show ?thesis using uq_rep_Dequeue [OF r] uq_contents_rep by (fastforce simp: uq_deq_def uq_inv_def)
  qed
  show "uq_deq q = (None, q)" if "uq_inv q" "uq_contents q = []"
    using that uq_contents_rep uq_rep_Dequeue_empty by (fastforce simp: uq_deq_def uq_inv_def)
qed simp

text \<open>
  Calls one at a time use no freed node, lose nothing and keep the order, and the heap has a node for every element and one more.
\<close>

lemma unbounded_queue_fifo:
  assumes "fifo_run uq_enq uq_deq ops UnboundedQueue = (acc, out, q)"
  shows "out @ uq_contents q = acc \<and> card (dom (uq_heap q)) = length (uq_contents q) + 1 \<and> uq_Size q = of_nat (length (uq_contents q))"
proof -
  have "uq_inv UnboundedQueue" "uq_contents UnboundedQueue = []" using uq_rep_start uq_contents_rep by (auto simp: uq_inv_def)
  from uq.run_conserves [OF this(1) _ assms] this(2) have q: "uq_inv q" "out @ uq_contents q = acc" by auto
  then obtain bs xs where r: "uq_rep q bs xs" by (auto simp: uq_inv_def)
  then have "dom (uq_heap q) = set (uq_head q # bs)" "distinct (uq_head q # bs)" "length bs = length xs" "uq_size q = of_nat (length xs)"
    using chain_length by (auto simp: uq_rep_def)
  then show ?thesis using q(2) uq_contents_rep [OF r] distinct_card [of "uq_head q # bs"] by (simp add: uq_Size_def)
qed

lemma uq_Enqueue_ok:
  assumes "uq_inv q"
  shows "\<exists>q'. uq_Enqueue x q = Inr q' \<and> uq_inv q'"
proof -
  obtain bs xs where "uq_rep q bs xs" using assms by (auto simp: uq_inv_def)
  from uq_rep_Enqueue [OF this, of x] show ?thesis unfolding uq_inv_def by blast
qed

lemma uq_Dequeue_ok:
  assumes "uq_inv q"
  shows "\<exists>r q'. uq_Dequeue q = Inr (r, q') \<and> uq_inv q'"
proof -
  obtain bs xs where r: "uq_rep q bs xs" using assms by (auto simp: uq_inv_def)
  show ?thesis
  proof (cases xs)
    case Nil
    then show ?thesis using r assms uq_rep_Dequeue_empty [of q bs] by blast
  next
    case (Cons x xs')
    then show ?thesis using r uq_rep_Dequeue [of q bs x xs'] unfolding uq_inv_def by blast
  qed
qed

lemma uq_Clear_ok: "uq_inv q \<Longrightarrow> \<exists>q'. uq_Clear q = Some (Inr q') \<and> uq_inv q' \<and> uq_contents q' = []"
  using uq_rep_Clear uq_contents_rep unfolding uq_inv_def by blast

section \<open>Several threads\<close>

text \<open>
  A thread that has loaded \<^verbatim>\<open>head_\<close> and is overtaken by a whole \<^verbatim>\<open>Dequeue\<close> of another reads \<^verbatim>\<open>next\<close> of a node that is freed.
\<close>

lemma overtaken_Dequeue_reads_freed:
  assumes "uq_inv q" "uq_contents q \<noteq> []"
  shows "\<exists>x q'. uq_Dequeue q = Inr (Some x, q') \<and> uq_heap q' (uq_head q) = None"
proof -
  obtain bs x xs where "uq_rep q bs (x # xs)" using assms uq_contents_rep unfolding uq_inv_def by (metis neq_Nil_conv)
  from uq_rep_Dequeue [OF this] show ?thesis by blast
qed

text \<open>When both owners release a node at the same time, both may see that the count is 0 and delete it.\<close>

lemma concurrent_release_deletes_twice:
  assumes "uq_heap q a = Some n" "qn_ref n = 2"
  shows "\<exists>q1 q2 q3. release_sub a q = Inr q1 \<and> release_sub a q1 = Inr q2 \<and> release_load a q2 = Inr q3 \<and> uq_heap q3 a = None \<and>
    (\<exists>n2. uq_heap q2 a = Some n2 \<and> qn_ref n2 = 0) \<and> release_load a q3 = Inl Use_After_Free"
  using assms by (simp add: release_sub_def release_load_def)

end
