(* ===== verification/Waiting_Queues.thy ===== *)
theory Waiting_Queues
  imports Bounded_Queue
begin

text \<open>
  \<^verbatim>\<open>cyber/base/thread_safe_queue.h\<close> and \<^verbatim>\<open>thread_pool.h\<close> with the \<^verbatim>\<open>BlockWaitStrategy\<close> of \<^verbatim>\<open>wait_strategy.h\<close>: threads that wait on a
  condition variable for elements.  A notification wakes only threads that are already blocked.
\<close>

section \<open>ThreadSafeQueue\<close>

text \<open>Where a thread is in \<^verbatim>\<open>WaitDequeue\<close>; \<open>Testing\<close> and \<open>Refused\<close> hold the mutex, \<open>Refused\<close> after the condition was false.\<close>

datatype wait_pc = Outside | Testing | Refused | Blocked | Woken

record 'a ts_queue =
  tq_queue :: "'a list"
  tq_break :: bool
  tq_owner :: "nat option"
  tq_pc :: "nat \<Rightarrow> wait_pc"

definition ThreadSafeQueue :: "'a ts_queue" where
  "ThreadSafeQueue = \<lparr>tq_queue = [], tq_break = False, tq_owner = None, tq_pc = (\<lambda>_. Outside)\<rparr>"

definition tq_Dequeue :: "'a ts_queue \<Rightarrow> 'a option \<times> 'a ts_queue" where
  "tq_Dequeue q = (case tq_queue q of [] \<Rightarrow> (None, q) | x # xs \<Rightarrow> (Some x, q\<lparr>tq_queue := xs\<rparr>))"

definition tq_Size :: "'a ts_queue \<Rightarrow> nat" where "tq_Size q = length (tq_queue q)"
definition tq_Empty :: "'a ts_queue \<Rightarrow> bool" where "tq_Empty q \<longleftrightarrow> tq_queue q = []"

text \<open>\<^verbatim>\<open>notify_one\<close> wakes some blocked thread when there is one, \<^verbatim>\<open>notify_all\<close> all.\<close>

definition notified_one :: "(nat \<Rightarrow> wait_pc) \<Rightarrow> (nat \<Rightarrow> wait_pc) \<Rightarrow> bool" where
  "notified_one pc pc' \<longleftrightarrow> (if \<exists>t. pc t = Blocked then \<exists>t. pc t = Blocked \<and> pc' = pc(t := Woken) else pc' = pc)"

definition notify_all :: "(nat \<Rightarrow> wait_pc) \<Rightarrow> nat \<Rightarrow> wait_pc" where
  "notify_all pc = (\<lambda>t. if pc t = Blocked then Woken else pc t)"

inductive tq_step :: "'a ts_queue \<Rightarrow> 'a ts_queue \<Rightarrow> bool" where
  Enqueue: "tq_owner q = None \<Longrightarrow> notified_one (tq_pc q) pc' \<Longrightarrow> tq_step q (q\<lparr>tq_queue := tq_queue q @ [x], tq_pc := pc'\<rparr>)"
| Dequeue: "tq_owner q = None \<Longrightarrow> tq_Dequeue q = (r, q') \<Longrightarrow> tq_step q q'"
| Lock: "tq_owner q = None \<Longrightarrow> tq_pc q t \<in> {Outside, Woken} \<Longrightarrow> tq_step q (q\<lparr>tq_owner := Some t, tq_pc := (tq_pc q)(t := Testing)\<rparr>)"
| Broken: "tq_pc q t = Testing \<Longrightarrow> tq_break q \<Longrightarrow> tq_step q (q\<lparr>tq_owner := None, tq_pc := (tq_pc q)(t := Outside)\<rparr>)"
| Take: "tq_pc q t = Testing \<Longrightarrow> \<not> tq_break q \<Longrightarrow> tq_queue q = x # xs \<Longrightarrow>
    tq_step q (q\<lparr>tq_queue := xs, tq_owner := None, tq_pc := (tq_pc q)(t := Outside)\<rparr>)"
| Refuse: "tq_pc q t = Testing \<Longrightarrow> \<not> tq_break q \<Longrightarrow> tq_queue q = [] \<Longrightarrow> tq_step q (q\<lparr>tq_pc := (tq_pc q)(t := Refused)\<rparr>)"
| Block: "tq_pc q t = Refused \<Longrightarrow> tq_step q (q\<lparr>tq_owner := None, tq_pc := (tq_pc q)(t := Blocked)\<rparr>)"
| BreakAllWait: "tq_step q (q\<lparr>tq_break := True, tq_pc := notify_all (tq_pc q)\<rparr>)"

text \<open>Threads that will look at the queue before they sleep again.\<close>

definition seeking :: "(nat \<Rightarrow> wait_pc) \<Rightarrow> nat set" where "seeking pc = {t. pc t \<in> {Testing, Woken}}"

definition tq_inv :: "'a ts_queue \<Rightarrow> bool" where
  "tq_inv q \<longleftrightarrow> (\<forall>t. tq_pc q t \<in> {Testing, Refused} \<longleftrightarrow> tq_owner q = Some t) \<and> finite {t. tq_pc q t \<noteq> Outside} \<and>
     (\<forall>t. tq_pc q t = Refused \<longrightarrow> tq_queue q = []) \<and>
     (\<not> tq_break q \<and> (\<exists>t. tq_pc q t = Blocked) \<longrightarrow> length (tq_queue q) \<le> card (seeking (tq_pc q)))"

lemma finite_seeking: "tq_inv q \<Longrightarrow> finite (seeking (tq_pc q))"
  by (rule finite_subset [of _ "{t. tq_pc q t \<noteq> Outside}"]) (auto simp: tq_inv_def seeking_def)

lemma seeking_upd:
  "seeking (pc(t := c)) = (if c \<in> {Testing, Woken} then insert t (seeking pc) else seeking pc - {t})"
  by (auto simp: seeking_def)

lemma finite_busy: "finite {t. pc t \<noteq> Outside} \<Longrightarrow> finite {t. (pc(u := c)) t \<noteq> Outside}"
  by (rule finite_subset [of _ "insert u {t. pc t \<noteq> Outside}"]) auto

lemma tq_inv_start: "tq_inv ThreadSafeQueue"
  by (simp add: tq_inv_def ThreadSafeQueue_def)

lemma tq_inv_Enqueue:
  assumes inv: "tq_inv q" and o: "tq_owner q = None" and n: "notified_one (tq_pc q) pc'"
  shows "tq_inv (q\<lparr>tq_queue := tq_queue q @ [x], tq_pc := pc'\<rparr>)"
proof (cases "\<exists>t. tq_pc q t = Blocked")
  case True
  then obtain u where u: "tq_pc q u = Blocked" "pc' = (tq_pc q)(u := Woken)" using n by (auto simp: notified_one_def)
  then have "u \<notin> seeking (tq_pc q)" by (simp add: seeking_def)
  then have "card (seeking pc') = Suc (card (seeking (tq_pc q)))" using finite_seeking [OF inv] u(2) by (simp add: seeking_upd)
  moreover have "finite {t. tq_pc q t \<noteq> Outside}" using inv by (simp add: tq_inv_def)
  then have "finite {t. pc' t \<noteq> Outside}" unfolding u(2) by (rule finite_busy)
  ultimately show ?thesis using inv o True u by (auto simp: tq_inv_def)
next
  case False
  then have "pc' = tq_pc q" using n by (simp add: notified_one_def)
  then show ?thesis using inv o False by (auto simp: tq_inv_def)
qed

lemma tq_inv_move:
  assumes inv: "tq_inv q" and "\<forall>s. ((tq_pc q)(t := c)) s \<in> {Testing, Refused} \<longleftrightarrow> ow = Some s"
    and "c = Refused \<Longrightarrow> xs = []" and "\<And>s. s \<noteq> t \<Longrightarrow> tq_pc q s \<noteq> Refused \<or> xs = []"
    and "\<not> tq_break q \<Longrightarrow> (\<exists>s. ((tq_pc q)(t := c)) s = Blocked) \<Longrightarrow> length xs \<le> card (seeking ((tq_pc q)(t := c)))"
  shows "tq_inv (q\<lparr>tq_queue := xs, tq_owner := ow, tq_pc := (tq_pc q)(t := c)\<rparr>)"
  using assms finite_busy [of "tq_pc q" t c] by (auto simp: tq_inv_def split: if_splits)

lemma tq_inv_BreakAllWait: "tq_inv q \<Longrightarrow> tq_inv (q\<lparr>tq_break := True, tq_pc := notify_all (tq_pc q)\<rparr>)"
proof -
  assume inv: "tq_inv q"
  have "{t. notify_all (tq_pc q) t \<noteq> Outside} = {t. tq_pc q t \<noteq> Outside}" by (auto simp: notify_all_def)
  moreover have "notify_all (tq_pc q) t \<in> {Testing, Refused} \<longleftrightarrow> tq_pc q t \<in> {Testing, Refused}"
    "notify_all (tq_pc q) t = Refused \<longleftrightarrow> tq_pc q t = Refused" for t by (auto simp: notify_all_def)
  ultimately show ?thesis using inv unfolding tq_inv_def by simp
qed

lemma tq_inv_step:
  assumes "tq_step q q'" and inv: "tq_inv q"
  shows "tq_inv q'"
  using assms(1)
proof cases
  case (Enqueue pc' x)
  then show ?thesis using tq_inv_Enqueue [OF inv] by simp
next
  case (Dequeue r)
  then show ?thesis using inv by (auto simp: tq_Dequeue_def tq_inv_def split: list.splits)
next
  case (Lock t)
  have no: "\<forall>s. tq_pc q s \<notin> {Testing, Refused}" using inv Lock(2) by (auto simp: tq_inv_def)
  have "length (tq_queue q) \<le> card (seeking ((tq_pc q)(t := Testing)))" if b: "\<not> tq_break q" "\<exists>s. ((tq_pc q)(t := Testing)) s = Blocked"
  proof -
    have "\<not> tq_break q \<and> (\<exists>s. tq_pc q s = Blocked)" using b by (auto split: if_splits)
    then have "length (tq_queue q) \<le> card (seeking (tq_pc q))" using inv by (auto simp: tq_inv_def)
    also have "\<dots> \<le> card (seeking ((tq_pc q)(t := Testing)))" using finite_seeking [OF inv] by (auto simp: seeking_upd intro: card_mono)
    finally show ?thesis .
  qed
  then have "tq_inv (q\<lparr>tq_queue := tq_queue q, tq_owner := Some t, tq_pc := (tq_pc q)(t := Testing)\<rparr>)"
    using no by (intro tq_inv_move [OF inv]) auto
  then show ?thesis using Lock(1) by simp
next
  case (Broken t)
  have o: "\<forall>s. tq_pc q s \<in> {Testing, Refused} \<longleftrightarrow> s = t" using inv Broken(2) by (auto simp: tq_inv_def)
  have "tq_inv (q\<lparr>tq_queue := tq_queue q, tq_owner := None, tq_pc := (tq_pc q)(t := Outside)\<rparr>)"
    using o Broken(3) by (intro tq_inv_move [OF inv]) auto
  then show ?thesis using Broken(1) by simp
next
  case (Take t x xs)
  have o: "\<forall>s. tq_pc q s \<in> {Testing, Refused} \<longleftrightarrow> s = t" using inv Take(2) by (auto simp: tq_inv_def)
  have "length xs \<le> card (seeking ((tq_pc q)(t := Outside)))" if "\<exists>s. ((tq_pc q)(t := Outside)) s = Blocked"
  proof -
    have "\<exists>s. tq_pc q s = Blocked" using that by (auto split: if_splits)
    then have "Suc (length xs) \<le> card (seeking (tq_pc q))" using inv Take(3,4) by (auto simp: tq_inv_def)
    moreover have "t \<in> seeking (tq_pc q)" using Take(2) by (simp add: seeking_def)
    ultimately show ?thesis using finite_seeking [OF inv] by (simp add: seeking_upd card_Diff_singleton)
  qed
  then have "tq_inv (q\<lparr>tq_queue := xs, tq_owner := None, tq_pc := (tq_pc q)(t := Outside)\<rparr>)"
    using o by (intro tq_inv_move [OF inv]) auto
  then show ?thesis using Take(1) by simp
next
  case (Refuse t)
  have o: "\<forall>s. tq_pc q s \<in> {Testing, Refused} \<longleftrightarrow> s = t" "tq_owner q = Some t" using inv Refuse(2) by (auto simp: tq_inv_def)
  have "tq_inv (q\<lparr>tq_queue := tq_queue q, tq_owner := Some t, tq_pc := (tq_pc q)(t := Refused)\<rparr>)"
    using o Refuse(4) by (intro tq_inv_move [OF inv]) auto
  then show ?thesis using Refuse(1) o(2) by (cases q) simp
next
  case (Block t)
  have o: "\<forall>s. tq_pc q s \<in> {Testing, Refused} \<longleftrightarrow> s = t" "tq_queue q = []" using inv Block(2) by (auto simp: tq_inv_def)
  have "tq_inv (q\<lparr>tq_queue := tq_queue q, tq_owner := None, tq_pc := (tq_pc q)(t := Blocked)\<rparr>)"
    using o by (intro tq_inv_move [OF inv]) auto
  then show ?thesis using Block(1) by simp
next
  case BreakAllWait
  then show ?thesis using tq_inv_BreakAllWait [OF inv] by simp
qed

lemma tq_reachable_inv: "tq_step\<^sup>*\<^sup>* ThreadSafeQueue q \<Longrightarrow> tq_inv q"
  by (induction rule: rtranclp_induct) (auto intro: tq_inv_start tq_inv_step)

text \<open>The flag of \<^verbatim>\<open>BreakAllWait\<close> is set without the mutex, so that a thread between the test and the wait misses it.\<close>

lemma break_lost_before_wait:
  "\<exists>q. tq_step\<^sup>*\<^sup>* (ThreadSafeQueue :: 'a ts_queue) q \<and> tq_break q \<and> tq_pc q t = Blocked \<and> (\<forall>s. tq_pc q s \<noteq> Woken)"
proof -
  let ?st = "\<lambda>b ow c. \<lparr>tq_queue = [], tq_break = b, tq_owner = ow, tq_pc = (\<lambda>_. Outside)(t := c)\<rparr> :: 'a ts_queue"
  have "tq_step (ThreadSafeQueue :: 'a ts_queue) (?st False (Some t) Testing)"
    using tq_step.Lock [of "ThreadSafeQueue :: 'a ts_queue" t] by (simp add: ThreadSafeQueue_def)
  moreover have "tq_step (?st False (Some t) Testing) (?st False (Some t) Refused)"
    using tq_step.Refuse [of "?st False (Some t) Testing" t] by simp
  moreover have "notify_all ((\<lambda>_. Outside)(t := Refused)) = (\<lambda>_. Outside)(t := Refused)" by (auto simp: notify_all_def)
  then have "tq_step (?st False (Some t) Refused) (?st True (Some t) Refused)"
    using tq_step.BreakAllWait [of "?st False (Some t) Refused"] by simp
  moreover have "tq_step (?st True (Some t) Refused) (?st True None Blocked)" using tq_step.Block [of "?st True (Some t) Refused" t] by simp
  ultimately have "tq_step\<^sup>*\<^sup>* ThreadSafeQueue (?st True None Blocked)" by (meson converse_rtranclp_into_rtranclp rtranclp.rtrancl_refl)
  then show ?thesis by (intro exI [of _ "?st True None Blocked"]) simp
qed

section \<open>ThreadPool\<close>

text \<open>
  Where a worker is: at the head of its loop, in \<^verbatim>\<open>WaitDequeue\<close> before \<^verbatim>\<open>Dequeue\<close>, after one that failed, in \<^verbatim>\<open>EmptyWait\<close>, or at its task.
\<close>

datatype 'a worker_pc = Loop | Fetching | Missed | Sleeping | Notified | Running 'a | Exited

record 'a thread_pool =
  pl_queue :: "'a bounded_queue"
  pl_stop :: bool
  pl_pc :: "nat \<Rightarrow> 'a worker_pc"
  pl_done :: "'a list"

text \<open>\<open>None\<close> is the exception when the queue cannot be made.  Workers from \<open>threads\<close> on do not exist.\<close>

definition ThreadPool :: "bool \<Rightarrow> 'a \<Rightarrow> nat \<Rightarrow> u64 \<Rightarrow> 'a thread_pool option" where
  "ThreadPool alloc_ok dflt threads max_task_num =
     (case bq_Init alloc_ok dflt max_task_num of
        None \<Rightarrow> None
      | Some q \<Rightarrow> Some \<lparr>pl_queue = q, pl_stop = False, pl_pc = (\<lambda>t. if t < threads then Loop else Exited), pl_done = []\<rparr>)"

text \<open>\<^verbatim>\<open>Enqueue\<close>: whether the future is valid; that the queue may have refused the task is not looked at.\<close>

inductive worker_step :: "'a thread_pool \<Rightarrow> 'a thread_pool \<Rightarrow> bool" where
  Next: "pl_pc p t = Loop \<Longrightarrow> worker_step p (p\<lparr>pl_pc := (pl_pc p)(t := if pl_stop p then Exited else Fetching)\<rparr>)"
| Give_Up: "pl_pc p t = Fetching \<Longrightarrow> bq_break_all_wait (pl_queue p) \<Longrightarrow> worker_step p (p\<lparr>pl_pc := (pl_pc p)(t := Loop)\<rparr>)"
| Fetch: "pl_pc p t = Fetching \<Longrightarrow> \<not> bq_break_all_wait (pl_queue p) \<Longrightarrow> bq_Dequeue (pl_queue p) = (Some x, q) \<Longrightarrow>
    worker_step p (p\<lparr>pl_queue := q, pl_pc := (pl_pc p)(t := Running x)\<rparr>)"
| Miss: "pl_pc p t = Fetching \<Longrightarrow> \<not> bq_break_all_wait (pl_queue p) \<Longrightarrow> bq_Dequeue (pl_queue p) = (None, q) \<Longrightarrow>
    worker_step p (p\<lparr>pl_pc := (pl_pc p)(t := Missed)\<rparr>)"
| Sleep: "pl_pc p t = Missed \<Longrightarrow> worker_step p (p\<lparr>pl_pc := (pl_pc p)(t := Sleeping)\<rparr>)"
| Wake: "pl_pc p t = Notified \<Longrightarrow> worker_step p (p\<lparr>pl_pc := (pl_pc p)(t := Fetching)\<rparr>)"
| Run: "pl_pc p t = Running x \<Longrightarrow> worker_step p (p\<lparr>pl_pc := (pl_pc p)(t := Loop), pl_done := pl_done p @ [x]\<rparr>)"
| Submit: "\<not> pl_stop p \<Longrightarrow> bq_Enqueue x (pl_queue p) = (ok, q) \<Longrightarrow> \<not> ok \<or> (\<forall>t. pl_pc p t \<noteq> Sleeping) \<Longrightarrow> worker_step p (p\<lparr>pl_queue := q\<rparr>)"
| Submit_Notify: "\<not> pl_stop p \<Longrightarrow> bq_Enqueue x (pl_queue p) = (True, q) \<Longrightarrow> pl_pc p t = Sleeping \<Longrightarrow>
    worker_step p (p\<lparr>pl_queue := q, pl_pc := (pl_pc p)(t := Notified)\<rparr>)"
| Stop: "\<not> pl_stop p \<Longrightarrow> worker_step p (p\<lparr>pl_stop := True, pl_queue := bq_BreakAllWait (pl_queue p),
    pl_pc := (\<lambda>t. if pl_pc p t = Sleeping then Notified else pl_pc p t)\<rparr>)"

text \<open>No worker can do anything until another task is submitted or the pool is stopped.\<close>

definition all_asleep :: "'a thread_pool \<Rightarrow> bool" where
  "all_asleep p \<longleftrightarrow> (\<forall>t. pl_pc p t \<in> {Sleeping, Exited})"

lemma asleep_until_submit:
  assumes "all_asleep p" "worker_step p p'"
  shows "pl_done p' = pl_done p \<and> (pl_stop p' \<or> (\<exists>x ok. bq_Enqueue x (pl_queue p) = (ok, pl_queue p')))"
proof -
  have no: "pl_pc p t \<noteq> Loop" "pl_pc p t \<noteq> Fetching" "pl_pc p t \<noteq> Missed" "pl_pc p t \<noteq> Notified" "pl_pc p t \<noteq> Running x" for t x
    using assms(1) by (auto simp: all_asleep_def dest!: spec [of _ t])
  from assms(2) show ?thesis
  proof cases
    case (Submit x ok q)
    then show ?thesis by auto
  next
    case (Submit_Notify x q t)
    then show ?thesis by auto
  next
    case Stop
    then show ?thesis by auto
  qed (use no in simp_all)
qed

text \<open>A pool of one worker that has missed a task, before and after the worker waits.\<close>

lemma missed_run:
  assumes p: "ThreadPool True dflt 1 limit = Some p"
  shows "worker_step\<^sup>*\<^sup>* p (p\<lparr>pl_pc := (pl_pc p)(0 := Missed)\<rparr>)"
proof -
  have q: "pl_pc p 0 = Loop" "\<not> pl_stop p" "\<not> bq_break_all_wait (pl_queue p)" "bq_Dequeue (pl_queue p) = (None, pl_queue p)"
    using p by (auto simp: ThreadPool_def bq_Init_def bq_Dequeue_def Let_def)
  let ?p1 = "p\<lparr>pl_pc := (pl_pc p)(0 := Fetching)\<rparr>"
  have "worker_step p ?p1" using worker_step.Next [of p 0] q by simp
  moreover have "worker_step ?p1 (p\<lparr>pl_pc := (pl_pc p)(0 := Missed)\<rparr>)" using worker_step.Miss [of ?p1 0 "pl_queue p"] q by simp
  ultimately show ?thesis by (meson converse_rtranclp_into_rtranclp rtranclp.rtrancl_refl)
qed

lemma submit_then_sleep:
  assumes p: "ThreadPool True dflt 1 limit = Some p" and e: "bq_Enqueue x (pl_queue p) = (True, q)"
  defines "p' \<equiv> p\<lparr>pl_queue := q, pl_pc := (pl_pc p)(0 := Sleeping)\<rparr>"
  shows "worker_step\<^sup>*\<^sup>* p p' \<and> all_asleep p' \<and> pl_done p' = []"
proof -
  let ?p1 = "p\<lparr>pl_pc := (pl_pc p)(0 := Missed)\<rparr>" and ?p2 = "p\<lparr>pl_queue := q, pl_pc := (pl_pc p)(0 := Missed)\<rparr>"
  have pc: "\<forall>t. pl_pc p t = (if t < 1 then Loop else Exited)" "\<not> pl_stop p" "pl_done p = []"
    using p by (auto simp: ThreadPool_def bq_Init_def)
  have "worker_step ?p1 (?p1\<lparr>pl_queue := q\<rparr>)" by (rule worker_step.Submit [where x = x and ok = True]) (use e pc in auto)
  then have "worker_step ?p1 ?p2" by (cases p) simp
  moreover have "worker_step ?p2 p'" using worker_step.Sleep [of ?p2 0] by (cases p) (simp add: p'_def)
  ultimately have "worker_step\<^sup>*\<^sup>* p p'" using missed_run [OF p] by (meson rtranclp.rtrancl_into_rtrancl)
  then show ?thesis using pc by (auto simp: all_asleep_def p'_def)
qed

section \<open>Properties\<close>

text \<open>
  Claim C37. No element is left behind while threads sleep: whenever the queue of a \<^verbatim>\<open>ThreadSafeQueue\<close> is not empty and a thread is
  blocked in \<^verbatim>\<open>WaitDequeue\<close>, at least as many other threads as there are elements have been woken or hold the mutex and will test
  the queue again, as long as waiting was not broken off.
\<close>

theorem sleeping_threads_leave_nothing:
  assumes "tq_step\<^sup>*\<^sup>* ThreadSafeQueue q" "\<not> tq_break q" "tq_pc q t = Blocked"
  shows "length (tq_queue q) \<le> card {s. tq_pc q s \<in> {Testing, Woken}} \<and> (\<forall>s. tq_pc q s = Testing \<longrightarrow> tq_owner q = Some s)"
  using tq_reachable_inv [OF assms(1)] assms(2,3) unfolding tq_inv_def seeking_def by auto

theorem sleeping_threads_leave_nothing_witness:
  "\<exists>q :: nat ts_queue. tq_step\<^sup>*\<^sup>* ThreadSafeQueue q \<and> tq_queue q = [7] \<and> tq_pc q 1 = Blocked \<and> 1 \<le> card {s. tq_pc q s \<in> {Testing, Woken}}"
proof -
  let ?st = "\<lambda>xs ow pc. \<lparr>tq_queue = xs, tq_break = False, tq_owner = ow, tq_pc = pc\<rparr> :: nat ts_queue"
  let ?o = "\<lambda>_ :: nat. Outside"
  have wait: "tq_step\<^sup>*\<^sup>* (?st [] None pc) (?st [] None (pc(t := Blocked)))" if "pc t = Outside" for pc t
  proof -
    have "tq_step (?st [] None pc) (?st [] (Some t) (pc(t := Testing)))" using tq_step.Lock [of "?st [] None pc" t] that by simp
    moreover have "tq_step (?st [] (Some t) (pc(t := Testing))) (?st [] (Some t) (pc(t := Refused)))"
      using tq_step.Refuse [of "?st [] (Some t) (pc(t := Testing))" t] by simp
    moreover have "tq_step (?st [] (Some t) (pc(t := Refused))) (?st [] None (pc(t := Blocked)))"
      using tq_step.Block [of "?st [] (Some t) (pc(t := Refused))" t] by simp
    ultimately show ?thesis by (meson converse_rtranclp_into_rtranclp rtranclp.rtrancl_refl)
  qed
  let ?b = "?o(0 := Blocked, 1 := Blocked)"
  have "tq_step\<^sup>*\<^sup>* ThreadSafeQueue (?st [] None ?b)"
    using rtranclp_trans [OF wait [of ?o 0] wait [of "?o(0 := Blocked)" 1]] by (simp add: ThreadSafeQueue_def)
  moreover have "notified_one ?b (?b(0 := Woken))" by (auto simp: notified_one_def intro!: exI [of _ 0])
  then have "tq_step (?st [] None ?b) (?st [7] None (?b(0 := Woken)))" using tq_step.Enqueue [of "?st [] None ?b" "?b(0 := Woken)" 7] by simp
  ultimately have run: "tq_step\<^sup>*\<^sup>* ThreadSafeQueue (?st [7] None (?b(0 := Woken)))" by (rule rtranclp.rtrancl_into_rtrancl)
  define q where "q = ?st [7] None (?b(0 := Woken))"
  have q: "tq_step\<^sup>*\<^sup>* ThreadSafeQueue q" "\<not> tq_break q" "tq_pc q 1 = Blocked" "tq_queue q = [7]" using run by (simp_all add: q_def)
  then show ?thesis using sleeping_threads_leave_nothing [OF q(1-3)] by (intro exI [of _ q]) (simp only: list.size, simp)
qed

text \<open>
  A task of a \<^verbatim>\<open>ThreadPool\<close> can be left waiting while its workers sleep: with one worker that has found the queue empty and
  not yet blocked, a task that is submitted then is in the queue with all workers asleep, and no step is possible that runs it before
  another task is submitted or the pool is stopped.
\<close>

lemma pool_task_left_waiting:
  assumes "ThreadPool True dflt 1 limit = Some p" "bq_Enqueue x (pl_queue p) = (True, q)"
  shows "\<exists>p'. worker_step\<^sup>*\<^sup>* p p' \<and> pl_queue p' = q \<and> pl_done p' = [] \<and> \<not> pl_stop p' \<and>
    (\<forall>p''. worker_step p' p'' \<longrightarrow> pl_done p'' = [] \<and> (pl_stop p'' \<or> (\<exists>y ok. bq_Enqueue y q = (ok, pl_queue p''))))"
proof -
  let ?p = "p\<lparr>pl_queue := q, pl_pc := (pl_pc p)(0 := Sleeping)\<rparr>"
  note r = submit_then_sleep [OF assms]
  have "\<not> pl_stop ?p" using assms(1) by (auto simp: ThreadPool_def bq_Init_def)
  moreover have "\<forall>p''. worker_step ?p p'' \<longrightarrow> pl_done p'' = [] \<and> (pl_stop p'' \<or> (\<exists>y ok. bq_Enqueue y q = (ok, pl_queue p'')))"
    using asleep_until_submit [of ?p] r by auto
  ultimately show ?thesis using r by (intro exI [of _ ?p]) simp
qed

lemma pool_task_left_waiting_witness:
  "\<exists>p q. ThreadPool True 0 1 1000 = Some p \<and> bq_Enqueue (7 :: nat) (pl_queue p) = (True, q) \<and>
     (\<exists>p'. worker_step\<^sup>*\<^sup>* p p' \<and> pl_queue p' = q \<and> pl_done p' = [] \<and> \<not> pl_stop p' \<and>
       (\<forall>p''. worker_step p' p'' \<longrightarrow> pl_done p'' = [] \<and> (pl_stop p'' \<or> (\<exists>y ok. bq_Enqueue y q = (ok, pl_queue p'')))))"
proof -
  obtain p :: "nat thread_pool" where p: "ThreadPool True 0 1 1000 = Some p" by (auto simp: ThreadPool_def bq_Init_def)
  have "fst (bq_Enqueue 7 (pl_queue p))" using p by (auto simp: ThreadPool_def bq_Init_def bq_Enqueue_def bq_GetIndex_def Let_def)
  then obtain q where q: "bq_Enqueue 7 (pl_queue p) = (True, q)" by (cases "bq_Enqueue 7 (pl_queue p)") auto
  show ?thesis using p q pool_task_left_waiting [OF p q] by blast
qed

end
