(* ===== verification/Files.thy ===== *)
theory Files
  imports Cyber_Prelude
begin

text \<open>
  \<^verbatim>\<open>cyber/common/file.cc\<close> and \<^verbatim>\<open>environment.h\<close>: the functions on paths, and what is read and made in which order.  The file system itself is
  an argument of those that use it.
\<close>

section \<open>Paths\<close>

fun rfind_from :: "nat \<Rightarrow> char \<Rightarrow> string \<Rightarrow> nat option" where
  "rfind_from i c [] = None"
| "rfind_from i c (d # s) = (case rfind_from (Suc i) c s of Some j \<Rightarrow> Some j | None \<Rightarrow> if d = c then Some i else None)"

text \<open>\<open>None\<close> is \<^verbatim>\<open>npos\<close>.\<close>

definition rfind :: "char \<Rightarrow> string \<Rightarrow> nat option" where "rfind = rfind_from 0"

definition GetFileName :: "bool \<Rightarrow> string \<Rightarrow> string" where
  "GetFileName remove_extension path =
     (let start = (case rfind CHR ''/'' path of None \<Rightarrow> 0 | Some i \<Rightarrow> Suc i);
          stop = (if remove_extension then (case rfind CHR ''.'' path of None \<Rightarrow> None | Some i \<Rightarrow> if i < start then None else Some i) else None)
      in case stop of None \<Rightarrow> drop start path | Some e \<Rightarrow> take (e - start) (drop start path))"

definition GetAbsolutePath :: "string \<Rightarrow> string \<Rightarrow> string" where
  "GetAbsolutePath prefix relative_path =
     (if relative_path = [] then prefix
      else if prefix = [] \<or> hd relative_path = CHR ''/'' then relative_path
      else if List.last prefix = CHR ''/'' then prefix @ relative_path
      else prefix @ ''/'' @ relative_path)"

definition GetEnv :: "(string \<rightharpoonup> string) \<Rightarrow> string \<Rightarrow> string \<Rightarrow> string" where
  "GetEnv env var_name default_value = (case env var_name of None \<Rightarrow> default_value | Some v \<Rightarrow> v)"

definition WorkRoot :: "(string \<rightharpoonup> string) \<Rightarrow> string" where
  "WorkRoot env = (let r = GetEnv env ''CYBER_PATH'' [] in if r = [] then ''/apollo/cyber'' else r)"

section \<open>Messages in files\<close>

datatype file_error = Read_Before_Start

text \<open>\<^verbatim>\<open>std::equal(kBinExt.rbegin(), kBinExt.rend(), file_name.rbegin())\<close>: it stops at the first difference and does not look at the length of the name.\<close>

fun equal_range :: "string \<Rightarrow> string \<Rightarrow> file_error + bool" where
  "equal_range [] t = Inr True"
| "equal_range (c # s) [] = Inl Read_Before_Start"
| "equal_range (c # s) (d # t) = (if c = d then equal_range s t else Inr False)"

definition has_bin_ext :: "string \<Rightarrow> file_error + bool" where "has_bin_ext file_name = equal_range (rev ''.bin'') (rev file_name)"

text \<open>\<open>ascii\<close> and \<open>binary\<close> are what the two parsers make of the file.\<close>

definition GetProtoFromFile :: "(string \<Rightarrow> 'm option) \<Rightarrow> (string \<Rightarrow> 'm option) \<Rightarrow> string \<Rightarrow> file_error + 'm option" where
  "GetProtoFromFile ascii binary file_name =
     (case has_bin_ext file_name of
        Inl e \<Rightarrow> Inl e
      | Inr True \<Rightarrow> Inr (case binary file_name of Some m \<Rightarrow> Some m | None \<Rightarrow> ascii file_name)
      | Inr False \<Rightarrow> Inr (case ascii file_name of Some m \<Rightarrow> Some m | None \<Rightarrow> binary file_name))"

section \<open>Directories\<close>

datatype mkdir_result = Made | Exists | Failed

type_synonym 'w mkdir = "string \<Rightarrow> 'w \<Rightarrow> mkdir_result \<times> 'w"

text \<open>The loop, at the place \<open>i\<close> of the path.\<close>

function ensure_from :: "'w mkdir \<Rightarrow> string \<Rightarrow> nat \<Rightarrow> 'w \<Rightarrow> bool \<times> 'w" where
  "ensure_from mk path i w =
     (if i < length path
      then if path ! i = CHR ''/''
           then case mk (take i path) w of (Failed, w) \<Rightarrow> (False, w) | (_, w) \<Rightarrow> ensure_from mk path (Suc i) w
           else ensure_from mk path (Suc i) w
      else case mk path w of (r, w) \<Rightarrow> (r \<noteq> Failed, w))"
  by auto
termination by (relation "measure (\<lambda>(mk, path, i, w). length path - i)") auto

declare ensure_from.simps [simp del]

definition EnsureDirectory :: "'w mkdir \<Rightarrow> string \<Rightarrow> 'w \<Rightarrow> bool \<times> 'w" where
  "EnsureDirectory mk path w = ensure_from mk path 1 w"

section \<open>Behaviour\<close>

lemma takeWhile_shorter: "c \<in> set s \<Longrightarrow> length (takeWhile (\<lambda>d. d \<noteq> c) s) < length s"
  by (induction s) auto

lemma takeWhile_none: "c \<notin> set s \<Longrightarrow> takeWhile (\<lambda>d. d \<noteq> c) (s @ t) = s @ takeWhile (\<lambda>d. d \<noteq> c) t"
  by (induction s) auto

lemma takeWhile_all: "c \<notin> set s \<Longrightarrow> takeWhile (\<lambda>d. d \<noteq> c) s = s"
  by (induction s) auto

lemma takeWhile_some: "c \<in> set s \<Longrightarrow> takeWhile (\<lambda>d. d \<noteq> c) (s @ t) = takeWhile (\<lambda>d. d \<noteq> c) s"
  by (induction s) auto

lemma rfind_from_eq:
  "rfind_from i c s = (if c \<in> set s then Some (i + (length s - 1 - length (takeWhile (\<lambda>d. d \<noteq> c) (rev s)))) else None)"
proof (induction s arbitrary: i)
  case Nil
  then show ?case by simp
next
  case (Cons d s)
  show ?case
  proof (cases "c \<in> set s")
    case True
    then show ?thesis using Cons.IH [of "Suc i"] takeWhile_shorter [of c "rev s"] takeWhile_some [of c "rev s" "[d]"] by simp
  next
    case False
    then have "takeWhile (\<lambda>d. d \<noteq> c) (rev s @ [d]) = rev s @ takeWhile (\<lambda>d. d \<noteq> c) [d]" by (simp only: takeWhile_none set_rev not_False_eq_True)
    then show ?thesis using Cons.IH [of "Suc i"] False by (cases "d = c") simp_all
  qed
qed

text \<open>The name is what comes after the last separator.\<close>

lemma GetFileName_rev: "GetFileName False path = rev (takeWhile (\<lambda>d. d \<noteq> CHR ''/'') (rev path))"
proof (cases "CHR ''/'' \<in> set path")
  case True
  let ?t = "takeWhile (\<lambda>d. d \<noteq> CHR ''/'') (rev path)"
  have "GetFileName False path = drop (length path - length ?t) path"
    using True takeWhile_shorter [of "CHR ''/''" "rev path"] by (simp add: GetFileName_def rfind_def rfind_from_eq Suc_diff_Suc)
  also have "\<dots> = rev (take (length ?t) (rev path))" by (simp add: rev_take)
  also have "take (length ?t) (rev path) = ?t" by (metis takeWhile_eq_take length_take min.absorb2 length_takeWhile_le take_take min.idem)
  finally show ?thesis .
next
  case False
  then have "takeWhile (\<lambda>d. d \<noteq> CHR ''/'') (rev path) = rev path" by (simp only: takeWhile_all set_rev not_False_eq_True)
  then show ?thesis using False by (simp add: GetFileName_def rfind_def rfind_from_eq del: takeWhile_eq_all_conv)
qed

lemma GetFileName_plain: "CHR ''/'' \<notin> set (GetFileName False path)"
  by (auto simp: GetFileName_rev dest: set_takeWhileD)

lemma GetFileName_same: "path = GetFileName False path \<longleftrightarrow> CHR ''/'' \<notin> set path"
proof
  show "CHR ''/'' \<notin> set path" if "path = GetFileName False path" using GetFileName_plain that by metis
  assume "CHR ''/'' \<notin> set path"
  then have "takeWhile (\<lambda>d. d \<noteq> CHR ''/'') (rev path) = rev path" by (simp only: takeWhile_all set_rev not_False_eq_True)
  then show "path = GetFileName False path" by (simp add: GetFileName_rev del: takeWhile_eq_all_conv)
qed

text \<open>A file that is put into a directory is found there under its name.\<close>

lemma GetFileName_GetAbsolutePath:
  assumes "CHR ''/'' \<notin> set name" "name \<noteq> []"
  shows "GetFileName False (GetAbsolutePath prefix name) = name"
proof -
  have h: "hd name \<noteq> CHR ''/''" using assms by (metis list.set_sel(1))
  have t: "takeWhile (\<lambda>d. d \<noteq> CHR ''/'') (rev name @ xs) = rev name @ takeWhile (\<lambda>d. d \<noteq> CHR ''/'') xs" for xs
    using assms(1) by (simp only: takeWhile_none set_rev not_False_eq_True)
  consider "prefix = []" | q where "prefix = q @ ''/''" | "prefix \<noteq> []" "List.last prefix \<noteq> CHR ''/''" by (metis append_butlast_last_id)
  then show ?thesis
  proof cases
    case 1
    then show ?thesis using assms(2) t [of "[]"] by (simp add: GetAbsolutePath_def GetFileName_rev del: takeWhile_eq_all_conv)
  next
    case (2 q)
    then show ?thesis using assms(2) h t [of "CHR ''/'' # rev q"] by (simp add: GetAbsolutePath_def GetFileName_rev)
  next
    case 3
    then show ?thesis using assms(2) h t [of "CHR ''/'' # rev prefix"] by (simp add: GetAbsolutePath_def GetFileName_rev)
  qed
qed

lemma GetAbsolutePath_absolute:
  assumes "prefix \<noteq> []" "hd prefix = CHR ''/''"
  shows "hd (GetAbsolutePath prefix path) = CHR ''/''"
  using assms by (auto simp: GetAbsolutePath_def)

text \<open>A name of fewer than four characters that ends like the extension is read before its start.\<close>

lemma short_name_read_before_start: "GetProtoFromFile ascii binary ''n'' = Inl Read_Before_Start"
  by (simp add: GetProtoFromFile_def has_bin_ext_def)

lemma GetProtoFromFile_long:
  assumes "4 \<le> length file_name"
  shows "GetProtoFromFile ascii binary file_name = Inr m \<longrightarrow> (m = None \<longleftrightarrow> ascii file_name = None \<and> binary file_name = None)"
    and "\<exists>m. GetProtoFromFile ascii binary file_name = Inr m"
proof -
  have e: "\<exists>b. equal_range s t = Inr b" if "length s \<le> length t" for s t
    using that by (induction s t rule: equal_range.induct) auto
  obtain b where "has_bin_ext file_name = Inr b" unfolding has_bin_ext_def using e [of "rev ''.bin''" "rev file_name"] assms by auto
  then show "GetProtoFromFile ascii binary file_name = Inr m \<longrightarrow> (m = None \<longleftrightarrow> ascii file_name = None \<and> binary file_name = None)"
    and "\<exists>m. GetProtoFromFile ascii binary file_name = Inr m"
    by (auto simp: GetProtoFromFile_def split: bool.split option.split)
qed

text \<open>
  A directory is made after those on the way to it: with a \<^verbatim>\<open>mkdir\<close> that adds to the set of directories and fails for some paths, all of them
  are there when \<^verbatim>\<open>EnsureDirectory\<close> succeeds.
\<close>

definition mkdir_in :: "(string \<Rightarrow> bool) \<Rightarrow> string set mkdir" where
  "mkdir_in fails path dirs = (if path \<in> dirs then (Exists, dirs) else if fails path then (Failed, dirs) else (Made, insert path dirs))"

lemma ensure_from_makes:
  assumes "ensure_from (mkdir_in fails) path i dirs = (True, dirs')"
  shows "dirs \<subseteq> dirs' \<and> path \<in> dirs' \<and> (\<forall>j. i \<le> j \<longrightarrow> j < length path \<longrightarrow> path ! j = CHR ''/'' \<longrightarrow> take j path \<in> dirs')"
  using assms
proof (induction "mkdir_in fails" path i dirs rule: ensure_from.induct)
  case (1 path i w)
  show ?case
  proof (cases "i < length path")
    case i: True
    have step: "(\<forall>j. i \<le> j \<longrightarrow> P j) \<longleftrightarrow> P i \<and> (\<forall>j. Suc i \<le> j \<longrightarrow> P j)" for P by (metis Suc_leD Suc_leI le_neq_implies_less order_refl)
    show ?thesis
    proof (cases "path ! i = CHR ''/''")
      case True
      obtain r w1 where m: "mkdir_in fails (take i path) w = (r, w1)" by fastforce
      have r: "r \<noteq> Failed" "ensure_from (mkdir_in fails) path (Suc i) w1 = (True, dirs')"
        using "1.prems" i True m by (subst (asm) ensure_from.simps, auto split: mkdir_result.splits)+
      have w: "w \<subseteq> w1" "take i path \<in> w1" using m r(1) by (auto simp: mkdir_in_def split: if_splits)
      have "w1 \<subseteq> dirs' \<and> path \<in> dirs' \<and> (\<forall>j. Suc i \<le> j \<longrightarrow> j < length path \<longrightarrow> path ! j = CHR ''/'' \<longrightarrow> take j path \<in> dirs')"
        using "1.hyps" i True m r by (cases r) auto
      then show ?thesis unfolding step using w by blast
    next
      case False
      have "ensure_from (mkdir_in fails) path (Suc i) w = (True, dirs')" using "1.prems" i False by (subst (asm) ensure_from.simps) simp
      then show ?thesis unfolding step using "1.hyps" i False by auto
    qed
  next
    case False
    then show ?thesis using "1.prems" by (subst (asm) ensure_from.simps) (auto simp: mkdir_in_def split: if_splits)
  qed
qed

lemma EnsureDirectory_makes:
  assumes "EnsureDirectory (mkdir_in fails) path dirs = (True, dirs')"
  shows "path \<in> dirs' \<and> (\<forall>j. 0 < j \<longrightarrow> j < length path \<longrightarrow> path ! j = CHR ''/'' \<longrightarrow> take j path \<in> dirs')"
  using ensure_from_makes [OF assms [unfolded EnsureDirectory_def]] by (simp add: Suc_le_eq)

end
