(* ===== verification/Components.thy ===== *)
theory Components
  imports Nodes Data_Fusion Schedulers Timers Files
begin

text \<open>
  \<^verbatim>\<open>cyber/component\<close>: a component has a node and the readers of its configuration.  In reality mode a coroutine hands it the messages
  that the data visitor fuses; in simulation mode the reader of the first channel calls it with the newest messages of the blockers of the
  others.  Shown here: which messages a component is called with in simulation mode, and that it is called with none after its shutdown.
\<close>

section \<open>ComponentBase\<close>

record reader_option =
  ro_channel :: string
  ro_qos :: qos_profile
  ro_pending_queue_size :: u32

record component_config =
  cc_name :: string
  cc_config_file_path :: string
  cc_flag_file_path :: string
  cc_readers :: "reader_option list"

record 'm component =
  co_shutdown :: bool
  co_node :: "'m node option"
  co_config_file_path :: string
  co_readers :: "'m node_reader list"

definition ComponentBase :: "'m component" where
  "ComponentBase = \<lparr>co_shutdown = False, co_node = None, co_config_file_path = [], co_readers = []\<rparr>"

text \<open>\<open>root\<close> is \<^verbatim>\<open>WorkRoot()\<close>.  The second result is the value given to the option \<^verbatim>\<open>flagfile\<close>, if one is.\<close>

definition absolute_if_relative :: "string \<Rightarrow> string \<Rightarrow> string" where
  "absolute_if_relative root path = (if hd path \<noteq> CHR ''/'' then GetAbsolutePath root path else path)"

definition LoadConfigFiles :: "string \<Rightarrow> string \<Rightarrow> string \<Rightarrow> 'm component \<Rightarrow> 'm component \<times> string option" where
  "LoadConfigFiles root config_path flag_path c =
     (if config_path = [] then c else c\<lparr>co_config_file_path := absolute_if_relative root config_path\<rparr>,
      if flag_path = [] then None else Some (absolute_if_relative root flag_path))"

text \<open>What a component reaches beside itself.\<close>

record 'm co_world =
  cw_nodes :: "'m node_world"
  cw_data :: "'m data_world"
  cw_sched :: sched
  cw_global :: global_data

datatype component_error = Node_Error node_error | Null_Node | Task_Loops | Null_Blocker

definition remove_task :: "(string \<Rightarrow> u64) \<Rightarrow> policy \<Rightarrow> string \<Rightarrow> 'm co_world \<Rightarrow> component_error + 'm co_world" where
  "remove_task hash pol name w = (case RemoveTask hash pol name (cw_sched w) of None \<Rightarrow> Inl Task_Loops | Some (ok, s) \<Rightarrow> Inr (w\<lparr>cw_sched := s\<rparr>))"

definition reader_Shutdown :: "(string \<Rightarrow> u64) \<Rightarrow> policy \<Rightarrow> 'm node_reader \<Rightarrow> 'm co_world \<Rightarrow> component_error + ('m node_reader \<times> 'm co_world)" where
  "reader_Shutdown hash pol r w =
     (case r of
        Sim_Reader ir \<Rightarrow>
          (case ir_Shutdown ir (nw_blockers (cw_nodes w)) of (ir, bm) \<Rightarrow> Inr (Sim_Reader ir, w\<lparr>cw_nodes := (cw_nodes w)\<lparr>nw_blockers := bm\<rparr>\<rparr>))
      | Real_Reader rr \<Rightarrow>
          (case Reader_Shutdown rr of
             (None, rr) \<Rightarrow> Inr (Real_Reader rr, w)
           | (Some name, rr) \<Rightarrow> (case remove_task hash pol name w of Inl e \<Rightarrow> Inl e | Inr w \<Rightarrow> Inr (Real_Reader rr, w))))"

fun shutdown_readers :: "(string \<Rightarrow> u64) \<Rightarrow> policy \<Rightarrow> 'm node_reader list \<Rightarrow> 'm co_world \<Rightarrow> component_error + ('m node_reader list \<times> 'm co_world)" where
  "shutdown_readers hash pol [] w = Inr ([], w)"
| "shutdown_readers hash pol (r # rs) w =
     (case reader_Shutdown hash pol r w of
        Inl e \<Rightarrow> Inl e
      | Inr (r, w) \<Rightarrow> (case shutdown_readers hash pol rs w of Inl e \<Rightarrow> Inl e | Inr (rs, w) \<Rightarrow> Inr (r # rs, w)))"

text \<open>\<^verbatim>\<open>Clear\<close> does nothing unless a subclass overrides it; a component that was never initialised has no node.\<close>

definition Component_Shutdown :: "(string \<Rightarrow> u64) \<Rightarrow> policy \<Rightarrow> 'm component \<Rightarrow> 'm co_world \<Rightarrow> component_error + ('m component \<times> 'm co_world)" where
  "Component_Shutdown hash pol c w =
     (if co_shutdown c then Inr (c, w)
      else case shutdown_readers hash pol (co_readers c) w of
             Inl e \<Rightarrow> Inl e
           | Inr (rs, w) \<Rightarrow>
               (case co_node c of
                  None \<Rightarrow> Inl Null_Node
                | Some nd \<Rightarrow>
                    (case remove_task hash pol (field [] (attr_node_name (no_attr nd))) w of
                       Inl e \<Rightarrow> Inl e
                     | Inr w \<Rightarrow> Inr (c\<lparr>co_shutdown := True, co_readers := rs\<rparr>, w))))"

section \<open>Component\<close>

text \<open>
  The surroundings of an \<^verbatim>\<open>Initialize\<close>: the process, the types of the messages, what the calls of the scheduler and the transport for
  the reader of a channel give, the addresses of the buffers of the data visitor, and the \<^verbatim>\<open>Init\<close> of the user.
\<close>

record 'm co_env =
  ce_host :: string
  ce_ip :: string
  ce_pid :: int
  ce_node_id :: "string \<Rightarrow> u64"
  ce_channel_id :: "string \<Rightarrow> u64"
  ce_reality :: bool
  ce_work_root :: string
  ce_types :: "string list"
  ce_desc :: "string \<Rightarrow> string"
  ce_task_ok :: "nat \<Rightarrow> bool"
  ce_created :: "nat \<Rightarrow> u64 option"
  ce_hash :: "string \<Rightarrow> u64"
  ce_policy :: policy
  ce_now :: int
  ce_dispatcher :: "string \<Rightarrow> nat"
  ce_buffers :: "addr list"
  ce_fusion :: addr
  ce_notifier :: nat
  ce_Init :: "'m component \<times> 'm co_world \<Rightarrow> bool \<times> 'm component \<times> 'm co_world"

text \<open>\<^verbatim>\<open>Process\<close>, for any number of channels: the arguments that the \<^verbatim>\<open>Proc\<close> of the user is called with, if it is.\<close>

definition Process :: "'m list \<Rightarrow> 'm component \<Rightarrow> 'm list option" where
  "Process msgs c = (if co_shutdown c then None else Some msgs)"

text \<open>
  The function of the first reader in simulation mode has taken the blockers of the other channels, \<open>None\<close> for a null pointer.
  They are asked in turn whether they are empty, up to the first that is.
\<close>

fun latest_published :: "(string \<times> string) option list \<Rightarrow> ('m, string) blocker_manager \<Rightarrow> component_error + 'm list option" where
  "latest_published [] bm = Inr (Some [])"
| "latest_published (None # bs) bm = Inl Null_Blocker"
| "latest_published (Some (ty, ch) # bs) bm =
     (case Option.bind (GetBlocker ty ch bm) bl_GetLatestPublishedPtr of
        None \<Rightarrow> Inr None
      | Some m \<Rightarrow> (case latest_published bs bm of Inl e \<Rightarrow> Inl e | Inr None \<Rightarrow> Inr None | Inr (Some ms) \<Rightarrow> Inr (Some (m # ms))))"

text \<open>\<open>None\<close> as the component: it has been destroyed, the function has a weak pointer only.\<close>

definition sim_func :: "(string \<times> string) option list \<Rightarrow> 'm \<Rightarrow> 'm component option \<Rightarrow> ('m, string) blocker_manager \<Rightarrow> component_error + 'm list option" where
  "sim_func blockers m0 c bm =
     (case c of
        None \<Rightarrow> Inr None
      | Some c \<Rightarrow>
          (case latest_published blockers bm of
             Inl e \<Rightarrow> Inl e
           | Inr None \<Rightarrow> Inr None
           | Inr (Some ms) \<Rightarrow> Inr (Process (m0 # ms) c)))"

text \<open>The function of the coroutine in reality mode.\<close>

definition real_func :: "'m list \<Rightarrow> 'm component option \<Rightarrow> 'm list option" where
  "real_func msgs c = (case c of None \<Rightarrow> None | Some c \<Rightarrow> Process msgs c)"

definition create_reader ::
  "'m co_env \<Rightarrow> component_config \<Rightarrow> nat \<Rightarrow> bool \<Rightarrow> 'm node \<Rightarrow> 'm co_world \<Rightarrow> component_error + ('m node_reader option \<times> 'm node \<times> 'm co_world)" where
  "create_reader e cfg i func nd w =
     (let ro = cc_readers cfg ! i
      in case Node_CreateReader (ce_channel_id e) (ce_types e ! i) (ce_desc e) (ce_task_ok e i) (ce_created e i)
                (ReaderConfig_attr (ro_channel ro) (ro_qos ro)) func (ro_pending_queue_size ro) nd (cw_nodes w) of
           Inl err \<Rightarrow> Inl (Node_Error err)
         | Inr (r, nd, nw) \<Rightarrow> Inr (r, nd, w\<lparr>cw_nodes := nw\<rparr>))"

text \<open>All are created, even when one could not be.\<close>

fun create_readers ::
  "'m co_env \<Rightarrow> component_config \<Rightarrow> nat list \<Rightarrow> 'm node \<Rightarrow> 'm co_world \<Rightarrow> component_error + ('m node_reader option list \<times> 'm node \<times> 'm co_world)" where
  "create_readers e cfg [] nd w = Inr ([], nd, w)"
| "create_readers e cfg (i # is) nd w =
     (case create_reader e cfg i False nd w of
        Inl err \<Rightarrow> Inl err
      | Inr (r, nd, w) \<Rightarrow> (case create_readers e cfg is nd w of Inl err \<Rightarrow> Inl err | Inr (rs, nd, w) \<Rightarrow> Inr (r # rs, nd, w)))"

definition taken_blockers :: "'m co_env \<Rightarrow> component_config \<Rightarrow> nat list \<Rightarrow> ('m, string) blocker_manager \<Rightarrow> (string \<times> string) option list" where
  "taken_blockers e cfg is bm =
     map (\<lambda>i. if GetBlocker (ce_types e ! i) (ro_channel (cc_readers cfg ! i)) bm = None then None
              else Some (ce_types e ! i, ro_channel (cc_readers cfg ! i))) is"

definition visitor_config_of :: "'m co_env \<Rightarrow> 'm node_reader \<Rightarrow> visitor_config" where
  "visitor_config_of e r =
     (case r of
        Real_Reader rr \<Rightarrow> \<lparr>vc_type = ce_dispatcher e (reader_type r), vc_channel_id = field 0 (attr_channel_id (rd_attr rr)), vc_queue_size = rd_pending_queue_size rr\<rparr>
      | Sim_Reader ir \<Rightarrow> \<lparr>vc_type = ce_dispatcher e (reader_type r), vc_channel_id = 0, vc_queue_size = 0\<rparr>)"

text \<open>The data visitor and the task of reality mode; the task's notification is registered when the scheduler took it.\<close>

definition create_task :: "'m co_env \<Rightarrow> string \<Rightarrow> 'm node_reader list \<Rightarrow> 'm co_world \<Rightarrow> component_error + (bool \<times> data_visitor \<times> 'm co_world)" where
  "create_task e name rs w =
     (let cas = zip (map (visitor_config_of e) rs) (ce_buffers e)
      in case (if length rs = 1 then DataVisitor_single (fst (hd cas)) (snd (hd cas)) (ce_notifier e) (cw_data w)
               else DataVisitor_fusion cas (ce_fusion e) (ce_notifier e) (cw_data w)) of
           (dv, dw) \<Rightarrow>
             (case CreateTask (ce_hash e) (ce_policy e) (ce_now e) name True (cw_sched w) (cw_global w) of
                None \<Rightarrow> Inl Task_Loops
              | Some (ok, notified, s, g) \<Rightarrow>
                  Inr (ok, dv, w\<lparr>cw_data := (if notified = None then dw else RegisterNotifyCallback dv dw), cw_sched := s, cw_global := g\<rparr>)))"

text \<open>
  What calls the component from now on: nothing, the first reader with the blockers taken, or the coroutine with its data visitor.
\<close>

datatype caller = No_Caller | By_Reader "(string \<times> string) option list" | By_Task data_visitor

text \<open>\<^verbatim>\<open>Initialize\<close> from the point where \<^verbatim>\<open>Init\<close> has succeeded, for a component of \<open>n > 0\<close> channels.\<close>

definition create_endpoints ::
  "nat \<Rightarrow> 'm co_env \<Rightarrow> component_config \<Rightarrow> 'm node \<Rightarrow> 'm component \<Rightarrow> 'm co_world \<Rightarrow> component_error + (bool \<times> caller \<times> 'm component \<times> 'm co_world)" where
  "create_endpoints n e cfg nd c w =
     (case create_readers e cfg [1..<n] nd w of
        Inl err \<Rightarrow> Inl err
      | Inr (others, nd, w) \<Rightarrow>
          let blockers = taken_blockers e cfg [1..<n] (nw_blockers (cw_nodes w))
          in case create_reader e cfg 0 (\<not> ce_reality e) nd w of
               Inl err \<Rightarrow> Inl err
             | Inr (first, nd, w) \<Rightarrow>
                 let c = c\<lparr>co_node := Some nd\<rparr>
                 in if None \<in> set (first # others)
                    then Inr (False, if first = None \<or> ce_reality e then No_Caller else By_Reader blockers, c, w)
                    else let c = c\<lparr>co_readers := co_readers c @ map the (first # others)\<rparr>
                         in if \<not> ce_reality e then Inr (True, By_Reader blockers, c, w)
                            else case create_task e (cc_name cfg) (co_readers c) w of
                                   Inl err \<Rightarrow> Inl err
                                 | Inr (ok, dv, w) \<Rightarrow> Inr (ok, if ok then By_Task dv else No_Caller, c, w))"

definition Component_Initialize ::
  "nat \<Rightarrow> 'm co_env \<Rightarrow> component_config \<Rightarrow> 'm component \<Rightarrow> 'm co_world \<Rightarrow> component_error + (bool \<times> caller \<times> 'm component \<times> 'm co_world)" where
  "Component_Initialize n e cfg c w =
     (let nd = NodeChannelImpl (ce_host e) (ce_ip e) (ce_pid e) (ce_node_id e) (ce_reality e) (cc_name cfg);
          c = fst (LoadConfigFiles (ce_work_root e) (cc_config_file_path cfg) (cc_flag_file_path cfg) (c\<lparr>co_node := Some nd\<rparr>))
      in if length (cc_readers cfg) < n then Inr (False, No_Caller, c, w)
         else case ce_Init e (c, w) of
                (False, c, w) \<Rightarrow> Inr (False, No_Caller, c, w)
              | (True, c, w) \<Rightarrow>
                  if n = 0 then Inr (True, No_Caller, c, w)
                  else case co_node c of None \<Rightarrow> Inl Null_Node | Some nd \<Rightarrow> create_endpoints n e cfg nd c w)"

definition Component0_Initialize :: "'m co_env \<Rightarrow> component_config \<Rightarrow> 'm component \<Rightarrow> 'm co_world \<Rightarrow> component_error + (bool \<times> caller \<times> 'm component \<times> 'm co_world)" where
  "Component0_Initialize = Component_Initialize 0"

definition Component1_Initialize :: "'m co_env \<Rightarrow> component_config \<Rightarrow> 'm component \<Rightarrow> 'm co_world \<Rightarrow> component_error + (bool \<times> caller \<times> 'm component \<times> 'm co_world)" where
  "Component1_Initialize = Component_Initialize 1"

definition Component2_Initialize :: "'m co_env \<Rightarrow> component_config \<Rightarrow> 'm component \<Rightarrow> 'm co_world \<Rightarrow> component_error + (bool \<times> caller \<times> 'm component \<times> 'm co_world)" where
  "Component2_Initialize = Component_Initialize 2"

definition Component3_Initialize :: "'m co_env \<Rightarrow> component_config \<Rightarrow> 'm component \<Rightarrow> 'm co_world \<Rightarrow> component_error + (bool \<times> caller \<times> 'm component \<times> 'm co_world)" where
  "Component3_Initialize = Component_Initialize 3"

definition Component4_Initialize :: "'m co_env \<Rightarrow> component_config \<Rightarrow> 'm component \<Rightarrow> 'm co_world \<Rightarrow> component_error + (bool \<times> caller \<times> 'm component \<times> 'm co_world)" where
  "Component4_Initialize = Component_Initialize 4"

section \<open>Calls in simulation mode\<close>

text \<open>
  A message published on a channel by its blocker, and the calls of the component that come of it; the component's node is \<open>name\<close>, its
  first channel \<open>ch0\<close>.  The readers of the other channels have no function.
\<close>

fun run_calls ::
  "string \<Rightarrow> (string \<times> string) option list \<Rightarrow> 'm component option \<Rightarrow> ('m, string) blocker_manager \<Rightarrow> (string \<times> 'm) list \<Rightarrow> component_error + 'm list list" where
  "run_calls name blockers c bm [] = Inr []"
| "run_calls name blockers c bm ((n, m) # calls) =
     (case (if n = name then sim_func blockers m c bm else Inr None) of
        Inl err \<Rightarrow> Inl err
      | Inr r \<Rightarrow> (case run_calls name blockers c bm calls of Inl err \<Rightarrow> Inl err | Inr rs \<Rightarrow> Inr (case r of None \<Rightarrow> rs | Some args \<Rightarrow> args # rs)))"

fun sim_run ::
  "string \<Rightarrow> string \<Rightarrow> (string \<times> string) option list \<Rightarrow> 'm component option \<Rightarrow> ('m, string) blocker_manager \<Rightarrow>
   ((string \<times> string) \<times> 'm) list \<Rightarrow> component_error + 'm list list" where
  "sim_run name ch0 blockers c bm [] = Inr []"
| "sim_run name ch0 blockers c bm (((ty, ch), m) # evs) =
     (case bm_Publish ty ch m bm of
        (ok, calls, bm) \<Rightarrow>
          (case (if ch = ch0 then run_calls name blockers c bm calls else Inr []) of
             Inl err \<Rightarrow> Inl err
           | Inr rs \<Rightarrow> (case sim_run name ch0 blockers c bm evs of Inl err \<Rightarrow> Inl err | Inr rs' \<Rightarrow> Inr (rs @ rs'))))"

text \<open>
  What the calls should be: one for every message of the first channel once all the others have had a message, with the latest of
  each.  Channels are known by their type and name; a message of another type is one of another channel.
\<close>

fun fused_calls :: "string \<times> string \<Rightarrow> (string \<times> string) list \<Rightarrow> (string \<times> string \<rightharpoonup> 'm) \<Rightarrow> ((string \<times> string) \<times> 'm) list \<Rightarrow> 'm list list" where
  "fused_calls k0 ks latest [] = []"
| "fused_calls k0 ks latest ((k, m) # evs) =
     (let latest = latest(k \<mapsto> m)
      in (if k = k0 \<and> (\<forall>k \<in> set ks. latest k \<noteq> None) then [m # map (\<lambda>k. the (latest k)) ks] else []) @ fused_calls k0 ks latest evs)"

definition latest_of :: "('m, string) blocker_manager \<Rightarrow> string \<times> string \<rightharpoonup> 'm" where
  "latest_of bm k = Option.bind (GetBlocker (fst k) (snd k) bm) bl_GetLatestPublishedPtr"

definition callbacks_ok :: "('m, string) blocker \<Rightarrow> bool" where
  "callbacks_ok b \<longleftrightarrow> distinct (map fst (bl_callbacks b)) \<and> (\<forall>e \<in> set (bl_callbacks b). snd e = fst e)"

lemma callbacks_ok_ops:
  assumes "callbacks_ok b"
  shows "callbacks_ok (snd (bl_Subscribe n n b))" "callbacks_ok (snd (bl_Unsubscribe n b))" "callbacks_ok (snd (bl_Publish m b))"
  using assms
  by (auto simp: callbacks_ok_def bl_Subscribe_def bl_Unsubscribe_def bl_Publish_def bl_Enqueue_def Let_def map_of_eq_None_iff distinct_map_filter)

text \<open>A channel that the component was given, in the blocker manager.\<close>

definition open_channel :: "('m, string) blocker_manager \<Rightarrow> string \<times> string \<Rightarrow> bool" where
  "open_channel bm k = (case bm (snd k) of None \<Rightarrow> False | Some b \<Rightarrow> bl_type b = fst k \<and> bl_capacity b \<noteq> 0)"

definition subscribed :: "string \<Rightarrow> ('m, string) blocker_manager \<Rightarrow> string \<Rightarrow> bool" where
  "subscribed name bm ch = (case bm ch of None \<Rightarrow> False | Some b \<Rightarrow> callbacks_ok b \<and> (name, name) \<in> set (bl_callbacks b))"

lemma bm_Publish_eq:
  "bm_Publish ty ch m bm =
     (case bm ch of
        None \<Rightarrow> (True, [], bm(ch \<mapsto> (Blocker ty 10)\<lparr>bl_published := [m]\<rparr>))
      | Some b \<Rightarrow> if bl_type b \<noteq> ty then (False, [], bm)
                  else (True, map (\<lambda>e. (snd e, m)) (bl_callbacks b), bm(ch \<mapsto> bl_Enqueue m b)))"
  by (auto simp: bm_Publish_def GetOrCreateBlocker_def bl_Publish_def bl_Notify_def bl_Enqueue_def Blocker_def pop_back_while_take Let_def
      split: option.split)

lemma bl_Enqueue_sel [simp]:
  "bl_type (bl_Enqueue m b) = bl_type b" "bl_capacity (bl_Enqueue m b) = bl_capacity b" "bl_callbacks (bl_Enqueue m b) = bl_callbacks b"
  by (simp_all add: bl_Enqueue_def)

lemma publish_open: "open_channel bm k \<Longrightarrow> open_channel (snd (snd (bm_Publish ty ch m bm))) k"
  by (auto simp: bm_Publish_eq open_channel_def split: option.splits)

lemma publish_subscribed: "subscribed name bm c \<Longrightarrow> subscribed name (snd (snd (bm_Publish ty ch m bm))) c"
  by (auto simp: bm_Publish_eq subscribed_def callbacks_ok_def split: option.splits)

lemma latest_of_eq: "latest_of bm (ty, ch) = (case bm ch of None \<Rightarrow> None | Some b \<Rightarrow> if bl_type b = ty \<and> bl_published b \<noteq> [] then Some (hd (bl_published b)) else None)"
  by (simp add: latest_of_def GetBlocker_def bl_GetLatestPublishedPtr_def split: option.split)

lemma hd_bl_Enqueue: "bl_capacity b \<noteq> 0 \<Longrightarrow> bl_published (bl_Enqueue m b) \<noteq> [] \<and> hd (bl_published (bl_Enqueue m b)) = m"
  by (simp add: bl_Enqueue_def pop_back_while_take take_Cons')

lemma publish_latest:
  assumes "open_channel bm k"
  shows "latest_of (snd (snd (bm_Publish ty ch m bm))) k = (if (ty, ch) = k then Some m else latest_of bm k)"
proof -
  obtain t c where k: "k = (t, c)" by (cases k)
  obtain b where b: "bm c = Some b" "bl_type b = t" "bl_capacity b \<noteq> 0" using assms k by (auto simp: open_channel_def split: option.splits)
  show ?thesis
  proof (cases "ch = c")
    case True
    then show ?thesis using b hd_bl_Enqueue [OF b(3), of m] by (simp add: k bm_Publish_eq latest_of_eq)
  next
    case False
    then have "snd (snd (bm_Publish ty ch m bm)) c = bm c" by (simp add: bm_Publish_eq split: option.split)
    then show ?thesis using False by (simp add: k latest_of_eq)
  qed
qed

lemma latest_published_Some:
  "latest_published (Some k # bs) bm =
     (case latest_of bm k of
        None \<Rightarrow> Inr None
      | Some m \<Rightarrow> (case latest_published bs bm of Inl e \<Rightarrow> Inl e | Inr None \<Rightarrow> Inr None | Inr (Some ms) \<Rightarrow> Inr (Some (m # ms))))"
  by (cases k) (simp add: latest_of_def)

lemma latest_published_open:
  "latest_published (map Some ks) bm = Inr (if \<forall>k \<in> set ks. latest_of bm k \<noteq> None then Some (map (\<lambda>k. the (latest_of bm k)) ks) else None)"
proof (induction ks)
  case Nil
  then show ?case by simp
next
  case (Cons k ks)
  then show ?case by (cases "latest_of bm k") (simp_all add: latest_published_Some del: latest_published.simps)
qed

text \<open>Of the callbacks of a blocker, one is that of the component.\<close>

lemma run_calls_once:
  assumes "distinct (map fst cs)" "\<forall>e \<in> set cs. snd e = fst e" "\<And>m. sim_func blockers m c bm = Inr (r m)"
  shows "run_calls name blockers c bm (map (\<lambda>e. (snd e, m)) cs) = Inr (if (name, name) \<in> set cs then (case r m of None \<Rightarrow> [] | Some args \<Rightarrow> [args]) else [])"
  using assms(1,2)
proof (induction cs)
  case Nil
  then show ?case by simp
next
  case (Cons e cs)
  obtain n where e: "e = (n, n)" using Cons.prems(2) by (cases e) auto
  have IH: "run_calls name blockers c bm (map (\<lambda>e. (snd e, m)) cs) = Inr (if (name, name) \<in> set cs then (case r m of None \<Rightarrow> [] | Some args \<Rightarrow> [args]) else [])"
    using Cons by simp
  have "n \<notin> fst ` set cs" using Cons.prems(1) e by simp
  then have "(n, n) \<notin> set cs" by (force simp: image_iff)
  then show ?case using e by (cases "n = name") (auto simp: IH assms(3) split: option.split)
qed

lemma sim_step:
  assumes "\<not> co_shutdown c" "list_all (open_channel bm) ((ty0, ch0) # ks)" "subscribed name bm ch0"
    and "bm_Publish ty ch m bm = (ok, calls, bm')"
  shows "(if ch = ch0 then run_calls name (map Some ks) (Some c) bm' calls else Inr []) =
     Inr (if (ty, ch) = (ty0, ch0) \<and> (\<forall>k \<in> set ks. latest_of bm' k \<noteq> None) then [m # map (\<lambda>k. the (latest_of bm' k)) ks] else [])"
proof (cases "(ty, ch) = (ty0, ch0)")
  case True
  obtain b where b: "bm ch0 = Some b" "callbacks_ok b" "(name, name) \<in> set (bl_callbacks b)" "bl_type b = ty0"
    using assms(2,3) by (auto simp: subscribed_def open_channel_def split: option.splits)
  have calls: "calls = map (\<lambda>e. (snd e, m)) (bl_callbacks b)" using assms(4) True b by (auto simp: bm_Publish_eq)
  let ?r = "\<lambda>m. if \<forall>k \<in> set ks. latest_of bm' k \<noteq> None then Some (m # map (\<lambda>k. the (latest_of bm' k)) ks) else None"
  have "sim_func (map Some ks) m (Some c) bm' = Inr (?r m)" for m
    using assms(1) by (simp add: sim_func_def latest_published_open Process_def)
  from run_calls_once [where r = ?r and cs = "bl_callbacks b" and m = m, OF _ _ this] b True show ?thesis
    by (simp add: calls callbacks_ok_def)
next
  case False
  have "calls = []" if "ch = ch0"
    using assms(2,4) False that by (auto simp: bm_Publish_eq open_channel_def split: option.splits if_splits)
  then show ?thesis using False by auto
qed

lemma fused_calls_cong:
  "(\<And>k. k \<in> set ks \<Longrightarrow> latest k = latest' k) \<Longrightarrow> fused_calls k0 ks latest evs = fused_calls k0 ks latest' evs"
proof (induction evs arbitrary: latest latest')
  case Nil
  then show ?case by simp
next
  case (Cons ev evs)
  obtain k m where ev: "ev = (k, m)" by (cases ev)
  have eq: "(latest(k \<mapsto> m)) j = (latest'(k \<mapsto> m)) j" if "j \<in> set ks" for j using Cons.prems that by simp
  have "map (\<lambda>j. the ((latest(k \<mapsto> m)) j)) ks = map (\<lambda>j. the ((latest'(k \<mapsto> m)) j)) ks" using eq by (intro map_cong) auto
  moreover have "(\<forall>j \<in> set ks. (latest(k \<mapsto> m)) j \<noteq> None) \<longleftrightarrow> (\<forall>j \<in> set ks. (latest'(k \<mapsto> m)) j \<noteq> None)" using eq by (metis (no_types, lifting))
  ultimately show ?case using Cons.IH [of "latest(k \<mapsto> m)" "latest'(k \<mapsto> m)", OF eq] unfolding ev fused_calls.simps Let_def by presburger
qed

lemma sim_run_fused:
  assumes "\<not> co_shutdown c" "list_all (open_channel bm) ((ty0, ch0) # ks)" "subscribed name bm ch0"
  shows "sim_run name ch0 (map Some ks) (Some c) bm evs = Inr (fused_calls (ty0, ch0) ks (latest_of bm) evs)"
  using assms(2,3)
proof (induction evs arbitrary: bm)
  case Nil
  then show ?case by simp
next
  case (Cons ev evs)
  obtain ty ch m where ev: "ev = ((ty, ch), m)" by (metis surj_pair)
  obtain ok calls bm' where p: "bm_Publish ty ch m bm = (ok, calls, bm')" by (metis surj_pair)
  have op: "list_all (open_channel bm') ((ty0, ch0) # ks)"
    using Cons.prems(1) publish_open [of bm _ ty ch m] p by (simp add: list_all_iff)
  have su: "subscribed name bm' ch0" using publish_subscribed [OF Cons.prems(2), of ty ch m] p by simp
  have la: "latest_of bm' k = ((latest_of bm)((ty, ch) \<mapsto> m)) k" if "k \<in> set ks" for k
    using publish_latest [of bm k ty ch m] Cons.prems(1) p that by (auto simp: list_all_iff)
  have eq: "map (\<lambda>k. the (latest_of bm' k)) ks = map (\<lambda>k. the (((latest_of bm)((ty, ch) \<mapsto> m)) k)) ks" using la by (intro map_cong) auto
  have all: "(\<forall>k \<in> set ks. latest_of bm' k \<noteq> None) \<longleftrightarrow> (\<forall>k \<in> set ks. ((latest_of bm)((ty, ch) \<mapsto> m)) k \<noteq> None)" using la by (metis (no_types, lifting))
  have "fused_calls (ty0, ch0) ks (latest_of bm') evs = fused_calls (ty0, ch0) ks ((latest_of bm)((ty, ch) \<mapsto> m)) evs"
    using la by (intro fused_calls_cong) auto
  with Cons.IH [OF op su] sim_step [OF assms(1) Cons.prems p] show ?case
    unfolding ev sim_run.simps p fused_calls.simps Let_def prod.case eq all by simp
qed

section \<open>Initialisation in simulation mode\<close>

text \<open>The channel of the configuration, with the type that the component reads there.\<close>

definition input_key :: "'m co_env \<Rightarrow> component_config \<Rightarrow> nat \<Rightarrow> string \<times> string" where
  "input_key e cfg i = (ce_types e ! i, ro_channel (cc_readers cfg ! i))"

definition has_type :: "('m, string) blocker_manager \<Rightarrow> string \<times> string \<Rightarrow> bool" where
  "has_type bm k = (case bm (snd k) of None \<Rightarrow> False | Some b \<Rightarrow> bl_type b = fst k)"

lemma has_type_GetBlocker: "has_type bm (ty, ch) \<longleftrightarrow> GetBlocker ty ch bm \<noteq> None"
  by (simp add: has_type_def GetBlocker_def split: option.split)

definition same_node :: "'m node \<Rightarrow> 'm node \<Rightarrow> bool" where
  "same_node nd nd' \<longleftrightarrow> no_attr nd' = no_attr nd \<and> no_reality nd' = no_reality nd"

text \<open>The user's \<^verbatim>\<open>Init\<close> may make readers and writers; it neither exchanges the node nor shuts the component down.\<close>

definition keeps_node :: "('m component \<times> 'm co_world \<Rightarrow> bool \<times> 'm component \<times> 'm co_world) \<Rightarrow> bool" where
  "keeps_node init \<longleftrightarrow> (\<forall>c w ok c' w' nd. init (c, w) = (ok, c', w') \<longrightarrow> co_node c = Some nd \<longrightarrow>
     (\<exists>nd'. co_node c' = Some nd' \<and> same_node nd nd') \<and> co_shutdown c' = co_shutdown c)"

lemma ir_Init_new:
  assumes "ir_Init (node_IntraReader a ty) bm = (ok, r, bm')"
  defines "ch \<equiv> field [] (attr_channel_name a)" and "n \<equiv> field [] (attr_node_name a)"
  shows "ok \<Longrightarrow> has_type bm' (ty, ch) \<and> (\<exists>b. bm' ch = Some b \<and> (n, n) \<in> set (bl_callbacks b))" "has_type bm k \<Longrightarrow> has_type bm' k"
  using assms
  by (auto simp: ir_Init_def node_IntraReader_def bm_Subscribe_def GetOrCreateBlocker_def bl_Subscribe_def has_type_def Blocker_def
      split: option.splits if_splits prod.splits)

lemma ir_Shutdown_has_type: "has_type bm k \<Longrightarrow> has_type (snd (ir_Shutdown r bm)) k"
  by (auto simp: ir_Shutdown_def bm_Unsubscribe_def GetBlocker_def bl_Unsubscribe_def has_type_def split: option.splits)

lemma sim_create_reader:
  assumes "create_reader e cfg i func nd w = Inr (r, nd', w')" "\<not> no_reality nd"
  shows "same_node nd nd'" "has_type (nw_blockers (cw_nodes w)) k \<Longrightarrow> has_type (nw_blockers (cw_nodes w')) k"
    and "r \<noteq> None \<Longrightarrow> has_type (nw_blockers (cw_nodes w')) (input_key e cfg i)"
    and "r \<noteq> None \<Longrightarrow> \<exists>b. nw_blockers (cw_nodes w') (ro_channel (cc_readers cfg ! i)) = Some b \<and>
           (field [] (attr_node_name (no_attr nd)), field [] (attr_node_name (no_attr nd))) \<in> set (bl_callbacks b)"
proof -
  let ?attr = "ReaderConfig_attr (ro_channel (cc_readers cfg ! i)) (ro_qos (cc_readers cfg ! i))"
  let ?a = "FillInAttr (ce_channel_id e) (ce_types e ! i) (ce_desc e) (no_attr nd) ?attr"
  have a: "field [] (attr_channel_name ?a) = ro_channel (cc_readers cfg ! i)" "field [] (attr_node_name ?a) = field [] (attr_node_name (no_attr nd))"
    by (simp_all add: FillInAttr_def ReaderConfig_attr_def field_def Let_def)
  obtain nw where n: "Node_CreateReader (ce_channel_id e) (ce_types e ! i) (ce_desc e) (ce_task_ok e i) (ce_created e i) ?attr func
      (ro_pending_queue_size (cc_readers cfg ! i)) nd (cw_nodes w) = Inr (r, nd', nw)" and w': "w' = w\<lparr>cw_nodes := nw\<rparr>"
    using assms(1) by (auto simp: create_reader_def Let_def split: sum.splits)
  show "same_node nd nd'" using n by (auto simp: Node_CreateReader_def same_node_def Let_def split: if_splits sum.splits option.splits)
  obtain ok ir bm where i: "ir_Init (node_IntraReader ?a (ce_types e ! i)) (nw_blockers (cw_nodes w)) = (ok, ir, bm)" by (metis surj_pair)
  have c: "nw = cw_nodes w \<and> r = None \<or> ok \<and> nw_blockers nw = bm \<and> r \<noteq> None \<or> nw_blockers nw = snd (ir_Shutdown ir bm) \<and> r = None"
    using n assms(2) i by (auto simp: Node_CreateReader_def CreateReader_def Let_def split: if_splits sum.splits option.splits bool.splits)
  show "has_type (nw_blockers (cw_nodes w')) k" if h: "has_type (nw_blockers (cw_nodes w)) k"
    using c ir_Init_new(2) [OF i h] ir_Shutdown_has_type [OF ir_Init_new(2) [OF i h], of ir] h w' by auto
  show "r \<noteq> None \<Longrightarrow> has_type (nw_blockers (cw_nodes w')) (input_key e cfg i)"
    and "r \<noteq> None \<Longrightarrow> \<exists>b. nw_blockers (cw_nodes w') (ro_channel (cc_readers cfg ! i)) = Some b \<and>
           (field [] (attr_node_name (no_attr nd)), field [] (attr_node_name (no_attr nd))) \<in> set (bl_callbacks b)"
    using c ir_Init_new(1) [OF i] w' by (auto simp: input_key_def a)
qed

lemma sim_create_readers:
  assumes "create_readers e cfg is nd w = Inr (rs, nd', w')" "\<not> no_reality nd"
  shows "same_node nd nd' \<and> (\<forall>k. has_type (nw_blockers (cw_nodes w)) k \<longrightarrow> has_type (nw_blockers (cw_nodes w')) k) \<and>
     (None \<notin> set rs \<longrightarrow> (\<forall>i \<in> set is. has_type (nw_blockers (cw_nodes w')) (input_key e cfg i)))"
  using assms
proof (induction "is" arbitrary: nd w rs)
  case Nil
  then show ?case by (simp add: same_node_def)
next
  case (Cons i "is")
  obtain r nd1 w1 rs1 where r: "create_reader e cfg i False nd w = Inr (r, nd1, w1)" "create_readers e cfg is nd1 w1 = Inr (rs1, nd', w')" "rs = r # rs1"
    using Cons.prems(1) by (auto split: sum.splits)
  note one = sim_create_reader [OF r(1) Cons.prems(2)]
  have "\<not> no_reality nd1" using one(1) Cons.prems(2) by (simp add: same_node_def)
  note IH = Cons.IH [OF r(2) this]
  have "has_type (nw_blockers (cw_nodes w')) (input_key e cfg j)" if "None \<notin> set rs" "j \<in> set (i # is)" for j
  proof (cases "j = i")
    case True
    have "r \<noteq> None" using that(1) r(3) by (cases r) auto
    then show ?thesis using IH one(3) True by blast
  next
    case False
    then show ?thesis using IH that r(3) by simp
  qed
  then show ?case using one(1,2) IH by (simp add: same_node_def)
qed

text \<open>A component that has been initialised in simulation mode has the blockers of its channels, and is subscribed to the first.\<close>

lemma sim_endpoints:
  assumes "create_endpoints n e cfg nd c w = Inr (True, By_Reader blockers, c', w')" "\<not> no_reality nd" "0 < n" "\<not> ce_reality e"
  shows "blockers = map (\<lambda>i. Some (input_key e cfg i)) [1..<n]" "co_shutdown c' = co_shutdown c"
    and "\<forall>i < n. has_type (nw_blockers (cw_nodes w')) (input_key e cfg i)"
    and "\<exists>b. nw_blockers (cw_nodes w') (ro_channel (cc_readers cfg ! 0)) = Some b \<and>
           (field [] (attr_node_name (no_attr nd)), field [] (attr_node_name (no_attr nd))) \<in> set (bl_callbacks b)"
proof -
  obtain others nd1 w1 r0 nd2 where o: "create_readers e cfg [1..<n] nd w = Inr (others, nd1, w1)"
    and z: "create_reader e cfg 0 (\<not> ce_reality e) nd1 w1 = Inr (r0, nd2, w')" and ok: "None \<notin> set (r0 # others)"
    and b: "blockers = taken_blockers e cfg [1..<n] (nw_blockers (cw_nodes w1))"
    and c': "co_shutdown c' = co_shutdown c"
    using assms(1,4) by (auto simp: create_endpoints_def Let_def split: sum.splits if_splits)
  note os = sim_create_readers [OF o assms(2)]
  have "\<not> no_reality nd1" using os assms(2) by (simp add: same_node_def)
  note zs = sim_create_reader [OF z this]
  show "co_shutdown c' = co_shutdown c" by (rule c')
  have t: "has_type (nw_blockers (cw_nodes w1)) (input_key e cfg i)" if "i \<in> set [1..<n]" for i using os ok that by simp
  then show "blockers = map (\<lambda>i. Some (input_key e cfg i)) [1..<n]"
    unfolding b taken_blockers_def by (intro map_cong) (auto simp: input_key_def has_type_GetBlocker)
  show "\<forall>i < n. has_type (nw_blockers (cw_nodes w')) (input_key e cfg i)"
  proof (intro allI impI)
    fix i assume i: "i < n"
    have "r0 \<noteq> None" using ok by (cases r0) auto
    then show "has_type (nw_blockers (cw_nodes w')) (input_key e cfg i)" using i zs(3) zs(2) [OF t, of i] by (cases "i = 0") auto
  qed
  show "\<exists>b. nw_blockers (cw_nodes w') (ro_channel (cc_readers cfg ! 0)) = Some b \<and>
           (field [] (attr_node_name (no_attr nd)), field [] (attr_node_name (no_attr nd))) \<in> set (bl_callbacks b)"
    using zs(4) ok os by (cases r0) (auto simp: same_node_def)
qed

lemma sim_initialised:
  assumes "Component_Initialize n e cfg c w = Inr (True, By_Reader blockers, c', w')" "\<not> ce_reality e" "keeps_node (ce_Init e)" "\<not> co_shutdown c"
  shows "0 < n" "blockers = map (\<lambda>i. Some (input_key e cfg i)) [1..<n]" "\<not> co_shutdown c'"
    and "\<forall>i < n. has_type (nw_blockers (cw_nodes w')) (input_key e cfg i)"
    and "\<exists>b. nw_blockers (cw_nodes w') (ro_channel (cc_readers cfg ! 0)) = Some b \<and> (cc_name cfg, cc_name cfg) \<in> set (bl_callbacks b)"
proof -
  let ?nd = "NodeChannelImpl (ce_host e) (ce_ip e) (ce_pid e) (ce_node_id e) (ce_reality e) (cc_name cfg) :: 'a node"
  let ?c = "fst (LoadConfigFiles (ce_work_root e) (cc_config_file_path cfg) (cc_flag_file_path cfg) (c\<lparr>co_node := Some ?nd\<rparr>))"
  obtain c1 w1 nd where i: "ce_Init e (?c, w) = (True, c1, w1)" and n: "0 < n" and nd: "co_node c1 = Some nd"
    and en: "create_endpoints n e cfg nd c1 w1 = Inr (True, By_Reader blockers, c', w')"
    using assms(1) by (auto simp: Component_Initialize_def Let_def split: if_splits prod.splits bool.splits option.splits)
  have "co_node ?c = Some ?nd" "\<not> co_shutdown ?c" using assms(4) by (simp_all add: LoadConfigFiles_def)
  then have s: "same_node ?nd nd" "\<not> co_shutdown c1" using assms(3) i nd unfolding keeps_node_def by (metis option.inject)+
  have r: "\<not> no_reality nd" "field [] (attr_node_name (no_attr nd)) = cc_name cfg"
    using s(1) assms(2) by (simp_all add: same_node_def NodeChannelImpl_def field_def)
  note en = sim_endpoints [OF en r(1) n assms(2)]
  show "0 < n" by (rule n)
  show "blockers = map (\<lambda>i. Some (input_key e cfg i)) [1..<n]" by (rule en(1))
  show "\<not> co_shutdown c'" using en(2) s(2) by simp
  show "\<forall>i < n. has_type (nw_blockers (cw_nodes w')) (input_key e cfg i)" by (rule en(3))
  show "\<exists>b. nw_blockers (cw_nodes w') (ro_channel (cc_readers cfg ! 0)) = Some b \<and> (cc_name cfg, cc_name cfg) \<in> set (bl_callbacks b)"
    using en(4) r(2) by simp
qed

section \<open>Shutdown\<close>

lemma Component_Shutdown_flag: "Component_Shutdown hash pol c w = Inr (c', w') \<Longrightarrow> co_shutdown c'"
  by (auto simp: Component_Shutdown_def split: if_splits sum.splits option.splits)

text \<open>After its shutdown a component processes nothing that reaches it still, by the reader or by the coroutine.\<close>

lemma shut_down_component_silent:
  assumes "Component_Shutdown hash pol c w = Inr (c', w')"
  shows "real_func msgs (Some c') = None" "sim_func (map Some ks) m (Some c') bm = Inr None"
  using Component_Shutdown_flag [OF assms]
  by (simp_all add: real_func_def sim_func_def Process_def latest_published_open)

lemma Shutdown_again: "Component_Shutdown hash pol c w = Inr (c', w') \<Longrightarrow> Component_Shutdown hash pol c' w' = Inr (c', w')"
  by (subst Component_Shutdown_def) (simp add: Component_Shutdown_flag)

text \<open>The flag is set before all else, so that a component without a node fails in its first shutdown.\<close>

lemma Shutdown_without_node: "Component_Shutdown hash pol ComponentBase w = Inl Null_Node"
  by (simp add: Component_Shutdown_def ComponentBase_def)

text \<open>With no room in the blocker of another channel, the component is never called.\<close>

lemma no_room_no_call:
  assumes "bm ch = Some b" "bl_capacity b = 0" "bl_published b = []" "(ty, ch) \<in> set ks"
  shows "sim_func (map Some ks) m c bm = Inr None" "bm_Publish ty' ch m bm = (ok, calls, bm') \<Longrightarrow> bm' = bm"
proof -
  have n: "latest_of bm (ty, ch) = None" using assms(1,3) by (simp add: latest_of_eq)
  have "\<not> (\<forall>k \<in> set ks. latest_of bm k \<noteq> None)" using n assms(4) by blast
  then show "sim_func (map Some ks) m c bm = Inr None" by (auto simp: sim_func_def latest_published_open split: option.split)
  show "bm_Publish ty' ch m bm = (ok, calls, bm') \<Longrightarrow> bm' = bm"
    using assms(1,2) by (auto simp: bm_Publish_eq bl_Enqueue_def fun_upd_idem split: if_splits)
qed

text \<open>
  When the reader of another channel could not be made, \<^verbatim>\<open>Initialize\<close> fails, but the first reader stays in the node and calls a function
  with a null blocker.
\<close>

lemma failed_initialisation_leaves_reader:
  assumes "create_readers e cfg [1..<n] nd w = Inr (others, nd1, w1)" "None \<in> set others" "\<not> ce_reality e"
    and "create_reader e cfg 0 True nd1 w1 = Inr (Some r, nd2, w2)"
  shows "create_endpoints n e cfg nd c w =
     Inr (False, By_Reader (taken_blockers e cfg [1..<n] (nw_blockers (cw_nodes w1))), c\<lparr>co_node := Some nd2\<rparr>, w2)"
  using assms by (simp add: create_endpoints_def Let_def)

section \<open>TimerComponent\<close>

record 'm timer_component =
  tc_base :: "'m component"
  tc_interval :: u64
  tc_timer :: "timer option"

definition TimerComponent :: "'m timer_component" where
  "TimerComponent = \<lparr>tc_base = ComponentBase, tc_interval = 0, tc_timer = None\<rparr>"

record timer_component_config =
  tcc_name :: "string option"
  tcc_config_file_path :: string
  tcc_flag_file_path :: string
  tcc_interval :: "u32 option"

text \<open>Whether \<^verbatim>\<open>Proc\<close> is called, by \<^verbatim>\<open>Process\<close> and by the function given to the timer.\<close>

definition tc_Process :: "'m timer_component \<Rightarrow> bool" where "tc_Process t \<longleftrightarrow> \<not> co_shutdown (tc_base t)"
definition tc_func :: "'m timer_component \<Rightarrow> bool" where "tc_func t \<longleftrightarrow> True"

definition GetInterval :: "'m timer_component \<Rightarrow> u64" where "GetInterval t = tc_interval t"

text \<open>\<open>a\<close> is the address of the timer's task; the user's \<^verbatim>\<open>Init\<close> is that of \<open>e\<close>.  A timer that is replaced is stopped by its destructor.\<close>

definition drop_timer :: "timer option \<Rightarrow> timing_wheel \<Rightarrow> timing_wheel" where
  "drop_timer t tw = (case t of None \<Rightarrow> tw | Some tm \<Rightarrow> snd (Timer_Stop tm tw))"

definition TimerComponent_Initialize ::
  "'m co_env \<Rightarrow> task_addr \<Rightarrow> timer_component_config \<Rightarrow> 'm timer_component \<Rightarrow> 'm co_world \<Rightarrow> u64 \<Rightarrow> timing_wheel \<Rightarrow>
   bool \<times> 'm timer_component \<times> 'm co_world \<times> u64 \<times> timing_wheel" where
  "TimerComponent_Initialize e a cfg t w next_id tw =
     (if tcc_name cfg = None \<or> tcc_interval cfg = None then (False, t, w, next_id, tw)
      else let nd = NodeChannelImpl (ce_host e) (ce_ip e) (ce_pid e) (ce_node_id e) (ce_reality e) (the (tcc_name cfg));
               c = fst (LoadConfigFiles (ce_work_root e) (tcc_config_file_path cfg) (tcc_flag_file_path cfg) ((tc_base t)\<lparr>co_node := Some nd\<rparr>))
           in case ce_Init e (c, w) of
                (False, c, w) \<Rightarrow> (False, t\<lparr>tc_base := c\<rparr>, w, next_id, tw)
              | (True, c, w) \<Rightarrow>
                  (case Timer \<lparr>opt_period = the (tcc_interval cfg), opt_oneshot = False\<rparr> next_id of
                     (tm, next_id) \<Rightarrow>
                       (case Timer_Start (ce_reality e) a tm (drop_timer (tc_timer t) tw) of
                          (tm, tw) \<Rightarrow> (True, t\<lparr>tc_base := c, tc_timer := Some tm\<rparr>, w, next_id, tw))))"

definition TimerComponent_Clear :: "'m timer_component \<Rightarrow> timing_wheel \<Rightarrow> 'm timer_component \<times> timing_wheel" where
  "TimerComponent_Clear t tw = (t\<lparr>tc_timer := None\<rparr>, drop_timer (tc_timer t) tw)"

definition TimerComponent_Shutdown ::
  "(string \<Rightarrow> u64) \<Rightarrow> policy \<Rightarrow> 'm timer_component \<Rightarrow> 'm co_world \<Rightarrow> timing_wheel \<Rightarrow> component_error + ('m timer_component \<times> 'm co_world \<times> timing_wheel)" where
  "TimerComponent_Shutdown hash pol t w tw =
     (if co_shutdown (tc_base t) then Inr (t, w, tw)
      else case TimerComponent_Clear t tw of
             (t, tw) \<Rightarrow> (case Component_Shutdown hash pol (tc_base t) w of Inl err \<Rightarrow> Inl err | Inr (c, w) \<Rightarrow> Inr (t\<lparr>tc_base := c\<rparr>, w, tw)))"

lemma Timer_Stop_drops:
  assumes "timer_started tm" "timer_task_ptr tm = Some a"
  shows "tw_tasks (snd (Timer_Stop tm tw)) a = None"
  using assms by (simp add: Timer_Stop_def expire_def)

text \<open>A component that is initialised in reality mode has its timer in the wheel, with its own period, until it is shut down.\<close>

lemma timer_component_task:
  assumes "TimerComponent_Initialize e a cfg t w next_id tw = (True, t', w', next_id', tw')" "ce_reality e"
    and "tcc_interval cfg = Some i" "0 < i" "unat i < 65536"
  shows "\<exists>tm. tc_timer t' = Some tm \<and> timer_started tm \<and> timer_task_ptr tm = Some a \<and>
     tw' = AddTask a ((drop_timer (tc_timer t) tw)\<lparr>tw_tasks := (tw_tasks (drop_timer (tc_timer t) tw))
        (a \<mapsto> \<lparr>task_timer_id = next_id, task_callback = Periodic, interval_ms = ucast i, remainder_interval_ms = 0, next_fire_duration_ms = ucast i,
               accumulated_error_ns = 0, last_execute_time_ns = 0\<rparr>)\<rparr>)"
proof -
  have p: "(ucast i :: u64) \<noteq> 0" "\<not> TIMER_MAX_INTERVAL_MS \<le> (ucast i :: u64)"
    using assms(4,5) period_u64 [of i] max_interval by (auto simp: word_le_nat_alt unat_eq_0 word_less_nat_alt simp flip: unat_eq_0)
  show ?thesis
    using assms(1-3) p
    by (auto simp: TimerComponent_Initialize_def Let_def Timer_def GenerateTimerId_def Timer_Start_def InitTimerTask_def split: if_splits prod.splits bool.splits)
qed

lemma timer_component_stops:
  assumes "TimerComponent_Shutdown hash pol t w tw = Inr (t', w', tw')" "\<not> co_shutdown (tc_base t)"
    and "tc_timer t = Some tm" "timer_started tm" "timer_task_ptr tm = Some a"
  shows "tw_tasks tw' a = None \<and> tc_timer t' = None \<and> \<not> tc_Process t'"
  using assms Timer_Stop_drops [OF assms(4,5), of tw] Component_Shutdown_flag
  by (auto simp: TimerComponent_Shutdown_def TimerComponent_Clear_def drop_timer_def tc_Process_def split: sum.splits)

text \<open>The interval of the configuration is not kept.\<close>

lemma GetInterval_is_zero:
  "TimerComponent_Initialize e a cfg TimerComponent w next_id tw = (ok, t', w', next_id', tw') \<Longrightarrow> GetInterval t' = 0"
  by (auto simp: TimerComponent_Initialize_def TimerComponent_def GetInterval_def Let_def split: if_splits prod.splits bool.splits)

section \<open>Properties\<close>


section \<open>Witnesses\<close>

definition idle_sched :: sched where
  "idle_sched = \<lparr>sc_heap = (\<lambda>_. CRoutine 0 0 []), sc_next = 0, sc_rq = (\<lambda>_. []), sc_notify_grp = (\<lambda>_. 0), sc_notify_proc = (\<lambda>_. 0),
     id_cr = Map.empty, sc_stop = False, sc_ctx_stop = (\<lambda>_. False), sc_proc_num = 1\<rparr>"

definition demo_co_env :: "nat co_env" where
  "demo_co_env = \<lparr>ce_host = ''h'', ce_ip = ''ip'', ce_pid = 1, ce_node_id = (\<lambda>_. 3), ce_channel_id = (\<lambda>_. 4), ce_reality = False, ce_work_root = ''/apollo/cyber'',
     ce_types = [''S'', ''T''], ce_desc = (\<lambda>_. []), ce_task_ok = (\<lambda>_. True), ce_created = (\<lambda>_. None), ce_hash = (\<lambda>_. 5),
     ce_policy = Choreography Map.empty, ce_now = 0, ce_dispatcher = length, ce_buffers = [], ce_fusion = 0, ce_notifier = 0, ce_Init = (\<lambda>s. (True, s))\<rparr>"

definition demo_co_config :: component_config where
  "demo_co_config = \<lparr>cc_name = ''n'', cc_config_file_path = [], cc_flag_file_path = [],
     cc_readers = [\<lparr>ro_channel = ''a'', ro_qos = QOS_PROFILE_DEFAULT, ro_pending_queue_size = 1\<rparr>, \<lparr>ro_channel = ''b'', ro_qos = QOS_PROFILE_DEFAULT, ro_pending_queue_size = 1\<rparr>]\<rparr>"

definition demo_co_world :: "nat co_world" where
  "demo_co_world = \<lparr>cw_nodes = \<lparr>nw_blockers = Map.empty, nw_receivers = Map.empty\<rparr>, cw_data = empty_world, cw_sched = idle_sched, cw_global = GlobalData\<rparr>"

lemma demo_component:
  "\<exists>c' w'. Component_Initialize 2 demo_co_env demo_co_config ComponentBase demo_co_world = Inr (True, By_Reader [Some (''T'', ''b'')], c', w') \<and>
     nw_blockers (cw_nodes w') = [''b'' \<mapsto> (Blocker ''T'' 1)\<lparr>bl_callbacks := [(''n'', ''n'')]\<rparr>, ''a'' \<mapsto> (Blocker ''S'' 1)\<lparr>bl_callbacks := [(''n'', ''n'')]\<rparr>]"
proof -
  have two: "[Suc 0..<2] = [1]" by (simp add: upt_rec)
  have d: "qos_depth QOS_PROFILE_DEFAULT = 1" by (simp add: QOS_PROFILE_DEFAULT_def CreateQosProfile_def)
  show ?thesis
    by (simp add: Component_Initialize_def create_endpoints_def create_reader_def Node_CreateReader_def CreateReader_def NodeChannelImpl_def
        demo_co_env_def demo_co_config_def demo_co_world_def LoadConfigFiles_def ComponentBase_def two ReaderConfig_attr_def field_def FillInAttr_def
        node_IntraReader_def ir_Init_def bm_Subscribe_def GetOrCreateBlocker_def bl_Subscribe_def Blocker_def taken_blockers_def GetBlocker_def Let_def
        no_attributes_def d)
qed


end
