(* ===== verification/Class_Loaders.thy ===== *)
theory Class_Loaders
  imports Cyber_Prelude
begin

text \<open>
  \<^verbatim>\<open>cyber/class_loader\<close>: libraries are opened by class loaders, the classes that they register are known by factories that the loaders own,
  and objects are made by a factory for a loader.  Shown here: as long as there is an object, its library stays open and its loader is there.
\<close>

section \<open>Factories\<close>

text \<open>Loaders are known by numbers, the pointers to them.\<close>

record factory =
  fa_class :: string
  fa_base :: string
  fa_library :: string
  fa_owners :: "nat list"

definition ClassFactory :: "string \<Rightarrow> string \<Rightarrow> factory" where
  "ClassFactory class_name base_class_name = \<lparr>fa_class = class_name, fa_base = base_class_name, fa_library = [], fa_owners = []\<rparr>"

definition SetRelativeLibraryPath :: "string \<Rightarrow> factory \<Rightarrow> factory" where "SetRelativeLibraryPath path f = f\<lparr>fa_library := path\<rparr>"

definition AddOwnedClassLoader :: "nat \<Rightarrow> factory \<Rightarrow> factory" where
  "AddOwnedClassLoader l f = (if l \<in> set (fa_owners f) then f else f\<lparr>fa_owners := fa_owners f @ [l]\<rparr>)"

definition RemoveOwnedClassLoader :: "nat \<Rightarrow> factory \<Rightarrow> factory" where
  "RemoveOwnedClassLoader l f = f\<lparr>fa_owners := remove1 l (fa_owners f)\<rparr>"

definition IsOwnedBy :: "nat \<Rightarrow> factory \<Rightarrow> bool" where "IsOwnedBy l f \<longleftrightarrow> l \<in> set (fa_owners f)"
definition IsOwnedByAnybody :: "factory \<Rightarrow> bool" where "IsOwnedByAnybody f \<longleftrightarrow> fa_owners f \<noteq> []"

section \<open>The tables of the process\<close>

record loader =
  ld_path :: string
  ld_load_refs :: int
  ld_obj_refs :: int

text \<open>
  The map of maps of factories is a list with one entry for a base and a class, in the order in which it is walked.  An object is known by
  the loader that its deleter calls and by the library that has its code.
\<close>

record class_world =
  cl_factories :: "((string \<times> string) \<times> factory) list"
  cl_opened :: "string list"
  cl_loaders :: "nat \<rightharpoonup> loader"
  cl_next :: nat
  cl_objects :: "(nat \<times> string) list"

text \<open>\<^verbatim>\<open>RegisterClass\<close>, called while the loader \<open>l\<close> loads the library \<open>path\<close>.\<close>

definition RegisterClass :: "nat \<Rightarrow> string \<Rightarrow> string \<times> string \<Rightarrow> class_world \<Rightarrow> class_world" where
  "RegisterClass l path k s =
     s\<lparr>cl_factories := set_entry k (SetRelativeLibraryPath path (AddOwnedClassLoader l (ClassFactory (snd k) (fst k)))) (cl_factories s)\<rparr>"

definition GetAllClassFactoryObjectsOfLibrary :: "string \<Rightarrow> class_world \<Rightarrow> factory list" where
  "GetAllClassFactoryObjectsOfLibrary path s = filter (\<lambda>f. fa_library f = path) (map snd (cl_factories s))"

definition destroy_factory :: "string \<Rightarrow> nat \<Rightarrow> factory \<Rightarrow> factory option" where
  "destroy_factory path l f =
     (if fa_library f = path \<and> IsOwnedBy l f
      then let f = RemoveOwnedClassLoader l f in if IsOwnedByAnybody f then Some f else None
      else Some f)"

definition DestroyClassFactoryObjectsOfLibrary :: "string \<Rightarrow> nat \<Rightarrow> class_world \<Rightarrow> class_world" where
  "DestroyClassFactoryObjectsOfLibrary path l s =
     s\<lparr>cl_factories := List.map_filter (\<lambda>(k, f). map_option (Pair k) (destroy_factory path l f)) (cl_factories s)\<rparr>"

definition IsLibraryLoadedByAnybody :: "string \<Rightarrow> class_world \<Rightarrow> bool" where
  "IsLibraryLoadedByAnybody path s \<longleftrightarrow> path \<in> set (cl_opened s)"

definition IsLibraryLoaded :: "string \<Rightarrow> nat \<Rightarrow> class_world \<Rightarrow> bool" where
  "IsLibraryLoaded path l s =
     (let anyone = IsLibraryLoadedByAnybody path s; objs = GetAllClassFactoryObjectsOfLibrary path s
      in if anyone \<and> objs = [] then True else anyone \<and> length (filter (IsOwnedBy l) objs) \<le> length objs)"

text \<open>
  What a library registers when it is opened, \<open>None\<close> when that fails, is an argument: it depends on the file.
\<close>

type_synonym libraries = "string \<Rightarrow> (string \<times> string) list option"

definition attach :: "string \<Rightarrow> nat \<Rightarrow> class_world \<Rightarrow> class_world" where
  "attach path l s = s\<lparr>cl_factories := map (\<lambda>(k, f). (k, if fa_library f = path then AddOwnedClassLoader l f else f)) (cl_factories s)\<rparr>"

definition LoadLibrary :: "libraries \<Rightarrow> string \<Rightarrow> nat \<Rightarrow> class_world \<Rightarrow> bool \<times> class_world" where
  "LoadLibrary libs path l s =
     (if IsLibraryLoadedByAnybody path s then (True, attach path l s)
      else case libs path of
             None \<Rightarrow> (False, s)
           | Some ks \<Rightarrow> (let s = fold (RegisterClass l path) ks s in (True, s\<lparr>cl_opened := cl_opened s @ [path]\<rparr>)))"

definition UnloadLibrary :: "string \<Rightarrow> nat \<Rightarrow> class_world \<Rightarrow> class_world" where
  "UnloadLibrary path l s =
     (if path \<notin> set (cl_opened s) then s
      else let s = DestroyClassFactoryObjectsOfLibrary path l s
           in if GetAllClassFactoryObjectsOfLibrary path s = [] then s\<lparr>cl_opened := remove1 path (cl_opened s)\<rparr> else s)"

text \<open>The library of the object, if one is made.\<close>

definition util_CreateClassObj :: "string \<Rightarrow> string \<Rightarrow> nat \<Rightarrow> class_world \<Rightarrow> string option" where
  "util_CreateClassObj base class_name l s =
     (case map_of (cl_factories s) (base, class_name) of None \<Rightarrow> None | Some f \<Rightarrow> if IsOwnedBy l f then Some (fa_library f) else None)"

definition util_GetValidClassNames :: "string \<Rightarrow> nat \<Rightarrow> class_world \<Rightarrow> string list" where
  "util_GetValidClassNames base l s = map (\<lambda>e. snd (fst e)) (filter (\<lambda>e. fst (fst e) = base \<and> IsOwnedBy l (snd e)) (cl_factories s))"

section \<open>ClassLoader\<close>

definition set_loader :: "nat \<Rightarrow> loader \<Rightarrow> class_world \<Rightarrow> class_world" where
  "set_loader l ld s = s\<lparr>cl_loaders := (cl_loaders s)(l \<mapsto> ld)\<rparr>"

text \<open>The operations of a loader that is there; \<open>ld\<close> is the loader \<open>l\<close> points to.\<close>

definition ClassLoader_LoadLibrary :: "libraries \<Rightarrow> nat \<Rightarrow> loader \<Rightarrow> class_world \<Rightarrow> bool \<times> class_world" where
  "ClassLoader_LoadLibrary libs l ld s = LoadLibrary libs (ld_path ld) l (set_loader l (ld\<lparr>ld_load_refs := ld_load_refs ld + 1\<rparr>) s)"

definition ClassLoader :: "libraries \<Rightarrow> string \<Rightarrow> class_world \<Rightarrow> nat \<times> class_world" where
  "ClassLoader libs path s =
     (let l = cl_next s in (l, snd (ClassLoader_LoadLibrary libs l \<lparr>ld_path = path, ld_load_refs = 0, ld_obj_refs = 0\<rparr> (s\<lparr>cl_next := Suc l\<rparr>))))"

definition ClassLoader_UnloadLibrary :: "nat \<Rightarrow> loader \<Rightarrow> class_world \<Rightarrow> int \<times> class_world" where
  "ClassLoader_UnloadLibrary l ld s =
     (if 0 < ld_obj_refs ld then (ld_load_refs ld, s)
      else let n = ld_load_refs ld - 1
           in if n = 0 then (0, UnloadLibrary (ld_path ld) l (set_loader l (ld\<lparr>ld_load_refs := 0\<rparr>) s))
              else let n = (if n < 0 then 0 else n) in (n, set_loader l (ld\<lparr>ld_load_refs := n\<rparr>) s))"

definition IsClassValid :: "string \<Rightarrow> string \<Rightarrow> nat \<Rightarrow> class_world \<Rightarrow> bool" where
  "IsClassValid base class_name l s \<longleftrightarrow> class_name \<in> set (util_GetValidClassNames base l s)"

definition ClassLoader_CreateClassObj :: "libraries \<Rightarrow> string \<Rightarrow> string \<Rightarrow> nat \<Rightarrow> loader \<Rightarrow> class_world \<Rightarrow> (nat \<times> string) option \<times> class_world" where
  "ClassLoader_CreateClassObj libs base class_name l ld s =
     (let s = (if IsLibraryLoaded (ld_path ld) l s then s else snd (ClassLoader_LoadLibrary libs l ld s))
      in case util_CreateClassObj base class_name l s of
           None \<Rightarrow> (None, s)
         | Some lib \<Rightarrow>
             (case cl_loaders s l of
                None \<Rightarrow> (None, s)
              | Some ld \<Rightarrow> (Some (l, lib), (set_loader l (ld\<lparr>ld_obj_refs := ld_obj_refs ld + 1\<rparr>) s)\<lparr>cl_objects := (l, lib) # cl_objects s\<rparr>)))"

datatype loader_error = Null_Loader | Deleted_Loader

definition OnClassObjDeleter :: "nat \<times> string \<Rightarrow> class_world \<Rightarrow> loader_error + class_world" where
  "OnClassObjDeleter obj s =
     (case cl_loaders s (fst obj) of
        None \<Rightarrow> Inl Deleted_Loader
      | Some ld \<Rightarrow> Inr ((set_loader (fst obj) (ld\<lparr>ld_obj_refs := ld_obj_refs ld - 1\<rparr>) s)\<lparr>cl_objects := remove1 obj (cl_objects s)\<rparr>))"

section \<open>ClassLoaderManager\<close>

text \<open>A path may be mapped to a null pointer; the list is in the order of the map.\<close>

type_synonym loader_map = "(string \<times> nat option) list"

definition GetAllValidClassLoaders :: "loader_map \<Rightarrow> nat option list" where "GetAllValidClassLoaders m = map snd m"
definition GetAllValidLibPath :: "loader_map \<Rightarrow> string list" where "GetAllValidLibPath m = map fst (filter (\<lambda>e. snd e \<noteq> None) m)"
definition IsLibraryValid :: "string \<Rightarrow> loader_map \<Rightarrow> bool" where "IsLibraryValid path m \<longleftrightarrow> path \<in> set (GetAllValidLibPath m)"

definition Manager_LoadLibrary :: "libraries \<Rightarrow> string \<Rightarrow> loader_map \<times> class_world \<Rightarrow> bool \<times> loader_map \<times> class_world" where
  "Manager_LoadLibrary libs path ms =
     (let ms = (if IsLibraryValid path (fst ms) then ms
                else case ClassLoader libs path (snd ms) of (l, s) \<Rightarrow> (set_entry path (Some l) (fst ms), s))
      in (IsLibraryValid path (fst ms), ms))"

text \<open>The destructor of a loader unloads once more.\<close>

definition delete_loader :: "nat \<Rightarrow> class_world \<Rightarrow> class_world" where
  "delete_loader l s =
     (case cl_loaders s l of
        None \<Rightarrow> s
      | Some ld \<Rightarrow> (let s = snd (ClassLoader_UnloadLibrary l ld s) in s\<lparr>cl_loaders := (cl_loaders s)(l := None)\<rparr>))"

definition Manager_UnloadLibrary :: "string \<Rightarrow> loader_map \<times> class_world \<Rightarrow> int \<times> loader_map \<times> class_world" where
  "Manager_UnloadLibrary path ms =
     (case map_of (fst ms) path of
        Some (Some l) \<Rightarrow>
          (case cl_loaders (snd ms) l of
             None \<Rightarrow> (0, ms)
           | Some ld \<Rightarrow>
               (case ClassLoader_UnloadLibrary l ld (snd ms) of
                  (n, s) \<Rightarrow> if n = 0 then (0, set_entry path None (fst ms), delete_loader l s) else (n, fst ms, s)))
      | _ \<Rightarrow> (0, ms))"

definition UnloadAllLibrary :: "loader_map \<times> class_world \<Rightarrow> loader_map \<times> class_world" where
  "UnloadAllLibrary ms = fold (\<lambda>path ms. snd (Manager_UnloadLibrary path ms)) (GetAllValidLibPath (fst ms)) ms"

text \<open>A null pointer among the loaders is dereferenced.\<close>

fun find_loader :: "string \<Rightarrow> string \<Rightarrow> nat option list \<Rightarrow> class_world \<Rightarrow> loader_error + nat option" where
  "find_loader base class_name [] s = Inr None"
| "find_loader base class_name (None # ls) s = Inl Null_Loader"
| "find_loader base class_name (Some l # ls) s = (if IsClassValid base class_name l s then Inr (Some l) else find_loader base class_name ls s)"

definition create_by :: "libraries \<Rightarrow> string \<Rightarrow> string \<Rightarrow> nat \<Rightarrow> class_world \<Rightarrow> (nat \<times> string) option \<times> class_world" where
  "create_by libs base class_name l s =
     (case cl_loaders s l of None \<Rightarrow> (None, s) | Some ld \<Rightarrow> ClassLoader_CreateClassObj libs base class_name l ld s)"

definition Manager_CreateClassObj :: "libraries \<Rightarrow> string \<Rightarrow> string \<Rightarrow> loader_map \<times> class_world \<Rightarrow> loader_error + ((nat \<times> string) option \<times> class_world)" where
  "Manager_CreateClassObj libs base class_name ms =
     (case find_loader base class_name (GetAllValidClassLoaders (fst ms)) (snd ms) of
        Inl e \<Rightarrow> Inl e
      | Inr None \<Rightarrow> Inr (None, snd ms)
      | Inr (Some l) \<Rightarrow> Inr (create_by libs base class_name l (snd ms)))"

text \<open>\<^verbatim>\<open>GetClassLoaderByLibPath\<close> enters a null pointer for a path that is not in the map.\<close>

definition GetClassLoaderByLibPath :: "string \<Rightarrow> loader_map \<Rightarrow> nat option \<times> loader_map" where
  "GetClassLoaderByLibPath path m = (case map_of m path of Some l \<Rightarrow> (l, m) | None \<Rightarrow> (None, set_entry path None m))"

definition Manager_CreateClassObj_of ::
  "libraries \<Rightarrow> string \<Rightarrow> string \<Rightarrow> string \<Rightarrow> loader_map \<times> class_world \<Rightarrow> (nat \<times> string) option \<times> loader_map \<times> class_world" where
  "Manager_CreateClassObj_of libs base class_name path ms =
     (case GetClassLoaderByLibPath path (fst ms) of
        (None, m) \<Rightarrow> (None, m, snd ms)
      | (Some l, m) \<Rightarrow> (case create_by libs base class_name l (snd ms) of (obj, s) \<Rightarrow> (obj, m, s)))"

fun Manager_GetValidClassNames :: "string \<Rightarrow> nat option list \<Rightarrow> class_world \<Rightarrow> loader_error + string list" where
  "Manager_GetValidClassNames base [] s = Inr []"
| "Manager_GetValidClassNames base (None # ls) s = Inl Null_Loader"
| "Manager_GetValidClassNames base (Some l # ls) s =
     (case Manager_GetValidClassNames base ls s of Inl e \<Rightarrow> Inl e | Inr ns \<Rightarrow> Inr (util_GetValidClassNames base l s @ ns))"

definition Manager_IsClassValid :: "string \<Rightarrow> string \<Rightarrow> loader_map \<times> class_world \<Rightarrow> loader_error + bool" where
  "Manager_IsClassValid base class_name ms =
     (case Manager_GetValidClassNames base (GetAllValidClassLoaders (fst ms)) (snd ms) of Inl e \<Rightarrow> Inl e | Inr ns \<Rightarrow> Inr (class_name \<in> set ns))"

section \<open>Invariant\<close>

definition owner_ok :: "class_world \<Rightarrow> string \<Rightarrow> nat \<Rightarrow> bool" where
  "owner_ok s path l \<longleftrightarrow> (\<exists>ld. cl_loaders s l = Some ld \<and> ld_path ld = path \<and> 1 \<le> ld_load_refs ld)"

definition factory_ok :: "libraries \<Rightarrow> class_world \<Rightarrow> (string \<times> string) \<times> factory \<Rightarrow> bool" where
  "factory_ok libs s e \<longleftrightarrow> fa_library (snd e) \<in> set (cl_opened s) \<and> (\<exists>ks. libs (fa_library (snd e)) = Some ks \<and> fst e \<in> set ks) \<and>
     fa_owners (snd e) \<noteq> [] \<and> distinct (fa_owners (snd e)) \<and> (\<forall>l \<in> set (fa_owners (snd e)). owner_ok s (fa_library (snd e)) l)"

definition object_ok :: "class_world \<Rightarrow> nat \<times> string \<Rightarrow> bool" where
  "object_ok s obj \<longleftrightarrow> (\<exists>e \<in> set (cl_factories s). fa_library (snd e) = snd obj \<and> fst obj \<in> set (fa_owners (snd e)))"

definition loader_ok :: "class_world \<Rightarrow> nat \<Rightarrow> loader \<Rightarrow> bool" where
  "loader_ok s l ld \<longleftrightarrow> ld_obj_refs ld = int (length (filter (\<lambda>obj. fst obj = l) (cl_objects s))) \<and> l < cl_next s \<and> 0 \<le> ld_load_refs ld"

definition class_inv :: "libraries \<Rightarrow> class_world \<Rightarrow> bool" where
  "class_inv libs s \<longleftrightarrow> distinct (map fst (cl_factories s)) \<and> distinct (cl_opened s) \<and> (\<forall>e \<in> set (cl_factories s). factory_ok libs s e) \<and>
     (\<forall>obj \<in> set (cl_objects s). object_ok s obj) \<and> (\<forall>l ld. cl_loaders s l = Some ld \<longrightarrow> loader_ok s l ld)"

text \<open>Different libraries do not register the same class.\<close>

definition no_clash :: "libraries \<Rightarrow> bool" where
  "no_clash libs \<longleftrightarrow> (\<forall>p q ks js. libs p = Some ks \<longrightarrow> libs q = Some js \<longrightarrow> set ks \<inter> set js \<noteq> {} \<longrightarrow> p = q)"

lemma class_inv_object:
  assumes "class_inv libs s" "obj \<in> set (cl_objects s)"
  shows "snd obj \<in> set (cl_opened s) \<and> owner_ok s (snd obj) (fst obj)"
proof -
  have "object_ok s obj" and f: "\<forall>e \<in> set (cl_factories s). factory_ok libs s e" using assms by (auto simp: class_inv_def)
  then obtain e where e: "e \<in> set (cl_factories s)" "fa_library (snd e) = snd obj" "fst obj \<in> set (fa_owners (snd e))" by (auto simp: object_ok_def)
  then have "factory_ok libs s e" using f by blast
  then show ?thesis using e(2,3) by (simp add: factory_ok_def)
qed

lemma attached_owner_same: "cl_loaders s' = cl_loaders s \<Longrightarrow> owner_ok s' path l = owner_ok s path l"
  by (simp add: owner_ok_def)

definition new_factory :: "nat \<Rightarrow> string \<Rightarrow> string \<times> string \<Rightarrow> factory" where
  "new_factory l path k = \<lparr>fa_class = snd k, fa_base = fst k, fa_library = path, fa_owners = [l]\<rparr>"

lemma RegisterClass_new: "RegisterClass l path k s = s\<lparr>cl_factories := set_entry k (new_factory l path k) (cl_factories s)\<rparr>"
  by (simp add: RegisterClass_def new_factory_def SetRelativeLibraryPath_def AddOwnedClassLoader_def ClassFactory_def)

lemma register_all:
  "\<exists>fs. fold (RegisterClass l path) ks s = s\<lparr>cl_factories := fs\<rparr> \<and>
     set fs = {e \<in> set (cl_factories s). fst e \<notin> set ks} \<union> (\<lambda>k. (k, new_factory l path k)) ` set ks \<and>
     (distinct (map fst (cl_factories s)) \<longrightarrow> distinct (map fst fs))"
proof (induction ks arbitrary: s)
  case Nil
  show ?case by (rule exI [of _ "cl_factories s"]) simp
next
  case (Cons k ks)
  let ?s = "RegisterClass l path k s"
  obtain fs where fs: "fold (RegisterClass l path) ks ?s = ?s\<lparr>cl_factories := fs\<rparr>"
    "set fs = {e \<in> set (cl_factories ?s). fst e \<notin> set ks} \<union> (\<lambda>k. (k, new_factory l path k)) ` set ks"
    "distinct (map fst (cl_factories ?s)) \<longrightarrow> distinct (map fst fs)"
    using Cons.IH by blast
  have "set fs = {e \<in> set (cl_factories s). fst e \<notin> set (k # ks)} \<union> (\<lambda>k. (k, new_factory l path k)) ` set (k # ks)"
    unfolding fs(2) by (auto simp: RegisterClass_new set_set_entry)
  moreover have "fold (RegisterClass l path) (k # ks) s = s\<lparr>cl_factories := fs\<rparr>" using fs(1) by (simp add: RegisterClass_new [of l path k s])
  moreover have "distinct (map fst (cl_factories s)) \<longrightarrow> distinct (map fst fs)"
    using fs(3) distinct_set_entry [of "cl_factories s" k "new_factory l path k"] by (simp add: RegisterClass_new)
  ultimately show ?case by blast
qed

text \<open>Loading, by a loader that is there.\<close>

lemma inv_more_refs:
  assumes "class_inv libs s" "cl_loaders s l = Some ld" "0 \<le> n"
  shows "class_inv libs (set_loader l (ld\<lparr>ld_load_refs := ld_load_refs ld + n\<rparr>) s)"
  using assms
  by (fastforce simp: class_inv_def set_loader_def factory_ok_def owner_ok_def object_ok_def loader_ok_def)

lemma inv_attach:
  assumes inv: "class_inv libs s" and own: "owner_ok s path l"
  shows "class_inv libs (attach path l s)"
proof -
  let ?g = "\<lambda>(k, f). (k, if fa_library f = path then AddOwnedClassLoader l f else f)"
  have sel: "fst (?g e) = fst e" "fa_library (snd (?g e)) = fa_library (snd e)"
    "set (fa_owners (snd e)) \<subseteq> set (fa_owners (snd (?g e)))" for e
    by (auto simp: AddOwnedClassLoader_def split: prod.split)
  have w: "owner_ok (attach path l s) = owner_ok s" by (intro ext attached_owner_same) (simp add: attach_def)
  have f: "factory_ok libs (attach path l s) (?g e)" if e: "factory_ok libs s e" for e
  proof (cases "fa_library (snd e) = path")
    case True
    then have "?g e = (fst e, AddOwnedClassLoader l (snd e))" by (simp add: case_prod_unfold)
    then show ?thesis using e own True unfolding factory_ok_def w by (auto simp: attach_def AddOwnedClassLoader_def)
  next
    case False
    then have "?g e = e" by (simp add: case_prod_unfold)
    then show ?thesis using e unfolding factory_ok_def w by (simp add: attach_def)
  qed
  have m: "map fst (cl_factories (attach path l s)) = map fst (cl_factories s)" by (simp add: attach_def comp_def case_prod_unfold)
  have "\<forall>e \<in> set (cl_factories (attach path l s)). factory_ok libs (attach path l s) e"
    using inv f by (auto simp: class_inv_def attach_def)
  moreover have "object_ok (attach path l s) obj" if o: "object_ok s obj" for obj
  proof -
    obtain e where e: "e \<in> set (cl_factories s)" "fa_library (snd e) = snd obj" "fst obj \<in> set (fa_owners (snd e))" using o by (auto simp: object_ok_def)
    have "fa_library (snd (?g e)) = snd obj \<and> fst obj \<in> set (fa_owners (snd (?g e)))" using e(2,3) sel(2,3) [of e] by (simp add: subsetD)
    moreover have "?g e \<in> set (cl_factories (attach path l s))" unfolding attach_def using imageI [OF e(1), of ?g] by simp
    ultimately show ?thesis unfolding object_ok_def by (rule bexI)
  qed
  moreover have "cl_opened (attach path l s) = cl_opened s" "cl_objects (attach path l s) = cl_objects s" "cl_loaders (attach path l s) = cl_loaders s"
    "cl_next (attach path l s) = cl_next s"
    by (simp_all add: attach_def)
  ultimately show ?thesis using inv unfolding class_inv_def m loader_ok_def by simp
qed

lemma inv_open:
  assumes inv: "class_inv libs s" and own: "owner_ok s path l" and new: "path \<notin> set (cl_opened s)" and ks: "libs path = Some ks" and nc: "no_clash libs"
  shows "class_inv libs ((fold (RegisterClass l path) ks s)\<lparr>cl_opened := cl_opened s @ [path]\<rparr>)"
proof -
  obtain fs where fs: "fold (RegisterClass l path) ks s = s\<lparr>cl_factories := fs\<rparr>"
    "set fs = {e \<in> set (cl_factories s). fst e \<notin> set ks} \<union> (\<lambda>k. (k, new_factory l path k)) ` set ks"
    "distinct (map fst (cl_factories s)) \<longrightarrow> distinct (map fst fs)"
    using register_all by blast
  have old: "fst e \<notin> set ks" if "e \<in> set (cl_factories s)" for e
  proof
    assume k: "fst e \<in> set ks"
    have "factory_ok libs s e" using inv that by (simp add: class_inv_def)
    then obtain js where js: "libs (fa_library (snd e)) = Some js" "fst e \<in> set js" "fa_library (snd e) \<in> set (cl_opened s)" by (auto simp: factory_ok_def)
    then have "fa_library (snd e) = path" using nc ks k unfolding no_clash_def by blast
    then show False using js(3) new by simp
  qed
  then have set_fs: "set fs = set (cl_factories s) \<union> (\<lambda>k. (k, new_factory l path k)) ` set ks" unfolding fs(2) by blast
  show ?thesis using inv own new ks fs(3)
    by (auto simp: fs(1) class_inv_def set_fs factory_ok_def owner_ok_def object_ok_def loader_ok_def new_factory_def)
qed

lemma inv_Load:
  assumes "class_inv libs s" "cl_loaders s l = Some ld" "no_clash libs"
  shows "class_inv libs (snd (ClassLoader_LoadLibrary libs l ld s))"
proof -
  let ?s = "set_loader l (ld\<lparr>ld_load_refs := ld_load_refs ld + 1\<rparr>) s"
  have i: "class_inv libs ?s" using inv_more_refs [OF assms(1,2), of 1] by simp
  have "0 \<le> ld_load_refs ld" using assms(1,2) by (auto simp: class_inv_def loader_ok_def)
  then have o: "owner_ok ?s (ld_path ld) l" by (simp add: owner_ok_def set_loader_def)
  have c: "cl_opened (fold (RegisterClass l (ld_path ld)) ks ?s) = cl_opened ?s" for ks
    using register_all [of l "ld_path ld" ks ?s] by auto
  show ?thesis
    using i inv_attach [OF i o] inv_open [OF i o _ _ assms(3)] c
    by (auto simp: ClassLoader_LoadLibrary_def LoadLibrary_def IsLibraryLoadedByAnybody_def Let_def split: option.split)
qed

text \<open>Unloading, by a loader without objects.\<close>

lemma set_Destroy:
  "set (cl_factories (DestroyClassFactoryObjectsOfLibrary path l s)) = {(k, f'). \<exists>f. (k, f) \<in> set (cl_factories s) \<and> destroy_factory path l f = Some f'}"
  by (auto simp: DestroyClassFactoryObjectsOfLibrary_def map_filter_def image_iff) force

lemma fst_map_filter_distinct:
  "distinct (map fst xs) \<Longrightarrow> distinct (map fst (List.map_filter (\<lambda>(k, f). map_option (Pair k) (g f)) xs))"
proof (induction xs)
  case Nil
  then show ?case by (simp add: map_filter_simps)
next
  case (Cons x xs)
  have "fst ` set (List.map_filter (\<lambda>(k, f). map_option (Pair k) (g f)) xs) \<subseteq> fst ` set xs"
    by (auto simp: map_filter_def image_iff) force
  then show ?case using Cons by (cases x) (auto simp: map_filter_simps split: option.split)
qed

lemma destroy_factory_Some:
  assumes "destroy_factory path l f = Some f'" "distinct (fa_owners f)"
  shows "fa_library f' = fa_library f" "set (fa_owners f') = (if fa_library f = path then set (fa_owners f) - {l} else set (fa_owners f))"
    "distinct (fa_owners f')" "fa_owners f \<noteq> [] \<Longrightarrow> fa_owners f' \<noteq> []"
  using assms
  by (auto simp: destroy_factory_def RemoveOwnedClassLoader_def IsOwnedBy_def IsOwnedByAnybody_def Let_def split: if_splits)

lemma destroy_factory_other:
  assumes "l' \<in> set (fa_owners f)" "l' \<noteq> l"
  shows "\<exists>f'. destroy_factory path l f = Some f' \<and> fa_library f' = fa_library f \<and> l' \<in> set (fa_owners f')"
proof -
  have "l' \<in> set (remove1 l (fa_owners f))" using assms by simp
  then have "remove1 l (fa_owners f) \<noteq> []" by (metis empty_iff empty_set)
  then show ?thesis using assms by (auto simp: destroy_factory_def RemoveOwnedClassLoader_def IsOwnedByAnybody_def Let_def)
qed

lemma Destroy_sel [simp]:
  "cl_opened (DestroyClassFactoryObjectsOfLibrary path l s) = cl_opened s" "cl_objects (DestroyClassFactoryObjectsOfLibrary path l s) = cl_objects s"
  "cl_next (DestroyClassFactoryObjectsOfLibrary path l s) = cl_next s" "cl_loaders (DestroyClassFactoryObjectsOfLibrary path l s) = cl_loaders s"
  by (simp_all add: DestroyClassFactoryObjectsOfLibrary_def)

lemma set_loader_sel [simp]:
  "cl_factories (set_loader l ld s) = cl_factories s" "cl_opened (set_loader l ld s) = cl_opened s"
  "cl_objects (set_loader l ld s) = cl_objects s" "cl_next (set_loader l ld s) = cl_next s" "cl_loaders (set_loader l ld s) = (cl_loaders s)(l \<mapsto> ld)"
  by (simp_all add: set_loader_def)

lemma set_loader_twice [simp]: "set_loader l ld (set_loader l ld' s) = set_loader l ld s"
  by (simp add: set_loader_def)

lemma Destroy_factory_ok:
  assumes inv: "class_inv libs s" and l: "cl_loaders s l = Some ld"
    and kf: "(k, f') \<in> set (cl_factories (DestroyClassFactoryObjectsOfLibrary (ld_path ld) l s))"
  shows "factory_ok libs (DestroyClassFactoryObjectsOfLibrary (ld_path ld) l (set_loader l (ld\<lparr>ld_load_refs := 0\<rparr>) s)) (k, f')"
proof -
  obtain f where f: "(k, f) \<in> set (cl_factories s)" "destroy_factory (ld_path ld) l f = Some f'" using kf by (auto simp: set_Destroy)
  have ok: "factory_ok libs s (k, f)" using inv f(1) by (simp add: class_inv_def)
  have mine: "fa_library f = ld_path ld" if "l \<in> set (fa_owners f)" using ok that l by (auto simp: factory_ok_def owner_ok_def)
  have "distinct (fa_owners f)" using ok by (simp add: factory_ok_def)
  note d = destroy_factory_Some [OF f(2) this]
  have "l \<notin> set (fa_owners f')" using d(2) mine by auto
  moreover have "set (fa_owners f') \<subseteq> set (fa_owners f)" using d(2) by auto
  ultimately have "owner_ok (DestroyClassFactoryObjectsOfLibrary (ld_path ld) l (set_loader l (ld\<lparr>ld_load_refs := 0\<rparr>) s)) (fa_library f') l'"
    if "l' \<in> set (fa_owners f')" for l'
    using ok that d(1) by (auto simp: factory_ok_def owner_ok_def)
  then show ?thesis using ok d(1,3,4) by (simp add: factory_ok_def)
qed

lemma no_objects:
  assumes "class_inv libs s" "cl_loaders s l = Some ld" "ld_obj_refs ld \<le> 0" "b \<in> set (cl_objects s)"
  shows "fst b \<noteq> l"
proof
  assume "fst b = l"
  then have "filter (\<lambda>obj. fst obj = l) (cl_objects s) \<noteq> []" using assms(4) by (auto simp: filter_empty_conv)
  then show False using assms(1-3) by (auto simp: class_inv_def loader_ok_def)
qed

lemma inv_Destroy:
  assumes inv: "class_inv libs s" and l: "cl_loaders s l = Some ld" and obj: "ld_obj_refs ld \<le> 0"
  shows "class_inv libs (DestroyClassFactoryObjectsOfLibrary (ld_path ld) l (set_loader l (ld\<lparr>ld_load_refs := 0\<rparr>) s))" (is "class_inv libs ?s'")
proof -
  have fac: "cl_factories ?s' = cl_factories (DestroyClassFactoryObjectsOfLibrary (ld_path ld) l s)" by (simp add: DestroyClassFactoryObjectsOfLibrary_def)
  have "factory_ok libs ?s' e" if "e \<in> set (cl_factories ?s')" for e
    using Destroy_factory_ok [OF inv l, of "fst e" "snd e"] that unfolding fac by simp
  moreover have "object_ok ?s' b" if b: "b \<in> set (cl_objects s)" for b
  proof -
    obtain k f where e: "(k, f) \<in> set (cl_factories s)" "fa_library f = snd b" "fst b \<in> set (fa_owners f)"
      using inv b by (force simp: class_inv_def object_ok_def)
    obtain f' where "destroy_factory (ld_path ld) l f = Some f'" "fa_library f' = fa_library f" "fst b \<in> set (fa_owners f')"
      using destroy_factory_other [OF e(3) no_objects [OF inv l obj b]] by blast
    moreover then have "(k, f') \<in> set (cl_factories ?s')" using e(1) by (simp add: set_Destroy) blast
    ultimately show ?thesis unfolding object_ok_def using e(2) by (intro bexI [of _ "(k, f')"]) simp_all
  qed
  moreover have "distinct (map fst (cl_factories ?s'))"
    using inv fst_map_filter_distinct [of "cl_factories s" "destroy_factory (ld_path ld) l"] unfolding class_inv_def
    by (simp add: DestroyClassFactoryObjectsOfLibrary_def)
  moreover have "loader_ok ?s' m md" if "cl_loaders ?s' m = Some md" for m md
    using inv l that by (auto simp: class_inv_def loader_ok_def split: if_splits)
  ultimately show ?thesis using inv by (simp add: class_inv_def)
qed

lemma inv_close:
  assumes inv: "class_inv libs s" and empty: "GetAllClassFactoryObjectsOfLibrary path s = []"
  shows "class_inv libs (s\<lparr>cl_opened := remove1 path (cl_opened s)\<rparr>)"
proof -
  have "fa_library (snd e) \<noteq> path" if "e \<in> set (cl_factories s)" for e
    using empty that by (auto simp: GetAllClassFactoryObjectsOfLibrary_def filter_empty_conv)
  then have "factory_ok libs (s\<lparr>cl_opened := remove1 path (cl_opened s)\<rparr>) e" if "e \<in> set (cl_factories s)" for e
    using inv that by (auto simp: class_inv_def factory_ok_def owner_ok_def)
  then show ?thesis using inv by (auto simp: class_inv_def object_ok_def loader_ok_def)
qed

lemma map_filter_same: "(\<And>e. e \<in> set xs \<Longrightarrow> g e = Some e) \<Longrightarrow> List.map_filter g xs = xs"
  by (induction xs) (auto simp: map_filter_simps)

lemma Destroy_closed:
  assumes "class_inv libs s" "path \<notin> set (cl_opened s)"
  shows "DestroyClassFactoryObjectsOfLibrary path l (set_loader l ld s) = set_loader l ld s"
proof -
  have "map_option (Pair k) (destroy_factory path l f) = Some (k, f)" if "(k, f) \<in> set (cl_factories s)" for k f
    using assms that by (auto simp: class_inv_def factory_ok_def destroy_factory_def)
  then have "List.map_filter (\<lambda>(k, f). map_option (Pair k) (destroy_factory path l f)) (cl_factories s) = cl_factories s"
    by (intro map_filter_same) auto
  then show ?thesis by (simp add: DestroyClassFactoryObjectsOfLibrary_def)
qed

lemma inv_Unload:
  assumes inv: "class_inv libs s" and l: "cl_loaders s l = Some ld"
  shows "class_inv libs (snd (ClassLoader_UnloadLibrary l ld s))"
proof -
  let ?s0 = "set_loader l (ld\<lparr>ld_load_refs := 0\<rparr>) s"
  consider "0 < ld_obj_refs ld" | "ld_obj_refs ld \<le> 0" "ld_load_refs ld \<le> 1" | "ld_obj_refs ld \<le> 0" "1 < ld_load_refs ld" by linarith
  then show ?thesis
  proof cases
    case 2
    note d = inv_Destroy [OF inv l 2(1)]
    have "class_inv libs ?s0" if "ld_path ld \<notin> set (cl_opened s)" using d Destroy_closed [OF inv that] by simp
    moreover have "class_inv libs ?s0" if "ld_load_refs ld \<noteq> 1"
    proof -
      have "ld\<lparr>ld_load_refs := 0\<rparr> = ld" "ld_load_refs ld = 0" using that 2(2) inv l by (cases ld; fastforce simp: class_inv_def loader_ok_def)+
      then show ?thesis using inv l by (simp add: set_loader_def fun_upd_idem)
    qed
    ultimately show ?thesis
      using 2 d inv_close [OF d] by (auto simp: ClassLoader_UnloadLibrary_def UnloadLibrary_def Let_def)
  next
    case 3
    then have "class_inv libs (set_loader l (ld\<lparr>ld_load_refs := ld_load_refs ld - 1\<rparr>) s)"
      using inv l by (fastforce simp: class_inv_def factory_ok_def owner_ok_def object_ok_def loader_ok_def)
    then show ?thesis using 3 by (auto simp: ClassLoader_UnloadLibrary_def Let_def)
  qed (use inv in \<open>simp add: ClassLoader_UnloadLibrary_def\<close>)
qed

text \<open>Objects and loaders.\<close>

lemma LoadLibrary_keeps [simp]:
  "cl_objects (snd (LoadLibrary libs path l s)) = cl_objects s" "cl_loaders (snd (LoadLibrary libs path l s)) = cl_loaders s"
  "cl_next (snd (LoadLibrary libs path l s)) = cl_next s"
proof -
  have "cl_objects (fold (RegisterClass l path) ks s) = cl_objects s \<and> cl_loaders (fold (RegisterClass l path) ks s) = cl_loaders s \<and>
      cl_next (fold (RegisterClass l path) ks s) = cl_next s" for ks
    using register_all [of l path ks s] by auto
  then show "cl_objects (snd (LoadLibrary libs path l s)) = cl_objects s" "cl_loaders (snd (LoadLibrary libs path l s)) = cl_loaders s"
    "cl_next (snd (LoadLibrary libs path l s)) = cl_next s"
    by (auto simp: LoadLibrary_def attach_def Let_def split: option.split)
qed

lemma LoadLibrary_opened:
  "cl_opened (snd (LoadLibrary libs path l s)) = (if path \<in> set (cl_opened s) \<or> libs path = None then cl_opened s else cl_opened s @ [path])"
proof -
  have "cl_opened (fold (RegisterClass l path) ks s) = cl_opened s" for ks using register_all [of l path ks s] by auto
  then show ?thesis by (auto simp: LoadLibrary_def attach_def IsLibraryLoadedByAnybody_def Let_def split: option.split)
qed

lemma inv_new_loader:
  assumes "class_inv libs s" "no_clash libs"
  shows "class_inv libs (snd (ClassLoader libs path s))"
proof -
  let ?l = "cl_next s" and ?ld = "\<lparr>ld_path = path, ld_load_refs = 0, ld_obj_refs = 0\<rparr>"
  have fresh: "cl_loaders s ?l = None" using assms(1) by (cases "cl_loaders s ?l") (auto simp: class_inv_def loader_ok_def)
  have "fst b \<noteq> ?l" if "b \<in> set (cl_objects s)" for b
    using class_inv_object [OF assms(1) that] fresh by (auto simp: owner_ok_def)
  then have "filter (\<lambda>b. fst b = ?l) (cl_objects s) = []" by (auto simp: filter_empty_conv)
  then have i: "class_inv libs (set_loader ?l ?ld (s\<lparr>cl_next := Suc ?l\<rparr>))"
    using assms(1) fresh by (fastforce simp: class_inv_def factory_ok_def owner_ok_def object_ok_def loader_ok_def less_Suc_eq)
  then show ?thesis using inv_Load [OF i _ assms(2), of ?l ?ld] by (simp add: ClassLoader_def ClassLoader_LoadLibrary_def Let_def)
qed

definition objects_of :: "nat \<Rightarrow> (nat \<times> string) list \<Rightarrow> nat" where
  "objects_of l bs = length (filter (\<lambda>b. fst b = l) bs)"

lemma inv_set_objects:
  assumes inv: "class_inv libs s" and l: "cl_loaders s l = Some ld" and bs: "\<forall>b \<in> set bs. object_ok s b" "n = int (objects_of l bs)"
    and others: "\<forall>m. m \<noteq> l \<longrightarrow> objects_of m bs = objects_of m (cl_objects s)"
  shows "class_inv libs ((set_loader l (ld\<lparr>ld_obj_refs := n\<rparr>) s)\<lparr>cl_objects := bs\<rparr>)" (is "class_inv libs ?s'")
proof -
  have w: "owner_ok ?s' path m = owner_ok s path m" for path m using l by (auto simp: owner_ok_def)
  have "factory_ok libs ?s' e = factory_ok libs s e" for e by (simp add: factory_ok_def w)
  moreover have "object_ok ?s' b = object_ok s b" for b by (simp add: object_ok_def)
  moreover have "loader_ok ?s' m md" if "cl_loaders ?s' m = Some md" for m md
    using inv l that bs(2) others by (auto simp: class_inv_def loader_ok_def objects_of_def split: if_splits)
  ultimately show ?thesis using inv bs(1) by (simp add: class_inv_def)
qed

lemma inv_create_by:
  assumes "class_inv libs s" "no_clash libs"
  shows "class_inv libs (snd (create_by libs base class_name l s))"
proof (cases "cl_loaders s l")
  case None
  then show ?thesis using assms by (simp add: create_by_def)
next
  case (Some ld)
  define s1 where "s1 = (if IsLibraryLoaded (ld_path ld) l s then s else snd (ClassLoader_LoadLibrary libs l ld s))"
  have i: "class_inv libs s1" using inv_Load [OF assms(1) Some assms(2)] assms(1) by (simp add: s1_def)
  have "class_inv libs ((set_loader l (ld'\<lparr>ld_obj_refs := ld_obj_refs ld' + 1\<rparr>) s1)\<lparr>cl_objects := (l, lib) # cl_objects s1\<rparr>)"
    if u: "util_CreateClassObj base class_name l s1 = Some lib" and ld': "cl_loaders s1 l = Some ld'" for lib ld'
  proof -
    obtain f where f: "((base, class_name), f) \<in> set (cl_factories s1)" "l \<in> set (fa_owners f)" "lib = fa_library f"
      using u by (auto simp: util_CreateClassObj_def IsOwnedBy_def dest: map_of_SomeD split: option.splits if_splits)
    then have "object_ok s1 (l, lib)" unfolding object_ok_def by (intro bexI [OF _ f(1)]) simp
    then have "\<forall>b \<in> set ((l, lib) # cl_objects s1). object_ok s1 b" using i by (simp add: class_inv_def)
    then show ?thesis using i ld' by (intro inv_set_objects) (auto simp: objects_of_def class_inv_def loader_ok_def)
  qed
  then show ?thesis using i Some by (auto simp: create_by_def ClassLoader_CreateClassObj_def Let_def simp flip: s1_def split: option.split)
qed

lemma objects_of_remove1: "b \<in> set bs \<Longrightarrow> objects_of m (remove1 b bs) = objects_of m bs - (if fst b = m then 1 else 0)"
  by (simp add: objects_of_def filter_remove1 length_remove1)

lemma inv_Deleter:
  assumes "class_inv libs s" "b \<in> set (cl_objects s)"
  shows "\<exists>s'. OnClassObjDeleter b s = Inr s' \<and> class_inv libs s'"
proof -
  obtain ld where l: "cl_loaders s (fst b) = Some ld" using class_inv_object [OF assms] by (auto simp: owner_ok_def)
  have "0 < objects_of (fst b) (cl_objects s)" using assms(2) by (auto simp: objects_of_def filter_empty_conv)
  moreover have "ld_obj_refs ld = int (objects_of (fst b) (cl_objects s))" using assms(1) l by (simp add: class_inv_def loader_ok_def objects_of_def)
  moreover have "\<forall>b' \<in> set (remove1 b (cl_objects s)). object_ok s b'" using assms(1) notin_set_remove1 by (fastforce simp: class_inv_def)
  ultimately have "class_inv libs ((set_loader (fst b) (ld\<lparr>ld_obj_refs := ld_obj_refs ld - 1\<rparr>) s)\<lparr>cl_objects := remove1 b (cl_objects s)\<rparr>)"
    using assms l by (intro inv_set_objects) (auto simp: objects_of_remove1)
  then show ?thesis using l by (simp add: OnClassObjDeleter_def)
qed

lemma inv_delete_loader:
  assumes inv: "class_inv libs s" and ld: "cl_loaders s l = Some ld" "ld_load_refs ld = 0"
  shows "class_inv libs (delete_loader l s)"
proof -
  have own: "\<not> owner_ok s path l" for path using ld by (simp add: owner_ok_def)
  have no: "fst b \<noteq> l" if "b \<in> set (cl_objects s)" for b using class_inv_object [OF inv that] own by auto
  then have "filter (\<lambda>b. fst b = l) (cl_objects s) = []" by (auto simp: filter_empty_conv)
  then have "ld_obj_refs ld = 0" using inv ld by (simp add: class_inv_def loader_ok_def)
  moreover have "ld\<lparr>ld_load_refs := 0\<rparr> = ld" using ld(2) by (cases ld) simp
  ultimately have eq: "delete_loader l s = s\<lparr>cl_loaders := (cl_loaders s)(l := None)\<rparr>"
    using ld by (simp add: delete_loader_def ClassLoader_UnloadLibrary_def set_loader_def fun_upd_idem Let_def)
  have "owner_ok (delete_loader l s) path m" if "owner_ok s path m" for path m using that own unfolding eq by (auto simp: owner_ok_def)
  then have "factory_ok libs (delete_loader l s) e" if "factory_ok libs s e" for e using that unfolding factory_ok_def by (auto simp: eq)
  then show ?thesis using inv unfolding class_inv_def by (auto simp: eq object_ok_def loader_ok_def split: if_splits)
qed

section \<open>Runs\<close>

text \<open>What the manager is asked to do, and the loaders that others have of their own, in any order.\<close>

inductive class_step :: "libraries \<Rightarrow> loader_map \<times> class_world \<Rightarrow> loader_map \<times> class_world \<Rightarrow> bool" for libs where
  Load: "class_step libs ms (snd (Manager_LoadLibrary libs path ms))"
| Unload: "class_step libs ms (snd (Manager_UnloadLibrary path ms))"
| Create: "Manager_CreateClassObj libs base class_name ms = Inr (obj, s) \<Longrightarrow> class_step libs ms (fst ms, s)"
| Create_of: "class_step libs ms (snd (Manager_CreateClassObj_of libs base class_name path ms))"
| Delete: "obj \<in> set (cl_objects (snd ms)) \<Longrightarrow> OnClassObjDeleter obj (snd ms) = Inr s \<Longrightarrow> class_step libs ms (fst ms, s)"
| New: "class_step libs ms (fst ms, snd (ClassLoader libs path (snd ms)))"
| Own_Load: "cl_loaders (snd ms) l = Some ld \<Longrightarrow> class_step libs ms (fst ms, snd (ClassLoader_LoadLibrary libs l ld (snd ms)))"
| Own_Unload: "cl_loaders (snd ms) l = Some ld \<Longrightarrow> class_step libs ms (fst ms, snd (ClassLoader_UnloadLibrary l ld (snd ms)))"
| Own_Create: "class_step libs ms (fst ms, snd (create_by libs base class_name l (snd ms)))"

definition no_classes :: class_world where
  "no_classes = \<lparr>cl_factories = [], cl_opened = [], cl_loaders = Map.empty, cl_next = 0, cl_objects = []\<rparr>"

lemma Unload_refs:
  assumes "ClassLoader_UnloadLibrary l ld s = (n, s')" "cl_loaders s l = Some ld"
  shows "\<exists>ld'. cl_loaders s' l = Some ld' \<and> ld_load_refs ld' = n"
  using assms by (auto simp: ClassLoader_UnloadLibrary_def UnloadLibrary_def Let_def split: if_splits)

lemma inv_Manager_Unload:
  assumes "class_inv libs (snd ms)"
  shows "class_inv libs (snd (snd (Manager_UnloadLibrary path ms)))"
proof (cases "\<exists>l ld. map_of (fst ms) path = Some (Some l) \<and> cl_loaders (snd ms) l = Some ld")
  case True
  then obtain l ld where l: "map_of (fst ms) path = Some (Some l)" "cl_loaders (snd ms) l = Some ld" by blast
  obtain n s where u: "ClassLoader_UnloadLibrary l ld (snd ms) = (n, s)" by fastforce
  have i: "class_inv libs s" using inv_Unload [OF assms l(2)] u by simp
  have "class_inv libs (delete_loader l s)" if "n = 0" using inv_delete_loader [OF i] Unload_refs [OF u l(2)] that by blast
  then show ?thesis using l u i by (simp add: Manager_UnloadLibrary_def)
next
  case False
  then show ?thesis using assms by (auto simp: Manager_UnloadLibrary_def split: option.split)
qed

lemma inv_class_step:
  assumes "class_step libs ms ms'" "class_inv libs (snd ms)" "no_clash libs"
  shows "class_inv libs (snd ms')"
  using assms
proof (induction rule: class_step.induct)
  case (Load ms path)
  then show ?case using inv_new_loader [of libs "snd ms" path] by (auto simp: Manager_LoadLibrary_def Let_def split: prod.split)
next
  case (Create base class_name ms obj s)
  then show ?case using inv_create_by [OF Create.prems]
    by (auto simp: Manager_CreateClassObj_def split: sum.splits option.splits) (metis snd_conv)
next
  case (Create_of ms base class_name path)
  then show ?case using inv_create_by [OF Create_of.prems]
    by (auto simp: Manager_CreateClassObj_of_def split: prod.split option.split) (metis snd_conv)
next
  case (Delete obj ms s)
  then show ?case using inv_Deleter by (metis snd_conv sum.inject(2))
qed (use inv_Manager_Unload inv_new_loader inv_Load inv_Unload inv_create_by in auto)

lemma inv_class_reachable:
  assumes "(class_step libs)\<^sup>*\<^sup>* ([], no_classes) ms" "no_clash libs"
  shows "class_inv libs (snd ms)"
  using assms(1)
proof (induction rule: rtranclp_induct)
  case base
  then show ?case by (simp add: no_classes_def class_inv_def)
next
  case (step ms ms')
  then show ?case using inv_class_step assms(2) by blast
qed

section \<open>Properties\<close>


section \<open>Where the code is wrong\<close>

text \<open>Whether a library is loaded does not depend on the loader that is asked.\<close>

lemma IsLibraryLoaded_by_anybody: "IsLibraryLoaded path l s = IsLibraryLoadedByAnybody path s"
  by (simp add: IsLibraryLoaded_def Let_def)

text \<open>The manager reports a library as loaded that could not be.\<close>

lemma failed_library_is_valid:
  assumes "libs path = None"
  shows "fst (Manager_LoadLibrary libs path ([], no_classes)) \<and> cl_opened (snd (snd (Manager_LoadLibrary libs path ([], no_classes)))) = []"
  using assms by (auto simp: Manager_LoadLibrary_def IsLibraryValid_def GetAllValidLibPath_def ClassLoader_def ClassLoader_LoadLibrary_def LoadLibrary_def
      IsLibraryLoadedByAnybody_def set_loader_def set_entry_def no_classes_def Let_def image_iff)

text \<open>A library that was unloaded, and a path that was asked for and never loaded, leave a null pointer which the search for a class meets.\<close>

lemma unloaded_library_breaks_search:
  assumes "map_of (fst ms) path = Some (Some l)" "cl_loaders (snd ms) l = Some ld" "fst (ClassLoader_UnloadLibrary l ld (snd ms)) = 0"
  shows "None \<in> set (GetAllValidClassLoaders (fst (snd (Manager_UnloadLibrary path ms))))"
  using assms by (auto simp: Manager_UnloadLibrary_def GetAllValidClassLoaders_def set_set_entry image_iff split: prod.splits)

lemma unknown_path_breaks_search:
  "Manager_CreateClassObj libs base class_name (snd (Manager_CreateClassObj_of libs base class_name path ([], s))) = Inl Null_Loader"
  by (simp add: Manager_CreateClassObj_of_def GetClassLoaderByLibPath_def set_entry_def Manager_CreateClassObj_def GetAllValidClassLoaders_def)

text \<open>
  With two libraries that register the same class the library of an object can be closed: the factory of the first is replaced, and a second
  loader of the first library that unloads it finds no factory left.
\<close>

definition clashing :: libraries where "clashing path = Some [(''B'', ''C'')]"

lemma clash_closes_used_library:
  "\<exists>ms. (class_step clashing)\<^sup>*\<^sup>* ([], no_classes) ms \<and> cl_objects (snd ms) = [(0, ''p'')] \<and> cl_opened (snd ms) = [''q'']"
proof -
  let ?s1 = "snd (ClassLoader clashing ''p'' no_classes)"
  let ?s2 = "snd (create_by clashing ''B'' ''C'' 0 ?s1)"
  let ?s3 = "snd (ClassLoader clashing ''p'' ?s2)"
  let ?s4 = "snd (ClassLoader clashing ''q'' ?s3)"
  let ?ld = "\<lparr>ld_path = ''p'', ld_load_refs = 1, ld_obj_refs = 0\<rparr>"
  let ?s5 = "snd (ClassLoader_UnloadLibrary 1 ?ld ?s4)"
  have l: "cl_loaders ?s4 1 = Some ?ld" and r: "cl_objects ?s5 = [(0, ''p'')] \<and> cl_opened ?s5 = [''q'']"
    by code_simp+
  have "class_step clashing ([], no_classes) ([], ?s1)" "class_step clashing ([], ?s1) ([], ?s2)" "class_step clashing ([], ?s2) ([], ?s3)"
    "class_step clashing ([], ?s3) ([], ?s4)" "class_step clashing ([], ?s4) ([], ?s5)"
    using class_step.New [of clashing "([], no_classes)" "''p''"] class_step.Own_Create [of clashing "([], ?s1)" "''B''" "''C''" 0]
      class_step.New [of clashing "([], ?s2)" "''p''"] class_step.New [of clashing "([], ?s3)" "''q''"] class_step.Own_Unload [of "([], ?s4)" 1 ?ld clashing] l
    by simp_all
  then have "(class_step clashing)\<^sup>*\<^sup>* ([], no_classes) ([], ?s5)" by (meson rtranclp.rtrancl_refl rtranclp.rtrancl_into_rtrancl)
  then show ?thesis using r by (intro exI [of _ "([], ?s5)"]) simp
qed

section \<open>Witnesses\<close>

definition one_library :: libraries where "one_library path = (if path = ''p'' then Some [(''B'', ''C'')] else None)"


end
