(* ===== verification/Module_Controller.thy ===== *)
theory Module_Controller
  imports Class_Loaders Files "HOL-Library.Multiset"
begin

text \<open>
  \<^verbatim>\<open>cyber/mainboard/module_controller.cc\<close>: the libraries of the modules are loaded and their components made and initialised, in order, until
  one fails; at the end all is given back.  Shown here: after \<^verbatim>\<open>Clear\<close> no component is left and no library is open, whether or not loading
  succeeded.
\<close>

section \<open>Configuration\<close>

text \<open>\<open>'c\<close> and \<open>'t\<close> are the configurations of components and of timer components.\<close>

record ('c, 't) module_config =
  mc_library :: string
  mc_components :: "(string \<times> 'c) list"
  mc_timer_components :: "(string \<times> 't) list"

type_synonym ('c, 't) dag_config = "('c, 't) module_config list"

record controller =
  mo_loaders :: loader_map
  mo_components :: "(nat \<times> string) list"
  mo_total :: int
  mo_has_timer :: bool

definition ModuleController :: controller where
  "ModuleController = \<lparr>mo_loaders = [], mo_components = [], mo_total = 0, mo_has_timer = False\<rparr>"

text \<open>
  The surroundings: the file system, what libraries register, the name of the base class, and what \<^verbatim>\<open>Initialize\<close> of a class answers.
\<close>

record ('c, 't, 'w) mainboard =
  mb_work_root :: string
  mb_current_path :: string
  mb_exists :: "string \<Rightarrow> bool"
  mb_dag :: "string \<Rightarrow> ('c, 't) dag_config option"
  mb_libs :: libraries
  mb_base :: string
  mb_Initialize :: "string \<Rightarrow> 'c + 't \<Rightarrow> 'w \<Rightarrow> bool \<times> 'w"
  mb_Shutdown :: "nat \<times> string \<Rightarrow> 'w \<Rightarrow> 'w"
  mb_task_pool_size :: int

section \<open>Loading\<close>

type_synonym 'w load_state = "controller \<times> class_world \<times> 'w"

text \<open>A component that could not be initialised is destroyed.\<close>

fun load_components :: "('c, 't, 'w) mainboard \<Rightarrow> (string \<times> ('c + 't)) list \<Rightarrow> 'w load_state \<Rightarrow> loader_error + (bool \<times> 'w load_state)" where
  "load_components mb [] st = Inr (True, st)"
| "load_components mb ((class_name, cfg) # cs) (mo, s, w) =
     (case Manager_CreateClassObj (mb_libs mb) (mb_base mb) class_name (mo_loaders mo, s) of
        Inl e \<Rightarrow> Inl e
      | Inr (None, s) \<Rightarrow> Inr (False, mo, s, w)
      | Inr (Some obj, s) \<Rightarrow>
          (case mb_Initialize mb class_name cfg w of
             (False, w) \<Rightarrow> (case OnClassObjDeleter obj s of Inl e \<Rightarrow> Inl e | Inr s \<Rightarrow> Inr (False, mo, s, w))
           | (True, w) \<Rightarrow> load_components mb cs (mo\<lparr>mo_components := mo_components mo @ [obj]\<rparr>, s, w)))"

definition load_path :: "string \<Rightarrow> string \<Rightarrow> string" where
  "load_path root lib = (if lib \<noteq> [] \<and> hd lib = CHR ''/'' then lib else GetAbsolutePath root lib)"

fun LoadModule :: "('c, 't, 'w) mainboard \<Rightarrow> ('c, 't) dag_config \<Rightarrow> 'w load_state \<Rightarrow> loader_error + (bool \<times> 'w load_state)" where
  "LoadModule mb [] st = Inr (True, st)"
| "LoadModule mb (m # ms) (mo, s, w) =
     (let path = load_path (mb_work_root mb) (mc_library m)
      in if \<not> mb_exists mb path then Inr (False, mo, s, w)
         else case Manager_LoadLibrary (mb_libs mb) path (mo_loaders mo, s) of
                (ok, ls, s) \<Rightarrow>
                  (case load_components mb (map (map_prod id Inl) (mc_components m) @ map (map_prod id Inr) (mc_timer_components m)) (mo\<lparr>mo_loaders := ls\<rparr>, s, w) of
                     Inl e \<Rightarrow> Inl e
                   | Inr (False, st) \<Rightarrow> Inr (False, st)
                   | Inr (True, st) \<Rightarrow> LoadModule mb ms st))"

definition LoadModule_file :: "('c, 't, 'w) mainboard \<Rightarrow> string \<Rightarrow> 'w load_state \<Rightarrow> loader_error + (bool \<times> 'w load_state)" where
  "LoadModule_file mb path st = (case mb_dag mb path of None \<Rightarrow> Inr (False, st) | Some dag \<Rightarrow> LoadModule mb dag st)"

definition GetComponentNum :: "('c, 't, 'w) mainboard \<Rightarrow> string \<Rightarrow> bool \<Rightarrow> int \<times> bool" where
  "GetComponentNum mb path has_timer =
     (case mb_dag mb path of
        None \<Rightarrow> (0, has_timer)
      | Some dag \<Rightarrow> fold (\<lambda>m (n, t). (n + int (length (mc_components m)), if mc_timer_components m \<noteq> [] then True else t)) dag (0, has_timer))"

definition module_path :: "('c, 't, 'w) mainboard \<Rightarrow> string \<Rightarrow> string" where
  "module_path mb dag_conf =
     (if dag_conf = GetFileName False dag_conf then GetAbsolutePath (GetAbsolutePath (mb_work_root mb) ''dag'') dag_conf
      else if hd dag_conf = CHR ''/'' then dag_conf
      else let p = GetAbsolutePath (mb_current_path mb) dag_conf
           in if \<not> mb_exists mb p then GetAbsolutePath (mb_work_root mb) dag_conf else p)"

fun load_files :: "('c, 't, 'w) mainboard \<Rightarrow> string list \<Rightarrow> 'w load_state \<Rightarrow> loader_error + (bool \<times> 'w load_state)" where
  "load_files mb [] st = Inr (True, st)"
| "load_files mb (p # ps) st =
     (case LoadModule_file mb p st of Inl e \<Rightarrow> Inl e | Inr (False, st) \<Rightarrow> Inr (False, st) | Inr (True, st) \<Rightarrow> load_files mb ps st)"

definition count_components :: "('c, 't, 'w) mainboard \<Rightarrow> string list \<Rightarrow> controller \<Rightarrow> controller" where
  "count_components mb paths mo =
     (case fold (\<lambda>p (n, t). case GetComponentNum mb p t of (k, t) \<Rightarrow> (n + k, t)) paths (mo_total mo, mo_has_timer mo) of
        (n, t) \<Rightarrow> mo\<lparr>mo_total := (if t then n + mb_task_pool_size mb else n), mo_has_timer := t\<rparr>)"

definition LoadAll :: "('c, 't, 'w) mainboard \<Rightarrow> string list \<Rightarrow> 'w load_state \<Rightarrow> loader_error + (bool \<times> 'w load_state)" where
  "LoadAll mb dag_confs st = (let paths = map (module_path mb) dag_confs in load_files mb paths (count_components mb paths (fst st), snd st))"

section \<open>Giving back\<close>

fun delete_all :: "(nat \<times> string) list \<Rightarrow> class_world \<Rightarrow> loader_error + class_world" where
  "delete_all [] s = Inr s"
| "delete_all (b # bs) s = (case OnClassObjDeleter b s of Inl e \<Rightarrow> Inl e | Inr s \<Rightarrow> delete_all bs s)"

definition Clear :: "('c, 't, 'w) mainboard \<Rightarrow> 'w load_state \<Rightarrow> loader_error + 'w load_state" where
  "Clear mb st =
     (case st of (mo, s, w) \<Rightarrow>
        let w = fold (mb_Shutdown mb) (mo_components mo) w
        in case delete_all (mo_components mo) s of
             Inl e \<Rightarrow> Inl e
           | Inr s \<Rightarrow> (case UnloadAllLibrary (mo_loaders mo, s) of (ls, s) \<Rightarrow> Inr (mo\<lparr>mo_components := [], mo_loaders := ls\<rparr>, s, w)))"

section \<open>What the controller holds\<close>

definition entry_ok :: "libraries \<Rightarrow> class_world \<Rightarrow> string \<Rightarrow> nat option \<Rightarrow> bool" where
  "entry_ok libs s path lo \<longleftrightarrow> (\<exists>l ld. lo = Some l \<and> cl_loaders s l = Some ld \<and> ld_path ld = path \<and>
     (libs path \<noteq> None \<longrightarrow> path \<in> set (cl_opened s) \<and> ld_load_refs ld = 1))"

definition holds :: "libraries \<Rightarrow> loader_map \<Rightarrow> class_world \<Rightarrow> (nat \<times> string) list \<Rightarrow> bool" where
  "holds libs m s bs \<longleftrightarrow> class_inv libs s \<and> distinct (map fst m) \<and> (\<forall>e \<in> set m. entry_ok libs s (fst e) (snd e)) \<and>
     (\<forall>l ld. cl_loaders s l = Some ld \<longrightarrow> (ld_path ld, Some l) \<in> set m) \<and>
     (\<forall>path \<in> set (cl_opened s). libs path \<noteq> None \<and> path \<in> fst ` set m) \<and> mset (cl_objects s) = mset bs"

lemma holds_valid: "holds libs m s bs \<Longrightarrow> GetAllValidLibPath m = map fst m"
proof -
  assume "holds libs m s bs"
  then have "\<forall>e \<in> set m. snd e \<noteq> None" by (auto simp: holds_def entry_ok_def)
  then show ?thesis by (simp add: GetAllValidLibPath_def)
qed

lemma holds_Load:
  assumes h: "holds libs m s bs" and nc: "no_clash libs"
  shows "\<exists>m' s'. Manager_LoadLibrary libs path (m, s) = (True, m', s') \<and> holds libs m' s' bs"
proof (cases "path \<in> fst ` set m")
  case True
  then show ?thesis using h by (simp add: Manager_LoadLibrary_def IsLibraryValid_def holds_valid [OF h])
next
  case False
  let ?l = "cl_next s" and ?s' = "snd (ClassLoader libs path s)" and ?m' = "m @ [(path, Some (cl_next s))]"
  let ?ld = "\<lparr>ld_path = path, ld_load_refs = 1, ld_obj_refs = 0\<rparr>"
  have new: "cl_loaders s ?l = None" using h by (cases "cl_loaders s ?l") (auto simp: holds_def class_inv_def loader_ok_def)
  have closed: "path \<notin> set (cl_opened s)" using h False by (auto simp: holds_def)
  have o: "cl_opened ?s' = (if libs path = None then cl_opened s else cl_opened s @ [path])"
    using closed by (simp add: ClassLoader_def ClassLoader_LoadLibrary_def LoadLibrary_opened Let_def)
  have l: "cl_loaders ?s' = (cl_loaders s)(?l \<mapsto> ?ld)" "cl_objects ?s' = cl_objects s"
    by (simp_all add: ClassLoader_def ClassLoader_LoadLibrary_def Let_def)
  have i: "class_inv libs ?s'" using h inv_new_loader nc by (simp add: holds_def)
  have "entry_ok libs ?s' (fst e) (snd e)" if "e \<in> set m" for e
  proof -
    have "entry_ok libs s (fst e) (snd e)" using h that by (simp add: holds_def)
    then show ?thesis using new unfolding entry_ok_def l o by auto
  qed
  moreover have "entry_ok libs ?s' path (Some ?l)" by (simp add: entry_ok_def l o)
  ultimately have "holds libs ?m' ?s' bs" using h i False unfolding holds_def l o by (auto split: if_splits)
  moreover have "Manager_LoadLibrary libs path (m, s) = (True, ?m', ?s')"
    using False by (auto simp: Manager_LoadLibrary_def IsLibraryValid_def GetAllValidLibPath_def set_entry_def ClassLoader_def Let_def image_iff)
  ultimately show ?thesis by blast
qed

lemma holds_objects:
  assumes h: "holds libs m s bs" and i: "class_inv libs s'" and o: "cl_opened s' = cl_opened s" and b: "mset (cl_objects s') = mset bs'"
    and l: "\<And>k. map_option (\<lambda>ld. (ld_path ld, ld_load_refs ld)) (cl_loaders s' k) = map_option (\<lambda>ld. (ld_path ld, ld_load_refs ld)) (cl_loaders s k)"
  shows "holds libs m s' bs'"
proof -
  have same: "\<exists>ld'. cl_loaders s' k = Some ld' \<and> ld_path ld' = ld_path ld \<and> ld_load_refs ld' = ld_load_refs ld" if "cl_loaders s k = Some ld" for k ld
    using l [of k] that by (cases "cl_loaders s' k") auto
  have orig: "\<exists>ld. cl_loaders s k = Some ld \<and> ld_path ld' = ld_path ld" if "cl_loaders s' k = Some ld'" for k ld'
    using l [of k] that by (cases "cl_loaders s k") auto
  have "entry_ok libs s' (fst e) (snd e)" if "e \<in> set m" for e
    using h that same unfolding holds_def entry_ok_def o by metis
  moreover have "(ld_path ld', Some k) \<in> set m" if "cl_loaders s' k = Some ld'" for k ld'
    using h orig [OF that] unfolding holds_def by metis
  ultimately show ?thesis using h i b unfolding holds_def o by simp
qed

lemma holds_Delete:
  assumes "holds libs m s (b # bs)"
  shows "\<exists>s'. OnClassObjDeleter b s = Inr s' \<and> holds libs m s' bs"
proof -
  have b: "b \<in> set (cl_objects s)" using assms by (metis holds_def list.set_intros(1) mset_eq_setD)
  have inv: "class_inv libs s" using assms by (simp add: holds_def)
  obtain s' where d: "OnClassObjDeleter b s = Inr s'" "class_inv libs s'" using inv_Deleter [OF inv b] by blast
  have "mset (cl_objects s') = mset bs" using assms d(1) by (auto simp: OnClassObjDeleter_def holds_def split: option.splits)
  then have "holds libs m s' bs" using d by (intro holds_objects [OF assms d(2)]) (auto simp: OnClassObjDeleter_def split: option.splits)
  then show ?thesis using d(1) by blast
qed

lemma find_loader_some: "None \<notin> set ls \<Longrightarrow> \<exists>r. find_loader base class_name ls s = Inr r \<and> (\<forall>l. r = Some l \<longrightarrow> IsClassValid base class_name l s)"
proof (induction ls)
  case Nil
  then show ?case by simp
next
  case (Cons lo ls)
  then show ?case by (cases lo) auto
qed

lemma holds_Create:
  assumes h: "holds libs m s bs" and nc: "no_clash libs"
  shows "\<exists>r s'. Manager_CreateClassObj libs base class_name (m, s) = Inr (r, s') \<and> holds libs m s' (case r of None \<Rightarrow> bs | Some b \<Rightarrow> b # bs)"
proof -
  have inv: "class_inv libs s" using h by (simp add: holds_def)
  have "None \<notin> set (GetAllValidClassLoaders m)" using h by (auto simp: holds_def entry_ok_def GetAllValidClassLoaders_def)
  then obtain r where r: "find_loader base class_name (GetAllValidClassLoaders m) s = Inr r" "\<forall>l. r = Some l \<longrightarrow> IsClassValid base class_name l s"
    using find_loader_some by blast
  show ?thesis
  proof (cases r)
    case None
    then show ?thesis using r(1) h by (simp add: Manager_CreateClassObj_def)
  next
    case (Some l)
    obtain f where f: "((base, class_name), f) \<in> set (cl_factories s)" "l \<in> set (fa_owners f)"
      using r(2) Some by (auto simp: IsClassValid_def util_GetValidClassNames_def IsOwnedBy_def)
    have "factory_ok libs s ((base, class_name), f)" using inv f(1) by (simp add: class_inv_def)
    then obtain ld where ld: "cl_loaders s l = Some ld" "ld_path ld = fa_library f" "fa_library f \<in> set (cl_opened s)"
      using f(2) by (auto simp: factory_ok_def owner_ok_def)
    have "map_of (cl_factories s) (base, class_name) = Some f" using inv f(1) by (simp add: class_inv_def map_of_is_SomeI)
    then have c: "create_by libs base class_name l s =
        (Some (l, fa_library f), (set_loader l (ld\<lparr>ld_obj_refs := ld_obj_refs ld + 1\<rparr>) s)\<lparr>cl_objects := (l, fa_library f) # cl_objects s\<rparr>)"
      using ld f(2) by (simp add: create_by_def ClassLoader_CreateClassObj_def IsLibraryLoaded_by_anybody IsLibraryLoadedByAnybody_def
          util_CreateClassObj_def IsOwnedBy_def)
    have "holds libs m (snd (create_by libs base class_name l s)) ((l, fa_library f) # bs)"
      using h ld(1) by (intro holds_objects [OF h inv_create_by [OF inv nc]]) (auto simp: c holds_def)
    then show ?thesis using r(1) Some c by (simp add: Manager_CreateClassObj_def)
  qed
qed

lemma holds_cong: "holds libs m s bs \<Longrightarrow> mset bs = mset bs' \<Longrightarrow> holds libs m s bs'"
  by (simp add: holds_def)

definition mo_holds :: "libraries \<Rightarrow> 'w load_state \<Rightarrow> bool" where
  "mo_holds libs st \<longleftrightarrow> holds libs (mo_loaders (fst st)) (fst (snd st)) (mo_components (fst st))"

lemma load_components_holds:
  assumes "no_clash (mb_libs mb)" "mo_holds (mb_libs mb) st"
  shows "\<exists>ok st'. load_components mb cs st = Inr (ok, st') \<and> mo_holds (mb_libs mb) st'"
  using assms(2)
proof (induction cs arbitrary: st)
  case Nil
  then show ?case by auto
next
  case (Cons c cs)
  obtain class_name cfg mo s w where st: "c = (class_name, cfg)" "st = (mo, s, w)" by (metis surj_pair)
  have h: "holds (mb_libs mb) (mo_loaders mo) s (mo_components mo)" using Cons.prems st by (simp add: mo_holds_def)
  obtain r s' where c: "Manager_CreateClassObj (mb_libs mb) (mb_base mb) class_name (mo_loaders mo, s) = Inr (r, s')"
    and h': "holds (mb_libs mb) (mo_loaders mo) s' (case r of None \<Rightarrow> mo_components mo | Some b \<Rightarrow> b # mo_components mo)"
    using holds_Create [OF h assms(1)] by blast
  show ?case
  proof (cases r)
    case None
    then show ?thesis using c h' st by (auto simp: mo_holds_def)
  next
    case (Some b)
    note h' = h' [unfolded Some option.case]
    obtain ok w' where i: "mb_Initialize mb class_name cfg w = (ok, w')" by fastforce
    show ?thesis
    proof (cases ok)
      case True
      have "mo_holds (mb_libs mb) (mo\<lparr>mo_components := mo_components mo @ [b]\<rparr>, s', w')"
        using holds_cong [OF h', of "mo_components mo @ [b]"] by (simp add: mo_holds_def)
      from Cons.IH [OF this] show ?thesis using c Some i True st by simp
    next
      case False
      obtain s'' where "OnClassObjDeleter b s' = Inr s''" "holds (mb_libs mb) (mo_loaders mo) s'' (mo_components mo)" using holds_Delete [OF h'] by blast
      then show ?thesis using c Some i False st by (auto simp: mo_holds_def)
    qed
  qed
qed

lemma LoadModule_holds:
  assumes "no_clash (mb_libs mb)" "mo_holds (mb_libs mb) st"
  shows "\<exists>ok st'. LoadModule mb dag st = Inr (ok, st') \<and> mo_holds (mb_libs mb) st'"
  using assms(2)
proof (induction dag arbitrary: st)
  case Nil
  then show ?case by auto
next
  case (Cons m ms)
  obtain mo s w where st: "st = (mo, s, w)" by (metis surj_pair)
  let ?path = "load_path (mb_work_root mb) (mc_library m)"
  let ?cs = "map (map_prod id Inl) (mc_components m) @ map (map_prod id Inr) (mc_timer_components m)"
  obtain ls s' where l: "Manager_LoadLibrary (mb_libs mb) ?path (mo_loaders mo, s) = (True, ls, s')" "holds (mb_libs mb) ls s' (mo_components mo)"
    using holds_Load [OF _ assms(1)] Cons.prems st by (auto simp: mo_holds_def) blast
  then have "mo_holds (mb_libs mb) (mo\<lparr>mo_loaders := ls\<rparr>, s', w)" by (simp add: mo_holds_def)
  from load_components_holds [OF assms(1) this] obtain ok st' where c: "load_components mb ?cs (mo\<lparr>mo_loaders := ls\<rparr>, s', w) = Inr (ok, st')" "mo_holds (mb_libs mb) st'" by blast
  then show ?case using Cons.IH [OF c(2)] Cons.prems l(1) st by (cases "mb_exists mb ?path"; cases ok) (auto simp: Let_def)
qed

lemma load_files_holds:
  assumes "no_clash (mb_libs mb)" "mo_holds (mb_libs mb) st"
  shows "\<exists>ok st'. load_files mb ps st = Inr (ok, st') \<and> mo_holds (mb_libs mb) st'"
  using assms(2)
proof (induction ps arbitrary: st)
  case Nil
  then show ?case by auto
next
  case (Cons p ps)
  have "\<exists>ok st'. LoadModule_file mb p st = Inr (ok, st') \<and> mo_holds (mb_libs mb) st'"
    using LoadModule_holds [OF assms(1) Cons.prems] Cons.prems unfolding LoadModule_file_def by (cases "mb_dag mb p") auto
  then obtain ok st' where l: "LoadModule_file mb p st = Inr (ok, st')" "mo_holds (mb_libs mb) st'" by blast
  then show ?case using Cons.IH [OF l(2)] by (cases ok) auto
qed

lemma LoadAll_holds:
  assumes "no_clash (mb_libs mb)" "mo_holds (mb_libs mb) st"
  shows "\<exists>ok st'. LoadAll mb dag_confs st = Inr (ok, st') \<and> mo_holds (mb_libs mb) st'"
proof -
  have "mo_loaders (count_components mb ps mo) = mo_loaders mo" "mo_components (count_components mb ps mo) = mo_components mo" for ps mo
    by (simp_all add: count_components_def split: prod.split)
  then have "mo_holds (mb_libs mb) (count_components mb (map (module_path mb) dag_confs) (fst st), snd st)" using assms(2) by (simp add: mo_holds_def)
  from load_files_holds [OF assms(1) this] show ?thesis by (simp add: LoadAll_def Let_def)
qed

section \<open>Giving all back\<close>

lemma delete_all_holds: "holds libs m s bs \<Longrightarrow> \<exists>s'. delete_all bs s = Inr s' \<and> holds libs m s' []"
proof (induction bs arbitrary: s)
  case (Cons b bs)
  obtain s1 where d: "OnClassObjDeleter b s = Inr s1" "holds libs m s1 bs" using holds_Delete [OF Cons.prems] by blast
  then show ?case using Cons.IH [OF d(2)] by simp
qed simp

text \<open>A loader without objects that is the only one of its library closes it when it unloads it for the last time.\<close>

lemma Unload_closes:
  assumes inv: "class_inv libs s" and l: "cl_loaders s l = Some ld" and refs: "ld_load_refs ld = 1" "ld_obj_refs ld \<le> 0"
    and only: "\<And>k kd. cl_loaders s k = Some kd \<Longrightarrow> ld_path kd = ld_path ld \<Longrightarrow> k = l"
  shows "\<exists>s'. ClassLoader_UnloadLibrary l ld s = (0, s') \<and> cl_opened s' = remove1 (ld_path ld) (cl_opened s) \<and>
     cl_loaders s' = (cl_loaders s)(l \<mapsto> ld\<lparr>ld_load_refs := 0\<rparr>) \<and> cl_objects s' = cl_objects s"
proof -
  let ?s0 = "set_loader l (ld\<lparr>ld_load_refs := 0\<rparr>) s"
  have "fa_library f \<noteq> ld_path ld" if kf: "(k, f) \<in> set (cl_factories (DestroyClassFactoryObjectsOfLibrary (ld_path ld) l ?s0))" for k f
  proof
    assume lib: "fa_library f = ld_path ld"
    obtain g where g: "(k, g) \<in> set (cl_factories s)" "destroy_factory (ld_path ld) l g = Some f" using kf by (auto simp: set_Destroy)
    have ok: "factory_ok libs s (k, g)" using inv g(1) by (simp add: class_inv_def)
    then have "distinct (fa_owners g)" "fa_owners g \<noteq> []" by (simp_all add: factory_ok_def)
    note d = destroy_factory_Some [OF g(2) this(1)] this(2)
    have "set (fa_owners g) \<subseteq> {l}" using ok only lib d(1) by (auto simp: factory_ok_def owner_ok_def)
    then have "set (fa_owners f) = {}" using d(1,2) lib by auto
    then show False using d(4,5) by simp
  qed
  then have "GetAllClassFactoryObjectsOfLibrary (ld_path ld) (DestroyClassFactoryObjectsOfLibrary (ld_path ld) l ?s0) = []"
    by (fastforce simp: GetAllClassFactoryObjectsOfLibrary_def filter_empty_conv)
  then show ?thesis using refs by (simp add: ClassLoader_UnloadLibrary_def UnloadLibrary_def Let_def remove1_idem)
qed

text \<open>While the libraries are unloaded: those of \<open>ps\<close> are still to be.\<close>

definition unloading :: "libraries \<Rightarrow> string list \<Rightarrow> loader_map \<times> class_world \<Rightarrow> bool" where
  "unloading libs ps ms \<longleftrightarrow> class_inv libs (snd ms) \<and> cl_objects (snd ms) = [] \<and> set (cl_opened (snd ms)) \<subseteq> set ps \<and>
     (\<forall>path \<in> set ps. \<exists>l. map_of (fst ms) path = Some (Some l) \<and> entry_ok libs (snd ms) path (Some l)) \<and>
     (\<forall>l ld. cl_loaders (snd ms) l = Some ld \<longrightarrow> ld_path ld \<in> set ps \<longrightarrow> map_of (fst ms) (ld_path ld) = Some (Some l)) \<and>
     (\<forall>path \<in> set (cl_opened (snd ms)). libs path \<noteq> None)"

lemma unloading_step:
  assumes u: "unloading libs (path # ps) ms" and d: "distinct (path # ps)"
  shows "unloading libs ps (snd (Manager_UnloadLibrary path ms))"
proof -
  obtain m s where ms: "ms = (m, s)" by (cases ms)
  have inv: "class_inv libs s" and nobj: "cl_objects s = []" and os: "set (cl_opened s) \<subseteq> set (path # ps)" "\<forall>p \<in> set (cl_opened s). libs p \<noteq> None"
    and ent: "\<forall>p \<in> set (path # ps). \<exists>l. map_of m p = Some (Some l) \<and> entry_ok libs s p (Some l)"
    and all: "\<forall>l ld. cl_loaders s l = Some ld \<longrightarrow> ld_path ld \<in> set (path # ps) \<longrightarrow> map_of m (ld_path ld) = Some (Some l)"
    using u ms by (auto simp: unloading_def)
  obtain l ld where l: "map_of m path = Some (Some l)" "cl_loaders s l = Some ld" "ld_path ld = path" "libs path \<noteq> None \<longrightarrow> path \<in> set (cl_opened s) \<and> ld_load_refs ld = 1"
    using ent by (auto simp: entry_ok_def)
  have refs: "ld_obj_refs ld = 0" using inv l(2) nobj by (simp add: class_inv_def loader_ok_def)
  obtain n s1 where un: "ClassLoader_UnloadLibrary l ld s = (n, s1)" by fastforce
  have dist: "distinct (cl_opened s)" using inv by (simp add: class_inv_def)
  have s1: "set (cl_opened s1) = set (cl_opened s) - {path} \<and> cl_objects s1 = [] \<and> (\<forall>k. k \<noteq> l \<longrightarrow> cl_loaders s1 k = cl_loaders s k) \<and>
      (\<exists>ld'. cl_loaders s1 l = Some ld' \<and> ld_path ld' = path)"
  proof (cases "libs path")
    case None
    then have "path \<notin> set (cl_opened s)" using os(2) by blast
    then show ?thesis using un l(2,3) refs nobj by (auto simp: ClassLoader_UnloadLibrary_def UnloadLibrary_def Let_def split: if_splits)
  next
    case (Some ks)
    then have "ld_load_refs ld = 1" using l(4) by simp
    moreover have "k = l" if "cl_loaders s k = Some kd" "ld_path kd = ld_path ld" for k kd using all that l(1,3) by fastforce
    ultimately show ?thesis using Unload_closes [OF inv l(2)] refs un l(3) nobj dist by (auto simp: set_remove1_eq)
  qed
  define s2 m2 where "s2 = (if n = 0 then delete_loader l s1 else s1)" and "m2 = (if n = 0 then set_entry path None m else m)"
  have r: "snd (Manager_UnloadLibrary path ms) = (m2, s2)" using ms l(1,2) un by (simp add: Manager_UnloadLibrary_def s2_def m2_def)
  have inv2: "class_inv libs s2" using inv_Manager_Unload [of libs ms path] inv ms r by simp
  have s2: "cl_opened s2 = cl_opened s1" "cl_objects s2 = cl_objects s1" "\<And>k. k \<noteq> l \<Longrightarrow> cl_loaders s2 k = cl_loaders s1 k"
    "cl_loaders s2 l = None \<or> cl_loaders s2 l = cl_loaders s1 l"
    using Unload_refs [OF un l(2)] by (auto simp: s2_def delete_loader_def ClassLoader_UnloadLibrary_def UnloadLibrary_def Let_def split: option.split)
  have m2: "map_of m2 p = map_of m p" if "p \<noteq> path" for p using that by (simp add: m2_def map_of_set_entry)
  have "\<exists>k. map_of m2 p = Some (Some k) \<and> entry_ok libs s2 p (Some k)" if p: "p \<in> set ps" for p
  proof -
    have np: "p \<noteq> path" using p d by auto
    obtain k kd where k: "map_of m p = Some (Some k)" "cl_loaders s k = Some kd" "ld_path kd = p" "libs p \<noteq> None \<longrightarrow> p \<in> set (cl_opened s) \<and> ld_load_refs kd = 1"
      using ent p by (fastforce simp: entry_ok_def)
    have "k \<noteq> l" using k(2,3) l(2,3) np by auto
    then show ?thesis using k m2 [OF np] s1 s2 np by (auto simp: entry_ok_def)
  qed
  moreover have "map_of m2 (ld_path kd) = Some (Some k)" if k: "cl_loaders s2 k = Some kd" "ld_path kd \<in> set ps" for k kd
  proof -
    have np: "ld_path kd \<noteq> path" using k(2) d by auto
    then have "k \<noteq> l" using k(1) s1 s2(4) by auto
    then show ?thesis using all k s1 s2(3) m2 [OF np] by simp
  qed
  moreover have "set (cl_opened s2) \<subseteq> set ps" "\<forall>p \<in> set (cl_opened s2). libs p \<noteq> None" using s1 s2(1) os by auto
  ultimately show ?thesis using inv2 s1 s2(2) unfolding unloading_def r by simp
qed

lemma unload_all:
  "unloading libs ps ms \<Longrightarrow> distinct ps \<Longrightarrow> unloading libs [] (fold (\<lambda>path ms. snd (Manager_UnloadLibrary path ms)) ps ms)"
proof (induction ps arbitrary: ms)
  case (Cons path ps)
  then show ?case using unloading_step [OF Cons.prems] by simp
qed simp

lemma holds_unloading:
  assumes "holds libs m s []"
  shows "unloading libs (map fst m) (m, s)"
proof -
  have d: "distinct (map fst m)" using assms by (simp add: holds_def)
  have "\<exists>l. map_of m path = Some (Some l) \<and> entry_ok libs s path (Some l)" if p: "path \<in> set (map fst m)" for path
  proof -
    obtain lo where e: "(path, lo) \<in> set m" using p by auto
    then have "entry_ok libs s path lo" using assms by (auto simp: holds_def)
    then show ?thesis using map_of_is_SomeI [OF d e] by (auto simp: entry_ok_def)
  qed
  moreover have "map_of m (ld_path ld) = Some (Some l)" if "cl_loaders s l = Some ld" for l ld
    using assms that map_of_is_SomeI [OF d] by (auto simp: holds_def)
  ultimately show ?thesis using assms by (auto simp: unloading_def holds_def)
qed

section \<open>Properties\<close>

text \<open>
  The mainboard gives back all it took: however far loading the modules of the configuration files came, with libraries that could
  not be opened and components that could not be made or initialised, \<^verbatim>\<open>LoadAll\<close> and then \<^verbatim>\<open>Clear\<close> run without meeting a loader that is not
  there, and afterwards no component exists and no library is open, provided different libraries do not register the same class.
\<close>

lemma mainboard_gives_all_back:
  assumes "no_clash (mb_libs mb)"
  shows "\<exists>ok st mo s w. LoadAll mb dag_confs (ModuleController, no_classes, w0) = Inr (ok, st) \<and> Clear mb st = Inr (mo, s, w) \<and>
     mo_components mo = [] \<and> cl_objects s = [] \<and> cl_opened s = []"
proof -
  have "mo_holds (mb_libs mb) (ModuleController, no_classes, w0)"
    by (simp add: mo_holds_def holds_def ModuleController_def no_classes_def class_inv_def)
  from LoadAll_holds [OF assms this] obtain ok st where l: "LoadAll mb dag_confs (ModuleController, no_classes, w0) = Inr (ok, st)" "mo_holds (mb_libs mb) st" by blast
  obtain mo s w where st: "st = (mo, s, w)" by (metis surj_pair)
  obtain s1 where d: "delete_all (mo_components mo) s = Inr s1" "holds (mb_libs mb) (mo_loaders mo) s1 []"
    using delete_all_holds l(2) st by (fastforce simp: mo_holds_def)
  obtain ls s2 where u: "UnloadAllLibrary (mo_loaders mo, s1) = (ls, s2)" by fastforce
  have "distinct (map fst (mo_loaders mo))" using d(2) by (simp add: holds_def)
  then have "unloading (mb_libs mb) [] (ls, s2)"
    using unload_all [OF holds_unloading [OF d(2)]] u by (simp add: UnloadAllLibrary_def holds_valid [OF d(2)])
  then have "cl_objects s2 = [] \<and> cl_opened s2 = []" by (simp add: unloading_def)
  then show ?thesis using l(1) st d(1) u by (auto simp: Clear_def Let_def)
qed

section \<open>Witnesses\<close>

definition demo_mainboard :: "(nat, nat, nat) mainboard" where
  "demo_mainboard = \<lparr>mb_work_root = ''/r'', mb_current_path = ''/c'', mb_exists = (\<lambda>_. True), mb_dag = (\<lambda>_. Some [\<lparr>mc_library = ''p'', mc_components = [(''C'', 0)], mc_timer_components = []\<rparr>]),
     mb_libs = (\<lambda>path. if path = ''/r/p'' then Some [(''B'', ''C'')] else None), mb_base = ''B'', mb_Initialize = (\<lambda>_ _ w. (True, Suc w)), mb_Shutdown = (\<lambda>_ w. w - 1),
     mb_task_pool_size = 5\<rparr>"

lemma mainboard_gives_all_back_witness:
  "no_clash (mb_libs demo_mainboard) \<and>
   (\<exists>st mo s w. LoadAll demo_mainboard [''d''] (ModuleController, no_classes, 0) = Inr (True, st) \<and> mo_components (fst st) = [(0, ''/r/p'')] \<and> Clear demo_mainboard st = Inr (mo, s, w) \<and>
      cl_objects s = [] \<and> cl_opened s = [])"
proof -
  have nc: "no_clash (mb_libs demo_mainboard)" by (auto simp: no_clash_def demo_mainboard_def split: if_splits)
  have "(case LoadAll demo_mainboard [''d''] (ModuleController, no_classes, 0) of Inr (ok, st) \<Rightarrow> ok \<and> mo_components (fst st) = [(0, ''/r/p'')] | Inl e \<Rightarrow> False)"
    by code_simp
  with mainboard_gives_all_back [OF nc, of "[''d'']" 0] nc show ?thesis by auto
qed

end
