(* ===== verification/Async_Tasks.thy ===== *)
theory Async_Tasks
  imports Routine_Wakeup Bounded_Queue
begin

text \<open>
  \<^verbatim>\<open>cyber/task\<close>: the task manager runs functions that are handed to \<^verbatim>\<open>Async\<close>, among them the callbacks of timers, in coroutines that take
  them from a bounded queue and hang up when it is empty.  A step is one access to what is shared: the queue (whose operations are atomic, see
  \<open>Bounded_Queue_Threads\<close>), the state of a coroutine, or its flag.  Shown here: tasks run in the order in which they were taken, each once; and
  that a task can be left in the queue while all coroutines wait.
\<close>

section \<open>Model\<close>

datatype task_pc = Asleep | Polled bool | In_Loop | Saw_Empty | Left_Loop

datatype caller_pc = Free | Telling nat | Telling_Now nat

record 't task_manager =
  tm_queue :: "'t bounded_queue"
  tm_stop :: bool
  tm_num :: nat
  tm_cr :: "nat \<Rightarrow> croutine"
  tm_pc :: "nat \<Rightarrow> task_pc"
  tm_caller :: "nat \<Rightarrow> caller_pc"
  tm_accepted :: "'t list"
  tm_ran :: "'t list"

definition task_prefix :: string where "task_prefix = ''/internal/task''"

text \<open>\<open>None\<close> is the exception when there is no memory for the queue; \<open>dflt\<close> is what its slots hold at first.\<close>

definition TaskManager :: "bool \<Rightarrow> 't \<Rightarrow> int \<Rightarrow> (string \<Rightarrow> u64) \<Rightarrow> nat \<Rightarrow> 't task_manager option" where
  "TaskManager alloc_ok dflt now task_id n =
     (case bq_Init alloc_ok dflt 1024 of
        None \<Rightarrow> None
      | Some q \<Rightarrow>
          Some \<lparr>tm_queue = q, tm_stop = False, tm_num = n,
                tm_cr = (\<lambda>i. let name = task_prefix @ int_to_string (int i) in CRoutine now (task_id name) name),
                tm_pc = (\<lambda>_. Asleep), tm_caller = (\<lambda>_. Free), tm_accepted = [], tm_ran = []\<rparr>)"

text \<open>The processor that polls the coroutine \<open>i\<close>, and the loop of the coroutine; running a task is part of taking it.\<close>

definition task_step :: "nat \<Rightarrow> 't task_manager \<Rightarrow> 't task_manager" where
  "task_step i S =
     (case tm_pc S i of
        Asleep \<Rightarrow> (case test_flag (tm_cr S i) of (was, cr) \<Rightarrow> S\<lparr>tm_cr := (tm_cr S)(i := cr), tm_pc := (tm_pc S)(i := Polled was)\<rparr>)
      | Polled was \<Rightarrow>
          (let cr = set_ready was (tm_cr S i)
           in S\<lparr>tm_cr := (tm_cr S)(i := cr), tm_pc := (tm_pc S)(i := if cr_state cr = READY then In_Loop else Asleep)\<rparr>)
      | In_Loop \<Rightarrow>
          (if tm_stop S then S\<lparr>tm_pc := (tm_pc S)(i := Left_Loop)\<rparr>
           else case bq_Dequeue (tm_queue S) of
                  (Some t, q) \<Rightarrow> S\<lparr>tm_queue := q, tm_ran := tm_ran S @ [t]\<rparr>
                | (None, q) \<Rightarrow> S\<lparr>tm_pc := (tm_pc S)(i := Saw_Empty)\<rparr>)
      | Saw_Empty \<Rightarrow> S\<lparr>tm_cr := (tm_cr S)(i := HangUp (tm_cr S i)), tm_pc := (tm_pc S)(i := Asleep)\<rparr>
      | Left_Loop \<Rightarrow> S)"

text \<open>
  \<^verbatim>\<open>Enqueue\<close>, by the caller \<open>k\<close>; what the queue answers is not looked at.  Every coroutine is then notified in turn: its state is read, and if
  it waits its flag is cleared.
\<close>

definition async_step :: "nat \<Rightarrow> 't \<Rightarrow> 't task_manager \<Rightarrow> 't task_manager" where
  "async_step k t S =
     (case tm_caller S k of
        Free \<Rightarrow>
          (if tm_stop S then S
           else case bq_Enqueue t (tm_queue S) of
                  (ok, q) \<Rightarrow> S\<lparr>tm_queue := q, tm_accepted := (if ok then tm_accepted S @ [t] else tm_accepted S), tm_caller := (tm_caller S)(k := Telling 0)\<rparr>)
      | Telling i \<Rightarrow>
          (if tm_num S \<le> i then S\<lparr>tm_caller := (tm_caller S)(k := Free)\<rparr>
           else S\<lparr>tm_caller := (tm_caller S)(k := if cr_state (tm_cr S i) = DATA_WAIT \<or> cr_state (tm_cr S i) = IO_WAIT then Telling_Now i else Telling (Suc i))\<rparr>)
      | Telling_Now i \<Rightarrow> S\<lparr>tm_cr := (tm_cr S)(i := SetUpdateFlag (tm_cr S i)), tm_caller := (tm_caller S)(k := Telling (Suc i))\<rparr>)"

definition TaskManager_Shutdown :: "'t task_manager \<Rightarrow> string list \<times> 't task_manager" where
  "TaskManager_Shutdown S =
     (if tm_stop S then ([], S) else (map (\<lambda>i. task_prefix @ int_to_string (int i)) [0..<tm_num S], S\<lparr>tm_stop := True\<rparr>))"

inductive task_manager_step :: "'t task_manager \<Rightarrow> 't task_manager \<Rightarrow> bool" where
  Work: "i < tm_num S \<Longrightarrow> task_manager_step S (task_step i S)"
| Async: "bq_ready 1 (tm_queue S) \<Longrightarrow> task_manager_step S (async_step k t S)"
| Shutdown: "task_manager_step S (snd (TaskManager_Shutdown S))"

section \<open>Every task once, in order\<close>

definition tasks_ok :: "'t task_manager \<Rightarrow> bool" where
  "tasks_ok S \<longleftrightarrow> bq_inv (tm_queue S) \<and> tm_ran S @ bq_list (tm_queue S) = tm_accepted S"

lemma task_step_ok: "tasks_ok S \<Longrightarrow> tasks_ok (task_step i S)"
proof -
  assume ok: "tasks_ok S"
  have "bq_inv (tm_queue S)" using ok by (simp add: tasks_ok_def)
  note d = bq_Dequeue_cases [OF this]
  show ?thesis
  proof (cases "tm_pc S i")
    case In_Loop
    then show ?thesis using ok d by (cases "bq_list (tm_queue S)") (auto simp: task_step_def tasks_ok_def)
  qed (use ok in \<open>auto simp: task_step_def tasks_ok_def test_flag_def Let_def\<close>)
qed

lemma async_step_ok: "tasks_ok S \<Longrightarrow> bq_ready 1 (tm_queue S) \<Longrightarrow> tasks_ok (async_step k t S)"
proof -
  assume ok: "tasks_ok S" and r: "bq_ready 1 (tm_queue S)"
  obtain acc q where e: "bq_Enqueue t (tm_queue S) = (acc, q)" by fastforce
  have "bq_inv q \<and> bq_list q = bq_list (tm_queue S) @ (if acc then [t] else [])"
    using e ok r bq_list_Enqueue [of "tm_queue S" t q] bq_ready_Suc [of 0 "tm_queue S"] bounded_queue.enq_reject [of t "tm_queue S" q]
    by (cases acc) (auto simp: tasks_ok_def)
  then show ?thesis using ok e by (cases "tm_caller S k") (auto simp: async_step_def tasks_ok_def)
qed

lemma tasks_in_order:
  assumes "TaskManager alloc_ok dflt now task_id n = Some S0" "task_manager_step\<^sup>*\<^sup>* S0 S"
  shows "tm_ran S @ bq_list (tm_queue S) = tm_accepted S"
proof -
  have "tasks_ok S0" using assms(1) by (auto simp: TaskManager_def bq_Init_def tasks_ok_def bq_inv_def bq_list_def split: if_splits)
  with assms(2) have "tasks_ok S"
  proof (induction rule: rtranclp_induct)
    case (step S S')
    then have ok: "tasks_ok S" by simp
    from step(2) show ?case
    proof cases
      case Shutdown
      then show ?thesis using ok by (simp add: TaskManager_Shutdown_def tasks_ok_def)
    qed (use ok in \<open>simp_all add: task_step_ok async_step_ok\<close>)
  qed simp
  then show ?thesis by (simp add: tasks_ok_def)
qed

section \<open>A task that is left\<close>

text \<open>All coroutines wait, nobody is about to notify one, and a task is in the queue.\<close>

definition stranded :: "'t task_manager \<Rightarrow> bool" where
  "stranded S \<longleftrightarrow> \<not> tm_stop S \<and> bq_list (tm_queue S) \<noteq> [] \<and> (\<forall>k. tm_caller S k = Free) \<and>
     (\<forall>i < tm_num S. cr_state (tm_cr S i) = DATA_WAIT \<and> cr_updated (tm_cr S i) \<and> (tm_pc S i = Asleep \<or> tm_pc S i = Polled False))"

text \<open>From then on the coroutines only go on waiting, until the next task comes.\<close>

lemma stranded_task_step:
  assumes "stranded S" "i < tm_num S"
  shows "stranded (task_step i S) \<and> tm_ran (task_step i S) = tm_ran S \<and> tm_queue (task_step i S) = tm_queue S \<and> tm_num (task_step i S) = tm_num S"
proof -
  have c: "cr_state (tm_cr S i) = DATA_WAIT" "cr_updated (tm_cr S i)" using assms by (simp_all add: stranded_def)
  consider (asleep) "tm_pc S i = Asleep" | (polled) "tm_pc S i = Polled False" using assms by (auto simp: stranded_def)
  then show ?thesis
  proof cases
    case asleep
    then have "task_step i S = S\<lparr>tm_cr := (tm_cr S)(i := (tm_cr S i)\<lparr>cr_updated := True\<rparr>), tm_pc := (tm_pc S)(i := Polled False)\<rparr>"
      using c by (simp add: task_step_def test_flag_def)
    then show ?thesis using assms by (simp add: stranded_def)
  next
    case polled
    then have "task_step i S = S\<lparr>tm_pc := (tm_pc S)(i := Asleep)\<rparr>" using c by (simp add: task_step_def set_ready_def)
    then show ?thesis using assms by (simp add: stranded_def)
  qed
qed

lemma stranded_stays:
  "stranded S \<Longrightarrow> list_all (\<lambda>i. i < tm_num S) is \<Longrightarrow> stranded (fold task_step is S) \<and> tm_ran (fold task_step is S) = tm_ran S \<and> tm_queue (fold task_step is S) = tm_queue S"
proof (induction "is" arbitrary: S)
  case (Cons i "is")
  then show ?case using stranded_task_step [of S i] Cons.IH [of "task_step i S"] by simp
qed simp

text \<open>The run: every coroutine finds the queue empty; then a task is put in and all are notified, none of which waits yet; then all hang up.\<close>

definition all_at :: "nat \<Rightarrow> task_pc \<Rightarrow> 't task_manager \<Rightarrow> 't task_manager" where
  "all_at m pc S = S\<lparr>tm_pc := (\<lambda>i. if i < m then pc else tm_pc S i)\<rparr>"

lemma all_see_empty:
  assumes "tm_pc S = (\<lambda>_. Asleep)" "\<not> tm_stop S" "bq_Dequeue (tm_queue S) = (None, q)" "\<forall>i. cr_state (tm_cr S i) = READY \<and> cr_updated (tm_cr S i)" "m \<le> tm_num S"
  shows "task_manager_step\<^sup>*\<^sup>* S (all_at m Saw_Empty S)"
  using assms(5)
proof (induction m)
  case 0
  have "all_at 0 Saw_Empty S = S" by (simp add: all_at_def)
  then show ?case by simp
next
  case (Suc m)
  let ?S = "all_at m Saw_Empty S"
  have c: "(tm_cr S m)\<lparr>cr_updated := True\<rparr> = tm_cr S m" using assms(4) by (cases "tm_cr S m") (metis croutine.select_convs(9) croutine.update_convs(9))
  have "task_step m (task_step m (task_step m ?S)) = all_at (Suc m) Saw_Empty S"
    using assms(1-4) c by (auto simp: task_step_def all_at_def test_flag_def set_ready_def fun_upd_idem Let_def less_Suc_eq fun_eq_iff)
  moreover have n: "tm_num (task_step m T) = tm_num T" for T :: "'a task_manager"
    by (auto simp: task_step_def Let_def split: task_pc.split prod.split option.split)
  moreover have "m < tm_num ?S" using Suc.prems by (simp add: all_at_def)
  ultimately have "task_manager_step\<^sup>*\<^sup>* ?S (all_at (Suc m) Saw_Empty S)"
    by (metis (no_types, opaque_lifting) task_manager_step.Work rtranclp.rtrancl_refl rtranclp.rtrancl_into_rtrancl)
  then show ?case using Suc by (meson Suc_leD rtranclp_trans)
qed

lemma tell_all:
  assumes "\<forall>i. cr_state (tm_cr S i) = READY" "tm_caller S 0 = Telling j" "j + d = tm_num S" "bq_ready 1 (tm_queue S)"
  shows "task_manager_step\<^sup>*\<^sup>* S (S\<lparr>tm_caller := (tm_caller S)(0 := Free)\<rparr>)"
  using assms
proof (induction d arbitrary: j S)
  case 0
  then have "async_step 0 undefined S = S\<lparr>tm_caller := (tm_caller S)(0 := Free)\<rparr>" by (simp add: async_step_def)
  then show ?case using task_manager_step.Async [OF 0(4), of 0 undefined] by (metis r_into_rtranclp)
next
  case (Suc d)
  let ?S = "S\<lparr>tm_caller := (tm_caller S)(0 := Telling (Suc j))\<rparr>"
  have "async_step 0 undefined S = ?S" using Suc.prems by (simp add: async_step_def)
  then have s: "task_manager_step S ?S" using task_manager_step.Async [OF Suc.prems(4), of 0 undefined] by metis
  have "task_manager_step\<^sup>*\<^sup>* ?S (?S\<lparr>tm_caller := (tm_caller ?S)(0 := Free)\<rparr>)" using Suc.prems by (intro Suc.IH [of ?S "Suc j"]) auto
  moreover have "?S\<lparr>tm_caller := (tm_caller ?S)(0 := Free)\<rparr> = S\<lparr>tm_caller := (tm_caller S)(0 := Free)\<rparr>" by simp
  ultimately show ?case using s by (metis converse_rtranclp_into_rtranclp)
qed

definition hung_up :: "nat \<Rightarrow> 't task_manager \<Rightarrow> 't task_manager" where
  "hung_up m S = S\<lparr>tm_cr := (\<lambda>i. if i < m then HangUp (tm_cr S i) else tm_cr S i), tm_pc := (\<lambda>i. if i < m then Asleep else tm_pc S i)\<rparr>"

lemma all_hang_up:
  assumes "\<forall>i < tm_num S. tm_pc S i = Saw_Empty" "m \<le> tm_num S"
  shows "task_manager_step\<^sup>*\<^sup>* S (hung_up m S)"
  using assms(2)
proof (induction m)
  case 0
  have "hung_up 0 S = S" by (simp add: hung_up_def)
  then show ?case by simp
next
  case (Suc m)
  have "task_step m (hung_up m S) = hung_up (Suc m) S" using assms(1) Suc.prems by (auto simp: task_step_def hung_up_def less_Suc_eq fun_eq_iff)
  moreover have "m < tm_num (hung_up m S)" using Suc.prems by (simp add: hung_up_def)
  ultimately have "task_manager_step (hung_up m S) (hung_up (Suc m) S)" using task_manager_step.Work by metis
  then show ?case using Suc by (meson Suc_leD rtranclp.rtrancl_into_rtrancl)
qed

section \<open>Properties\<close>

text \<open>
  Claim C40. A task can be left in the queue: with any number of coroutines there is a run in which a task is put into the queue and every
  coroutine has been notified, and after which none of them takes it, however often they are polled, until another task is put in.  A
  coroutine that has found the queue empty is not waiting yet when it is notified, and then hangs up.
\<close>

theorem async_task_left_waiting:
  assumes "TaskManager True dflt now task_id n = Some S0"
  shows "\<exists>S. task_manager_step\<^sup>*\<^sup>* S0 S \<and> (\<forall>k. tm_caller S k = Free) \<and> tm_accepted S = [t] \<and>
     (\<forall>is. list_all (\<lambda>i. i < n) is \<longrightarrow> tm_ran (fold task_step is S) = [] \<and> bq_list (tm_queue (fold task_step is S)) = [t])"
proof -
  obtain q where q: "bq_Init True dflt 1024 = Some q" by (simp add: bq_Init_def)
  have S0: "tm_queue S0 = q" "\<not> tm_stop S0" "tm_num S0 = n" "tm_pc S0 = (\<lambda>_. Asleep)" "tm_caller S0 = (\<lambda>_. Free)" "tm_accepted S0 = []" "tm_ran S0 = []"
    "\<forall>i. cr_state (tm_cr S0 i) = READY \<and> cr_updated (tm_cr S0 i)"
    using assms q by (auto simp: TaskManager_def CRoutine_def Let_def)
  have q0: "bq_inv q" "bq_list q = []" "bq_ready 2 q" "bq_Dequeue q = (None, q)"
    using q by (auto simp: bq_Init_def bq_inv_def bq_list_def bq_ready_def bq_Dequeue_def)
  have "fst (bq_Enqueue t q)" using q by (auto simp: bq_Init_def bq_Enqueue_def bq_GetIndex_def)
  then obtain q1 where e: "bq_Enqueue t q = (True, q1)" by (metis prod.collapse)
  have q1: "bq_inv q1 \<and> bq_ready 1 q1 \<and> bq_list q1 = [t]"
    using bounded_queue.enq_accept [OF q0(1) _ e, of 1] q0 by (simp add: numeral_2_eq_2)
  define A where "A = all_at n Saw_Empty S0"
  define B where "B = A\<lparr>tm_queue := q1, tm_accepted := [t], tm_caller := (tm_caller A)(0 := Telling 0)\<rparr>"
  define C where "C = B\<lparr>tm_caller := (tm_caller B)(0 := Free)\<rparr>"
  define S where "S = hung_up n C"
  have "task_manager_step\<^sup>*\<^sup>* S0 A" unfolding A_def using all_see_empty [OF S0(4,2) _ S0(8), of q n] S0(1,3) q0(4) by simp
  moreover have "async_step 0 t A = B" using S0 e by (simp add: async_step_def A_def B_def all_at_def)
  then have "task_manager_step A B" using task_manager_step.Async [of A 0 t] S0(1) q0(3) by (simp add: A_def all_at_def bq_ready_def)
  moreover have "task_manager_step\<^sup>*\<^sup>* B C" unfolding C_def using S0 q1 by (intro tell_all [where j = 0 and d = n]) (simp_all add: B_def A_def all_at_def)
  moreover have "task_manager_step\<^sup>*\<^sup>* C S" unfolding S_def using S0(3) by (intro all_hang_up) (simp_all add: C_def B_def A_def all_at_def)
  ultimately have run: "task_manager_step\<^sup>*\<^sup>* S0 S" by (meson rtranclp.rtrancl_into_rtrancl rtranclp_trans)
  have sel: "tm_num S = n" "tm_queue S = q1" "tm_ran S = []" "tm_accepted S = [t]" "\<forall>k. tm_caller S k = Free"
    using S0 by (simp_all add: S_def hung_up_def C_def B_def A_def all_at_def)
  have "stranded S" using S0 q1 by (auto simp: stranded_def S_def hung_up_def C_def B_def A_def all_at_def HangUp_def Yield_as_def)
  then show ?thesis using run sel stranded_stays [of S] q1 by (intro exI [of _ S]) simp
qed

theorem async_task_left_waiting_witness:
  "\<exists>S0 S. TaskManager True (0 :: nat) 0 (\<lambda>_. 7) 5 = Some S0 \<and> task_manager_step\<^sup>*\<^sup>* S0 S \<and> tm_accepted S = [42] \<and> tm_ran (fold task_step [0, 1, 2, 3, 4] S) = []"
proof -
  obtain S0 where s: "TaskManager True (0 :: nat) 0 (\<lambda>_. 7) 5 = Some S0" by (simp add: TaskManager_def bq_Init_def)
  obtain S where S: "task_manager_step\<^sup>*\<^sup>* S0 S" "tm_accepted S = [42]" "\<forall>is. list_all (\<lambda>i. i < 5) is \<longrightarrow> tm_ran (fold task_step is S) = []"
    using async_task_left_waiting [OF s, of 42] by blast
  moreover have "list_all (\<lambda>i. i < 5) [0, 1, 2, 3, 4 :: nat]" by simp
  ultimately have "tm_ran (fold task_step [0, 1, 2, 3, 4] S) = []" by blast
  then show ?thesis using s S(1,2) by blast
qed

end
