(* ===== verification/Times.thy ===== *)
theory Times
  imports Timers
begin

text \<open>
  \<^verbatim>\<open>cyber/time\<close> and \<^verbatim>\<open>cyber/common/time_conversion.h\<close>: times are unsigned and durations signed numbers of nanoseconds of 64 bits, both words here;
  a rate keeps a loop to a cycle; the clock can be set in mock mode; and Unix time is converted to GPS time and back.  Seconds in floating point
  and the local time of the operating system are not modelled.
\<close>

section \<open>Time and duration\<close>

type_synonym time = u64
type_synonym duration = u64

definition Time_nano :: "u64 \<Rightarrow> time" where "Time_nano n = n"
definition Time_int :: "32 word \<Rightarrow> time" where "Time_int n = scast n"
definition Time_parts :: "u32 \<Rightarrow> u32 \<Rightarrow> time" where "Time_parts s n = ucast s * 1000000000 + ucast n"
definition Time_MAX :: time where "Time_MAX = - 1"
definition Time_MIN :: time where "Time_MIN = 0"

definition Duration_nano :: "u64 \<Rightarrow> duration" where "Duration_nano n = n"
definition Duration_int :: "32 word \<Rightarrow> duration" where "Duration_int n = scast n"
definition Duration_parts :: "u32 \<Rightarrow> u32 \<Rightarrow> duration" where "Duration_parts s n = ucast s * 1000000000 + ucast n"

definition time_diff :: "time \<Rightarrow> time \<Rightarrow> duration" where "time_diff t u = t - u"
definition time_add :: "time \<Rightarrow> duration \<Rightarrow> time" where "time_add t d = t + d"
definition time_sub :: "time \<Rightarrow> duration \<Rightarrow> time" where "time_sub t d = t - d"
definition time_less :: "time \<Rightarrow> time \<Rightarrow> bool" where "time_less t u \<longleftrightarrow> t < u"

definition duration_add :: "duration \<Rightarrow> duration \<Rightarrow> duration" where "duration_add d e = d + e"
definition duration_sub :: "duration \<Rightarrow> duration \<Rightarrow> duration" where "duration_sub d e = d - e"
definition duration_neg :: "duration \<Rightarrow> duration" where "duration_neg d = - d"
definition duration_less :: "duration \<Rightarrow> duration \<Rightarrow> bool" where "duration_less d e \<longleftrightarrow> sint d < sint e"

lemmas time_defs = time_diff_def time_add_def time_sub_def time_less_def duration_add_def duration_sub_def duration_neg_def duration_less_def

text \<open>Whatever overflows, a duration that is added is the difference again.\<close>

lemma time_add_diff: "time_diff (time_add t d) t = d" "time_add u (time_diff t u) = t" "time_sub (time_add t d) d = t"
  by (simp_all add: time_defs)

text \<open>The order of durations says which time is first, for times less than 292 years apart.\<close>

lemma duration_order:
  assumes "\<bar>int (unat t) - int (unat u)\<bar> < 2 ^ 63"
  shows "sint (time_diff t u) = int (unat t) - int (unat u)" "duration_less (time_diff t u) 0 \<longleftrightarrow> time_less t u"
proof -
  let ?v = "int (unat t) - int (unat u)"
  have b: "- 9223372036854775808 \<le> ?v" "?v < 9223372036854775808" using assms by auto
  have "of_int ?v = time_diff t u" by (simp add: time_diff_def)
  then show s: "sint (time_diff t u) = int (unat t) - int (unat u)" using sint_small [OF b] by (simp only:)
  show "duration_less (time_diff t u) 0 \<longleftrightarrow> time_less t u" by (simp add: duration_less_def s time_less_def word_less_def)
qed

lemma nat_diff_small: "a < 2 ^ 63 \<Longrightarrow> b < 2 ^ 63 \<Longrightarrow> \<bar>int a - int b\<bar> < 2 ^ 63"
  by (simp add: abs_less_iff)

section \<open>Rate\<close>

record rate =
  ra_start :: time
  ra_expected_cycle :: duration
  ra_actual_cycle :: duration

definition Rate :: "time \<Rightarrow> duration \<Rightarrow> rate" where
  "Rate now d = \<lparr>ra_start = now, ra_expected_cycle = d, ra_actual_cycle = 0\<rparr>"

text \<open>\<open>now\<close> is what the clock says; the result is the time until which the thread sleeps, if it does.\<close>

definition Rate_Sleep :: "time \<Rightarrow> rate \<Rightarrow> time option \<times> rate" where
  "Rate_Sleep now r =
     (let c = ra_expected_cycle r;
          expected_end = (if time_less now (ra_start r) then time_add now c else time_add (ra_start r) c);
          sleep_time = time_diff expected_end now;
          r = r\<lparr>ra_actual_cycle := time_diff now (ra_start r), ra_start := expected_end\<rparr>
      in if duration_less sleep_time 0
         then (None, if time_less (time_add expected_end c) now then r\<lparr>ra_start := now\<rparr> else r)
         else (Some expected_end, r))"

definition Rate_Reset :: "time \<Rightarrow> rate \<Rightarrow> rate" where "Rate_Reset now r = r\<lparr>ra_start := now\<rparr>"
definition CycleTime :: "rate \<Rightarrow> duration" where "CycleTime r = ra_actual_cycle r"

fun rate_run :: "time list \<Rightarrow> rate \<Rightarrow> time option list \<times> rate" where
  "rate_run [] r = ([], r)"
| "rate_run (now # nows) r = (case Rate_Sleep now r of (s, r) \<Rightarrow> case rate_run nows r of (ss, r) \<Rightarrow> (s # ss, r))"

lemma rate_on_grid:
  assumes "unat (ra_start r) + 2 * unat (ra_expected_cycle r) < 2 ^ 63"
    and "unat (ra_start r) \<le> unat now" "unat now \<le> unat (ra_start r) + 2 * unat (ra_expected_cycle r)"
  shows "Rate_Sleep now r =
     (if unat now \<le> unat (ra_start r) + unat (ra_expected_cycle r) then Some (ra_start r + ra_expected_cycle r) else None,
      r\<lparr>ra_actual_cycle := now - ra_start r, ra_start := ra_start r + ra_expected_cycle r\<rparr>)"
proof -
  let ?s = "ra_start r" and ?c = "ra_expected_cycle r"
  have e: "unat (?s + ?c) = unat ?s + unat ?c" and e2: "unat (?s + ?c + ?c) = unat ?s + 2 * unat ?c"
    using assms(1) by (simp_all add: unat_word_ariths)
  have "\<bar>int (unat (?s + ?c)) - int (unat now)\<bar> < 2 ^ 63" using assms e by (intro nat_diff_small) linarith+
  note d = duration_order(2) [OF this]
  have "\<not> time_less now ?s" using assms(2) by (simp add: time_less_def word_less_nat_alt)
  moreover have "\<not> time_less (?s + ?c + ?c) now" using assms(3) e2 by (simp add: time_less_def word_less_nat_alt)
  moreover have "time_less (?s + ?c) now \<longleftrightarrow> \<not> unat now \<le> unat ?s + unat ?c" using e by (auto simp: time_less_def word_less_nat_alt)
  ultimately show ?thesis using d by (simp add: Rate_Sleep_def Let_def time_add_def time_diff_def)
qed

text \<open>
  A loop whose turns end within two cycles of where the turn should have started keeps its schedule: the turn \<open>k\<close> is due \<open>k\<close> cycles after the
  start, whatever the turns before took, and the thread sleeps until then or not at all.
\<close>

lemma rate_keeps_schedule:
  assumes "unat (ra_start r) + (length nows + 1) * unat (ra_expected_cycle r) < 2 ^ 63"
    and "\<forall>k < length nows. unat (ra_start r) + k * unat (ra_expected_cycle r) \<le> unat (nows ! k) \<and>
           unat (nows ! k) \<le> unat (ra_start r) + (k + 2) * unat (ra_expected_cycle r)"
    and "rate_run nows r = (ss, r')"
  shows "unat (ra_start r') = unat (ra_start r) + length nows * unat (ra_expected_cycle r) \<and> length ss = length nows \<and>
     (\<forall>k < length nows. \<forall>t. ss ! k = Some t \<longrightarrow> unat t = unat (ra_start r) + Suc k * unat (ra_expected_cycle r))"
  using assms
proof (induction nows arbitrary: r ss)
  case Nil
  then show ?case by simp
next
  case (Cons now nows)
  let ?s = "ra_start r" and ?c = "ra_expected_cycle r"
  have b: "unat ?s + 2 * unat ?c < 2 ^ 63" using Cons.prems(1) by (cases nows) (auto simp: algebra_simps)
  have n: "unat ?s \<le> unat now" "unat now \<le> unat ?s + 2 * unat ?c" using Cons.prems(2) by (metis add_0 length_greater_0_conv list.distinct(1) mult_0 nth_Cons_0 add.right_neutral)+
  note g = rate_on_grid [OF b n]
  obtain s1 r1 where r1: "Rate_Sleep now r = (s1, r1)" by fastforce
  have c1: "ra_expected_cycle r1 = ?c" and st: "ra_start r1 = ?s + ?c" and s1: "\<forall>t. s1 = Some t \<longrightarrow> t = ?s + ?c" using g r1 by (auto split: if_splits)
  have e: "unat (?s + ?c) = unat ?s + unat ?c" using b by (simp add: unat_word_ariths)
  obtain ss1 where ss: "rate_run nows r1 = (ss1, r')" "ss = s1 # ss1" using Cons.prems(3) r1 by (auto split: prod.splits)
  have p: "\<forall>k < length nows. unat (ra_start r1) + k * unat (ra_expected_cycle r1) \<le> unat (nows ! k) \<and> unat (nows ! k) \<le> unat (ra_start r1) + (k + 2) * unat (ra_expected_cycle r1)"
  proof (intro allI impI)
    fix k assume "k < length nows"
    then show "unat (ra_start r1) + k * unat (ra_expected_cycle r1) \<le> unat (nows ! k) \<and> unat (nows ! k) \<le> unat (ra_start r1) + (k + 2) * unat (ra_expected_cycle r1)"
      using Cons.prems(2) [rule_format, of "Suc k"] unfolding st c1 e by (simp add: algebra_simps)
  qed
  have "unat (ra_start r1) + (length nows + 1) * unat (ra_expected_cycle r1) < 2 ^ 63" using Cons.prems(1) unfolding st c1 e by (simp add: algebra_simps)
  note IH = Cons.IH [OF this p ss(1)]
  show ?case
  proof (intro conjI allI impI)
    show "unat (ra_start r') = unat ?s + length (now # nows) * unat ?c" "length ss = length (now # nows)" using IH ss(2) by (simp_all add: st c1 e)
    fix k t assume "k < length (now # nows)" "ss ! k = Some t"
    then show "unat t = unat ?s + Suc k * unat ?c" using IH ss(2) s1 e by (cases k) (auto simp: st c1)
  qed
qed

text \<open>A clock that was set back does not make the thread sleep for longer than a cycle.\<close>

lemma rate_sleeps_one_cycle:
  assumes "Rate_Sleep now r = (Some t, r')" "unat now + unat (ra_expected_cycle r) < 2 ^ 63" "unat (ra_start r) + unat (ra_expected_cycle r) < 2 ^ 63"
  shows "unat now \<le> unat t \<and> unat t \<le> unat now + unat (ra_expected_cycle r)"
proof -
  let ?e = "if time_less now (ra_start r) then time_add now (ra_expected_cycle r) else time_add (ra_start r) (ra_expected_cycle r)"
  have t: "t = ?e" "\<not> duration_less (time_diff ?e now) 0" using assms(1) by (auto simp: Rate_Sleep_def Let_def split: if_splits)
  have u: "unat ?e = (if unat now < unat (ra_start r) then unat now else unat (ra_start r)) + unat (ra_expected_cycle r)"
    using assms(2,3) by (simp add: time_add_def time_less_def word_less_nat_alt unat_word_ariths)
  then have "\<bar>int (unat ?e) - int (unat now)\<bar> < 2 ^ 63" using assms(2,3) by (intro nat_diff_small) (auto split: if_splits)
  then have "\<not> time_less ?e now" using duration_order(2) t(2) by blast
  then show ?thesis using u t(1) by (auto simp: time_less_def word_less_nat_alt)
qed

section \<open>Clock\<close>

datatype clock_mode = MODE_CYBER | MODE_MOCK | Other_Mode

record clock =
  ck_mode :: clock_mode
  ck_mock_now :: time

definition Clock :: "clock_mode \<Rightarrow> clock" where "Clock m = \<lparr>ck_mode = m, ck_mock_now = 0\<rparr>"

text \<open>\<open>None\<close> is the fatal error.\<close>

definition Clock_Now :: "time \<Rightarrow> clock \<Rightarrow> time option" where
  "Clock_Now system ck = (case ck_mode ck of MODE_CYBER \<Rightarrow> Some system | MODE_MOCK \<Rightarrow> Some (ck_mock_now ck) | Other_Mode \<Rightarrow> None)"

definition SetMode :: "clock_mode \<Rightarrow> clock \<Rightarrow> clock" where
  "SetMode m ck = (let ck = (if m = Other_Mode then ck else ck\<lparr>ck_mode := m\<rparr>) in ck\<lparr>ck_mock_now := 0\<rparr>)"

definition SetNow :: "time \<Rightarrow> clock \<Rightarrow> clock" where
  "SetNow t ck = (if ck_mode ck \<noteq> MODE_MOCK then ck else ck\<lparr>ck_mock_now := t\<rparr>)"

lemma mock_clock: "Clock_Now system (SetNow t (SetMode MODE_MOCK ck)) = Some t" "Clock_Now system (SetNow t (SetMode MODE_CYBER ck)) = Some system"
  by (simp_all add: Clock_Now_def SetNow_def SetMode_def Let_def)

text \<open>A mode that is not known is refused, but the mock time is lost.\<close>

lemma unknown_mode_resets: "SetMode Other_Mode ck = ck\<lparr>ck_mock_now := 0\<rparr>"
  by (simp add: SetMode_def Let_def)

section \<open>Unix and GPS time\<close>

text \<open>Seconds of 64 bits, as numbers; the conversion to 32 bits that the code makes is written out.\<close>

definition LEAP_SECONDS :: "(int \<times> int) list" where
  "LEAP_SECONDS = [(1483228800, 18), (1435708800, 17), (1341100800, 16), (1230768000, 15), (1136073600, 14)]"

definition UNIX_GPS_DIFF :: int where "UNIX_GPS_DIFF = 315964800"

fun to_gps :: "(int \<times> int) list \<Rightarrow> int \<Rightarrow> int" where
  "to_gps [] u = 0"
| "to_gps ((from, leap) # ls) u = (if from \<le> u then u - (UNIX_GPS_DIFF - leap) else to_gps ls u)"

definition to_int32 :: "int \<Rightarrow> int" where "to_int32 x = sint (word_of_int x :: 32 word)"

fun to_unix :: "(int \<times> int) list \<Rightarrow> int \<Rightarrow> int" where
  "to_unix [] g = 0"
| "to_unix ((from, leap) # ls) g = (let result = g + (UNIX_GPS_DIFF - leap) in if from \<le> to_int32 result then result else to_unix ls g)"

definition UnixToGpsSeconds :: "int \<Rightarrow> int" where "UnixToGpsSeconds = to_gps LEAP_SECONDS"
definition GpsToUnixSeconds :: "int \<Rightarrow> int" where "GpsToUnixSeconds = to_unix LEAP_SECONDS"

text \<open>Division and remainder of C++ round towards zero.\<close>

definition quot :: "int \<Rightarrow> int \<Rightarrow> int" where "quot a b = (if 0 \<le> a then a div b else - ((- a) div b))"
definition remd :: "int \<Rightarrow> int \<Rightarrow> int" where "remd a b = a - quot a b * b"

lemma quot_nonneg [simp]: "0 \<le> a \<Longrightarrow> quot a b = a div b" "0 \<le> a \<Longrightarrow> remd a b = a mod b"
  by (simp_all add: quot_def remd_def minus_div_mult_eq_mod)

definition UnixToGpsMicroseconds :: "int \<Rightarrow> int" where "UnixToGpsMicroseconds u = UnixToGpsSeconds (quot u 1000000) * 1000000 + remd u 1000000"
definition UnixToGpsNanoseconds :: "int \<Rightarrow> int" where "UnixToGpsNanoseconds u = UnixToGpsSeconds (quot u 1000000000) * 1000000000 + remd u 1000000000"
definition GpsToUnixMicroseconds :: "int \<Rightarrow> int" where "GpsToUnixMicroseconds g = GpsToUnixSeconds (quot g 1000000) * 1000000 + remd g 1000000"
definition GpsToUnixNanoseconds :: "int \<Rightarrow> int" where "GpsToUnixNanoseconds g = GpsToUnixSeconds (quot g 1000000000) * 1000000000 + remd g 1000000000"

lemma UnixToGpsSeconds_nonneg: "1136073600 \<le> u \<Longrightarrow> 0 \<le> UnixToGpsSeconds u"
  by (simp add: UnixToGpsSeconds_def LEAP_SECONDS_def UNIX_GPS_DIFF_def)

lemma to_int32_small: "- (2 ^ 31) \<le> x \<Longrightarrow> x < 2 ^ 31 \<Longrightarrow> to_int32 x = x"
  by (simp add: to_int32_def sint_sbintrunc' signed_take_bit_int_eq_self)

text \<open>From 2006 to the end of 32-bit time, a Unix time comes back from GPS time.\<close>

lemma gps_seconds_round_trip:
  assumes "1136073600 \<le> u" "u < 2 ^ 31"
  shows "GpsToUnixSeconds (UnixToGpsSeconds u) = u"
  using assms
  by (simp add: GpsToUnixSeconds_def UnixToGpsSeconds_def LEAP_SECONDS_def UNIX_GPS_DIFF_def to_int32_small Let_def)

lemma gps_micro_round_trip:
  assumes "1136073600 * 1000000 \<le> u" "u < 2 ^ 31 * 1000000"
  shows "GpsToUnixMicroseconds (UnixToGpsMicroseconds u) = u"
proof -
  have "1136073600 \<le> u div 1000000" "u div 1000000 < 2 ^ 31" using assms by auto
  then show ?thesis using assms(1) gps_seconds_round_trip [of "u div 1000000"] UnixToGpsSeconds_nonneg [of "u div 1000000"]
    by (simp add: GpsToUnixMicroseconds_def UnixToGpsMicroseconds_def)
qed

lemma gps_nano_round_trip:
  assumes "1136073600 * 1000000000 \<le> u" "u < 2 ^ 31 * 1000000000"
  shows "GpsToUnixNanoseconds (UnixToGpsNanoseconds u) = u"
proof -
  have "1136073600 \<le> u div 1000000000" "u div 1000000000 < 2 ^ 31" using assms by auto
  then show ?thesis using assms(1) gps_seconds_round_trip [of "u div 1000000000"] UnixToGpsSeconds_nonneg [of "u div 1000000000"]
    by (simp add: GpsToUnixNanoseconds_def UnixToGpsNanoseconds_def)
qed

text \<open>After that, on 19 January 2038, it is 0.\<close>

lemma gps_after_2038: "GpsToUnixSeconds (UnixToGpsSeconds (2 ^ 31 + 18)) = 0" "UnixToGpsSeconds (2 ^ 31 + 18) = 1831518884"
  by (simp_all add: GpsToUnixSeconds_def UnixToGpsSeconds_def LEAP_SECONDS_def UNIX_GPS_DIFF_def to_int32_def Let_def)

end
