(* ===== verification/Io_Poller.thy ===== *)
theory Io_Poller
  imports Croutines
begin

text \<open>
  \<^verbatim>\<open>cyber/io\<close>: a coroutine that would block on a socket registers the socket with the poller and yields; the poller's thread hands changes to
  \<^verbatim>\<open>epoll\<close>, waits, and answers requests that are ready or have timed out.  Shown here: the requests and \<^verbatim>\<open>epoll\<close> agree unless an operation on the
  same socket is still to be handed over, a request with a timeout is answered after as many rounds as it has milliseconds at the latest, and how a
  wake-up is lost.  The pipe that only shortens the poller's wait is not part of the model.
\<close>

section \<open>Poller\<close>

text \<open>A timeout of -1 is none.  A callback is a name, \<open>None\<close> a null function.\<close>

record 'c poll_request =
  pr_fd :: int
  pr_events :: u32
  pr_timeout_ms :: int
  pr_callback :: "'c option"

datatype ctl_op = CTL_ADD | CTL_MOD | CTL_DEL

record 'c poller =
  po_shutdown :: bool
  po_requests :: "(int \<times> 'c poll_request) list"
  po_ctrl :: "(int \<times> ctl_op \<times> u32) list"

definition Register :: "'c poll_request \<Rightarrow> 'c poller \<Rightarrow> bool \<times> 'c poller" where
  "Register req p =
     (if po_shutdown p \<or> pr_fd req < 0 \<or> pr_callback req = None then (False, p)
      else let opn = (if map_of (po_requests p) (pr_fd req) = None then CTL_ADD else CTL_MOD)
           in (True, p\<lparr>po_requests := set_entry (pr_fd req) req (po_requests p), po_ctrl := set_entry (pr_fd req) (opn, pr_events req) (po_ctrl p)\<rparr>))"

text \<open>The events of a removal are not initialised; they have no meaning to \<^verbatim>\<open>epoll\<close>.\<close>

definition Unregister :: "'c poll_request \<Rightarrow> 'c poller \<Rightarrow> bool \<times> 'c poller" where
  "Unregister req p =
     (if po_shutdown p \<or> pr_fd req < 0 \<or> pr_callback req = None then (False, p)
      else if map_of (po_requests p) (pr_fd req) = None then (False, p)
      else (True, p\<lparr>po_requests := filter (\<lambda>e. fst e \<noteq> pr_fd req) (po_requests p), po_ctrl := set_entry (pr_fd req) (CTL_DEL, 0) (po_ctrl p)\<rparr>))"

definition Poller_Clear :: "'c poller \<Rightarrow> 'c poller" where "Poller_Clear p = p\<lparr>po_requests := [], po_ctrl := []\<rparr>"

definition Poller_Shutdown :: "'c poller \<Rightarrow> 'c poller" where
  "Poller_Shutdown p = (if po_shutdown p then p else Poller_Clear (p\<lparr>po_shutdown := True\<rparr>))"

text \<open>\<open>pipe\<close> is the reading end of the pipe that wakes the thread, \<open>drain\<close> its callback.\<close>

definition EPOLLIN :: u32 where "EPOLLIN = 1"
definition EPOLLOUT :: u32 where "EPOLLOUT = 4"

definition Poller_Init :: "int \<Rightarrow> 'c \<Rightarrow> 'c poller" where
  "Poller_Init pipe drain =
     \<lparr>po_shutdown = False, po_requests = [(pipe, \<lparr>pr_fd = pipe, pr_events = EPOLLIN, pr_timeout_ms = -1, pr_callback = Some drain\<rparr>)],
      po_ctrl = [(pipe, CTL_ADD, EPOLLIN)]\<rparr>"

text \<open>\<^verbatim>\<open>epoll_ctl\<close>, as it is documented: what is watched, and with which events.  It fails, and changes nothing, on adding what is there and on changing or removing what is not.\<close>

type_synonym epoll = "int \<rightharpoonup> u32"

fun epoll_ctl :: "int \<Rightarrow> ctl_op \<times> u32 \<Rightarrow> epoll \<Rightarrow> bool \<times> epoll" where
  "epoll_ctl fd (CTL_ADD, ev) ep = (if ep fd = None then (True, ep(fd \<mapsto> ev)) else (False, ep))"
| "epoll_ctl fd (CTL_MOD, ev) ep = (if ep fd = None then (False, ep) else (True, ep(fd \<mapsto> ev)))"
| "epoll_ctl fd (CTL_DEL, ev) ep = (if ep fd = None then (False, ep) else (True, ep(fd := None)))"

definition HandleChanges :: "'c poller \<Rightarrow> epoll \<Rightarrow> 'c poller \<times> epoll" where
  "HandleChanges p ep = (p\<lparr>po_ctrl := []\<rparr>, fold (\<lambda>(fd, c) ep. snd (epoll_ctl fd c ep)) (po_ctrl p) ep)"

definition kPollTimeoutMs :: int where "kPollTimeoutMs = 100"

definition GetTimeoutMs :: "'c poller \<Rightarrow> int" where
  "GetTimeoutMs p = fold (\<lambda>(fd, r) t. if 0 \<le> pr_timeout_ms r \<and> pr_timeout_ms r < t then pr_timeout_ms r else t) (po_requests p) kPollTimeoutMs"

text \<open>A request whose timeout runs: the milliseconds are taken off; the second result says whether it is answered.\<close>

definition count_down :: "int \<Rightarrow> 'c poll_request \<Rightarrow> 'c poll_request \<times> bool" where
  "count_down interval r =
     (let t = (if 0 < pr_timeout_ms r then max 0 (pr_timeout_ms r - interval) else pr_timeout_ms r)
      in if t = 0 then (r\<lparr>pr_timeout_ms := -1\<rparr>, True) else (r\<lparr>pr_timeout_ms := t\<rparr>, False))"

definition age :: "int \<Rightarrow> 'c poller \<Rightarrow> int \<times> 'c poll_request \<Rightarrow> 'c poll_request \<times> bool" where
  "age interval p e = (if map_of (po_ctrl p) (fst e) \<noteq> None then (snd e, False) else count_down interval (snd e))"

definition interval_ms :: "int \<Rightarrow> int" where "interval_ms elapsed = (if elapsed div 1000000 = 0 then 1 else elapsed div 1000000)"

text \<open>
  \<^verbatim>\<open>Poll\<close>: \<open>elapsed\<close> is the time that \<^verbatim>\<open>epoll_wait\<close> took, in nanoseconds (not negative: the clock is not put back meanwhile), \<open>ready\<close> what it returned.  Those ready replace those timed out.  The result has the
  calls of callbacks.
\<close>

definition Poll :: "int \<Rightarrow> (int \<times> u32) list \<Rightarrow> 'c poller \<Rightarrow> ('c option \<times> u32) list \<times> 'c poller" where
  "Poll elapsed ready p =
     (let interval = interval_ms elapsed;
          responses = map (\<lambda>e. (fst e, 0)) (filter (\<lambda>e. snd (age interval p e)) (po_requests p));
          requests = map (\<lambda>e. (fst e, fst (age interval p e))) (po_requests p);
          responses = fold (\<lambda>(fd, ev). set_entry fd ev) ready responses;
          calls = List.map_filter (\<lambda>(fd, ev). map_option (\<lambda>r. (pr_callback r, ev)) (map_of requests fd)) responses
      in (calls, p\<lparr>po_requests := map (\<lambda>(fd, r). (fd, if fd \<in> fst ` set responses then r\<lparr>pr_timeout_ms := -1\<rparr> else r)) requests\<rparr>))"

section \<open>Requests and epoll\<close>

text \<open>What \<^verbatim>\<open>epoll\<close> watches once the changes are handed over is what is requested.\<close>

definition poller_ok :: "'c poller \<Rightarrow> bool" where
  "poller_ok p \<longleftrightarrow> distinct (map fst (po_requests p)) \<and> distinct (map fst (po_ctrl p))"

definition after_change :: "ctl_op \<times> u32 \<Rightarrow> u32 option \<Rightarrow> u32 option" where
  "after_change c old =
     (case c of (CTL_ADD, ev) \<Rightarrow> if old = None then Some ev else old | (CTL_MOD, ev) \<Rightarrow> if old = None then None else Some ev | (CTL_DEL, ev) \<Rightarrow> None)"

definition agrees :: "'c poller \<Rightarrow> epoll \<Rightarrow> int \<Rightarrow> bool" where
  "agrees p ep fd \<longleftrightarrow> (case map_of (po_ctrl p) fd of None \<Rightarrow> ep fd | Some c \<Rightarrow> after_change c (ep fd)) = map_option pr_events (map_of (po_requests p) fd)"

lemma epoll_ctl_after: "snd (epoll_ctl fd c ep) = ep(fd := after_change c (ep fd))"
  by (cases c; cases "fst c") (auto simp: after_change_def fun_upd_idem)

lemma HandleChanges_epoll:
  assumes "distinct (map fst (po_ctrl p))"
  shows "snd (HandleChanges p ep) fd = (case map_of (po_ctrl p) fd of None \<Rightarrow> ep fd | Some c \<Rightarrow> after_change c (ep fd))"
proof -
  have "fold (\<lambda>(fd, c) ep. snd (epoll_ctl fd c ep)) cs ep fd = (case map_of cs fd of None \<Rightarrow> ep fd | Some c \<Rightarrow> after_change c (ep fd))"
    if "distinct (map fst cs)" for cs
    using that
  proof (induction cs arbitrary: ep)
    case (Cons e cs)
    have "map_of cs (fst e) = None" using Cons.prems by (simp add: map_of_eq_None_iff)
    then show ?case using Cons by (cases e) (auto simp: epoll_ctl_after)
  qed simp
  then show ?thesis using assms by (simp add: HandleChanges_def)
qed

lemma handled_changes_agree:
  assumes "poller_ok p" "agrees p ep fd"
  shows "snd (HandleChanges p ep) fd = map_option pr_events (map_of (po_requests p) fd) \<and> agrees (fst (HandleChanges p ep)) (snd (HandleChanges p ep)) fd"
  using assms HandleChanges_epoll [of p ep fd] by (simp add: poller_ok_def agrees_def) (simp add: HandleChanges_def)

text \<open>A registration is sound when no change of the same socket is waiting, or only one that does not get in its way.\<close>

definition clear_to_register :: "int \<Rightarrow> 'c poller \<Rightarrow> epoll \<Rightarrow> bool" where
  "clear_to_register fd p ep \<longleftrightarrow> (case map_of (po_ctrl p) fd of None \<Rightarrow> True | Some (opn, ev) \<Rightarrow> opn = CTL_MOD \<or> opn = CTL_DEL \<and> ep fd = None)"

lemma map_of_filter_other: "map_of (filter (\<lambda>e. fst e \<noteq> k) xs) j = (if j = k then None else map_of xs j)"
  by (induction xs) auto

lemma Register_agrees:
  assumes "Register req p = (True, p')" "agrees p ep fd" "clear_to_register (pr_fd req) p ep" "poller_ok p"
  shows "agrees p' ep fd \<and> poller_ok p'"
proof -
  let ?op = "if map_of (po_requests p) (pr_fd req) = None then CTL_ADD else CTL_MOD"
  have p': "p' = p\<lparr>po_requests := set_entry (pr_fd req) req (po_requests p), po_ctrl := set_entry (pr_fd req) (?op, pr_events req) (po_ctrl p)\<rparr>"
    using assms(1) by (auto simp: Register_def Let_def split: if_splits)
  have "poller_ok p'" using assms(4) by (simp add: p' poller_ok_def distinct_set_entry)
  moreover have "agrees p' ep fd"
  proof (cases "fd = pr_fd req")
    case True
    then show ?thesis using assms(2,3)
      by (auto simp: p' agrees_def map_of_set_entry clear_to_register_def after_change_def split: option.splits if_splits)
  next
    case False
    then show ?thesis using assms(2) by (simp add: p' agrees_def map_of_set_entry)
  qed
  ultimately show ?thesis by simp
qed

lemma Unregister_agrees:
  assumes "Unregister req p = (ok, p')" "agrees p ep fd" "poller_ok p"
  shows "agrees p' ep fd \<and> poller_ok p'"
  using assms
  by (auto simp: Unregister_def agrees_def map_of_set_entry map_of_filter_other after_change_def poller_ok_def distinct_set_entry distinct_map_filter split: if_splits)

text \<open>
  Otherwise it is lost: two registrations of a new socket before the thread runs leave it unwatched, and one that follows a removal at once keeps the
  events from before it.
\<close>

lemma registered_twice_unwatched:
  assumes "Register r1 p = (True, p1)" "Register r2 p1 = (True, p2)" "pr_fd r2 = pr_fd r1" "map_of (po_requests p) (pr_fd r1) = None" "ep (pr_fd r1) = None" "poller_ok p"
  shows "snd (HandleChanges p2 ep) (pr_fd r1) = None \<and> map_of (po_requests p2) (pr_fd r1) = Some r2"
proof -
  have p1: "p1 = p\<lparr>po_requests := set_entry (pr_fd r1) r1 (po_requests p), po_ctrl := set_entry (pr_fd r1) (CTL_ADD, pr_events r1) (po_ctrl p)\<rparr>"
    using assms(1,4) by (auto simp: Register_def split: if_splits)
  have p2: "p2 = p1\<lparr>po_requests := set_entry (pr_fd r1) r2 (po_requests p1), po_ctrl := set_entry (pr_fd r1) (CTL_MOD, pr_events r2) (po_ctrl p1)\<rparr>"
    using assms(2,3) p1 by (auto simp: Register_def map_of_set_entry split: if_splits)
  have "distinct (map fst (po_ctrl p2))" using assms(6) by (simp add: p2 p1 poller_ok_def distinct_set_entry)
  then show ?thesis using HandleChanges_epoll [of p2 ep "pr_fd r1"] assms(5) by (simp add: p2 p1 map_of_set_entry after_change_def)
qed

lemma reregistered_keeps_old_events:
  assumes "Unregister r1 p = (True, p1)" "Register r2 p1 = (True, p2)" "pr_fd r2 = pr_fd r1" "ep (pr_fd r1) = Some old" "poller_ok p"
  shows "snd (HandleChanges p2 ep) (pr_fd r1) = Some old"
proof -
  have p1: "p1 = p\<lparr>po_requests := filter (\<lambda>e. fst e \<noteq> pr_fd r1) (po_requests p), po_ctrl := set_entry (pr_fd r1) (CTL_DEL, 0) (po_ctrl p)\<rparr>"
    using assms(1) by (auto simp: Unregister_def split: if_splits)
  have p2: "po_ctrl p2 = set_entry (pr_fd r1) (CTL_ADD, pr_events r2) (po_ctrl p1)"
    using assms(2,3) p1 by (auto simp: Register_def map_of_filter_other split: if_splits)
  have "distinct (map fst (po_ctrl p2))" using assms(5) by (simp add: p2 p1 poller_ok_def distinct_set_entry)
  then show ?thesis using HandleChanges_epoll [of p2 ep "pr_fd r1"] assms(4) by (simp add: p2 map_of_set_entry after_change_def)
qed

section \<open>Timeouts\<close>

lemma GetTimeoutMs_least: "GetTimeoutMs p \<le> kPollTimeoutMs \<and> ((fd, r) \<in> set (po_requests p) \<longrightarrow> 0 \<le> pr_timeout_ms r \<longrightarrow> GetTimeoutMs p \<le> pr_timeout_ms r)"
proof -
  let ?f = "\<lambda>(fd :: int, r :: 'a poll_request) t. if 0 \<le> pr_timeout_ms r \<and> pr_timeout_ms r < t then pr_timeout_ms r else t"
  have "fold ?f rs t \<le> t \<and> ((fd, r) \<in> set rs \<longrightarrow> 0 \<le> pr_timeout_ms r \<longrightarrow> fold ?f rs t \<le> pr_timeout_ms r)" for rs t
  proof (induction rs arbitrary: t)
    case (Cons e rs)
    have "fold ?f rs (?f e t) \<le> ?f e t" using Cons.IH by blast
    moreover have "?f e t \<le> t" by (auto split: prod.split)
    ultimately show ?case using Cons.IH [of "?f e t"] by (auto split: if_splits)
  qed simp
  then show ?thesis unfolding GetTimeoutMs_def by blast
qed

lemma in_map_filter: "y \<in> set (List.map_filter f xs) \<longleftrightarrow> Some y \<in> f ` set xs"
  by (induction xs) (auto simp: map_filter_simps split: option.split)

lemma keys_set_entry: "fst ` set (set_entry k v xs) = insert k (fst ` set xs)"
  by (force simp: set_set_entry)

lemma keys_fold_set_entry: "fst ` set (fold (\<lambda>(k, v). set_entry k v) ready xs) = fst ` set xs \<union> fst ` set ready"
  by (induction ready arbitrary: xs) (simp_all add: keys_set_entry split_def)

lemma entry_fold_set_entry: "e \<in> set xs \<Longrightarrow> fst e \<notin> fst ` set ready \<Longrightarrow> e \<in> set (fold (\<lambda>(k, v). set_entry k v) ready xs)"
  by (induction ready arbitrary: xs) (auto simp: set_set_entry split: prod.splits)

lemma map_of_map_entry: "map_of (map (\<lambda>e. (fst e, f e)) xs) k = map_option (\<lambda>v. f (k, v)) (map_of xs k)"
  by (induction xs) auto

lemma Poll_others:
  assumes "map_of (po_requests p) fd = Some r" "poller_ok p" "fd \<notin> fst ` set ready"
  shows "map_of (po_requests (snd (Poll elapsed ready p))) fd = Some (fst (age (interval_ms elapsed) p (fd, r)))"
    and "snd (age (interval_ms elapsed) p (fd, r)) \<Longrightarrow> (pr_callback r, 0) \<in> set (fst (Poll elapsed ready p))"
proof -
  let ?i = "interval_ms elapsed"
  let ?base = "map (\<lambda>e. (fst e, 0 :: u32)) (filter (\<lambda>e. snd (age ?i p e)) (po_requests p))"
  let ?reqs = "map (\<lambda>e. (fst e, fst (age ?i p e))) (po_requests p)"
  let ?resp = "fold (\<lambda>(fd, ev). set_entry fd ev) ready ?base"
  have reqs: "map_of ?reqs fd = Some (fst (age ?i p (fd, r)))" using assms(1) by (simp add: map_of_map_entry)
  have only: "(fd, r') \<in> set (po_requests p) \<Longrightarrow> r' = r" for r'
    using assms(1,2) by (simp add: poller_ok_def)
  have in_resp: "fd \<in> fst ` set ?resp \<Longrightarrow> snd (age ?i p (fd, r))"
    using assms(3) only by (auto simp: keys_fold_set_entry)
  have due: "snd (age ?i p (fd, r)) \<Longrightarrow> pr_timeout_ms (fst (age ?i p (fd, r))) = -1"
    by (simp add: age_def count_down_def Let_def split: if_splits)
  have "map_of (po_requests (snd (Poll elapsed ready p))) fd
      = map_option (\<lambda>r. if fd \<in> fst ` set ?resp then r\<lparr>pr_timeout_ms := -1\<rparr> else r) (map_of ?reqs fd)"
    using map_of_map_entry [of "\<lambda>(fd, r). if fd \<in> fst ` set ?resp then r\<lparr>pr_timeout_ms := -1\<rparr> else r" ?reqs fd]
    by (simp add: Poll_def Let_def split_def del: map_map) (simp cong: if_cong)
  then show "map_of (po_requests (snd (Poll elapsed ready p))) fd = Some (fst (age ?i p (fd, r)))"
    using reqs in_resp due by auto
  assume answered: "snd (age ?i p (fd, r))"
  have "(fd, 0) \<in> set ?base" using map_of_SomeD [OF assms(1)] answered by force
  then have "(fd, 0) \<in> set ?resp" using entry_fold_set_entry [of "(fd, 0)" ?base ready] assms(3) by simp
  moreover have "pr_callback (fst (age ?i p (fd, r))) = pr_callback r" by (simp add: age_def count_down_def Let_def)
  ultimately have "Some (pr_callback r, 0) \<in> (\<lambda>(fd, ev). map_option (\<lambda>r. (pr_callback r, ev)) (map_of ?reqs fd)) ` set ?resp"
    using reqs by (force simp: image_iff)
  then show "(pr_callback r, 0) \<in> set (fst (Poll elapsed ready p))"
    by (simp only: Poll_def Let_def fst_conv in_map_filter)
qed

text \<open>The rounds of the thread, as far as the requests go; each is given the time it took and what was ready.\<close>

fun ThreadFunc :: "(int \<times> (int \<times> u32) list) list \<Rightarrow> 'c poller \<Rightarrow> ('c option \<times> u32) list \<times> 'c poller" where
  "ThreadFunc [] p = ([], p)"
| "ThreadFunc ((elapsed, ready) # rounds) p =
     (if po_shutdown p then ([], p)
      else case Poll elapsed ready (p\<lparr>po_ctrl := []\<rparr>) of (calls, p1) \<Rightarrow>
             (case ThreadFunc rounds p1 of (later, p2) \<Rightarrow> (calls @ later, p2)))"

lemma Poll_keeps:
  "po_shutdown (snd (Poll elapsed ready p)) = po_shutdown p" "po_ctrl (snd (Poll elapsed ready p)) = po_ctrl p"
  "map fst (po_requests (snd (Poll elapsed ready p))) = map fst (po_requests p)"
  by (simp_all add: Poll_def Let_def split_def comp_def)

text \<open>A request that has a timeout of \<open>t\<close> milliseconds, for a socket that does nothing, is answered after \<open>t\<close> rounds at the latest.\<close>

lemma timeout_is_answered:
  assumes "map_of (po_requests p) fd = Some r" "poller_ok p" "\<not> po_shutdown p"
    and "\<forall>x\<in>set rounds. fst x \<ge> 0 \<and> fd \<notin> fst ` set (snd x)" "0 \<le> pr_timeout_ms r" "nat (pr_timeout_ms r) \<le> length rounds" "rounds \<noteq> []"
  shows "(pr_callback r, 0) \<in> set (fst (ThreadFunc rounds p))"
  using assms
proof (induction rounds arbitrary: p r)
  case (Cons x rounds)
  obtain elapsed ready where x: "x = (elapsed, ready)" by (cases x)
  let ?p = "p\<lparr>po_ctrl := []\<rparr>" and ?i = "interval_ms elapsed"
  have req: "map_of (po_requests ?p) fd = Some r" and ok: "poller_ok ?p" and not_ready: "fd \<notin> fst ` set ready" and e: "0 \<le> elapsed"
    using Cons.prems by (auto simp: poller_ok_def x)
  have i: "1 \<le> ?i" using e by (simp add: interval_ms_def) (smt (verit, best) div_pos_pos_trivial pos_imp_zdiv_nonneg_iff)
  note now = Poll_others [OF req ok not_ready, of elapsed]
  have age: "age ?i ?p (fd, r) = count_down ?i r" by (simp add: age_def)
  show ?case
  proof (cases "pr_timeout_ms r \<le> ?i")
    case True
    then have "snd (count_down ?i r)" using Cons.prems(5) by (auto simp: count_down_def Let_def)
    then show ?thesis using now(2) Cons.prems(3) by (auto simp: age x split: prod.splits)
  next
    case False
    let ?r = "r\<lparr>pr_timeout_ms := pr_timeout_ms r - ?i\<rparr>"
    have "fst (count_down ?i r) = ?r" using False i by (simp add: count_down_def Let_def)
    then have later: "map_of (po_requests (snd (Poll elapsed ready ?p))) fd = Some ?r" using now(1) by (simp add: age)
    have "poller_ok (snd (Poll elapsed ready ?p))" using ok by (simp add: poller_ok_def Poll_keeps)
    moreover have "\<not> po_shutdown (snd (Poll elapsed ready ?p))" using Cons.prems(3) by (simp add: Poll_keeps)
    moreover have "nat (pr_timeout_ms ?r) \<le> length rounds" "0 \<le> pr_timeout_ms ?r" "rounds \<noteq> []" using Cons.prems(6) False i by auto
    ultimately have "(pr_callback ?r, 0) \<in> set (fst (ThreadFunc rounds (snd (Poll elapsed ready ?p))))"
      using Cons.IH [OF later] Cons.prems(4) by simp
    then show ?thesis using Cons.prems(3) by (auto simp: x split: prod.splits)
  qed
qed simp

section \<open>Poll handlers\<close>

text \<open>
  One call of \<^verbatim>\<open>Block\<close>, and the poller's thread.  \<open>br_armed\<close>: the socket is watched (\<^verbatim>\<open>EPOLLONESHOT\<close>: until it is ready once); \<open>br_timeout\<close> is what is left
  of the request's timeout, -1 once it was answered.
\<close>

datatype block_pc = Outside | Registered | Waiting | Returned bool

record block_run =
  br_fd :: int
  br_request :: "unit poll_request"
  br_response :: u32
  br_is_read :: bool
  br_is_blocking :: bool
  br_cr :: croutine
  br_armed :: bool
  br_timeout :: int
  br_pc :: block_pc

definition Check :: "int \<Rightarrow> bool \<Rightarrow> block_run \<Rightarrow> bool" where
  "Check timeout in_routine S \<longleftrightarrow> timeout \<noteq> 0 \<and> 0 \<le> br_fd S \<and> in_routine"

definition EPOLLET :: u32 where "EPOLLET = push_bit 31 1"
definition EPOLLONESHOT :: u32 where "EPOLLONESHOT = push_bit 30 1"

definition Fill_Request :: "int \<Rightarrow> bool \<Rightarrow> block_run \<Rightarrow> block_run" where
  "Fill_Request timeout is_read S =
     S\<lparr>br_is_read := is_read,
       br_request := \<lparr>pr_fd = br_fd S, pr_events = or (or EPOLLET EPOLLONESHOT) (if is_read then EPOLLIN else EPOLLOUT), pr_timeout_ms = timeout, pr_callback = Some ()\<rparr>\<rparr>"

text \<open>\<^verbatim>\<open>Block\<close> up to its \<^verbatim>\<open>Yield\<close>, and after it; \<open>registers\<close> is the answer of \<^verbatim>\<open>Register\<close>.\<close>

definition Block_begin :: "int \<Rightarrow> bool \<Rightarrow> bool \<Rightarrow> bool \<Rightarrow> block_run \<Rightarrow> block_run" where
  "Block_begin timeout is_read in_routine registers S =
     (if \<not> Check timeout in_routine S \<or> br_is_blocking S then S\<lparr>br_pc := Returned False\<rparr>
      else let S' = Fill_Request timeout is_read S
           in if \<not> registers then S'\<lparr>br_is_blocking := False, br_pc := Returned False\<rparr>
              else S'\<lparr>br_is_blocking := True, br_armed := True, br_timeout := timeout, br_pc := Registered\<rparr>)"

definition Block_end :: "block_run \<Rightarrow> block_run" where
  "Block_end S = S\<lparr>br_is_blocking := False, br_pc := Returned (and (br_response S) (if br_is_read S then EPOLLIN else EPOLLOUT) \<noteq> 0)\<rparr>"

text \<open>\<^verbatim>\<open>NotifyTask\<close> clears the flag of the coroutine, which waits.\<close>

definition ResponseCallback :: "u32 \<Rightarrow> block_run \<Rightarrow> block_run" where
  "ResponseCallback events S =
     (if \<not> br_is_blocking S then S
      else S\<lparr>br_response := events, br_cr := (if cr_state (br_cr S) = IO_WAIT then SetUpdateFlag (br_cr S) else br_cr S)\<rparr>)"

inductive block_run_step :: "block_run \<Rightarrow> block_run \<Rightarrow> bool" where
  Yields: "br_pc S = Registered \<Longrightarrow> block_run_step S (S\<lparr>br_cr := Yield_as IO_WAIT (br_cr S), br_pc := Waiting\<rparr>)"
| Ready: "br_armed S \<Longrightarrow> events \<noteq> 0 \<Longrightarrow> block_run_step S (ResponseCallback events (S\<lparr>br_armed := False, br_timeout := -1\<rparr>))"
| Times_Out: "0 \<le> br_timeout S \<Longrightarrow> block_run_step S (ResponseCallback 0 (S\<lparr>br_timeout := -1\<rparr>))"
| Polled: "br_pc S = Waiting \<Longrightarrow> UpdateState now (br_cr S) = (st, cr) \<Longrightarrow> st \<noteq> READY \<Longrightarrow> block_run_step S (S\<lparr>br_cr := cr\<rparr>)"
| Resumed: "br_pc S = Waiting \<Longrightarrow> UpdateState now (br_cr S) = (READY, cr) \<Longrightarrow> block_run_step S (Block_end (S\<lparr>br_cr := cr\<rparr>))"

inductive_cases block_run_stepE: "block_run_step S S'"

text \<open>A socket that is ready once the coroutine waits wakes it, with what it is ready for.\<close>

lemma ready_wakes_waiting:
  assumes "br_pc S = Waiting" "br_is_blocking S" "cr_state (br_cr S) = IO_WAIT" "br_armed S" "events \<noteq> 0"
  shows "\<exists>S'. block_run_step\<^sup>*\<^sup>* S S' \<and> br_pc S' = Returned (and events (if br_is_read S then EPOLLIN else EPOLLOUT) \<noteq> 0) \<and> \<not> br_is_blocking S'"
proof -
  let ?S = "ResponseCallback events (S\<lparr>br_armed := False, br_timeout := -1\<rparr>)"
  have "UpdateState 0 (br_cr ?S) = (READY, (br_cr ?S)\<lparr>cr_updated := True, cr_state := READY\<rparr>)"
    using assms(2,3) by (simp add: ResponseCallback_def UpdateState_def SetUpdateFlag_def)
  then have "block_run_step ?S (Block_end (?S\<lparr>br_cr := (br_cr ?S)\<lparr>cr_updated := True, cr_state := READY\<rparr>\<rparr>))"
    using assms(1,2) by (intro block_run_step.Resumed) (simp_all add: ResponseCallback_def)
  with block_run_step.Ready [OF assms(4,5)] have "block_run_step\<^sup>*\<^sup>* S (Block_end (?S\<lparr>br_cr := (br_cr ?S)\<lparr>cr_updated := True, cr_state := READY\<rparr>\<rparr>))" by simp
  then show ?thesis using assms(2) by (force simp: Block_end_def ResponseCallback_def)
qed

text \<open>One that is ready between the registration and the \<^verbatim>\<open>Yield\<close> is not noticed: the coroutine waits for ever, also when it has a timeout.\<close>

definition left_waiting :: "block_run \<Rightarrow> bool" where
  "left_waiting S \<longleftrightarrow> br_pc S = Waiting \<and> cr_state (br_cr S) = IO_WAIT \<and> cr_updated (br_cr S) \<and> \<not> br_armed S \<and> br_timeout S = -1"

lemma left_waiting_step: "block_run_step S S' \<Longrightarrow> left_waiting S \<Longrightarrow> left_waiting S'"
  by (erule block_run_stepE) (auto simp: left_waiting_def UpdateState_def Let_def split: if_splits)

lemma left_waiting_for_ever: "block_run_step\<^sup>*\<^sup>* S S' \<Longrightarrow> left_waiting S \<Longrightarrow> left_waiting S'"
  by (induction rule: rtranclp_induct) (auto dest: left_waiting_step)

lemma ready_too_early_is_lost:
  assumes "Check timeout True S" "\<not> br_is_blocking S" "cr_state (br_cr S) = READY" "cr_updated (br_cr S)"
  shows "\<exists>S'. block_run_step\<^sup>*\<^sup>* (Block_begin timeout is_read True True S) S' \<and> and (br_response S') (if is_read then EPOLLIN else EPOLLOUT) \<noteq> 0
    \<and> (\<forall>S''. block_run_step\<^sup>*\<^sup>* S' S'' \<longrightarrow> br_pc S'' = Waiting)"
proof -
  define ev where "ev = (if is_read then EPOLLIN else EPOLLOUT)"
  let ?S = "Block_begin timeout is_read True True S"
  let ?S1 = "ResponseCallback ev (?S\<lparr>br_armed := False, br_timeout := -1\<rparr>)"
  let ?S2 = "?S1\<lparr>br_cr := Yield_as IO_WAIT (br_cr ?S1), br_pc := Waiting\<rparr>"
  have "ev \<noteq> 0" by (simp add: ev_def EPOLLIN_def EPOLLOUT_def)
  moreover have "br_armed ?S" using assms by (simp add: Block_begin_def Let_def)
  ultimately have "block_run_step ?S ?S1" by (rule block_run_step.Ready [rotated])
  moreover have "block_run_step ?S1 ?S2" using assms by (intro block_run_step.Yields) (simp add: ResponseCallback_def Block_begin_def Let_def)
  ultimately have "block_run_step\<^sup>*\<^sup>* ?S ?S2" by simp
  moreover have "left_waiting ?S2" using assms
    by (simp add: left_waiting_def ResponseCallback_def Block_begin_def Let_def Yield_as_def Fill_Request_def)
  moreover have "and (br_response ?S2) ev \<noteq> 0" using assms \<open>ev \<noteq> 0\<close>
    by (simp add: ResponseCallback_def Block_begin_def Let_def Fill_Request_def)
  ultimately show ?thesis using left_waiting_for_ever left_waiting_def unfolding ev_def by blast
qed

text \<open>\<^verbatim>\<open>Unblock\<close>, which a session calls before it closes its socket, takes the request away; a coroutine that waits is not woken.\<close>

definition Unblock :: "unit poller \<Rightarrow> block_run \<Rightarrow> bool \<times> unit poller \<times> block_run" where
  "Unblock p S =
     (case Unregister (br_request S) p of
        (ok, p') \<Rightarrow> (ok, p', S\<lparr>br_is_blocking := False, br_armed := br_armed S \<and> \<not> ok, br_timeout := (if ok then -1 else br_timeout S)\<rparr>))"

lemma unblocked_waits_for_ever:
  assumes "Unblock p S = (True, p', S')" "br_pc S = Waiting" "cr_state (br_cr S) = IO_WAIT" "cr_updated (br_cr S)" "block_run_step\<^sup>*\<^sup>* S' S''"
  shows "br_pc S'' = Waiting"
proof -
  have "left_waiting S'" using assms(1-4) by (auto simp: Unblock_def left_waiting_def split: prod.splits)
  then show ?thesis using left_waiting_for_ever [OF assms(5)] by (simp add: left_waiting_def)
qed

section \<open>Sessions\<close>

text \<open>What a call of the system returns: -1 with \<^verbatim>\<open>EAGAIN\<close> or \<^verbatim>\<open>EWOULDBLOCK\<close>, -1 with another error, or a count or a descriptor.\<close>

datatype sys = Would_Block | Failed | Done nat

text \<open>
  The loop of \<^verbatim>\<open>Recv\<close> and the five that are written like it.  \<open>block\<close>: what the calls of \<^verbatim>\<open>Block\<close> return, and whether \<^verbatim>\<open>errno\<close>, which is read again after it,
  is still \<^verbatim>\<open>EAGAIN\<close>; \<open>call\<close>: what the calls of the system return.  \<open>None\<close>: still in the loop after so many turns.
\<close>

fun io_loop :: "nat \<Rightarrow> int \<Rightarrow> (nat \<Rightarrow> bool \<times> bool) \<Rightarrow> (nat \<Rightarrow> sys) \<Rightarrow> nat \<Rightarrow> nat \<Rightarrow> sys \<Rightarrow> sys option" where
  "io_loop fuel timeout block call b c r =
     (if r \<noteq> Would_Block then Some r
      else case fuel of
             0 \<Rightarrow> None
           | Suc fuel \<Rightarrow>
               (case block b of
                  (True, _) \<Rightarrow> if 0 < timeout then Some (call c) else io_loop fuel timeout block call (Suc b) (Suc c) (call c)
                | (False, again) \<Rightarrow>
                    if 0 < timeout then Some r else io_loop fuel timeout block call (Suc b) c (if again then Would_Block else Failed)))"

declare io_loop.simps [simp del]

text \<open>\<open>None\<close> outside is the check that aborts the process.\<close>

definition session_io :: "bool \<Rightarrow> int \<Rightarrow> nat \<Rightarrow> int \<Rightarrow> (nat \<Rightarrow> bool \<times> bool) \<Rightarrow> (nat \<Rightarrow> sys) \<Rightarrow> sys option option" where
  "session_io pointers_ok fd fuel timeout block call =
     (if \<not> pointers_ok \<or> fd = -1 then None
      else if timeout = 0 then Some (Some (call 0))
      else Some (io_loop fuel timeout block call 0 1 (call 0)))"

definition Recv :: "bool \<Rightarrow> int \<Rightarrow> nat \<Rightarrow> int \<Rightarrow> (bool \<Rightarrow> nat \<Rightarrow> bool \<times> bool) \<Rightarrow> (nat \<Rightarrow> sys) \<Rightarrow> sys option option" where
  "Recv buf_ok fd fuel timeout block recv = session_io buf_ok fd fuel timeout (block True) recv"

definition RecvFrom :: "bool \<Rightarrow> int \<Rightarrow> nat \<Rightarrow> int \<Rightarrow> (bool \<Rightarrow> nat \<Rightarrow> bool \<times> bool) \<Rightarrow> (nat \<Rightarrow> sys) \<Rightarrow> sys option option" where
  "RecvFrom buf_ok fd fuel timeout block recvfrom = session_io buf_ok fd fuel timeout (block True) recvfrom"

definition Send :: "bool \<Rightarrow> int \<Rightarrow> nat \<Rightarrow> int \<Rightarrow> (bool \<Rightarrow> nat \<Rightarrow> bool \<times> bool) \<Rightarrow> (nat \<Rightarrow> sys) \<Rightarrow> sys option option" where
  "Send buf_ok fd fuel timeout block send = session_io buf_ok fd fuel timeout (block False) send"

definition SendTo :: "bool \<Rightarrow> bool \<Rightarrow> int \<Rightarrow> nat \<Rightarrow> int \<Rightarrow> (bool \<Rightarrow> nat \<Rightarrow> bool \<times> bool) \<Rightarrow> (nat \<Rightarrow> sys) \<Rightarrow> sys option option" where
  "SendTo buf_ok dest_ok fd fuel timeout block sendto = session_io (buf_ok \<and> dest_ok) fd fuel timeout (block False) sendto"

definition Session_Read :: "bool \<Rightarrow> int \<Rightarrow> nat \<Rightarrow> int \<Rightarrow> (bool \<Rightarrow> nat \<Rightarrow> bool \<times> bool) \<Rightarrow> (nat \<Rightarrow> sys) \<Rightarrow> sys option option" where
  "Session_Read buf_ok fd fuel timeout block read = session_io buf_ok fd fuel timeout (block True) read"

definition Session_Write :: "bool \<Rightarrow> int \<Rightarrow> nat \<Rightarrow> int \<Rightarrow> (bool \<Rightarrow> nat \<Rightarrow> bool \<times> bool) \<Rightarrow> (nat \<Rightarrow> sys) \<Rightarrow> sys option option" where
  "Session_Write buf_ok fd fuel timeout block write = session_io buf_ok fd fuel timeout (block False) write"

text \<open>\<^verbatim>\<open>Accept\<close> calls the system again whatever \<^verbatim>\<open>Block\<close> answers; a new session has the socket for its descriptor.\<close>

fun accept_loop :: "nat \<Rightarrow> (nat \<Rightarrow> sys) \<Rightarrow> nat \<Rightarrow> sys option" where
  "accept_loop fuel accept4 c =
     (if accept4 c \<noteq> Would_Block then Some (accept4 c) else case fuel of 0 \<Rightarrow> None | Suc fuel \<Rightarrow> accept_loop fuel accept4 (Suc c))"

declare accept_loop.simps [simp del]

definition Session_Socket :: "sys \<Rightarrow> int \<Rightarrow> int \<times> int" where
  "Session_Socket socket fd = (if fd \<noteq> -1 then (-1, fd) else case socket of Done n \<Rightarrow> (int n, int n) | _ \<Rightarrow> (-1, fd))"

definition Accept :: "int \<Rightarrow> nat \<Rightarrow> (nat \<Rightarrow> sys) \<Rightarrow> int option option option" where
  "Accept fd fuel accept4 =
     (if fd = -1 then None
      else Some (map_option (\<lambda>r. case r of Done n \<Rightarrow> Some (int n) | _ \<Rightarrow> None) (accept_loop fuel accept4 0)))"

text \<open>\<^verbatim>\<open>Connect\<close>: \<open>Would_Block\<close> stands for \<^verbatim>\<open>EINPROGRESS\<close>, \<open>so_error\<close> for what the socket says of the connection after the wait.  The second result is the new \<^verbatim>\<open>errno\<close>, if it is set.\<close>

definition Connect :: "int \<Rightarrow> sys \<Rightarrow> int \<Rightarrow> (int \<times> int option) option" where
  "Connect fd connect so_error =
     (if fd = -1 then None
      else Some (case connect of Done n \<Rightarrow> (0, None) | Failed \<Rightarrow> (-1, None) | Would_Block \<Rightarrow> if so_error = 0 then (0, None) else (-1, Some so_error)))"

text \<open>\<open>closes\<close> is the answer of \<^verbatim>\<open>close\<close>; the handler keeps the descriptor.\<close>

definition Session_Close :: "int \<Rightarrow> int \<Rightarrow> unit poller \<Rightarrow> block_run \<Rightarrow> (int \<times> int \<times> unit poller \<times> block_run) option" where
  "Session_Close closes fd p S = (if fd = -1 then None else case Unblock p S of (_, p', S') \<Rightarrow> Some (closes, -1, p', S'))"

section \<open>Loops of a session\<close>

lemma io_loop_retries:
  assumes "\<forall>i. block i = (False, True)" "timeout < 0"
  shows "io_loop n timeout block call b c Would_Block = None"
  using assms(2) by (induction n arbitrary: b) (simp_all add: io_loop.simps assms(1))

text \<open>
  With a timeout a call returns after at most one \<^verbatim>\<open>Block\<close>, though \<^verbatim>\<open>session.h\<close> has it try while there is time left; without one, a call outside a
  coroutine, where \<^verbatim>\<open>Block\<close> refuses at once, goes round without end.
\<close>

lemma session_io_with_timeout:
  assumes "0 \<le> timeout" "fd \<noteq> -1"
  shows "session_io True fd (Suc n) timeout block call
    = Some (Some (if timeout \<noteq> 0 \<and> call 0 = Would_Block \<and> fst (block 0) then call 1 else call 0))"
  using assms by (cases "block 0") (auto simp: session_io_def io_loop.simps split: bool.split)

lemma session_io_outside_coroutine:
  assumes "timeout < 0" "fd \<noteq> -1" "call 0 = Would_Block" "\<forall>i. block i = (False, True)"
  shows "session_io True fd fuel timeout block call = Some None"
  using assms io_loop_retries [of block timeout fuel call 0 1] by (simp add: session_io_def)

lemma Accept_first_answer:
  assumes "\<forall>i<n. accept4 i = Would_Block" "accept4 n \<noteq> Would_Block" "fd \<noteq> -1" "n \<le> fuel"
  shows "Accept fd fuel accept4 = Some (Some (case accept4 n of Done m \<Rightarrow> Some (int m) | _ \<Rightarrow> None))"
proof -
  have "accept_loop fuel accept4 c = Some (accept4 n)" if "c \<le> n" "n - c \<le> fuel" for c
    using that
  proof (induction fuel arbitrary: c)
    case 0
    then show ?case using assms(2) by (simp add: accept_loop.simps)
  next
    case (Suc fuel)
    show ?case
    proof (cases "c = n")
      case False
      then have "accept4 c = Would_Block" using assms(1) Suc.prems by simp
      then show ?thesis using Suc.IH [of "Suc c"] Suc.prems False by (subst accept_loop.simps) simp
    qed (use assms(2) in \<open>simp add: accept_loop.simps\<close>)
  qed
  from this [of 0] show ?thesis using assms(3,4) by (simp add: Accept_def)
qed

end
