(* ===== verification/Record_Windows.thy ===== *)
theory Record_Windows
  imports Record_Roundtrip
begin

text \<open>
  \<^verbatim>\<open>RecordReader::ReadMessage\<close> with a begin and an end time, which skips chunks and stops by the times in their headers: it gives the messages that are not before
  the begin, one by one, until the next one is after the end.  The laws are those of the locale \<open>record_source\<close>, which the viewer of
  \<open>Record_Viewer\<close> relies on.
\<close>

section \<open>Where a reader stands\<close>

text \<open>Before the sections \<open>ss\<close> and the index in a file, or behind the index.\<close>

definition rr_before :: "serializer \<Rightarrow> u8 list \<Rightarrow> record_reader \<Rightarrow> section_msg list \<Rightarrow> single_index list \<Rightarrow> bool" where
  "rr_before ser content r ss idx \<longleftrightarrow> rr_is_valid r \<and> \<not> rr_reach_end r \<and> length content < 2 ^ 31 \<and>
     (\<exists>pre rest. content = pre @ body_bytes ser (ss @ [SIndex idx]) @ rest \<and> fr_at (rr_file_reader r) pre (body_bytes ser (ss @ [SIndex idx]) @ rest))"

definition rr_stands :: "serializer \<Rightarrow> u8 list \<Rightarrow> record_reader \<Rightarrow> section_msg list \<Rightarrow> single_index list \<Rightarrow> bool" where
  "rr_stands ser content r ss idx \<longleftrightarrow> rr_before ser content r ss idx \<or>
     rr_is_valid r \<and> rr_reach_end r \<and> f_bytes (fr_file (rr_file_reader r)) = content \<and> ss = []"

lemma rr_before_message_index [simp]: "rr_before ser content (r\<lparr>rr_message_index := i\<rparr>) ss idx = rr_before ser content r ss idx"
  "rr_before ser content (r\<lparr>rr_chunk := ms\<rparr>) ss idx = rr_before ser content r ss idx"
  by (simp_all add: rr_before_def)

lemma rr_stands_message_index [simp]: "rr_stands ser content (r\<lparr>rr_message_index := i\<rparr>) ss idx = rr_stands ser content r ss idx"
  by (simp add: rr_stands_def)

text \<open>The next section is read or skipped.\<close>

lemma rr_before_section:
  assumes "protobuf_ok ser parse" "rr_before ser content r (m # ss) idx"
  obtains f1 f2 f3 where "ReadSection (rr_file_reader r) = (Some (section_code (section_of m), int (length (ser m))), f1)"
    "ReadSection_msg ser parse (section_of m) (int (length (ser m))) f1 = (Some m, f2)" "rr_before ser content (r\<lparr>rr_file_reader := f2\<rparr>) ss idx"
    "SkipSection (int (length (ser m))) f1 = (True, f3)" "rr_before ser content (r\<lparr>rr_file_reader := f3\<rparr>) ss idx"
proof -
  let ?B = "body_bytes ser (ss @ [SIndex idx])" and ?s = "section_bytes (section_of m) (length (ser m))"
  obtain pre rest where c: "content = pre @ sec_bytes ser m @ ?B @ rest" and a: "fr_at (rr_file_reader r) pre (sec_bytes ser m @ ?B @ rest)"
    using assms(2) by (auto simp: rr_before_def)
  have len: "length content < 2 ^ 31" and v: "rr_is_valid r" "\<not> rr_reach_end r" using assms(2) by (simp_all add: rr_before_def)
  then have n: "length (ser m) < 2 ^ 31" by (simp add: c sec_bytes_def)
  obtain f1 where f1: "ReadSection (rr_file_reader r) = (Some (section_code (section_of m), int (length (ser m))), f1)"
    "fr_at f1 (pre @ ?s) (ser m @ ?B @ rest)" using ReadSection_at [OF a n] by metis
  obtain f2 where f2: "ReadSection_msg ser parse (section_of m) (int (length (ser m))) f1 = (Some m, f2)" "fr_at f2 ((pre @ ?s) @ ser m) (?B @ rest)"
    using ReadSection_msg_at [OF assms(1) f1(2) n] by metis
  have "length ((pre @ ?s) @ ser m) < 2 ^ 31" using len by (simp add: c sec_bytes_def)
  then obtain f3 where f3: "SkipSection (int (length (ser m))) f1 = (True, f3)" "fr_at f3 ((pre @ ?s) @ ser m) (?B @ rest)"
    using SkipSection_at [OF f1(2)] by metis
  have "rr_before ser content (r\<lparr>rr_file_reader := f\<rparr>) ss idx" if "fr_at f ((pre @ ?s) @ ser m) (?B @ rest)" for f
    unfolding rr_before_def using that v len c by (intro conjI exI [of _ "(pre @ ?s) @ ser m"] exI [of _ rest]) (simp_all add: sec_bytes_def)
  then show thesis using that f1(1) f2 f3 by blast
qed

lemma rr_before_index:
  assumes "rr_before ser content r [] idx"
  obtains r' where "next_section ser parse bt et skip r = (Inl skip, r')" "rr_stands ser content r' [] idx" "rr_reach_end r'"
    "rr_header r' = rr_header r" "rr_chunk r' = rr_chunk r" "rr_message_index r' = rr_message_index r"
proof -
  obtain pre rest where c: "content = pre @ sec_bytes ser (SIndex idx) @ rest" and a: "fr_at (rr_file_reader r) pre (sec_bytes ser (SIndex idx) @ rest)"
    and len: "length content < 2 ^ 31" "rr_is_valid r"
    using assms by (auto simp: rr_before_def)
  then have n: "length (ser (SIndex idx)) < 2 ^ 31" by (simp add: sec_bytes_def)
  obtain f1 where f1: "ReadSection (rr_file_reader r) = (Some (section_code SECTION_INDEX, int (length (ser (SIndex idx)))), f1)"
    "fr_at f1 (pre @ section_bytes SECTION_INDEX (length (ser (SIndex idx)))) (ser (SIndex idx) @ rest)"
    using ReadSection_at [OF a n] by auto
  have "length ((pre @ section_bytes SECTION_INDEX (length (ser (SIndex idx)))) @ ser (SIndex idx)) < 2 ^ 31" using len by (simp add: c sec_bytes_def)
  then obtain f2 where f2: "SkipSection (int (length (ser (SIndex idx)))) f1 = (True, f2)"
    "fr_at f2 ((pre @ section_bytes SECTION_INDEX (length (ser (SIndex idx)))) @ ser (SIndex idx)) rest"
    using SkipSection_at [OF f1(2)] by metis
  let ?r = "r\<lparr>rr_file_reader := f2, rr_reach_end := True\<rparr>"
  have "next_section ser parse bt et skip r = (Inl skip, ?r)" by (simp add: next_section_def f1(1) f2(1))
  moreover have "rr_stands ser content ?r [] idx" using f2(2) c len(2) by (simp add: rr_stands_def fr_at_def sec_bytes_def)
  ultimately show thesis using that [of ?r] by simp
qed

section \<open>The next chunk of a window\<close>

fun next_chunk :: "u64 \<Rightarrow> u64 \<Rightarrow> bool \<Rightarrow> section_msg list \<Rightarrow> single_message list option \<times> section_msg list" where
  "next_chunk bt et skip [] = (None, [])"
| "next_chunk bt et skip (SChannel c # ss) = next_chunk bt et skip ss"
| "next_chunk bt et skip (SChunkHeader ck # ss) = (if ck_begin_time ck > et then (None, ss) else next_chunk bt et (skip \<or> ck_end_time ck < bt) ss)"
| "next_chunk bt et skip (SChunkBody ms # ss) = (if skip then next_chunk bt et False ss else (Some ms, ss))"
| "next_chunk bt et skip (s # ss) = (None, ss)"

fun is_body_section :: "section_msg \<Rightarrow> bool" where
  "is_body_section (SChannel c) = True"
| "is_body_section (SChunkHeader ck) = True"
| "is_body_section (SChunkBody ms) = True"
| "is_body_section s = False"

lemma ReadNextChunk_sections:
  assumes "protobuf_ok ser parse" "rr_stands ser content r ss idx" "list_all is_body_section ss"
  shows "\<exists>r'. ReadNextChunk ser parse bt et skip r = Some (fst (next_chunk bt et skip ss) \<noteq> None, r') \<and>
    rr_stands ser content r' (snd (next_chunk bt et skip ss)) idx \<and> rr_header r' = rr_header r \<and> rr_message_index r' = rr_message_index r \<and>
    rr_chunk r' = (case fst (next_chunk bt et skip ss) of None \<Rightarrow> rr_chunk r | Some ms \<Rightarrow> ms)"
proof (cases "rr_reach_end r")
  case True
  then have "ss = []" using assms(2) by (auto simp: rr_stands_def rr_before_def)
  then show ?thesis using True assms(2) ReadNextChunk_step(1) by force
next
  case False
  then have "rr_before ser content r ss idx" using assms(2) by (simp add: rr_stands_def)
  then show ?thesis using assms(3)
  proof (induction ss arbitrary: r skip)
    case Nil
    obtain r' where r': "next_section ser parse bt et skip r = (Inl skip, r')" "rr_stands ser content r' [] idx" "rr_reach_end r'"
      "rr_header r' = rr_header r" "rr_chunk r' = rr_chunk r" "rr_message_index r' = rr_message_index r" using rr_before_index [OF Nil(1)] by metis
    have "\<not> rr_reach_end r" using Nil by (simp add: rr_before_def)
    then have "ReadNextChunk ser parse bt et skip r = Some (False, r')" using ReadNextChunk_step(1) [OF r'(3)] ReadNextChunk_step(2) r'(1) by metis
    then show ?case using r' by simp
  next
    case (Cons m ss)
    have ne: "\<not> rr_reach_end r" using Cons.prems by (simp add: rr_before_def)
    obtain f1 f2 f3 where f: "ReadSection (rr_file_reader r) = (Some (section_code (section_of m), int (length (ser m))), f1)"
      "ReadSection_msg ser parse (section_of m) (int (length (ser m))) f1 = (Some m, f2)" "rr_before ser content (r\<lparr>rr_file_reader := f2\<rparr>) ss idx"
      "SkipSection (int (length (ser m))) f1 = (True, f3)" "rr_before ser content (r\<lparr>rr_file_reader := f3\<rparr>) ss idx"
      using rr_before_section [OF assms(1) Cons.prems(1)] by metis
    note go_on = ReadNextChunk_step(2) [OF ne, of ser parse bt et skip]
    note stop = ReadNextChunk_step(3) [OF ne, of ser parse bt et skip]
    have bs: "list_all is_body_section ss" using Cons.prems(2) by simp
    show ?case
    proof (cases m)
      case (SChannel c)
      then have "next_section ser parse bt et skip r = (Inl skip, r\<lparr>rr_file_reader := f2\<rparr>)" using f(1,2) by (simp add: next_section_def)
      then show ?thesis using Cons.IH [OF f(3) bs, of skip] go_on SChannel by (simp cong: option.case_cong)
    next
      case (SChunkHeader ck)
      show ?thesis
      proof (cases "ck_begin_time ck > et")
        case True
        then have "next_section ser parse bt et skip r = (Inr False, r\<lparr>rr_file_reader := f2\<rparr>)" using f(1,2) SChunkHeader by (simp add: next_section_def)
        then have "ReadNextChunk ser parse bt et skip r = Some (False, r\<lparr>rr_file_reader := f2\<rparr>)" by (rule stop)
        then show ?thesis using f(3) SChunkHeader True by (simp add: rr_stands_def)
      next
        case le: False
        then have "next_section ser parse bt et skip r = (Inl (skip \<or> ck_end_time ck < bt), r\<lparr>rr_file_reader := f2\<rparr>)"
          using f(1,2) SChunkHeader by (simp add: next_section_def)
        then show ?thesis using Cons.IH [OF f(3) bs, of "skip \<or> ck_end_time ck < bt"] go_on SChunkHeader le by (simp cong: option.case_cong)
      qed
    next
      case (SChunkBody ms)
      show ?thesis
      proof (cases skip)
        case True
        then have "next_section ser parse bt et skip r = (Inl False, r\<lparr>rr_file_reader := f3\<rparr>)" using f(1,4) SChunkBody by (simp add: next_section_def)
        then have "ReadNextChunk ser parse bt et skip r = ReadNextChunk ser parse bt et False (r\<lparr>rr_file_reader := f3\<rparr>)" by (rule go_on)
        then show ?thesis using Cons.IH [OF f(5) bs, of False] SChunkBody True by (simp cong: option.case_cong)
      next
        case no: False
        then have "next_section ser parse bt et skip r = (Inr True, r\<lparr>rr_file_reader := f2, rr_chunk := ms\<rparr>)" using f(1,2) SChunkBody by (simp add: next_section_def)
        then have "ReadNextChunk ser parse bt et skip r = Some (True, r\<lparr>rr_file_reader := f2, rr_chunk := ms\<rparr>)" by (rule stop)
        then show ?thesis using f(3) SChunkBody no by (simp add: rr_stands_def)
      qed
    qed (use Cons.prems(2) in simp_all)
  qed
qed

text \<open>Every chunk has messages, and its header covers their times; the header of the first may have been read already.\<close>

fun covered :: "section_msg list \<Rightarrow> bool" where
  "covered [] \<longleftrightarrow> True"
| "covered (SChannel c # ss) \<longleftrightarrow> covered ss"
| "covered (SChunkBody ms # ss) \<longleftrightarrow> covered ss"
| "covered (SChunkHeader ck # SChunkBody ms # ss) \<longleftrightarrow> ms \<noteq> [] \<and> (\<forall>m\<in>set ms. ck_begin_time ck \<le> sm_time m \<and> sm_time m \<le> ck_end_time ck) \<and> covered ss"
| "covered (s # ss) \<longleftrightarrow> False"

lemma covered_sections: "covered ss \<Longrightarrow> list_all is_body_section ss"
  by (induction ss rule: covered.induct) auto

definition sec_msgs :: "section_msg list \<Rightarrow> single_message list" where
  "sec_msgs ss = concat (map (\<lambda>s. case s of SChunkBody ms \<Rightarrow> ms | _ \<Rightarrow> []) ss)"

abbreviation from_time :: "u64 \<Rightarrow> single_message list \<Rightarrow> single_message list" where
  "from_time bt \<equiv> dropWhile (\<lambda>m. sm_time m < bt)"

lemma from_time_skip: "\<forall>m\<in>set xs. sm_time m < bt \<Longrightarrow> from_time bt (xs @ ys) = from_time bt ys"
  by (simp add: dropWhile_append2)

lemma from_time_append:
  "from_time bt xs = m # rest \<Longrightarrow> from_time bt (xs @ ys) = m # rest @ ys"
  "from_time bt xs = [] \<Longrightarrow> from_time bt (xs @ ys) = from_time bt ys"
  by (induction xs) (auto split: if_splits)

lemma next_chunk_msgs:
  assumes "covered ss" "bt \<le> et"
  shows "covered (snd (next_chunk bt et False ss)) \<and> set (sec_msgs (snd (next_chunk bt et False ss))) \<subseteq> set (sec_msgs ss) \<and>
    (case fst (next_chunk bt et False ss) of
       Some ms \<Rightarrow> from_time bt (sec_msgs ss) = from_time bt (ms @ sec_msgs (snd (next_chunk bt et False ss))) \<and> length (snd (next_chunk bt et False ss)) < length ss \<and> set ms \<subseteq> set (sec_msgs ss)
     | None \<Rightarrow> from_time bt (sec_msgs ss) = from_time bt (sec_msgs (snd (next_chunk bt et False ss))) \<and>
         (case from_time bt (sec_msgs ss) of [] \<Rightarrow> True | m # _ \<Rightarrow> et < sm_time m))"
  using assms(1)
proof (induction ss rule: covered.induct)
  case (4 ck ms ss)
  show ?case
  proof (cases "et < ck_begin_time ck")
    case True
    then obtain m ms' where ms: "ms = m # ms'" "et < sm_time m" using 4(2) by (cases ms) auto
    then have "\<not> sm_time m < bt" using assms(2) by simp
    then show ?thesis using True 4(2) ms by (simp add: sec_msgs_def)
  next
    case le: False
    show ?thesis
    proof (cases "ck_end_time ck < bt")
      case True
      then have "\<forall>m\<in>set ms. sm_time m < bt" using 4(2) by auto
      then have "from_time bt (sec_msgs (SChunkHeader ck # SChunkBody ms # ss)) = from_time bt (sec_msgs ss)" by (simp add: sec_msgs_def from_time_skip)
      moreover have "set (sec_msgs ss) \<subseteq> set (sec_msgs (SChunkHeader ck # SChunkBody ms # ss))" by (simp add: sec_msgs_def)
      ultimately show ?thesis using 4 le True by (auto split: option.splits)
    next
      case False
      then show ?thesis using 4(2) le by (simp add: sec_msgs_def)
    qed
  qed
next
  case (2 c ss)
  then show ?case by (auto simp: sec_msgs_def split: option.splits)
qed (simp_all add: sec_msgs_def)

lemma scan_chunk_spec:
  assumes "bt \<le> et"
  shows "case from_time bt (drop i ms) of
     [] \<Rightarrow> scan_chunk bt et ms i = (max i (length ms), None)
   | m # rest \<Rightarrow> if et < sm_time m then \<exists>j. scan_chunk bt et ms i = (j, Some None) \<and> drop j ms = m # rest
                else \<exists>j. scan_chunk bt et ms i = (j, Some (Some m)) \<and> drop j ms = rest"
  using assms
proof (induction bt et ms i rule: scan_chunk.induct)
  case (1 bt et ms i)
  show ?case
  proof (cases "i < length ms")
    case False
    then show ?thesis by (simp add: scan_chunk.simps [of bt et ms i] max_def)
  next
    case True
    then have d: "drop i ms = ms ! i # drop (i + 1) ms" by (simp add: Cons_nth_drop_Suc)
    show ?thesis
    proof (cases "sm_time (ms ! i) < bt")
      case early: True
      then have "\<not> et < sm_time (ms ! i)" using 1(2) by simp
      then have "scan_chunk bt et ms i = scan_chunk bt et ms (i + 1)" "max i (length ms) = max (i + 1) (length ms)"
        "from_time bt (drop i ms) = from_time bt (drop (i + 1) ms)"
        using early True by (simp_all add: scan_chunk.simps [of bt et ms i] d max_def)
      then show ?thesis using 1(1) [OF True \<open>\<not> et < sm_time (ms ! i)\<close> early 1(2)] by (simp only:)
    next
      case False
      then show ?thesis using True by (simp add: scan_chunk.simps [of bt et ms i] d)
    qed
  qed
qed

section \<open>Reading within a window\<close>

definition in_header :: "rec_header \<Rightarrow> single_message list \<Rightarrow> bool" where
  "in_header h ms \<longleftrightarrow> (\<forall>m\<in>set ms. hd_begin_time h \<le> sm_time m \<and> sm_time m \<le> hd_end_time h)"

definition unread :: "serializer \<Rightarrow> u8 list \<Rightarrow> record_reader \<Rightarrow> single_message list \<Rightarrow> bool" where
  "unread ser content r ms \<longleftrightarrow> (\<exists>ss idx. rr_stands ser content r ss idx \<and> covered ss \<and> ms = drop (rr_message_index r) (rr_chunk r) @ sec_msgs ss)"

lemma unread_valid: "unread ser content r ms \<Longrightarrow> rr_is_valid r"
  by (auto simp: unread_def rr_stands_def rr_before_def)

text \<open>What one call gives, and what is still to be read after it.\<close>

definition window_step :: "(single_message list \<Rightarrow> 'r \<Rightarrow> bool) \<Rightarrow> u64 \<Rightarrow> u64 \<Rightarrow> single_message list \<Rightarrow> (single_message option \<times> 'r) option \<Rightarrow> bool" where
  "window_step holds bt et ms res \<longleftrightarrow>
     (\<exists>m rest r. from_time bt ms = m # rest \<and> sm_time m \<le> et \<and> res = Some (Some m, r) \<and> holds rest r) \<or>
     (\<exists>r ms'. res = Some (None, r) \<and> holds ms' r \<and> from_time bt ms' = from_time bt ms \<and> set ms' \<subseteq> set ms \<and> (\<forall>m rest. from_time bt ms = m # rest \<longrightarrow> et < sm_time m))"

lemma window_step_give: "from_time bt ms = m # rest \<Longrightarrow> sm_time m \<le> et \<Longrightarrow> holds rest r \<Longrightarrow> window_step holds bt et ms (Some (Some m, r))"
  by (auto simp: window_step_def)

lemma window_step_stop:
  "holds ms' r \<Longrightarrow> from_time bt ms' = from_time bt ms \<Longrightarrow> set ms' \<subseteq> set ms \<Longrightarrow> (\<And>m rest. from_time bt ms = m # rest \<Longrightarrow> et < sm_time m)
   \<Longrightarrow> window_step holds bt et ms (Some (None, r))"
  by (auto simp: window_step_def)

lemma window_step_mono:
  assumes "window_step holds bt et ms res" "from_time bt ms' = from_time bt ms" "set ms \<subseteq> set ms'"
  shows "window_step holds bt et ms' res"
  using assms(1) unfolding window_step_def [of _ _ _ ms]
proof (elim disjE exE conjE)
  fix m rest r
  assume "from_time bt ms = m # rest" "sm_time m \<le> et" "res = Some (Some m, r)" "holds rest r"
  then show ?thesis using window_step_give [of bt ms' m rest et holds r] assms(2) by simp
next
  fix r ms''
  assume "res = Some (None, r)" "holds ms'' r" "from_time bt ms'' = from_time bt ms" "set ms'' \<subseteq> set ms" "\<forall>m rest. from_time bt ms = m # rest \<longrightarrow> et < sm_time m"
  then show ?thesis using window_step_stop [of holds ms'' r bt ms' et] assms(2,3) by auto
qed

lemma ReadMessage_sections:
  assumes "protobuf_ok ser parse" "bt \<le> et" "rr_stands ser content r ss idx" "covered ss"
    "\<not> (bt > hd_end_time (rr_header r) \<or> et < hd_begin_time (rr_header r))"
  shows "window_step (\<lambda>ms r'. unread ser content r' ms \<and> rr_header r' = rr_header r) bt et (drop (rr_message_index r) (rr_chunk r) @ sec_msgs ss)
    (ReadMessage ser parse bt et r)"
  using assms(3-5)
proof (induction ss arbitrary: r rule: length_induct)
  case (1 ss)
  let ?i = "rr_message_index r" and ?H = "\<lambda>ms r'. unread ser content r' ms \<and> rr_header r' = rr_header r"
  have v: "rr_is_valid r" using 1(2) by (auto simp: rr_stands_def rr_before_def)
  have moved: "unread ser content (r\<lparr>rr_message_index := j\<rparr>) (drop j (rr_chunk r) @ sec_msgs ss)" for j
    unfolding unread_def using 1(2,3) by (intro exI [of _ ss] exI [of _ idx]) simp
  note scan = scan_chunk_spec [OF assms(2), where i = ?i and ms = "rr_chunk r"]
  show ?case
  proof (cases "from_time bt (drop ?i (rr_chunk r))")
    case (Cons m rest)
    have ft: "from_time bt (drop ?i (rr_chunk r) @ sec_msgs ss) = m # rest @ sec_msgs ss" by (rule from_time_append(1) [OF Cons])
    show ?thesis
    proof (cases "et < sm_time m")
      case True
      then obtain j where j: "scan_chunk bt et (rr_chunk r) ?i = (j, Some None)" "drop j (rr_chunk r) = m # rest" using scan Cons by auto
      then have "ReadMessage ser parse bt et r = Some (None, r\<lparr>rr_message_index := j\<rparr>)" using v 1(4) by (simp add: ReadMessage.simps [of _ _ _ _ r])
      moreover have "from_time bt (m # rest @ sec_msgs ss) = m # rest @ sec_msgs ss" using Cons by (simp add: dropWhile_eq_Cons_conv)
      moreover have "set (m # rest @ sec_msgs ss) \<subseteq> set (drop ?i (rr_chunk r) @ sec_msgs ss)" using ft set_dropWhileD by (metis subsetI)
      ultimately show ?thesis using moved [of j] j(2) True ft by (simp del: from_time_append) (intro window_step_stop [of _ "m # rest @ sec_msgs ss"]; simp)
    next
      case False
      then obtain j where j: "scan_chunk bt et (rr_chunk r) ?i = (j, Some (Some m))" "drop j (rr_chunk r) = rest" using scan Cons by auto
      then have "ReadMessage ser parse bt et r = Some (Some m, r\<lparr>rr_message_index := j\<rparr>)" using v 1(4) by (simp add: ReadMessage.simps [of _ _ _ _ r])
      then show ?thesis using window_step_give [of bt _ m "rest @ sec_msgs ss" et ?H, OF ft] moved [of j] j(2) False by simp
    qed
  next
    case Nil
    then have all_before: "from_time bt (drop ?i (rr_chunk r) @ sec_msgs ss) = from_time bt (sec_msgs ss)" by (rule from_time_append(2))
    let ?r = "r\<lparr>rr_message_index := max ?i (length (rr_chunk r))\<rparr>"
    obtain r' where r': "ReadNextChunk ser parse bt et False ?r = Some (fst (next_chunk bt et False ss) \<noteq> None, r')"
      "rr_stands ser content r' (snd (next_chunk bt et False ss)) idx" "rr_header r' = rr_header r" "rr_message_index r' = max ?i (length (rr_chunk r))"
      "rr_chunk r' = (case fst (next_chunk bt et False ss) of None \<Rightarrow> rr_chunk r | Some ms \<Rightarrow> ms)"
      using ReadNextChunk_sections [OF assms(1), of content ?r ss idx bt et False] 1(2) covered_sections [OF 1(3)] by (auto cong: option.case_cong)
    have step: "ReadMessage ser parse bt et r = (if fst (next_chunk bt et False ss) \<noteq> None then ReadMessage ser parse bt et (r'\<lparr>rr_message_index := 0\<rparr>) else Some (None, r'))"
      using scan v 1(4) Nil r'(1) by (simp add: ReadMessage.simps [of _ _ _ _ r])
    note nc = next_chunk_msgs [OF 1(3) assms(2)]
    show ?thesis
    proof (cases "fst (next_chunk bt et False ss)")
      case None
      have "unread ser content r' (sec_msgs (snd (next_chunk bt et False ss)))"
        unfolding unread_def using r'(2,4,5) nc None by (intro exI [of _ "snd (next_chunk bt et False ss)"] exI [of _ idx]) simp
      moreover have "et < sm_time m" if "from_time bt (sec_msgs ss) = m # rest" for m rest using nc None that by simp
      moreover have "set (sec_msgs (snd (next_chunk bt et False ss))) \<subseteq> set (drop ?i (rr_chunk r) @ sec_msgs ss)" using nc by auto
      moreover have "from_time bt (sec_msgs (snd (next_chunk bt et False ss))) = from_time bt (drop ?i (rr_chunk r) @ sec_msgs ss)" using nc None all_before by simp
      ultimately show ?thesis using r'(3) all_before None step window_step_stop [where ms' = "sec_msgs (snd (next_chunk bt et False ss))" and ms = "drop ?i (rr_chunk r) @ sec_msgs ss" and holds = ?H and r = r' and et = et and bt = bt] by simp
    next
      case (Some ms)
      let ?s = "snd (next_chunk bt et False ss)"
      have c: "covered ?s" "from_time bt (sec_msgs ss) = from_time bt (ms @ sec_msgs ?s)" "length ?s < length ss" using nc Some by simp_all
      have "window_step ?H bt et (ms @ sec_msgs ?s) (ReadMessage ser parse bt et (r'\<lparr>rr_message_index := 0\<rparr>))"
        using 1(1) [rule_format, OF c(3), of "r'\<lparr>rr_message_index := 0\<rparr>"] r'(2,3,5) c(1) 1(4) Some by simp
      moreover have "set (ms @ sec_msgs ?s) \<subseteq> set (drop ?i (rr_chunk r) @ sec_msgs ss)" using nc Some by auto
      ultimately show ?thesis using window_step_mono [where ms = "ms @ sec_msgs ?s" and ms' = "drop ?i (rr_chunk r) @ sec_msgs ss"] all_before c(2) Some step by simp
    qed
  qed
qed

section \<open>Sources of messages\<close>

text \<open>What the viewer relies on: \<open>holds all ms r\<close> says that \<open>r\<close> is a reader of the messages \<open>all\<close> that has \<open>ms\<close> still to read.\<close>

locale record_source =
  fixes read_message :: "u64 \<Rightarrow> u64 \<Rightarrow> 'r \<Rightarrow> (single_message option \<times> 'r) option"
    and rewind :: "'r \<Rightarrow> 'r"
    and times :: "'r \<Rightarrow> u64 \<times> u64"
    and holds :: "single_message list \<Rightarrow> single_message list \<Rightarrow> 'r \<Rightarrow> bool"
  assumes read: "holds all ms r \<Longrightarrow> bt \<le> et \<Longrightarrow> window_step (\<lambda>ms' r'. holds all ms' r' \<and> times r' = times r) bt et ms (read_message bt et r)"
    and rewound: "holds all ms r \<Longrightarrow> holds all all (rewind r) \<and> times (rewind r) = times r"
    and within: "holds all ms r \<Longrightarrow> m \<in> set all \<Longrightarrow> fst (times r) \<le> sm_time m \<and> sm_time m \<le> snd (times r)"

definition file_times :: "record_reader \<Rightarrow> u64 \<times> u64" where "file_times r = (hd_begin_time (rr_header r), hd_end_time (rr_header r))"

definition file_holds :: "serializer \<Rightarrow> single_message list \<Rightarrow> single_message list \<Rightarrow> record_reader \<Rightarrow> bool" where
  "file_holds ser all ms r \<longleftrightarrow>
     (\<exists>content hdr its idx rest. content = hdr @ body_bytes ser (secs its @ [SIndex idx]) @ rest \<and> length hdr = 16 + HEADER_LENGTH \<and> length content < 2 ^ 31
        \<and> covered (secs its) \<and> all = msgs its \<and> in_header (rr_header r) all \<and> set ms \<subseteq> set all \<and> unread ser content r ms)"

lemma sec_msgs_secs: "sec_msgs (secs its) = msgs its"
proof (induction its)
  case (Cons it its)
  then show ?case by (cases it) (simp_all add: sec_msgs_def secs_def msgs_def)
qed (simp add: sec_msgs_def)

lemma from_time_all_before: "(\<And>m. m \<in> set ms \<Longrightarrow> sm_time m < bt) \<Longrightarrow> from_time bt ms = []"
  by simp

lemma from_time_mem: "from_time bt ms = m # rest \<Longrightarrow> set (m # rest) \<subseteq> set ms"
  by (metis set_dropWhileD subsetI)

lemma file_read:
  assumes "protobuf_ok ser parse" "file_holds ser all ms r" "bt \<le> et"
  shows "window_step (\<lambda>ms' r'. file_holds ser all ms' r' \<and> file_times r' = file_times r) bt et ms (ReadMessage ser parse bt et r)"
proof -
  obtain content hdr its idx rest where c: "content = hdr @ body_bytes ser (secs its @ [SIndex idx]) @ rest" "length hdr = 16 + HEADER_LENGTH" "length content < 2 ^ 31"
    "covered (secs its)" "all = msgs its" "in_header (rr_header r) all" "set ms \<subseteq> set all" "unread ser content r ms"
    using assms(2) unfolding file_holds_def by blast
  have lift: "file_holds ser all ms' r'" if "unread ser content r' ms' \<and> rr_header r' = rr_header r" "set ms' \<subseteq> set all" for ms' r'
    unfolding file_holds_def using that c by (intro exI [of _ content] exI [of _ hdr] exI [of _ its] exI [of _ idx] exI [of _ rest]) simp
  have times: "sm_time m \<le> hd_end_time (rr_header r)" "hd_begin_time (rr_header r) \<le> sm_time m" if "m \<in> set ms" for m
    using that c(6,7) by (auto simp: in_header_def)
  show ?thesis
  proof (cases "bt > hd_end_time (rr_header r) \<or> et < hd_begin_time (rr_header r)")
    case True
    then have "ReadMessage ser parse bt et r = Some (None, r)" using unread_valid [OF c(8)] by (simp add: ReadMessage.simps)
    moreover have "et < sm_time m" if "from_time bt ms = m # xs" for m xs
    proof -
      have "m \<in> set ms" "\<not> sm_time m < bt" using from_time_mem [OF that] that by (auto simp: dropWhile_eq_Cons_conv)
      then show ?thesis using True times [of m] by auto
    qed
    ultimately show ?thesis using assms(2) window_step_stop [where ms' = ms and ms = ms and r = r] by simp
  next
    case False
    obtain ss idx' where u: "rr_stands ser content r ss idx'" "covered ss" "ms = drop (rr_message_index r) (rr_chunk r) @ sec_msgs ss"
      using c(8) unfolding unread_def by blast
    from ReadMessage_sections [OF assms(1,3) u(1,2) False, unfolded u(3) [symmetric] window_step_def] show ?thesis
    proof (elim disjE exE conjE)
      fix m xs r'
      assume a: "from_time bt ms = m # xs" "sm_time m \<le> et" "ReadMessage ser parse bt et r = Some (Some m, r')" "unread ser content r' xs" "rr_header r' = rr_header r"
      have "file_holds ser all xs r'" using lift a(4,5) from_time_mem [OF a(1)] c(7) by auto
      then show ?thesis unfolding window_step_def using a by (auto simp: file_times_def)
    next
      fix r' ms'
      assume a: "ReadMessage ser parse bt et r = Some (None, r')" "unread ser content r' ms'" "rr_header r' = rr_header r" "from_time bt ms' = from_time bt ms"
        "set ms' \<subseteq> set ms" "\<forall>m rest. from_time bt ms = m # rest \<longrightarrow> et < sm_time m"
      have "file_holds ser all ms' r'" using lift a(2,3,5) c(7) by blast
      then show ?thesis unfolding window_step_def using a by (intro disjI2) (auto simp: file_times_def)
    qed
  qed
qed

lemma file_rewound:
  assumes "file_holds ser all ms r"
  shows "file_holds ser all all (rr_Reset r) \<and> file_times (rr_Reset r) = file_times r"
proof -
  obtain content hdr its idx rest where c: "content = hdr @ body_bytes ser (secs its @ [SIndex idx]) @ rest" "length hdr = 16 + HEADER_LENGTH" "length content < 2 ^ 31"
    "covered (secs its)" "all = msgs its" "in_header (rr_header r) all" "set ms \<subseteq> set all" "unread ser content r ms"
    using assms unfolding file_holds_def by blast
  have b: "f_bytes (fr_file (rr_file_reader r)) = content" "rr_is_valid r"
    using c(8) by (auto simp: unread_def rr_stands_def rr_before_def fr_at_def)
  obtain f where f: "fr_Reset (rr_file_reader r) = (True, f)" "fr_at f hdr (body_bytes ser (secs its @ [SIndex idx]) @ rest)"
    using fr_Reset_at [of "rr_file_reader r" hdr "body_bytes ser (secs its @ [SIndex idx]) @ rest"] b(1) c(1,2) by auto
  have "rr_before ser content (rr_Reset r) (secs its) idx" unfolding rr_before_def using b(2) c(1,3) f by (auto simp: rr_Reset_def)
  then have "unread ser content (rr_Reset r) all" unfolding unread_def rr_stands_def using c(4,5) by (intro exI [of _ "secs its"] exI [of _ idx]) (simp add: rr_Reset_def sec_msgs_secs)
  then have "file_holds ser all all (rr_Reset r)" unfolding file_holds_def
    using c by (intro exI [of _ content] exI [of _ hdr] exI [of _ its] exI [of _ idx] exI [of _ rest]) (simp add: rr_Reset_def)
  then show ?thesis by (simp add: file_times_def rr_Reset_def)
qed

lemma file_within: "file_holds ser all ms r \<Longrightarrow> m \<in> set all \<Longrightarrow> fst (file_times r) \<le> sm_time m \<and> sm_time m \<le> snd (file_times r)"
  unfolding file_holds_def by (auto simp: in_header_def file_times_def)

lemma file_source:
  assumes "protobuf_ok ser parse"
  shows "record_source (ReadMessage ser parse) rr_Reset file_times (file_holds ser)"
  by unfold_locales (rule file_read [OF assms] file_rewound file_within, assumption+)+

text \<open>For every serialiser and parser that are as protobuf documents them, the reader of record files is a source.\<close>

locale protobuf_files =
  fixes ser :: serializer and parse :: parser
  assumes protobuf: "protobuf_ok ser parse"

sublocale protobuf_files \<subseteq> files: record_source "ReadMessage ser parse" rr_Reset file_times "file_holds ser"
  by (rule file_source [OF protobuf])

interpretation plain_files: protobuf_files plain_ser plain_parse
  by unfold_locales (simp add: protobuf_ok_def plain_parse_ser length_enc_header HEADER_LENGTH_def)

text \<open>A file that was written in the order of time is such a source.\<close>

lemma items_covered_sections: "items_covered its \<Longrightarrow> covered (secs its)"
proof (induction its)
  case (Cons it its)
  then show ?case by (cases it) (auto simp: items_covered_def chunk_covers_def secs_def)
qed simp

definition recorded :: "serializer \<Rightarrow> u8 list \<Rightarrow> rec_header \<Rightarrow> write_op list \<Rightarrow> bool" where
  "recorded ser old h ops \<longleftrightarrow> hd_message_number h = 0 \<and> hd_begin_time h = 0 \<and> hd_end_time h = 0 \<and> length (put_messages ops) < 2 ^ 64 \<and>
     length (f_bytes (fw_file (written_file ser old h ops))) < 2 ^ 31 \<and> keeps_up ser ops (snd (WriteHeader ser h (fw_Open None old h))) \<and> timed (put_messages ops)"

lemma written_file_holds:
  assumes "protobuf_ok ser parse" "recorded ser old h ops"
  shows "file_holds ser (put_messages ops) (put_messages ops) (RecordReader ser parse (Some (f_bytes (fw_file (written_file ser old h ops)))) h0)"
    "rr_is_valid (RecordReader ser parse (Some (f_bytes (fw_file (written_file ser old h ops)))) h0)"
    "snd (file_times (RecordReader ser parse (Some (f_bytes (fw_file (written_file ser old h ops)))) h0)) \<in> insert 0 (sm_time ` set (put_messages ops))"
proof -
  let ?w = "written_file ser old h ops" and ?k = "keeps_up ser ops (snd (WriteHeader ser h (fw_Open None old h)))"
  note a = assms(2) [unfolded recorded_def]
  have hl: "length (ser (SHeader x)) \<le> HEADER_LENGTH" for x using assms(1) by (simp add: protobuf_ok_def)
  obtain its h' rest where k: "?k \<Longrightarrow> msgs its = put_messages ops"
    and b: "f_bytes (fw_file ?w) = header_block ser h' @
        body_bytes ser (secs its @ [SIndex (map (count_channel (fw_numbers ?w)) (index_from ser (16 + HEADER_LENGTH) its))]) @ rest"
    and h': "hd_is_complete h'" "hd_index_position h' = of_nat (16 + HEADER_LENGTH + length (body_bytes ser (secs its)))"
    and covers: "?k \<Longrightarrow> timed (put_messages ops) \<Longrightarrow> hd_begin_time h = 0 \<Longrightarrow> hd_end_time h = 0 \<Longrightarrow> items_covered its \<and> header_covers h' (msgs its)"
    by (rule written_file_contents [where ser = ser and h = h and ops = ops and old = old, OF hl]) (use a that in auto)
  define r where "r = RecordReader ser parse (Some (f_bytes (fw_file ?w))) h0"
  have len: "length (f_bytes (fw_file ?w)) < 2 ^ 31" using a by simp
  note R = RecordReader_at [OF b assms(1) h'(1) len h'(2), of h0, folded r_def]
  define idx where "idx = map (count_channel (fw_numbers ?w)) (index_from ser (16 + HEADER_LENGTH) its)"
  have lh: "length (header_block ser h') = 16 + HEADER_LENGTH" using hl length_header_block [of ser h'] by simp
  have cov: "covered (secs its)" "header_covers h' (msgs its)" and m: "msgs its = put_messages ops" using covers k a items_covered_sections by auto
  have "rr_before ser (f_bytes (fw_file ?w)) r (secs its) idx"
    unfolding rr_before_def using R(1,6) a b by (auto simp: rr_at_def idx_def)
  then have "unread ser (f_bytes (fw_file ?w)) r (msgs its)" unfolding unread_def rr_stands_def using cov(1) R(4,5) by (intro exI [of _ "secs its"] exI [of _ idx]) (simp add: sec_msgs_secs)
  then show "file_holds ser (put_messages ops) (put_messages ops) r" unfolding file_holds_def m [symmetric]
    using b lh a cov R(2) by (intro exI [of _ "f_bytes (fw_file ?w)"] exI [of _ "header_block ser h'"] exI [of _ its] exI [of _ idx] exI [of _ rest])
      (auto simp: in_header_def header_covers_def idx_def)
  show "rr_is_valid r" using R(1) by (simp add: rr_at_def)
  show "snd (file_times r) \<in> insert 0 (sm_time ` set (put_messages ops))" using cov(2) R(2) by (simp add: header_covers_def file_times_def m)
qed

end
