(* ===== verification/Record_Viewer.thy ===== *)
theory Record_Viewer
  imports Record_Windows
begin

text \<open>
  \<^verbatim>\<open>RecordViewer\<close> (\<^verbatim>\<open>cyber/record/record_viewer.cc\<close>): the messages of several record files, merged by time.  It reads all files in windows of a second into
  a buffer that is ordered by time, and gives the messages of the buffer.  The functions take the operations of the reader as arguments; the
  properties hold for every reader that satisfies \<open>record_source\<close>, so for the reader of record files.
\<close>

section \<open>Model\<close>

text \<open>The readers and the vector of those that are finished are one list; the multimap is a list in its order.\<close>

record 'r viewer =
  vw_begin :: u64
  vw_end :: u64
  vw_channels :: "string set"
  vw_channel_list :: "string set"
  vw_readers :: "('r \<times> bool) list"
  vw_curr :: u64
  vw_buffer :: "single_message list"

definition kStepTimeNanoSec :: u64 where "kStepTimeNanoSec = 1000000000"
definition kBufferMinSize :: nat where "kBufferMinSize = 128"

text \<open>\<open>srt\<close> is \<^verbatim>\<open>std::sort\<close> by the times of the headers.\<close>

definition Viewer_Init :: "('r list \<Rightarrow> 'r list) \<Rightarrow> ('r \<Rightarrow> string set) \<Rightarrow> u64 \<Rightarrow> u64 \<Rightarrow> string set \<Rightarrow> 'r list \<Rightarrow> 'r viewer" where
  "Viewer_Init srt channel_list bt et chans readers =
     \<lparr>vw_begin = bt, vw_end = et, vw_channels = chans, vw_channel_list = (\<Union>r\<in>set readers. channel_list r \<inter> chans),
      vw_readers = map (\<lambda>r. (r, False)) (srt readers), vw_curr = 0, vw_buffer = []\<rparr>"

definition UpdateTime :: "('r \<Rightarrow> bool) \<Rightarrow> ('r \<Rightarrow> u64 \<times> u64) \<Rightarrow> 'r viewer \<Rightarrow> 'r viewer" where
  "UpdateTime is_valid tms v =
     (let rs = filter is_valid (map fst (vw_readers v));
          min_begin_time = fold (\<lambda>r t. if t > fst (tms r) then fst (tms r) else t) rs (-1);
          max_end_time = fold (\<lambda>r t. if t < snd (tms r) then snd (tms r) else t) rs 0;
          bt = (if vw_begin v < min_begin_time then min_begin_time else vw_begin v);
          et = (if vw_end v > max_end_time then max_end_time else vw_end v)
      in v\<lparr>vw_begin := bt, vw_end := et, vw_curr := bt\<rparr>)"

definition RecordViewer ::
  "('r list \<Rightarrow> 'r list) \<Rightarrow> ('r \<Rightarrow> string set) \<Rightarrow> ('r \<Rightarrow> bool) \<Rightarrow> ('r \<Rightarrow> u64 \<times> u64) \<Rightarrow> u64 \<Rightarrow> u64 \<Rightarrow> string set \<Rightarrow> 'r list \<Rightarrow> 'r viewer" where
  "RecordViewer srt channel_list is_valid tms bt et chans readers = UpdateTime is_valid tms (Viewer_Init srt channel_list bt et chans readers)"

definition Viewer_IsValid :: "'r viewer \<Rightarrow> bool" where "Viewer_IsValid v \<longleftrightarrow> \<not> vw_begin v > vw_end v"

definition Viewer_Reset :: "('r \<Rightarrow> 'r) \<Rightarrow> 'r viewer \<Rightarrow> 'r viewer" where
  "Viewer_Reset rewind v = v\<lparr>vw_readers := map (\<lambda>(r, _). (rewind r, False)) (vw_readers v), vw_curr := vw_begin v, vw_buffer := []\<rparr>"

text \<open>A message goes behind those of the same time.\<close>

definition emplace :: "single_message \<Rightarrow> single_message list \<Rightarrow> single_message list" where
  "emplace m buf = takeWhile (\<lambda>x. sm_time x \<le> sm_time m) buf @ m # dropWhile (\<lambda>x. sm_time x \<le> sm_time m) buf"

partial_function (option) drain_reader ::
  "('r \<Rightarrow> (single_message option \<times> 'r) option) \<Rightarrow> single_message list \<Rightarrow> 'r \<Rightarrow> (single_message list \<times> 'r) option" where
  "drain_reader rd buf r =
     (case rd r of None \<Rightarrow> None | Some (None, r') \<Rightarrow> Some (buf, r') | Some (Some m, r') \<Rightarrow> drain_reader rd (emplace m buf) r')"

fun fill_readers ::
  "('r \<Rightarrow> (single_message option \<times> 'r) option) \<Rightarrow> ('r \<times> bool) list \<Rightarrow> single_message list \<Rightarrow> (single_message list \<times> ('r \<times> bool) list) option" where
  "fill_readers rd [] buf = Some (buf, [])"
| "fill_readers rd ((r, finished) # rs) buf =
     (case (if finished then Some (buf, r) else drain_reader rd buf r) of
        None \<Rightarrow> None
      | Some (buf, r') \<Rightarrow> map_option (\<lambda>(buf, rs'). (buf, (r', finished) # rs')) (fill_readers rd rs buf))"

definition fill_window ::
  "(u64 \<Rightarrow> u64 \<Rightarrow> 'r \<Rightarrow> (single_message option \<times> 'r) option) \<Rightarrow> ('r \<Rightarrow> 'r) \<Rightarrow> ('r \<Rightarrow> u64 \<times> u64) \<Rightarrow> 'r viewer \<Rightarrow> 'r viewer option" where
  "fill_window read rewind tms v =
     (let this_begin = vw_curr v;
          this_end = (if this_begin + kStepTimeNanoSec > vw_end v then vw_end v else this_begin + kStepTimeNanoSec);
          rs = map (\<lambda>(r, finished). if \<not> finished \<and> snd (tms r) < this_begin then (rewind r, True) else (r, finished)) (vw_readers v)
      in map_option (\<lambda>(buf, rs). v\<lparr>vw_readers := rs, vw_buffer := buf, vw_curr := this_end + 1\<rparr>) (fill_readers (read this_begin this_end) rs (vw_buffer v)))"

partial_function (option) FillBuffer ::
  "(u64 \<Rightarrow> u64 \<Rightarrow> 'r \<Rightarrow> (single_message option \<times> 'r) option) \<Rightarrow> ('r \<Rightarrow> 'r) \<Rightarrow> ('r \<Rightarrow> u64 \<times> u64) \<Rightarrow> 'r viewer \<Rightarrow> 'r viewer option" where
  "FillBuffer read rewind tms v =
     (if vw_curr v \<le> vw_end v \<and> length (vw_buffer v) < kBufferMinSize
      then case fill_window read rewind tms v of None \<Rightarrow> None | Some v' \<Rightarrow> FillBuffer read rewind tms v'
      else Some v)"

partial_function (option) Update ::
  "(u64 \<Rightarrow> u64 \<Rightarrow> 'r \<Rightarrow> (single_message option \<times> 'r) option) \<Rightarrow> ('r \<Rightarrow> 'r) \<Rightarrow> ('r \<Rightarrow> u64 \<times> u64) \<Rightarrow> 'r viewer \<Rightarrow> (single_message option \<times> 'r viewer) option" where
  "Update read rewind tms v =
     (case (if vw_buffer v = [] then FillBuffer read rewind tms v else Some v) of
        None \<Rightarrow> None
      | Some v' \<Rightarrow>
          (case vw_buffer v' of
             [] \<Rightarrow> Some (None, v')
           | m # buf \<Rightarrow>
               if vw_channels v' = {} \<or> sm_channel_name m \<in> vw_channels v' then Some (Some m, v'\<lparr>vw_buffer := buf\<rparr>)
               else Update read rewind tms (v'\<lparr>vw_buffer := buf\<rparr>)))"

text \<open>A loop over the viewer from its begin to its end, with at most \<open>n\<close> messages.\<close>

fun view_from ::
  "(u64 \<Rightarrow> u64 \<Rightarrow> 'r \<Rightarrow> (single_message option \<times> 'r) option) \<Rightarrow> ('r \<Rightarrow> 'r) \<Rightarrow> ('r \<Rightarrow> u64 \<times> u64) \<Rightarrow> nat \<Rightarrow> 'r viewer \<Rightarrow> single_message list option" where
  "view_from read rewind tms 0 v = None"
| "view_from read rewind tms (Suc n) v =
     (case Update read rewind tms v of
        None \<Rightarrow> None
      | Some (None, v') \<Rightarrow> Some []
      | Some (Some m, v') \<Rightarrow> map_option ((#) m) (view_from read rewind tms n v'))"

definition view_all ::
  "(u64 \<Rightarrow> u64 \<Rightarrow> 'r \<Rightarrow> (single_message option \<times> 'r) option) \<Rightarrow> ('r \<Rightarrow> 'r) \<Rightarrow> ('r \<Rightarrow> u64 \<times> u64) \<Rightarrow> nat \<Rightarrow> 'r viewer \<Rightarrow> single_message list option" where
  "view_all read rewind tms n v =
     (let v = Viewer_Reset rewind v in if \<not> Viewer_IsValid v then Some [] else view_from read rewind tms n v)"

section \<open>Merging by time\<close>

definition between :: "u64 \<Rightarrow> u64 \<Rightarrow> single_message list \<Rightarrow> single_message list" where
  "between bt et ms = filter (\<lambda>m. bt \<le> sm_time m \<and> sm_time m \<le> et) ms"

abbreviation by_time :: "single_message list \<Rightarrow> bool" where "by_time ms \<equiv> sorted (map sm_time ms)"

lemma late_dropWhile:
  assumes "by_time b" "x \<in> set (dropWhile (\<lambda>x. sm_time x \<le> t) b)"
  shows "t < sm_time x"
  using assms by (induction b) (auto split: if_splits)

lemma emplace_sorted:
  assumes "by_time b"
  shows "by_time (emplace m b)" "mset (emplace m b) = add_mset m (mset b)"
    "filter (\<lambda>x. sm_time x = k) (emplace m b) = filter (\<lambda>x. sm_time x = k) (b @ [m])"
proof -
  let ?P = "\<lambda>x. sm_time x \<le> sm_time m"
  have b: "takeWhile ?P b @ dropWhile ?P b = b" by simp
  have "by_time (takeWhile ?P b)" "by_time (dropWhile ?P b)" using assms b by (metis map_append sorted_append)+
  then show "by_time (emplace m b)"
    using late_dropWhile [OF assms] by (force simp: emplace_def sorted_append dest: set_takeWhileD)
  have "mset (emplace m b) = add_mset m (mset (takeWhile ?P b @ dropWhile ?P b))" unfolding emplace_def by (simp del: takeWhile_dropWhile_id)
  then show "mset (emplace m b) = add_mset m (mset b)" by simp
  have "filter (\<lambda>x. sm_time x = k) (dropWhile ?P b) = []" if "sm_time m = k" using late_dropWhile [OF assms] that by (force simp: filter_empty_conv)
  moreover have "filter (\<lambda>x. sm_time x = k) b = filter (\<lambda>x. sm_time x = k) (takeWhile ?P b) @ filter (\<lambda>x. sm_time x = k) (dropWhile ?P b)"
    by (metis b filter_append)
  ultimately show "filter (\<lambda>x. sm_time x = k) (emplace m b) = filter (\<lambda>x. sm_time x = k) (b @ [m])" by (simp add: emplace_def)
qed

lemma fold_emplace:
  assumes "by_time b"
  shows "by_time (fold emplace ms b)" "mset (fold emplace ms b) = mset (b @ ms)"
    "filter (\<lambda>x. sm_time x = k) (fold emplace ms b) = filter (\<lambda>x. sm_time x = k) (b @ ms)"
  using assms by (induction ms arbitrary: b) (simp_all add: emplace_sorted)

text \<open>What is read after a buffer of earlier messages is put behind it, by time.\<close>

lemma sort_by_time:
  assumes "by_time ys" "mset ys = mset xs" "\<And>k. filter (\<lambda>x. sm_time x = k) ys = filter (\<lambda>x. sm_time x = k) xs"
  shows "sort_key sm_time xs = ys"
proof (rule properties_for_sort_key)
  fix k :: single_message
  have "(\<lambda>x :: single_message. sm_time k = sm_time x) = (\<lambda>x. sm_time x = sm_time k)" by auto
  then show "filter (\<lambda>x. sm_time k = sm_time x) ys = filter (\<lambda>x. sm_time k = sm_time x) xs" using assms(3) [of "sm_time k"] by simp
qed (use assms in simp_all)

lemma fold_emplace_sort: "by_time b \<Longrightarrow> fold emplace ms b = sort_key sm_time (b @ ms)"
  using fold_emplace [of b] by (intro sort_by_time [symmetric]) auto

lemma sort_earlier:
  fixes xs ys :: "single_message list"
  assumes "\<And>x y. x \<in> set xs \<Longrightarrow> y \<in> set ys \<Longrightarrow> sm_time x < sm_time y"
  shows "sort_key sm_time xs @ sort_key sm_time ys = sort_key sm_time (xs @ ys)"
proof (rule sort_by_time [symmetric])
  show "by_time (sort_key sm_time xs @ sort_key sm_time ys)" using assms by (auto simp: sorted_append less_imp_le)
qed (simp_all add: sort_key_stable)

lemma between_split:
  assumes "bt \<le> et" "et \<le> e" "et \<noteq> -1"
  shows "sort_key sm_time (concat (map (between bt et) alls)) @ sort_key sm_time (concat (map (between (et + 1) e) alls))
    = sort_key sm_time (concat (map (between bt e) alls))"
proof -
  have 1: "et + 1 \<le> t \<longleftrightarrow> et < t" for t :: u64 using assms(3) by (auto simp: inc_less_eq_iff)
  show ?thesis
  proof (intro sort_by_time [symmetric])
    show "by_time (sort_key sm_time (concat (map (between bt et) alls)) @ sort_key sm_time (concat (map (between (et + 1) e) alls)))"
      by (auto simp: sorted_append between_def 1)
  next
    have E: "mset (between bt et ms) + mset (between (et + 1) e ms) = mset (between bt e ms)" for ms
      using assms by (induction ms) (auto simp: between_def 1)
    show "mset (sort_key sm_time (concat (map (between bt et) alls)) @ sort_key sm_time (concat (map (between (et + 1) e) alls))) = mset (concat (map (between bt e) alls))"
      by (simp add: mset_concat comp_def E [symmetric] sum_list_addf)
  next
    fix k
    have "filter (\<lambda>x. sm_time x = k) (between bt et ms) = (if k \<le> et then filter (\<lambda>x. sm_time x = k) (between bt e ms) else [])"
      "filter (\<lambda>x. sm_time x = k) (between (et + 1) e ms) = (if k \<le> et then [] else filter (\<lambda>x. sm_time x = k) (between bt e ms))" for ms
      using assms by (induction ms) (auto simp: between_def 1)
    then show "filter (\<lambda>x. sm_time x = k) (sort_key sm_time (concat (map (between bt et) alls)) @ sort_key sm_time (concat (map (between (et + 1) e) alls)))
        = filter (\<lambda>x. sm_time x = k) (concat (map (between bt e) alls))"
      by (cases "k \<le> et") (simp_all add: sort_key_stable filter_concat comp_def)
  qed
qed

lemma dropWhile_twice: "(\<And>x. Q x \<Longrightarrow> P x) \<Longrightarrow> dropWhile P (dropWhile Q xs) = dropWhile P xs"
  by (induction xs) auto

lemma from_time_next:
  assumes "bt \<le> et" "et \<noteq> -1"
  shows "from_time (et + 1) ms = dropWhile (\<lambda>m. sm_time m \<le> et) (from_time bt ms)"
proof -
  have "sm_time m < et + 1 \<longleftrightarrow> sm_time m \<le> et" for m :: single_message using inc_less_eq_iff [of et "sm_time m"] assms(2) by (auto simp: not_le [symmetric])
  moreover have "sm_time m < bt \<Longrightarrow> sm_time m \<le> et" for m :: single_message using assms(1) by simp
  ultimately show ?thesis by (simp add: dropWhile_twice)
qed

lemma takeWhile_between:
  assumes "by_time ms" "bt \<le> et"
  shows "takeWhile (\<lambda>m. sm_time m \<le> et) (from_time bt ms) = between bt et ms"
  using assms(1)
proof (induction ms)
  case (Cons m ms)
  have "between bt et ms = []" if "et < sm_time m" using Cons.prems that by (fastforce simp: between_def filter_empty_conv)
  moreover have "from_time bt ms = ms" if "bt \<le> sm_time m" using Cons.prems that by (cases ms) fastforce+
  ultimately show ?case using Cons assms(2) by (auto simp: between_def not_less)
qed (simp add: between_def)

lemma between_none: "et < bt \<Longrightarrow> concat (map (between bt et) alls) = []"
  by (auto simp: between_def filter_empty_conv)

lemma list_all2_in: "list_all2 P xs ys \<Longrightarrow> y \<in> set ys \<Longrightarrow> \<exists>x\<in>set xs. P x y" "list_all2 P xs ys \<Longrightarrow> x \<in> set xs \<Longrightarrow> \<exists>y\<in>set ys. P x y"
  by (induction rule: list_all2_induct) auto

lemma if_min: "(if t > x then x else t) = min x (t :: u64)" and if_max: "(if t < x then x else t) = max x (t :: u64)"
  by (auto simp: min_def max_def)

lemma between_narrow:
  assumes "\<And>m. m \<in> set ms \<Longrightarrow> lo \<le> sm_time m \<and> sm_time m \<le> hi"
  shows "between (if bt < lo then lo else bt) (if et > hi then hi else et) ms = between bt et ms"
  unfolding between_def
proof (rule filter_cong)
  fix m
  assume "m \<in> set ms"
  then have "lo \<le> sm_time m" "sm_time m \<le> hi" using assms by blast+
  then show "((if bt < lo then lo else bt) \<le> sm_time m \<and> sm_time m \<le> (if hi < et then hi else et)) = (bt \<le> sm_time m \<and> sm_time m \<le> et)" by auto
qed simp

lemma fold_min_le: "fold (\<lambda>r. min (f r)) rs t0 \<le> (t0 :: u64) \<and> (r \<in> set rs \<longrightarrow> fold (\<lambda>r. min (f r)) rs t0 \<le> f r)"
proof (induction rs arbitrary: t0)
  case (Cons a rs)
  have "fold (\<lambda>r. min (f r)) rs (min (f a) t0) \<le> min (f a) t0" using Cons.IH by blast
  then show ?case using Cons.IH [of "min (f a) t0"] by auto
qed simp

lemma fold_max_ge: "(t0 :: u64) \<le> fold (\<lambda>r. max (f r)) rs t0 \<and> (r \<in> set rs \<longrightarrow> f r \<le> fold (\<lambda>r. max (f r)) rs t0) \<and>
    (fold (\<lambda>r. max (f r)) rs t0 = t0 \<or> fold (\<lambda>r. max (f r)) rs t0 \<in> f ` set rs)"
proof (induction rs arbitrary: t0)
  case (Cons a rs)
  have "max (f a) t0 \<le> fold (\<lambda>r. max (f r)) rs (max (f a) t0)" using Cons.IH by blast
  then show ?case using Cons.IH [of "max (f a) t0"] by (auto simp: max_def split: if_splits)
qed simp

section \<open>A viewer over sources\<close>

text \<open>Where a reader stands when the next window begins at \<open>start\<close>.\<close>

definition reader_at :: "(single_message list \<Rightarrow> single_message list \<Rightarrow> 'r \<Rightarrow> bool) \<Rightarrow> u64 \<Rightarrow> single_message list \<Rightarrow> 'r \<times> bool \<Rightarrow> bool" where
  "reader_at holds start all rf \<longleftrightarrow> by_time all \<and> (\<exists>ms. holds all ms (fst rf) \<and> (\<not> snd rf \<longrightarrow> from_time start ms = from_time start all))
     \<and> (snd rf \<longrightarrow> (\<forall>m\<in>set all. sm_time m < start))"

definition viewer_ok :: "(single_message list \<Rightarrow> single_message list \<Rightarrow> 'r \<Rightarrow> bool) \<Rightarrow> single_message list list \<Rightarrow> 'r viewer \<Rightarrow> bool" where
  "viewer_ok holds alls v \<longleftrightarrow> list_all2 (reader_at holds (vw_curr v)) alls (vw_readers v) \<and> by_time (vw_buffer v) \<and>
     (\<forall>m\<in>set (vw_buffer v). sm_time m < vw_curr v) \<and> unat (vw_end v) < 2 ^ 63"

text \<open>What is still to be given: the buffer, and what is within the time from the next window on.\<close>

definition pending :: "single_message list list \<Rightarrow> 'r viewer \<Rightarrow> single_message list" where
  "pending alls v = vw_buffer v @ sort_key sm_time (concat (map (between (vw_curr v) (vw_end v)) alls))"

definition same_viewer :: "'r viewer \<Rightarrow> 'r viewer \<Rightarrow> bool" where
  "same_viewer v v' \<longleftrightarrow> vw_end v' = vw_end v \<and> vw_channels v' = vw_channels v"

lemma window_end:
  fixes start e :: u64
  assumes "start \<le> e" "unat e < 2 ^ 63"
  defines "te \<equiv> (if start + kStepTimeNanoSec > e then e else start + kStepTimeNanoSec)"
  shows "start \<le> te" "te \<le> e" "te \<noteq> -1" "start < te + 1" "unat (te + 1) = unat te + 1"
proof -
  have c: "unat start \<le> unat e" using assms(1) by (simp add: word_le_nat_alt)
  have "unat (start + kStepTimeNanoSec) = unat start + 1000000000"
    using c assms(2) by (subst unat_add_lem [THEN iffD1]) (simp_all add: kStepTimeNanoSec_def)
  then have te: "unat start \<le> unat te \<and> unat te \<le> unat e" using c by (simp add: te_def word_less_nat_alt)
  then show "start \<le> te" "te \<le> e" by (simp_all add: word_le_nat_alt)
  show s: "unat (te + 1) = unat te + 1" using te assms(2) by (subst unat_add_lem [THEN iffD1]) simp_all
  then show "te \<noteq> -1" by auto
  show "start < te + 1" using te s by (simp add: word_less_nat_alt)
qed

context record_source
begin

lemma drain_window:
  assumes "holds all ms r" "bt \<le> et" "by_time (from_time bt ms)"
  shows "\<exists>r' ms'. drain_reader (read_message bt et) buf r = Some (fold emplace (takeWhile (\<lambda>m. sm_time m \<le> et) (from_time bt ms)) buf, r') \<and> holds all ms' r' \<and>
    times r' = times r \<and> from_time bt ms' = dropWhile (\<lambda>m. sm_time m \<le> et) (from_time bt ms)"
  using assms(1,3)
proof (induction "from_time bt ms" arbitrary: ms r buf rule: length_induct)
  case 1
  from read [OF 1(2) assms(2), unfolded window_step_def] show ?case
  proof (elim disjE exE conjE)
    fix m rest r'
    assume a: "from_time bt ms = m # rest" "sm_time m \<le> et" "read_message bt et r = Some (Some m, r')" "holds all rest r'" "times r' = times r"
    have rest: "from_time bt rest = rest"
    proof -
      have "\<not> sm_time m < bt" using a(1) by (simp add: dropWhile_eq_Cons_conv)
      then show ?thesis using 1(3) a(1) by (cases rest) auto
    qed
    have "by_time (from_time bt rest)" using 1(3) a(1) rest by simp
    then obtain r'' ms' where "drain_reader (read_message bt et) (emplace m buf) r' = Some (fold emplace (takeWhile (\<lambda>m. sm_time m \<le> et) rest) (emplace m buf), r'')"
      "holds all ms' r''" "times r'' = times r'" "from_time bt ms' = dropWhile (\<lambda>m. sm_time m \<le> et) rest"
      using 1(1) [rule_format, of "from_time bt rest" rest r' "emplace m buf"] a(1,4) rest by auto
    then show ?case using a(1-3,5) by (subst drain_reader.simps) auto
  next
    fix r' ms'
    assume a: "read_message bt et r = Some (None, r')" "holds all ms' r'" "times r' = times r" "from_time bt ms' = from_time bt ms"
      "\<forall>m rest. from_time bt ms = m # rest \<longrightarrow> et < sm_time m"
    have "takeWhile (\<lambda>m. sm_time m \<le> et) xs = [] \<and> dropWhile (\<lambda>m. sm_time m \<le> et) xs = xs" if "\<forall>m rest. xs = m # rest \<longrightarrow> et < sm_time m" for xs :: "single_message list"
      using that by (cases xs) (simp_all add: not_le)
    note quiet = this [OF a(5)]
    then show ?case using a(1-4) quiet by (subst drain_reader.simps) (simp, blast)
  qed
qed

lemma fill_readers_window:
  assumes "list_all2 (reader_at holds bt) alls rs" "bt \<le> et" "et \<noteq> -1"
  shows "\<exists>rs'. fill_readers (read_message bt et) rs buf = Some (fold emplace (concat (map (between bt et) alls)) buf, rs') \<and> list_all2 (reader_at holds (et + 1)) alls rs'"
  using assms(1)
proof (induction alls rs arbitrary: buf rule: list_all2_induct)
  case (Cons all alls rf rs)
  obtain r fin where rf: "rf = (r, fin)" by (cases rf)
  obtain ms where ms: "by_time all" "holds all ms r" "\<not> fin \<Longrightarrow> from_time bt ms = from_time bt all" "fin \<Longrightarrow> \<forall>m\<in>set all. sm_time m < bt"
    using Cons(1) by (auto simp: reader_at_def rf)
  have "\<exists>r'. (if fin then Some (buf, r) else drain_reader (read_message bt et) buf r) = Some (fold emplace (between bt et all) buf, r') \<and> reader_at holds (et + 1) all (r', fin)"
  proof (cases fin)
    case True
    have "sm_time m < et + 1" if "m \<in> set all" for m
      using ms(4) [OF True] that assms(2,3) inc_less_eq_iff [of et "sm_time m"] by (fastforce simp: not_le [symmetric])
    moreover have "between bt et all = []" using ms(4) [OF True] by (auto simp: between_def filter_empty_conv)
    ultimately show ?thesis using True ms(1,2) by (auto simp: reader_at_def)
  next
    case False
    have "by_time (from_time bt ms)" using ms(1,3) False by (metis sorted_dropWhile dropWhile_map comp_def sorted_wrt_map sorted_wrt_dropWhile)
    then obtain r' ms' where d: "drain_reader (read_message bt et) buf r = Some (fold emplace (takeWhile (\<lambda>m. sm_time m \<le> et) (from_time bt ms)) buf, r')" "holds all ms' r'"
      "from_time bt ms' = dropWhile (\<lambda>m. sm_time m \<le> et) (from_time bt ms)"
      using drain_window [OF ms(2) assms(2)] by metis
    have "from_time (et + 1) ms' = from_time (et + 1) all"
      using d(3) ms(3) [OF False] by (simp add: from_time_next [OF assms(2,3)] dropWhile_twice)
    then show ?thesis using False d(1,2) ms(1,3) takeWhile_between [OF ms(1) assms(2)] by (auto simp: reader_at_def)
  qed
  then obtain r' where r': "(if fin then Some (buf, r) else drain_reader (read_message bt et) buf r) = Some (fold emplace (between bt et all) buf, r')" "reader_at holds (et + 1) all (r', fin)" by blast
  obtain rs' where "fill_readers (read_message bt et) rs (fold emplace (between bt et all) buf) = Some (fold emplace (concat (map (between bt et) alls)) (fold emplace (between bt et all) buf), rs')"
    "list_all2 (reader_at holds (et + 1)) alls rs'" using Cons.IH by blast
  then show ?case using r' by (simp add: rf)
qed simp

lemma finished_at:
  assumes "reader_at holds start all rf"
  shows "reader_at holds start all ((\<lambda>(r, fin). if \<not> fin \<and> snd (times r) < start then (rewind r, True) else (r, fin)) rf)"
proof (cases "\<not> snd rf \<and> snd (times (fst rf)) < start")
  case True
  obtain ms where ms: "holds all ms (fst rf)" "by_time all" using assms by (auto simp: reader_at_def)
  have "sm_time m < start" if "m \<in> set all" for m using within [OF ms(1) that] True by auto
  then show ?thesis using True rewound [OF ms(1)] ms(2) by (cases rf) (auto simp: reader_at_def)
qed (use assms in \<open>cases rf, auto\<close>)

lemma fill_window_ok:
  assumes "viewer_ok holds alls v" "vw_curr v \<le> vw_end v"
  obtains v' where "fill_window read_message rewind times v = Some v'" "viewer_ok holds alls v'" "pending alls v' = pending alls v" "same_viewer v v'"
    "vw_curr v < vw_curr v'"
proof -
  define te where "te = (if vw_curr v + kStepTimeNanoSec > vw_end v then vw_end v else vw_curr v + kStepTimeNanoSec)"
  let ?rs = "map (\<lambda>(r, fin). if \<not> fin \<and> snd (times r) < vw_curr v then (rewind r, True) else (r, fin)) (vw_readers v)"
  let ?W = "concat (map (between (vw_curr v) te) alls)"
  note ok = assms(1) [unfolded viewer_ok_def]
  have te: "vw_curr v \<le> te" "te \<le> vw_end v" "te \<noteq> -1" "vw_curr v < te + 1" using window_end [of "vw_curr v" "vw_end v"] ok assms(2) unfolding te_def by auto
  have at: "list_all2 (reader_at holds (vw_curr v)) alls ?rs" 
    unfolding list_all2_map2 using conjunct1 [OF ok] by (rule list_all2_mono) (rule finished_at)
  obtain rs' where rs': "fill_readers (read_message (vw_curr v) te) ?rs (vw_buffer v) = Some (fold emplace ?W (vw_buffer v), rs')" "list_all2 (reader_at holds (te + 1)) alls rs'"
    using fill_readers_window [OF at te(1,3), of "vw_buffer v"] by blast
  let ?v = "v\<lparr>vw_readers := rs', vw_buffer := fold emplace ?W (vw_buffer v), vw_curr := te + 1\<rparr>"
  have W: "vw_curr v \<le> sm_time m \<and> sm_time m \<le> te" if "m \<in> set ?W" for m using that by (auto simp: between_def)
  have buf: "fold emplace ?W (vw_buffer v) = vw_buffer v @ sort_key sm_time ?W"
  proof -
    have "sort_key sm_time (vw_buffer v) @ sort_key sm_time ?W = sort_key sm_time (vw_buffer v @ ?W)"
    proof (rule sort_earlier)
      fix x y
      assume "x \<in> set (vw_buffer v)" "y \<in> set ?W"
      then show "sm_time x < sm_time y" using ok W [of y] by (meson order_less_le_trans)
    qed
    then show ?thesis using ok by (simp add: fold_emplace_sort sort_key_id_if_sorted)
  qed
  have "by_time (fold emplace ?W (vw_buffer v))" using ok by (intro fold_emplace(1)) simp
  moreover have "sm_time m < te + 1" if "m \<in> set (fold emplace ?W (vw_buffer v))" for m
  proof -
    have "sm_time m \<le> te" using that ok te(1) W unfolding buf by (auto dest: less_imp_le)
    then show ?thesis using inc_less_eq_iff [of te "sm_time m"] te(3) by (auto simp: not_le [symmetric])
  qed
  ultimately have "viewer_ok holds alls ?v" using ok rs'(2) by (simp add: viewer_ok_def)
  moreover have "pending alls ?v = pending alls v" using between_split [OF te(1-3), of alls] by (simp add: pending_def buf)
  moreover have "fill_window read_message rewind times v = Some ?v" using rs'(1) unfolding fill_window_def te_def [symmetric] Let_def by simp
  ultimately show thesis using that te(4) by (simp add: same_viewer_def)
qed

lemma FillBuffer_ok:
  assumes "viewer_ok holds alls v"
  shows "\<exists>v'. FillBuffer read_message rewind times v = Some v' \<and> viewer_ok holds alls v' \<and> pending alls v' = pending alls v \<and> same_viewer v v' \<and>
    (vw_buffer v' = [] \<longrightarrow> pending alls v' = [])"
  using assms
proof (induction "unat (vw_end v) + 1 - unat (vw_curr v)" arbitrary: v rule: less_induct)
  case less
  show ?case
  proof (cases "vw_curr v \<le> vw_end v \<and> length (vw_buffer v) < kBufferMinSize")
    case True
    then obtain v' where v': "fill_window read_message rewind times v = Some v'" "viewer_ok holds alls v'" "pending alls v' = pending alls v" "same_viewer v v'"
      "vw_curr v < vw_curr v'" using fill_window_ok [OF less.prems] by metis
    have "unat (vw_curr v) < unat (vw_curr v')" "unat (vw_curr v) \<le> unat (vw_end v)" "vw_end v' = vw_end v"
      using v'(4,5) True by (simp_all add: same_viewer_def word_less_nat_alt word_le_nat_alt)
    then have "unat (vw_end v') + 1 - unat (vw_curr v') < unat (vw_end v) + 1 - unat (vw_curr v)" by simp
    from less.hyps [OF this v'(2)] show ?thesis using True v' by (subst FillBuffer.simps) (auto simp: same_viewer_def)
  next
    case False
    have "pending alls v = []" if "vw_buffer v = []"
    proof -
      have "vw_end v < vw_curr v" using False that by (auto simp: kBufferMinSize_def)
      then show ?thesis using that by (simp add: pending_def between_none)
    qed
    then show ?thesis using False less.prems by (subst FillBuffer.simps) (auto simp: same_viewer_def)
  qed
qed

definition shown :: "'r viewer \<Rightarrow> single_message \<Rightarrow> bool" where
  "shown v m \<longleftrightarrow> vw_channels v = {} \<or> sm_channel_name m \<in> vw_channels v"

lemma Update_ok:
  assumes "viewer_ok holds alls v"
  shows "\<exists>v'. viewer_ok holds alls v' \<and> vw_channels v' = vw_channels v \<and>
    (case filter (shown v) (pending alls v) of
       [] \<Rightarrow> Update read_message rewind times v = Some (None, v')
     | m # rest \<Rightarrow> Update read_message rewind times v = Some (Some m, v') \<and> filter (shown v) (pending alls v') = rest)"
  using assms
proof (induction "length (pending alls v)" arbitrary: v rule: less_induct)
  case less
  obtain v1 where v1: "(if vw_buffer v = [] then FillBuffer read_message rewind times v else Some v) = Some v1" "viewer_ok holds alls v1" "pending alls v1 = pending alls v"
    "same_viewer v v1" "vw_buffer v1 = [] \<Longrightarrow> pending alls v1 = []"
    using FillBuffer_ok [OF less.prems] less.prems by (cases "vw_buffer v = []") (auto simp: same_viewer_def)
  have ch: "vw_channels v1 = vw_channels v" using v1(4) by (simp add: same_viewer_def)
  show ?case
  proof (cases "vw_buffer v1")
    case Nil
    then have "pending alls v = []" using v1(3,5) by simp
    then show ?thesis using v1(1,2) Nil ch by (subst Update.simps) auto
  next
    case (Cons m buf)
    let ?v = "v1\<lparr>vw_buffer := buf\<rparr>"
    have p: "pending alls v = m # pending alls ?v" using v1(3) Cons by (simp add: pending_def)
    have ok: "viewer_ok holds alls ?v" using v1(2) Cons by (simp add: viewer_ok_def)
    have step: "Update read_message rewind times v = (if shown v m then Some (Some m, ?v) else Update read_message rewind times ?v)"
      using v1(1) Cons ch by (subst Update.simps) (simp add: shown_def)
    show ?thesis
    proof (cases "shown v m")
      case True
      then show ?thesis using step ok p ch by auto
    next
      case False
      have "shown ?v = shown v" using ch by (auto simp: shown_def)
      then show ?thesis using less.hyps [of ?v, OF _ ok] p False step ch by (simp cong: list.case_cong)
    qed
  qed
qed

lemma view_from_ok:
  assumes "viewer_ok holds alls v" "length (filter (shown v) (pending alls v)) < n"
  shows "view_from read_message rewind times n v = Some (filter (shown v) (pending alls v))"
  using assms
proof (induction n arbitrary: v)
  case (Suc n)
  obtain v' where v': "viewer_ok holds alls v'" "vw_channels v' = vw_channels v"
    "case filter (shown v) (pending alls v) of [] \<Rightarrow> Update read_message rewind times v = Some (None, v')
     | m # rest \<Rightarrow> Update read_message rewind times v = Some (Some m, v') \<and> filter (shown v) (pending alls v') = rest"
    using Update_ok [OF Suc.prems(1)] by blast
  have sh: "shown v' = shown v" using v'(2) by (auto simp: shown_def)
  show ?case
  proof (cases "filter (shown v) (pending alls v)")
    case (Cons m rest)
    have "length (filter (shown v') (pending alls v')) < n" using v'(3) Cons Suc.prems(2) sh by simp
    from Suc.IH [OF v'(1) this] show ?thesis using v'(3) Cons sh by simp
  qed (use v'(3) in simp)
qed simp

text \<open>The messages of a loop over the viewer.\<close>

lemma view_all_ok:
  assumes "list_all2 (\<lambda>all rf. by_time all \<and> (\<exists>ms. holds all ms (fst rf))) alls (vw_readers v)" "unat (vw_end v) < 2 ^ 63"
    "length (concat alls) < n"
  shows "view_all read_message rewind times n v = Some (filter (shown v) (sort_key sm_time (concat (map (between (vw_begin v) (vw_end v)) alls))))"
proof (cases "vw_begin v \<le> vw_end v")
  case True
  let ?v = "Viewer_Reset rewind v"
  have "list_all2 (reader_at holds (vw_begin v)) alls (vw_readers ?v)"
    using assms(1) rewound by (fastforce simp: Viewer_Reset_def list_all2_map2 reader_at_def split_def elim!: list_all2_mono)
  then have ok: "viewer_ok holds alls ?v" using assms(2) by (simp add: viewer_ok_def Viewer_Reset_def)
  have p: "pending alls ?v = sort_key sm_time (concat (map (between (vw_begin v) (vw_end v)) alls))" by (simp add: pending_def Viewer_Reset_def)
  have "length (concat (map (between (vw_begin v) (vw_end v)) as)) \<le> length (concat as)" for as
    by (induction as) (auto simp: between_def intro: add_mono)
  then have "length (filter (shown ?v) (pending alls ?v)) < n" unfolding p using assms(3) length_filter_le [of "shown ?v"]
    by (metis le_less_trans length_sort)
  moreover have "shown ?v = shown v" by (auto simp: shown_def Viewer_Reset_def)
  ultimately have "view_from read_message rewind times n ?v = Some (filter (shown v) (pending alls ?v))" using view_from_ok [OF ok, of n] by simp
  moreover have "Viewer_IsValid ?v" using True by (simp add: Viewer_IsValid_def Viewer_Reset_def not_less)
  ultimately show ?thesis by (simp add: view_all_def p)
next
  case False
  then show ?thesis by (simp add: view_all_def Viewer_IsValid_def Viewer_Reset_def between_none not_le)
qed

text \<open>The times that the viewer was given are narrowed to those of the files; that changes no message.\<close>

lemma RecordViewer_shows:
  assumes "list_all2 (\<lambda>all r. by_time all \<and> is_valid r \<and> unat (snd (times r)) < 2 ^ 63 \<and> (\<exists>ms. holds all ms r)) alls (srt readers)"
    "length (concat alls) < n"
  shows "view_all read_message rewind times n (RecordViewer srt channel_list is_valid times bt et chans readers)
    = Some (filter (\<lambda>m. chans = {} \<or> sm_channel_name m \<in> chans) (sort_key sm_time (concat (map (between bt et) alls))))"
proof -
  let ?v = "RecordViewer srt channel_list is_valid times bt et chans readers" and ?rs = "srt readers"
  let ?min = "fold (\<lambda>r t. if t > fst (times r) then fst (times r) else t) ?rs (-1)"
  let ?max = "fold (\<lambda>r t. if t < snd (times r) then snd (times r) else t) ?rs 0"
  have each: "\<exists>all\<in>set alls. by_time all \<and> is_valid r \<and> unat (snd (times r)) < 2 ^ 63 \<and> (\<exists>ms. holds all ms r)" if "r \<in> set ?rs" for r
    using list_all2_in(1) [OF assms(1) that] by blast
  then have "filter is_valid ?rs = ?rs" by (auto simp: filter_id_conv)
  then have v: "vw_begin ?v = (if bt < ?min then ?min else bt)" "vw_end ?v = (if et > ?max then ?max else et)" "vw_channels ?v = chans"
    "vw_readers ?v = map (\<lambda>r. (r, False)) ?rs"
    by (simp_all add: RecordViewer_def UpdateTime_def Viewer_Init_def Let_def comp_def)
  have "unat ?max < 2 ^ 63" using fold_max_ge [of 0 "\<lambda>r. snd (times r)" ?rs] each unfolding if_max by force
  then have e: "unat (vw_end ?v) < 2 ^ 63" by (simp add: v(2) word_less_nat_alt)
  have same: "between (vw_begin ?v) (vw_end ?v) all = between bt et all" if in_alls: "all \<in> set alls" for all
  proof -
    obtain r ms where r: "r \<in> set ?rs" "holds all ms r" using list_all2_in(2) [OF assms(1) in_alls] by blast
    have "?min \<le> sm_time m \<and> sm_time m \<le> ?max" if "m \<in> set all" for m
      using within [OF r(2) that] fold_min_le [of "\<lambda>r. fst (times r)" ?rs "-1" r] fold_max_ge [of 0 "\<lambda>r. snd (times r)" ?rs r] r(1) unfolding if_min if_max by (meson order_trans)
    then show ?thesis unfolding v(1,2) by (rule between_narrow)
  qed
  have "list_all2 (\<lambda>all rf. by_time all \<and> (\<exists>ms. holds all ms (fst rf))) alls (vw_readers ?v)"
    unfolding v(4) list_all2_map2 using assms(1) by (rule list_all2_mono) auto
  note all = view_all_ok [OF this e assms(2)]
  have sh: "shown ?v = (\<lambda>m. chans = {} \<or> sm_channel_name m \<in> chans)" by (rule ext) (simp add: shown_def v(3))
  have "map (between (vw_begin ?v) (vw_end ?v)) alls = map (between bt et) alls" using same by simp
  then show ?thesis using all by (simp only: sh)
qed

end

section \<open>Viewing recorded files\<close>

context protobuf_files
begin

lemmas recordings_shown = files.RecordViewer_shows [where is_valid = rr_is_valid and channel_list = GetChannelList]

end

text \<open>One file: what was in it before, the header it was opened with, and what was written.\<close>

type_synonym recording = "u8 list \<times> rec_header \<times> write_op list"

definition open_recording :: "serializer \<Rightarrow> parser \<Rightarrow> recording \<Rightarrow> record_reader" where
  "open_recording ser parse f = (case f of (old, h, ops) \<Rightarrow> RecordReader ser parse (Some (f_bytes (fw_file (written_file ser old h ops)))) GetHeader)"

definition recording_messages :: "recording \<Rightarrow> single_message list" where
  "recording_messages f = put_messages (snd (snd f))"

definition recording_ok :: "serializer \<Rightarrow> recording \<Rightarrow> bool" where
  "recording_ok ser f \<longleftrightarrow> recorded ser (fst f) (fst (snd f)) (snd (snd f)) \<and> (\<forall>m\<in>set (recording_messages f). unat (sm_time m) < 2 ^ 63)"

text \<open>
  Claim C15. A viewer over any number of closed record files, each written in the order of time, shows exactly the messages of the requested time and
  channels, each once and merged by time; messages of the same time stay in the order of their file.  The loop over the viewer ends.
\<close>

theorem viewer_merges_recordings:
  assumes "protobuf_ok ser parse" "\<forall>f\<in>set files. recording_ok ser f" "mset (srt (map (open_recording ser parse) files)) = mset (map (open_recording ser parse) files)"
    "length (concat (map recording_messages files)) < n"
  shows "\<exists>fs. mset fs = mset files \<and>
    view_all (ReadMessage ser parse) rr_Reset file_times n
      (RecordViewer srt GetChannelList rr_is_valid file_times bt et chans (map (open_recording ser parse) files))
    = Some (filter (\<lambda>m. (chans = {} \<or> sm_channel_name m \<in> chans) \<and> bt \<le> sm_time m \<and> sm_time m \<le> et) (sort_key sm_time (concat (map recording_messages fs))))"
proof -
  let ?rs = "map (open_recording ser parse) files"
  have "list_all2 (\<lambda>r f. r = open_recording ser parse f) ?rs files" by (simp add: list_all2_map1 list_all2_refl)
  then obtain fs where fs: "list_all2 (\<lambda>r f. r = open_recording ser parse f) (srt ?rs) fs" "mset fs = mset files"
    using list_all2_reorder_left_invariance [OF _ assms(3)] by metis
  then have rs: "srt ?rs = map (open_recording ser parse) fs" by (simp add: list_all2_conv_all_nth list_eq_iff_nth_eq)
  have ok: "recording_ok ser f" if "f \<in> set fs" for f using that assms(2) fs(2) by (metis mset_eq_setD)
  have "list_all2 (\<lambda>all r. by_time all \<and> rr_is_valid r \<and> unat (snd (file_times r)) < 2 ^ 63 \<and> (\<exists>ms. file_holds ser all ms r)) (map recording_messages fs) (srt ?rs)"
    unfolding rs list_all2_map1 list_all2_map2
  proof (rule list_all2_same [THEN iffD2], rule ballI)
    fix f
    assume "f \<in> set fs"
    then have r: "recording_ok ser f" by (rule ok)
    then have "recorded ser (fst f) (fst (snd f)) (snd (snd f))" by (simp add: recording_ok_def)
    note w = written_file_holds [OF assms(1) this, of GetHeader]
    show "by_time (recording_messages f) \<and> rr_is_valid (open_recording ser parse f) \<and> unat (snd (file_times (open_recording ser parse f))) < 2 ^ 63
        \<and> (\<exists>ms. file_holds ser (recording_messages f) ms (open_recording ser parse f))"
      using r w by (auto simp: recording_ok_def recording_messages_def open_recording_def recorded_def timed_def split_def)
  qed
  moreover have "length (concat (map recording_messages fs)) < n"
  proof -
    have "mset (map length (map recording_messages fs)) = mset (map length (map recording_messages files))" using fs(2) by simp
    then show ?thesis using assms(4) by (metis length_concat sum_mset_sum_list)
  qed
  ultimately have "view_all (ReadMessage ser parse) rr_Reset file_times n (RecordViewer srt GetChannelList rr_is_valid file_times bt et chans ?rs)
    = Some (filter (\<lambda>m. chans = {} \<or> sm_channel_name m \<in> chans) (sort_key sm_time (concat (map (between bt et) (map recording_messages fs)))))"
    by (rule protobuf_files.recordings_shown [OF protobuf_files.intro [OF assms(1)]])
  moreover have "concat (map (between bt et) (map recording_messages fs)) = filter (\<lambda>m. bt \<le> sm_time m \<and> sm_time m \<le> et) (concat (map recording_messages fs))"
    by (simp add: between_def [abs_def] filter_concat)
  ultimately show ?thesis using fs(2) by (intro exI [of _ fs]) (simp add: filter_sort conj_ac del: map_map)
qed


definition one_recording :: recording where "one_recording = ([], GetHeader, [PutMessage one_message])"

lemma one_recording_ok: "recording_ok plain_ser one_recording"
proof -
  have l: "length (plain_ser (SHeader h)) \<le> HEADER_LENGTH" for h by (simp add: length_enc_header HEADER_LENGTH_def)
  obtain f where "WriteHeader plain_ser GetHeader (fw_Open None [] GetHeader) = (True, (fw_Open None [] GetHeader)\<lparr>fw_file := f, fw_header := GetHeader\<lparr>hd_size := CurrentPosition f\<rparr>\<rparr>)"
    using header_write [of "fw_Open None [] GetHeader" plain_ser GetHeader "[]" "[]"] l by (auto simp: fw_Open_def)
  then have "keeps_up plain_ser [PutMessage one_message] (snd (WriteHeader plain_ser GetHeader (fw_Open None [] GetHeader)))"
    by (simp add: fw_Open_def Chunk_empty_def Chunk_def)
  then show ?thesis using one_message_file
    by (simp add: recording_ok_def recorded_def one_recording_def recording_messages_def timed_def GetHeader_def build_header_def) (simp add: one_message_def)
qed

theorem viewer_merges_recordings_witness:
  "view_all (ReadMessage plain_ser plain_parse) rr_Reset file_times 2
     (RecordViewer (\<lambda>rs. rs) GetChannelList rr_is_valid file_times 0 10 {} (map (open_recording plain_ser plain_parse) [one_recording])) = Some [one_message]"
proof -
  have p: "protobuf_ok plain_ser plain_parse" by (rule plain_files.protobuf)
  have n: "length (concat (map recording_messages [one_recording])) < 2" by (simp add: recording_messages_def one_recording_def)
  have ok: "\<forall>f\<in>set [one_recording]. recording_ok plain_ser f" using one_recording_ok by simp
  obtain fs where fs: "mset fs = mset [one_recording]"
    "view_all (ReadMessage plain_ser plain_parse) rr_Reset file_times 2
      (RecordViewer (\<lambda>rs. rs) GetChannelList rr_is_valid file_times 0 10 {} (map (open_recording plain_ser plain_parse) [one_recording]))
    = Some (filter (\<lambda>m. (({} :: string set) = {} \<or> sm_channel_name m \<in> {}) \<and> 0 \<le> sm_time m \<and> sm_time m \<le> 10) (sort_key sm_time (concat (map recording_messages fs))))"
    using viewer_merges_recordings [where srt = "\<lambda>rs. rs" and bt = 0 and et = 10 and chans = "{}", OF p ok refl n] by blast
  then have "fs = [one_recording]" by simp
  then show ?thesis using fs(2) by (simp add: recording_messages_def one_recording_def) (simp add: one_message_def)
qed

end
