(* ===== verification/Record_Tools.thy ===== *)
theory Record_Tools
  imports Record_Viewer Channel_Manager
begin

text \<open>
  The tools of \<^verbatim>\<open>cyber/tools/cyber_recorder\<close> that work on record files: the spliter, which copies a selection of channels and a span of time, the recoverer,
  which copies what a file holds that was not closed, the recorder, which finds the channels to record, and the player with its buffer of tasks.  What a
  tool does to its output is the list of its calls of the writer; the turns of the flush thread come in between (\<open>Record_Contents\<close>).
\<close>

section \<open>Spliter\<close>

definition selected :: "string list \<Rightarrow> string list \<Rightarrow> string \<Rightarrow> bool" where
  "selected white black c \<longleftrightarrow> (white = [] \<or> c \<in> set white) \<and> c \<notin> set black"

text \<open>One turn of the loop: go on with the skip flag and the calls so far, or return.\<close>

definition spliter_turn ::
  "serializer \<Rightarrow> parser \<Rightarrow> (string \<Rightarrow> bool) \<Rightarrow> u64 \<Rightarrow> u64 \<Rightarrow> bool \<Rightarrow> write_op list \<Rightarrow> file_reader \<Rightarrow> (bool \<times> write_op list \<times> file_reader) + (bool \<times> write_op list)" where
  "spliter_turn ser parse sel bt et skip calls r =
     (case ReadSection r of
        (None, r) \<Rightarrow> Inr (False, calls)
      | (Some (t, sz), r) \<Rightarrow>
          if t = section_code SECTION_INDEX then Inr (True, calls)
          else if t = section_code SECTION_CHANNEL
          then case ReadSection_msg ser parse SECTION_CHANNEL sz r of
                 (Some (SChannel c), r) \<Rightarrow> Inl (skip, if sel (ch_name c) then calls @ [PutChannel c] else calls, r)
               | _ \<Rightarrow> Inr (False, calls)
          else if t = section_code SECTION_CHUNK_HEADER
          then case ReadSection_msg ser parse SECTION_CHUNK_HEADER sz r of
                 (Some (SChunkHeader ck), r) \<Rightarrow> Inl (skip \<or> bt > ck_end_time ck \<or> et < ck_begin_time ck, calls, r)
               | _ \<Rightarrow> Inr (False, calls)
          else if t = section_code SECTION_CHUNK_BODY
          then if skip then Inl (False, calls, snd (SkipSection sz r))
               else case ReadSection_msg ser parse SECTION_CHUNK_BODY sz r of
                      (Some (SChunkBody ms), r) \<Rightarrow>
                        Inl (skip, calls @ map PutMessage (filter (\<lambda>m. sel (sm_channel_name m) \<and> \<not> (sm_time m < bt \<or> sm_time m > et)) ms), r)
                    | _ \<Rightarrow> Inr (False, calls)
          else Inl (skip, calls, r))"

partial_function (option) spliter_loop ::
  "serializer \<Rightarrow> parser \<Rightarrow> (string \<Rightarrow> bool) \<Rightarrow> u64 \<Rightarrow> u64 \<Rightarrow> bool \<Rightarrow> write_op list \<Rightarrow> file_reader \<Rightarrow> (bool \<times> write_op list) option" where
  "spliter_loop ser parse sel bt et skip calls r =
     (if fr_end_of_file r then Some (True, calls)
      else case spliter_turn ser parse sel bt et skip calls r of
             Inl (skip, calls, r) \<Rightarrow> spliter_loop ser parse sel bt et skip calls r
           | Inr res \<Rightarrow> Some res)"

text \<open>\<open>opens\<close>: the output is opened and its header written.\<close>

definition Spliter_Proc ::
  "serializer \<Rightarrow> parser \<Rightarrow> string list \<Rightarrow> string list \<Rightarrow> u64 \<Rightarrow> u64 \<Rightarrow> u8 list option \<Rightarrow> rec_header \<Rightarrow> bool \<Rightarrow> (bool \<times> write_op list) option" where
  "Spliter_Proc ser parse white black bt et content h0 opens =
     (if bt \<ge> et \<or> (\<exists>c\<in>set white. c \<in> set black) then Some (False, [])
      else case fr_Open ser parse content h0 of
             (False, r) \<Rightarrow> Some (False, [])
           | (True, r) \<Rightarrow>
               if bt > hd_end_time (fr_header r) \<or> et < hd_begin_time (fr_header r) \<or> \<not> opens then Some (False, [])
               else spliter_loop ser parse (selected white black) bt et False [] (snd (fr_Reset r)))"

section \<open>Recoverer\<close>

fun recover_index :: "single_index list \<Rightarrow> string list \<Rightarrow> write_op list \<Rightarrow> string list \<times> write_op list" where
  "recover_index [] seen calls = (seen, calls)"
| "recover_index (i # is) seen calls =
     (if si_type i \<noteq> SECTION_CHANNEL then recover_index is seen calls
      else case si_cache i of
             ChannelCache n name ty desc \<Rightarrow>
               if name \<in> set seen then recover_index is seen calls
               else recover_index is (seen @ [name]) (calls @ [PutChannel \<lparr>ch_name = name, ch_message_type = ty, ch_proto_desc = desc\<rparr>])
           | _ \<Rightarrow> recover_index is seen calls)"

definition recover_turn ::
  "serializer \<Rightarrow> parser \<Rightarrow> string list \<Rightarrow> write_op list \<Rightarrow> file_reader \<Rightarrow> (string list \<times> write_op list \<times> file_reader) + (bool \<times> write_op list)" where
  "recover_turn ser parse seen calls r =
     (case ReadSection r of
        (None, r) \<Rightarrow> Inl (seen, calls, r)
      | (Some (t, sz), r) \<Rightarrow>
          if t = section_code SECTION_INDEX then Inr (True, calls)
          else if t = section_code SECTION_CHANNEL
          then case ReadSection_msg ser parse SECTION_CHANNEL sz r of
                 (Some (SChannel c), r) \<Rightarrow> if ch_name c \<in> set seen then Inl (seen, calls, r) else Inl (seen @ [ch_name c], calls @ [PutChannel c], r)
               | (_, r) \<Rightarrow> Inl (seen, calls, r)
          else if t = section_code SECTION_CHUNK_HEADER
          then Inl (seen, calls, snd (ReadSection_msg ser parse SECTION_CHUNK_HEADER sz r))
          else if t = section_code SECTION_CHUNK_BODY
          then case ReadSection_msg ser parse SECTION_CHUNK_BODY sz r of
                 (Some (SChunkBody ms), r) \<Rightarrow> Inl (seen, calls @ map PutMessage ms, r)
               | (_, r) \<Rightarrow> Inl (seen, calls, r)
          else Inr (False, calls))"

partial_function (option) recover_loop ::
  "serializer \<Rightarrow> parser \<Rightarrow> string list \<Rightarrow> write_op list \<Rightarrow> file_reader \<Rightarrow> (bool \<times> write_op list) option" where
  "recover_loop ser parse seen calls r =
     (if fr_end_of_file r then Some (True, calls)
      else case recover_turn ser parse seen calls r of
             Inl (seen, calls, r) \<Rightarrow> recover_loop ser parse seen calls r
           | Inr res \<Rightarrow> Some res)"

definition Recoverer_Proc ::
  "serializer \<Rightarrow> parser \<Rightarrow> u8 list option \<Rightarrow> rec_header \<Rightarrow> bool \<Rightarrow> (bool \<times> write_op list) option" where
  "Recoverer_Proc ser parse content h0 opens =
     (case fr_Open ser parse content h0 of
        (False, r) \<Rightarrow> Some (False, [])
      | (True, r) \<Rightarrow>
          if \<not> opens then Some (False, [])
          else case ReadIndex ser parse r of
                 (ok, r) \<Rightarrow>
                   (case (if ok then recover_index (fr_index r) [] [] else ([], [])) of
                      (seen, calls) \<Rightarrow> recover_loop ser parse seen calls (snd (fr_Reset r))))"

section \<open>Where a file reader stands\<close>

definition fr_before :: "serializer \<Rightarrow> file_reader \<Rightarrow> section_msg list \<Rightarrow> u8 list \<Rightarrow> bool" where
  "fr_before ser r ss post \<longleftrightarrow> \<not> fr_end_of_file r \<and>
     (\<exists>pre. fr_at r pre (body_bytes ser ss @ post) \<and> length pre + length (body_bytes ser ss) < 2 ^ 31)"

lemma end_of_file_kept:
  "ReadSection r = (Some x, r') \<Longrightarrow> fr_end_of_file r' = fr_end_of_file r"
  "ReadSection_msg ser parse t sz r = (Some m, r') \<Longrightarrow> fr_end_of_file r' = fr_end_of_file r"
  "fr_end_of_file (snd (SkipSection sz r)) = fr_end_of_file r"
  by (auto simp: ReadSection_def ReadSection_msg_def SkipSection_def fr_SetPosition_def Let_def split: if_splits prod.splits sum.splits)

lemma fr_before_section:
  assumes "protobuf_ok ser parse" "fr_before ser r (m # ss) post"
  obtains r1 r2 where "ReadSection r = (Some (section_code (section_of m), int (length (ser m))), r1)"
    "ReadSection_msg ser parse (section_of m) (int (length (ser m))) r1 = (Some m, r2)" "fr_before ser r2 ss post"
    "fr_before ser (snd (SkipSection (int (length (ser m))) r1)) ss post"
proof -
  let ?s = "section_bytes (section_of m) (length (ser m))"
  obtain pre where a: "fr_at r pre (sec_bytes ser m @ body_bytes ser ss @ post)" "length pre + length (sec_bytes ser m) + length (body_bytes ser ss) < 2 ^ 31"
    and eof: "\<not> fr_end_of_file r" using assms(2) by (auto simp: fr_before_def)
  then have n: "length (ser m) < 2 ^ 31" by (simp add: sec_bytes_def)
  obtain r1 where r1: "ReadSection r = (Some (section_code (section_of m), int (length (ser m))), r1)" "fr_at r1 (pre @ ?s) (ser m @ body_bytes ser ss @ post)"
    using ReadSection_at [OF a(1) n] by metis
  obtain r2 where r2: "ReadSection_msg ser parse (section_of m) (int (length (ser m))) r1 = (Some m, r2)" "fr_at r2 ((pre @ ?s) @ ser m) (body_bytes ser ss @ post)"
    using ReadSection_msg_at [OF assms(1) r1(2) n] by metis
  have l: "length ((pre @ ?s) @ ser m) < 2 ^ 31" "length ((pre @ ?s) @ ser m) + length (body_bytes ser ss) < 2 ^ 31" using a(2) by (simp_all add: sec_bytes_def)
  obtain r3 where r3: "SkipSection (int (length (ser m))) r1 = (True, r3)" "fr_at r3 ((pre @ ?s) @ ser m) (body_bytes ser ss @ post)"
    using SkipSection_at [OF r1(2) l(1)] by metis
  have "\<not> fr_end_of_file r2" "\<not> fr_end_of_file r3"
    using end_of_file_kept(1) [OF r1(1)] end_of_file_kept(2) [OF r2(1)] end_of_file_kept(3) [of "int (length (ser m))" r1] r3(1) eof by simp_all
  then have "fr_before ser r2 ss post" "fr_before ser r3 ss post" unfolding fr_before_def using r2(2) r3(2) l(2) by blast+
  then show thesis using that r1(1) r2(1) r3(1) by simp
qed

section \<open>What the spliter copies\<close>

fun split_calls :: "(string \<Rightarrow> bool) \<Rightarrow> u64 \<Rightarrow> u64 \<Rightarrow> bool \<Rightarrow> section_msg list \<Rightarrow> write_op list" where
  "split_calls sel bt et skip (SChannel c # ss) = (if sel (ch_name c) then [PutChannel c] else []) @ split_calls sel bt et skip ss"
| "split_calls sel bt et skip (SChunkHeader ck # ss) = split_calls sel bt et (skip \<or> bt > ck_end_time ck \<or> et < ck_begin_time ck) ss"
| "split_calls sel bt et skip (SChunkBody ms # ss) =
     (if skip then [] else map PutMessage (filter (\<lambda>m. sel (sm_channel_name m) \<and> \<not> (sm_time m < bt \<or> sm_time m > et)) ms)) @ split_calls sel bt et False ss"
| "split_calls sel bt et skip _ = []"

lemma spliter_loop_sections:
  assumes "protobuf_ok ser parse" "fr_before ser r (ss @ [SIndex idx]) post" "list_all is_body_section ss"
  shows "spliter_loop ser parse sel bt et skip calls r = Some (True, calls @ split_calls sel bt et skip ss)"
  using assms(2,3)
proof (induction ss arbitrary: r skip calls)
  case Nil
  then obtain r1 where "ReadSection r = (Some (section_code SECTION_INDEX, int (length (ser (SIndex idx)))), r1)"
    using fr_before_section [OF assms(1), of r "SIndex idx" "[]" post] by auto
  moreover have "\<not> fr_end_of_file r" using Nil by (simp add: fr_before_def)
  ultimately show ?case by (subst spliter_loop.simps) (simp add: spliter_turn_def)
next
  case (Cons m ss)
  have ne: "\<not> fr_end_of_file r" using Cons.prems by (simp add: fr_before_def)
  obtain r1 r2 where r: "ReadSection r = (Some (section_code (section_of m), int (length (ser m))), r1)"
    "ReadSection_msg ser parse (section_of m) (int (length (ser m))) r1 = (Some m, r2)" "fr_before ser r2 (ss @ [SIndex idx]) post"
    "fr_before ser (snd (SkipSection (int (length (ser m))) r1)) (ss @ [SIndex idx]) post"
    using fr_before_section [OF assms(1)] Cons.prems(1) by (metis append_Cons)
  have bs: "list_all is_body_section ss" using Cons.prems(2) by simp
  note IH = Cons.IH [OF r(3) bs] Cons.IH [OF r(4) bs]
  show ?case
  proof (cases m)
    case (SChannel c)
    then show ?thesis using r(1,2) ne IH(1) by (subst spliter_loop.simps) (simp add: spliter_turn_def)
  next
    case (SChunkHeader ck)
    then show ?thesis using r(1,2) ne IH(1) by (subst spliter_loop.simps) (simp add: spliter_turn_def)
  next
    case (SChunkBody ms)
    then show ?thesis using r(1,2) ne IH by (subst spliter_loop.simps) (simp add: spliter_turn_def)
  qed (use Cons.prems(2) in simp_all)
qed

lemma split_calls_messages:
  "covered ss \<Longrightarrow> put_messages (split_calls sel bt et False ss) = filter (\<lambda>m. sel (sm_channel_name m) \<and> bt \<le> sm_time m \<and> sm_time m \<le> et) (sec_msgs ss)"
proof (induction ss rule: covered.induct)
  case (4 ck ms ss)
  have "filter (\<lambda>m. sel (sm_channel_name m) \<and> bt \<le> sm_time m \<and> sm_time m \<le> et) ms = []" if "bt > ck_end_time ck \<or> et < ck_begin_time ck"
    using 4(2) that by (fastforce simp: filter_empty_conv)
  then show ?case using 4 by (auto simp: sec_msgs_def not_less)
qed (auto simp: sec_msgs_def not_less)

text \<open>The spliter copies exactly the selected messages of the span, in their order.\<close>

lemma spliter_copies_selection:
  assumes "protobuf_ok ser parse" "content = header_block ser h @ body_bytes ser (secs its @ [SIndex idx]) @ rest" "length content < 2 ^ 31" "items_covered its"
    "bt < et" "\<not> (\<exists>c\<in>set white. c \<in> set black)" "bt \<le> hd_end_time h" "hd_begin_time h \<le> et"
  shows "\<exists>calls. Spliter_Proc ser parse white black bt et (Some content) h0 True = Some (True, calls) \<and>
    put_messages calls = filter (\<lambda>m. selected white black (sm_channel_name m) \<and> bt \<le> sm_time m \<and> sm_time m \<le> et) (msgs its)"
proof -
  have lh: "length (header_block ser h) = 16 + HEADER_LENGTH" using assms(1) length_header_block [of ser h] by (simp add: protobuf_ok_def)
  let ?r0 = "\<lparr>fr_file = \<lparr>f_bytes = content, f_pos = 0, f_room = None\<rparr>, fr_header = h0, fr_index = [], fr_end_of_file = False\<rparr>"
  obtain r1 where r1: "ReadHeader ser parse ?r0 = (True, r1)" "fr_header r1 = h" "fr_at r1 (header_block ser h) (body_bytes ser (secs its @ [SIndex idx]) @ rest)"
    using ReadHeader_at [OF assms(1), of ?r0 h] assms(2) by auto
  let ?r2 = "r1\<lparr>fr_file := (fr_file r1)\<lparr>f_pos := 16 + HEADER_LENGTH\<rparr>, fr_end_of_file := False\<rparr>"
  have r2: "fr_Reset r1 = (True, ?r2)" by (simp add: fr_Reset_def fr_SetPosition_def SetPosition_def nat_int_add)
  have "fr_before ser ?r2 (secs its @ [SIndex idx]) rest"
    unfolding fr_before_def using r1(3) assms(2,3) lh by (intro conjI exI [of _ "header_block ser h"]) (simp_all add: fr_at_def)
  note loop = spliter_loop_sections [OF assms(1) this covered_sections [OF items_covered_sections [OF assms(4)]], of "selected white black" bt et False "[]"]
  have "Spliter_Proc ser parse white black bt et (Some content) h0 True = Some (True, split_calls (selected white black) bt et False (secs its))"
    using assms(5-8) r1(1,2) r2 loop by (auto simp: Spliter_Proc_def fr_Open_def)
  then show ?thesis using split_calls_messages [OF items_covered_sections [OF assms(4)]] by (simp add: sec_msgs_secs)
qed

section \<open>What the recoverer saves\<close>

fun recover_calls :: "string list \<Rightarrow> section_msg list \<Rightarrow> write_op list" where
  "recover_calls seen (SChannel c # ss) = (if ch_name c \<in> set seen then recover_calls seen ss else PutChannel c # recover_calls (seen @ [ch_name c]) ss)"
| "recover_calls seen (SChunkBody ms # ss) = map PutMessage ms @ recover_calls seen ss"
| "recover_calls seen (s # ss) = recover_calls seen ss"
| "recover_calls seen [] = []"

lemma read_at_end:
  assumes "fr_at r pre []" "\<not> fr_end_of_file r"
  shows "\<exists>r'. ReadSection r = (None, r') \<and> fr_end_of_file r'"
  using assms by (simp add: ReadSection_def fd_read_def fr_at_def)

lemma recover_loop_sections:
  assumes "protobuf_ok ser parse" "fr_before ser r ss []" "list_all is_body_section ss"
  shows "recover_loop ser parse seen calls r = Some (True, calls @ recover_calls seen ss)"
  using assms(2,3)
proof (induction ss arbitrary: r seen calls)
  case Nil
  then obtain pre where "fr_at r pre []" "\<not> fr_end_of_file r" by (auto simp: fr_before_def)
  then obtain r' where "ReadSection r = (None, r')" "fr_end_of_file r'" using read_at_end by blast
  then show ?case using \<open>\<not> fr_end_of_file r\<close> by (subst recover_loop.simps) (simp add: recover_turn_def recover_loop.simps [of _ _ _ _ r'])
next
  case (Cons m ss)
  have ne: "\<not> fr_end_of_file r" using Cons.prems by (simp add: fr_before_def)
  obtain r1 r2 where r: "ReadSection r = (Some (section_code (section_of m), int (length (ser m))), r1)"
    "ReadSection_msg ser parse (section_of m) (int (length (ser m))) r1 = (Some m, r2)" "fr_before ser r2 ss []"
    using fr_before_section [OF assms(1)] Cons.prems(1) by metis
  have bs: "list_all is_body_section ss" using Cons.prems(2) by simp
  note IH = Cons.IH [OF r(3) bs]
  show ?case using Cons.prems(2) r(1,2) ne IH by (cases m; subst recover_loop.simps) (simp_all add: recover_turn_def)
qed

lemma recover_calls_messages: "put_messages (recover_calls seen ss) = sec_msgs ss"
  by (induction seen ss rule: recover_calls.induct) (simp_all add: sec_msgs_def)

text \<open>
  A file of a recorder that was killed: the header that was written first, and the sections that were flushed.  All their messages are copied, and each channel once.
\<close>

lemma recoverer_saves_all:
  assumes "protobuf_ok ser parse" "content = header_block ser h @ body_bytes ser (secs its)" "length content < 2 ^ 31" "\<not> hd_is_complete h"
  shows "\<exists>calls. Recoverer_Proc ser parse (Some content) h0 True = Some (True, calls) \<and> put_messages calls = msgs its"
proof -
  have lh: "length (header_block ser h) = 16 + HEADER_LENGTH" using assms(1) length_header_block [of ser h] by (simp add: protobuf_ok_def)
  let ?r0 = "\<lparr>fr_file = \<lparr>f_bytes = content, f_pos = 0, f_room = None\<rparr>, fr_header = h0, fr_index = [], fr_end_of_file = False\<rparr>"
  obtain r1 where r1: "ReadHeader ser parse ?r0 = (True, r1)" "fr_header r1 = h" "fr_at r1 (header_block ser h) (body_bytes ser (secs its))"
    using ReadHeader_at [OF assms(1), of ?r0 h] assms(2) by auto
  let ?r2 = "r1\<lparr>fr_file := (fr_file r1)\<lparr>f_pos := 16 + HEADER_LENGTH\<rparr>, fr_end_of_file := False\<rparr>"
  have r2: "fr_Reset r1 = (True, ?r2)" by (simp add: fr_Reset_def fr_SetPosition_def SetPosition_def nat_int_add)
  have "fr_before ser ?r2 (secs its) []"
    unfolding fr_before_def using r1(3) assms(2,3) lh by (intro conjI exI [of _ "header_block ser h"]) (simp_all add: fr_at_def)
  moreover have "list_all is_body_section (secs its)"
  proof (induction its)
    case (Cons it its)
    then show ?case by (cases it) (simp_all add: secs_def)
  qed simp
  ultimately have loop: "recover_loop ser parse [] [] ?r2 = Some (True, recover_calls [] (secs its))" using recover_loop_sections [OF assms(1), of ?r2 "secs its" "[]" "[]"] by simp
  have "Recoverer_Proc ser parse (Some content) h0 True = Some (True, recover_calls [] (secs its))"
    using r1(1,2) assms(4) loop r2 by (simp add: Recoverer_Proc_def fr_Open_def ReadIndex_def)
  then show ?thesis by (simp add: recover_calls_messages sec_msgs_secs)
qed

section \<open>Recorder\<close>

datatype recorder_call = Record_Channel string string string | Record_Message string "u8 list" u64

record recorder =
  rc_all_channels :: bool
  rc_white :: "string list"
  rc_black :: "string list"
  rc_readers :: "string list"
  rc_started :: bool
  rc_stopping :: bool
  rc_calls :: "recorder_call list"
  rc_message_count :: u64
  rc_message_time :: u64

text \<open>\<open>creates\<close>: whether the reader of a channel is created.\<close>

definition FindNewChannel :: "(string \<Rightarrow> bool) \<Rightarrow> role_attributes \<Rightarrow> recorder \<Rightarrow> recorder" where
  "FindNewChannel creates a r =
     (case (attr_channel_name a, attr_message_type a, attr_proto_desc a) of
        (Some c, Some ty, Some desc) \<Rightarrow>
          if c = [] \<or> ty = [] \<or> desc = [] then r
          else if \<not> rc_all_channels r \<and> c \<notin> set (rc_white r) then r
          else if c \<in> set (rc_black r) then r
          else if c \<in> set (rc_readers r) then r
          else r\<lparr>rc_calls := rc_calls r @ [Record_Channel c ty desc], rc_readers := (if creates c then rc_readers r @ [c] else rc_readers r)\<rparr>
      | _ \<Rightarrow> r)"

definition TopologyCallback :: "(string \<Rightarrow> bool) \<Rightarrow> change_msg \<Rightarrow> recorder \<Rightarrow> recorder" where
  "TopologyCallback creates msg r = (if msg_role_type msg \<noteq> ROLE_WRITER then r else FindNewChannel creates (msg_role_attr msg) r)"

text \<open>\<^verbatim>\<open>Start\<close> up to the listener; \<open>opens\<close>: the file is opened and the node created.\<close>

definition Recorder_Start :: "bool \<Rightarrow> (string \<Rightarrow> bool) \<Rightarrow> channel_manager \<Rightarrow> recorder \<Rightarrow> bool \<times> recorder" where
  "Recorder_Start opens creates cm r =
     (if (\<exists>c\<in>set (rc_white r). c \<in> set (rc_black r)) \<or> \<not> opens then (False, r)
      else (True, (fold (FindNewChannel creates) (GetWriters [] cm) r)\<lparr>rc_message_count := 0, rc_message_time := 0, rc_started := True\<rparr>))"

definition ReaderCallback :: "u64 \<Rightarrow> u8 list option \<Rightarrow> string \<Rightarrow> recorder \<Rightarrow> recorder" where
  "ReaderCallback now message c r =
     (if \<not> rc_started r \<or> rc_stopping r then r
      else case message of
             None \<Rightarrow> r
           | Some content \<Rightarrow> r\<lparr>rc_message_time := now, rc_calls := rc_calls r @ [Record_Message c content now], rc_message_count := rc_message_count r + 1\<rparr>)"

definition Recorder_Stop :: "recorder \<Rightarrow> bool \<times> recorder" where
  "Recorder_Stop r = (if \<not> rc_started r \<or> rc_stopping r then (False, r) else (True, r\<lparr>rc_started := False, rc_stopping := False\<rparr>))"

definition to_record :: "recorder \<Rightarrow> role_attributes \<Rightarrow> string \<Rightarrow> bool" where
  "to_record r a c \<longleftrightarrow> attr_channel_name a = Some c \<and> c \<noteq> [] \<and> (\<exists>ty. attr_message_type a = Some ty \<and> ty \<noteq> []) \<and> (\<exists>d. attr_proto_desc a = Some d \<and> d \<noteq> [])
     \<and> (rc_all_channels r \<or> c \<in> set (rc_white r)) \<and> c \<notin> set (rc_black r)"

lemma FindNewChannel_readers:
  "set (rc_readers (FindNewChannel (\<lambda>_. True) a r)) = set (rc_readers r) \<union> {c. to_record r a c}"
  "to_record (FindNewChannel creates a r) = to_record r"
  by (auto simp: FindNewChannel_def to_record_def fun_eq_iff split: option.splits)

text \<open>The channels that are recorded: those of the writers there are that are asked for and described.\<close>

lemma recorder_reads_channels:
  assumes "Recorder_Start opens (\<lambda>_. True) cm r = (True, r')"
  shows "set (rc_readers r') = set (rc_readers r) \<union> {c. \<exists>a\<in>set (GetWriters [] cm). to_record r a c}"
proof -
  have "set (rc_readers (fold (FindNewChannel (\<lambda>_. True)) as s)) = set (rc_readers s) \<union> {c. \<exists>a\<in>set as. to_record s a c}" for as s
    by (induction as arbitrary: s) (auto simp: FindNewChannel_readers)
  then show ?thesis using assms by (auto simp: Recorder_Start_def split: if_splits)
qed

text \<open>A writer that leaves is handled like one that joins: its channel is recorded from then on.\<close>

lemma leaving_writer_is_recorded:
  assumes "msg_role_type msg = ROLE_WRITER" "msg_operate_type msg = OPT_LEAVE" "to_record r (msg_role_attr msg) c"
  shows "c \<in> set (rc_readers (TopologyCallback (\<lambda>_. True) msg r))"
  using assms(1,3) FindNewChannel_readers(1) by (simp add: TopologyCallback_def)

section \<open>Player\<close>

record play_task =
  pt_channel :: string
  pt_content :: "u8 list"
  pt_real_time :: u64
  pt_play_time :: u64

text \<open>The buffer is ordered by the time of playing; a new task goes behind those of the same time.\<close>

definition Buffer_Push :: "play_task \<Rightarrow> play_task list \<Rightarrow> play_task list" where
  "Buffer_Push t b = takeWhile (\<lambda>x. pt_play_time x \<le> pt_play_time t) b @ t # dropWhile (\<lambda>x. pt_play_time x \<le> pt_play_time t) b"

definition Buffer_Front :: "play_task list \<Rightarrow> play_task option" where "Buffer_Front b = (case b of [] \<Rightarrow> None | t # _ \<Rightarrow> Some t)"

definition Buffer_PopFront :: "play_task list \<Rightarrow> play_task list" where "Buffer_PopFront b = (case b of [] \<Rightarrow> [] | _ # b \<Rightarrow> b)"

text \<open>The tasks of one round of the producer over the viewer; channels without a writer are left out.\<close>

definition produce :: "string set \<Rightarrow> u64 \<Rightarrow> single_message list \<Rightarrow> play_task list" where
  "produce writers plus_time ms =
     map (\<lambda>m. \<lparr>pt_channel = sm_channel_name m, pt_content = sm_content m, pt_real_time = sm_time m, pt_play_time = sm_time m + plus_time\<rparr>)
       (filter (\<lambda>m. sm_channel_name m \<in> writers) ms)"

text \<open>Playing in a loop: the round \<open>k\<close> is \<open>k\<close> times the length of the record later.\<close>

definition loop_tasks :: "string set \<Rightarrow> u64 \<Rightarrow> single_message list \<Rightarrow> nat \<Rightarrow> play_task list" where
  "loop_tasks writers loop_time ms n = concat (map (\<lambda>k. produce writers (of_nat k * loop_time) ms) [0..<n])"

definition total_msg_num :: "bool \<Rightarrow> string set \<Rightarrow> string set \<Rightarrow> (string list \<times> (string \<Rightarrow> u64) \<times> u64) list \<Rightarrow> u64" where
  "total_msg_num play_all chosen black readers =
     fold (\<lambda>(chans, number, header_number) total.
        (let total = fold (\<lambda>c total. if c \<in> black then total - number c else if \<not> play_all \<and> c \<in> chosen then total + number c else total) chans total
         in if play_all then total + header_number else total)) readers 0"

definition UpdatePlayParam :: "u64 \<Rightarrow> u64 \<Rightarrow> u64 \<Rightarrow> u64 \<Rightarrow> u64 \<Rightarrow> (u64 \<times> u64) option" where
  "UpdatePlayParam earliest latest start_ns bt et =
     (let bt = (if bt < earliest then earliest else bt) + start_ns;
          et = (if et > latest then latest else et)
      in if bt \<ge> et then None else Some (bt, et))"

text \<open>Messages of black channels are taken off the count also when they were never counted: it wraps.\<close>

lemma total_msg_num_wraps: "total_msg_num False {} {c} [([c], \<lambda>_. 1, 1)] = -1"
  by (simp add: total_msg_num_def)

text \<open>The threads of producer and consumer; the consumer plays the front task before it removes it.\<close>

record player =
  pl_todo :: "play_task list"
  pl_buffer :: "play_task list"
  pl_front :: "play_task option"
  pl_played :: "play_task list"

inductive player_step :: "player \<Rightarrow> player \<Rightarrow> bool" where
  Push: "pl_todo s = t # ts \<Longrightarrow> player_step s (s\<lparr>pl_todo := ts, pl_buffer := Buffer_Push t (pl_buffer s)\<rparr>)"
| Play: "pl_front s = None \<Longrightarrow> Buffer_Front (pl_buffer s) = Some t \<Longrightarrow> player_step s (s\<lparr>pl_front := Some t, pl_played := pl_played s @ [t]\<rparr>)"
| Pop: "pl_front s = Some t \<Longrightarrow> player_step s (s\<lparr>pl_front := None, pl_buffer := Buffer_PopFront (pl_buffer s)\<rparr>)"

inductive_cases player_stepE: "player_step s s'"

definition player_ok :: "play_task list \<Rightarrow> player \<Rightarrow> bool" where
  "player_ok tasks s \<longleftrightarrow> (case pl_front s of None \<Rightarrow> pl_played s @ pl_buffer s @ pl_todo s = tasks
     | Some t \<Rightarrow> \<exists>b. pl_buffer s = t # b \<and> pl_played s @ b @ pl_todo s = tasks \<and> (\<exists>p. pl_played s = p @ [t]))"

lemma push_last:
  assumes "\<And>x. x \<in> set b \<Longrightarrow> pt_play_time x \<le> pt_play_time t"
  shows "Buffer_Push t b = b @ [t]"
proof -
  have "takeWhile (\<lambda>x. pt_play_time x \<le> pt_play_time t) b = b" "dropWhile (\<lambda>x. pt_play_time x \<le> pt_play_time t) b = []"
    using assms by (simp_all add: takeWhile_eq_all_conv dropWhile_eq_Nil_conv)
  then show ?thesis by (simp add: Buffer_Push_def)
qed

lemma player_step_ok:
  assumes "sorted (map pt_play_time tasks)" "player_ok tasks s" "player_step s s'"
  shows "player_ok tasks s'"
  using assms(3)
proof (cases rule: player_step.cases)
  case (Push t ts)
  have "pt_play_time x \<le> pt_play_time t" if "x \<in> set (pl_buffer s)" for x
  proof (cases "pl_front s")
    case None
    then have "tasks = (pl_played s @ pl_buffer s) @ t # ts" using assms(2) Push by (simp add: player_ok_def)
    then show ?thesis using assms(1) that by (auto simp: sorted_append)
  next
    case (Some f)
    then obtain b p where "pl_buffer s = f # b" "tasks = (p @ [f] @ b) @ t # ts" using assms(2) Push by (auto simp: player_ok_def)
    then show ?thesis using assms(1) that by (auto simp: sorted_append)
  qed
  then show ?thesis using assms(2) Push push_last [of "pl_buffer s" t] by (auto simp: player_ok_def split: option.splits)
next
  case (Play t)
  then show ?thesis using assms(2) by (auto simp: player_ok_def Buffer_Front_def split: list.splits)
next
  case (Pop t)
  then show ?thesis using assms(2) by (auto simp: player_ok_def Buffer_PopFront_def)
qed

text \<open>The tasks are played in their order, each once; when all is played nothing was left out.\<close>

lemma player_plays_in_order:
  assumes "sorted (map pt_play_time tasks)" "player_step\<^sup>*\<^sup>* \<lparr>pl_todo = tasks, pl_buffer = [], pl_front = None, pl_played = []\<rparr> s"
  shows "(\<exists>rest. tasks = pl_played s @ rest) \<and> (pl_todo s = [] \<longrightarrow> pl_buffer s = [] \<longrightarrow> pl_played s = tasks)"
proof -
  have "player_ok tasks s" using assms(2)
    by (induction rule: rtranclp_induct) (simp add: player_ok_def, blast intro: player_step_ok [OF assms(1)])
  then show ?thesis by (auto simp: player_ok_def split: option.splits)
qed

lemma shifted_time:
  assumes "unat t \<le> unat e" "unat e + n * unat L < 2 ^ 64" "k \<le> n"
  shows "unat (t + of_nat k * L :: u64) = unat t + k * unat L"
proof -
  have "k * unat L \<le> n * unat L" using assms(3) by simp
  then have b: "unat t + k * unat L < 2 ^ 64" using assms(1,2) by linarith
  have "t + of_nat k * L = of_nat (unat t + k * unat L)" by simp
  then show ?thesis using b by (metis unat_of_nat_u64)
qed

text \<open>The rounds of a loop follow each other in time, so that they are played one after the other.\<close>

lemma loop_tasks_sorted:
  assumes "by_time ms" "\<And>m. m \<in> set ms \<Longrightarrow> bt \<le> sm_time m \<and> sm_time m \<le> et" "bt \<le> et" "unat et + n * unat (et - bt) < 2 ^ 64"
  shows "sorted (map pt_play_time (loop_tasks writers (et - bt) ms n))"
  using assms(4)
proof (induction n)
  case (Suc n)
  let ?L = "et - bt" and ?t = "\<lambda>k m. sm_time m + of_nat k * (et - bt)"
  have time: "unat (?t k m) = unat (sm_time m) + k * unat ?L" if "m \<in> set ms" "k \<le> Suc n" for k m
    using shifted_time [of "sm_time m" et "Suc n" ?L k] assms(2) [OF that(1)] that(2) Suc.prems by (simp add: word_le_nat_alt)
  have L: "unat ?L = unat et - unat bt" using assms(3) by (simp add: unat_sub)
  have "sorted_wrt (\<lambda>x y. sm_time x \<le> sm_time y) (filter (\<lambda>m. sm_channel_name m \<in> writers) ms)" using assms(1) by (simp add: sorted_map sorted_wrt_filter)
  then have "sorted_wrt (\<lambda>x y. ?t n x \<le> ?t n y) (filter (\<lambda>m. sm_channel_name m \<in> writers) ms)"
    by (rule sorted_wrt_mono_rel [rotated]) (simp add: time word_le_nat_alt)
  then have "sorted (map pt_play_time (produce writers (of_nat n * ?L) ms))" by (simp add: produce_def sorted_map sorted_wrt_map)
  moreover have "x \<le> y" if xin: "x \<in> pt_play_time ` set (loop_tasks writers ?L ms n)" and yin: "y \<in> pt_play_time ` set (produce writers (of_nat n * ?L) ms)" for x y
  proof -
    obtain k m where x: "k < n" "m \<in> set ms" "x = ?t k m" using xin by (auto simp: loop_tasks_def produce_def)
    obtain m' where y: "m' \<in> set ms" "y = ?t n m'" using yin by (auto simp: produce_def)
    have "unat (sm_time m) \<le> unat et" "unat bt \<le> unat (sm_time m')" "unat bt \<le> unat et" using assms(2) x(2) y(1) assms(3) by (auto simp: word_le_nat_alt)
    moreover have "Suc k * unat ?L \<le> n * unat ?L" using x(1) by (intro mult_le_mono1) simp
    ultimately have "unat x \<le> unat y" using time [OF x(2), of k] time [OF y(1), of n] x(1) unfolding x(3) y(2) L by simp
    then show ?thesis by (simp add: word_le_nat_alt)
  qed
  moreover have "sorted (map pt_play_time (loop_tasks writers ?L ms n))" using Suc by simp
  ultimately show ?case by (auto simp: loop_tasks_def sorted_append)
qed (simp add: loop_tasks_def)

end
