(* ===== verification/Spec2Isabelle.thy ===== *)
theory Spec2Isabelle
  imports Fusion_Visitors Bounded_Queue_Threads Timers Name_Registry Topology_Manager Shm_Dispatch Rw_Locks
    Scheduler_Steps Routine_Wakeup Record_Writer Livox_Driver Object_Pools Nodes Parameters Unbounded_Queue Waiting_Queues Components Module_Controller Async_Tasks Times Io_Poller Record_Tools
begin

text \<open>
  Cyber RT is the middleware of an autonomous-driving stack: processes of \<^emph>\<open>nodes\<close> exchange messages over
  named \<^emph>\<open>channels\<close>, and the computation that a message triggers runs as a coroutine on a pool of processor threads.
  This development models the parts of it that carry its own logic and proves what makes them correct.
  It is a shallow embedding: classes are records, methods are functions on them, errors are values, and
  code that several threads run at once is a step relation whose steps are its atomic accesses.

  \<^bold>\<open>The way of a message.\<close>  A node (\<open>Nodes\<close>) makes writers and readers (\<open>Node_Endpoints\<close>).  A writer hands a message to its hybrid transmitter, which sends it on
  each of the ways on which a reader needs it (\<open>Hybrid_Transport\<close>): within the process (\<open>Intra_Dispatch\<close>), between processes of a host through shared memory, and
  between hosts by RTPS (\<open>Rtps_Transport\<close>).  Through shared memory the transmitter takes a free block of a segment, copies the message and notifies
  (\<open>Shm_Segment\<close>, \<open>Shm_Transport\<close>, \<open>Condition_Notifier\<close>, \<open>Byte_Codec\<close> for the notification itself).  The dispatcher of the receiving
  process listens to the notifications, reads the block and calls the handlers of the channel
  (\<open>Signals\<close>, \<open>Shm_Dispatch\<close>).  A handler puts the message into the channel buffers of the visitors and
  notifies them (\<open>Cache_Buffer\<close>, \<open>Data_Fusion\<close>, \<open>Fusion_Visitors\<close>), which makes the coroutine of the reader ready (\<open>Croutines\<close>,
  \<open>Routine_Wakeup\<close>); a processor then takes it from its run queue (\<open>Schedulers\<close>, \<open>Scheduler_Steps\<close>), and the component is called (\<open>Components\<close>).  Who is connected to
  whom is decided by service discovery (\<open>Role_Warehouse\<close>, \<open>Discovery_Managers\<close>, \<open>Channel_Manager\<close>, \<open>Topology_Graph\<close>, \<open>Topology_Manager\<close>).

  \<^bold>\<open>Theories and sources\<close> (paths under \<^verbatim>\<open>src/cyber\<close> unless said otherwise).

  \<^item> \<open>Cyber_Prelude\<close>: machine integers, ring indices, ordered tables and list lemmas.
  \<^item> \<open>Cache_Buffer\<close>: \<^verbatim>\<open>data/cache_buffer.h\<close>, \<^verbatim>\<open>data/channel_buffer.h\<close>.  The ring holds exactly the last messages; a reader that is at most
    one buffer behind gets every message, one that is further behind gets the newest.
  \<^item> \<open>Data_Fusion\<close>, \<open>Fusion_Visitors\<close>: \<^verbatim>\<open>data/data_dispatcher.h\<close>, \<^verbatim>\<open>data_notifier.h\<close>, \<^verbatim>\<open>data_visitor.h\<close>, \<^verbatim>\<open>fusion/all_latest.h\<close>.  What a visitor sees is a subsequence of
    what was published; a fused tuple pairs the primary message with the newest others.
  \<^item> \<open>Atomic_Hash_Map\<close>: \<^verbatim>\<open>base/atomic_hash_map.h\<close>.  Lookups and inserts, and that a compare-and-swap that succeeds is an atomic update whatever other
    threads inserted in between.
  \<^item> \<open>Bounded_Queue\<close>, \<open>Bounded_Queue_Threads\<close>: \<^verbatim>\<open>base/bounded_queue.h\<close>, first used by one thread, then by any number of
    producers and consumers.  \<open>Unbounded_Queue\<close>, \<open>Waiting_Queues\<close>: \<^verbatim>\<open>base/unbounded_queue.h\<close>, and the queues and pools of threads on which threads sleep.
    \<open>Object_Pools\<close>: \<^verbatim>\<open>base/object_pool.h\<close>, \<^verbatim>\<open>base/concurrent_object_pool.h\<close>.
    \<open>Rw_Locks\<close>: \<^verbatim>\<open>base/atomic_rw_lock.h\<close>, \<^verbatim>\<open>base/reentrant_rw_lock.h\<close> and the lock of a shared-memory block.
  \<^item> \<open>Timing_Wheel\<close>, \<open>Timers\<close>: \<^verbatim>\<open>timer\<close>.  A task fires exactly once at its tick, also across the wrap of both wheels.  \<open>Times\<close>: \<^verbatim>\<open>time\<close> and the conversions
    between Unix and GPS time.
  \<^item> \<open>Name_Registry\<close>: the name tables of \<^verbatim>\<open>common/global_data.cc\<close>.  \<open>Files\<close>: paths, configurations and directories of \<^verbatim>\<open>common/file.cc\<close>.
  \<^item> \<open>Role_Warehouse\<close>, \<open>Topology_Graph\<close>, \<open>Discovery_Managers\<close>, \<open>Channel_Manager\<close>, \<open>Topology_Manager\<close>: \<^verbatim>\<open>service_discovery\<close>.  The queries of the managers give
    exactly the endpoints that joined and did not leave; the flow graph is reachability.
  \<^item> \<open>Byte_Codec\<close>, \<open>Shm_Segment\<close>, \<open>Shm_Transport\<close>, \<open>Condition_Notifier\<close>, \<open>Signals\<close>, \<open>Shm_Dispatch\<close>: \<^verbatim>\<open>transport/shm\<close>, \<^verbatim>\<open>transport/message\<close>,
    \<^verbatim>\<open>transport/dispatcher\<close>, \<^verbatim>\<open>transport/transmitter/shm_transmitter.h\<close>, \<^verbatim>\<open>base/signal.h\<close>.  A message that is transmitted reaches exactly
    the subscribed listeners, unchanged.
  \<^item> \<open>Message_Traits\<close>, \<open>Qos_Profiles\<close>, \<open>Intra_Dispatch\<close>, \<open>Rtps_Transport\<close>, \<open>Hybrid_Transport\<close>: \<^verbatim>\<open>message\<close>, \<^verbatim>\<open>transport/qos\<close>, and the other ways of transport.
    A message goes to a reader on one way only; a transmitter is enabled if and only if a reader needs it.
  \<^item> \<open>Peer_Discovery\<close>, \<open>Node_Endpoints\<close>, \<open>Nodes\<close>, \<open>Blockers\<close>, \<open>Services\<close>, \<open>Parameters\<close>: \<^verbatim>\<open>node\<close>, \<^verbatim>\<open>blocker\<close>, \<^verbatim>\<open>service\<close>, \<^verbatim>\<open>parameter\<close>.  An endpoint that joins misses no
    opposite endpoint, whatever joins and leaves meanwhile; responses go to the requests they answer.
  \<^item> \<open>Croutines\<close>, \<open>Schedulers\<close>, \<open>Scheduler_Steps\<close>, \<open>Routine_Wakeup\<close>, \<open>Async_Tasks\<close>: \<^verbatim>\<open>croutine\<close>, \<^verbatim>\<open>scheduler\<close>, \<^verbatim>\<open>task\<close>.  No coroutine runs twice at once, none runs
    after its removal, the next one is of the highest ready priority, and no wake-up by a message is lost; a task of the task manager can be left waiting.
    \<open>Io_Poller\<close>: \<^verbatim>\<open>io\<close>.  Requests with a timeout are answered in time, and how the wake-up of a coroutine that waits for a socket is lost.
  \<^item> \<open>Components\<close>, \<open>Class_Loaders\<close>, \<open>Module_Controller\<close>: \<^verbatim>\<open>component\<close>, \<^verbatim>\<open>class_loader\<close>, \<^verbatim>\<open>mainboard\<close>.  A component is called with the newest messages; the code of an
    object stays loaded.
  \<^item> \<open>Record_File\<close>, \<open>Record_Contents\<close>, \<open>Record_Reader\<close>, \<open>Record_Roundtrip\<close>, \<open>Record_Writer\<close>, \<open>Record_Windows\<close>, \<open>Record_Viewer\<close>, \<open>Record_Tools\<close>: \<^verbatim>\<open>record\<close>
    and \<^verbatim>\<open>tools/cyber_recorder\<close>.  A closed file reads back as
    what was written, a record split into segments loses nothing, a viewer merges files by time, the spliter copies exactly what is selected, and the
    recoverer saves everything that was flushed.  \<open>Plain_Codec\<close> is an instance of the laws that
    are required of protobuf.
  \<^item> \<open>Fast_Crc\<close>, \<open>Livox_Protocol\<close>, \<open>Livox_Driver\<close>: \<^verbatim>\<open>src/modules/drivers/livox\<close>.  The table-driven checksums are those of the bitwise shift registers; commands
    survive packing; the frames of the point cloud receiver do not mix.

  \<^bold>\<open>Interfaces.\<close>  The locales and where they hold: \<open>key_store\<close>, \<open>key_registry\<close> and \<open>fifo\<close> of \<open>Cyber_Interfaces\<close> (the hash map, the tables of
  notifiers and buffers on it, and both queues), \<open>run_queue\<close> (both schedulers), \<open>codec\<close> (the binary records and the messages with headers), \<open>rw_lock\<close> (the three locks), \<open>warehouse\<close> (the role
  warehouses), \<open>peer_set\<close> (the peers of readers and of writers), \<open>record_source\<close> (the reader of record files, for every
  serialiser that satisfies \<open>protobuf_files\<close>).

  \<^bold>\<open>Parameters.\<close>  Hash functions, the protobuf serialiser and parser, the operating system's shared memory, files and clocks,
  the callbacks of the user and the order in which unordered containers are walked are arguments of the
  definitions.  What is required of them are hypotheses of the theorems, with witnesses that show that they can hold.

  \<^bold>\<open>Bounds.\<close>  Counters are words of their width.  Loops that may not end are partial functions in the option monad or carry
  fuel: the probing of names of a full table, the search of a free block, the reader of a damaged file.  For each of them
  a theorem says when it ends, so that no result rests on fuel that was too small.

  \<^bold>\<open>Interleaving.\<close>  The step relations take sequentially consistent atomics; orderings weaker than that are not modelled.
  Code under a mutex is one step where every access to the state takes the mutex.

  \<^bold>\<open>Not modelled.\<close>  Generated protobuf and RTPS code, the assembly of the context switch, logging and performance events, the multicast notifier, the Python bindings, the monitor and the
  example components: they are bindings, output or glue.  What a component leaves out (printing, doubles, calls of the operating system in sequence) is said
  in its note of the manifest, which lists every part.
\<close>

end
